(* ===== verification/Issd_Prelude.thy ===== *)
theory Issd_Prelude
  imports Main "HOL-Library.Word" "HOL-Library.Monad_Syntax"
begin

text \<open>
  Shared vocabulary of the development: the C integer types, 32-bit wrap-around on \<open>nat\<close>
  and on \<open>int\<close>, C's truncating division, counting the processes of a list that satisfy a
  predicate, and the contract of a first-in first-out queue as a locale. \<open>geom\<close> collects the
  evaluated build constants, \<open>wrap_simps\<close> the facts that remove a wrap-around when the operands
  are in range.
\<close>

unbundle bit_operations_syntax

named_theorems geom "build constants, evaluated"
named_theorems wrap_simps "32-bit wrap-around disappears in range"

subsection \<open>Integer types\<close>

type_synonym u8 = "8 word"
type_synonym u16 = "16 word"
type_synonym u32 = "32 word"

text \<open>\<open>UINT32\<close> arithmetic on natural numbers below \<open>2 ^ 32\<close>.\<close>

definition wrap32 :: "nat \<Rightarrow> nat" where
  "wrap32 n = n mod 4294967296"

definition sub32 :: "nat \<Rightarrow> nat \<Rightarrow> nat" where
  "sub32 a b = (a + 4294967296 - b) mod 4294967296"

lemma wrap32_less [simp]: "wrap32 n < 4294967296"
  by (simp add: wrap32_def)

lemma wrap32_id [wrap_simps]: "n < 4294967296 \<Longrightarrow> wrap32 n = n"
  by (simp add: wrap32_def)

lemma sub32_id [wrap_simps]: "b \<le> a \<Longrightarrow> a < 4294967296 \<Longrightarrow> sub32 a b = a - b"
proof -
  assume "b \<le> a" and "a < 4294967296"
  then have "a + 4294967296 - b = (a - b) + 4294967296" and "a - b < 4294967296" by linarith+
  then show ?thesis by (simp only: sub32_def mod_add_self2 mod_less)
qed

lemma sub32_less [simp]: "sub32 a b < 4294967296"
  by (simp add: sub32_def)

text \<open>C \<open>int\<close> (32 bits, two's complement) on \<open>int\<close>, and division rounding towards zero.\<close>

definition int32 :: "int \<Rightarrow> int" where
  "int32 x = signed_take_bit 31 x"

lemma int32_id [wrap_simps]: "- 2147483648 \<le> x \<Longrightarrow> x < 2147483648 \<Longrightarrow> int32 x = x"
  by (simp add: int32_def signed_take_bit_int_eq_self_iff)

lemma int32_range: "- 2147483648 \<le> int32 x \<and> int32 x < 2147483648"
  using signed_take_bit_int_greater_eq_minus_exp [of 31 x] signed_take_bit_int_less_exp [of 31 x]
  by (simp add: int32_def)

definition cdiv :: "int \<Rightarrow> int \<Rightarrow> int" where
  "cdiv a b = sgn a * sgn b * (\<bar>a\<bar> div \<bar>b\<bar>)"

definition cmod :: "int \<Rightarrow> int \<Rightarrow> int" where
  "cmod a b = a - b * cdiv a b"

lemma cdiv_nonneg: "0 \<le> a \<Longrightarrow> 0 < b \<Longrightarrow> cdiv a b = a div b"
  by (cases "a = 0") (auto simp: cdiv_def)

lemma cmod_nonneg: "0 \<le> a \<Longrightarrow> 0 < b \<Longrightarrow> cmod a b = a mod b"
  by (simp add: cmod_def cdiv_nonneg minus_mult_div_eq_mod)

lemmas cdivmod = cdiv_nonneg cmod_nonneg

text \<open>A truth value of C as an \<open>int\<close>.\<close>

definition cbool :: "bool \<Rightarrow> int" where
  "cbool b = (if b then 1 else 0)"

subsection \<open>Arithmetic of cyclic indices and of rounding up\<close>

lemma mod_neq_of_close:
  fixes k l n :: nat
  assumes "k < l" and "l - k < n"
  shows "k mod n \<noteq> l mod n"
proof
  assume "k mod n = l mod n"
  then have "n dvd l - k" using assms(1) by (metis less_imp_le mod_eq_dvd_iff_nat)
  moreover have "0 < l - k" using assms(1) by simp
  ultimately show False using assms(2) by (simp add: nat_dvd_not_less)
qed

lemma ceil_div_le: "0 < d \<Longrightarrow> (n + d - 1) div d \<le> m \<longleftrightarrow> n \<le> m * d" for n d m :: nat
proof -
  assume "0 < d"
  then have "(n + d - 1) div d \<le> m \<longleftrightarrow> n + d - 1 < Suc m * d"
    by (simp only: less_Suc_eq_le [symmetric] div_less_iff_less_mult)
  also have "\<dots> \<longleftrightarrow> n \<le> m * d" using \<open>0 < d\<close> by auto
  finally show ?thesis .
qed

subsection \<open>Counting the members of a list\<close>

definition cnt :: "('a \<Rightarrow> bool) \<Rightarrow> 'a list \<Rightarrow> nat" where
  "cnt P xs = length (filter P xs)"

lemma cnt_simps [simp]:
  "cnt P [] = 0"
  "cnt P (x # xs) = of_bool (P x) + cnt P xs"
  by (simp_all add: cnt_def)

lemma cnt_replicate: "\<not> P x \<Longrightarrow> cnt P (replicate n x) = 0"
  by (induction n) simp_all

lemma cnt_update:
  "i < length xs \<Longrightarrow> cnt P (xs[i := y]) + of_bool (P (xs ! i)) = cnt P xs + of_bool (P y)"
proof (induction xs arbitrary: i)
  case Nil
  then show ?case by simp
next
  case (Cons x xs)
  show ?case
  proof (cases i)
    case 0
    then show ?thesis by simp
  next
    case (Suc k)
    with Cons.prems have "cnt P (xs[k := y]) + of_bool (P (xs ! k)) = cnt P xs + of_bool (P y)"
      by (intro Cons.IH) simp
    with Suc show ?thesis by simp
  qed
qed

lemma cnt_mono: "(\<And>x. P x \<Longrightarrow> Q x) \<Longrightarrow> cnt P xs \<le> cnt Q xs"
  by (induction xs) (auto simp: of_bool_def add_mono)

lemma cnt_pos: "i < length xs \<Longrightarrow> P (xs ! i) \<Longrightarrow> 0 < cnt P xs"
  by (auto simp: cnt_def filter_empty_conv)

lemma cnt_strict:
  assumes "\<And>x. P x \<Longrightarrow> Q x" and "i < length xs" and "Q (xs ! i)" and "\<not> P (xs ! i)"
  shows "cnt P xs < cnt Q xs"
  using assms(2-)
proof (induction xs arbitrary: i)
  case Nil
  then show ?case by simp
next
  case (Cons x xs)
  show ?case
  proof (cases i)
    case 0
    with Cons.prems cnt_mono [of P Q xs] assms(1) show ?thesis by (simp add: less_Suc_eq_le)
  next
    case (Suc k)
    with Cons.prems have "cnt P xs < cnt Q xs" by (intro Cons.IH) simp_all
    with assms(1) [of x] show ?thesis by (cases "P x") simp_all
  qed
qed

lemma cnt_zero: "cnt P xs = 0 \<longleftrightarrow> (\<forall>x \<in> set xs. \<not> P x)"
  by (auto simp: cnt_def filter_empty_conv)

lemma cnt_two:
  assumes "i < length xs" "j < length xs" "i \<noteq> j" "P (xs ! i)" "P (xs ! j)"
  shows "2 \<le> cnt P xs"
  using assms
proof (induction xs arbitrary: i j)
  case Nil
  then show ?case by simp
next
  case (Cons x xs)
  show ?case
  proof (cases "i = 0 \<or> j = 0")
    case True
    then obtain k where "k \<in> {i, j}" and "k \<noteq> 0" using Cons.prems(3) by auto
    with True Cons.prems have "P x" and "k - 1 < length xs" and "P (xs ! (k - 1))"
      by (auto simp: nth_Cons')
    then have "P x" and "0 < cnt P xs" by (auto dest: cnt_pos)
    then show ?thesis by simp
  next
    case False
    with Cons.prems have "2 \<le> cnt P xs"
      by (intro Cons.IH [of "i - 1" "j - 1"]) (auto simp: nth_Cons')
    then show ?thesis by simp
  qed
qed

subsection \<open>The contract of a bounded first-in first-out queue\<close>

text \<open>
  \<open>enq\<close> and \<open>deq\<close> are the operations a client calls, \<open>content\<close> reads a state as the list of the
  waiting elements, oldest first, \<open>ok\<close> is the provider's invariant and \<open>room\<close> says that \<open>enq\<close> is
  allowed. Both request queues of the host side provide it: the shared-memory ring between the
  clients and the server and the linked work list of a process routine.
\<close>

locale fifo =
  fixes ok :: "'q \<Rightarrow> bool"
    and room :: "'q \<Rightarrow> bool"
    and content :: "'q \<Rightarrow> 'a list"
    and enq :: "'a \<Rightarrow> 'q \<Rightarrow> 'q"
    and deq :: "'q \<Rightarrow> ('a \<times> 'q) option"
  assumes enq_ok: "ok q \<Longrightarrow> room q \<Longrightarrow> ok (enq x q)"
    and enq_content: "ok q \<Longrightarrow> room q \<Longrightarrow> content (enq x q) = content q @ [x]"
    and deq_empty: "ok q \<Longrightarrow> content q = [] \<Longrightarrow> deq q = None"
    and deq_front: "ok q \<Longrightarrow> content q = x # xs \<Longrightarrow> \<exists>q'. deq q = Some (x, q') \<and> ok q' \<and> content q' = xs"
begin

lemma deq_Some: "ok q \<Longrightarrow> deq q = Some (x, q') \<Longrightarrow> content q = x # content q' \<and> ok q'"
  using deq_empty [of q] deq_front [of q] by (cases "content q") fastforce+

lemma deq_None_iff: "ok q \<Longrightarrow> deq q = None \<longleftrightarrow> content q = []"
  using deq_empty [of q] deq_front [of q] by (cases "content q") fastforce+

text \<open>Draining a queue yields its content in order.\<close>

primrec drain :: "nat \<Rightarrow> 'q \<Rightarrow> 'a list \<times> 'q" where
  "drain 0 q = ([], q)"
| "drain (Suc n) q = (case deq q of None \<Rightarrow> ([], q)
     | Some (x, q') \<Rightarrow> (let (xs, q'') = drain n q' in (x # xs, q'')))"

lemma drain_content:
  "ok q \<Longrightarrow> fst (drain n q) = take n (content q) \<and> content (snd (drain n q)) = drop n (content q)
     \<and> ok (snd (drain n q))"
proof (induction n arbitrary: q)
  case 0
  then show ?case by simp
next
  case (Suc n)
  show ?case
  proof (cases "content q")
    case Nil
    with Suc.prems show ?thesis by (simp add: deq_empty)
  next
    case (Cons x xs)
    with deq_front [OF Suc.prems this] Suc.IH show ?thesis by (auto simp: split_beta)
  qed
qed

text \<open>An element enqueued behind \<open>k\<close> others comes out after exactly those.\<close>

lemma enq_then_drain:
  assumes "ok q" and "room q"
  shows "fst (drain (Suc (length (content q))) (enq x q)) = content q @ [x]"
  using drain_content [OF enq_ok [OF assms], of "Suc (length (content q))"] enq_content [OF assms]
  by (simp del: drain.simps)

end

end
