(* ===== verification/Host_Types.thy ===== *)
theory Host_Types
  imports Issd_Prelude
begin

text \<open>
  The data the host processes exchange (\<open>PCModule2/server/issd_server.h\<close>,
  \<open>PCModule2/client/issd_client.h\<close>) and the operation codes of \<open>PCModule2/server/issd.h\<close>. A
  character array is the string it holds up to its terminating zero; C \<open>int\<close> fields are integers.
\<close>

subsection \<open>Constants of the host headers\<close>

definition ISSD_FILECOPY :: int where "ISSD_FILECOPY = 0"
definition ISSD_MERGE :: int where "ISSD_MERGE = 1"

definition MAX_FILENAME_LEN :: nat where [geom]: "MAX_FILENAME_LEN = 1024"
definition MAX_DEVNAME_LEN :: nat where [geom]: "MAX_DEVNAME_LEN = 20"
definition ISSD_MAX_IFILE_NUM :: nat where [geom]: "ISSD_MAX_IFILE_NUM = 2"

subsection \<open>Request and feedback packets\<close>

record ISSD_ReqPacket =
  ifname0 :: string
  ifname1 :: string
  ofname :: string
  devname :: string
  opType :: int
  req_pid :: int
  reqSeq :: int

record ISSD_FeedbackPacket =
  isOk :: int

text \<open>\<open>sizeof(ISSD_ReqPacket_t)\<close>: the arrays followed by three 32-bit integers, no padding.\<close>

definition sizeof_ReqPacket :: nat where
  "sizeof_ReqPacket = ISSD_MAX_IFILE_NUM * MAX_FILENAME_LEN + MAX_FILENAME_LEN + MAX_DEVNAME_LEN
     + 4 + 4 + 4"

lemma sizeof_ReqPacket_eval [geom]: "sizeof_ReqPacket = 3104"
  by (simp add: sizeof_ReqPacket_def geom)

subsection \<open>Bounded string copies of the C library\<close>

text \<open>\<open>snprintf(dst, n, "%s", s)\<close> keeps at most \<open>n - 1\<close> characters and terminates them.\<close>

definition snprintf_s :: "nat \<Rightarrow> string \<Rightarrow> string" where
  "snprintf_s n s = take (n - 1) s"

text \<open>
  \<open>strncpy(dst, s, n)\<close> copies at most \<open>n\<close> characters; a source of \<open>n\<close> or more characters leaves
  \<open>dst\<close> without a terminator, which is \<open>None\<close>: the array then holds no string.
\<close>

definition strncpy_s :: "nat \<Rightarrow> string \<Rightarrow> string option" where
  "strncpy_s n s = (if length s < n then Some s else None)"

lemma length_snprintf_s [simp]: "0 < n \<Longrightarrow> length (snprintf_s n s) < n"
  by (simp add: snprintf_s_def)

lemma snprintf_s_id [simp]: "length s < n \<Longrightarrow> snprintf_s n s = s"
  by (simp add: snprintf_s_def)

end
