(* ===== verification/Req_Queue.thy ===== *)
theory Req_Queue
  imports Host_Types
begin

text \<open>
  The request ring in shared memory: its creation by the server (\<open>createRQueue\<close> in
  \<open>PCModule2/server/reqQueue.c\<close>), its mapping by a client (\<open>issd_compute_init\<close> in
  \<open>PCModule2/client/issd_Compute_client.c\<close>), \<open>sendReqPacket\<close> of the client and
  \<open>getNextReqPacket\<close> of the server. The two operations are modelled twice: statement by statement,
  run by any number of processes in any interleaving (\<open>rq_step\<close>), and as one uninterrupted call.
\<close>

subsection \<open>Layout of the shared segment\<close>

text \<open>
  Offsets from the mapped address. \<open>ssz\<close> is \<open>sizeof(sem_t)\<close>, which the platform fixes; an \<open>int\<close>
  takes four bytes.
\<close>

record shm_layout =
  o_full :: nat
  o_empty :: nat
  o_mutex_producer :: nat
  o_mutex_consumer :: nat
  o_pWrIdx :: nat
  o_pRdIdx :: nat
  o_num_items :: nat
  o_shared_buffer :: nat

definition rqueue_length :: "nat \<Rightarrow> nat \<Rightarrow> nat" where
  "rqueue_length ssz n = 4 * ssz + 3 * 4 + n * sizeof_ReqPacket"

definition server_layout :: "nat \<Rightarrow> shm_layout" where
  "server_layout ssz =
     \<lparr>o_full = 0, o_empty = ssz * 1, o_mutex_producer = ssz * 2, o_mutex_consumer = ssz * 3,
      o_pWrIdx = ssz * 4, o_pRdIdx = ssz * 4 + 4 * 1,
      o_num_items = (ssz * 4 + 4 * 1) + 4 * 1, o_shared_buffer = (ssz * 4 + 4 * 1) + 4 * 2\<rparr>"

definition client_layout :: "nat \<Rightarrow> shm_layout" where
  "client_layout ssz =
     \<lparr>o_full = 0, o_empty = ssz * 1, o_mutex_producer = ssz * 2, o_mutex_consumer = ssz * 3,
      o_pWrIdx = ssz * 4, o_pRdIdx = ssz * 4 + 4 * 1,
      o_num_items = (ssz * 4 + 4 * 1) + 4 * 1, o_shared_buffer = (ssz * 4 + 4 * 1) + 4 * 2\<rparr>"

definition slot_offset :: "shm_layout \<Rightarrow> nat \<Rightarrow> nat" where
  "slot_offset l i = o_shared_buffer l + i * sizeof_ReqPacket"

subsection \<open>The ring\<close>

record 'p ring =
  full :: nat
  empty :: nat
  mutex_producer :: nat
  mutex_consumer :: nat
  wrIdx :: nat
  rdIdx :: nat
  shm_num_items :: nat
  shared_buffer :: "'p list"

text \<open>
  \<open>createRQueue\<close>: the three system calls may fail; a failure exits the server, after the segment
  has been unlinked when it already existed. \<open>junk\<close> is what the fresh slots hold.
\<close>

datatype 'p rq_outcome = ExitFailed | ExitUnlinked | Created shm_layout "'p ring"

definition createRQueue :: "nat \<Rightarrow> nat \<Rightarrow> 'p \<Rightarrow> bool \<Rightarrow> bool \<Rightarrow> bool \<Rightarrow> 'p rq_outcome" where
  "createRQueue ssz n junk shm_open_ok ftruncate_ok mmap_ok =
     (if \<not> shm_open_ok then ExitFailed
      else if \<not> ftruncate_ok then ExitUnlinked
      else if \<not> mmap_ok then ExitUnlinked
      else Created (server_layout ssz)
        \<lparr>full = 0, empty = n, mutex_producer = 1, mutex_consumer = 1,
         wrIdx = 0, rdIdx = 0, shm_num_items = n, shared_buffer = replicate n junk\<rparr>)"

definition new_ring :: "nat \<Rightarrow> 'p \<Rightarrow> 'p ring" where
  "new_ring n junk = \<lparr>full = 0, empty = n, mutex_producer = 1, mutex_consumer = 1,
     wrIdx = 0, rdIdx = 0, shm_num_items = n, shared_buffer = replicate n junk\<rparr>"

subsection \<open>The two operations, one statement at a time\<close>

text \<open>
  Where a process stands: before the statement the constructor names. \<open>Idle\<close> is outside both
  operations; \<open>C_Done\<close> carries the packet \<open>getNextReqPacket\<close> returned.
\<close>

datatype 'p rq_pc =
    Idle
  | P_WaitEmpty 'p | P_WaitMutex 'p | P_Store 'p | P_Advance | P_PostMutex | P_PostFull
  | C_WaitFull | C_WaitMutex | C_Load | C_Advance 'p | C_PostMutex 'p | C_PostEmpty 'p | C_Done 'p

fun sendReqPacket_stmt :: "'p rq_pc \<Rightarrow> 'p ring \<Rightarrow> ('p rq_pc \<times> 'p ring) option" where
  "sendReqPacket_stmt (P_WaitEmpty p) r =
     (if 0 < empty r then Some (P_WaitMutex p, r\<lparr>empty := empty r - 1\<rparr>) else None)"
| "sendReqPacket_stmt (P_WaitMutex p) r =
     (if 0 < mutex_producer r then Some (P_Store p, r\<lparr>mutex_producer := mutex_producer r - 1\<rparr>) else None)"
| "sendReqPacket_stmt (P_Store p) r =
     (if wrIdx r < length (shared_buffer r)
      then Some (P_Advance, r\<lparr>shared_buffer := (shared_buffer r)[wrIdx r := p]\<rparr>) else None)"
| "sendReqPacket_stmt P_Advance r =
     Some (P_PostMutex, r\<lparr>wrIdx := (wrIdx r + 1) mod shm_num_items r\<rparr>)"
| "sendReqPacket_stmt P_PostMutex r = Some (P_PostFull, r\<lparr>mutex_producer := mutex_producer r + 1\<rparr>)"
| "sendReqPacket_stmt P_PostFull r = Some (Idle, r\<lparr>full := full r + 1\<rparr>)"
| "sendReqPacket_stmt _ r = None"

fun getNextReqPacket_stmt :: "'p rq_pc \<Rightarrow> 'p ring \<Rightarrow> ('p rq_pc \<times> 'p ring) option" where
  "getNextReqPacket_stmt C_WaitFull r =
     (if 0 < full r then Some (C_WaitMutex, r\<lparr>full := full r - 1\<rparr>) else None)"
| "getNextReqPacket_stmt C_WaitMutex r =
     (if 0 < mutex_consumer r then Some (C_Load, r\<lparr>mutex_consumer := mutex_consumer r - 1\<rparr>) else None)"
| "getNextReqPacket_stmt C_Load r =
     (if rdIdx r < length (shared_buffer r) then Some (C_Advance (shared_buffer r ! rdIdx r), r) else None)"
| "getNextReqPacket_stmt (C_Advance p) r =
     Some (C_PostMutex p, r\<lparr>rdIdx := (rdIdx r + 1) mod shm_num_items r\<rparr>)"
| "getNextReqPacket_stmt (C_PostMutex p) r = Some (C_PostEmpty p, r\<lparr>mutex_consumer := mutex_consumer r + 1\<rparr>)"
| "getNextReqPacket_stmt (C_PostEmpty p) r = Some (C_Done p, r\<lparr>empty := empty r + 1\<rparr>)"
| "getNextReqPacket_stmt _ r = None"

definition rq_stmt :: "'p rq_pc \<Rightarrow> 'p ring \<Rightarrow> ('p rq_pc \<times> 'p ring) option" where
  "rq_stmt pc r = (case sendReqPacket_stmt pc r of Some x \<Rightarrow> Some x | None \<Rightarrow> getNextReqPacket_stmt pc r)"

subsection \<open>Any number of processes\<close>

text \<open>
  \<open>sent\<close> and \<open>rcvd\<close> are history variables: the packets stored into the ring and the packets loaded
  from it, in the order these statements ran.
\<close>

record 'p rq_sys =
  ring :: "'p ring"
  procs :: "'p rq_pc list"
  sent :: "'p list"
  rcvd :: "'p list"

fun log_sent :: "'p rq_pc \<Rightarrow> 'p list" where
  "log_sent (P_Store p) = [p]"
| "log_sent _ = []"

definition log_rcvd :: "'p rq_pc \<Rightarrow> 'p ring \<Rightarrow> 'p list" where
  "log_rcvd pc r = (case pc of C_Load \<Rightarrow> [shared_buffer r ! rdIdx r] | _ \<Rightarrow> [])"

inductive rq_step :: "'p rq_sys \<Rightarrow> 'p rq_sys \<Rightarrow> bool" where
  call_send: "i < length (procs s) \<Longrightarrow> procs s ! i = Idle \<Longrightarrow>
     rq_step s (s\<lparr>procs := (procs s)[i := P_WaitEmpty p]\<rparr>)"
| call_get: "i < length (procs s) \<Longrightarrow> procs s ! i = Idle \<Longrightarrow>
     rq_step s (s\<lparr>procs := (procs s)[i := C_WaitFull]\<rparr>)"
| got: "i < length (procs s) \<Longrightarrow> procs s ! i = C_Done p \<Longrightarrow>
     rq_step s (s\<lparr>procs := (procs s)[i := Idle]\<rparr>)"
| run: "i < length (procs s) \<Longrightarrow> rq_stmt (procs s ! i) (ring s) = Some (pc', r') \<Longrightarrow>
     rq_step s (s\<lparr>ring := r', procs := (procs s)[i := pc'],
       sent := sent s @ log_sent (procs s ! i), rcvd := rcvd s @ log_rcvd (procs s ! i) (ring s)\<rparr>)"

definition rq_init :: "nat \<Rightarrow> 'p \<Rightarrow> nat \<Rightarrow> 'p rq_sys" where
  "rq_init n junk k = \<lparr>ring = new_ring n junk, procs = replicate k Idle, sent = [], rcvd = []\<rparr>"

inductive rq_reachable :: "nat \<Rightarrow> 'p \<Rightarrow> nat \<Rightarrow> 'p rq_sys \<Rightarrow> bool" for n junk k where
  start: "rq_reachable n junk k (rq_init n junk k)"
| step: "rq_reachable n junk k s \<Longrightarrow> rq_step s t \<Longrightarrow> rq_reachable n junk k t"

subsection \<open>The invariant\<close>

fun in_send :: "'p rq_pc \<Rightarrow> bool" where
  "in_send (P_WaitMutex p) = True" | "in_send (P_Store p) = True" | "in_send P_Advance = True"
| "in_send P_PostMutex = True" | "in_send P_PostFull = True" | "in_send _ = False"

fun has_pmutex :: "'p rq_pc \<Rightarrow> bool" where
  "has_pmutex (P_Store p) = True" | "has_pmutex P_Advance = True" | "has_pmutex P_PostMutex = True"
| "has_pmutex _ = False"

fun stored :: "'p rq_pc \<Rightarrow> bool" where
  "stored P_Advance = True" | "stored P_PostMutex = True" | "stored P_PostFull = True" | "stored _ = False"

fun at_p_advance :: "'p rq_pc \<Rightarrow> bool" where
  "at_p_advance P_Advance = True" | "at_p_advance _ = False"

fun in_get :: "'p rq_pc \<Rightarrow> bool" where
  "in_get C_WaitMutex = True" | "in_get C_Load = True" | "in_get (C_Advance p) = True"
| "in_get (C_PostMutex p) = True" | "in_get (C_PostEmpty p) = True" | "in_get _ = False"

fun has_cmutex :: "'p rq_pc \<Rightarrow> bool" where
  "has_cmutex C_Load = True" | "has_cmutex (C_Advance p) = True" | "has_cmutex (C_PostMutex p) = True"
| "has_cmutex _ = False"

fun to_load :: "'p rq_pc \<Rightarrow> bool" where
  "to_load C_WaitMutex = True" | "to_load C_Load = True" | "to_load _ = False"

fun at_c_advance :: "'p rq_pc \<Rightarrow> bool" where
  "at_c_advance (C_Advance p) = True" | "at_c_advance _ = False"

definition rq_counts :: "nat \<Rightarrow> 'p rq_sys \<Rightarrow> bool" where
  "rq_counts n s \<longleftrightarrow>
     mutex_producer (ring s) + cnt has_pmutex (procs s) = 1 \<and>
     mutex_consumer (ring s) + cnt has_cmutex (procs s) = 1 \<and>
     full (ring s) + empty (ring s) + cnt in_send (procs s) + cnt in_get (procs s) = n \<and>
     length (sent s) = length (rcvd s) + full (ring s) + cnt stored (procs s) + cnt to_load (procs s)"

definition rq_indices :: "nat \<Rightarrow> 'p rq_sys \<Rightarrow> bool" where
  "rq_indices n s \<longleftrightarrow>
     shm_num_items (ring s) = n \<and> length (shared_buffer (ring s)) = n \<and>
     wrIdx (ring s) < n \<and> rdIdx (ring s) < n \<and>
     (wrIdx (ring s) + cnt at_p_advance (procs s)) mod n = length (sent s) mod n \<and>
     (rdIdx (ring s) + cnt at_c_advance (procs s)) mod n = length (rcvd s) mod n"

definition rq_content :: "nat \<Rightarrow> 'p rq_sys \<Rightarrow> bool" where
  "rq_content n s \<longleftrightarrow>
     (\<forall>k. length (rcvd s) \<le> k \<and> k < length (sent s) \<longrightarrow> shared_buffer (ring s) ! (k mod n) = sent s ! k) \<and>
     rcvd s = take (length (rcvd s)) (sent s)"

definition rq_inv :: "nat \<Rightarrow> 'p rq_sys \<Rightarrow> bool" where
  "rq_inv n s \<longleftrightarrow> 0 < n \<and> rq_counts n s \<and> rq_indices n s \<and> rq_content n s"


subsection \<open>Every step keeps the invariant\<close>

lemma rq_inv_init: "0 < n \<Longrightarrow> rq_inv n (rq_init n junk k)"
  by (simp add: rq_inv_def rq_counts_def rq_indices_def rq_content_def rq_init_def new_ring_def
      cnt_replicate)

text \<open>What the counters of a process list do when process \<open>i\<close> moves.\<close>

lemmas rq_cnt_moves =
  cnt_update [where P = has_pmutex] cnt_update [where P = has_cmutex] cnt_update [where P = in_send]
  cnt_update [where P = in_get] cnt_update [where P = stored] cnt_update [where P = to_load]
  cnt_update [where P = at_p_advance] cnt_update [where P = at_c_advance]

lemma rq_stmt_cases:
  assumes "rq_stmt pc r = Some (pc', r')"
  obtains
    (wait_empty) p where "pc = P_WaitEmpty p" "0 < empty r" "pc' = P_WaitMutex p" "r' = r\<lparr>empty := empty r - 1\<rparr>"
  | (wait_pmutex) p where "pc = P_WaitMutex p" "0 < mutex_producer r" "pc' = P_Store p"
      "r' = r\<lparr>mutex_producer := mutex_producer r - 1\<rparr>"
  | (store) p where "pc = P_Store p" "wrIdx r < length (shared_buffer r)" "pc' = P_Advance"
      "r' = r\<lparr>shared_buffer := (shared_buffer r)[wrIdx r := p]\<rparr>"
  | (p_advance) "pc = P_Advance" "pc' = P_PostMutex" "r' = r\<lparr>wrIdx := (wrIdx r + 1) mod shm_num_items r\<rparr>"
  | (post_pmutex) "pc = P_PostMutex" "pc' = P_PostFull" "r' = r\<lparr>mutex_producer := mutex_producer r + 1\<rparr>"
  | (post_full) "pc = P_PostFull" "pc' = Idle" "r' = r\<lparr>full := full r + 1\<rparr>"
  | (wait_full) "pc = C_WaitFull" "0 < full r" "pc' = C_WaitMutex" "r' = r\<lparr>full := full r - 1\<rparr>"
  | (wait_cmutex) "pc = C_WaitMutex" "0 < mutex_consumer r" "pc' = C_Load"
      "r' = r\<lparr>mutex_consumer := mutex_consumer r - 1\<rparr>"
  | (load) "pc = C_Load" "rdIdx r < length (shared_buffer r)" "pc' = C_Advance (shared_buffer r ! rdIdx r)" "r' = r"
  | (c_advance) p where "pc = C_Advance p" "pc' = C_PostMutex p" "r' = r\<lparr>rdIdx := (rdIdx r + 1) mod shm_num_items r\<rparr>"
  | (post_cmutex) p where "pc = C_PostMutex p" "pc' = C_PostEmpty p" "r' = r\<lparr>mutex_consumer := mutex_consumer r + 1\<rparr>"
  | (post_empty) p where "pc = C_PostEmpty p" "pc' = C_Done p" "r' = r\<lparr>empty := empty r + 1\<rparr>"
proof (cases pc)
  case Idle then show ?thesis using assms by (simp add: rq_stmt_def)
next
  case (P_WaitEmpty p) then show ?thesis by (intro wait_empty) (use assms in \<open>auto simp: rq_stmt_def split: if_splits\<close>)
next
  case (P_WaitMutex p) then show ?thesis by (intro wait_pmutex) (use assms in \<open>auto simp: rq_stmt_def split: if_splits\<close>)
next
  case (P_Store p) then show ?thesis by (intro store) (use assms in \<open>auto simp: rq_stmt_def split: if_splits\<close>)
next
  case P_Advance then show ?thesis by (intro p_advance) (use assms in \<open>auto simp: rq_stmt_def split: if_splits\<close>)
next
  case P_PostMutex then show ?thesis by (intro post_pmutex) (use assms in \<open>auto simp: rq_stmt_def split: if_splits\<close>)
next
  case P_PostFull then show ?thesis by (intro post_full) (use assms in \<open>auto simp: rq_stmt_def split: if_splits\<close>)
next
  case C_WaitFull then show ?thesis by (intro wait_full) (use assms in \<open>auto simp: rq_stmt_def split: if_splits\<close>)
next
  case C_WaitMutex then show ?thesis by (intro wait_cmutex) (use assms in \<open>auto simp: rq_stmt_def split: if_splits\<close>)
next
  case C_Load then show ?thesis by (intro load) (use assms in \<open>auto simp: rq_stmt_def split: if_splits\<close>)
next
  case (C_Advance p) then show ?thesis by (intro c_advance) (use assms in \<open>auto simp: rq_stmt_def split: if_splits\<close>)
next
  case (C_PostMutex p) then show ?thesis by (intro post_cmutex) (use assms in \<open>auto simp: rq_stmt_def split: if_splits\<close>)
next
  case (C_PostEmpty p) then show ?thesis by (intro post_empty) (use assms in \<open>auto simp: rq_stmt_def split: if_splits\<close>)
next
  case (C_Done p) then show ?thesis using assms by (simp add: rq_stmt_def)
qed

lemma rq_counts_run:
  assumes "rq_counts n s" and "i < length (procs s)" and "rq_stmt (procs s ! i) (ring s) = Some (pc', r')"
  shows "rq_counts n (s\<lparr>ring := r', procs := (procs s)[i := pc'],
     sent := sent s @ log_sent (procs s ! i), rcvd := rcvd s @ log_rcvd (procs s ! i) (ring s)\<rparr>)"
  using assms(3)
  by (rule rq_stmt_cases;
      insert assms(1) rq_cnt_moves [OF assms(2), of pc']; simp add: rq_counts_def log_rcvd_def)

lemma Suc_mod_cong: "a mod n = b mod n \<Longrightarrow> Suc a mod n = Suc b mod n" for a b n :: nat
  by (metis mod_Suc_eq)

lemma rq_indices_run:
  assumes "0 < n" and "rq_indices n s" and i: "i < length (procs s)"
    and "rq_stmt (procs s ! i) (ring s) = Some (pc', r')"
  shows "rq_indices n (s\<lparr>ring := r', procs := (procs s)[i := pc'],
     sent := sent s @ log_sent (procs s ! i), rcvd := rcvd s @ log_rcvd (procs s ! i) (ring s)\<rparr>)"
proof -
  let ?w = "wrIdx (ring s)" and ?d = "rdIdx (ring s)"
  note mv = rq_cnt_moves(7,8) [OF i, of pc']
  have w: "(?w + cnt at_p_advance (procs s)) mod n = length (sent s) mod n"
    and d: "(?d + cnt at_c_advance (procs s)) mod n = length (rcvd s) mod n"
    using assms(2) by (simp_all add: rq_indices_def)
  show ?thesis
    using assms(4)
  proof (cases rule: rq_stmt_cases)
    case (store p)
    then show ?thesis using assms(1,2) mv Suc_mod_cong [OF w] by (simp add: rq_indices_def log_rcvd_def)
  next
    case load
    then show ?thesis using assms(1,2) mv Suc_mod_cong [OF d] by (simp add: rq_indices_def log_rcvd_def)
  next
    case p_advance
    then have "Suc (cnt at_p_advance ((procs s)[i := pc'])) = cnt at_p_advance (procs s)" using mv by simp
    then have "Suc (?w + cnt at_p_advance ((procs s)[i := pc'])) mod n = length (sent s) mod n"
      by (metis add_Suc_right w)
    with p_advance show ?thesis using assms(1,2) mv d
      by (simp add: rq_indices_def log_rcvd_def mod_simps)
  next
    case (c_advance p)
    then have "Suc (cnt at_c_advance ((procs s)[i := pc'])) = cnt at_c_advance (procs s)" using mv by simp
    then have "Suc (?d + cnt at_c_advance ((procs s)[i := pc'])) mod n = length (rcvd s) mod n"
      by (metis add_Suc_right d)
    with c_advance show ?thesis using assms(1,2) mv w
      by (simp add: rq_indices_def log_rcvd_def mod_simps)
  qed (use assms(1,2) mv w d in \<open>simp_all add: rq_indices_def log_rcvd_def\<close>)
qed

lemma cnt_stored_le: "cnt stored xs \<le> cnt in_send xs"
  by (rule cnt_mono) (auto elim: stored.elims)

lemma cnt_to_load_le: "cnt to_load xs \<le> cnt in_get xs"
  by (rule cnt_mono) (auto elim: to_load.elims)

text \<open>Whoever is about to store finds a free slot, and whoever is about to load a filled one.\<close>

lemma rq_room_at_store:
  assumes inv: "rq_inv n s" and i: "i < length (procs s)" and pc: "procs s ! i = P_Store p"
  shows "wrIdx (ring s) = length (sent s) mod n" and "length (sent s) < length (rcvd s) + n"
proof -
  have "cnt at_p_advance (procs s) < cnt has_pmutex (procs s)"
    by (rule cnt_strict [OF _ i]) (auto simp: pc elim: at_p_advance.elims)
  with inv have "cnt at_p_advance (procs s) = 0" by (simp add: rq_inv_def rq_counts_def)
  with inv show "wrIdx (ring s) = length (sent s) mod n" by (auto simp: rq_inv_def rq_indices_def)
  have "cnt stored (procs s) < cnt in_send (procs s)"
    by (rule cnt_strict [OF _ i]) (auto simp: pc elim: stored.elims)
  with cnt_to_load_le [of "procs s"] show "length (sent s) < length (rcvd s) + n"
    using inv by (simp add: rq_inv_def rq_counts_def)
qed

lemma rq_fill_at_load:
  assumes inv: "rq_inv n s" and i: "i < length (procs s)" and pc: "procs s ! i = C_Load"
  shows "rdIdx (ring s) = length (rcvd s) mod n" and "length (rcvd s) < length (sent s)"
proof -
  have "cnt at_c_advance (procs s) < cnt has_cmutex (procs s)"
    by (rule cnt_strict [OF _ i]) (auto simp: pc elim: at_c_advance.elims)
  with inv have "cnt at_c_advance (procs s) = 0" by (simp add: rq_inv_def rq_counts_def)
  with inv show "rdIdx (ring s) = length (rcvd s) mod n" by (auto simp: rq_inv_def rq_indices_def)
  have "0 < cnt to_load (procs s)" using cnt_pos [OF i, of to_load] pc by simp
  then show "length (rcvd s) < length (sent s)" using inv by (simp add: rq_inv_def rq_counts_def)
qed

lemma rq_content_run:
  assumes inv: "rq_inv n s" and i: "i < length (procs s)"
    and st: "rq_stmt (procs s ! i) (ring s) = Some (pc', r')"
  shows "rq_content n (s\<lparr>ring := r', procs := (procs s)[i := pc'],
     sent := sent s @ log_sent (procs s ! i), rcvd := rcvd s @ log_rcvd (procs s ! i) (ring s)\<rparr>)"
proof -
  have c: "\<forall>k. length (rcvd s) \<le> k \<and> k < length (sent s) \<longrightarrow> shared_buffer (ring s) ! (k mod n) = sent s ! k"
    and f: "rcvd s = take (length (rcvd s)) (sent s)" and n: "0 < n"
    and len: "length (shared_buffer (ring s)) = n"
    using inv by (simp_all add: rq_inv_def rq_content_def rq_indices_def)
  have le: "length (rcvd s) \<le> length (sent s)" using inv by (simp add: rq_inv_def rq_counts_def)
  show ?thesis
    using st
  proof (cases rule: rq_stmt_cases)
    case (store p)
    note room = rq_room_at_store [OF inv i store(1)]
    have "(shared_buffer (ring s))[wrIdx (ring s) := p] ! (k mod n) = (sent s @ [p]) ! k"
      if k: "length (rcvd s) \<le> k" "k < Suc (length (sent s))" for k
    proof (cases "k = length (sent s)")
      case True
      then show ?thesis using room(1) n len by simp
    next
      case False
      with k have "k < length (sent s)" "length (sent s) - k < n" using room(2) by linarith+
      then have "k mod n \<noteq> wrIdx (ring s)" using mod_neq_of_close room(1) by metis
      then show ?thesis using c k \<open>k < length (sent s)\<close> by (simp add: nth_append)
    qed
    then show ?thesis using store f le by (simp add: rq_content_def log_rcvd_def)
  next
    case load
    note fill = rq_fill_at_load [OF inv i load(1)]
    then have "shared_buffer (ring s) ! rdIdx (ring s) = sent s ! length (rcvd s)" using c by simp
    then have "rcvd s @ [shared_buffer (ring s) ! rdIdx (ring s)] = take (Suc (length (rcvd s))) (sent s)"
      using f fill(2) by (simp add: take_Suc_conv_app_nth)
    then show ?thesis using load c fill(2) by (simp add: rq_content_def log_rcvd_def min_absorb2)
  qed (use c f in \<open>simp_all add: rq_content_def log_rcvd_def\<close>)
qed

lemma rq_step_inv:
  assumes "rq_step s t" and "rq_inv n s"
  shows "rq_inv n t"
  using assms
proof (induction rule: rq_step.induct)
  case (call_send i s p)
  then show ?case using rq_cnt_moves [OF call_send(1), of "P_WaitEmpty p"]
    by (simp add: rq_inv_def rq_counts_def rq_indices_def rq_content_def)
next
  case (call_get i s)
  then show ?case using rq_cnt_moves [OF call_get(1), of "C_WaitFull"]
    by (simp add: rq_inv_def rq_counts_def rq_indices_def rq_content_def)
next
  case (got i s p)
  then show ?case using rq_cnt_moves [OF got(1), of Idle]
    by (simp add: rq_inv_def rq_counts_def rq_indices_def rq_content_def)
next
  case (run i s pc' r')
  then have "0 < n" "rq_counts n s" "rq_indices n s" by (simp_all add: rq_inv_def)
  with run show ?case
    unfolding rq_inv_def [of n "s\<lparr>ring := _, procs := _, sent := _, rcvd := _\<rparr>"]
    by (intro conjI rq_counts_run rq_indices_run rq_content_run)
qed

lemma rq_reachable_inv: "rq_reachable n junk k s \<Longrightarrow> 0 < n \<Longrightarrow> rq_inv n s"
  by (induction rule: rq_reachable.induct) (auto intro: rq_inv_init rq_step_inv)

text \<open>
  A process inside an operation is blocked only at one of the two waits on the token semaphores or
  while another process is inside the same critical section.
\<close>

lemma rq_enabled:
  assumes inv: "rq_inv n s" and i: "i < length (procs s)" and pc: "procs s ! i = pc"
    and blocked: "rq_stmt pc (ring s) = None"
  shows "pc = Idle \<or> (\<exists>p. pc = C_Done p) \<or> (\<exists>p. pc = P_WaitEmpty p \<and> empty (ring s) = 0) \<or>
    (pc = C_WaitFull \<and> full (ring s) = 0) \<or>
    (\<exists>p. pc = P_WaitMutex p \<and> 0 < cnt has_pmutex (procs s)) \<or> (pc = C_WaitMutex \<and> 0 < cnt has_cmutex (procs s))"
  using inv blocked
  by (cases pc) (auto simp: rq_stmt_def rq_inv_def rq_counts_def rq_indices_def split: if_splits)

subsection \<open>One uninterrupted call\<close>

definition sendReqPacket :: "'p \<Rightarrow> 'p ring \<Rightarrow> 'p ring option" where
  "sendReqPacket p r = do {
     (a, r) \<leftarrow> sendReqPacket_stmt (P_WaitEmpty p) r;
     (a, r) \<leftarrow> sendReqPacket_stmt a r;
     (a, r) \<leftarrow> sendReqPacket_stmt a r;
     (a, r) \<leftarrow> sendReqPacket_stmt a r;
     (a, r) \<leftarrow> sendReqPacket_stmt a r;
     (a, r) \<leftarrow> sendReqPacket_stmt a r;
     Some r }"

definition getNextReqPacket :: "'p ring \<Rightarrow> ('p \<times> 'p ring) option" where
  "getNextReqPacket r = do {
     (a, r) \<leftarrow> getNextReqPacket_stmt C_WaitFull r;
     (a, r) \<leftarrow> getNextReqPacket_stmt a r;
     (a, r) \<leftarrow> getNextReqPacket_stmt a r;
     (a, r) \<leftarrow> getNextReqPacket_stmt a r;
     (a, r) \<leftarrow> getNextReqPacket_stmt a r;
     (a, r) \<leftarrow> getNextReqPacket_stmt a r;
     (case a of C_Done p \<Rightarrow> Some (p, r) | _ \<Rightarrow> None) }"

text \<open>A ring no process is working on, and the packets waiting in it.\<close>

definition ring_ok :: "'p ring \<Rightarrow> bool" where
  "ring_ok r \<longleftrightarrow> 0 < shm_num_items r \<and> length (shared_buffer r) = shm_num_items r \<and>
     mutex_producer r = 1 \<and> mutex_consumer r = 1 \<and> full r + empty r = shm_num_items r \<and>
     rdIdx r < shm_num_items r \<and> wrIdx r = (rdIdx r + full r) mod shm_num_items r"

definition ring_content :: "'p ring \<Rightarrow> 'p list" where
  "ring_content r = map (\<lambda>i. shared_buffer r ! ((rdIdx r + i) mod shm_num_items r)) [0..<full r]"

lemma ring_ok_new: "0 < n \<Longrightarrow> ring_ok (new_ring n junk) \<and> ring_content (new_ring n junk) = []"
  by (simp add: ring_ok_def ring_content_def new_ring_def)

lemma sendReqPacket_eq:
  "ring_ok r \<Longrightarrow> 0 < empty r \<Longrightarrow> sendReqPacket p r =
     Some (r\<lparr>empty := empty r - 1, shared_buffer := (shared_buffer r)[wrIdx r := p],
       wrIdx := (wrIdx r + 1) mod shm_num_items r, full := full r + 1\<rparr>)"
  by (simp add: sendReqPacket_def ring_ok_def)

lemma getNextReqPacket_eq:
  "ring_ok r \<Longrightarrow> 0 < full r \<Longrightarrow> getNextReqPacket r =
     Some (shared_buffer r ! rdIdx r,
       r\<lparr>full := full r - 1, rdIdx := (rdIdx r + 1) mod shm_num_items r, empty := empty r + 1\<rparr>)"
  by (simp add: getNextReqPacket_def ring_ok_def)

definition ring_enq :: "'p \<Rightarrow> 'p ring \<Rightarrow> 'p ring" where
  "ring_enq p r = (case sendReqPacket p r of Some r' \<Rightarrow> r' | None \<Rightarrow> r)"

lemma sendReqPacket_enq: "ring_ok r \<Longrightarrow> 0 < empty r \<Longrightarrow> sendReqPacket p r = Some (ring_enq p r)"
  by (simp add: ring_enq_def sendReqPacket_eq)

lemma ring_enq_content:
  assumes "ring_ok r" and "0 < empty r"
  shows "ring_content (ring_enq p r) = ring_content r @ [p]" and "ring_ok (ring_enq p r)"
proof -
  let ?n = "shm_num_items r"
  have n: "full r < ?n" "0 < ?n" "length (shared_buffer r) = ?n" "wrIdx r = (rdIdx r + full r) mod ?n"
    using assms by (simp_all add: ring_ok_def)
  have "(rdIdx r + full r) mod ?n \<noteq> (rdIdx r + i) mod ?n" if "i < full r" for i
    by (rule not_sym, rule mod_neq_of_close) (use that n(1) in linarith)+
  then show "ring_content (ring_enq p r) = ring_content r @ [p]"
    using n assms by (simp add: ring_enq_def sendReqPacket_eq ring_content_def nth_list_update_neq)
  show "ring_ok (ring_enq p r)"
    using n assms by (simp add: ring_enq_def sendReqPacket_eq) (simp add: ring_ok_def mod_simps)
qed

lemma ring_deq_content:
  assumes "ring_ok r" and "ring_content r = x # xs"
  shows "\<exists>r'. getNextReqPacket r = Some (x, r') \<and> ring_ok r' \<and> ring_content r' = xs"
proof -
  let ?n = "shm_num_items r"
  obtain k where k: "full r = Suc k"
    using assms(2) by (cases "full r") (simp_all add: ring_content_def)
  have up: "[0..<Suc k] = 0 # map Suc [0..<k]"
    by (simp only: map_Suc_upt upt_conv_Cons zero_less_Suc)
  have "x = shared_buffer r ! rdIdx r"
    and "xs = map (\<lambda>i. shared_buffer r ! ((rdIdx r + Suc i) mod ?n)) [0..<k]"
    using assms unfolding ring_content_def ring_ok_def k up by (simp_all add: comp_def)
  then show ?thesis
    using assms(1) k by (simp add: getNextReqPacket_eq) (simp add: ring_ok_def ring_content_def mod_simps)
qed

interpretation rq: fifo ring_ok "\<lambda>r. 0 < empty r" ring_content ring_enq getNextReqPacket
proof unfold_locales
  fix r :: "'a ring" and x
  assume ok: "ring_ok r"
  show "0 < empty r \<Longrightarrow> ring_ok (ring_enq x r)" by (rule ring_enq_content [OF ok])
  show "0 < empty r \<Longrightarrow> ring_content (ring_enq x r) = ring_content r @ [x]" by (rule ring_enq_content [OF ok])
  show "getNextReqPacket r = None" if "ring_content r = []"
    using that by (simp add: ring_content_def getNextReqPacket_def)
qed (fact ring_deq_content)

subsection \<open>Properties\<close>

text \<open>
  C6. Under every interleaving of any number of sending clients and receiving servers the packets
  come out of the ring in the order they were stored, none is lost, duplicated or overwritten
  before it is read, and at most \<open>n\<close> are waiting.
\<close>

theorem ring_fifo:
  assumes "rq_reachable n junk k s" and "0 < n"
  shows "rcvd s = take (length (rcvd s)) (sent s) \<and> length (sent s) \<le> length (rcvd s) + n
    \<and> (\<forall>i. length (rcvd s) \<le> i \<and> i < length (sent s) \<longrightarrow> shared_buffer (ring s) ! (i mod n) = sent s ! i)"
proof -
  have inv: "rq_inv n s" by (rule rq_reachable_inv [OF assms])
  with cnt_to_load_le [of "procs s"] cnt_stored_le [of "procs s"] show ?thesis
    by (auto simp: rq_inv_def rq_counts_def rq_content_def)
qed

text \<open>A schedule: which process does what next. Executing one yields a reachable state.\<close>

datatype 'p rq_event = Send nat 'p | Get nat | Leave nat | Run nat

fun rq_exec1 :: "'p rq_event \<Rightarrow> 'p rq_sys \<Rightarrow> 'p rq_sys option" where
  "rq_exec1 (Send i p) s = (case procs s ! i of
     Idle \<Rightarrow> if i < length (procs s) then Some (s\<lparr>procs := (procs s)[i := P_WaitEmpty p]\<rparr>) else None
   | _ \<Rightarrow> None)"
| "rq_exec1 (Get i) s = (case procs s ! i of
     Idle \<Rightarrow> if i < length (procs s) then Some (s\<lparr>procs := (procs s)[i := C_WaitFull]\<rparr>) else None
   | _ \<Rightarrow> None)"
| "rq_exec1 (Leave i) s = (case procs s ! i of
     C_Done p \<Rightarrow> if i < length (procs s) then Some (s\<lparr>procs := (procs s)[i := Idle]\<rparr>) else None
   | _ \<Rightarrow> None)"
| "rq_exec1 (Run i) s = (if i < length (procs s) then
     (case rq_stmt (procs s ! i) (ring s) of None \<Rightarrow> None
      | Some (pc', r') \<Rightarrow> Some (s\<lparr>ring := r', procs := (procs s)[i := pc'],
          sent := sent s @ log_sent (procs s ! i), rcvd := rcvd s @ log_rcvd (procs s ! i) (ring s)\<rparr>))
     else None)"

primrec rq_exec :: "'p rq_event list \<Rightarrow> 'p rq_sys \<Rightarrow> 'p rq_sys option" where
  "rq_exec [] s = Some s"
| "rq_exec (e # es) s = (case rq_exec1 e s of None \<Rightarrow> None | Some t \<Rightarrow> rq_exec es t)"

lemma rq_exec1_step: "rq_exec1 e s = Some t \<Longrightarrow> rq_step s t"
  by (cases e) (auto split: rq_pc.splits if_splits option.splits intro: rq_step.intros)

lemma rq_exec_reachable:
  "rq_reachable n junk k s \<Longrightarrow> rq_exec es s = Some t \<Longrightarrow> rq_reachable n junk k t"
  by (induction es arbitrary: s) (auto split: option.splits dest: rq_exec1_step intro: rq_reachable.step)

lemmas rq_run_simps = rq_init_def new_ring_def rq_stmt_def log_rcvd_def cnt_def

text \<open>Two clients and a server: both clients store, the server has loaded the first packet.\<close>

definition rq_demo :: "nat rq_event list" where
  "rq_demo = [Send 0 7, Send 1 9, Run 0, Run 1, Run 1, Run 1, Run 1, Run 1, Run 0, Run 0, Get 2, Run 1,
     Run 2, Run 2, Run 2]"

definition rq_demo_state :: "nat rq_sys" where
  "rq_demo_state = \<lparr>ring = \<lparr>full = 0, empty = 0, mutex_producer = 0, mutex_consumer = 0, wrIdx = 1,
     rdIdx = 0, shm_num_items = 2, shared_buffer = [9, 7]\<rparr>,
     procs = [P_Advance, Idle, C_Advance 9], sent = [9, 7], rcvd = [9]\<rparr>"

lemma rq_demo_reachable: "rq_reachable 2 0 3 rq_demo_state"
proof -
  have "rq_exec rq_demo (rq_init 2 0 3) = Some rq_demo_state"
    by (simp add: rq_demo_def rq_demo_state_def rq_run_simps numeral_3_eq_3 numeral_2_eq_2)
  then show ?thesis by (rule rq_exec_reachable [OF rq_reachable.start])
qed

theorem ring_fifo_witness: "rcvd rq_demo_state = take 1 (sent rq_demo_state) \<and> length (rcvd rq_demo_state) = 1"
  using ring_fifo [OF rq_demo_reachable] by (simp add: rq_demo_state_def)



text \<open>
  The ring never deadlocks: when every process that is inside an operation is blocked, all of
  them wait for a token. Senders then wait only because \<open>n\<close> packets are waiting to be read, and
  receivers only because there is none, so the two kinds are never blocked together.
\<close>

theorem ring_no_deadlock:
  assumes reach: "rq_reachable n junk k s" and n: "0 < n"
    and blocked: "\<forall>i < length (procs s). rq_stmt (procs s ! i) (ring s) = None"
  shows "((\<exists>i < length (procs s). \<exists>p. procs s ! i = P_WaitEmpty p) \<longrightarrow> length (sent s) = length (rcvd s) + n)
    \<and> ((\<exists>i < length (procs s). procs s ! i = C_WaitFull) \<longrightarrow> sent s = rcvd s)"
proof -
  have inv: "rq_inv n s" by (rule rq_reachable_inv [OF reach n])
  have en: "procs s ! i = Idle \<or> (\<exists>p. procs s ! i = C_Done p) \<or> (\<exists>p. procs s ! i = P_WaitEmpty p \<and> empty (ring s) = 0) \<or>
      (procs s ! i = C_WaitFull \<and> full (ring s) = 0) \<or> (\<exists>p. procs s ! i = P_WaitMutex p \<and> 0 < cnt has_pmutex (procs s)) \<or>
      (procs s ! i = C_WaitMutex \<and> 0 < cnt has_cmutex (procs s))" if "i < length (procs s)" for i
    using rq_enabled [OF inv that refl] blocked that by simp
  have free: "\<not> 0 < cnt has_pmutex (procs s)" "\<not> 0 < cnt has_cmutex (procs s)"
  proof -
    have "\<not> has_pmutex (procs s ! i)" "\<not> has_cmutex (procs s ! i)" if "i < length (procs s)" for i
      using en [OF that] by auto
    then show "\<not> 0 < cnt has_pmutex (procs s)" "\<not> 0 < cnt has_cmutex (procs s)"
      by (auto simp: cnt_zero in_set_conv_nth)
  qed
  have w: "procs s ! i = Idle \<or> (\<exists>p. procs s ! i = C_Done p) \<or> (\<exists>p. procs s ! i = P_WaitEmpty p \<and> empty (ring s) = 0)
      \<or> (procs s ! i = C_WaitFull \<and> full (ring s) = 0)" if "i < length (procs s)" for i
    using en [OF that] free by blast
  then have "\<not> in_send (procs s ! i) \<and> \<not> in_get (procs s ! i)" if "i < length (procs s)" for i
    using w [OF that] by auto
  then have "cnt in_send (procs s) = 0" "cnt in_get (procs s) = 0" by (auto simp: cnt_zero in_set_conv_nth)
  moreover from this have "cnt stored (procs s) = 0" "cnt to_load (procs s) = 0"
    using cnt_stored_le [of "procs s"] cnt_to_load_le [of "procs s"] by simp_all
  ultimately have "full (ring s) + empty (ring s) = n" "length (sent s) = length (rcvd s) + full (ring s)"
    using inv by (simp_all add: rq_inv_def rq_counts_def)
  moreover have "rcvd s = take (length (rcvd s)) (sent s)" using inv by (simp add: rq_inv_def rq_content_def)
  ultimately show ?thesis using w by fastforce
qed

text \<open>The ring is full, a third client waits for a token.\<close>

definition rq_full_state :: "nat rq_sys" where
  "rq_full_state = \<lparr>ring = \<lparr>full = 1, empty = 0, mutex_producer = 1, mutex_consumer = 1, wrIdx = 0,
     rdIdx = 0, shm_num_items = 1, shared_buffer = [7]\<rparr>,
     procs = [Idle, P_WaitEmpty 9], sent = [7], rcvd = []\<rparr>"

lemma rq_full_reachable: "rq_reachable 1 0 2 rq_full_state"
proof -
  have "rq_exec [Send 0 7, Run 0, Run 0, Run 0, Run 0, Run 0, Run 0, Send 1 9] (rq_init 1 0 2) = Some rq_full_state"
    by (simp add: rq_full_state_def rq_run_simps numeral_2_eq_2)
  then show ?thesis by (rule rq_exec_reachable [OF rq_reachable.start])
qed

theorem ring_no_deadlock_witness: "length (sent rq_full_state) = length (rcvd rq_full_state) + 1"
proof -
  have b: "\<forall>i < length (procs rq_full_state). rq_stmt (procs rq_full_state ! i) (ring rq_full_state) = None"
    by (simp add: rq_full_state_def rq_stmt_def less_Suc_eq)
  have "1 < length (procs rq_full_state)" "procs rq_full_state ! 1 = P_WaitEmpty 9"
    by (simp_all add: rq_full_state_def)
  then show ?thesis using ring_no_deadlock [OF rq_full_reachable _ b] by auto
qed

text \<open>
  Called without interference the pair of operations is a bounded queue: a packet sent into a
  ring with room is received after exactly the packets that were waiting before it, and the ring is
  empty and consistent afterwards.
\<close>

theorem ring_call_order:
  assumes "ring_ok r" and "0 < empty r"
  shows "fst (rq.drain (Suc (length (ring_content r))) (ring_enq p r)) = ring_content r @ [p]
    \<and> ring_ok (snd (rq.drain (Suc (length (ring_content r))) (ring_enq p r)))
    \<and> sendReqPacket p r = Some (ring_enq p r)"
  using rq.enq_then_drain [OF assms] rq.drain_content [OF rq.enq_ok [OF assms]] sendReqPacket_enq [OF assms]
  by (simp del: rq.drain.simps)

theorem ring_call_order_witness:
  "fst (rq.drain (Suc 0) (ring_enq (5::nat) (new_ring 3 0))) = [5]"
proof -
  have "ring_ok (new_ring 3 (0::nat))" "ring_content (new_ring 3 (0::nat)) = []" "0 < empty (new_ring 3 (0::nat))"
    using ring_ok_new [of 3 "0::nat"] by (simp_all add: new_ring_def)
  with ring_call_order [of "new_ring 3 (0::nat)" 5] show ?thesis by (simp del: rq.drain.simps)
qed

text \<open>
  A client that maps the segment finds the same eight addresses the server initialised; the
  objects there do not overlap, the last slot ends exactly where the mapping ends, and the count
  the client reads back is the server's. Without the segment neither side starts.
\<close>

theorem shm_layout_agrees:
  assumes "i < n" and "0 < ssz"
  shows "client_layout ssz = server_layout ssz
    \<and> sorted_wrt (\<lambda>a b. a < b) [o_full (server_layout ssz), o_empty (server_layout ssz), o_mutex_producer (server_layout ssz),
        o_mutex_consumer (server_layout ssz), o_pWrIdx (server_layout ssz), o_pRdIdx (server_layout ssz),
        o_num_items (server_layout ssz), o_shared_buffer (server_layout ssz)]
    \<and> slot_offset (server_layout ssz) i + sizeof_ReqPacket \<le> rqueue_length ssz n
    \<and> slot_offset (server_layout ssz) n = rqueue_length ssz n
    \<and> createRQueue ssz n junk True True True = Created (client_layout ssz) (new_ring n junk)"
proof -
  have "i * 3104 + 3104 \<le> n * 3104" using assms(1) by (simp flip: mult_Suc)
  then show ?thesis
    using assms(2)
    by (simp add: client_layout_def server_layout_def slot_offset_def rqueue_length_def createRQueue_def
        new_ring_def geom)
qed

theorem shm_layout_agrees_witness: "slot_offset (server_layout 32) 9 + sizeof_ReqPacket \<le> rqueue_length 32 10"
  using shm_layout_agrees [of 9 10 32 "0::nat"] by simp

end
