(* ===== verification/Client_Lib.thy ===== *)
theory Client_Lib
  imports Req_Queue
begin

text \<open>
  The client library (\<open>PCModule2/client/issd_Compute_client.c\<close>, \<open>atomic.h\<close>): atomic counters,
  request sequence numbers, the reference-counted mapping of the shared ring, and \<open>issd_compute\<close>,
  which builds a request packet, sends it and waits for the feedback on a named pipe. System calls
  (\<open>realpath\<close>, \<open>stat\<close>, \<open>mkfifo\<close>, \<open>open\<close>, \<open>read\<close>) are parameters; their effects that matter are
  logged as actions.
\<close>

subsection \<open>Atomic counters\<close>

text \<open>
  An \<open>atomic_t\<close> is its counter; each operation is one indivisible step that returns its result and
  the new value.
\<close>

definition atomic_read :: "int \<Rightarrow> int" where
  "atomic_read v = v"

definition atomic_set :: "int \<Rightarrow> int \<Rightarrow> int" where
  "atomic_set v i = i"

definition atomic_add :: "int \<Rightarrow> int \<Rightarrow> int" where
  "atomic_add i v = int32 (v + i)"

definition atomic_sub :: "int \<Rightarrow> int \<Rightarrow> int" where
  "atomic_sub i v = int32 (v - i)"

definition atomic_sub_and_test :: "int \<Rightarrow> int \<Rightarrow> bool \<times> int" where
  "atomic_sub_and_test i v = (let w = int32 (v - i) in (w = 0, w))"

definition atomic_inc :: "int \<Rightarrow> int" where
  "atomic_inc v = int32 (v + 1)"

definition atomic_dec :: "int \<Rightarrow> int" where
  "atomic_dec v = int32 (v - 1)"

definition atomic_dec_and_test :: "int \<Rightarrow> bool \<times> int" where
  "atomic_dec_and_test v = (let w = int32 (v - 1) in (w = 0, w))"

definition atomic_inc_and_test :: "int \<Rightarrow> bool \<times> int" where
  "atomic_inc_and_test v = (let w = int32 (v + 1) in (w = 0, w))"

definition atomic_add_negative :: "int \<Rightarrow> int \<Rightarrow> bool \<times> int" where
  "atomic_add_negative i v = (let w = int32 (v + i) in (w < 0, w))"

definition atomic_cas :: "int \<Rightarrow> int \<Rightarrow> int \<Rightarrow> bool \<times> int" where
  "atomic_cas v oldval newval = (if v = oldval then (True, newval) else (False, v))"

definition sync_add_and_fetch :: "int \<Rightarrow> int \<Rightarrow> int \<times> int" where
  "sync_add_and_fetch v i = (let w = int32 (v + i) in (w, w))"

subsection \<open>Request sequence numbers\<close>

definition ATOMIC_MAX_LIMIT :: int where [geom]: "ATOMIC_MAX_LIMIT = 16777215"

definition getNextReqSeq :: "int \<Rightarrow> int \<times> int" where
  "getNextReqSeq c = (let c = snd (atomic_cas c ATOMIC_MAX_LIMIT 0) in sync_add_and_fetch c 1)"

text \<open>A run of calls by one thread at a time.\<close>

primrec reqseqs :: "nat \<Rightarrow> int \<Rightarrow> int list \<times> int" where
  "reqseqs 0 c = ([], c)"
| "reqseqs (Suc k) c = (let (x, c) = getNextReqSeq c; (xs, c) = reqseqs k c in (x # xs, c))"

text \<open>The two atomic statements of a call, interleaved with those of other threads.\<close>

datatype seq_pc = S_Cas | S_Add | S_Got int

fun seq_step :: "seq_pc \<Rightarrow> int \<Rightarrow> seq_pc \<times> int" where
  "seq_step S_Cas c = (S_Add, snd (atomic_cas c ATOMIC_MAX_LIMIT 0))"
| "seq_step S_Add c = (let (x, c') = sync_add_and_fetch c 1 in (S_Got x, c'))"
| "seq_step (S_Got x) c = (S_Got x, c)"

fun seq_run :: "nat list \<Rightarrow> seq_pc list \<Rightarrow> int \<Rightarrow> seq_pc list \<times> int" where
  "seq_run [] pcs c = (pcs, c)"
| "seq_run (i # sch) pcs c =
     (let (pc, c') = seq_step (pcs ! i) c in seq_run sch (pcs[i := pc]) c')"

lemma getNextReqSeq_range:
  "0 \<le> c \<Longrightarrow> c \<le> ATOMIC_MAX_LIMIT \<Longrightarrow> getNextReqSeq c = (c mod ATOMIC_MAX_LIMIT + 1, c mod ATOMIC_MAX_LIMIT + 1)"
  by (auto simp: getNextReqSeq_def atomic_cas_def sync_add_and_fetch_def Let_def geom wrap_simps)

lemma getNextReqSeq_beyond:
  "ATOMIC_MAX_LIMIT < c \<Longrightarrow> c < 2147483647 \<Longrightarrow> getNextReqSeq c = (c + 1, c + 1)"
  by (auto simp: getNextReqSeq_def atomic_cas_def sync_add_and_fetch_def Let_def geom wrap_simps)

lemma reqseqs_nth:
  "0 \<le> c \<Longrightarrow> c \<le> ATOMIC_MAX_LIMIT \<Longrightarrow> length (fst (reqseqs k c)) = k \<and>
    (\<forall>i < k. fst (reqseqs k c) ! i = (c + int i) mod ATOMIC_MAX_LIMIT + 1)"
proof (induction k arbitrary: c)
  case 0
  then show ?case by simp
next
  case (Suc k)
  let ?d = "c mod ATOMIC_MAX_LIMIT + 1"
  have "0 \<le> c mod ATOMIC_MAX_LIMIT" "c mod ATOMIC_MAX_LIMIT < ATOMIC_MAX_LIMIT" by (simp_all add: geom)
  then have d: "0 \<le> ?d" "?d \<le> ATOMIC_MAX_LIMIT" by linarith+
  have "(?d + int i) mod ATOMIC_MAX_LIMIT = (c + int (Suc i)) mod ATOMIC_MAX_LIMIT" for i
    by (simp add: algebra_simps) (metis add.assoc add.commute mod_add_left_eq)
  with Suc.IH [OF d] show ?case
    using getNextReqSeq_range [OF Suc.prems] by (auto simp: split_beta nth_Cons split: nat.splits)
qed

subsection \<open>The mapped ring of a client process\<close>

record client =
  issd_init_inv :: int
  mapped :: "shm_layout option"
  reqSeqPerProcess :: int
  va_ifname :: string

definition client0 :: client where
  "client0 = \<lparr>issd_init_inv = 0, mapped = None, reqSeqPerProcess = 0, va_ifname = ''''\<rparr>"

definition issd_compute_init :: "nat \<Rightarrow> bool \<Rightarrow> bool \<Rightarrow> bool \<Rightarrow> client \<Rightarrow> int \<times> client" where
  "issd_compute_init ssz shm_open_ok fstat_ok mmap_ok c =
     (let (won, v) = atomic_cas (issd_init_inv c) 0 1 in
      if \<not> won then (0, c\<lparr>issd_init_inv := atomic_inc v\<rparr>)
      else let c = c\<lparr>issd_init_inv := v\<rparr> in
        if \<not> shm_open_ok then (-1, c)
        else if \<not> fstat_ok then (-1, c)
        else if \<not> mmap_ok then (-1, c)
        else (0, c\<lparr>mapped := Some (client_layout ssz)\<rparr>))"

definition issd_compute_destroy :: "client \<Rightarrow> int \<times> client" where
  "issd_compute_destroy c =
     (let (won, v) = atomic_cas (issd_init_inv c) 1 0 in
      if \<not> won then (0, c\<lparr>issd_init_inv := atomic_dec v\<rparr>)
      else (0, c\<lparr>issd_init_inv := v, mapped := None\<rparr>))"

text \<open>A history of calls when the server's segment is there: \<open>True\<close> is an init, \<open>False\<close> a destroy.\<close>

fun client_calls :: "nat \<Rightarrow> bool list \<Rightarrow> client \<Rightarrow> client" where
  "client_calls ssz [] c = c"
| "client_calls ssz (b # bs) c =
     client_calls ssz bs (snd (if b then issd_compute_init ssz True True True c else issd_compute_destroy c))"

definition balance :: "bool list \<Rightarrow> int" where
  "balance bs = (\<Sum>b\<leftarrow>bs. if b then 1 else - 1)"

lemma balance_Cons [simp]: "balance (b # bs) = (if b then 1 else - 1) + balance bs"
  by (simp add: balance_def)

lemma balance_Nil [simp]: "balance [] = 0"
  by (simp add: balance_def)

definition client_mapped_ok :: "client \<Rightarrow> bool" where
  "client_mapped_ok c \<longleftrightarrow> 0 \<le> issd_init_inv c \<and> (mapped c \<noteq> None \<longleftrightarrow> 0 < issd_init_inv c)"

lemma client_calls_inv:
  assumes "client_mapped_ok c" and "issd_init_inv c + int (length bs) < 2147483648"
    and "\<forall>k \<le> length bs. 0 \<le> issd_init_inv c + balance (take k bs)"
  shows "client_mapped_ok (client_calls ssz bs c) \<and> issd_init_inv (client_calls ssz bs c) = issd_init_inv c + balance bs"
  using assms
proof (induction bs arbitrary: c)
  case Nil
  then show ?case by simp
next
  case (Cons b bs)
  let ?d = "snd (if b then issd_compute_init ssz True True True c else issd_compute_destroy c)"
  have nn: "0 \<le> issd_init_inv c + (if b then 1 else - 1)" using Cons.prems(3) [rule_format, of 1] by simp
  have d: "client_mapped_ok ?d \<and> issd_init_inv ?d = issd_init_inv c + (if b then 1 else - 1)"
    using Cons.prems(1,2) nn
    by (auto simp: issd_compute_init_def issd_compute_destroy_def atomic_cas_def atomic_inc_def
        atomic_dec_def client_mapped_ok_def wrap_simps)
  have "0 \<le> issd_init_inv ?d + balance (take k bs)" if "k \<le> length bs" for k
    using Cons.prems(3) [rule_format, of "Suc k"] that d by (simp add: algebra_simps)
  moreover have "issd_init_inv ?d + int (length bs) < 2147483648" using d Cons.prems(2) by simp
  ultimately show ?case using Cons.IH [of ?d] d by (simp add: algebra_simps)
qed

subsection \<open>The name of the feedback pipe\<close>

definition digit :: "nat \<Rightarrow> char" where
  "digit d = char_of (48 + d)"

fun dec_nat :: "nat \<Rightarrow> string" where
  "dec_nat n = (if n < 10 then [digit n] else dec_nat (n div 10) @ [digit (n mod 10)])"

declare dec_nat.simps [simp del]

definition dec_int :: "int \<Rightarrow> string" where
  "dec_int i = (if i < 0 then CHR ''-'' # dec_nat (nat (- i)) else dec_nat (nat i))"

definition client_fifo_name :: "int \<Rightarrow> int \<Rightarrow> string" where
  "client_fifo_name pid seq = ''/tmp/issd_cli_'' @ dec_int pid @ ''_'' @ dec_int seq @ ''_fifo''"

definition undec :: "string \<Rightarrow> nat" where
  "undec s = foldl (\<lambda>a ch. a * 10 + (of_char ch - 48)) 0 s"

lemma undec_dec_nat: "undec (dec_nat n) = n"
proof (induction n rule: dec_nat.induct)
  case (1 n)
  have "of_char (digit d) - 48 = d" if "d < 10" for d :: nat
    using that by (simp add: digit_def)
  with 1 show ?case by (subst dec_nat.simps) (auto simp: undec_def)
qed

lemma dec_nat_chars: "ch \<in> set (dec_nat n) \<Longrightarrow> \<exists>d < 10. ch = digit d"
proof (induction n rule: dec_nat.induct)
  case (1 n)
  show ?case
  proof (cases "n < 10")
    case True
    with 1(2) show ?thesis by (subst (asm) dec_nat.simps) auto
  next
    case False
    with 1(2) have "ch \<in> set (dec_nat (n div 10)) \<or> ch = digit (n mod 10)"
      by (subst (asm) dec_nat.simps) auto
    moreover have "n mod 10 < 10" by simp
    ultimately show ?thesis using 1(1) [OF False] by blast
  qed
qed

text \<open>\<open>isdigit\<close> and \<open>isspace\<close> of the C locale.\<close>

definition isdigit :: "char \<Rightarrow> bool" where
  "isdigit c \<longleftrightarrow> 48 \<le> (of_char c :: nat) \<and> (of_char c :: nat) \<le> 57"

definition isspace :: "char \<Rightarrow> bool" where
  "isspace c \<longleftrightarrow> c = CHR '' '' \<or> 9 \<le> (of_char c :: nat) \<and> (of_char c :: nat) \<le> 13"

lemma takeWhile_digits: "takeWhile isdigit (dec_nat n) = dec_nat n"
proof -
  have "isdigit c" if "c \<in> set (dec_nat n)" for c using dec_nat_chars [OF that] by (auto simp: isdigit_def digit_def)
  then show ?thesis by (simp add: takeWhile_eq_all_conv)
qed

lemma digit_neq: "d < 10 \<Longrightarrow> of_char ch < (48::nat) \<or> 57 < (of_char ch :: nat) \<Longrightarrow> digit d \<noteq> ch"
  by (auto simp: digit_def)

lemma dec_nat_no_sep: "CHR ''_'' \<notin> set (dec_nat n)" "CHR ''-'' \<notin> set (dec_nat n)"
  by (auto dest!: dec_nat_chars simp: digit_neq [symmetric])

lemma dec_int_no_underscore: "CHR ''_'' \<notin> set (dec_int i)"
  by (simp add: dec_int_def dec_nat_no_sep)

lemma dec_nat_inj: "dec_nat m = dec_nat n \<longleftrightarrow> m = n"
  using undec_dec_nat by metis

lemma dec_nat_not_minus: "dec_nat n \<noteq> CHR ''-'' # s" "CHR ''-'' # s \<noteq> dec_nat n"
  using dec_nat_no_sep(2) [of n] by (metis list.set_intros(1))+

lemma dec_int_inj: "dec_int i = dec_int j \<longleftrightarrow> i = j"
  by (auto simp: dec_int_def dec_nat_inj dec_nat_not_minus)

lemma append_sep_inj:
  assumes "c \<notin> set xs" "c \<notin> set ys"
  shows "xs @ c # us = ys @ c # vs \<longleftrightarrow> xs = ys \<and> us = vs"
proof
  assume eq: "xs @ c # us = ys @ c # vs"
  have "takeWhile (\<lambda>x. x \<noteq> c) (xs @ c # us) = xs" "takeWhile (\<lambda>x. x \<noteq> c) (ys @ c # vs) = ys"
    using assms by (simp_all add: takeWhile_append)
  with eq have "xs = ys" by metis
  with eq show "xs = ys \<and> us = vs" by simp
qed simp

lemma client_fifo_name_inj: "client_fifo_name p q = client_fifo_name p' q' \<longleftrightarrow> p = p' \<and> q = q'"
  using append_sep_inj [OF dec_int_no_underscore dec_int_no_underscore]
  by (simp add: client_fifo_name_def dec_int_inj)


subsection \<open>issd_compute of the client\<close>

record cl_env =
  e_realpath :: "string \<Rightarrow> string option"
  e_stat :: "string \<Rightarrow> nat option"
  e_bdevname :: "nat \<Rightarrow> string option"
  e_pid :: int
  e_mkfifo_ok :: bool
  e_open_ok :: bool
  e_read :: "int option"

datatype cl_action =
  MkFifo string | SendReqPacket ISSD_ReqPacket | OpenFifo string | CloseFifo | UnlinkFifo string

text \<open>
  The packet the client builds. \<open>junk\<close> is what the uninitialised local variable holds: a path that
  \<open>realpath\<close> cannot resolve, the second input of a plain copy and the name of an unknown device
  leave their fields as they were.
\<close>

definition packet_paths :: "cl_env \<Rightarrow> string \<Rightarrow> string \<Rightarrow> string \<Rightarrow> int \<Rightarrow> ISSD_ReqPacket \<Rightarrow> ISSD_ReqPacket" where
  "packet_paths env ifn va ofn op junk =
     (let p = (case e_realpath env ifn of Some r \<Rightarrow> junk\<lparr>ifname0 := snprintf_s MAX_FILENAME_LEN r\<rparr> | None \<Rightarrow> junk);
          p = (if op = ISSD_MERGE then
                 (case e_realpath env va of Some r \<Rightarrow> p\<lparr>ifname1 := snprintf_s MAX_FILENAME_LEN r\<rparr> | None \<Rightarrow> p)
               else p)
      in p\<lparr>ofname := snprintf_s MAX_FILENAME_LEN ofn\<rparr>)"

definition packet_target :: "cl_env \<Rightarrow> nat \<Rightarrow> int \<Rightarrow> int \<Rightarrow> ISSD_ReqPacket \<Rightarrow> ISSD_ReqPacket" where
  "packet_target env dev op seq p =
     (let p = (case e_bdevname env dev of
                 Some b \<Rightarrow> p\<lparr>devname := snprintf_s MAX_DEVNAME_LEN (''/dev/'' @ b)\<rparr> | None \<Rightarrow> p)
      in p\<lparr>opType := op, req_pid := e_pid env, reqSeq := seq\<rparr>)"

definition await_feedback :: "cl_env \<Rightarrow> string \<Rightarrow> int \<times> cl_action list" where
  "await_feedback env fname =
     (if \<not> e_open_ok env then (-1, [UnlinkFifo fname])
      else case e_read env of
        Some ok \<Rightarrow> (ok, [OpenFifo fname, CloseFifo, UnlinkFifo fname])
      | None \<Rightarrow> (-1, [OpenFifo fname, CloseFifo, UnlinkFifo fname]))"

definition issd_compute_send ::
    "cl_env \<Rightarrow> ISSD_ReqPacket \<Rightarrow> string \<Rightarrow> string \<Rightarrow> int \<Rightarrow> client \<Rightarrow> int \<times> cl_action list \<times> client" where
  "issd_compute_send env junk ifn ofn op c =
     (let p = packet_paths env ifn (va_ifname c) ofn op junk in
      case e_stat env ifn of
        None \<Rightarrow> (-1, [], c)
      | Some dev \<Rightarrow>
          (let (seq, v) = getNextReqSeq (reqSeqPerProcess c);
               c = c\<lparr>reqSeqPerProcess := v\<rparr>;
               p = packet_target env dev op seq p;
               fname = client_fifo_name (req_pid p) (reqSeq p) in
           if \<not> e_mkfifo_ok env then (-1, [], c)
           else let (ret, acts) = await_feedback env fname in (ret, MkFifo fname # SendReqPacket p # acts, c)))"

text \<open>
  \<open>None\<close> is undefined behaviour: a second input name of \<open>MAX_FILENAME_LEN\<close> or more characters is
  copied without its terminator and then read as a string.
\<close>

definition issd_compute_client ::
    "cl_env \<Rightarrow> ISSD_ReqPacket \<Rightarrow> string option \<Rightarrow> string option \<Rightarrow> int \<Rightarrow> string \<Rightarrow> client
     \<Rightarrow> (int \<times> cl_action list \<times> client) option" where
  "issd_compute_client env junk ifn_p ofn_p op ifname2 c =
     (case (ifn_p, ofn_p) of
        (Some ifn, Some ofn) \<Rightarrow>
          (if op = ISSD_MERGE
           then (case strncpy_s MAX_FILENAME_LEN ifname2 of
                   None \<Rightarrow> None
                 | Some v \<Rightarrow> Some (issd_compute_send env junk ifn ofn op (c\<lparr>va_ifname := v\<rparr>)))
           else Some (issd_compute_send env junk ifn ofn op c))
      | _ \<Rightarrow> Some (-1, [], c))"

lemma packet_fields:
  "req_pid (packet_target env dev op seq p) = e_pid env" "reqSeq (packet_target env dev op seq p) = seq"
  "opType (packet_target env dev op seq p) = op" "ofname (packet_target env dev op seq p) = ofname p"
  "length (ofname (packet_paths env ifn va ofn op junk)) < MAX_FILENAME_LEN"
  by (simp_all add: packet_target_def packet_paths_def Let_def geom split: option.splits)

lemma await_feedback_result:
  "await_feedback env f = (ret, acts) \<Longrightarrow>
     acts \<noteq> [] \<and> last acts = UnlinkFifo f \<and> (ret = -1 \<or> e_read env = Some ret)"
  by (auto simp: await_feedback_def split: if_splits option.splits)

subsection \<open>Properties\<close>

text \<open>
  Within one process the sequence numbers of up to \<open>ATOMIC_MAX_LIMIT\<close> consecutive calls are
  pairwise different and lie between 1 and \<open>ATOMIC_MAX_LIMIT\<close>, and two requests have the same pipe
  only if their process id and sequence number agree: a request is identified by its pipe.
\<close>

theorem request_identity:
  assumes "0 \<le> c" and "c \<le> ATOMIC_MAX_LIMIT" and "int k \<le> ATOMIC_MAX_LIMIT"
  shows "distinct (fst (reqseqs k c)) \<and> set (fst (reqseqs k c)) \<subseteq> {1..ATOMIC_MAX_LIMIT}
    \<and> (client_fifo_name p q = client_fifo_name p' q' \<longleftrightarrow> p = p' \<and> q = q')"
proof -
  note n = reqseqs_nth [OF assms(1,2), of k]
  have "(c + int i) mod ATOMIC_MAX_LIMIT \<noteq> (c + int j) mod ATOMIC_MAX_LIMIT" if "i < j" "j < k" for i j
  proof
    assume "(c + int i) mod ATOMIC_MAX_LIMIT = (c + int j) mod ATOMIC_MAX_LIMIT"
    then have "ATOMIC_MAX_LIMIT dvd int j - int i" by (simp add: mod_eq_dvd_iff dvd_diff_commute)
    moreover have "0 < int j - int i" "int j - int i < ATOMIC_MAX_LIMIT" using that assms(3) by linarith+
    ultimately show False by (simp add: zdvd_not_zless)
  qed
  then have "distinct (fst (reqseqs k c))" using n by (auto simp: distinct_conv_nth) (metis nat_neq_iff)
  moreover have "(c + int i) mod ATOMIC_MAX_LIMIT + 1 \<in> {1..ATOMIC_MAX_LIMIT}" for i
    using pos_mod_bound [of ATOMIC_MAX_LIMIT "c + int i"] by (simp add: geom)
  ultimately show ?thesis using n by (auto simp: in_set_conv_nth client_fifo_name_inj)
qed

theorem request_identity_witness:
  "fst (reqseqs 3 16777214) = [16777215, 1, 2] \<and> distinct (fst (reqseqs 3 16777214))"
  using request_identity [of 16777214 3 0 0 0 0]
  by (simp add: geom numeral_3_eq_3 getNextReqSeq_def atomic_cas_def sync_add_and_fetch_def wrap_simps)

text \<open>
  The limit does not hold between threads. From any counter one below the limit there is an
  interleaving of two calls, each thread running its two atomic statements in order, after which the
  counter is above \<open>ATOMIC_MAX_LIMIT\<close>; from there the reset never matches again and every further
  call only counts up, contrary to the comment that the counter goes back to zero at the limit.
\<close>

theorem reqseq_limit_race:
  "(\<exists>sch. seq_run sch [S_Cas, S_Cas] (ATOMIC_MAX_LIMIT - 1)
      = ([S_Got ATOMIC_MAX_LIMIT, S_Got (ATOMIC_MAX_LIMIT + 1)], ATOMIC_MAX_LIMIT + 1))
   \<and> (\<forall>c. ATOMIC_MAX_LIMIT < c \<and> c < 2147483647 \<longrightarrow> getNextReqSeq c = (c + 1, c + 1))"
proof
  show "\<exists>sch. seq_run sch [S_Cas, S_Cas] (ATOMIC_MAX_LIMIT - 1)
      = ([S_Got ATOMIC_MAX_LIMIT, S_Got (ATOMIC_MAX_LIMIT + 1)], ATOMIC_MAX_LIMIT + 1)"
    by (rule exI [of _ "[0, 1, 0, 1]"]) (simp add: geom atomic_cas_def sync_add_and_fetch_def wrap_simps Let_def)
qed (simp add: getNextReqSeq_beyond)

theorem reqseq_limit_race_witness: "getNextReqSeq 16777216 = (16777217, 16777217)"
  using reqseq_limit_race [THEN conjunct2, rule_format, of 16777216] by (simp add: geom)

text \<open>
  While the server's segment can be mapped, any history of \<open>issd_compute_init\<close> and
  \<open>issd_compute_destroy\<close> calls in which no destroy comes before its init leaves the reference count
  equal to the number of open inits, and the ring mapped exactly when that number is positive.
\<close>

theorem client_refcount:
  assumes "\<forall>k \<le> length bs. 0 \<le> balance (take k bs)" and "length bs < 2147483648"
  shows "issd_init_inv (client_calls ssz bs client0) = balance bs
    \<and> (mapped (client_calls ssz bs client0) \<noteq> None \<longleftrightarrow> 0 < balance bs)"
proof -
  have "client_mapped_ok client0" and "issd_init_inv client0 = 0" by (simp_all add: client_mapped_ok_def client0_def)
  with client_calls_inv [of client0 bs ssz] assms show ?thesis by (auto simp: client_mapped_ok_def)
qed

theorem client_refcount_witness:
  "mapped (client_calls 32 [True, True, False] client0) \<noteq> None"
  using client_refcount [of "[True, True, False]" 32] by (simp add: le_Suc_eq)

text \<open>
  A failed first \<open>issd_compute_init\<close> leaves the count at one, so that the next call returns
  success although nothing is mapped.
\<close>

theorem client_init_after_failure:
  "issd_compute_init ssz False f m client0 = (-1, client0\<lparr>issd_init_inv := 1\<rparr>)
   \<and> fst (issd_compute_init ssz so f' m' (client0\<lparr>issd_init_inv := 1\<rparr>)) = 0
   \<and> mapped (snd (issd_compute_init ssz so f' m' (client0\<lparr>issd_init_inv := 1\<rparr>))) = None"
  by (simp add: issd_compute_init_def atomic_cas_def client0_def Let_def)


definition demo_env :: cl_env where
  "demo_env = \<lparr>e_realpath = (\<lambda>p. Some (''/mnt/'' @ p)), e_stat = (\<lambda>_. Some 2064), e_bdevname = (\<lambda>_. Some ''sdb1''),
     e_pid = 42, e_mkfifo_ok = True, e_open_ok = True, e_read = Some 1\<rparr>"

definition demo_junk :: ISSD_ReqPacket where
  "demo_junk = \<lparr>ifname0 = [], ifname1 = [], ofname = [], devname = [], opType = 0, req_pid = 0, reqSeq = 0\<rparr>"


end
