(* ===== verification/Compute_Cmd.thy ===== *)
theory Compute_Cmd
  imports Host_Types
begin

text \<open>
  The host's computing library (\<open>PCModule2/server/issd_compute.c\<close>, \<open>PCModule2/server/sataCom.c\<close>,
  \<open>PCModule2/server/issd.h\<close>): from two file names to the command packet the device gets. A file is read as
  the list of its file-system blocks, the blocks are merged into extents of sectors, the extents of source
  and destination are put into the command, the command goes to the device in 512-byte packets, and the
  host polls until the device sets the success flag. What the operating system answers is the record
  \<open>os_env\<close>; the answers about a file are indexed by its place in the command. Sums of C ints are not
  wrapped (their overflow is undefined), \<open>UINT32\<close> values are.
\<close>

subsection \<open>Data\<close>

definition ISSD_MAX_OP_FILES :: nat where [geom]: "ISSD_MAX_OP_FILES = 3"
definition SECTOR_SIZE :: nat where [geom]: "SECTOR_SIZE = 512"
definition MAX_AFCMD_PACKET_SIZE :: nat where [geom]: "MAX_AFCMD_PACKET_SIZE = 32 * 1024"
definition MAX_AFCMD_MAINPARA_SIZE :: nat where [geom]: "MAX_AFCMD_MAINPARA_SIZE = 512"
definition MAX_FILE_BLOCK_LEN :: nat where [geom]: "MAX_FILE_BLOCK_LEN = 65536"

record lbaExt =
  lba :: nat
  len :: nat

record afCommand =
  num_packet :: int
  af_opType :: int
  isOK :: int
  num_files :: nat
  fileSize :: "nat list"
  file_ext_offset :: "nat list"
  fileExtArr :: "lbaExt list"

record issd_env =
  fs_blksize :: int
  fs_blkbits :: nat
  part_start :: nat

record os_env =
  os_open :: "nat \<Rightarrow> string \<Rightarrow> bool"
  os_fstat :: "nat \<Rightarrow> string \<Rightarrow> int option"
  os_fibmap :: "nat \<Rightarrow> string \<Rightarrow> nat \<Rightarrow> nat option"
  os_create :: "string \<Rightarrow> bool"
  os_fallocate :: "string \<Rightarrow> int \<Rightarrow> bool"
  os_getgeo :: "string \<Rightarrow> nat option"
  os_blksize :: "string \<Rightarrow> int option"
  os_log2 :: "int \<Rightarrow> nat"
  os_malloc :: bool
  os_open_dev :: "string \<Rightarrow> bool"
  os_sg_write :: "nat \<Rightarrow> bool"
  os_sg_read :: "nat \<Rightarrow> u32 list option"
  os_truncate :: "string \<Rightarrow> bool"

text \<open>What the run does to the world.\<close>

datatype host_action =
    Created string
  | Allocated string int
  | Unlinked string
  | Sent_Packet "u32 list"
  | Truncated string nat

definition UINT32_of :: "int \<Rightarrow> nat" where
  "UINT32_of i = nat (i mod 4294967296)"

subsection \<open>Blocks and extents\<close>

definition get_fileSize :: "os_env \<Rightarrow> nat \<Rightarrow> string \<Rightarrow> int" where
  "get_fileSize os f name = (case os_fstat os f name of None \<Rightarrow> -1 | Some n \<Rightarrow> n)"

definition get_nr_blocks :: "os_env \<Rightarrow> nat \<Rightarrow> string \<Rightarrow> int \<Rightarrow> int" where
  "get_nr_blocks os f name blksize = cdiv (get_fileSize os f name + blksize - 1) blksize"

text \<open>The failure value -1 is an unsigned number here.\<close>

definition get_block :: "os_env \<Rightarrow> nat \<Rightarrow> string \<Rightarrow> nat \<Rightarrow> nat" where
  "get_block os f name logical_block = (case os_fibmap os f name logical_block of None \<Rightarrow> UINT32_of (-1) | Some b \<Rightarrow> wrap32 b)"

definition extractBlocks :: "os_env \<Rightarrow> nat \<Rightarrow> string \<Rightarrow> nat \<Rightarrow> int \<Rightarrow> nat list option" where
  "extractBlocks os f name n blksize =
     (let nr_blocks = get_nr_blocks os f name blksize in
      if nr_blocks < 0 then None
      else if int n < nr_blocks then None
      else Some (List.map (get_block os f name) [0..<nat nr_blocks] @ replicate (n - nat nr_blocks) (UINT32_of (-1))))"

text \<open>\<open>while(end < nr_blocks && (end == start || blocks[end] == blocks[end - 1] + 1)) end++;\<close>\<close>

function run_end :: "nat list \<Rightarrow> nat \<Rightarrow> nat \<Rightarrow> nat \<Rightarrow> nat" where
  "run_end blocks nr_blocks start e =
     (if e < nr_blocks \<and> (e = start \<or> blocks ! e = wrap32 (blocks ! (e - 1) + 1))
      then run_end blocks nr_blocks start (e + 1) else e)"
  by pat_completeness auto
termination by (relation "measure (\<lambda>(b, n, s, e). n - e)") auto

declare run_end.simps [simp del]

lemma run_end_ge: "e \<le> run_end blocks nr_blocks start e"
  by (induction blocks nr_blocks start e rule: run_end.induct) (subst run_end.simps, auto)

lemma run_end_progress: "start < nr_blocks \<Longrightarrow> start < run_end blocks nr_blocks start start"
  using run_end_ge [of "start + 1" blocks nr_blocks start] by (subst run_end.simps) simp

lemma run_end_le: "e \<le> nr_blocks \<Longrightarrow> run_end blocks nr_blocks start e \<le> nr_blocks"
  by (induction blocks nr_blocks start e rule: run_end.induct) (subst run_end.simps, auto)

text \<open>
  \<open>postProcess\<close>: \<open>sh\<close> is \<open>blkbits - 9\<close>, \<open>offset\<close> the place of the file's first extent, \<open>maxn\<close> the global
  \<open>max_fileExt_num\<close>. The result is the number of extents, or -1 when the table is full.
\<close>

function postProcess :: "nat \<Rightarrow> nat \<Rightarrow> nat \<Rightarrow> nat list \<Rightarrow> nat \<Rightarrow> nat \<Rightarrow> nat \<Rightarrow> nat \<Rightarrow> lbaExt list \<Rightarrow> int \<times> lbaExt list" where
  "postProcess maxn sh part blocks nr_blocks offset start segs exts =
     (if start < nr_blocks
      then (let e = run_end blocks nr_blocks start start;
                ext = \<lparr>lba = wrap32 (part + wrap32 (blocks ! start * 2 ^ sh)), len = wrap32 ((e - start) * 2 ^ sh)\<rparr>;
                exts = exts[offset + segs := ext];
                segs = segs + 1
            in if maxn \<le> offset + segs then (-1, exts)
               else postProcess maxn sh part blocks nr_blocks offset e segs exts)
      else (int segs, exts))"
  by pat_completeness auto
termination
  by (relation "measure (\<lambda>(m, sh, p, b, n, off, s, c, x). n - s)") (use run_end_progress in \<open>auto simp: diff_less_mono2\<close>)

declare postProcess.simps [simp del]

definition getLbaExts :: "os_env \<Rightarrow> nat \<Rightarrow> issd_env \<Rightarrow> nat \<Rightarrow> string \<Rightarrow> afCommand \<Rightarrow> int \<times> afCommand" where
  "getLbaExts os maxn env curFileIdx fname cmd =
     (if \<not> os_open os curFileIdx fname then (-1, cmd)
      else
        (let cmd = cmd\<lparr>fileSize := (fileSize cmd)[curFileIdx := UINT32_of (get_fileSize os curFileIdx fname)]\<rparr> in
         case extractBlocks os curFileIdx fname MAX_FILE_BLOCK_LEN (fs_blksize env) of
           None \<Rightarrow> (-1, cmd)
         | Some blockList \<Rightarrow>
             (let (segs, exts) = postProcess maxn (fs_blkbits env - 9) (part_start env) blockList
                    (UINT32_of (get_nr_blocks os curFileIdx fname (fs_blksize env))) (file_ext_offset cmd ! curFileIdx) 0 0 (fileExtArr cmd)
              in (if segs < 0 then -1 else segs, cmd\<lparr>fileExtArr := exts\<rparr>))))"

subsection \<open>Building the command\<close>

text \<open>One file: its extents, then the offset of the next file.\<close>

definition add_file :: "os_env \<Rightarrow> nat \<Rightarrow> issd_env \<Rightarrow> nat \<Rightarrow> string \<Rightarrow> afCommand \<Rightarrow> bool \<times> afCommand" where
  "add_file os maxn env curFileIdx fname cmd =
     (let (segs, cmd) = getLbaExts os maxn env curFileIdx fname cmd in
      if segs < 0 then (False, cmd)
      else (True, cmd\<lparr>file_ext_offset := (file_ext_offset cmd)[curFileIdx + 1 := wrap32 (file_ext_offset cmd ! curFileIdx + nat segs)]\<rparr>))"

definition output_length :: "issd_env \<Rightarrow> afCommand \<Rightarrow> int" where
  "output_length env cmd =
     (if af_opType cmd = ISSD_MERGE then int32 (int (fileSize cmd ! 0) + int (fileSize cmd ! 1) + fs_blksize env)
      else int32 (int (fileSize cmd ! 0)))"

definition issd_createCmd ::
    "os_env \<Rightarrow> nat \<Rightarrow> issd_env \<Rightarrow> string \<Rightarrow> string \<Rightarrow> string \<Rightarrow> afCommand \<Rightarrow> bool \<times> afCommand \<times> host_action list" where
  "issd_createCmd os maxn env ifname va_ifname ofn cmd =
     (let (ok, cmd) = add_file os maxn env 0 ifname (cmd\<lparr>num_files := 2\<rparr>) in
      if \<not> ok then (False, cmd, [])
      else
        (let merge = (af_opType cmd = ISSD_MERGE);
             (ok, cmd) = (if merge then add_file os maxn env 1 va_ifname (cmd\<lparr>num_files := num_files cmd + 1\<rparr>) else (True, cmd));
             idx = (if merge then 2 else 1)
         in if \<not> ok then (False, cmd, [])
         else
           (let wlength = output_length env cmd in
            if \<not> os_create os ofn then (False, cmd, [])
            else if \<not> os_fallocate os ofn wlength then (False, cmd, [Created ofn, Unlinked ofn])
            else
              (let (ok, cmd) = add_file os maxn env idx ofn cmd in
               if \<not> ok then (False, cmd, [Created ofn, Allocated ofn wlength])
               else (True, cmd\<lparr>isOK := 0\<rparr>, [Created ofn, Allocated ofn wlength])))))"

subsection \<open>The command as the device receives it\<close>

text \<open>The memory of the command in 32-bit words; \<open>malloc\<close> and \<open>memset\<close> give \<open>MAX_AFCMD_PACKET_SIZE\<close> bytes.\<close>

definition ext_words :: "lbaExt \<Rightarrow> u32 list" where
  "ext_words e = [of_nat (lba e), of_nat (len e)]"

definition af_words :: "afCommand \<Rightarrow> u32 list" where
  "af_words cmd = [of_int (num_packet cmd), of_int (af_opType cmd), of_int (isOK cmd), of_nat (num_files cmd)]
     @ List.map of_nat (fileSize cmd) @ List.map of_nat (file_ext_offset cmd) @ concat (List.map ext_words (fileExtArr cmd)) @ [0]"

definition af_zero :: "int \<Rightarrow> afCommand" where
  "af_zero op = \<lparr>num_packet = 0, af_opType = op, isOK = 0, num_files = 0, fileSize = replicate 3 0,
     file_ext_offset = replicate 4 0, fileExtArr = replicate ((MAX_AFCMD_PACKET_SIZE - 44) div 8) \<lparr>lba = 0, len = 0\<rparr>\<rparr>"

definition packet :: "u32 list \<Rightarrow> nat \<Rightarrow> u32 list" where
  "packet ws i = take (SECTOR_SIZE div 4) (drop (i * (SECTOR_SIZE div 4)) ws)"

text \<open>The loop of \<open>sata_writeBuffer\<close> over the packets.\<close>

fun send_packets :: "os_env \<Rightarrow> u32 list \<Rightarrow> nat list \<Rightarrow> bool \<times> host_action list" where
  "send_packets os ws [] = (True, [])"
| "send_packets os ws (i # is) =
     (if \<not> os_sg_write os i then (False, [])
      else (let (ok, acts) = send_packets os ws is in (ok, Sent_Packet (packet ws i) # acts)))"

definition packets_of :: "int \<Rightarrow> int" where
  "packets_of bufsize = cdiv (bufsize + int SECTOR_SIZE - 1) (int SECTOR_SIZE)"

definition sata_writeBuffer :: "os_env \<Rightarrow> afCommand \<Rightarrow> int \<Rightarrow> string \<Rightarrow> bool \<times> afCommand \<times> host_action list" where
  "sata_writeBuffer os cmd bufsize dev =
     (let cmd = cmd\<lparr>num_packet := packets_of bufsize\<rparr> in
      if \<not> os_open_dev os dev \<or> \<not> os_malloc os then (False, cmd, [])
      else (let (ok, acts) = send_packets os (af_words cmd) [0..<nat (num_packet cmd)] in (ok, cmd, acts)))"

definition DEVICE_NAME :: string where "DEVICE_NAME = ''/dev/sdb1''"

text \<open>\<open>sata_readBuffer\<close>: the answer of the \<open>i\<close>th poll. The device is always \<open>DEVICE_NAME\<close>.\<close>

definition sata_readBuffer :: "os_env \<Rightarrow> nat \<Rightarrow> string \<Rightarrow> u32 list option" where
  "sata_readBuffer os i dev = (if \<not> os_open_dev os DEVICE_NAME then None else os_sg_read os i)"

text \<open>\<open>memcpy(rCmd, rbuffer, sizeof(afCommand_t))\<close>: the eleven words before the extents.\<close>

definition set_header :: "u32 list \<Rightarrow> afCommand \<Rightarrow> afCommand" where
  "set_header ws cmd = cmd\<lparr>num_packet := sint (ws ! 0), af_opType := sint (ws ! 1), isOK := sint (ws ! 2), num_files := unat (ws ! 3),
     fileSize := List.map unat (take 3 (drop 4 ws)), file_ext_offset := List.map unat (take 4 (drop 7 ws))\<rparr>"

text \<open>\<open>issd_waitFinish\<close>, from the \<open>i\<close>th poll on; \<open>None\<close> is a host that polls for ever.\<close>

partial_function (option) waitFinish_loop :: "os_env \<Rightarrow> string \<Rightarrow> nat \<Rightarrow> u32 list option option" where
  "waitFinish_loop os dev i =
     (case sata_readBuffer os i dev of
        None \<Rightarrow> Some None
      | Some rbuffer \<Rightarrow> if rbuffer ! 2 \<noteq> 0 then Some (Some rbuffer) else waitFinish_loop os dev (i + 1))"

definition issd_waitFinish :: "os_env \<Rightarrow> string \<Rightarrow> afCommand \<Rightarrow> (bool \<times> afCommand) option" where
  "issd_waitFinish os dev cmd =
     (if \<not> os_malloc os then Some (False, cmd)
      else (case waitFinish_loop os dev 0 of
              None \<Rightarrow> None
            | Some None \<Rightarrow> Some (False, cmd)
            | Some (Some rbuffer) \<Rightarrow> Some (True, set_header rbuffer cmd)))"

definition issd_sendCmd :: "os_env \<Rightarrow> afCommand \<Rightarrow> int \<Rightarrow> string \<Rightarrow> bool \<times> afCommand \<times> host_action list" where
  "issd_sendCmd os cmd cmdSize dev = sata_writeBuffer os cmd cmdSize dev"

definition max_fileExt_num :: nat where
  "max_fileExt_num = (MAX_AFCMD_PACKET_SIZE - MAX_AFCMD_MAINPARA_SIZE) div 8"

text \<open>
  \<open>issd_compute\<close>, its result and what it did. The extra name is the second input of a merge.
\<close>

definition issd_compute ::
    "os_env \<Rightarrow> int \<Rightarrow> string \<Rightarrow> string \<Rightarrow> string \<Rightarrow> string \<Rightarrow> (int \<times> host_action list) option" where
  "issd_compute os op ifname ofn dev ifname2 =
     (case os_getgeo os dev of
        None \<Rightarrow> Some (-1, [])
      | Some start \<Rightarrow>
        (case os_blksize os ifname of
           None \<Rightarrow> Some (-1, [])
         | Some blksize \<Rightarrow>
           (let ienv = \<lparr>fs_blksize = blksize, fs_blkbits = os_log2 os blksize, part_start = wrap32 start\<rparr> in
            if \<not> os_malloc os then Some (-1, [])
            else
              (let (ok, cmd, acts1) = issd_createCmd os max_fileExt_num ienv ifname (take MAX_FILENAME_LEN ifname2) ofn (af_zero op) in
               if \<not> ok then Some (-1, acts1 @ [Unlinked ofn])
               else
                 (let afCmd_size = 44 + 8 * int (file_ext_offset cmd ! num_files cmd);
                      (ok, cmd, acts2) = issd_sendCmd os cmd afCmd_size dev
                  in if \<not> ok then Some (-1, acts1 @ acts2 @ [Unlinked ofn])
                  else
                    (case issd_waitFinish os dev cmd of
                       None \<Rightarrow> None
                     | Some (ok, cmd) \<Rightarrow>
                         if \<not> ok then Some (-1, acts1 @ acts2 @ [Unlinked ofn])
                         else
                           (let size = fileSize cmd ! (num_files cmd - 1) in
                            if os_truncate os ofn then Some (0, acts1 @ acts2 @ [Truncated ofn size])
                            else Some (-1, acts1 @ acts2 @ [Unlinked ofn]))))))))"

subsection \<open>Extents are the blocks of the file\<close>

definition ext_sectors :: "lbaExt \<Rightarrow> nat list" where
  "ext_sectors e = [lba e..<lba e + len e]"

definition block_sectors :: "nat \<Rightarrow> nat \<Rightarrow> nat \<Rightarrow> nat list" where
  "block_sectors part sh b = [part + b * 2 ^ sh..<part + (b + 1) * 2 ^ sh]"

text \<open>Block \<open>i\<close> starts a run that began no earlier than \<open>s\<close>; the number of runs from \<open>s\<close> on.\<close>

definition starts_run :: "nat list \<Rightarrow> nat \<Rightarrow> nat \<Rightarrow> bool" where
  "starts_run blocks s i \<longleftrightarrow> i = s \<or> blocks ! i \<noteq> blocks ! (i - 1) + 1"

definition runs :: "nat list \<Rightarrow> nat \<Rightarrow> nat \<Rightarrow> nat" where
  "runs blocks nr s = length (filter (starts_run blocks s) [s..<nr])"

text \<open>The blocks lie on the disk: their sector numbers do not wrap.\<close>

definition blocks_ok :: "nat \<Rightarrow> nat \<Rightarrow> nat list \<Rightarrow> nat \<Rightarrow> bool" where
  "blocks_ok part sh blocks nr \<longleftrightarrow> nr \<le> length blocks \<and> nr * 2 ^ sh < 4294967296
     \<and> (\<forall>i < nr. part + (blocks ! i + 1) * 2 ^ sh < 4294967296)"

lemma scale_ge: "b \<le> b * 2 ^ sh" for b :: nat
  by simp

lemma upt_split: "i \<le> j \<Longrightarrow> j \<le> k \<Longrightarrow> [i..<k] = [i..<j] @ [j..<k]"
  using upt_add_eq_append [of i j "k - j"] by simp

lemma blocks_okD:
  assumes "blocks_ok part sh blocks nr" and "i < nr"
  shows "blocks ! i + 1 < 4294967296" "blocks ! i * 2 ^ sh < 4294967296" "part + blocks ! i * 2 ^ sh < 4294967296"
proof -
  have b: "part + (blocks ! i + 1) * 2 ^ sh < 4294967296" using assms by (simp add: blocks_ok_def)
  show "blocks ! i + 1 < 4294967296" using b scale_ge [of "blocks ! i + 1" sh] by linarith
  show "blocks ! i * 2 ^ sh < 4294967296" "part + blocks ! i * 2 ^ sh < 4294967296" using b by simp_all
qed

lemma run_end_inv:
  assumes "\<And>i. i < nr \<Longrightarrow> wrap32 (blocks ! i + 1) = blocks ! i + 1" and "start \<le> e" "e \<le> nr"
    and "\<And>i. start < i \<Longrightarrow> i < e \<Longrightarrow> blocks ! i = blocks ! (i - 1) + 1"
  shows "(\<forall>i. start < i \<and> i < run_end blocks nr start e \<longrightarrow> blocks ! i = blocks ! (i - 1) + 1)
    \<and> (run_end blocks nr start e < nr \<longrightarrow> blocks ! run_end blocks nr start e \<noteq> blocks ! (run_end blocks nr start e - 1) + 1)"
  using assms
proof (induction blocks nr start e rule: run_end.induct)
  case (1 blocks nr start e)
  show ?case
  proof (cases "e < nr \<and> (e = start \<or> blocks ! e = wrap32 (blocks ! (e - 1) + 1))")
    case True
    have eq: "run_end blocks nr start e = run_end blocks nr start (e + 1)" using True by (subst run_end.simps) simp
    show ?thesis unfolding eq
    proof (rule "1.IH" [OF True "1.prems"(1)])
      show "start \<le> e + 1" "e + 1 \<le> nr" using True "1.prems"(2) by simp_all
      fix i assume i: "start < i" "i < e + 1"
      show "blocks ! i = blocks ! (i - 1) + 1"
      proof (cases "i = e")
        case True
        then have "blocks ! i = wrap32 (blocks ! (i - 1) + 1)" "i - 1 < nr" using i(1) \<open>e < nr \<and> _\<close> by auto
        then show ?thesis using "1.prems"(1) by simp
      next
        case False
        then show ?thesis using i "1.prems"(4) by simp
      qed
    qed
  next
    case False
    then have eq: "run_end blocks nr start e = e" by (subst run_end.simps) (rule if_not_P)
    show ?thesis unfolding eq using False "1.prems"(1) [of "e - 1"] "1.prems"(4) by auto
  qed
qed

lemma run_spec:
  assumes ok: "blocks_ok part sh blocks nr" and s: "start < nr"
  defines "e \<equiv> run_end blocks nr start start"
  shows "start < e" "e \<le> nr" "\<And>i. start \<le> i \<Longrightarrow> i < e \<Longrightarrow> blocks ! i = blocks ! start + (i - start)"
    "e < nr \<Longrightarrow> blocks ! e \<noteq> blocks ! (e - 1) + 1"
proof -
  have w: "wrap32 (blocks ! i + 1) = blocks ! i + 1" if "i < nr" for i using blocks_okD(1) [OF ok that] by (simp add: wrap32_id)
  show "start < e" "e \<le> nr" using run_end_progress [OF s] run_end_le [of start nr] s by (simp_all add: e_def)
  have n: "\<forall>i. start < i \<and> i < e \<longrightarrow> blocks ! i = blocks ! (i - 1) + 1" unfolding e_def
    using run_end_inv [where nr = nr and start = start and e = start, OF w] s by simp
  show "blocks ! i = blocks ! start + (i - start)" if "start \<le> i" "i < e" for i
    using that
  proof (induction i rule: dec_induct)
    case (step i)
    then show ?case using n [rule_format, of "Suc i"] by simp
  qed simp
  show "e < nr \<Longrightarrow> blocks ! e \<noteq> blocks ! (e - 1) + 1" unfolding e_def
    using run_end_inv [where nr = nr and start = start and e = start, OF w] s by simp
qed

lemma runs_step:
  assumes ok: "blocks_ok part sh blocks nr" and s: "start < nr"
  shows "runs blocks nr start = Suc (runs blocks nr (run_end blocks nr start start))"
proof -
  let ?e = "run_end blocks nr start start"
  note r = run_spec [OF ok s]
  have "[start..<nr] = start # [start + 1..<?e] @ [?e..<nr]"
    using upt_split [of start ?e nr] r(1,2) by (simp add: upt_conv_Cons)
  moreover have "\<not> starts_run blocks start i" if "start < i" "i < ?e" for i
    using that r(3) [of i] r(3) [of "i - 1"] by (auto simp: starts_run_def)
  then have "filter (starts_run blocks start) [start + 1..<?e] = []" by (auto simp: filter_empty_conv)
  moreover have "filter (starts_run blocks start) [?e..<nr] = filter (starts_run blocks ?e) [?e..<nr]"
    by (rule filter_cong [OF refl]) (use r(1,4) in \<open>auto simp: starts_run_def\<close>)
  ultimately show ?thesis by (simp add: runs_def starts_run_def)
qed

lemma runs_empty: "\<not> start < nr \<Longrightarrow> runs blocks nr start = 0"
  by (simp add: runs_def)

lemma ext_of_run:
  assumes ok: "blocks_ok part sh blocks nr" and s: "start < nr"
  defines "e \<equiv> run_end blocks nr start start"
  shows "ext_sectors \<lparr>lba = wrap32 (part + wrap32 (blocks ! start * 2 ^ sh)), len = wrap32 ((e - start) * 2 ^ sh)\<rparr>
    = concat (List.map (\<lambda>i. block_sectors part sh (blocks ! i)) [start..<e])"
proof -
  note r = run_spec [OF ok s, folded e_def]
  have "(e - start) * 2 ^ sh \<le> nr * 2 ^ sh" using r(2) by (intro mult_le_mono1) simp
  moreover have "nr * 2 ^ sh < 4294967296" using ok by (simp add: blocks_ok_def)
  ultimately have "(e - start) * 2 ^ sh < 4294967296" by linarith
  then have w: "wrap32 ((e - start) * 2 ^ sh) = (e - start) * 2 ^ sh" "wrap32 (part + wrap32 (blocks ! start * 2 ^ sh)) = part + blocks ! start * 2 ^ sh"
    using blocks_okD(2,3) [OF ok s] by (simp_all add: wrap32_id)
  have "concat (List.map (\<lambda>i. block_sectors part sh (blocks ! i)) [start..<x])
      = [part + blocks ! start * 2 ^ sh..<part + (blocks ! start + (x - start)) * 2 ^ sh]" if "start \<le> x" "x \<le> e" for x
    using that
  proof (induction x rule: dec_induct)
    case (step x)
    then have b: "block_sectors part sh (blocks ! x) = [part + (blocks ! start + (x - start)) * 2 ^ sh..<part + (blocks ! start + (Suc x - start)) * 2 ^ sh]"
      using r(3) [of x] by (simp add: block_sectors_def Suc_diff_le)
    have "part + blocks ! start * 2 ^ sh \<le> part + (blocks ! start + (x - start)) * 2 ^ sh"
      "part + (blocks ! start + (x - start)) * 2 ^ sh \<le> part + (blocks ! start + (Suc x - start)) * 2 ^ sh"
      by (intro add_left_mono mult_le_mono1; simp)+
    from upt_split [OF this] step b show ?case by simp
  qed simp
  from this [of e] r(1) show ?thesis unfolding ext_sectors_def by (simp add: w add_mult_distrib [of "blocks ! start" "e - start"] add.assoc del: diff_mult_distrib Nat.add_diff_assoc)
qed

lemma ext_of_run_nonempty:
  assumes "blocks_ok part sh blocks nr" and "start < nr"
  shows "0 < wrap32 ((run_end blocks nr start start - start) * 2 ^ sh)"
proof -
  note r = run_spec [OF assms]
  have "(run_end blocks nr start start - start) * 2 ^ sh \<le> nr * 2 ^ sh" using r(2) by (intro mult_le_mono1) simp
  moreover have "nr * 2 ^ sh < 4294967296" using assms(1) by (simp add: blocks_ok_def)
  ultimately have "(run_end blocks nr start start - start) * 2 ^ sh < 4294967296" by linarith
  then show ?thesis using r(1) by (simp add: wrap32_id)
qed

lemma postProcess_extents:
  assumes "blocks_ok part sh blocks nr" and "s \<le> nr"
    and "maxn \<le> length exts" and "s < nr \<longrightarrow> offset + segs < maxn"
  shows "case postProcess maxn sh part blocks nr offset s segs exts of (n, exts') \<Rightarrow>
      length exts' = length exts \<and> (\<forall>i. i < offset + segs \<longrightarrow> exts' ! i = exts ! i)
    \<and> n = (if s < nr \<and> maxn \<le> offset + segs + runs blocks nr s then -1 else int (segs + runs blocks nr s))
    \<and> (0 \<le> n \<longrightarrow> concat (List.map ext_sectors (take (runs blocks nr s) (drop (offset + segs) exts')))
         = concat (List.map (\<lambda>i. block_sectors part sh (blocks ! i)) [s..<nr])
       \<and> (\<forall>e \<in> set (take (runs blocks nr s) (drop (offset + segs) exts')). 0 < len e))"
  using assms
proof (induction maxn sh part blocks nr offset s segs exts rule: postProcess.induct)
  case (1 maxn sh part blocks nr offset s segs exts)
  show ?case
  proof (cases "s < nr")
    case False
    then show ?thesis using "1.prems" by (simp add: postProcess.simps runs_empty)
  next
    case True
    let ?e = "run_end blocks nr s s"
    define ext where "ext = \<lparr>lba = wrap32 (part + wrap32 (blocks ! s * 2 ^ sh)), len = wrap32 ((?e - s) * 2 ^ sh)\<rparr>"
    let ?exts = "exts[offset + segs := ext]"
    note r = run_spec [OF "1.prems"(1) True] and rs = runs_step [OF "1.prems"(1) True]
    have eq: "postProcess maxn sh part blocks nr offset s segs exts
        = (if maxn \<le> offset + (segs + 1) then (-1, ?exts) else postProcess maxn sh part blocks nr offset ?e (segs + 1) ?exts)"
      using True by (subst postProcess.simps) (simp add: Let_def ext_def)
    show ?thesis
    proof (cases "maxn \<le> offset + (segs + 1)")
      case full: True
      then show ?thesis using True rs unfolding eq by simp
    next
      case False
      have len: "offset + segs < length exts" using False "1.prems"(3) by simp
      have ih: "case postProcess maxn sh part blocks nr offset ?e (segs + 1) ?exts of (n, exts') \<Rightarrow>
          length exts' = length ?exts \<and> (\<forall>i. i < offset + (segs + 1) \<longrightarrow> exts' ! i = ?exts ! i)
        \<and> n = (if ?e < nr \<and> maxn \<le> offset + (segs + 1) + runs blocks nr ?e then -1 else int (segs + 1 + runs blocks nr ?e))
        \<and> (0 \<le> n \<longrightarrow> concat (List.map ext_sectors (take (runs blocks nr ?e) (drop (offset + (segs + 1)) exts')))
             = concat (List.map (\<lambda>i. block_sectors part sh (blocks ! i)) [?e..<nr])
           \<and> (\<forall>e \<in> set (take (runs blocks nr ?e) (drop (offset + (segs + 1)) exts')). 0 < len e))"
      proof (rule "1.IH" [OF True refl refl refl refl False, folded ext_def])
        show "maxn \<le> length ?exts" using "1.prems"(3) by simp
        show "?e < nr \<longrightarrow> offset + (segs + 1) < maxn" using False by simp
      qed (use "1.prems"(1) r(2) in simp_all)
      obtain n exts' where p: "postProcess maxn sh part blocks nr offset ?e (segs + 1) ?exts = (n, exts')" by fastforce
      note ih = ih [unfolded p prod.case, THEN conjunct1] ih [unfolded p prod.case, THEN conjunct2, THEN conjunct1]
        ih [unfolded p prod.case, THEN conjunct2, THEN conjunct2, THEN conjunct1]
        ih [unfolded p prod.case, THEN conjunct2, THEN conjunct2, THEN conjunct2]
      have len': "length exts' = length exts" using ih(1) by simp
      have at: "exts' ! (offset + segs) = ext" using ih(2) [rule_format, of "offset + segs"] len by simp
      have dr: "drop (offset + segs) exts' = ext # drop (offset + (segs + 1)) exts'"
        using Cons_nth_drop_Suc [of "offset + segs" exts'] len len' at by simp
      have "0 < len ext" using ext_of_run_nonempty [OF "1.prems"(1) True] by (simp add: ext_def)
      then have ne: "0 \<le> n \<longrightarrow> (\<forall>e \<in> set (take (runs blocks nr s) (drop (offset + segs) exts')). 0 < len e)"
        using ih(4) by (simp add: rs dr)
      from dr have "concat (List.map ext_sectors (take (runs blocks nr s) (drop (offset + segs) exts')))
          = ext_sectors ext @ concat (List.map ext_sectors (take (runs blocks nr ?e) (drop (offset + (segs + 1)) exts')))"
        by (simp add: rs)
      moreover have "[s..<nr] = [s..<?e] @ [?e..<nr]" using r(1,2) upt_split [of s ?e nr] by simp
      moreover have "\<not> ?e < nr \<Longrightarrow> runs blocks nr ?e = 0" by (rule runs_empty)
      ultimately have "0 \<le> n \<longrightarrow> concat (List.map ext_sectors (take (runs blocks nr s) (drop (offset + segs) exts')))
          = concat (List.map (\<lambda>i. block_sectors part sh (blocks ! i)) [s..<nr])"
        using ih(4) ext_of_run [OF "1.prems"(1) True, folded ext_def] by simp
      moreover have "n = (if s < nr \<and> maxn \<le> offset + segs + runs blocks nr s then -1 else int (segs + runs blocks nr s))"
        using ih(3) False True rs runs_empty [of ?e nr blocks] by (cases "?e < nr") simp_all
      moreover have "\<forall>i. i < offset + segs \<longrightarrow> exts' ! i = exts ! i"
        using ih(2) by (metis add.assoc less_add_one less_trans nat_neq_iff nth_list_update_neq)
      ultimately show ?thesis using len' ne unfolding eq if_not_P [OF False] p prod.case by blast
    qed
  qed
qed

text \<open>
  C29. \<open>postProcess\<close> turns the blocks of a file into its extents: one extent for every maximal run of
  consecutive blocks, the sectors of the extents in order are the sectors of the blocks in order, the
  entries of earlier files stay, and the result is the number of extents, or -1 exactly when they do not
  all fit below the limit.
\<close>

theorem extents_cover_blocks:
  assumes "blocks_ok part sh blocks nr" and "maxn \<le> length exts" and "offset < maxn"
  shows "case postProcess maxn sh part blocks nr offset 0 0 exts of (n, exts') \<Rightarrow>
      n = (if maxn \<le> offset + runs blocks nr 0 then -1 else int (runs blocks nr 0)) \<and> (\<forall>i < offset. exts' ! i = exts ! i)
    \<and> (0 \<le> n \<longrightarrow> concat (List.map ext_sectors (take (nat n) (drop offset exts')))
         = concat (List.map (block_sectors part sh) (take nr blocks)))"
proof -
  have n: "nr \<le> length blocks" using assms(1) by (simp add: blocks_ok_def)
  have t: "take nr blocks = List.map (\<lambda>i. blocks ! i) [0..<nr]" using n by (simp add: list_eq_iff_nth_eq)
  have z: "nr = 0 \<Longrightarrow> runs blocks nr 0 = 0" by (simp add: runs_def)
  show ?thesis
    using postProcess_extents [OF assms(1), of 0 maxn exts offset 0] assms(2,3) z
    by (cases "postProcess maxn sh part blocks nr offset 0 0 exts", cases "nr = 0") (auto simp: t comp_def)
qed

theorem extents_cover_blocks_witness:
  "fst (postProcess 10 3 2048 [100, 101, 102, 50, 7, 8] 6 0 0 0 (replicate 10 \<lparr>lba = 0, len = 0\<rparr>)) = 3"
proof -
  have less6: "i < 6 \<longleftrightarrow> i \<in> {0, 1, 2, 3, 4, 5}" for i :: nat by auto
  have b: "blocks_ok 2048 3 [100, 101, 102, 50, 7, 8] 6" by (auto simp: blocks_ok_def less6)
  have r: "runs [100, 101, 102, 50, 7, 8] 6 0 = 3" by (simp add: runs_def starts_run_def upt_rec)
  show ?thesis using extents_cover_blocks [OF b, where maxn = 10 and offset = 0 and exts = "replicate 10 \<lparr>lba = 0, len = 0\<rparr>"]
    by (simp add: r split_beta)
qed

subsection \<open>The command describes the files\<close>

definition nr_blocks_of :: "os_env \<Rightarrow> issd_env \<Rightarrow> nat \<Rightarrow> string \<Rightarrow> nat" where
  "nr_blocks_of os env f name = nat (get_nr_blocks os f name (fs_blksize env))"

definition file_sectors :: "os_env \<Rightarrow> issd_env \<Rightarrow> nat \<Rightarrow> string \<Rightarrow> nat list" where
  "file_sectors os env f name = concat (List.map (\<lambda>i. block_sectors (part_start env) (fs_blkbits env - 9) (get_block os f name i))
     [0..<nr_blocks_of os env f name])"

definition file_on_disk :: "os_env \<Rightarrow> issd_env \<Rightarrow> nat \<Rightarrow> string \<Rightarrow> bool" where
  "file_on_disk os env f name \<longleftrightarrow> nr_blocks_of os env f name * 2 ^ (fs_blkbits env - 9) < 4294967296
     \<and> (\<forall>i < nr_blocks_of os env f name. part_start env + (get_block os f name i + 1) * 2 ^ (fs_blkbits env - 9) < 4294967296)"

lemma replicate_34: "replicate 4 x = [x, x, x, x]" "replicate 3 x = [x, x, x]"
  by (simp_all add: numeral_eq_Suc)

lemma extractBlocks_Some:
  assumes "extractBlocks os f name n bs = Some bl"
  shows "0 \<le> get_nr_blocks os f name bs" "nat (get_nr_blocks os f name bs) \<le> n" "length bl = n"
    "\<And>i. i < nat (get_nr_blocks os f name bs) \<Longrightarrow> bl ! i = get_block os f name i"
  using assms by (auto simp: extractBlocks_def Let_def nth_append split: if_splits)

lemma UINT32_of_nat: "0 \<le> i \<Longrightarrow> nat i \<le> 65536 \<Longrightarrow> UINT32_of i = nat i"
  by (simp add: UINT32_of_def)

lemma add_file_ok:
  assumes a: "add_file os max_fileExt_num env f name cmd = (True, cmd')" and d: "file_on_disk os env f name"
    and o: "file_ext_offset cmd ! f = off" "off < max_fileExt_num" and l: "length (fileExtArr cmd) = 4090"
  shows "\<exists>exts n. cmd' = cmd\<lparr>fileSize := (fileSize cmd)[f := UINT32_of (get_fileSize os f name)], fileExtArr := exts,
        file_ext_offset := (file_ext_offset cmd)[f + 1 := off + n]\<rparr>
    \<and> off + n < max_fileExt_num \<and> length exts = 4090 \<and> (\<forall>i < off. exts ! i = fileExtArr cmd ! i)
    \<and> concat (List.map ext_sectors (take n (drop off exts))) = file_sectors os env f name
    \<and> (\<forall>e \<in> set (take n (drop off exts)). 0 < len e)"
proof -
  obtain bl where bl: "extractBlocks os f name MAX_FILE_BLOCK_LEN (fs_blksize env) = Some bl" and op: "os_open os f name"
    using a by (cases "extractBlocks os f name MAX_FILE_BLOCK_LEN (fs_blksize env)")
      (auto simp: add_file_def getLbaExts_def Let_def split: if_splits)
  note e = extractBlocks_Some [OF bl]
  let ?nr = "nr_blocks_of os env f name" and ?sh = "fs_blkbits env - 9"
  have nr: "UINT32_of (get_nr_blocks os f name (fs_blksize env)) = ?nr" "?nr \<le> 65536"
    using e(1,2) by (simp_all add: nr_blocks_of_def UINT32_of_nat geom)
  have ok: "blocks_ok (part_start env) ?sh bl ?nr"
    using d e nr(2) by (simp add: blocks_ok_def file_on_disk_def nr_blocks_of_def geom)
  obtain segs exts where p: "postProcess max_fileExt_num ?sh (part_start env) bl ?nr off 0 0 (fileExtArr cmd) = (segs, exts)" by fastforce
  have s0: "0 \<le> segs" and c': "cmd' = cmd\<lparr>fileSize := (fileSize cmd)[f := UINT32_of (get_fileSize os f name)], fileExtArr := exts,
        file_ext_offset := (file_ext_offset cmd)[f + 1 := wrap32 (off + nat segs)]\<rparr>"
    using a op bl o(1) nr(1) p by (auto simp: add_file_def getLbaExts_def Let_def split: if_splits)
  have m: "max_fileExt_num = 4032" by (simp add: max_fileExt_num_def geom)
  from postProcess_extents [OF ok, of 0 max_fileExt_num "fileExtArr cmd" off 0] o(2) l
  have r: "length exts = length (fileExtArr cmd)" "\<forall>i. i < off \<longrightarrow> exts ! i = fileExtArr cmd ! i"
    "segs = (if 0 < ?nr \<and> max_fileExt_num \<le> off + runs bl ?nr 0 then -1 else int (runs bl ?nr 0))"
    "concat (List.map ext_sectors (take (runs bl ?nr 0) (drop off exts)))
       = concat (List.map (\<lambda>i. block_sectors (part_start env) ?sh (bl ! i)) [0..<?nr])"
    "\<forall>e \<in> set (take (runs bl ?nr 0) (drop off exts)). 0 < len e"
    using s0 by (simp_all add: p [unfolded m] m)
  have n: "nat segs = runs bl ?nr 0" "off + runs bl ?nr 0 < max_fileExt_num"
    using r(3) s0 o(2) runs_empty [of 0 ?nr bl] by (auto split: if_splits)
  have "List.map (\<lambda>i. block_sectors (part_start env) ?sh (bl ! i)) [0..<?nr]
      = List.map (\<lambda>i. block_sectors (part_start env) ?sh (get_block os f name i)) [0..<?nr]"
    by (rule map_cong [OF refl]) (use e(4) in \<open>auto simp: nr_blocks_of_def\<close>)
  then have "concat (List.map ext_sectors (take (runs bl ?nr 0) (drop off exts))) = file_sectors os env f name"
    unfolding r(4) file_sectors_def by (rule arg_cong)
  then show ?thesis using c' r(1,2,5) n l m
    by (intro exI [of _ exts] exI [of _ "runs bl ?nr 0"]) (simp add: wrap32_id)
qed

lemma createCmd_extents:
  assumes "file_on_disk os env 0 ifname" and "file_on_disk os env 1 ofn"
    and "issd_createCmd os max_fileExt_num env ifname ifname2 ofn (af_zero ISSD_FILECOPY) = (True, cmd, acts)"
  shows "\<exists>n m. file_ext_offset cmd = [0, n, n + m, 0] \<and> n + m < max_fileExt_num \<and> length (fileExtArr cmd) = 4090
    \<and> concat (List.map ext_sectors (take n (fileExtArr cmd))) = file_sectors os env 0 ifname
    \<and> concat (List.map ext_sectors (take m (drop n (fileExtArr cmd)))) = file_sectors os env 1 ofn
    \<and> (\<forall>e \<in> set (take (n + m) (fileExtArr cmd)). 0 < len e) \<and> length (fileSize cmd) = 3
    \<and> fileSize cmd ! 0 = UINT32_of (get_fileSize os 0 ifname) \<and> num_files cmd = 2 \<and> isOK cmd = 0 \<and> af_opType cmd = ISSD_FILECOPY
    \<and> acts = [Created ofn, Allocated ofn (int32 (int (fileSize cmd ! 0)))]"
proof -
  let ?c0 = "(af_zero ISSD_FILECOPY)\<lparr>num_files := 2\<rparr>"
  have ops: "ISSD_FILECOPY \<noteq> ISSD_MERGE" by (simp add: ISSD_FILECOPY_def ISSD_MERGE_def)
  have z: "file_ext_offset ?c0 = [0, 0, 0, 0]" "fileSize ?c0 = [0, 0, 0]" "length (fileExtArr ?c0) = 4090" "af_opType ?c0 = ISSD_FILECOPY"
    by (simp_all add: af_zero_def geom replicate_34)
  have z0: "file_ext_offset ?c0 ! 0 = 0" "0 < max_fileExt_num" by (simp_all add: z max_fileExt_num_def geom)
  obtain c1 where a1: "add_file os max_fileExt_num env 0 ifname ?c0 = (True, c1)"
    using assms(3) by (cases "add_file os max_fileExt_num env 0 ifname ?c0") (auto simp: issd_createCmd_def Let_def split: if_splits)
  from add_file_ok [OF a1 assms(1) z0 z(3)] obtain e1 n where
    c1: "c1 = ?c0\<lparr>fileSize := (fileSize ?c0)[0 := UINT32_of (get_fileSize os 0 ifname)], fileExtArr := e1,
        file_ext_offset := (file_ext_offset ?c0)[0 + 1 := 0 + n]\<rparr>"
    and e1: "0 + n < max_fileExt_num" "length e1 = 4090" "concat (List.map ext_sectors (take n (drop 0 e1))) = file_sectors os env 0 ifname"
      "\<forall>e \<in> set (take n (drop 0 e1)). 0 < len e"
    by blast
  have t1: "file_ext_offset c1 = [0, n, 0, 0]" "length (fileExtArr c1) = 4090" "fileExtArr c1 = e1" "af_opType c1 = ISSD_FILECOPY"
    "fileSize c1 = [UINT32_of (get_fileSize os 0 ifname), 0, 0]" "num_files c1 = 2"
    using e1(2) by (simp_all add: c1 af_zero_def geom replicate_34)
  then have t1': "file_ext_offset c1 ! 1 = n" by simp
  obtain c2 where a2: "add_file os max_fileExt_num env 1 ofn c1 = (True, c2)" and cmd: "cmd = c2\<lparr>isOK := 0\<rparr>"
    and acts: "acts = [Created ofn, Allocated ofn (output_length env c1)]"
    using assms(3) a1 t1(4) ops
    by (cases "add_file os max_fileExt_num env 1 ofn c1") (auto simp: issd_createCmd_def Let_def af_zero_def split: if_splits)
  from add_file_ok [OF a2 assms(2) t1' _ t1(2)] e1(1) obtain e2 m where
    c2: "c2 = c1\<lparr>fileSize := (fileSize c1)[1 := UINT32_of (get_fileSize os 1 ofn)], fileExtArr := e2,
        file_ext_offset := (file_ext_offset c1)[1 + 1 := n + m]\<rparr>"
    and e2: "n + m < max_fileExt_num" "length e2 = 4090" "\<forall>i < n. e2 ! i = e1 ! i"
      "concat (List.map ext_sectors (take m (drop n e2))) = file_sectors os env 1 ofn"
      "\<forall>e \<in> set (take m (drop n e2)). 0 < len e" unfolding t1(3) by auto
  have "n \<le> 4090" using e1(1) by (simp add: max_fileExt_num_def geom)
  then have tk: "take n e2 = take n e1" using e2(2,3) e1(2) by (intro nth_take_lemma) simp_all
  then have ne: "\<forall>e \<in> set (take (n + m) e2). 0 < len e" using e1(4) e2(5) by (auto simp: take_add)
  from tk have "concat (List.map ext_sectors (take n e2)) = file_sectors os env 0 ifname" using e1(3) by simp
  moreover have "file_ext_offset cmd = [0, n, n + m, 0]" unfolding cmd c2 by (simp add: t1 numeral_2_eq_2)
  moreover have "fileSize cmd ! 0 = UINT32_of (get_fileSize os 0 ifname)" unfolding cmd c2 by (simp add: t1)
  moreover have "output_length env c1 = int32 (int (UINT32_of (get_fileSize os 0 ifname)))" using ops by (simp add: output_length_def t1)
  ultimately show ?thesis using e2 ne acts unfolding cmd c2 by (intro exI [of _ n] exI [of _ m]) (simp add: t1)
qed


text \<open>
  The copy command describes the two files: when \<open>issd_createCmd\<close> succeeds, the extents of the source
  are entries 0 to \<open>n\<close>, those of the destination entries \<open>n\<close> to \<open>n + m\<close>, the offsets say so, the sectors
  of the extents are the sectors of the files' blocks in order, and the destination was created and
  allocated with the size of the source.
\<close>

theorem createCmd_describes_files:
  assumes "file_on_disk os env 0 ifname" and "file_on_disk os env 1 ofn"
    and "issd_createCmd os max_fileExt_num env ifname ifname2 ofn (af_zero ISSD_FILECOPY) = (True, cmd, acts)"
  shows "\<exists>n m. file_ext_offset cmd = [0, n, n + m, 0] \<and> n + m < max_fileExt_num \<and> length (fileExtArr cmd) = 4090
    \<and> concat (List.map ext_sectors (take n (fileExtArr cmd))) = file_sectors os env 0 ifname
    \<and> concat (List.map ext_sectors (take m (drop n (fileExtArr cmd)))) = file_sectors os env 1 ofn
    \<and> fileSize cmd ! 0 = UINT32_of (get_fileSize os 0 ifname) \<and> num_files cmd = 2 \<and> isOK cmd = 0 \<and> af_opType cmd = ISSD_FILECOPY
    \<and> acts = [Created ofn, Allocated ofn (int32 (int (fileSize cmd ! 0)))]"
  using createCmd_extents [OF assms] by blast

text \<open>A concrete system: files of two blocks of 4096 bytes, file \<open>f\<close> at block \<open>100 * (f + 1)\<close>.\<close>

definition demo_os :: os_env where
  "demo_os = \<lparr>os_open = \<lambda>f n. True, os_fstat = \<lambda>f n. Some 8000, os_fibmap = \<lambda>f n i. Some (100 * (f + 1) + i),
     os_create = \<lambda>n. True, os_fallocate = \<lambda>n l. True, os_getgeo = \<lambda>d. Some 2048, os_blksize = \<lambda>n. Some 4096, os_log2 = \<lambda>n. 12,
     os_malloc = True, os_open_dev = \<lambda>d. True, os_sg_write = \<lambda>i. True,
     os_sg_read = \<lambda>i. Some (if i = 3 then [0, 0, 1] else [0, 0, 0]), os_truncate = \<lambda>n. True\<rparr>"

definition demo_ienv :: issd_env where
  "demo_ienv = \<lparr>fs_blksize = 4096, fs_blkbits = 12, part_start = 2048\<rparr>"

lemma demo_blocks:
  "get_nr_blocks demo_os f n 4096 = 2" "get_block demo_os f n i = wrap32 (100 * (f + 1) + i)" "get_fileSize demo_os f n = 8000"
  by (simp_all add: get_nr_blocks_def get_block_def get_fileSize_def demo_os_def cdiv_def)

lemma demo_extract:
  "extractBlocks demo_os f n MAX_FILE_BLOCK_LEN 4096 = Some (wrap32 (100 * (f + 1)) # wrap32 (100 * (f + 1) + 1) # replicate 65534 (UINT32_of (-1)))"
proof -
  have "[0..<2] = [0, Suc 0]" by (simp add: upt_rec)
  then show ?thesis by (simp add: extractBlocks_def demo_blocks Let_def geom)
qed

lemma demo_files: "f < 2 \<Longrightarrow> file_on_disk demo_os demo_ienv f n"
  by (auto simp: file_on_disk_def nr_blocks_of_def demo_ienv_def demo_blocks wrap32_def less_2_cases_iff)

lemma demo_post:
  assumes "f < 2" and "off < 100"
  shows "fst (postProcess max_fileExt_num 3 2048 (wrap32 (100 * (f + 1)) # wrap32 (100 * (f + 1) + 1) # replicate 65534 (UINT32_of (-1)))
    2 off 0 0 exts) = 1"
proof -
  have r: "run_end (wrap32 (100 * (f + 1)) # wrap32 (100 * (f + 1) + 1) # bs) 2 0 0 = 2" for bs
    using assms(1) by (auto simp: run_end.simps [of _ 2 0 0] run_end.simps [of _ 2 0 "Suc 0"] run_end.simps [of _ 2 0 "Suc (Suc 0)"] wrap32_def less_2_cases_iff)
  have "run_end bl 2 0 0 = 2 \<Longrightarrow> fst (postProcess max_fileExt_num 3 2048 bl 2 off 0 0 exts) = 1" for bl
    using assms(2) by (subst postProcess.simps) (simp add: Let_def postProcess.simps [of _ _ _ _ 2 _ 2] max_fileExt_num_def geom)
  from this [OF r] show ?thesis .
qed

lemma demo_add_file:
  assumes "f < 2" and "file_ext_offset cmd ! f = off" and "off < 100"
  shows "fst (add_file demo_os max_fileExt_num demo_ienv f n cmd)"
proof -
  have o: "os_open demo_os f n" by (simp add: demo_os_def)
  have u: "UINT32_of 2 = 2" by (simp add: UINT32_of_def)
  have "fst (postProcess max_fileExt_num 3 2048 (wrap32 (100 * (f + 1)) # wrap32 (100 * (f + 1) + 1) # replicate 65534 (UINT32_of (-1)))
    2 off 0 0 (fileExtArr cmd)) = 1" by (rule demo_post [OF assms(1,3)])
  then show ?thesis using assms(2)
    by (simp add: add_file_def getLbaExts_def o demo_ienv_def demo_extract demo_blocks(1) Let_def u split_beta)
qed

lemma getLbaExts_offsets: "file_ext_offset (snd (getLbaExts os m env f n cmd)) = file_ext_offset cmd"
  by (simp add: getLbaExts_def Let_def split_beta split: option.split)

lemma demo_create:
  "\<exists>cmd acts. issd_createCmd demo_os max_fileExt_num demo_ienv ''a'' '''' ''b'' (af_zero ISSD_FILECOPY) = (True, cmd, acts)"
proof -
  let ?c0 = "(af_zero ISSD_FILECOPY)\<lparr>num_files := 2\<rparr>"
  have ops: "ISSD_FILECOPY \<noteq> ISSD_MERGE" by (simp add: ISSD_FILECOPY_def ISSD_MERGE_def)
  have z: "file_ext_offset ?c0 ! 0 = 0" "length (fileExtArr ?c0) = 4090" "0 < max_fileExt_num"
    by (simp_all add: af_zero_def geom max_fileExt_num_def)
  have "fst (add_file demo_os max_fileExt_num demo_ienv 0 ''a'' ?c0)" by (rule demo_add_file [where off = 0]) (use z in simp_all)
  then obtain c1 where a1: "add_file demo_os max_fileExt_num demo_ienv 0 ''a'' ?c0 = (True, c1)" by (metis prod.collapse)
  have op: "os_open demo_os f n" for f n by (simp add: demo_os_def)
  have "fst (getLbaExts demo_os max_fileExt_num demo_ienv 0 ''a'' ?c0) = 1"
    using demo_post [of 0 0 "fileExtArr ?c0"] z(1)
    by (simp add: getLbaExts_def op demo_ienv_def demo_extract demo_blocks(1) Let_def UINT32_of_def [of 2] split_beta)
  then have "c1 = (snd (getLbaExts demo_os max_fileExt_num demo_ienv 0 ''a'' ?c0))\<lparr>file_ext_offset := [0, 1, 0, 0]\<rparr>"
    using a1 getLbaExts_offsets [of demo_os max_fileExt_num demo_ienv 0 "''a''" ?c0]
    by (auto simp: add_file_def wrap32_def split_beta af_zero_def replicate_34 split: if_splits)
  then have "file_ext_offset c1 ! 1 = 1" by simp
  then have "fst (add_file demo_os max_fileExt_num demo_ienv 1 ''b'' c1)" by (rule demo_add_file [rotated]) simp_all
  then obtain c2 where a2: "add_file demo_os max_fileExt_num demo_ienv 1 ''b'' c1 = (True, c2)" by (metis prod.collapse)
  have op1: "af_opType c1 = ISSD_FILECOPY" using a1
    by (auto simp: add_file_def getLbaExts_def Let_def af_zero_def split: if_splits prod.splits option.splits)
  show ?thesis using a1 a2 op1 ops by (simp add: issd_createCmd_def af_zero_def demo_os_def)
qed

theorem createCmd_describes_files_witness:
  "\<exists>n m cmd acts. issd_createCmd demo_os max_fileExt_num demo_ienv ''a'' '''' ''b'' (af_zero ISSD_FILECOPY) = (True, cmd, acts)
    \<and> file_ext_offset cmd = [0, n, n + m, 0]"
proof -
  obtain cmd acts where c: "issd_createCmd demo_os max_fileExt_num demo_ienv ''a'' '''' ''b'' (af_zero ISSD_FILECOPY) = (True, cmd, acts)"
    using demo_create by blast
  then show ?thesis using createCmd_describes_files [OF demo_files demo_files c] by fastforce
qed

subsection \<open>Waiting for the device\<close>

text \<open>The device answered the \<open>i\<close>th poll and the flag is still clear.\<close>

definition pending :: "os_env \<Rightarrow> string \<Rightarrow> nat \<Rightarrow> bool" where
  "pending os dev i = (case sata_readBuffer os i dev of None \<Rightarrow> False | Some ws \<Rightarrow> ws ! 2 = 0)"

lemma waitFinish_loop_stops:
  "\<not> pending os dev (i + k) \<Longrightarrow> (\<And>j. j < k \<Longrightarrow> pending os dev (i + j)) \<Longrightarrow>
     waitFinish_loop os dev i = Some (sata_readBuffer os (i + k) dev)"
proof (induction k arbitrary: i)
  case 0 then show ?case by (subst waitFinish_loop.simps) (auto simp: pending_def split: option.splits)
next
  case (Suc k)
  from Suc.prems(2) [of 0] obtain ws where "sata_readBuffer os i dev = Some ws" "ws ! 2 = 0"
    by (auto simp: pending_def split: option.splits)
  moreover have "waitFinish_loop os dev (i + 1) = Some (sata_readBuffer os (i + 1 + k) dev)"
    by (rule Suc.IH) (use Suc.prems(1) Suc.prems(2) [of "Suc j" for j] in auto)
  ultimately show ?case by (subst waitFinish_loop.simps) simp
qed

lemma waitFinish_loop_Some:
  assumes "waitFinish_loop os dev i = Some r"
  shows "\<exists>j\<ge>i. \<not> pending os dev j \<and> r = sata_readBuffer os j dev"
proof (rule waitFinish_loop.raw_induct [where P = "\<lambda>os dev i r. \<exists>j\<ge>i. \<not> pending os dev j \<and> r = sata_readBuffer os j dev", OF _ assms])
  fix f :: "os_env \<Rightarrow> string \<Rightarrow> nat \<Rightarrow> u32 list option option" and os dev i r
  assume ih: "\<And>os dev i r. f os dev i = Some r \<Longrightarrow> \<exists>j\<ge>i. \<not> pending os dev j \<and> r = sata_readBuffer os j dev"
    and e: "(case sata_readBuffer os i dev of None \<Rightarrow> Some None
      | Some rbuffer \<Rightarrow> if rbuffer ! 2 \<noteq> 0 then Some (Some rbuffer) else f os dev (i + 1)) = Some r"
  show "\<exists>j\<ge>i. \<not> pending os dev j \<and> r = sata_readBuffer os j dev"
  proof (cases "pending os dev i")
    case True
    then have "f os dev (i + 1) = Some r" using e by (auto simp: pending_def split: option.splits)
    from ih [OF this] show ?thesis using add_leD1 by blast
  next
    case False
    then show ?thesis using e by (intro exI [of _ i]) (auto simp: pending_def split: option.splits if_splits)
  qed
qed

lemma waitFinish_loop_first:
  assumes "\<not> (\<forall>i. pending os dev i)"
  shows "waitFinish_loop os dev 0 = Some (sata_readBuffer os (LEAST i. \<not> pending os dev i) dev)"
proof -
  let ?k = "LEAST i. \<not> pending os dev i"
  from assms obtain i where "\<not> pending os dev i" by blast
  then have "\<not> pending os dev (0 + ?k)" unfolding add_0 by (rule LeastI)
  moreover have "pending os dev (0 + j)" if "j < ?k" for j using not_less_Least [OF that] unfolding add_0 by blast
  ultimately have "waitFinish_loop os dev 0 = Some (sata_readBuffer os (0 + ?k) dev)" by (rule waitFinish_loop_stops)
  then show ?thesis unfolding add_0 .
qed

lemma waitFinish_done:
  assumes "issd_waitFinish os dev cmd = Some (True, cmd')"
  shows "\<exists>i ws. sata_readBuffer os i dev = Some ws \<and> ws ! 2 \<noteq> 0"
proof -
  from assms obtain ws where "waitFinish_loop os dev 0 = Some (Some ws)"
    by (auto simp: issd_waitFinish_def split: if_splits option.splits)
  from waitFinish_loop_Some [OF this] obtain j where "\<not> pending os dev j" "sata_readBuffer os j dev = Some ws" by metis
  then show ?thesis by (auto simp: pending_def)
qed

lemma waitFinish_never: "issd_waitFinish os dev cmd = None \<Longrightarrow> \<forall>i. pending os dev i"
  using waitFinish_loop_first [of os dev] by (auto simp: issd_waitFinish_def split: if_splits option.splits)

text \<open>
  \<open>issd_waitFinish\<close> polls until the first answer that is not a clear flag: it returns the device's
  header when the flag is set, fails when a poll fails, and never returns when the device never sets the
  flag; there is no time limit.
\<close>

theorem waitFinish_polls:
  "issd_waitFinish os dev cmd =
     (if \<not> os_malloc os then Some (False, cmd)
      else if (\<forall>i. pending os dev i) then None
      else (case sata_readBuffer os (LEAST i. \<not> pending os dev i) dev of
              None \<Rightarrow> Some (False, cmd) | Some ws \<Rightarrow> Some (True, set_header ws cmd)))"
proof (cases "\<forall>i. pending os dev i")
  case True
  then have "waitFinish_loop os dev 0 = None" using waitFinish_loop_Some [of os dev 0] by (cases "waitFinish_loop os dev 0") auto
  then show ?thesis using True by (simp add: issd_waitFinish_def)
next
  case False
  show ?thesis unfolding issd_waitFinish_def waitFinish_loop_first [OF False] if_not_P [OF False] by (simp split: option.split)
qed

subsection \<open>The whole request\<close>

lemma sata_writeBuffer_acts:
  "sata_writeBuffer os cmd n dev = (ok, cmd', acts) \<Longrightarrow> \<exists>is. acts = List.map (\<lambda>i. Sent_Packet (packet (af_words cmd') i)) is"
proof -
  have "\<exists>js. snd (send_packets os ws is) = List.map (\<lambda>i. Sent_Packet (packet ws i)) js" for ws "is"
  proof (induction "is")
    case (Cons i "is")
    then obtain js where "snd (send_packets os ws is) = List.map (\<lambda>i. Sent_Packet (packet ws i)) js" by blast
    then show ?case by (auto simp: split_beta intro: exI [of _ "[]"] exI [of _ "i # js"])
  qed simp
  then show "sata_writeBuffer os cmd n dev = (ok, cmd', acts) \<Longrightarrow> ?thesis"
    by (auto simp: sata_writeBuffer_def Let_def split_beta split: if_splits)
qed

lemma compute_outcome:
  "case issd_compute os op ifname ofn dev ifname2 of
     None \<Rightarrow> (\<forall>i. pending os dev i)
   | Some (r, acts) \<Rightarrow>
       (r = 0 \<and> acts \<noteq> [] \<and> (\<exists>i ws n. sata_readBuffer os i dev = Some ws \<and> ws ! 2 \<noteq> 0 \<and> last acts = Truncated ofn n))
     \<or> (r = -1 \<and> (acts = [] \<or> last acts = Unlinked ofn))"
proof -
  have "sata_readBuffer os i d = sata_readBuffer os i dev" for i d by (simp add: sata_readBuffer_def)
  then show ?thesis using waitFinish_done [of os dev] waitFinish_never [of os dev]
    by (fastforce simp: issd_compute_def Let_def split_beta split: option.split prod.split)
qed


text \<open>
  A request that cannot even read its input removes the output file: when the input cannot be opened
  nothing has been created, yet the only action is to remove the file of the output's name, which existed
  before when the caller meant to overwrite it.
\<close>

theorem compute_removes_old_output:
  assumes "os_getgeo os dev = Some start" and "os_blksize os ifname = Some blksize" and "os_malloc os"
    and "\<not> os_open os 0 ifname"
  shows "issd_compute os op ifname ofn dev ifname2 = Some (-1, [Unlinked ofn])"
  using assms by (simp add: issd_compute_def issd_createCmd_def add_file_def getLbaExts_def Let_def)

theorem compute_removes_old_output_witness:
  "issd_compute (demo_os\<lparr>os_open := \<lambda>f n. False\<rparr>) ISSD_FILECOPY ''a'' ''b'' ''/dev/sdb1'' '''' = Some (-1, [Unlinked ''b''])"
  by (rule compute_removes_old_output [where start = 2048 and blksize = 4096]) (simp_all add: demo_os_def)

end
