(* ===== verification/Jasmine_Config.thy ===== *)
theory Jasmine_Config
  imports Issd_Prelude
begin

text \<open>
  The build configuration of the device firmware (\<open>OpenSSD-1.1.0/include/jasmine.h\<close>, \<open>nand.h\<close>,
  \<open>bank.h\<close>, \<open>mem_util.h\<close>, \<open>target.h\<close>) as the shipped headers select it: \<open>K9LCG08U1M\<close> flash in
  two-plane mode, \<open>BANK_BMP\<close> 0x00330033. Every constant keeps the expression of its macro; the
  values are collected in \<open>geom\<close>.
\<close>

subsection \<open>Flash geometry\<close>

definition DRAM_SIZE :: nat where
  "DRAM_SIZE = 65075200"

definition BANK_BMP :: nat where
  "BANK_BMP = 0x00330033"

definition CHN_WIDTH :: nat where
  "CHN_WIDTH = 2"

definition NUM_BANKS_MAX :: nat where
  "NUM_BANKS_MAX = 32"

definition NUM_BANKS :: nat where
  "NUM_BANKS = 8"

definition NUM_PLANES :: nat where
  "NUM_PLANES = 2"

definition SECTORS_PER_PHYPAGE :: nat where
  "SECTORS_PER_PHYPAGE = 16"

definition PAGES_PER_VBLK :: nat where
  "PAGES_PER_VBLK = 128"

definition SPARE_PBLKS_PER_BANK :: nat where
  "SPARE_PBLKS_PER_BANK = 56"

definition PBLKS_PER_BANK :: nat where
  "PBLKS_PER_BANK = 4096 + SPARE_PBLKS_PER_BANK"

definition BYTES_PER_SECTOR :: nat where
  "BYTES_PER_SECTOR = 512"

definition PHYPAGES_PER_PAGE :: nat where
  "PHYPAGES_PER_PAGE = CHN_WIDTH * NUM_PLANES"

definition SECTORS_PER_PAGE :: nat where
  "SECTORS_PER_PAGE = SECTORS_PER_PHYPAGE * PHYPAGES_PER_PAGE"

definition BYTES_PER_PAGE :: nat where
  "BYTES_PER_PAGE = BYTES_PER_SECTOR * SECTORS_PER_PAGE"

definition BYTES_PER_PHYPAGE :: nat where
  "BYTES_PER_PHYPAGE = BYTES_PER_SECTOR * SECTORS_PER_PHYPAGE"

definition BYTES_PER_SMALL_PAGE :: nat where
  "BYTES_PER_SMALL_PAGE = BYTES_PER_PHYPAGE * CHN_WIDTH"

definition SECTORS_PER_SMALL_PAGE :: nat where
  "SECTORS_PER_SMALL_PAGE = SECTORS_PER_PHYPAGE * CHN_WIDTH"

definition SECTORS_PER_VBLK :: nat where
  "SECTORS_PER_VBLK = SECTORS_PER_PAGE * PAGES_PER_VBLK"

definition VBLKS_PER_BANK :: nat where
  "VBLKS_PER_BANK = PBLKS_PER_BANK div NUM_PLANES"

definition SPARE_VBLKS_PER_BANK :: nat where
  "SPARE_VBLKS_PER_BANK = SPARE_PBLKS_PER_BANK div NUM_PLANES"

definition PAGES_PER_BANK :: nat where
  "PAGES_PER_BANK = PAGES_PER_VBLK * VBLKS_PER_BANK"

definition NUM_VBLKS :: nat where
  "NUM_VBLKS = VBLKS_PER_BANK * NUM_BANKS"

definition NUM_PSECTORS :: nat where
  "NUM_PSECTORS = SECTORS_PER_VBLK * ((VBLKS_PER_BANK - SPARE_VBLKS_PER_BANK) * NUM_BANKS)"

definition NUM_LSECTORS :: nat where
  "NUM_LSECTORS = NUM_PSECTORS div 100 * 93"

definition NUM_LPAGES :: nat where
  "NUM_LPAGES = (NUM_LSECTORS + SECTORS_PER_PAGE - 1) div SECTORS_PER_PAGE"

definition SECTORS_PER_FW_PAGE :: nat where
  "SECTORS_PER_FW_PAGE = 2048 div BYTES_PER_SECTOR"

definition SCAN_LIST_SIZE :: nat where
  "SCAN_LIST_SIZE = BYTES_PER_SMALL_PAGE"

definition SCAN_LIST_ITEMS :: nat where
  "SCAN_LIST_ITEMS = SCAN_LIST_SIZE div 2 - 1"

definition SCAN_LIST_PAGE_OFFSET :: nat where
  "SCAN_LIST_PAGE_OFFSET = 0"

definition STAMP_PAGE_OFFSET :: nat where
  "STAMP_PAGE_OFFSET = 4"

definition FW_PAGE_OFFSET :: nat where
  "FW_PAGE_OFFSET = 5"

definition INVALID :: nat where
  "INVALID = 0xABABABAB"

subsection \<open>Memories\<close>

definition DRAM_BASE :: nat where
  "DRAM_BASE = 0x40000000"

definition SRAM_SIZE :: nat where
  "SRAM_SIZE = 96 * 1024"

definition MU_MAX_BYTES :: nat where
  "MU_MAX_BYTES = 32768"

definition SDRAM_ECC_UNIT :: nat where
  "SDRAM_ECC_UNIT = 128"

definition DRAM_ECC_UNIT :: nat where
  "DRAM_ECC_UNIT = 128"

lemma config_geom [geom]:
  "DRAM_SIZE = 65075200"
  "BANK_BMP = 3342387"
  "CHN_WIDTH = 2"
  "NUM_BANKS_MAX = 32"
  "NUM_BANKS = 8"
  "NUM_PLANES = 2"
  "SECTORS_PER_PHYPAGE = 16"
  "PAGES_PER_VBLK = 128"
  "SPARE_PBLKS_PER_BANK = 56"
  "PBLKS_PER_BANK = 4152"
  "BYTES_PER_SECTOR = 512"
  "PHYPAGES_PER_PAGE = 4"
  "SECTORS_PER_PAGE = 64"
  "BYTES_PER_PAGE = 32768"
  "BYTES_PER_PHYPAGE = 8192"
  "BYTES_PER_SMALL_PAGE = 16384"
  "SECTORS_PER_SMALL_PAGE = 32"
  "SECTORS_PER_VBLK = 8192"
  "VBLKS_PER_BANK = 2076"
  "SPARE_VBLKS_PER_BANK = 28"
  "PAGES_PER_BANK = 265728"
  "NUM_VBLKS = 16608"
  "NUM_PSECTORS = 134217728"
  "NUM_LSECTORS = 124822461"
  "NUM_LPAGES = 1950351"
  "SECTORS_PER_FW_PAGE = 4"
  "SCAN_LIST_SIZE = 16384"
  "SCAN_LIST_ITEMS = 8191"
  "SCAN_LIST_PAGE_OFFSET = 0"
  "STAMP_PAGE_OFFSET = 4"
  "FW_PAGE_OFFSET = 5"
  "INVALID = 2880154539"
  "DRAM_BASE = 1073741824"
  "SRAM_SIZE = 98304"
  "MU_MAX_BYTES = 32768"
  "SDRAM_ECC_UNIT = 128"
  "DRAM_ECC_UNIT = 128"
  by (simp_all add: DRAM_SIZE_def BANK_BMP_def CHN_WIDTH_def NUM_BANKS_MAX_def NUM_BANKS_def NUM_PLANES_def SECTORS_PER_PHYPAGE_def PAGES_PER_VBLK_def SPARE_PBLKS_PER_BANK_def PBLKS_PER_BANK_def BYTES_PER_SECTOR_def PHYPAGES_PER_PAGE_def SECTORS_PER_PAGE_def BYTES_PER_PAGE_def BYTES_PER_PHYPAGE_def BYTES_PER_SMALL_PAGE_def SECTORS_PER_SMALL_PAGE_def SECTORS_PER_VBLK_def VBLKS_PER_BANK_def SPARE_VBLKS_PER_BANK_def PAGES_PER_BANK_def NUM_VBLKS_def NUM_PSECTORS_def NUM_LSECTORS_def NUM_LPAGES_def SECTORS_PER_FW_PAGE_def SCAN_LIST_SIZE_def SCAN_LIST_ITEMS_def SCAN_LIST_PAGE_OFFSET_def STAMP_PAGE_OFFSET_def FW_PAGE_OFFSET_def INVALID_def DRAM_BASE_def SRAM_SIZE_def MU_MAX_BYTES_def SDRAM_ECC_UNIT_def DRAM_ECC_UNIT_def)

subsection \<open>Banks\<close>

text \<open>
  \<open>BMAP_2CH_4WY_C\<close> lists the real bank of every bank, \<open>BRMAP_2CH_4WY_C\<close> the bank of every real
  bank; \<open>_X_\<close> marks a real bank that is not populated.
\<close>

definition c_bank_map :: "nat list" where
  "c_bank_map = [0x00, 0x01, 0x04, 0x05, 0x10, 0x11, 0x14, 0x15]"

definition X_BANK :: nat where
  "X_BANK = 0xFF"

definition c_bank_rmap :: "nat list" where
  "c_bank_rmap =
    [0x00, 0x01, X_BANK, X_BANK, 0x02, 0x03, X_BANK, X_BANK, X_BANK, X_BANK, X_BANK, X_BANK, X_BANK, X_BANK, X_BANK, X_BANK,
     0x04, 0x05, X_BANK, X_BANK, 0x06, 0x07, X_BANK, X_BANK, X_BANK, X_BANK, X_BANK, X_BANK, X_BANK, X_BANK, X_BANK, X_BANK]"

definition REAL_BANK :: "nat \<Rightarrow> nat" where
  "REAL_BANK b = c_bank_map ! b"

lemma less_banks: "b < NUM_BANKS \<longleftrightarrow> b \<in> {0, 1, 2, 3, 4, 5, 6, 7}"
  by (auto simp: geom)

lemma REAL_BANK_less [simp]: "b < NUM_BANKS \<Longrightarrow> REAL_BANK b < NUM_BANKS_MAX"
  unfolding less_banks by (auto simp: REAL_BANK_def c_bank_map_def geom)

text \<open>
  The two bank tables agree with each other and with the configured bitmap: \<open>c_bank_rmap\<close>
  inverts \<open>c_bank_map\<close>, and a real bank is populated exactly when its bit of \<open>BANK_BMP\<close> is set.
\<close>

theorem bank_maps_agree:
  "(\<forall>b < NUM_BANKS. c_bank_rmap ! REAL_BANK b = b)
   \<and> (\<forall>rb < NUM_BANKS_MAX. bit BANK_BMP rb \<longleftrightarrow> (\<exists>b < NUM_BANKS. REAL_BANK b = rb))
   \<and> (\<forall>rb < NUM_BANKS_MAX. bit BANK_BMP rb \<longleftrightarrow> c_bank_rmap ! rb \<noteq> X_BANK)
   \<and> length c_bank_map = NUM_BANKS \<and> length c_bank_rmap = NUM_BANKS_MAX"
proof -
  have upt: "(\<forall>i < n. P i) \<longleftrightarrow> list_all P [0..<n]" for P and n :: nat by (auto simp: list_all_iff)
  have ex: "(\<exists>i < n. P i) \<longleftrightarrow> list_ex P [0..<n]" for P and n :: nat by (auto simp: list_ex_iff)
  have banks: "[0..<NUM_BANKS] = [0, 1, 2, 3, 4, 5, 6, 7]"
    by (simp add: geom upt_rec_numeral upt_rec)
  have rbanks: "[0..<NUM_BANKS_MAX] = [0, 1, 2, 3, 4, 5, 6, 7, 8, 9, 10, 11, 12, 13, 14, 15, 16, 17, 18, 19, 20,
      21, 22, 23, 24, 25, 26, 27, 28, 29, 30, 31]"
    by (simp add: geom upt_rec_numeral upt_rec)
  show ?thesis unfolding upt ex banks rbanks
    by (simp add: REAL_BANK_def c_bank_map_def c_bank_rmap_def X_BANK_def geom bit_0)
qed

theorem bank_maps_agree_witness: "c_bank_rmap ! REAL_BANK 4 = 4"
  using bank_maps_agree [THEN conjunct1, rule_format, of 4] by (simp add: geom)

end
