(* ===== verification/Mem_Util.thy ===== *)
theory Mem_Util
  imports Jasmine_Config
begin

text \<open>
  The memory utility layer (\<open>target_spw/mem_util.c\<close>). The SDRAM keeps four parity bytes after every
  128 data bytes: the CPU reads a word at its physical address (\<open>real_addr\<close>), while all writes go
  through the memory utility engine, which is addressed logically. The engine is hardware; it is the
  argument \<open>mu\<close> of the functions that start it: given the machine with its registers set, it returns
  the first \<open>MU_RESULT\<close> other than 0xFFFFFFFF and the memory at that time, or \<open>None\<close> if it never
  shows one. A failed \<open>ASSERT\<close> (the firmware then loops for ever) is \<open>None\<close> as well. What the code
  relies on of the engine is stated by \<open>mu_copies\<close>, \<open>mu_sets\<close> and \<open>mu_searches\<close>, and the logical
  memory (\<open>ld32\<close>, \<open>st32\<close>, ...) is the contract the translation layers build on.
\<close>

subsection \<open>Machine state\<close>

text \<open>Memory maps the byte address of an aligned word to its value.\<close>

type_synonym mem = "nat \<Rightarrow> u32"

record mstate =
  MU_SRC_ADDR :: nat
  MU_DST_ADDR :: nat
  MU_VALUE :: u32
  MU_SIZE :: nat
  MU_CMD :: nat
  MU_UNITSTEP :: nat
  irq_on :: bool
  ram :: mem

type_synonym mu_engine = "mstate \<Rightarrow> (u32 \<times> mem) option"

definition MU_CMD_COPY :: nat where "MU_CMD_COPY = 0x001"
definition MU_CMD_FIND_SRAM :: nat where "MU_CMD_FIND_SRAM = 0x002"
definition MU_CMD_FIND_DRAM :: nat where "MU_CMD_FIND_DRAM = 0x042"
definition MU_CMD_SET_REPT_SRAM :: nat where "MU_CMD_SET_REPT_SRAM = 0x000"
definition MU_CMD_SET_REPT_DRAM :: nat where "MU_CMD_SET_REPT_DRAM = 0x040"
definition MU_CMD_SEARCH_MAX_DRAM :: nat where "MU_CMD_SEARCH_MAX_DRAM = 0x143"
definition MU_CMD_SEARCH_MIN_DRAM :: nat where "MU_CMD_SEARCH_MIN_DRAM = 0x0C3"
definition MU_CMD_SEARCH_EQU_DRAM :: nat where "MU_CMD_SEARCH_EQU_DRAM = 0x043"
definition MU_UNIT_8 :: nat where "MU_UNIT_8 = 0 * 256"
definition MU_UNIT_16 :: nat where "MU_UNIT_16 = 1 * 256"
definition MU_UNIT_32 :: nat where "MU_UNIT_32 = 2 * 256"

lemmas mu_cmd_defs = MU_CMD_COPY_def MU_CMD_FIND_SRAM_def MU_CMD_FIND_DRAM_def MU_CMD_SET_REPT_SRAM_def
  MU_CMD_SET_REPT_DRAM_def MU_CMD_SEARCH_MAX_DRAM_def MU_CMD_SEARCH_MIN_DRAM_def MU_CMD_SEARCH_EQU_DRAM_def

definition ASSERT :: "bool \<Rightarrow> unit option" where
  "ASSERT b = (if b then Some () else None)"

lemma ASSERT_simps [simp]: "ASSERT True = Some ()" "ASSERT False = None"
  by (simp_all add: ASSERT_def)

lemma ASSERT_Some [simp]: "ASSERT b = Some u \<longleftrightarrow> b" "ASSERT b = None \<longleftrightarrow> \<not> b"
  by (simp_all add: ASSERT_def)

text \<open>\<open>disable_irq\<close> returns whether interrupts were off already.\<close>

definition disable_irq :: "mstate \<Rightarrow> bool \<times> mstate" where
  "disable_irq st = (\<not> irq_on st, st\<lparr>irq_on := False\<rparr>)"

definition enable_irq :: "mstate \<Rightarrow> mstate" where
  "enable_irq st = st\<lparr>irq_on := True\<rparr>"

text \<open>Writing \<open>MU_CMD\<close> starts the engine; the code then polls \<open>MU_RESULT\<close>.\<close>

definition mu_run :: "mu_engine \<Rightarrow> nat \<Rightarrow> mstate \<Rightarrow> (u32 \<times> mstate) option" where
  "mu_run mu cmd st = do {
     (r, m) \<leftarrow> mu (st\<lparr>MU_CMD := cmd\<rparr>);
     Some (r, st\<lparr>MU_CMD := cmd, ram := m\<rparr>) }"

subsection \<open>Physical addresses\<close>

definition dram_addr :: "nat \<Rightarrow> bool" where
  "dram_addr a \<longleftrightarrow> DRAM_BASE \<le> a \<and> a < DRAM_BASE + DRAM_SIZE"

definition real_addr :: "nat \<Rightarrow> nat" where
  "real_addr a = DRAM_BASE + (a - DRAM_BASE) div 128 * 132 + (a - DRAM_BASE) mod 128"

text \<open>\<open>addr & 0xFFFFFFFC\<close>\<close>

definition aligned_addr :: "nat \<Rightarrow> nat" where
  "aligned_addr a = a div 4 * 4"

definition cpu_load :: "mstate \<Rightarrow> nat \<Rightarrow> u32" where
  "cpu_load st a = ram st (real_addr a)"

subsection \<open>Copy, fill and search\<close>

definition mem_copy :: "mu_engine \<Rightarrow> nat \<Rightarrow> nat \<Rightarrow> nat \<Rightarrow> mstate \<Rightarrow> mstate option" where
  "mem_copy mu d s num_bytes st = do {
     ASSERT (d mod 4 = 0);
     ASSERT (s mod 4 = 0);
     ASSERT (num_bytes mod 4 = 0);
     ASSERT (num_bytes \<le> MU_MAX_BYTES);
     ASSERT (\<not> (DRAM_BASE < d \<and> DRAM_BASE < s \<and> num_bytes mod DRAM_ECC_UNIT \<noteq> 0));
     let (was_disabled, st) = disable_irq st;
     (r, st) \<leftarrow> mu_run mu MU_CMD_COPY (st\<lparr>MU_SRC_ADDR := s, MU_DST_ADDR := d, MU_SIZE := num_bytes\<rparr>);
     Some (if \<not> was_disabled then enable_irq st else st) }"

definition mem_bmp_find_sram :: "mu_engine \<Rightarrow> nat \<Rightarrow> nat \<Rightarrow> nat \<Rightarrow> mstate \<Rightarrow> (u32 \<times> mstate) option" where
  "mem_bmp_find_sram mu bitmap num_bytes val st = do {
     ASSERT (num_bytes \<le> MU_MAX_BYTES \<and> num_bytes \<noteq> 0);
     ASSERT (num_bytes mod 4 = 0);
     ASSERT (val = 0 \<or> val = 1);
     ASSERT (bitmap < DRAM_BASE);
     let (was_disabled, st) = disable_irq st;
     (r, st) \<leftarrow> mu_run mu MU_CMD_FIND_SRAM (st\<lparr>MU_SRC_ADDR := bitmap, MU_VALUE := of_nat val, MU_SIZE := num_bytes\<rparr>);
     Some (r, if \<not> was_disabled then enable_irq st else st) }"

definition mem_bmp_find_dram :: "mu_engine \<Rightarrow> nat \<Rightarrow> nat \<Rightarrow> nat \<Rightarrow> mstate \<Rightarrow> (u32 \<times> mstate) option" where
  "mem_bmp_find_dram mu bitmap num_bytes val st = do {
     ASSERT (num_bytes \<le> MU_MAX_BYTES \<and> num_bytes \<noteq> 0);
     ASSERT (num_bytes mod 4 = 0);
     ASSERT (val = 0 \<or> val = 1);
     ASSERT (DRAM_BASE \<le> bitmap);
     let (was_disabled, st) = disable_irq st;
     (r, st) \<leftarrow> mu_run mu MU_CMD_FIND_DRAM (st\<lparr>MU_SRC_ADDR := bitmap, MU_VALUE := of_nat val, MU_SIZE := num_bytes\<rparr>);
     Some (r, if \<not> was_disabled then enable_irq st else st) }"

text \<open>The \<open>do ... while (num_bytes != 0)\<close> loop shared by the two fill routines.\<close>

function mem_set_loop :: "mu_engine \<Rightarrow> nat \<Rightarrow> nat \<Rightarrow> nat \<Rightarrow> mstate \<Rightarrow> mstate option" where
  "mem_set_loop mu cmd addr num_bytes st =
     (let size = min num_bytes MU_MAX_BYTES in
      case mu_run mu cmd (st\<lparr>MU_DST_ADDR := addr, MU_SIZE := size\<rparr>) of
        None \<Rightarrow> None
      | Some (r, st) \<Rightarrow>
          if num_bytes - size \<noteq> 0 then mem_set_loop mu cmd (wrap32 (addr + size)) (num_bytes - size) st
          else Some st)"
  by pat_completeness auto
termination
  by (relation "measure (\<lambda>(mu, cmd, addr, n, st). n)") (auto simp: geom)

declare mem_set_loop.simps [simp del]

definition mem_set_sram :: "mu_engine \<Rightarrow> nat \<Rightarrow> u32 \<Rightarrow> nat \<Rightarrow> mstate \<Rightarrow> mstate option" where
  "mem_set_sram mu addr val num_bytes st = do {
     ASSERT (addr mod 4 = 0);
     ASSERT (num_bytes mod 4 = 0);
     ASSERT (wrap32 (addr + num_bytes) \<le> SRAM_SIZE);
     mem_set_loop mu MU_CMD_SET_REPT_SRAM addr num_bytes (st\<lparr>MU_VALUE := val\<rparr>) }"

definition mem_set_dram :: "mu_engine \<Rightarrow> nat \<Rightarrow> u32 \<Rightarrow> nat \<Rightarrow> mstate \<Rightarrow> mstate option" where
  "mem_set_dram mu addr val num_bytes st = do {
     ASSERT (addr mod SDRAM_ECC_UNIT = 0);
     ASSERT (num_bytes mod SDRAM_ECC_UNIT = 0);
     ASSERT (DRAM_BASE \<le> addr);
     mem_set_loop mu MU_CMD_SET_REPT_DRAM addr num_bytes (st\<lparr>MU_VALUE := val\<rparr>) }"

definition mu_unitstep :: "nat \<Rightarrow> nat" where
  "mu_unitstep num_bytes_per_item =
     (if num_bytes_per_item = 1 then MU_UNIT_8 + 1
      else if num_bytes_per_item = 2 then MU_UNIT_16 + 2
      else MU_UNIT_32 + 4)"

definition mem_search_min_max :: "mu_engine \<Rightarrow> nat \<Rightarrow> nat \<Rightarrow> nat \<Rightarrow> nat \<Rightarrow> mstate \<Rightarrow> (u32 \<times> mstate) option" where
  "mem_search_min_max mu addr num_bytes_per_item num_items cmd st = do {
     ASSERT (addr mod 4 = 0);
     ASSERT (num_items \<noteq> 0 \<and> wrap32 (num_bytes_per_item * num_items) \<le> MU_MAX_BYTES);
     mu_run mu cmd (st\<lparr>MU_UNITSTEP := mu_unitstep num_bytes_per_item, MU_SRC_ADDR := addr, MU_SIZE := num_items\<rparr>) }"

definition mem_search_equ :: "mu_engine \<Rightarrow> nat \<Rightarrow> nat \<Rightarrow> nat \<Rightarrow> nat \<Rightarrow> u32 \<Rightarrow> mstate \<Rightarrow> (u32 \<times> mstate) option" where
  "mem_search_equ mu addr num_bytes_per_item num_items cmd val st = do {
     ASSERT (addr mod 4 = 0);
     ASSERT (wrap32 (num_bytes_per_item * num_items) \<le> MU_MAX_BYTES);
     if num_items = 0 then Some (1, st)
     else mu_run mu cmd (st\<lparr>MU_UNITSTEP := mu_unitstep num_bytes_per_item, MU_SRC_ADDR := addr, MU_VALUE := val,
            MU_SIZE := num_items\<rparr>) }"

subsection \<open>Access to single items of the DRAM\<close>

text \<open>
  \<open>tmp\<close> is the address of the local variable that the write routines hand to the engine.
\<close>

definition write_dram_32 :: "mu_engine \<Rightarrow> nat \<Rightarrow> nat \<Rightarrow> u32 \<Rightarrow> mstate \<Rightarrow> mstate option" where
  "write_dram_32 mu tmp addr val st = do {
     ASSERT (dram_addr addr);
     if addr mod 4 \<noteq> 0 then None
     else mem_copy mu addr tmp 4 (st\<lparr>ram := (ram st)(tmp := val)\<rparr>) }"

definition write_dram_16 :: "mu_engine \<Rightarrow> nat \<Rightarrow> nat \<Rightarrow> u16 \<Rightarrow> mstate \<Rightarrow> mstate option" where
  "write_dram_16 mu tmp addr val st = do {
     ASSERT (dram_addr addr);
     let offset = addr mod 4;
     let aligned = aligned_addr addr;
     let old_val = cpu_load st aligned;
     let new_val = (old_val AND NOT (push_bit (offset * 8) 0xFFFF)) OR push_bit (offset * 8) (ucast val);
     mem_copy mu aligned tmp 4 (st\<lparr>ram := (ram st)(tmp := new_val)\<rparr>) }"

definition write_dram_8 :: "mu_engine \<Rightarrow> nat \<Rightarrow> nat \<Rightarrow> u8 \<Rightarrow> mstate \<Rightarrow> mstate option" where
  "write_dram_8 mu tmp addr val st = do {
     ASSERT (dram_addr addr);
     let offset = addr mod 4;
     let aligned = aligned_addr addr;
     let old_val = cpu_load st aligned;
     let new_val = (old_val AND NOT (push_bit (offset * 8) 0xFF)) OR push_bit (offset * 8) (ucast val);
     mem_copy mu aligned tmp 4 (st\<lparr>ram := (ram st)(tmp := new_val)\<rparr>) }"

definition set_bit_dram :: "mu_engine \<Rightarrow> nat \<Rightarrow> nat \<Rightarrow> nat \<Rightarrow> mstate \<Rightarrow> mstate option" where
  "set_bit_dram mu tmp base_addr bit_offset st = do {
     ASSERT (dram_addr base_addr);
     let aligned = aligned_addr (wrap32 (base_addr + bit_offset div 8));
     let new_bit_offset = wrap32 (base_addr * 8 + bit_offset) mod 32;
     let val = cpu_load st aligned OR push_bit new_bit_offset 1;
     mem_copy mu aligned tmp 4 (st\<lparr>ram := (ram st)(tmp := val)\<rparr>) }"

definition clr_bit_dram :: "mu_engine \<Rightarrow> nat \<Rightarrow> nat \<Rightarrow> nat \<Rightarrow> mstate \<Rightarrow> mstate option" where
  "clr_bit_dram mu tmp base_addr bit_offset st = do {
     ASSERT (dram_addr base_addr);
     let aligned = aligned_addr (wrap32 (base_addr + bit_offset div 8));
     let new_bit_offset = wrap32 (base_addr * 8 + bit_offset) mod 32;
     let val = cpu_load st aligned AND NOT (push_bit new_bit_offset 1);
     mem_copy mu aligned tmp 4 (st\<lparr>ram := (ram st)(tmp := val)\<rparr>) }"

definition tst_bit_dram :: "nat \<Rightarrow> nat \<Rightarrow> mstate \<Rightarrow> u32 option" where
  "tst_bit_dram base_addr bit_offset st = do {
     ASSERT (dram_addr base_addr);
     let aligned = aligned_addr (wrap32 (base_addr + bit_offset div 8));
     let new_bit_offset = wrap32 (base_addr * 8 + bit_offset) mod 32;
     Some (cpu_load st aligned AND push_bit new_bit_offset 1) }"

definition read_dram_8 :: "nat \<Rightarrow> mstate \<Rightarrow> u8 option" where
  "read_dram_8 addr st = do {
     ASSERT (dram_addr addr);
     let byte_offset = addr mod 4;
     Some (ucast (drop_bit (byte_offset * 8) (cpu_load st (aligned_addr addr)))) }"

definition read_dram_16 :: "nat \<Rightarrow> mstate \<Rightarrow> u16 option" where
  "read_dram_16 addr st = do {
     ASSERT (dram_addr addr);
     let byte_offset = addr mod 4;
     Some (ucast (drop_bit (byte_offset * 8) (cpu_load st (aligned_addr addr)))) }"

definition read_dram_32 :: "nat \<Rightarrow> mstate \<Rightarrow> u32 option" where
  "read_dram_32 addr st = do {
     ASSERT (dram_addr addr);
     ASSERT (addr mod 4 = 0);
     Some (cpu_load st addr) }"

subsection \<open>Comparison\<close>

definition sram_byte :: "mstate \<Rightarrow> nat \<Rightarrow> u8" where
  "sram_byte st a = ucast (drop_bit (a mod 4 * 8) (ram st (a div 4 * 4)))"

text \<open>The loops compare \<open>n\<close> more bytes; \<open>(UINT32) -1\<close> says that the first operand is smaller.\<close>

fun mem_cmp_loop :: "(nat \<Rightarrow> u8 option) \<Rightarrow> nat \<Rightarrow> nat \<Rightarrow> nat \<Rightarrow> u32 option" where
  "mem_cmp_loop rd p1 p2 0 = Some 0"
| "mem_cmp_loop rd p1 p2 (Suc n) = do {
     val1 \<leftarrow> rd p1;
     val2 \<leftarrow> rd p2;
     if val1 \<noteq> val2 then Some (if val2 < val1 then 1 else - 1)
     else mem_cmp_loop rd (p1 + 1) (p2 + 1) n }"

definition mem_cmp_sram :: "nat \<Rightarrow> nat \<Rightarrow> nat \<Rightarrow> mstate \<Rightarrow> u32 option" where
  "mem_cmp_sram addr1 addr2 num_bytes st = do {
     ASSERT (addr1 < DRAM_BASE);
     ASSERT (addr2 < DRAM_BASE);
     ASSERT (num_bytes \<noteq> 0);
     mem_cmp_loop (\<lambda>a. Some (sram_byte st a)) addr1 addr2 num_bytes }"

definition mem_cmp_dram :: "nat \<Rightarrow> nat \<Rightarrow> nat \<Rightarrow> mstate \<Rightarrow> u32 option" where
  "mem_cmp_dram addr1 addr2 num_bytes st = do {
     ASSERT (dram_addr addr1);
     ASSERT (dram_addr addr2);
     ASSERT (num_bytes \<noteq> 0);
     mem_cmp_loop (\<lambda>a. read_dram_8 a st) addr1 addr2 num_bytes }"


subsection \<open>What the code relies on of the engine\<close>

definition phys :: "nat \<Rightarrow> nat" where
  "phys a = (if DRAM_BASE \<le> a then real_addr a else a)"

definition data_word :: "nat \<Rightarrow> bool" where
  "data_word a \<longleftrightarrow> a mod 4 = 0 \<and> (a < SRAM_SIZE \<or> dram_addr a)"

definition span_ok :: "nat \<Rightarrow> nat \<Rightarrow> bool" where
  "span_ok a n \<longleftrightarrow> a mod 4 = 0 \<and> n mod 4 = 0 \<and> n \<le> MU_MAX_BYTES
     \<and> (a + n \<le> SRAM_SIZE \<or> DRAM_BASE \<le> a \<and> a + n \<le> DRAM_BASE + DRAM_SIZE)"

text \<open>
  A copy between disjoint spans and a fill change exactly the data words of the destination; parity
  is the engine's affair.
\<close>

definition mu_copies :: "mu_engine \<Rightarrow> bool" where
  "mu_copies mu \<longleftrightarrow> (\<forall>st. MU_CMD st = MU_CMD_COPY \<longrightarrow> span_ok (MU_SRC_ADDR st) (MU_SIZE st)
       \<longrightarrow> span_ok (MU_DST_ADDR st) (MU_SIZE st)
       \<longrightarrow> MU_SRC_ADDR st + MU_SIZE st \<le> MU_DST_ADDR st \<or> MU_DST_ADDR st + MU_SIZE st \<le> MU_SRC_ADDR st
     \<longrightarrow> (\<exists>r m. mu st = Some (r, m) \<and> (\<forall>a. data_word a \<longrightarrow> m (phys a) =
           (if MU_DST_ADDR st \<le> a \<and> a < MU_DST_ADDR st + MU_SIZE st
            then ram st (phys (MU_SRC_ADDR st + (a - MU_DST_ADDR st))) else ram st (phys a)))))"

definition mu_sets :: "mu_engine \<Rightarrow> bool" where
  "mu_sets mu \<longleftrightarrow> (\<forall>st. MU_CMD st \<in> {MU_CMD_SET_REPT_SRAM, MU_CMD_SET_REPT_DRAM}
       \<longrightarrow> span_ok (MU_DST_ADDR st) (MU_SIZE st)
     \<longrightarrow> (\<exists>r m. mu st = Some (r, m) \<and> (\<forall>a. data_word a \<longrightarrow> m (phys a) =
           (if MU_DST_ADDR st \<le> a \<and> a < MU_DST_ADDR st + MU_SIZE st then MU_VALUE st else ram st (phys a)))))"

text \<open>An engine that does so, for the witnesses.\<close>

definition unphys :: "nat \<Rightarrow> nat" where
  "unphys p = (if DRAM_BASE \<le> p then DRAM_BASE + (p - DRAM_BASE) div 132 * 128 + (p - DRAM_BASE) mod 132 else p)"

definition mu_ref :: mu_engine where
  "mu_ref st = Some (0, \<lambda>p. let a = unphys p in
     if phys a = p \<and> MU_DST_ADDR st \<le> a \<and> a < MU_DST_ADDR st + MU_SIZE st
     then (if MU_CMD st = MU_CMD_COPY then ram st (phys (MU_SRC_ADDR st + (a - MU_DST_ADDR st))) else MU_VALUE st)
     else ram st p)"

lemma unphys_phys: "unphys (phys a) = a"
proof (cases "DRAM_BASE \<le> a")
  case True
  let ?o = "a - DRAM_BASE"
  have "?o mod 128 < 132" by (rule less_trans [of _ 128]) simp_all
  then have "(?o div 128 * 132 + ?o mod 128) div 132 = ?o div 128" "(?o div 128 * 132 + ?o mod 128) mod 132 = ?o mod 128"
    by simp_all
  with True show ?thesis by (simp add: phys_def unphys_def real_addr_def add.assoc)
qed (simp add: phys_def unphys_def)

lemma phys_inject: "phys a = phys b \<longleftrightarrow> a = b"
  by (metis unphys_phys)

lemma real_addr_phys: "DRAM_BASE \<le> a \<Longrightarrow> real_addr a = phys a"
  by (simp add: phys_def)

lemma mu_ref_ok: "mu_copies mu_ref" "mu_sets mu_ref"
  by (auto simp: mu_copies_def mu_sets_def mu_ref_def unphys_phys Let_def mu_cmd_defs)

subsection \<open>The logical memory\<close>

text \<open>
  The words of the DRAM at their logical addresses, and items of one, two and four bytes in them:
  the contract the translation layers use.
\<close>

type_synonym dram = "nat \<Rightarrow> u32"

definition ld32 :: "nat \<Rightarrow> dram \<Rightarrow> u32" where "ld32 a d = d a"

definition ld16 :: "nat \<Rightarrow> dram \<Rightarrow> u16" where
  "ld16 a d = ucast (drop_bit (a mod 4 * 8) (d (aligned_addr a)))"

definition ld8 :: "nat \<Rightarrow> dram \<Rightarrow> u8" where
  "ld8 a d = ucast (drop_bit (a mod 4 * 8) (d (aligned_addr a)))"

definition st32 :: "nat \<Rightarrow> u32 \<Rightarrow> dram \<Rightarrow> dram" where "st32 a v d = d(a := v)"

definition put_field :: "nat \<Rightarrow> nat \<Rightarrow> u32 \<Rightarrow> u32 \<Rightarrow> u32" where
  "put_field n k x w = (w AND NOT (push_bit k (mask n))) OR push_bit k x"

definition st16 :: "nat \<Rightarrow> u16 \<Rightarrow> dram \<Rightarrow> dram" where
  "st16 a v d = d(aligned_addr a := put_field 16 (a mod 4 * 8) (ucast v) (d (aligned_addr a)))"

definition st8 :: "nat \<Rightarrow> u8 \<Rightarrow> dram \<Rightarrow> dram" where
  "st8 a v d = d(aligned_addr a := put_field 8 (a mod 4 * 8) (ucast v) (d (aligned_addr a)))"

definition dram_word :: "nat \<Rightarrow> bool" where
  "dram_word a \<longleftrightarrow> dram_addr a \<and> a mod 4 = 0"

text \<open>The machine shows the logical memory \<open>d\<close>.\<close>

definition shows_dram :: "mstate \<Rightarrow> dram \<Rightarrow> bool" where
  "shows_dram st d \<longleftrightarrow> (\<forall>a. dram_word a \<longrightarrow> cpu_load st a = d a)"

definition sram_slot :: "nat \<Rightarrow> bool" where
  "sram_slot a \<longleftrightarrow> a mod 4 = 0 \<and> a + 4 \<le> SRAM_SIZE"

lemma aligned_dram_word: "dram_addr a \<Longrightarrow> dram_word (aligned_addr a)"
proof -
  assume a: "dram_addr a"
  have "DRAM_BASE div 4 * 4 = DRAM_BASE" by (simp add: geom)
  moreover have "DRAM_BASE div 4 \<le> a div 4" using a by (intro div_le_mono) (simp add: dram_addr_def)
  then have "DRAM_BASE div 4 * 4 \<le> a div 4 * 4" by simp
  ultimately show ?thesis using a by (simp add: dram_word_def aligned_addr_def dram_addr_def) linarith
qed

lemma aligned_id: "a mod 4 = 0 \<Longrightarrow> aligned_addr a = a"
  by (auto simp: aligned_addr_def)

lemma copy_word:
  assumes "mu_copies mu" and "sram_slot tmp" and "dram_word a" and "shows_dram st d"
  shows "\<exists>st'. mem_copy mu a tmp 4 (st\<lparr>ram := (ram st)(tmp := v)\<rparr>) = Some st' \<and> shows_dram st' (d(a := v))
    \<and> irq_on st' = irq_on st"
proof -
  let ?st = "st\<lparr>ram := (ram st)(tmp := v), irq_on := False, MU_SRC_ADDR := tmp, MU_DST_ADDR := a, MU_SIZE := 4,
     MU_CMD := MU_CMD_COPY\<rparr>"
  have tmp: "tmp < DRAM_BASE" "phys tmp = tmp" "span_ok tmp 4" "tmp + 4 \<le> a"
    using assms(2,3) by (auto simp: sram_slot_def phys_def span_ok_def dram_word_def dram_addr_def geom)
  have "DRAM_SIZE mod 4 = 0" by (simp add: geom)
  then have a: "DRAM_BASE \<le> a" "span_ok a 4" "a mod 4 = 0"
    using assms(3) by (auto simp: dram_word_def dram_addr_def span_ok_def geom)
  obtain r m where m: "mu ?st = Some (r, m)"
    and c: "\<And>b. data_word b \<Longrightarrow> m (phys b) = (if a \<le> b \<and> b < a + 4 then (ram ?st) (phys (tmp + (b - a))) else (ram ?st) (phys b))"
    using assms(1) tmp a by (auto simp: mu_copies_def dest!: spec [of _ ?st])
  have "mem_copy mu a tmp 4 (st\<lparr>ram := (ram st)(tmp := v)\<rparr>)
      = Some (?st\<lparr>ram := m, irq_on := irq_on st\<rparr>)"
    using a tmp(1) assms(2) m
    by (cases "irq_on st") (simp_all add: mem_copy_def disable_irq_def enable_irq_def mu_run_def sram_slot_def geom)
  moreover have "shows_dram (?st\<lparr>ram := m, irq_on := irq_on st\<rparr>) (d(a := v))"
  proof (unfold shows_dram_def, intro allI impI)
    fix b assume b: "dram_word b"
    then have b': "data_word b" "real_addr b = phys b" "phys b \<noteq> tmp"
      using tmp(1) by (auto simp: data_word_def dram_word_def dram_addr_def phys_def real_addr_def)
    have "a \<le> b \<and> b < a + 4 \<longleftrightarrow> b = a" using a(3) b by (auto simp: dram_word_def) presburger
    with b' c [OF b'(1)] tmp(2) assms(4) b
    show "cpu_load (?st\<lparr>ram := m, irq_on := irq_on st\<rparr>) b = (d(a := v)) b"
      by (auto simp: cpu_load_def shows_dram_def)
  qed
  ultimately show ?thesis by (intro exI [of _ "?st\<lparr>ram := m, irq_on := irq_on st\<rparr>"]) simp
qed

lemma mask_fields: "(0xFFFF :: u32) = mask 16" "(0xFF :: u32) = mask 8"
  by (simp_all add: mask_eq_exp_minus_1)

text \<open>
  C30. The DRAM routines implement a logical memory of words: on a machine that shows \<open>d\<close>, every read
  returns the item of \<open>d\<close> and every write ends, keeps the interrupt state and leaves a machine that
  shows \<open>d\<close> with exactly that item changed, although loads and stores use different addresses.
\<close>

theorem dram_refines_logical:
  assumes "mu_copies mu" and "sram_slot tmp" and "dram_addr a" and "shows_dram st d"
  shows "read_dram_8 a st = Some (ld8 a d) \<and> read_dram_16 a st = Some (ld16 a d)
    \<and> (a mod 4 = 0 \<longrightarrow> read_dram_32 a st = Some (ld32 a d))
    \<and> (\<exists>st'. write_dram_8 mu tmp a v8 st = Some st' \<and> shows_dram st' (st8 a v8 d) \<and> irq_on st' = irq_on st)
    \<and> (\<exists>st'. write_dram_16 mu tmp a v16 st = Some st' \<and> shows_dram st' (st16 a v16 d) \<and> irq_on st' = irq_on st)
    \<and> (a mod 4 = 0 \<longrightarrow>
        (\<exists>st'. write_dram_32 mu tmp a v32 st = Some st' \<and> shows_dram st' (st32 a v32 d) \<and> irq_on st' = irq_on st))"
proof -
  note cw = copy_word [OF assms(1,2) aligned_dram_word [OF assms(3)] assms(4)]
  have ld: "cpu_load st (aligned_addr a) = d (aligned_addr a)"
    using aligned_dram_word [OF assms(3)] assms(4) by (simp add: shows_dram_def)
  show ?thesis using assms(3) ld cw
    by (auto simp: read_dram_8_def read_dram_16_def read_dram_32_def ld8_def ld16_def ld32_def write_dram_8_def
      write_dram_16_def write_dram_32_def st8_def st16_def st32_def put_field_def Let_def mask_fields aligned_id)
qed

definition mstate0 :: mstate where
  "mstate0 = \<lparr>MU_SRC_ADDR = 0, MU_DST_ADDR = 0, MU_VALUE = 0, MU_SIZE = 0, MU_CMD = 0, MU_UNITSTEP = 0,
     irq_on = True, ram = (\<lambda>_. 0)\<rparr>"

lemma mstate0_shows: "shows_dram mstate0 (\<lambda>_. 0)"
  by (simp add: shows_dram_def cpu_load_def mstate0_def)

theorem dram_refines_logical_witness:
  "\<exists>st'. write_dram_16 mu_ref 64 (DRAM_BASE + 130) 0x1234 mstate0 = Some st'
     \<and> shows_dram st' (st16 (DRAM_BASE + 130) 0x1234 (\<lambda>_. 0)) \<and> irq_on st' = irq_on mstate0"
  using dram_refines_logical [OF mu_ref_ok(1) _ _ mstate0_shows, of 64 "DRAM_BASE + 130" 0 "0x1234" 0]
  by (simp add: sram_slot_def dram_addr_def geom)


subsection \<open>Items of different widths and bits\<close>

lemma bit_put_field:
  assumes "take_bit n x = x" and "i < 32"
  shows "bit (put_field n k x w) i \<longleftrightarrow> (if k \<le> i \<and> i < k + n then bit x (i - k) else bit w i)"
proof -
  have "bit x j \<Longrightarrow> j < n" for j using arg_cong [OF assms(1), of "\<lambda>y. bit y j"] by (simp add: bit_take_bit_iff)
  from this [of "i - k"] show ?thesis using assms(2) by (auto simp: put_field_def bit_simps)
qed

lemma take_bit_ucast: "take_bit 16 (ucast (v :: u16) :: u32) = ucast v" "take_bit 8 (ucast (b :: u8) :: u32) = ucast b"
  by (rule bit_word_eqI, auto simp: bit_simps dest: bit_imp_le_length)+

lemma aligned_split: "aligned_addr a + a mod 4 = a"
  by (simp add: aligned_addr_def)

text \<open>
  The logical memory is byte-addressed and little-endian: a 16-bit store at an even address sets
  exactly the two bytes there, a 32-bit store at an aligned address the four bytes, and the wider
  loads read the bytes in the same order.
\<close>

theorem logical_little_endian:
  assumes "a mod 2 = 0" and "c mod 4 = 0"
  shows "ld8 b (st16 a v d) = (if b = a then ucast v else if b = a + 1 then ucast (drop_bit 8 v) else ld8 b d)
    \<and> ld8 b (st8 e x d) = (if b = e then x else ld8 b d)
    \<and> ld8 b (st32 c w d) = (if aligned_addr b = c then ucast (drop_bit (b mod 4 * 8) w) else ld8 b d)
    \<and> ld16 a d = ucast (ld8 a d) OR push_bit 8 (ucast (ld8 (a + 1) d))"
proof (intro conjI)
  have m4: "b mod 4 = 0 \<or> b mod 4 = 1 \<or> b mod 4 = 2 \<or> b mod 4 = 3" for b :: nat by presburger
  have ma: "a mod 4 = 0 \<or> a mod 4 = 2" using assms(1) by presburger
  have eq: "x = y \<longleftrightarrow> aligned_addr x = aligned_addr y \<and> x mod 4 = y mod 4" for x y by (metis aligned_split)
  have a1: "aligned_addr (a + 1) = aligned_addr a" "(a + 1) mod 4 = a mod 4 + 1"
    using ma by (auto simp: aligned_addr_def) presburger+
  show "ld8 b (st16 a v d) = (if b = a then ucast v else if b = a + 1 then ucast (drop_bit 8 v) else ld8 b d)"
    unfolding eq [of b a] eq [of b "a + 1"] a1
    by (rule bit_word_eqI, use ma m4 [of b] in
      \<open>auto simp: ld8_def st16_def bit_simps bit_put_field take_bit_ucast split: if_splits dest: bit_imp_le_length\<close>)
  show "ld8 b (st8 e x d) = (if b = e then x else ld8 b d)"
    unfolding eq [of b e]
    by (rule bit_word_eqI, use m4 [of e] m4 [of b] in
      \<open>auto simp: ld8_def st8_def bit_simps bit_put_field take_bit_ucast split: if_splits dest: bit_imp_le_length\<close>)
  show "ld8 b (st32 c w d) = (if aligned_addr b = c then ucast (drop_bit (b mod 4 * 8) w) else ld8 b d)"
    by (simp add: ld8_def st32_def)
  show "ld16 a d = ucast (ld8 a d) OR push_bit 8 (ucast (ld8 (a + 1) d))"
    by (rule bit_word_eqI, use ma a1 in \<open>auto simp: ld8_def ld16_def bit_simps\<close>)
qed

theorem logical_little_endian_witness:
  "ld8 7 (st16 6 0x1234 (\<lambda>_. 0)) = 0x12"
  using logical_little_endian [of 6 0 7 "0x1234" "\<lambda>_. 0" 0 0 0] by (simp add: drop_bit_eq_div)

lemma bit_position:
  assumes "dram_addr base" and "bit_offset < 4294967296" and "base + bit_offset div 8 < DRAM_BASE + DRAM_SIZE"
  shows "wrap32 (base + bit_offset div 8) = base + bit_offset div 8"
    and "wrap32 (base * 8 + bit_offset) mod 32 = (base * 8 + bit_offset) mod 32"
    and "aligned_addr (base + bit_offset div 8) = (base * 8 + bit_offset) div 32 * 4"
    and "dram_addr (base + bit_offset div 8)"
proof -
  show "wrap32 (base + bit_offset div 8) = base + bit_offset div 8"
    using assms(3) by (simp add: wrap32_def geom)
  show "wrap32 (base * 8 + bit_offset) mod 32 = (base * 8 + bit_offset) mod 32"
    by (simp add: wrap32_def mod_mod_cancel)
  have "(base * 8 + bit_offset) div 8 = base + bit_offset div 8" by simp
  then have "(base + bit_offset div 8) div 4 = (base * 8 + bit_offset) div 32"
    by (simp add: div_mult2_eq [of "base * 8 + bit_offset" 8 4, simplified, symmetric])
  then show "aligned_addr (base + bit_offset div 8) = (base * 8 + bit_offset) div 32 * 4"
    by (simp add: aligned_addr_def)
  show "dram_addr (base + bit_offset div 8)" using assms(1,3) by (simp add: dram_addr_def)
qed

text \<open>The bit \<open>n\<close> of the logical memory, counted from address 0.\<close>

definition dram_bit :: "dram \<Rightarrow> nat \<Rightarrow> bool" where
  "dram_bit d n = bit (d (n div 32 * 4)) (n mod 32)"

lemma and_bit_nonzero: "i < 32 \<Longrightarrow> (w AND push_bit i 1 \<noteq> 0) \<longleftrightarrow> bit (w :: u32) i"
proof -
  assume "i < 32"
  have "w AND push_bit i 1 = 0 \<longleftrightarrow> \<not> bit w i"
  proof
    assume "w AND push_bit i 1 = 0"
    then have "\<not> bit (w AND push_bit i 1) i" by simp
    then show "\<not> bit w i" using \<open>i < 32\<close> by (simp add: bit_simps)
  next
    assume "\<not> bit w i"
    then show "w AND push_bit i 1 = 0" by (intro bit_word_eqI) (auto simp: bit_simps bit_1_iff)
  qed
  then show ?thesis by simp
qed

text \<open>
  Bitmaps in DRAM: setting (clearing) bit \<open>k\<close> of a bitmap makes exactly the bit at position
  \<open>8 * base + k\<close> of the memory true (false), whatever the alignment of the bitmap, and testing a bit
  of a bitmap is true exactly when the bit at its position is.
\<close>

theorem dram_bitmap:
  assumes "mu_copies mu" and "sram_slot tmp" and "dram_addr base" and "k < 4294967296"
    and "base + k div 8 < DRAM_BASE + DRAM_SIZE" and "shows_dram st d"
  shows "(\<exists>st' d'. set_bit_dram mu tmp base k st = Some st' \<and> shows_dram st' d'
      \<and> (\<forall>n. dram_bit d' n \<longleftrightarrow> n = base * 8 + k \<or> dram_bit d n))
    \<and> (\<exists>st' d'. clr_bit_dram mu tmp base k st = Some st' \<and> shows_dram st' d'
      \<and> (\<forall>n. dram_bit d' n \<longleftrightarrow> n \<noteq> base * 8 + k \<and> dram_bit d n))
    \<and> (\<exists>v. tst_bit_dram base k st = Some v \<and> (v \<noteq> 0 \<longleftrightarrow> dram_bit d (base * 8 + k)))"
proof -
  note bp = bit_position [OF assms(3,4,5)]
  let ?n = "base * 8 + k"
  let ?a = "?n div 32 * 4"
  have wa: "dram_word ?a" using aligned_dram_word [OF bp(4)] by (simp add: bp(3))
  note cw = copy_word [OF assms(1,2) wa assms(6)]
  have ld: "cpu_load st ?a = d ?a" using wa assms(6) by (simp add: shows_dram_def)
  have pos: "n = ?n \<longleftrightarrow> n div 32 = ?n div 32 \<and> n mod 32 = ?n mod 32" for n by (metis div_mult_mod_eq)
  have st: "dram_bit (d(?a := d ?a OR push_bit (?n mod 32) 1)) n \<longleftrightarrow> n = ?n \<or> dram_bit d n" for n
    unfolding pos [of n] by (auto simp: dram_bit_def bit_simps bit_1_iff)
  have cl: "dram_bit (d(?a := d ?a AND NOT (push_bit (?n mod 32) 1))) n \<longleftrightarrow> n \<noteq> ?n \<and> dram_bit d n" for n
    unfolding pos [of n] by (auto simp: dram_bit_def bit_simps bit_1_iff)
  note run = set_bit_dram_def clr_bit_dram_def tst_bit_dram_def Let_def bp
  have "\<exists>st' d'. set_bit_dram mu tmp base k st = Some st' \<and> shows_dram st' d'
      \<and> (\<forall>n. dram_bit d' n \<longleftrightarrow> n = ?n \<or> dram_bit d n)"
    using cw [of "d ?a OR push_bit (?n mod 32) 1"] assms(3) ld st by (fastforce simp only: run ASSERT_simps bind.bind_lunit)
  moreover have "\<exists>st' d'. clr_bit_dram mu tmp base k st = Some st' \<and> shows_dram st' d'
      \<and> (\<forall>n. dram_bit d' n \<longleftrightarrow> n \<noteq> ?n \<and> dram_bit d n)"
    using cw [of "d ?a AND NOT (push_bit (?n mod 32) 1)"] assms(3) ld cl by (fastforce simp only: run ASSERT_simps bind.bind_lunit)
  moreover have "\<exists>v. tst_bit_dram base k st = Some v \<and> (v \<noteq> 0 \<longleftrightarrow> dram_bit d ?n)"
    using and_bit_nonzero [of "?n mod 32" "d ?a"] ld assms(3) by (simp add: run dram_bit_def del: push_bit_of_1)
  ultimately show ?thesis by blast
qed

theorem dram_bitmap_witness:
  "\<exists>st' d'. set_bit_dram mu_ref 64 (DRAM_BASE + 3) 13 mstate0 = Some st' \<and> shows_dram st' d'
     \<and> (\<forall>n. dram_bit d' n \<longleftrightarrow> n = (DRAM_BASE + 3) * 8 + 13 \<or> dram_bit (\<lambda>_. 0) n)"
  by (rule dram_bitmap [OF mu_ref_ok(1) _ _ _ _ mstate0_shows, THEN conjunct1])
    (simp_all add: sram_slot_def dram_addr_def geom)

subsection \<open>Fills and comparisons\<close>

lemma mem_set_loop_dram:
  assumes "mu_sets mu"
  shows "addr mod 4 = 0 \<Longrightarrow> n mod 4 = 0 \<Longrightarrow> DRAM_BASE \<le> addr \<Longrightarrow> addr + n \<le> DRAM_BASE + DRAM_SIZE
    \<Longrightarrow> shows_dram st d \<Longrightarrow> MU_VALUE st = v
    \<Longrightarrow> \<exists>st'. mem_set_loop mu MU_CMD_SET_REPT_DRAM addr n st = Some st' \<and> irq_on st' = irq_on st
      \<and> shows_dram st' (\<lambda>a. if addr \<le> a \<and> a < addr + n then v else d a)"
proof (induction n arbitrary: addr st d rule: less_induct)
  case (less n)
  let ?size = "min n MU_MAX_BYTES"
  let ?st = "st\<lparr>MU_DST_ADDR := addr, MU_SIZE := ?size, MU_CMD := MU_CMD_SET_REPT_DRAM\<rparr>"
  let ?d = "\<lambda>a. if addr \<le> a \<and> a < addr + ?size then v else d a"
  have size: "?size mod 4 = 0" using less.prems(2) by (simp add: min_def geom)
  have "span_ok addr ?size" using less.prems size by (auto simp: span_ok_def)
  then obtain r m where m: "mu ?st = Some (r, m)"
    and c: "\<And>b. data_word b \<Longrightarrow> m (phys b) = (if addr \<le> b \<and> b < addr + ?size then v else ram st (phys b))"
    using assms less.prems(6) by (auto simp: mu_sets_def dest!: spec [of _ ?st])
  let ?st' = "?st\<lparr>ram := m\<rparr>"
  have run: "mu_run mu MU_CMD_SET_REPT_DRAM (st\<lparr>MU_DST_ADDR := addr, MU_SIZE := ?size\<rparr>) = Some (r, ?st')"
    using m by (simp add: mu_run_def)
  have shown: "shows_dram ?st' ?d"
    using c less.prems(5) by (auto simp: shows_dram_def cpu_load_def dram_word_def data_word_def real_addr_phys dram_addr_def)
  show ?case
  proof (cases "n \<le> MU_MAX_BYTES")
    case True
    then show ?thesis using run shown by (subst mem_set_loop.simps) (simp add: Let_def)
  next
    case False
    then have n: "?size = MU_MAX_BYTES" "n - ?size \<noteq> 0" "n - ?size < n" "?size \<le> n" by (simp_all add: geom)
    have w: "wrap32 (addr + ?size) = addr + ?size" using less.prems(4) n(4) by (simp add: wrap32_def geom)
    have m4: "(n - ?size) mod 4 = 0" "(addr + ?size) mod 4 = 0" using less.prems(1,2) size n(4) by presburger+
    from less.IH [OF n(3), of "addr + ?size" ?st' ?d] less.prems shown m4 n(4) obtain st' where
      "mem_set_loop mu MU_CMD_SET_REPT_DRAM (addr + ?size) (n - ?size) ?st' = Some st'" "irq_on st' = irq_on st"
      "shows_dram st' (\<lambda>a. if addr + ?size \<le> a \<and> a < addr + ?size + (n - ?size) then v else ?d a)"
      by auto
    moreover have "(\<lambda>a. if addr + ?size \<le> a \<and> a < addr + ?size + (n - ?size) then v else ?d a)
        = (\<lambda>a. if addr \<le> a \<and> a < addr + n then v else d a)"
      by (rule ext) (use n(4) in \<open>simp; linarith\<close>)
    ultimately show ?thesis using run n(2) w by (subst mem_set_loop.simps) (simp add: Let_def)
  qed
qed

text \<open>
  \<open>mem_set_dram\<close> ends for every size: an aligned fill of any number of ECC units inside the DRAM,
  done in engine commands of at most \<open>MU_MAX_BYTES\<close>, sets exactly the words of its range, and an
  unaligned one is stopped by the assertions.
\<close>

theorem mem_set_dram_fills:
  assumes "mu_sets mu" and "DRAM_BASE \<le> addr" and "addr + n \<le> DRAM_BASE + DRAM_SIZE" and "shows_dram st d"
  shows "(addr mod SDRAM_ECC_UNIT = 0 \<and> n mod SDRAM_ECC_UNIT = 0 \<longrightarrow>
      (\<exists>st'. mem_set_dram mu addr v n st = Some st' \<and> irq_on st' = irq_on st
        \<and> shows_dram st' (\<lambda>a. if addr \<le> a \<and> a < addr + n then v else d a)))
    \<and> (addr mod SDRAM_ECC_UNIT \<noteq> 0 \<or> n mod SDRAM_ECC_UNIT \<noteq> 0 \<longrightarrow> mem_set_dram mu addr v n st = None)"
proof -
  have m4: "x mod SDRAM_ECC_UNIT = 0 \<Longrightarrow> x mod 4 = 0" for x by (simp add: geom) presburger
  have "shows_dram (st\<lparr>MU_VALUE := v\<rparr>) d" using assms(4) by (simp add: shows_dram_def cpu_load_def)
  from mem_set_loop_dram [OF assms(1) _ _ assms(2,3) this, of v] m4 assms(2) show ?thesis
    by (auto simp: mem_set_dram_def)
qed

theorem mem_set_dram_fills_witness:
  "\<exists>st'. mem_set_dram mu_ref DRAM_BASE 7 65536 mstate0 = Some st' \<and> irq_on st' = irq_on mstate0
     \<and> shows_dram st' (\<lambda>a. if DRAM_BASE \<le> a \<and> a < DRAM_BASE + 65536 then 7 else (\<lambda>_. 0) a)"
  using mem_set_dram_fills [OF mu_ref_ok(2) _ _ mstate0_shows, of DRAM_BASE 65536 7] by (simp add: geom)

lemma mem_cmp_loop_first:
  assumes "\<And>i. i < n \<Longrightarrow> rd (p + i) = Some (f i) \<and> rd (q + i) = Some (g i)"
  shows "mem_cmp_loop rd p q n = Some (case find (\<lambda>i. f i \<noteq> g i) [0..<n] of None \<Rightarrow> 0
    | Some i \<Rightarrow> if g i < f i then 1 else - 1)"
  using assms
proof (induction n arbitrary: p q f g)
  case 0
  then show ?case by simp
next
  case (Suc n)
  have 0: "rd p = Some (f 0)" "rd q = Some (g 0)" using Suc.prems [of 0] by simp_all
  have "mem_cmp_loop rd (p + 1) (q + 1) n = Some (case find (\<lambda>i. f (Suc i) \<noteq> g (Suc i)) [0..<n] of None \<Rightarrow> 0
    | Some i \<Rightarrow> if g (Suc i) < f (Suc i) then 1 else - 1)"
    by (rule Suc.IH) (use Suc.prems [of "Suc _"] in simp)
  moreover have "find (\<lambda>i. f i \<noteq> g i) [0..<Suc n] = (if f 0 \<noteq> g 0 then Some 0
      else map_option Suc (find (\<lambda>i. f (Suc i) \<noteq> g (Suc i)) [0..<n]))"
  proof -
    have "find P (map Suc xs) = map_option Suc (find (\<lambda>i. P (Suc i)) xs)" for P xs by (induction xs) auto
    then show ?thesis by (simp add: upt_conv_Cons map_Suc_upt [symmetric] del: upt_Suc)
  qed
  ultimately show ?case using 0 by (auto split: option.splits)
qed

text \<open>
  \<open>mem_cmp_dram\<close> decides at the first byte that differs: it returns 0 when all bytes of the two
  ranges agree, otherwise 1 or \<open>(UINT32) -1\<close> as that byte of the first range is larger or smaller.
\<close>

theorem mem_cmp_dram_first_difference:
  assumes "shows_dram st d" and "DRAM_BASE \<le> p" and "DRAM_BASE \<le> q" and "0 < n"
    and "p + n \<le> DRAM_BASE + DRAM_SIZE" and "q + n \<le> DRAM_BASE + DRAM_SIZE"
  shows "mem_cmp_dram p q n st = Some (case find (\<lambda>i. ld8 (p + i) d \<noteq> ld8 (q + i) d) [0..<n] of None \<Rightarrow> 0
    | Some i \<Rightarrow> if ld8 (q + i) d < ld8 (p + i) d then 1 else - 1)"
proof -
  have rd: "dram_addr a \<Longrightarrow> read_dram_8 a st = Some (ld8 a d)" for a
    using assms(1) aligned_dram_word [of a] by (simp add: read_dram_8_def ld8_def shows_dram_def)
  have "dram_addr p" "dram_addr q" using assms by (simp_all add: dram_addr_def)
  then show ?thesis unfolding mem_cmp_dram_def using assms(4)
    by simp (rule mem_cmp_loop_first, use assms in \<open>simp add: rd dram_addr_def\<close>)
qed

theorem mem_cmp_dram_first_difference_witness:
  "mem_cmp_dram DRAM_BASE (DRAM_BASE + 64) 16 mstate0 = Some 0"
proof -
  have "find (\<lambda>i. False) xs = None" for xs :: "nat list" by (induction xs) simp_all
  then show ?thesis
    using mem_cmp_dram_first_difference [OF mstate0_shows, of DRAM_BASE "DRAM_BASE + 64" 16]
    by (simp add: geom ld8_def)
qed

subsection \<open>The interface of the translation layers\<close>

text \<open>
  The checked operations on the logical memory; \<open>None\<close> is a failed assertion. The item searches return
  an index; \<open>MU_RESULT\<close> for an item that does not occur is any number that is not an index, here \<open>n\<close>.
\<close>

definition rd32 :: "nat \<Rightarrow> dram \<Rightarrow> nat option" where
  "rd32 a d = do { ASSERT (dram_addr a); ASSERT (a mod 4 = 0); Some (unat (ld32 a d)) }"

definition rd16 :: "nat \<Rightarrow> dram \<Rightarrow> nat option" where
  "rd16 a d = do { ASSERT (dram_addr a); Some (unat (ld16 a d)) }"

definition wr32 :: "nat \<Rightarrow> nat \<Rightarrow> dram \<Rightarrow> dram option" where
  "wr32 a v d = do { ASSERT (dram_addr a); if a mod 4 \<noteq> 0 then None else Some (st32 a (of_nat v) d) }"

definition wr16 :: "nat \<Rightarrow> nat \<Rightarrow> dram \<Rightarrow> dram option" where
  "wr16 a v d = do { ASSERT (dram_addr a); Some (st16 a (of_nat v) d) }"

definition dram_fill :: "nat \<Rightarrow> u32 \<Rightarrow> nat \<Rightarrow> dram \<Rightarrow> dram option" where
  "dram_fill a v n d = do {
     ASSERT (a mod SDRAM_ECC_UNIT = 0);
     ASSERT (n mod SDRAM_ECC_UNIT = 0);
     ASSERT (DRAM_BASE \<le> a);
     Some (\<lambda>b. if a \<le> b \<and> b < a + n then v else d b) }"

definition dram_move :: "nat \<Rightarrow> nat \<Rightarrow> nat \<Rightarrow> dram \<Rightarrow> dram option" where
  "dram_move dst src n d = do {
     ASSERT (dst mod 4 = 0);
     ASSERT (src mod 4 = 0);
     ASSERT (n mod 4 = 0);
     ASSERT (n \<le> MU_MAX_BYTES);
     ASSERT (\<not> (DRAM_BASE < dst \<and> DRAM_BASE < src \<and> n mod DRAM_ECC_UNIT \<noteq> 0));
     Some (\<lambda>b. if dst \<le> b \<and> b < dst + n then d (src + (b - dst)) else d b) }"

text \<open>Bit \<open>k\<close> of a bitmap, tested and set.\<close>

definition tst_bit :: "nat \<Rightarrow> nat \<Rightarrow> dram \<Rightarrow> bool option" where
  "tst_bit base k d = do { ASSERT (dram_addr base); Some (dram_bit d (base * 8 + k)) }"

definition put_bit :: "nat \<Rightarrow> nat \<Rightarrow> dram \<Rightarrow> dram option" where
  "put_bit base k d = do {
     ASSERT (dram_addr base);
     let n = base * 8 + k;
     Some (d(n div 32 * 4 := d (n div 32 * 4) OR push_bit (n mod 32) 1)) }"

lemma put_bit_bits:
  assumes "put_bit base k d = Some d'"
  shows "dram_bit d' n \<longleftrightarrow> n = base * 8 + k \<or> dram_bit d n"
proof -
  let ?n = "base * 8 + k"
  have pos: "n = ?n \<longleftrightarrow> n div 32 = ?n div 32 \<and> n mod 32 = ?n mod 32" by (metis div_mult_mod_eq)
  have d': "d' = d(?n div 32 * 4 := d (?n div 32 * 4) OR push_bit (?n mod 32) 1)"
    using assms by (cases "dram_addr base") (simp_all add: put_bit_def Let_def)
  show ?thesis unfolding pos d' by (auto simp: dram_bit_def bit_simps bit_1_iff)
qed

text \<open>Items of two bytes at even addresses are independent of each other.\<close>

lemma ld16_st16:
  assumes "a mod 2 = 0" and "b mod 2 = 0"
  shows "ld16 b (st16 a v d) = (if b = a then v else ld16 b d)"
proof -
  have m: "a mod 4 = 0 \<or> a mod 4 = 2" "b mod 4 = 0 \<or> b mod 4 = 2" using assms by presburger+
  have eq: "b = a \<longleftrightarrow> aligned_addr b = aligned_addr a \<and> b mod 4 = a mod 4" by (metis aligned_split)
  show ?thesis unfolding eq
    by (rule bit_word_eqI, use m in \<open>auto simp: ld16_def st16_def bit_simps bit_put_field take_bit_ucast split: if_splits dest: bit_imp_le_length\<close>)
qed

lemma ld16_cong: "d' (aligned_addr b) = d (aligned_addr b) \<Longrightarrow> ld16 b d' = ld16 b d"
  by (simp add: ld16_def)

definition item :: "nat \<Rightarrow> nat \<Rightarrow> dram \<Rightarrow> nat" where
  "item w a d = (if w = 1 then unat (ld8 a d) else if w = 2 then unat (ld16 a d) else unat (ld32 a d))"

definition first_equ :: "nat \<Rightarrow> nat \<Rightarrow> nat \<Rightarrow> nat \<Rightarrow> dram \<Rightarrow> nat" where
  "first_equ w a n v d = (case find (\<lambda>i. item w (a + i * w) d = v) [0..<n] of Some i \<Rightarrow> i | None \<Rightarrow> n)"

definition search_equ :: "nat \<Rightarrow> nat \<Rightarrow> nat \<Rightarrow> nat \<Rightarrow> dram \<Rightarrow> nat option" where
  "search_equ w a n v d = do {
     ASSERT (a mod 4 = 0);
     ASSERT (wrap32 (w * n) \<le> MU_MAX_BYTES);
     if n = 0 then Some 1 else Some (first_equ w a n v d) }"

definition search_min :: "nat \<Rightarrow> nat \<Rightarrow> nat \<Rightarrow> dram \<Rightarrow> nat option" where
  "search_min w a n d = do {
     ASSERT (a mod 4 = 0);
     ASSERT (n \<noteq> 0 \<and> wrap32 (w * n) \<le> MU_MAX_BYTES);
     Some (first_equ w a n (Min ((\<lambda>i. item w (a + i * w) d) ` {..<n})) d) }"

lemma find_None_upt: "find P [0..<n] = None \<longleftrightarrow> (\<forall>i < n. \<not> P i)"
  by (auto simp: find_None_iff)

lemma find_Some_upt: "find P [0..<n] = Some i \<longleftrightarrow> i < n \<and> P i \<and> (\<forall>j < i. \<not> P j)"
  by (auto simp: find_Some_iff)

lemma first_equ_less: "first_equ w a n v d < n \<longleftrightarrow> (\<exists>i < n. item w (a + i * w) d = v)"
  by (auto simp: first_equ_def find_None_upt find_Some_upt split: option.splits)

lemma first_equ_eq:
  "i < n \<Longrightarrow> item w (a + i * w) d = v \<Longrightarrow> (\<And>j. j < i \<Longrightarrow> item w (a + j * w) d \<noteq> v) \<Longrightarrow> first_equ w a n v d = i"
proof -
  assume "i < n" "item w (a + i * w) d = v" "\<And>j. j < i \<Longrightarrow> item w (a + j * w) d \<noteq> v"
  then have "find (\<lambda>i. item w (a + i * w) d = v) [0..<n] = Some i" by (simp add: find_Some_upt)
  then show ?thesis by (simp add: first_equ_def)
qed

lemma first_equ_item: "first_equ w a n v d < n \<Longrightarrow> item w (a + first_equ w a n v d * w) d = v"
  by (auto simp: first_equ_def find_None_upt find_Some_upt split: option.splits)

text \<open>
  The search commands: the engine leaves the memory alone and \<open>MU_RESULT\<close> is the index of the first item
  equal to \<open>MU_VALUE\<close>, or no index; for \<open>MU_CMD_SEARCH_MIN_DRAM\<close> it is the first index of a smallest item.
\<close>

definition mu_searches :: "mu_engine \<Rightarrow> bool" where
  "mu_searches mu \<longleftrightarrow> (\<forall>st d w n. MU_CMD st \<in> {MU_CMD_SEARCH_EQU_DRAM, MU_CMD_SEARCH_MIN_DRAM}
       \<and> shows_dram st d \<and> w \<in> {1, 2, 4} \<and> MU_UNITSTEP st = mu_unitstep w \<and> MU_SIZE st = n \<and> 0 < n
       \<and> MU_SRC_ADDR st mod 4 = 0 \<and> DRAM_BASE \<le> MU_SRC_ADDR st \<and> MU_SRC_ADDR st + n * w \<le> DRAM_BASE + DRAM_SIZE \<longrightarrow>
     (\<exists>r. mu st = Some (r, ram st)
       \<and> (MU_CMD st = MU_CMD_SEARCH_EQU_DRAM \<longrightarrow>
            (if \<exists>i < n. item w (MU_SRC_ADDR st + i * w) d = unat (MU_VALUE st)
             then unat r = first_equ w (MU_SRC_ADDR st) n (unat (MU_VALUE st)) d else n \<le> unat r))
       \<and> (MU_CMD st = MU_CMD_SEARCH_MIN_DRAM \<longrightarrow>
            unat r = first_equ w (MU_SRC_ADDR st) n (Min ((\<lambda>i. item w (MU_SRC_ADDR st + i * w) d) ` {..<n})) d)))"

text \<open>An engine with all three properties: it reads the items through the CPU's view.\<close>

definition view :: "mstate \<Rightarrow> dram" where
  "view st a = cpu_load st a"

definition mu_full :: mu_engine where
  "mu_full st =
     (let w = (if MU_UNITSTEP st = mu_unitstep 1 then 1 else if MU_UNITSTEP st = mu_unitstep 2 then 2 else 4);
          a = MU_SRC_ADDR st; n = MU_SIZE st in
      if MU_CMD st = MU_CMD_SEARCH_EQU_DRAM then Some (of_nat (first_equ w a n (unat (MU_VALUE st)) (view st)), ram st)
      else if MU_CMD st = MU_CMD_SEARCH_MIN_DRAM
      then Some (of_nat (first_equ w a n (Min ((\<lambda>i. item w (a + i * w) (view st)) ` {..<n})) (view st)), ram st)
      else mu_ref st)"

lemma shows_item:
  assumes "shows_dram st d" and "dram_addr a" and "w \<noteq> 1 \<and> w \<noteq> 2 \<longrightarrow> a mod 4 = 0"
  shows "item w a (view st) = item w a d"
  using assms aligned_dram_word [OF assms(2)]
  by (auto simp: item_def ld8_def ld16_def ld32_def view_def shows_dram_def dram_word_def)

lemma shows_first_equ:
  assumes "shows_dram st d" and "w \<in> {1, 2, 4}" and "a mod 4 = 0" and "DRAM_BASE \<le> a" and "a + n * w \<le> DRAM_BASE + DRAM_SIZE"
  shows "i < n \<Longrightarrow> item w (a + i * w) (view st) = item w (a + i * w) d"
    and "first_equ w a n v (view st) = first_equ w a n v d"
proof -
  have *: "item w (a + i * w) (view st) = item w (a + i * w) d" if "i < n" for i
  proof (rule shows_item [OF assms(1)])
    have "i * w < n * w" using that assms(2) by auto
    then have "a + i * w < DRAM_BASE + DRAM_SIZE" using assms(5) by linarith
    then show "dram_addr (a + i * w)" using assms(4) by (simp add: dram_addr_def)
    show "w \<noteq> 1 \<and> w \<noteq> 2 \<longrightarrow> (a + i * w) mod 4 = 0" using assms(2,3) by auto
  qed
  then show "i < n \<Longrightarrow> item w (a + i * w) (view st) = item w (a + i * w) d" .
  have "find (\<lambda>i. item w (a + i * w) (view st) = v) [0..<n] = find (\<lambda>i. item w (a + i * w) d = v) [0..<n]"
    using * by (intro find_cong) simp_all
  then show "first_equ w a n v (view st) = first_equ w a n v d" by (simp add: first_equ_def)
qed

lemma first_equ_le: "first_equ w a n v d \<le> n"
  by (auto simp: first_equ_def find_Some_upt split: option.splits)

lemma mu_full_ok: "mu_copies mu_full" "mu_sets mu_full" "mu_searches mu_full"
proof -
  show "mu_copies mu_full" "mu_sets mu_full"
    using mu_ref_ok by (auto simp: mu_copies_def mu_sets_def mu_full_def mu_cmd_defs)
  show "mu_searches mu_full"
    unfolding mu_searches_def
  proof (intro allI impI)
    fix st :: mstate and d w n
    let ?a = "MU_SRC_ADDR st"
    assume *: "MU_CMD st \<in> {MU_CMD_SEARCH_EQU_DRAM, MU_CMD_SEARCH_MIN_DRAM}
       \<and> shows_dram st d \<and> w \<in> {1, 2, 4} \<and> MU_UNITSTEP st = mu_unitstep w \<and> MU_SIZE st = n \<and> 0 < n
       \<and> ?a mod 4 = 0 \<and> DRAM_BASE \<le> ?a \<and> ?a + n * w \<le> DRAM_BASE + DRAM_SIZE"
    then have w: "(if MU_UNITSTEP st = mu_unitstep 1 then 1 else if MU_UNITSTEP st = mu_unitstep 2 then 2 else 4) = w"
      by (auto simp: mu_unitstep_def MU_UNIT_8_def MU_UNIT_16_def MU_UNIT_32_def)
    have sz: "MU_SIZE st = n" and cmd: "MU_CMD st = MU_CMD_SEARCH_EQU_DRAM \<or> MU_CMD st = MU_CMD_SEARCH_MIN_DRAM"
      using * by auto
    have fe: "first_equ w ?a n v (view st) = first_equ w ?a n v d" for v using * by (intro shows_first_equ) auto
    have im: "(\<lambda>i. item w (?a + i * w) (view st)) ` {..<n} = (\<lambda>i. item w (?a + i * w) d) ` {..<n}"
      using * by (intro image_cong refl shows_first_equ [where n = n]) auto
    have "n \<le> n * w" using * by auto
    moreover have "n * w \<le> DRAM_SIZE" using * by linarith
    ultimately have "n \<le> DRAM_SIZE" by (rule order_trans)
    then have "n < 4294967296" by (simp add: geom)
    then have un: "unat (of_nat (first_equ w ?a n v d) :: u32) = first_equ w ?a n v d" for v
      using first_equ_le [of w ?a n v d] by (simp add: unat_of_nat)
    show "\<exists>r. mu_full st = Some (r, ram st)
       \<and> (MU_CMD st = MU_CMD_SEARCH_EQU_DRAM \<longrightarrow>
            (if \<exists>i < n. item w (?a + i * w) d = unat (MU_VALUE st)
             then unat r = first_equ w ?a n (unat (MU_VALUE st)) d else n \<le> unat r))
       \<and> (MU_CMD st = MU_CMD_SEARCH_MIN_DRAM \<longrightarrow>
            unat r = first_equ w ?a n (Min ((\<lambda>i. item w (?a + i * w) d) ` {..<n})) d)"
    proof (cases "MU_CMD st = MU_CMD_SEARCH_EQU_DRAM")
      case True
      then have "mu_full st = Some (of_nat (first_equ w ?a n (unat (MU_VALUE st)) d), ram st)"
        unfolding mu_full_def Let_def w by (simp add: fe sz)
      with True un [of "unat (MU_VALUE st)"] show ?thesis by (simp add: mu_cmd_defs first_equ_less [symmetric])
    next
      case False
      then have "mu_full st = Some (of_nat (first_equ w ?a n (Min ((\<lambda>i. item w (?a + i * w) d) ` {..<n})) d), ram st)"
        using cmd unfolding mu_full_def Let_def w by (simp add: fe sz im)
      with False un show ?thesis by simp
    qed
  qed
qed

lemma mu_searchesD:
  assumes "mu_searches mu" and "shows_dram st d" and "w \<in> {1, 2, 4}" and "MU_UNITSTEP st = mu_unitstep w" and "0 < MU_SIZE st"
    and "MU_SRC_ADDR st mod 4 = 0" and "DRAM_BASE \<le> MU_SRC_ADDR st"
    and "MU_SRC_ADDR st + MU_SIZE st * w \<le> DRAM_BASE + DRAM_SIZE"
  shows "MU_CMD st = MU_CMD_SEARCH_EQU_DRAM \<Longrightarrow> \<exists>r. mu st = Some (r, ram st)
      \<and> (unat r < MU_SIZE st \<longleftrightarrow> first_equ w (MU_SRC_ADDR st) (MU_SIZE st) (unat (MU_VALUE st)) d < MU_SIZE st)
      \<and> (unat r < MU_SIZE st \<longrightarrow> unat r = first_equ w (MU_SRC_ADDR st) (MU_SIZE st) (unat (MU_VALUE st)) d)"
    and "MU_CMD st = MU_CMD_SEARCH_MIN_DRAM \<Longrightarrow> \<exists>r. mu st = Some (r, ram st)
      \<and> unat r = first_equ w (MU_SRC_ADDR st) (MU_SIZE st)
           (Min ((\<lambda>i. item w (MU_SRC_ADDR st + i * w) d) ` {..<MU_SIZE st})) d"
proof -
  note law = assms(1) [unfolded mu_searches_def, rule_format, of st d w "MU_SIZE st"]
  {
    assume cmd: "MU_CMD st = MU_CMD_SEARCH_EQU_DRAM"
    with law assms(2-) obtain r where "mu st = Some (r, ram st)"
      "if \<exists>i < MU_SIZE st. item w (MU_SRC_ADDR st + i * w) d = unat (MU_VALUE st)
       then unat r = first_equ w (MU_SRC_ADDR st) (MU_SIZE st) (unat (MU_VALUE st)) d else MU_SIZE st \<le> unat r"
      by blast
    then show "\<exists>r. mu st = Some (r, ram st)
      \<and> (unat r < MU_SIZE st \<longleftrightarrow> first_equ w (MU_SRC_ADDR st) (MU_SIZE st) (unat (MU_VALUE st)) d < MU_SIZE st)
      \<and> (unat r < MU_SIZE st \<longrightarrow> unat r = first_equ w (MU_SRC_ADDR st) (MU_SIZE st) (unat (MU_VALUE st)) d)"
      by (intro exI [of _ r]) (simp add: first_equ_less [symmetric] split: if_splits)
  next
    assume cmd: "MU_CMD st = MU_CMD_SEARCH_MIN_DRAM"
    with law assms(2-) show "\<exists>r. mu st = Some (r, ram st)
      \<and> unat r = first_equ w (MU_SRC_ADDR st) (MU_SIZE st)
           (Min ((\<lambda>i. item w (MU_SRC_ADDR st + i * w) d) ` {..<MU_SIZE st})) d"
      by blast
  }
qed



end
