(* ===== verification/Flash_Ctrl.thy ===== *)
theory Flash_Ctrl
  imports Mem_Util
begin

text \<open>
  The flash controller driver (\<open>target_spw/flash.c\<close>, \<open>target_spw/flash_wrapper.c\<close>,
  \<open>include/flash.h\<close>). The driver fills the FCP registers and issues them; the controller and the NAND
  chips are hardware, the argument \<open>hw\<close>, which executes an issued register set on the NAND and the
  DRAM. \<open>flash_ok\<close> states what \<open>include/flash.h\<close> documents of the command codes. The waits of the
  driver and the issued commands are recorded in order in \<open>trace\<close>. The buffers of the linked
  translation layer (\<open>ftl.h\<close>) are the argument \<open>lay\<close>.
\<close>

subsection \<open>Registers and state\<close>

text \<open>\<open>row_l\<close> and \<open>row_h\<close> are indexed by the real bank.\<close>

record fcp_t =
  fcp_cmd :: nat
  fcp_bank :: nat
  fcp_option :: nat
  fcp_dma_addr :: nat
  fcp_dma_cnt :: nat
  fcp_col :: nat
  fcp_row_l :: "nat \<Rightarrow> nat"
  fcp_row_h :: "nat \<Rightarrow> nat"
  fcp_dst_col :: nat
  fcp_dst_row_l :: nat
  fcp_dst_row_h :: nat

text \<open>
  The NAND seen from the driver: the words of every page of every real bank in two-plane addressing
  and the page register of every bank, both indexed by byte offset.
\<close>

record nand_state =
  pages :: "nat \<Rightarrow> nat \<Rightarrow> nat \<Rightarrow> u32"
  preg :: "nat \<Rightarrow> nat \<Rightarrow> u32"

type_synonym flash_hw = "fcp_t \<Rightarrow> nand_state \<times> dram \<Rightarrow> nand_state \<times> dram"

datatype freg = FCONF_NANDCFG_1 | FCONF_NANDCFG_2 | FCONF_TIMECYCLE | FCONF_BUFSIZE | FCONF_PAUSE | FCONF_CPBDMABASE
  | WR_STAT | BM_STACK_RDSET | BM_STACK_WRSET | BM_STACK_RESET | FTL_READ_PTR | REMAPBANK nat | INTR_MASK
  | PMU_ResetCon | APB_INT_STS | BSP_INTR_WORD nat

datatype flash_event = Issue fcp_t
  | Wait_Room
  | Wait_Bank nat
  | Wait_Idle
  | Wait_Rbuf nat
  | Set_Reg freg nat

record fstate =
  fcp :: fcp_t
  nand :: nand_state
  dram :: dram
  trace :: "flash_event list"
  g_ftl_read_buf_id :: nat
  g_ftl_write_buf_id :: nat

record buf_layout =
  l_rd_buf_addr :: nat
  l_num_rd_buffers :: nat
  l_wr_buf_addr :: nat
  l_num_wr_buffers :: nat
  l_copy_buf_addr :: nat

definition RD_BUF_PTR :: "buf_layout \<Rightarrow> nat \<Rightarrow> nat" where
  "RD_BUF_PTR lay i = l_rd_buf_addr lay + i * BYTES_PER_PAGE"

definition WR_BUF_PTR :: "buf_layout \<Rightarrow> nat \<Rightarrow> nat" where
  "WR_BUF_PTR lay i = l_wr_buf_addr lay + i * BYTES_PER_PAGE"

definition COPY_BUF :: "buf_layout \<Rightarrow> nat \<Rightarrow> nat" where
  "COPY_BUF lay b = l_copy_buf_addr lay + REAL_BANK b * BYTES_PER_PAGE"

subsection \<open>Command codes and options\<close>

definition FC_COL_ROW_IN_PROG :: nat where "FC_COL_ROW_IN_PROG = 0x01"
definition FC_COL_ROW_IN :: nat where "FC_COL_ROW_IN = 0x02"
definition FC_IN :: nat where "FC_IN = 0x03"
definition FC_IN_PROG :: nat where "FC_IN_PROG = 0x04"
definition FC_PROG :: nat where "FC_PROG = 0x09"
definition FC_COL_ROW_READ_OUT :: nat where "FC_COL_ROW_READ_OUT = 0x0a"
definition FC_COL_OUT :: nat where "FC_COL_OUT = 0x0f"
definition FC_COPYBACK :: nat where "FC_COPYBACK = 0x12"
definition FC_MODIFY_COPYBACK :: nat where "FC_MODIFY_COPYBACK = 0x17"
definition FC_WAIT :: nat where "FC_WAIT = 0x00"
definition FC_ERASE :: nat where "FC_ERASE = 0x14"
definition FC_GENERIC :: nat where "FC_GENERIC = 0x15"

lemmas fc_codes = FC_COL_ROW_IN_PROG_def FC_COL_ROW_IN_def FC_IN_def FC_IN_PROG_def FC_PROG_def FC_COL_ROW_READ_OUT_def
  FC_COL_OUT_def FC_COPYBACK_def FC_MODIFY_COPYBACK_def FC_WAIT_def FC_ERASE_def FC_GENERIC_def

text \<open>The option flags occupy different bits, so \<open>|\<close> of distinct flags is their sum.\<close>

definition FO_P :: nat where "FO_P = 0x01"
definition FO_E :: nat where "FO_E = 0x06"
definition FO_B_W_DRDY :: nat where "FO_B_W_DRDY = 0x40"
definition FO_B_SATA_W :: nat where "FO_B_SATA_W = 0x80"
definition FO_B_SATA_R :: nat where "FO_B_SATA_R = 0x100"

lemmas fo_flags = FO_P_def FO_E_def FO_B_W_DRDY_def FO_B_SATA_W_def FO_B_SATA_R_def

definition INTR_FLASH :: nat where "INTR_FLASH = 0x00000002"
definition RESET_FLASH :: nat where "RESET_FLASH = 4"

definition FIRQ_DATA_CORRUPT :: nat where "FIRQ_DATA_CORRUPT = 0x82"
definition FIRQ_BADBLK_L :: nat where "FIRQ_BADBLK_L = 0x08"
definition FIRQ_BADBLK_H :: nat where "FIRQ_BADBLK_H = 0x10"
definition FIRQ_ALL_FF :: nat where "FIRQ_ALL_FF = 0x20"

datatype sync = RETURN_ON_ISSUE | RETURN_ON_ACCEPT | RETURN_WHEN_DONE

definition log :: "flash_event \<Rightarrow> fstate \<Rightarrow> fstate" where
  "log e s = s\<lparr>trace := trace s @ [e]\<rparr>"

definition SETREG :: "freg \<Rightarrow> nat \<Rightarrow> fstate \<Rightarrow> fstate" where
  "SETREG r v s = log (Set_Reg r v) s"

definition set_fcp :: "(fcp_t \<Rightarrow> fcp_t) \<Rightarrow> fstate \<Rightarrow> fstate" where
  "set_fcp f s = s\<lparr>fcp := f (fcp s)\<rparr>"

text \<open>\<open>SETREG(FCP_ROW_L(bank), row); SETREG(FCP_ROW_H(bank), row)\<close>\<close>

definition set_rows :: "nat \<Rightarrow> nat \<Rightarrow> fcp_t \<Rightarrow> fcp_t" where
  "set_rows bank row f = f\<lparr>fcp_row_l := (fcp_row_l f)(REAL_BANK bank := row), fcp_row_h := (fcp_row_h f)(REAL_BANK bank := row)\<rparr>"

subsection \<open>flash.c\<close>

text \<open>\<open>SETREG(FCP_ISSUE, NULL)\<close> hands the register set to the controller.\<close>

definition fcp_issue :: "flash_hw \<Rightarrow> fstate \<Rightarrow> fstate" where
  "fcp_issue hw s =
     (let (n, d) = hw (fcp s) (nand s, dram s)
      in log (Issue (fcp s)) (s\<lparr>nand := n, dram := d\<rparr>))"

definition flash_issue_cmd :: "flash_hw \<Rightarrow> nat \<Rightarrow> sync \<Rightarrow> fstate \<Rightarrow> fstate" where
  "flash_issue_cmd hw bank sync s =
     (let rbank = REAL_BANK bank;
          s = set_fcp (\<lambda>f. f\<lparr>fcp_bank := rbank\<rparr>) s;
          s = log Wait_Room s;
          s = fcp_issue hw s in
      if sync = RETURN_ON_ISSUE then s
      else (let s = log Wait_Room s in
            if sync = RETURN_ON_ACCEPT then s else log (Wait_Bank rbank) s))"

definition flash_copy :: "flash_hw \<Rightarrow> nat \<Rightarrow> nat \<Rightarrow> nat \<Rightarrow> fstate \<Rightarrow> fstate" where
  "flash_copy hw bank dst_row src_row s =
     (let s = set_fcp (\<lambda>f. set_rows bank src_row (f\<lparr>fcp_cmd := FC_COPYBACK, fcp_bank := REAL_BANK bank,
                fcp_option := FO_P + FO_E + FO_B_W_DRDY, fcp_col := 0\<rparr>)) s;
          s = set_fcp (\<lambda>f. f\<lparr>fcp_dst_col := 0, fcp_dst_row_h := dst_row, fcp_dst_row_l := dst_row\<rparr>) s
      in fcp_issue hw (log Wait_Room s))"

definition flash_modify_copy ::
    "flash_hw \<Rightarrow> nat \<Rightarrow> nat \<Rightarrow> nat \<Rightarrow> nat \<Rightarrow> nat \<Rightarrow> nat \<Rightarrow> fstate \<Rightarrow> fstate" where
  "flash_modify_copy hw bank dst_row src_row sct_offset dma_addr dma_count s =
     (let dma_addr = sub32 dma_addr (sct_offset * BYTES_PER_SECTOR);
          s = set_fcp (\<lambda>f. set_rows bank src_row (f\<lparr>fcp_cmd := FC_MODIFY_COPYBACK, fcp_bank := REAL_BANK bank,
                fcp_option := FO_P + FO_E + FO_B_W_DRDY, fcp_dma_addr := dma_addr, fcp_dma_cnt := dma_count, fcp_col := 0\<rparr>)) s;
          s = set_fcp (\<lambda>f. f\<lparr>fcp_dst_col := sct_offset, fcp_dst_row_h := dst_row, fcp_dst_row_l := dst_row\<rparr>) s
      in fcp_issue hw (log Wait_Room s))"

definition flash_erase :: "flash_hw \<Rightarrow> nat \<Rightarrow> nat \<Rightarrow> fstate \<Rightarrow> fstate option" where
  "flash_erase hw bank vblk_offset s = do {
     ASSERT (0 < vblk_offset \<and> vblk_offset < VBLKS_PER_BANK);
     let s = set_fcp (\<lambda>f. set_rows bank (vblk_offset * PAGES_PER_VBLK)
               (f\<lparr>fcp_cmd := FC_ERASE, fcp_bank := REAL_BANK bank, fcp_option := FO_P\<rparr>)) s;
     Some (fcp_issue hw (log Wait_Room s)) }"

definition flash_finish :: "fstate \<Rightarrow> fstate" where
  "flash_finish s = log Wait_Idle s"

definition flash_clear_irq :: "fstate \<Rightarrow> fstate" where
  "flash_clear_irq s =
     SETREG APB_INT_STS INTR_FLASH (fold (\<lambda>i. SETREG (BSP_INTR_WORD (4 * i)) 0xFFFFFFFF) [0..<NUM_BANKS_MAX div 4] s)"

subsection \<open>The wrapper functions\<close>

definition page_args_ok :: "nat \<Rightarrow> nat \<Rightarrow> nat \<Rightarrow> unit option" where
  "page_args_ok bank vblock page_num = do {
     ASSERT (bank < NUM_BANKS);
     ASSERT (vblock < VBLKS_PER_BANK);
     ASSERT (page_num < PAGES_PER_VBLK) }"

definition nand_page_read :: "flash_hw \<Rightarrow> nat \<Rightarrow> nat \<Rightarrow> nat \<Rightarrow> nat \<Rightarrow> fstate \<Rightarrow> fstate option" where
  "nand_page_read hw bank vblock page_num buf_addr s = do {
     page_args_ok bank vblock page_num;
     let row = vblock * PAGES_PER_VBLK + page_num;
     let s = set_fcp (\<lambda>f. set_rows bank row (f\<lparr>fcp_cmd := FC_COL_ROW_READ_OUT, fcp_option := FO_P + FO_E,
               fcp_dma_addr := buf_addr, fcp_dma_cnt := BYTES_PER_PAGE, fcp_col := 0\<rparr>)) s;
     Some (flash_issue_cmd hw bank RETURN_WHEN_DONE s) }"

definition nand_page_ptread ::
    "flash_hw \<Rightarrow> nat \<Rightarrow> nat \<Rightarrow> nat \<Rightarrow> nat \<Rightarrow> nat \<Rightarrow> nat \<Rightarrow> sync \<Rightarrow> fstate \<Rightarrow> fstate option" where
  "nand_page_ptread hw bank vblock page_num sect_offset num_sectors buf_addr issue_flag s = do {
     page_args_ok bank vblock page_num;
     let row = vblock * PAGES_PER_VBLK + page_num;
     let s = set_fcp (\<lambda>f. set_rows bank row (f\<lparr>fcp_cmd := FC_COL_ROW_READ_OUT, fcp_option := FO_P + FO_E,
               fcp_dma_addr := buf_addr, fcp_dma_cnt := num_sectors * BYTES_PER_SECTOR, fcp_col := sect_offset\<rparr>)) s;
     Some (flash_issue_cmd hw bank issue_flag s) }"

definition nand_page_ptread_to_host ::
    "flash_hw \<Rightarrow> buf_layout \<Rightarrow> nat \<Rightarrow> nat \<Rightarrow> nat \<Rightarrow> nat \<Rightarrow> nat \<Rightarrow> fstate \<Rightarrow> fstate option" where
  "nand_page_ptread_to_host hw lay bank vblock page_num sect_offset num_sectors s = do {
     page_args_ok bank vblock page_num;
     let row = vblock * PAGES_PER_VBLK + page_num;
     let s = set_fcp (\<lambda>f. set_rows bank row (f\<lparr>fcp_cmd := FC_COL_ROW_READ_OUT,
               fcp_dma_addr := RD_BUF_PTR lay (g_ftl_read_buf_id s), fcp_dma_cnt := num_sectors * BYTES_PER_SECTOR,
               fcp_col := sect_offset, fcp_option := FO_P + FO_E + FO_B_SATA_R\<rparr>)) s;
     let s = s\<lparr>g_ftl_read_buf_id := (g_ftl_read_buf_id s + 1) mod l_num_rd_buffers lay\<rparr>;
     let s = log (Wait_Rbuf (g_ftl_read_buf_id s)) s;
     Some (flash_issue_cmd hw bank RETURN_ON_ISSUE s) }"

definition nand_page_read_to_host ::
    "flash_hw \<Rightarrow> buf_layout \<Rightarrow> nat \<Rightarrow> nat \<Rightarrow> nat \<Rightarrow> fstate \<Rightarrow> fstate option" where
  "nand_page_read_to_host hw lay bank vblock page_num s = do {
     page_args_ok bank vblock page_num;
     let row = vblock * PAGES_PER_VBLK + page_num;
     let s = set_fcp (\<lambda>f. set_rows bank row (f\<lparr>fcp_cmd := FC_COL_ROW_READ_OUT,
               fcp_dma_addr := RD_BUF_PTR lay (g_ftl_read_buf_id s), fcp_dma_cnt := BYTES_PER_PAGE,
               fcp_col := 0, fcp_option := FO_P + FO_E + FO_B_SATA_R\<rparr>)) s;
     let s = s\<lparr>g_ftl_read_buf_id := (g_ftl_read_buf_id s + 1) mod l_num_rd_buffers lay\<rparr>;
     let s = log (Wait_Rbuf (g_ftl_read_buf_id s)) s;
     Some (flash_issue_cmd hw bank RETURN_ON_ISSUE s) }"

definition nand_page_program :: "flash_hw \<Rightarrow> nat \<Rightarrow> nat \<Rightarrow> nat \<Rightarrow> nat \<Rightarrow> fstate \<Rightarrow> fstate option" where
  "nand_page_program hw bank vblock page_num buf_addr s = do {
     page_args_ok bank vblock page_num;
     let row = vblock * PAGES_PER_VBLK + page_num;
     let s = set_fcp (\<lambda>f. set_rows bank row (f\<lparr>fcp_cmd := FC_COL_ROW_IN_PROG, fcp_option := FO_P + FO_E + FO_B_W_DRDY,
               fcp_dma_addr := buf_addr, fcp_dma_cnt := BYTES_PER_PAGE, fcp_col := 0\<rparr>)) s;
     Some (flash_issue_cmd hw bank RETURN_ON_ISSUE s) }"

definition nand_page_ptprogram ::
    "flash_hw \<Rightarrow> nat \<Rightarrow> nat \<Rightarrow> nat \<Rightarrow> nat \<Rightarrow> nat \<Rightarrow> nat \<Rightarrow> fstate \<Rightarrow> fstate option" where
  "nand_page_ptprogram hw bank vblock page_num sect_offset num_sectors buf_addr s = do {
     page_args_ok bank vblock page_num;
     let row = vblock * PAGES_PER_VBLK + page_num;
     let s = set_fcp (\<lambda>f. set_rows bank row (f\<lparr>fcp_cmd := FC_COL_ROW_IN_PROG, fcp_option := FO_P + FO_E + FO_B_W_DRDY,
               fcp_dma_addr := buf_addr, fcp_dma_cnt := num_sectors * BYTES_PER_SECTOR, fcp_col := sect_offset\<rparr>)) s;
     Some (flash_issue_cmd hw bank RETURN_ON_ISSUE s) }"

definition nand_page_program_from_host ::
    "flash_hw \<Rightarrow> buf_layout \<Rightarrow> nat \<Rightarrow> nat \<Rightarrow> nat \<Rightarrow> fstate \<Rightarrow> fstate option" where
  "nand_page_program_from_host hw lay bank vblock page_num s = do {
     page_args_ok bank vblock page_num;
     let row = vblock * PAGES_PER_VBLK + page_num;
     let s = set_fcp (\<lambda>f. set_rows bank row (f\<lparr>fcp_cmd := FC_COL_ROW_IN_PROG, fcp_option := FO_P + FO_E + FO_B_SATA_W,
               fcp_dma_addr := WR_BUF_PTR lay (g_ftl_write_buf_id s), fcp_dma_cnt := BYTES_PER_PAGE, fcp_col := 0\<rparr>)) s;
     let s = flash_issue_cmd hw bank RETURN_ON_ISSUE s;
     Some (s\<lparr>g_ftl_write_buf_id := (g_ftl_write_buf_id s + 1) mod l_num_wr_buffers lay\<rparr>) }"

definition nand_page_ptprogram_from_host ::
    "flash_hw \<Rightarrow> buf_layout \<Rightarrow> nat \<Rightarrow> nat \<Rightarrow> nat \<Rightarrow> nat \<Rightarrow> nat \<Rightarrow> fstate \<Rightarrow> fstate option" where
  "nand_page_ptprogram_from_host hw lay bank vblock page_num sect_offset num_sectors s = do {
     page_args_ok bank vblock page_num;
     let row = vblock * PAGES_PER_VBLK + page_num;
     let s = set_fcp (\<lambda>f. set_rows bank row (f\<lparr>fcp_cmd := FC_COL_ROW_IN_PROG, fcp_option := FO_P + FO_E + FO_B_SATA_W,
               fcp_dma_addr := WR_BUF_PTR lay (g_ftl_write_buf_id s), fcp_dma_cnt := num_sectors * BYTES_PER_SECTOR,
               fcp_col := sect_offset\<rparr>)) s;
     let s = flash_issue_cmd hw bank RETURN_ON_ISSUE s;
     Some (s\<lparr>g_ftl_write_buf_id := (g_ftl_write_buf_id s + 1) mod l_num_wr_buffers lay\<rparr>) }"

text \<open>
  For one die, two planes in two-plane mode, every \<open>#if\<close> that could clear \<open>do_copyback\<close> is off, so the
  internal copyback is used.
\<close>

definition nand_page_copyback ::
    "flash_hw \<Rightarrow> nat \<Rightarrow> nat \<Rightarrow> nat \<Rightarrow> nat \<Rightarrow> nat \<Rightarrow> fstate \<Rightarrow> fstate option" where
  "nand_page_copyback hw bank src_vblock src_page dst_vblock dst_page s = do {
     ASSERT (bank < NUM_BANKS);
     ASSERT (src_vblock < VBLKS_PER_BANK);
     ASSERT (dst_vblock < VBLKS_PER_BANK);
     ASSERT (src_page < PAGES_PER_VBLK);
     ASSERT (dst_page < PAGES_PER_VBLK);
     let src_row = src_vblock * PAGES_PER_VBLK + src_page;
     let dst_row = dst_vblock * PAGES_PER_VBLK + dst_page;
     let s = set_fcp (\<lambda>f. set_rows bank src_row (f\<lparr>fcp_cmd := FC_COPYBACK, fcp_option := FO_P + FO_E + FO_B_W_DRDY,
               fcp_col := 0\<rparr>)) s;
     let s = set_fcp (\<lambda>f. f\<lparr>fcp_dst_row_h := dst_row, fcp_dst_row_l := dst_row, fcp_dst_col := 0\<rparr>) s;
     Some (flash_issue_cmd hw bank RETURN_ON_ISSUE s) }"

text \<open>
  \<open>NAND_SPEC_MODIFY_COPY\<close> is not defined, which the preprocessor reads as \<open>FALSE\<close>: the copy goes through
  the copy buffer, in a read and a three-command program sequence.
\<close>

definition nand_page_modified_copyback ::
    "flash_hw \<Rightarrow> buf_layout \<Rightarrow> nat \<Rightarrow> nat \<Rightarrow> nat \<Rightarrow> nat \<Rightarrow> nat \<Rightarrow> nat \<Rightarrow> nat \<Rightarrow> nat \<Rightarrow> fstate \<Rightarrow> fstate option" where
  "nand_page_modified_copyback hw lay bank src_vblock src_page dst_vblock dst_page sect_offset dma_addr dma_count s = do {
     ASSERT (bank < NUM_BANKS);
     ASSERT (src_vblock < VBLKS_PER_BANK);
     ASSERT (dst_vblock < VBLKS_PER_BANK);
     ASSERT (src_page < PAGES_PER_VBLK);
     ASSERT (dst_page < PAGES_PER_VBLK);
     let src_row = src_vblock * PAGES_PER_VBLK + src_page;
     let dst_row = dst_vblock * PAGES_PER_VBLK + dst_page;
     let buf_addr = COPY_BUF lay bank;
     let s = set_fcp (\<lambda>f. set_rows bank src_row (f\<lparr>fcp_cmd := FC_COL_ROW_READ_OUT, fcp_option := FO_P + FO_E,
               fcp_dma_addr := buf_addr, fcp_dma_cnt := BYTES_PER_PAGE, fcp_col := 0\<rparr>)) s;
     let s = flash_issue_cmd hw bank RETURN_ON_ISSUE s;
     let s = set_fcp (\<lambda>f. set_rows bank dst_row (f\<lparr>fcp_cmd := FC_COL_ROW_IN, fcp_option := FO_P + FO_E + FO_B_W_DRDY,
               fcp_dma_cnt := sect_offset * BYTES_PER_SECTOR, fcp_col := 0\<rparr>)) s;
     let s = flash_issue_cmd hw bank RETURN_ON_ISSUE s;
     let s = set_fcp (\<lambda>f. f\<lparr>fcp_cmd := FC_IN, fcp_dma_addr := sub32 dma_addr (sect_offset * BYTES_PER_SECTOR),
               fcp_dma_cnt := dma_count, fcp_col := sect_offset\<rparr>) s;
     let s = flash_issue_cmd hw bank RETURN_ON_ISSUE s;
     let s = set_fcp (\<lambda>f. f\<lparr>fcp_cmd := FC_IN_PROG, fcp_dma_addr := buf_addr,
               fcp_dma_cnt := sub32 (sub32 BYTES_PER_PAGE (sect_offset * BYTES_PER_SECTOR)) dma_count,
               fcp_col := sect_offset + dma_count div BYTES_PER_SECTOR\<rparr>) s;
     Some (flash_issue_cmd hw bank RETURN_ON_ISSUE s) }"

definition nand_block_erase_with :: "sync \<Rightarrow> flash_hw \<Rightarrow> nat \<Rightarrow> nat \<Rightarrow> fstate \<Rightarrow> fstate option" where
  "nand_block_erase_with sync hw bank vblock s = do {
     ASSERT (bank < NUM_BANKS);
     ASSERT (vblock < VBLKS_PER_BANK);
     let s = set_fcp (\<lambda>f. set_rows bank (vblock * PAGES_PER_VBLK)
               (f\<lparr>fcp_cmd := FC_ERASE, fcp_bank := REAL_BANK bank, fcp_option := FO_P\<rparr>)) s;
     Some (flash_issue_cmd hw bank sync s) }"

definition nand_block_erase :: "flash_hw \<Rightarrow> nat \<Rightarrow> nat \<Rightarrow> fstate \<Rightarrow> fstate option" where
  "nand_block_erase = nand_block_erase_with RETURN_ON_ISSUE"

definition nand_block_erase_sync :: "flash_hw \<Rightarrow> nat \<Rightarrow> nat \<Rightarrow> fstate \<Rightarrow> fstate option" where
  "nand_block_erase_sync = nand_block_erase_with RETURN_WHEN_DONE"

subsection \<open>What flash.h documents of the controller\<close>

text \<open>
  Memory address = \<open>FCP_DMA_ADDR + FCP_COL * BYTES_PER_SECTOR\<close>: offset \<open>x\<close> of the page meets address
  \<open>FCP_DMA_ADDR + x\<close> of the DRAM, for the \<open>FCP_DMA_CNT\<close> bytes from sector \<open>FCP_COL\<close> on.
\<close>

definition dma_range :: "fcp_t \<Rightarrow> nat \<Rightarrow> bool" where
  "dma_range f x \<longleftrightarrow> fcp_col f * BYTES_PER_SECTOR \<le> x \<and> x < fcp_col f * BYTES_PER_SECTOR + fcp_dma_cnt f"

definition dma_mem :: "fcp_t \<Rightarrow> nat \<Rightarrow> nat" where
  "dma_mem f x = wrap32 (fcp_dma_addr f + x)"

definition blank :: "nand_state \<Rightarrow> nat \<Rightarrow> nat \<Rightarrow> bool" where
  "blank n rb row \<longleftrightarrow> (\<forall>x < BYTES_PER_PAGE. pages n rb row x = 0xFFFFFFFF)"

definition only_page :: "nat \<Rightarrow> nat \<Rightarrow> nand_state \<Rightarrow> nand_state \<Rightarrow> bool" where
  "only_page rb row n n' \<longleftrightarrow> (\<forall>b r. (b, r) \<noteq> (rb, row) \<longrightarrow> pages n' b r = pages n b r)"

text \<open>Reading into the DRAM; the content of a page is claimed in two-plane mode with ECC only.\<close>

definition read_law :: "fcp_t \<Rightarrow> nand_state \<Rightarrow> dram \<Rightarrow> nand_state \<Rightarrow> dram \<Rightarrow> bool" where
  "read_law f n d n' d' \<longleftrightarrow> fcp_cmd f \<in> {FC_COL_ROW_READ_OUT, FC_COL_OUT} \<longrightarrow>
     pages n' = pages n
     \<and> (\<forall>a < 4294967296. if dma_range f (sub32 a (fcp_dma_addr f))
          then fcp_option f mod 8 = FO_P + FO_E \<longrightarrow> d' a = pages n (fcp_bank f) (fcp_row_l f (fcp_bank f)) (sub32 a (fcp_dma_addr f))
          else d' a = d a)"

text \<open>
  Loading the page register, and programming a blank page. With \<open>FO_B_SATA_W\<close> the controller first
  waits for the host's data in the buffer, so the content of the page is claimed for \<open>FO_B_W_DRDY\<close> only.
\<close>

definition in_law :: "fcp_t \<Rightarrow> nand_state \<Rightarrow> dram \<Rightarrow> nand_state \<Rightarrow> dram \<Rightarrow> bool" where
  "in_law f n d n' d' \<longleftrightarrow> fcp_cmd f \<in> {FC_COL_ROW_IN, FC_IN} \<and> fcp_option f mod 8 = FO_P + FO_E \<longrightarrow>
     d' = d \<and> pages n' = pages n
     \<and> (\<forall>x. dma_range f x \<longrightarrow> preg n' (fcp_bank f) x = d (dma_mem f x))
     \<and> (fcp_cmd f = FC_IN \<longrightarrow> (\<forall>x. \<not> dma_range f x \<longrightarrow> preg n' (fcp_bank f) x = preg n (fcp_bank f) x))"

definition prog_law :: "fcp_t \<Rightarrow> nand_state \<Rightarrow> dram \<Rightarrow> nand_state \<Rightarrow> dram \<Rightarrow> bool" where
  "prog_law f n d n' d' \<longleftrightarrow> fcp_cmd f \<in> {FC_COL_ROW_IN_PROG, FC_IN_PROG} \<and> fcp_option f mod 8 = FO_P + FO_E
       \<and> blank n (fcp_bank f) (fcp_row_l f (fcp_bank f)) \<longrightarrow>
     only_page (fcp_bank f) (fcp_row_l f (fcp_bank f)) n n'
     \<and> (\<forall>a. a < fcp_dma_addr f \<or> fcp_dma_addr f + BYTES_PER_PAGE \<le> a \<longrightarrow> d' a = d a)
     \<and> (fcp_option f = FO_P + FO_E + FO_B_W_DRDY \<longrightarrow> d' = d
       \<and> (\<forall>x < BYTES_PER_PAGE. dma_range f x \<longrightarrow> pages n' (fcp_bank f) (fcp_row_l f (fcp_bank f)) x = d (dma_mem f x))
       \<and> (fcp_cmd f = FC_IN_PROG \<longrightarrow> (\<forall>x < BYTES_PER_PAGE. \<not> dma_range f x \<longrightarrow>
            pages n' (fcp_bank f) (fcp_row_l f (fcp_bank f)) x = preg n (fcp_bank f) x)))"

definition copy_law :: "buf_layout \<Rightarrow> fcp_t \<Rightarrow> nand_state \<Rightarrow> dram \<Rightarrow> nand_state \<Rightarrow> dram \<Rightarrow> bool" where
  "copy_law lay f n d n' d' \<longleftrightarrow> fcp_cmd f = FC_COPYBACK \<and> fcp_option f mod 8 = FO_P + FO_E
       \<and> fcp_dst_row_l f = fcp_dst_row_h f \<and> blank n (fcp_bank f) (fcp_dst_row_l f) \<longrightarrow>
     (\<forall>a. a < l_copy_buf_addr lay \<or> l_copy_buf_addr lay + NUM_BANKS_MAX * BYTES_PER_PAGE \<le> a \<longrightarrow> d' a = d a)
     \<and> only_page (fcp_bank f) (fcp_dst_row_l f) n n'
     \<and> (\<forall>x < BYTES_PER_PAGE. pages n' (fcp_bank f) (fcp_dst_row_l f) x = pages n (fcp_bank f) (fcp_row_l f (fcp_bank f)) x)"

definition erase_law :: "fcp_t \<Rightarrow> nand_state \<Rightarrow> dram \<Rightarrow> nand_state \<Rightarrow> dram \<Rightarrow> bool" where
  "erase_law f n d n' d' \<longleftrightarrow> fcp_cmd f = FC_ERASE \<and> fcp_option f = FO_P \<and> fcp_row_l f (fcp_bank f) mod PAGES_PER_VBLK = 0 \<longrightarrow>
     d' = d \<and> (\<forall>b r. if b = fcp_bank f \<and> r div PAGES_PER_VBLK * PAGES_PER_VBLK = fcp_row_l f (fcp_bank f)
       then blank n' b r else pages n' b r = pages n b r)"

definition flash_ok :: "buf_layout \<Rightarrow> flash_hw \<Rightarrow> bool" where
  "flash_ok lay hw \<longleftrightarrow> (\<forall>f n d n' d'. hw f (n, d) = (n', d') \<and> fcp_row_h f (fcp_bank f) = fcp_row_l f (fcp_bank f) \<longrightarrow>
     read_law f n d n' d' \<and> in_law f n d n' d' \<and> prog_law f n d n' d' \<and> copy_law lay f n d n' d' \<and> erase_law f n d n' d')"

text \<open>A controller that behaves so, for the witnesses.\<close>

definition set_page :: "nat \<Rightarrow> nat \<Rightarrow> (nat \<Rightarrow> u32) \<Rightarrow> nand_state \<Rightarrow> nand_state" where
  "set_page rb row p n = n\<lparr>pages := (pages n)(rb := (pages n rb)(row := p))\<rparr>"

definition hw_ref :: flash_hw where
  "hw_ref f s = (let n = fst s; d = snd s; rb = fcp_bank f; row = fcp_row_l f rb;
       merge = (\<lambda>old x. if dma_range f x then d (dma_mem f x) else old x) in
     if fcp_cmd f \<in> {FC_COL_ROW_READ_OUT, FC_COL_OUT}
     then (n, \<lambda>a. let x = sub32 a (fcp_dma_addr f) in if dma_range f x then pages n rb row x else d a)
     else if fcp_cmd f \<in> {FC_COL_ROW_IN, FC_IN} then (n\<lparr>preg := (preg n)(rb := merge (preg n rb))\<rparr>, d)
     else if fcp_cmd f = FC_COL_ROW_IN_PROG then (set_page rb row (merge (\<lambda>_. 0xFFFFFFFF)) n, d)
     else if fcp_cmd f = FC_IN_PROG then (set_page rb row (merge (preg n rb)) n, d)
     else if fcp_cmd f = FC_COPYBACK then (set_page rb (fcp_dst_row_l f) (pages n rb row) n, d)
     else if fcp_cmd f = FC_ERASE
     then (n\<lparr>pages := (pages n)(rb := \<lambda>r. if r div PAGES_PER_VBLK * PAGES_PER_VBLK = row then (\<lambda>_. 0xFFFFFFFF) else pages n rb r)\<rparr>, d)
     else (n, d))"

lemma hw_ref_ok: "flash_ok lay hw_ref"
proof (unfold flash_ok_def, intro allI impI)
  fix f n d n' d'
  assume "hw_ref f (n, d) = (n', d') \<and> fcp_row_h f (fcp_bank f) = fcp_row_l f (fcp_bank f)"
  then have h: "n' = fst (hw_ref f (n, d))" "d' = snd (hw_ref f (n, d))" by simp_all
  note defs = h hw_ref_def Let_def fc_codes only_page_def blank_def set_page_def
  have "read_law f n d n' d'" by (simp add: read_law_def defs)
  moreover have "in_law f n d n' d'" by (auto simp: in_law_def defs)
  moreover have "prog_law f n d n' d'" by (auto simp: prog_law_def defs)
  moreover have "copy_law lay f n d n' d'" by (auto simp: copy_law_def defs)
  moreover have "erase_law f n d n' d'" by (auto simp: erase_law_def defs)
  ultimately show "read_law f n d n' d' \<and> in_law f n d n' d' \<and> prog_law f n d n' d' \<and> copy_law lay f n d n' d' \<and> erase_law f n d n' d'"
    by blast
qed

subsection \<open>Issued commands\<close>

lemma set_rows_simps [simp]:
  "fcp_row_l (set_rows b r f) = (fcp_row_l f)(REAL_BANK b := r)" "fcp_row_h (set_rows b r f) = (fcp_row_h f)(REAL_BANK b := r)"
  "fcp_cmd (set_rows b r f) = fcp_cmd f" "fcp_bank (set_rows b r f) = fcp_bank f" "fcp_option (set_rows b r f) = fcp_option f"
  "fcp_dma_addr (set_rows b r f) = fcp_dma_addr f" "fcp_dma_cnt (set_rows b r f) = fcp_dma_cnt f" "fcp_col (set_rows b r f) = fcp_col f"
  "fcp_dst_row_l (set_rows b r f) = fcp_dst_row_l f" "fcp_dst_row_h (set_rows b r f) = fcp_dst_row_h f"
  by (simp_all add: set_rows_def)

definition sync_events :: "sync \<Rightarrow> nat \<Rightarrow> flash_event list" where
  "sync_events sync rb = (case sync of RETURN_ON_ISSUE \<Rightarrow> [] | RETURN_ON_ACCEPT \<Rightarrow> [Wait_Room]
     | RETURN_WHEN_DONE \<Rightarrow> [Wait_Room, Wait_Bank rb])"

lemma flash_issue_cmd_fields:
  fixes s b
  defines "f \<equiv> (fcp s)\<lparr>fcp_bank := REAL_BANK b\<rparr>"
  shows "nand (flash_issue_cmd hw b sync s) = fst (hw f (nand s, dram s))"
    "dram (flash_issue_cmd hw b sync s) = snd (hw f (nand s, dram s))"
    "fcp (flash_issue_cmd hw b sync s) = f"
    "trace (flash_issue_cmd hw b sync s) = trace s @ [Wait_Room, Issue f] @ sync_events sync (REAL_BANK b)"
    "g_ftl_read_buf_id (flash_issue_cmd hw b sync s) = g_ftl_read_buf_id s"
    "g_ftl_write_buf_id (flash_issue_cmd hw b sync s) = g_ftl_write_buf_id s"
  by (cases sync; simp add: flash_issue_cmd_def fcp_issue_def set_fcp_def log_def Let_def f_def sync_events_def split_beta)+

lemma flash_okD:
  assumes "flash_ok lay hw" and "fcp_row_h f (fcp_bank f) = fcp_row_l f (fcp_bank f)"
  shows "read_law f n d (fst (hw f (n, d))) (snd (hw f (n, d)))" "in_law f n d (fst (hw f (n, d))) (snd (hw f (n, d)))"
    "prog_law f n d (fst (hw f (n, d))) (snd (hw f (n, d)))" "copy_law lay f n d (fst (hw f (n, d))) (snd (hw f (n, d)))"
    "erase_law f n d (fst (hw f (n, d))) (snd (hw f (n, d)))"
  using assms by (auto simp: flash_ok_def)

text \<open>An aligned buffer of one page at \<open>a\<close>, inside the 32-bit address space.\<close>

definition buf_ok :: "nat \<Rightarrow> bool" where
  "buf_ok a \<longleftrightarrow> a + BYTES_PER_PAGE \<le> 4294967296"

lemma sub32_buf: "buf_ok a \<Longrightarrow> x < BYTES_PER_PAGE \<Longrightarrow> sub32 (a + x) a = x \<and> wrap32 (a + x) = a + x \<and> a + x < 4294967296"
  by (simp add: buf_ok_def wrap_simps)

lemma sub32_outside:
  assumes "buf_ok a" and "b < 4294967296" and "b < a + lo \<or> a + hi \<le> b" and "hi \<le> BYTES_PER_PAGE"
  shows "\<not> (lo \<le> sub32 b a \<and> sub32 b a < hi)"
proof (cases "a \<le> b")
  case True
  with assms show ?thesis by (simp add: sub32_id) linarith
next
  case False
  have "a \<le> 4294967296" using assms(1) by (simp add: buf_ok_def)
  then have "sub32 b a = b + 4294967296 - a" using False by (simp add: sub32_def)
  moreover have "hi \<le> 4294967296 - a" using assms(1,4) by (simp add: buf_ok_def)
  ultimately show ?thesis using False by linarith
qed

text \<open>The effect of issuing a read, a program and the loads of the page register.\<close>

definition fcp_sel :: "nat \<Rightarrow> nat \<Rightarrow> nat \<Rightarrow> nat \<Rightarrow> nat \<Rightarrow> fcp_t \<Rightarrow> bool" where
  "fcp_sel b row a col len f \<longleftrightarrow> fcp_option f mod 8 = FO_P + FO_E \<and> fcp_row_l f (REAL_BANK b) = row \<and> fcp_row_h f (REAL_BANK b) = row
     \<and> fcp_dma_addr f = a \<and> fcp_col f = col \<and> fcp_dma_cnt f = len \<and> col * BYTES_PER_SECTOR + len \<le> BYTES_PER_PAGE"

lemma issue_read:
  assumes "flash_ok lay hw" and "fcp_cmd (fcp s) \<in> {FC_COL_ROW_READ_OUT, FC_COL_OUT}"
    and sel: "fcp_sel b row a col len (fcp s)" and "buf_ok a"
  shows "pages (nand (flash_issue_cmd hw b sync s)) = pages (nand s)"
    "\<And>x. col * 512 \<le> x \<Longrightarrow> x < col * 512 + len \<Longrightarrow> dram (flash_issue_cmd hw b sync s) (a + x) = pages (nand s) (REAL_BANK b) row x"
    "\<And>y. y < 4294967296 \<Longrightarrow> y < a + col * 512 \<or> a + (col * 512 + len) \<le> y \<Longrightarrow> dram (flash_issue_cmd hw b sync s) y = dram s y"
proof -
  define f where "f = (fcp s)\<lparr>fcp_bank := REAL_BANK b\<rparr>"
  define s' where "s' = flash_issue_cmd hw b sync s"
  have "read_law f (nand s) (dram s) (nand s') (dram s')"
    unfolding s'_def flash_issue_cmd_fields f_def using sel by (simp add: flash_okD [OF assms(1)] fcp_sel_def)
  then have r: "pages (nand s') = pages (nand s)"
    "\<And>y. y < 4294967296 \<Longrightarrow> dram s' y = (if col * 512 \<le> sub32 y a \<and> sub32 y a < col * 512 + len
       then pages (nand s) (REAL_BANK b) row (sub32 y a) else dram s y)"
    using assms(2) sel by (auto simp: read_law_def f_def dma_range_def fcp_sel_def geom)
  have le: "col * 512 + len \<le> BYTES_PER_PAGE" using sel by (simp add: fcp_sel_def geom)
  show "pages (nand (flash_issue_cmd hw b sync s)) = pages (nand s)" using r(1) by (simp add: s'_def)
  show "dram (flash_issue_cmd hw b sync s) (a + x) = pages (nand s) (REAL_BANK b) row x"
    if "col * 512 \<le> x" "x < col * 512 + len" for x
    using r(2) [of "a + x"] sub32_buf [OF assms(4), of x] le that by (simp add: s'_def)
  show "dram (flash_issue_cmd hw b sync s) y = dram s y" if "y < 4294967296" "y < a + col * 512 \<or> a + (col * 512 + len) \<le> y" for y
    using r(2) [of y] sub32_outside [OF assms(4) that le] that(1) by (auto simp: s'_def)
qed

lemma issue_prog:
  assumes "flash_ok lay hw" and "fcp_cmd (fcp s) \<in> {FC_COL_ROW_IN_PROG, FC_IN_PROG}"
    and sel: "fcp_sel b row a col len (fcp s)" and "buf_ok a" and "blank (nand s) (REAL_BANK b) row"
    and opt: "fcp_option (fcp s) = FO_P + FO_E + FO_B_W_DRDY"
  shows "dram (flash_issue_cmd hw b sync s) = dram s"
    "only_page (REAL_BANK b) row (nand s) (nand (flash_issue_cmd hw b sync s))"
    "\<And>x. col * 512 \<le> x \<Longrightarrow> x < col * 512 + len \<Longrightarrow> pages (nand (flash_issue_cmd hw b sync s)) (REAL_BANK b) row x = dram s (a + x)"
    "\<And>x. fcp_cmd (fcp s) = FC_IN_PROG \<Longrightarrow> x < BYTES_PER_PAGE \<Longrightarrow> x < col * 512 \<or> col * 512 + len \<le> x
       \<Longrightarrow> pages (nand (flash_issue_cmd hw b sync s)) (REAL_BANK b) row x = preg (nand s) (REAL_BANK b) x"
proof -
  define f where "f = (fcp s)\<lparr>fcp_bank := REAL_BANK b\<rparr>"
  define s' where "s' = flash_issue_cmd hw b sync s"
  have "prog_law f (nand s) (dram s) (nand s') (dram s')"
    unfolding s'_def flash_issue_cmd_fields f_def using sel by (simp add: flash_okD [OF assms(1)] fcp_sel_def)
  then have r: "dram s' = dram s" "only_page (REAL_BANK b) row (nand s) (nand s')"
    "\<And>x. x < BYTES_PER_PAGE \<Longrightarrow> dma_range f x \<Longrightarrow> pages (nand s') (REAL_BANK b) row x = dram s (dma_mem f x)"
    "fcp_cmd f = FC_IN_PROG \<Longrightarrow> x < BYTES_PER_PAGE \<Longrightarrow> \<not> dma_range f x \<Longrightarrow> pages (nand s') (REAL_BANK b) row x = preg (nand s) (REAL_BANK b) x" for x
    using assms(2,5) sel opt by (auto simp: prog_law_def f_def fcp_sel_def)
  have le: "col * 512 + len \<le> BYTES_PER_PAGE" using sel by (simp add: fcp_sel_def geom)
  show "dram (flash_issue_cmd hw b sync s) = dram s" "only_page (REAL_BANK b) row (nand s) (nand (flash_issue_cmd hw b sync s))"
    using r(1,2) by (simp_all add: s'_def)
  show "pages (nand (flash_issue_cmd hw b sync s)) (REAL_BANK b) row x = dram s (a + x)"
    if "col * 512 \<le> x" "x < col * 512 + len" for x
    using r(3) [of x] sub32_buf [OF assms(4), of x] le that sel by (simp add: s'_def f_def dma_range_def dma_mem_def fcp_sel_def geom)
  show "pages (nand (flash_issue_cmd hw b sync s)) (REAL_BANK b) row x = preg (nand s) (REAL_BANK b) x"
    if "fcp_cmd (fcp s) = FC_IN_PROG" "x < BYTES_PER_PAGE" "x < col * 512 \<or> col * 512 + len \<le> x" for x
    using r(4) [of x] that sel by (auto simp: s'_def f_def dma_range_def fcp_sel_def geom)
qed

lemma issue_in:
  assumes "flash_ok lay hw" and "fcp_cmd (fcp s) \<in> {FC_COL_ROW_IN, FC_IN}"
    and sel: "fcp_sel b row a col len (fcp s)" and "buf_ok a"
  shows "dram (flash_issue_cmd hw b sync s) = dram s" "pages (nand (flash_issue_cmd hw b sync s)) = pages (nand s)"
    "\<And>x. col * 512 \<le> x \<Longrightarrow> x < col * 512 + len \<Longrightarrow> preg (nand (flash_issue_cmd hw b sync s)) (REAL_BANK b) x = dram s (a + x)"
    "\<And>x. fcp_cmd (fcp s) = FC_IN \<Longrightarrow> x < col * 512 \<or> col * 512 + len \<le> x
       \<Longrightarrow> preg (nand (flash_issue_cmd hw b sync s)) (REAL_BANK b) x = preg (nand s) (REAL_BANK b) x"
proof -
  define f where "f = (fcp s)\<lparr>fcp_bank := REAL_BANK b\<rparr>"
  define s' where "s' = flash_issue_cmd hw b sync s"
  have "in_law f (nand s) (dram s) (nand s') (dram s')"
    unfolding s'_def flash_issue_cmd_fields f_def using sel by (simp add: flash_okD [OF assms(1)] fcp_sel_def)
  then have r: "dram s' = dram s" "pages (nand s') = pages (nand s)"
    "\<And>x. dma_range f x \<Longrightarrow> preg (nand s') (REAL_BANK b) x = dram s (dma_mem f x)"
    "fcp_cmd f = FC_IN \<Longrightarrow> \<not> dma_range f x \<Longrightarrow> preg (nand s') (REAL_BANK b) x = preg (nand s) (REAL_BANK b) x" for x
    using assms(2) sel by (auto simp: in_law_def f_def fcp_sel_def)
  have le: "col * 512 + len \<le> BYTES_PER_PAGE" using sel by (simp add: fcp_sel_def geom)
  show "dram (flash_issue_cmd hw b sync s) = dram s" "pages (nand (flash_issue_cmd hw b sync s)) = pages (nand s)"
    using r(1,2) by (simp_all add: s'_def)
  show "preg (nand (flash_issue_cmd hw b sync s)) (REAL_BANK b) x = dram s (a + x)"
    if "col * 512 \<le> x" "x < col * 512 + len" for x
    using r(3) [of x] sub32_buf [OF assms(4), of x] le that sel by (simp add: s'_def f_def dma_range_def dma_mem_def fcp_sel_def geom)
  show "preg (nand (flash_issue_cmd hw b sync s)) (REAL_BANK b) x = preg (nand s) (REAL_BANK b) x"
    if "fcp_cmd (fcp s) = FC_IN" "x < col * 512 \<or> col * 512 + len \<le> x" for x
    using r(4) [of x] that sel by (auto simp: s'_def f_def dma_range_def fcp_sel_def geom)
qed

lemma blank_same: "pages n' = pages n \<Longrightarrow> blank n' rb row = blank n rb row"
  by (simp add: blank_def)

lemma only_page_same: "pages n1 = pages n \<Longrightarrow> only_page rb row n1 n' = only_page rb row n n'"
    "pages n1 = pages n' \<Longrightarrow> only_page rb row n n1 = only_page rb row n n'"
  by (simp_all add: only_page_def)

text \<open>
  A partial page program followed by a partial read of the same sectors of the page is the
  identity on the buffers: at every offset of the transferred sectors the reader's buffer holds what
  the writer's buffer held, and the rest of the DRAM and of the flash is as it was.
\<close>

theorem ptprogram_ptread_roundtrip:
  assumes "flash_ok lay hw" and "bank < NUM_BANKS" and "vblock < VBLKS_PER_BANK" and "page_num < PAGES_PER_VBLK"
    and "off + n \<le> SECTORS_PER_PAGE" and "buf_ok src" and "buf_ok dst"
    and "blank (nand s) (REAL_BANK bank) (vblock * PAGES_PER_VBLK + page_num)"
  shows "\<exists>s1 s2. nand_page_ptprogram hw bank vblock page_num off n src s = Some s1
    \<and> nand_page_ptread hw bank vblock page_num off n dst sync s1 = Some s2
    \<and> (\<forall>x. off * 512 \<le> x \<and> x < off * 512 + n * 512 \<longrightarrow> dram s2 (dst + x) = dram s (src + x))
    \<and> (\<forall>a < 4294967296. a < dst + off * 512 \<or> dst + (off * 512 + n * 512) \<le> a \<longrightarrow> dram s2 a = dram s a)
    \<and> only_page (REAL_BANK bank) (vblock * PAGES_PER_VBLK + page_num) (nand s) (nand s2)"
proof -
  let ?row = "vblock * PAGES_PER_VBLK + page_num"
  define t where "t = s\<lparr>fcp := set_rows bank ?row ((fcp s)\<lparr>fcp_cmd := FC_COL_ROW_IN_PROG, fcp_option := FO_P + FO_E + FO_B_W_DRDY,
     fcp_dma_addr := src, fcp_dma_cnt := n * BYTES_PER_SECTOR, fcp_col := off\<rparr>)\<rparr>"
  define s1 where "s1 = flash_issue_cmd hw bank RETURN_ON_ISSUE t"
  define u where "u = s1\<lparr>fcp := set_rows bank ?row ((fcp s1)\<lparr>fcp_cmd := FC_COL_ROW_READ_OUT, fcp_option := FO_P + FO_E,
     fcp_dma_addr := dst, fcp_dma_cnt := n * BYTES_PER_SECTOR, fcp_col := off\<rparr>)\<rparr>"
  define s2 where "s2 = flash_issue_cmd hw bank sync u"
  have run: "nand_page_ptprogram hw bank vblock page_num off n src s = Some s1"
    "nand_page_ptread hw bank vblock page_num off n dst sync s1 = Some s2"
    using assms(2-4) by (simp_all add: nand_page_ptprogram_def nand_page_ptread_def page_args_ok_def s1_def s2_def t_def u_def set_fcp_def)
  have sel: "fcp_sel bank ?row src off (n * 512) (fcp t)" "fcp_sel bank ?row dst off (n * 512) (fcp u)"
    using assms(5) by (simp_all add: fcp_sel_def t_def u_def fo_flags geom)
  have cmd: "fcp_cmd (fcp t) \<in> {FC_COL_ROW_IN_PROG, FC_IN_PROG}" "fcp_cmd (fcp u) \<in> {FC_COL_ROW_READ_OUT, FC_COL_OUT}"
    by (simp_all add: t_def u_def)
  have opt: "fcp_option (fcp t) = FO_P + FO_E + FO_B_W_DRDY" by (simp add: t_def)
  have fld: "dram t = dram s" "nand t = nand s" "dram u = dram s1" "nand u = nand s1" by (simp_all add: t_def u_def)
  note p = issue_prog [OF assms(1) cmd(1) sel(1) assms(6), unfolded fld, OF assms(8) opt, where sync = RETURN_ON_ISSUE, folded s1_def]
  note r = issue_read [OF assms(1) cmd(2) sel(2) assms(7), where sync = sync, folded s2_def, unfolded fld]
  have "only_page (REAL_BANK bank) ?row (nand s) (nand s2)" using p(2) only_page_same(2) [OF r(1)] by blast
  moreover have "dram s2 (dst + x) = dram s (src + x)" if "off * 512 \<le> x" "x < off * 512 + n * 512" for x
    using r(2) [OF that] p(3) [OF that] by simp
  moreover have "dram s2 y = dram s y" if "y < 4294967296" "y < dst + off * 512 \<or> dst + (off * 512 + n * 512) \<le> y" for y
    using r(3) [OF that] p(1) by simp
  ultimately show ?thesis using run by blast
qed

definition nand0 :: nand_state where
  "nand0 = \<lparr>pages = (\<lambda>_ _ _. 0xFFFFFFFF), preg = (\<lambda>_ _. 0)\<rparr>"

definition fcp0 :: fcp_t where
  "fcp0 = \<lparr>fcp_cmd = 0, fcp_bank = 0, fcp_option = 0, fcp_dma_addr = 0, fcp_dma_cnt = 0, fcp_col = 0, fcp_row_l = (\<lambda>_. 0),
     fcp_row_h = (\<lambda>_. 0), fcp_dst_col = 0, fcp_dst_row_l = 0, fcp_dst_row_h = 0\<rparr>"

definition fstate0 :: fstate where
  "fstate0 = \<lparr>fcp = fcp0, nand = nand0, dram = (\<lambda>a. of_nat a), trace = [], g_ftl_read_buf_id = 0, g_ftl_write_buf_id = 0\<rparr>"

lemma fstate0_blank: "blank (nand fstate0) rb row"
  by (simp add: blank_def fstate0_def nand0_def)

definition demo_layout :: buf_layout where
  "demo_layout = \<lparr>l_rd_buf_addr = DRAM_BASE, l_num_rd_buffers = 8, l_wr_buf_addr = DRAM_BASE + 262144, l_num_wr_buffers = 8,
     l_copy_buf_addr = DRAM_BASE + 524288\<rparr>"

theorem ptprogram_ptread_roundtrip_witness:
  "\<exists>s1 s2. nand_page_ptprogram hw_ref 3 7 5 2 4 DRAM_BASE fstate0 = Some s1
    \<and> nand_page_ptread hw_ref 3 7 5 2 4 (DRAM_BASE + 65536) RETURN_WHEN_DONE s1 = Some s2
    \<and> dram s2 (DRAM_BASE + 65536 + 1028) = dram fstate0 (DRAM_BASE + 1028)"
proof -
  have "blank (nand fstate0) (REAL_BANK 3) (7 * PAGES_PER_VBLK + 5)" by (rule fstate0_blank)
  then obtain s1 s2 where "nand_page_ptprogram hw_ref 3 7 5 2 4 DRAM_BASE fstate0 = Some s1"
    "nand_page_ptread hw_ref 3 7 5 2 4 (DRAM_BASE + 65536) RETURN_WHEN_DONE s1 = Some s2"
    and "\<forall>x. 2 * 512 \<le> x \<and> x < 2 * 512 + 4 * 512 \<longrightarrow> dram s2 (DRAM_BASE + 65536 + x) = dram fstate0 (DRAM_BASE + x)"
    using ptprogram_ptread_roundtrip [OF hw_ref_ok [of demo_layout], of 3 7 5 2 4 DRAM_BASE "DRAM_BASE + 65536" fstate0 RETURN_WHEN_DONE]
    by (auto simp: geom buf_ok_def)
  moreover from this(3) have "dram s2 (DRAM_BASE + 65536 + 1028) = dram fstate0 (DRAM_BASE + 1028)"
    by (auto dest: spec [of _ 1028])
  ultimately show ?thesis by blast
qed

subsection \<open>Copyback\<close>



lemma copyback_effect:
  assumes "flash_ok lay hw" and "bank < NUM_BANKS" and "sv < VBLKS_PER_BANK" and "sp < PAGES_PER_VBLK"
    and "dv < VBLKS_PER_BANK" and "dp < PAGES_PER_VBLK"
    and "blank (nand s) (REAL_BANK bank) (dv * PAGES_PER_VBLK + dp)"
  shows "\<exists>s'. nand_page_copyback hw bank sv sp dv dp s = Some s'
      \<and> only_page (REAL_BANK bank) (dv * PAGES_PER_VBLK + dp) (nand s) (nand s')
      \<and> (\<forall>x < BYTES_PER_PAGE. pages (nand s') (REAL_BANK bank) (dv * PAGES_PER_VBLK + dp) x
           = pages (nand s) (REAL_BANK bank) (sv * PAGES_PER_VBLK + sp) x)
      \<and> (\<forall>a. a < l_copy_buf_addr lay \<or> l_copy_buf_addr lay + NUM_BANKS_MAX * BYTES_PER_PAGE \<le> a \<longrightarrow> dram s' a = dram s a)
      \<and> g_ftl_read_buf_id s' = g_ftl_read_buf_id s \<and> g_ftl_write_buf_id s' = g_ftl_write_buf_id s"
proof -
  let ?rb = "REAL_BANK bank"
  define f where "f = (set_rows bank (sv * PAGES_PER_VBLK + sp) ((fcp s)\<lparr>fcp_cmd := FC_COPYBACK,
     fcp_option := FO_P + FO_E + FO_B_W_DRDY, fcp_col := 0\<rparr>))\<lparr>fcp_dst_row_h := dv * PAGES_PER_VBLK + dp,
     fcp_dst_row_l := dv * PAGES_PER_VBLK + dp, fcp_dst_col := 0\<rparr>"
  have run: "nand_page_copyback hw bank sv sp dv dp s = Some (flash_issue_cmd hw bank RETURN_ON_ISSUE (s\<lparr>fcp := f\<rparr>))"
    using assms(2-6) by (simp add: nand_page_copyback_def f_def set_fcp_def Let_def)
  have "copy_law lay (f\<lparr>fcp_bank := ?rb\<rparr>) (nand s) (dram s) (fst (hw (f\<lparr>fcp_bank := ?rb\<rparr>) (nand s, dram s)))
      (snd (hw (f\<lparr>fcp_bank := ?rb\<rparr>) (nand s, dram s)))"
    by (rule flash_okD [OF assms(1)]) (simp add: f_def)
  with run assms(7) show ?thesis
    by (simp add: flash_issue_cmd_fields copy_law_def f_def fc_codes fo_flags)
qed

lemma erase_effect:
  assumes "flash_ok lay hw" and "bank < NUM_BANKS" and "v < VBLKS_PER_BANK"
  shows "\<exists>s'. nand_block_erase hw bank v s = Some s' \<and> dram s' = dram s
      \<and> (\<forall>b r. if b = REAL_BANK bank \<and> r div PAGES_PER_VBLK = v then blank (nand s') b r
           else pages (nand s') b r = pages (nand s) b r)
      \<and> g_ftl_read_buf_id s' = g_ftl_read_buf_id s \<and> g_ftl_write_buf_id s' = g_ftl_write_buf_id s"
proof -
  let ?rb = "REAL_BANK bank"
  define e where "e = set_rows bank (v * PAGES_PER_VBLK) ((fcp s)\<lparr>fcp_cmd := FC_ERASE, fcp_bank := ?rb, fcp_option := FO_P\<rparr>)"
  have run: "nand_block_erase hw bank v s = Some (flash_issue_cmd hw bank RETURN_ON_ISSUE (s\<lparr>fcp := e\<rparr>))"
    using assms(2,3) by (simp add: nand_block_erase_def nand_block_erase_with_def e_def set_fcp_def Let_def)
  have "erase_law (e\<lparr>fcp_bank := ?rb\<rparr>) (nand s) (dram s) (fst (hw (e\<lparr>fcp_bank := ?rb\<rparr>) (nand s, dram s)))
      (snd (hw (e\<lparr>fcp_bank := ?rb\<rparr>) (nand s, dram s)))"
    by (rule flash_okD [OF assms(1)]) (simp add: e_def)
  with run show ?thesis
    by (simp add: flash_issue_cmd_fields erase_law_def e_def fc_codes fo_flags geom)
qed

text \<open>
  \<open>nand_page_copyback\<close> copies a page inside a bank to a blank page, and \<open>nand_block_erase\<close> blanks
  exactly the pages of one virtual block; neither changes a word of the DRAM outside the copy buffers.
\<close>

theorem copyback_and_erase:
  assumes "flash_ok lay hw" and "bank < NUM_BANKS" and "sv < VBLKS_PER_BANK" and "sp < PAGES_PER_VBLK"
    and "dv < VBLKS_PER_BANK" and "dp < PAGES_PER_VBLK"
    and "blank (nand s) (REAL_BANK bank) (dv * PAGES_PER_VBLK + dp)"
  shows "(\<exists>s'. nand_page_copyback hw bank sv sp dv dp s = Some s'
      \<and> only_page (REAL_BANK bank) (dv * PAGES_PER_VBLK + dp) (nand s) (nand s')
      \<and> (\<forall>x < BYTES_PER_PAGE. pages (nand s') (REAL_BANK bank) (dv * PAGES_PER_VBLK + dp) x
           = pages (nand s) (REAL_BANK bank) (sv * PAGES_PER_VBLK + sp) x)
      \<and> (\<forall>a. a < l_copy_buf_addr lay \<or> l_copy_buf_addr lay + NUM_BANKS_MAX * BYTES_PER_PAGE \<le> a \<longrightarrow> dram s' a = dram s a))
    \<and> (\<exists>s'. nand_block_erase hw bank sv s = Some s' \<and> dram s' = dram s
      \<and> (\<forall>b r. if b = REAL_BANK bank \<and> r div PAGES_PER_VBLK = sv then blank (nand s') b r
           else pages (nand s') b r = pages (nand s) b r))"
proof
  show "\<exists>s'. nand_page_copyback hw bank sv sp dv dp s = Some s'
      \<and> only_page (REAL_BANK bank) (dv * PAGES_PER_VBLK + dp) (nand s) (nand s')
      \<and> (\<forall>x < BYTES_PER_PAGE. pages (nand s') (REAL_BANK bank) (dv * PAGES_PER_VBLK + dp) x
           = pages (nand s) (REAL_BANK bank) (sv * PAGES_PER_VBLK + sp) x)
      \<and> (\<forall>a. a < l_copy_buf_addr lay \<or> l_copy_buf_addr lay + NUM_BANKS_MAX * BYTES_PER_PAGE \<le> a \<longrightarrow> dram s' a = dram s a)"
    using copyback_effect [OF assms] by (elim exE conjE) (intro exI conjI; assumption)
  show "\<exists>s'. nand_block_erase hw bank sv s = Some s' \<and> dram s' = dram s
      \<and> (\<forall>b r. if b = REAL_BANK bank \<and> r div PAGES_PER_VBLK = sv then blank (nand s') b r
           else pages (nand s') b r = pages (nand s) b r)"
    using erase_effect [OF assms(1-3), of s] by (elim exE conjE) (intro exI conjI; assumption)
qed

theorem copyback_and_erase_witness:
  "\<exists>s'. nand_block_erase hw_ref 2 5 fstate0 = Some s' \<and> dram s' = dram fstate0"
proof -
  have bl: "blank (nand fstate0) (REAL_BANK 2) (6 * PAGES_PER_VBLK + 1)" by (rule fstate0_blank)
  show ?thesis
    using copyback_and_erase [OF hw_ref_ok [of demo_layout] _ _ _ _ _ bl, of 5 0, THEN conjunct2] by (simp add: geom) blast
qed

subsection \<open>Reset of the controller\<close>

text \<open>
  The timing of \<open>target.h\<close> at \<open>CLOCK_SPEED\<close> 175 MHz for \<open>NAND_SPEC_SLOW\<close> flash: 30 ns per flash cycle,
  split in a setup time counted in half clock cycles and a hold time in clock cycles.
\<close>

definition CLOCK_SPEED :: nat where "CLOCK_SPEED = 175000000"
definition PS_PER_FLASH_CYCLE :: nat where "PS_PER_FLASH_CYCLE = 30000"
definition PS_PER_CLOCK_CYCLE :: nat where "PS_PER_CLOCK_CYCLE = 1000000 div (CLOCK_SPEED div 1000000)"
definition PS_PER_HALF_CYCLE :: nat where "PS_PER_HALF_CYCLE = PS_PER_CLOCK_CYCLE div 2"

definition CYCLE_PER_HOLD :: nat where
  "CYCLE_PER_HOLD = (if 12000 \<le> PS_PER_CLOCK_CYCLE then 1 else 2)"

definition PS_PER_HOLD :: nat where
  "PS_PER_HOLD = PS_PER_CLOCK_CYCLE * CYCLE_PER_HOLD"

definition PS_PER_SETUP :: nat where
  "PS_PER_SETUP = (if PS_PER_FLASH_CYCLE < PS_PER_HOLD then PS_PER_CLOCK_CYCLE else PS_PER_FLASH_CYCLE - PS_PER_HOLD)"

definition HALF_CYCLE_PER_SETUP :: nat where
  "HALF_CYCLE_PER_SETUP = (let h = (PS_PER_SETUP + PS_PER_HALF_CYCLE - 1) div PS_PER_HALF_CYCLE in
     if h = 1 then 2 else if h = 3 then 4 else h)"

definition FLASH_PARAM_SETUP :: nat where
  "FLASH_PARAM_SETUP = HALF_CYCLE_PER_SETUP - 2"

text \<open>The fields of \<open>FCONF_TIMECYCLE\<close> and \<open>FCONF_NANDCFG_2\<close>; they are disjoint, so \<open>|\<close> is \<open>+\<close>.\<close>

definition flash_timecycle :: "nat \<Rightarrow> nat \<Rightarrow> nat \<Rightarrow> nat" where
  "flash_timecycle setup hold read_cycle = setup + hold * 2 ^ 4 + 1 * 2 ^ 7 + 15 * 2 ^ 8 + 31 * 2 ^ 12 + 31 * 2 ^ 17 + 1 * 2 ^ 22
     + 1 * 2 ^ 23 + read_cycle * 2 ^ 24 + read_cycle * 2 ^ 26 + read_cycle * 2 ^ 28 + read_cycle * 2 ^ 30"

definition FLASH_PARAM_TIMECYCLE_SAFE :: nat where
  "FLASH_PARAM_TIMECYCLE_SAFE = flash_timecycle 15 7 1"

definition nand_cfg_2 :: "nat \<Rightarrow> nat" where
  "nand_cfg_2 ecc_size = 1 + (SECTORS_PER_PHYPAGE div 2 ^ 3) * 2 ^ 8 + (PAGES_PER_VBLK div 2 ^ 7) * 2 ^ 10 + ecc_size * 2 ^ 12
     + 0 * 2 ^ 14 + 0xC0 * 2 ^ 16 + 0xC1 * 2 ^ 24"

definition time_param :: nat where
  "time_param = flash_timecycle FLASH_PARAM_SETUP (CYCLE_PER_HOLD - 1) (if 165000000 < CLOCK_SPEED then 2 else 1)"

definition flash_reset :: "flash_hw \<Rightarrow> buf_layout \<Rightarrow> fstate \<Rightarrow> fstate" where
  "flash_reset hw lay s =
     (let s = SETREG PMU_ResetCon RESET_FLASH s;
          s = SETREG FCONF_NANDCFG_1 0x10 s;
          s = SETREG FCONF_NANDCFG_2 (nand_cfg_2 2) s;
          s = SETREG FCONF_TIMECYCLE FLASH_PARAM_TIMECYCLE_SAFE s;
          s = SETREG FCONF_BUFSIZE BYTES_PER_PAGE s;
          s = SETREG FCONF_PAUSE 0 s;
          s = SETREG FCONF_CPBDMABASE (l_copy_buf_addr lay) s;
          s = SETREG WR_STAT 0xFFFFFFFF s;
          s = SETREG BM_STACK_RDSET 0 s;
          s = SETREG BM_STACK_WRSET 0 s;
          s = SETREG BM_STACK_RESET 0x03 s;
          s = SETREG FTL_READ_PTR (l_num_rd_buffers lay + 1) s;
          s = fold (\<lambda>i. SETREG (REMAPBANK i) 0x3F) [0..<4] s;
          s = set_fcp (\<lambda>f. f\<lparr>fcp_row_h := \<lambda>rb. if rb < NUM_BANKS_MAX then 0xFFFFFFFF else fcp_row_h f rb\<rparr>) s;
          s = fold (\<lambda>bank s. flash_issue_cmd hw bank RETURN_ON_ISSUE
                 (set_fcp (\<lambda>f. f\<lparr>fcp_cmd := FC_GENERIC, fcp_col := 0xFF, fcp_option := 0\<rparr>) s)) [0..<NUM_BANKS] s;
          s = fold (\<lambda>bank s. flash_issue_cmd hw bank RETURN_ON_ISSUE
                 (set_fcp (\<lambda>f. f\<lparr>fcp_cmd := FC_WAIT\<rparr>) s)) [0..<NUM_BANKS] s;
          s = flash_finish s;
          s = flash_clear_irq s
      in SETREG FCONF_TIMECYCLE time_param s)"

text \<open>The commands of a trace: code, real bank and column.\<close>

fun issued :: "flash_event list \<Rightarrow> (nat \<times> nat \<times> nat) list" where
  "issued [] = []"
| "issued (Issue f # es) = (fcp_cmd f, fcp_bank f, fcp_col f) # issued es"
| "issued (_ # es) = issued es"

lemma issued_append [simp]: "issued (xs @ ys) = issued xs @ issued ys"
  by (induction xs rule: issued.induct) simp_all

lemma trace_simps [simp]:
  "trace (log e s) = trace s @ [e]" "trace (SETREG r v s) = trace s @ [Set_Reg r v]" "trace (set_fcp g s) = trace s"
  "fcp (log e s) = fcp s" "fcp (SETREG r v s) = fcp s" "fcp (set_fcp g s) = g (fcp s)"
  by (simp_all add: log_def SETREG_def set_fcp_def)

lemma reset_loop:
  "issued (trace (fold (\<lambda>bank s. flash_issue_cmd hw bank RETURN_ON_ISSUE
      (set_fcp (\<lambda>f. f\<lparr>fcp_cmd := FC_GENERIC, fcp_col := 0xFF, fcp_option := 0\<rparr>) s)) bs s))
     = issued (trace s) @ map (\<lambda>b. (FC_GENERIC, REAL_BANK b, 0xFF)) bs"
  by (induction bs arbitrary: s) (simp_all add: flash_issue_cmd_fields sync_events_def)

lemma wait_loop:
  "issued (trace (fold (\<lambda>bank s. flash_issue_cmd hw bank RETURN_ON_ISSUE (set_fcp (\<lambda>f. f\<lparr>fcp_cmd := FC_WAIT\<rparr>) s)) bs s))
     = issued (trace s) @ map (\<lambda>b. (FC_WAIT, REAL_BANK b, fcp_col (fcp s))) bs"
  by (induction bs arbitrary: s) (simp_all add: flash_issue_cmd_fields sync_events_def)

lemma setreg_fold: "issued (trace (fold (\<lambda>i. SETREG (r i) (v i)) is s)) = issued (trace s)"
    "fcp (fold (\<lambda>i. SETREG (r i) (v i)) is s) = fcp s"
  by (induction "is" arbitrary: s) simp_all

lemma fold_fcp_col:
  "fcp_col (fcp (fold (\<lambda>bank s. flash_issue_cmd hw bank RETURN_ON_ISSUE
      (set_fcp (\<lambda>f. f\<lparr>fcp_cmd := FC_GENERIC, fcp_col := 0xFF, fcp_option := 0\<rparr>) s)) bs s))
     = (if bs = [] then fcp_col (fcp s) else 0xFF)"
  by (induction bs arbitrary: s) (simp_all add: flash_issue_cmd_fields)

text \<open>
  \<open>flash_reset\<close> sends the NAND reset command 0xFF to every bank, then makes every bank wait for it,
  once each and in bank order, whatever the controller does; and the final timing parameters fit their
  register fields and give a read cycle of at least \<open>PS_PER_FLASH_CYCLE\<close>.
\<close>

theorem flash_reset_sequence:
  "issued (trace (flash_reset hw lay s)) = issued (trace s)
     @ map (\<lambda>b. (FC_GENERIC, REAL_BANK b, 0xFF)) [0..<NUM_BANKS] @ map (\<lambda>b. (FC_WAIT, REAL_BANK b, 0xFF)) [0..<NUM_BANKS]
   \<and> last (trace (flash_reset hw lay s)) = Set_Reg FCONF_TIMECYCLE time_param
   \<and> FLASH_PARAM_SETUP \<le> 15 \<and> CYCLE_PER_HOLD - 1 \<le> 7 \<and> time_param < 2 ^ 32 \<and> nand_cfg_2 2 < 2 ^ 32
   \<and> PS_PER_FLASH_CYCLE \<le> HALF_CYCLE_PER_SETUP * PS_PER_HALF_CYCLE + PS_PER_HOLD"
proof (intro conjI)
  have "NUM_BANKS \<noteq> 0" by (simp add: geom)
  then show "issued (trace (flash_reset hw lay s)) = issued (trace s)
     @ map (\<lambda>b. (FC_GENERIC, REAL_BANK b, 0xFF)) [0..<NUM_BANKS] @ map (\<lambda>b. (FC_WAIT, REAL_BANK b, 0xFF)) [0..<NUM_BANKS]"
    unfolding flash_reset_def Let_def flash_finish_def flash_clear_irq_def
    by (simp add: setreg_fold reset_loop wait_loop fold_fcp_col del: upt_Suc)
  show "last (trace (flash_reset hw lay s)) = Set_Reg FCONF_TIMECYCLE time_param"
    unfolding flash_reset_def Let_def by simp
qed (simp_all add: FLASH_PARAM_SETUP_def HALF_CYCLE_PER_SETUP_def PS_PER_SETUP_def PS_PER_HOLD_def CYCLE_PER_HOLD_def
  PS_PER_CLOCK_CYCLE_def PS_PER_HALF_CYCLE_def PS_PER_FLASH_CYCLE_def CLOCK_SPEED_def time_param_def flash_timecycle_def
  nand_cfg_2_def geom)

end
