(* ===== verification/Ftl_Common.thy ===== *)
theory Ftl_Common
  imports Flash_Ctrl
begin

text \<open>
  What the translation layers share: running a step for every element of a list, the registers of one flash
  command and the effect of a read, the pages a transfer touches, and the documented order in which the
  buffer manager delivers the sectors of a host write (\<open>host_delivers\<close>), with a controller that does so.
\<close>

subsection \<open>Steps over a list\<close>

fun each :: "('a \<Rightarrow> 's \<Rightarrow> 's option) \<Rightarrow> 'a list \<Rightarrow> 's \<Rightarrow> 's option" where
  "each f [] s = Some s"
| "each f (x # xs) s = do { s \<leftarrow> f x s; each f xs s }"

lemma each_rule:
  assumes "I s" and "\<And>x s. x \<in> set xs \<Longrightarrow> I s \<Longrightarrow> \<exists>s'. f x s = Some s' \<and> I s' \<and> Q x s' \<and> (\<forall>y. Q y s \<longrightarrow> Q y s')"
  shows "\<exists>s'. each f xs s = Some s' \<and> I s' \<and> (\<forall>x \<in> set xs. Q x s') \<and> (\<forall>y. Q y s \<longrightarrow> Q y s')"
  using assms
proof (induction xs arbitrary: s)
  case (Cons x xs)
  from Cons.prems(2) [of x s] Cons.prems(1) obtain s1 where s1: "f x s = Some s1" "I s1" "Q x s1" "\<forall>y. Q y s \<longrightarrow> Q y s1" by auto
  from Cons.IH [OF s1(2)] Cons.prems(2) obtain s2 where "each f xs s1 = Some s2" "I s2" "\<forall>x \<in> set xs. Q x s2" "\<forall>y. Q y s1 \<longrightarrow> Q y s2" by auto
  with s1 show ?case by auto
qed simp

lemma each_append: "each f (xs @ ys) s = do { s \<leftarrow> each f xs s; each f ys s }"
  by (induction xs arbitrary: s) (simp_all split: Option.bind_split)

lemma each_upt:
  assumes "\<And>p x. m \<le> p \<Longrightarrow> p < n \<Longrightarrow> I p x \<Longrightarrow> \<exists>x'. f p x = Some x' \<and> I (Suc p) x'" and "I m x" and "m \<le> n"
  shows "\<exists>x'. each f [m..<n] x = Some x' \<and> I n x'"
proof -
  have "\<exists>x'. each f [p..<n] x = Some x' \<and> I n x'" if "I p x" "m \<le> p" "p \<le> n" for p x
    using that
  proof (induction "n - p" arbitrary: p x)
    case (Suc k)
    have p: "p < n" "k = n - Suc p" using Suc.hyps(2) by simp_all
    from assms(1) [OF Suc.prems(2) p(1) Suc.prems(1)] obtain x1 where "f p x = Some x1" "I (Suc p) x1" by blast
    moreover from Suc.hyps(1) [OF p(2) calculation(2)] Suc.prems p(1)
    obtain x2 where "each f [Suc p..<n] x1 = Some x2" "I n x2" by auto
    ultimately show ?case using p by (simp add: upt_conv_Cons)
  qed simp
  then show ?thesis using assms(2,3) by blast
qed

lemma each_down:
  assumes "\<And>p x. p < n \<Longrightarrow> I (Suc p) x \<Longrightarrow> \<exists>x'. f p x = Some x' \<and> I p x'" and "I n x"
  shows "\<exists>x'. each f (rev [0..<n]) x = Some x' \<and> I 0 x'"
  using assms
proof (induction n arbitrary: x)
  case (Suc n)
  from Suc.prems(1) [of n x] Suc.prems(2) obtain x1 where "f n x = Some x1" "I n x1" by blast
  moreover from Suc.IH [of x1] Suc.prems(1) this(2) obtain x2 where "each f (rev [0..<n]) x1 = Some x2" "I 0 x2" by auto
  ultimately show ?case by simp
qed simp

lemma fold_upt:
  assumes "\<And>p x. m \<le> p \<Longrightarrow> p < n \<Longrightarrow> I p x \<Longrightarrow> I (Suc p) (f p x)" and "I m x" and "m \<le> n"
  shows "I n (fold f [m..<n] x)"
proof -
  have "\<exists>x'. each (\<lambda>p x. Some (f p x)) [m..<n] x = Some x' \<and> I n x'" by (rule each_upt) (use assms in auto)
  moreover have "each (\<lambda>p x. Some (f p x)) xs x = Some (fold f xs x)" for xs and x
    by (induction xs arbitrary: x) simp_all
  ultimately show ?thesis by simp
qed

subsection \<open>Rows, banks and buffers\<close>

lemma row_split: "row div PAGES_PER_VBLK * PAGES_PER_VBLK + row mod PAGES_PER_VBLK = row"
  by simp

lemma row_div [simp]: "p < PAGES_PER_VBLK \<Longrightarrow> (v * PAGES_PER_VBLK + p) div PAGES_PER_VBLK = v"
  "p < PAGES_PER_VBLK \<Longrightarrow> (v * PAGES_PER_VBLK + p) mod PAGES_PER_VBLK = p"
  by (simp_all add: geom)

lemma REAL_BANK_inj: "b < NUM_BANKS \<Longrightarrow> c < NUM_BANKS \<Longrightarrow> REAL_BANK b = REAL_BANK c \<longleftrightarrow> b = c"
proof -
  assume "b < NUM_BANKS" "c < NUM_BANKS"
  moreover have "\<forall>b < NUM_BANKS. c_bank_rmap ! REAL_BANK b = b"
    unfolding less_banks by (simp add: REAL_BANK_def c_bank_map_def c_bank_rmap_def X_BANK_def)
  ultimately show ?thesis by metis
qed

lemma first_equ_cong:
  "(\<And>i. i < n \<Longrightarrow> item w (a + i * w) d = item w (a + i * w) d') \<Longrightarrow> first_equ w a n v d = first_equ w a n v d'"
proof -
  assume "\<And>i. i < n \<Longrightarrow> item w (a + i * w) d = item w (a + i * w) d'"
  then have "find (\<lambda>i. item w (a + i * w) d = v) [0..<n] = find (\<lambda>i. item w (a + i * w) d' = v) [0..<n]"
    by (intro find_cong) simp_all
  then show ?thesis by (simp add: first_equ_def)
qed

text \<open>The number of pages a transfer touches.\<close>

definition pages_of :: "nat \<Rightarrow> nat \<Rightarrow> nat" where
  "pages_of off n = (off + n + (SECTORS_PER_PAGE - 1)) div SECTORS_PER_PAGE"

lemma pages_of_step:
  assumes "num = min n (SECTORS_PER_PAGE - off)" and "off < SECTORS_PER_PAGE" and "0 < n"
  shows "pages_of 0 (n - num) + 1 = pages_of off n"
proof -
  have B: "SECTORS_PER_PAGE = 64" by (simp add: geom)
  show ?thesis
  proof (cases "num < n")
    case True
    then have "num = 64 - off" using assms(1) by (simp add: B)
    then have "off + n + 63 = n - num + 63 + 64" using True assms(2) by (simp add: B)
    then show ?thesis by (simp add: pages_of_def B)
  next
    case False
    then have "n = num" "off + n \<le> 64" using assms by (auto simp: B)
    then have "(off + n + 63) div 64 = 1" using assms(3) by (intro div_nat_eqI) simp_all
    then show ?thesis using \<open>n = num\<close> by (simp add: pages_of_def B)
  qed
qed

lemma scale_sector: "i div 64 * 32768 + i mod 64 * 512 = i * (512 :: nat)"
  using mult_div_mod_eq [of 64 i] by linarith

lemma lba_pos: "lba div SECTORS_PER_PAGE * BYTES_PER_PAGE + lba mod SECTORS_PER_PAGE * 512 = lba * 512"
  using scale_sector [of lba] by (simp add: geom)

subsection \<open>One command\<close>

text \<open>The FCP registers of one command, in the order \<open>CMD\<close>, \<open>OPTION\<close>, \<open>DMA_ADDR\<close>, \<open>DMA_CNT\<close>, \<open>COL\<close>, rows.\<close>

definition setup_fcp :: "nat \<Rightarrow> nat \<Rightarrow> nat \<Rightarrow> nat \<Rightarrow> nat \<Rightarrow> nat \<Rightarrow> nat \<Rightarrow> fstate \<Rightarrow> fstate" where
  "setup_fcp cmd opt addr len col bank row = set_fcp (\<lambda>f. set_rows bank row
     (f\<lparr>fcp_cmd := cmd, fcp_option := opt, fcp_dma_addr := addr, fcp_dma_cnt := len, fcp_col := col\<rparr>))"

lemma setup_fcp_fields [simp]:
  "dram (setup_fcp c p a n k b r s) = dram s" "nand (setup_fcp c p a n k b r s) = nand s"
  "trace (setup_fcp c p a n k b r s) = trace s"
  "g_ftl_read_buf_id (setup_fcp c p a n k b r s) = g_ftl_read_buf_id s"
  "g_ftl_write_buf_id (setup_fcp c p a n k b r s) = g_ftl_write_buf_id s"
  "fcp_cmd (fcp (setup_fcp c p a n k b r s)) = c"
  "fcp_option (fcp (setup_fcp c p a n k b r s)) = p"
  by (simp_all add: setup_fcp_def set_fcp_def)

lemma setup_sel:
  "p mod 8 = FO_P + FO_E \<Longrightarrow> k * BYTES_PER_SECTOR + n \<le> BYTES_PER_PAGE \<Longrightarrow> fcp_sel b r a k n (fcp (setup_fcp c p a n k b r s))"
  by (simp add: setup_fcp_def set_fcp_def fcp_sel_def)

lemma setup_rows: "fcp_row_h (fcp (setup_fcp c p a n k b r s)) (REAL_BANK b) = fcp_row_l (fcp (setup_fcp c p a n k b r s)) (REAL_BANK b)"
  by (simp add: setup_fcp_def set_fcp_def)

lemma opt_mod: "(FO_P + FO_E) mod 8 = FO_P + FO_E" "(FO_P + FO_E + FO_B_W_DRDY) mod 8 = FO_P + FO_E"
    "(FO_P + FO_E + FO_B_SATA_W) mod 8 = FO_P + FO_E" "(FO_P + FO_E + FO_B_SATA_R) mod 8 = FO_P + FO_E"
  by (simp_all add: fo_flags)

text \<open>The order in which two registers are set does not matter.\<close>

lemma option_last: "c\<lparr>fcp_cmd := a, fcp_dma_addr := d, fcp_dma_cnt := n, fcp_col := k, fcp_option := p\<rparr>
    = c\<lparr>fcp_cmd := a, fcp_option := p, fcp_dma_addr := d, fcp_dma_cnt := n, fcp_col := k\<rparr>" for c :: fcp_t
  by simp

lemma log_fields [simp]: "dram (log e s) = dram s" "nand (log e s) = nand s"
  "g_ftl_read_buf_id (log e s) = g_ftl_read_buf_id s" "g_ftl_write_buf_id (log e s) = g_ftl_write_buf_id s"
  by (simp_all add: log_def)

lemma flash_finish_fields [simp]:
  "dram (flash_finish f) = dram f" "nand (flash_finish f) = nand f" "trace (flash_finish f) = trace f @ [Wait_Idle]"
  by (simp_all add: flash_finish_def)

lemma clear_irq_fields [simp]:
  "dram (flash_clear_irq f) = dram f" "nand (flash_clear_irq f) = nand f"
  "g_ftl_read_buf_id (flash_clear_irq f) = g_ftl_read_buf_id f" "g_ftl_write_buf_id (flash_clear_irq f) = g_ftl_write_buf_id f"
proof -
  have "dram (fold (\<lambda>i. SETREG (g i) v) xs f) = dram f \<and> nand (fold (\<lambda>i. SETREG (g i) v) xs f) = nand f
      \<and> g_ftl_read_buf_id (fold (\<lambda>i. SETREG (g i) v) xs f) = g_ftl_read_buf_id f
      \<and> g_ftl_write_buf_id (fold (\<lambda>i. SETREG (g i) v) xs f) = g_ftl_write_buf_id f" for g v and xs :: "nat list"
    by (induction xs arbitrary: f) (simp_all add: SETREG_def)
  then show "dram (flash_clear_irq f) = dram f" "nand (flash_clear_irq f) = nand f"
    "g_ftl_read_buf_id (flash_clear_irq f) = g_ftl_read_buf_id f" "g_ftl_write_buf_id (flash_clear_irq f) = g_ftl_write_buf_id f"
    by (simp_all add: flash_clear_irq_def SETREG_def)
qed

lemma read_cmd:
  fixes c p a n k b r sync s
  assumes "flash_ok lay hw" and "c = FC_COL_ROW_READ_OUT \<or> c = FC_COL_OUT" and "p mod 8 = FO_P + FO_E"
    and "k * 512 + n \<le> BYTES_PER_PAGE" and "buf_ok a"
  defines "s' \<equiv> flash_issue_cmd hw b sync (setup_fcp c p a n k b r s)"
  shows "pages (nand s') = pages (nand s)"
    "\<And>x. k * 512 \<le> x \<Longrightarrow> x < k * 512 + n \<Longrightarrow> dram s' (a + x) = pages (nand s) (REAL_BANK b) r x"
    "\<And>y. y < 4294967296 \<Longrightarrow> y < a + k * 512 \<or> a + (k * 512 + n) \<le> y \<Longrightarrow> dram s' y = dram s y"
proof -
  have cmd: "fcp_cmd (fcp (setup_fcp c p a n k b r s)) \<in> {FC_COL_ROW_READ_OUT, FC_COL_OUT}" using assms(2) by auto
  have "k * BYTES_PER_SECTOR + n \<le> BYTES_PER_PAGE" using assms(4) by (simp add: geom)
  from issue_read [OF assms(1) cmd setup_sel [OF assms(3) this] assms(5)]
  show "pages (nand s') = pages (nand s)"
    "\<And>x. k * 512 \<le> x \<Longrightarrow> x < k * 512 + n \<Longrightarrow> dram s' (a + x) = pages (nand s) (REAL_BANK b) r x"
    "\<And>y. y < 4294967296 \<Longrightarrow> y < a + k * 512 \<or> a + (k * 512 + n) \<le> y \<Longrightarrow> dram s' y = dram s y"
    by (simp_all add: s'_def)
qed

lemma read_pages:
  assumes "flash_ok lay hw" and "fcp_cmd (fcp f) \<in> {FC_COL_ROW_READ_OUT, FC_COL_OUT}"
    and "fcp_row_h (fcp f) (fcp_bank (fcp f)) = fcp_row_l (fcp f) (fcp_bank (fcp f))"
  shows "pages (nand (fcp_issue hw f)) = pages (nand f)"
  using flash_okD(1) [OF assms(1,3), of "nand f" "dram f"] assms(2) unfolding read_law_def
  by (auto simp: fcp_issue_def split_beta log_def)

subsection \<open>The data of a host write\<close>

text \<open>
  The data of a write request of \<open>n\<close> sectors that starts at sector \<open>off\<close> of a page: \<open>data k\<close> is its word at
  byte \<open>k\<close>. With \<open>FO_B_SATA_W\<close> the controller starts a program command when the buffer manager has the host's
  sectors of that page in the write buffer; page \<open>i\<close> of the request goes to the buffer \<open>i\<close> places after \<open>b0\<close>. The
  manager writes no other byte of the buffer, and the page is programmed from it.
\<close>

definition host_delivers :: "buf_layout \<Rightarrow> flash_hw \<Rightarrow> nat \<Rightarrow> nat \<Rightarrow> nat \<Rightarrow> (nat \<Rightarrow> u32) \<Rightarrow> bool" where
  "host_delivers lay hw b0 off n data \<longleftrightarrow> (\<forall>f nd d n' d' i. hw f (nd, d) = (n', d') \<and> fcp_cmd f = FC_COL_ROW_IN_PROG
       \<and> fcp_option f = FO_P + FO_E + FO_B_SATA_W \<and> fcp_row_h f (fcp_bank f) = fcp_row_l f (fcp_bank f)
       \<and> blank nd (fcp_bank f) (fcp_row_l f (fcp_bank f)) \<and> i < pages_of off n
       \<and> fcp_dma_addr f = WR_BUF_PTR lay ((b0 + i) mod l_num_wr_buffers lay) \<longrightarrow>
     (\<forall>x < BYTES_PER_PAGE. d' (dma_mem f x) = (if off * 512 \<le> i * BYTES_PER_PAGE + x \<and> i * BYTES_PER_PAGE + x < off * 512 + n * 512
         then data (i * BYTES_PER_PAGE + x - off * 512) else d (dma_mem f x)))
     \<and> (\<forall>x < BYTES_PER_PAGE. dma_range f x \<longrightarrow> pages n' (fcp_bank f) (fcp_row_l f (fcp_bank f)) x = d' (dma_mem f x)))"

lemma host_delivers_next:
  assumes "host_delivers lay hw b0 off n data" and "num = min n (SECTORS_PER_PAGE - off)" and "off < SECTORS_PER_PAGE" and "0 < n"
  shows "host_delivers lay hw ((b0 + 1) mod l_num_wr_buffers lay) 0 (n - num) (\<lambda>k. data (num * 512 + k))"
proof -
  have B: "BYTES_PER_PAGE = 32768" "SECTORS_PER_PAGE = 64" by (simp_all add: geom)
  have p: "pages_of 0 (n - num) + 1 = pages_of off n" by (rule pages_of_step [OF assms(2-4)])
  have "0 < n - num" if "i < pages_of 0 (n - num)" for i
    using that by (cases "n - num") (simp_all add: pages_of_def B)
  then have e: "num = 64 - off" if "i < pages_of 0 (n - num)" for i using that assms(2) unfolding B by fastforce
  have b: "(((b0 + 1) mod l_num_wr_buffers lay + i) mod l_num_wr_buffers lay) = (b0 + Suc i) mod l_num_wr_buffers lay" for i
    by (simp add: mod_simps)
  show ?thesis
    unfolding host_delivers_def b
  proof (intro allI impI)
    fix f nd d n' d' i
    assume a: "hw f (nd, d) = (n', d') \<and> fcp_cmd f = FC_COL_ROW_IN_PROG \<and> fcp_option f = FO_P + FO_E + FO_B_SATA_W
       \<and> fcp_row_h f (fcp_bank f) = fcp_row_l f (fcp_bank f) \<and> blank nd (fcp_bank f) (fcp_row_l f (fcp_bank f)) \<and> i < pages_of 0 (n - num)
       \<and> fcp_dma_addr f = WR_BUF_PTR lay ((b0 + Suc i) mod l_num_wr_buffers lay)"
    then have i: "Suc i < pages_of off n" "num = 64 - off" using p e by auto
    with a assms(1) have r: "\<forall>x < BYTES_PER_PAGE. d' (dma_mem f x) = (if off * 512 \<le> Suc i * BYTES_PER_PAGE + x \<and> Suc i * BYTES_PER_PAGE + x < off * 512 + n * 512
         then data (Suc i * BYTES_PER_PAGE + x - off * 512) else d (dma_mem f x))"
      "\<forall>x < BYTES_PER_PAGE. dma_range f x \<longrightarrow> pages n' (fcp_bank f) (fcp_row_l f (fcp_bank f)) x = d' (dma_mem f x)"
      unfolding host_delivers_def by blast+
    have "d' (dma_mem f x) = (if 0 * 512 \<le> i * BYTES_PER_PAGE + x \<and> i * BYTES_PER_PAGE + x < 0 * 512 + (n - num) * 512
         then data (num * 512 + (i * BYTES_PER_PAGE + x - 0 * 512)) else d (dma_mem f x))" if "x < BYTES_PER_PAGE" for x
    proof -
      have off: "off \<le> 64" using assms(3) B by simp
      have c: "off * 512 \<le> Suc i * BYTES_PER_PAGE + x \<and> Suc i * BYTES_PER_PAGE + x < off * 512 + n * 512
          \<longleftrightarrow> 0 * 512 \<le> i * BYTES_PER_PAGE + x \<and> i * BYTES_PER_PAGE + x < 0 * 512 + (n - num) * 512"
        and k: "Suc i * BYTES_PER_PAGE + x - off * 512 = num * 512 + (i * BYTES_PER_PAGE + x - 0 * 512)"
        using off unfolding B i(2) by auto
      show ?thesis using r(1) [rule_format, OF that] unfolding c k .
    qed
    then show "(\<forall>x < BYTES_PER_PAGE. d' (dma_mem f x) = (if 0 * 512 \<le> i * BYTES_PER_PAGE + x \<and> i * BYTES_PER_PAGE + x < 0 * 512 + (n - num) * 512
         then data (num * 512 + (i * BYTES_PER_PAGE + x - 0 * 512)) else d (dma_mem f x)))
      \<and> (\<forall>x < BYTES_PER_PAGE. dma_range f x \<longrightarrow> pages n' (fcp_bank f) (fcp_row_l f (fcp_bank f)) x = d' (dma_mem f x))"
      using r(2) by blast
  qed
qed

lemma wr_buf_ok:
  assumes "i < l_num_wr_buffers lay" and "l_wr_buf_addr lay + l_num_wr_buffers lay * BYTES_PER_PAGE \<le> 4294967296"
  shows "buf_ok (WR_BUF_PTR lay i)"
proof -
  have "(i + 1) * BYTES_PER_PAGE \<le> l_num_wr_buffers lay * BYTES_PER_PAGE" using assms(1) by (intro mult_le_mono1) simp
  then show ?thesis using assms(2) by (simp add: buf_ok_def WR_BUF_PTR_def)
qed

text \<open>A controller whose buffer manager receives the sectors of one request from buffer 0 on, for the witnesses.\<close>

definition deliver :: "buf_layout \<Rightarrow> nat \<Rightarrow> nat \<Rightarrow> (nat \<Rightarrow> u32) \<Rightarrow> fcp_t \<Rightarrow> dram \<Rightarrow> dram" where
  "deliver lay off n data f d b =
     (let a = fcp_dma_addr f; p = (a - l_wr_buf_addr lay) div BYTES_PER_PAGE * BYTES_PER_PAGE + (b - a) in
      if a \<le> b \<and> b < a + BYTES_PER_PAGE \<and> off * 512 \<le> p \<and> p < off * 512 + n * 512 then data (p - off * 512) else d b)"

definition hw_host :: "buf_layout \<Rightarrow> nat \<Rightarrow> nat \<Rightarrow> (nat \<Rightarrow> u32) \<Rightarrow> flash_hw" where
  "hw_host lay off n data f s =
     (if fcp_cmd f = FC_COL_ROW_IN_PROG \<and> fcp_option f = FO_P + FO_E + FO_B_SATA_W
      then hw_ref f (fst s, deliver lay off n data f (snd s)) else hw_ref f s)"

lemma hw_host_ok: "flash_ok lay' (hw_host lay off n data)"
proof (unfold flash_ok_def, intro allI impI)
  fix f nd d n' d'
  assume h: "hw_host lay off n data f (nd, d) = (n', d') \<and> fcp_row_h f (fcp_bank f) = fcp_row_l f (fcp_bank f)"
  show "read_law f nd d n' d' \<and> in_law f nd d n' d' \<and> prog_law f nd d n' d' \<and> copy_law lay' f nd d n' d' \<and> erase_law f nd d n' d'"
  proof (cases "fcp_cmd f = FC_COL_ROW_IN_PROG \<and> fcp_option f = FO_P + FO_E + FO_B_SATA_W")
    case True
    have ne: "FO_P + FO_E + FO_B_SATA_W \<noteq> FO_P + FO_E + FO_B_W_DRDY" "FO_P + FO_E + FO_B_SATA_W \<noteq> FO_P" by (simp_all add: fo_flags)
    have n: "n' = set_page (fcp_bank f) (fcp_row_l f (fcp_bank f)) (\<lambda>x. if dma_range f x then deliver lay off n data f d (dma_mem f x) else 0xFFFFFFFF) nd"
      "d' = deliver lay off n data f d" using h True by (auto simp: hw_host_def hw_ref_def fc_codes Let_def)
    have "prog_law f nd d n' d'" using True ne unfolding prog_law_def n
      by (auto simp: only_page_def set_page_def deliver_def Let_def)
    then show ?thesis using True ne by (simp add: read_law_def in_law_def copy_law_def erase_law_def fc_codes)
  next
    case False
    then have "hw_ref f (nd, d) = (n', d')" using h by (simp only: hw_host_def if_False)
    then show ?thesis using hw_ref_ok [of lay'] h unfolding flash_ok_def by blast
  qed
qed

lemma hw_host_delivers:
  assumes "pages_of off n \<le> l_num_wr_buffers lay" and "l_wr_buf_addr lay + l_num_wr_buffers lay * BYTES_PER_PAGE \<le> 4294967296"
  shows "host_delivers lay (hw_host lay off n data) 0 off n data"
  unfolding host_delivers_def
proof (intro allI impI)
  fix f nd d n' d' i
  assume a: "hw_host lay off n data f (nd, d) = (n', d') \<and> fcp_cmd f = FC_COL_ROW_IN_PROG \<and> fcp_option f = FO_P + FO_E + FO_B_SATA_W
       \<and> fcp_row_h f (fcp_bank f) = fcp_row_l f (fcp_bank f) \<and> blank nd (fcp_bank f) (fcp_row_l f (fcp_bank f)) \<and> i < pages_of off n
       \<and> fcp_dma_addr f = WR_BUF_PTR lay ((0 + i) mod l_num_wr_buffers lay)"
  then have i: "i < l_num_wr_buffers lay" using assms(1) by linarith
  then have ad: "fcp_dma_addr f = l_wr_buf_addr lay + i * BYTES_PER_PAGE" "fcp_dma_addr f = WR_BUF_PTR lay i"
    using a by (simp_all add: WR_BUF_PTR_def)
  then have ix: "(fcp_dma_addr f - l_wr_buf_addr lay) div BYTES_PER_PAGE = i" by (simp add: geom)
  have n: "n' = set_page (fcp_bank f) (fcp_row_l f (fcp_bank f)) (\<lambda>x. if dma_range f x then deliver lay off n data f d (dma_mem f x) else 0xFFFFFFFF) nd"
    "d' = deliver lay off n data f d" using a by (auto simp: hw_host_def hw_ref_def fc_codes Let_def)
  have "d' (dma_mem f x) = (if off * 512 \<le> i * BYTES_PER_PAGE + x \<and> i * BYTES_PER_PAGE + x < off * 512 + n * 512
         then data (i * BYTES_PER_PAGE + x - off * 512) else d (dma_mem f x))" if x: "x < BYTES_PER_PAGE" for x
  proof -
    have m: "dma_mem f x = fcp_dma_addr f + x" using sub32_buf [OF wr_buf_ok [OF i assms(2)] x] by (simp add: dma_mem_def ad(2))
    show ?thesis unfolding n(2) m deliver_def Let_def ix using x by simp
  qed
  then show "(\<forall>x < BYTES_PER_PAGE. d' (dma_mem f x) = (if off * 512 \<le> i * BYTES_PER_PAGE + x \<and> i * BYTES_PER_PAGE + x < off * 512 + n * 512
         then data (i * BYTES_PER_PAGE + x - off * 512) else d (dma_mem f x)))
     \<and> (\<forall>x < BYTES_PER_PAGE. dma_range f x \<longrightarrow> pages n' (fcp_bank f) (fcp_row_l f (fcp_bank f)) x = d' (dma_mem f x))"
    unfolding n by (simp add: set_page_def)
qed

subsection \<open>Commands of one plane\<close>

text \<open>The scan list and the format mark are read and programmed with one plane (\<open>FO_E\<close> without \<open>FO_P\<close>), with registers set by hand.\<close>

definition plane_cmd :: "flash_hw \<Rightarrow> nat \<Rightarrow> nat \<Rightarrow> nat \<Rightarrow> nat \<Rightarrow> nat \<Rightarrow> nat \<Rightarrow> fstate \<Rightarrow> fstate" where
  "plane_cmd hw cmd opt a n b r f = fcp_issue hw (set_fcp (\<lambda>c. c\<lparr>fcp_bank := REAL_BANK b\<rparr>) (setup_fcp cmd opt a n 0 b r f))"

lemma plane_cmd_ids [simp]:
  "g_ftl_read_buf_id (plane_cmd hw cmd opt a n b r f) = g_ftl_read_buf_id f" "g_ftl_write_buf_id (plane_cmd hw cmd opt a n b r f) = g_ftl_write_buf_id f"
  by (simp_all add: plane_cmd_def fcp_issue_def set_fcp_def log_def split_beta)

lemma plane_read:
  assumes "flash_ok lay hw" and "buf_ok a" and "n \<le> BYTES_PER_PAGE"
  shows "pages (nand (plane_cmd hw FC_COL_ROW_READ_OUT opt a n b r f)) = pages (nand f)"
    "y < 4294967296 \<Longrightarrow> y < a \<or> a + BYTES_PER_PAGE \<le> y \<Longrightarrow> dram (plane_cmd hw FC_COL_ROW_READ_OUT opt a n b r f) y = dram f y"
proof -
  define c where "c = (fcp (setup_fcp FC_COL_ROW_READ_OUT opt a n 0 b r f))\<lparr>fcp_bank := REAL_BANK b\<rparr>"
  have c: "fcp_cmd c = FC_COL_ROW_READ_OUT" "fcp_dma_addr c = a" "fcp_col c = 0" "fcp_dma_cnt c = n" "fcp_row_h c (fcp_bank c) = fcp_row_l c (fcp_bank c)"
    by (simp_all add: c_def setup_fcp_def set_fcp_def)
  have st: "nand (plane_cmd hw FC_COL_ROW_READ_OUT opt a n b r f) = fst (hw c (nand f, dram f))"
    "dram (plane_cmd hw FC_COL_ROW_READ_OUT opt a n b r f) = snd (hw c (nand f, dram f))"
    by (simp_all add: plane_cmd_def fcp_issue_def c_def set_fcp_def log_def split_beta)
  have r: "read_law c (nand f) (dram f) (fst (hw c (nand f, dram f))) (snd (hw c (nand f, dram f)))" by (rule flash_okD(1) [OF assms(1) c(5)])
  then show "pages (nand (plane_cmd hw FC_COL_ROW_READ_OUT opt a n b r f)) = pages (nand f)" using c(1) by (simp add: read_law_def st)
  show "dram (plane_cmd hw FC_COL_ROW_READ_OUT opt a n b r f) y = dram f y" if y: "y < 4294967296" "y < a \<or> a + BYTES_PER_PAGE \<le> y"
  proof -
    have "\<not> (0 \<le> sub32 y a \<and> sub32 y a < BYTES_PER_PAGE)" by (rule sub32_outside [OF assms(2) y(1)]) (use y(2) in auto)
    then have "\<not> dma_range c (sub32 y a)" using assms(3) by (simp add: dma_range_def c)
    then show ?thesis using r y(1) c(1,2) unfolding st read_law_def by auto
  qed
qed

end
