(* ===== verification/Page_Requests.thy ===== *)
theory Page_Requests
  imports Ftl_Common
begin

text \<open>
  Requests of the host as a translation layer handles them: page by page, from the sector at which the request starts. A
  layer shows a store of words (\<open>words s lpn x\<close> is the word at byte \<open>x\<close> of logical page \<open>lpn\<close>, or \<open>None\<close>), and its
  loops go through the pages of a request. The locales \<open>page_writes\<close> and \<open>page_reads\<close> state what one page has to do;
  the theorems on whole requests are proved in them, once for all layers.
\<close>

subsection \<open>The store by sectors\<close>

definition sector :: "(nat \<Rightarrow> nat \<Rightarrow> u32 option) \<Rightarrow> nat \<Rightarrow> nat \<Rightarrow> u32 option" where
  "sector w i x = w (i div SECTORS_PER_PAGE) (i mod SECTORS_PER_PAGE * 512 + x)"

lemma sec_pos:
  assumes "i < NUM_LSECTORS" and "w < 512"
  shows "i div SECTORS_PER_PAGE < NUM_LPAGES" "i mod SECTORS_PER_PAGE * 512 + w < BYTES_PER_PAGE"
    "i div SECTORS_PER_PAGE * BYTES_PER_PAGE + (i mod SECTORS_PER_PAGE * 512 + w) = i * 512 + w"
proof -
  show "i div SECTORS_PER_PAGE < NUM_LPAGES" using assms(1) by (simp add: geom div_less_iff_less_mult)
  have "i mod 64 \<le> 63" by (simp add: less_Suc_eq_le [symmetric])
  then show "i mod SECTORS_PER_PAGE * 512 + w < BYTES_PER_PAGE" using assms(2) by (simp add: geom)
  show "i div SECTORS_PER_PAGE * BYTES_PER_PAGE + (i mod SECTORS_PER_PAGE * 512 + w) = i * 512 + w"
    using scale_sector [of i] by (simp add: geom)
qed

text \<open>The pages a request of \<open>n\<close> sectors takes.\<close>

definition span :: "nat \<Rightarrow> nat \<Rightarrow> nat" where
  "span off n = (if n = 0 then 0 else pages_of off n)"

lemma span_step:
  assumes "num = min n (SECTORS_PER_PAGE - off)" and "off < SECTORS_PER_PAGE" and "0 < n"
  shows "span off n = Suc (span 0 (n - num))"
proof -
  have "pages_of 0 0 = 0" by (simp add: pages_of_def geom)
  then show ?thesis using pages_of_step [OF assms] assms(3) by (auto simp: span_def)
qed

lemma next_fits:
  assumes "num = min n (SECTORS_PER_PAGE - off)" and "off < SECTORS_PER_PAGE" and "0 < n"
    and "lpn * SECTORS_PER_PAGE + off + n \<le> NUM_LPAGES * SECTORS_PER_PAGE"
  shows "lpn < NUM_LPAGES" "off + n < 4294967296" "0 < num" "n - num < n" "off + num \<le> SECTORS_PER_PAGE"
    "(lpn + 1) * SECTORS_PER_PAGE + 0 + (n - num) \<le> NUM_LPAGES * SECTORS_PER_PAGE"
proof -
  have B: "SECTORS_PER_PAGE = 64" "NUM_LPAGES = 1950351" by (simp_all add: geom)
  show l: "lpn < NUM_LPAGES" "off + n < 4294967296" "0 < num" "n - num < n" "off + num \<le> SECTORS_PER_PAGE"
    using assms by (simp_all add: B)
  show "(lpn + 1) * SECTORS_PER_PAGE + 0 + (n - num) \<le> NUM_LPAGES * SECTORS_PER_PAGE"
  proof (cases "num < n")
    case True
    then have "num = 64 - off" using assms(1) by (simp add: B)
    then show ?thesis using assms(2,4) True by (simp add: B)
  next
    case False
    then show ?thesis using l(1) assms(1) by (simp add: B)
  qed
qed

subsection \<open>Writes\<close>

text \<open>
  What a write does to the words: \<open>page_put\<close> for the part of a request in one page, \<open>put_words\<close> for a request of \<open>n\<close>
  sectors from sector \<open>off\<close> of page \<open>lpn\<close> on; \<open>g k\<close> is the new word at byte \<open>k\<close> of the data.
\<close>

definition page_put :: "(nat \<Rightarrow> u32) \<Rightarrow> nat \<Rightarrow> nat \<Rightarrow> nat \<Rightarrow> (nat \<Rightarrow> nat \<Rightarrow> u32 option) \<Rightarrow> (nat \<Rightarrow> nat \<Rightarrow> u32 option) \<Rightarrow> bool" where
  "page_put g lpn off num w w' \<longleftrightarrow> (\<forall>l < NUM_LPAGES. l \<noteq> lpn \<longrightarrow> w' l = w l)
     \<and> (\<forall>x. off * 512 \<le> x \<and> x < (off + num) * 512 \<longrightarrow> w' lpn x = Some (g (x - off * 512)))
     \<and> (\<forall>x < BYTES_PER_PAGE. w lpn x \<noteq> None \<and> (x < off * 512 \<or> (off + num) * 512 \<le> x) \<longrightarrow> w' lpn x = w lpn x)"

definition put_words :: "(nat \<Rightarrow> u32) \<Rightarrow> nat \<Rightarrow> nat \<Rightarrow> nat \<Rightarrow> (nat \<Rightarrow> nat \<Rightarrow> u32 option) \<Rightarrow> (nat \<Rightarrow> nat \<Rightarrow> u32 option) \<Rightarrow> bool" where
  "put_words g lpn off n w w' \<longleftrightarrow>
     (\<forall>l < NUM_LPAGES. \<forall>x < BYTES_PER_PAGE.
        (if lpn * BYTES_PER_PAGE + off * 512 \<le> l * BYTES_PER_PAGE + x \<and> l * BYTES_PER_PAGE + x < lpn * BYTES_PER_PAGE + off * 512 + n * 512
         then w' l x = Some (g (l * BYTES_PER_PAGE + x - (lpn * BYTES_PER_PAGE + off * 512)))
         else w l x \<noteq> None \<longrightarrow> w' l x = w l x))
     \<and> (\<forall>l < NUM_LPAGES. l < lpn \<or> lpn * BYTES_PER_PAGE + off * 512 + n * 512 \<le> l * BYTES_PER_PAGE \<longrightarrow> w' l = w l)"

lemma put_words_cong: "(\<And>k. k < n * 512 \<Longrightarrow> g k = h k) \<Longrightarrow> put_words g lpn off n w w' \<Longrightarrow> put_words h lpn off n w w'"
  unfolding put_words_def by (auto split: if_splits)

lemma put_words_step:
  assumes page: "page_put g lpn off num w w1"
    and rest: "put_words (\<lambda>k. g (num * 512 + k)) (lpn + 1) 0 (n - num) w1 w'"
    and num: "num = min n (SECTORS_PER_PAGE - off)" and off: "off < SECTORS_PER_PAGE" and n: "0 < n"
  shows "put_words g lpn off n w w'"
proof -
  have step: "\<And>l. l < NUM_LPAGES \<Longrightarrow> l \<noteq> lpn \<Longrightarrow> w1 l = w l"
    "\<And>x. off * 512 \<le> x \<Longrightarrow> x < (off + num) * 512 \<Longrightarrow> w1 lpn x = Some (g (x - off * 512))"
    "\<And>x. x < BYTES_PER_PAGE \<Longrightarrow> w lpn x \<noteq> None \<Longrightarrow> x < off * 512 \<or> (off + num) * 512 \<le> x \<Longrightarrow> w1 lpn x = w lpn x"
    using page unfolding page_put_def by blast+
  let ?B = BYTES_PER_PAGE
  let ?S = "lpn * ?B + off * 512"
  have B: "?B = 32768" "SECTORS_PER_PAGE = 64" by (simp_all add: geom)
  have nn: "num \<le> n" "off * 512 + num * 512 \<le> ?B" "num < n \<Longrightarrow> off * 512 + num * 512 = ?B" "0 < num"
    using num off n by (auto simp: B)
  have rest': "if (lpn + 1) * ?B \<le> l * ?B + x \<and> l * ?B + x < (lpn + 1) * ?B + (n - num) * 512
         then w' l x = Some (g (num * 512 + (l * ?B + x - (lpn + 1) * ?B)))
         else w1 l x \<noteq> None \<longrightarrow> w' l x = w1 l x" if "l < NUM_LPAGES" "x < ?B" for l x
    using rest that by (simp add: put_words_def)
  have main: "if ?S \<le> l * ?B + x \<and> l * ?B + x < ?S + n * 512
         then w' l x = Some (g (l * ?B + x - ?S))
         else w l x \<noteq> None \<longrightarrow> w' l x = w l x" if l: "l < NUM_LPAGES" "x < ?B" for l x
  proof -
    have lo: "w1 l x \<noteq> None \<longrightarrow> w' l x = w1 l x" if "l \<le> lpn"
    proof -
      have "l * ?B + x < (lpn + 1) * ?B" using that l(2) unfolding B add_mult_distrib by linarith
      then show ?thesis using rest' [OF l] by auto
    qed
    consider "l < lpn" | "l = lpn" "x < off * 512" | "l = lpn" "off * 512 \<le> x" "x < (off + num) * 512" | "l = lpn" "(off + num) * 512 \<le> x"
      | "lpn + 1 \<le> l" by linarith
    then show ?thesis
    proof cases
      case 1
      then have "l * ?B + x < lpn * ?B" using l(2) unfolding B by linarith
      then show ?thesis using lo step(1) [OF l(1)] 1 by auto
    next
      case 2
      then show ?thesis using lo step(3) [OF l(2)] by auto
    next
      case 3
      then have "w1 lpn x = Some (g (x - off * 512))" using step(2) by simp
      moreover have "x < off * 512 + n * 512" using 3 nn(1) by (simp add: add_mult_distrib)
      ultimately show ?thesis using lo 3 by auto
    next
      case 4
      have "num = n" using nn(1,3) 4 l(2) by (cases "num < n") (auto simp: add_mult_distrib)
      then show ?thesis using lo step(3) [OF l(2)] 4 by (auto simp: add_mult_distrib)
    next
      case 5
      show ?thesis
      proof (cases "num < n")
        case True
        have e: "(lpn + 1) * ?B = ?S + num * 512" using nn(3) [OF True] by (simp add: B)
        have ge: "(lpn + 1) * ?B \<le> l * ?B" using 5 by (simp only: mult_le_mono1)
        have E: "(lpn + 1) * ?B + (n - num) * 512 = ?S + n * 512" using e nn(1) by (simp add: diff_mult_distrib)
        show ?thesis
        proof (cases "l * ?B + x < ?S + n * 512")
          case in_r: True
          let ?y = "l * ?B + x - ?S"
          have y: "num * 512 + (l * ?B + x - (lpn + 1) * ?B) = ?y" "?y < n * 512" using e ge in_r by linarith+
          then have "w' l x = Some (g ?y)" using rest' [OF l] E in_r ge by simp
          with in_r ge e show ?thesis by simp
        next
          case False
          then show ?thesis using rest' [OF l] E step(1) [OF l(1)] 5 by auto
        qed
      next
        case False
        then have "num = n" using nn(1) by simp
        moreover have "?S + n * 512 \<le> (lpn + 1) * ?B" using nn(2) calculation by (simp add: B)
        moreover have "(lpn + 1) * ?B \<le> l * ?B" using 5 by (simp only: mult_le_mono1)
        ultimately show ?thesis using rest' [OF l] step(1) [OF l(1)] 5 by auto
      qed
    qed
  qed
  have out: "w' l = w l" if l: "l < NUM_LPAGES" "l < lpn \<or> ?S + n * 512 \<le> l * ?B" for l
  proof -
    have "l \<noteq> lpn" using l(2) n by auto
    moreover have "l < lpn + 1 \<or> (lpn + 1) * ?B + (n - num) * 512 \<le> l * ?B"
    proof (cases "num < n")
      case True
      then show ?thesis using l(2) nn(3) [OF True] by (auto simp: B diff_mult_distrib)
    next
      case False
      with nn(1) have "n - num = 0" by simp
      then show ?thesis by (cases "l < lpn + 1") (simp_all add: B)
    qed
    ultimately show ?thesis using rest step(1) [OF l(1)] l(1) by (auto simp: put_words_def)
  qed
  with main show ?thesis unfolding put_words_def by blast
qed

lemma put_words_sector:
  assumes st: "put_words g (lba div SECTORS_PER_PAGE) (lba mod SECTORS_PER_PAGE) n w w'" and i: "i < NUM_LSECTORS" "x < 512"
  shows "if lba \<le> i \<and> i < lba + n then sector w' i x = Some (g ((i - lba) * 512 + x))
         else sector w i x \<noteq> None \<longrightarrow> sector w' i x = sector w i x"
proof -
  note p = sec_pos [OF i]
  have "if lba * 512 \<le> i * 512 + x \<and> i * 512 + x < lba * 512 + n * 512
       then sector w' i x = Some (g (i * 512 + x - lba * 512))
       else sector w i x \<noteq> None \<longrightarrow> sector w' i x = sector w i x"
    using st p unfolding put_words_def sector_def lba_pos by (metis p(3))
  moreover have "lba * 512 \<le> i * 512 + x \<and> i * 512 + x < lba * 512 + n * 512 \<longleftrightarrow> lba \<le> i \<and> i < lba + n"
    using i(2) by linarith
  moreover have "lba \<le> i \<Longrightarrow> i * 512 + x - lba * 512 = (i - lba) * 512 + x" by (simp add: diff_mult_distrib)
  ultimately show ?thesis by (auto split: if_splits)
qed

text \<open>
  The writes of a layer: one page for each place of the write buffer ring. \<open>I p lpn\<close> is the invariant before a request of
  \<open>p\<close> more pages that starts at page \<open>lpn\<close>; \<open>frame p\<close> relates the states before and after \<open>p\<close> pages.
\<close>

locale page_writes =
  fixes words :: "'s \<Rightarrow> nat \<Rightarrow> nat \<Rightarrow> u32 option" and wbuf :: "'s \<Rightarrow> nat" and lay :: buf_layout and hw :: flash_hw
    and I :: "nat \<Rightarrow> nat \<Rightarrow> 's \<Rightarrow> bool" and frame :: "nat \<Rightarrow> 's \<Rightarrow> 's \<Rightarrow> bool"
    and step :: "nat \<Rightarrow> nat \<Rightarrow> nat \<Rightarrow> 's \<Rightarrow> 's \<Rightarrow> bool" and loop :: "nat \<Rightarrow> nat \<Rightarrow> nat \<Rightarrow> 's \<Rightarrow> 's option"
  assumes loop_done: "loop lpn off 0 s = Some s"
    and loop_step: "step lpn off n s s' \<Longrightarrow> 0 < n \<Longrightarrow> off < SECTORS_PER_PAGE \<Longrightarrow> off + n < 4294967296
      \<Longrightarrow> loop lpn off n s = loop (lpn + 1) 0 (n - min n (SECTORS_PER_PAGE - off)) s'"
    and page_write: "I (Suc p) lpn s \<Longrightarrow> lpn < NUM_LPAGES \<Longrightarrow> wbuf s < l_num_wr_buffers lay \<Longrightarrow> off < SECTORS_PER_PAGE \<Longrightarrow> 0 < n
      \<Longrightarrow> off + n < 4294967296 \<Longrightarrow> host_delivers lay hw (wbuf s) off n data
      \<Longrightarrow> \<exists>s'. step lpn off n s s' \<and> I p (lpn + 1) s' \<and> frame 1 s s' \<and> wbuf s' = (wbuf s + 1) mod l_num_wr_buffers lay
        \<and> page_put data lpn off (min n (SECTORS_PER_PAGE - off)) (words s) (words s')"
    and frame_refl: "frame 0 s s" and frame_trans: "frame i s s1 \<Longrightarrow> frame j s1 s2 \<Longrightarrow> frame (i + j) s s2"
begin

lemma loop_stores:
  "I (span off n) lpn s \<Longrightarrow> off < SECTORS_PER_PAGE \<Longrightarrow> lpn * SECTORS_PER_PAGE + off + n \<le> NUM_LPAGES * SECTORS_PER_PAGE
    \<Longrightarrow> wbuf s < l_num_wr_buffers lay \<Longrightarrow> host_delivers lay hw (wbuf s) off n data
    \<Longrightarrow> \<exists>s'. loop lpn off n s = Some s' \<and> I 0 (lpn + span off n) s' \<and> frame (span off n) s s'
      \<and> wbuf s' = (wbuf s + span off n) mod l_num_wr_buffers lay \<and> put_words data lpn off n (words s) (words s')"
proof (induction n arbitrary: lpn off s data rule: less_induct)
  case (less n)
  show ?case
  proof (cases "n = 0")
    case True
    then show ?thesis using less.prems(1,4) by (auto simp: loop_done span_def frame_refl put_words_def)
  next
    case False
    then have n: "0 < n" by simp
    define num where "num = min n (SECTORS_PER_PAGE - off)"
    note F = next_fits [OF num_def less.prems(2) n less.prems(3)] and S = span_step [OF num_def less.prems(2) n]
    obtain s1 where s1: "step lpn off n s s1" "I (span 0 (n - num)) (lpn + 1) s1" "frame 1 s s1"
      "wbuf s1 = (wbuf s + 1) mod l_num_wr_buffers lay" "page_put data lpn off num (words s) (words s1)"
      using page_write [OF less.prems(1) [unfolded S] F(1) less.prems(4,2) n F(2) less.prems(5)] unfolding num_def by blast
    have b1: "wbuf s1 < l_num_wr_buffers lay" using less.prems(4) unfolding s1(4) by simp
    have "host_delivers lay hw (wbuf s1) 0 (n - num) (\<lambda>k. data (num * 512 + k))"
      unfolding s1(4) by (rule host_delivers_next [OF less.prems(5) num_def less.prems(2) n])
    moreover have "0 < SECTORS_PER_PAGE" by (simp add: geom)
    ultimately obtain s' where s': "loop (lpn + 1) 0 (n - num) s1 = Some s'" "I 0 (lpn + 1 + span 0 (n - num)) s'" "frame (span 0 (n - num)) s1 s'"
      "wbuf s' = (wbuf s1 + span 0 (n - num)) mod l_num_wr_buffers lay"
      "put_words (\<lambda>k. data (num * 512 + k)) (lpn + 1) 0 (n - num) (words s1) (words s')"
      using less.IH [OF F(4) s1(2) _ F(6) b1] by blast
    have "loop lpn off n s = Some s'" using loop_step [OF s1(1) n less.prems(2) F(2)] s'(1) by (simp add: num_def)
    moreover have "frame (span off n) s s'" using frame_trans [OF s1(3) s'(3)] S by simp
    moreover have "wbuf s' = (wbuf s + span off n) mod l_num_wr_buffers lay" unfolding s'(4) s1(4) S by (simp add: mod_simps)
    ultimately show ?thesis using s'(2) S put_words_step [OF s1(5) s'(5) num_def less.prems(2) n] by simp
  qed
qed

lemma write_sectors:
  assumes "I (span (lba mod SECTORS_PER_PAGE) n) (lba div SECTORS_PER_PAGE) s" and "lba + n \<le> NUM_LSECTORS" and "wbuf s < l_num_wr_buffers lay"
    and "host_delivers lay hw (wbuf s) (lba mod SECTORS_PER_PAGE) n data"
  shows "\<exists>s'. loop (lba div SECTORS_PER_PAGE) (lba mod SECTORS_PER_PAGE) n s = Some s'
    \<and> I 0 (lba div SECTORS_PER_PAGE + span (lba mod SECTORS_PER_PAGE) n) s' \<and> frame (span (lba mod SECTORS_PER_PAGE) n) s s'
    \<and> wbuf s' = (wbuf s + span (lba mod SECTORS_PER_PAGE) n) mod l_num_wr_buffers lay
    \<and> (\<forall>i < NUM_LSECTORS. \<forall>x < 512. if lba \<le> i \<and> i < lba + n then sector (words s') i x = Some (data ((i - lba) * 512 + x))
         else sector (words s) i x \<noteq> None \<longrightarrow> sector (words s') i x = sector (words s) i x)"
proof -
  have o: "lba mod SECTORS_PER_PAGE < SECTORS_PER_PAGE" by (simp add: geom)
  have "lba div SECTORS_PER_PAGE * SECTORS_PER_PAGE + lba mod SECTORS_PER_PAGE + n \<le> NUM_LPAGES * SECTORS_PER_PAGE"
    using assms(2) by (simp add: geom)
  from loop_stores [OF assms(1) o this assms(3,4)] show ?thesis using put_words_sector by blast
qed

end

subsection \<open>Reads\<close>

text \<open>What the host sees of a word: a page that was never written reads as all ones.\<close>

definition seen :: "u32 option \<Rightarrow> u32" where
  "seen v = (case v of None \<Rightarrow> 0xFFFFFFFF | Some x \<Rightarrow> x)"

definition rd_ring :: "buf_layout \<Rightarrow> nat \<Rightarrow> nat" where
  "rd_ring lay i = RD_BUF_PTR lay (i mod l_num_rd_buffers lay)"

definition rd_end :: "buf_layout \<Rightarrow> nat" where
  "rd_end lay = l_rd_buf_addr lay + l_num_rd_buffers lay * BYTES_PER_PAGE"

lemma rd_ring_bounds:
  assumes "0 < l_num_rd_buffers lay" and "rd_end lay \<le> 4294967296"
  shows "buf_ok (rd_ring lay i)" "l_rd_buf_addr lay \<le> rd_ring lay i" "rd_ring lay i + BYTES_PER_PAGE \<le> rd_end lay"
proof -
  have "i mod l_num_rd_buffers lay + 1 \<le> l_num_rd_buffers lay" using assms(1) by (simp add: Suc_leI)
  from mult_le_mono1 [OF this, of BYTES_PER_PAGE] show "rd_ring lay i + BYTES_PER_PAGE \<le> rd_end lay"
    by (simp add: rd_ring_def rd_end_def RD_BUF_PTR_def)
  then show "buf_ok (rd_ring lay i)" using assms(2) by (simp add: buf_ok_def)
  show "l_rd_buf_addr lay \<le> rd_ring lay i" by (simp add: rd_ring_def RD_BUF_PTR_def)
qed

lemma rd_ring_apart:
  assumes "i mod l_num_rd_buffers lay \<noteq> j mod l_num_rd_buffers lay"
  shows "rd_ring lay i + BYTES_PER_PAGE \<le> rd_ring lay j \<or> rd_ring lay j + BYTES_PER_PAGE \<le> rd_ring lay i"
proof -
  have k: "k * BYTES_PER_PAGE + BYTES_PER_PAGE \<le> m * BYTES_PER_PAGE" if "k < m" for k m :: nat
    using mult_le_mono1 [of "k + 1" m BYTES_PER_PAGE] that by simp
  show ?thesis
    using assms k [of "i mod l_num_rd_buffers lay" "j mod l_num_rd_buffers lay"] k [of "j mod l_num_rd_buffers lay" "i mod l_num_rd_buffers lay"]
    unfolding rd_ring_def RD_BUF_PTR_def by linarith
qed

lemma mod_apart: "i < j \<Longrightarrow> j < N \<Longrightarrow> (b + i) mod N \<noteq> (b + j) mod N" for N :: nat
  by (rule mod_neq_of_close) simp_all

lemma rd_ring_disjoint: "i < j \<Longrightarrow> j < l_num_rd_buffers lay
    \<Longrightarrow> rd_ring lay (b + i) + BYTES_PER_PAGE \<le> rd_ring lay (b + j) \<or> rd_ring lay (b + j) + BYTES_PER_PAGE \<le> rd_ring lay (b + i)"
  by (intro rd_ring_apart mod_apart)

lemma rd_ring_mod: "rd_ring lay ((b + 1) mod l_num_rd_buffers lay + i) = rd_ring lay (b + Suc i)"
  by (simp add: rd_ring_def mod_simps)

text \<open>One page of a request: the part of a flash page goes to the current read buffer.\<close>

lemma ptread_to_host_page:
  assumes hw: "flash_ok lay hw" and ring: "g_ftl_read_buf_id f < l_num_rd_buffers lay" "rd_end lay \<le> 4294967296"
    and bank: "bank < NUM_BANKS" and v: "v < VBLKS_PER_BANK * PAGES_PER_VBLK" and pg: "off + num \<le> SECTORS_PER_PAGE"
  defines "B \<equiv> rd_ring lay (g_ftl_read_buf_id f)"
  shows "\<exists>x. nand_page_ptread_to_host hw lay bank (v div PAGES_PER_VBLK) (v mod PAGES_PER_VBLK) off num f = Some x
    \<and> g_ftl_read_buf_id x = (g_ftl_read_buf_id f + 1) mod l_num_rd_buffers lay \<and> g_ftl_write_buf_id x = g_ftl_write_buf_id f \<and> pages (nand x) = pages (nand f)
    \<and> (\<forall>j. off * 512 \<le> j \<and> j < (off + num) * 512 \<longrightarrow> dram x (B + j) = pages (nand f) (REAL_BANK bank) v j)
    \<and> (\<forall>a < 4294967296. a < B \<or> B + BYTES_PER_PAGE \<le> a \<longrightarrow> dram x a = dram f a)"
proof -
  let ?next = "(g_ftl_read_buf_id f + 1) mod l_num_rd_buffers lay"
  have B: "RD_BUF_PTR lay (g_ftl_read_buf_id f) = B" using ring(1) by (simp add: B_def rd_ring_def)
  have bb: "buf_ok B" using rd_ring_bounds(1) [OF _ ring(2)] ring(1) by (simp add: B_def)
  have le: "off * BYTES_PER_SECTOR + num * BYTES_PER_SECTOR \<le> BYTES_PER_PAGE" "BYTES_PER_SECTOR = 512" using pg by (simp_all add: geom)
  have a: "v div PAGES_PER_VBLK < VBLKS_PER_BANK" "v mod PAGES_PER_VBLK < PAGES_PER_VBLK"
    using v by (simp_all add: div_less_iff_less_mult geom)
  define g where "g = log (Wait_Rbuf ?next) ((setup_fcp FC_COL_ROW_READ_OUT (FO_P + FO_E + FO_B_SATA_R) B (num * BYTES_PER_SECTOR) off bank v f)\<lparr>g_ftl_read_buf_id := ?next\<rparr>)"
  define x where "x = flash_issue_cmd hw bank RETURN_ON_ISSUE g"
  have run: "nand_page_ptread_to_host hw lay bank (v div PAGES_PER_VBLK) (v mod PAGES_PER_VBLK) off num f = Some x"
    using bank a by (simp add: nand_page_ptread_to_host_def page_args_ok_def x_def g_def B setup_fcp_def set_rows_def set_fcp_def Let_def option_last)
  have cmd: "fcp_cmd (fcp g) \<in> {FC_COL_ROW_READ_OUT, FC_COL_OUT}" by (simp add: g_def log_def)
  have sel: "fcp_sel bank v B off (num * BYTES_PER_SECTOR) (fcp g)" using setup_sel [OF opt_mod(4) le(1)] by (simp add: g_def log_def)
  note r = issue_read [OF hw cmd sel bb, where sync = RETURN_ON_ISSUE, folded x_def]
  have g: "dram g = dram f" "nand g = nand f" "g_ftl_read_buf_id g = ?next" "g_ftl_write_buf_id g = g_ftl_write_buf_id f"
    by (simp_all add: g_def)
  have i: "g_ftl_read_buf_id x = ?next" "g_ftl_write_buf_id x = g_ftl_write_buf_id f" by (simp_all add: x_def flash_issue_cmd_fields g)
  have "dram x a = dram f a" if "a < 4294967296" "a < B \<or> B + BYTES_PER_PAGE \<le> a" for a
    using r(3) [of a] that le g(1) by auto
  moreover have "dram x (B + j) = pages (nand f) (REAL_BANK bank) v j" if "off * 512 \<le> j" "j < (off + num) * 512" for j
  proof -
    have "j < off * 512 + num * BYTES_PER_SECTOR" using that(2) le(2) by (simp add: add_mult_distrib)
    from r(2) [OF that(1) this] show ?thesis by (simp add: g(2))
  qed
  ultimately show ?thesis using run i r(1) g(2) by (intro exI [of _ x]) simp
qed

text \<open>A page that was never written: the part of the read buffer is filled with ones.\<close>

lemma rd_ring_fill:
  assumes ring: "i < l_num_rd_buffers lay" and al: "DRAM_BASE \<le> l_rd_buf_addr lay" "l_rd_buf_addr lay mod SDRAM_ECC_UNIT = 0" and pg: "off + num \<le> SECTORS_PER_PAGE"
  defines "B \<equiv> rd_ring lay i"
  shows "\<exists>d'. dram_fill (RD_BUF_PTR lay i + off * BYTES_PER_SECTOR) v (num * BYTES_PER_SECTOR) d = Some d'
    \<and> (\<forall>j. off * 512 \<le> j \<and> j < (off + num) * 512 \<longrightarrow> d' (B + j) = v) \<and> (\<forall>a. a < B \<or> B + BYTES_PER_PAGE \<le> a \<longrightarrow> d' a = d a)"
proof -
  have B: "RD_BUF_PTR lay i = B" using ring by (simp add: B_def rd_ring_def)
  have le: "off * 512 + num * 512 \<le> BYTES_PER_PAGE" using pg by (simp add: geom)
  have "(i * BYTES_PER_PAGE + off * BYTES_PER_SECTOR) mod SDRAM_ECC_UNIT = 0" "num * BYTES_PER_SECTOR mod SDRAM_ECC_UNIT = 0"
    by (simp_all add: geom mod_eq_0_iff_dvd)
  moreover from this(1) al(2) have "(B + off * BYTES_PER_SECTOR) mod SDRAM_ECC_UNIT = 0"
    unfolding B [symmetric] RD_BUF_PTR_def by (simp add: mod_eq_0_iff_dvd add.assoc)
  moreover have "DRAM_BASE \<le> B" using al(1) unfolding B [symmetric] RD_BUF_PTR_def by simp
  ultimately show ?thesis using le by (auto simp: dram_fill_def B geom add_mult_distrib)
qed

text \<open>What a read of \<open>n\<close> sectors from sector \<open>off\<close> of page \<open>lpn\<close> on puts into the read buffers from \<open>b\<close> on, and what it leaves.\<close>

definition delivered :: "buf_layout \<Rightarrow> nat \<Rightarrow> nat \<Rightarrow> nat \<Rightarrow> nat \<Rightarrow> (nat \<Rightarrow> nat \<Rightarrow> u32 option) \<Rightarrow> dram \<Rightarrow> bool" where
  "delivered lay b lpn off n w d \<longleftrightarrow> (\<forall>k < n. \<forall>x < 512. d (rd_ring lay (b + (off + k) div SECTORS_PER_PAGE) + (off + k) mod SECTORS_PER_PAGE * 512 + x)
     = seen (w (lpn + (off + k) div SECTORS_PER_PAGE) ((off + k) mod SECTORS_PER_PAGE * 512 + x)))"

definition read_frame :: "buf_layout \<Rightarrow> nat \<Rightarrow> nat \<Rightarrow> dram \<Rightarrow> dram \<Rightarrow> bool" where
  "read_frame lay b p d d' \<longleftrightarrow> (\<forall>i x. p \<le> i \<and> i < l_num_rd_buffers lay \<and> x < BYTES_PER_PAGE \<longrightarrow> d' (rd_ring lay (b + i) + x) = d (rd_ring lay (b + i) + x))
     \<and> (\<forall>a < 4294967296. a < l_rd_buf_addr lay \<or> rd_end lay \<le> a \<longrightarrow> d' a = d a)"

lemma read_frame_step:
  assumes first: "\<And>a. a < 4294967296 \<Longrightarrow> a < rd_ring lay b \<or> rd_ring lay b + BYTES_PER_PAGE \<le> a \<Longrightarrow> d1 a = d a"
    and rest: "read_frame lay ((b + 1) mod l_num_rd_buffers lay) p d1 d'" and p: "p < l_num_rd_buffers lay" and lay: "rd_end lay \<le> 4294967296"
  shows "read_frame lay b (Suc p) d d'" and "\<And>x. x < BYTES_PER_PAGE \<Longrightarrow> d' (rd_ring lay b + x) = d1 (rd_ring lay b + x)"
proof -
  have n: "0 < l_num_rd_buffers lay" using p by simp
  note R = rd_ring_bounds [OF n lay]
  have b32: "rd_ring lay i + x < 4294967296" if "x < BYTES_PER_PAGE" for i x using R(1) [of i] that by (simp add: buf_ok_def)
  have 1: "d' (rd_ring lay (b + Suc i) + x) = d1 (rd_ring lay (b + Suc i) + x)" if "p \<le> i" "i < l_num_rd_buffers lay" "x < BYTES_PER_PAGE" for i x
    using rest that unfolding read_frame_def rd_ring_mod by blast
  have "d' (rd_ring lay (b + i) + x) = d (rd_ring lay (b + i) + x)" if i: "Suc p \<le> i" "i < l_num_rd_buffers lay" and x: "x < BYTES_PER_PAGE" for i x
  proof -
    obtain j where j: "i = Suc j" using i(1) by (cases i) auto
    have "d1 (rd_ring lay (b + i) + x) = d (rd_ring lay (b + i) + x)"
    proof (rule first [OF b32 [OF x]])
      show "rd_ring lay (b + i) + x < rd_ring lay b \<or> rd_ring lay b + BYTES_PER_PAGE \<le> rd_ring lay (b + i) + x"
        using rd_ring_disjoint [of 0 i lay b] i x by auto
    qed
    with 1 [of j x] i x show ?thesis unfolding j by simp
  qed
  moreover have "d' a = d a" if "a < 4294967296" "a < l_rd_buf_addr lay \<or> rd_end lay \<le> a" for a
  proof -
    have "a < rd_ring lay b \<or> rd_ring lay b + BYTES_PER_PAGE \<le> a" using that(2) R(2,3) [of b] by linarith
    from first [OF that(1) this] rest that show ?thesis unfolding read_frame_def by auto
  qed
  ultimately show "read_frame lay b (Suc p) d d'" unfolding read_frame_def by blast
  have e: "rd_ring lay (b + Suc (l_num_rd_buffers lay - 1)) = rd_ring lay b" using n by (simp add: rd_ring_def)
  show "d' (rd_ring lay b + x) = d1 (rd_ring lay b + x)" if "x < BYTES_PER_PAGE" for x
    using 1 [of "l_num_rd_buffers lay - 1" x] that p unfolding e by simp
qed

lemma delivered_step:
  assumes first: "\<And>x. off * 512 \<le> x \<Longrightarrow> x < (off + num) * 512 \<Longrightarrow> d (rd_ring lay b + x) = seen (w lpn x)"
    and rest: "delivered lay ((b + 1) mod l_num_rd_buffers lay) (lpn + 1) 0 (n - num) w1 d"
    and same: "\<And>l. l < NUM_LPAGES \<Longrightarrow> w1 l = w l" and fits: "lpn * SECTORS_PER_PAGE + off + n \<le> NUM_LPAGES * SECTORS_PER_PAGE"
    and num: "num = min n (SECTORS_PER_PAGE - off)" and off: "off < SECTORS_PER_PAGE"
  shows "delivered lay b lpn off n w d"
  unfolding delivered_def
proof (intro allI impI)
  fix k x :: nat assume k: "k < n" "x < 512"
  have B: "SECTORS_PER_PAGE = 64" "NUM_LPAGES = 1950351" by (simp_all add: geom)
  show "d (rd_ring lay (b + (off + k) div SECTORS_PER_PAGE) + (off + k) mod SECTORS_PER_PAGE * 512 + x)
     = seen (w (lpn + (off + k) div SECTORS_PER_PAGE) ((off + k) mod SECTORS_PER_PAGE * 512 + x))"
  proof (cases "k < num")
    case True
    then have "off + k < 64" using num off unfolding B by linarith
    moreover have "off * 512 \<le> (off + k) * 512 + x" "(off + k) * 512 + x < (off + num) * 512" using True k(2) by simp_all
    ultimately show ?thesis using first [of "(off + k) * 512 + x"] by (simp add: B add.assoc)
  next
    case False
    with k(1) num have e: "num = 64 - off" "off + k = 64 + (k - num)" "off + num = 64" using off by (simp_all add: B min_def split: if_splits)
    let ?k = "k - num"
    have kk: "?k < n - num" using k(1) False by simp
    have dm: "(off + k) div 64 = Suc (?k div 64)" "(off + k) mod 64 = ?k mod 64" unfolding e(2) by simp_all
    have "lpn * 64 + 64 + ?k < NUM_LPAGES * 64" using fits e(2) k(1) unfolding B by linarith
    moreover have "?k div 64 * 64 \<le> ?k" by simp
    ultimately have "lpn + Suc (?k div 64) < NUM_LPAGES" unfolding B by linarith
    then have "seen (w1 (lpn + 1 + ?k div 64) (?k mod 64 * 512 + x)) = seen (w (lpn + Suc (?k div 64)) (?k mod 64 * 512 + x))"
      using same by simp
    moreover have "d (rd_ring lay (b + Suc (?k div 64)) + ?k mod 64 * 512 + x) = seen (w1 (lpn + 1 + ?k div 64) (?k mod 64 * 512 + x))"
      using rest [unfolded delivered_def rd_ring_mod, rule_format, OF kk k(2)] by (simp add: B)
    ultimately show ?thesis unfolding B dm by simp
  qed
qed

text \<open>The reads of a layer: each page goes to the next place of the read buffer ring.\<close>

locale page_reads =
  fixes words :: "'s \<Rightarrow> nat \<Rightarrow> nat \<Rightarrow> u32 option" and mem :: "'s \<Rightarrow> dram" and rbuf :: "'s \<Rightarrow> nat" and lay :: buf_layout
    and I :: "'s \<Rightarrow> bool" and step :: "nat \<Rightarrow> nat \<Rightarrow> nat \<Rightarrow> 's \<Rightarrow> 's \<Rightarrow> bool" and loop :: "nat \<Rightarrow> nat \<Rightarrow> nat \<Rightarrow> 's \<Rightarrow> 's option"
  assumes ring: "rd_end lay \<le> 4294967296"
    and loop_done: "loop lpn off 0 s = Some s"
    and loop_step: "step lpn off (min n (SECTORS_PER_PAGE - off)) s s' \<Longrightarrow> 0 < n \<Longrightarrow> off < SECTORS_PER_PAGE \<Longrightarrow> off + n < 4294967296
      \<Longrightarrow> loop lpn off n s = loop (lpn + 1) 0 (n - min n (SECTORS_PER_PAGE - off)) s'"
    and page_read: "I s \<Longrightarrow> lpn < NUM_LPAGES \<Longrightarrow> rbuf s < l_num_rd_buffers lay \<Longrightarrow> off + num \<le> SECTORS_PER_PAGE \<Longrightarrow> 0 < num
      \<Longrightarrow> \<exists>s'. step lpn off num s s' \<and> I s' \<and> (\<forall>l < NUM_LPAGES. words s' l = words s l) \<and> rbuf s' = (rbuf s + 1) mod l_num_rd_buffers lay
        \<and> (\<forall>x. off * 512 \<le> x \<and> x < (off + num) * 512 \<longrightarrow> mem s' (rd_ring lay (rbuf s) + x) = seen (words s lpn x))
        \<and> (\<forall>a < 4294967296. a < rd_ring lay (rbuf s) \<or> rd_ring lay (rbuf s) + BYTES_PER_PAGE \<le> a \<longrightarrow> mem s' a = mem s a)"
begin

lemma loop_delivers:
  "I s \<Longrightarrow> off < SECTORS_PER_PAGE \<Longrightarrow> lpn * SECTORS_PER_PAGE + off + n \<le> NUM_LPAGES * SECTORS_PER_PAGE
    \<Longrightarrow> rbuf s < l_num_rd_buffers lay \<Longrightarrow> span off n \<le> l_num_rd_buffers lay
    \<Longrightarrow> \<exists>s'. loop lpn off n s = Some s' \<and> I s' \<and> (\<forall>l < NUM_LPAGES. words s' l = words s l) \<and> delivered lay (rbuf s) lpn off n (words s) (mem s')
      \<and> read_frame lay (rbuf s) (span off n) (mem s) (mem s') \<and> rbuf s' = (rbuf s + span off n) mod l_num_rd_buffers lay"
proof (induction n arbitrary: lpn off s rule: less_induct)
  case (less n)
  show ?case
  proof (cases "n = 0")
    case True
    then show ?thesis using less.prems(1,4) by (auto simp: loop_done delivered_def read_frame_def span_def)
  next
    case False
    then have n: "0 < n" by simp
    define num where "num = min n (SECTORS_PER_PAGE - off)"
    note F = next_fits [OF num_def less.prems(2) n less.prems(3)] and S = span_step [OF num_def less.prems(2) n]
    let ?b = "rbuf s" and ?p = "span 0 (n - num)"
    have p: "?p < l_num_rd_buffers lay" using less.prems(5) S by simp
    obtain s1 where s1: "step lpn off num s s1" "I s1" "\<forall>l < NUM_LPAGES. words s1 l = words s l" "rbuf s1 = (?b + 1) mod l_num_rd_buffers lay"
      "\<forall>x. off * 512 \<le> x \<and> x < (off + num) * 512 \<longrightarrow> mem s1 (rd_ring lay ?b + x) = seen (words s lpn x)"
      "\<forall>a < 4294967296. a < rd_ring lay ?b \<or> rd_ring lay ?b + BYTES_PER_PAGE \<le> a \<longrightarrow> mem s1 a = mem s a"
      using page_read [OF less.prems(1) F(1) less.prems(4) F(5,3)] by blast
    have b1: "rbuf s1 < l_num_rd_buffers lay" using less.prems(4) unfolding s1(4) by simp
    have "0 < SECTORS_PER_PAGE" by (simp add: geom)
    from less.IH [OF F(4) s1(2) this F(6) b1] p obtain s' where s': "loop (lpn + 1) 0 (n - num) s1 = Some s'" "I s'"
      "\<forall>l < NUM_LPAGES. words s' l = words s1 l" "delivered lay ((?b + 1) mod l_num_rd_buffers lay) (lpn + 1) 0 (n - num) (words s1) (mem s')"
      "read_frame lay ((?b + 1) mod l_num_rd_buffers lay) ?p (mem s1) (mem s')"
      "rbuf s' = (rbuf s1 + ?p) mod l_num_rd_buffers lay" unfolding s1(4) by auto
    have run: "loop lpn off n s = Some s'" using loop_step [of lpn off n s s1] s1(1) n less.prems(2) F(2) s'(1) by (simp add: num_def)
    have fr: "read_frame lay ?b (span off n) (mem s) (mem s')"
      unfolding S by (rule read_frame_step(1) [OF _ s'(5) p ring]) (use s1(6) in blast)
    have keep: "mem s' (rd_ring lay ?b + x) = mem s1 (rd_ring lay ?b + x)" if "x < BYTES_PER_PAGE" for x
      by (rule read_frame_step(2) [where d = "mem s", OF _ s'(5) p ring that]) (use s1(6) in blast)
    have "delivered lay ?b lpn off n (words s) (mem s')"
    proof (rule delivered_step [OF _ s'(4) _ less.prems(3) num_def less.prems(2)])
      show "mem s' (rd_ring lay ?b + x) = seen (words s lpn x)" if "off * 512 \<le> x" "x < (off + num) * 512" for x
      proof -
        have "x < BYTES_PER_PAGE" using that(2) F(5) by (simp add: geom)
        from keep [OF this] s1(5) that show ?thesis by simp
      qed
    qed (use s1(3) in blast)
    moreover have "rbuf s' = (?b + span off n) mod l_num_rd_buffers lay" unfolding s'(6) s1(4) S by (simp add: mod_simps)
    ultimately show ?thesis using run s'(2,3) s1(3) fr by simp
  qed
qed

lemma read_sectors:
  assumes "I s" and "lba + n \<le> NUM_LSECTORS" and "rbuf s < l_num_rd_buffers lay" and "span (lba mod SECTORS_PER_PAGE) n \<le> l_num_rd_buffers lay"
  shows "\<exists>s'. loop (lba div SECTORS_PER_PAGE) (lba mod SECTORS_PER_PAGE) n s = Some s' \<and> I s' \<and> (\<forall>i < NUM_LSECTORS. \<forall>x < 512. sector (words s') i x = sector (words s) i x)
    \<and> (\<forall>k < n. \<forall>x < 512. mem s' (rd_ring lay (rbuf s + (lba mod SECTORS_PER_PAGE + k) div SECTORS_PER_PAGE) + (lba + k) mod SECTORS_PER_PAGE * 512 + x)
         = seen (sector (words s) (lba + k) x))
    \<and> read_frame lay (rbuf s) (span (lba mod SECTORS_PER_PAGE) n) (mem s) (mem s')
    \<and> rbuf s' = (rbuf s + span (lba mod SECTORS_PER_PAGE) n) mod l_num_rd_buffers lay"
proof -
  let ?l = "lba div SECTORS_PER_PAGE" and ?o = "lba mod SECTORS_PER_PAGE"
  have o: "?o < SECTORS_PER_PAGE" by (simp add: geom)
  have "?l * SECTORS_PER_PAGE + ?o + n \<le> NUM_LPAGES * SECTORS_PER_PAGE" using assms(2) by (simp add: geom)
  from loop_delivers [OF assms(1) o this assms(3,4)] obtain s' where
    s': "loop ?l ?o n s = Some s'" "I s'" "\<forall>l < NUM_LPAGES. words s' l = words s l" "delivered lay (rbuf s) ?l ?o n (words s) (mem s')"
      "read_frame lay (rbuf s) (span ?o n) (mem s) (mem s')" "rbuf s' = (rbuf s + span ?o n) mod l_num_rd_buffers lay" by blast
  have "mem s' (rd_ring lay (rbuf s + (?o + k) div SECTORS_PER_PAGE) + (lba + k) mod SECTORS_PER_PAGE * 512 + x) = seen (sector (words s) (lba + k) x)"
    if "k < n" "x < 512" for k x
  proof -
    have "(?o + k) mod SECTORS_PER_PAGE = (lba + k) mod SECTORS_PER_PAGE" by (simp add: mod_simps)
    moreover have "?l + (?o + k) div SECTORS_PER_PAGE = (lba + k) div SECTORS_PER_PAGE"
    proof -
      have "lba + k = ?o + k + ?l * SECTORS_PER_PAGE" by (simp add: algebra_simps)
      then have "(lba + k) div SECTORS_PER_PAGE = (?o + k + ?l * SECTORS_PER_PAGE) div SECTORS_PER_PAGE" by (rule arg_cong)
      also have "\<dots> = ?l + (?o + k) div SECTORS_PER_PAGE" by (rule div_mult_self1) (simp add: geom)
      finally show ?thesis by (rule sym)
    qed
    ultimately show ?thesis using s'(4) [unfolded delivered_def, rule_format, OF that] by (simp add: sector_def)
  qed
  moreover have "sector (words s') i x = sector (words s) i x" if "i < NUM_LSECTORS" "x < 512" for i x
    using s'(3) sec_pos(1) [OF that] by (simp add: sector_def)
  ultimately show ?thesis using s' by blast
qed

end

end
