(* ===== verification/Ftl_Tutorial.thy ===== *)
theory Ftl_Tutorial
  imports Page_Requests
begin

text \<open>
  The tutorial flash translation layer (\<open>ftl_tutorial/ftl.c\<close>, \<open>ftl_tutorial/ftl.h\<close>), the layer the in-storage
  operations run on: page mapping in DRAM, one append point per bank, no garbage collection, and the two
  routines \<open>issd_read_sectors\<close> and \<open>issd_write_sectors\<close> that copy between a DRAM buffer and the store. A
  state is the driver's \<open>fstate\<close> with the layer's global variables; a page-mapping entry is read and written
  at its address in the logical memory. \<open>None\<close> is a function that does not return: a failed assertion, or
  one of the endless loops the code enters when it cannot go on.
\<close>

subsection \<open>DRAM layout\<close>

definition NUM_COPY_BUFFERS :: nat where
  "NUM_COPY_BUFFERS = NUM_BANKS_MAX"

definition NUM_FTL_BUFFERS :: nat where
  "NUM_FTL_BUFFERS = 1"

definition NUM_HIL_BUFFERS :: nat where
  "NUM_HIL_BUFFERS = 1"

definition NUM_TEMP_BUFFERS :: nat where
  "NUM_TEMP_BUFFERS = 1"

definition SCAN_LIST_BYTES :: nat where
  "SCAN_LIST_BYTES = SCAN_LIST_SIZE * NUM_BANKS"

definition PAGE_MAP_BYTES :: nat where
  "PAGE_MAP_BYTES = (NUM_LPAGES * 4 + BYTES_PER_SECTOR - 1) div BYTES_PER_SECTOR * BYTES_PER_SECTOR"

definition ISSD_CMD_BYTES :: nat where
  "ISSD_CMD_BYTES = BYTES_PER_PAGE"

definition ISSD_WR_BUF_BYTES :: nat where
  "ISSD_WR_BUF_BYTES = BYTES_PER_PAGE"

definition ISSD_CNT_PAGES :: nat where
  "ISSD_CNT_PAGES = 500"

definition ISSD_CNT_SECTORS :: nat where
  "ISSD_CNT_SECTORS = ISSD_CNT_PAGES * SECTORS_PER_PAGE"

definition ISSD_COMPUTING_BYTES :: nat where
  "ISSD_COMPUTING_BYTES = ISSD_CNT_PAGES * BYTES_PER_PAGE"

definition DRAM_BYTES_OTHER :: nat where
  "DRAM_BYTES_OTHER = (NUM_COPY_BUFFERS + NUM_FTL_BUFFERS + NUM_HIL_BUFFERS + NUM_TEMP_BUFFERS) * BYTES_PER_PAGE
     + SCAN_LIST_BYTES + PAGE_MAP_BYTES + ISSD_CMD_BYTES + ISSD_WR_BUF_BYTES + ISSD_COMPUTING_BYTES"

definition NUM_RW_BUFFERS :: nat where
  "NUM_RW_BUFFERS = (DRAM_SIZE - DRAM_BYTES_OTHER) div BYTES_PER_PAGE - 1"

definition NUM_RD_BUFFERS :: nat where
  "NUM_RD_BUFFERS = ((NUM_RW_BUFFERS div 8) + NUM_BANKS - 1) div NUM_BANKS * NUM_BANKS"

definition NUM_WR_BUFFERS :: nat where
  "NUM_WR_BUFFERS = NUM_RW_BUFFERS - NUM_RD_BUFFERS"

definition RD_BUF_ADDR :: nat where
  "RD_BUF_ADDR = DRAM_BASE"

definition RD_BUF_BYTES :: nat where
  "RD_BUF_BYTES = NUM_RD_BUFFERS * BYTES_PER_PAGE"

definition WR_BUF_ADDR :: nat where
  "WR_BUF_ADDR = RD_BUF_ADDR + RD_BUF_BYTES"

definition WR_BUF_BYTES :: nat where
  "WR_BUF_BYTES = NUM_WR_BUFFERS * BYTES_PER_PAGE"

definition COPY_BUF_ADDR :: nat where
  "COPY_BUF_ADDR = WR_BUF_ADDR + WR_BUF_BYTES"

definition COPY_BUF_BYTES :: nat where
  "COPY_BUF_BYTES = NUM_COPY_BUFFERS * BYTES_PER_PAGE"

definition FTL_BUF_ADDR :: nat where
  "FTL_BUF_ADDR = COPY_BUF_ADDR + COPY_BUF_BYTES"

definition FTL_BUF_BYTES :: nat where
  "FTL_BUF_BYTES = NUM_FTL_BUFFERS * BYTES_PER_PAGE"

definition HIL_BUF_ADDR :: nat where
  "HIL_BUF_ADDR = FTL_BUF_ADDR + FTL_BUF_BYTES"

definition HIL_BUF_BYTES :: nat where
  "HIL_BUF_BYTES = NUM_HIL_BUFFERS * BYTES_PER_PAGE"

definition TEMP_BUF_ADDR :: nat where
  "TEMP_BUF_ADDR = HIL_BUF_ADDR + HIL_BUF_BYTES"

definition TEMP_BUF_BYTES :: nat where
  "TEMP_BUF_BYTES = NUM_TEMP_BUFFERS * BYTES_PER_PAGE"

definition SCAN_LIST_ADDR :: nat where
  "SCAN_LIST_ADDR = TEMP_BUF_ADDR + TEMP_BUF_BYTES"

definition PAGE_MAP_ADDR :: nat where
  "PAGE_MAP_ADDR = SCAN_LIST_ADDR + SCAN_LIST_BYTES"

definition ISSD_CMD_BUFFER_ADDR :: nat where
  "ISSD_CMD_BUFFER_ADDR = PAGE_MAP_ADDR + PAGE_MAP_BYTES"

definition ISSD_WR_BUF_ADDR :: nat where
  "ISSD_WR_BUF_ADDR = ISSD_CMD_BUFFER_ADDR + ISSD_CMD_BYTES"

definition ISSD_COMPUTING_ADDR :: nat where
  "ISSD_COMPUTING_ADDR = ISSD_WR_BUF_ADDR + ISSD_WR_BUF_BYTES"

lemma tutorial_geom [geom]:
  "NUM_COPY_BUFFERS = 32"
  "NUM_FTL_BUFFERS = 1"
  "NUM_HIL_BUFFERS = 1"
  "NUM_TEMP_BUFFERS = 1"
  "SCAN_LIST_BYTES = 131072"
  "PAGE_MAP_BYTES = 7801856"
  "ISSD_CMD_BYTES = 32768"
  "ISSD_WR_BUF_BYTES = 32768"
  "ISSD_CNT_PAGES = 500"
  "ISSD_CNT_SECTORS = 32000"
  "ISSD_COMPUTING_BYTES = 16384000"
  "DRAM_BYTES_OTHER = 25529344"
  "NUM_RW_BUFFERS = 1205"
  "NUM_RD_BUFFERS = 152"
  "NUM_WR_BUFFERS = 1053"
  "RD_BUF_ADDR = 1073741824"
  "RD_BUF_BYTES = 4980736"
  "WR_BUF_ADDR = 1078722560"
  "WR_BUF_BYTES = 34504704"
  "COPY_BUF_ADDR = 1113227264"
  "COPY_BUF_BYTES = 1048576"
  "FTL_BUF_ADDR = 1114275840"
  "FTL_BUF_BYTES = 32768"
  "HIL_BUF_ADDR = 1114308608"
  "HIL_BUF_BYTES = 32768"
  "TEMP_BUF_ADDR = 1114341376"
  "TEMP_BUF_BYTES = 32768"
  "SCAN_LIST_ADDR = 1114374144"
  "PAGE_MAP_ADDR = 1114505216"
  "ISSD_CMD_BUFFER_ADDR = 1122307072"
  "ISSD_WR_BUF_ADDR = 1122339840"
  "ISSD_COMPUTING_ADDR = 1122372608"
  by (simp_all add: NUM_COPY_BUFFERS_def NUM_FTL_BUFFERS_def NUM_HIL_BUFFERS_def NUM_TEMP_BUFFERS_def SCAN_LIST_BYTES_def PAGE_MAP_BYTES_def ISSD_CMD_BYTES_def ISSD_WR_BUF_BYTES_def ISSD_CNT_PAGES_def ISSD_CNT_SECTORS_def ISSD_COMPUTING_BYTES_def DRAM_BYTES_OTHER_def NUM_RW_BUFFERS_def NUM_RD_BUFFERS_def NUM_WR_BUFFERS_def RD_BUF_ADDR_def RD_BUF_BYTES_def WR_BUF_ADDR_def WR_BUF_BYTES_def COPY_BUF_ADDR_def COPY_BUF_BYTES_def FTL_BUF_ADDR_def FTL_BUF_BYTES_def HIL_BUF_ADDR_def HIL_BUF_BYTES_def TEMP_BUF_ADDR_def TEMP_BUF_BYTES_def SCAN_LIST_ADDR_def PAGE_MAP_ADDR_def ISSD_CMD_BUFFER_ADDR_def ISSD_WR_BUF_ADDR_def ISSD_COMPUTING_ADDR_def geom)
definition tut_layout :: buf_layout where
  "tut_layout = \<lparr>l_rd_buf_addr = RD_BUF_ADDR, l_num_rd_buffers = NUM_RD_BUFFERS, l_wr_buf_addr = WR_BUF_ADDR,
     l_num_wr_buffers = NUM_WR_BUFFERS, l_copy_buf_addr = COPY_BUF_ADDR\<rparr>"

lemma tut_layout_fields [simp]:
  "l_rd_buf_addr tut_layout = RD_BUF_ADDR" "l_num_rd_buffers tut_layout = NUM_RD_BUFFERS" "l_wr_buf_addr tut_layout = WR_BUF_ADDR"
  "l_num_wr_buffers tut_layout = NUM_WR_BUFFERS" "l_copy_buf_addr tut_layout = COPY_BUF_ADDR"
  by (simp_all add: tut_layout_def)

subsection \<open>State\<close>

text \<open>\<open>intr\<close> and \<open>bsp_cmd\<close> are the interrupt flags and the last command that the banks show when the
  code reads them.\<close>

record tstate =
  fl :: fstate
  g_target_row :: "nat \<Rightarrow> nat"
  g_target_bank :: nat
  g_scan_list_entries :: "nat \<Rightarrow> nat"
  g_read_fail_count :: nat
  g_program_fail_count :: nat
  g_erase_fail_count :: nat
  intr :: "nat \<Rightarrow> nat"
  bsp_cmd :: "nat \<Rightarrow> nat"

definition on_fl :: "(fstate \<Rightarrow> fstate) \<Rightarrow> tstate \<Rightarrow> tstate" where
  "on_fl f s = s\<lparr>fl := f (fl s)\<rparr>"

definition tdram :: "tstate \<Rightarrow> dram" where
  "tdram s = dram (fl s)"

definition set_dram :: "dram \<Rightarrow> tstate \<Rightarrow> tstate" where
  "set_dram d s = on_fl (\<lambda>f. f\<lparr>dram := d\<rparr>) s"

subsection \<open>Mapping table and allocation\<close>

definition get_physical_address :: "nat \<Rightarrow> tstate \<Rightarrow> nat option" where
  "get_physical_address lpage_addr s = rd32 (PAGE_MAP_ADDR + lpage_addr * 4) (tdram s)"

definition update_physical_address :: "nat \<Rightarrow> nat \<Rightarrow> nat \<Rightarrow> tstate \<Rightarrow> tstate option" where
  "update_physical_address lpage_addr new_bank new_row s = do {
     d \<leftarrow> wr32 (PAGE_MAP_ADDR + lpage_addr * 4) (new_bank * PAGES_PER_BANK + new_row) (tdram s);
     Some (set_dram d s) }"

text \<open>\<open>scan_list + bank\<close>: the structure is \<open>SCAN_LIST_SIZE\<close> bytes long.\<close>

definition scan_list :: "nat \<Rightarrow> nat" where
  "scan_list bank = SCAN_LIST_ADDR + bank * SCAN_LIST_SIZE"

definition is_bad_block :: "dram \<Rightarrow> (nat \<Rightarrow> nat) \<Rightarrow> nat \<Rightarrow> nat \<Rightarrow> bool option" where
  "is_bad_block d entries bank vblk_offset = do {
     i \<leftarrow> search_equ 2 (scan_list bank) (entries bank) (vblk_offset * NUM_PLANES) d;
     if i < entries bank then Some True
     else do {
       i \<leftarrow> search_equ 2 (scan_list bank) (entries bank) (vblk_offset * NUM_PLANES + 1) d;
       Some (i < entries bank) } }"

text \<open>\<open>while (is_bad_block(bank, vblk_offset) && vblk_offset < VBLKS_PER_BANK) vblk_offset++\<close>\<close>

function skip_bad :: "(nat \<Rightarrow> bool option) \<Rightarrow> nat \<Rightarrow> nat option" where
  "skip_bad bad vblk_offset =
     (case bad vblk_offset of None \<Rightarrow> None
      | Some b \<Rightarrow> if b \<and> vblk_offset < VBLKS_PER_BANK then skip_bad bad (vblk_offset + 1) else Some vblk_offset)"
  by pat_completeness auto
termination
  by (relation "measure (\<lambda>(bad, v). VBLKS_PER_BANK - v)") auto

declare skip_bad.simps [simp del]

definition get_free_page :: "nat \<Rightarrow> tstate \<Rightarrow> (nat \<times> tstate) option" where
  "get_free_page bank s = do {
     let row = g_target_row s bank;
     let vblk_offset = row div PAGES_PER_VBLK;
     let page_offset = row mod PAGES_PER_VBLK;
     vblk_offset \<leftarrow> (if page_offset = 0 then skip_bad (is_bad_block (tdram s) (g_scan_list_entries s) bank) vblk_offset
                     else Some vblk_offset);
     if VBLKS_PER_BANK \<le> vblk_offset then None
     else do {
       let row = vblk_offset * PAGES_PER_VBLK + page_offset;
       Some (row, s\<lparr>g_target_row := (g_target_row s)(bank := row + 1)\<rparr>) } }"

subsection \<open>Reading\<close>

text \<open>One iteration of the loop of \<open>issd_read_sectors\<close>; \<open>False\<close> is the return with -1.\<close>

definition issd_read_page ::
    "flash_hw \<Rightarrow> nat \<Rightarrow> nat \<Rightarrow> nat \<Rightarrow> nat \<Rightarrow> tstate \<Rightarrow> (bool \<times> tstate) option" where
  "issd_read_page hw buf_addr lpage_addr sect_offset num_sectors_to_read s = do {
     temp \<leftarrow> get_physical_address lpage_addr s;
     if temp \<noteq> 0
     then do {
       let bank = temp div PAGES_PER_BANK;
       let row = temp mod PAGES_PER_BANK;
       let s = on_fl (setup_fcp FC_COL_ROW_READ_OUT (FO_P + FO_E) buf_addr (num_sectors_to_read * BYTES_PER_SECTOR)
                 sect_offset bank row) s;
       Some (True, on_fl (flash_issue_cmd hw bank RETURN_ON_ISSUE) s) }
     else Some (False, s) }"

partial_function (option) issd_read_loop ::
    "flash_hw \<Rightarrow> nat \<Rightarrow> nat \<Rightarrow> nat \<Rightarrow> nat \<Rightarrow> tstate \<Rightarrow> (int \<times> tstate) option" where
  "issd_read_loop hw buf_addr lpage_addr sect_offset sectors_remain s =
     (if sectors_remain = 0 then Some (0, on_fl flash_finish s)
      else
        (let num = (if wrap32 (sect_offset + sectors_remain) < SECTORS_PER_PAGE then sectors_remain
                    else SECTORS_PER_PAGE - sect_offset) in
         do {
           (ok, s) \<leftarrow> issd_read_page hw buf_addr lpage_addr sect_offset num s;
           if ok then issd_read_loop hw (wrap32 (buf_addr + BYTES_PER_PAGE)) (lpage_addr + 1) 0 (sectors_remain - num) s
           else Some (-1, s) }))"

definition issd_read_sectors :: "flash_hw \<Rightarrow> nat \<Rightarrow> nat \<Rightarrow> nat \<Rightarrow> tstate \<Rightarrow> (int \<times> tstate) option" where
  "issd_read_sectors hw buf_addr lba total_sectors s =
     issd_read_loop hw buf_addr (lba div SECTORS_PER_PAGE) (lba mod SECTORS_PER_PAGE) total_sectors s"

text \<open>
  \<open>ftl_read\<close>: the same chunks, to the host's ring of read buffers. For a page that was never written the
  buffer is filled with 0xFF and the buffer manager's read limit is moved by the firmware.
\<close>

definition ftl_read_page :: "flash_hw \<Rightarrow> nat \<Rightarrow> nat \<Rightarrow> nat \<Rightarrow> tstate \<Rightarrow> tstate option" where
  "ftl_read_page hw lpage_addr sect_offset num_sectors_to_read s = do {
     temp \<leftarrow> get_physical_address lpage_addr s;
     let buf = g_ftl_read_buf_id (fl s);
     let next_read_buf_id = (buf + 1) mod NUM_RD_BUFFERS;
     if temp \<noteq> 0
     then do {
       let bank = temp div PAGES_PER_BANK;
       let row = temp mod PAGES_PER_BANK;
       let s = on_fl (setup_fcp FC_COL_ROW_READ_OUT (FO_P + FO_E + FO_B_SATA_R) (RD_BUF_PTR tut_layout buf)
                 (num_sectors_to_read * BYTES_PER_SECTOR) sect_offset bank row) s;
       let s = on_fl (\<lambda>f. log (Wait_Rbuf next_read_buf_id) (f\<lparr>g_ftl_read_buf_id := next_read_buf_id\<rparr>)) s;
       Some (on_fl (flash_issue_cmd hw bank RETURN_ON_ISSUE) s) }
     else do {
       let s = on_fl (log (Wait_Rbuf next_read_buf_id)) s;
       d \<leftarrow> dram_fill (RD_BUF_PTR tut_layout buf + sect_offset * BYTES_PER_SECTOR) 0xFFFFFFFF
              (num_sectors_to_read * BYTES_PER_SECTOR) (tdram s);
       let s = on_fl (log Wait_Idle) (set_dram d s);
       let s = on_fl (SETREG BM_STACK_RDSET next_read_buf_id) s;
       let s = on_fl (SETREG BM_STACK_RESET 0x02) s;
       Some (on_fl (\<lambda>f. f\<lparr>g_ftl_read_buf_id := next_read_buf_id\<rparr>) s) } }"

partial_function (option) ftl_read_loop :: "flash_hw \<Rightarrow> nat \<Rightarrow> nat \<Rightarrow> nat \<Rightarrow> tstate \<Rightarrow> tstate option" where
  "ftl_read_loop hw lpage_addr sect_offset sectors_remain s =
     (if sectors_remain = 0 then Some s
      else
        (let num = (if wrap32 (sect_offset + sectors_remain) < SECTORS_PER_PAGE then sectors_remain
                    else SECTORS_PER_PAGE - sect_offset) in
         do {
           s \<leftarrow> ftl_read_page hw lpage_addr sect_offset num s;
           ftl_read_loop hw (lpage_addr + 1) 0 (sectors_remain - num) s }))"

definition ftl_read :: "flash_hw \<Rightarrow> nat \<Rightarrow> nat \<Rightarrow> tstate \<Rightarrow> tstate option" where
  "ftl_read hw lba total_sectors s =
     ftl_read_loop hw (lba div SECTORS_PER_PAGE) (lba mod SECTORS_PER_PAGE) total_sectors s"

subsection \<open>Writing\<close>

text \<open>
  The chunk of one iteration: the sectors to write and the right hole; the left hole is \<open>sect_offset\<close>.
\<close>

definition write_chunk :: "nat \<Rightarrow> nat \<Rightarrow> nat \<times> nat" where
  "write_chunk sect_offset remain_sectors =
     (if SECTORS_PER_PAGE \<le> wrap32 (sect_offset + remain_sectors) then (SECTORS_PER_PAGE - sect_offset, 0)
      else (remain_sectors, SECTORS_PER_PAGE - (sect_offset + remain_sectors - 1) - 1))"

text \<open>
  The old sectors left and right of the new ones are read into the buffer \<open>buf\<close>; the second read of the
  same page needs no new sensing.
\<close>

definition read_holes :: "flash_hw \<Rightarrow> nat \<Rightarrow> nat \<Rightarrow> nat \<Rightarrow> nat \<Rightarrow> nat \<Rightarrow> fstate \<Rightarrow> fstate" where
  "read_holes hw buf left_hole_sectors right_hole_sectors old_bank old_row s =
     (let s = (if left_hole_sectors \<noteq> 0
               then flash_issue_cmd hw old_bank RETURN_ON_ISSUE
                 (setup_fcp FC_COL_ROW_READ_OUT (FO_P + FO_E) buf (left_hole_sectors * BYTES_PER_SECTOR) 0 old_bank old_row s)
               else s)
      in if right_hole_sectors \<noteq> 0
         then flash_issue_cmd hw old_bank RETURN_ON_ISSUE
           (setup_fcp (if left_hole_sectors \<noteq> 0 then FC_COL_OUT else FC_COL_ROW_READ_OUT) (FO_P + FO_E) buf
              (right_hole_sectors * BYTES_PER_SECTOR) (SECTORS_PER_PAGE - right_hole_sectors) old_bank old_row s)
         else s)"

text \<open>
  The program command of one iteration, from the buffer \<open>buf\<close>. When old data came from another bank the
  code waits until that bank has delivered it.
\<close>

definition program_page ::
    "flash_hw \<Rightarrow> nat \<Rightarrow> nat \<Rightarrow> sync \<Rightarrow> bool \<Rightarrow> nat \<Rightarrow> nat \<Rightarrow> nat \<Rightarrow> nat \<Rightarrow> nat \<Rightarrow> nat \<Rightarrow> fstate \<Rightarrow> fstate" where
  "program_page hw opt buf sync read_old_data sect_offset num right old_bank new_bank new_row s =
     (let left = sect_offset;
          s = setup_fcp FC_COL_ROW_IN_PROG opt buf ((left + num + right) * BYTES_PER_SECTOR)
                (if left \<noteq> 0 then 0 else sect_offset) new_bank new_row s;
          s = (if read_old_data \<and> old_bank \<noteq> new_bank
               then log (Wait_Bank (REAL_BANK old_bank)) (log Wait_Room s) else s)
      in flash_issue_cmd hw new_bank sync s)"

definition issd_write_page ::
    "flash_hw \<Rightarrow> nat \<Rightarrow> nat \<Rightarrow> nat \<Rightarrow> nat \<Rightarrow> tstate \<Rightarrow> (nat \<times> tstate) option" where
  "issd_write_page hw buf_addr lpage_addr sect_offset remain_sectors s = do {
     let new_bank = g_target_bank s;
     let s = s\<lparr>g_target_bank := (g_target_bank s + 1) mod NUM_BANKS\<rparr>;
     (new_row, s) \<leftarrow> get_free_page new_bank s;
     old_phys_page \<leftarrow> get_physical_address lpage_addr s;
     let old_bank = old_phys_page div PAGES_PER_BANK;
     let old_row = old_phys_page mod PAGES_PER_BANK;
     let (num, right) = write_chunk sect_offset remain_sectors;
     d \<leftarrow> dram_move (ISSD_WR_BUF_ADDR + sect_offset * BYTES_PER_SECTOR) buf_addr (num * BYTES_PER_SECTOR) (tdram s);
     let s = set_dram d s;
     let s = (if old_phys_page \<noteq> 0 then on_fl (read_holes hw ISSD_WR_BUF_ADDR sect_offset right old_bank old_row) s else s);
     let read_old_data = (old_phys_page \<noteq> 0 \<and> (sect_offset \<noteq> 0 \<or> right \<noteq> 0));
     let s = on_fl (program_page hw (FO_P + FO_E + FO_B_W_DRDY) ISSD_WR_BUF_ADDR RETURN_WHEN_DONE read_old_data
               sect_offset num right old_bank new_bank new_row) s;
     s \<leftarrow> update_physical_address lpage_addr new_bank new_row s;
     Some (num, s) }"

partial_function (option) issd_write_loop ::
    "flash_hw \<Rightarrow> nat \<Rightarrow> nat \<Rightarrow> nat \<Rightarrow> nat \<Rightarrow> tstate \<Rightarrow> (int \<times> tstate) option" where
  "issd_write_loop hw buf_addr lpage_addr sect_offset remain_sectors s =
     (if remain_sectors = 0 then Some (0, on_fl flash_finish s)
      else do {
        (num, s) \<leftarrow> issd_write_page hw buf_addr lpage_addr sect_offset remain_sectors s;
        issd_write_loop hw (wrap32 (buf_addr + num * BYTES_PER_SECTOR)) (lpage_addr + 1) 0 (remain_sectors - num) s })"

definition issd_write_sectors :: "flash_hw \<Rightarrow> nat \<Rightarrow> nat \<Rightarrow> nat \<Rightarrow> tstate \<Rightarrow> (int \<times> tstate) option" where
  "issd_write_sectors hw buf_addr lba total_sectors s =
     issd_write_loop hw buf_addr (lba div SECTORS_PER_PAGE) (lba mod SECTORS_PER_PAGE) total_sectors s"

definition ftl_write_page :: "flash_hw \<Rightarrow> nat \<Rightarrow> nat \<Rightarrow> nat \<Rightarrow> tstate \<Rightarrow> (nat \<times> tstate) option" where
  "ftl_write_page hw lpage_addr sect_offset remain_sectors s = do {
     let new_bank = g_target_bank s;
     let s = s\<lparr>g_target_bank := (g_target_bank s + 1) mod NUM_BANKS\<rparr>;
     (new_row, s) \<leftarrow> get_free_page new_bank s;
     old_phys_page \<leftarrow> get_physical_address lpage_addr s;
     let old_bank = old_phys_page div PAGES_PER_BANK;
     let old_row = old_phys_page mod PAGES_PER_BANK;
     let (num, right) = write_chunk sect_offset remain_sectors;
     let buf = WR_BUF_PTR tut_layout (g_ftl_write_buf_id (fl s));
     let s = (if old_phys_page \<noteq> 0 then on_fl (read_holes hw buf sect_offset right old_bank old_row) s else s);
     let read_old_data = (old_phys_page \<noteq> 0 \<and> (sect_offset \<noteq> 0 \<or> right \<noteq> 0));
     let s = on_fl (program_page hw (FO_P + FO_E + FO_B_SATA_W) buf RETURN_ON_ISSUE read_old_data
               sect_offset num right old_bank new_bank new_row) s;
     s \<leftarrow> update_physical_address lpage_addr new_bank new_row s;
     Some (num, on_fl (\<lambda>f. f\<lparr>g_ftl_write_buf_id := (g_ftl_write_buf_id f + 1) mod NUM_WR_BUFFERS\<rparr>) s) }"

partial_function (option) ftl_write_loop :: "flash_hw \<Rightarrow> nat \<Rightarrow> nat \<Rightarrow> nat \<Rightarrow> tstate \<Rightarrow> tstate option" where
  "ftl_write_loop hw lpage_addr sect_offset remain_sectors s =
     (if remain_sectors = 0 then Some s
      else do {
        (num, s) \<leftarrow> ftl_write_page hw lpage_addr sect_offset remain_sectors s;
        ftl_write_loop hw (lpage_addr + 1) 0 (remain_sectors - num) s })"

definition ftl_write :: "flash_hw \<Rightarrow> nat \<Rightarrow> nat \<Rightarrow> tstate \<Rightarrow> tstate option" where
  "ftl_write hw lba total_sectors s =
     ftl_write_loop hw (lba div SECTORS_PER_PAGE) (lba mod SECTORS_PER_PAGE) total_sectors s"

subsection \<open>Opening, formatting, interrupts\<close>

text \<open>The scan list of a bank, as it is after the read: each entry is checked and stripped of its flag.\<close>

fun scan_entries :: "nat \<Rightarrow> nat list \<Rightarrow> bool \<times> dram \<Rightarrow> (bool \<times> dram) option" where
  "scan_entries bank [] (ok, d) = Some (ok, d)"
| "scan_entries bank (i # is) (ok, d) = do {
     entry \<leftarrow> rd16 (scan_list bank + 2 + 2 * i) d;
     let pblk_offset = entry mod 0x8000;
     if pblk_offset = 0 \<or> PBLKS_PER_BANK \<le> pblk_offset then scan_entries bank is (False, d)
     else do {
       d \<leftarrow> wr16 (scan_list bank + 2 + 2 * i) pblk_offset d;
       scan_entries bank is (ok, d) } }"

definition load_scan_list :: "nat \<Rightarrow> tstate \<Rightarrow> tstate option" where
  "load_scan_list bank s = do {
     (ok, num_entries, d) \<leftarrow>
       (if intr s bank AND FIRQ_DATA_CORRUPT \<noteq> 0 then Some (False, 0, tdram s)
        else do {
          num_entries \<leftarrow> rd16 (scan_list bank) (tdram s);
          if SCAN_LIST_ITEMS < num_entries then Some (False, num_entries, tdram s)
          else do {
            (ok, d) \<leftarrow> scan_entries bank [0..<num_entries] (True, tdram s);
            Some (ok, num_entries, d) } });
     if \<not> ok
     then do {
       d \<leftarrow> dram_fill (scan_list bank) 0 SCAN_LIST_SIZE d;
       Some (set_dram d (s\<lparr>g_scan_list_entries := (g_scan_list_entries s)(bank := 0)\<rparr>)) }
     else do {
       d \<leftarrow> wr16 (scan_list bank) 0 d;
       Some (set_dram d (s\<lparr>g_scan_list_entries := (g_scan_list_entries s)(bank := num_entries)\<rparr>)) } }"

text \<open>\<open>format\<close> erases every block but block 0 that is not on the scan list.\<close>

definition format_block :: "flash_hw \<Rightarrow> nat \<Rightarrow> nat \<Rightarrow> tstate \<Rightarrow> tstate option" where
  "format_block hw vblk_offset bank s = do {
     bad \<leftarrow> is_bad_block (tdram s) (g_scan_list_entries s) bank vblk_offset;
     if bad then Some s
     else Some (on_fl (\<lambda>f. fcp_issue hw (log Wait_Room (set_fcp (\<lambda>c. set_rows bank (vblk_offset * PAGES_PER_VBLK)
            (c\<lparr>fcp_cmd := FC_ERASE, fcp_bank := REAL_BANK bank, fcp_option := FO_P\<rparr>)) f))) s) }"

definition format :: "flash_hw \<Rightarrow> tstate \<Rightarrow> tstate option" where
  "format hw s = each (\<lambda>v. each (\<lambda>b. format_block hw v b) [0..<NUM_BANKS]) [1..<VBLKS_PER_BANK] s"

text \<open>
  \<open>fw_pages\<close> is the size of the firmware image in pages, a symbol of the linker. The controller's report
  about the page read is \<open>intr\<close>.
\<close>

definition check_format_mark :: "flash_hw \<Rightarrow> nat \<Rightarrow> tstate \<Rightarrow> bool \<times> tstate" where
  "check_format_mark hw fw_pages s =
     (let s = on_fl flash_clear_irq s;
          s = on_fl (\<lambda>f. set_fcp (\<lambda>c. c\<lparr>fcp_bank := REAL_BANK 0\<rparr>)
                (setup_fcp FC_COL_ROW_READ_OUT FO_E FTL_BUF_ADDR BYTES_PER_SECTOR 0 0 (FW_PAGE_OFFSET + fw_pages) f)) s;
          s = on_fl (fcp_issue hw) s;
          s = on_fl (\<lambda>f. log (Wait_Bank (REAL_BANK 0)) (log Wait_Room f)) s;
          temp = intr s 0 AND FIRQ_ALL_FF
      in (temp = 0, s\<lparr>intr := (intr s)(0 := 0)\<rparr>))"

definition write_format_mark :: "flash_hw \<Rightarrow> nat \<Rightarrow> tstate \<Rightarrow> tstate option" where
  "write_format_mark hw fw_pages s = do {
     d \<leftarrow> dram_fill FTL_BUF_ADDR 0 BYTES_PER_SECTOR (tdram s);
     let s = set_dram d s;
     let s = on_fl (\<lambda>f. set_fcp (\<lambda>c. c\<lparr>fcp_bank := REAL_BANK 0\<rparr>)
               (setup_fcp FC_COL_ROW_IN_PROG (FO_E + FO_B_W_DRDY) FTL_BUF_ADDR BYTES_PER_SECTOR 0 0 (FW_PAGE_OFFSET + fw_pages) f)) s;
     let s = on_fl (fcp_issue hw) s;
     Some (on_fl (\<lambda>f. log (Wait_Bank (REAL_BANK 0)) (log Wait_Room f)) s) }"

definition sanity_check :: "unit option" where
  "sanity_check = (if DRAM_SIZE < RD_BUF_BYTES + WR_BUF_BYTES + COPY_BUF_BYTES + FTL_BUF_BYTES + HIL_BUF_BYTES
     + TEMP_BUF_BYTES + SCAN_LIST_BYTES + PAGE_MAP_BYTES then None else Some ())"

definition read_scan_list :: "flash_hw \<Rightarrow> nat \<Rightarrow> fstate \<Rightarrow> fstate" where
  "read_scan_list hw bank f = flash_issue_cmd hw bank RETURN_ON_ISSUE
     (setup_fcp FC_COL_ROW_READ_OUT FO_E (scan_list bank) SCAN_LIST_SIZE 0 bank SCAN_LIST_PAGE_OFFSET f)"

definition ftl_open :: "flash_hw \<Rightarrow> nat \<Rightarrow> tstate \<Rightarrow> tstate option" where
  "ftl_open hw fw_pages s = do {
     sanity_check;
     let s = on_fl flash_clear_irq s;
     let s = on_fl (fold (read_scan_list hw) [0..<NUM_BANKS]) s;
     let s = on_fl (\<lambda>f. log Wait_Idle (log Wait_Room f)) s;
     s \<leftarrow> each load_scan_list [0..<NUM_BANKS] s;
     let (formatted, s) = check_format_mark hw fw_pages s;
     s \<leftarrow> (if \<not> formatted then format hw s else Some s);
     d \<leftarrow> dram_fill PAGE_MAP_ADDR 0 PAGE_MAP_BYTES (tdram s);
     let s = set_dram d s;
     let s = on_fl (\<lambda>f. f\<lparr>g_ftl_read_buf_id := 0, g_ftl_write_buf_id := 0\<rparr>) s;
     let s = s\<lparr>g_target_bank := 0, g_target_row := \<lambda>b. if b < NUM_BANKS then PAGES_PER_VBLK else g_target_row s b\<rparr>;
     let s = on_fl flash_clear_irq s;
     let s = on_fl (SETREG INTR_MASK (FIRQ_DATA_CORRUPT + FIRQ_BADBLK_L + FIRQ_BADBLK_H)) s;
     Some (on_fl (SETREG FCONF_PAUSE (FIRQ_DATA_CORRUPT + FIRQ_BADBLK_L + FIRQ_BADBLK_H)) s) }"

definition isr_bank :: "nat \<Rightarrow> tstate \<Rightarrow> tstate option" where
  "isr_bank bank s = do {
     let s = on_fl (log (Wait_Bank (REAL_BANK bank))) s;
     let bsp_intr_flag = intr s bank;
     if bsp_intr_flag = 0 then Some s
     else do {
       let fc = bsp_cmd s bank;
       let s = s\<lparr>intr := (intr s)(bank := 0)\<rparr>;
       let s = (if bsp_intr_flag AND FIRQ_DATA_CORRUPT \<noteq> 0 then s\<lparr>g_read_fail_count := wrap32 (g_read_fail_count s + 1)\<rparr> else s);
       if bsp_intr_flag AND (FIRQ_BADBLK_H OR FIRQ_BADBLK_L) \<noteq> 0
       then if fc = FC_COL_ROW_IN_PROG \<or> fc = FC_IN_PROG \<or> fc = FC_PROG
            then Some (s\<lparr>g_program_fail_count := wrap32 (g_program_fail_count s + 1)\<rparr>)
            else do {
              ASSERT (fc = FC_ERASE);
              Some (s\<lparr>g_erase_fail_count := wrap32 (g_erase_fail_count s + 1)\<rparr>) }
       else Some s } }"

definition ftl_isr :: "tstate \<Rightarrow> tstate option" where
  "ftl_isr s = do {
     s \<leftarrow> each isr_bank [0..<NUM_BANKS] s;
     Some (on_fl (SETREG APB_INT_STS INTR_FLASH) s) }"

definition ftl_flush :: "tstate \<Rightarrow> tstate" where
  "ftl_flush s = s"

subsection \<open>Layout\<close>

definition tut_segments :: "(nat \<times> nat) list" where
  "tut_segments = [(RD_BUF_ADDR, RD_BUF_BYTES), (WR_BUF_ADDR, WR_BUF_BYTES), (COPY_BUF_ADDR, COPY_BUF_BYTES),
     (FTL_BUF_ADDR, FTL_BUF_BYTES), (HIL_BUF_ADDR, HIL_BUF_BYTES), (TEMP_BUF_ADDR, TEMP_BUF_BYTES),
     (SCAN_LIST_ADDR, SCAN_LIST_BYTES), (PAGE_MAP_ADDR, PAGE_MAP_BYTES), (ISSD_CMD_BUFFER_ADDR, ISSD_CMD_BYTES),
     (ISSD_WR_BUF_ADDR, ISSD_WR_BUF_BYTES), (ISSD_COMPUTING_ADDR, ISSD_COMPUTING_BYTES)]"

text \<open>
  The DRAM segments of the tutorial layer are aligned to ECC units, disjoint, in the order of the
  header and inside the DRAM, the page map has an entry for every logical page, the in-storage buffer
  holds \<open>ISSD_CNT_SECTORS\<close> sectors, and the sanity check passes.
\<close>

theorem tutorial_layout_fits:
  "sanity_check = Some () \<and> sorted_wrt (\<lambda>(a, n) (b, m). a + n \<le> b) tut_segments
   \<and> list_all (\<lambda>(a, n). a mod DRAM_ECC_UNIT = 0 \<and> n mod DRAM_ECC_UNIT = 0 \<and> DRAM_BASE \<le> a \<and> a + n \<le> DRAM_BASE + DRAM_SIZE) tut_segments
   \<and> NUM_LPAGES * 4 \<le> PAGE_MAP_BYTES \<and> ISSD_CNT_SECTORS * BYTES_PER_SECTOR = ISSD_COMPUTING_BYTES
   \<and> NUM_LSECTORS \<le> NUM_LPAGES * SECTORS_PER_PAGE"
  by (simp add: sanity_check_def tut_segments_def geom)

subsection \<open>The page allocator\<close>

definition scan_ok :: "tstate \<Rightarrow> bool" where
  "scan_ok s \<longleftrightarrow> (\<forall>b < NUM_BANKS. g_scan_list_entries s b \<le> SCAN_LIST_ITEMS)"

definition bad_block :: "tstate \<Rightarrow> nat \<Rightarrow> nat \<Rightarrow> bool option" where
  "bad_block s b = is_bad_block (tdram s) (g_scan_list_entries s) b"

text \<open>The rows a bank can still hand out, in order.\<close>

definition usable :: "tstate \<Rightarrow> nat \<Rightarrow> nat \<Rightarrow> bool" where
  "usable s b row \<longleftrightarrow>
     row div PAGES_PER_VBLK = g_target_row s b div PAGES_PER_VBLK \<and> g_target_row s b mod PAGES_PER_VBLK \<noteq> 0
     \<or> bad_block s b (row div PAGES_PER_VBLK) = Some False"

definition free_rows :: "tstate \<Rightarrow> nat \<Rightarrow> nat list" where
  "free_rows s b = filter (usable s b) [g_target_row s b..<PAGES_PER_BANK]"

lemma search_equ_small:
  "a mod 4 = 0 \<Longrightarrow> n \<le> SCAN_LIST_ITEMS \<Longrightarrow> search_equ 2 a n v d = Some (if n = 0 then 1 else first_equ 2 a n v d)"
  by (simp add: search_equ_def wrap32_def geom)

lemma scan_list_aligned: "scan_list b mod 4 = 0"
  by (simp add: scan_list_def geom mod_eq_0_iff_dvd)

lemma is_bad_block_total:
  "scan_ok s \<Longrightarrow> b < NUM_BANKS \<Longrightarrow> bad_block s b v \<noteq> None"
  by (auto simp: scan_ok_def bad_block_def is_bad_block_def search_equ_small scan_list_aligned)

lemma skip_bad_spec:
  assumes "\<And>v. bad v \<noteq> None"
  shows "\<exists>w. skip_bad bad v = Some w \<and> v \<le> w \<and> (\<forall>u. v \<le> u \<and> u < w \<longrightarrow> bad u = Some True)
    \<and> (w < VBLKS_PER_BANK \<longrightarrow> bad w = Some False)"
  using assms
proof (induction bad v rule: skip_bad.induct)
  case (1 bad v)
  obtain b where b: "bad v = Some b" using "1.prems" [of v] by auto
  show ?case
  proof (cases "b \<and> v < VBLKS_PER_BANK")
    case True
    from "1.IH" [OF b True "1.prems"] obtain w where "skip_bad bad (v + 1) = Some w" "v + 1 \<le> w" "\<forall>u. v + 1 \<le> u \<and> u < w \<longrightarrow> bad u = Some True"
      "w < VBLKS_PER_BANK \<longrightarrow> bad w = Some False" by blast
    then show ?thesis using b True
      by (intro exI [of _ w]) (auto simp: skip_bad.simps [of bad v] le_Suc_eq Suc_le_eq dest: le_neq_implies_less)
  next
    case False
    then show ?thesis using b by (intro exI [of _ v]) (auto simp: skip_bad.simps [of bad v])
  qed
qed

lemma block_bound: "row < PAGES_PER_BANK \<longleftrightarrow> row div PAGES_PER_VBLK < VBLKS_PER_BANK"
  by (simp add: geom div_less_iff_less_mult)

lemma free_rows_head:
  assumes "g_target_row s b \<le> row" and "row < PAGES_PER_BANK" and "usable s b row"
    and "\<And>r. g_target_row s b \<le> r \<Longrightarrow> r < row \<Longrightarrow> \<not> usable s b r"
  shows "free_rows s b = row # filter (usable s b) [row + 1..<PAGES_PER_BANK]"
proof -
  have "[g_target_row s b..<PAGES_PER_BANK] = [g_target_row s b..<row] @ row # [row + 1..<PAGES_PER_BANK]"
    using upt_add_eq_append [of "g_target_row s b" row "PAGES_PER_BANK - row"] assms(1,2) by (simp add: upt_conv_Cons)
  moreover have "filter (usable s b) [g_target_row s b..<row] = []" using assms(4) by (auto simp: filter_empty_conv)
  ultimately show ?thesis using assms(3) by (simp add: free_rows_def)
qed

lemma free_rows_tail:
  assumes "s' = s\<lparr>g_target_row := (g_target_row s)(b := row + 1)\<rparr>" and "usable s b row" and "g_target_row s b \<le> row"
    and "row div PAGES_PER_VBLK = g_target_row s b div PAGES_PER_VBLK \<and> g_target_row s b mod PAGES_PER_VBLK \<noteq> 0
      \<or> g_target_row s b mod PAGES_PER_VBLK = 0"
  shows "free_rows s' b = filter (usable s b) [row + 1..<PAGES_PER_BANK]"
proof -
  have "usable s' b r \<longleftrightarrow> usable s b r" if "row + 1 \<le> r" for r
  proof -
    have bb: "bad_block s' b = bad_block s b" using assms(1) by (simp add: bad_block_def tdram_def)
    have 1: "row div PAGES_PER_VBLK \<le> r div PAGES_PER_VBLK" using that by (intro div_le_mono) simp
    have 2: "(row + 1) mod PAGES_PER_VBLK \<noteq> 0 \<Longrightarrow> (row + 1) div PAGES_PER_VBLK = row div PAGES_PER_VBLK"
      by (simp add: div_Suc)
    have 3: "(row + 1) mod PAGES_PER_VBLK = 0 \<Longrightarrow> row div PAGES_PER_VBLK < (row + 1) div PAGES_PER_VBLK"
      by (simp add: div_Suc)
    have 4: "(row + 1) div PAGES_PER_VBLK \<le> r div PAGES_PER_VBLK" using that by (intro div_le_mono)
    let ?D = "\<lambda>r. r div PAGES_PER_VBLK"
    have new: "usable s' b r \<longleftrightarrow> ?D r = ?D (row + 1) \<and> (row + 1) mod PAGES_PER_VBLK \<noteq> 0 \<or> bad_block s b (?D r) = Some False"
      unfolding usable_def bb by (simp add: assms(1))
    consider "(row + 1) mod PAGES_PER_VBLK = 0" | "(row + 1) mod PAGES_PER_VBLK \<noteq> 0" by blast
    then show ?thesis
    proof cases
      case 1
      then have "?D row \<noteq> ?D r" using 3 4 by linarith
      then show ?thesis using new 1 assms(4) unfolding usable_def by metis
    next
      case 2
      then show ?thesis using new 2 \<open>(row + 1) mod PAGES_PER_VBLK \<noteq> 0 \<Longrightarrow> ?D (row + 1) = ?D row\<close> assms(2,4)
        unfolding usable_def by metis
    qed
  qed
  then show ?thesis unfolding free_rows_def using assms(1) by (auto intro: filter_cong)
qed

lemma get_free_page_first:
  assumes "scan_ok s" and "b < NUM_BANKS"
  shows "case free_rows s b of
      [] \<Rightarrow> get_free_page b s = None
    | row # rows \<Rightarrow> get_free_page b s = Some (row, s\<lparr>g_target_row := (g_target_row s)(b := row + 1)\<rparr>)
        \<and> free_rows (s\<lparr>g_target_row := (g_target_row s)(b := row + 1)\<rparr>) b = rows
        \<and> g_target_row s b \<le> row \<and> row < PAGES_PER_BANK"
proof (cases "g_target_row s b mod PAGES_PER_VBLK = 0")
  case False
  let ?t = "g_target_row s b"
  have u: "usable s b ?t" using False by (simp add: usable_def)
  show ?thesis
  proof (cases "?t < PAGES_PER_BANK")
    case True
    have h: "free_rows s b = ?t # filter (usable s b) [?t + 1..<PAGES_PER_BANK]"
      using True u by (intro free_rows_head) auto
    have "get_free_page b s = Some (?t, s\<lparr>g_target_row := (g_target_row s)(b := ?t + 1)\<rparr>)"
      using False True [unfolded block_bound] by (simp add: get_free_page_def Let_def)
    then show ?thesis using h free_rows_tail [OF refl u] False True by simp
  next
    case out: False
    then have "free_rows s b = []" by (simp add: free_rows_def)
    moreover have "get_free_page b s = None" using False out by (simp add: get_free_page_def Let_def block_bound not_less)
    ultimately show ?thesis by simp
  qed
next
  case True
  let ?t = "g_target_row s b"
  obtain w where w: "skip_bad (bad_block s b) (?t div PAGES_PER_VBLK) = Some w" "?t div PAGES_PER_VBLK \<le> w"
    "\<forall>u. ?t div PAGES_PER_VBLK \<le> u \<and> u < w \<longrightarrow> bad_block s b u = Some True" "w < VBLKS_PER_BANK \<longrightarrow> bad_block s b w = Some False"
    using skip_bad_spec [of "bad_block s b" "?t div PAGES_PER_VBLK"] is_bad_block_total [OF assms] by blast
  have skipped: "\<not> usable s b r" if "?t \<le> r" "r div PAGES_PER_VBLK < w" for r
    using w(3) that True div_le_mono [OF that(1), of PAGES_PER_VBLK] by (auto simp: usable_def)
  have run: "get_free_page b s = (if VBLKS_PER_BANK \<le> w then None
      else Some (w * PAGES_PER_VBLK, s\<lparr>g_target_row := (g_target_row s)(b := w * PAGES_PER_VBLK + 1)\<rparr>))"
    using True w(1) by (simp add: get_free_page_def Let_def bad_block_def)
  show ?thesis
  proof (cases "w < VBLKS_PER_BANK")
    case in_range: True
    let ?row = "w * PAGES_PER_VBLK"
    have d: "?row div PAGES_PER_VBLK = w" by (simp add: geom)
    have le: "?t \<le> ?row" using w(2) True row_split [of ?t] by (metis add.right_neutral mult_le_mono1)
    have u: "usable s b ?row" using w(4) in_range by (simp add: usable_def d)
    have "?row < PAGES_PER_BANK" using in_range d by (simp add: block_bound)
    moreover have "free_rows s b = ?row # filter (usable s b) [?row + 1..<PAGES_PER_BANK]"
    proof (rule free_rows_head [OF le calculation u])
      fix r assume "?t \<le> r" "r < ?row"
      then show "\<not> usable s b r" using skipped [of r] by (simp add: less_mult_imp_div_less)
    qed
    ultimately show ?thesis using run in_range free_rows_tail [OF refl u le] True le by simp
  next
    case False
    have "\<not> usable s b r" if "?t \<le> r" "r < PAGES_PER_BANK" for r
      using skipped [OF that(1)] that(2) False by (simp add: block_bound)
    then have "free_rows s b = []" by (auto simp: free_rows_def filter_empty_conv)
    with run False show ?thesis by simp
  qed
qed

text \<open>
  C33. \<open>get_free_page\<close> is a queue of the rows a bank can still hand out: it returns the first row of
  \<open>free_rows\<close> and leaves the others, so it never returns a row twice and never one of a block it takes
  for bad, and it stops for ever exactly when the bank has no free row.
\<close>

theorem get_free_page_queue:
  assumes "scan_ok s" and "b < NUM_BANKS"
  shows "case free_rows s b of
      [] \<Rightarrow> get_free_page b s = None
    | row # rows \<Rightarrow> get_free_page b s = Some (row, s\<lparr>g_target_row := (g_target_row s)(b := row + 1)\<rparr>)
        \<and> free_rows (s\<lparr>g_target_row := (g_target_row s)(b := row + 1)\<rparr>) b = rows
        \<and> g_target_row s b \<le> row \<and> row < PAGES_PER_BANK"
  by (rule get_free_page_first [OF assms])

definition tstate0 :: tstate where
  "tstate0 = \<lparr>fl = fstate0\<lparr>dram := \<lambda>_. 0\<rparr>, g_target_row = (\<lambda>_. PAGES_PER_VBLK), g_target_bank = 0, g_scan_list_entries = (\<lambda>_. 0),
     g_read_fail_count = 0, g_program_fail_count = 0, g_erase_fail_count = 0, intr = (\<lambda>_. 0), bsp_cmd = (\<lambda>_. 0)\<rparr>"

lemma tstate0_no_bad: "b < NUM_BANKS \<Longrightarrow> bad_block tstate0 b v = Some False"
  by (simp add: bad_block_def is_bad_block_def search_equ_small scan_list_aligned tstate0_def)

lemma tstate0_free_rows: "b < NUM_BANKS \<Longrightarrow> free_rows tstate0 b = [PAGES_PER_VBLK..<PAGES_PER_BANK]"
  by (simp add: free_rows_def usable_def tstate0_no_bad) (simp add: tstate0_def)

theorem get_free_page_queue_witness: "fst (the (get_free_page 3 tstate0)) = 128"
proof -
  have "PAGES_PER_VBLK < PAGES_PER_BANK" and b: "3 < NUM_BANKS" by (simp_all add: geom)
  then have "free_rows tstate0 3 = PAGES_PER_VBLK # [Suc PAGES_PER_VBLK..<PAGES_PER_BANK]"
    using tstate0_free_rows [OF b] by (simp only: upt_conv_Cons)
  moreover have "scan_ok tstate0" by (simp add: scan_ok_def tstate0_def)
  ultimately have "get_free_page 3 tstate0 = Some (PAGES_PER_VBLK, tstate0\<lparr>g_target_row := (g_target_row tstate0)(3 := PAGES_PER_VBLK + 1)\<rparr>)"
    using get_free_page_queue [OF _ b, of tstate0] by simp
  then show ?thesis by (simp add: geom)
qed

subsection \<open>The store the mapping represents\<close>

definition map_entry :: "tstate \<Rightarrow> nat \<Rightarrow> nat" where
  "map_entry s lpn = unat (tdram s (PAGE_MAP_ADDR + lpn * 4))"

text \<open>The word at offset \<open>x\<close> of a logical page; a page that was never written has no content.\<close>

definition page_of :: "nand_state \<Rightarrow> nat \<Rightarrow> nat \<Rightarrow> u32" where
  "page_of n pa = pages n (REAL_BANK (pa div PAGES_PER_BANK)) (pa mod PAGES_PER_BANK)"

definition lword :: "tstate \<Rightarrow> nat \<Rightarrow> nat \<Rightarrow> u32 option" where
  "lword s lpn x = (if map_entry s lpn = 0 then None else Some (page_of (nand (fl s)) (map_entry s lpn) x))"

text \<open>
  Every bank's append point is inside the bank, mapped pages lie below it, and the rows that can still
  be handed out are blank.
\<close>

definition tut_inv :: "tstate \<Rightarrow> bool" where
  "tut_inv s \<longleftrightarrow> scan_ok s \<and> g_target_bank s < NUM_BANKS
     \<and> (\<forall>b < NUM_BANKS. PAGES_PER_VBLK \<le> g_target_row s b \<and> g_target_row s b \<le> PAGES_PER_BANK)
     \<and> (\<forall>lpn < NUM_LPAGES. map_entry s lpn \<noteq> 0 \<longrightarrow> map_entry s lpn div PAGES_PER_BANK < NUM_BANKS
          \<and> map_entry s lpn mod PAGES_PER_BANK < g_target_row s (map_entry s lpn div PAGES_PER_BANK))
     \<and> (\<forall>b < NUM_BANKS. \<forall>r \<in> set (free_rows s b). blank (nand (fl s)) (REAL_BANK b) r)"

lemma map_addr:
  assumes "lpn < NUM_LPAGES"
  shows "dram_addr (PAGE_MAP_ADDR + lpn * 4)" "(PAGE_MAP_ADDR + lpn * 4) mod 4 = 0"
    "PAGE_MAP_ADDR + lpn * 4 < ISSD_WR_BUF_ADDR" "PAGE_MAP_ADDR \<le> PAGE_MAP_ADDR + lpn * 4"
    "PAGE_MAP_ADDR + lpn * 4 < 4294967296"
  using assms by (simp_all add: dram_addr_def geom)

lemma PAGE_MAP_aligned [simp]: "PAGE_MAP_ADDR mod 4 = 0"
  by (simp add: geom)

lemma get_physical_address_eq: "lpn < NUM_LPAGES \<Longrightarrow> get_physical_address lpn s = Some (map_entry s lpn)"
  by (simp add: get_physical_address_def rd32_def map_addr map_entry_def ld32_def)

text \<open>The scan lists decide which blocks are bad; nothing the write path stores reaches them.\<close>

lemma bad_block_cong:
  assumes "\<And>a. SCAN_LIST_ADDR \<le> a \<Longrightarrow> a < PAGE_MAP_ADDR \<Longrightarrow> d' a = d a" and "b < NUM_BANKS" and "e b \<le> SCAN_LIST_ITEMS"
  shows "is_bad_block d' e b v = is_bad_block d e b v"
proof -
  have "item 2 (scan_list b + i * 2) d' = item 2 (scan_list b + i * 2) d" if "i < e b" for i
  proof -
    let ?a = "scan_list b + i * 2"
    have b: "b \<le> 7" using assms(2) by (simp add: geom)
    have a: "SCAN_LIST_ADDR \<le> ?a" "?a < PAGE_MAP_ADDR" using that assms(3) b by (simp_all add: scan_list_def geom)
    have "SCAN_LIST_ADDR = SCAN_LIST_ADDR div 4 * 4" by (simp add: geom)
    also have "\<dots> \<le> ?a div 4 * 4" using div_le_mono [OF a(1), of 4] by simp
    finally have "SCAN_LIST_ADDR \<le> aligned_addr ?a" by (simp add: aligned_addr_def)
    moreover have "aligned_addr ?a \<le> ?a" by (simp add: aligned_addr_def)
    ultimately show ?thesis using a(2) assms(1) [of "aligned_addr ?a"] by (simp add: item_def ld16_def)
  qed
  then have "first_equ 2 (scan_list b) (e b) u d' = first_equ 2 (scan_list b) (e b) u d" for u
    by (intro first_equ_cong) simp
  then show ?thesis by (simp add: is_bad_block_def search_equ_def)
qed

lemma free_rows_cong:
  assumes "\<And>a. SCAN_LIST_ADDR \<le> a \<Longrightarrow> a < PAGE_MAP_ADDR \<Longrightarrow> tdram s' a = tdram s a" and "b < NUM_BANKS" and "scan_ok s"
    and "g_target_row s' b = g_target_row s b" and "g_scan_list_entries s' = g_scan_list_entries s"
  shows "free_rows s' b = free_rows s b"
proof -
  have "bad_block s' b v = bad_block s b v" for v
    unfolding bad_block_def assms(5) by (rule bad_block_cong) (use assms in \<open>auto simp: scan_ok_def\<close>)
  then have "usable s' b = usable s b" using assms(4) by (simp add: usable_def fun_eq_iff)
  then show ?thesis using assms(4) by (simp add: free_rows_def)
qed

subsection \<open>The commands of one page\<close>

lemma read_holes_effect:
  fixes ob r s buf left right
  assumes "flash_ok lay hw" and "buf_ok buf" and "left + right \<le> SECTORS_PER_PAGE"
  defines "s' \<equiv> read_holes hw buf left right ob r s"
  shows "pages (nand s') = pages (nand s)"
    "\<And>x. x < BYTES_PER_PAGE \<Longrightarrow> x < left * 512 \<or> (SECTORS_PER_PAGE - right) * 512 \<le> x \<Longrightarrow> dram s' (buf + x) = pages (nand s) (REAL_BANK ob) r x"
    "\<And>y. y < 4294967296 \<Longrightarrow> y < buf \<or> buf + BYTES_PER_PAGE \<le> y \<or> buf + left * 512 \<le> y \<and> y < buf + (SECTORS_PER_PAGE - right) * 512
       \<Longrightarrow> dram s' y = dram s y"
proof -
  let ?c = "if left \<noteq> 0 then FC_COL_OUT else FC_COL_ROW_READ_OUT" and ?k = "SECTORS_PER_PAGE - right"
  define t where "t = (if left \<noteq> 0 then flash_issue_cmd hw ob RETURN_ON_ISSUE
      (setup_fcp FC_COL_ROW_READ_OUT (FO_P + FO_E) buf (left * BYTES_PER_SECTOR) 0 ob r s) else s)"
  have s': "s' = (if right \<noteq> 0 then flash_issue_cmd hw ob RETURN_ON_ISSUE
      (setup_fcp ?c (FO_P + FO_E) buf (right * BYTES_PER_SECTOR) ?k ob r t) else t)"
    by (simp add: s'_def read_holes_def t_def Let_def)
  have k: "?k * 512 + right * 512 = BYTES_PER_PAGE" "left * 512 \<le> ?k * 512" "BYTES_PER_SECTOR = 512" "left * 512 \<le> BYTES_PER_PAGE"
    using assms(3) by (simp_all add: geom)
  have t: "pages (nand t) = pages (nand s)" "\<And>x. x < left * 512 \<Longrightarrow> dram t (buf + x) = pages (nand s) (REAL_BANK ob) r x"
    "\<And>y. y < 4294967296 \<Longrightarrow> y < buf \<or> buf + left * 512 \<le> y \<Longrightarrow> dram t y = dram s y"
  proof -
    note rd = read_cmd [OF assms(1) _ opt_mod(1) _ assms(2), where c = FC_COL_ROW_READ_OUT and k = 0 and n = "left * BYTES_PER_SECTOR" and b = ob and sync = RETURN_ON_ISSUE and r = r and s = s]
    show "pages (nand t) = pages (nand s)" using rd(1) k by (simp add: t_def)
    show "dram t (buf + x) = pages (nand s) (REAL_BANK ob) r x" if "x < left * 512" for x
      using rd(2) [of x] k that by (cases "left = 0") (simp_all add: t_def)
    show "dram t y = dram s y" if "y < 4294967296" "y < buf \<or> buf + left * 512 \<le> y" for y
      using rd(3) [of y] k that by (simp add: t_def)
  qed
  have c: "?c = FC_COL_ROW_READ_OUT \<or> ?c = FC_COL_OUT" by simp
  note rd = read_cmd [OF assms(1) c opt_mod(1) _ assms(2), where k = ?k and n = "right * BYTES_PER_SECTOR" and b = ob and sync = RETURN_ON_ISSUE and r = r and s = t]
  show "pages (nand s') = pages (nand s)" using rd(1) k t(1) by (simp add: s')
  show "dram s' y = dram s y" if "y < 4294967296" "y < buf \<or> buf + BYTES_PER_PAGE \<le> y \<or> buf + left * 512 \<le> y \<and> y < buf + ?k * 512" for y
  proof -
    have "dram s' y = dram t y"
      using rd(3) [of y] k that by (cases "right = 0") (auto simp: s')
    also have "\<dots> = dram s y" using t(3) [of y] that k by auto
    finally show ?thesis .
  qed
  show "dram s' (buf + x) = pages (nand s) (REAL_BANK ob) r x" if "x < BYTES_PER_PAGE" "x < left * 512 \<or> ?k * 512 \<le> x" for x
  proof (cases "x < left * 512")
    case True
    have "x < ?k * 512" using True k(2) by linarith
    then have "dram s' (buf + x) = dram t (buf + x)"
      using rd(3) [of "buf + x"] k(1,3) sub32_buf [OF assms(2) that(1)] by (cases "right = 0") (auto simp: s')
    with t(2) [OF True] show ?thesis by simp
  next
    case False
    with that have "?k * 512 \<le> x" by simp
    with that(1) k have "right \<noteq> 0" by (intro notI) simp
    with rd(2) [of x] k t(1) that(1) \<open>?k * 512 \<le> x\<close> show ?thesis by (simp add: s')
  qed
qed

lemma program_page_effect:
  fixes ob nb r s buf left num right sync old
  assumes "flash_ok lay hw" and "buf_ok buf" and "left + num + right = SECTORS_PER_PAGE" and "blank (nand s) (REAL_BANK nb) r"
  defines "s' \<equiv> program_page hw (FO_P + FO_E + FO_B_W_DRDY) buf sync old left num right ob nb r s"
  shows "dram s' = dram s" "only_page (REAL_BANK nb) r (nand s) (nand s')"
    "\<And>x. x < BYTES_PER_PAGE \<Longrightarrow> pages (nand s') (REAL_BANK nb) r x = dram s (buf + x)"
proof -
  let ?u = "setup_fcp FC_COL_ROW_IN_PROG (FO_P + FO_E + FO_B_W_DRDY) buf (SECTORS_PER_PAGE * BYTES_PER_SECTOR) 0 nb r s"
  define t where "t = (if old \<and> ob \<noteq> nb then log (Wait_Bank (REAL_BANK ob)) (log Wait_Room ?u) else ?u)"
  have s': "s' = flash_issue_cmd hw nb sync t"
    using assms(3) by (simp add: s'_def program_page_def t_def Let_def)
  have f: "fcp t = fcp ?u" "dram t = dram s" "nand t = nand s" by (simp_all add: t_def)
  have cmd: "fcp_cmd (fcp t) \<in> {FC_COL_ROW_IN_PROG, FC_IN_PROG}" "fcp_option (fcp t) = FO_P + FO_E + FO_B_W_DRDY"
    unfolding f by simp_all
  have "0 * BYTES_PER_SECTOR + SECTORS_PER_PAGE * BYTES_PER_SECTOR \<le> BYTES_PER_PAGE" by (simp add: geom)
  then have sel: "fcp_sel nb r buf 0 (SECTORS_PER_PAGE * BYTES_PER_SECTOR) (fcp t)"
    unfolding f by (rule setup_sel [OF opt_mod(2)])
  have bl: "blank (nand t) (REAL_BANK nb) r" using assms(4) f by simp
  have n: "0 * 512 + SECTORS_PER_PAGE * BYTES_PER_SECTOR = BYTES_PER_PAGE" by (simp add: geom)
  from issue_prog [OF assms(1) cmd(1) sel assms(2) bl cmd(2), where sync = sync, folded s', unfolded f n]
  show "dram s' = dram s" "only_page (REAL_BANK nb) r (nand s) (nand s')"
    "\<And>x. x < BYTES_PER_PAGE \<Longrightarrow> pages (nand s') (REAL_BANK nb) r x = dram s (buf + x)" by simp_all
qed

subsection \<open>One page of issd_write_sectors\<close>

lemma write_chunk_eq:
  assumes "off < SECTORS_PER_PAGE" and "0 < rem" and "off + rem < 4294967296"
  shows "write_chunk off rem = (min rem (SECTORS_PER_PAGE - off), SECTORS_PER_PAGE - off - min rem (SECTORS_PER_PAGE - off))"
  using assms by (auto simp: write_chunk_def wrap32_id min_def)

lemma on_fl_fields [simp]:
  "fl (on_fl g s) = g (fl s)" "g_target_row (on_fl g s) = g_target_row s" "g_target_bank (on_fl g s) = g_target_bank s"
  "g_scan_list_entries (on_fl g s) = g_scan_list_entries s" "tdram (on_fl g s) = dram (g (fl s))"
  by (simp_all add: on_fl_def tdram_def)

lemma set_dram_fields [simp]:
  "fl (set_dram d s) = (fl s)\<lparr>dram := d\<rparr>" "g_target_row (set_dram d s) = g_target_row s" "g_target_bank (set_dram d s) = g_target_bank s"
  "g_scan_list_entries (set_dram d s) = g_scan_list_entries s" "tdram (set_dram d s) = d"
  by (simp_all add: set_dram_def)

lemma tut_invD:
  assumes "tut_inv s"
  shows "scan_ok s" "g_target_bank s < NUM_BANKS"
    "\<And>b. b < NUM_BANKS \<Longrightarrow> PAGES_PER_VBLK \<le> g_target_row s b \<and> g_target_row s b \<le> PAGES_PER_BANK"
    "\<And>l. l < NUM_LPAGES \<Longrightarrow> map_entry s l \<noteq> 0 \<Longrightarrow> map_entry s l div PAGES_PER_BANK < NUM_BANKS
       \<and> map_entry s l mod PAGES_PER_BANK < g_target_row s (map_entry s l div PAGES_PER_BANK)"
    "\<And>b r. b < NUM_BANKS \<Longrightarrow> r \<in> set (free_rows s b) \<Longrightarrow> blank (nand (fl s)) (REAL_BANK b) r"
  using assms by (auto simp: tut_inv_def)

lemma new_entry:
  assumes "b < NUM_BANKS" and "row < PAGES_PER_BANK"
  shows "unat (of_nat (b * PAGES_PER_BANK + row) :: u32) = b * PAGES_PER_BANK + row"
    "(b * PAGES_PER_BANK + row) div PAGES_PER_BANK = b" "(b * PAGES_PER_BANK + row) mod PAGES_PER_BANK = row"
proof -
  have "b * PAGES_PER_BANK + row < 2 ^ LENGTH(32)" using assms by (simp add: geom)
  then show "unat (of_nat (b * PAGES_PER_BANK + row) :: u32) = b * PAGES_PER_BANK + row"
    by (simp only: unat_of_nat mod_less)
qed (use assms in \<open>simp_all add: geom\<close>)

lemma usable_target_bank [simp]: "usable (s\<lparr>g_target_bank := x\<rparr>) = usable s"
  by (simp add: fun_eq_iff usable_def bad_block_def tdram_def)

text \<open>
  A page step at the level of the store: logical page \<open>lpn\<close> moves to the blank row \<open>row\<close> of bank \<open>nb\<close>,
  which was the first free one; the state keeps its invariant and all other pages.
\<close>

lemma remap_step:
  assumes inv: "tut_inv s" and nb: "nb < NUM_BANKS" and fr: "free_rows s nb = row # rows" and lpn: "lpn < NUM_LPAGES"
    and tb: "g_target_bank s' < NUM_BANKS" and tr: "g_target_row s' = (g_target_row s)(nb := row + 1)"
    and sl: "g_scan_list_entries s' = g_scan_list_entries s"
    and op: "only_page (REAL_BANK nb) row (nand (fl s)) (nand (fl s'))"
    and scan: "\<And>a. SCAN_LIST_ADDR \<le> a \<Longrightarrow> a < PAGE_MAP_ADDR \<Longrightarrow> tdram s' a = tdram s a"
    and new: "map_entry s' lpn = nb * PAGES_PER_BANK + row" and others: "\<And>l. l < NUM_LPAGES \<Longrightarrow> l \<noteq> lpn \<Longrightarrow> map_entry s' l = map_entry s l"
  shows "tut_inv s'" and "free_rows s' nb = rows" and "\<And>b. b < NUM_BANKS \<Longrightarrow> b \<noteq> nb \<Longrightarrow> free_rows s' b = free_rows s b"
    and "\<And>l. l < NUM_LPAGES \<Longrightarrow> l \<noteq> lpn \<Longrightarrow> lword s' l = lword s l"
    and "\<And>x. lword s' lpn x = Some (pages (nand (fl s')) (REAL_BANK nb) row x)"
proof -
  note I = tut_invD [OF inv]
  let ?s2 = "s\<lparr>g_target_row := (g_target_row s)(nb := row + 1)\<rparr>"
  have row: "g_target_row s nb \<le> row" "row < PAGES_PER_BANK" "free_rows ?s2 nb = rows"
    using get_free_page_first [OF I(1) nb] fr by simp_all
  have sc: "scan_ok s'" using I(1) sl by (simp add: scan_ok_def)
  have td: "tdram ?s2 = tdram s" by (simp add: tdram_def)
  have rest: "free_rows s' b = free_rows s b" if b: "b < NUM_BANKS" "b \<noteq> nb" for b
    by (rule free_rows_cong [OF scan b(1) I(1)]) (use tr sl b in simp_all)
  have mine: "free_rows s' nb = rows"
  proof -
    have "free_rows s' nb = free_rows ?s2 nb"
      by (rule free_rows_cong [OF _ nb]) (use scan td tr sl I(1) in \<open>simp_all add: scan_ok_def\<close>)
    with row(3) show ?thesis by simp
  qed
  have e: "map_entry s' lpn \<noteq> 0" "map_entry s' lpn div PAGES_PER_BANK = nb" "map_entry s' lpn mod PAGES_PER_BANK = row"
    using new_entry [OF nb row(2)] new I(3) [OF nb] row(1) by (simp_all add: geom)
  show "free_rows s' nb = rows" by (rule mine)
  show "free_rows s' b = free_rows s b" if "b < NUM_BANKS" "b \<noteq> nb" for b by (rule rest [OF that])
  have keep: "pages (nand (fl s')) (REAL_BANK b) r = pages (nand (fl s)) (REAL_BANK b) r"
    if "b < NUM_BANKS" "b = nb \<Longrightarrow> r \<noteq> row" for b r
    using op that REAL_BANK_inj [OF that(1) nb] by (auto simp: only_page_def)
  show "lword s' l = lword s l" if l: "l < NUM_LPAGES" "l \<noteq> lpn" for l
  proof (cases "map_entry s l = 0")
    case True
    with others [OF l] show ?thesis by (simp add: lword_def fun_eq_iff)
  next
    case False
    have "pages (nand (fl s')) (REAL_BANK (map_entry s l div PAGES_PER_BANK)) (map_entry s l mod PAGES_PER_BANK)
        = pages (nand (fl s)) (REAL_BANK (map_entry s l div PAGES_PER_BANK)) (map_entry s l mod PAGES_PER_BANK)"
      by (rule keep) (use I(4) [OF l(1) False] row(1) in auto)
    with others [OF l] show ?thesis by (simp add: lword_def page_of_def fun_eq_iff)
  qed
  show "lword s' lpn x = Some (pages (nand (fl s')) (REAL_BANK nb) row x)" for x
    using e by (simp add: lword_def page_of_def)
  have bl: "blank (nand (fl s')) (REAL_BANK b) r" if "b < NUM_BANKS" "r \<in> set (free_rows s' b)" for b r
  proof -
    have d: "distinct (row # rows)" using fr by (metis distinct_filter distinct_upt free_rows_def)
    have "r \<in> set (free_rows s b)" "b = nb \<Longrightarrow> r \<noteq> row"
      using that mine rest fr d by (cases "b = nb"; auto)+
    with I(5) [OF that(1)] keep [OF that(1)] show ?thesis by (simp add: blank_def)
  qed
  have mp: "map_entry s' l div PAGES_PER_BANK < NUM_BANKS
       \<and> map_entry s' l mod PAGES_PER_BANK < g_target_row s' (map_entry s' l div PAGES_PER_BANK)"
    if l: "l < NUM_LPAGES" "map_entry s' l \<noteq> 0" for l
  proof (cases "l = lpn")
    case True
    then show ?thesis using e nb tr by simp
  next
    case False
    then have "map_entry s' l = map_entry s l" using others l(1) by simp
    with I(4) [OF l(1)] l(2) row(1) tr show ?thesis by (auto intro: less_SucI less_le_trans)
  qed
  have "PAGES_PER_VBLK \<le> g_target_row s' b \<and> g_target_row s' b \<le> PAGES_PER_BANK" if "b < NUM_BANKS" for b
    using I(3) [OF that] row(1,2) I(3) [OF nb] by (auto simp: tr)
  with sc tb bl mp show "tut_inv s'" unfolding tut_inv_def by blast
qed

lemma issd_write_page_step:
  assumes hw: "flash_ok tut_layout hw" and inv: "tut_inv s" and lpn: "lpn < NUM_LPAGES"
    and off: "off < SECTORS_PER_PAGE" and rem: "0 < rem" "off + rem < 4294967296" and num: "num = min rem (SECTORS_PER_PAGE - off)"
    and fr: "free_rows s (g_target_bank s) = row # rows"
    and src: "src mod 4 = 0" "src + num * 512 < 4294967296" "src + num * 512 \<le> ISSD_WR_BUF_ADDR \<or> ISSD_WR_BUF_ADDR + BYTES_PER_PAGE \<le> src"
  shows "\<exists>s'. issd_write_page hw src lpn off rem s = Some (num, s') \<and> tut_inv s'
    \<and> g_target_bank s' = (g_target_bank s + 1) mod NUM_BANKS
    \<and> free_rows s' (g_target_bank s) = rows \<and> (\<forall>b < NUM_BANKS. b \<noteq> g_target_bank s \<longrightarrow> free_rows s' b = free_rows s b)
    \<and> (\<forall>l < NUM_LPAGES. l \<noteq> lpn \<longrightarrow> lword s' l = lword s l)
    \<and> (\<forall>x. off * 512 \<le> x \<and> x < (off + num) * 512 \<longrightarrow> lword s' lpn x = Some (tdram s (src + (x - off * 512))))
    \<and> (\<forall>x < BYTES_PER_PAGE. lword s lpn x \<noteq> None \<and> (x < off * 512 \<or> (off + num) * 512 \<le> x) \<longrightarrow> lword s' lpn x = lword s lpn x)
    \<and> (\<forall>a < 4294967296. a < PAGE_MAP_ADDR \<or> PAGE_MAP_ADDR + PAGE_MAP_BYTES \<le> a \<and> a < ISSD_WR_BUF_ADDR
         \<or> ISSD_WR_BUF_ADDR + BYTES_PER_PAGE \<le> a \<longrightarrow> tdram s' a = tdram s a)"
proof -
  note I = tut_invD [OF inv]
  let ?nb = "g_target_bank s" and ?old = "map_entry s lpn" and ?W = ISSD_WR_BUF_ADDR
  let ?ob = "?old div PAGES_PER_BANK" and ?or = "?old mod PAGES_PER_BANK"
  have row: "g_target_row s ?nb \<le> row" "row < PAGES_PER_BANK"
    using get_free_page_first [OF I(1) I(2)] fr by simp_all
  define right where "right = SECTORS_PER_PAGE - off - num"
  define s1 where "s1 = s\<lparr>g_target_bank := (?nb + 1) mod NUM_BANKS\<rparr>"
  define s2 where "s2 = s1\<lparr>g_target_row := (g_target_row s1)(?nb := row + 1)\<rparr>"
  have s1: "scan_ok s1" "free_rows s1 ?nb = row # rows"
    using I(1) fr by (simp_all add: s1_def scan_ok_def free_rows_def)
  have gfp: "get_free_page ?nb s1 = Some (row, s2)"
    using get_free_page_first [OF s1(1) I(2)] s1(2) by (simp add: s2_def)
  have s2: "tdram s2 = tdram s" "fl s2 = fl s" "map_entry s2 = map_entry s"
    by (simp_all add: s2_def s1_def tdram_def map_entry_def fun_eq_iff)
  have sum: "off + num + right = SECTORS_PER_PAGE" "0 < num" "num \<le> SECTORS_PER_PAGE" "off * 512 + num * 512 \<le> BYTES_PER_PAGE"
    using off rem num by (simp_all add: right_def geom)
  define d1 where "d1 = (\<lambda>b. if ?W + off * 512 \<le> b \<and> b < ?W + off * 512 + num * 512
     then tdram s (src + (b - (?W + off * 512))) else tdram s b)"
  have mv: "dram_move (?W + off * BYTES_PER_SECTOR) src (num * BYTES_PER_SECTOR) (tdram s2) = Some d1"
  proof -
    have "(?W + off * 512) mod 4 = 0" "num * 512 mod 4 = 0" "num * 512 \<le> MU_MAX_BYTES" "num * 512 mod DRAM_ECC_UNIT = 0"
      using sum(3) by (simp_all add: geom mod_eq_0_iff_dvd)
    then show ?thesis using src(1) by (simp add: dram_move_def d1_def s2 geom(11))
  qed
  define f3 where "f3 = (fl s)\<lparr>dram := d1\<rparr>"
  define f4 where "f4 = (if ?old \<noteq> 0 then read_holes hw ?W off right ?ob ?or f3 else f3)"
  define old where "old \<longleftrightarrow> ?old \<noteq> 0 \<and> (off \<noteq> 0 \<or> right \<noteq> 0)"
  define f5 where "f5 = program_page hw (FO_P + FO_E + FO_B_W_DRDY) ?W RETURN_WHEN_DONE old off num right ?ob ?nb row f4"
  define s5 where "s5 = s2\<lparr>fl := f5\<rparr>"
  define s6 where "s6 = set_dram (st32 (PAGE_MAP_ADDR + lpn * 4) (of_nat (?nb * PAGES_PER_BANK + row)) (dram f5)) s5"
  have run: "issd_write_page hw src lpn off rem s = Some (num, s6)"
  proof -
    have wc: "write_chunk off rem = (num, right)" using write_chunk_eq [OF off rem] num by (simp add: right_def)
    have up: "update_physical_address lpn ?nb row s5 = Some s6"
      using map_addr [OF lpn] by (simp add: update_physical_address_def wr32_def s6_def s5_def tdram_def)
    have s5: "on_fl (program_page hw (FO_P + FO_E + FO_B_W_DRDY) ?W RETURN_WHEN_DONE old off num right ?ob ?nb row)
        (if ?old \<noteq> 0 then on_fl (read_holes hw ?W off right ?ob ?or) (set_dram d1 s2) else set_dram d1 s2) = s5"
      by (simp add: s5_def f5_def f4_def f3_def on_fl_def set_dram_def s2)
    have tb: "g_target_bank s1 = (?nb + 1) mod NUM_BANKS" by (simp add: s1_def)
    show ?thesis
      unfolding issd_write_page_def Let_def s1_def [symmetric]
      by (simp only: gfp get_physical_address_eq [OF lpn] s2(3) wc mv up old_def [symmetric] s5 bind.bind_lunit prod.case)
  qed
  have bufs: "buf_ok ?W" "off + right \<le> SECTORS_PER_PAGE" "(SECTORS_PER_PAGE - right) * 512 = off * 512 + num * 512"
    using sum by (simp_all add: buf_ok_def geom)
  have n4: "pages (nand f4) = pages (nand (fl s))"
    using read_holes_effect(1) [OF hw bufs(1,2)] by (simp add: f4_def f3_def)
  have bl: "blank (nand f4) (REAL_BANK ?nb) row"
    using I(5) [OF I(2), of row] fr by (simp add: blank_same [OF n4])
  have ss: "off + num + right = SECTORS_PER_PAGE" by (rule sum(1))
  note P = program_page_effect [OF hw bufs(1) ss bl, where sync = RETURN_WHEN_DONE and old = old and ob = ?ob, folded f5_def]
  have d4: "dram f4 a = tdram s a" if "a < 4294967296" "a < ?W \<or> ?W + BYTES_PER_PAGE \<le> a" for a
    using read_holes_effect(3) [OF hw bufs(1,2), of a ?ob ?or f3] that sum(4) by (auto simp: f4_def f3_def d1_def tdram_def)
  have mid: "dram f4 (?W + x) = tdram s (src + (x - off * 512))" if x: "off * 512 \<le> x" "x < off * 512 + num * 512" for x
  proof -
    have "?W + x < 4294967296" "?W + off * 512 \<le> ?W + x" "?W + x < ?W + (SECTORS_PER_PAGE - right) * 512"
      using x bufs sum(4) by (simp_all add: buf_ok_def)
    then have "dram f4 (?W + x) = d1 (?W + x)"
      using read_holes_effect(3) [OF hw bufs(1,2), of "?W + x" ?ob ?or f3] by (auto simp: f4_def f3_def)
    then show ?thesis using x by (simp add: d1_def)
  qed
  have hole: "dram f4 (?W + x) = page_of (nand (fl s)) ?old x"
    if "?old \<noteq> 0" "x < BYTES_PER_PAGE" "x < off * 512 \<or> off * 512 + num * 512 \<le> x" for x
    using read_holes_effect(2) [OF hw bufs(1,2) that(2), of ?ob ?or f3] that bufs(3) by (simp add: f4_def f3_def page_of_def)
  have pm: "PAGE_MAP_ADDR + PAGE_MAP_BYTES \<le> ?W" "?W + BYTES_PER_PAGE < 4294967296" "NUM_LPAGES * 4 \<le> PAGE_MAP_BYTES"
    by (simp_all add: geom)
  have d6: "tdram s6 = (dram f4)(PAGE_MAP_ADDR + lpn * 4 := of_nat (?nb * PAGES_PER_BANK + row))"
    by (simp add: s6_def st32_def P(1))
  have others: "map_entry s6 l = map_entry s l" if "l < NUM_LPAGES" "l \<noteq> lpn" for l
    using that d4 [of "PAGE_MAP_ADDR + l * 4"] map_addr [OF that(1)] by (simp add: map_entry_def d6)
  have new: "map_entry s6 lpn = ?nb * PAGES_PER_BANK + row"
    using new_entry(1) [OF I(2) row(2)] by (simp add: map_entry_def d6 del: of_nat_add of_nat_mult)
  have frame: "tdram s6 a = tdram s a"
    if "a < 4294967296" "a < PAGE_MAP_ADDR \<or> PAGE_MAP_ADDR + PAGE_MAP_BYTES \<le> a \<and> a < ?W \<or> ?W + BYTES_PER_PAGE \<le> a" for a
    using that d4 [of a] pm lpn by (auto simp: d6)
  have n6: "nand (fl s6) = nand f5" by (simp add: s6_def s5_def)
  have g6: "g_target_bank s6 = (?nb + 1) mod NUM_BANKS" "g_target_row s6 = (g_target_row s)(?nb := row + 1)"
    "g_scan_list_entries s6 = g_scan_list_entries s" by (simp_all add: s6_def s5_def s2_def s1_def)
  have op: "only_page (REAL_BANK ?nb) row (nand (fl s)) (nand (fl s6))" using P(2) only_page_same(1) [OF n4] n6 by simp
  have "(?nb + 1) mod NUM_BANKS < NUM_BANKS" by (simp add: geom)
  then have tb: "g_target_bank s6 < NUM_BANKS" using g6 by simp
  have scan: "tdram s6 a = tdram s a" if "SCAN_LIST_ADDR \<le> a" "a < PAGE_MAP_ADDR" for a
    using frame [of a] that pm by simp
  note R = remap_step [OF inv I(2) fr lpn tb g6(2,3) op scan new others]
  have cont: "lword s6 lpn x = Some (dram f4 (?W + x))" if "x < BYTES_PER_PAGE" for x
    using R(5) P(3) [OF that] n6 by simp
  have new_data: "lword s6 lpn x = Some (tdram s (src + (x - off * 512)))" if "off * 512 \<le> x" "x < (off + num) * 512" for x
    using cont [of x] mid [of x] that sum(4) by (simp add: add_mult_distrib)
  have old_data: "lword s6 lpn x = lword s lpn x"
    if "x < BYTES_PER_PAGE" "lword s lpn x \<noteq> None" "x < off * 512 \<or> (off + num) * 512 \<le> x" for x
    using cont [OF that(1)] hole [of x] that by (auto simp: add_mult_distrib lword_def split: if_splits)
  show ?thesis
    using run R(1-4) g6(1) frame new_data old_data by (intro exI [of _ s6]) simp
qed

subsection \<open>The in-storage write and read\<close>

lemma finish_same:
  "tdram (on_fl flash_finish s) = tdram s" "lword (on_fl flash_finish s) = lword s"
  "free_rows (on_fl flash_finish s) = free_rows s" "tut_inv (on_fl flash_finish s) \<longleftrightarrow> tut_inv s"
  "map_entry (on_fl flash_finish s) = map_entry s"
proof -
  show t: "tdram (on_fl flash_finish s) = tdram s" by (simp add: tdram_def)
  show m: "map_entry (on_fl flash_finish s) = map_entry s" by (simp add: map_entry_def fun_eq_iff tdram_def)
  show "lword (on_fl flash_finish s) = lword s" by (simp add: lword_def fun_eq_iff m)
  have u: "usable (on_fl flash_finish s) = usable s"
    by (intro ext) (simp add: usable_def bad_block_def tdram_def)
  show f: "free_rows (on_fl flash_finish s) = free_rows s" by (intro ext) (simp add: free_rows_def u)
  show "tut_inv (on_fl flash_finish s) \<longleftrightarrow> tut_inv s" by (simp add: tut_inv_def scan_ok_def f m)
qed

text \<open>Buffers that the write path does not disturb: outside the page map and the write buffer.\<close>

definition src_ok :: "nat \<Rightarrow> nat \<Rightarrow> bool" where
  "src_ok a len \<longleftrightarrow> a mod 4 = 0 \<and> a + len \<le> DRAM_BASE + DRAM_SIZE \<and> (a + len \<le> PAGE_MAP_ADDR
     \<or> PAGE_MAP_ADDR + PAGE_MAP_BYTES \<le> a \<and> a + len \<le> ISSD_WR_BUF_ADDR \<or> ISSD_WR_BUF_ADDR + BYTES_PER_PAGE \<le> a)"

lemma addr_consts: "PAGE_MAP_ADDR + PAGE_MAP_BYTES \<le> ISSD_WR_BUF_ADDR" "DRAM_BASE + DRAM_SIZE < 4294967296"
    "SECTORS_PER_PAGE * 512 = BYTES_PER_PAGE" "BYTES_PER_SECTOR = 512" "0 < SECTORS_PER_PAGE"
    "ISSD_WR_BUF_ADDR + BYTES_PER_PAGE \<le> DRAM_BASE + DRAM_SIZE"
  by (simp_all add: geom)

lemma src_okD:
  assumes "src_ok a len" and "x < len"
  shows "a + x < 4294967296" and "a + x < PAGE_MAP_ADDR \<or> PAGE_MAP_ADDR + PAGE_MAP_BYTES \<le> a + x \<and> a + x < ISSD_WR_BUF_ADDR
    \<or> ISSD_WR_BUF_ADDR + BYTES_PER_PAGE \<le> a + x"
  using assms addr_consts(2) by (auto simp: src_ok_def)

text \<open>A write from the buffer \<open>src\<close> puts its words and leaves the rest of the DRAM alone.\<close>

abbreviation wrote :: "(nat \<Rightarrow> u32) \<Rightarrow> nat \<Rightarrow> nat \<Rightarrow> nat \<Rightarrow> tstate \<Rightarrow> tstate \<Rightarrow> bool" where
  "wrote g lpn off n s s' \<equiv> put_words g lpn off n (lword s) (lword s')"

definition stored :: "nat \<Rightarrow> nat \<Rightarrow> nat \<Rightarrow> nat \<Rightarrow> tstate \<Rightarrow> tstate \<Rightarrow> bool" where
  "stored src lpn off n s s' \<longleftrightarrow> wrote (\<lambda>k. tdram s (src + k)) lpn off n s s'
     \<and> (\<forall>a < 4294967296. a < PAGE_MAP_ADDR \<or> PAGE_MAP_ADDR + PAGE_MAP_BYTES \<le> a \<and> a < ISSD_WR_BUF_ADDR
         \<or> ISSD_WR_BUF_ADDR + BYTES_PER_PAGE \<le> a \<longrightarrow> tdram s' a = tdram s a)"

lemma stored_step:
  assumes step: "\<And>l. l < NUM_LPAGES \<Longrightarrow> l \<noteq> lpn \<Longrightarrow> lword s1 l = lword s l"
    "\<And>x. off * 512 \<le> x \<Longrightarrow> x < (off + num) * 512 \<Longrightarrow> lword s1 lpn x = Some (tdram s (src + (x - off * 512)))"
    "\<And>x. x < BYTES_PER_PAGE \<Longrightarrow> lword s lpn x \<noteq> None \<Longrightarrow> x < off * 512 \<or> (off + num) * 512 \<le> x \<Longrightarrow> lword s1 lpn x = lword s lpn x"
    "\<And>a. a < 4294967296 \<Longrightarrow> a < PAGE_MAP_ADDR \<or> PAGE_MAP_ADDR + PAGE_MAP_BYTES \<le> a \<and> a < ISSD_WR_BUF_ADDR
         \<or> ISSD_WR_BUF_ADDR + BYTES_PER_PAGE \<le> a \<Longrightarrow> tdram s1 a = tdram s a"
    and rest: "stored (src + num * 512) (lpn + 1) 0 (n - num) s1 s'"
    and num: "num = min n (SECTORS_PER_PAGE - off)" and off: "off < SECTORS_PER_PAGE" and src: "src_ok src (n * 512)" and n: "0 < n"
  shows "stored src lpn off n s s'"
proof -
  have nn: "num \<le> n" using num by simp
  have fr: "tdram s1 (src + y) = tdram s (src + y)" if "y < n * 512" for y
    using step(4) src_okD [OF src that] by blast
  have "wrote (\<lambda>k. tdram s (src + (num * 512 + k))) (lpn + 1) 0 (n - num) s1 s'"
  proof (rule put_words_cong)
    show "wrote (\<lambda>k. tdram s1 (src + num * 512 + k)) (lpn + 1) 0 (n - num) s1 s'" using rest by (simp add: stored_def)
    show "tdram s1 (src + num * 512 + k) = tdram s (src + (num * 512 + k))" if "k < (n - num) * 512" for k
      using fr [of "num * 512 + k"] that nn by (simp add: add.assoc diff_mult_distrib)
  qed
  moreover have "page_put (\<lambda>k. tdram s (src + k)) lpn off num (lword s) (lword s1)" using step(1-3) unfolding page_put_def by blast
  ultimately have "wrote (\<lambda>k. tdram s (src + k)) lpn off n s s'" by (intro put_words_step [OF _ _ num off n])
  then have "wrote (\<lambda>k. tdram s (src + k)) lpn off n s s'" .
  moreover have "tdram s' a = tdram s a" if "a < 4294967296" "a < PAGE_MAP_ADDR \<or> PAGE_MAP_ADDR + PAGE_MAP_BYTES \<le> a \<and> a < ISSD_WR_BUF_ADDR
         \<or> ISSD_WR_BUF_ADDR + BYTES_PER_PAGE \<le> a" for a
    using rest step(4) [OF that] that by (auto simp: stored_def)
  ultimately show ?thesis unfolding stored_def by blast
qed

lemma issd_write_loop_stores:
  assumes hw: "flash_ok tut_layout hw"
  shows "tut_inv s \<Longrightarrow> off < SECTORS_PER_PAGE \<Longrightarrow> lpn * SECTORS_PER_PAGE + off + n \<le> NUM_LPAGES * SECTORS_PER_PAGE
    \<Longrightarrow> src_ok src (n * 512) \<Longrightarrow> \<forall>b < NUM_BANKS. pages_of off n \<le> length (free_rows s b)
    \<Longrightarrow> \<exists>s'. issd_write_loop hw src lpn off n s = Some (0, s') \<and> tut_inv s' \<and> stored src lpn off n s s'
      \<and> (\<forall>b < NUM_BANKS. length (free_rows s b) \<le> length (free_rows s' b) + pages_of off n)"
proof (induction n arbitrary: src lpn off s rule: less_induct)
  case (less n)
  show ?case
  proof (cases "n = 0")
    case True
    then show ?thesis using less.prems(1)
      by (subst issd_write_loop.simps) (auto simp: finish_same stored_def put_words_def tdram_def)
  next
    case False
    define num where "num = min n (SECTORS_PER_PAGE - off)"
    have B: "SECTORS_PER_PAGE = 64" "NUM_LPAGES = 1950351" by (simp_all add: geom)
    have lpn: "lpn < NUM_LPAGES" and wrap: "off + n < 4294967296" using less.prems(2,3) False by (simp_all add: B)
    have num: "0 < num" "num \<le> n" "num \<le> 64" using less.prems(2) False by (simp_all add: num_def B)
    have "0 < pages_of off n" using False by (simp add: pages_of_def B)
    then have "free_rows s (g_target_bank s) \<noteq> []" using less.prems(5) tut_invD(2) [OF less.prems(1)] by fastforce
    then obtain row rows where fr: "free_rows s (g_target_bank s) = row # rows" by (cases "free_rows s (g_target_bank s)") auto
    have src: "src mod 4 = 0" "src + num * 512 < 4294967296" "src + num * 512 \<le> ISSD_WR_BUF_ADDR \<or> ISSD_WR_BUF_ADDR + BYTES_PER_PAGE \<le> src"
      using less.prems(4) num(2) addr_consts(1,2) by (auto simp: src_ok_def)
    obtain s1 where s1: "issd_write_page hw src lpn off n s = Some (num, s1)" "tut_inv s1"
      "free_rows s1 (g_target_bank s) = rows" "\<And>b. b < NUM_BANKS \<Longrightarrow> b \<noteq> g_target_bank s \<Longrightarrow> free_rows s1 b = free_rows s b"
      "\<And>l. l < NUM_LPAGES \<Longrightarrow> l \<noteq> lpn \<Longrightarrow> lword s1 l = lword s l"
      "\<And>x. off * 512 \<le> x \<Longrightarrow> x < (off + num) * 512 \<Longrightarrow> lword s1 lpn x = Some (tdram s (src + (x - off * 512)))"
      "\<And>x. x < BYTES_PER_PAGE \<Longrightarrow> lword s lpn x \<noteq> None \<Longrightarrow> x < off * 512 \<or> (off + num) * 512 \<le> x \<Longrightarrow> lword s1 lpn x = lword s lpn x"
      "\<And>a. a < 4294967296 \<Longrightarrow> a < PAGE_MAP_ADDR \<or> PAGE_MAP_ADDR + PAGE_MAP_BYTES \<le> a \<and> a < ISSD_WR_BUF_ADDR
         \<or> ISSD_WR_BUF_ADDR + BYTES_PER_PAGE \<le> a \<Longrightarrow> tdram s1 a = tdram s a"
      using issd_write_page_step [OF hw less.prems(1) lpn less.prems(2) _ wrap num_def fr src] False by blast
    have len: "length (free_rows s b) \<le> length (free_rows s1 b) + 1" if "b < NUM_BANKS" for b
      using s1(3,4) fr that by (cases "b = g_target_bank s") auto
    have p1: "pages_of 0 (n - num) + 1 = pages_of off n"
      using pages_of_step [OF num_def less.prems(2)] False by simp
    have "\<exists>s'. issd_write_loop hw (src + num * 512) (lpn + 1) 0 (n - num) s1 = Some (0, s') \<and> tut_inv s'
      \<and> stored (src + num * 512) (lpn + 1) 0 (n - num) s1 s'
      \<and> (\<forall>b < NUM_BANKS. length (free_rows s1 b) \<le> length (free_rows s' b) + pages_of 0 (n - num))"
    proof (rule less.IH)
      show "n - num < n" using num by simp
      show "tut_inv s1" by (rule s1(2))
      show "0 < SECTORS_PER_PAGE" by (simp add: B)
      show "(lpn + 1) * SECTORS_PER_PAGE + 0 + (n - num) \<le> NUM_LPAGES * SECTORS_PER_PAGE"
      proof (cases "num < n")
        case True
        then have "num = 64 - off" by (simp add: num_def B)
        then show ?thesis using less.prems(2,3) True by (simp add: B)
      next
        case False
        then show ?thesis using lpn num(2) by (simp add: B)
      qed
      show "src_ok (src + num * 512) ((n - num) * 512)"
        using less.prems(4) num(2) by (auto simp: src_ok_def diff_mult_distrib mod_add_eq [symmetric] intro!: mod_mult_self1_is_0)
      show "\<forall>b < NUM_BANKS. pages_of 0 (n - num) \<le> length (free_rows s1 b)"
        using less.prems(5) len p1 by (metis add_le_cancel_right le_trans)
    qed
    then obtain s' where s': "issd_write_loop hw (src + num * 512) (lpn + 1) 0 (n - num) s1 = Some (0, s')" "tut_inv s'"
      "stored (src + num * 512) (lpn + 1) 0 (n - num) s1 s'"
      "\<And>b. b < NUM_BANKS \<Longrightarrow> length (free_rows s1 b) \<le> length (free_rows s' b) + pages_of 0 (n - num)" by blast
    have w: "wrap32 (src + num * BYTES_PER_SECTOR) = src + num * 512" using src(2) by (simp add: wrap32_id addr_consts)
    have "issd_write_loop hw src lpn off n s = Some (0, s')"
      using False s1(1) s'(1) w by (subst issd_write_loop.simps) simp
    moreover have "stored src lpn off n s s'"
      using stored_step [OF s1(5-8) s'(3) num_def less.prems(2,4)] False by simp
    moreover have "length (free_rows s b) \<le> length (free_rows s' b) + pages_of off n" if "b < NUM_BANKS" for b
      using len [OF that] s'(4) [OF that] p1 by linarith
    ultimately show ?thesis using s'(2) by blast
  qed
qed

text \<open>The store by sectors: the word at byte \<open>w\<close> of logical sector \<open>i\<close>.\<close>

definition sec :: "tstate \<Rightarrow> nat \<Rightarrow> nat \<Rightarrow> u32 option" where
  "sec s i w = lword s (i div SECTORS_PER_PAGE) (i mod SECTORS_PER_PAGE * 512 + w)"

lemma sec_sector: "sec s i w = sector (lword s) i w"
  by (simp add: sec_def sector_def)

lemma stored_sector:
  assumes st: "stored src (lba div SECTORS_PER_PAGE) (lba mod SECTORS_PER_PAGE) n s s'" and i: "i < NUM_LSECTORS" "w < 512"
  shows "if lba \<le> i \<and> i < lba + n then sec s' i w = Some (tdram s (src + (i - lba) * 512 + w))
         else sec s i w \<noteq> None \<longrightarrow> sec s' i w = sec s i w"
  using put_words_sector [OF _ i, of "\<lambda>k. tdram s (src + k)" lba n "lword s" "lword s'"] st by (simp add: stored_def sec_sector add.assoc)

lemma issd_write_sectors_run:
  assumes "flash_ok tut_layout hw" and "tut_inv s" and "lba + n \<le> NUM_LSECTORS" and "src_ok src (n * 512)"
    and "\<forall>b < NUM_BANKS. pages_of (lba mod SECTORS_PER_PAGE) n \<le> length (free_rows s b)"
  shows "\<exists>s'. issd_write_sectors hw src lba n s = Some (0, s') \<and> tut_inv s'
    \<and> stored src (lba div SECTORS_PER_PAGE) (lba mod SECTORS_PER_PAGE) n s s'
    \<and> (\<forall>b < NUM_BANKS. length (free_rows s b) \<le> length (free_rows s' b) + pages_of (lba mod SECTORS_PER_PAGE) n)"
proof -
  have o: "lba mod SECTORS_PER_PAGE < SECTORS_PER_PAGE" by (simp add: geom)
  have "lba div SECTORS_PER_PAGE * SECTORS_PER_PAGE + lba mod SECTORS_PER_PAGE + n \<le> NUM_LPAGES * SECTORS_PER_PAGE"
    using assms(3) by (simp add: geom)
  from issd_write_loop_stores [OF assms(1,2) o this assms(4,5)] show ?thesis by (simp add: issd_write_sectors_def)
qed

text \<open>
  C3. \<open>issd_write_sectors\<close> writes the sector store: with enough free rows it returns 0, sector
  \<open>lba + k\<close> then holds the \<open>k\<close>th sector of the buffer, every other sector that had a content keeps it,
  pages without a written sector are not remapped, and the DRAM changes only in the page map and the
  write buffer. Partial pages at both ends are merged with the old sectors from whatever bank they are in.
\<close>

theorem issd_write_sectors_stores:
  assumes "flash_ok tut_layout hw" and "tut_inv s" and "lba + n \<le> NUM_LSECTORS" and "src_ok src (n * 512)"
    and "\<forall>b < NUM_BANKS. pages_of (lba mod SECTORS_PER_PAGE) n \<le> length (free_rows s b)"
  shows "\<exists>s'. issd_write_sectors hw src lba n s = Some (0, s') \<and> tut_inv s'
    \<and> (\<forall>i < NUM_LSECTORS. \<forall>w < 512. if lba \<le> i \<and> i < lba + n then sec s' i w = Some (tdram s (src + (i - lba) * 512 + w))
         else sec s i w \<noteq> None \<longrightarrow> sec s' i w = sec s i w)
    \<and> (\<forall>l < NUM_LPAGES. l < lba div SECTORS_PER_PAGE \<or> lba + n \<le> l * SECTORS_PER_PAGE \<longrightarrow> lword s' l = lword s l)
    \<and> (\<forall>a < 4294967296. a < PAGE_MAP_ADDR \<or> PAGE_MAP_ADDR + PAGE_MAP_BYTES \<le> a \<and> a < ISSD_WR_BUF_ADDR
         \<or> ISSD_WR_BUF_ADDR + BYTES_PER_PAGE \<le> a \<longrightarrow> tdram s' a = tdram s a)
    \<and> (\<forall>b < NUM_BANKS. length (free_rows s b) \<le> length (free_rows s' b) + pages_of (lba mod SECTORS_PER_PAGE) n)"
proof -
  let ?l = "lba div SECTORS_PER_PAGE" and ?o = "lba mod SECTORS_PER_PAGE"
  obtain s' where r: "issd_write_sectors hw src lba n s = Some (0, s')" "tut_inv s'" and st: "stored src ?l ?o n s s'"
    and len: "\<forall>b < NUM_BANKS. length (free_rows s b) \<le> length (free_rows s' b) + pages_of ?o n"
    using issd_write_sectors_run [OF assms] by blast
  have "lword s' l = lword s l" if "l < NUM_LPAGES" "l < ?l \<or> lba + n \<le> l * SECTORS_PER_PAGE" for l
  proof -
    have "lba + n \<le> l * SECTORS_PER_PAGE \<Longrightarrow> lba * 512 + n * 512 \<le> l * BYTES_PER_PAGE" by (simp add: geom)
    with st that show ?thesis unfolding stored_def put_words_def lba_pos by blast
  qed
  moreover note stored_sector [OF st]
  ultimately show ?thesis using r st len unfolding stored_def by (intro exI [of _ s']) blast
qed

lemma tstate0_ok: "tut_inv tstate0"
proof -
  have "PAGES_PER_VBLK \<le> PAGES_PER_BANK" by (simp add: geom)
  then show ?thesis
    by (auto simp: tut_inv_def scan_ok_def map_entry_def) (auto simp: tstate0_def fstate0_def nand0_def blank_def tdram_def geom)
qed

theorem issd_write_sectors_stores_witness:
  "\<exists>s'. issd_write_sectors hw_ref DRAM_BASE 100 200 tstate0 = Some (0, s') \<and> tut_inv s'"
proof -
  have "\<forall>b < NUM_BANKS. pages_of (100 mod SECTORS_PER_PAGE) 200 \<le> length (free_rows tstate0 b)"
    by (simp add: tstate0_free_rows pages_of_def del: upt.simps) (simp add: geom)
  moreover have "src_ok DRAM_BASE (200 * 512)" by (simp add: src_ok_def geom)
  moreover have "100 + 200 \<le> NUM_LSECTORS" by (simp add: geom)
  ultimately show ?thesis using issd_write_sectors_stores [OF hw_ref_ok tstate0_ok] by blast
qed

text \<open>Reading: buffers that do not reach the page map, and the effect of the loop.\<close>

definition dst_ok :: "nat \<Rightarrow> nat \<Rightarrow> bool" where
  "dst_ok a len \<longleftrightarrow> a + len \<le> DRAM_BASE + DRAM_SIZE \<and> (a + len \<le> SCAN_LIST_ADDR \<or> PAGE_MAP_ADDR + PAGE_MAP_BYTES \<le> a)"

lemma issd_read_page_step:
  assumes hw: "flash_ok tut_layout hw" and lpn: "lpn < NUM_LPAGES" and m: "map_entry s lpn \<noteq> 0"
    and k: "off + num \<le> SECTORS_PER_PAGE" and buf: "buf_ok buf"
  shows "\<exists>s'. issd_read_page hw buf lpn off num s = Some (True, s')
    \<and> pages (nand (fl s')) = pages (nand (fl s)) \<and> g_target_row s' = g_target_row s \<and> g_target_bank s' = g_target_bank s
    \<and> g_scan_list_entries s' = g_scan_list_entries s
    \<and> (\<forall>x. off * 512 \<le> x \<and> x < off * 512 + num * 512 \<longrightarrow> Some (tdram s' (buf + x)) = lword s lpn x)
    \<and> (\<forall>a < 4294967296. a < buf + off * 512 \<or> buf + (off * 512 + num * 512) \<le> a \<longrightarrow> tdram s' a = tdram s a)"
proof -
  let ?pa = "map_entry s lpn"
  define f where "f = flash_issue_cmd hw (?pa div PAGES_PER_BANK) RETURN_ON_ISSUE
     (setup_fcp FC_COL_ROW_READ_OUT (FO_P + FO_E) buf (num * BYTES_PER_SECTOR) off (?pa div PAGES_PER_BANK) (?pa mod PAGES_PER_BANK) (fl s))"
  have "off * 512 + num * BYTES_PER_SECTOR \<le> BYTES_PER_PAGE" using k by (simp add: geom)
  note r = read_cmd [OF hw disjI1 [OF refl] opt_mod(1) this buf, where b = "?pa div PAGES_PER_BANK" and sync = RETURN_ON_ISSUE
      and r = "?pa mod PAGES_PER_BANK" and s = "fl s", folded f_def]
  have run: "issd_read_page hw buf lpn off num s = Some (True, s\<lparr>fl := f\<rparr>)"
    using m by (simp add: issd_read_page_def get_physical_address_eq [OF lpn] f_def on_fl_def Let_def)
  have "Some (tdram (s\<lparr>fl := f\<rparr>) (buf + x)) = lword s lpn x" if "off * 512 \<le> x" "x < off * 512 + num * 512" for x
    using r(2) [of x] that m by (simp add: tdram_def lword_def page_of_def addr_consts)
  moreover have "tdram (s\<lparr>fl := f\<rparr>) a = tdram s a" if "a < 4294967296" "a < buf + off * 512 \<or> buf + (off * 512 + num * 512) \<le> a" for a
    using r(3) [of a] that by (simp add: tdram_def addr_consts)
  ultimately show ?thesis using run r(1) by (intro exI [of _ "s\<lparr>fl := f\<rparr>"]) simp
qed

text \<open>The same store: mapping, flash and allocation are untouched.\<close>

definition same_store :: "tstate \<Rightarrow> tstate \<Rightarrow> bool" where
  "same_store s s' \<longleftrightarrow> (\<forall>l < NUM_LPAGES. lword s' l = lword s l \<and> map_entry s' l = map_entry s l) \<and> (tut_inv s \<longrightarrow> tut_inv s')
     \<and> (scan_ok s \<longrightarrow> (\<forall>b < NUM_BANKS. free_rows s' b = free_rows s b))"

lemma same_storeI:
  assumes "pages (nand (fl s')) = pages (nand (fl s))" and "g_target_row s' = g_target_row s" and "g_target_bank s' = g_target_bank s"
    and "g_scan_list_entries s' = g_scan_list_entries s"
    and "\<And>a. SCAN_LIST_ADDR \<le> a \<Longrightarrow> a < PAGE_MAP_ADDR + PAGE_MAP_BYTES \<Longrightarrow> tdram s' a = tdram s a"
  shows "same_store s s'"
proof -
  have pm: "SCAN_LIST_ADDR \<le> PAGE_MAP_ADDR" "PAGE_MAP_ADDR \<le> PAGE_MAP_ADDR + PAGE_MAP_BYTES" "NUM_LPAGES * 4 \<le> PAGE_MAP_BYTES"
    by (simp_all add: geom)
  have e: "map_entry s' l = map_entry s l" if "l < NUM_LPAGES" for l
    using assms(5) [of "PAGE_MAP_ADDR + l * 4"] that pm by (simp add: map_entry_def)
  have fr: "free_rows s' b = free_rows s b" if "b < NUM_BANKS" "scan_ok s" for b
    by (rule free_rows_cong [OF _ that]) (use assms pm in auto)
  have "tut_inv s'" if "tut_inv s"
    using that e fr assms unfolding tut_inv_def scan_ok_def blank_def by simp
  then show ?thesis using e fr assms(1) by (simp add: same_store_def lword_def page_of_def fun_eq_iff)
qed

lemma same_store_trans: "same_store s s1 \<Longrightarrow> same_store s1 s2 \<Longrightarrow> scan_ok s = scan_ok s1 \<Longrightarrow> same_store s s2"
  by (simp add: same_store_def)

text \<open>The pages of a transfer are all mapped.\<close>

definition all_mapped :: "tstate \<Rightarrow> nat \<Rightarrow> nat \<Rightarrow> nat \<Rightarrow> bool" where
  "all_mapped s lpn off n \<longleftrightarrow> list_all (\<lambda>l. map_entry s l \<noteq> 0) [lpn..<lpn + (if n = 0 then 0 else pages_of off n)]"

definition loaded :: "nat \<Rightarrow> nat \<Rightarrow> nat \<Rightarrow> nat \<Rightarrow> tstate \<Rightarrow> tstate \<Rightarrow> bool" where
  "loaded buf lpn off n s s' \<longleftrightarrow> (\<forall>l x. x < BYTES_PER_PAGE \<and> lpn * BYTES_PER_PAGE + off * 512 \<le> l * BYTES_PER_PAGE + x
      \<and> l * BYTES_PER_PAGE + x < lpn * BYTES_PER_PAGE + off * 512 + n * 512 \<longrightarrow>
      Some (tdram s' (buf + (l * BYTES_PER_PAGE + x - lpn * BYTES_PER_PAGE))) = lword s l x)"

lemma all_mapped_step:
  assumes "num = min n (SECTORS_PER_PAGE - off)" and "off < SECTORS_PER_PAGE" and "0 < n"
  shows "all_mapped s lpn off n \<longleftrightarrow> map_entry s lpn \<noteq> 0 \<and> all_mapped s (lpn + 1) 0 (n - num)"
proof -
  have z: "pages_of 0 0 = 0" by (simp add: pages_of_def geom)
  have "pages_of off n = pages_of 0 (n - num) + 1" using pages_of_step [OF assms] by simp
  then have "[lpn..<lpn + pages_of off n] = lpn # [lpn + 1..<lpn + 1 + pages_of 0 (n - num)]" by (simp add: upt_conv_Cons)
  moreover have "(if n - num = 0 then 0 else pages_of 0 (n - num)) = pages_of 0 (n - num)" using z by simp
  ultimately show ?thesis using assms(3) unfolding all_mapped_def by simp
qed

lemma loaded_step:
  assumes step: "\<And>x. off * 512 \<le> x \<Longrightarrow> x < off * 512 + num * 512 \<Longrightarrow> Some (tdram s1 (buf + x)) = lword s lpn x"
    and fr: "\<And>a. a < buf + BYTES_PER_PAGE \<Longrightarrow> tdram s' a = tdram s1 a"
    and rest: "loaded (buf + BYTES_PER_PAGE) (lpn + 1) 0 (n - num) s1 s'"
    and st: "\<And>l. l < NUM_LPAGES \<Longrightarrow> lword s1 l = lword s l"
    and num: "num = min n (SECTORS_PER_PAGE - off)" and off: "off < SECTORS_PER_PAGE"
    and fits: "lpn * SECTORS_PER_PAGE + off + n \<le> NUM_LPAGES * SECTORS_PER_PAGE"
  shows "loaded buf lpn off n s s'"
proof (unfold loaded_def, intro allI impI)
  fix l x
  let ?B = BYTES_PER_PAGE
  assume *: "x < ?B \<and> lpn * ?B + off * 512 \<le> l * ?B + x \<and> l * ?B + x < lpn * ?B + off * 512 + n * 512"
  have B: "?B = 32768" "SECTORS_PER_PAGE = 64" by (simp_all add: geom)
  have nn: "num \<le> n" "num < n \<Longrightarrow> off * 512 + num * 512 = ?B" "off * 512 + num * 512 \<le> ?B" using num off by (auto simp: B)
  consider "l < lpn" | "l = lpn" | "lpn + 1 \<le> l" by linarith
  then show "Some (tdram s' (buf + (l * ?B + x - lpn * ?B))) = lword s l x"
  proof cases
    case 1
    then have "l * ?B + x < lpn * ?B" using * unfolding B by linarith
    with * show ?thesis by linarith
  next
    case 2
    have x: "off * 512 \<le> x" "x < off * 512 + n * 512" using * 2 by auto
    have "x < off * 512 + num * 512" using x nn * by (cases "num < n") auto
    then show ?thesis using step [OF x(1)] fr [of "buf + x"] * 2 by simp
  next
    case 3
    have ge: "(lpn + 1) * ?B \<le> l * ?B" using 3 by (simp only: mult_le_mono1)
    have lt: "num < n"
    proof (rule ccontr)
      assume "\<not> num < n"
      then have "num = n" using nn(1) by simp
      then have "lpn * ?B + off * 512 + n * 512 \<le> (lpn + 1) * ?B" using nn(3) by (simp add: B)
      with * ge show False by linarith
    qed
    have e: "(lpn + 1) * ?B = lpn * ?B + off * 512 + num * 512" using nn(2) [OF lt] by (simp add: B)
    have E: "(lpn + 1) * ?B + (n - num) * 512 = lpn * ?B + off * 512 + n * 512" using e nn(1) by (simp add: diff_mult_distrib)
    have "l * ?B < NUM_LPAGES * ?B"
    proof -
      have "lpn * ?B + off * 512 + n * 512 \<le> NUM_LPAGES * ?B" using fits by (simp add: B)
      with * show ?thesis by linarith
    qed
    then have l: "l < NUM_LPAGES" by simp
    have "Some (tdram s' (buf + ?B + (l * ?B + x - (lpn + 1) * ?B))) = lword s1 l x"
      using rest [unfolded loaded_def, rule_format, of x l] * ge E by simp
    moreover have "buf + ?B + (l * ?B + x - (lpn + 1) * ?B) = buf + (l * ?B + x - lpn * ?B)"
      using ge unfolding add_mult_distrib by linarith
    ultimately show ?thesis using st [OF l] by metis
  qed
qed

lemma issd_read_loop_reads:
  assumes hw: "flash_ok tut_layout hw"
  shows "tut_inv s \<Longrightarrow> off < SECTORS_PER_PAGE \<Longrightarrow> lpn * SECTORS_PER_PAGE + off + n \<le> NUM_LPAGES * SECTORS_PER_PAGE
    \<Longrightarrow> (0 < n \<Longrightarrow> dst_ok (buf + off * 512) (n * 512))
    \<Longrightarrow> \<exists>s'. issd_read_loop hw buf lpn off n s = Some (if all_mapped s lpn off n then 0 else -1, s')
      \<and> same_store s s' \<and> (all_mapped s lpn off n \<longrightarrow> loaded buf lpn off n s s')
      \<and> (\<forall>a < 4294967296. a < buf + off * 512 \<or> buf + off * 512 + n * 512 \<le> a \<longrightarrow> tdram s' a = tdram s a)"
proof (induction n arbitrary: buf lpn off s rule: less_induct)
  case (less n)
  have B: "SECTORS_PER_PAGE = 64" "BYTES_PER_PAGE = 32768" by (simp_all add: geom)
  show ?case
  proof (cases "n = 0")
    case True
    have "same_store s (on_fl flash_finish s)" by (rule same_storeI) (simp_all add: tdram_def)
    with True show ?thesis
      by (subst issd_read_loop.simps) (auto simp: all_mapped_def loaded_def finish_same tdram_def)
  next
    case False
    define num where "num = min n (SECTORS_PER_PAGE - off)"
    have n0: "0 < n" using False by simp
    have lpn: "lpn < NUM_LPAGES" and wrap: "off + n < 4294967296"
      using less.prems(2,3) False by (simp_all add: B) (simp_all add: geom)
    have num: "0 < num" "num \<le> n" "off + num \<le> SECTORS_PER_PAGE" using less.prems(2) False by (simp_all add: num_def B)
    have c: "(if wrap32 (off + n) < SECTORS_PER_PAGE then n else SECTORS_PER_PAGE - off) = num"
      using wrap by (auto simp: num_def wrap32_id)
    note am = all_mapped_step [OF num_def less.prems(2) n0]
    have dst: "dst_ok (buf + off * 512) (n * 512)" using less.prems(4) n0 .
    have bok: "buf_ok buf" "buf + BYTES_PER_PAGE < 4294967296"
      using dst by (simp_all add: dst_ok_def buf_ok_def geom)
    show ?thesis
    proof (cases "map_entry s lpn = 0")
      case True
      then have "issd_read_loop hw buf lpn off n s = Some (-1, s)"
        using False by (subst issd_read_loop.simps) (simp add: c issd_read_page_def get_physical_address_eq [OF lpn] Let_def)
      moreover have "same_store s s" by (rule same_storeI) simp_all
      ultimately show ?thesis using am True by auto
    next
      case m: False
      obtain s1 where s1: "issd_read_page hw buf lpn off num s = Some (True, s1)"
        "pages (nand (fl s1)) = pages (nand (fl s))" "g_target_row s1 = g_target_row s" "g_target_bank s1 = g_target_bank s"
        "g_scan_list_entries s1 = g_scan_list_entries s"
        "\<And>x. off * 512 \<le> x \<Longrightarrow> x < off * 512 + num * 512 \<Longrightarrow> Some (tdram s1 (buf + x)) = lword s lpn x"
        "\<And>a. a < 4294967296 \<Longrightarrow> a < buf + off * 512 \<or> buf + (off * 512 + num * 512) \<le> a \<Longrightarrow> tdram s1 a = tdram s a"
        using issd_read_page_step [OF hw lpn m num(3) bok(1)] by blast
      have lim: "PAGE_MAP_ADDR + PAGE_MAP_BYTES < 4294967296" by (simp add: geom)
      have nm: "num * 512 \<le> n * 512" using num(2) by simp
      have ss: "same_store s s1"
      proof (rule same_storeI [OF s1(2-5)])
        fix a assume "SCAN_LIST_ADDR \<le> a" "a < PAGE_MAP_ADDR + PAGE_MAP_BYTES"
        then show "tdram s1 a = tdram s a"
          using s1(7) [of a] dst nm lim unfolding dst_ok_def by linarith
      qed
      have e: "num < n \<Longrightarrow> off * 512 + num * 512 = BYTES_PER_PAGE" using less.prems(2) by (simp add: num_def B)
      have "\<exists>s'. issd_read_loop hw (buf + BYTES_PER_PAGE) (lpn + 1) 0 (n - num) s1
            = Some (if all_mapped s1 (lpn + 1) 0 (n - num) then 0 else -1, s')
          \<and> same_store s1 s' \<and> (all_mapped s1 (lpn + 1) 0 (n - num) \<longrightarrow> loaded (buf + BYTES_PER_PAGE) (lpn + 1) 0 (n - num) s1 s')
          \<and> (\<forall>a < 4294967296. a < buf + BYTES_PER_PAGE + 0 * 512 \<or> buf + BYTES_PER_PAGE + 0 * 512 + (n - num) * 512 \<le> a \<longrightarrow> tdram s' a = tdram s1 a)"
      proof (rule less.IH)
        show "n - num < n" using num by simp
        show "tut_inv s1" using ss less.prems(1) by (simp add: same_store_def)
        show "0 < SECTORS_PER_PAGE" by (simp add: B)
        show "(lpn + 1) * SECTORS_PER_PAGE + 0 + (n - num) \<le> NUM_LPAGES * SECTORS_PER_PAGE"
        proof (cases "num < n")
          case True
          then show ?thesis using less.prems(2,3) e by (simp add: B)
        next
          case False
          then show ?thesis using lpn num(2) by (simp add: B)
        qed
        assume "0 < n - num"
        then show "dst_ok (buf + BYTES_PER_PAGE + 0 * 512) ((n - num) * 512)"
          using dst e num(2) by (auto simp: dst_ok_def diff_mult_distrib)
      qed
      then obtain s' where s': "issd_read_loop hw (buf + BYTES_PER_PAGE) (lpn + 1) 0 (n - num) s1
            = Some (if all_mapped s1 (lpn + 1) 0 (n - num) then 0 else -1, s')" "same_store s1 s'"
          "all_mapped s1 (lpn + 1) 0 (n - num) \<Longrightarrow> loaded (buf + BYTES_PER_PAGE) (lpn + 1) 0 (n - num) s1 s'"
          "\<And>a. a < 4294967296 \<Longrightarrow> a < buf + BYTES_PER_PAGE \<or> buf + BYTES_PER_PAGE + (n - num) * 512 \<le> a \<Longrightarrow> tdram s' a = tdram s1 a"
        by auto
      have am1: "all_mapped s1 (lpn + 1) 0 (n - num) = all_mapped s (lpn + 1) 0 (n - num)"
      proof -
        have "off + n \<le> (NUM_LPAGES - lpn) * 64" using less.prems(3) lpn by (simp add: B diff_mult_distrib)
        then have "(off + n + 64 - 1) div 64 \<le> NUM_LPAGES - lpn" by (simp only: ceil_div_le zero_less_numeral)
        then have "lpn + pages_of off n \<le> NUM_LPAGES" using lpn by (simp add: pages_of_def B)
        then have le: "lpn + 1 + pages_of 0 (n - num) \<le> NUM_LPAGES" using pages_of_step [OF num_def less.prems(2) n0] by simp
        show ?thesis unfolding all_mapped_def
        proof (intro list.pred_cong refl)
          fix z assume "z \<in> set [lpn + 1..<lpn + 1 + (if n - num = 0 then 0 else pages_of 0 (n - num))]"
          then have "z < NUM_LPAGES" using le by (auto split: if_splits)
          then show "(map_entry s1 z \<noteq> 0) = (map_entry s z \<noteq> 0)" using ss by (simp add: same_store_def)
        qed
      qed
      have w: "wrap32 (buf + BYTES_PER_PAGE) = buf + BYTES_PER_PAGE" using bok(2) by (simp add: wrap32_id)
      have run: "issd_read_loop hw buf lpn off n s = Some (if all_mapped s lpn off n then 0 else -1, s')"
        using False s1(1) s'(1) w am am1 m by (subst issd_read_loop.simps) (simp add: c Let_def)
      have store: "same_store s s'"
        by (rule same_store_trans [OF ss s'(2)]) (simp add: scan_ok_def s1(5))
      have ld: "loaded buf lpn off n s s'" if "all_mapped s lpn off n"
      proof (rule loaded_step [OF s1(6) _ s'(3) _ num_def less.prems(2,3)])
        show "tdram s' a = tdram s1 a" if "a < buf + BYTES_PER_PAGE" for a using s'(4) [of a] that bok(2) by simp
        show "all_mapped s1 (lpn + 1) 0 (n - num)" using that am am1 by simp
        show "lword s1 l = lword s l" if "l < NUM_LPAGES" for l using ss that by (simp add: same_store_def)
      qed
      have "tdram s' a = tdram s a" if "a < 4294967296" "a < buf + off * 512 \<or> buf + off * 512 + n * 512 \<le> a" for a
      proof -
        have "a < buf + BYTES_PER_PAGE \<or> buf + BYTES_PER_PAGE + (n - num) * 512 \<le> a"
          using that e num(2) by (cases "num < n") (auto simp: diff_mult_distrib B)
        then have "tdram s' a = tdram s1 a" using s'(4) that(1) by blast
        also have "\<dots> = tdram s a" using s1(7) [of a] that nm by auto
        finally show ?thesis .
      qed
      with run store ld show ?thesis by blast
    qed
  qed
qed

lemma page_bound:
  fixes q r lba l d P n :: nat
  assumes "q * 64 + r = lba" and "l = q + d" and "P \<le> d \<longleftrightarrow> r + n \<le> d * 64"
  shows "l < q + P \<longleftrightarrow> l * 64 < lba + n"
  unfolding assms(1) [symmetric] assms(2) using assms(3) by (auto simp: add_mult_distrib)

lemma all_mapped_sec:
  assumes "0 < n" and "lba + n \<le> NUM_LSECTORS"
  shows "all_mapped s (lba div SECTORS_PER_PAGE) (lba mod SECTORS_PER_PAGE) n
    \<longleftrightarrow> (\<forall>i < NUM_LSECTORS. lba \<le> i \<and> i < lba + n \<longrightarrow> sec s i 0 \<noteq> None)"
proof -
  let ?l = "lba div SECTORS_PER_PAGE" and ?o = "lba mod SECTORS_PER_PAGE"
  have B: "SECTORS_PER_PAGE = 64" "BYTES_PER_PAGE = 32768" by (simp_all add: geom)
  have o: "?o < SECTORS_PER_PAGE" by (simp add: geom)
  have lo: "?l * SECTORS_PER_PAGE + ?o = lba" by simp
  have "all_mapped s ?l ?o n \<longleftrightarrow> (\<forall>l. ?l \<le> l \<and> l * 64 < lba + n \<longrightarrow> map_entry s l \<noteq> 0)"
  proof -
    have "l < ?l + pages_of ?o n \<longleftrightarrow> l * 64 < lba + n" if le: "?l \<le> l" for l
    proof -
      obtain d where d: "l = ?l + d" using le_Suc_ex [OF le] by blast
      have "?o + n + (64 - 1) = ?o + n + 64 - 1" by simp
      then have "pages_of ?o n \<le> d \<longleftrightarrow> ?o + n \<le> d * 64"
        unfolding pages_of_def B by (simp only: ceil_div_le zero_less_numeral)
      then show ?thesis using page_bound [OF lo [unfolded B] d [unfolded B]] unfolding B by blast
    qed
    then show ?thesis using assms(1) by (auto simp: all_mapped_def list_all_iff)
  qed
  also have "\<dots> \<longleftrightarrow> (\<forall>i < NUM_LSECTORS. lba \<le> i \<and> i < lba + n \<longrightarrow> sec s i 0 \<noteq> None)"
  proof (intro iffI allI impI)
    fix i
    assume *: "\<forall>l. ?l \<le> l \<and> l * 64 < lba + n \<longrightarrow> map_entry s l \<noteq> 0" "lba \<le> i \<and> i < lba + n"
    have "?l \<le> i div 64" "i div 64 * 64 < lba + n" using *(2) by (simp_all add: B div_le_mono) (metis div_times_less_eq_dividend le_less_trans)
    with * show "sec s i 0 \<noteq> None" by (simp add: sec_def lword_def B)
  next
    fix l
    assume *: "\<forall>i < NUM_LSECTORS. lba \<le> i \<and> i < lba + n \<longrightarrow> sec s i 0 \<noteq> None" "?l \<le> l \<and> l * 64 < lba + n"
    let ?i = "max lba (l * 64)"
    have "sec s ?i 0 \<noteq> None" using * assms by auto
    moreover have "?i div 64 = l"
    proof (cases "l = ?l")
      case True
      then show ?thesis by (simp add: B max_def)
    next
      case False
      then have "lba \<le> l * 64" using *(2) lo o unfolding B by linarith
      then show ?thesis by (simp add: max_def)
    qed
    ultimately show "map_entry s l \<noteq> 0" by (simp add: sec_def lword_def B split: if_splits)
  qed
  finally show ?thesis .
qed

lemma loaded_sector:
  assumes L: "loaded buf (lba div SECTORS_PER_PAGE) (lba mod SECTORS_PER_PAGE) n s s'" and "lba + n \<le> NUM_LSECTORS"
    and that: "k < n" "w < 512"
  shows "sec s (lba + k) w = Some (tdram s' (buf + (lba mod SECTORS_PER_PAGE + k) * 512 + w))"
proof -
  let ?l = "lba div SECTORS_PER_PAGE" and ?o = "lba mod SECTORS_PER_PAGE"
  have i: "lba + k < NUM_LSECTORS" using assms(2) that(1) by simp
  note p = sec_pos [OF i that(2)]
  have "(lba + k) * 512 + w < lba * 512 + n * 512" "lba * 512 \<le> (lba + k) * 512 + w" using that by simp_all
  then have "Some (tdram s' (buf + ((lba + k) * 512 + w - ?l * BYTES_PER_PAGE))) = sec s (lba + k) w"
    using L [unfolded loaded_def lba_pos, rule_format, of "(lba + k) mod SECTORS_PER_PAGE * 512 + w" "(lba + k) div SECTORS_PER_PAGE"]
      p(2) unfolding p(3) sec_def by blast
  moreover have "(lba + k) * 512 + w - ?l * BYTES_PER_PAGE = (?o + k) * 512 + w"
    using lba_pos [of lba] by (simp add: add_mult_distrib)
  ultimately show ?thesis by (simp add: add.assoc)
qed

lemma issd_read_sectors_run:
  assumes "flash_ok tut_layout hw" and "tut_inv s" and "lba + n \<le> NUM_LSECTORS"
    and "dst_ok (buf + lba mod SECTORS_PER_PAGE * 512) (n * 512)"
  shows "\<exists>s'. issd_read_sectors hw buf lba n s
        = Some (if all_mapped s (lba div SECTORS_PER_PAGE) (lba mod SECTORS_PER_PAGE) n then 0 else -1, s') \<and> same_store s s'
    \<and> (all_mapped s (lba div SECTORS_PER_PAGE) (lba mod SECTORS_PER_PAGE) n \<longrightarrow>
         loaded buf (lba div SECTORS_PER_PAGE) (lba mod SECTORS_PER_PAGE) n s s')
    \<and> (\<forall>a < 4294967296. a < buf + lba mod SECTORS_PER_PAGE * 512 \<or> buf + lba mod SECTORS_PER_PAGE * 512 + n * 512 \<le> a
         \<longrightarrow> tdram s' a = tdram s a)"
proof -
  have o: "lba mod SECTORS_PER_PAGE < SECTORS_PER_PAGE" by (simp add: geom)
  have "lba div SECTORS_PER_PAGE * SECTORS_PER_PAGE + lba mod SECTORS_PER_PAGE + n \<le> NUM_LPAGES * SECTORS_PER_PAGE"
    using assms(3) by (simp add: geom)
  from issd_read_loop_reads [OF assms(1,2) o this assms(4)] show ?thesis by (simp add: issd_read_sectors_def)
qed

text \<open>
  C9. \<open>issd_read_sectors\<close> returns 0 exactly when every page of the range has been written, and then the
  buffer holds sector \<open>lba + k\<close> at \<open>buf + (lba mod 64 + k) * 512\<close>: the data starts at the sector's offset
  in its page, not at the start of the buffer. The store and the rest of the DRAM do not change, and with
  an unwritten page the result is -1.
\<close>

theorem issd_read_sectors_loads:
  assumes "flash_ok tut_layout hw" and "tut_inv s" and "lba + n \<le> NUM_LSECTORS"
    and "0 < n" and "dst_ok (buf + lba mod SECTORS_PER_PAGE * 512) (n * 512)"
  shows "\<exists>s'. issd_read_sectors hw buf lba n s
        = Some (if \<forall>i < NUM_LSECTORS. lba \<le> i \<and> i < lba + n \<longrightarrow> sec s i 0 \<noteq> None then 0 else -1, s')
    \<and> same_store s s'
    \<and> ((\<forall>i < NUM_LSECTORS. lba \<le> i \<and> i < lba + n \<longrightarrow> sec s i 0 \<noteq> None) \<longrightarrow>
        (\<forall>k < n. \<forall>w < 512. sec s (lba + k) w = Some (tdram s' (buf + (lba mod SECTORS_PER_PAGE + k) * 512 + w))))
    \<and> (\<forall>a < 4294967296. a < buf + lba mod SECTORS_PER_PAGE * 512 \<or> buf + lba mod SECTORS_PER_PAGE * 512 + n * 512 \<le> a
         \<longrightarrow> tdram s' a = tdram s a)"
  using issd_read_sectors_run [OF assms(1-3,5)] loaded_sector [OF _ assms(3)]
  unfolding all_mapped_sec [OF assms(4,3), symmetric] by blast

theorem issd_read_sectors_loads_witness:
  "\<exists>s'. issd_read_sectors hw_ref DRAM_BASE 0 1 tstate0 = Some (-1, s') \<and> same_store tstate0 s'"
proof -
  have "sec tstate0 0 0 = None" by (simp add: sec_def lword_def map_entry_def tstate0_def tdram_def)
  moreover have "dst_ok (DRAM_BASE + 0 mod SECTORS_PER_PAGE * 512) (1 * 512)" by (simp add: dst_ok_def geom)
  moreover have "0 + 1 \<le> NUM_LSECTORS" "0 < NUM_LSECTORS" by (simp_all add: geom)
  ultimately show ?thesis using issd_read_sectors_loads [OF hw_ref_ok tstate0_ok, of 0 1 DRAM_BASE] by auto
qed

text \<open>
  C10. A buffer written to the store and read back arrives unchanged, at the sector's offset in its page.
\<close>

theorem issd_store_roundtrip:
  assumes "flash_ok tut_layout hw" and "tut_inv s" and "lba + n \<le> NUM_LSECTORS" and "0 < n"
    and "src_ok src (n * 512)" and "dst_ok (dst + lba mod SECTORS_PER_PAGE * 512) (n * 512)"
    and "\<forall>b < NUM_BANKS. pages_of (lba mod SECTORS_PER_PAGE) n \<le> length (free_rows s b)"
  shows "\<exists>s1 s2. issd_write_sectors hw src lba n s = Some (0, s1) \<and> issd_read_sectors hw dst lba n s1 = Some (0, s2)
    \<and> (\<forall>k < n. \<forall>w < 512. tdram s2 (dst + (lba mod SECTORS_PER_PAGE + k) * 512 + w) = tdram s (src + k * 512 + w))"
proof -
  let ?l = "lba div SECTORS_PER_PAGE" and ?o = "lba mod SECTORS_PER_PAGE"
  obtain s1 where s1: "issd_write_sectors hw src lba n s = Some (0, s1)" "tut_inv s1" and st: "stored src ?l ?o n s s1"
    using issd_write_sectors_run [OF assms(1-3,5,7)] by blast
  have data: "sec s1 (lba + k) w = Some (tdram s (src + k * 512 + w))" if "k < n" "w < 512" for k w
    using stored_sector [OF st, of "lba + k" w] that assms(3) by simp
  have "sec s1 i 0 \<noteq> None" if "lba \<le> i \<and> i < lba + n" for i using data [of "i - lba" 0] that by auto
  then have am: "all_mapped s1 ?l ?o n" using all_mapped_sec [OF assms(4,3)] by blast
  then obtain s2 where s2: "issd_read_sectors hw dst lba n s1 = Some (0, s2)" and ld: "loaded dst ?l ?o n s1 s2"
    using issd_read_sectors_run [OF assms(1) s1(2) assms(3,6)] by auto
  have "tdram s2 (dst + (?o + k) * 512 + w) = tdram s (src + k * 512 + w)" if "k < n" "w < 512" for k w
    using loaded_sector [OF ld assms(3) that] data [OF that] by simp
  with s1(1) s2 show ?thesis by blast
qed

theorem issd_store_roundtrip_witness:
  "\<exists>s1 s2. issd_write_sectors hw_ref DRAM_BASE 100 200 tstate0 = Some (0, s1)
     \<and> issd_read_sectors hw_ref ISSD_COMPUTING_ADDR 100 200 s1 = Some (0, s2)"
proof -
  have "\<forall>b < NUM_BANKS. pages_of (100 mod SECTORS_PER_PAGE) 200 \<le> length (free_rows tstate0 b)"
    by (simp add: tstate0_free_rows pages_of_def del: upt.simps) (simp add: geom)
  moreover have "src_ok DRAM_BASE (200 * 512)" "dst_ok (ISSD_COMPUTING_ADDR + 100 mod SECTORS_PER_PAGE * 512) (200 * 512)"
    "100 + 200 \<le> NUM_LSECTORS" by (simp_all add: src_ok_def dst_ok_def geom)
  ultimately show ?thesis using issd_store_roundtrip [OF hw_ref_ok tstate0_ok] by (metis zero_less_numeral)
qed

end
