(* ===== verification/Backup_Op.thy ===== *)
theory Backup_Op
  imports Ftl_Tutorial
begin

text \<open>
  The in-storage backup operation of the device (\<open>issd/issd.c\<close>, \<open>issd/issd.h\<close>): the command the host put
  into the command buffer names source and destination extents; the device copies the source sectors to the
  destination in chunks of at most \<open>ISSD_CNT_PAGES\<close> pages through the computing buffer. The routines the
  file declares \<open>extern\<close> (the layer's sector copy and the DRAM accessors) are the fields of \<open>issd_dev\<close>,
  instantiated with the tutorial layer; what the operation needs of them is the locale \<open>sector_store\<close>.
  A C \<open>int\<close> is an \<open>int\<close>: values read from DRAM are converted to 32 bits, sums of ints are not
  wrapped (their overflow is undefined in C); unsigned values are \<open>nat\<close> below \<open>2 ^ 32\<close>.
\<close>

subsection \<open>The command buffer\<close>

definition ISSD_BACKUP :: int where "ISSD_BACKUP = 0"
definition ISSD_MAX_OP_FILES :: nat where [geom]: "ISSD_MAX_OP_FILES = 3"

definition u32_of :: "int \<Rightarrow> nat" where
  "u32_of i = nat (i mod 4294967296)"

definition c_int :: "nat \<Rightarrow> int" where
  "c_int n = int32 (int n)"

text \<open>Addresses of the fields of \<open>afCommand_t\<close>.\<close>

definition cmd_opType :: nat where "cmd_opType = ISSD_CMD_BUFFER_ADDR + 4"
definition cmd_isOK :: nat where "cmd_isOK = ISSD_CMD_BUFFER_ADDR + 8"

definition cmd_fileSize :: "nat \<Rightarrow> nat" where
  "cmd_fileSize i = ISSD_CMD_BUFFER_ADDR + 16 + 4 * i"

definition cmd_file_ext_offset :: "nat \<Rightarrow> nat" where
  "cmd_file_ext_offset i = ISSD_CMD_BUFFER_ADDR + 16 + 4 * ISSD_MAX_OP_FILES + 4 * i"

definition cmd_ext_lba :: "int \<Rightarrow> nat" where
  "cmd_ext_lba i = u32_of (int (ISSD_CMD_BUFFER_ADDR + 16 + 4 * ISSD_MAX_OP_FILES + 4 * (ISSD_MAX_OP_FILES + 1)) + 8 * i)"

definition cmd_ext_len :: "int \<Rightarrow> nat" where
  "cmd_ext_len i = u32_of (int (ISSD_CMD_BUFFER_ADDR + 16 + 4 * ISSD_MAX_OP_FILES + 4 * (ISSD_MAX_OP_FILES + 1)) + 8 * i + 4)"

subsection \<open>The operation\<close>

record 's issd_dev =
  rd_word :: "nat \<Rightarrow> 's \<Rightarrow> nat option"
  wr_word :: "nat \<Rightarrow> nat \<Rightarrow> 's \<Rightarrow> 's option"
  rd_sectors :: "nat \<Rightarrow> nat \<Rightarrow> nat \<Rightarrow> 's \<Rightarrow> (int \<times> 's) option"
  wr_sectors :: "nat \<Rightarrow> nat \<Rightarrow> nat \<Rightarrow> 's \<Rightarrow> (int \<times> 's) option"

record wr_sector_pointer =
  index :: int
  offset :: int

text \<open>The loop over the destination; \<open>False\<close> is the return with -1.\<close>

partial_function (option) write_chunks ::
    "'s issd_dev \<Rightarrow> int \<Rightarrow> int \<Rightarrow> nat \<Rightarrow> int \<Rightarrow> wr_sector_pointer \<Rightarrow> 's \<Rightarrow> (bool \<times> wr_sector_pointer \<times> 's) option" where
  "write_chunks dev wr_bio_offset nr_wr_bios buf_addr wrs cur s =
     (if wrs = 0 then Some (True, cur, s)
      else do {
        ASSERT (index cur < nr_wr_bios);
        len \<leftarrow> rd_word dev (cmd_ext_len (wr_bio_offset + index cur)) s;
        let left_wr_sectors = c_int len - offset cur;
        let is_wr_seqblk_finish = (left_wr_sectors \<le> wrs);
        let send_wr_sectors = (if is_wr_seqblk_finish then left_wr_sectors else wrs);
        lba \<leftarrow> rd_word dev (cmd_ext_lba (wr_bio_offset + index cur)) s;
        (ret, s) \<leftarrow> wr_sectors dev buf_addr (u32_of (c_int lba + offset cur)) (u32_of send_wr_sectors) s;
        if ret < 0 then Some (False, cur, s)
        else write_chunks dev wr_bio_offset nr_wr_bios (u32_of (int buf_addr + send_wr_sectors * int BYTES_PER_SECTOR))
               (wrs - send_wr_sectors)
               (if is_wr_seqblk_finish then cur\<lparr>index := index cur + 1, offset := 0\<rparr>
                else cur\<lparr>offset := offset cur + send_wr_sectors\<rparr>) s })"

text \<open>The number of sectors of the next read of an extent.\<close>

definition next_rd_sectors :: "int \<Rightarrow> int \<Rightarrow> int" where
  "next_rd_sectors lba num_sectors =
     (let start_lba_page = cdiv lba (int SECTORS_PER_PAGE);
          end_lba_page = cdiv (lba + num_sectors + int SECTORS_PER_PAGE - 1) (int SECTORS_PER_PAGE)
      in if int ISSD_CNT_PAGES < end_lba_page - start_lba_page
         then int (ISSD_CNT_PAGES * SECTORS_PER_PAGE) - cmod lba (int SECTORS_PER_PAGE) else num_sectors)"

definition next_file_offset :: "nat \<Rightarrow> int \<Rightarrow> int \<Rightarrow> nat" where
  "next_file_offset start rds fileSize =
     (let e = wrap32 (start + u32_of (rds * int BYTES_PER_SECTOR))
      in if u32_of fileSize \<le> e then u32_of fileSize else e)"

partial_function (option) backup_extent ::
    "'s issd_dev \<Rightarrow> int \<Rightarrow> int \<Rightarrow> int \<Rightarrow> int \<Rightarrow> int \<Rightarrow> nat \<Rightarrow> wr_sector_pointer \<Rightarrow> 's
       \<Rightarrow> (bool \<times> nat \<times> wr_sector_pointer \<times> 's) option" where
  "backup_extent dev wr_bio_offset nr_wr_bios fileSize lba num_sectors start cur s =
     (if num_sectors = 0 then Some (True, start, cur, s)
      else do {
        let start_sector_offset = cmod lba (int SECTORS_PER_PAGE);
        let rds = next_rd_sectors lba num_sectors;
        (ret, s) \<leftarrow> rd_sectors dev ISSD_COMPUTING_ADDR (u32_of lba) (u32_of rds) s;
        if ret < 0 then Some (False, start, cur, s)
        else do {
          let fin = next_file_offset start rds fileSize;
          let wrs = c_int (wrap32 (sub32 fin start + BYTES_PER_SECTOR - 1) div BYTES_PER_SECTOR);
          let buf_addr = u32_of (int ISSD_COMPUTING_ADDR + start_sector_offset * int BYTES_PER_SECTOR);
          (ok, cur, s) \<leftarrow> write_chunks dev wr_bio_offset nr_wr_bios buf_addr wrs cur s;
          if ok then backup_extent dev wr_bio_offset nr_wr_bios fileSize (lba + rds) (num_sectors - rds) fin cur s
          else Some (False, start, cur, s) } })"

text \<open>The loop over the source extents \<open>is\<close>.\<close>

fun backup_extents ::
    "'s issd_dev \<Rightarrow> int \<Rightarrow> int \<Rightarrow> int \<Rightarrow> int \<Rightarrow> nat list \<Rightarrow> nat \<Rightarrow> wr_sector_pointer \<Rightarrow> 's
       \<Rightarrow> (bool \<times> nat \<times> wr_sector_pointer \<times> 's) option" where
  "backup_extents dev rd_bio_offset wr_bio_offset nr_wr_bios fileSize [] start cur s = Some (True, start, cur, s)"
| "backup_extents dev rd_bio_offset wr_bio_offset nr_wr_bios fileSize (i # is) start cur s = do {
     lba \<leftarrow> rd_word dev (cmd_ext_lba (rd_bio_offset + int i)) s;
     num_sectors \<leftarrow> rd_word dev (cmd_ext_len (rd_bio_offset + int i)) s;
     (ok, start, cur, s) \<leftarrow>
       backup_extent dev wr_bio_offset nr_wr_bios fileSize (c_int lba) (c_int num_sectors) start cur s;
     if ok then backup_extents dev rd_bio_offset wr_bio_offset nr_wr_bios fileSize is start cur s
     else Some (False, start, cur, s) }"

definition do_issd_backup :: "'s issd_dev \<Rightarrow> 's \<Rightarrow> (int \<times> 's) option" where
  "do_issd_backup dev s = do {
     o0 \<leftarrow> rd_word dev (cmd_file_ext_offset 0) s;
     o1 \<leftarrow> rd_word dev (cmd_file_ext_offset 1) s;
     o2 \<leftarrow> rd_word dev (cmd_file_ext_offset 2) s;
     let rd_bio_offset = c_int o0;
     let wr_bio_offset = c_int o1;
     let total_bios = c_int o2;
     let nr_rd_bios = wr_bio_offset - rd_bio_offset;
     let nr_wr_bios = total_bios - wr_bio_offset;
     fileSize \<leftarrow> rd_word dev (cmd_fileSize 0) s;
     (ok, start, cur, s) \<leftarrow> backup_extents dev rd_bio_offset wr_bio_offset nr_wr_bios (c_int fileSize)
       [0..<nat nr_rd_bios] 0 \<lparr>index = 0, offset = 0\<rparr> s;
     if ok then do { s \<leftarrow> wr_word dev cmd_isOK 1 s; Some (0, s) } else Some (-1, s) }"

definition issd_process_cmd :: "'s issd_dev \<Rightarrow> 's \<Rightarrow> 's option" where
  "issd_process_cmd dev s = do {
     opType \<leftarrow> rd_word dev cmd_opType s;
     isOK \<leftarrow> rd_word dev cmd_isOK s;
     if c_int opType = ISSD_BACKUP then do { (ret, s) \<leftarrow> do_issd_backup dev s; Some s } else Some s }"

text \<open>The bytes \<open>issd_output\<close> sends, without the line with the length.\<close>

definition issd_output :: "nat \<Rightarrow> int \<Rightarrow> dram \<Rightarrow> u8 list option" where
  "issd_output buf_addr len d =
     those (List.map (\<lambda>paddr. do { ASSERT (dram_addr paddr); Some (ld8 paddr d) }) [buf_addr..<u32_of (int buf_addr + len)])"

text \<open>The device firmware is linked with the tutorial layer.\<close>

definition tut_dev :: "flash_hw \<Rightarrow> tstate issd_dev" where
  "tut_dev hw = \<lparr>rd_word = \<lambda>a s. rd32 a (tdram s),
     wr_word = \<lambda>a v s. map_option (\<lambda>d. set_dram d s) (wr32 a v (tdram s)),
     rd_sectors = issd_read_sectors hw, wr_sectors = issd_write_sectors hw\<rparr>"

subsection \<open>The contract of the sector store\<close>

definition in_cmd :: "nat \<Rightarrow> bool" where
  "in_cmd a \<longleftrightarrow> ISSD_CMD_BUFFER_ADDR \<le> a \<and> a < ISSD_CMD_BUFFER_ADDR + ISSD_CMD_BYTES"

definition in_computing :: "nat \<Rightarrow> bool" where
  "in_computing a \<longleftrightarrow> ISSD_COMPUTING_ADDR \<le> a \<and> a < ISSD_COMPUTING_ADDR + ISSD_COMPUTING_BYTES"

definition computing_span :: "nat \<Rightarrow> nat \<Rightarrow> bool" where
  "computing_span a n \<longleftrightarrow> ISSD_COMPUTING_ADDR \<le> a \<and> a mod 4 = 0 \<and> a + n * 512 \<le> ISSD_COMPUTING_ADDR + ISSD_COMPUTING_BYTES"

text \<open>
  \<open>written sc ds f s s'\<close>: from \<open>s\<close> to \<open>s'\<close> the sectors \<open>ds\<close> received the data \<open>f\<close> and every other sector
  that had a content keeps it.
\<close>

definition written ::
    "('s \<Rightarrow> nat \<Rightarrow> nat \<Rightarrow> u32 option) \<Rightarrow> nat list \<Rightarrow> (nat \<Rightarrow> nat \<Rightarrow> u32) \<Rightarrow> 's \<Rightarrow> 's \<Rightarrow> bool" where
  "written sc ds f s s' \<longleftrightarrow> (\<forall>j < length ds. \<forall>w < 512. sc s' (ds ! j) w = Some (f j w))
     \<and> (\<forall>i < NUM_LSECTORS. \<forall>w < 512. i \<notin> set ds \<longrightarrow> sc s i w \<noteq> None \<longrightarrow> sc s' i w = sc s i w)"

lemma writtenD:
  "written sc ds f s s' \<Longrightarrow> j < length ds \<Longrightarrow> w < 512 \<Longrightarrow> sc s' (ds ! j) w = Some (f j w)"
  "written sc ds f s s' \<Longrightarrow> i < NUM_LSECTORS \<Longrightarrow> w < 512 \<Longrightarrow> i \<notin> set ds \<Longrightarrow> sc s i w \<noteq> None \<Longrightarrow> sc s' i w = sc s i w"
  by (simp_all add: written_def)

lemma written_Nil: "\<forall>i < NUM_LSECTORS. \<forall>w < 512. sc s' i w = sc s i w \<Longrightarrow> written sc [] f s s'"
  by (simp add: written_def)

lemma written_append:
  assumes 1: "written sc ds f s s1" and 2: "written sc es g s1 s2" and d: "distinct (ds @ es)" "set (ds @ es) \<subseteq> {..<NUM_LSECTORS}"
    and h: "\<And>j w. j < length ds \<Longrightarrow> w < 512 \<Longrightarrow> h j w = f j w" "\<And>j w. j < length es \<Longrightarrow> w < 512 \<Longrightarrow> h (length ds + j) w = g j w"
  shows "written sc (ds @ es) h s s2"
  unfolding written_def
proof (intro conjI allI impI)
  fix j w :: nat assume j: "j < length (ds @ es)" and w: "w < 512"
  show "sc s2 ((ds @ es) ! j) w = Some (h j w)"
  proof (cases "j < length ds")
    case True
    then have i: "ds ! j \<in> set ds" by simp
    then have "ds ! j \<notin> set es" "ds ! j < NUM_LSECTORS" using d by auto
    then show ?thesis using writtenD(1) [OF 1 True w] writtenD(2) [OF 2 _ w] h(1) [OF True w] True by (simp add: nth_append)
  next
    case False
    then have k: "j - length ds < length es" using j by simp
    then show ?thesis using writtenD(1) [OF 2 k w] h(2) [OF k w] False by (simp add: nth_append)
  qed
next
  fix i w :: nat assume a: "i < NUM_LSECTORS" "w < 512" "i \<notin> set (ds @ es)" "sc s i w \<noteq> None"
  then have "sc s1 i w = sc s i w" using writtenD(2) [OF 1] by simp
  then show "sc s2 i w = sc s i w" using writtenD(2) [OF 2] a by simp
qed

lemma written_cong: "written sc ds f s s' \<Longrightarrow> (\<And>j w. j < length ds \<Longrightarrow> w < 512 \<Longrightarrow> g j w = f j w) \<Longrightarrow> written sc ds g s s'"
  by (simp add: written_def)

locale sector_store =
  fixes dev :: "'s issd_dev" and inv :: "'s \<Rightarrow> bool" and room :: "'s \<Rightarrow> nat \<Rightarrow> bool"
    and sc :: "'s \<Rightarrow> nat \<Rightarrow> nat \<Rightarrow> u32 option" and mem :: "'s \<Rightarrow> nat \<Rightarrow> u32"
  assumes word: "inv s \<Longrightarrow> in_cmd a \<Longrightarrow> a mod 4 = 0 \<Longrightarrow> rd_word dev a s = Some (unat (mem s a))"
    and set_word: "inv s \<Longrightarrow> in_cmd a \<Longrightarrow> a mod 4 = 0 \<Longrightarrow> \<exists>s'. wr_word dev a v s = Some s' \<and> inv s'
      \<and> (\<forall>i < NUM_LSECTORS. \<forall>w < 512. sc s' i w = sc s i w) \<and> mem s' = (mem s)(a := of_nat v)"
    and load: "inv s \<Longrightarrow> 0 < n \<Longrightarrow> lba + n \<le> NUM_LSECTORS \<Longrightarrow> computing_span (ISSD_COMPUTING_ADDR + lba mod SECTORS_PER_PAGE * 512) n \<Longrightarrow>
      \<exists>s'. rd_sectors dev ISSD_COMPUTING_ADDR lba n s
            = Some (if \<forall>i < NUM_LSECTORS. lba \<le> i \<and> i < lba + n \<longrightarrow> sc s i 0 \<noteq> None then 0 else -1, s') \<and> inv s'
        \<and> (\<forall>k. room s k \<longrightarrow> room s' k) \<and> (\<forall>i < NUM_LSECTORS. \<forall>w < 512. sc s' i w = sc s i w)
        \<and> ((\<forall>i < NUM_LSECTORS. lba \<le> i \<and> i < lba + n \<longrightarrow> sc s i 0 \<noteq> None) \<longrightarrow>
            (\<forall>k < n. \<forall>w < 512. sc s (lba + k) w = Some (mem s' (ISSD_COMPUTING_ADDR + (lba mod SECTORS_PER_PAGE + k) * 512 + w))))
        \<and> (\<forall>a. in_cmd a \<longrightarrow> mem s' a = mem s a)"
    and store: "inv s \<Longrightarrow> lba + n \<le> NUM_LSECTORS \<Longrightarrow> computing_span src n \<Longrightarrow> room s (k + n) \<Longrightarrow>
      \<exists>s'. wr_sectors dev src lba n s = Some (0, s') \<and> inv s' \<and> room s' k
        \<and> written sc [lba..<lba + n] (\<lambda>j w. mem s (src + j * 512 + w)) s s'
        \<and> (\<forall>a. in_cmd a \<or> in_computing a \<longrightarrow> mem s' a = mem s a)"

text \<open>The tutorial layer keeps the contract for any flash hardware that obeys its laws.\<close>

definition tut_store_inv :: "flash_hw \<Rightarrow> tstate \<Rightarrow> bool" where
  "tut_store_inv hw s \<longleftrightarrow> flash_ok tut_layout hw \<and> tut_inv s"

definition tut_room :: "tstate \<Rightarrow> nat \<Rightarrow> bool" where
  "tut_room s k \<longleftrightarrow> (\<forall>b < NUM_BANKS. k \<le> length (free_rows s b))"

lemma pages_of_le: "0 < n \<Longrightarrow> off < SECTORS_PER_PAGE \<Longrightarrow> pages_of off n \<le> n"
proof -
  assume "0 < n" "off < SECTORS_PER_PAGE"
  then have "off + n + 63 < (n + 1) * 64" by (simp add: geom)
  then have "(off + n + 63) div 64 < n + 1" by (simp add: div_less_iff_less_mult)
  then show ?thesis by (simp add: pages_of_def geom)
qed

lemma in_cmd_dram: "in_cmd a \<Longrightarrow> dram_addr a \<and> a < 4294967296 \<and> PAGE_MAP_ADDR + PAGE_MAP_BYTES \<le> a \<and> a < ISSD_WR_BUF_ADDR"
  by (simp add: in_cmd_def dram_addr_def geom)

lemma in_computing_dram: "in_computing a \<Longrightarrow> a < 4294967296 \<and> ISSD_WR_BUF_ADDR + BYTES_PER_PAGE \<le> a"
  by (simp add: in_computing_def geom)

lemma computing_span_ok:
  assumes "computing_span a n"
  shows "src_ok a (n * 512)" "dst_ok a (n * 512)"
  using assms by (auto simp: computing_span_def src_ok_def dst_ok_def geom)

lemma tut_set_word:
  assumes "tut_inv s" "in_cmd a" "a mod 4 = 0"
  shows "\<exists>s'. wr_word (tut_dev hw) a v s = Some s' \<and> tut_inv s'
      \<and> (\<forall>i < NUM_LSECTORS. \<forall>w < 512. sec s' i w = sec s i w) \<and> tdram s' = (tdram s)(a := of_nat v)"
proof -
  note a = in_cmd_dram [OF assms(2)]
  let ?s = "set_dram ((tdram s)(a := of_nat v)) s"
  have "wr_word (tut_dev hw) a v s = Some ?s" using a assms(3) by (simp add: tut_dev_def wr32_def st32_def)
  moreover have "same_store s ?s"
    by (rule same_storeI) (use a in \<open>auto simp: set_dram_def on_fl_def tdram_def\<close>)
  ultimately show ?thesis using assms(1) sec_pos(1) [of _ 0] unfolding same_store_def sec_def by auto
qed

lemma tut_dev_sel: "rd_sectors (tut_dev hw) = issd_read_sectors hw" "wr_sectors (tut_dev hw) = issd_write_sectors hw"
  by (simp_all add: tut_dev_def)

lemma tut_store_write:
  assumes si: "tut_store_inv hw s" and l: "lba + n \<le> NUM_LSECTORS" and c: "computing_span src n"
    and r: "tut_room s (k + n)"
  shows "\<exists>s'. wr_sectors (tut_dev hw) src lba n s = Some (0, s') \<and> tut_store_inv hw s' \<and> tut_room s' k
        \<and> written sec [lba..<lba + n] (\<lambda>j w. tdram s (src + j * 512 + w)) s s'
        \<and> (\<forall>a. in_cmd a \<or> in_computing a \<longrightarrow> tdram s' a = tdram s a)"
proof -
  have hw: "flash_ok tut_layout hw" and i: "tut_inv s" using si by (simp_all add: tut_store_inv_def)
  have "\<exists>s'. issd_write_sectors hw src lba n s = Some (0, s') \<and> tut_inv s' \<and> tut_room s' k
        \<and> written sec [lba..<lba + n] (\<lambda>j w. tdram s (src + j * 512 + w)) s s'
        \<and> (\<forall>a. in_cmd a \<or> in_computing a \<longrightarrow> tdram s' a = tdram s a)"
  proof (cases "n = 0")
    case True
    have "issd_write_sectors hw src lba n s = Some (0, on_fl flash_finish s)"
      using True by (simp add: issd_write_sectors_def issd_write_loop.simps)
    moreover have "written sec [] f s (on_fl flash_finish s)" for f
      by (rule written_Nil) (simp add: sec_def finish_same)
    moreover have "tut_room (on_fl flash_finish s) k" using r by (simp add: tut_room_def finish_same True)
    ultimately show ?thesis using i by (intro exI [of _ "on_fl flash_finish s"]) (simp add: finish_same True tdram_def)
  next
    case False
    have o: "lba mod SECTORS_PER_PAGE < SECTORS_PER_PAGE" by (simp add: geom)
    have p: "pages_of (lba mod SECTORS_PER_PAGE) n \<le> n" using pages_of_le [OF _ o] False by simp
    then have "\<forall>b < NUM_BANKS. pages_of (lba mod SECTORS_PER_PAGE) n \<le> length (free_rows s b)"
      using r unfolding tut_room_def by fastforce
    from issd_write_sectors_run [OF hw i l computing_span_ok(1) [OF c] this] obtain s' where
      s': "issd_write_sectors hw src lba n s = Some (0, s')" "tut_inv s'"
      and st: "stored src (lba div SECTORS_PER_PAGE) (lba mod SECTORS_PER_PAGE) n s s'"
      and len: "\<forall>b < NUM_BANKS. length (free_rows s b) \<le> length (free_rows s' b) + pages_of (lba mod SECTORS_PER_PAGE) n" by blast
    have "tut_room s' k" unfolding tut_room_def using r len p unfolding tut_room_def by fastforce
    moreover have "written sec [lba..<lba + n] (\<lambda>j w. tdram s (src + j * 512 + w)) s s'"
      unfolding written_def
    proof (intro conjI allI impI)
      fix j w :: nat assume j: "j < length [lba..<lba + n]" "w < 512"
      then have "lba + j < NUM_LSECTORS" using l by simp
      from stored_sector [OF st this j(2)] show "sec s' ([lba..<lba + n] ! j) w = Some (tdram s (src + j * 512 + w))"
        using j by simp
    next
      fix i w :: nat assume a: "i < NUM_LSECTORS" "w < 512" "i \<notin> set [lba..<lba + n]" "sec s i w \<noteq> None"
      then have "\<not> (lba \<le> i \<and> i < lba + n)" by simp
      then show "sec s' i w = sec s i w" using stored_sector [OF st a(1,2)] a(4) by simp
    qed
    moreover have "\<forall>a. in_cmd a \<or> in_computing a \<longrightarrow> tdram s' a = tdram s a"
      using st in_cmd_dram in_computing_dram unfolding stored_def by blast
    ultimately show ?thesis using s' by blast
  qed
  with hw show ?thesis by (simp only: tut_store_inv_def tut_dev_sel) simp
qed

lemma tut_store_load:
  assumes si: "tut_store_inv hw s" and n: "0 < n" and l: "lba + n \<le> NUM_LSECTORS"
    and c: "computing_span (ISSD_COMPUTING_ADDR + lba mod SECTORS_PER_PAGE * 512) n"
  shows "\<exists>s'. rd_sectors (tut_dev hw) ISSD_COMPUTING_ADDR lba n s
            = Some (if \<forall>i < NUM_LSECTORS. lba \<le> i \<and> i < lba + n \<longrightarrow> sec s i 0 \<noteq> None then 0 else -1, s') \<and> tut_store_inv hw s'
        \<and> (\<forall>k. tut_room s k \<longrightarrow> tut_room s' k) \<and> (\<forall>i < NUM_LSECTORS. \<forall>w < 512. sec s' i w = sec s i w)
        \<and> ((\<forall>i < NUM_LSECTORS. lba \<le> i \<and> i < lba + n \<longrightarrow> sec s i 0 \<noteq> None) \<longrightarrow>
            (\<forall>k < n. \<forall>w < 512. sec s (lba + k) w = Some (tdram s' (ISSD_COMPUTING_ADDR + (lba mod SECTORS_PER_PAGE + k) * 512 + w))))
        \<and> (\<forall>a. in_cmd a \<longrightarrow> tdram s' a = tdram s a)"
proof -
  have hw: "flash_ok tut_layout hw" and i: "tut_inv s" using si by (simp_all add: tut_store_inv_def)
  let ?l = "lba div SECTORS_PER_PAGE" and ?o = "lba mod SECTORS_PER_PAGE"
  let ?all = "\<forall>i < NUM_LSECTORS. lba \<le> i \<and> i < lba + n \<longrightarrow> sec s i 0 \<noteq> None"
  have m: "all_mapped s ?l ?o n \<longleftrightarrow> ?all" by (rule all_mapped_sec [OF n l])
  from issd_read_sectors_run [OF hw i l computing_span_ok(2) [OF c]] obtain s' where
    s': "issd_read_sectors hw ISSD_COMPUTING_ADDR lba n s = Some (if ?all then 0 else -1, s')" "same_store s s'"
    and ld: "?all \<longrightarrow> loaded ISSD_COMPUTING_ADDR ?l ?o n s s'"
    and fr: "\<forall>a < 4294967296. a < ISSD_COMPUTING_ADDR + ?o * 512 \<or> ISSD_COMPUTING_ADDR + ?o * 512 + n * 512 \<le> a \<longrightarrow> tdram s' a = tdram s a"
    unfolding m by blast
  have so: "scan_ok s" using i by (simp add: tut_inv_def)
  have "sec s' i w = sec s i w" if "i < NUM_LSECTORS" for i w
    using s'(2) sec_pos(1) [OF that, of 0] by (simp add: same_store_def sec_def)
  moreover have "tut_room s k \<Longrightarrow> tut_room s' k" for k using s'(2) so by (simp add: same_store_def tut_room_def)
  moreover have "sec s (lba + k) w = Some (tdram s' (ISSD_COMPUTING_ADDR + (?o + k) * 512 + w))" if "?all" "k < n" "w < 512" for k w
    using loaded_sector [OF _ l that(2,3)] ld that(1) by simp
  moreover have "tdram s' a = tdram s a" if "in_cmd a" for a
  proof -
    have "a < ISSD_COMPUTING_ADDR" using that by (simp add: in_cmd_def geom)
    then show ?thesis using fr in_cmd_dram [OF that] by simp
  qed
  ultimately show ?thesis using s' i hw unfolding same_store_def tut_store_inv_def tut_dev_sel by blast
qed

interpretation tut: sector_store "tut_dev hw" "tut_store_inv hw" tut_room sec tdram for hw
proof unfold_locales
  fix s a assume "tut_store_inv hw s" "in_cmd a" "a mod 4 = 0"
  then show "rd_word (tut_dev hw) a s = Some (unat (tdram s a))"
    using in_cmd_dram [of a] by (simp add: tut_dev_def rd32_def ld32_def)
next
  fix s a v assume "tut_store_inv hw s" "in_cmd a" "a mod 4 = 0"
  then show "\<exists>s'. wr_word (tut_dev hw) a v s = Some s' \<and> tut_store_inv hw s'
      \<and> (\<forall>i < NUM_LSECTORS. \<forall>w < 512. sec s' i w = sec s i w) \<and> tdram s' = (tdram s)(a := of_nat v)"
    using tut_set_word [of s a hw v] by (auto simp: tut_store_inv_def)
qed (rule tut_store_load tut_store_write, assumption+)+

subsection \<open>Extent tables\<close>

definition sectors_of :: "(nat \<times> nat) list \<Rightarrow> nat list" where
  "sectors_of xs = concat (List.map (\<lambda>(l, n). [l..<l + n]) xs)"

lemma sectors_of_simps [simp]: "sectors_of [] = []" "sectors_of ((l, n) # xs) = [l..<l + n] @ sectors_of xs"
  "sectors_of (xs @ ys) = sectors_of xs @ sectors_of ys"
  by (simp_all add: sectors_of_def)

definition EXT_BASE :: nat where "EXT_BASE = ISSD_CMD_BUFFER_ADDR + 44"

text \<open>The extents \<open>xs\<close> stand in the command from entry \<open>o1\<close> on, and name sectors of the disk.\<close>

definition has_exts :: "(nat \<Rightarrow> u32) \<Rightarrow> nat \<Rightarrow> (nat \<times> nat) list \<Rightarrow> bool" where
  "has_exts m o1 xs \<longleftrightarrow> 44 + 8 * (o1 + length xs) \<le> ISSD_CMD_BYTES
     \<and> (\<forall>j < length xs. unat (m (EXT_BASE + 8 * (o1 + j))) = fst (xs ! j) \<and> unat (m (EXT_BASE + 8 * (o1 + j) + 4)) = snd (xs ! j)
          \<and> fst (xs ! j) + snd (xs ! j) \<le> NUM_LSECTORS)"

lemma u32_of_nat [simp]: "n < 4294967296 \<Longrightarrow> u32_of (int n) = n"
  by (simp add: u32_of_def)

lemma u32_of_add: "a + b < 4294967296 \<Longrightarrow> u32_of (int a + int b) = a + b"
  using u32_of_nat [of "a + b"] by simp

lemma c_int_small: "n < 2147483648 \<Longrightarrow> c_int n = int n"
  by (simp add: c_int_def wrap_simps)

lemma ext_addr:
  assumes "44 + 8 * (o1 + p) + 8 \<le> ISSD_CMD_BYTES"
  shows "cmd_ext_lba (int o1 + int p) = EXT_BASE + 8 * (o1 + p)" "cmd_ext_len (int o1 + int p) = EXT_BASE + 8 * (o1 + p) + 4"
    "in_cmd (EXT_BASE + 8 * (o1 + p))" "in_cmd (EXT_BASE + 8 * (o1 + p) + 4)"
    "(EXT_BASE + 8 * (o1 + p)) mod 4 = 0" "(EXT_BASE + 8 * (o1 + p) + 4) mod 4 = 0"
proof -
  have d: "44 + 8 * (o1 + p) + 8 \<le> 32768" using assms by (simp add: geom)
  then have b: "44 + 8 * (o1 + p) < 32768" by simp
  have r: "int (a + 8 * (o1 + p)) = int a + 8 * (int o1 + int p)" for a by simp
  have u: "u32_of (int (ISSD_CMD_BUFFER_ADDR + 16 + 4 * ISSD_MAX_OP_FILES + 4 * (ISSD_MAX_OP_FILES + 1)) + 8 * (int o1 + int p))
      = EXT_BASE + 8 * (o1 + p)"
    unfolding r [symmetric] using b by (subst u32_of_nat) (simp_all add: EXT_BASE_def geom)
  then show "cmd_ext_lba (int o1 + int p) = EXT_BASE + 8 * (o1 + p)" by (simp only: cmd_ext_lba_def)
  have r4: "int (a + 8 * (o1 + p) + 4) = int a + 8 * (int o1 + int p) + 4" for a by simp
  show "cmd_ext_len (int o1 + int p) = EXT_BASE + 8 * (o1 + p) + 4"
    unfolding cmd_ext_len_def r4 [symmetric] using b by (subst u32_of_nat) (simp_all add: EXT_BASE_def geom)
  show "in_cmd (EXT_BASE + 8 * (o1 + p))" "in_cmd (EXT_BASE + 8 * (o1 + p) + 4)" using b d by (simp_all add: in_cmd_def EXT_BASE_def geom)
  show "(EXT_BASE + 8 * (o1 + p)) mod 4 = 0"
  proof -
    have "EXT_BASE + 8 * (o1 + p) = 4 * (EXT_BASE div 4 + 2 * (o1 + p))" by (simp add: EXT_BASE_def geom)
    then show ?thesis by (metis mod_mult_self1_is_0)
  qed
  then show "(EXT_BASE + 8 * (o1 + p) + 4) mod 4 = 0" by simp
qed

lemma has_extsD:
  assumes "has_exts m o1 xs" and "p < length xs" and "xs ! p = (l, n)"
  shows "44 + 8 * (o1 + p) + 8 \<le> ISSD_CMD_BYTES" "unat (m (EXT_BASE + 8 * (o1 + p))) = l" "unat (m (EXT_BASE + 8 * (o1 + p) + 4)) = n"
    "l + n \<le> NUM_LSECTORS" "l < 2147483648" "n < 2147483648"
proof -
  show "44 + 8 * (o1 + p) + 8 \<le> ISSD_CMD_BYTES" using assms(1,2) by (simp add: has_exts_def)
  show "unat (m (EXT_BASE + 8 * (o1 + p))) = l" "unat (m (EXT_BASE + 8 * (o1 + p) + 4)) = n" and le: "l + n \<le> NUM_LSECTORS"
    using assms by (auto simp: has_exts_def)
  show "l < 2147483648" "n < 2147483648" using le by (simp_all add: geom)
qed

lemma has_exts_cong: "(\<And>a. in_cmd a \<Longrightarrow> m' a = m a) \<Longrightarrow> has_exts m o1 xs \<Longrightarrow> has_exts m' o1 xs"
proof -
  assume eq: "\<And>a. in_cmd a \<Longrightarrow> m' a = m a" and h: "has_exts m o1 xs"
  have "m' (EXT_BASE + 8 * (o1 + j)) = m (EXT_BASE + 8 * (o1 + j)) \<and> m' (EXT_BASE + 8 * (o1 + j) + 4) = m (EXT_BASE + 8 * (o1 + j) + 4)"
    if "j < length xs" for j
  proof -
    have "44 + 8 * (o1 + j) + 8 \<le> ISSD_CMD_BYTES" using h that by (simp add: has_exts_def)
    then show ?thesis using ext_addr(3,4) eq by blast
  qed
  with h show ?thesis by (simp add: has_exts_def)
qed

text \<open>The sectors the write pointer still has before it.\<close>

definition rest :: "(nat \<times> nat) list \<Rightarrow> wr_sector_pointer \<Rightarrow> nat list" where
  "rest ys cur = drop (nat (offset cur)) (sectors_of (drop (nat (index cur)) ys))"

definition cur_ok :: "(nat \<times> nat) list \<Rightarrow> wr_sector_pointer \<Rightarrow> bool" where
  "cur_ok ys cur \<longleftrightarrow> 0 \<le> index cur \<and> 0 \<le> offset cur \<and> nat (index cur) \<le> length ys
     \<and> (nat (index cur) < length ys \<longrightarrow> offset cur \<le> int (snd (ys ! nat (index cur))))
     \<and> (nat (index cur) = length ys \<longrightarrow> offset cur = 0)"

lemma rest_step:
  assumes ok: "cur_ok ys cur" and r: "rest ys cur \<noteq> []"
  obtains p q l n where "index cur = int p" "offset cur = int q" "p < length ys" "ys ! p = (l, n)" "q \<le> n"
    "rest ys cur = [l + q..<l + n] @ sectors_of (drop (p + 1) ys)"
    "rest ys (cur\<lparr>index := int p + 1, offset := 0\<rparr>) = sectors_of (drop (p + 1) ys)" "cur_ok ys (cur\<lparr>index := int p + 1, offset := 0\<rparr>)"
    "\<forall>m. q + m \<le> n \<longrightarrow> cur_ok ys (cur\<lparr>offset := int q + int m\<rparr>)
       \<and> rest ys (cur\<lparr>offset := int q + int m\<rparr>) = drop m (rest ys cur)"
proof -
  obtain p q where pq: "index cur = int p" "offset cur = int q"
    using ok by (metis cur_ok_def nonneg_int_cases)
  have p: "p < length ys"
  proof (rule ccontr)
    assume "\<not> p < length ys"
    then show False using r by (simp add: rest_def pq)
  qed
  obtain l n where e: "ys ! p = (l, n)" by fastforce
  have q: "q \<le> n" using ok p by (simp add: cur_ok_def pq e)
  have d: "drop p ys = (l, n) # drop (Suc p) ys" using Cons_nth_drop_Suc [OF p] e by simp
  have s: "nat (int p + 1) = Suc p" by simp
  have r1: "rest ys cur = [l + q..<l + n] @ sectors_of (drop (p + 1) ys)" using q by (simp add: rest_def pq d)
  have r2: "rest ys (cur\<lparr>index := int p + 1, offset := 0\<rparr>) = sectors_of (drop (p + 1) ys)" by (simp add: rest_def s)
  have r3: "cur_ok ys (cur\<lparr>index := int p + 1, offset := 0\<rparr>)" using p by (simp add: cur_ok_def s)
  have r4: "cur_ok ys (cur\<lparr>offset := int q + int m\<rparr>)" if "q + m \<le> n" for m using p that by (simp add: cur_ok_def pq e)
  have r5: "rest ys (cur\<lparr>offset := int q + int m\<rparr>) = drop m (rest ys cur)" if "q + m \<le> n" for m
  proof -
    have "nat (int q + int m) = q + m" by simp
    then show ?thesis by (simp add: rest_def pq add.commute)
  qed
  show thesis using r4 r5 by (intro that [OF pq p e q r1 r2 r3]) blast
qed

lemma written_take:
  assumes "written sc (take a ds) f s s1" and "written sc (take b (drop a ds)) g s1 s2" and "distinct ds" "set ds \<subseteq> {..<NUM_LSECTORS}"
    and "a \<le> length ds" and "\<And>j w. j < b \<Longrightarrow> w < 512 \<Longrightarrow> g j w = f (a + j) w"
  shows "written sc (take (a + b) ds) f s s2"
proof -
  have e: "take (a + b) ds = take a ds @ take b (drop a ds)" by (rule take_add)
  show ?thesis unfolding e
  proof (rule written_append [OF assms(1,2)])
    show "distinct (take a ds @ take b (drop a ds))" unfolding e [symmetric] using assms(3) by simp
    show "set (take a ds @ take b (drop a ds)) \<subseteq> {..<NUM_LSECTORS}"
      unfolding e [symmetric] using assms(4) set_take_subset by fast
    show "f (length (take a ds) + j) w = g j w" if "j < length (take b (drop a ds))" "w < 512" for j w
      using assms(5,6) that by (simp add: min_absorb2)
  qed simp
qed

lemma computing_span_split:
  assumes "computing_span buf m" and "n \<le> m"
  shows "computing_span buf n" "computing_span (buf + n * 512) (m - n)" "buf + n * 512 < 4294967296"
proof -
  have b: "ISSD_COMPUTING_ADDR \<le> buf" "buf mod 4 = 0" "buf + m * 512 \<le> ISSD_COMPUTING_ADDR + ISSD_COMPUTING_BYTES"
    using assms(1) by (simp_all add: computing_span_def)
  have "n * 512 + (m - n) * 512 = m * 512" using assms(2) by (simp flip: add_mult_distrib)
  moreover have "(buf + n * 512) mod 4 = 0" using b(2) by presburger
  ultimately show "computing_span buf n" "computing_span (buf + n * 512) (m - n)"
    using b assms(2) by (auto simp: computing_span_def)
  show "buf + n * 512 < 4294967296" using b(3) assms(2) by (simp add: geom)
qed

lemma in_computing_span:
  assumes "computing_span buf m" and "j < m" and "w < 512"
  shows "in_computing (buf + j * 512 + w)"
proof -
  have "j * 512 + 512 \<le> m * 512" using assms(2) mult_le_mono1 [of "j + 1" m 512] by simp
  then show ?thesis using assms(1,3) by (simp add: computing_span_def in_computing_def)
qed

context sector_store begin

text \<open>One iteration of the loop over the destination.\<close>

lemma write_chunk_step:
  assumes i: "inv s" and rm: "room s (k + m)" and tb: "has_exts (mem s) o1 ys" and ok: "cur_ok ys cur"
    and m: "0 < m" "m \<le> length (rest ys cur)" and c: "computing_span buf m"
  shows "\<exists>send cur1 s1. send \<le> m \<and> (send = m \<or> nat (index cur) < nat (index cur1))
    \<and> write_chunks dev (int o1) (int (length ys)) buf (int m) cur s
      = write_chunks dev (int o1) (int (length ys)) (buf + send * 512) (int (m - send)) cur1 s1
    \<and> inv s1 \<and> room s1 (k + (m - send)) \<and> cur_ok ys cur1 \<and> rest ys cur1 = drop send (rest ys cur)
    \<and> written sc (take send (rest ys cur)) (\<lambda>j w. mem s (buf + j * 512 + w)) s s1
    \<and> (\<forall>a. in_cmd a \<or> in_computing a \<longrightarrow> mem s1 a = mem s a)"
proof -
  have "rest ys cur \<noteq> []" using m by auto
  then obtain p q l n where pq: "index cur = int p" "offset cur = int q" "p < length ys" "ys ! p = (l, n)" "q \<le> n"
    and r: "rest ys cur = [l + q..<l + n] @ sectors_of (drop (p + 1) ys)"
    and nx: "rest ys (cur\<lparr>index := int p + 1, offset := 0\<rparr>) = sectors_of (drop (p + 1) ys)" "cur_ok ys (cur\<lparr>index := int p + 1, offset := 0\<rparr>)"
    and st: "\<forall>m. q + m \<le> n \<longrightarrow> cur_ok ys (cur\<lparr>offset := int q + int m\<rparr>)
      \<and> rest ys (cur\<lparr>offset := int q + int m\<rparr>) = drop m (rest ys cur)"
    by (rule rest_step [OF ok])
  note e = has_extsD [OF tb pq(3,4)]
  note ad = ext_addr [OF e(1)]
  have words: "rd_word dev (cmd_ext_len (int o1 + int p)) s = Some n" "rd_word dev (cmd_ext_lba (int o1 + int p)) s = Some l"
    unfolding ad(1,2) using word [OF i ad(3,5)] word [OF i ad(4,6)] e by simp_all
  define send where "send = (if n - q \<le> m then n - q else m)"
  define cur1 where "cur1 = (if n - q \<le> m then cur\<lparr>index := int p + 1, offset := 0\<rparr> else cur\<lparr>offset := int q + int send\<rparr>)"
  have left: "c_int n - int q = int (n - q)" using e(6) pq(5) by (simp add: c_int_small)
  have lb: "u32_of (c_int l + int q) = l + q" using e(5,6) pq(5) by (simp add: c_int_small u32_of_add)
  have sd: "u32_of (int send) = send" using e(6) by (simp add: send_def)
  have sm: "send \<le> m" "q + send \<le> n" "l + q + send \<le> NUM_LSECTORS" using e(4) pq(5) by (auto simp: send_def)
  note sp = computing_span_split [OF c sm(1)]
  have "room s (k + (m - send) + send)" using rm sm(1) by simp
  from store [OF i sm(3) sp(1) this] obtain s1 where
    s1: "wr_sectors dev buf (l + q) send s = Some (0, s1)" "inv s1" "room s1 (k + (m - send))"
    and wt: "written sc [l + q..<l + q + send] (\<lambda>j w. mem s (buf + j * 512 + w)) s s1"
    and fr: "\<forall>a. in_cmd a \<or> in_computing a \<longrightarrow> mem s1 a = mem s a" by blast
  have "write_chunks dev (int o1) (int (length ys)) buf (int m) cur s
      = write_chunks dev (int o1) (int (length ys)) (buf + send * 512) (int (m - send)) cur1 s1"
  proof -
    have a: "ASSERT (index cur < int (length ys)) = Some ()" using pq by (simp add: ASSERT_def)
    have iv: "(if n - q \<le> m then int (n - q) else int m) = int send" by (simp add: send_def)
    have fin: "int (n - q) \<le> int m \<longleftrightarrow> n - q \<le> m" by linarith
    have ms: "int m - int send = int (m - send)" using sm(1) by simp
    have bs: "u32_of (int buf + int send * int BYTES_PER_SECTOR) = buf + send * 512"
      using u32_of_nat [OF sp(3)] by (simp add: geom)
    show ?thesis using m(1)
      by (subst write_chunks.simps) (simp add: a pq words left fin iv lb sd s1(1) bs ms cur1_def del: of_nat_diff)
  qed
  moreover have "take send (rest ys cur) = [l + q..<l + q + send]" using sm(2) pq(5) unfolding r by (simp add: take_upt)
  moreover have "rest ys cur1 = drop send (rest ys cur)"
  proof (cases "n - q \<le> m")
    case True then show ?thesis using nx(1) r pq(5) by (simp add: cur1_def send_def)
  next
    case False then show ?thesis using st sm(2) by (simp add: cur1_def)
  qed
  moreover have "cur_ok ys cur1" "send = m \<or> nat (index cur) < nat (index cur1)"
    using nx(2) st sm(2) pq by (simp_all add: cur1_def send_def nat_add_distrib)
  ultimately show ?thesis using sm(1) s1(2,3) wt fr
    by (intro exI [of _ send] exI [of _ cur1] exI [of _ s1]) simp
qed

text \<open>The loop over the destination writes the next sectors of the table.\<close>

lemma write_chunks_ok:
  assumes "inv s" and "room s (k + m)" and "has_exts (mem s) o1 ys" and "cur_ok ys cur" and "m \<le> length (rest ys cur)"
    and "computing_span buf m" and "distinct (rest ys cur)" and "set (rest ys cur) \<subseteq> {..<NUM_LSECTORS}"
  shows "\<exists>cur' s'. write_chunks dev (int o1) (int (length ys)) buf (int m) cur s = Some (True, cur', s') \<and> inv s' \<and> room s' k
    \<and> cur_ok ys cur' \<and> rest ys cur' = drop m (rest ys cur)
    \<and> written sc (take m (rest ys cur)) (\<lambda>j w. mem s (buf + j * 512 + w)) s s'
    \<and> (\<forall>a. in_cmd a \<or> in_computing a \<longrightarrow> mem s' a = mem s a)"
  using assms
proof (induction "m + (length ys - nat (index cur))" arbitrary: buf m cur s rule: less_induct)
  case less
  note prems = less.prems
  show ?case
  proof (cases "m = 0")
    case True
    then show ?thesis using prems by (simp add: write_chunks.simps written_Nil)
  next
    case False
    then have "0 < m" by simp
    from write_chunk_step [OF prems(1-4) this prems(5,6)] obtain send cur1 s1 where
      sm: "send \<le> m" "send = m \<or> nat (index cur) < nat (index cur1)"
      and run: "write_chunks dev (int o1) (int (length ys)) buf (int m) cur s
        = write_chunks dev (int o1) (int (length ys)) (buf + send * 512) (int (m - send)) cur1 s1"
      and s1: "inv s1" "room s1 (k + (m - send))" "cur_ok ys cur1" and rr: "rest ys cur1 = drop send (rest ys cur)"
      and wt: "written sc (take send (rest ys cur)) (\<lambda>j w. mem s (buf + j * 512 + w)) s s1"
      and fr: "\<forall>a. in_cmd a \<or> in_computing a \<longrightarrow> mem s1 a = mem s a" by blast
    note sp = computing_span_split [OF prems(6) sm(1)]
    have h: "has_exts (mem s1) o1 ys" using has_exts_cong [OF _ prems(3)] fr by blast
    have rest1: "m - send \<le> length (rest ys cur1)" "distinct (rest ys cur1)" "set (rest ys cur1) \<subseteq> {..<NUM_LSECTORS}"
      unfolding rr using prems(5,7,8) by (auto intro: distinct_drop dest: in_set_dropD)
    have "nat (index cur1) \<le> length ys" "nat (index cur) \<le> length ys" using s1(3) prems(4) by (simp_all add: cur_ok_def)
    then have "m - send + (length ys - nat (index cur1)) < m + (length ys - nat (index cur)) \<or> m - send = 0" using sm by linarith
    then have "\<exists>cur' s'. write_chunks dev (int o1) (int (length ys)) (buf + send * 512) (int (m - send)) cur1 s1 = Some (True, cur', s') \<and> inv s'
      \<and> room s' k \<and> cur_ok ys cur' \<and> rest ys cur' = drop (m - send) (rest ys cur1)
      \<and> written sc (take (m - send) (rest ys cur1)) (\<lambda>j w. mem s1 (buf + send * 512 + j * 512 + w)) s1 s'
      \<and> (\<forall>a. in_cmd a \<or> in_computing a \<longrightarrow> mem s' a = mem s1 a)"
    proof
      assume "m - send + (length ys - nat (index cur1)) < m + (length ys - nat (index cur))"
      from less.hyps [OF this s1(1,2) h s1(3) rest1(1) sp(2) rest1(2,3)] show ?thesis .
    next
      assume "m - send = 0"
      then show ?thesis using s1 by (simp add: write_chunks.simps written_Nil)
    qed
    then obtain cur' s' where s': "write_chunks dev (int o1) (int (length ys)) (buf + send * 512) (int (m - send)) cur1 s1 = Some (True, cur', s')"
      "inv s'" "room s' k" "cur_ok ys cur'" "rest ys cur' = drop (m - send) (rest ys cur1)"
      and wt': "written sc (take (m - send) (rest ys cur1)) (\<lambda>j w. mem s1 (buf + send * 512 + j * 512 + w)) s1 s'"
      and fr': "\<forall>a. in_cmd a \<or> in_computing a \<longrightarrow> mem s' a = mem s1 a" by blast
    have "mem s1 (buf + send * 512 + j * 512 + w) = mem s (buf + (send + j) * 512 + w)" if "j < m - send" "w < 512" for j w
      using in_computing_span [OF sp(2) that] fr by (simp add: add_mult_distrib add.assoc)
    from written_take [OF wt wt' [unfolded rr] prems(7,8) _ this]
    have "written sc (take m (rest ys cur)) (\<lambda>j w. mem s (buf + j * 512 + w)) s s'" using sm(1) prems(5) by simp
    moreover have "rest ys cur' = drop m (rest ys cur)" using s'(5) sm(1) unfolding rr by simp
    moreover have "\<forall>a. in_cmd a \<or> in_computing a \<longrightarrow> mem s' a = mem s a" using fr fr' by metis
    ultimately show ?thesis using s' unfolding run by blast
  qed
qed

end

subsection \<open>Chunks\<close>

lemma next_rd:
  assumes n: "0 < n" and l: "lba + n \<le> NUM_LSECTORS"
  shows "\<exists>r. next_rd_sectors (int lba) (int n) = int r \<and> 0 < r \<and> r \<le> n
    \<and> computing_span (ISSD_COMPUTING_ADDR + lba mod SECTORS_PER_PAGE * 512) r \<and> r \<le> ISSD_CNT_SECTORS"
proof -
  let ?o = "lba mod 64"
  have o: "?o < 64" by simp
  have "lba + n + 63 = ?o + n + 63 + lba div 64 * 64" by simp
  then have d: "(lba + n + 63) div 64 = (?o + n + 63) div 64 + lba div 64" by (metis div_mult_self3 add.commute zero_neq_numeral)
  have dv: "cdiv (int lba) 64 = int (lba div 64)" "cdiv (63 + (int lba + int n)) 64 = int ((lba + n + 63) div 64)"
    "cmod (int lba) 64 = int ?o"
    by (simp_all add: cdivmod zdiv_int zmod_int algebra_simps)
  have e: "next_rd_sectors (int lba) (int n) = int (if 500 < (?o + n + 63) div 64 then 32000 - ?o else n)"
    using o unfolding next_rd_sectors_def by (simp add: dv d geom Let_def of_nat_diff)
  have span: "computing_span (ISSD_COMPUTING_ADDR + lba mod SECTORS_PER_PAGE * 512) r" if "?o + r \<le> 32000" for r
  proof -
    have "?o * 512 + r * 512 \<le> 16384000" using that by simp
    moreover have "(ISSD_COMPUTING_ADDR + ?o * 512) mod 4 = 0" by (simp add: geom mod_eq_0_iff_dvd)
    ultimately show ?thesis by (simp add: computing_span_def geom)
  qed
  show ?thesis
  proof (cases "500 < (?o + n + 63) div 64")
    case True
    have "32000 < ?o + n"
    proof (rule ccontr)
      assume "\<not> 32000 < ?o + n"
      then have "(?o + n + 63) div 64 \<le> 32063 div 64" by (intro div_le_mono) simp
      with True show False by simp
    qed
    then have "0 < 32000 - ?o" "32000 - ?o \<le> n" using o by linarith+
    then show ?thesis using o e True span [of "32000 - ?o"]
      by (intro exI [of _ "32000 - ?o"]) (simp add: geom)
  next
    case False
    have "?o + n \<le> 32000"
    proof (rule ccontr)
      assume "\<not> ?o + n \<le> 32000"
      then have "32064 div 64 \<le> (?o + n + 63) div 64" by (intro div_le_mono) simp
      with False show False by simp
    qed
    then show ?thesis using n e False span [of n] by (intro exI [of _ n]) (simp add: geom)
  qed
qed

lemma chunk_sectors:
  assumes F: "F < 2147483648" and r: "r \<le> ISSD_CNT_SECTORS"
  defines "T \<equiv> (F + 511) div 512"
  shows "next_file_offset (min (512 * d) F) (int r) (int F) = min (512 * (d + r)) F"
    and "c_int (wrap32 (sub32 (min (512 * (d + r)) F) (min (512 * d) F) + BYTES_PER_SECTOR - 1) div BYTES_PER_SECTOR)
      = int (min (d + r) T - min d T)"
proof -
  have r': "r \<le> 32000" using r by (simp add: geom)
  have w: "wrap32 (min (512 * d) F + r * 512) = min (512 * d) F + r * 512" using F r' by (intro wrap32_id) simp
  have u: "u32_of (int r * int BYTES_PER_SECTOR) = r * 512" using r' u32_of_nat [of "r * 512"] by (simp add: geom)
  show "next_file_offset (min (512 * d) F) (int r) (int F) = min (512 * (d + r)) F"
    using F unfolding next_file_offset_def u by (simp add: w Let_def)
  let ?a = "min (512 * d) F" and ?b = "min (512 * (d + r)) F"
  have s: "sub32 ?b ?a = ?b - ?a" using F by (intro sub32_id) auto
  have b: "?b - ?a \<le> 512 * r" by auto
  then have w2: "wrap32 (?b - ?a + 512 - 1) = ?b - ?a + 511" using r' by (subst wrap32_id) simp_all
  have "(?b - ?a + 511) div 512 = min (d + r) T - min d T"
  proof -
    have T: "T \<le> x \<longleftrightarrow> F \<le> 512 * x" for x unfolding T_def by (simp add: mult.commute) linarith
    consider "F \<le> 512 * d" | "512 * d < F" "F \<le> 512 * (d + r)" | "512 * (d + r) < F" by linarith
    then show ?thesis
    proof cases
      case 1 then show ?thesis using T [of d] T [of "d + r"] by (simp add: min_def)
    next
      case 2
      then have "F + 511 = F - 512 * d + 511 + d * 512" by simp
      then have "T = (F - 512 * d + 511) div 512 + d" unfolding T_def by (metis div_mult_self1 add.commute zero_neq_numeral)
      then show ?thesis using 2 T [of d] T [of "d + r"] by (simp add: min_def)
    next
      case 3
      then have "d + r < T" using T [of "d + r"] by linarith
      then show ?thesis using 3 by (simp add: min_def)
    qed
  qed
  moreover have "(?b - ?a + 511) div 512 < 2147483648"
  proof -
    have "(?b - ?a + 511) div 512 \<le> ?b - ?a + 511" by simp
    then show ?thesis using b r' by linarith
  qed
  ultimately have "c_int ((?b - ?a + 511) div 512) = int (min (d + r) T - min d T)" by (metis c_int_small)
  moreover have "wrap32 (sub32 ?b ?a + BYTES_PER_SECTOR - 1) div BYTES_PER_SECTOR = (?b - ?a + 511) div 512"
    unfolding s using w2 by (simp add: geom)
  ultimately show "c_int (wrap32 (sub32 ?b ?a + BYTES_PER_SECTOR - 1) div BYTES_PER_SECTOR) = int (min (d + r) T - min d T)"
    by (simp only:)
qed

lemma sectors_bound: "has_exts m o1 ys \<Longrightarrow> set (sectors_of ys) \<subseteq> {..<NUM_LSECTORS}"
  by (fastforce simp: sectors_of_def has_exts_def in_set_conv_nth split: prod.splits)

subsection \<open>The whole operation, for any sector store\<close>

context sector_store begin

definition request ::
    "'s \<Rightarrow> nat list \<Rightarrow> (nat \<times> nat) list \<Rightarrow> nat \<Rightarrow> nat \<Rightarrow> bool" where
  "request s0 S ys T o1 \<longleftrightarrow> has_exts (mem s0) o1 ys \<and> distinct (sectors_of ys) \<and> set (sectors_of ys) \<inter> set S = {}
     \<and> set S \<subseteq> {..<NUM_LSECTORS} \<and> min (length S) T \<le> length (sectors_of ys)
     \<and> (\<forall>i \<in> set S. \<forall>w < 512. sc s0 i w \<noteq> None)"

definition progress ::
    "'s \<Rightarrow> nat list \<Rightarrow> (nat \<times> nat) list \<Rightarrow> nat \<Rightarrow> nat \<Rightarrow> nat \<Rightarrow> wr_sector_pointer \<Rightarrow> 's \<Rightarrow> bool" where
  "progress s0 S ys T k d cur s \<longleftrightarrow> inv s \<and> room s (k + (min (length S) T - min d T)) \<and> (\<forall>a. in_cmd a \<longrightarrow> mem s a = mem s0 a)
     \<and> cur_ok ys cur \<and> rest ys cur = drop (min d T) (sectors_of ys)
     \<and> written sc (take (min d T) (sectors_of ys)) (\<lambda>j w. the (sc s0 (S ! j) w)) s0 s"

lemma source_kept:
  assumes "request s0 S ys T o1" and "progress s0 S ys T k d cur s" and "i \<in> set S" and "w < 512"
  shows "sc s i w = sc s0 i w" "sc s0 i w \<noteq> None"
proof -
  show ne: "sc s0 i w \<noteq> None" using assms(1,3,4) by (simp add: request_def)
  have "i \<notin> set (take (min d T) (sectors_of ys))" using assms(1,3) set_take_subset unfolding request_def by fast
  moreover have "i < NUM_LSECTORS" using assms(1,3) by (auto simp: request_def)
  ultimately show "sc s i w = sc s0 i w" using assms(2,4) ne writtenD(2) [of sc _ _ s0 s i w] unfolding progress_def by blast
qed

lemma chunk_ok:
  assumes rq: "request s0 S ys T o1" and pg: "progress s0 S ys T k d cur s" and r: "0 < r" "d + r \<le> length S"
    and S: "\<And>j. j < r \<Longrightarrow> S ! (d + j) = lba + j"
    and sp: "computing_span (ISSD_COMPUTING_ADDR + lba mod SECTORS_PER_PAGE * 512) r"
  shows "\<exists>s1 cur' s'. rd_sectors dev ISSD_COMPUTING_ADDR lba r s = Some (0, s1)
    \<and> write_chunks dev (int o1) (int (length ys)) (ISSD_COMPUTING_ADDR + lba mod SECTORS_PER_PAGE * 512)
        (int (min (d + r) T - min d T)) cur s1 = Some (True, cur', s')
    \<and> progress s0 S ys T k (d + r) cur' s'"
proof -
  let ?buf = "ISSD_COMPUTING_ADDR + lba mod SECTORS_PER_PAGE * 512" and ?m = "min (d + r) T - min d T" and ?D = "sectors_of ys"
  have inS: "lba + j \<in> set S" if "j < r" for j using S [OF that] r(2) that by (metis add_less_cancel_left less_le_trans nth_mem)
  have l: "lba + r \<le> NUM_LSECTORS" using inS [of "r - 1"] r(1) rq by (auto simp: request_def)
  have all: "\<forall>i < NUM_LSECTORS. lba \<le> i \<and> i < lba + r \<longrightarrow> sc s i 0 \<noteq> None"
  proof (intro allI impI)
    fix i assume "i < NUM_LSECTORS" "lba \<le> i \<and> i < lba + r"
    then have "i \<in> set S" using inS [of "i - lba"] by auto
    then show "sc s i 0 \<noteq> None" using source_kept [OF rq pg, of i 0] by simp
  qed
  have inv: "inv s" using pg by (simp add: progress_def)
  from load [OF inv r(1) l sp] obtain s1 where
    s1: "rd_sectors dev ISSD_COMPUTING_ADDR lba r s = Some (0, s1)" "inv s1" "\<forall>k. room s k \<longrightarrow> room s1 k"
    and same: "\<forall>i < NUM_LSECTORS. \<forall>w < 512. sc s1 i w = sc s i w"
    and buf: "\<forall>k < r. \<forall>w < 512. sc s (lba + k) w = Some (mem s1 (ISSD_COMPUTING_ADDR + (lba mod SECTORS_PER_PAGE + k) * 512 + w))"
    and fr: "\<forall>a. in_cmd a \<longrightarrow> mem s1 a = mem s a" unfolding eqTrueI [OF all] if_True by blast
  have cm: "mem s1 a = mem s0 a" if "in_cmd a" for a using pg fr that by (simp add: progress_def)
  have tb: "has_exts (mem s1) o1 ys" using has_exts_cong [of "mem s1" "mem s0", OF cm] rq by (simp add: request_def)
  have cur: "cur_ok ys cur" and rs: "rest ys cur = drop (min d T) ?D" using pg by (simp_all add: progress_def)
  have D: "distinct ?D" "set ?D \<subseteq> {..<NUM_LSECTORS}" "min (length S) T \<le> length ?D"
    using rq sectors_bound [of "mem s0" o1 ys] by (simp_all add: request_def)
  have "room s (k + (min (length S) T - min d T))" using pg by (simp add: progress_def)
  moreover have "k + (min (length S) T - min d T) = k + (min (length S) T - min (d + r) T) + ?m" using r(2) by (simp add: min_def)
  ultimately have rm: "room s1 (k + (min (length S) T - min (d + r) T) + ?m)" using s1(3) by simp
  have len: "?m \<le> length (rest ys cur)" using D(3) r(2) unfolding rs length_drop by linarith
  have "?m \<le> r" by linarith
  note sp' = computing_span_split(1) [OF sp this]
  from write_chunks_ok [OF s1(2) rm tb cur len sp'] obtain cur' s' where
    w: "write_chunks dev (int o1) (int (length ys)) ?buf (int ?m) cur s1 = Some (True, cur', s')" "inv s'"
      "room s' (k + (min (length S) T - min (d + r) T))" "cur_ok ys cur'" "rest ys cur' = drop ?m (rest ys cur)"
    and wt: "written sc (take ?m (rest ys cur)) (\<lambda>j w. mem s1 (?buf + j * 512 + w)) s1 s'"
    and fr': "\<forall>a. in_cmd a \<or> in_computing a \<longrightarrow> mem s' a = mem s1 a"
    using D unfolding rs by (auto intro: distinct_drop dest: in_set_dropD)
  have w0: "written sc (take (min d T) ?D) (\<lambda>j w. the (sc s0 (S ! j) w)) s0 s1"
  proof -
    have "set (take (min d T) ?D) \<subseteq> {..<NUM_LSECTORS}" using D(2) set_take_subset by fast
    then have "(take (min d T) ?D) ! j < NUM_LSECTORS" if "j < length (take (min d T) ?D)" for j
      using that nth_mem by blast
    then show ?thesis using pg same unfolding progress_def written_def by simp
  qed
  have dat: "mem s1 (?buf + j * 512 + w) = the (sc s0 (S ! (min d T + j)) w)" if "j < ?m" "w < 512" for j w
  proof -
    have j: "j < r" "min d T = d" using that(1) by (auto simp: min_def split: if_splits)
    have "sc s0 (lba + j) w = Some (mem s1 (ISSD_COMPUTING_ADDR + (lba mod SECTORS_PER_PAGE + j) * 512 + w))"
      using buf j(1) that(2) source_kept(1) [OF rq pg inS [OF j(1)] that(2)] by simp
    moreover have "?buf + j * 512 + w = ISSD_COMPUTING_ADDR + (lba mod SECTORS_PER_PAGE + j) * 512 + w" by (simp add: add_mult_distrib)
    ultimately show ?thesis using S [OF j(1)] by (simp only: j(2) option.sel)
  qed
  have sum: "min d T + ?m = min (d + r) T" by linarith
  have "min d T \<le> length ?D" using D(3) r(2) by linarith
  from written_take [OF w0 wt [unfolded rs] D(1,2) this dat]
  have "written sc (take (min (d + r) T) ?D) (\<lambda>j w. the (sc s0 (S ! j) w)) s0 s'" unfolding sum .
  moreover have "rest ys cur' = drop (min (d + r) T) ?D" using w(5) unfolding rs drop_drop add.commute [of _ "min d T"] sum .
  moreover have "\<forall>a. in_cmd a \<longrightarrow> mem s' a = mem s0 a" using cm fr' by simp
  ultimately have "progress s0 S ys T k (d + r) cur' s'" using w by (simp add: progress_def)
  with s1(1) w(1) show ?thesis by blast
qed

text \<open>One source extent, read in chunks.\<close>

lemma backup_extent_ok:
  assumes rq: "request s0 S ys ((F + 511) div 512) o1" and F: "F < 2147483648"
    and "progress s0 S ys ((F + 511) div 512) k d cur s" and "d + n \<le> length S" and "\<And>j. j < n \<Longrightarrow> S ! (d + j) = lba + j"
    and "lba + n \<le> NUM_LSECTORS"
  shows "\<exists>cur' s'. backup_extent dev (int o1) (int (length ys)) (int F) (int lba) (int n) (min (512 * d) F) cur s
      = Some (True, min (512 * (d + n)) F, cur', s') \<and> progress s0 S ys ((F + 511) div 512) k (d + n) cur' s'"
  using assms(3-)
proof (induction n arbitrary: d lba cur s rule: less_induct)
  case (less n)
  let ?T = "(F + 511) div 512"
  show ?case
  proof (cases "n = 0")
    case True
    then show ?thesis using less.prems(1) by (simp add: backup_extent.simps)
  next
    case False
    then have "0 < n" by simp
    from next_rd [OF this less.prems(4)] obtain r where
      r: "next_rd_sectors (int lba) (int n) = int r" "0 < r" "r \<le> n" "r \<le> ISSD_CNT_SECTORS"
      and sp: "computing_span (ISSD_COMPUTING_ADDR + lba mod SECTORS_PER_PAGE * 512) r" by blast
    have "d + r \<le> length S" "\<And>j. j < r \<Longrightarrow> S ! (d + j) = lba + j" using less.prems(2,3) r(3) by simp_all
    from chunk_ok [OF rq less.prems(1) r(2) this sp] obtain s1 cur1 s2 where
      c: "rd_sectors dev ISSD_COMPUTING_ADDR lba r s = Some (0, s1)"
      "write_chunks dev (int o1) (int (length ys)) (ISSD_COMPUTING_ADDR + lba mod SECTORS_PER_PAGE * 512)
        (int (min (d + r) ?T - min d ?T)) cur s1 = Some (True, cur1, s2)" "progress s0 S ys ?T k (d + r) cur1 s2" by blast
    have L: "lba < 4294967296" "r < 4294967296" using less.prems(4) r(4) by (simp_all add: geom)
    have o: "cmod (int lba) (int SECTORS_PER_PAGE) = int (lba mod SECTORS_PER_PAGE)" by (simp add: geom cdivmod zmod_int)
    have bu: "u32_of (int ISSD_COMPUTING_ADDR + int (lba mod SECTORS_PER_PAGE) * int BYTES_PER_SECTOR)
        = ISSD_COMPUTING_ADDR + lba mod SECTORS_PER_PAGE * 512"
    proof -
      have "lba mod SECTORS_PER_PAGE < 64" by (simp add: geom)
      then have "ISSD_COMPUTING_ADDR + lba mod SECTORS_PER_PAGE * 512 < 4294967296" by (simp add: geom)
      from u32_of_nat [OF this] show ?thesis by (simp add: geom)
    qed
    have ib: "int lba + int r = int (lba + r)" "int n - int r = int (n - r)" using r(3) by simp_all
    have run: "backup_extent dev (int o1) (int (length ys)) (int F) (int lba) (int n) (min (512 * d) F) cur s
        = backup_extent dev (int o1) (int (length ys)) (int F) (int (lba + r)) (int (n - r)) (min (512 * (d + r)) F) cur1 s2"
      using False L
      by (subst backup_extent.simps)
        (simp only: chunk_sectors [OF F r(4)] c o bu r(1) ib u32_of_nat Let_def bind.bind_lunit prod.case of_nat_eq_0_iff
           if_False if_True less_int_code simp_thms)
    have "\<exists>cur' s'. backup_extent dev (int o1) (int (length ys)) (int F) (int (lba + r)) (int (n - r)) (min (512 * (d + r)) F) cur1 s2
        = Some (True, min (512 * (d + r + (n - r))) F, cur', s') \<and> progress s0 S ys ?T k (d + r + (n - r)) cur' s'"
    proof (rule less.IH [OF _ c(3)])
      show "n - r < n" "d + r + (n - r) \<le> length S" "lba + r + (n - r) \<le> NUM_LSECTORS" using r less.prems(2,4) by simp_all
      show "S ! (d + r + j) = lba + r + j" if "j < n - r" for j using less.prems(3) [of "r + j"] that by (simp add: add.assoc)
    qed
    then show ?thesis using r(3) unfolding run by simp
  qed
qed

end

text \<open>A backup command in memory: file size \<open>F\<close>, source extents \<open>xs\<close> from entry \<open>o0\<close> on, then the destination \<open>ys\<close>.\<close>

definition backup_cmd :: "(nat \<Rightarrow> u32) \<Rightarrow> nat \<Rightarrow> nat \<Rightarrow> (nat \<times> nat) list \<Rightarrow> (nat \<times> nat) list \<Rightarrow> bool" where
  "backup_cmd m o0 F xs ys \<longleftrightarrow> unat (m cmd_opType) = 0 \<and> unat (m (cmd_file_ext_offset 0)) = o0
     \<and> unat (m (cmd_file_ext_offset 1)) = o0 + length xs \<and> unat (m (cmd_file_ext_offset 2)) = o0 + length xs + length ys
     \<and> unat (m (cmd_fileSize 0)) = F \<and> F < 2147483648 \<and> has_exts m o0 xs \<and> has_exts m (o0 + length xs) ys"

lemma cmd_fields:
  "in_cmd cmd_opType" "in_cmd cmd_isOK" "in_cmd (cmd_fileSize 0)" "i < 3 \<Longrightarrow> in_cmd (cmd_file_ext_offset i)"
  "cmd_opType mod 4 = 0" "cmd_isOK mod 4 = 0" "cmd_fileSize 0 mod 4 = 0" "cmd_file_ext_offset i mod 4 = 0"
  by (simp_all add: cmd_opType_def cmd_isOK_def cmd_fileSize_def cmd_file_ext_offset_def in_cmd_def geom mod_eq_0_iff_dvd)

lemma sectors_of_nth: "S = sectors_of us @ [l..<l + n] @ zs \<Longrightarrow> j < n \<Longrightarrow> S ! (length (sectors_of us) + j) = l + j"
  by (simp add: nth_append)

context sector_store begin

lemma backup_extents_ok:
  assumes rq: "request s0 (sectors_of (us @ vs)) ys ((F + 511) div 512) o1" and F: "F < 2147483648"
    and xs: "has_exts (mem s0) o0 (us @ vs)"
    and pg: "progress s0 (sectors_of (us @ vs)) ys ((F + 511) div 512) k (length (sectors_of us)) cur s"
  shows "\<exists>st cur' s'. backup_extents dev (int o0) (int o1) (int (length ys)) (int F) [length us..<length (us @ vs)]
      (min (512 * length (sectors_of us)) F) cur s = Some (True, st, cur', s')
    \<and> progress s0 (sectors_of (us @ vs)) ys ((F + 511) div 512) k (length (sectors_of (us @ vs))) cur' s'"
  using rq xs pg
proof (induction vs arbitrary: us cur s)
  case Nil
  then show ?case by simp
next
  case (Cons v vs)
  let ?T = "(F + 511) div 512" and ?S = "sectors_of (us @ v # vs)" and ?d = "length (sectors_of us)"
  obtain l n where v: "v = (l, n)" by fastforce
  have p: "length us < length (us @ v # vs)" "(us @ v # vs) ! length us = (l, n)" by (simp_all add: v)
  note e = has_extsD [OF Cons.prems(2) p]
  note ad = ext_addr [OF e(1)]
  have cm: "inv s" "\<And>a. in_cmd a \<Longrightarrow> mem s a = mem s0 a" using Cons.prems(3) by (simp_all add: progress_def)
  have words: "rd_word dev (cmd_ext_lba (int o0 + int (length us))) s = Some l" "rd_word dev (cmd_ext_len (int o0 + int (length us))) s = Some n"
    unfolding ad(1,2) using word [OF cm(1) ad(3,5)] word [OF cm(1) ad(4,6)] cm(2) [OF ad(3)] cm(2) [OF ad(4)] e(2,3) by simp_all
  have S: "?S = sectors_of us @ [l..<l + n] @ sectors_of vs" by (simp add: v)
  have "?d + n \<le> length ?S" "\<And>j. j < n \<Longrightarrow> ?S ! (?d + j) = l + j" using sectors_of_nth [OF S] by (simp_all add: v)
  from backup_extent_ok [OF Cons.prems(1) F Cons.prems(3) this e(4)] obtain cur1 s1 where
    r: "backup_extent dev (int o1) (int (length ys)) (int F) (int l) (int n) (min (512 * ?d) F) cur s
      = Some (True, min (512 * (?d + n)) F, cur1, s1)" "progress s0 ?S ys ?T k (?d + n) cur1 s1" by blast
  have d: "length (sectors_of (us @ [v])) = ?d + n" and ap: "(us @ [v]) @ vs = us @ v # vs" by (simp_all add: v)
  have "\<exists>st cur' s'. backup_extents dev (int o0) (int o1) (int (length ys)) (int F) [length (us @ [v])..<length ((us @ [v]) @ vs)]
      (min (512 * length (sectors_of (us @ [v]))) F) cur1 s1 = Some (True, st, cur', s')
    \<and> progress s0 (sectors_of ((us @ [v]) @ vs)) ys ?T k (length (sectors_of ((us @ [v]) @ vs))) cur' s'"
    by (rule Cons.IH) (use Cons.prems(1,2) r(2) in \<open>simp_all only: ap d\<close>)
  moreover have "[length us..<length (us @ v # vs)] = length us # [length (us @ [v])..<length ((us @ [v]) @ vs)]"
    using upt_conv_Cons [OF p(1)] by simp
  ultimately show ?case using words r(1) e(5,6) by (simp add: c_int_small d del: upt.simps sectors_of_simps)
qed

lemma do_issd_backup_unfold:
  assumes i: "inv s" and c: "backup_cmd (mem s) o0 F xs ys"
  shows "do_issd_backup dev s = do {
    (ok, start, cur, s) \<leftarrow> backup_extents dev (int o0) (int (o0 + length xs)) (int (length ys)) (int F)
       [0..<length xs] 0 \<lparr>index = 0, offset = 0\<rparr> s;
    if ok then do { s \<leftarrow> wr_word dev cmd_isOK 1 s; Some (0, s) } else Some (-1, s) }"
proof -
  have F: "F < 2147483648" and hx: "has_exts (mem s) (o0 + length xs) ys" using c by (simp_all add: backup_cmd_def)
  have sm: "o0 + length xs + length ys < 2147483648" using hx by (simp add: has_exts_def geom)
  note rd = word [OF i cmd_fields(4,8)]
  have w: "rd_word dev (cmd_file_ext_offset 0) s = Some o0" "rd_word dev (cmd_file_ext_offset 1) s = Some (o0 + length xs)"
    "rd_word dev (cmd_file_ext_offset 2) s = Some (o0 + length xs + length ys)" "rd_word dev (cmd_fileSize 0) s = Some F"
    using c rd [of 0] rd [of 1] rd [of 2] word [OF i cmd_fields(3,7)] by (simp_all add: backup_cmd_def)
  have ci: "c_int o0 = int o0" "c_int (o0 + length xs) = int o0 + int (length xs)"
    "c_int (o0 + length xs + length ys) = int o0 + int (length xs) + int (length ys)" "c_int F = int F"
    using sm F by (simp_all add: c_int_small)
  show ?thesis by (simp add: do_issd_backup_def w Let_def ci del: One_nat_def)
qed

lemma do_issd_backup_ok:
  assumes i: "inv s" and c: "backup_cmd (mem s) o0 F xs ys"
    and d: "distinct (sectors_of ys)" "set (sectors_of ys) \<inter> set (sectors_of xs) = {}"
    and src: "\<forall>i \<in> set (sectors_of xs). \<forall>w < 512. sc s i w \<noteq> None"
    and k: "k = min (length (sectors_of xs)) ((F + 511) div 512)" "k \<le> length (sectors_of ys)" "room s k"
  shows "\<exists>s'. do_issd_backup dev s = Some (0, s') \<and> inv s' \<and> mem s' cmd_isOK = 1
    \<and> written sc (take k (sectors_of ys)) (\<lambda>j w. the (sc s (sectors_of xs ! j) w)) s s'"
proof -
  let ?S = "sectors_of xs" and ?T = "(F + 511) div 512"
  have F: "F < 2147483648" and hx: "has_exts (mem s) o0 xs" "has_exts (mem s) (o0 + length xs) ys"
    using c by (simp_all add: backup_cmd_def)
  have rq: "request s (sectors_of ([] @ xs)) ys ?T (o0 + length xs)"
    using hx d src k(1,2) sectors_bound [OF hx(1)] by (simp add: request_def)
  have "progress s (sectors_of ([] @ xs)) ys ?T 0 (length (sectors_of [])) \<lparr>index = 0, offset = 0\<rparr> s"
    using i k by (simp add: progress_def cur_ok_def rest_def written_Nil)
  from backup_extents_ok [OF rq F _ this, of o0] hx(1) obtain st cur' s1 where
    r: "backup_extents dev (int o0) (int (o0 + length xs)) (int (length ys)) (int F) [0..<length xs] 0 \<lparr>index = 0, offset = 0\<rparr> s
      = Some (True, st, cur', s1)" and pg: "progress s ?S ys ?T 0 (length ?S) cur' s1" by (auto simp del: of_nat_add)
  from pg have s1: "inv s1" "written sc (take k (sectors_of ys)) (\<lambda>j w. the (sc s (?S ! j) w)) s s1"
    unfolding progress_def k(1) by blast+
  from set_word [OF s1(1) cmd_fields(2,6), of 1] obtain s' where
    s': "wr_word dev cmd_isOK 1 s1 = Some s'" "inv s'" "\<forall>i < NUM_LSECTORS. \<forall>w < 512. sc s' i w = sc s1 i w"
      "mem s' = (mem s1)(cmd_isOK := of_nat 1)" by blast
  have "written sc (take k (sectors_of ys)) (\<lambda>j w. the (sc s (?S ! j) w)) s s'"
  proof -
    have "set (take k (sectors_of ys)) \<subseteq> {..<NUM_LSECTORS}" using sectors_bound [OF hx(2)] set_take_subset by fast
    then have "take k (sectors_of ys) ! j < NUM_LSECTORS" if "j < length (take k (sectors_of ys))" for j
      using that nth_mem by blast
    then show ?thesis using s1(2) s'(3) unfolding written_def by simp
  qed
  moreover have "do_issd_backup dev s = Some (0, s')" using r by (simp add: do_issd_backup_unfold [OF i c] s'(1) [unfolded One_nat_def])
  ultimately show ?thesis using s' by auto
qed

text \<open>When the first source sector was never written nothing is stored and no success is reported.\<close>

lemma do_issd_backup_unwritten:
  assumes i: "inv s" and c: "backup_cmd (mem s) o0 F ((l, n) # xs) ys" and n: "0 < n" and u: "sc s l 0 = None"
  shows "\<exists>s'. do_issd_backup dev s = Some (-1, s') \<and> inv s' \<and> (\<forall>a. in_cmd a \<longrightarrow> mem s' a = mem s a)
    \<and> (\<forall>i < NUM_LSECTORS. \<forall>w < 512. sc s' i w = sc s i w)"
proof -
  have F: "F < 2147483648" and hx: "has_exts (mem s) o0 ((l, n) # xs)" "has_exts (mem s) (o0 + length ((l, n) # xs)) ys"
    using c by (simp_all add: backup_cmd_def)
  note e = has_extsD [OF hx(1), of 0 l n, simplified]
  have ad: "cmd_ext_lba (int o0) = EXT_BASE + 8 * o0" "cmd_ext_len (int o0) = EXT_BASE + 8 * o0 + 4"
    "in_cmd (EXT_BASE + 8 * o0)" "in_cmd (EXT_BASE + 8 * o0 + 4)" "(EXT_BASE + 8 * o0) mod 4 = 0" "(EXT_BASE + 8 * o0 + 4) mod 4 = 0"
    using ext_addr [of o0 0] e(1) by simp_all
  have words: "rd_word dev (cmd_ext_lba (int o0)) s = Some l" "rd_word dev (cmd_ext_len (int o0)) s = Some n"
    unfolding ad(1,2) using word [OF i ad(3,5)] word [OF i ad(4,6)] e(2,3) by simp_all
  from next_rd [OF n e(4)] obtain r where
    r: "next_rd_sectors (int l) (int n) = int r" "0 < r" "r \<le> n" "r \<le> ISSD_CNT_SECTORS"
    and sp: "computing_span (ISSD_COMPUTING_ADDR + l mod SECTORS_PER_PAGE * 512) r" by blast
  have lr: "l + r \<le> NUM_LSECTORS" using e(4) r(3) by simp
  have un: "\<not> (\<forall>i < NUM_LSECTORS. l \<le> i \<and> i < l + r \<longrightarrow> sc s i 0 \<noteq> None)" using u r(2) lr by (intro notI) (auto dest!: spec [of _ l])
  from load [OF i r(2) lr sp] obtain s1 where
    s1: "rd_sectors dev ISSD_COMPUTING_ADDR l r s = Some (-1, s1)" "inv s1" "\<forall>i < NUM_LSECTORS. \<forall>w < 512. sc s1 i w = sc s i w"
      "\<forall>a. in_cmd a \<longrightarrow> mem s1 a = mem s a" unfolding if_not_P [OF un] by blast
  have ci: "c_int l = int l" "c_int n = int n" using e(5,6) by (simp_all add: c_int_small)
  have L: "l < 4294967296" "r < 4294967296" using e(4) r(3) by (simp_all add: geom)
  have ext: "backup_extent dev a b (int F) (int l) (int n) st cur s = Some (False, st, cur, s1)" for a b st cur
    using n L by (subst backup_extent.simps) (simp add: r(1) s1(1) Let_def)
  have upt: "[0..<length ((l, n) # xs)] = 0 # [1..<length ((l, n) # xs)]" using upt_conv_Cons [of 0 "length ((l, n) # xs)"] by simp
  have "do_issd_backup dev s = Some (-1, s1)"
    unfolding do_issd_backup_unfold [OF i c] upt by (simp add: words ci ext del: upt.simps)
  with s1 show ?thesis by blast
qed

end

subsection \<open>The backup command on the tutorial layer\<close>

lemma process_cmd_copies:
  assumes "flash_ok tut_layout hw" and "tut_inv s" and "backup_cmd (tdram s) o0 F xs ys"
    and "distinct (sectors_of ys)" and "set (sectors_of ys) \<inter> set (sectors_of xs) = {}"
    and "\<forall>i \<in> set (sectors_of xs). \<forall>w < 512. sec s i w \<noteq> None"
    and "k = min (length (sectors_of xs)) ((F + 511) div 512)" and "k \<le> length (sectors_of ys)"
    and "\<forall>b < NUM_BANKS. k \<le> length (free_rows s b)"
  shows "\<exists>s'. issd_process_cmd (tut_dev hw) s = Some s' \<and> tut_inv s'
    \<and> (\<forall>j < k. \<forall>w < 512. sec s' (sectors_of ys ! j) w = sec s (sectors_of xs ! j) w)
    \<and> (\<forall>i < NUM_LSECTORS. \<forall>w < 512. i \<notin> set (take k (sectors_of ys)) \<longrightarrow> sec s i w \<noteq> None \<longrightarrow> sec s' i w = sec s i w)
    \<and> tdram s' cmd_isOK = 1"
proof -
  have i: "tut_store_inv hw s" using assms(1,2) by (simp add: tut_store_inv_def)
  have "tut_room s k" using assms(9) by (simp add: tut_room_def)
  from tut.do_issd_backup_ok [OF i assms(3-8) this] obtain s' where
    s': "do_issd_backup (tut_dev hw) s = Some (0, s')" "tut_store_inv hw s'" "tdram s' cmd_isOK = 1"
    and wt: "written sec (take k (sectors_of ys)) (\<lambda>j w. the (sec s (sectors_of xs ! j) w)) s s'" by blast
  have run: "issd_process_cmd (tut_dev hw) s = Some s'"
    using assms(3) tut.word [OF i cmd_fields(1,5)] tut.word [OF i cmd_fields(2,6)] s'(1)
    by (simp add: issd_process_cmd_def backup_cmd_def c_int_small ISSD_BACKUP_def)
  have "sec s' (sectors_of ys ! j) w = sec s (sectors_of xs ! j) w" if "j < k" "w < 512" for j w
  proof -
    have "sectors_of xs ! j \<in> set (sectors_of xs)" using that(1) assms(7) by simp
    then show ?thesis using writtenD(1) [OF wt, of j w] assms(6,8) that by auto
  qed
  moreover note writtenD(2) [OF wt]
  ultimately show ?thesis using run s' by (auto simp: tut_store_inv_def)
qed

text \<open>
  C2. The backup command copies the file: when every source sector has been written, the destination
  extents are disjoint from each other and from the source, and the banks have room, \<open>issd_process_cmd\<close>
  returns; the first \<open>k\<close> destination sectors then hold the first \<open>k\<close> source sectors, where \<open>k\<close> is the
  number of sectors of the file (or of the source, if that is shorter), every other sector keeps its
  content, and the success flag is set.
\<close>

theorem backup_copies_file:
  assumes "flash_ok tut_layout hw" and "tut_inv s" and "backup_cmd (tdram s) o0 F xs ys"
    and "distinct (sectors_of ys)" and "set (sectors_of ys) \<inter> set (sectors_of xs) = {}"
    and "\<forall>i \<in> set (sectors_of xs). \<forall>w < 512. sec s i w \<noteq> None"
    and "k = min (length (sectors_of xs)) ((F + 511) div 512)" and "k \<le> length (sectors_of ys)"
    and "\<forall>b < NUM_BANKS. k \<le> length (free_rows s b)"
  shows "\<exists>s'. issd_process_cmd (tut_dev hw) s = Some s' \<and> tut_inv s'
    \<and> (\<forall>j < k. \<forall>w < 512. sec s' (sectors_of ys ! j) w = sec s (sectors_of xs ! j) w)
    \<and> (\<forall>i < NUM_LSECTORS. \<forall>w < 512. i \<notin> set (take k (sectors_of ys)) \<longrightarrow> sec s i w \<noteq> None \<longrightarrow> sec s' i w = sec s i w)
    \<and> tdram s' cmd_isOK = 1"
  by (rule process_cmd_copies [OF assms])


text \<open>A store with one written page, and a command to copy 600 bytes from sector 0 to sectors 64 and 128.\<close>

definition demo_cmd :: dram where
  "demo_cmd = (\<lambda>_. 0)(PAGE_MAP_ADDR := 127, cmd_file_ext_offset 1 := 1, cmd_file_ext_offset 2 := 3, cmd_fileSize 0 := 600,
     EXT_BASE + 4 := 2, EXT_BASE + 8 := 64, EXT_BASE + 12 := 1, EXT_BASE + 16 := 128, EXT_BASE + 20 := 1)"

definition demo_store :: tstate where
  "demo_store = set_dram demo_cmd tstate0"

lemma demo_cmd_map: "lpn < NUM_LPAGES \<Longrightarrow> map_entry demo_store lpn = (if lpn = 0 then 127 else 0)"
  by (auto simp: map_entry_def demo_store_def set_dram_def on_fl_def tdram_def demo_cmd_def cmd_file_ext_offset_def cmd_fileSize_def
      EXT_BASE_def geom)

lemma demo_store_no_bad: "b < NUM_BANKS \<Longrightarrow> bad_block demo_store b v = Some False"
  by (simp add: bad_block_def is_bad_block_def search_equ_small scan_list_aligned demo_store_def set_dram_def on_fl_def tstate0_def)

lemma demo_store_free_rows: "b < NUM_BANKS \<Longrightarrow> free_rows demo_store b = [PAGES_PER_VBLK..<PAGES_PER_BANK]"
  by (simp add: free_rows_def usable_def demo_store_no_bad) (simp add: demo_store_def set_dram_def on_fl_def tstate0_def)

lemma demo_store_ok: "tut_inv demo_store"
proof -
  have le: "PAGES_PER_VBLK \<le> PAGES_PER_BANK" by (simp add: geom)
  have d: "g_target_row demo_store = (\<lambda>_. PAGES_PER_VBLK)" "g_target_bank demo_store = 0" "scan_ok demo_store"
    "nand (fl demo_store) = nand (fl tstate0)"
    by (simp_all add: demo_store_def set_dram_def on_fl_def tstate0_def scan_ok_def)
  have b: "127 div PAGES_PER_BANK = 0" "127 mod PAGES_PER_BANK < PAGES_PER_VBLK" "0 < NUM_BANKS" by (simp_all add: geom)
  have "blank (nand (fl tstate0)) c r" for c r by (simp add: blank_def tstate0_def fstate0_def nand0_def)
  then show ?thesis using le b demo_cmd_map by (simp add: tut_inv_def d)
qed

lemma demo_cmd_ok: "backup_cmd (tdram demo_store) 0 600 [(0, 2)] [(64, 1), (128, 1)]"
  by (simp add: backup_cmd_def has_exts_def demo_store_def set_dram_def on_fl_def tdram_def demo_cmd_def cmd_file_ext_offset_def
      cmd_fileSize_def cmd_opType_def EXT_BASE_def geom less_Suc_eq)

theorem backup_copies_file_witness:
  "\<exists>s'. issd_process_cmd (tut_dev hw_ref) demo_store = Some s' \<and> sec s' 64 0 = sec demo_store 0 0 \<and> sec s' 128 0 = sec demo_store 1 0"
proof -
  have s: "sectors_of [(0, 2)] = [0, 1]" "sectors_of [(64, 1), (128, 1)] = [64, 128]" by (simp_all add: upt_rec)
  have "\<forall>i \<in> set (sectors_of [(0, 2)]). \<forall>w < 512. sec demo_store i w \<noteq> None"
    using demo_cmd_map by (simp add: s sec_def lword_def geom)
  moreover have "\<forall>b < NUM_BANKS. 2 \<le> length (free_rows demo_store b)"
    by (simp add: demo_store_free_rows del: upt.simps) (simp add: geom)
  ultimately obtain s' where r: "issd_process_cmd (tut_dev hw_ref) demo_store = Some s'"
    and c: "\<forall>j < 2. \<forall>w < 512. sec s' (sectors_of [(64, 1), (128, 1)] ! j) w = sec demo_store (sectors_of [(0, 2)] ! j) w"
    using backup_copies_file [OF hw_ref_ok demo_store_ok demo_cmd_ok, of 2] unfolding s by (simp del: upt.simps) metis
  show ?thesis using r c [rule_format, of 0 0] c [rule_format, of 1 0] unfolding s by auto
qed


end
