(* ===== verification/Sata_Cmd.thy ===== *)
theory Sata_Cmd
  imports Backup_Op
begin

text \<open>
  The ATA command handlers of the device (\<open>sata/sata_cmd.c\<close>, \<open>sata/sata_table.c\<close>, \<open>sata/sata_identify.c\<close>): the
  class and handler tables, every handler with the FIS it answers, the identification sector, and the pair
  of buffer commands that carry the in-storage command, put together from its packets. What the handlers
  call, and what the SATA hardware does with the data of a PIO command, is the record \<open>sata_env\<close>,
  instantiated with the tutorial layer as \<open>tut_sata\<close>; the buffer commands work inside the locale
  \<open>command_buffer\<close>. A stopped firmware (a failed assertion of a lower layer) is \<open>None\<close>.
\<close>

unbundle bit_operations_syntax

text \<open>
  The tables of \<open>sata_table.c\<close>: the class and address form of every command code, the codes of the commands
  that have a handler, in order, and their handlers. The attribute bits are disjoint, so \<open>|\<close> is \<open>+\<close>.
\<close>

definition CCL_FTL_D2H :: nat where "CCL_FTL_D2H = 0x01"
definition CCL_FTL_H2D :: nat where "CCL_FTL_H2D = 0x02"
definition CCL_OTHER :: nat where "CCL_OTHER = 0x04"
definition CCL_UNDEFINED :: nat where "CCL_UNDEFINED = 0x08"
definition ATR_LBA_NOR :: nat where "ATR_LBA_NOR = 0x10"
definition ATR_LBA_EXT :: nat where "ATR_LBA_EXT = 0x20"
definition ATR_NO_SECT :: nat where "ATR_NO_SECT = 0x40"
definition ATR_LOCK_FREE :: nat where "ATR_LOCK_FREE = 0x80"

lemmas class_defs = CCL_FTL_D2H_def CCL_FTL_H2D_def CCL_OTHER_def CCL_UNDEFINED_def ATR_LBA_NOR_def ATR_LBA_EXT_def
  ATR_NO_SECT_def ATR_LOCK_FREE_def

definition ata_cmd_class_table :: "nat list" where
  "ata_cmd_class_table = [
     ATR_LOCK_FREE + CCL_OTHER, CCL_UNDEFINED, CCL_UNDEFINED, CCL_UNDEFINED, CCL_UNDEFINED, CCL_UNDEFINED, ATR_LBA_EXT + CCL_OTHER,
     CCL_UNDEFINED, ATR_LOCK_FREE + CCL_OTHER, CCL_UNDEFINED, CCL_UNDEFINED, CCL_UNDEFINED, CCL_UNDEFINED, CCL_UNDEFINED,
     CCL_UNDEFINED, CCL_UNDEFINED,
     CCL_OTHER, CCL_UNDEFINED, CCL_UNDEFINED, CCL_UNDEFINED, CCL_UNDEFINED, CCL_UNDEFINED, CCL_UNDEFINED, CCL_UNDEFINED,
     CCL_UNDEFINED, CCL_UNDEFINED, CCL_UNDEFINED, CCL_UNDEFINED, CCL_UNDEFINED, CCL_UNDEFINED, CCL_UNDEFINED, CCL_UNDEFINED,
     ATR_LBA_NOR + CCL_FTL_D2H, CCL_UNDEFINED, CCL_UNDEFINED, CCL_UNDEFINED, ATR_LBA_EXT + CCL_FTL_D2H, ATR_LBA_EXT + CCL_FTL_D2H,
     CCL_UNDEFINED, ATR_LOCK_FREE + CCL_OTHER, CCL_UNDEFINED, ATR_LBA_EXT + CCL_FTL_D2H, CCL_UNDEFINED, CCL_UNDEFINED,
     CCL_UNDEFINED, CCL_UNDEFINED, CCL_UNDEFINED, ATR_LBA_EXT + CCL_OTHER,
     ATR_LBA_NOR + CCL_FTL_H2D, CCL_UNDEFINED, CCL_UNDEFINED, CCL_UNDEFINED, ATR_LBA_EXT + CCL_FTL_H2D, ATR_LBA_EXT + CCL_FTL_H2D,
     CCL_UNDEFINED, ATR_NO_SECT + ATR_LBA_EXT + CCL_OTHER, CCL_UNDEFINED, ATR_LBA_EXT + CCL_FTL_H2D, CCL_UNDEFINED, CCL_UNDEFINED,
     CCL_UNDEFINED, CCL_UNDEFINED, CCL_UNDEFINED, ATR_LBA_EXT + CCL_OTHER,
     ATR_LBA_NOR + CCL_OTHER, CCL_UNDEFINED, ATR_LBA_EXT + CCL_OTHER, CCL_UNDEFINED, CCL_UNDEFINED, CCL_UNDEFINED, CCL_UNDEFINED,
     CCL_UNDEFINED, CCL_UNDEFINED, CCL_UNDEFINED, CCL_UNDEFINED, CCL_UNDEFINED, CCL_UNDEFINED, CCL_UNDEFINED, CCL_UNDEFINED,
     CCL_UNDEFINED,
     CCL_UNDEFINED, CCL_UNDEFINED, CCL_UNDEFINED, CCL_UNDEFINED, CCL_UNDEFINED, CCL_UNDEFINED, CCL_UNDEFINED, CCL_UNDEFINED,
     CCL_UNDEFINED, CCL_UNDEFINED, CCL_UNDEFINED, CCL_UNDEFINED, CCL_UNDEFINED, CCL_UNDEFINED, CCL_UNDEFINED, CCL_UNDEFINED,
     CCL_FTL_D2H, CCL_FTL_H2D, CCL_UNDEFINED, CCL_UNDEFINED, CCL_UNDEFINED, CCL_UNDEFINED, CCL_UNDEFINED, CCL_UNDEFINED,
     CCL_UNDEFINED, CCL_UNDEFINED, CCL_UNDEFINED, CCL_UNDEFINED, CCL_UNDEFINED, CCL_UNDEFINED, CCL_UNDEFINED, CCL_UNDEFINED,
     CCL_OTHER, CCL_UNDEFINED, CCL_UNDEFINED, CCL_UNDEFINED, CCL_UNDEFINED, CCL_UNDEFINED, CCL_UNDEFINED, CCL_UNDEFINED,
     CCL_UNDEFINED, CCL_UNDEFINED, CCL_UNDEFINED, CCL_UNDEFINED, CCL_UNDEFINED, CCL_UNDEFINED, CCL_UNDEFINED, CCL_UNDEFINED,
     CCL_UNDEFINED, CCL_UNDEFINED, CCL_UNDEFINED, CCL_UNDEFINED, CCL_UNDEFINED, CCL_UNDEFINED, CCL_UNDEFINED, CCL_UNDEFINED,
     CCL_UNDEFINED, CCL_UNDEFINED, CCL_UNDEFINED, CCL_UNDEFINED, CCL_UNDEFINED, CCL_UNDEFINED, CCL_UNDEFINED, CCL_UNDEFINED,
     ATR_LOCK_FREE + CCL_OTHER, CCL_OTHER, ATR_LBA_NOR + CCL_OTHER, CCL_UNDEFINED, ATR_LOCK_FREE + CCL_OTHER,
     ATR_LOCK_FREE + CCL_OTHER, ATR_LOCK_FREE + CCL_OTHER, ATR_LOCK_FREE + CCL_OTHER, CCL_UNDEFINED, ATR_LOCK_FREE + CCL_OTHER,
     CCL_UNDEFINED, CCL_UNDEFINED, CCL_UNDEFINED, CCL_UNDEFINED, CCL_UNDEFINED, CCL_UNDEFINED,
     CCL_UNDEFINED, CCL_UNDEFINED, CCL_UNDEFINED, CCL_UNDEFINED, CCL_UNDEFINED, CCL_UNDEFINED, CCL_UNDEFINED, CCL_UNDEFINED,
     CCL_UNDEFINED, CCL_UNDEFINED, CCL_UNDEFINED, CCL_UNDEFINED, CCL_UNDEFINED, CCL_UNDEFINED, CCL_UNDEFINED, CCL_UNDEFINED,
     ATR_LOCK_FREE + CCL_OTHER, CCL_OTHER, CCL_UNDEFINED, CCL_UNDEFINED, CCL_UNDEFINED, CCL_UNDEFINED, CCL_UNDEFINED,
     CCL_UNDEFINED, CCL_UNDEFINED, CCL_UNDEFINED, CCL_UNDEFINED, CCL_UNDEFINED, CCL_UNDEFINED, CCL_UNDEFINED, CCL_UNDEFINED,
     CCL_UNDEFINED,
     CCL_UNDEFINED, CCL_UNDEFINED, CCL_UNDEFINED, CCL_UNDEFINED, ATR_LBA_NOR + CCL_FTL_D2H, ATR_LBA_NOR + CCL_FTL_H2D,
     ATR_LOCK_FREE + CCL_OTHER, CCL_UNDEFINED, ATR_LBA_NOR + CCL_FTL_D2H, CCL_UNDEFINED, ATR_LBA_NOR + CCL_FTL_H2D, CCL_UNDEFINED,
     CCL_UNDEFINED, CCL_UNDEFINED, CCL_UNDEFINED, CCL_UNDEFINED,
     CCL_UNDEFINED, CCL_UNDEFINED, CCL_UNDEFINED, CCL_UNDEFINED, CCL_UNDEFINED, CCL_UNDEFINED, CCL_UNDEFINED, CCL_UNDEFINED,
     CCL_UNDEFINED, CCL_UNDEFINED, CCL_UNDEFINED, CCL_UNDEFINED, CCL_UNDEFINED, CCL_UNDEFINED, CCL_UNDEFINED, CCL_UNDEFINED,
     ATR_LOCK_FREE + CCL_OTHER, ATR_LOCK_FREE + CCL_OTHER, ATR_LOCK_FREE + CCL_OTHER, ATR_LOCK_FREE + CCL_OTHER,
     ATR_LOCK_FREE + CCL_OTHER, ATR_LOCK_FREE + CCL_OTHER, ATR_LOCK_FREE + CCL_OTHER, CCL_OTHER, ATR_LOCK_FREE + CCL_OTHER,
     CCL_UNDEFINED, CCL_OTHER, CCL_UNDEFINED, ATR_LOCK_FREE + CCL_OTHER, CCL_UNDEFINED, CCL_UNDEFINED, ATR_LOCK_FREE + CCL_OTHER,
     CCL_UNDEFINED, CCL_OTHER, ATR_LOCK_FREE + CCL_OTHER, ATR_LOCK_FREE + CCL_OTHER, ATR_LOCK_FREE + CCL_OTHER, CCL_OTHER,
     CCL_OTHER, CCL_UNDEFINED, ATR_LOCK_FREE + CCL_OTHER, ATR_NO_SECT + ATR_LBA_NOR + CCL_OTHER, CCL_UNDEFINED, CCL_UNDEFINED,
     ATR_LBA_NOR + CCL_OTHER, ATR_LBA_EXT + CCL_OTHER, CCL_UNDEFINED, ATR_NO_SECT + ATR_LOCK_FREE + CCL_OTHER]"

definition CMD_TABLE_SIZE :: nat where "CMD_TABLE_SIZE = 60"

definition ata_command_code_table :: "nat list" where
  "ata_command_code_table = [
     0x00, 0x06, 0x08, 0x10, 0x25, 0x24, 0x29, 0x20, 0x27, 0x2F,
     0x35, 0x34, 0x39, 0x30, 0x37, 0x3F, 0x40, 0x42, 0x70, 0x90,
     0x91, 0x92, 0x94, 0x95, 0x96, 0x97, 0x98, 0x99, 0xB0, 0xB1,
     0xC8, 0xCA, 0xC4, 0xC5, 0xC6, 0xD0, 0xE0, 0xE1, 0xE2, 0xE3,
     0xE4, 0xE5, 0xE6, 0xE7, 0xE8, 0xEA, 0xEC, 0xEF, 0xF1, 0xF2,
     0xF3, 0xF4, 0xF5, 0xF6, 0xF8, 0xF9, 0xFC, 0xFD, 0xFF, 0xFF]"
subsection \<open>State\<close>

text \<open>
  What the handlers call: the translation layer, the in-storage operation, the block copy of the memory
  utility (inside the DRAM, and from an SRAM array) and its search, a 32-bit read, and what the SATA
  hardware does in the data phase of a PIO command (the sector of the host goes to a DRAM address, or a
  sector from a DRAM address to the host).
\<close>

record 's sata_env =
  f_read :: "nat \<Rightarrow> nat \<Rightarrow> 's \<Rightarrow> 's option"
  f_write :: "nat \<Rightarrow> nat \<Rightarrow> 's \<Rightarrow> 's option"
  f_flush :: "'s \<Rightarrow> 's option"
  f_process :: "'s \<Rightarrow> 's option"
  f_copy :: "nat \<Rightarrow> nat \<Rightarrow> nat \<Rightarrow> 's \<Rightarrow> 's option"
  f_put :: "nat \<Rightarrow> u16 list \<Rightarrow> 's \<Rightarrow> 's option"
  f_rd32 :: "nat \<Rightarrow> 's \<Rightarrow> nat option"
  f_search :: "nat list \<Rightarrow> nat \<Rightarrow> nat"
  pio_in :: "nat \<Rightarrow> u32 list \<Rightarrow> 's \<Rightarrow> 's"
  pio_out :: "nat \<Rightarrow> 's \<Rightarrow> u32 list"

text \<open>The hardware event queue between the SATA interface and the translation layer.\<close>

record 'q eq_hw =
  eq_insert :: "bool \<Rightarrow> u32 \<Rightarrow> u32 \<Rightarrow> 'q \<Rightarrow> 'q"
  eq_next :: "'q \<Rightarrow> u32 \<times> u32 \<times> 'q"
  eq_status :: "'q \<Rightarrow> u32"

datatype slow_status = SLOW_CMD_STATUS_NONE | SLOW_CMD_STATUS_PENDING | SLOW_CMD_STATUS_BUSY

record slow_cmd_t =
  status :: slow_status
  code :: nat
  sc_lba :: u32
  sc_count :: u32

record sata_context =
  slow_cmd :: slow_cmd_t
  eq_full :: bool
  chs_cur_cylinders :: u16
  chs_cur_heads :: u8
  chs_cur_sectors :: u8
  dma_setup_auto_activate :: bool
  srst :: bool
  write_cache_enabled :: bool
  read_look_ahead_enabled :: bool

text \<open>
  What goes out: \<open>Ctrl2 v fis\<close> is the write of \<open>v\<close> to \<open>SATA_CTRL_2\<close> while the D2H registers hold \<open>fis\<close>;
  \<open>Data_Out\<close> is the sector of a PIO read.
\<close>

datatype sata_out = Ctrl2 u32 "u32 list" | Data_Out "u32 list" | Led_Blink | Primitive bool | Link_Reset

record 's sata =
  h2d_0 :: u32
  h2d_1 :: u32
  h2d_2 :: u32
  h2d_3 :: u32
  phy_status :: u32
  SATA_INT_ENABLE :: u32
  host_data :: "u32 list"
  d2h :: "u32 list"
  SATA_LBA :: u32
  SATA_SECT_CNT :: u32
  SATA_XFER_BYTES :: u32
  SATA_SECT_OFFSET :: u32
  sata_out :: "sata_out list"
  ctx :: sata_context
  g_sata_action_flags :: u32
  num_packet :: int
  packet_rcv_buf_offset :: nat
  ht_identify_data :: "u16 list"
  g_temp_mem :: "u8 list"
  store :: 's

type_synonym 's ata_function = "u32 \<Rightarrow> u32 \<Rightarrow> 's sata \<Rightarrow> 's sata option"

subsection \<open>Constants\<close>

definition MAX_LBA :: nat where "MAX_LBA = NUM_LSECTORS - 1"
definition CHS_MAX_ADDR :: nat where "CHS_MAX_ADDR = 16514064"
definition CHS_HEADS :: nat where
  "CHS_HEADS = (if NUM_LSECTORS - 1 \<le> CHS_MAX_ADDR then (NUM_LSECTORS - 1) div (0x3FFF * 0x3F) else 16)"
definition NCQ_SIZE :: nat where "NCQ_SIZE = 32"

definition B_ERR :: u32 where "B_ERR = 0x01"
definition B_DRQ :: u32 where "B_DRQ = 0x08"
definition B_DRDY :: u32 where "B_DRDY = 0x40"
definition B_IRQ :: u32 where "B_IRQ = 0x40"
definition B_ABRT :: u32 where "B_ABRT = 0x04"
definition B_IDNF :: u32 where "B_IDNF = 0x10"
definition BIT4 :: u32 where "BIT4 = 0x10"
definition FISTYPE_REGISTER_H2D :: u32 where "FISTYPE_REGISTER_H2D = 0x27"
definition FISTYPE_REGISTER_D2H :: u32 where "FISTYPE_REGISTER_D2H = 0x34"
definition FISTYPE_PIO_SETUP :: u32 where "FISTYPE_PIO_SETUP = 0x5F"

definition SEND_NON_DATA_FIS :: u32 where "SEND_NON_DATA_FIS = 0x01"
definition COMPLETE :: u32 where "COMPLETE = 0x20"
definition PIO_READ :: u32 where "PIO_READ = 0x100"
definition CLR_STAT_PIO_SETUP :: u32 where "CLR_STAT_PIO_SETUP = 0x200"
definition DMA_READ :: u32 where "DMA_READ = 0x400"
definition PIO_WRITE :: u32 where "PIO_WRITE = 0x1000"
definition DMA_WRITE :: u32 where "DMA_WRITE = 0x4000"

definition CMD_RECV :: u32 where "CMD_RECV = 0x00000001"
definition REG_FIS_RECV :: u32 where "REG_FIS_RECV = 0x00000002"
definition OPERATION_ERR :: u32 where "OPERATION_ERR = 0x00400040"
definition PHY_ONLINE :: u32 where "PHY_ONLINE = 0x00000080"
definition NCQ_CMD_RECV :: u32 where "NCQ_CMD_RECV = 0x00000200"

lemmas sata_consts = B_ERR_def B_DRQ_def B_DRDY_def B_IRQ_def B_ABRT_def B_IDNF_def BIT4_def FISTYPE_REGISTER_H2D_def
  FISTYPE_REGISTER_D2H_def FISTYPE_PIO_SETUP_def SEND_NON_DATA_FIS_def COMPLETE_def PIO_READ_def CLR_STAT_PIO_SETUP_def
  DMA_READ_def PIO_WRITE_def DMA_WRITE_def CMD_RECV_def REG_FIS_RECV_def OPERATION_ERR_def PHY_ONLINE_def NCQ_CMD_RECV_def

definition ATA_SRST :: nat where "ATA_SRST = 0xFF"
definition ATA_READ_DMA :: nat where "ATA_READ_DMA = 0xC8"
definition ATA_READ_DMA_EXT :: nat where "ATA_READ_DMA_EXT = 0x25"
definition ATA_WRITE_DMA :: nat where "ATA_WRITE_DMA = 0xCA"
definition ATA_WRITE_DMA_EXT :: nat where "ATA_WRITE_DMA_EXT = 0x35"
definition ATA_READ_NATIVE_MAX_ADDRESS_EXT :: nat where "ATA_READ_NATIVE_MAX_ADDRESS_EXT = 0x27"

lemmas ata_codes = ATA_SRST_def ATA_READ_DMA_def ATA_READ_DMA_EXT_def ATA_WRITE_DMA_def ATA_WRITE_DMA_EXT_def
  ATA_READ_NATIVE_MAX_ADDRESS_EXT_def

subsection \<open>Answers to the host\<close>

definition emit :: "sata_out \<Rightarrow> 's sata \<Rightarrow> 's sata" where
  "emit e s = s\<lparr>sata_out := sata_out s @ [e]\<rparr>"

definition set_ctrl_2 :: "u32 \<Rightarrow> 's sata \<Rightarrow> 's sata" where
  "set_ctrl_2 v s = emit (Ctrl2 v (d2h s)) s"

text \<open>\<open>if ((GETREG(SATA_PHY_STATUS) & 0xF0F) != 0x103) return; SETREG(SATA_CTRL_2, SEND_NON_DATA_FIS);\<close>\<close>

definition send_non_data_fis :: "'s sata \<Rightarrow> 's sata" where
  "send_non_data_fis s = (if phy_status s AND 0xF0F \<noteq> 0x103 then s else set_ctrl_2 SEND_NON_DATA_FIS s)"

definition send_status_to_host :: "u32 \<Rightarrow> 's sata \<Rightarrow> 's sata" where
  "send_status_to_host err_code s =
     (let stat = (if err_code = 0 then B_DRDY OR BIT4 else B_DRDY OR BIT4 OR B_ERR)
      in send_non_data_fis (s\<lparr>d2h :=
           [FISTYPE_REGISTER_D2H OR push_bit 8 B_IRQ OR push_bit 16 stat OR push_bit 24 err_code,
            h2d_1 s, h2d_2 s AND 0x00FFFFFF, h2d_3 s AND 0x0000FFFF, 0]\<rparr>))"

text \<open>The PIO set-up FIS of the PIO protocols.\<close>

definition pio_setup_fis :: "'s sata \<Rightarrow> u32 list" where
  "pio_setup_fis s =
     (let stat = B_DRDY OR BIT4 OR B_DRQ; e_status = B_DRDY OR BIT4
      in [FISTYPE_PIO_SETUP OR push_bit 8 B_IRQ OR push_bit 16 stat, h2d_1 s, h2d_2 s AND 0x00FFFFFF,
          push_bit 24 e_status OR (h2d_3 s AND 0x0000FFFF), of_nat BYTES_PER_SECTOR])"

datatype pio_protocol = PIO_H2D | PIO_D2H

definition pio_sector_transfer :: "'s sata_env \<Rightarrow> nat \<Rightarrow> pio_protocol \<Rightarrow> 's sata \<Rightarrow> 's sata" where
  "pio_sector_transfer env dram_address protocol s =
     (let s = s\<lparr>d2h := pio_setup_fis s, SATA_XFER_BYTES := of_nat BYTES_PER_SECTOR\<rparr>
      in if protocol = PIO_D2H
         then emit (Data_Out (pio_out env dram_address (store s))) (set_ctrl_2 (PIO_READ OR CLR_STAT_PIO_SETUP) s)
         else send_status_to_host 0
                ((set_ctrl_2 PIO_WRITE s)\<lparr>store := pio_in env dram_address (host_data s) (store s)\<rparr>))"

subsection \<open>Handlers\<close>

definition ata_check_power_mode :: "'s ata_function" where
  "ata_check_power_mode lba sector_count s =
     Some (send_non_data_fis (s\<lparr>d2h := [FISTYPE_REGISTER_D2H OR push_bit 8 B_IRQ OR push_bit 16 (B_DRDY OR BIT4),
       h2d_1 s, h2d_2 s AND 0x00FFFFFF, 0x000000FF, 0]\<rparr>))"

text \<open>\<open>ftl_flush(); send_status_to_host(0);\<close>, the body of the flush, stand-by and idle commands.\<close>

definition flush_and_ok :: "'s sata_env \<Rightarrow> 's ata_function" where
  "flush_and_ok env lba sector_count s = do { t \<leftarrow> f_flush env (store s); Some (send_status_to_host 0 (s\<lparr>store := t\<rparr>)) }"

definition ata_flush_cache :: "'s sata_env \<Rightarrow> 's ata_function" where "ata_flush_cache = flush_and_ok"
definition ata_standby :: "'s sata_env \<Rightarrow> 's ata_function" where "ata_standby = flush_and_ok"
definition ata_standby_immediate :: "'s sata_env \<Rightarrow> 's ata_function" where "ata_standby_immediate = flush_and_ok"
definition ata_idle :: "'s sata_env \<Rightarrow> 's ata_function" where "ata_idle = flush_and_ok"
definition ata_idle_immediate :: "'s sata_env \<Rightarrow> 's ata_function" where "ata_idle_immediate = flush_and_ok"

definition ata_sleep :: "'s ata_function" where "ata_sleep lba sector_count s = Some (send_status_to_host 0 s)"
definition ata_read_verify_sectors :: "'s ata_function" where "ata_read_verify_sectors lba sector_count s = Some (send_status_to_host 0 s)"
definition ata_set_multiple_mode :: "'s ata_function" where "ata_set_multiple_mode lba sector_count s = Some (send_status_to_host 0 s)"
definition ata_recalibrate :: "'s ata_function" where "ata_recalibrate lba sector_count s = Some (send_status_to_host 0 s)"
definition ata_nop :: "'s ata_function" where "ata_nop lba sector_count s = Some (send_status_to_host B_ABRT s)"
definition ata_not_supported :: "'s ata_function" where "ata_not_supported lba sector_count s = Some (send_status_to_host B_ABRT s)"

text \<open>The value of \<open>g_sata_context\<close> after the switch over the feature code; \<open>None\<close> is an invalid one.\<close>

definition set_feature :: "nat \<Rightarrow> u32 \<Rightarrow> sata_context \<Rightarrow> sata_context option" where
  "set_feature feature sector_count c =
     (if feature = 0x02 then Some (c\<lparr>write_cache_enabled := True\<rparr>)
      else if feature = 0x03 then Some c
      else if feature = 0x10 then Some (if sector_count AND 0xFF = 0x02 then c\<lparr>dma_setup_auto_activate := True\<rparr> else c)
      else if feature = 0x55 then Some (c\<lparr>read_look_ahead_enabled := False\<rparr>)
      else if feature = 0x82 then Some (c\<lparr>write_cache_enabled := False\<rparr>)
      else if feature = 0x90 then Some (if sector_count AND 0xFF = 0x02 then c\<lparr>dma_setup_auto_activate := False\<rparr> else c)
      else if feature = 0xAA then Some (c\<lparr>read_look_ahead_enabled := True\<rparr>)
      else None)"

definition ata_set_features :: "'s ata_function" where
  "ata_set_features lba sector_count s =
     Some (case set_feature (unat (drop_bit 24 (h2d_0 s))) sector_count (ctx s) of
             None \<Rightarrow> send_status_to_host B_ABRT s
           | Some c \<Rightarrow> send_status_to_host 0 (s\<lparr>ctx := c\<rparr>))"

definition ata_seek :: "'s ata_function" where
  "ata_seek lba sector_count s = Some (if of_nat MAX_LBA < lba then send_status_to_host B_IDNF s else send_status_to_host 0 s)"

definition ata_read_native_max_address :: "'s ata_function" where
  "ata_read_native_max_address lba sector_count s =
     (let fis_d0 = FISTYPE_REGISTER_D2H OR push_bit 8 B_IRQ OR push_bit 16 (B_DRDY OR BIT4);
          fis_d1 = h2d_1 s;
          m = (of_nat MAX_LBA :: u32);
          (d1, d2) = (if code (slow_cmd (ctx s)) = ATA_READ_NATIVE_MAX_ADDRESS_EXT
                      then ((fis_d1 AND 0xFF000000) OR (m AND 0x00FFFFFF), drop_bit 24 m)
                      else if \<not> bit fis_d1 30 then (0x003FFF3F OR push_bit 24 (of_nat CHS_HEADS - 1), 0)
                      else ((m AND 0x0FFFFFFF) OR (fis_d1 AND 0xF0000000), 0))
      in Some (send_non_data_fis (s\<lparr>d2h := [fis_d0, d1, d2, h2d_3 s AND 0x0000FFFF, 0]\<rparr>)))"

definition ata_initialize_device_parameters :: "'s ata_function" where
  "ata_initialize_device_parameters lba sector_count s =
     Some (if sector_count AND 0xFF = 0 then send_status_to_host B_ABRT s
           else
             (let heads = ucast (drop_bit 24 (h2d_1 s AND 0x0F000000) + 1) :: u8;
                  sectors = ucast (sector_count AND 0xFF) :: u8;
                  top = (if CHS_MAX_ADDR \<le> MAX_LBA then CHS_MAX_ADDR else MAX_LBA)
              in send_status_to_host 0 (s\<lparr>ctx := (ctx s)\<lparr>chs_cur_heads := heads, chs_cur_sectors := sectors,
                   chs_cur_cylinders := of_nat (min (top div (unat heads * unat sectors)) 65535)\<rparr>\<rparr>)))"

definition ata_srst :: "'s ata_function" where
  "ata_srst lba sector_count s =
     Some (send_non_data_fis (s\<lparr>d2h := [0x01500000 OR push_bit 14 (if lba \<noteq> 0 then 1 else 0) OR FISTYPE_REGISTER_D2H, 1, 0, 1, 0]\<rparr>))"

definition ata_execute_drive_diagnostics :: "'s ata_function" where
  "ata_execute_drive_diagnostics lba sector_count s = ata_srst 1 0 s"

text \<open>The buffer commands carry the in-storage command and its answer.\<close>

definition ata_read_buffer :: "'s sata_env \<Rightarrow> 's ata_function" where
  "ata_read_buffer env lba sector_count s = do {
     t \<leftarrow> f_copy env HIL_BUF_ADDR ISSD_CMD_BUFFER_ADDR BYTES_PER_PAGE (store s);
     Some (pio_sector_transfer env HIL_BUF_ADDR PIO_D2H (s\<lparr>store := t\<rparr>)) }"

definition ata_write_buffer :: "'s sata_env \<Rightarrow> 's ata_function" where
  "ata_write_buffer env lba sector_count s = do {
     let s = pio_sector_transfer env (wrap32 (HIL_BUF_ADDR + packet_rcv_buf_offset s)) PIO_H2D s;
     s \<leftarrow> (if num_packet s = 0 then do { n \<leftarrow> f_rd32 env HIL_BUF_ADDR (store s); Some (s\<lparr>num_packet := int32 (int n)\<rparr>) } else Some s);
     let s = s\<lparr>num_packet := int32 (num_packet s - 1), packet_rcv_buf_offset := wrap32 (packet_rcv_buf_offset s + 512)\<rparr>;
     if num_packet s = 0 then do {
       let s = s\<lparr>packet_rcv_buf_offset := 0\<rparr>;
       t \<leftarrow> f_copy env ISSD_CMD_BUFFER_ADDR HIL_BUF_ADDR BYTES_PER_PAGE (store s);
       t \<leftarrow> f_process env t;
       Some (s\<lparr>store := t\<rparr>) }
     else Some s }"

subsection \<open>Device identification\<close>

definition ht_identify_init :: "u16 list" where
  "ht_identify_init = [0x0C5A, 0x3FFF, 0xC837, of_nat CHS_HEADS, 0, 0, 0x003F, 0, 0, 0] @ replicate 10 0 @ [0, 0xFFFF, 0x3000]
     @ replicate 4 0 @ replicate 20 0 @ [0x8001, 0, 0x2F00, 0x4000, 0x0200, 0x0200, 0x0007, 0x3FFF, 0x0010, 0x003F, 0xFC10, 0x00FB,
       0x0101, 0xFFFF, 0x0FFF, 0, 0x0407, 0x0003, 120, 120, 120, 120, 0, 0, 0, 0, 0, 0, of_nat NCQ_SIZE - 1, 0x0006, 0, 0x0014, 0x0010,
       0x01E0, 0, 0x3068, 0x7400, 0x4000, 0x3060, 0x3400, 0x4000, 0x007F, 0] @ replicate 166 0"

definition get_integrity_word :: "u8 list \<Rightarrow> u16" where
  "get_integrity_word mem =
     (let checksum = (\<Sum>b\<leftarrow>take (BYTES_PER_SECTOR - 2) mem. b) + 0xA5
      in push_bit 8 (NOT (ucast checksum) + 1) OR 0xA5)"

text \<open>\<open>fill\<close> is \<open>fill_space\<close>; a character position behind the text reads its terminator.\<close>

definition src_char :: "string \<Rightarrow> nat \<Rightarrow> u16" where
  "src_char src k = (if k < length src then of_char (src ! k) else 0)"

fun set_string_loop :: "string \<Rightarrow> bool \<Rightarrow> nat list \<Rightarrow> u16 list" where
  "set_string_loop src fill [] = []"
| "set_string_loop src fill (i # is) =
     (if fill then 0x2020 # set_string_loop src True is
      else if src_char src (i * 2) = 0 then 0x2020 # set_string_loop src True is
      else if src_char src (i * 2 + 1) = 0 then (0x20 OR push_bit 8 (src_char src (i * 2))) # set_string_loop src True is
      else (src_char src (i * 2 + 1) OR push_bit 8 (src_char src (i * 2))) # set_string_loop src False is)"

definition set_string_data :: "nat \<Rightarrow> string \<Rightarrow> nat \<Rightarrow> u16 list \<Rightarrow> u16 list" where
  "set_string_data at src n addr = take at addr @ set_string_loop src False [0..<n] @ drop (at + n) addr"

definition identify_words :: "sata_context \<Rightarrow> u8 list \<Rightarrow> u16 list \<Rightarrow> u16 list" where
  "identify_words c mem addr =
     (let addr = set_string_data 10 ''0123456789'' 10 addr;
          addr = set_string_data 23 ''0001'' 4 addr;
          addr = set_string_data 27 ''OpenSSD Jasmine     '' 20 addr;
          addr = addr[54 := chs_cur_cylinders c, 55 := ucast (chs_cur_heads c), 56 := ucast (chs_cur_sectors c)];
          capacity = (ucast (chs_cur_cylinders c) * ucast (chs_cur_heads c) * ucast (chs_cur_sectors c) :: u32);
          addr = addr[57 := ucast (capacity AND 0xFFFF), 58 := ucast (drop_bit 16 capacity)];
          addr = (if 0x0FFFFFFF \<le> NUM_LSECTORS then addr[60 := 0xFFFF, 61 := 0x0FFF]
                  else addr[60 := of_nat NUM_LSECTORS, 61 := of_nat (NUM_LSECTORS div 65536)]);
          addr = (if dma_setup_auto_activate c then addr[79 := addr ! 79 OR 4] else addr);
          addr = addr[100 := of_nat NUM_LSECTORS, 101 := of_nat (NUM_LSECTORS div 65536), 106 := 0x4000, 217 := 0x0001]
      in addr[255 := get_integrity_word mem])"

definition ata_identify_device :: "'s sata_env \<Rightarrow> 's ata_function" where
  "ata_identify_device env lba sector_count s = do {
     let addr = identify_words (ctx s) (g_temp_mem s) (ht_identify_data s);
     t \<leftarrow> f_put env HIL_BUF_ADDR addr (store s);
     Some (pio_sector_transfer env HIL_BUF_ADDR PIO_D2H (s\<lparr>ht_identify_data := addr, store := t\<rparr>)) }"

definition ata_function_table :: "'s sata_env \<Rightarrow> 's ata_function option list" where
  "ata_function_table env = [
     Some ata_nop, None, None, Some ata_recalibrate, None, None,
     None, None, Some ata_read_native_max_address, None, None, None,
     None, None, None, None, Some ata_read_verify_sectors, Some ata_read_verify_sectors,
     Some ata_seek, Some ata_execute_drive_diagnostics, Some ata_initialize_device_parameters, None, Some (ata_standby_immediate env), Some (ata_idle_immediate env),
     Some (ata_standby env), Some (ata_idle env), Some ata_check_power_mode, Some ata_sleep, None, None,
     None, None, None, None, Some ata_set_multiple_mode, None,
     Some (ata_standby_immediate env), Some (ata_idle_immediate env), Some (ata_standby env), Some (ata_idle env), Some (ata_read_buffer env), Some ata_check_power_mode,
     Some ata_sleep, Some (ata_flush_cache env), Some (ata_write_buffer env), Some (ata_flush_cache env), Some (ata_identify_device env), Some ata_set_features,
     None, None, None, None, None, None,
     Some ata_read_native_max_address, None, None, None, Some ata_srst]"

definition search_ata_function :: "'s sata_env \<Rightarrow> nat \<Rightarrow> 's ata_function" where
  "search_ata_function env command_code =
     (let i = f_search env ata_command_code_table command_code
      in if i = CMD_TABLE_SIZE then ata_not_supported
         else (case ata_function_table env ! i of None \<Rightarrow> ata_not_supported | Some f \<Rightarrow> f))"


text \<open>A state of the interface after \<open>sata_reset\<close>.\<close>

definition ctx0 :: sata_context where
  "ctx0 = \<lparr>slow_cmd = \<lparr>status = SLOW_CMD_STATUS_NONE, code = 0, sc_lba = 0, sc_count = 0\<rparr>, eq_full = False, chs_cur_cylinders = 0,
     chs_cur_heads = 0, chs_cur_sectors = 0, dma_setup_auto_activate = False, srst = False, write_cache_enabled = True,
     read_look_ahead_enabled = True\<rparr>"

definition sata0 :: "'s \<Rightarrow> 's sata" where
  "sata0 t = \<lparr>h2d_0 = 0, h2d_1 = 0, h2d_2 = 0, h2d_3 = 0, phy_status = 0x103, SATA_INT_ENABLE = 0x283, host_data = [],
     d2h = [0, 0, 0, 0, 0], SATA_LBA = 0, SATA_SECT_CNT = 0, SATA_XFER_BYTES = 0, SATA_SECT_OFFSET = 0, sata_out = [], ctx = ctx0,
     g_sata_action_flags = 0, num_packet = 0, packet_rcv_buf_offset = 0, ht_identify_data = ht_identify_init,
     g_temp_mem = replicate BYTES_PER_SECTOR 0, store = t\<rparr>"

text \<open>A layer that logs its calls, for the examples.\<close>

definition log_env :: "(bool \<times> nat \<times> nat) list sata_env" where
  "log_env = \<lparr>f_read = \<lambda>l c t. Some (t @ [(False, l, c)]), f_write = \<lambda>l c t. Some (t @ [(True, l, c)]), f_flush = Some, f_process = Some,
     f_copy = \<lambda>d s n t. Some t, f_put = \<lambda>a ws t. Some t, f_rd32 = \<lambda>a t. Some 1, f_search = \<lambda>xs v. length (takeWhile (\<lambda>x. x \<noteq> v) xs),
     pio_in = \<lambda>a ws t. t, pio_out = \<lambda>a t. []\<rparr>"

subsection \<open>Dispatch of the slow commands\<close>

definition search_ok :: "'s sata_env \<Rightarrow> bool" where
  "search_ok env \<longleftrightarrow> (\<forall>xs v. f_search env xs v = length (takeWhile (\<lambda>x. x \<noteq> v) xs))"

lemma first_index_map_of:
  "distinct (take (length ys) xs) \<Longrightarrow> length ys \<le> length xs \<Longrightarrow>
     (if length (takeWhile (\<lambda>x. x \<noteq> v) xs) < length ys then Some (ys ! length (takeWhile (\<lambda>x. x \<noteq> v) xs)) else None) = map_of (zip xs ys) v"
proof (induction xs arbitrary: ys)
  case (Cons x xs)
  note ih = Cons.IH and pr = Cons.prems
  show ?case
  proof (cases ys)
    case (Cons y ys')
    then show ?thesis using ih [of ys'] pr by (auto split: if_splits)
  qed simp
qed simp

lemma code_table_shape:
  "length ata_command_code_table = 60" "length (ata_function_table env) = 59" "distinct (take 59 ata_command_code_table)"
  "ata_command_code_table = take 59 ata_command_code_table @ [0xFF]" "0xFF \<in> set (take 59 ata_command_code_table)"
  by (simp_all add: ata_command_code_table_def ata_function_table_def)

text \<open>
  The search finds the handler of every command: it is the entry of \<open>ata_function_table\<close> beside the
  command's code in \<open>ata_command_code_table\<close>, and a command without an entry, or with an empty one, is
  answered with an abort; the two tables fit although their lengths differ, because the filling entry is
  never the first one found.
\<close>

theorem dispatch_by_table:
  assumes "search_ok env"
  shows "search_ata_function env c = (case map_of (zip ata_command_code_table (ata_function_table env)) c of
     Some (Some f) \<Rightarrow> f | _ \<Rightarrow> ata_not_supported)"
proof -
  let ?xs = ata_command_code_table and ?i = "length (takeWhile (\<lambda>x. x \<noteq> c) ata_command_code_table)"
  note sh = code_table_shape(1) code_table_shape(2) [of env] code_table_shape(3-5)
  have "?i \<noteq> 59"
  proof
    assume i: "?i = 59"
    then have "takeWhile (\<lambda>x. x \<noteq> c) ?xs = take 59 ?xs" by (metis takeWhile_eq_take)
    moreover have "?xs ! 59 = 0xFF" by (simp add: ata_command_code_table_def)
    ultimately have "c = 0xFF" using nth_length_takeWhile [of "\<lambda>x. x \<noteq> c" ?xs] i sh(1) by simp
    moreover have "0xFF \<in> set (takeWhile (\<lambda>x. x \<noteq> c) ?xs)" using \<open>takeWhile _ ?xs = _\<close> sh(5) by simp
    ultimately show False using set_takeWhileD by fastforce
  qed
  moreover have "?i \<le> 60" using length_takeWhile_le [of "\<lambda>x. x \<noteq> c" ?xs] sh(1) by simp
  ultimately consider "?i = 60" | "?i < 59" by linarith
  then show ?thesis
  proof cases
    case 1
    then show ?thesis using first_index_map_of [of "ata_function_table env" ?xs c] assms
      by (simp add: search_ata_function_def search_ok_def CMD_TABLE_SIZE_def sh(1-3))
  next
    case 2
    then show ?thesis using first_index_map_of [of "ata_function_table env" ?xs c] assms
      by (auto simp: search_ata_function_def search_ok_def CMD_TABLE_SIZE_def sh(1-3) Let_def split: option.splits)
  qed
qed

theorem dispatch_by_table_witness:
  "search_ata_function log_env 0xE8 = ata_write_buffer log_env \<and> search_ata_function log_env 0xB0 = ata_not_supported"
proof -
  have ok: "search_ok log_env" by (simp add: search_ok_def log_env_def)
  show ?thesis unfolding dispatch_by_table [OF ok] by (simp add: ata_command_code_table_def ata_function_table_def)
qed

subsection \<open>The identification sector\<close>

definition word_bytes :: "u16 \<Rightarrow> u8 list" where
  "word_bytes w = [ucast w, ucast (drop_bit 8 w)]"

lemma integrity_bytes:
  fixes c :: u8 and w :: u16
  assumes "w = push_bit 8 (NOT (ucast c) + 1) OR 0xA5"
  shows "(ucast w :: u8) = 0xA5" "(ucast (drop_bit 8 w) :: u8) = - c"
proof -
  have n: "NOT (ucast c) + 1 = - (ucast c :: u16)" by (simp add: minus_eq_not_plus_1)
  show "(ucast w :: u8) = 0xA5" unfolding assms
    by (rule bit_word_eqI) (auto simp: bit_simps)
  have "drop_bit 8 w = take_bit 8 (- (ucast c :: u16))" unfolding assms n
    by (rule bit_word_eqI) (auto simp: bit_simps)
  then have "(ucast (drop_bit 8 w) :: u8) = ucast (- (ucast c :: u16))"
    by (simp only:) (rule bit_word_eqI, auto simp: bit_simps)
  also have "\<dots> = - c" by (simp add: word_eq_iff_unsigned [where ?'a = int] unsigned_ucast_eq uint_word_ariths take_bit_eq_mod) (simp add: mod_mod_cancel mod_minus_eq)
  finally show "(ucast (drop_bit 8 w) :: u8) = - c" .
qed


definition byte_sum :: "u16 list \<Rightarrow> u8" where
  "byte_sum ws = sum_list (List.map (\<lambda>w. sum_list (word_bytes w)) ws)"

lemma byte_sum_update: "i < length ws \<Longrightarrow> byte_sum (ws[i := w]) = byte_sum ws - sum_list (word_bytes (ws ! i)) + sum_list (word_bytes w)"
proof (induction ws arbitrary: i)
  case (Cons v ws)
  then show ?case by (cases i) (simp_all add: byte_sum_def)
qed simp

lemma set_string_loop_length [simp]: "length (set_string_loop src fill is) = length is"
  by (induction src fill "is" rule: set_string_loop.induct) simp_all

lemma identify_length: "length addr = 256 \<Longrightarrow> length (identify_words c mem addr) = 256"
  by (simp add: identify_words_def Let_def set_string_data_def)

text \<open>
  The integrity word of the identification sector makes 512 bytes sum up to zero, the signature byte 0xA5
  included, when the checksum is computed over the other 510; but it is computed over the scratch memory and
  not over the sector that is sent: the word is the same whatever the sector holds, and of the sectors for
  one head and for none at least one does not sum up to zero.
\<close>

theorem identify_integrity:
  assumes "length addr = 256"
  shows "(let w = get_integrity_word mem in sum_list (take (BYTES_PER_SECTOR - 2) mem @ word_bytes w) = 0 \<and> hd (word_bytes w) = 0xA5)
    \<and> identify_words c mem addr ! 255 = get_integrity_word mem
    \<and> (byte_sum (identify_words ctx0 mem addr) \<noteq> 0 \<or> byte_sum (identify_words (ctx0\<lparr>chs_cur_heads := 1\<rparr>) mem addr) \<noteq> 0)"
proof -
  let ?x = "identify_words ctx0 mem addr"
  note n = identify_length [OF assms, of _ mem]
  have i: "identify_words c mem addr ! 255 = get_integrity_word mem"
    using n [of c] by (simp add: identify_words_def Let_def)
  have x: "?x ! 55 = 0" by (simp add: identify_words_def Let_def ctx0_def set_string_data_def assms geom)
  have "identify_words (ctx0\<lparr>chs_cur_heads := 1\<rparr>) mem addr = ?x[55 := 1]"
  proof (rule nth_equalityI)
    show "length (identify_words (ctx0\<lparr>chs_cur_heads := 1\<rparr>) mem addr) = length (?x[55 := 1])" by (simp add: n)
    fix j assume "j < length (identify_words (ctx0\<lparr>chs_cur_heads := 1\<rparr>) mem addr)"
    then have j: "j < 256" by (simp add: n)
    show "identify_words (ctx0\<lparr>chs_cur_heads := 1\<rparr>) mem addr ! j = ?x[55 := 1] ! j"
      using j by (simp add: identify_words_def Let_def ctx0_def set_string_data_def assms nth_list_update geom)
  qed
  then have "byte_sum (identify_words (ctx0\<lparr>chs_cur_heads := 1\<rparr>) mem addr) = byte_sum ?x + 1"
    using byte_sum_update [of 55 ?x 1] by (simp add: n x word_bytes_def)
  then have "byte_sum ?x \<noteq> 0 \<or> byte_sum (identify_words (ctx0\<lparr>chs_cur_heads := 1\<rparr>) mem addr) \<noteq> 0" by auto
  then show ?thesis using i integrity_bytes [OF refl, of "sum_list (take (BYTES_PER_SECTOR - 2) mem) + 0xA5"]
    by (simp add: Let_def get_integrity_word_def word_bytes_def)
qed

theorem identify_integrity_witness:
  "\<exists>mem. identify_words ctx0 mem ht_identify_init ! 255 = get_integrity_word mem
   \<and> (byte_sum (identify_words ctx0 mem ht_identify_init) \<noteq> 0
      \<or> byte_sum (identify_words (ctx0\<lparr>chs_cur_heads := 1\<rparr>) mem ht_identify_init) \<noteq> 0)"
proof -
  have "length ht_identify_init = 256" by (simp add: ht_identify_init_def)
  from identify_integrity [OF this, of "replicate 512 0" ctx0] show ?thesis by blast
qed

subsection \<open>The packets of an in-storage command\<close>

text \<open>The device takes the packets one after the other; \<open>packets ws n\<close> are the first \<open>n\<close> sectors of the words \<open>ws\<close>.\<close>

fun receive_all :: "'s sata_env \<Rightarrow> u32 list list \<Rightarrow> 's sata \<Rightarrow> 's sata option" where
  "receive_all env [] s = Some s"
| "receive_all env (p # ps) s = do { s \<leftarrow> ata_write_buffer env 0 0 (s\<lparr>host_data := p\<rparr>); receive_all env ps s }"

definition sector_of :: "u32 list \<Rightarrow> nat \<Rightarrow> u32 list" where
  "sector_of ws i = take 128 (drop (i * 128) ws)"

lemma sector_of_nth: "length ws = 128 * n \<Longrightarrow> k < n \<Longrightarrow> j < 128 \<Longrightarrow> sector_of ws k ! j = ws ! (128 * k + j)"
  by (simp add: sector_of_def mult.commute)

text \<open>
  What the buffer commands need of the memory: a received sector goes to its place in the buffer of the host
  interface, the first word can be read, and the block copy moves the buffer to the command buffer; \<open>obs\<close>
  is what the translation layer sees of the state.
\<close>

locale command_buffer =
  fixes env :: "'s sata_env" and inv :: "'s \<Rightarrow> bool" and mem :: "'s \<Rightarrow> nat \<Rightarrow> u32" and obs :: "'s \<Rightarrow> 'o"
  assumes receive: "inv t \<Longrightarrow> k < 64 \<Longrightarrow> length p = 128 \<Longrightarrow>
      inv (pio_in env (HIL_BUF_ADDR + 512 * k) p t) \<and> obs (pio_in env (HIL_BUF_ADDR + 512 * k) p t) = obs t
      \<and> (\<forall>i < 8192. mem (pio_in env (HIL_BUF_ADDR + 512 * k) p t) (HIL_BUF_ADDR + 4 * i)
           = (if 128 * k \<le> i \<and> i < 128 * (k + 1) then p ! (i - 128 * k) else mem t (HIL_BUF_ADDR + 4 * i)))"
    and first_word: "inv t \<Longrightarrow> f_rd32 env HIL_BUF_ADDR t = Some (unat (mem t HIL_BUF_ADDR))"
    and copy: "inv t \<Longrightarrow> \<exists>t'. f_copy env ISSD_CMD_BUFFER_ADDR HIL_BUF_ADDR BYTES_PER_PAGE t = Some t' \<and> inv t' \<and> obs t' = obs t
      \<and> (\<forall>i < 8192. mem t' (ISSD_CMD_BUFFER_ADDR + 4 * i) = mem t (HIL_BUF_ADDR + 4 * i))"
begin

lemma write_buffer_step:
  assumes i: "inv (store s)" and n: "length ws = 128 * n" "k < n" "n \<le> 64" "unat (ws ! 0) = n"
    and st: "packet_rcv_buf_offset s = 512 * k" "num_packet s = (if k = 0 then 0 else int n - int k)"
    and f: "\<And>j. j < 128 * k \<Longrightarrow> mem (store s) (HIL_BUF_ADDR + 4 * j) = ws ! j"
  shows "\<exists>t. inv t \<and> obs t = obs (store s) \<and> (\<forall>j < 128 * (k + 1). mem t (HIL_BUF_ADDR + 4 * j) = ws ! j)
    \<and> (if k + 1 < n
       then \<exists>s'. ata_write_buffer env a b (s\<lparr>host_data := sector_of ws k\<rparr>) = Some s' \<and> store s' = t
            \<and> packet_rcv_buf_offset s' = 512 * (k + 1) \<and> num_packet s' = int n - int (k + 1)
       else \<exists>t1. inv t1 \<and> obs t1 = obs t \<and> (\<forall>j < 8192. mem t1 (ISSD_CMD_BUFFER_ADDR + 4 * j) = mem t (HIL_BUF_ADDR + 4 * j))
            \<and> (case f_process env t1 of
                 None \<Rightarrow> ata_write_buffer env a b (s\<lparr>host_data := sector_of ws k\<rparr>) = None
               | Some t2 \<Rightarrow> \<exists>s'. ata_write_buffer env a b (s\<lparr>host_data := sector_of ws k\<rparr>) = Some s' \<and> store s' = t2
                   \<and> packet_rcv_buf_offset s' = 0 \<and> num_packet s' = 0))"
proof -
  let ?t = "pio_in env (HIL_BUF_ADDR + 512 * k) (sector_of ws k) (store s)"
  let ?s = "pio_sector_transfer env (HIL_BUF_ADDR + 512 * k) PIO_H2D (s\<lparr>host_data := sector_of ws k\<rparr>)"
  have len: "length (sector_of ws k) = 128" using n by (simp add: sector_of_def)
  have k: "k < 64" using n by simp
  note r = receive [OF i k len]
  have sv: "store ?s = ?t" "packet_rcv_buf_offset ?s = 512 * k" "num_packet ?s = num_packet s"
    by (simp_all add: pio_sector_transfer_def Let_def send_status_to_host_def send_non_data_fis_def set_ctrl_2_def emit_def st)
  have fill: "\<forall>j < 128 * (k + 1). mem ?t (HIL_BUF_ADDR + 4 * j) = ws ! j"
  proof (intro allI impI)
    fix j assume j: "j < 128 * (k + 1)"
    then have "j < 8192" using n by simp
    with r have m: "mem ?t (HIL_BUF_ADDR + 4 * j)
        = (if 128 * k \<le> j \<and> j < 128 * (k + 1) then sector_of ws k ! (j - 128 * k) else mem (store s) (HIL_BUF_ADDR + 4 * j))" by blast
    show "mem ?t (HIL_BUF_ADDR + 4 * j) = ws ! j"
    proof (cases "128 * k \<le> j")
      case True
      then show ?thesis using m j sector_of_nth [OF n(1,2), of "j - 128 * k"] by simp
    next
      case False
      then show ?thesis using m f [of j] by simp
    qed
  qed
  have w: "wrap32 (HIL_BUF_ADDR + 512 * k) = HIL_BUF_ADDR + 512 * k" "wrap32 (512 * k + 512) = 512 * (k + 1)"
    using k by (simp_all add: wrap32_def geom)
  have "mem ?t HIL_BUF_ADDR = ws ! 0" using fill [rule_format, of 0] by simp
  then have np: "f_rd32 env HIL_BUF_ADDR ?t = Some n" using first_word [of ?t] r n(4) by simp
  have i32: "int32 (int n) = int n" "int32 (int n - int k - 1) = int n - int k - 1" using n by (simp_all add: int32_id)
  let ?s1 = "?s\<lparr>num_packet := int n - int k - 1, packet_rcv_buf_offset := 512 * (k + 1)\<rparr>"
  have a0: "wrap32 (HIL_BUF_ADDR + packet_rcv_buf_offset (s\<lparr>host_data := sector_of ws k\<rparr>)) = HIL_BUF_ADDR + 512 * k"
    by (simp add: st w)
  obtain S where S: "?s = S" by simp
  have u: "ata_write_buffer env a b (s\<lparr>host_data := sector_of ws k\<rparr>) =
     (if int n - int k - 1 = 0 then do {
        t \<leftarrow> f_copy env ISSD_CMD_BUFFER_ADDR HIL_BUF_ADDR BYTES_PER_PAGE ?t;
        t \<leftarrow> f_process env t;
        Some (?s1\<lparr>packet_rcv_buf_offset := 0, store := t\<rparr>) }
      else Some ?s1)"
    unfolding ata_write_buffer_def a0 Let_def S using sv [unfolded S] st n np i32 w
    by (cases "k = 0") (simp_all add: int32_id [of 0] del: mult_Suc_right)
  obtain t1 where c: "f_copy env ISSD_CMD_BUFFER_ADDR HIL_BUF_ADDR BYTES_PER_PAGE ?t = Some t1" "inv t1" "obs t1 = obs ?t"
    "\<forall>j < 8192. mem t1 (ISSD_CMD_BUFFER_ADDR + 4 * j) = mem ?t (HIL_BUF_ADDR + 4 * j)" using copy [of ?t] r by blast
  show ?thesis
  proof (cases "k + 1 < n")
    case True
    then have "int n - int k - 1 \<noteq> 0" by simp
    then show ?thesis using True r fill unfolding u by (intro exI [of _ ?t]) (simp add: sv)
  next
    case False
    then have z: "int n - int k - 1 = 0" using n(2) by simp
    show ?thesis using False r fill c unfolding u if_P [OF z]
      by (intro exI [of _ ?t]) (auto intro!: exI [of _ t1] simp: sv z split: option.split)
  qed
qed

lemma receive_from:
  assumes "inv (store s)" and n: "length ws = 128 * n" "k < n" "n \<le> 64" "unat (ws ! 0) = n"
    and "packet_rcv_buf_offset s = 512 * k" "num_packet s = (if k = 0 then 0 else int n - int k)"
    and "\<And>j. j < 128 * k \<Longrightarrow> mem (store s) (HIL_BUF_ADDR + 4 * j) = ws ! j"
  shows "\<exists>t. inv t \<and> obs t = obs (store s) \<and> (\<forall>j < 128 * n. mem t (ISSD_CMD_BUFFER_ADDR + 4 * j) = ws ! j)
    \<and> (case f_process env t of
         None \<Rightarrow> receive_all env (List.map (sector_of ws) [k..<n]) s = None
       | Some t' \<Rightarrow> \<exists>s'. receive_all env (List.map (sector_of ws) [k..<n]) s = Some s' \<and> store s' = t' \<and> num_packet s' = 0
           \<and> packet_rcv_buf_offset s' = 0)"
  using assms(1,3,6-8)
proof (induction "n - k" arbitrary: k s)
  case 0
  then show ?case by simp
next
  case (Suc m)
  have kn: "k < n" by (rule Suc.prems(2))
  have ups: "[k..<n] = k # [k + 1..<n]" using kn by (simp add: upt_conv_Cons)
  obtain t where t: "inv t" "obs t = obs (store s)" "\<forall>j < 128 * (k + 1). mem t (HIL_BUF_ADDR + 4 * j) = ws ! j"
    and br: "if k + 1 < n
       then \<exists>s'. ata_write_buffer env 0 0 (s\<lparr>host_data := sector_of ws k\<rparr>) = Some s' \<and> store s' = t
            \<and> packet_rcv_buf_offset s' = 512 * (k + 1) \<and> num_packet s' = int n - int (k + 1)
       else \<exists>t1. inv t1 \<and> obs t1 = obs t \<and> (\<forall>j < 8192. mem t1 (ISSD_CMD_BUFFER_ADDR + 4 * j) = mem t (HIL_BUF_ADDR + 4 * j))
            \<and> (case f_process env t1 of
                 None \<Rightarrow> ata_write_buffer env 0 0 (s\<lparr>host_data := sector_of ws k\<rparr>) = None
               | Some t2 \<Rightarrow> \<exists>s'. ata_write_buffer env 0 0 (s\<lparr>host_data := sector_of ws k\<rparr>) = Some s' \<and> store s' = t2
                   \<and> packet_rcv_buf_offset s' = 0 \<and> num_packet s' = 0)"
    using write_buffer_step [OF Suc.prems(1) n(1) kn n(3,4) Suc.prems(3,4,5), of 0 0] by blast
  show ?case
  proof (cases "k + 1 < n")
    case True
    with br obtain s' where s': "ata_write_buffer env 0 0 (s\<lparr>host_data := sector_of ws k\<rparr>) = Some s'" "store s' = t"
      "packet_rcv_buf_offset s' = 512 * (k + 1)" "num_packet s' = int n - int (k + 1)" by auto
    have "\<exists>t'. inv t' \<and> obs t' = obs (store s') \<and> (\<forall>j < 128 * n. mem t' (ISSD_CMD_BUFFER_ADDR + 4 * j) = ws ! j)
      \<and> (case f_process env t' of
           None \<Rightarrow> receive_all env (List.map (sector_of ws) [k + 1..<n]) s' = None
         | Some t'' \<Rightarrow> \<exists>s''. receive_all env (List.map (sector_of ws) [k + 1..<n]) s' = Some s'' \<and> store s'' = t'' \<and> num_packet s'' = 0
             \<and> packet_rcv_buf_offset s'' = 0)"
      by (rule Suc.hyps(1)) (use Suc.hyps(2) True t s' in \<open>simp_all\<close>)
    then have ih: "\<exists>t'. inv t' \<and> obs t' = obs (store s) \<and> (\<forall>j < 128 * n. mem t' (ISSD_CMD_BUFFER_ADDR + 4 * j) = ws ! j)
      \<and> (case f_process env t' of
           None \<Rightarrow> receive_all env (List.map (sector_of ws) [k + 1..<n]) s' = None
         | Some t'' \<Rightarrow> \<exists>s''. receive_all env (List.map (sector_of ws) [k + 1..<n]) s' = Some s'' \<and> store s'' = t'' \<and> num_packet s'' = 0
             \<and> packet_rcv_buf_offset s'' = 0)" unfolding s'(2) t(2) .
    have rc: "receive_all env (List.map (sector_of ws) (k # [k + 1..<n])) s = receive_all env (List.map (sector_of ws) [k + 1..<n]) s'"
      using s'(1) by simp
    show ?thesis unfolding ups rc by (rule ih)
  next
    case False
    then have last: "k + 1 = n" using kn by simp
    from br False obtain t1 where t1: "inv t1" "obs t1 = obs t" "\<forall>j < 8192. mem t1 (ISSD_CMD_BUFFER_ADDR + 4 * j) = mem t (HIL_BUF_ADDR + 4 * j)"
      "case f_process env t1 of
         None \<Rightarrow> ata_write_buffer env 0 0 (s\<lparr>host_data := sector_of ws k\<rparr>) = None
       | Some t2 \<Rightarrow> \<exists>s'. ata_write_buffer env 0 0 (s\<lparr>host_data := sector_of ws k\<rparr>) = Some s' \<and> store s' = t2
           \<and> packet_rcv_buf_offset s' = 0 \<and> num_packet s' = 0" by auto
    have e: "[k + 1..<n] = []" using last by simp
    have "\<forall>j < 128 * n. mem t1 (ISSD_CMD_BUFFER_ADDR + 4 * j) = ws ! j" using t(3) t1(3) n(3) last by auto
    then show ?thesis unfolding ups e using t1 t(2)
      by (intro exI [of _ t1]) (cases "f_process env t1", auto)
  qed
qed

end

text \<open>
  The handlers on the tutorial layer: \<open>pio\<close> is what a received sector does to the DRAM. The law of the PIO
  data phase is that the 128 words of the sector are stored at the given address and nothing else is.
\<close>

definition pio_ok :: "(nat \<Rightarrow> u32 list \<Rightarrow> dram \<Rightarrow> dram) \<Rightarrow> bool" where
  "pio_ok pio \<longleftrightarrow> (\<forall>a p d. (\<forall>i < 128. pio a p d (a + 4 * i) = p ! i) \<and> (\<forall>b. b < a \<or> a + 512 \<le> b \<longrightarrow> pio a p d b = d b))"

definition pio_ref :: "nat \<Rightarrow> u32 list \<Rightarrow> dram \<Rightarrow> dram" where
  "pio_ref a p d = (\<lambda>b. if a \<le> b \<and> b < a + 512 \<and> (b - a) mod 4 = 0 then p ! ((b - a) div 4) else d b)"

lemma pio_ref_ok: "pio_ok pio_ref"
  by (simp add: pio_ok_def pio_ref_def)

definition dram_put :: "nat \<Rightarrow> u16 list \<Rightarrow> dram \<Rightarrow> dram" where
  "dram_put a ws d = (\<lambda>b. if a \<le> b \<and> b < a + 2 * length ws \<and> (b - a) mod 4 = 0
     then ucast (ws ! ((b - a) div 2)) OR push_bit 16 (ucast (ws ! ((b - a) div 2 + 1))) else d b)"

definition tut_sata :: "flash_hw \<Rightarrow> (nat \<Rightarrow> u32 list \<Rightarrow> dram \<Rightarrow> dram) \<Rightarrow> (nat list \<Rightarrow> nat \<Rightarrow> nat) \<Rightarrow> tstate sata_env" where
  "tut_sata hw pio search =
     \<lparr>f_read = ftl_read hw, f_write = ftl_write hw, f_flush = \<lambda>t. Some (ftl_flush t), f_process = issd_process_cmd (tut_dev hw),
      f_copy = \<lambda>d s n t. map_option (\<lambda>m. set_dram m t) (dram_move d s n (tdram t)),
      f_put = \<lambda>a ws t. Some (set_dram (dram_put a ws (tdram t)) t), f_rd32 = \<lambda>a t. rd32 a (tdram t), f_search = search,
      pio_in = \<lambda>a p t. set_dram (pio a p (tdram t)) t, pio_out = \<lambda>a t. List.map (\<lambda>i. tdram t (a + 4 * i)) [0..<128]\<rparr>"

text \<open>What the translation layer sees: flash, allocation, and its tables in DRAM.\<close>

definition tut_obs :: "tstate \<Rightarrow> (nat \<Rightarrow> nat \<Rightarrow> nat \<Rightarrow> u32) \<times> (nat \<Rightarrow> nat) \<times> nat \<times> (nat \<Rightarrow> nat) \<times> (nat \<Rightarrow> u32)" where
  "tut_obs s = (pages (nand (fl s)), g_target_row s, g_target_bank s, g_scan_list_entries s,
     \<lambda>a. if SCAN_LIST_ADDR \<le> a \<and> a < PAGE_MAP_ADDR + PAGE_MAP_BYTES then tdram s a else 0)"

lemma tut_obs_same:
  assumes "tut_obs s' = tut_obs s"
  shows "same_store s s'"
proof (rule same_storeI)
  show "pages (nand (fl s')) = pages (nand (fl s))" "g_target_row s' = g_target_row s" "g_target_bank s' = g_target_bank s"
    "g_scan_list_entries s' = g_scan_list_entries s" using assms unfolding tut_obs_def prod.inject by blast+
  fix a assume a: "SCAN_LIST_ADDR \<le> a" "a < PAGE_MAP_ADDR + PAGE_MAP_BYTES"
  have "(\<lambda>a. if SCAN_LIST_ADDR \<le> a \<and> a < PAGE_MAP_ADDR + PAGE_MAP_BYTES then tdram s' a else 0)
      = (\<lambda>a. if SCAN_LIST_ADDR \<le> a \<and> a < PAGE_MAP_ADDR + PAGE_MAP_BYTES then tdram s a else 0)"
    using assms unfolding tut_obs_def prod.inject by blast
  from fun_cong [OF this, of a] show "tdram s' a = tdram s a" using a by simp
qed

lemma tut_obs_dram:
  "(\<And>a. SCAN_LIST_ADDR \<le> a \<Longrightarrow> a < PAGE_MAP_ADDR + PAGE_MAP_BYTES \<Longrightarrow> m a = tdram s a) \<Longrightarrow> tut_obs (set_dram m s) = tut_obs s"
  by (simp add: tut_obs_def set_dram_def on_fl_def tdram_def fun_eq_iff)

lemma same_store_sec: "same_store s s' \<Longrightarrow> i < NUM_LSECTORS \<Longrightarrow> w < 512 \<Longrightarrow> sec s' i w = sec s i w"
  using sec_pos(1) [of i w] by (simp add: same_store_def sec_def)

lemma tut_obs_inv: "tut_obs s' = tut_obs s \<Longrightarrow> tut_store_inv hw s \<Longrightarrow> tut_store_inv hw s'"
  using tut_obs_same [of s' s] by (simp add: tut_store_inv_def same_store_def)

lemma buffer_layout:
  "HIL_BUF_ADDR + BYTES_PER_PAGE \<le> SCAN_LIST_ADDR" "PAGE_MAP_ADDR + PAGE_MAP_BYTES \<le> ISSD_CMD_BUFFER_ADDR" "BYTES_PER_PAGE = 32768"
  "HIL_BUF_ADDR mod 4 = 0" "ISSD_CMD_BUFFER_ADDR mod 4 = 0" "dram_addr HIL_BUF_ADDR"
  by (simp_all add: geom dram_addr_def mod_eq_0_iff_dvd)

interpretation tcb: command_buffer "tut_sata hw pio search" "\<lambda>s. pio_ok pio \<and> tut_store_inv hw s" tdram tut_obs for hw pio search
proof unfold_locales
  fix t and k :: nat and p :: "u32 list"
  assume i: "pio_ok pio \<and> tut_store_inv hw t" and k: "k < 64" and p: "length p = 128"
  let ?a = "HIL_BUF_ADDR + 512 * k" and ?t = "pio_in (tut_sata hw pio search) (HIL_BUF_ADDR + 512 * k) p t"
  have t: "?t = set_dram (pio ?a p (tdram t)) t" by (simp add: tut_sata_def)
  have po: "pio ?a p d (?a + 4 * j) = p ! j" if "j < 128" for d j using i that by (simp add: pio_ok_def)
  have pn: "pio ?a p d b = d b" if "b < ?a \<or> ?a + 512 \<le> b" for d b using i that unfolding pio_ok_def by blast
  have o: "tut_obs ?t = tut_obs t" unfolding t
    by (rule tut_obs_dram) (rule pn, use buffer_layout(1,3) k in linarith)
  have m: "tdram ?t b = pio ?a p (tdram t) b" for b by (simp add: t set_dram_def on_fl_def tdram_def)
  have "tdram ?t (HIL_BUF_ADDR + 4 * j) = (if 128 * k \<le> j \<and> j < 128 * (k + 1) then p ! (j - 128 * k) else tdram t (HIL_BUF_ADDR + 4 * j))" for j
  proof (cases "128 * k \<le> j \<and> j < 128 * (k + 1)")
    case True
    then have e: "HIL_BUF_ADDR + 4 * j = ?a + 4 * (j - 128 * k)" and j: "j - 128 * k < 128" by (linarith, auto)
    then show ?thesis using po [OF j, of "tdram t"] True unfolding m e by simp
  next
    case False
    then have "HIL_BUF_ADDR + 4 * j < ?a \<or> ?a + 512 \<le> HIL_BUF_ADDR + 4 * j" by (auto simp: not_le not_less)
    from pn [OF this] show ?thesis unfolding m if_not_P [OF False] .
  qed
  with o tut_obs_inv [OF o] i show "(pio_ok pio \<and> tut_store_inv hw ?t) \<and> tut_obs ?t = tut_obs t \<and> (\<forall>j < 8192. tdram ?t (HIL_BUF_ADDR + 4 * j)
      = (if 128 * k \<le> j \<and> j < 128 * (k + 1) then p ! (j - 128 * k) else tdram t (HIL_BUF_ADDR + 4 * j)))" by blast
next
  fix t
  show "f_rd32 (tut_sata hw pio search) HIL_BUF_ADDR t = Some (unat (tdram t HIL_BUF_ADDR))"
    using buffer_layout by (simp add: tut_sata_def rd32_def ld32_def)
next
  fix t assume i: "pio_ok pio \<and> tut_store_inv hw t"
  let ?m = "\<lambda>b. if ISSD_CMD_BUFFER_ADDR \<le> b \<and> b < ISSD_CMD_BUFFER_ADDR + BYTES_PER_PAGE then tdram t (HIL_BUF_ADDR + (b - ISSD_CMD_BUFFER_ADDR)) else tdram t b"
  have c: "f_copy (tut_sata hw pio search) ISSD_CMD_BUFFER_ADDR HIL_BUF_ADDR BYTES_PER_PAGE t = Some (set_dram ?m t)"
    using buffer_layout(4,5) by (simp add: tut_sata_def dram_move_def) (simp add: geom)
  have o: "tut_obs (set_dram ?m t) = tut_obs t"
    by (rule tut_obs_dram) (use buffer_layout(2) in auto)
  have "tdram (set_dram ?m t) (ISSD_CMD_BUFFER_ADDR + 4 * j) = tdram t (HIL_BUF_ADDR + 4 * j)" if "j < 8192" for j
    using that by (simp add: set_dram_def on_fl_def tdram_def buffer_layout(3))
  with c o tut_obs_inv [OF o] i show "\<exists>t'. f_copy (tut_sata hw pio search) ISSD_CMD_BUFFER_ADDR HIL_BUF_ADDR BYTES_PER_PAGE t = Some t'
    \<and> (pio_ok pio \<and> tut_store_inv hw t') \<and> tut_obs t' = tut_obs t
    \<and> (\<forall>i < 8192. tdram t' (ISSD_CMD_BUFFER_ADDR + 4 * i) = tdram t (HIL_BUF_ADDR + 4 * i))" by blast
qed

text \<open>
  C4. The packets of a command are put together: when the host sends the sectors of a command of \<open>n\<close> packets,
  the first word being \<open>n\<close>, the last write-buffer command hands the command buffer with exactly the words
  of the host to \<open>issd_process_cmd\<close>, on a store whose contents the transfer did not touch, and the next
  command starts from a clean packet counter.
\<close>

theorem write_buffer_reassembles:
  assumes "flash_ok tut_layout hw" and "tut_inv (store s)" and "pio_ok pio" and "num_packet s = 0" and "packet_rcv_buf_offset s = 0"
    and "length ws = 128 * n" and "0 < n" and "n \<le> 64" and "unat (ws ! 0) = n"
  shows "\<exists>t. tut_inv t \<and> (\<forall>i < NUM_LSECTORS. \<forall>w < 512. sec t i w = sec (store s) i w)
    \<and> (\<forall>j < 128 * n. tdram t (ISSD_CMD_BUFFER_ADDR + 4 * j) = ws ! j)
    \<and> (case issd_process_cmd (tut_dev hw) t of
         None \<Rightarrow> receive_all (tut_sata hw pio search) (List.map (sector_of ws) [0..<n]) s = None
       | Some t' \<Rightarrow> \<exists>s'. receive_all (tut_sata hw pio search) (List.map (sector_of ws) [0..<n]) s = Some s' \<and> store s' = t'
           \<and> num_packet s' = 0 \<and> packet_rcv_buf_offset s' = 0)"
proof -
  have i: "pio_ok pio \<and> tut_store_inv hw (store s)" using assms(1-3) by (simp add: tut_store_inv_def)
  have p: "f_process (tut_sata hw pio search) = issd_process_cmd (tut_dev hw)" by (simp add: tut_sata_def)
  from tcb.receive_from [OF i assms(6,7,8,9), where search = search] assms(4,5) obtain t where
    t: "tut_store_inv hw t" "tut_obs t = tut_obs (store s)" "\<forall>j < 128 * n. tdram t (ISSD_CMD_BUFFER_ADDR + 4 * j) = ws ! j"
      "case issd_process_cmd (tut_dev hw) t of
         None \<Rightarrow> receive_all (tut_sata hw pio search) (List.map (sector_of ws) [0..<n]) s = None
       | Some t' \<Rightarrow> \<exists>s'. receive_all (tut_sata hw pio search) (List.map (sector_of ws) [0..<n]) s = Some s' \<and> store s' = t'
           \<and> num_packet s' = 0 \<and> packet_rcv_buf_offset s' = 0" unfolding p by auto
  have "\<forall>i < NUM_LSECTORS. \<forall>w < 512. sec t i w = sec (store s) i w" using same_store_sec [OF tut_obs_same [OF t(2)]] by blast
  with t show ?thesis by (auto simp: tut_store_inv_def)
qed

theorem write_buffer_reassembles_witness:
  "\<exists>t. tut_inv t \<and> (\<forall>j < 128. tdram t (ISSD_CMD_BUFFER_ADDR + 4 * j) = (1 # replicate 127 0) ! j)"
  using write_buffer_reassembles [OF hw_ref_ok _ pio_ref_ok, of "sata0 demo_store" "1 # replicate 127 0" 1 "\<lambda>xs v. 0"]
  by (auto simp: sata0_def demo_store_ok)

end
