(* ===== verification/Sata_Isr.thy ===== *)
theory Sata_Isr
  imports Sata_Cmd
begin

text \<open>
  The command path of the device around the handlers (\<open>sata/sata_isr.c\<close>, \<open>sata/sata_main.c\<close>): the interrupt
  handler that decodes a received command, checks its range and puts it into the hardware event queue or
  the slot of the slow command, and the main loop that serves both. A history of the device is a list of
  interrupts and passes of the loop; the event queue is a parameter, and \<open>eq_ok\<close> is what the code reads
  of it.
\<close>

unbundle bit_operations_syntax

subsection \<open>Interrupts\<close>

text \<open>What the hardware shows to the interrupt handler; \<open>ack\<close> tells which attempts of a primitive are acknowledged in time.\<close>

record fiq_in =
  int_stat :: u32
  sata_error :: u32
  ack :: "nat \<Rightarrow> bool"

fun send_primitive :: "bool \<Rightarrow> (nat \<Rightarrow> bool) \<Rightarrow> nat \<Rightarrow> 's sata \<Rightarrow> 's sata" where
  "send_primitive response a 0 s = s"
| "send_primitive response a (Suc retry) s =
     (let s = emit (Primitive response) s in if a (Suc retry) then s else send_primitive response a retry (emit Link_Reset s))"

definition send_primitive_R_XX :: "bool \<Rightarrow> (nat \<Rightarrow> bool) \<Rightarrow> 's sata \<Rightarrow> 's sata" where
  "send_primitive_R_XX response a s = send_primitive response a 2 s"

definition handle_srst :: "fiq_in \<Rightarrow> 's sata \<Rightarrow> 's sata" where
  "handle_srst i s =
     (let s = send_primitive_R_XX True (ack i) s in
      if bit (h2d_3 s) 26 then s\<lparr>ctx := (ctx s)\<lparr>srst := True\<rparr>\<rparr>
      else if srst (ctx s) then
        (let s = emit Link_Reset (s\<lparr>ctx := (ctx s)\<lparr>srst := False\<rparr>\<rparr>)
         in s\<lparr>ctx := (ctx s)\<lparr>slow_cmd := (slow_cmd (ctx s))\<lparr>code := ATA_SRST, status := SLOW_CMD_STATUS_PENDING, sc_lba := 0\<rparr>\<rparr>\<rparr>)
      else s)"

text \<open>The command code of the received FIS, its class, and the decoded address and length.\<close>

definition cfis_code :: "'s sata \<Rightarrow> nat" where
  "cfis_code s = unat (drop_bit 16 (h2d_0 s AND 0x00FF0000))"

definition cfis_type :: "'s sata \<Rightarrow> nat" where
  "cfis_type s = ata_cmd_class_table ! cfis_code s"

definition cfis_decode :: "'s sata \<Rightarrow> u32 \<times> u32" where
  "cfis_decode s =
     (let cmd_type = cfis_type s; fis_d1 = h2d_1 s; fis_d3 = h2d_3 s in
      if cmd_type AND ATR_LBA_NOR \<noteq> 0 then
        (let lba =
           (if \<not> bit fis_d1 30 then
              (let cylinder = drop_bit 8 (fis_d1 AND 0x00FFFF00); head = drop_bit 24 (fis_d1 AND 0x0F000000); sector = fis_d1 AND 0x000000FF
               in (cylinder * ucast (chs_cur_heads (ctx s)) + head) * ucast (chs_cur_sectors (ctx s)) + sector - 1)
            else fis_d1 AND 0x0FFFFFFF);
             sector_count = fis_d3 AND 0x000000FF
         in (lba, if sector_count = 0 \<and> cmd_type AND ATR_NO_SECT = 0 then 0x100 else sector_count))
      else if cmd_type AND ATR_LBA_EXT \<noteq> 0 then
        (let lba = (fis_d1 AND 0x00FFFFFF) OR push_bit 24 (h2d_2 s); sector_count = fis_d3 AND 0x0000FFFF
         in (lba, if sector_count = 0 \<and> cmd_type AND ATR_NO_SECT = 0 then 0x10000 else sector_count))
      else (0, 0))"

text \<open>The protocol of an accepted read or write command; the PIO commands also get their set-up FIS.\<close>

definition cfis_protocol :: "bool \<Rightarrow> nat \<Rightarrow> 's sata \<Rightarrow> u32 \<times> 's sata" where
  "cfis_protocol w cmd_code s =
     (if w then
        (if cmd_code = ATA_WRITE_DMA \<or> cmd_code = ATA_WRITE_DMA_EXT then (DMA_WRITE OR COMPLETE, s)
         else (PIO_WRITE OR COMPLETE, s\<lparr>d2h := pio_setup_fis s\<rparr>))
      else
        (if cmd_code = ATA_READ_DMA \<or> cmd_code = ATA_READ_DMA_EXT then (DMA_READ OR COMPLETE, s)
         else (PIO_READ OR COMPLETE OR CLR_STAT_PIO_SETUP, s\<lparr>d2h := pio_setup_fis s\<rparr>)))"

definition handle_got_cfis :: "'q eq_hw \<Rightarrow> 's sata \<times> 'q \<Rightarrow> 's sata \<times> 'q" where
  "handle_got_cfis eq = (\<lambda>(s, q).
     (let cmd_code = cfis_code s; cmd_type = cfis_type s; (lba, sector_count) = cfis_decode s in
      if of_nat MAX_LBA + 1 < lba + sector_count \<and> cmd_type AND ATR_NO_SECT = 0 then (send_status_to_host B_IDNF s, q)
      else if cmd_type AND (CCL_FTL_H2D OR CCL_FTL_D2H) \<noteq> 0 then
        (let s = s\<lparr>SATA_LBA := lba, SATA_SECT_CNT := sector_count\<rparr>;
             w = (cmd_type AND CCL_FTL_H2D \<noteq> 0);
             q = eq_insert eq w lba sector_count q;
             (action_flags, s) = cfis_protocol w cmd_code s;
             s = s\<lparr>SATA_XFER_BYTES := sector_count * of_nat BYTES_PER_SECTOR, SATA_SECT_OFFSET := lba\<rparr>
         in if bit (eq_status eq q) 31 then (s\<lparr>ctx := (ctx s)\<lparr>eq_full := True\<rparr>, g_sata_action_flags := action_flags\<rparr>, q)
            else (set_ctrl_2 action_flags s, q))
      else (s\<lparr>ctx := (ctx s)\<lparr>slow_cmd := \<lparr>status = SLOW_CMD_STATUS_PENDING, code = cmd_code, sc_lba = lba, sc_count = sector_count\<rparr>\<rparr>\<rparr>, q)))"

text \<open>The result is also the value written back to \<open>SATA_INT_STAT\<close>.\<close>

definition fiq_handler :: "'q eq_hw \<Rightarrow> fiq_in \<Rightarrow> 's sata \<times> 'q \<Rightarrow> ('s sata \<times> 'q) \<times> u32" where
  "fiq_handler eq i = (\<lambda>(s, q).
     (let masked_int_stat = int_stat i AND SATA_INT_ENABLE s in
      if masked_int_stat AND CMD_RECV \<noteq> 0 then (handle_got_cfis eq (s, q), CMD_RECV)
      else if masked_int_stat AND OPERATION_ERR \<noteq> 0 then ((emit Led_Blink s, q), 0)
      else if masked_int_stat AND REG_FIS_RECV \<noteq> 0 then
        (if h2d_0 s AND 0x000000FF = FISTYPE_REGISTER_H2D then ((handle_srst i s, q), 0)
         else ((send_primitive_R_XX (\<not> bit (sata_error i) 25) (ack i) s, q), REG_FIS_RECV))
      else if masked_int_stat AND PHY_ONLINE \<noteq> 0 then
        ((s\<lparr>ctx := (ctx s)\<lparr>slow_cmd := (slow_cmd (ctx s))\<lparr>code := ATA_SRST, status := SLOW_CMD_STATUS_PENDING, sc_lba := 0\<rparr>\<rparr>,
            SATA_INT_ENABLE := PHY_ONLINE OR CMD_RECV OR REG_FIS_RECV OR NCQ_CMD_RECV\<rparr>, q), 0xFFFFFFFF)
      else ((s, q), masked_int_stat)))"

subsection \<open>The main loop\<close>

record cmd_t =
  cmd_lba :: u32
  cmd_sector_count :: u32
  cmd_type :: u32

definition eventq_get_count :: "'q eq_hw \<Rightarrow> 'q \<Rightarrow> u32" where
  "eventq_get_count eq q = drop_bit 16 (eq_status eq q) AND 0xFF"

definition eventq_get :: "'q eq_hw \<Rightarrow> 's sata \<times> 'q \<Rightarrow> cmd_t \<times> 's sata \<times> 'q" where
  "eventq_get eq = (\<lambda>(s, q).
     (let (EQReadData0, EQReadData1, q) = eq_next eq q;
          c = drop_bit 16 EQReadData0;
          cmd = \<lparr>cmd_lba = EQReadData1 AND 0x3FFFFFFF, cmd_sector_count = (if c = 0 then 0x10000 else c), cmd_type = drop_bit 31 EQReadData1\<rparr>
      in (cmd, if eq_full (ctx s)
               then (let s = s\<lparr>ctx := (ctx s)\<lparr>eq_full := False\<rparr>\<rparr>
                     in if phy_status s AND 0xF0F = 0x103 then set_ctrl_2 (g_sata_action_flags s) s else s)
               else s, q)))"

text \<open>
  One pass of the loop of \<open>Main\<close> is cut where an interrupt can change what it does: \<open>Run_Slow\<close> is the call
  of the handler, after the status was set to busy, \<open>End_Slow\<close> the reset of the status after it.
\<close>

datatype main_pc = Loop_Top | Run_Slow | End_Slow

record ('s, 'q) device =
  io :: "'s sata"
  evq :: 'q
  pc :: main_pc

definition set_slow_status :: "slow_status \<Rightarrow> 's sata \<Rightarrow> 's sata" where
  "set_slow_status st s = s\<lparr>ctx := (ctx s)\<lparr>slow_cmd := (slow_cmd (ctx s))\<lparr>status := st\<rparr>\<rparr>\<rparr>"

definition main_step :: "'s sata_env \<Rightarrow> 'q eq_hw \<Rightarrow> ('s, 'q) device \<Rightarrow> ('s, 'q) device option" where
  "main_step env eq d = (case pc d of
     Loop_Top \<Rightarrow>
       (if eventq_get_count eq (evq d) \<noteq> 0 then
          (let (cmd, s, q) = eventq_get eq (io d, evq d);
               f = (if cmd_type cmd = 0 then f_read env else f_write env)
           in map_option (\<lambda>t. d\<lparr>io := s\<lparr>store := t\<rparr>, evq := q\<rparr>) (f (unat (cmd_lba cmd)) (unat (cmd_sector_count cmd)) (store s)))
        else if status (slow_cmd (ctx (io d))) = SLOW_CMD_STATUS_PENDING
        then Some (d\<lparr>io := set_slow_status SLOW_CMD_STATUS_BUSY (io d), pc := Run_Slow\<rparr>)
        else Some d)
   | Run_Slow \<Rightarrow>
       (let c = slow_cmd (ctx (io d)) in
        map_option (\<lambda>s. d\<lparr>io := s, pc := End_Slow\<rparr>) (search_ata_function env (code c) (sc_lba c) (sc_count c) (io d)))
   | End_Slow \<Rightarrow> Some (d\<lparr>io := set_slow_status SLOW_CMD_STATUS_NONE (io d), pc := Loop_Top\<rparr>))"

text \<open>A history of the device: passes of the main program, and interrupts with the FIS and the data the host sends.\<close>

record host_fis =
  fis0 :: u32
  fis1 :: u32
  fis2 :: u32
  fis3 :: u32
  payload :: "u32 list"

datatype dev_event = Step | Fiq fiq_in host_fis

definition latch_fis :: "host_fis \<Rightarrow> 's sata \<Rightarrow> 's sata" where
  "latch_fis f s = s\<lparr>h2d_0 := fis0 f, h2d_1 := fis1 f, h2d_2 := fis2 f, h2d_3 := fis3 f, host_data := payload f\<rparr>"

fun dev_do :: "'s sata_env \<Rightarrow> 'q eq_hw \<Rightarrow> dev_event \<Rightarrow> ('s, 'q) device \<Rightarrow> ('s, 'q) device option" where
  "dev_do env eq Step d = main_step env eq d"
| "dev_do env eq (Fiq i f) d =
     (let ((s, q), w) = fiq_handler eq i (latch_fis f (io d), evq d) in Some (d\<lparr>io := s, evq := q\<rparr>))"

primrec dev_run :: "'s sata_env \<Rightarrow> 'q eq_hw \<Rightarrow> dev_event list \<Rightarrow> ('s, 'q) device \<Rightarrow> ('s, 'q) device option" where
  "dev_run env eq [] d = Some d"
| "dev_run env eq (e # es) d = Option.bind (dev_do env eq e d) (dev_run env eq es)"

subsection \<open>Which commands are accepted\<close>

lemma num_lsectors_word: "(of_nat MAX_LBA + 1 :: u32) = of_nat NUM_LSECTORS" "NUM_LSECTORS < 2 ^ 28" "unat (of_nat NUM_LSECTORS :: u32) = NUM_LSECTORS"
  by (simp_all add: MAX_LBA_def geom)

lemma class_table_shape:
  "length ata_cmd_class_table = 256"
  "list_all (\<lambda>t. (t AND (CCL_FTL_H2D OR CCL_FTL_D2H) \<noteq> 0 \<longrightarrow> t AND ATR_NO_SECT = 0) \<and> (t AND CCL_FTL_H2D = 0 \<or> t AND CCL_FTL_D2H = 0))
     ata_cmd_class_table"
  by (simp_all add: ata_cmd_class_table_def class_defs)

lemma cfis_code_less: "cfis_code s < 256"
proof -
  have "drop_bit 16 (h2d_0 s AND 0x00FF0000) = drop_bit 16 (h2d_0 s) AND 0xFF" by (simp add: drop_bit_and)
  then have "cfis_code s = unat (take_bit 8 (drop_bit 16 (h2d_0 s)))" by (simp add: cfis_code_def take_bit_eq_mask mask_eq_decr_exp)
  then show ?thesis by (simp add: take_bit_eq_mod unat_mod_distrib)
qed

lemma cfis_type_ftl: "cfis_type s AND (CCL_FTL_H2D OR CCL_FTL_D2H) \<noteq> 0 \<Longrightarrow> cfis_type s AND ATR_NO_SECT = 0"
proof -
  have "cfis_type s \<in> set ata_cmd_class_table" using cfis_code_less [of s] class_table_shape(1) by (simp add: cfis_type_def)
  then show "cfis_type s AND (CCL_FTL_H2D OR CCL_FTL_D2H) \<noteq> 0 \<Longrightarrow> ?thesis"
    using class_table_shape(2) by (auto simp: list_all_iff)
qed

lemma unat_and_mask: "unat (w AND 0xFF :: u32) = unat w mod 256" "unat (w AND 0xFFFF :: u32) = unat w mod 65536"
  "unat (w AND 0x0FFFFFFF :: u32) = unat w mod 268435456"
proof -
  have "w AND 0xFF = take_bit 8 w" "w AND 0xFFFF = take_bit 16 w" "w AND 0x0FFFFFFF = take_bit 28 w"
    by (simp_all add: take_bit_eq_mask mask_eq_decr_exp)
  then show "unat (w AND 0xFF :: u32) = unat w mod 256" "unat (w AND 0xFFFF :: u32) = unat w mod 65536"
    "unat (w AND 0x0FFFFFFF :: u32) = unat w mod 268435456"
    by (simp_all add: take_bit_eq_mod unat_mod_distrib)
qed

text \<open>The address and length the host meant.\<close>

definition host_lba28 :: "'s sata \<Rightarrow> nat" where "host_lba28 s = unat (h2d_1 s) mod 2 ^ 28"
definition host_count28 :: "'s sata \<Rightarrow> nat" where
  "host_count28 s = (let c = unat (h2d_3 s) mod 256 in if c = 0 then 256 else c)"

lemma cfis_decode28:
  assumes "cfis_type s AND (CCL_FTL_H2D OR CCL_FTL_D2H) \<noteq> 0" and "cfis_type s AND ATR_LBA_NOR \<noteq> 0" and "bit (h2d_1 s) 30"
  shows "\<exists>lba n. cfis_decode s = (lba, n) \<and> unat lba = host_lba28 s \<and> unat n = host_count28 s"
proof -
  have z: "(h2d_3 s AND 0xFF = 0) = (unat (h2d_3 s) mod 256 = 0)" by (simp add: unat_eq_zero flip: unat_and_mask)
  show ?thesis using assms cfis_type_ftl [OF assms(1)]
    by (simp add: cfis_decode_def Let_def unat_and_mask host_lba28_def host_count28_def z)
qed

lemma got_cfis_rejects:
  assumes "cfis_type s AND ATR_NO_SECT = 0" and "cfis_decode s = (lba, n)" and "of_nat MAX_LBA + 1 < lba + n"
  shows "handle_got_cfis eq (s, q) = (send_status_to_host B_IDNF s, q)"
  using assms by (simp add: handle_got_cfis_def Let_def)

lemma got_cfis_accepts:
  assumes "cfis_type s AND (CCL_FTL_H2D OR CCL_FTL_D2H) \<noteq> 0" and "cfis_decode s = (lba, n)" and "\<not> of_nat MAX_LBA + 1 < lba + n"
  shows "snd (handle_got_cfis eq (s, q)) = eq_insert eq (cfis_type s AND CCL_FTL_H2D \<noteq> 0) lba n q"
    "store (fst (handle_got_cfis eq (s, q))) = store s"
  using assms by (simp_all add: handle_got_cfis_def cfis_protocol_def set_ctrl_2_def emit_def Let_def)

text \<open>
  C36. A 28-bit read or write command is checked against the capacity: one that ends inside the disk enters the
  event queue with exactly the address and length the host sent (a count of 0 means 256), any other is
  answered with ID-not-found and enters nothing.
\<close>

theorem lba28_range_checked:
  assumes "cfis_type s AND (CCL_FTL_H2D OR CCL_FTL_D2H) \<noteq> 0" and "cfis_type s AND ATR_LBA_NOR \<noteq> 0" and "bit (h2d_1 s) 30"
  shows "\<exists>lba n. unat lba = host_lba28 s \<and> unat n = host_count28 s \<and>
    (if host_lba28 s + host_count28 s \<le> NUM_LSECTORS
     then snd (handle_got_cfis eq (s, q)) = eq_insert eq (cfis_type s AND CCL_FTL_H2D \<noteq> 0) lba n q
     else handle_got_cfis eq (s, q) = (send_status_to_host B_IDNF s, q))"
proof -
  obtain lba n where d: "cfis_decode s = (lba, n)" "unat lba = host_lba28 s" "unat n = host_count28 s"
    using cfis_decode28 [OF assms] by blast
  have "host_lba28 s < 268435456" "host_count28 s \<le> 256" by (simp_all add: host_lba28_def host_count28_def Let_def)
  then have "unat (lba + n) = host_lba28 s + host_count28 s" using d(2,3) by (subst unat_add_lem [THEN iffD1]) simp_all
  then have c: "(of_nat MAX_LBA + 1 < lba + n) = (NUM_LSECTORS < host_lba28 s + host_count28 s)"
    unfolding num_lsectors_word word_less_nat_alt by (simp add: num_lsectors_word)
  show ?thesis
  proof (cases "host_lba28 s + host_count28 s \<le> NUM_LSECTORS")
    case True
    with d got_cfis_accepts(1) [OF assms(1) d(1)] c show ?thesis by (intro exI [of _ lba] exI [of _ n]) simp
  next
    case False
    with d got_cfis_rejects [OF cfis_type_ftl [OF assms(1)] d(1)] c show ?thesis by (intro exI [of _ lba] exI [of _ n]) simp
  qed
qed

text \<open>
  The check of a 48-bit command is defeated by its own sum: an address near the end of the 32-bit range
  whose sum with the length passes \<open>2 ^ 32\<close> is accepted although it lies far outside the disk.
\<close>

theorem lba48_sum_wraps:
  assumes "cfis_type s AND (CCL_FTL_H2D OR CCL_FTL_D2H) \<noteq> 0" and "cfis_type s AND ATR_LBA_NOR = 0" and "cfis_decode s = (lba, n)"
    and "2 ^ 32 \<le> unat lba + unat n"
  shows "NUM_LSECTORS < unat lba \<and> snd (handle_got_cfis eq (s, q)) = eq_insert eq (cfis_type s AND CCL_FTL_H2D \<noteq> 0) lba n q"
proof -
  have ns: "cfis_type s AND ATR_NO_SECT = 0" by (rule cfis_type_ftl [OF assms(1)])
  have "unat (h2d_3 s AND 0xFFFF) \<le> 65536" by (simp add: unat_and_mask)
  then have n: "unat n \<le> 65536" using assms(2,3) ns by (auto simp: cfis_decode_def Let_def split: if_splits)
  then have "unat (lba + n) \<le> 65536" using assms(4) by (simp add: unat_word_ariths mod_if [of "unat lba + unat n"] not_le) (use unsigned_less [of lba, where ?'a = nat] in simp)
  then have "\<not> of_nat MAX_LBA + 1 < lba + n" unfolding num_lsectors_word word_less_nat_alt by (simp add: num_lsectors_word geom)
  with assms(4) n show ?thesis using got_cfis_accepts(1) [OF assms(1,3)] num_lsectors_word(2) by simp
qed

text \<open>A queue that is a list.\<close>

definition eq_word1 :: "bool \<Rightarrow> nat \<Rightarrow> u32" where
  "eq_word1 w l = (of_nat l AND 0x3FFFFFFF) OR (if w then push_bit 31 1 else 0)"

definition eq_ref :: "(bool \<times> nat \<times> nat) list eq_hw" where
  "eq_ref = \<lparr>eq_insert = \<lambda>w l c q. q @ [(w, unat l mod 2 ^ 30, unat c mod 65536)],
     eq_next = \<lambda>q. (case q of [] \<Rightarrow> (0, 0, []) | (w, l, c) # r \<Rightarrow> (push_bit 16 (of_nat c), eq_word1 w l, r)),
     eq_status = \<lambda>q. if q = [] then 0 else push_bit 16 1\<rparr>"

theorem lba28_range_checked_witness:
  "\<exists>lba n. unat lba = 5 \<and> unat n = 256 \<and> snd (handle_got_cfis eq_ref ((sata0 ())\<lparr>h2d_0 := 0x00C80000, h2d_1 := 0x40000005\<rparr>, []))
     = eq_insert eq_ref False lba n []"
proof -
  let ?s = "(sata0 ())\<lparr>h2d_0 := 0x00C80000, h2d_1 := 0x40000005\<rparr>"
  have t: "cfis_type ?s = ATR_LBA_NOR + CCL_FTL_D2H"
    by (simp add: cfis_type_def cfis_code_def ata_cmd_class_table_def)
  have h: "host_lba28 ?s = 5" "host_count28 ?s = 256" by (simp_all add: host_lba28_def host_count28_def sata0_def)
  show ?thesis using lba28_range_checked [of ?s eq_ref "[]"] unfolding h t
    by (simp add: class_defs bit_simps geom)
qed

theorem lba48_sum_wraps_witness:
  "snd (handle_got_cfis eq_ref ((sata0 ())\<lparr>h2d_0 := 0x00250000, h2d_1 := 0x00FFFFFF, h2d_2 := 0xFF, h2d_3 := 1\<rparr>, []))
     = eq_insert eq_ref False 0xFFFFFFFF 1 []"
proof -
  let ?s = "(sata0 ())\<lparr>h2d_0 := 0x00250000, h2d_1 := 0x00FFFFFF, h2d_2 := 0xFF, h2d_3 := 1\<rparr>"
  have t: "cfis_type ?s = ATR_LBA_EXT + CCL_FTL_D2H"
    by (simp add: cfis_type_def cfis_code_def ata_cmd_class_table_def)
  have d: "cfis_decode ?s = (0xFFFFFFFF, 1)" unfolding cfis_decode_def Let_def t by (simp add: class_defs)
  show ?thesis using lba48_sum_wraps [OF _ _ d, of eq_ref "[]"] unfolding t by (simp add: class_defs)
qed

subsection \<open>From the host to the translation layer and back\<close>

text \<open>
  The event queue as the code reads it: a queue of directions, 30-bit addresses and 16-bit counts, whose
  length shows in the status register.
\<close>

definition eq_ok :: "'q eq_hw \<Rightarrow> ('q \<Rightarrow> (bool \<times> nat \<times> nat) list) \<Rightarrow> bool" where
  "eq_ok eq queued \<longleftrightarrow> (\<forall>w l c q. queued (eq_insert eq w l c q) = queued q @ [(w, unat l mod 2 ^ 30, unat c mod 65536)])
     \<and> (\<forall>q w l c r. queued q = (w, l, c) # r \<longrightarrow> (\<exists>q'. eq_next eq q = (push_bit 16 (of_nat c), eq_word1 w l, q') \<and> queued q' = r))
     \<and> (\<forall>q. eventq_get_count eq q = 0 \<longleftrightarrow> queued q = [])"

lemma eq_ref_ok: "eq_ok eq_ref (\<lambda>q. q)"
  by (auto simp: eq_ok_def eq_ref_def eventq_get_count_def)

lemma bit_nat_less: "bit c n \<Longrightarrow> c < 2 ^ k \<Longrightarrow> n < k" for c :: nat
proof (rule ccontr)
  assume b: "bit c n" and c: "c < 2 ^ k" and "\<not> n < k"
  then have "(2 :: nat) ^ k \<le> 2 ^ n" by simp
  with c have "c < 2 ^ n" by linarith
  then have "c div 2 ^ n = 0" by (rule div_less)
  then show False using b by (simp add: bit_iff_odd)
qed

lemma eq_word1_read:
  assumes "l < 2 ^ 30"
  shows "unat (eq_word1 w l AND 0x3FFFFFFF) = l" "drop_bit 31 (eq_word1 w l) = (if w then 1 else 0)"
proof -
  have m: "of_nat l AND 0x3FFFFFFF = (of_nat l :: u32)"
  proof -
    have "of_nat l AND 0x3FFFFFFF = (take_bit 30 (of_nat l) :: u32)" by (simp add: take_bit_eq_mask mask_eq_decr_exp)
    also have "\<dots> = of_nat (take_bit 30 l)" by (simp add: take_bit_of_nat)
    finally show ?thesis using assms by (simp add: take_bit_nat_eq_self)
  qed
  have b: "\<not> bit (of_nat l :: u32) 31" using bit_nat_less [OF _ assms, of 31] by (auto simp: bit_simps)
  have "push_bit 31 1 AND 0x3FFFFFFF = (0 :: u32)" by simp
  then have "eq_word1 w l AND 0x3FFFFFFF = of_nat l" by (simp add: eq_word1_def m bit.conj_disj_distrib2)
  then show "unat (eq_word1 w l AND 0x3FFFFFFF) = l" using assms by (simp add: unat_of_nat)
  show "drop_bit 31 (eq_word1 w l) = (if w then 1 else 0)"
    by (rule bit_word_eqI) (use b in \<open>auto simp: eq_word1_def m bit_simps\<close>)
qed

lemma eq_word0_read: "c < 65536 \<Longrightarrow> unat (drop_bit 16 (push_bit 16 (of_nat c)) :: u32) = c"
proof -
  assume c: "c < 65536"
  have "drop_bit 16 (push_bit 16 (of_nat c)) = (of_nat c :: u32)"
    by (rule bit_word_eqI) (use c bit_nat_less [of c _ 16] in \<open>auto simp: bit_simps\<close>)
  then show ?thesis using c by (simp add: unat_of_nat)
qed

lemma eventq_get_view:
  assumes "eq_ok eq queued" and "queued q = (w, l, c) # r" and "l < 2 ^ 30" and "c < 65536"
  shows "\<exists>cmd s' q'. eventq_get eq (s, q) = (cmd, s', q') \<and> queued q' = r \<and> store s' = store s
    \<and> unat (cmd_lba cmd) = l \<and> unat (cmd_sector_count cmd) = (if c = 0 then 65536 else c) \<and> (cmd_type cmd = 0) = (\<not> w)"
proof -
  obtain q' where q': "eq_next eq q = (push_bit 16 (of_nat c), eq_word1 w l, q')" "queued q' = r"
    using assms(1,2) unfolding eq_ok_def by blast
  have z: "(drop_bit 16 (push_bit 16 (of_nat c)) = (0 :: u32)) = (c = 0)"
    using eq_word0_read [OF assms(4)] by (metis unat_0 unat_eq_zero)
  show ?thesis using q'(2) eq_word1_read [OF assms(3)] eq_word0_read [OF assms(4)]
    by (simp add: eventq_get_def q'(1) Let_def z set_ctrl_2_def emit_def)
qed

text \<open>The interrupt of a received command.\<close>

definition cmd_fiq :: fiq_in where
  "cmd_fiq = \<lparr>int_stat = CMD_RECV, sata_error = 0, ack = \<lambda>_. True\<rparr>"

lemma fiq_command:
  "SATA_INT_ENABLE (io d) AND CMD_RECV \<noteq> 0 \<Longrightarrow> dev_do env eq (Fiq cmd_fiq f) d
     = (case handle_got_cfis eq (latch_fis f (io d), evq d) of (s, q) \<Rightarrow> Some (d\<lparr>io := s, evq := q\<rparr>))"
  by (simp add: fiq_handler_def cmd_fiq_def latch_fis_def ac_simps split: prod.split)

lemma loop_serves_event:
  assumes "eq_ok eq queued" and "queued (evq d) = (w, l, c) # r" and "l < 2 ^ 30" and "c < 65536" and "pc d = Loop_Top"
  shows "case (if w then f_write env else f_read env) l (if c = 0 then 65536 else c) (store (io d)) of
      None \<Rightarrow> main_step env eq d = None
    | Some t \<Rightarrow> \<exists>d'. main_step env eq d = Some d' \<and> store (io d') = t \<and> queued (evq d') = r \<and> pc d' = Loop_Top"
proof -
  obtain cmd s' q' where e: "eventq_get eq (io d, evq d) = (cmd, s', q')" "queued q' = r" "store s' = store (io d)"
    "unat (cmd_lba cmd) = l" "unat (cmd_sector_count cmd) = (if c = 0 then 65536 else c)" "(cmd_type cmd = 0) = (\<not> w)"
    using eventq_get_view [OF assms(1-4), of "io d"] by blast
  have n: "eventq_get_count eq (evq d) \<noteq> 0" using assms(1,2) by (auto simp: eq_ok_def)
  show ?thesis using n assms(5) e by (auto simp: main_step_def split: option.split)
qed

text \<open>
  C25. A 28-bit read or write of the host reaches the translation layer unchanged: on a device with an empty event
  queue, the interrupt of a command inside the disk and one pass of the main loop call \<open>ftl_read\<close> or
  \<open>ftl_write\<close>, by the direction of the command, with the address and the length the host sent, and leave
  the queue empty.
\<close>

theorem lba28_reaches_ftl:
  assumes "eq_ok eq queued" and "queued (evq d) = []" and "pc d = Loop_Top" and "SATA_INT_ENABLE (io d) AND CMD_RECV \<noteq> 0"
    and "s = latch_fis f (io d)" and "cfis_type s AND (CCL_FTL_H2D OR CCL_FTL_D2H) \<noteq> 0" and "cfis_type s AND ATR_LBA_NOR \<noteq> 0"
    and "bit (h2d_1 s) 30" and "host_lba28 s + host_count28 s \<le> NUM_LSECTORS"
  shows "case (if cfis_type s AND CCL_FTL_H2D \<noteq> 0 then f_write env else f_read env) (host_lba28 s) (host_count28 s) (store (io d)) of
      None \<Rightarrow> dev_run env eq [Fiq cmd_fiq f, Step] d = None
    | Some t \<Rightarrow> \<exists>d'. dev_run env eq [Fiq cmd_fiq f, Step] d = Some d' \<and> store (io d') = t \<and> queued (evq d') = []"
proof -
  let ?F = "(if cfis_type s AND CCL_FTL_H2D \<noteq> 0 then f_write env else f_read env) (host_lba28 s) (host_count28 s) (store (io d))"
  obtain lba n where c: "cfis_decode s = (lba, n)" "unat lba = host_lba28 s" "unat n = host_count28 s"
    using cfis_decode28 [OF assms(6-8)] by blast
  have h: "host_lba28 s < 2 ^ 28" "0 < host_count28 s" "host_count28 s \<le> 256" by (simp_all add: host_lba28_def host_count28_def Let_def)
  then have "unat (lba + n) = host_lba28 s + host_count28 s" using c(2,3) by (subst unat_add_lem [THEN iffD1]) simp_all
  then have ok: "\<not> of_nat MAX_LBA + 1 < lba + n" using assms(9) unfolding num_lsectors_word word_less_nat_alt by (simp add: num_lsectors_word)
  obtain s1 q1 where g: "handle_got_cfis eq (s, evq d) = (s1, q1)" by fastforce
  have a: "q1 = eq_insert eq (cfis_type s AND CCL_FTL_H2D \<noteq> 0) lba n (evq d)" "store s1 = store s"
    using got_cfis_accepts [OF assms(6) c(1) ok, of eq "evq d"] unfolding g by simp_all
  let ?d = "d\<lparr>io := s1, evq := q1\<rparr>"
  have f: "dev_do env eq (Fiq cmd_fiq f) d = Some ?d" using fiq_command [OF assms(4), of env eq f] g assms(5) by simp
  have v: "queued (evq ?d) = [(cfis_type s AND CCL_FTL_H2D \<noteq> 0, host_lba28 s, host_count28 s)]"
    using assms(1,2) a(1) c(2,3) h by (simp add: eq_ok_def)
  have "store (io ?d) = store (io d)" using a(2) assms(5) by (simp add: latch_fis_def)
  then have m: "case ?F of None \<Rightarrow> main_step env eq ?d = None
      | Some t \<Rightarrow> \<exists>d'. main_step env eq ?d = Some d' \<and> store (io d') = t \<and> queued (evq d') = [] \<and> pc d' = Loop_Top"
    using loop_serves_event [OF assms(1) v, of env] h assms(3) by simp
  have r: "dev_run env eq [Fiq cmd_fiq f, Step] d = main_step env eq ?d"
    by (cases "main_step env eq ?d") (simp_all only: dev_run.simps f dev_do.simps(1) bind.simps)
  show ?thesis unfolding r using m by (cases ?F) auto
qed

definition dev0 :: "((bool \<times> nat \<times> nat) list, (bool \<times> nat \<times> nat) list) device" where
  "dev0 = \<lparr>io = sata0 [], evq = [], pc = Loop_Top\<rparr>"

theorem lba28_reaches_ftl_witness:
  "\<exists>d'. dev_run log_env eq_ref [Fiq cmd_fiq \<lparr>fis0 = 0x00CA0000, fis1 = 0x40000005, fis2 = 0, fis3 = 7, payload = []\<rparr>, Step] dev0 = Some d'
     \<and> store (io d') = [(True, 5, 7)]"
proof -
  let ?f = "\<lparr>fis0 = 0x00CA0000, fis1 = 0x40000005, fis2 = 0, fis3 = 7, payload = []\<rparr>"
  let ?s = "latch_fis ?f (io dev0)"
  have t: "cfis_type ?s = ATR_LBA_NOR + CCL_FTL_H2D"
    by (simp add: cfis_type_def cfis_code_def latch_fis_def ata_cmd_class_table_def)
  have h: "host_lba28 ?s = 5" "host_count28 ?s = 7" by (simp_all add: host_lba28_def host_count28_def latch_fis_def)
  have b: "bit (h2d_1 ?s) 30" by (simp add: latch_fis_def bit_simps)
  have d: "evq dev0 = []" "pc dev0 = Loop_Top" "SATA_INT_ENABLE (io dev0) AND CMD_RECV \<noteq> 0" "store (io dev0) = []"
    by (simp_all add: dev0_def sata0_def CMD_RECV_def)
  have w: "f_write log_env 5 7 [] = Some [(True, 5, 7)]" by (simp add: log_env_def)
  show ?thesis using lba28_reaches_ftl [OF eq_ref_ok d(1-3) refl _ _ b, of log_env] unfolding t h d(4)
    by (auto simp: class_defs geom w simp del: dev_run.simps)
qed


subsection \<open>The life of a slow command\<close>

definition slow_request :: "'s sata \<Rightarrow> u32 \<Rightarrow> u32 \<Rightarrow> slow_status \<Rightarrow> slow_cmd_t" where
  "slow_request s lba n st = \<lparr>status = st, code = cfis_code s, sc_lba = lba, sc_count = n\<rparr>"

lemma got_cfis_slow:
  assumes "cfis_type s AND (CCL_FTL_H2D OR CCL_FTL_D2H) = 0" and "cfis_decode s = (lba, n)" and "\<not> of_nat MAX_LBA + 1 < lba + n"
  shows "handle_got_cfis eq (s, q) = (s\<lparr>ctx := (ctx s)\<lparr>slow_cmd := slow_request s lba n SLOW_CMD_STATUS_PENDING\<rparr>\<rparr>, q)"
  using assms by (simp add: handle_got_cfis_def slow_request_def Let_def)

lemma fiq_slow:
  assumes "SATA_INT_ENABLE (io d) AND CMD_RECV \<noteq> 0" and "s = latch_fis f (io d)" and "cfis_type s AND (CCL_FTL_H2D OR CCL_FTL_D2H) = 0"
    and "cfis_decode s = (lba, n)" and "\<not> of_nat MAX_LBA + 1 < lba + n"
  shows "dev_do env eq (Fiq cmd_fiq f) d = Some (d\<lparr>io := s\<lparr>ctx := (ctx s)\<lparr>slow_cmd := slow_request s lba n SLOW_CMD_STATUS_PENDING\<rparr>\<rparr>\<rparr>)"
  unfolding fiq_command [OF assms(1)] assms(2) [symmetric] got_cfis_slow [OF assms(3-5)] by simp

text \<open>
  C26. A command for a handler is executed once: on an idle device, the interrupt of the command and the passes
  of the main loop run the handler the table gives, with the decoded address and length, while the status
  is busy, and leave the device idle again.
\<close>

theorem slow_command_served:
  assumes "eq_ok eq queued" and "queued (evq d) = []" and "pc d = Loop_Top" and "SATA_INT_ENABLE (io d) AND CMD_RECV \<noteq> 0"
    and "s = latch_fis f (io d)" and "cfis_type s AND (CCL_FTL_H2D OR CCL_FTL_D2H) = 0" and "cfis_decode s = (lba, n)"
    and "\<not> of_nat MAX_LBA + 1 < lba + n"
  shows "dev_run env eq [Fiq cmd_fiq f, Step, Step, Step] d =
     map_option (\<lambda>s'. d\<lparr>io := set_slow_status SLOW_CMD_STATUS_NONE s', pc := Loop_Top\<rparr>)
       (search_ata_function env (cfis_code s) lba n (s\<lparr>ctx := (ctx s)\<lparr>slow_cmd := slow_request s lba n SLOW_CMD_STATUS_BUSY\<rparr>\<rparr>))"
proof -
  have q: "eventq_get_count eq (evq d) = 0" using assms(1,2) by (simp add: eq_ok_def)
  have r: "dev_run env eq [Fiq cmd_fiq f, Step, Step, Step] d
     = dev_run env eq [Step, Step, Step] (d\<lparr>io := s\<lparr>ctx := (ctx s)\<lparr>slow_cmd := slow_request s lba n SLOW_CMD_STATUS_PENDING\<rparr>\<rparr>\<rparr>)"
    by (simp only: dev_run.simps fiq_slow [OF assms(4-8)] bind.simps)
  show ?thesis unfolding r
    by (cases "search_ata_function env (cfis_code s) lba n (s\<lparr>ctx := (ctx s)\<lparr>slow_cmd := slow_request s lba n SLOW_CMD_STATUS_BUSY\<rparr>\<rparr>)")
      (simp_all add: main_step_def q assms(3) slow_request_def set_slow_status_def)
qed

text \<open>
  A command that arrives while a handler runs is lost: the interrupt marks it pending, the main loop then
  resets the status to none, and however long it runs on, nothing is sent to the host and the store does
  not change. The last write-buffer packet is answered before its command is executed, so the first poll
  of the host can arrive in this window.
\<close>

theorem busy_command_lost:
  assumes "eq_ok eq queued" and "queued (evq d) = []" and "pc d = End_Slow" and "SATA_INT_ENABLE (io d) AND CMD_RECV \<noteq> 0"
    and "s = latch_fis f (io d)" and "cfis_type s AND (CCL_FTL_H2D OR CCL_FTL_D2H) = 0" and "cfis_decode s = (lba, n)"
    and "\<not> of_nat MAX_LBA + 1 < lba + n"
  shows "\<exists>d'. dev_run env eq (Fiq cmd_fiq f # Step # replicate k Step) d = Some d' \<and> status (slow_cmd (ctx (io d'))) = SLOW_CMD_STATUS_NONE
     \<and> sata_out (io d') = sata_out (io d) \<and> store (io d') = store (io d) \<and> pc d' = Loop_Top"
proof -
  let ?d = "d\<lparr>io := set_slow_status SLOW_CMD_STATUS_NONE (s\<lparr>ctx := (ctx s)\<lparr>slow_cmd := slow_request s lba n SLOW_CMD_STATUS_PENDING\<rparr>\<rparr>), pc := Loop_Top\<rparr>"
  have q: "eventq_get_count eq (evq d) = 0" using assms(1,2) by (simp add: eq_ok_def)
  have "dev_run env eq (Fiq cmd_fiq f # Step # replicate k Step) d = dev_run env eq (replicate k Step) ?d"
    by (simp only: dev_run.simps fiq_slow [OF assms(4-8)] bind.simps) (simp add: main_step_def assms(3))
  also have "\<dots> = Some ?d"
    by (induction k) (simp_all add: main_step_def q set_slow_status_def)
  finally show ?thesis by (simp add: set_slow_status_def assms(5) latch_fis_def)
qed

lemma buffer_command_accepted:
  assumes "fis0 f \<in> {0x00E40000, 0x00E80000}" and "s = latch_fis f t"
  shows "cfis_type s AND (CCL_FTL_H2D OR CCL_FTL_D2H) = 0" "cfis_decode s = (0, 0)" "\<not> of_nat MAX_LBA + 1 < (0 :: u32) + 0"
    "cfis_code s = unat (drop_bit 16 (fis0 f))"
proof -
  have t: "cfis_type s = ATR_LOCK_FREE + CCL_OTHER" using assms
    by (auto simp: cfis_type_def cfis_code_def latch_fis_def ata_cmd_class_table_def)
  show "cfis_type s AND (CCL_FTL_H2D OR CCL_FTL_D2H) = 0" unfolding t by (simp add: class_defs)
  show "cfis_decode s = (0, 0)" unfolding cfis_decode_def Let_def t by (simp add: class_defs)
  show "\<not> of_nat MAX_LBA + 1 < (0 :: u32) + 0" by simp
  show "cfis_code s = unat (drop_bit 16 (fis0 f))" using assms by (auto simp: cfis_code_def latch_fis_def)
qed

theorem slow_command_served_witness:
  "\<exists>d'. dev_run log_env eq_ref [Fiq cmd_fiq \<lparr>fis0 = 0x00E80000, fis1 = 0, fis2 = 0, fis3 = 0, payload = []\<rparr>, Step, Step, Step] dev0 = Some d'"
proof -
  let ?f = "\<lparr>fis0 = 0x00E80000, fis1 = 0, fis2 = 0, fis3 = 0, payload = []\<rparr>"
  have ok: "search_ok log_env" by (simp add: search_ok_def log_env_def)
  have d: "evq dev0 = []" "pc dev0 = Loop_Top" "SATA_INT_ENABLE (io dev0) AND CMD_RECV \<noteq> 0"
    by (simp_all add: dev0_def sata0_def CMD_RECV_def)
  have f: "fis0 ?f \<in> {0x00E40000, 0x00E80000}" by simp
  have w: "search_ata_function log_env 0xE8 = ata_write_buffer log_env"
    using ok by (simp add: search_ata_function_def search_ok_def ata_command_code_table_def ata_function_table_def CMD_TABLE_SIZE_def)
  note b = buffer_command_accepted [OF f refl]
  have c: "cfis_code (latch_fis ?f (io dev0)) = 0xE8" using b(4) [of "io dev0"] by simp
  show ?thesis unfolding slow_command_served [OF eq_ref_ok d refl b(1-3)] c w
    by (simp add: ata_write_buffer_def log_env_def pio_sector_transfer_def Let_def int32_def send_status_to_host_def
        send_non_data_fis_def set_ctrl_2_def emit_def latch_fis_def dev0_def sata0_def)
qed

theorem busy_command_lost_witness:
  "\<exists>d'. dev_run log_env eq_ref (Fiq cmd_fiq \<lparr>fis0 = 0x00E40000, fis1 = 0, fis2 = 0, fis3 = 0, payload = []\<rparr> # Step # replicate 9 Step)
      (dev0\<lparr>pc := End_Slow\<rparr>) = Some d' \<and> sata_out (io d') = []"
proof -
  let ?d = "dev0\<lparr>pc := End_Slow\<rparr>" and ?f = "\<lparr>fis0 = 0x00E40000, fis1 = 0, fis2 = 0, fis3 = 0, payload = []\<rparr>"
  have d: "evq ?d = []" "pc ?d = End_Slow" "SATA_INT_ENABLE (io ?d) AND CMD_RECV \<noteq> 0" and o: "sata_out (io ?d) = []"
    by (simp_all add: dev0_def sata0_def CMD_RECV_def)
  have f: "fis0 ?f \<in> {0x00E40000, 0x00E80000}" by simp
  show ?thesis using busy_command_lost [OF eq_ref_ok d refl buffer_command_accepted(1-3) [OF f refl], of log_env 9] o by auto
qed


end
