(* ===== verification/Copy_Path.thy ===== *)
theory Copy_Path
  imports Compute_Cmd Sata_Isr
begin

text \<open>
  The whole path of a copy, from the file names on the host to the sectors on the device: the command that
  \<open>issd_createCmd\<close> builds and \<open>issd_sendCmd\<close> sends is received by the WRITE BUFFER handler packet by packet
  and executed by \<open>issd_process_cmd\<close> on the tutorial layer. The two sides agree on the layout of the command,
  which each declares in a header of its own.
\<close>

subsection \<open>The words of the command\<close>

text \<open>The packets a run of the host sent to the device.\<close>

fun sent_packets :: "host_action list \<Rightarrow> u32 list list" where
  "sent_packets [] = []"
| "sent_packets (Sent_Packet p # as) = p # sent_packets as"
| "sent_packets (_ # as) = sent_packets as"

lemma send_packets_sent: "send_packets os ws is = (True, acts) \<Longrightarrow> sent_packets acts = List.map (packet ws) is"
  by (induction "is" arbitrary: acts) (auto split: if_splits prod.splits)

lemma af_words_length:
  "length (fileSize cmd) = 3 \<Longrightarrow> length (file_ext_offset cmd) = 4 \<Longrightarrow> length (fileExtArr cmd) = 4090 \<Longrightarrow> length (af_words cmd) = 8192"
  by (simp add: af_words_def ext_words_def length_concat comp_def sum_list_triv)

lemma concat_pairs_nth:
  "i < length xs \<Longrightarrow> (concat (List.map (\<lambda>e. [f e, g e]) xs) @ zs) ! (2 * i) = f (xs ! i)
     \<and> (concat (List.map (\<lambda>e. [f e, g e]) xs) @ zs) ! (2 * i + 1) = g (xs ! i)"
proof (induction xs arbitrary: i)
  case (Cons x xs) then show ?case by (cases i) simp_all
qed simp

lemma af_words_header:
  assumes "fileSize cmd = [f0, f1, f2]" and "file_ext_offset cmd = [o0, o1, o2, o3]"
  shows "af_words cmd ! 0 = of_int (afCommand.num_packet cmd)" "af_words cmd ! 1 = of_int (af_opType cmd)" "af_words cmd ! 2 = of_int (isOK cmd)"
    "af_words cmd ! 4 = of_nat f0" "af_words cmd ! 7 = of_nat o0" "af_words cmd ! 8 = of_nat o1" "af_words cmd ! 9 = of_nat o2"
  by (simp_all add: af_words_def assms)

lemma af_words_ext:
  assumes "fileSize cmd = [f0, f1, f2]" and "file_ext_offset cmd = [o0, o1, o2, o3]" and "i < length (fileExtArr cmd)"
  shows "af_words cmd ! (11 + 2 * i) = of_nat (lba (fileExtArr cmd ! i))" "af_words cmd ! (12 + 2 * i) = of_nat (len (fileExtArr cmd ! i))"
proof -
  let ?h = "[of_int (afCommand.num_packet cmd), of_int (af_opType cmd), of_int (isOK cmd), of_nat (num_files cmd)]
     @ List.map of_nat (fileSize cmd) @ List.map of_nat (file_ext_offset cmd)"
  have l: "length ?h = 11" by (simp add: assms)
  have e: "af_words cmd = ?h @ (concat (List.map ext_words (fileExtArr cmd)) @ [0])" by (simp add: af_words_def)
  have p: "(concat (List.map ext_words (fileExtArr cmd)) @ [0]) ! (2 * i) = of_nat (lba (fileExtArr cmd ! i))"
    "(concat (List.map ext_words (fileExtArr cmd)) @ [0]) ! (2 * i + 1) = of_nat (len (fileExtArr cmd ! i))"
    using concat_pairs_nth [OF assms(3), of "\<lambda>e. of_nat (lba e)" "\<lambda>e. of_nat (len e)" "[0]"] unfolding ext_words_def by blast+
  have n: "(?h @ ys) ! (11 + k) = ys ! k" for ys k using l by (simp only: nth_append) simp
  show "af_words cmd ! (11 + 2 * i) = of_nat (lba (fileExtArr cmd ! i))" unfolding e n by (rule p(1))
  have "12 + 2 * i = 11 + (2 * i + 1)" by simp
  then show "af_words cmd ! (12 + 2 * i) = of_nat (len (fileExtArr cmd ! i))" unfolding e by (simp only: n p(2))
qed

definition ext_pair :: "lbaExt \<Rightarrow> nat \<times> nat" where
  "ext_pair e = (lba e, len e)"

lemma sectors_of_pairs: "sectors_of (List.map ext_pair es) = concat (List.map ext_sectors es)"
  by (induction es) (simp_all add: ext_pair_def ext_sectors_def)

lemma ext_bound: "0 < len e \<Longrightarrow> set (ext_sectors e) \<subseteq> {..<N} \<Longrightarrow> lba e + len e \<le> N"
  using subsetD [of "set (ext_sectors e)" "{..<N}" "lba e + len e - 1"] by (simp add: ext_sectors_def) linarith

lemma num_lsectors_32: "NUM_LSECTORS < 4294967296"
  by (simp add: geom)

lemma unat_sector: "a \<le> NUM_LSECTORS \<Longrightarrow> unat (of_nat a :: u32) = a"
  using num_lsectors_32 by (simp add: unat_of_nat)

lemma cmd_layout:
  "cmd_opType = ISSD_CMD_BUFFER_ADDR + 4 * 1" "cmd_fileSize 0 = ISSD_CMD_BUFFER_ADDR + 4 * 4" "cmd_file_ext_offset 0 = ISSD_CMD_BUFFER_ADDR + 4 * 7"
  "cmd_file_ext_offset 1 = ISSD_CMD_BUFFER_ADDR + 4 * 8" "cmd_file_ext_offset 2 = ISSD_CMD_BUFFER_ADDR + 4 * 9"
  "EXT_BASE + 8 * i = ISSD_CMD_BUFFER_ADDR + 4 * (11 + 2 * i)" "EXT_BASE + 8 * i + 4 = ISSD_CMD_BUFFER_ADDR + 4 * (12 + 2 * i)"
  by (simp_all add: cmd_opType_def cmd_fileSize_def cmd_file_ext_offset_def EXT_BASE_def Backup_Op.ISSD_MAX_OP_FILES_def)

lemma has_exts_of_words:
  assumes w: "\<And>j. j < N \<Longrightarrow> m (ISSD_CMD_BUFFER_ADDR + 4 * j) = af_words cmd ! j" and N: "11 + 2 * (o1 + k) \<le> N" "o1 + k < 4032"
    and c: "fileSize cmd = [f0, f1, f2]" "file_ext_offset cmd = [p0, p1, p2, p3]" "length (fileExtArr cmd) = 4090"
    and b: "\<forall>e \<in> set (take k (drop o1 (fileExtArr cmd))). lba e + len e \<le> NUM_LSECTORS"
  shows "has_exts m o1 (List.map ext_pair (take k (drop o1 (fileExtArr cmd))))"
proof -
  let ?es = "take k (drop o1 (fileExtArr cmd))"
  have l: "length ?es = k" using N(2) c(3) by simp
  have "unat (m (EXT_BASE + 8 * (o1 + j))) = lba (?es ! j) \<and> unat (m (EXT_BASE + 8 * (o1 + j) + 4)) = len (?es ! j)
      \<and> lba (?es ! j) + len (?es ! j) \<le> NUM_LSECTORS" if j: "j < k" for j
  proof -
    have e: "?es ! j = fileExtArr cmd ! (o1 + j)" using j N(2) c(3) by simp
    have bd: "lba (?es ! j) + len (?es ! j) \<le> NUM_LSECTORS" using b j l nth_mem [of j ?es] by simp
    have i: "o1 + j < length (fileExtArr cmd)" using j N(2) c(3) by simp
    have "11 + 2 * (o1 + j) < N" "12 + 2 * (o1 + j) < N" using j N(1) by simp_all
    note w1 = w [OF this(1)] and w2 = w [OF this(2)]
    have "m (EXT_BASE + 8 * (o1 + j)) = of_nat (lba (?es ! j))"
      unfolding cmd_layout(6) w1 e by (rule af_words_ext(1) [OF c(1,2) i])
    moreover have "m (EXT_BASE + 8 * (o1 + j) + 4) = of_nat (len (?es ! j))"
      unfolding cmd_layout(7) w2 e by (rule af_words_ext(2) [OF c(1,2) i])
    ultimately show ?thesis using bd by (simp add: unat_sector)
  qed
  then show ?thesis unfolding has_exts_def using N(2) l by (simp add: ext_pair_def ISSD_CMD_BYTES_def buffer_layout(3))
qed

lemma backup_cmd_of_words:
  assumes w: "\<And>j. j < N \<Longrightarrow> m (ISSD_CMD_BUFFER_ADDR + 4 * j) = af_words cmd ! j" and N: "11 + 2 * (n + k) \<le> N" "n + k < 4032"
    and c: "fileSize cmd = [F, f1, f2]" "file_ext_offset cmd = [0, n, n + k, 0]" "length (fileExtArr cmd) = 4090" "af_opType cmd = ISSD_FILECOPY"
    and F: "F < 2147483648"
    and b: "\<forall>e \<in> set (take (n + k) (fileExtArr cmd)). lba e + len e \<le> NUM_LSECTORS"
  shows "backup_cmd m 0 F (List.map ext_pair (take n (fileExtArr cmd))) (List.map ext_pair (take k (drop n (fileExtArr cmd))))"
proof -
  have "take (n + k) (fileExtArr cmd) = take n (fileExtArr cmd) @ take k (drop n (fileExtArr cmd))" by (rule take_add)
  then have b1: "\<forall>e \<in> set (take n (drop 0 (fileExtArr cmd))). lba e + len e \<le> NUM_LSECTORS"
    and b2: "\<forall>e \<in> set (take k (drop n (fileExtArr cmd))). lba e + len e \<le> NUM_LSECTORS" using b by simp_all
  have h: "m (ISSD_CMD_BUFFER_ADDR + 4 * j) = af_words cmd ! j" if "j < 11" for j using w N(1) that by simp
  have u: "unat (of_nat a :: u32) = a" if "a < 4032" for a using that by (simp add: unat_of_nat)
  have v: "unat (of_nat F :: u32) = F" using F by (simp add: unat_of_nat)
  have "has_exts m 0 (List.map ext_pair (take n (fileExtArr cmd)))" using has_exts_of_words [OF w _ _ c(1-3) b1] N by simp
  moreover have "has_exts m n (List.map ext_pair (take k (drop n (fileExtArr cmd))))" using has_exts_of_words [OF w _ _ c(1-3) b2] N by simp
  moreover have "length (take n (fileExtArr cmd)) = n" "length (take k (drop n (fileExtArr cmd))) = k" using N(2) c(3) by simp_all
  moreover have "m cmd_opType = 0" "m (cmd_fileSize 0) = of_nat F" "m (cmd_file_ext_offset 0) = of_nat 0"
    "m (cmd_file_ext_offset 1) = of_nat n" "m (cmd_file_ext_offset 2) = of_nat (n + k)"
    unfolding cmd_layout using h [of 1] h [of 4] h [of 7] h [of 8] h [of 9] af_words_header [OF c(1,2)] c(4)
    by (simp_all add: ISSD_FILECOPY_def)
  ultimately show ?thesis unfolding backup_cmd_def using N(2) F by (simp add: u v del: of_nat_add)
qed

subsection \<open>From the host to the flash\<close>

lemma sector_of_packet: "k < n \<Longrightarrow> 128 * n \<le> length ws \<Longrightarrow> sector_of (take (128 * n) ws) k = packet ws k"
  by (simp add: sector_of_def packet_def geom take_drop min_def)

lemma packets_of_size: "e < 4032 \<Longrightarrow> \<exists>n. packets_of (44 + 8 * int e) = int n \<and> 0 < n \<and> n \<le> 64 \<and> 11 + 2 * e \<le> 128 * n"
proof -
  assume e: "e < 4032"
  let ?q = "(555 + 8 * e) div 512"
  have "?q * 512 \<le> 555 + 8 * e" "555 + 8 * e < ?q * 512 + 512" by (simp_all add: dividend_less_div_times)
  then have "0 < ?q" "?q \<le> 64" "11 + 2 * e \<le> 128 * ?q" using e by linarith+
  moreover have "packets_of (44 + 8 * int e) = int ?q" by (simp add: packets_of_def cdiv_nonneg geom zdiv_int)
  ultimately show "\<exists>n. packets_of (44 + 8 * int e) = int n \<and> 0 < n \<and> n \<le> 64 \<and> 11 + 2 * e \<le> 128 * n" by blast
qed

lemma sendCmd_packets:
  assumes "issd_sendCmd os cmd (44 + 8 * int e) dev = (True, cmd', sent)" and "e < 4032"
  shows "\<exists>n. cmd' = cmd\<lparr>afCommand.num_packet := int n\<rparr> \<and> 0 < n \<and> n \<le> 64 \<and> 11 + 2 * e \<le> 128 * n
    \<and> sent_packets sent = List.map (packet (af_words cmd')) [0..<n]"
proof -
  obtain n where n: "packets_of (44 + 8 * int e) = int n" "0 < n" "n \<le> 64" "11 + 2 * e \<le> 128 * n" using packets_of_size [OF assms(2)] by blast
  have "cmd' = cmd\<lparr>afCommand.num_packet := int n\<rparr>" "send_packets os (af_words cmd') [0..<n] = (True, sent)"
    using assms(1) by (auto simp: issd_sendCmd_def sata_writeBuffer_def n(1) Let_def split: if_splits prod.splits)
  then show ?thesis using n send_packets_sent by blast
qed

text \<open>The packets are received, and the command they make up is executed on an unchanged store.\<close>

lemma packets_processed:
  assumes i: "flash_ok tut_layout hw" "tut_inv (store s)" "pio_ok pio" "num_packet s = 0" "packet_rcv_buf_offset s = 0"
    and n: "0 < n" "n \<le> 64" "length ws = 8192" "unat (ws ! 0) = n"
  shows "\<exists>t. tut_store_inv hw t \<and> same_store (store s) t \<and> (\<forall>j < 128 * n. tdram t (ISSD_CMD_BUFFER_ADDR + 4 * j) = ws ! j)
    \<and> (case issd_process_cmd (tut_dev hw) t of
         None \<Rightarrow> receive_all (tut_sata hw pio search) (List.map (packet ws) [0..<n]) s = None
       | Some t' \<Rightarrow> \<exists>s'. receive_all (tut_sata hw pio search) (List.map (packet ws) [0..<n]) s = Some s' \<and> store s' = t'
           \<and> num_packet s' = 0 \<and> packet_rcv_buf_offset s' = 0)"
proof -
  let ?ws = "take (128 * n) ws"
  have l: "128 * n \<le> length ws" using n(2,3) by simp
  have p: "List.map (sector_of ?ws) [0..<n] = List.map (packet ws) [0..<n]"
    by (rule map_cong [OF refl]) (simp add: sector_of_packet [OF _ l])
  have w: "length ?ws = 128 * n" "unat (?ws ! 0) = n" using l n(1,4) by simp_all
  have inv: "pio_ok pio \<and> tut_store_inv hw (store s)" using i by (simp add: tut_store_inv_def)
  have f: "f_process (tut_sata hw pio search) = issd_process_cmd (tut_dev hw)" by (simp add: tut_sata_def)
  from tcb.receive_from [OF inv w(1) n(1,2) w(2), where search = search, unfolded p f] i(4,5) obtain t where
    t: "tut_store_inv hw t" "tut_obs t = tut_obs (store s)" "\<forall>j < 128 * n. tdram t (ISSD_CMD_BUFFER_ADDR + 4 * j) = ?ws ! j"
      "case issd_process_cmd (tut_dev hw) t of
         None \<Rightarrow> receive_all (tut_sata hw pio search) (List.map (packet ws) [0..<n]) s = None
       | Some t' \<Rightarrow> \<exists>s'. receive_all (tut_sata hw pio search) (List.map (packet ws) [0..<n]) s = Some s' \<and> store s' = t'
           \<and> num_packet s' = 0 \<and> packet_rcv_buf_offset s' = 0" by auto
  have "\<forall>j < 128 * n. tdram t (ISSD_CMD_BUFFER_ADDR + 4 * j) = ws ! j" using t(3) by simp
  then show ?thesis using t(1,4) tut_obs_same [OF t(2)] by blast
qed

text \<open>What the host sends: packets whose words, once in memory, are a backup command for the sectors of the files.\<close>

lemma host_sends_command:
  assumes "file_on_disk os env 0 ifname" "file_on_disk os env 1 ofn"
    "issd_createCmd os max_fileExt_num env ifname ifname2 ofn (af_zero ISSD_FILECOPY) = (True, cmd, acts)"
    "issd_sendCmd os cmd (44 + 8 * int (file_ext_offset cmd ! num_files cmd)) dev = (True, cmd', sent)"
    and "S = file_sectors os env 0 ifname" "D = file_sectors os env 1 ofn" "set (S @ D) \<subseteq> {..<NUM_LSECTORS}"
    and "get_fileSize os 0 ifname = int F" "F < 2147483648"
  shows "\<exists>ws p xs ys. 0 < p \<and> p \<le> 64 \<and> sent_packets sent = List.map (packet ws) [0..<p] \<and> length ws = 8192 \<and> unat (ws ! 0) = p
    \<and> sectors_of xs = S \<and> sectors_of ys = D
    \<and> (\<forall>m. (\<forall>j < 128 * p. m (ISSD_CMD_BUFFER_ADDR + 4 * j) = ws ! j) \<longrightarrow> backup_cmd m 0 F xs ys)"
proof -
  from createCmd_extents [OF assms(1-3)] obtain n m where
    off: "file_ext_offset cmd = [0, n, n + m, 0]" "n + m < max_fileExt_num" "length (fileExtArr cmd) = 4090"
    and S: "concat (List.map ext_sectors (take n (fileExtArr cmd))) = S" and D: "concat (List.map ext_sectors (take m (drop n (fileExtArr cmd)))) = D"
    and ne: "\<forall>e \<in> set (take (n + m) (fileExtArr cmd)). 0 < len e" and fs: "length (fileSize cmd) = 3" "fileSize cmd ! 0 = F"
    and c: "num_files cmd = 2" "af_opType cmd = ISSD_FILECOPY"
    using assms(5,6,8,9) by (auto simp: UINT32_of_def)
  have nm: "n + m < 4032" using off(2) by (simp add: max_fileExt_num_def geom)
  have e2: "file_ext_offset cmd ! num_files cmd = n + m" by (simp add: off(1) c(1) numeral_2_eq_2)
  from sendCmd_packets [OF assms(4) [unfolded e2] nm] obtain p where
    p: "cmd' = cmd\<lparr>afCommand.num_packet := int p\<rparr>" "0 < p" "p \<le> 64" "11 + 2 * (n + m) \<le> 128 * p"
      "sent_packets sent = List.map (packet (af_words cmd')) [0..<p]" by blast
  obtain f1 f2 where fs': "fileSize cmd = [F, f1, f2]"
    using fs by (cases "fileSize cmd" rule: list.exhaust) (auto simp: length_Suc_conv numeral_3_eq_3)
  have c': "fileSize cmd' = [F, f1, f2]" "file_ext_offset cmd' = [0, n, n + m, 0]" "length (fileExtArr cmd') = 4090"
    "af_opType cmd' = ISSD_FILECOPY" "fileExtArr cmd' = fileExtArr cmd" "afCommand.num_packet cmd' = int p"
    using off fs' c by (simp_all add: p(1))
  have w: "unat (af_words cmd' ! 0) = p" using af_words_header(1) [OF c'(1,2)] p(3) by (simp add: c'(6) unat_of_nat)
  have l: "length (af_words cmd') = 8192" using c'(1,2,3) by (intro af_words_length) simp_all
  have "lba e + len e \<le> NUM_LSECTORS" if e: "e \<in> set (take (n + m) (fileExtArr cmd))" for e
  proof (rule ext_bound)
    show "0 < len e" using ne e by blast
    have "set (ext_sectors e) \<subseteq> set (S @ D)" using e unfolding S [symmetric] D [symmetric] by (auto simp: take_add)
    then show "set (ext_sectors e) \<subseteq> {..<NUM_LSECTORS}" using assms(7) by (rule subset_trans)
  qed
  then have b: "\<forall>e \<in> set (take (n + m) (fileExtArr cmd')). lba e + len e \<le> NUM_LSECTORS" unfolding c'(5) by blast
  have "backup_cmd mem 0 F (List.map ext_pair (take n (fileExtArr cmd))) (List.map ext_pair (take m (drop n (fileExtArr cmd))))"
    if "\<forall>j < 128 * p. mem (ISSD_CMD_BUFFER_ADDR + 4 * j) = af_words cmd' ! j" for mem
    using backup_cmd_of_words [OF _ p(4) nm c'(1-4) assms(9) b, of mem] that unfolding c'(5) by blast
  moreover have "sectors_of (List.map ext_pair (take n (fileExtArr cmd))) = S"
    "sectors_of (List.map ext_pair (take m (drop n (fileExtArr cmd)))) = D" by (simp_all add: sectors_of_pairs S D)
  ultimately show ?thesis using p(2,3,5) w l by blast
qed


subsection \<open>A concrete copy\<close>

text \<open>The disk of a host with the files of \<open>demo_os\<close>: page 44 holds the source.\<close>

definition copy_store :: tstate where
  "copy_store = set_dram ((\<lambda>_. 0)(PAGE_MAP_ADDR + 176 := 127)) tstate0"

lemma copy_store_map: "lpn < NUM_LPAGES \<Longrightarrow> map_entry copy_store lpn = (if lpn = 44 then 127 else 0)"
  by (auto simp: map_entry_def copy_store_def set_dram_def on_fl_def tdram_def)

lemma copy_store_free_rows: "b < NUM_BANKS \<Longrightarrow> free_rows copy_store b = [PAGES_PER_VBLK..<PAGES_PER_BANK]"
proof -
  assume "b < NUM_BANKS"
  then have "bad_block copy_store b v = Some False" for v
    by (simp add: bad_block_def is_bad_block_def search_equ_small scan_list_aligned copy_store_def set_dram_def on_fl_def tstate0_def)
  then show ?thesis by (simp add: free_rows_def usable_def) (simp add: copy_store_def set_dram_def on_fl_def tstate0_def)
qed

lemma copy_store_ok: "tut_inv copy_store"
proof -
  have le: "PAGES_PER_VBLK \<le> PAGES_PER_BANK" by (simp add: geom)
  have d: "g_target_row copy_store = (\<lambda>_. PAGES_PER_VBLK)" "g_target_bank copy_store = 0" "scan_ok copy_store"
    "nand (fl copy_store) = nand (fl tstate0)"
    by (simp_all add: copy_store_def set_dram_def on_fl_def tstate0_def scan_ok_def)
  have b: "127 div PAGES_PER_BANK = 0" "127 mod PAGES_PER_BANK < PAGES_PER_VBLK" "0 < NUM_BANKS" by (simp_all add: geom)
  have "blank (nand (fl tstate0)) c r" for c r by (simp add: blank_def tstate0_def fstate0_def nand0_def)
  then show ?thesis using le b copy_store_map by (simp add: tut_inv_def d)
qed

lemma demo_sectors: "f < 2 \<Longrightarrow> file_sectors demo_os demo_ienv f n = [2848 + 800 * f..<2864 + 800 * f]"
proof -
  assume "f < 2"
  then have w: "wrap32 (100 * (f + 1) + i) = 100 * (f + 1) + i" if "i < 2" for i using that by (simp add: wrap32_def)
  have u: "[0..<2] = [0, Suc 0]" by (simp add: upt_rec)
  have "[2848 + 800 * f..<2856 + 800 * f] @ [2856 + 800 * f..<2864 + 800 * f] = [2848 + 800 * f..<2864 + 800 * f]"
    by (rule upt_split [symmetric]) simp_all
  then show ?thesis using w [of 0] w [of 1]
    by (simp add: file_sectors_def nr_blocks_of_def demo_ienv_def demo_blocks u block_sectors_def algebra_simps del: upt.simps)
qed

lemma send_packets_all: "(\<And>i. os_sg_write os i) \<Longrightarrow> fst (send_packets os ws is)"
  by (induction "is") (auto simp: split_beta)

lemma demo_send: "\<exists>cmd' sent. issd_sendCmd demo_os cmd n dev = (True, cmd', sent)"
proof -
  have "fst (send_packets demo_os ws is)" for ws "is" by (rule send_packets_all) (simp add: demo_os_def)
  moreover have "os_open_dev demo_os dev" "os_malloc demo_os" by (simp_all add: demo_os_def)
  ultimately show ?thesis by (auto simp: issd_sendCmd_def sata_writeBuffer_def Let_def split_beta)
qed


end
