(* ===== verification/Greedy_Ftl.thy ===== *)
theory Greedy_Ftl
  imports Page_Requests
begin

text \<open>
  The greedy translation layer (\<open>ftl_greedy/ftl.c\<close>, \<open>ftl_greedy/ftl.h\<close>): page mapping with one append block per
  bank, garbage collection of the block with the fewest valid pages, and its metadata logged to the flash.
  Names that the tutorial layer has too carry the prefix \<open>gr_\<close> or \<open>GR_\<close>. All functions of the layer are here; what
  they do is proved in \<open>Greedy_Gc\<close> and \<open>Greedy_Store\<close>.
\<close>

subsection \<open>DRAM layout\<close>

definition GR_NUM_COPY_BUFFERS :: nat where
  "GR_NUM_COPY_BUFFERS = NUM_BANKS_MAX"

definition GR_NUM_FTL_BUFFERS :: nat where
  "GR_NUM_FTL_BUFFERS = NUM_BANKS"

definition GR_NUM_HIL_BUFFERS :: nat where
  "GR_NUM_HIL_BUFFERS = 1"

definition GR_NUM_TEMP_BUFFERS :: nat where
  "GR_NUM_TEMP_BUFFERS = 1"

definition BAD_BLK_BMP_BYTES :: nat where
  "BAD_BLK_BMP_BYTES = (NUM_VBLKS div 8 + DRAM_ECC_UNIT - 1) div DRAM_ECC_UNIT * DRAM_ECC_UNIT"

definition GR_PAGE_MAP_BYTES :: nat where
  "GR_PAGE_MAP_BYTES = (NUM_LPAGES * 4 + BYTES_PER_SECTOR - 1) div BYTES_PER_SECTOR * BYTES_PER_SECTOR"

definition VCOUNT_BYTES :: nat where
  "VCOUNT_BYTES = (NUM_BANKS * VBLKS_PER_BANK * 2 + BYTES_PER_SECTOR - 1) div BYTES_PER_SECTOR * BYTES_PER_SECTOR"

definition GR_DRAM_BYTES_OTHER :: nat where
  "GR_DRAM_BYTES_OTHER = (GR_NUM_COPY_BUFFERS + GR_NUM_FTL_BUFFERS + GR_NUM_HIL_BUFFERS + GR_NUM_TEMP_BUFFERS) * BYTES_PER_PAGE
     + BAD_BLK_BMP_BYTES + GR_PAGE_MAP_BYTES + VCOUNT_BYTES"

definition GR_NUM_RW_BUFFERS :: nat where
  "GR_NUM_RW_BUFFERS = (DRAM_SIZE - GR_DRAM_BYTES_OTHER) div BYTES_PER_PAGE - 1"

definition GR_NUM_RD_BUFFERS :: nat where
  "GR_NUM_RD_BUFFERS = (GR_NUM_RW_BUFFERS div 8 + NUM_BANKS - 1) div NUM_BANKS * NUM_BANKS"

definition GR_NUM_WR_BUFFERS :: nat where
  "GR_NUM_WR_BUFFERS = GR_NUM_RW_BUFFERS - GR_NUM_RD_BUFFERS"

definition GR_RD_BUF_ADDR :: nat where
  "GR_RD_BUF_ADDR = DRAM_BASE"

definition GR_RD_BUF_BYTES :: nat where
  "GR_RD_BUF_BYTES = GR_NUM_RD_BUFFERS * BYTES_PER_PAGE"

definition GR_WR_BUF_ADDR :: nat where
  "GR_WR_BUF_ADDR = GR_RD_BUF_ADDR + GR_RD_BUF_BYTES"

definition GR_WR_BUF_BYTES :: nat where
  "GR_WR_BUF_BYTES = GR_NUM_WR_BUFFERS * BYTES_PER_PAGE"

definition GR_COPY_BUF_ADDR :: nat where
  "GR_COPY_BUF_ADDR = GR_WR_BUF_ADDR + GR_WR_BUF_BYTES"

definition GR_COPY_BUF_BYTES :: nat where
  "GR_COPY_BUF_BYTES = GR_NUM_COPY_BUFFERS * BYTES_PER_PAGE"

definition GR_FTL_BUF_ADDR :: nat where
  "GR_FTL_BUF_ADDR = GR_COPY_BUF_ADDR + GR_COPY_BUF_BYTES"

definition GR_FTL_BUF_BYTES :: nat where
  "GR_FTL_BUF_BYTES = GR_NUM_FTL_BUFFERS * BYTES_PER_PAGE"

definition GR_HIL_BUF_ADDR :: nat where
  "GR_HIL_BUF_ADDR = GR_FTL_BUF_ADDR + GR_FTL_BUF_BYTES"

definition GR_HIL_BUF_BYTES :: nat where
  "GR_HIL_BUF_BYTES = GR_NUM_HIL_BUFFERS * BYTES_PER_PAGE"

definition GR_TEMP_BUF_ADDR :: nat where
  "GR_TEMP_BUF_ADDR = GR_HIL_BUF_ADDR + GR_HIL_BUF_BYTES"

definition GR_TEMP_BUF_BYTES :: nat where
  "GR_TEMP_BUF_BYTES = GR_NUM_TEMP_BUFFERS * BYTES_PER_PAGE"

definition BAD_BLK_BMP_ADDR :: nat where
  "BAD_BLK_BMP_ADDR = GR_TEMP_BUF_ADDR + GR_TEMP_BUF_BYTES"

definition GR_PAGE_MAP_ADDR :: nat where
  "GR_PAGE_MAP_ADDR = BAD_BLK_BMP_ADDR + BAD_BLK_BMP_BYTES"

definition VCOUNT_ADDR :: nat where
  "VCOUNT_ADDR = GR_PAGE_MAP_ADDR + GR_PAGE_MAP_BYTES"

definition VC_MAX :: nat where
  "VC_MAX = 0xCDCD"

definition MISCBLK_VBN :: nat where
  "MISCBLK_VBN = 1"

definition MAPBLKS_PER_BANK :: nat where
  "MAPBLKS_PER_BANK = (GR_PAGE_MAP_BYTES div NUM_BANKS + BYTES_PER_PAGE - 1) div BYTES_PER_PAGE"

definition META_BLKS_PER_BANK :: nat where
  "META_BLKS_PER_BANK = 1 + 1 + MAPBLKS_PER_BANK"

text \<open>\<open>sizeof(misc_metadata)\<close>: two counters, the map block numbers, two counters and the list of logical pages.\<close>

definition sizeof_misc_metadata :: nat where
  "sizeof_misc_metadata = (2 + MAPBLKS_PER_BANK + 2 + PAGES_PER_VBLK) * 4"

definition NUM_MISC_META_SECT :: nat where
  "NUM_MISC_META_SECT = (sizeof_misc_metadata + BYTES_PER_SECTOR - 1) div BYTES_PER_SECTOR"

definition NUM_VCOUNT_SECT :: nat where
  "NUM_VCOUNT_SECT = (VBLKS_PER_BANK * 2 + BYTES_PER_SECTOR - 1) div BYTES_PER_SECTOR"

lemma greedy_geom [geom]:
  "GR_NUM_COPY_BUFFERS = 32"
  "GR_NUM_FTL_BUFFERS = 8"
  "GR_NUM_HIL_BUFFERS = 1"
  "GR_NUM_TEMP_BUFFERS = 1"
  "BAD_BLK_BMP_BYTES = 2176"
  "GR_PAGE_MAP_BYTES = 7801856"
  "VCOUNT_BYTES = 33280"
  "GR_DRAM_BYTES_OTHER = 9213568"
  "GR_NUM_RW_BUFFERS = 1703"
  "GR_NUM_RD_BUFFERS = 216"
  "GR_NUM_WR_BUFFERS = 1487"
  "GR_RD_BUF_ADDR = 1073741824"
  "GR_RD_BUF_BYTES = 7077888"
  "GR_WR_BUF_ADDR = 1080819712"
  "GR_WR_BUF_BYTES = 48726016"
  "GR_COPY_BUF_ADDR = 1129545728"
  "GR_COPY_BUF_BYTES = 1048576"
  "GR_FTL_BUF_ADDR = 1130594304"
  "GR_FTL_BUF_BYTES = 262144"
  "GR_HIL_BUF_ADDR = 1130856448"
  "GR_HIL_BUF_BYTES = 32768"
  "GR_TEMP_BUF_ADDR = 1130889216"
  "GR_TEMP_BUF_BYTES = 32768"
  "BAD_BLK_BMP_ADDR = 1130921984"
  "GR_PAGE_MAP_ADDR = 1130924160"
  "VCOUNT_ADDR = 1138726016"
  "MAPBLKS_PER_BANK = 30"
  "META_BLKS_PER_BANK = 32"
  "sizeof_misc_metadata = 648"
  "NUM_MISC_META_SECT = 2"
  "NUM_VCOUNT_SECT = 9"
  by (simp_all add: GR_NUM_COPY_BUFFERS_def GR_NUM_FTL_BUFFERS_def GR_NUM_HIL_BUFFERS_def GR_NUM_TEMP_BUFFERS_def BAD_BLK_BMP_BYTES_def
    GR_PAGE_MAP_BYTES_def VCOUNT_BYTES_def GR_DRAM_BYTES_OTHER_def GR_NUM_RW_BUFFERS_def GR_NUM_RD_BUFFERS_def GR_NUM_WR_BUFFERS_def
    GR_RD_BUF_ADDR_def GR_RD_BUF_BYTES_def GR_WR_BUF_ADDR_def GR_WR_BUF_BYTES_def GR_COPY_BUF_ADDR_def GR_COPY_BUF_BYTES_def
    GR_FTL_BUF_ADDR_def GR_FTL_BUF_BYTES_def GR_HIL_BUF_ADDR_def GR_HIL_BUF_BYTES_def GR_TEMP_BUF_ADDR_def GR_TEMP_BUF_BYTES_def
    BAD_BLK_BMP_ADDR_def GR_PAGE_MAP_ADDR_def VCOUNT_ADDR_def MAPBLKS_PER_BANK_def META_BLKS_PER_BANK_def sizeof_misc_metadata_def
    NUM_MISC_META_SECT_def NUM_VCOUNT_SECT_def geom)

definition greedy_layout :: buf_layout where
  "greedy_layout = \<lparr>l_rd_buf_addr = GR_RD_BUF_ADDR, l_num_rd_buffers = GR_NUM_RD_BUFFERS, l_wr_buf_addr = GR_WR_BUF_ADDR,
     l_num_wr_buffers = GR_NUM_WR_BUFFERS, l_copy_buf_addr = GR_COPY_BUF_ADDR\<rparr>"

lemma greedy_layout_fields [simp]:
  "l_rd_buf_addr greedy_layout = GR_RD_BUF_ADDR" "l_num_rd_buffers greedy_layout = GR_NUM_RD_BUFFERS" "l_wr_buf_addr greedy_layout = GR_WR_BUF_ADDR"
  "l_num_wr_buffers greedy_layout = GR_NUM_WR_BUFFERS" "l_copy_buf_addr greedy_layout = GR_COPY_BUF_ADDR"
  by (simp_all add: greedy_layout_def)

definition FTL_BUF :: "nat \<Rightarrow> nat" where
  "FTL_BUF bank = GR_FTL_BUF_ADDR + bank * BYTES_PER_PAGE"

subsection \<open>State\<close>

text \<open>The list and the map block numbers are indexed by page offset and map block.\<close>

record misc_metadata =
  cur_write_vpn :: nat
  cur_miscblk_vpn :: nat
  cur_mapblk_vpn :: "nat \<Rightarrow> nat"
  gc_vblock :: nat
  free_blk_cnt :: nat
  lpn_list_of_cur_vblock :: "nat \<Rightarrow> nat"

record ftl_statistics =
  gc_cnt :: nat
  page_wcount :: nat

record gstate =
  gfl :: fstate
  g_misc_meta :: "nat \<Rightarrow> misc_metadata"
  g_ftl_statistics :: "nat \<Rightarrow> ftl_statistics"
  g_bad_blk_count :: "nat \<Rightarrow> nat"

definition gdram :: "gstate \<Rightarrow> dram" where
  "gdram s = dram (gfl s)"

definition set_gdram :: "dram \<Rightarrow> gstate \<Rightarrow> gstate" where
  "set_gdram d s = s\<lparr>gfl := (gfl s)\<lparr>dram := d\<rparr>\<rparr>"

text \<open>A step of the flash driver, one that may fail an assertion, and a change of the metadata of one bank.\<close>

definition on_gfl :: "(fstate \<Rightarrow> fstate) \<Rightarrow> gstate \<Rightarrow> gstate" where
  "on_gfl f s = s\<lparr>gfl := f (gfl s)\<rparr>"

definition flash_do :: "(fstate \<Rightarrow> fstate option) \<Rightarrow> gstate \<Rightarrow> gstate option" where
  "flash_do f s = (case f (gfl s) of None \<Rightarrow> None | Some t \<Rightarrow> Some (s\<lparr>gfl := t\<rparr>))"

definition set_misc :: "nat \<Rightarrow> (misc_metadata \<Rightarrow> misc_metadata) \<Rightarrow> gstate \<Rightarrow> gstate" where
  "set_misc bank f s = s\<lparr>g_misc_meta := (g_misc_meta s)(bank := f (g_misc_meta s bank))\<rparr>"

definition set_stat :: "nat \<Rightarrow> (ftl_statistics \<Rightarrow> ftl_statistics) \<Rightarrow> gstate \<Rightarrow> gstate" where
  "set_stat bank f s = s\<lparr>g_ftl_statistics := (g_ftl_statistics s)(bank := f (g_ftl_statistics s bank))\<rparr>"

definition set_lpn :: "nat \<Rightarrow> nat \<Rightarrow> misc_metadata \<Rightarrow> misc_metadata" where
  "set_lpn page_num lpn m = m\<lparr>lpn_list_of_cur_vblock := (lpn_list_of_cur_vblock m)(page_num := lpn)\<rparr>"

text \<open>\<open>mem_copy\<close> between the SRAM, here words of a structure, and the DRAM.\<close>

definition sram_to_dram :: "nat \<Rightarrow> (nat \<Rightarrow> u32) \<Rightarrow> nat \<Rightarrow> dram \<Rightarrow> dram option" where
  "sram_to_dram dst w n d = do {
     ASSERT (dst mod 4 = 0);
     ASSERT (n mod 4 = 0);
     ASSERT (n \<le> MU_MAX_BYTES);
     Some (\<lambda>b. if dst \<le> b \<and> b < dst + n then w ((b - dst) div 4) else d b) }"

definition dram_to_sram :: "nat \<Rightarrow> nat \<Rightarrow> dram \<Rightarrow> (nat \<Rightarrow> u32) option" where
  "dram_to_sram src n d = do {
     ASSERT (src mod 4 = 0);
     ASSERT (n mod 4 = 0);
     ASSERT (n \<le> MU_MAX_BYTES);
     Some (\<lambda>i. d (src + 4 * i)) }"

subsection \<open>The map and the counts of valid pages\<close>

definition get_num_bank :: "nat \<Rightarrow> nat" where
  "get_num_bank lpn = lpn mod NUM_BANKS"

definition CHECK_VPAGE :: "nat \<Rightarrow> unit option" where
  "CHECK_VPAGE vpn = ASSERT (vpn < VBLKS_PER_BANK * PAGES_PER_VBLK)"

definition get_vpn :: "nat \<Rightarrow> gstate \<Rightarrow> nat option" where
  "get_vpn lpn s = do {
     ASSERT (lpn < NUM_LPAGES);
     rd32 (GR_PAGE_MAP_ADDR + lpn * 4) (gdram s) }"

definition set_vpn :: "nat \<Rightarrow> nat \<Rightarrow> gstate \<Rightarrow> gstate option" where
  "set_vpn lpn vpn s = do {
     ASSERT (lpn < NUM_LPAGES);
     ASSERT (META_BLKS_PER_BANK * PAGES_PER_VBLK \<le> vpn \<and> vpn < VBLKS_PER_BANK * PAGES_PER_VBLK);
     d \<leftarrow> wr32 (GR_PAGE_MAP_ADDR + lpn * 4) vpn (gdram s);
     Some (set_gdram d s) }"

definition vcount_addr :: "nat \<Rightarrow> nat \<Rightarrow> nat" where
  "vcount_addr bank vblock = VCOUNT_ADDR + (bank * VBLKS_PER_BANK + vblock) * 2"

definition get_vcount :: "nat \<Rightarrow> nat \<Rightarrow> gstate \<Rightarrow> nat option" where
  "get_vcount bank vblock s = do {
     ASSERT (bank < NUM_BANKS);
     ASSERT (META_BLKS_PER_BANK \<le> vblock \<and> vblock < VBLKS_PER_BANK);
     vcount \<leftarrow> rd16 (vcount_addr bank vblock) (gdram s);
     ASSERT (vcount < PAGES_PER_VBLK \<or> vcount = VC_MAX);
     Some vcount }"

definition set_vcount :: "nat \<Rightarrow> nat \<Rightarrow> nat \<Rightarrow> gstate \<Rightarrow> gstate option" where
  "set_vcount bank vblock vcount s = do {
     ASSERT (bank < NUM_BANKS);
     ASSERT (META_BLKS_PER_BANK \<le> vblock \<and> vblock < VBLKS_PER_BANK);
     ASSERT (vcount < PAGES_PER_VBLK \<or> vcount = VC_MAX);
     d \<leftarrow> wr16 (vcount_addr bank vblock) vcount (gdram s);
     Some (set_gdram d s) }"

definition bad_blk_bmp :: "nat \<Rightarrow> nat" where
  "bad_blk_bmp bank = BAD_BLK_BMP_ADDR + bank * (VBLKS_PER_BANK div 8 + 1)"

definition gr_is_bad_block :: "nat \<Rightarrow> nat \<Rightarrow> gstate \<Rightarrow> bool option" where
  "gr_is_bad_block bank vblk_offset s = tst_bit (bad_blk_bmp bank) vblk_offset (gdram s)"

subsection \<open>Garbage collection\<close>

definition get_vt_vblock :: "nat \<Rightarrow> gstate \<Rightarrow> nat option" where
  "get_vt_vblock bank s = do {
     ASSERT (bank < NUM_BANKS);
     vblock \<leftarrow> search_min 2 (VCOUNT_ADDR + bank * VBLKS_PER_BANK * 2) VBLKS_PER_BANK (gdram s);
     bad \<leftarrow> gr_is_bad_block bank vblock s;
     ASSERT (\<not> bad);
     ASSERT (META_BLKS_PER_BANK \<le> vblock \<and> vblock < VBLKS_PER_BANK);
     vcount \<leftarrow> get_vcount bank vblock s;
     ASSERT (vcount < PAGES_PER_VBLK - 1);
     Some vblock }"

text \<open>The sectors of a list of logical pages.\<close>

definition LPN_LIST_BYTES :: nat where
  "LPN_LIST_BYTES = 4 * PAGES_PER_VBLK"

definition LPN_LIST_SECT :: nat where
  "LPN_LIST_SECT = (4 * PAGES_PER_VBLK + BYTES_PER_SECTOR - 1) div BYTES_PER_SECTOR"

lemma lpn_list_geom [geom]: "LPN_LIST_BYTES = 512" "LPN_LIST_SECT = 1"
  by (simp_all add: LPN_LIST_BYTES_def LPN_LIST_SECT_def geom)

text \<open>One turn of the copy loop; the loop carries \<open>free_vpn\<close>.\<close>

definition gc_page :: "flash_hw \<Rightarrow> nat \<Rightarrow> nat \<Rightarrow> nat \<Rightarrow> nat \<Rightarrow> nat \<times> gstate \<Rightarrow> (nat \<times> gstate) option" where
  "gc_page hw bank vt_vblock gc_vblk src_page x = do {
     let (free_vpn, s) = x;
     let src_lpn = lpn_list_of_cur_vblock (g_misc_meta s bank) src_page;
     vpn \<leftarrow> get_vpn src_lpn s;
     CHECK_VPAGE vpn;
     if vpn \<noteq> vt_vblock * PAGES_PER_VBLK + src_page then Some (free_vpn, s)
     else do {
       ASSERT (src_lpn \<noteq> INVALID);
       ASSERT (src_lpn < NUM_LPAGES);
       s \<leftarrow> flash_do (nand_page_copyback hw bank vt_vblock src_page (free_vpn div PAGES_PER_VBLK) (free_vpn mod PAGES_PER_VBLK)) s;
       ASSERT (free_vpn div PAGES_PER_VBLK = gc_vblk);
       s \<leftarrow> set_vpn src_lpn free_vpn s;
       Some (free_vpn + 1, set_misc bank (set_lpn (free_vpn mod PAGES_PER_VBLK) src_lpn) s) } }"

definition garbage_collection :: "flash_hw \<Rightarrow> nat \<Rightarrow> gstate \<Rightarrow> gstate option" where
  "garbage_collection hw bank s = do {
     ASSERT (bank < NUM_BANKS);
     let s = set_stat bank (\<lambda>t. t\<lparr>gc_cnt := wrap32 (gc_cnt t + 1)\<rparr>) s;
     let s = set_stat bank (\<lambda>t. t\<lparr>gc_cnt := wrap32 (gc_cnt t + 1)\<rparr>) s;
     vt_vblock \<leftarrow> get_vt_vblock bank s;
     vcount \<leftarrow> get_vcount bank vt_vblock s;
     let gc_vblk = gc_vblock (g_misc_meta s bank);
     let free_vpn = gc_vblk * PAGES_PER_VBLK;
     ASSERT (vt_vblock \<noteq> gc_vblk);
     ASSERT (META_BLKS_PER_BANK \<le> vt_vblock \<and> vt_vblock < VBLKS_PER_BANK);
     ASSERT (vcount < PAGES_PER_VBLK - 1);
     gc_vcount \<leftarrow> get_vcount bank gc_vblk s;
     ASSERT (gc_vcount = VC_MAX);
     bad \<leftarrow> gr_is_bad_block bank gc_vblk s;
     ASSERT (\<not> bad);
     s \<leftarrow> flash_do (nand_page_ptread hw bank vt_vblock (PAGES_PER_VBLK - 1) 0 LPN_LIST_SECT (FTL_BUF bank) RETURN_WHEN_DONE) s;
     w \<leftarrow> dram_to_sram (FTL_BUF bank) LPN_LIST_BYTES (gdram s);
     let s = set_misc bank (\<lambda>m. m\<lparr>lpn_list_of_cur_vblock := \<lambda>i. unat (w i)\<rparr>) s;
     (free_vpn, s) \<leftarrow> each (gc_page hw bank vt_vblock gc_vblk) [0..<PAGES_PER_VBLK - 1] (free_vpn, s);
     ASSERT (vcount = 0 \<longrightarrow> free_vpn = gc_vblk * PAGES_PER_VBLK);
     s \<leftarrow> flash_do (nand_block_erase hw bank vt_vblock) s;
     ASSERT (free_vpn mod PAGES_PER_VBLK < PAGES_PER_VBLK - 2);
     ASSERT (free_vpn mod PAGES_PER_VBLK = vcount);
     s \<leftarrow> set_vcount bank vt_vblock VC_MAX s;
     s \<leftarrow> set_vcount bank gc_vblk vcount s;
     Some (set_misc bank (\<lambda>m. m\<lparr>cur_write_vpn := free_vpn, gc_vblock := vt_vblock, free_blk_cnt := wrap32 (free_blk_cnt m + 1)\<rparr>) s) }"

subsection \<open>Writing\<close>

text \<open>\<open>do vblock++ while (get_vcount(bank, vblock) == VC_MAX)\<close>, with its assertion.\<close>

function next_data_block :: "nat \<Rightarrow> gstate \<Rightarrow> nat \<Rightarrow> nat option" where
  "next_data_block bank s vblock =
     (if vblock + 1 = VBLKS_PER_BANK then None
      else case get_vcount bank (vblock + 1) s of
        None \<Rightarrow> None
      | Some vcount \<Rightarrow> if vcount = VC_MAX then next_data_block bank s (vblock + 1) else Some (vblock + 1))"
  by pat_completeness auto
termination
  by (relation "measure (\<lambda>(bank, s, v). VBLKS_PER_BANK - v)") (auto simp: get_vcount_def ASSERT_def split: if_splits)

declare next_data_block.simps [simp del]

definition assign_new_write_vpn :: "flash_hw \<Rightarrow> nat \<Rightarrow> gstate \<Rightarrow> (nat \<times> gstate) option" where
  "assign_new_write_vpn hw bank s = do {
     ASSERT (bank < NUM_BANKS);
     let write_vpn = cur_write_vpn (g_misc_meta s bank);
     let vblock = write_vpn div PAGES_PER_VBLK;
     if write_vpn mod PAGES_PER_VBLK = PAGES_PER_VBLK - 2
     then do {
       d \<leftarrow> sram_to_dram (FTL_BUF bank) (\<lambda>i. of_nat (lpn_list_of_cur_vblock (g_misc_meta s bank) i)) LPN_LIST_BYTES (gdram s);
       s \<leftarrow> flash_do (nand_page_ptprogram hw bank vblock (PAGES_PER_VBLK - 1) 0 LPN_LIST_SECT (FTL_BUF bank)) (set_gdram d s);
       let s = set_misc bank (\<lambda>m. m\<lparr>lpn_list_of_cur_vblock := \<lambda>_. 0\<rparr>) s;
       let s = set_misc bank (\<lambda>m. m\<lparr>free_blk_cnt := sub32 (free_blk_cnt m) 1\<rparr>) s;
       if free_blk_cnt (g_misc_meta s bank) = 1
       then do {
         s \<leftarrow> garbage_collection hw bank s;
         Some (cur_write_vpn (g_misc_meta s bank), s) }
       else do {
         vblock \<leftarrow> next_data_block bank s vblock;
         let write_vpn = vblock * PAGES_PER_VBLK;
         Some (write_vpn, set_misc bank (\<lambda>m. m\<lparr>cur_write_vpn := write_vpn\<rparr>) s) } }
     else Some (write_vpn + 1, set_misc bank (\<lambda>m. m\<lparr>cur_write_vpn := write_vpn + 1\<rparr>) s) }"

text \<open>
  The old sectors left and right of the new ones, put into the write buffer: with one read of the whole page
  and copies, or with one or two partial reads.
\<close>

definition load_holes :: "flash_hw \<Rightarrow> nat \<Rightarrow> nat \<Rightarrow> nat \<Rightarrow> nat \<Rightarrow> nat \<Rightarrow> gstate \<Rightarrow> gstate option" where
  "load_holes hw bank vblock page_num page_offset column_cnt s =
     (let buf = WR_BUF_PTR greedy_layout (g_ftl_write_buf_id (gfl s)) in
      if column_cnt \<le> 8 \<and> page_offset \<noteq> 0
      then do {
        s \<leftarrow> flash_do (nand_page_read hw bank vblock page_num (FTL_BUF bank)) s;
        d \<leftarrow> dram_move buf (FTL_BUF bank) (page_offset * BYTES_PER_SECTOR) (gdram s);
        let s = set_gdram d s;
        if page_offset + column_cnt < SECTORS_PER_PAGE
        then do {
          let rhole_base = (page_offset + column_cnt) * BYTES_PER_SECTOR;
          d \<leftarrow> dram_move (buf + rhole_base) (FTL_BUF bank + rhole_base) (BYTES_PER_PAGE - rhole_base) (gdram s);
          Some (set_gdram d s) }
        else Some s }
      else do {
        s \<leftarrow> (if page_offset \<noteq> 0 then flash_do (nand_page_ptread hw bank vblock page_num 0 page_offset buf RETURN_ON_ISSUE) s
             else Some s);
        if page_offset + column_cnt < SECTORS_PER_PAGE
        then flash_do (nand_page_ptread hw bank vblock page_num (page_offset + column_cnt)
               (SECTORS_PER_PAGE - (page_offset + column_cnt)) buf RETURN_ON_ISSUE) s
        else Some s })"

definition write_page :: "flash_hw \<Rightarrow> nat \<Rightarrow> nat \<Rightarrow> nat \<Rightarrow> gstate \<Rightarrow> gstate option" where
  "write_page hw lpn sect_offset num_sectors s = do {
     ASSERT (lpn < NUM_LPAGES);
     ASSERT (sect_offset < SECTORS_PER_PAGE);
     ASSERT (0 < num_sectors \<and> num_sectors \<le> SECTORS_PER_PAGE);
     let bank = get_num_bank lpn;
     (new_vpn, s) \<leftarrow> assign_new_write_vpn hw bank s;
     old_vpn \<leftarrow> get_vpn lpn s;
     CHECK_VPAGE old_vpn;
     CHECK_VPAGE new_vpn;
     ASSERT (old_vpn \<noteq> new_vpn);
     let s = set_stat bank (\<lambda>t. t\<lparr>page_wcount := wrap32 (page_wcount t + 1)\<rparr>) s;
     (page_offset, column_cnt, s) \<leftarrow>
       (if old_vpn \<noteq> 0
        then do {
          let vblock = old_vpn div PAGES_PER_VBLK;
          let page_num = old_vpn mod PAGES_PER_VBLK;
          s \<leftarrow> (if num_sectors \<noteq> SECTORS_PER_PAGE then load_holes hw bank vblock page_num sect_offset num_sectors s else Some s);
          vcount \<leftarrow> get_vcount bank vblock s;
          s \<leftarrow> set_vcount bank vblock (sub32 vcount 1) s;
          Some (0, SECTORS_PER_PAGE, s) }
        else Some (sect_offset, num_sectors, s));
     let vblock = new_vpn div PAGES_PER_VBLK;
     let page_num = new_vpn mod PAGES_PER_VBLK;
     vcount \<leftarrow> get_vcount bank vblock s;
     ASSERT (vcount < PAGES_PER_VBLK - 1);
     s \<leftarrow> flash_do (nand_page_ptprogram_from_host hw greedy_layout bank vblock page_num page_offset column_cnt) s;
     let s = set_misc bank (set_lpn page_num lpn) s;
     s \<leftarrow> set_vpn lpn new_vpn s;
     vcount \<leftarrow> get_vcount bank vblock s;
     set_vcount bank vblock (vcount + 1) s }"

text \<open>The sectors of the next page of a request; the sum is a 32-bit one.\<close>

definition page_chunk :: "nat \<Rightarrow> nat \<Rightarrow> nat" where
  "page_chunk sect_offset remain_sects =
     (if wrap32 (sect_offset + remain_sects) < SECTORS_PER_PAGE then remain_sects else SECTORS_PER_PAGE - sect_offset)"

lemma page_chunk_eq: "off < SECTORS_PER_PAGE \<Longrightarrow> off + n < 4294967296 \<Longrightarrow> page_chunk off n = min n (SECTORS_PER_PAGE - off)"
  by (auto simp: page_chunk_def wrap32_id)

partial_function (option) gr_ftl_write_loop :: "flash_hw \<Rightarrow> nat \<Rightarrow> nat \<Rightarrow> nat \<Rightarrow> gstate \<Rightarrow> gstate option" where
  "gr_ftl_write_loop hw lpn sect_offset remain_sects s =
     (if remain_sects = 0 then Some s
      else do {
        s \<leftarrow> write_page hw lpn sect_offset (page_chunk sect_offset remain_sects) s;
        gr_ftl_write_loop hw (lpn + 1) 0 (remain_sects - page_chunk sect_offset remain_sects) s })"

definition gr_ftl_write :: "flash_hw \<Rightarrow> nat \<Rightarrow> nat \<Rightarrow> gstate \<Rightarrow> gstate option" where
  "gr_ftl_write hw lba num_sectors s =
     gr_ftl_write_loop hw (lba div SECTORS_PER_PAGE) (lba mod SECTORS_PER_PAGE) num_sectors s"

definition ftl_test_write :: "flash_hw \<Rightarrow> nat \<Rightarrow> nat \<Rightarrow> gstate \<Rightarrow> gstate option" where
  "ftl_test_write hw lba num_sectors s = do {
     ASSERT (wrap32 (lba + num_sectors) \<le> NUM_LSECTORS);
     ASSERT (0 < num_sectors);
     gr_ftl_write hw lba num_sectors s }"

subsection \<open>Reading\<close>

definition gr_read_page :: "flash_hw \<Rightarrow> nat \<Rightarrow> nat \<Rightarrow> nat \<Rightarrow> gstate \<Rightarrow> gstate option" where
  "gr_read_page hw lpn sect_offset num_sectors_to_read s = do {
     let bank = get_num_bank lpn;
     vpn \<leftarrow> get_vpn lpn s;
     CHECK_VPAGE vpn;
     if vpn \<noteq> 0
     then flash_do (nand_page_ptread_to_host hw greedy_layout bank (vpn div PAGES_PER_VBLK) (vpn mod PAGES_PER_VBLK)
            sect_offset num_sectors_to_read) s
     else do {
       let buf = g_ftl_read_buf_id (gfl s);
       let next_read_buf_id = (buf + 1) mod GR_NUM_RD_BUFFERS;
       let s = on_gfl (log (Wait_Rbuf next_read_buf_id)) s;
       d \<leftarrow> dram_fill (RD_BUF_PTR greedy_layout buf + sect_offset * BYTES_PER_SECTOR) 0xFFFFFFFF
              (num_sectors_to_read * BYTES_PER_SECTOR) (gdram s);
       let s = on_gfl flash_finish (set_gdram d s);
       let s = on_gfl (SETREG BM_STACK_RDSET next_read_buf_id) s;
       let s = on_gfl (SETREG BM_STACK_RESET 0x02) s;
       Some (on_gfl (\<lambda>f. f\<lparr>g_ftl_read_buf_id := next_read_buf_id\<rparr>) s) } }"

partial_function (option) gr_ftl_read_loop :: "flash_hw \<Rightarrow> nat \<Rightarrow> nat \<Rightarrow> nat \<Rightarrow> gstate \<Rightarrow> gstate option" where
  "gr_ftl_read_loop hw lpn sect_offset remain_sects s =
     (if remain_sects = 0 then Some s
      else do {
        s \<leftarrow> gr_read_page hw lpn sect_offset (page_chunk sect_offset remain_sects) s;
        gr_ftl_read_loop hw (lpn + 1) 0 (remain_sects - page_chunk sect_offset remain_sects) s })"

definition gr_ftl_read :: "flash_hw \<Rightarrow> nat \<Rightarrow> nat \<Rightarrow> gstate \<Rightarrow> gstate option" where
  "gr_ftl_read hw lba num_sectors s =
     gr_ftl_read_loop hw (lba div SECTORS_PER_PAGE) (lba mod SECTORS_PER_PAGE) num_sectors s"

subsection \<open>Logging the metadata\<close>

text \<open>
  The words of \<open>g_misc_meta\<close> in the SRAM. \<open>mem_copy\<close> copies whole sectors from \<open>g_misc_meta[bank]\<close> on, so the
  words that follow the structure of a bank are those of the next bank, and what follows the array is
  \<open>sram_rest\<close>.
\<close>

definition misc_words :: "misc_metadata \<Rightarrow> nat \<Rightarrow> u32" where
  "misc_words m i =
     (if i = 0 then of_nat (cur_write_vpn m)
      else if i = 1 then of_nat (cur_miscblk_vpn m)
      else if i < 2 + MAPBLKS_PER_BANK then of_nat (cur_mapblk_vpn m (i - 2))
      else if i = 2 + MAPBLKS_PER_BANK then of_nat (gc_vblock m)
      else if i = 3 + MAPBLKS_PER_BANK then of_nat (free_blk_cnt m)
      else of_nat (lpn_list_of_cur_vblock m (i - (4 + MAPBLKS_PER_BANK))))"

definition misc_of_words :: "(nat \<Rightarrow> u32) \<Rightarrow> misc_metadata" where
  "misc_of_words w = \<lparr>cur_write_vpn = unat (w 0), cur_miscblk_vpn = unat (w 1), cur_mapblk_vpn = (\<lambda>i. unat (w (2 + i))),
     gc_vblock = unat (w (2 + MAPBLKS_PER_BANK)), free_blk_cnt = unat (w (3 + MAPBLKS_PER_BANK)),
     lpn_list_of_cur_vblock = (\<lambda>i. unat (w (4 + MAPBLKS_PER_BANK + i)))\<rparr>"

definition meta_array :: "(nat \<Rightarrow> u32) \<Rightarrow> gstate \<Rightarrow> nat \<Rightarrow> nat \<Rightarrow> u32" where
  "meta_array sram_rest s bank i =
     (let n = sizeof_misc_metadata div 4; b = bank + i div n in
      if b < NUM_BANKS then misc_words (g_misc_meta s b) (i mod n) else sram_rest (i - (NUM_BANKS - bank) * n))"

text \<open>The loop over the banks carries \<open>vcount_addr\<close>.\<close>

definition log_misc_bank :: "flash_hw \<Rightarrow> (nat \<Rightarrow> u32) \<Rightarrow> nat \<Rightarrow> nat \<times> gstate \<Rightarrow> (nat \<times> gstate) option" where
  "log_misc_bank hw sram_rest bank x = do {
     let (addr, s) = x;
     let misc_meta_bytes = NUM_MISC_META_SECT * BYTES_PER_SECTOR;
     let vcount_bytes = NUM_VCOUNT_SECT * BYTES_PER_SECTOR;
     let s = set_misc bank (\<lambda>m. m\<lparr>cur_miscblk_vpn := wrap32 (cur_miscblk_vpn m + 1)\<rparr>) s;
     s \<leftarrow> (if cur_miscblk_vpn (g_misc_meta s bank) div PAGES_PER_VBLK \<noteq> MISCBLK_VBN
          then do {
            s \<leftarrow> flash_do (nand_block_erase hw bank MISCBLK_VBN) s;
            Some (set_misc bank (\<lambda>m. m\<lparr>cur_miscblk_vpn := MISCBLK_VBN * PAGES_PER_VBLK\<rparr>) s) }
          else Some s);
     d \<leftarrow> sram_to_dram (FTL_BUF bank) (meta_array sram_rest s bank) misc_meta_bytes (gdram s);
     let s = set_gdram d s;
     if addr \<le> VCOUNT_ADDR + VCOUNT_BYTES
     then do {
       d \<leftarrow> dram_move (FTL_BUF bank + misc_meta_bytes) addr vcount_bytes (gdram s);
       Some (addr + vcount_bytes, set_gdram d s) }
     else Some (addr, s) }"

definition program_misc_bank :: "flash_hw \<Rightarrow> nat \<Rightarrow> gstate \<Rightarrow> gstate option" where
  "program_misc_bank hw bank s = flash_do (nand_page_ptprogram hw bank (cur_miscblk_vpn (g_misc_meta s bank) div PAGES_PER_VBLK)
     (cur_miscblk_vpn (g_misc_meta s bank) mod PAGES_PER_VBLK) 0 (NUM_MISC_META_SECT + NUM_VCOUNT_SECT) (FTL_BUF bank)) s"

definition logging_misc_metadata :: "flash_hw \<Rightarrow> (nat \<Rightarrow> u32) \<Rightarrow> gstate \<Rightarrow> gstate option" where
  "logging_misc_metadata hw sram_rest s = do {
     (_, s) \<leftarrow> each (log_misc_bank hw sram_rest) [0..<NUM_BANKS] (VCOUNT_ADDR, on_gfl flash_finish s);
     s \<leftarrow> each (program_misc_bank hw) [0..<NUM_BANKS] s;
     Some (on_gfl flash_finish s) }"

text \<open>
  The bytes of the next page of the map, from \<open>pmap_addr\<close> up to the boundary, and whether it is the last; the
  loop over the banks returns \<open>pmap_addr\<close> and \<open>finished\<close>.
\<close>

definition pmap_chunk :: "nat \<Rightarrow> nat \<Rightarrow> bool \<times> nat" where
  "pmap_chunk pmap_boundary pmap_addr =
     (if pmap_boundary \<le> pmap_addr + BYTES_PER_PAGE
      then (True, (pmap_boundary - pmap_addr + BYTES_PER_SECTOR - 1) div BYTES_PER_SECTOR * BYTES_PER_SECTOR)
      else (False, BYTES_PER_PAGE))"

definition log_pmap_page :: "flash_hw \<Rightarrow> nat \<Rightarrow> nat \<Rightarrow> nat \<Rightarrow> nat \<Rightarrow> gstate \<Rightarrow> gstate option" where
  "log_pmap_page hw mapblk_lbn bank pmap_addr pmap_bytes s = do {
     let s = set_misc bank (\<lambda>m. m\<lparr>cur_mapblk_vpn := (cur_mapblk_vpn m)(mapblk_lbn := wrap32 (cur_mapblk_vpn m mapblk_lbn + 1))\<rparr>) s;
     let mapblk_vpn = cur_mapblk_vpn (g_misc_meta s bank) mapblk_lbn;
     s \<leftarrow> (if mapblk_vpn mod PAGES_PER_VBLK = 0
          then do {
            s \<leftarrow> flash_do (nand_block_erase hw bank ((mapblk_vpn - 1) div PAGES_PER_VBLK)) s;
            Some (set_misc bank (\<lambda>m. m\<lparr>cur_mapblk_vpn := (cur_mapblk_vpn m)(mapblk_lbn := (mapblk_vpn - 1) div PAGES_PER_VBLK * PAGES_PER_VBLK)\<rparr>) s) }
          else Some s);
     let mapblk_vpn = cur_mapblk_vpn (g_misc_meta s bank) mapblk_lbn;
     d \<leftarrow> dram_move (FTL_BUF bank) pmap_addr pmap_bytes (gdram s);
     flash_do (nand_page_ptprogram hw bank (mapblk_vpn div PAGES_PER_VBLK) (mapblk_vpn mod PAGES_PER_VBLK) 0
       (pmap_bytes div BYTES_PER_SECTOR) (FTL_BUF bank)) (set_gdram d s) }"

fun log_pmap_banks :: "flash_hw \<Rightarrow> nat \<Rightarrow> nat list \<Rightarrow> nat \<Rightarrow> gstate \<Rightarrow> (bool \<times> nat \<times> gstate) option" where
  "log_pmap_banks hw mapblk_lbn [] pmap_addr s = Some (False, pmap_addr, s)"
| "log_pmap_banks hw mapblk_lbn (bank # banks) pmap_addr s =
     (if GR_PAGE_MAP_ADDR + GR_PAGE_MAP_BYTES \<le> pmap_addr then Some (True, pmap_addr, s)
      else do {
        let (finished, pmap_bytes) = pmap_chunk (GR_PAGE_MAP_ADDR + GR_PAGE_MAP_BYTES) pmap_addr;
        s \<leftarrow> log_pmap_page hw mapblk_lbn bank pmap_addr pmap_bytes s;
        if finished then Some (True, pmap_addr + pmap_bytes, s)
        else log_pmap_banks hw mapblk_lbn banks (pmap_addr + pmap_bytes) s })"

fun log_pmap_lbns :: "flash_hw \<Rightarrow> nat list \<Rightarrow> nat \<Rightarrow> gstate \<Rightarrow> gstate option" where
  "log_pmap_lbns hw [] pmap_addr s = Some s"
| "log_pmap_lbns hw (lbn # lbns) pmap_addr s = do {
     (finished, pmap_addr, s) \<leftarrow> log_pmap_banks hw lbn [0..<NUM_BANKS] pmap_addr (on_gfl flash_finish s);
     if finished then Some s else log_pmap_lbns hw lbns pmap_addr s }"

definition logging_pmap_table :: "flash_hw \<Rightarrow> gstate \<Rightarrow> gstate option" where
  "logging_pmap_table hw s = do {
     s \<leftarrow> log_pmap_lbns hw [0..<MAPBLKS_PER_BANK] GR_PAGE_MAP_ADDR s;
     Some (on_gfl flash_finish s) }"

definition gr_ftl_flush :: "flash_hw \<Rightarrow> (nat \<Rightarrow> u32) \<Rightarrow> gstate \<Rightarrow> gstate option" where
  "gr_ftl_flush hw sram_rest s = do {
     s \<leftarrow> logging_pmap_table hw s;
     logging_misc_metadata hw sram_rest s }"

subsection \<open>Loading the metadata\<close>

text \<open>
  \<open>bsp\<close> is what the interrupt register of a bank shows in a state of the controller. The pages of the misc
  block are read from the last one down; a bank keeps what it read first that is not all ones, which the bits of
  \<open>load_flag\<close> record.
\<close>

type_synonym bsp_regs = "fstate \<Rightarrow> nat \<Rightarrow> nat"

definition clr_bsp_intr :: "nat \<Rightarrow> nat \<Rightarrow> gstate \<Rightarrow> gstate" where
  "clr_bsp_intr bank flag = on_gfl (SETREG (BSP_INTR_WORD (REAL_BANK bank div 4 * 4)) (flag * 2 ^ (REAL_BANK bank mod 4 * 8)))"

definition load_misc_read :: "flash_hw \<Rightarrow> nat \<Rightarrow> u32 \<Rightarrow> nat \<Rightarrow> gstate \<Rightarrow> gstate option" where
  "load_misc_read hw page_num load_flag bank s =
     (if bit load_flag bank then Some s
      else flash_do (nand_page_ptread hw bank MISCBLK_VBN page_num 0 (NUM_MISC_META_SECT + NUM_VCOUNT_SECT) (FTL_BUF bank) RETURN_ON_ISSUE) s)"

definition load_misc_check :: "bsp_regs \<Rightarrow> nat \<Rightarrow> u32 \<times> gstate \<Rightarrow> u32 \<times> gstate" where
  "load_misc_check bsp bank x = (let (load_flag, s) = x in
     (if \<not> bit load_flag bank \<and> bsp (gfl s) bank AND FIRQ_ALL_FF = 0 then load_flag OR push_bit bank 1 else load_flag,
      clr_bsp_intr bank 0xFF s))"

definition load_misc_page :: "flash_hw \<Rightarrow> bsp_regs \<Rightarrow> nat \<Rightarrow> u32 \<times> gstate \<Rightarrow> (u32 \<times> gstate) option" where
  "load_misc_page hw bsp page_num x = do {
     let (load_flag, s) = x;
     s \<leftarrow> each (load_misc_read hw page_num load_flag) [0..<NUM_BANKS] s;
     Some (fold (load_misc_check bsp) [0..<NUM_BANKS] (load_flag, on_gfl flash_finish s)) }"

definition load_misc_copy :: "nat \<Rightarrow> nat \<times> gstate \<Rightarrow> (nat \<times> gstate) option" where
  "load_misc_copy bank x = do {
     let (addr, s) = x;
     w \<leftarrow> dram_to_sram (FTL_BUF bank) sizeof_misc_metadata (gdram s);
     let s = set_misc bank (\<lambda>_. misc_of_words w) s;
     if addr \<le> VCOUNT_ADDR + VCOUNT_BYTES
     then do {
       d \<leftarrow> dram_move addr (FTL_BUF bank + NUM_MISC_META_SECT * BYTES_PER_SECTOR) (NUM_VCOUNT_SECT * BYTES_PER_SECTOR) (gdram s);
       Some (addr + NUM_VCOUNT_SECT * BYTES_PER_SECTOR, set_gdram d s) }
     else Some (addr, s) }"

definition load_misc_metadata :: "flash_hw \<Rightarrow> bsp_regs \<Rightarrow> gstate \<Rightarrow> gstate option" where
  "load_misc_metadata hw bsp s = do {
     let s = on_gfl (\<lambda>f. flash_clear_irq (flash_finish f)) s;
     (load_flag, s) \<leftarrow> each (load_misc_page hw bsp) (rev [0..<PAGES_PER_VBLK]) (0, s);
     ASSERT (\<forall>bank \<in> set [0..<NUM_BANKS]. bit load_flag bank);
     (_, s) \<leftarrow> each load_misc_copy [0..<NUM_BANKS] (VCOUNT_ADDR, s);
     Some s }"

text \<open>The map is loaded in rounds of one page for each bank: all are read, then all are copied.\<close>

definition load_boundary :: nat where
  "load_boundary = GR_PAGE_MAP_ADDR + NUM_LPAGES * 4"

fun load_pmap_read :: "flash_hw \<Rightarrow> nat \<Rightarrow> nat list \<Rightarrow> nat \<Rightarrow> gstate \<Rightarrow> (bool \<times> nat \<times> gstate) option" where
  "load_pmap_read hw mapblk_lbn [] pmap_addr s = Some (False, pmap_addr, s)"
| "load_pmap_read hw mapblk_lbn (bank # banks) pmap_addr s =
     (if load_boundary \<le> pmap_addr then Some (True, pmap_addr, s)
      else do {
        let (finished, pmap_bytes) = pmap_chunk load_boundary pmap_addr;
        let vpn = cur_mapblk_vpn (g_misc_meta s bank) mapblk_lbn;
        s \<leftarrow> flash_do (nand_page_ptread hw bank (vpn div PAGES_PER_VBLK) (vpn mod PAGES_PER_VBLK) 0 (pmap_bytes div BYTES_PER_SECTOR)
               (FTL_BUF bank) RETURN_ON_ISSUE) s;
        if finished then Some (True, pmap_addr + pmap_bytes, s)
        else load_pmap_read hw mapblk_lbn banks (pmap_addr + pmap_bytes) s })"

fun load_pmap_copy :: "nat list \<Rightarrow> nat \<Rightarrow> gstate \<Rightarrow> gstate option" where
  "load_pmap_copy [] addr s = Some s"
| "load_pmap_copy (bank # banks) addr s =
     (if load_boundary \<le> addr then Some s
      else do {
        let (_, pmap_bytes) = pmap_chunk load_boundary addr;
        d \<leftarrow> dram_move addr (FTL_BUF bank) pmap_bytes (gdram s);
        load_pmap_copy banks (addr + pmap_bytes) (set_gdram d s) })"

fun load_pmap_lbns :: "flash_hw \<Rightarrow> nat list \<Rightarrow> nat \<Rightarrow> gstate \<Rightarrow> gstate option" where
  "load_pmap_lbns hw [] pmap_addr s = Some s"
| "load_pmap_lbns hw (lbn # lbns) pmap_addr s = do {
     (finished, next_addr, s) \<leftarrow> load_pmap_read hw lbn [0..<NUM_BANKS] pmap_addr s;
     s \<leftarrow> load_pmap_copy [0..<NUM_BANKS] pmap_addr (on_gfl flash_finish s);
     if finished then Some s else load_pmap_lbns hw lbns next_addr s }"

definition load_pmap_table :: "flash_hw \<Rightarrow> gstate \<Rightarrow> gstate option" where
  "load_pmap_table hw s = load_pmap_lbns hw [0..<MAPBLKS_PER_BANK] GR_PAGE_MAP_ADDR (on_gfl flash_finish s)"

definition load_metadata :: "flash_hw \<Rightarrow> bsp_regs \<Rightarrow> gstate \<Rightarrow> gstate option" where
  "load_metadata hw bsp s = do {
     s \<leftarrow> load_misc_metadata hw bsp s;
     load_pmap_table hw s }"

subsection \<open>Opening and formatting\<close>

definition gr_sanity_check :: "unit option" where
  "gr_sanity_check = (if DRAM_SIZE < GR_RD_BUF_BYTES + GR_WR_BUF_BYTES + GR_COPY_BUF_BYTES + GR_FTL_BUF_BYTES + GR_HIL_BUF_BYTES
     + GR_TEMP_BUF_BYTES + BAD_BLK_BMP_BYTES + GR_PAGE_MAP_BYTES + VCOUNT_BYTES \<or> BYTES_PER_PAGE < sizeof_misc_metadata
     then None else Some ())"

text \<open>The entries of the scan list in the temporary buffer: each is checked and stripped of its flag.\<close>

fun gr_scan_entries :: "nat list \<Rightarrow> bool \<times> dram \<Rightarrow> (bool \<times> dram) option" where
  "gr_scan_entries [] (ok, d) = Some (ok, d)"
| "gr_scan_entries (i # is) (ok, d) = do {
     entry \<leftarrow> rd16 (GR_TEMP_BUF_ADDR + 2 + 2 * i) d;
     let pblk_offset = entry mod 0x8000;
     if pblk_offset = 0 \<or> PBLKS_PER_BANK \<le> pblk_offset then gr_scan_entries is (False, d)
     else do {
       d \<leftarrow> wr16 (GR_TEMP_BUF_ADDR + 2 + 2 * i) pblk_offset d;
       gr_scan_entries is (ok, d) } }"

text \<open>The entries of a valid list and 0 for its counter, which the search takes in; an invalid list keeps its first word.\<close>

definition check_scan_list :: "bsp_regs \<Rightarrow> nat \<Rightarrow> gstate \<Rightarrow> (nat \<times> gstate) option" where
  "check_scan_list bsp bank s = do {
     (ok, num_entries, d) \<leftarrow>
       (if bsp (gfl s) bank AND FIRQ_DATA_CORRUPT \<noteq> 0 then Some (False, 0, gdram s)
        else do {
          num_entries \<leftarrow> rd16 GR_TEMP_BUF_ADDR (gdram s);
          if SCAN_LIST_ITEMS < num_entries then Some (False, num_entries, gdram s)
          else do {
            (ok, d) \<leftarrow> gr_scan_entries [0..<num_entries] (True, gdram s);
            Some (ok, num_entries, d) } });
     if \<not> ok then Some (0, set_gdram d s)
     else do {
       d \<leftarrow> wr16 GR_TEMP_BUF_ADDR 0 d;
       Some (num_entries, set_gdram d s) } }"

definition mark_bad_block :: "nat \<Rightarrow> nat \<Rightarrow> nat \<Rightarrow> gstate \<Rightarrow> gstate option" where
  "mark_bad_block num_entries bank vblk_offset s = do {
     i \<leftarrow> search_equ 2 GR_TEMP_BUF_ADDR (num_entries + 1) (vblk_offset * NUM_PLANES) (gdram s);
     j \<leftarrow> search_equ 2 GR_TEMP_BUF_ADDR (num_entries + 1) (vblk_offset * NUM_PLANES + 1) (gdram s);
     if i < num_entries + 1 \<or> j < num_entries + 1
     then do {
       d \<leftarrow> put_bit (bad_blk_bmp bank) vblk_offset (gdram s);
       Some (set_gdram d (s\<lparr>g_bad_blk_count := (g_bad_blk_count s)(bank := wrap32 (g_bad_blk_count s bank + 1))\<rparr>)) }
     else Some s }"

definition build_bad_blk_bank :: "flash_hw \<Rightarrow> bsp_regs \<Rightarrow> nat \<Rightarrow> gstate \<Rightarrow> gstate option" where
  "build_bad_blk_bank hw bsp bank s = do {
     let s = on_gfl (\<lambda>f. set_fcp (\<lambda>c. c\<lparr>fcp_bank := REAL_BANK bank\<rparr>)
               (setup_fcp FC_COL_ROW_READ_OUT FO_E GR_TEMP_BUF_ADDR SCAN_LIST_SIZE 0 bank SCAN_LIST_PAGE_OFFSET f)) s;
     let s = on_gfl (fcp_issue hw) s;
     let s = on_gfl (\<lambda>f. log (Wait_Bank (REAL_BANK bank)) (log Wait_Room f)) s;
     (num_entries, s) \<leftarrow> check_scan_list bsp bank s;
     let s = s\<lparr>g_bad_blk_count := (g_bad_blk_count s)(bank := 0)\<rparr>;
     each (mark_bad_block num_entries bank) [1..<VBLKS_PER_BANK] s }"

definition build_bad_blk_list :: "flash_hw \<Rightarrow> bsp_regs \<Rightarrow> gstate \<Rightarrow> gstate option" where
  "build_bad_blk_list hw bsp s = do {
     d \<leftarrow> dram_fill BAD_BLK_BMP_ADDR 0 BAD_BLK_BMP_BYTES (gdram s);
     each (build_bad_blk_bank hw bsp) [0..<NUM_BANKS] (on_gfl flash_clear_irq (set_gdram d s)) }"

definition gr_format_block :: "flash_hw \<Rightarrow> nat \<Rightarrow> nat \<Rightarrow> gstate \<Rightarrow> gstate option" where
  "gr_format_block hw vblock bank s = do {
     bad \<leftarrow> gr_is_bad_block bank vblock s;
     s \<leftarrow> (if \<not> bad then flash_do (nand_block_erase hw bank vblock) s else Some s);
     d \<leftarrow> wr16 (vcount_addr bank vblock) (if bad then VC_MAX else 0) (gdram s);
     Some (set_gdram d s) }"

text \<open>The search for the next good block as the map blocks, the block for collections and the first block for data take it.\<close>

definition set_vcount_raw :: "nat \<Rightarrow> nat \<Rightarrow> nat \<Rightarrow> gstate \<Rightarrow> gstate option" where
  "set_vcount_raw bank vblock vcount s = do {
     d \<leftarrow> wr16 (vcount_addr bank vblock) vcount (gdram s);
     Some (set_gdram d s) }"

function assign_map_blocks :: "nat \<Rightarrow> nat \<Rightarrow> nat \<Rightarrow> gstate \<Rightarrow> (nat \<times> gstate) option" where
  "assign_map_blocks bank mapblk_lbn vblock s =
     (if MAPBLKS_PER_BANK \<le> mapblk_lbn then Some (vblock, s)
      else if VBLKS_PER_BANK \<le> vblock + 1 then None
      else case gr_is_bad_block bank (vblock + 1) s of
        None \<Rightarrow> None
      | Some bad \<Rightarrow>
          if bad then assign_map_blocks bank mapblk_lbn (vblock + 1) s
          else (case set_vcount_raw bank (vblock + 1) VC_MAX
                   (set_misc bank (\<lambda>m. m\<lparr>cur_mapblk_vpn := (cur_mapblk_vpn m)(mapblk_lbn := (vblock + 1) * PAGES_PER_VBLK)\<rparr>) s) of
                  None \<Rightarrow> None
                | Some s \<Rightarrow> assign_map_blocks bank (mapblk_lbn + 1) (vblock + 1) s))"
  by pat_completeness auto
termination
  by (relation "measure (\<lambda>(bank, lbn, v, s). VBLKS_PER_BANK - v)") auto

function assign_gc_block :: "nat \<Rightarrow> nat \<Rightarrow> gstate \<Rightarrow> (nat \<times> gstate) option" where
  "assign_gc_block bank vblock s =
     (case set_vcount_raw bank (vblock + 1) VC_MAX s of
        None \<Rightarrow> None
      | Some s \<Rightarrow>
          (let s = set_misc bank (\<lambda>m. m\<lparr>gc_vblock := vblock + 1\<rparr>) s in
           if VBLKS_PER_BANK \<le> vblock + 1 then None
           else case gr_is_bad_block bank (vblock + 1) s of
             None \<Rightarrow> None
           | Some bad \<Rightarrow> if bad then assign_gc_block bank (vblock + 1) s else Some (vblock + 1, s)))"
  by pat_completeness auto
termination
  by (relation "measure (\<lambda>(bank, v, s). VBLKS_PER_BANK - v)") auto

function assign_first_block :: "nat \<Rightarrow> nat \<Rightarrow> gstate \<Rightarrow> gstate option" where
  "assign_first_block bank vblock s =
     (let s = set_misc bank (\<lambda>m. m\<lparr>cur_write_vpn := (vblock + 1) * PAGES_PER_VBLK\<rparr>) s in
      if VBLKS_PER_BANK \<le> vblock + 1 then None
      else case gr_is_bad_block bank (vblock + 1) s of
        None \<Rightarrow> None
      | Some bad \<Rightarrow> if bad then assign_first_block bank (vblock + 1) s else Some s)"
  by pat_completeness auto
termination
  by (relation "measure (\<lambda>(bank, v, s). VBLKS_PER_BANK - v)") auto

declare assign_map_blocks.simps [simp del] assign_gc_block.simps [simp del] assign_first_block.simps [simp del]

definition init_metadata_bank :: "nat \<Rightarrow> gstate \<Rightarrow> gstate option" where
  "init_metadata_bank bank s = do {
     let s = set_misc bank (\<lambda>m. m\<lparr>free_blk_cnt := VBLKS_PER_BANK - META_BLKS_PER_BANK\<rparr>) s;
     let s = set_misc bank (\<lambda>m. m\<lparr>free_blk_cnt := sub32 (free_blk_cnt m) (g_bad_blk_count s bank)\<rparr>) s;
     s \<leftarrow> set_vcount_raw bank 0 VC_MAX s;
     s \<leftarrow> set_vcount_raw bank 1 VC_MAX s;
     let s = set_misc bank (\<lambda>m. m\<lparr>cur_miscblk_vpn := MISCBLK_VBN * PAGES_PER_VBLK - 1\<rparr>) s;
     bad \<leftarrow> gr_is_bad_block bank MISCBLK_VBN s;
     ASSERT (\<not> bad);
     (vblock, s) \<leftarrow> assign_map_blocks bank 0 MISCBLK_VBN s;
     (vblock, s) \<leftarrow> assign_gc_block bank vblock s;
     assign_first_block bank vblock s }"

definition init_metadata_sram :: "gstate \<Rightarrow> gstate option" where
  "init_metadata_sram s = each init_metadata_bank [0..<NUM_BANKS] s"

text \<open>\<open>fw_pages\<close> is the size of the firmware image in pages, a symbol of the linker.\<close>

definition gr_write_format_mark :: "flash_hw \<Rightarrow> nat \<Rightarrow> gstate \<Rightarrow> gstate option" where
  "gr_write_format_mark hw fw_pages s = do {
     d \<leftarrow> dram_fill GR_FTL_BUF_ADDR 0 BYTES_PER_SECTOR (gdram s);
     let s = set_gdram d s;
     let s = on_gfl (\<lambda>f. set_fcp (\<lambda>c. c\<lparr>fcp_bank := REAL_BANK 0\<rparr>)
               (setup_fcp FC_COL_ROW_IN_PROG (FO_E + FO_B_W_DRDY) GR_FTL_BUF_ADDR BYTES_PER_SECTOR 0 0 (FW_PAGE_OFFSET + fw_pages) f)) s;
     let s = on_gfl (fcp_issue hw) s;
     Some (on_gfl (\<lambda>f. log (Wait_Bank (REAL_BANK 0)) (log Wait_Room f)) s) }"

definition gr_check_format_mark :: "flash_hw \<Rightarrow> bsp_regs \<Rightarrow> nat \<Rightarrow> gstate \<Rightarrow> bool \<times> gstate" where
  "gr_check_format_mark hw bsp fw_pages s =
     (let s = on_gfl flash_clear_irq s;
          s = on_gfl (\<lambda>f. set_fcp (\<lambda>c. c\<lparr>fcp_bank := REAL_BANK 0\<rparr>)
                (setup_fcp FC_COL_ROW_READ_OUT FO_E GR_FTL_BUF_ADDR BYTES_PER_SECTOR 0 0 (FW_PAGE_OFFSET + fw_pages) f)) s;
          s = on_gfl (fcp_issue hw) s;
          s = on_gfl (\<lambda>f. log (Wait_Bank (REAL_BANK 0)) (log Wait_Room f)) s;
          temp = bsp (gfl s) 0 AND FIRQ_ALL_FF
      in (temp = 0, clr_bsp_intr 0 0xFF s))"

definition gr_format :: "flash_hw \<Rightarrow> (nat \<Rightarrow> u32) \<Rightarrow> nat \<Rightarrow> gstate \<Rightarrow> gstate option" where
  "gr_format hw sram_rest fw_pages s = do {
     ASSERT (0 < NUM_MISC_META_SECT);
     ASSERT (0 < NUM_VCOUNT_SECT);
     d \<leftarrow> dram_fill GR_PAGE_MAP_ADDR 0 GR_PAGE_MAP_BYTES (gdram s);
     d \<leftarrow> dram_fill VCOUNT_ADDR 0 VCOUNT_BYTES d;
     s \<leftarrow> each (\<lambda>v. each (gr_format_block hw v) [0..<NUM_BANKS]) [MISCBLK_VBN..<VBLKS_PER_BANK] (set_gdram d s);
     s \<leftarrow> init_metadata_sram s;
     s \<leftarrow> logging_pmap_table hw s;
     s \<leftarrow> logging_misc_metadata hw sram_rest s;
     gr_write_format_mark hw fw_pages s }"

text \<open>The check of the format mark is commented out and replaced by \<open>TRUE\<close>.\<close>

definition gr_ftl_open :: "flash_hw \<Rightarrow> bsp_regs \<Rightarrow> (nat \<Rightarrow> u32) \<Rightarrow> nat \<Rightarrow> gstate \<Rightarrow> gstate option" where
  "gr_ftl_open hw bsp sram_rest fw_pages s = do {
     gr_sanity_check;
     s \<leftarrow> build_bad_blk_list hw bsp s;
     s \<leftarrow> (if True then gr_format hw sram_rest fw_pages s else load_metadata hw bsp s);
     let s = on_gfl (\<lambda>f. f\<lparr>g_ftl_read_buf_id := 0, g_ftl_write_buf_id := 0\<rparr>) s;
     let s = on_gfl flash_clear_irq s;
     let s = on_gfl (SETREG INTR_MASK (FIRQ_DATA_CORRUPT + FIRQ_BADBLK_L + FIRQ_BADBLK_H)) s;
     Some (on_gfl (SETREG FCONF_PAUSE (FIRQ_DATA_CORRUPT + FIRQ_BADBLK_L + FIRQ_BADBLK_H)) s) }"

text \<open>The interrupt handler only reports; \<open>bsp_cmd\<close> is the command register of a bank.\<close>

definition gr_isr_bank :: "bsp_regs \<Rightarrow> bsp_regs \<Rightarrow> nat \<Rightarrow> gstate \<Rightarrow> gstate option" where
  "gr_isr_bank bsp bsp_cmd bank s = do {
     let s = on_gfl (log (Wait_Bank (REAL_BANK bank))) s;
     let bsp_intr_flag = bsp (gfl s) bank;
     if bsp_intr_flag = 0 then Some s
     else do {
       let fc = bsp_cmd (gfl s) bank;
       let s = clr_bsp_intr bank bsp_intr_flag s;
       ASSERT (bsp_intr_flag AND (FIRQ_BADBLK_H OR FIRQ_BADBLK_L) = 0
         \<or> fc = FC_COL_ROW_IN_PROG \<or> fc = FC_IN_PROG \<or> fc = FC_PROG \<or> fc = FC_ERASE);
       Some s } }"

definition gr_ftl_isr :: "bsp_regs \<Rightarrow> bsp_regs \<Rightarrow> gstate \<Rightarrow> gstate option" where
  "gr_ftl_isr bsp bsp_cmd s =
     each (gr_isr_bank bsp bsp_cmd) [0..<NUM_BANKS] (on_gfl (SETREG APB_INT_STS INTR_FLASH) s)"

end
