(* ===== verification/Dac_Ftl.thy ===== *)
theory Dac_Ftl
  imports Greedy_Ftl
begin

text \<open>
  The DAC layer (\<open>ftl_dac/ftl.c\<close>, \<open>ftl_dac/ftl.h\<close>): page mapping with four regions for data of different heat. Every region has
  an open block; an overwritten page moves one region up, a page that a collection copies one region down, and the victim is
  chosen by cost and benefit. Map, counts, ages and regions are flushed to the flash and loaded at the next start.
  Names that another layer has too carry the prefix \<open>da_\<close> or \<open>DA_\<close>. All functions of the layer are here.
\<close>

subsection \<open>DRAM layout\<close>

definition DA_NUM_COPY_BUFFERS :: nat where
  "DA_NUM_COPY_BUFFERS = NUM_BANKS_MAX"

definition DA_NUM_FTL_BUFFERS :: nat where
  "DA_NUM_FTL_BUFFERS = NUM_BANKS"

definition DA_NUM_HIL_BUFFERS :: nat where
  "DA_NUM_HIL_BUFFERS = 1"

definition DA_NUM_TEMP_BUFFERS :: nat where
  "DA_NUM_TEMP_BUFFERS = 1"

definition DA_BAD_BLK_BMP_BYTES :: nat where
  "DA_BAD_BLK_BMP_BYTES = (NUM_VBLKS div 8 + DRAM_ECC_UNIT - 1) div DRAM_ECC_UNIT * DRAM_ECC_UNIT"

definition DA_PAGE_MAP_BYTES :: nat where
  "DA_PAGE_MAP_BYTES = (NUM_LPAGES * 4 + BYTES_PER_SECTOR - 1) div BYTES_PER_SECTOR * BYTES_PER_SECTOR"

definition DA_VCOUNT_BYTES :: nat where
  "DA_VCOUNT_BYTES = (NUM_BANKS * VBLKS_PER_BANK * 2 + BYTES_PER_SECTOR - 1) div BYTES_PER_SECTOR * BYTES_PER_SECTOR"

definition VBLK_AGE_BYTES :: nat where
  "VBLK_AGE_BYTES = (NUM_BANKS * VBLKS_PER_BANK * 4 + BYTES_PER_SECTOR - 1) div BYTES_PER_SECTOR * BYTES_PER_SECTOR"

definition VBLK_REGION_BYTES :: nat where
  "VBLK_REGION_BYTES = (NUM_BANKS * VBLKS_PER_BANK * 2 + BYTES_PER_SECTOR - 1) div BYTES_PER_SECTOR * BYTES_PER_SECTOR"

definition DA_DRAM_BYTES_OTHER :: nat where
  "DA_DRAM_BYTES_OTHER = (DA_NUM_COPY_BUFFERS + DA_NUM_FTL_BUFFERS + DA_NUM_HIL_BUFFERS + DA_NUM_TEMP_BUFFERS) * BYTES_PER_PAGE
     + DA_BAD_BLK_BMP_BYTES + DA_PAGE_MAP_BYTES + DA_VCOUNT_BYTES + VBLK_AGE_BYTES + VBLK_REGION_BYTES"

definition DA_NUM_RW_BUFFERS :: nat where
  "DA_NUM_RW_BUFFERS = (DRAM_SIZE - DA_DRAM_BYTES_OTHER) div BYTES_PER_PAGE - 1"

definition DA_NUM_RD_BUFFERS :: nat where
  "DA_NUM_RD_BUFFERS = (DA_NUM_RW_BUFFERS div 8 + NUM_BANKS - 1) div NUM_BANKS * NUM_BANKS"

definition DA_NUM_WR_BUFFERS :: nat where
  "DA_NUM_WR_BUFFERS = DA_NUM_RW_BUFFERS - DA_NUM_RD_BUFFERS"

definition DA_RD_BUF_ADDR :: nat where
  "DA_RD_BUF_ADDR = DRAM_BASE"

definition DA_RD_BUF_BYTES :: nat where
  "DA_RD_BUF_BYTES = DA_NUM_RD_BUFFERS * BYTES_PER_PAGE"

definition DA_WR_BUF_ADDR :: nat where
  "DA_WR_BUF_ADDR = DA_RD_BUF_ADDR + DA_RD_BUF_BYTES"

definition DA_WR_BUF_BYTES :: nat where
  "DA_WR_BUF_BYTES = DA_NUM_WR_BUFFERS * BYTES_PER_PAGE"

definition DA_COPY_BUF_ADDR :: nat where
  "DA_COPY_BUF_ADDR = DA_WR_BUF_ADDR + DA_WR_BUF_BYTES"

definition DA_COPY_BUF_BYTES :: nat where
  "DA_COPY_BUF_BYTES = DA_NUM_COPY_BUFFERS * BYTES_PER_PAGE"

definition DA_FTL_BUF_ADDR :: nat where
  "DA_FTL_BUF_ADDR = DA_COPY_BUF_ADDR + DA_COPY_BUF_BYTES"

definition DA_FTL_BUF_BYTES :: nat where
  "DA_FTL_BUF_BYTES = DA_NUM_FTL_BUFFERS * BYTES_PER_PAGE"

definition DA_HIL_BUF_ADDR :: nat where
  "DA_HIL_BUF_ADDR = DA_FTL_BUF_ADDR + DA_FTL_BUF_BYTES"

definition DA_HIL_BUF_BYTES :: nat where
  "DA_HIL_BUF_BYTES = DA_NUM_HIL_BUFFERS * BYTES_PER_PAGE"

definition DA_TEMP_BUF_ADDR :: nat where
  "DA_TEMP_BUF_ADDR = DA_HIL_BUF_ADDR + DA_HIL_BUF_BYTES"

definition DA_TEMP_BUF_BYTES :: nat where
  "DA_TEMP_BUF_BYTES = DA_NUM_TEMP_BUFFERS * BYTES_PER_PAGE"

definition DA_BAD_BLK_BMP_ADDR :: nat where
  "DA_BAD_BLK_BMP_ADDR = DA_TEMP_BUF_ADDR + DA_TEMP_BUF_BYTES"

definition DA_PAGE_MAP_ADDR :: nat where
  "DA_PAGE_MAP_ADDR = DA_BAD_BLK_BMP_ADDR + DA_BAD_BLK_BMP_BYTES"

definition DA_VCOUNT_ADDR :: nat where
  "DA_VCOUNT_ADDR = DA_PAGE_MAP_ADDR + DA_PAGE_MAP_BYTES"

definition VBLK_AGE_ADDR :: nat where
  "VBLK_AGE_ADDR = DA_VCOUNT_ADDR + DA_VCOUNT_BYTES"

definition VBLK_REGION_ADDR :: nat where
  "VBLK_REGION_ADDR = VBLK_AGE_ADDR + VBLK_AGE_BYTES"

definition DA_FTL_BUF :: "nat \<Rightarrow> nat" where
  "DA_FTL_BUF bank = DA_FTL_BUF_ADDR + bank * BYTES_PER_PAGE"

subsection \<open>Constants of ftl.c\<close>

definition NUM_REGION :: nat where
  "NUM_REGION = 4"

definition VC_FREE :: nat where
  "VC_FREE = 0xAAAA"

definition DA_VC_MAX :: nat where
  "DA_VC_MAX = 0xABBB"

definition VC_ACTIVE :: nat where
  "VC_ACTIVE = 0xACCC"

definition NOT_FOR_VICTIM :: nat where
  "NOT_FOR_VICTIM = 0xA000"

definition DA_MISCBLK_VBN :: nat where
  "DA_MISCBLK_VBN = 0x1"

definition DA_MAPBLKS_PER_BANK :: nat where
  "DA_MAPBLKS_PER_BANK = 2"

definition DA_META_BLKS_PER_BANK :: nat where
  "DA_META_BLKS_PER_BANK = 1 + 1 + DA_MAPBLKS_PER_BANK"

definition INVALID16 :: nat where
  "INVALID16 = 0xFFFF"

text \<open>\<open>sizeof(misc_metadata)\<close>: the vpns of the logs, the list of the victim, three counters and the table of regions.\<close>

definition sizeof_region_table :: nat where
  "sizeof_region_table = (1 + PAGES_PER_VBLK + 1) * 4"

definition da_sizeof_misc_metadata :: nat where
  "da_sizeof_misc_metadata = (1 + DA_MAPBLKS_PER_BANK + PAGES_PER_VBLK + 3) * 4 + NUM_REGION * sizeof_region_table"

definition DA_NUM_MISC_META_SECT :: nat where
  "DA_NUM_MISC_META_SECT = (da_sizeof_misc_metadata + BYTES_PER_SECTOR - 1) div BYTES_PER_SECTOR"

definition DA_NUM_VCOUNT_SECT :: nat where
  "DA_NUM_VCOUNT_SECT = (VBLKS_PER_BANK * 2 + BYTES_PER_SECTOR - 1) div BYTES_PER_SECTOR"

lemma dac_geom [geom]:
  "DA_NUM_COPY_BUFFERS = 32" "DA_NUM_FTL_BUFFERS = 8" "DA_NUM_HIL_BUFFERS = 1" "DA_NUM_TEMP_BUFFERS = 1"
  "DA_BAD_BLK_BMP_BYTES = 2176" "DA_PAGE_MAP_BYTES = 7801856" "DA_VCOUNT_BYTES = 33280" "VBLK_AGE_BYTES = 66560" "VBLK_REGION_BYTES = 33280"
  "DA_DRAM_BYTES_OTHER = 9313408" "DA_NUM_RW_BUFFERS = 1700" "DA_NUM_RD_BUFFERS = 216" "DA_NUM_WR_BUFFERS = 1484"
  "DA_RD_BUF_ADDR = 1073741824" "DA_RD_BUF_BYTES = 7077888" "DA_WR_BUF_ADDR = 1080819712" "DA_WR_BUF_BYTES = 48627712"
  "DA_COPY_BUF_ADDR = 1129447424" "DA_COPY_BUF_BYTES = 1048576" "DA_FTL_BUF_ADDR = 1130496000" "DA_FTL_BUF_BYTES = 262144"
  "DA_HIL_BUF_ADDR = 1130758144" "DA_HIL_BUF_BYTES = 32768" "DA_TEMP_BUF_ADDR = 1130790912" "DA_TEMP_BUF_BYTES = 32768"
  "DA_BAD_BLK_BMP_ADDR = 1130823680" "DA_PAGE_MAP_ADDR = 1130825856" "DA_VCOUNT_ADDR = 1138627712" "VBLK_AGE_ADDR = 1138660992" "VBLK_REGION_ADDR = 1138727552"
  "NUM_REGION = 4" "DA_MISCBLK_VBN = 1" "DA_MAPBLKS_PER_BANK = 2" "DA_META_BLKS_PER_BANK = 4"
  "da_sizeof_misc_metadata = 2616" "DA_NUM_MISC_META_SECT = 6" "DA_NUM_VCOUNT_SECT = 9"
  by (simp_all add: DA_NUM_COPY_BUFFERS_def DA_NUM_FTL_BUFFERS_def DA_NUM_HIL_BUFFERS_def DA_NUM_TEMP_BUFFERS_def DA_BAD_BLK_BMP_BYTES_def DA_PAGE_MAP_BYTES_def
    DA_VCOUNT_BYTES_def VBLK_AGE_BYTES_def VBLK_REGION_BYTES_def DA_DRAM_BYTES_OTHER_def DA_NUM_RW_BUFFERS_def DA_NUM_RD_BUFFERS_def DA_NUM_WR_BUFFERS_def
    DA_RD_BUF_ADDR_def DA_RD_BUF_BYTES_def DA_WR_BUF_ADDR_def DA_WR_BUF_BYTES_def DA_COPY_BUF_ADDR_def DA_COPY_BUF_BYTES_def DA_FTL_BUF_ADDR_def
    DA_FTL_BUF_BYTES_def DA_HIL_BUF_ADDR_def DA_HIL_BUF_BYTES_def DA_TEMP_BUF_ADDR_def DA_TEMP_BUF_BYTES_def DA_BAD_BLK_BMP_ADDR_def DA_PAGE_MAP_ADDR_def
    DA_VCOUNT_ADDR_def VBLK_AGE_ADDR_def VBLK_REGION_ADDR_def NUM_REGION_def DA_MISCBLK_VBN_def DA_MAPBLKS_PER_BANK_def DA_META_BLKS_PER_BANK_def
    sizeof_region_table_def da_sizeof_misc_metadata_def DA_NUM_MISC_META_SECT_def DA_NUM_VCOUNT_SECT_def geom)

definition dac_layout :: buf_layout where
  "dac_layout = \<lparr>l_rd_buf_addr = DA_RD_BUF_ADDR, l_num_rd_buffers = DA_NUM_RD_BUFFERS, l_wr_buf_addr = DA_WR_BUF_ADDR,
     l_num_wr_buffers = DA_NUM_WR_BUFFERS, l_copy_buf_addr = DA_COPY_BUF_ADDR\<rparr>"

lemma dac_layout_fields [simp]:
  "l_rd_buf_addr dac_layout = DA_RD_BUF_ADDR" "l_num_rd_buffers dac_layout = DA_NUM_RD_BUFFERS" "l_wr_buf_addr dac_layout = DA_WR_BUF_ADDR"
  "l_num_wr_buffers dac_layout = DA_NUM_WR_BUFFERS" "l_copy_buf_addr dac_layout = DA_COPY_BUF_ADDR"
  by (simp_all add: dac_layout_def)

subsection \<open>State\<close>

record region_table =
  rg_cur_write_vpn :: nat
  rg_lpn_list :: "nat \<Rightarrow> nat"
  vcount_of_active_vblock :: nat

record dac_metadata =
  da_cur_miscblk_vpn :: nat
  da_cur_mapblk_vpn :: "nat \<Rightarrow> nat"
  lpn_list_of_vt_vblock :: "nat \<Rightarrow> nat"
  da_free_blk_cnt :: nat
  da_gc_vblock :: nat
  global_age :: nat
  region_tbl :: "nat \<Rightarrow> region_table"

record dac_statistics =
  da_gc_cnt :: nat
  da_page_wcount :: nat

text \<open>\<open>g_bsp_isr_flag\<close> holds the block that the interrupt handler found bad, or \<open>INVALID\<close>.\<close>

record dstate =
  dfl :: fstate
  d_misc_meta :: "nat \<Rightarrow> dac_metadata"
  d_ftl_statistics :: "nat \<Rightarrow> dac_statistics"
  g_bsp_isr_flag :: "nat \<Rightarrow> nat"
  d_bad_blk_count :: "nat \<Rightarrow> nat"

definition ddram :: "dstate \<Rightarrow> dram" where
  "ddram s = dram (dfl s)"

definition set_ddram :: "dram \<Rightarrow> dstate \<Rightarrow> dstate" where
  "set_ddram d s = s\<lparr>dfl := (dfl s)\<lparr>dram := d\<rparr>\<rparr>"

definition on_dfl :: "(fstate \<Rightarrow> fstate) \<Rightarrow> dstate \<Rightarrow> dstate" where
  "on_dfl f s = s\<lparr>dfl := f (dfl s)\<rparr>"

definition dflash_do :: "(fstate \<Rightarrow> fstate option) \<Rightarrow> dstate \<Rightarrow> dstate option" where
  "dflash_do f s = (case f (dfl s) of None \<Rightarrow> None | Some t \<Rightarrow> Some (s\<lparr>dfl := t\<rparr>))"

definition dset_misc :: "nat \<Rightarrow> (dac_metadata \<Rightarrow> dac_metadata) \<Rightarrow> dstate \<Rightarrow> dstate" where
  "dset_misc bank f s = s\<lparr>d_misc_meta := (d_misc_meta s)(bank := f (d_misc_meta s bank))\<rparr>"

definition dset_stat :: "nat \<Rightarrow> (dac_statistics \<Rightarrow> dac_statistics) \<Rightarrow> dstate \<Rightarrow> dstate" where
  "dset_stat bank f s = s\<lparr>d_ftl_statistics := (d_ftl_statistics s)(bank := f (d_ftl_statistics s bank))\<rparr>"

subsection \<open>The macros on the metadata\<close>

definition region :: "nat \<Rightarrow> nat \<Rightarrow> dstate \<Rightarrow> region_table" where
  "region bank r s = region_tbl (d_misc_meta s bank) r"

definition set_region :: "nat \<Rightarrow> nat \<Rightarrow> (region_table \<Rightarrow> region_table) \<Rightarrow> dstate \<Rightarrow> dstate" where
  "set_region bank r f = dset_misc bank (\<lambda>m. m\<lparr>region_tbl := (region_tbl m)(r := f (region_tbl m r))\<rparr>)"

definition get_cur_write_vpn_of_region :: "nat \<Rightarrow> nat \<Rightarrow> dstate \<Rightarrow> nat" where
  "get_cur_write_vpn_of_region bank r s = rg_cur_write_vpn (region bank r s)"

definition inc_cur_write_vpn_of_region :: "nat \<Rightarrow> nat \<Rightarrow> dstate \<Rightarrow> dstate" where
  "inc_cur_write_vpn_of_region bank r = set_region bank r (\<lambda>t. t\<lparr>rg_cur_write_vpn := wrap32 (rg_cur_write_vpn t + 1)\<rparr>)"

definition set_new_write_vpn_of_region :: "nat \<Rightarrow> nat \<Rightarrow> nat \<Rightarrow> dstate \<Rightarrow> dstate" where
  "set_new_write_vpn_of_region bank r vpn = set_region bank r (\<lambda>t. t\<lparr>rg_cur_write_vpn := vpn\<rparr>)"

definition set_lpn_of_region :: "nat \<Rightarrow> nat \<Rightarrow> nat \<Rightarrow> nat \<Rightarrow> dstate \<Rightarrow> dstate" where
  "set_lpn_of_region bank r page_num lpn = set_region bank r (\<lambda>t. t\<lparr>rg_lpn_list := (rg_lpn_list t)(page_num := lpn)\<rparr>)"

definition get_vcount_of_active_block :: "nat \<Rightarrow> nat \<Rightarrow> dstate \<Rightarrow> nat" where
  "get_vcount_of_active_block bank r s = vcount_of_active_vblock (region bank r s)"

definition set_vcount_of_active_block :: "nat \<Rightarrow> nat \<Rightarrow> nat \<Rightarrow> dstate \<Rightarrow> dstate" where
  "set_vcount_of_active_block bank r n = set_region bank r (\<lambda>t. t\<lparr>vcount_of_active_vblock := n\<rparr>)"

definition inc_vcount_of_active_block :: "nat \<Rightarrow> nat \<Rightarrow> dstate \<Rightarrow> dstate" where
  "inc_vcount_of_active_block bank r s = set_vcount_of_active_block bank r (wrap32 (get_vcount_of_active_block bank r s + 1)) s"

definition dec_vcount_of_active_block :: "nat \<Rightarrow> nat \<Rightarrow> dstate \<Rightarrow> dstate" where
  "dec_vcount_of_active_block bank r s = set_vcount_of_active_block bank r (sub32 (get_vcount_of_active_block bank r s) 1) s"

definition inc_global_age :: "nat \<Rightarrow> dstate \<Rightarrow> dstate" where
  "inc_global_age bank = dset_misc bank (\<lambda>m. m\<lparr>global_age := wrap32 (global_age m + 1)\<rparr>)"

definition is_full_all_blks :: "nat \<Rightarrow> dstate \<Rightarrow> bool" where
  "is_full_all_blks bank s \<longleftrightarrow> da_free_blk_cnt (d_misc_meta s bank) \<le> NUM_REGION"

definition inc_full_blk_cnt :: "nat \<Rightarrow> dstate \<Rightarrow> dstate" where
  "inc_full_blk_cnt bank = dset_misc bank (\<lambda>m. m\<lparr>da_free_blk_cnt := sub32 (da_free_blk_cnt m) 1\<rparr>)"

definition dec_full_blk_cnt :: "nat \<Rightarrow> dstate \<Rightarrow> dstate" where
  "dec_full_blk_cnt bank = dset_misc bank (\<lambda>m. m\<lparr>da_free_blk_cnt := wrap32 (da_free_blk_cnt m + 1)\<rparr>)"

definition get_mapblk_vpn :: "nat \<Rightarrow> nat \<Rightarrow> dstate \<Rightarrow> nat" where
  "get_mapblk_vpn bank lbn s = da_cur_mapblk_vpn (d_misc_meta s bank) lbn"

definition set_mapblk_vpn :: "nat \<Rightarrow> nat \<Rightarrow> nat \<Rightarrow> dstate \<Rightarrow> dstate" where
  "set_mapblk_vpn bank lbn vpn = dset_misc bank (\<lambda>m. m\<lparr>da_cur_mapblk_vpn := (da_cur_mapblk_vpn m)(lbn := vpn)\<rparr>)"

definition inc_mapblk_vpn :: "nat \<Rightarrow> nat \<Rightarrow> dstate \<Rightarrow> dstate" where
  "inc_mapblk_vpn bank lbn s = set_mapblk_vpn bank lbn (wrap32 (get_mapblk_vpn bank lbn s + 1)) s"

definition get_miscblk_vpn :: "nat \<Rightarrow> dstate \<Rightarrow> nat" where
  "get_miscblk_vpn bank s = da_cur_miscblk_vpn (d_misc_meta s bank)"

definition set_miscblk_vpn :: "nat \<Rightarrow> nat \<Rightarrow> dstate \<Rightarrow> dstate" where
  "set_miscblk_vpn bank vpn = dset_misc bank (\<lambda>m. m\<lparr>da_cur_miscblk_vpn := vpn\<rparr>)"

definition DA_CHECK_VPAGE :: "nat \<Rightarrow> unit option" where
  "DA_CHECK_VPAGE vpn = ASSERT (vpn < VBLKS_PER_BANK * PAGES_PER_VBLK)"

subsection \<open>Map, counts, ages and regions\<close>

definition da_get_vpn :: "nat \<Rightarrow> dstate \<Rightarrow> nat option" where
  "da_get_vpn lpn s = do {
     ASSERT (lpn < NUM_LPAGES);
     rd32 (DA_PAGE_MAP_ADDR + lpn * 4) (ddram s) }"

definition da_set_vpn :: "nat \<Rightarrow> nat \<Rightarrow> dstate \<Rightarrow> dstate option" where
  "da_set_vpn lpn vpn s = do {
     ASSERT (lpn < NUM_LPAGES);
     ASSERT (DA_META_BLKS_PER_BANK * PAGES_PER_VBLK \<le> vpn \<and> vpn < VBLKS_PER_BANK * PAGES_PER_VBLK);
     d \<leftarrow> wr32 (DA_PAGE_MAP_ADDR + lpn * 4) vpn (ddram s);
     Some (set_ddram d s) }"

definition da_vcount_addr :: "nat \<Rightarrow> nat \<Rightarrow> nat" where
  "da_vcount_addr bank vblock = DA_VCOUNT_ADDR + (bank * VBLKS_PER_BANK + vblock) * 2"

definition vcount_ok :: "nat \<Rightarrow> bool" where
  "vcount_ok vcount \<longleftrightarrow> vcount < PAGES_PER_VBLK \<or> vcount AND NOT_FOR_VICTIM \<noteq> 0"

definition da_get_vcount :: "nat \<Rightarrow> nat \<Rightarrow> dstate \<Rightarrow> nat option" where
  "da_get_vcount bank vblock s = do {
     ASSERT (bank < NUM_BANKS);
     ASSERT (DA_META_BLKS_PER_BANK \<le> vblock \<and> vblock < VBLKS_PER_BANK);
     vcount \<leftarrow> rd16 (da_vcount_addr bank vblock) (ddram s);
     ASSERT (vcount_ok vcount);
     Some vcount }"

definition da_set_vcount :: "nat \<Rightarrow> nat \<Rightarrow> nat \<Rightarrow> dstate \<Rightarrow> dstate option" where
  "da_set_vcount bank vblock vcount s = do {
     ASSERT (bank < NUM_BANKS);
     ASSERT (DA_META_BLKS_PER_BANK \<le> vblock \<and> vblock < VBLKS_PER_BANK);
     ASSERT (vcount_ok vcount);
     d \<leftarrow> wr16 (da_vcount_addr bank vblock) vcount (ddram s);
     Some (set_ddram d s) }"

definition da_inc_vcount :: "nat \<Rightarrow> nat \<Rightarrow> dstate \<Rightarrow> dstate option" where
  "da_inc_vcount bank vblock s = do {
     ASSERT (bank < NUM_BANKS);
     ASSERT (DA_META_BLKS_PER_BANK \<le> vblock \<and> vblock < VBLKS_PER_BANK);
     vcount \<leftarrow> rd16 (da_vcount_addr bank vblock) (ddram s);
     ASSERT (vcount < PAGES_PER_VBLK - 1);
     d \<leftarrow> wr16 (da_vcount_addr bank vblock) (vcount + 1) (ddram s);
     Some (set_ddram d s) }"

definition region_addr :: "nat \<Rightarrow> nat \<Rightarrow> nat" where
  "region_addr bank vblock = VBLK_REGION_ADDR + (bank * VBLKS_PER_BANK + vblock) * 2"

definition get_region_num :: "nat \<Rightarrow> nat \<Rightarrow> dstate \<Rightarrow> nat option" where
  "get_region_num bank vblock s = do {
     ASSERT (vblock < VBLKS_PER_BANK);
     rd16 (region_addr bank vblock) (ddram s) }"

definition set_region_num :: "nat \<Rightarrow> nat \<Rightarrow> nat \<Rightarrow> dstate \<Rightarrow> dstate option" where
  "set_region_num bank vblock region_num s = do {
     ASSERT (vblock < VBLKS_PER_BANK);
     ASSERT (region_num < NUM_REGION \<or> region_num = INVALID16);
     d \<leftarrow> wr16 (region_addr bank vblock) region_num (ddram s);
     Some (set_ddram d s) }"

definition age_addr :: "nat \<Rightarrow> nat \<Rightarrow> nat" where
  "age_addr bank vblock = VBLK_AGE_ADDR + (bank * VBLKS_PER_BANK + vblock) * 4"

definition get_age_of_vblock :: "nat \<Rightarrow> nat \<Rightarrow> dstate \<Rightarrow> nat option" where
  "get_age_of_vblock bank vblock s = do {
     ASSERT (vblock < VBLKS_PER_BANK);
     rd32 (age_addr bank vblock) (ddram s) }"

definition set_age_of_vblock :: "nat \<Rightarrow> nat \<Rightarrow> nat \<Rightarrow> dstate \<Rightarrow> dstate option" where
  "set_age_of_vblock bank vblock age s = do {
     ASSERT (vblock < VBLKS_PER_BANK);
     d \<leftarrow> wr32 (age_addr bank vblock) age (ddram s);
     Some (set_ddram d s) }"

definition da_bad_blk_bmp :: "nat \<Rightarrow> nat" where
  "da_bad_blk_bmp bank = DA_BAD_BLK_BMP_ADDR + bank * (VBLKS_PER_BANK div 8 + 1)"

definition da_is_bad_block :: "nat \<Rightarrow> nat \<Rightarrow> dstate \<Rightarrow> bool option" where
  "da_is_bad_block bank vblk_offset s = tst_bit (da_bad_blk_bmp bank) vblk_offset (ddram s)"

definition set_bad_block :: "nat \<Rightarrow> nat \<Rightarrow> dstate \<Rightarrow> dstate option" where
  "set_bad_block bank vblk_offset s = do {
     d \<leftarrow> put_bit (da_bad_blk_bmp bank) vblk_offset (ddram s);
     Some (set_ddram d (s\<lparr>d_bad_blk_count := (d_bad_blk_count s)(bank := wrap32 (d_bad_blk_count s bank + 1))\<rparr>)) }"

subsection \<open>The victim of a collection\<close>

text \<open>
  The loops over the blocks with their \<open>break\<close>. The alternate policy is not called; it leaves its result uninitialised
  when no block qualifies (\<open>None\<close>).
\<close>

fun greedy_scan :: "nat \<Rightarrow> dstate \<Rightarrow> nat list \<Rightarrow> nat option \<Rightarrow> nat option option" where
  "greedy_scan bank s [] vt = Some vt"
| "greedy_scan bank s (vblock # vblocks) vt = do {
     valid_cnt \<leftarrow> da_get_vcount bank vblock s;
     if valid_cnt AND NOT_FOR_VICTIM \<noteq> 0 then greedy_scan bank s vblocks vt
     else if valid_cnt = 0 then Some (Some vblock)
     else greedy_scan bank s vblocks (if valid_cnt < PAGES_PER_VBLK - 1 then Some vblock else vt) }"

definition get_vt_vblock_by_greedy :: "nat \<Rightarrow> dstate \<Rightarrow> nat option" where
  "get_vt_vblock_by_greedy bank s = do {
     ASSERT (bank < NUM_BANKS);
     vt \<leftarrow> greedy_scan bank s [DA_META_BLKS_PER_BANK..<VBLKS_PER_BANK] None;
     vt_vblock \<leftarrow> vt;
     bad \<leftarrow> da_is_bad_block bank vt_vblock s;
     ASSERT (\<not> bad);
     vcount \<leftarrow> da_get_vcount bank vt_vblock s;
     ASSERT (vcount \<le> PAGES_PER_VBLK - 1);
     Some vt_vblock }"

definition block_cost :: "nat \<Rightarrow> nat \<Rightarrow> nat \<Rightarrow> nat" where
  "block_cost glob age valid_cnt = wrap32 (sub32 glob age * (PAGES_PER_VBLK - valid_cnt)) div (valid_cnt * 2)"

fun cost_scan :: "nat \<Rightarrow> dstate \<Rightarrow> nat list \<Rightarrow> nat \<Rightarrow> nat \<Rightarrow> nat option" where
  "cost_scan bank s [] vt_vblock max_cost = Some vt_vblock"
| "cost_scan bank s (vblock # vblocks) vt_vblock max_cost = do {
     valid_cnt \<leftarrow> da_get_vcount bank vblock s;
     if valid_cnt AND NOT_FOR_VICTIM \<noteq> 0 then cost_scan bank s vblocks vt_vblock max_cost
     else if valid_cnt = 0 then Some vblock
     else do {
       age \<leftarrow> get_age_of_vblock bank vblock s;
       let vblock_cost = block_cost (global_age (d_misc_meta s bank)) age valid_cnt;
       if max_cost < vblock_cost then cost_scan bank s vblocks vblock vblock_cost
       else cost_scan bank s vblocks vt_vblock max_cost } }"

definition get_vt_vblock_by_cost_benefit :: "nat \<Rightarrow> dstate \<Rightarrow> nat option" where
  "get_vt_vblock_by_cost_benefit bank s = do {
     ASSERT (bank < NUM_BANKS);
     vt_vblock \<leftarrow> cost_scan bank s [DA_META_BLKS_PER_BANK..<VBLKS_PER_BANK] DA_META_BLKS_PER_BANK 0;
     bad \<leftarrow> da_is_bad_block bank vt_vblock s;
     ASSERT (\<not> bad);
     vcount \<leftarrow> da_get_vcount bank vt_vblock s;
     ASSERT (vcount \<le> PAGES_PER_VBLK - 1);
     Some vt_vblock }"

subsection \<open>Garbage collection\<close>

definition DA_LPN_LIST_BYTES :: nat where
  "DA_LPN_LIST_BYTES = 4 * PAGES_PER_VBLK"

definition DA_LPN_LIST_SECT :: nat where
  "DA_LPN_LIST_SECT = (4 * PAGES_PER_VBLK + BYTES_PER_SECTOR - 1) div BYTES_PER_SECTOR"

lemma da_list_geom [geom]: "DA_LPN_LIST_BYTES = 512" "DA_LPN_LIST_SECT = 1"
  by (simp_all add: DA_LPN_LIST_BYTES_def DA_LPN_LIST_SECT_def geom)

text \<open>An open block that is full: its list goes to its last page, its count to the table, and it gets its age.\<close>

definition close_active :: "flash_hw \<Rightarrow> nat \<Rightarrow> nat \<Rightarrow> nat \<Rightarrow> dstate \<Rightarrow> dstate option" where
  "close_active hw bank r vblock s = do {
     d \<leftarrow> sram_to_dram (DA_FTL_BUF bank) (\<lambda>i. of_nat (rg_lpn_list (region bank r s) i)) DA_LPN_LIST_BYTES (ddram s);
     s \<leftarrow> dflash_do (nand_page_ptprogram hw bank vblock (PAGES_PER_VBLK - 1) 0 DA_LPN_LIST_SECT (DA_FTL_BUF bank)) (set_ddram d s);
     let s = set_region bank r (\<lambda>t. t\<lparr>rg_lpn_list := \<lambda>_. 0\<rparr>) s;
     s \<leftarrow> da_set_vcount bank vblock (get_vcount_of_active_block bank r s) s;
     let s = set_vcount_of_active_block bank r 0 s;
     s \<leftarrow> set_age_of_vblock bank vblock (global_age (d_misc_meta s bank)) s;
     Some (inc_full_blk_cnt bank s) }"

text \<open>The next page of region \<open>r\<close> for a copied page; a full block is replaced by the one kept for collections.\<close>

definition gc_next_page :: "flash_hw \<Rightarrow> nat \<Rightarrow> nat \<Rightarrow> dstate \<Rightarrow> dstate option" where
  "gc_next_page hw bank r s =
     (let cur_write_vpn = get_cur_write_vpn_of_region bank r s in
      if cur_write_vpn mod PAGES_PER_VBLK = PAGES_PER_VBLK - 2
      then do {
        vcount \<leftarrow> da_get_vcount bank (cur_write_vpn div PAGES_PER_VBLK) s;
        s \<leftarrow> (if vcount = VC_ACTIVE then close_active hw bank r (cur_write_vpn div PAGES_PER_VBLK) s else Some s);
        let free_vpn = da_gc_vblock (d_misc_meta s bank);
        vcount \<leftarrow> da_get_vcount bank free_vpn s;
        ASSERT (vcount \<noteq> VC_ACTIVE);
        s \<leftarrow> da_set_vcount bank free_vpn VC_ACTIVE s;
        s \<leftarrow> set_region_num bank free_vpn r s;
        Some (set_new_write_vpn_of_region bank r (free_vpn * PAGES_PER_VBLK) s) }
      else Some (inc_cur_write_vpn_of_region bank r s))"

definition da_gc_page :: "flash_hw \<Rightarrow> nat \<Rightarrow> nat \<Rightarrow> nat \<Rightarrow> nat \<Rightarrow> dstate \<Rightarrow> dstate option" where
  "da_gc_page hw bank vt_vblock r src_page s = do {
     let src_lpn = lpn_list_of_vt_vblock (d_misc_meta s bank) src_page;
     vpn \<leftarrow> da_get_vpn src_lpn s;
     DA_CHECK_VPAGE vpn;
     if vpn \<noteq> vt_vblock * PAGES_PER_VBLK + src_page then Some s
     else do {
       s \<leftarrow> gc_next_page hw bank r s;
       let free_vpn = get_cur_write_vpn_of_region bank r s;
       ASSERT (vt_vblock \<noteq> free_vpn div PAGES_PER_VBLK);
       s \<leftarrow> dflash_do (nand_page_copyback hw bank vt_vblock src_page (free_vpn div PAGES_PER_VBLK) (free_vpn mod PAGES_PER_VBLK)) s;
       s \<leftarrow> da_set_vpn src_lpn free_vpn s;
       let s = inc_vcount_of_active_block bank r (set_lpn_of_region bank r (free_vpn mod PAGES_PER_VBLK) src_lpn s);
       ASSERT (get_vcount_of_active_block bank r s < PAGES_PER_VBLK);
       Some s } }"

definition da_garbage_collection :: "flash_hw \<Rightarrow> nat \<Rightarrow> dstate \<Rightarrow> dstate option" where
  "da_garbage_collection hw bank s = do {
     ASSERT (bank < NUM_BANKS);
     let s = dset_stat bank (\<lambda>t. t\<lparr>da_gc_cnt := wrap32 (da_gc_cnt t + 1)\<rparr>) s;
     let s = dset_stat bank (\<lambda>t. t\<lparr>da_gc_cnt := wrap32 (da_gc_cnt t + 1)\<rparr>) s;
     vt_vblock \<leftarrow> get_vt_vblock_by_cost_benefit bank s;
     vcount \<leftarrow> da_get_vcount bank vt_vblock s;
     ASSERT (DA_META_BLKS_PER_BANK \<le> vt_vblock \<and> vt_vblock < VBLKS_PER_BANK);
     ASSERT (vcount \<le> PAGES_PER_VBLK - 1);
     if vcount = 0
     then do {
       s \<leftarrow> dflash_do (nand_block_erase hw bank vt_vblock) s;
       s \<leftarrow> set_region_num bank vt_vblock INVALID16 s;
       s \<leftarrow> da_set_vcount bank vt_vblock VC_FREE s;
       Some (dec_full_blk_cnt bank s) }
     else do {
       region_num_of_vt_vblock \<leftarrow> get_region_num bank vt_vblock s;
       ASSERT (region_num_of_vt_vblock < NUM_REGION);
       s \<leftarrow> dflash_do (nand_page_ptread hw bank vt_vblock (PAGES_PER_VBLK - 1) 0 DA_LPN_LIST_SECT (DA_FTL_BUF bank) RETURN_WHEN_DONE) s;
       w \<leftarrow> dram_to_sram (DA_FTL_BUF bank) DA_LPN_LIST_BYTES (ddram s);
       let s = dset_misc bank (\<lambda>m. m\<lparr>lpn_list_of_vt_vblock := \<lambda>i. unat (w i)\<rparr>) s;
       let region_num_to_cpback = (if 0 < region_num_of_vt_vblock then region_num_of_vt_vblock - 1 else 0);
       s \<leftarrow> each (da_gc_page hw bank vt_vblock region_num_to_cpback) [0..<PAGES_PER_VBLK - 1] s;
       s \<leftarrow> dflash_do (nand_block_erase hw bank vt_vblock) s;
       s \<leftarrow> set_region_num bank vt_vblock INVALID16 s;
       gc_vcount \<leftarrow> da_get_vcount bank (da_gc_vblock (d_misc_meta s bank)) s;
       s \<leftarrow> (if gc_vcount = VC_ACTIVE
            then da_set_vcount bank vt_vblock DA_VC_MAX (dset_misc bank (\<lambda>m. m\<lparr>da_gc_vblock := vt_vblock\<rparr>) s)
            else da_set_vcount bank vt_vblock VC_FREE s);
       Some (dec_full_blk_cnt bank s) } }"

subsection \<open>Writing\<close>

text \<open>\<open>while (is_full_all_blks(bank)) garbage_collection(bank)\<close>; it need not end.\<close>

partial_function (option) collect_while_full :: "flash_hw \<Rightarrow> nat \<Rightarrow> dstate \<Rightarrow> dstate option" where
  "collect_while_full hw bank s =
     (if is_full_all_blks bank s
      then do { s \<leftarrow> da_garbage_collection hw bank s; collect_while_full hw bank s }
      else Some s)"

text \<open>The next usable block, around the end of the bank; without one the loop does not end.\<close>

partial_function (option) next_free_block :: "nat \<Rightarrow> dstate \<Rightarrow> nat \<Rightarrow> nat option" where
  "next_free_block bank s vblock = do {
     let vblock = (if vblock + 1 = VBLKS_PER_BANK then DA_META_BLKS_PER_BANK else vblock + 1);
     vcount \<leftarrow> da_get_vcount bank vblock s;
     if vcount \<noteq> VC_FREE then next_free_block bank s vblock else Some vblock }"

text \<open>Every page that is written again moves one region up.\<close>

definition region_for_write :: "nat \<Rightarrow> nat \<Rightarrow> dstate \<Rightarrow> nat option" where
  "region_for_write bank old_vpn s =
     (if old_vpn = 0 then Some 0
      else do {
        r \<leftarrow> get_region_num bank (old_vpn div PAGES_PER_VBLK) s;
        ASSERT (r < NUM_REGION);
        let r = (if r < NUM_REGION - 1 then r + 1 else r);
        ASSERT (r < NUM_REGION);
        Some r })"

text \<open>The rest of the assignment, once the block of the next page is known.\<close>

definition take_page :: "nat \<Rightarrow> nat \<Rightarrow> nat \<Rightarrow> nat \<Rightarrow> dstate \<Rightarrow> (nat \<times> dstate) option" where
  "take_page bank r write_vpn vblock s = do {
     (write_vpn, s) \<leftarrow>
       (if vblock \<noteq> write_vpn div PAGES_PER_VBLK
        then do {
          vcount \<leftarrow> da_get_vcount bank vblock s;
          ASSERT (vcount \<noteq> DA_VC_MAX \<or> vcount \<noteq> VC_ACTIVE);
          s \<leftarrow> set_region_num bank vblock r s;
          s \<leftarrow> da_set_vcount bank vblock VC_ACTIVE s;
          Some (vblock * PAGES_PER_VBLK, set_vcount_of_active_block bank r 0 s) }
        else Some (wrap32 (write_vpn + 1), s));
     vcount \<leftarrow> da_get_vcount bank (write_vpn div PAGES_PER_VBLK) s;
     ASSERT (vcount = VC_ACTIVE);
     let s = set_new_write_vpn_of_region bank r write_vpn s;
     Some (get_cur_write_vpn_of_region bank r s, s) }"

definition da_assign_new_write_vpn :: "flash_hw \<Rightarrow> nat \<Rightarrow> nat \<Rightarrow> dstate \<Rightarrow> (nat \<times> nat \<times> dstate) option" where
  "da_assign_new_write_vpn hw bank old_vpn s = do {
     ASSERT (bank < NUM_BANKS);
     r \<leftarrow> region_for_write bank old_vpn s;
     let write_vpn = get_cur_write_vpn_of_region bank r s;
     let vblock = write_vpn div PAGES_PER_VBLK;
     if write_vpn mod PAGES_PER_VBLK = PAGES_PER_VBLK - 2
     then do {
       vcount \<leftarrow> da_get_vcount bank vblock s;
       ASSERT (vcount = VC_ACTIVE);
       s \<leftarrow> close_active hw bank r vblock s;
       s \<leftarrow> collect_while_full hw bank s;
       if get_cur_write_vpn_of_region bank r s mod PAGES_PER_VBLK \<noteq> PAGES_PER_VBLK - 2
       then (let s = inc_cur_write_vpn_of_region bank r s in Some (r, get_cur_write_vpn_of_region bank r s, s))
       else do {
         vblock \<leftarrow> next_free_block bank s vblock;
         (vpn, s) \<leftarrow> take_page bank r write_vpn vblock s;
         Some (r, vpn, s) } }
     else do {
       (vpn, s) \<leftarrow> take_page bank r write_vpn vblock s;
       Some (r, vpn, s) } }"

definition da_load_holes :: "flash_hw \<Rightarrow> nat \<Rightarrow> nat \<Rightarrow> nat \<Rightarrow> nat \<Rightarrow> nat \<Rightarrow> dstate \<Rightarrow> dstate option" where
  "da_load_holes hw bank vblock page_num page_offset column_cnt s =
     (let buf = WR_BUF_PTR dac_layout (g_ftl_write_buf_id (dfl s)) in
      if column_cnt \<le> 8 \<and> page_offset \<noteq> 0
      then do {
        s \<leftarrow> dflash_do (nand_page_read hw bank vblock page_num (DA_FTL_BUF bank)) s;
        d \<leftarrow> dram_move buf (DA_FTL_BUF bank) (page_offset * BYTES_PER_SECTOR) (ddram s);
        let s = set_ddram d s;
        if page_offset + column_cnt < SECTORS_PER_PAGE
        then do {
          let rhole_base = (page_offset + column_cnt) * BYTES_PER_SECTOR;
          d \<leftarrow> dram_move (buf + rhole_base) (DA_FTL_BUF bank + rhole_base) (BYTES_PER_PAGE - rhole_base) (ddram s);
          Some (set_ddram d s) }
        else Some s }
      else do {
        s \<leftarrow> (if page_offset \<noteq> 0 then dflash_do (nand_page_ptread hw bank vblock page_num 0 page_offset buf RETURN_ON_ISSUE) s
             else Some s);
        if page_offset + column_cnt < SECTORS_PER_PAGE
        then dflash_do (nand_page_ptread hw bank vblock page_num (page_offset + column_cnt)
               (SECTORS_PER_PAGE - (page_offset + column_cnt)) buf RETURN_ON_ISSUE) s
        else Some s })"

text \<open>The old page of a write: its holes are loaded and it no longer counts.\<close>

definition invalidate_old :: "nat \<Rightarrow> nat \<Rightarrow> nat \<Rightarrow> dstate \<Rightarrow> dstate option" where
  "invalidate_old bank vblock r s =
     (if vblock = get_cur_write_vpn_of_region bank r s div PAGES_PER_VBLK
      then do {
        let s = dec_vcount_of_active_block bank r s;
        ASSERT (get_vcount_of_active_block bank r s < PAGES_PER_VBLK);
        Some s }
      else do {
        vcount \<leftarrow> da_get_vcount bank vblock s;
        s \<leftarrow> da_set_vcount bank vblock (sub32 vcount 1) s;
        vcount \<leftarrow> da_get_vcount bank vblock s;
        ASSERT (vcount < PAGES_PER_VBLK - 1);
        Some s })"

definition da_write_page :: "flash_hw \<Rightarrow> nat \<Rightarrow> nat \<Rightarrow> nat \<Rightarrow> dstate \<Rightarrow> dstate option" where
  "da_write_page hw lpn sect_offset num_sectors s = do {
     ASSERT (lpn < NUM_LPAGES);
     ASSERT (sect_offset < SECTORS_PER_PAGE);
     ASSERT (0 < num_sectors \<and> num_sectors \<le> SECTORS_PER_PAGE);
     let bank = get_num_bank lpn;
     old_vpn \<leftarrow> da_get_vpn lpn s;
     DA_CHECK_VPAGE old_vpn;
     let s = dset_stat bank (\<lambda>t. t\<lparr>da_page_wcount := wrap32 (da_page_wcount t + 1)\<rparr>) s;
     (page_offset, column_cnt, s) \<leftarrow>
       (if old_vpn \<noteq> 0
        then do {
          let vblock = old_vpn div PAGES_PER_VBLK;
          let page_num = old_vpn mod PAGES_PER_VBLK;
          region_num_of_old_vpn \<leftarrow> get_region_num bank vblock s;
          ASSERT (region_num_of_old_vpn < NUM_REGION);
          s \<leftarrow> (if num_sectors \<noteq> SECTORS_PER_PAGE then da_load_holes hw bank vblock page_num sect_offset num_sectors s else Some s);
          s \<leftarrow> invalidate_old bank vblock region_num_of_old_vpn s;
          Some (0, SECTORS_PER_PAGE, s) }
        else Some (sect_offset, num_sectors, s));
     (r, new_vpn, s) \<leftarrow> da_assign_new_write_vpn hw bank old_vpn s;
     DA_CHECK_VPAGE new_vpn;
     ASSERT (get_vcount_of_active_block bank r s < PAGES_PER_VBLK - 1);
     new_region \<leftarrow> get_region_num bank (new_vpn div PAGES_PER_VBLK) s;
     ASSERT (new_region < NUM_REGION);
     let vblock = new_vpn div PAGES_PER_VBLK;
     let page_num = new_vpn mod PAGES_PER_VBLK;
     s \<leftarrow> dflash_do (nand_page_ptprogram_from_host hw dac_layout bank vblock page_num page_offset column_cnt) s;
     s \<leftarrow> da_set_vpn lpn new_vpn s;
     let s = set_lpn_of_region bank r page_num lpn s;
     let s = inc_vcount_of_active_block bank r s;
     Some (inc_global_age bank s) }"

partial_function (option) da_ftl_write_loop :: "flash_hw \<Rightarrow> nat \<Rightarrow> nat \<Rightarrow> nat \<Rightarrow> dstate \<Rightarrow> dstate option" where
  "da_ftl_write_loop hw lpn sect_offset remain_sects s =
     (if remain_sects = 0 then Some s
      else do {
        s \<leftarrow> da_write_page hw lpn sect_offset (page_chunk sect_offset remain_sects) s;
        da_ftl_write_loop hw (lpn + 1) 0 (remain_sects - page_chunk sect_offset remain_sects) s })"

definition da_ftl_write :: "flash_hw \<Rightarrow> nat \<Rightarrow> nat \<Rightarrow> dstate \<Rightarrow> dstate option" where
  "da_ftl_write hw lba num_sectors s =
     da_ftl_write_loop hw (lba div SECTORS_PER_PAGE) (lba mod SECTORS_PER_PAGE) num_sectors s"

definition da_ftl_test_write :: "flash_hw \<Rightarrow> nat \<Rightarrow> nat \<Rightarrow> dstate \<Rightarrow> dstate option" where
  "da_ftl_test_write hw lba num_sectors s = do {
     ASSERT (wrap32 (lba + num_sectors) \<le> NUM_LSECTORS);
     ASSERT (0 < num_sectors);
     da_ftl_write hw lba num_sectors s }"

subsection \<open>Reading\<close>

definition da_read_page :: "flash_hw \<Rightarrow> nat \<Rightarrow> nat \<Rightarrow> nat \<Rightarrow> dstate \<Rightarrow> dstate option" where
  "da_read_page hw lpn sect_offset num_sectors_to_read s = do {
     let bank = get_num_bank lpn;
     vpn \<leftarrow> da_get_vpn lpn s;
     DA_CHECK_VPAGE vpn;
     if vpn \<noteq> 0
     then dflash_do (nand_page_ptread_to_host hw dac_layout bank (vpn div PAGES_PER_VBLK) (vpn mod PAGES_PER_VBLK)
            sect_offset num_sectors_to_read) s
     else do {
       let buf = g_ftl_read_buf_id (dfl s);
       let next_read_buf_id = (buf + 1) mod DA_NUM_RD_BUFFERS;
       let s = on_dfl (log (Wait_Rbuf next_read_buf_id)) s;
       d \<leftarrow> dram_fill (RD_BUF_PTR dac_layout buf + sect_offset * BYTES_PER_SECTOR) 0xFFFFFFFF
              (num_sectors_to_read * BYTES_PER_SECTOR) (ddram s);
       let s = on_dfl flash_finish (set_ddram d s);
       let s = on_dfl (SETREG BM_STACK_RDSET next_read_buf_id) s;
       let s = on_dfl (SETREG BM_STACK_RESET 0x02) s;
       Some (on_dfl (\<lambda>f. f\<lparr>g_ftl_read_buf_id := next_read_buf_id\<rparr>) s) } }"

partial_function (option) da_ftl_read_loop :: "flash_hw \<Rightarrow> nat \<Rightarrow> nat \<Rightarrow> nat \<Rightarrow> dstate \<Rightarrow> dstate option" where
  "da_ftl_read_loop hw lpn sect_offset remain_sects s =
     (if remain_sects = 0 then Some s
      else do {
        s \<leftarrow> da_read_page hw lpn sect_offset (page_chunk sect_offset remain_sects) s;
        da_ftl_read_loop hw (lpn + 1) 0 (remain_sects - page_chunk sect_offset remain_sects) s })"

definition da_ftl_read :: "flash_hw \<Rightarrow> nat \<Rightarrow> nat \<Rightarrow> dstate \<Rightarrow> dstate option" where
  "da_ftl_read hw lba num_sectors s =
     da_ftl_read_loop hw (lba div SECTORS_PER_PAGE) (lba mod SECTORS_PER_PAGE) num_sectors s"

subsection \<open>Flushing the metadata\<close>

text \<open>
  The words of \<open>g_misc_meta\<close> in the SRAM. \<open>mem_copy\<close> copies whole sectors from \<open>g_misc_meta[bank]\<close> on, so the
  words that follow the structure of a bank are those of the next bank, and what follows the array is
  \<open>sram_rest\<close>.
\<close>

definition region_words :: "region_table \<Rightarrow> nat \<Rightarrow> u32" where
  "region_words t i = (if i = 0 then of_nat (rg_cur_write_vpn t) else if i < 1 + PAGES_PER_VBLK then of_nat (rg_lpn_list t (i - 1))
     else of_nat (vcount_of_active_vblock t))"

definition region_of_words :: "(nat \<Rightarrow> u32) \<Rightarrow> region_table" where
  "region_of_words w = \<lparr>rg_cur_write_vpn = unat (w 0), rg_lpn_list = (\<lambda>i. unat (w (1 + i))), vcount_of_active_vblock = unat (w (1 + PAGES_PER_VBLK))\<rparr>"

definition dac_words :: "dac_metadata \<Rightarrow> nat \<Rightarrow> u32" where
  "dac_words m i =
     (let a = 1 + DA_MAPBLKS_PER_BANK; b = a + PAGES_PER_VBLK; n = sizeof_region_table div 4 in
      if i = 0 then of_nat (da_cur_miscblk_vpn m)
      else if i < a then of_nat (da_cur_mapblk_vpn m (i - 1))
      else if i < b then of_nat (lpn_list_of_vt_vblock m (i - a))
      else if i = b then of_nat (da_free_blk_cnt m)
      else if i = b + 1 then of_nat (da_gc_vblock m)
      else if i = b + 2 then of_nat (global_age m)
      else region_words (region_tbl m ((i - (b + 3)) div n)) ((i - (b + 3)) mod n))"

definition dac_of_words :: "(nat \<Rightarrow> u32) \<Rightarrow> dac_metadata" where
  "dac_of_words w = (let a = 1 + DA_MAPBLKS_PER_BANK; b = a + PAGES_PER_VBLK; n = sizeof_region_table div 4 in
     \<lparr>da_cur_miscblk_vpn = unat (w 0), da_cur_mapblk_vpn = (\<lambda>i. unat (w (1 + i))), lpn_list_of_vt_vblock = (\<lambda>i. unat (w (a + i))),
      da_free_blk_cnt = unat (w b), da_gc_vblock = unat (w (b + 1)), global_age = unat (w (b + 2)),
      region_tbl = (\<lambda>r. region_of_words (\<lambda>i. w (b + 3 + r * n + i)))\<rparr>)"

definition dac_meta_array :: "(nat \<Rightarrow> u32) \<Rightarrow> dstate \<Rightarrow> nat \<Rightarrow> nat \<Rightarrow> u32" where
  "dac_meta_array sram_rest s bank i =
     (let n = da_sizeof_misc_metadata div 4; b = bank + i div n in
      if b < NUM_BANKS then dac_words (d_misc_meta s b) (i mod n) else sram_rest (i - (NUM_BANKS - bank) * n))"

definition flush_misc_bank :: "flash_hw \<Rightarrow> (nat \<Rightarrow> u32) \<Rightarrow> nat \<Rightarrow> nat \<times> dstate \<Rightarrow> (nat \<times> dstate) option" where
  "flush_misc_bank hw sram_rest bank x = do {
     let (addr, s) = x;
     let misc_meta_bytes = DA_NUM_MISC_META_SECT * BYTES_PER_SECTOR;
     let vcount_bytes = DA_NUM_VCOUNT_SECT * BYTES_PER_SECTOR;
     let s = set_miscblk_vpn bank (wrap32 (get_miscblk_vpn bank s + 1)) s;
     s \<leftarrow> (if get_miscblk_vpn bank s div PAGES_PER_VBLK \<noteq> DA_MISCBLK_VBN
          then do {
            s \<leftarrow> dflash_do (nand_block_erase hw bank DA_MISCBLK_VBN) s;
            Some (set_miscblk_vpn bank (DA_MISCBLK_VBN * PAGES_PER_VBLK) s) }
          else Some s);
     d \<leftarrow> sram_to_dram (DA_FTL_BUF bank) (dac_meta_array sram_rest s bank) misc_meta_bytes (ddram s);
     let s = set_ddram d s;
     if addr \<le> DA_VCOUNT_ADDR + DA_VCOUNT_BYTES
     then do {
       d \<leftarrow> dram_move (DA_FTL_BUF bank + misc_meta_bytes) addr vcount_bytes (ddram s);
       Some (addr + vcount_bytes, set_ddram d s) }
     else Some (addr, s) }"

definition flush_misc_program :: "flash_hw \<Rightarrow> nat \<Rightarrow> dstate \<Rightarrow> dstate option" where
  "flush_misc_program hw bank s = dflash_do (nand_page_ptprogram hw bank (get_miscblk_vpn bank s div PAGES_PER_VBLK)
     (get_miscblk_vpn bank s mod PAGES_PER_VBLK) 0 (DA_NUM_MISC_META_SECT + DA_NUM_VCOUNT_SECT) (DA_FTL_BUF bank)) s"

definition flush_misc_metadata :: "flash_hw \<Rightarrow> (nat \<Rightarrow> u32) \<Rightarrow> dstate \<Rightarrow> dstate option" where
  "flush_misc_metadata hw sram_rest s = do {
     (_, s) \<leftarrow> each (flush_misc_bank hw sram_rest) [0..<NUM_BANKS] (DA_VCOUNT_ADDR, on_dfl flash_finish s);
     s \<leftarrow> each (flush_misc_program hw) [0..<NUM_BANKS] s;
     Some (on_dfl flash_finish s) }"

text \<open>
  A table of the DRAM goes to a map block of every bank, page by page in turn. The block is erased first when
  \<open>num_bytes\<close>, which is at most one page here, does not fit.
\<close>

definition flush_room :: "flash_hw \<Rightarrow> nat \<Rightarrow> nat \<Rightarrow> nat \<Rightarrow> dstate \<Rightarrow> dstate option" where
  "flush_room hw mapblk_lbn num_bytes bank s =
     (if PAGES_PER_VBLK - get_mapblk_vpn bank mapblk_lbn s mod PAGES_PER_VBLK \<le> num_bytes div BYTES_PER_SECTOR div SECTORS_PER_PAGE div NUM_BANKS
      then do {
        let mapblk_vbn = get_mapblk_vpn bank mapblk_lbn s div PAGES_PER_VBLK;
        s \<leftarrow> dflash_do (nand_block_erase hw bank mapblk_vbn) s;
        Some (set_mapblk_vpn bank mapblk_lbn (sub32 (mapblk_vbn * PAGES_PER_VBLK) 1) s) }
      else Some s)"

definition flush_page :: "flash_hw \<Rightarrow> nat \<Rightarrow> nat \<Rightarrow> nat \<Rightarrow> nat \<Rightarrow> dstate \<Rightarrow> dstate option" where
  "flush_page hw mapblk_lbn bank addr num_bytes s = do {
     let s = inc_mapblk_vpn bank mapblk_lbn s;
     let mapblk_vpn = get_mapblk_vpn bank mapblk_lbn s;
     d \<leftarrow> dram_move (DA_FTL_BUF bank) addr num_bytes (ddram s);
     dflash_do (nand_page_ptprogram hw bank (mapblk_vpn div PAGES_PER_VBLK) (mapblk_vpn mod PAGES_PER_VBLK) 0
       ((num_bytes + BYTES_PER_SECTOR - 1) div BYTES_PER_SECTOR) (DA_FTL_BUF bank)) (set_ddram d s) }"

fun flush_banks :: "flash_hw \<Rightarrow> nat \<Rightarrow> nat \<Rightarrow> nat list \<Rightarrow> nat \<Rightarrow> nat \<Rightarrow> dstate \<Rightarrow> (nat \<times> nat \<times> dstate) option" where
  "flush_banks hw mapblk_lbn dram_boundary [] addr num_bytes s = Some (addr, num_bytes, s)"
| "flush_banks hw mapblk_lbn dram_boundary (bank # banks) addr num_bytes s =
     (if dram_boundary \<le> addr then Some (addr, num_bytes, s)
      else do {
        let num_bytes = (if dram_boundary < addr + BYTES_PER_PAGE then dram_boundary - addr else num_bytes);
        s \<leftarrow> flush_page hw mapblk_lbn bank addr num_bytes s;
        flush_banks hw mapblk_lbn dram_boundary banks (addr + num_bytes) num_bytes s })"

partial_function (option) flush_loop :: "flash_hw \<Rightarrow> nat \<Rightarrow> nat \<Rightarrow> nat \<Rightarrow> nat \<Rightarrow> dstate \<Rightarrow> dstate option" where
  "flush_loop hw mapblk_lbn dram_boundary addr num_bytes s =
     (if addr < dram_boundary
      then do {
        (addr, num_bytes, s) \<leftarrow> flush_banks hw mapblk_lbn dram_boundary [0..<NUM_BANKS] addr num_bytes (on_dfl flash_finish s);
        flush_loop hw mapblk_lbn dram_boundary addr num_bytes s }
      else Some s)"

definition flush_dram_metadata_into_mapblk :: "flash_hw \<Rightarrow> nat \<Rightarrow> nat \<Rightarrow> nat \<Rightarrow> dstate \<Rightarrow> dstate option" where
  "flush_dram_metadata_into_mapblk hw mapblk_lbn tab_addr dram_bytes s = do {
     let num_bytes = (if BYTES_PER_PAGE < dram_bytes then BYTES_PER_PAGE else dram_bytes);
     s \<leftarrow> each (flush_room hw mapblk_lbn num_bytes) [0..<NUM_BANKS] s;
     s \<leftarrow> flush_loop hw mapblk_lbn (tab_addr + dram_bytes) tab_addr num_bytes s;
     Some (on_dfl flash_finish s) }"

definition da_ftl_flush :: "flash_hw \<Rightarrow> (nat \<Rightarrow> u32) \<Rightarrow> dstate \<Rightarrow> dstate option" where
  "da_ftl_flush hw sram_rest s = do {
     s \<leftarrow> flush_dram_metadata_into_mapblk hw 1 VBLK_AGE_ADDR (VBLK_AGE_BYTES + VBLK_REGION_BYTES) s;
     s \<leftarrow> flush_dram_metadata_into_mapblk hw 0 DA_PAGE_MAP_ADDR DA_PAGE_MAP_BYTES s;
     flush_misc_metadata hw sram_rest s }"

subsection \<open>Loading the metadata\<close>

text \<open>
  The pages of the misc block are read from the last one down; a bank keeps what it read first that is not all ones. \<open>load_cnt\<close>
  counts the bits that are set in \<open>load_flag\<close>.
\<close>

definition da_clr_bsp_intr :: "nat \<Rightarrow> nat \<Rightarrow> dstate \<Rightarrow> dstate" where
  "da_clr_bsp_intr bank flag = on_dfl (SETREG (BSP_INTR_WORD (REAL_BANK bank div 4 * 4)) (flag * 2 ^ (REAL_BANK bank mod 4 * 8)))"

definition da_load_misc_read :: "flash_hw \<Rightarrow> nat \<Rightarrow> u32 \<Rightarrow> nat \<Rightarrow> dstate \<Rightarrow> dstate option" where
  "da_load_misc_read hw page_num load_flag bank s =
     (if bit load_flag bank then Some s
      else dflash_do (nand_page_ptread hw bank DA_MISCBLK_VBN page_num 0 (DA_NUM_MISC_META_SECT + DA_NUM_VCOUNT_SECT) (DA_FTL_BUF bank) RETURN_ON_ISSUE) s)"

definition da_load_misc_check :: "bsp_regs \<Rightarrow> nat \<Rightarrow> u32 \<times> nat \<times> dstate \<Rightarrow> u32 \<times> nat \<times> dstate" where
  "da_load_misc_check bsp bank x = (let (load_flag, load_cnt, s) = x in
     if \<not> bit load_flag bank \<and> bsp (dfl s) bank AND FIRQ_ALL_FF = 0
     then (load_flag OR push_bit bank 1, load_cnt + 1, da_clr_bsp_intr bank 0xFF s)
     else (load_flag, load_cnt, da_clr_bsp_intr bank 0xFF s))"

definition da_load_misc_page :: "flash_hw \<Rightarrow> bsp_regs \<Rightarrow> nat \<Rightarrow> u32 \<times> nat \<times> dstate \<Rightarrow> (u32 \<times> nat \<times> dstate) option" where
  "da_load_misc_page hw bsp page_num x = do {
     let (load_flag, load_cnt, s) = x;
     s \<leftarrow> each (da_load_misc_read hw page_num load_flag) [0..<NUM_BANKS] s;
     Some (fold (da_load_misc_check bsp) [0..<NUM_BANKS] (load_flag, load_cnt, on_dfl flash_finish s)) }"

definition da_load_misc_copy :: "nat \<Rightarrow> nat \<times> dstate \<Rightarrow> (nat \<times> dstate) option" where
  "da_load_misc_copy bank x = do {
     let (addr, s) = x;
     w \<leftarrow> dram_to_sram (DA_FTL_BUF bank) da_sizeof_misc_metadata (ddram s);
     let s = dset_misc bank (\<lambda>_. dac_of_words w) s;
     if addr \<le> DA_VCOUNT_ADDR + DA_VCOUNT_BYTES
     then do {
       d \<leftarrow> dram_move addr (DA_FTL_BUF bank + DA_NUM_MISC_META_SECT * BYTES_PER_SECTOR) (DA_NUM_VCOUNT_SECT * BYTES_PER_SECTOR) (ddram s);
       Some (addr + DA_NUM_VCOUNT_SECT * BYTES_PER_SECTOR, set_ddram d s) }
     else Some (addr, s) }"

definition da_load_misc_metadata :: "flash_hw \<Rightarrow> bsp_regs \<Rightarrow> dstate \<Rightarrow> dstate option" where
  "da_load_misc_metadata hw bsp s = do {
     let s = on_dfl (\<lambda>f. flash_clear_irq (flash_finish f)) s;
     (_, load_cnt, s) \<leftarrow> each (da_load_misc_page hw bsp) (rev [0..<PAGES_PER_VBLK]) (0, 0, s);
     ASSERT (load_cnt = NUM_BANKS);
     (_, s) \<leftarrow> each da_load_misc_copy [0..<NUM_BANKS] (DA_VCOUNT_ADDR, s);
     Some s }"

text \<open>\<open>load_mapblk_vpn\<close>: where the last flush of a table of \<open>num_bytes\<close> bytes began in the map block of a bank.\<close>

definition load_mapblk_vpn :: "nat \<Rightarrow> nat \<Rightarrow> dstate \<Rightarrow> nat \<Rightarrow> nat" where
  "load_mapblk_vpn mapblk_lbn num_bytes s bank =
     (let n = (num_bytes + BYTES_PER_PAGE - 1) div BYTES_PER_PAGE;
          vpn = wrap32 (sub32 (get_mapblk_vpn bank mapblk_lbn s) (n div NUM_BANKS) + 1)
      in if bank < n mod NUM_BANKS then sub32 vpn 1 else vpn)"

fun load_table_read :: "flash_hw \<Rightarrow> nat \<Rightarrow> nat list \<Rightarrow> nat \<Rightarrow> nat \<Rightarrow> (nat \<Rightarrow> nat) \<Rightarrow> dstate \<Rightarrow> (nat \<times> nat \<times> (nat \<Rightarrow> nat) \<times> dstate) option" where
  "load_table_read hw dram_boundary [] addr num_bytes vpns s = Some (addr, num_bytes, vpns, s)"
| "load_table_read hw dram_boundary (bank # banks) addr num_bytes vpns s =
     (if dram_boundary \<le> addr then Some (addr, num_bytes, vpns, s)
      else do {
        let num_bytes = (if dram_boundary < addr + BYTES_PER_PAGE then dram_boundary - addr else num_bytes);
        let mapblk_vpn = vpns bank;
        let vpns = vpns(bank := wrap32 (vpns bank + 1));
        s \<leftarrow> dflash_do (nand_page_ptread hw bank (mapblk_vpn div PAGES_PER_VBLK) (mapblk_vpn mod PAGES_PER_VBLK) 0
               ((num_bytes + BYTES_PER_SECTOR - 1) div BYTES_PER_SECTOR) (DA_FTL_BUF bank) RETURN_ON_ISSUE) s;
        load_table_read hw dram_boundary banks (addr + num_bytes) num_bytes vpns s })"

fun load_table_copy :: "nat \<Rightarrow> nat list \<Rightarrow> nat \<Rightarrow> nat \<Rightarrow> dstate \<Rightarrow> dstate option" where
  "load_table_copy dram_boundary [] addr num_bytes s = Some s"
| "load_table_copy dram_boundary (bank # banks) addr num_bytes s =
     (if dram_boundary \<le> addr then Some s
      else do {
        let num_bytes = (if dram_boundary < addr + BYTES_PER_PAGE then dram_boundary - addr else num_bytes);
        d \<leftarrow> dram_move addr (DA_FTL_BUF bank) num_bytes (ddram s);
        load_table_copy dram_boundary banks (addr + num_bytes) num_bytes (set_ddram d s) })"

partial_function (option) load_table_loop :: "flash_hw \<Rightarrow> nat \<Rightarrow> nat \<Rightarrow> nat \<Rightarrow> (nat \<Rightarrow> nat) \<Rightarrow> dstate \<Rightarrow> dstate option" where
  "load_table_loop hw dram_boundary addr num_bytes vpns s =
     (if addr < dram_boundary
      then do {
        (addr', num_bytes', vpns, s) \<leftarrow> load_table_read hw dram_boundary [0..<NUM_BANKS] addr num_bytes vpns s;
        s \<leftarrow> load_table_copy dram_boundary [0..<NUM_BANKS] addr num_bytes (on_dfl flash_finish s);
        load_table_loop hw dram_boundary addr' num_bytes' vpns s }
      else Some s)"

definition load_dram_metadata_from_mapblk :: "flash_hw \<Rightarrow> nat \<Rightarrow> nat \<Rightarrow> nat \<Rightarrow> dstate \<Rightarrow> dstate option" where
  "load_dram_metadata_from_mapblk hw mapblk_lbn tab_addr dram_bytes s =
     load_table_loop hw (tab_addr + dram_bytes) tab_addr (if BYTES_PER_PAGE < dram_bytes then BYTES_PER_PAGE else dram_bytes)
       (load_mapblk_vpn mapblk_lbn dram_bytes s) s"

definition da_load_metadata :: "flash_hw \<Rightarrow> bsp_regs \<Rightarrow> dstate \<Rightarrow> dstate option" where
  "da_load_metadata hw bsp s = do {
     s \<leftarrow> da_load_misc_metadata hw bsp s;
     s \<leftarrow> load_dram_metadata_from_mapblk hw 0 DA_PAGE_MAP_ADDR DA_PAGE_MAP_BYTES s;
     load_dram_metadata_from_mapblk hw 1 VBLK_AGE_ADDR (VBLK_AGE_BYTES + VBLK_REGION_BYTES) s }"

subsection \<open>Interrupts\<close>

text \<open>The handler notes the block whose erase failed; \<open>bsp_cmd\<close> and \<open>bsp_row\<close> are the command and row registers of a bank.\<close>

definition da_isr_bank :: "bsp_regs \<Rightarrow> bsp_regs \<Rightarrow> bsp_regs \<Rightarrow> nat \<Rightarrow> dstate \<Rightarrow> dstate" where
  "da_isr_bank bsp bsp_cmd bsp_row bank s =
     (let s = on_dfl (log (Wait_Bank (REAL_BANK bank))) s;
          bsp_intr_flag = bsp (dfl s) bank
      in if bsp_intr_flag = 0 then s
         else (let fc = bsp_cmd (dfl s) bank;
                   s = da_clr_bsp_intr bank bsp_intr_flag s
               in if bsp_intr_flag AND (FIRQ_BADBLK_H OR FIRQ_BADBLK_L) \<noteq> 0 \<and> fc \<noteq> FC_COL_ROW_IN_PROG \<and> fc \<noteq> FC_IN_PROG \<and> fc \<noteq> FC_PROG
                  then s\<lparr>g_bsp_isr_flag := (g_bsp_isr_flag s)(bank := bsp_row (dfl s) bank div PAGES_PER_VBLK)\<rparr>
                  else s))"

definition da_ftl_isr :: "bsp_regs \<Rightarrow> bsp_regs \<Rightarrow> bsp_regs \<Rightarrow> dstate \<Rightarrow> dstate" where
  "da_ftl_isr bsp bsp_cmd bsp_row s = fold (da_isr_bank bsp bsp_cmd bsp_row) [0..<NUM_BANKS] (on_dfl (SETREG APB_INT_STS INTR_FLASH) s)"

subsection \<open>Opening and formatting\<close>

definition da_sanity_check :: "unit option" where
  "da_sanity_check = (if DRAM_SIZE < DA_RD_BUF_BYTES + DA_WR_BUF_BYTES + DA_COPY_BUF_BYTES + DA_FTL_BUF_BYTES + DA_HIL_BUF_BYTES
     + DA_TEMP_BUF_BYTES + DA_BAD_BLK_BMP_BYTES + DA_PAGE_MAP_BYTES + DA_VCOUNT_BYTES + VBLK_AGE_BYTES + VBLK_REGION_BYTES
     \<or> BYTES_PER_PAGE < da_sizeof_misc_metadata then None else Some ())"

fun da_scan_entries :: "nat list \<Rightarrow> bool \<times> dram \<Rightarrow> (bool \<times> dram) option" where
  "da_scan_entries [] (ok, d) = Some (ok, d)"
| "da_scan_entries (i # is) (ok, d) = do {
     entry \<leftarrow> rd16 (DA_TEMP_BUF_ADDR + 2 + 2 * i) d;
     let pblk_offset = entry mod 0x8000;
     if pblk_offset = 0 \<or> PBLKS_PER_BANK \<le> pblk_offset then da_scan_entries is (False, d)
     else do {
       d \<leftarrow> wr16 (DA_TEMP_BUF_ADDR + 2 + 2 * i) pblk_offset d;
       da_scan_entries is (ok, d) } }"

definition da_check_scan_list :: "bsp_regs \<Rightarrow> nat \<Rightarrow> dstate \<Rightarrow> (nat \<times> dstate) option" where
  "da_check_scan_list bsp bank s = do {
     (ok, num_entries, d) \<leftarrow>
       (if bsp (dfl s) bank AND FIRQ_DATA_CORRUPT \<noteq> 0 then Some (False, 0, ddram s)
        else do {
          num_entries \<leftarrow> rd16 DA_TEMP_BUF_ADDR (ddram s);
          if SCAN_LIST_ITEMS < num_entries then Some (False, num_entries, ddram s)
          else do {
            (ok, d) \<leftarrow> da_scan_entries [0..<num_entries] (True, ddram s);
            Some (ok, num_entries, d) } });
     if \<not> ok then Some (0, set_ddram d s)
     else do {
       d \<leftarrow> wr16 DA_TEMP_BUF_ADDR 0 d;
       Some (num_entries, set_ddram d s) } }"

definition da_mark_bad_block :: "nat \<Rightarrow> nat \<Rightarrow> nat \<Rightarrow> dstate \<Rightarrow> dstate option" where
  "da_mark_bad_block num_entries bank vblk_offset s = do {
     i \<leftarrow> search_equ 2 DA_TEMP_BUF_ADDR (num_entries + 1) (vblk_offset * NUM_PLANES) (ddram s);
     j \<leftarrow> search_equ 2 DA_TEMP_BUF_ADDR (num_entries + 1) (vblk_offset * NUM_PLANES + 1) (ddram s);
     if i < num_entries + 1 \<or> j < num_entries + 1
     then do {
       d \<leftarrow> put_bit (da_bad_blk_bmp bank) vblk_offset (ddram s);
       Some (set_ddram d (s\<lparr>d_bad_blk_count := (d_bad_blk_count s)(bank := wrap32 (d_bad_blk_count s bank + 1))\<rparr>)) }
     else Some s }"

definition da_build_bad_blk_bank :: "flash_hw \<Rightarrow> bsp_regs \<Rightarrow> nat \<Rightarrow> dstate \<Rightarrow> dstate option" where
  "da_build_bad_blk_bank hw bsp bank s = do {
     let s = on_dfl (\<lambda>f. set_fcp (\<lambda>c. c\<lparr>fcp_bank := REAL_BANK bank\<rparr>)
               (setup_fcp FC_COL_ROW_READ_OUT FO_E DA_TEMP_BUF_ADDR SCAN_LIST_SIZE 0 bank SCAN_LIST_PAGE_OFFSET f)) s;
     let s = on_dfl (fcp_issue hw) s;
     let s = on_dfl (\<lambda>f. log (Wait_Bank (REAL_BANK bank)) (log Wait_Room f)) s;
     (num_entries, s) \<leftarrow> da_check_scan_list bsp bank s;
     let s = s\<lparr>d_bad_blk_count := (d_bad_blk_count s)(bank := 0)\<rparr>;
     each (da_mark_bad_block num_entries bank) [1..<VBLKS_PER_BANK] s }"

definition da_build_bad_blk_list :: "flash_hw \<Rightarrow> bsp_regs \<Rightarrow> dstate \<Rightarrow> dstate option" where
  "da_build_bad_blk_list hw bsp s = do {
     d \<leftarrow> dram_fill DA_BAD_BLK_BMP_ADDR 0 DA_BAD_BLK_BMP_BYTES (ddram s);
     each (da_build_bad_blk_bank hw bsp) [0..<NUM_BANKS] (on_dfl flash_clear_irq (set_ddram d s)) }"

text \<open>\<open>isr\<close> is what the interrupt handler does while the erase is waited for, if the interrupt comes.\<close>

definition da_format_block :: "flash_hw \<Rightarrow> (dstate \<Rightarrow> dstate) \<Rightarrow> nat \<Rightarrow> nat \<Rightarrow> dstate \<Rightarrow> dstate option" where
  "da_format_block hw isr vblock bank s = do {
     let s = s\<lparr>g_bsp_isr_flag := (g_bsp_isr_flag s)(bank := INVALID)\<rparr>;
     bad \<leftarrow> da_is_bad_block bank vblock s;
     (vcount_val, s) \<leftarrow>
       (if bad then Some (DA_VC_MAX, s)
        else do {
          s \<leftarrow> dflash_do (nand_block_erase_sync hw bank vblock) s;
          let s = isr s;
          if g_bsp_isr_flag s bank \<noteq> INVALID
          then do {
            s \<leftarrow> set_bad_block bank (g_bsp_isr_flag s bank) s;
            Some (DA_VC_MAX, s\<lparr>g_bsp_isr_flag := (g_bsp_isr_flag s)(bank := INVALID)\<rparr>) }
          else Some (VC_FREE, s) });
     d \<leftarrow> wr16 (da_vcount_addr bank vblock) vcount_val (ddram s);
     Some (set_ddram d s) }"

definition da_set_vcount_raw :: "nat \<Rightarrow> nat \<Rightarrow> nat \<Rightarrow> dstate \<Rightarrow> dstate option" where
  "da_set_vcount_raw bank vblock vcount s = do {
     d \<leftarrow> wr16 (da_vcount_addr bank vblock) vcount (ddram s);
     Some (set_ddram d s) }"

text \<open>\<open>do vblock++ while (is_bad_block(bank, vblock))\<close>, with its assertion.\<close>

function next_good_block :: "nat \<Rightarrow> dstate \<Rightarrow> nat \<Rightarrow> nat option" where
  "next_good_block bank s vblock =
     (if VBLKS_PER_BANK \<le> vblock + 1 then None
      else case da_is_bad_block bank (vblock + 1) s of
        None \<Rightarrow> None
      | Some bad \<Rightarrow> if bad then next_good_block bank s (vblock + 1) else Some (vblock + 1))"
  by pat_completeness auto
termination
  by (relation "measure (\<lambda>(bank, s, v). VBLKS_PER_BANK - v)") auto

declare next_good_block.simps [simp del]

definition da_assign_map_block :: "nat \<Rightarrow> nat \<Rightarrow> nat \<times> dstate \<Rightarrow> (nat \<times> dstate) option" where
  "da_assign_map_block bank mapblk_lbn x = do {
     let (vblock, s) = x;
     vblock \<leftarrow> next_good_block bank s vblock;
     s \<leftarrow> da_set_vcount_raw bank vblock DA_VC_MAX (set_mapblk_vpn bank mapblk_lbn (vblock * PAGES_PER_VBLK) s);
     Some (vblock, s) }"

definition da_assign_gc_block :: "nat \<Rightarrow> nat \<times> dstate \<Rightarrow> (nat \<times> dstate) option" where
  "da_assign_gc_block bank x = do {
     let (vblock, s) = x;
     vblock \<leftarrow> next_good_block bank s vblock;
     let s = dset_misc bank (\<lambda>m. m\<lparr>da_gc_vblock := vblock\<rparr>) s;
     s \<leftarrow> da_set_vcount bank vblock DA_VC_MAX s;
     s \<leftarrow> set_region_num bank vblock INVALID16 s;
     Some (vblock, s) }"

definition da_assign_region :: "nat \<Rightarrow> nat \<Rightarrow> nat \<times> dstate \<Rightarrow> (nat \<times> dstate) option" where
  "da_assign_region bank region_num x = do {
     let (vblock, s) = x;
     vblock \<leftarrow> next_good_block bank s vblock;
     let s = set_new_write_vpn_of_region bank region_num (vblock * PAGES_PER_VBLK) s;
     s \<leftarrow> da_set_vcount bank vblock VC_ACTIVE s;
     let s = set_vcount_of_active_block bank region_num 0 s;
     s \<leftarrow> set_region_num bank vblock region_num s;
     Some (vblock, s) }"

definition da_init_metadata_bank :: "nat \<Rightarrow> dstate \<Rightarrow> dstate option" where
  "da_init_metadata_bank bank s = do {
     let s = dset_misc bank (\<lambda>m. m\<lparr>da_free_blk_cnt := VBLKS_PER_BANK - DA_META_BLKS_PER_BANK\<rparr>) s;
     let s = dset_misc bank (\<lambda>m. m\<lparr>da_free_blk_cnt := sub32 (da_free_blk_cnt m) (d_bad_blk_count s bank)\<rparr>) s;
     s \<leftarrow> da_set_vcount_raw bank 0 DA_VC_MAX s;
     s \<leftarrow> da_set_vcount_raw bank 1 DA_VC_MAX s;
     let s = set_miscblk_vpn bank (DA_MISCBLK_VBN * PAGES_PER_VBLK) s;
     bad \<leftarrow> da_is_bad_block bank DA_MISCBLK_VBN s;
     ASSERT (\<not> bad);
     x \<leftarrow> each (da_assign_map_block bank) [0..<DA_MAPBLKS_PER_BANK] (DA_MISCBLK_VBN, s);
     x \<leftarrow> da_assign_gc_block bank x;
     x \<leftarrow> each (da_assign_region bank) [0..<NUM_REGION] x;
     Some (snd x) }"

definition da_init_metadata_sram :: "dstate \<Rightarrow> dstate option" where
  "da_init_metadata_sram s = each da_init_metadata_bank [0..<NUM_BANKS] s"

definition da_write_format_mark :: "flash_hw \<Rightarrow> nat \<Rightarrow> dstate \<Rightarrow> dstate option" where
  "da_write_format_mark hw fw_pages s = do {
     d \<leftarrow> dram_fill DA_FTL_BUF_ADDR 0 BYTES_PER_SECTOR (ddram s);
     let s = set_ddram d s;
     let s = on_dfl (\<lambda>f. set_fcp (\<lambda>c. c\<lparr>fcp_bank := REAL_BANK 0\<rparr>)
               (setup_fcp FC_COL_ROW_IN_PROG (FO_E + FO_B_W_DRDY) DA_FTL_BUF_ADDR BYTES_PER_SECTOR 0 0 (FW_PAGE_OFFSET + fw_pages) f)) s;
     let s = on_dfl (fcp_issue hw) s;
     Some (on_dfl (\<lambda>f. log (Wait_Bank (REAL_BANK 0)) (log Wait_Room f)) s) }"

definition da_check_format_mark :: "flash_hw \<Rightarrow> bsp_regs \<Rightarrow> nat \<Rightarrow> dstate \<Rightarrow> bool \<times> dstate" where
  "da_check_format_mark hw bsp fw_pages s =
     (let s = on_dfl flash_clear_irq s;
          s = on_dfl (\<lambda>f. set_fcp (\<lambda>c. c\<lparr>fcp_bank := REAL_BANK 0\<rparr>)
                (setup_fcp FC_COL_ROW_READ_OUT FO_E DA_FTL_BUF_ADDR BYTES_PER_SECTOR 0 0 (FW_PAGE_OFFSET + fw_pages) f)) s;
          s = on_dfl (fcp_issue hw) s;
          s = on_dfl (\<lambda>f. log (Wait_Bank (REAL_BANK 0)) (log Wait_Room f)) s;
          temp = bsp (dfl s) 0 AND FIRQ_ALL_FF
      in (temp = 0, da_clr_bsp_intr 0 0xFF s))"

definition da_format :: "flash_hw \<Rightarrow> (dstate \<Rightarrow> dstate) \<Rightarrow> (nat \<Rightarrow> u32) \<Rightarrow> nat \<Rightarrow> dstate \<Rightarrow> dstate option" where
  "da_format hw isr sram_rest fw_pages s = do {
     ASSERT (0 < DA_NUM_MISC_META_SECT);
     ASSERT (0 < DA_NUM_VCOUNT_SECT);
     d \<leftarrow> dram_fill DA_PAGE_MAP_ADDR 0 DA_PAGE_MAP_BYTES (ddram s);
     d \<leftarrow> dram_fill DA_VCOUNT_ADDR 0 DA_VCOUNT_BYTES d;
     d \<leftarrow> dram_fill VBLK_REGION_ADDR 0 VBLK_REGION_BYTES d;
     d \<leftarrow> dram_fill VBLK_AGE_ADDR 0 VBLK_AGE_BYTES d;
     s \<leftarrow> each (\<lambda>v. each (da_format_block hw isr v) [0..<NUM_BANKS]) [DA_MISCBLK_VBN..<VBLKS_PER_BANK] (set_ddram d s);
     s \<leftarrow> da_init_metadata_sram s;
     s \<leftarrow> da_ftl_flush hw sram_rest s;
     da_write_format_mark hw fw_pages s }"

definition da_ftl_open :: "flash_hw \<Rightarrow> (dstate \<Rightarrow> dstate) \<Rightarrow> bsp_regs \<Rightarrow> (nat \<Rightarrow> u32) \<Rightarrow> nat \<Rightarrow> dstate \<Rightarrow> dstate option" where
  "da_ftl_open hw isr bsp sram_rest fw_pages s = do {
     da_sanity_check;
     s \<leftarrow> da_build_bad_blk_list hw bsp s;
     let s = on_dfl flash_clear_irq s;
     let s = on_dfl (SETREG INTR_MASK (FIRQ_DATA_CORRUPT + FIRQ_BADBLK_L + FIRQ_BADBLK_H)) s;
     let s = on_dfl (SETREG FCONF_PAUSE (FIRQ_DATA_CORRUPT + FIRQ_BADBLK_L + FIRQ_BADBLK_H)) s;
     let (formatted, s) = da_check_format_mark hw bsp fw_pages s;
     s \<leftarrow> (if \<not> formatted then da_format hw isr sram_rest fw_pages s else da_load_metadata hw bsp s);
     Some (on_dfl (\<lambda>f. f\<lparr>g_ftl_read_buf_id := 0, g_ftl_write_buf_id := 0\<rparr>) s) }"

end
