(* ===== verification/Dac_Log.thy ===== *)
theory Dac_Log
  imports Dac_Ftl
begin

text \<open>
  Flushing and loading the tables of the DAC layer (\<open>flush_dram_metadata_into_mapblk\<close>, \<open>load_dram_metadata_from_mapblk\<close> of
  \<open>ftl_dac/ftl.c\<close>): the nested loops over the banks as one over the pages of a table, the commands a flush sends, what it leaves in
  the flash and what a load makes of that.
\<close>

subsection \<open>Views of the state\<close>

definition dpage :: "dstate \<Rightarrow> nat \<Rightarrow> nat \<Rightarrow> nat \<Rightarrow> u32" where
  "dpage s b r = pages (nand (dfl s)) (REAL_BANK b) r"

definition dblank :: "dstate \<Rightarrow> nat \<Rightarrow> nat \<Rightarrow> bool" where
  "dblank s b r \<longleftrightarrow> blank (nand (dfl s)) (REAL_BANK b) r"

lemma dstate_fields [simp]:
  "ddram (set_ddram d s) = d" "dfl (set_ddram d s) = (dfl s)\<lparr>dram := d\<rparr>" "d_misc_meta (set_ddram d s) = d_misc_meta s"
  "ddram (dset_misc b f s) = ddram s" "dfl (dset_misc b f s) = dfl s" "d_misc_meta (dset_misc b f s) = (d_misc_meta s)(b := f (d_misc_meta s b))"
  "d_misc_meta (on_dfl g s) = d_misc_meta s" "dfl (on_dfl g s) = g (dfl s)" "ddram (on_dfl g s) = dram (g (dfl s))"
  "ddram (s\<lparr>dfl := x\<rparr>) = dram x" "dpage (set_ddram d s) = dpage s" "dpage (dset_misc b f s) = dpage s"
  by (simp_all add: ddram_def set_ddram_def dset_misc_def on_dfl_def dpage_def fun_eq_iff)

lemma mapblk_simps [simp]:
  "dfl (set_mapblk_vpn b l v s) = dfl s" "ddram (set_mapblk_vpn b l v s) = ddram s" "dpage (set_mapblk_vpn b l v s) = dpage s"
  "get_mapblk_vpn c k (set_mapblk_vpn b l v s) = (if c = b \<and> k = l then v else get_mapblk_vpn c k s)"
  by (simp_all add: set_mapblk_vpn_def get_mapblk_vpn_def)

lemma mapblk_other [simp]:
  "get_mapblk_vpn c k (set_ddram d s) = get_mapblk_vpn c k s" "get_mapblk_vpn c k (on_dfl g s) = get_mapblk_vpn c k s"
  "get_mapblk_vpn c k (s\<lparr>dfl := x\<rparr>) = get_mapblk_vpn c k s"
  by (simp_all add: get_mapblk_vpn_def)

lemma dblank_cong: "dpage t b r = dpage s b r \<Longrightarrow> dblank t b r = dblank s b r"
  by (simp add: dblank_def dpage_def blank_def)

lemma dpage_finish [simp]: "dpage (on_dfl flash_finish s) = dpage s"
  by (simp add: dpage_def fun_eq_iff)

text \<open>Where the buffers and the tables lie.\<close>

lemma da_ftl_buf:
  assumes "b < NUM_BANKS"
  shows "buf_ok (DA_FTL_BUF b)" "DA_FTL_BUF b mod 4 = 0" "DA_FTL_BUF b + BYTES_PER_PAGE \<le> DA_BAD_BLK_BMP_ADDR" "DA_FTL_BUF_ADDR \<le> DA_FTL_BUF b"
proof -
  have "b \<le> 7" using assms by (simp add: geom)
  then show "buf_ok (DA_FTL_BUF b)" "DA_FTL_BUF b + BYTES_PER_PAGE \<le> DA_BAD_BLK_BMP_ADDR" "DA_FTL_BUF_ADDR \<le> DA_FTL_BUF b"
    by (simp_all add: buf_ok_def DA_FTL_BUF_def geom)
  show "DA_FTL_BUF b mod 4 = 0" by (simp add: DA_FTL_BUF_def geom mod_eq_0_iff_dvd)
qed

subsection \<open>The commands of a trace\<close>

text \<open>Code, real bank and row of every command.\<close>

fun cmds :: "flash_event list \<Rightarrow> (nat \<times> nat \<times> nat) list" where
  "cmds [] = []"
| "cmds (Issue f # es) = (fcp_cmd f, fcp_bank f, fcp_row_l f (fcp_bank f)) # cmds es"
| "cmds (_ # es) = cmds es"

lemma cmds_append [simp]: "cmds (xs @ ys) = cmds xs @ cmds ys"
  by (induction xs rule: cmds.induct) simp_all

definition dcmds :: "dstate \<Rightarrow> (nat \<times> nat \<times> nat) list" where
  "dcmds s = cmds (trace (dfl s))"

lemma dcmds_simps [simp]:
  "dcmds (set_ddram d s) = dcmds s" "dcmds (dset_misc b f s) = dcmds s" "dcmds (set_mapblk_vpn b l v s) = dcmds s"
  "dcmds (on_dfl flash_finish s) = dcmds s"
  by (simp_all add: dcmds_def)

subsection \<open>Programming and reading a page\<close>

definition prog_page :: "flash_hw \<Rightarrow> nat \<Rightarrow> nat \<Rightarrow> nat \<Rightarrow> nat \<Rightarrow> fstate \<Rightarrow> fstate" where
  "prog_page hw b r n a f = flash_issue_cmd hw b RETURN_ON_ISSUE (setup_fcp FC_COL_ROW_IN_PROG (FO_P + FO_E + FO_B_W_DRDY) a (n * 512) 0 b r f)"

definition load_page :: "flash_hw \<Rightarrow> sync \<Rightarrow> nat \<Rightarrow> nat \<Rightarrow> nat \<Rightarrow> nat \<Rightarrow> fstate \<Rightarrow> fstate" where
  "load_page hw sync b r n a f = flash_issue_cmd hw b sync (setup_fcp FC_COL_ROW_READ_OUT (FO_P + FO_E) a (n * 512) 0 b r f)"

lemma d_ptprogram:
  assumes "b < NUM_BANKS" and "r < VBLKS_PER_BANK * PAGES_PER_VBLK"
  shows "dflash_do (nand_page_ptprogram hw b (r div PAGES_PER_VBLK) (r mod PAGES_PER_VBLK) 0 n a) s = Some (on_dfl (prog_page hw b r n a) s)"
proof -
  have "r div PAGES_PER_VBLK < VBLKS_PER_BANK" using assms(2) by (simp add: less_mult_imp_div_less)
  moreover have "r mod PAGES_PER_VBLK < PAGES_PER_VBLK" by (simp add: geom)
  moreover have "BYTES_PER_SECTOR = 512" by (simp add: geom)
  ultimately show ?thesis using assms(1)
    by (simp add: dflash_do_def on_dfl_def nand_page_ptprogram_def page_args_ok_def prog_page_def setup_fcp_def set_rows_def set_fcp_def Let_def)
qed

lemma d_ptread:
  assumes "b < NUM_BANKS" and "r < VBLKS_PER_BANK * PAGES_PER_VBLK"
  shows "dflash_do (nand_page_ptread hw b (r div PAGES_PER_VBLK) (r mod PAGES_PER_VBLK) 0 n a sync) s = Some (on_dfl (load_page hw sync b r n a) s)"
proof -
  have "r div PAGES_PER_VBLK < VBLKS_PER_BANK" using assms(2) by (simp add: less_mult_imp_div_less)
  moreover have "r mod PAGES_PER_VBLK < PAGES_PER_VBLK" by (simp add: geom)
  moreover have "BYTES_PER_SECTOR = 512" by (simp add: geom)
  ultimately show ?thesis using assms(1)
    by (simp add: dflash_do_def on_dfl_def nand_page_ptread_def page_args_ok_def load_page_def setup_fcp_def set_rows_def set_fcp_def Let_def)
qed

lemma setup_row [simp]: "fcp_row_l (fcp (setup_fcp c p a n k b r s)) (REAL_BANK b) = r"
  by (simp add: setup_fcp_def set_fcp_def)

lemma prog_page_cmds [simp]: "cmds (trace (prog_page hw b r n a f)) = cmds (trace f) @ [(FC_COL_ROW_IN_PROG, REAL_BANK b, r)]"
  by (simp add: prog_page_def flash_issue_cmd_fields sync_events_def)

lemma prog_page_effect:
  assumes "flash_ok lay hw" and "blank (nand f) (REAL_BANK b) r" and "n * 512 \<le> BYTES_PER_PAGE" and "buf_ok a"
  shows "dram (prog_page hw b r n a f) = dram f"
    "only_page (REAL_BANK b) r (nand f) (nand (prog_page hw b r n a f))"
    "\<And>x. x < n * 512 \<Longrightarrow> pages (nand (prog_page hw b r n a f)) (REAL_BANK b) r x = dram f (a + x)"
proof -
  define y where "y = setup_fcp FC_COL_ROW_IN_PROG (FO_P + FO_E + FO_B_W_DRDY) a (n * 512) 0 b r f"
  have y: "dram y = dram f" "nand y = nand f" by (simp_all add: y_def)
  have c: "fcp_cmd (fcp y) \<in> {FC_COL_ROW_IN_PROG, FC_IN_PROG}" "fcp_option (fcp y) = FO_P + FO_E + FO_B_W_DRDY" by (simp_all add: y_def)
  have sel: "fcp_sel b r a 0 (n * 512) (fcp y)" unfolding y_def by (rule setup_sel [OF opt_mod(2)]) (use assms(3) in simp)
  have bl: "blank (nand y) (REAL_BANK b) r" using assms(2) by (simp add: y)
  note R = issue_prog [OF assms(1) c(1) sel assms(4) bl c(2), where sync = RETURN_ON_ISSUE, unfolded y y_def, folded prog_page_def]
  show "dram (prog_page hw b r n a f) = dram f" "only_page (REAL_BANK b) r (nand f) (nand (prog_page hw b r n a f))"
    using R(1,2) by simp_all
  show "pages (nand (prog_page hw b r n a f)) (REAL_BANK b) r x = dram f (a + x)" if "x < n * 512" for x
    using R(3) [of x] that by simp
qed

lemma load_page_effect:
  assumes "flash_ok lay hw" and "n * 512 \<le> BYTES_PER_PAGE" and "buf_ok a"
  shows "pages (nand (load_page hw sync b r n a f)) = pages (nand f)"
    "\<And>x. x < n * 512 \<Longrightarrow> dram (load_page hw sync b r n a f) (a + x) = pages (nand f) (REAL_BANK b) r x"
    "\<And>y. y < 4294967296 \<Longrightarrow> y < a \<or> a + n * 512 \<le> y \<Longrightarrow> dram (load_page hw sync b r n a f) y = dram f y"
proof -
  have z: "0 * 512 + n * 512 \<le> BYTES_PER_PAGE" using assms(2) by simp
  note R = read_cmd [OF assms(1) disjI1 [OF refl] opt_mod(1) z assms(3), where b = b and r = r and sync = sync and s = f, folded load_page_def]
  show "pages (nand (load_page hw sync b r n a f)) = pages (nand f)" by (rule R(1))
  show "dram (load_page hw sync b r n a f) (a + x) = pages (nand f) (REAL_BANK b) r x" if "x < n * 512" for x
    using R(2) [of x] that by simp
  show "dram (load_page hw sync b r n a f) y = dram f y" if "y < 4294967296" "y < a \<or> a + n * 512 \<le> y" for y
    using R(3) [of y] that by simp
qed

subsection \<open>The pages of a table\<close>

text \<open>
  A table of \<open>bytes\<close> bytes takes \<open>tab_pages\<close> pages of at most \<open>BYTES_PER_PAGE\<close> bytes; page \<open>k\<close> goes to bank \<open>k mod 8\<close>, and
  \<open>turns k b\<close> of the first \<open>k\<close> pages go to bank \<open>b\<close>.
\<close>

definition tab_pages :: "nat \<Rightarrow> nat" where
  "tab_pages bytes = (bytes + BYTES_PER_PAGE - 1) div BYTES_PER_PAGE"

definition tab_len :: "nat \<Rightarrow> nat \<Rightarrow> nat" where
  "tab_len bytes k = min BYTES_PER_PAGE (bytes - k * BYTES_PER_PAGE)"

definition turns :: "nat \<Rightarrow> nat \<Rightarrow> nat" where
  "turns k b = (k + (NUM_BANKS - 1) - b) div NUM_BANKS"

lemma tab_pages_iff: "k < tab_pages bytes \<longleftrightarrow> k * BYTES_PER_PAGE < bytes"
proof -
  have "tab_pages bytes \<le> k \<longleftrightarrow> bytes \<le> k * BYTES_PER_PAGE"
    unfolding tab_pages_def by (rule ceil_div_le) (simp add: geom)
  then show ?thesis by linarith
qed

lemma turns_total: "b < NUM_BANKS \<Longrightarrow> turns n b = n div NUM_BANKS + (if b < n mod NUM_BANKS then 1 else 0)"
proof -
  assume "b < NUM_BANKS"
  then have b: "b < 8" and N: "NUM_BANKS = 8" by (simp_all add: geom)
  have "n + 7 - b = (n mod 8 + 7 - b) + n div 8 * 8" using b mod_mult_div_eq [of n 8] by linarith
  then have "(n + 7 - b) div 8 = (n mod 8 + 7 - b) div 8 + n div 8" by (metis div_mult_self1 add.commute zero_neq_numeral)
  moreover have "(n mod 8 + 7 - b) div 8 = (if b < n mod 8 then 1 else 0)"
    using b by (auto intro: div_nat_eqI)
  ultimately show ?thesis unfolding turns_def N by simp
qed

lemma turns_now: "turns k (k mod NUM_BANKS) = k div NUM_BANKS"
  by (subst turns_total) (simp_all add: geom)

lemma turns_Suc: "b < NUM_BANKS \<Longrightarrow> turns (Suc k) b = (if k mod NUM_BANKS = b then Suc (turns k b) else turns k b)"
  by (auto simp: turns_total mod_Suc div_Suc)

lemma turns_0 [simp]: "b < NUM_BANKS \<Longrightarrow> turns 0 b = 0"
  by (simp add: turns_def geom)

lemma turns_mono: "j \<le> k \<Longrightarrow> turns j b \<le> turns k b"
  by (simp add: turns_def div_le_mono)

text \<open>The number of bytes that the loops carry along is that of page \<open>k\<close>.\<close>

definition len_ok :: "nat \<Rightarrow> nat \<Rightarrow> nat \<Rightarrow> bool" where
  "len_ok bytes k nb \<longleftrightarrow> (k < tab_pages bytes \<longrightarrow> (if bytes < k * BYTES_PER_PAGE + BYTES_PER_PAGE then bytes - k * BYTES_PER_PAGE else nb) = tab_len bytes k)"

definition tab_addr :: "nat \<Rightarrow> nat \<Rightarrow> nat \<Rightarrow> nat" where
  "tab_addr base bytes k = base + min (k * BYTES_PER_PAGE) bytes"

lemma len_ok_start: "len_ok bytes 0 (if BYTES_PER_PAGE < bytes then BYTES_PER_PAGE else bytes)"
  by (auto simp: len_ok_def tab_len_def)

lemma len_ok_step: "k < tab_pages bytes \<Longrightarrow> len_ok bytes (Suc k) (tab_len bytes k)"
  by (auto simp: len_ok_def tab_len_def tab_pages_iff)

lemma len_ok_after: "tab_pages bytes \<le> k \<Longrightarrow> len_ok bytes k nb"
  by (simp add: len_ok_def)

lemma tab_addr_step: "k < tab_pages bytes \<Longrightarrow> tab_addr base bytes k + tab_len bytes k = tab_addr base bytes (Suc k)"
  by (auto simp: tab_addr_def tab_len_def tab_pages_iff)

lemma tab_addr_less: "tab_addr base bytes k < base + bytes \<longleftrightarrow> k < tab_pages bytes"
  by (auto simp: tab_addr_def tab_pages_iff)

lemma tab_addr_in: "k < tab_pages bytes \<Longrightarrow> tab_addr base bytes k = base + k * BYTES_PER_PAGE"
  by (simp add: tab_addr_def tab_pages_iff)

lemma tab_addr_0 [simp]: "tab_addr base bytes 0 = base"
  by (simp add: tab_addr_def)

lemma len_of_page:
  assumes "len_ok bytes k nb" and "k < tab_pages bytes"
  shows "(if base + bytes < tab_addr base bytes k + BYTES_PER_PAGE then base + bytes - tab_addr base bytes k else nb) = tab_len bytes k"
proof -
  have e: "base + bytes < tab_addr base bytes k + BYTES_PER_PAGE \<longleftrightarrow> bytes < k * BYTES_PER_PAGE + BYTES_PER_PAGE"
    "base + bytes - tab_addr base bytes k = bytes - k * BYTES_PER_PAGE" using assms(2) by (simp_all add: tab_addr_in)
  show ?thesis unfolding e using assms by (simp add: len_ok_def)
qed

subsection \<open>The nested loops as one\<close>

definition flush_step :: "flash_hw \<Rightarrow> nat \<Rightarrow> nat \<Rightarrow> nat \<Rightarrow> nat \<Rightarrow> dstate \<Rightarrow> dstate option" where
  "flush_step hw l base bytes k = flush_page hw l (k mod NUM_BANKS) (tab_addr base bytes k) (tab_len bytes k)"

definition round_end :: "nat \<Rightarrow> nat \<Rightarrow> nat" where
  "round_end bytes j = min (tab_pages bytes) (j * NUM_BANKS + NUM_BANKS)"

lemma flush_banks_each:
  assumes "b \<le> NUM_BANKS" and "k = j * NUM_BANKS + b" and "len_ok bytes k nb"
  shows "\<exists>nb'. len_ok bytes (j * NUM_BANKS + NUM_BANKS) nb' \<and> flush_banks hw l (base + bytes) [b..<NUM_BANKS] (tab_addr base bytes k) nb s
    = map_option (\<lambda>t. (tab_addr base bytes (j * NUM_BANKS + NUM_BANKS), nb', t)) (each (flush_step hw l base bytes) [k..<round_end bytes j] s)"
  using assms
proof (induction "NUM_BANKS - b" arbitrary: b k nb s)
  case 0
  then have "b = NUM_BANKS" "k = j * NUM_BANKS + NUM_BANKS" by simp_all
  moreover from this have "[b..<NUM_BANKS] = []" "[k..<round_end bytes j] = []" by (simp_all add: round_end_def)
  ultimately show ?case using 0(4) by auto
next
  case (Suc m)
  then have b: "b < NUM_BANKS" and m: "m = NUM_BANKS - Suc b" by simp_all
  have u: "[b..<NUM_BANKS] = b # [Suc b..<NUM_BANKS]" using b by (simp add: upt_conv_Cons)
  have kb: "k mod NUM_BANKS = b" "Suc k = j * NUM_BANKS + Suc b" using b Suc.prems(2) by simp_all
  show ?case
  proof (cases "k < tab_pages bytes")
    case False
    then have r: "[k..<round_end bytes j] = []" by (simp add: round_end_def)
    have le: "base + bytes \<le> tab_addr base bytes k" using False tab_addr_less [of base bytes k] by linarith
    have ge: "tab_pages bytes \<le> j * NUM_BANKS + NUM_BANKS" using False Suc.prems(2) b by linarith
    have a: "tab_addr base bytes k = tab_addr base bytes (j * NUM_BANKS + NUM_BANKS)"
      using False ge tab_pages_iff [of k bytes] tab_pages_iff [of "j * NUM_BANKS + NUM_BANKS" bytes] by (simp add: tab_addr_def)
    show ?thesis unfolding u using r le a len_ok_after [OF ge] by auto
  next
    case True
    then have nle: "\<not> base + bytes \<le> tab_addr base bytes k" using tab_addr_less [of base bytes k] by linarith
    have r: "[k..<round_end bytes j] = k # [Suc k..<round_end bytes j]" using True b Suc.prems(2) by (simp add: round_end_def upt_conv_Cons)
    note n = len_of_page [OF Suc.prems(3) True, of base]
    have st: "flush_page hw l b (tab_addr base bytes k) (tab_len bytes k) s = flush_step hw l base bytes k s" by (simp add: flush_step_def kb)
    have IH: "\<exists>nb'. len_ok bytes (j * NUM_BANKS + NUM_BANKS) nb' \<and> flush_banks hw l (base + bytes) [Suc b..<NUM_BANKS] (tab_addr base bytes (Suc k)) (tab_len bytes k) t
      = map_option (\<lambda>t. (tab_addr base bytes (j * NUM_BANKS + NUM_BANKS), nb', t)) (each (flush_step hw l base bytes) [Suc k..<round_end bytes j] t)" for t
      using Suc.hyps(1) [OF m _ kb(2) len_ok_step [OF True]] b by simp
    show ?thesis
    proof (cases "flush_step hw l base bytes k s")
      case None
      then show ?thesis unfolding u r using Suc.prems(3) IH by (auto simp: nle n st Let_def)
    next
      case (Some t)
      then show ?thesis unfolding u r using IH [of t] by (simp add: nle n st Let_def tab_addr_step [OF True])
    qed
  qed
qed

definition tab_rounds :: "nat \<Rightarrow> nat" where
  "tab_rounds bytes = (tab_pages bytes + (NUM_BANKS - 1)) div NUM_BANKS"

definition flush_round :: "flash_hw \<Rightarrow> nat \<Rightarrow> nat \<Rightarrow> nat \<Rightarrow> nat \<Rightarrow> dstate \<Rightarrow> dstate option" where
  "flush_round hw l base bytes j s = each (flush_step hw l base bytes) [j * NUM_BANKS..<round_end bytes j] (on_dfl flash_finish s)"

lemma tab_rounds_iff: "j < tab_rounds bytes \<longleftrightarrow> j * NUM_BANKS < tab_pages bytes"
proof -
  have "tab_rounds bytes \<le> j \<longleftrightarrow> tab_pages bytes \<le> j * NUM_BANKS"
    using ceil_div_le [of NUM_BANKS "tab_pages bytes" j] by (simp add: tab_rounds_def geom add.commute)
  then show ?thesis by linarith
qed

lemma flush_loop_each:
  assumes "len_ok bytes (j * NUM_BANKS) nb"
  shows "flush_loop hw l (base + bytes) (tab_addr base bytes (j * NUM_BANKS)) nb s = each (flush_round hw l base bytes) [j..<tab_rounds bytes] s"
  using assms
proof (induction "tab_rounds bytes - j" arbitrary: j nb s)
  case 0
  then have "\<not> tab_addr base bytes (j * NUM_BANKS) < base + bytes" using tab_rounds_iff [of j bytes] by (simp add: tab_addr_less)
  then show ?case using 0 by (subst flush_loop.simps) simp
next
  case (Suc m)
  then have j: "j < tab_rounds bytes" "m = tab_rounds bytes - Suc j" by simp_all
  then have lt: "tab_addr base bytes (j * NUM_BANKS) < base + bytes" using tab_rounds_iff [of j bytes] by (simp add: tab_addr_less)
  have u: "[j..<tab_rounds bytes] = j # [Suc j..<tab_rounds bytes]" using j(1) by (simp add: upt_conv_Cons)
  have k: "j * NUM_BANKS + NUM_BANKS = Suc j * NUM_BANKS" by simp
  from flush_banks_each [of 0 "j * NUM_BANKS" j bytes nb hw l base "on_dfl flash_finish s"] Suc.prems
  obtain nb' where nb: "len_ok bytes (Suc j * NUM_BANKS) nb'" and fb: "flush_banks hw l (base + bytes) [0..<NUM_BANKS] (tab_addr base bytes (j * NUM_BANKS)) nb (on_dfl flash_finish s)
    = map_option (\<lambda>t. (tab_addr base bytes (Suc j * NUM_BANKS), nb', t)) (flush_round hw l base bytes j s)"
    unfolding k flush_round_def by auto
  show ?case unfolding u using Suc.hyps(1) [OF j(2) nb]
    by (subst flush_loop.simps) (simp add: lt fb split: Option.bind_split)
qed

text \<open>There is always room: one page is less than eight.\<close>

lemma flush_room_nothing: "nb \<le> BYTES_PER_PAGE \<Longrightarrow> flush_room hw l nb b s = Some s"
proof -
  assume "nb \<le> BYTES_PER_PAGE"
  then have "nb div BYTES_PER_SECTOR div SECTORS_PER_PAGE div NUM_BANKS = 0"
    by (simp add: geom div_mult2_eq [symmetric])
  moreover have "\<not> PAGES_PER_VBLK - get_mapblk_vpn b l s mod PAGES_PER_VBLK \<le> 0" by (simp add: geom)
  ultimately show ?thesis by (simp only: flush_room_def if_False)
qed

lemma flush_eq:
  "flush_dram_metadata_into_mapblk hw l base bytes s = map_option (on_dfl flash_finish) (each (flush_round hw l base bytes) [0..<tab_rounds bytes] s)"
proof -
  define nb where "nb = (if BYTES_PER_PAGE < bytes then BYTES_PER_PAGE else bytes)"
  have "nb \<le> BYTES_PER_PAGE" by (simp add: nb_def)
  then have "each (flush_room hw l nb) bs s = Some s" for bs
    by (induction bs) (simp_all add: flush_room_nothing)
  moreover have "flush_loop hw l (base + bytes) base nb s = each (flush_round hw l base bytes) [0..<tab_rounds bytes] s"
    using flush_loop_each [of bytes 0 nb hw l base s] len_ok_start [of bytes] by (simp add: nb_def)
  ultimately show ?thesis unfolding flush_dram_metadata_into_mapblk_def Let_def nb_def [symmetric]
    by (simp add: map_option_case split: Option.bind_split option.split)
qed

lemma each_rounds:
  assumes "\<And>k x. k < tab_pages bytes \<Longrightarrow> I k x \<Longrightarrow> \<exists>x'. f k x = Some x' \<and> I (Suc k) x'"
    and "\<And>k x. I k x \<Longrightarrow> I k (g x)" and "I 0 x"
  shows "\<exists>x'. each (\<lambda>j x. each f [j * NUM_BANKS..<round_end bytes j] (g x)) [0..<tab_rounds bytes] x = Some x' \<and> I (tab_pages bytes) x'"
proof -
  have "\<exists>x'. each (\<lambda>j x. each f [j * NUM_BANKS..<round_end bytes j] (g x)) [0..<tab_rounds bytes] x = Some x'
    \<and> I (min (tab_pages bytes) (tab_rounds bytes * NUM_BANKS)) x'"
  proof (rule each_upt)
    fix j y assume j: "j < tab_rounds bytes" and "I (min (tab_pages bytes) (j * NUM_BANKS)) y"
    then have lt: "j * NUM_BANKS < tab_pages bytes" and "I (j * NUM_BANKS) (g y)" using assms(2) by (simp_all add: tab_rounds_iff)
    moreover have "j * NUM_BANKS \<le> round_end bytes j" using lt by (simp add: round_end_def)
    moreover have "\<exists>x'. f k x = Some x' \<and> I (Suc k) x'" if "k < round_end bytes j" "I k x" for k x
      using that assms(1) by (simp add: round_end_def)
    ultimately have "\<exists>x'. each f [j * NUM_BANKS..<round_end bytes j] (g y) = Some x' \<and> I (round_end bytes j) x'"
      by (intro each_upt) auto
    then show "\<exists>x'. each f [j * NUM_BANKS..<round_end bytes j] (g y) = Some x' \<and> I (min (tab_pages bytes) (Suc j * NUM_BANKS)) x'"
      by (simp add: round_end_def add.commute)
  qed (use assms(3) in simp_all)
  moreover have "tab_pages bytes \<le> tab_rounds bytes * NUM_BANKS" using tab_rounds_iff [of "tab_rounds bytes" bytes] by simp
  ultimately show ?thesis by (simp add: min_absorb1)
qed

subsection \<open>A flush\<close>

definition table_ok :: "nat \<Rightarrow> nat \<Rightarrow> bool" where
  "table_ok base bytes \<longleftrightarrow> base mod 4 = 0 \<and> bytes mod 512 = 0 \<and> DA_PAGE_MAP_ADDR \<le> base \<and> base + bytes \<le> 4294967296"

lemma tab_len_ok:
  assumes "table_ok base bytes" and "k < tab_pages bytes"
  shows "tab_len bytes k mod 512 = 0" "tab_len bytes k \<le> BYTES_PER_PAGE" "tab_addr base bytes k mod 4 = 0"
    "tab_addr base bytes k + tab_len bytes k \<le> base + bytes" "DA_PAGE_MAP_ADDR \<le> tab_addr base bytes k"
proof -
  have P: "BYTES_PER_PAGE = 32768" by (simp add: geom)
  have t: "512 dvd bytes" "4 dvd base" using assms(1) by (auto simp: table_ok_def)
  have "512 dvd k * BYTES_PER_PAGE" "4 dvd k * BYTES_PER_PAGE" by (simp_all add: P dvd_mult)
  then have "512 dvd bytes - k * BYTES_PER_PAGE" "4 dvd base + k * BYTES_PER_PAGE" using t by (simp_all add: dvd_diff_nat)
  then show "tab_len bytes k mod 512 = 0" "tab_addr base bytes k mod 4 = 0"
    by (auto simp: tab_len_def min_def P tab_addr_in [OF assms(2)])
  show "tab_len bytes k \<le> BYTES_PER_PAGE" by (simp add: tab_len_def)
  show "tab_addr base bytes k + tab_len bytes k \<le> base + bytes" by (simp only: tab_addr_step [OF assms(2)]) (simp add: tab_addr_def)
  show "DA_PAGE_MAP_ADDR \<le> tab_addr base bytes k" using assms(1) by (simp add: tab_addr_def table_ok_def)
qed

text \<open>The row of page \<open>k\<close> of a flush that starts with the vpns \<open>v\<close>.\<close>

definition flush_row :: "(nat \<Rightarrow> nat) \<Rightarrow> nat \<Rightarrow> nat" where
  "flush_row v k = v (k mod NUM_BANKS) + k div NUM_BANKS + 1"

definition flush_fits :: "(nat \<Rightarrow> nat) \<Rightarrow> nat \<Rightarrow> bool" where
  "flush_fits v bytes \<longleftrightarrow> (\<forall>b < NUM_BANKS. v b + turns (tab_pages bytes) b < VBLKS_PER_BANK * PAGES_PER_VBLK)"

definition advance :: "nat \<Rightarrow> (nat \<Rightarrow> nat) \<Rightarrow> dac_metadata \<Rightarrow> nat \<Rightarrow> dac_metadata" where
  "advance l n m b = m\<lparr>da_cur_mapblk_vpn := (da_cur_mapblk_vpn m)(l := da_cur_mapblk_vpn m l + n b)\<rparr>"

definition flush_run :: "nat \<Rightarrow> dstate \<Rightarrow> nat \<Rightarrow> dstate \<Rightarrow> bool" where
  "flush_run l s0 k s \<longleftrightarrow> (\<forall>b < NUM_BANKS. d_misc_meta s b = advance l (turns k) (d_misc_meta s0 b) b)
     \<and> dcmds s = dcmds s0 @ map (\<lambda>i. (FC_COL_ROW_IN_PROG, REAL_BANK (i mod NUM_BANKS), flush_row (\<lambda>b. get_mapblk_vpn b l s0) i)) [0..<k]"

lemma flush_run_vpn: "flush_run l s0 k s \<Longrightarrow> b < NUM_BANKS \<Longrightarrow> get_mapblk_vpn b l s = get_mapblk_vpn b l s0 + turns k b"
  by (simp add: flush_run_def get_mapblk_vpn_def advance_def)

lemma flush_row_now:
  assumes "flush_fits v bytes" and "k < tab_pages bytes"
  shows "flush_row v k = v (k mod NUM_BANKS) + turns k (k mod NUM_BANKS) + 1" "flush_row v k < VBLKS_PER_BANK * PAGES_PER_VBLK"
    "flush_row v k < 4294967296"
proof -
  have b: "k mod NUM_BANKS < NUM_BANKS" by (simp add: geom)
  show e: "flush_row v k = v (k mod NUM_BANKS) + turns k (k mod NUM_BANKS) + 1" by (simp add: flush_row_def turns_now)
  have "turns (Suc k) (k mod NUM_BANKS) \<le> turns (tab_pages bytes) (k mod NUM_BANKS)" using assms(2) by (intro turns_mono) simp
  then have "Suc (turns k (k mod NUM_BANKS)) \<le> turns (tab_pages bytes) (k mod NUM_BANKS)" by (simp add: turns_Suc [OF b])
  moreover have "v (k mod NUM_BANKS) + turns (tab_pages bytes) (k mod NUM_BANKS) < VBLKS_PER_BANK * PAGES_PER_VBLK" using assms(1) b by (simp add: flush_fits_def)
  ultimately show lt: "flush_row v k < VBLKS_PER_BANK * PAGES_PER_VBLK" unfolding e by linarith
  have "VBLKS_PER_BANK * PAGES_PER_VBLK < 4294967296" by (simp add: geom)
  with lt show "flush_row v k < 4294967296" by linarith
qed

lemma flush_step_eq:
  assumes t: "table_ok base bytes" and f: "flush_fits (\<lambda>b. get_mapblk_vpn b l s0) bytes" and k: "k < tab_pages bytes" and r: "flush_run l s0 k s"
  defines "b \<equiv> k mod NUM_BANKS" and "row \<equiv> flush_row (\<lambda>b. get_mapblk_vpn b l s0) k"
  defines "d \<equiv> (\<lambda>a. if DA_FTL_BUF b \<le> a \<and> a < DA_FTL_BUF b + tab_len bytes k then ddram s (tab_addr base bytes k + (a - DA_FTL_BUF b)) else ddram s a)"
  shows "flush_step hw l base bytes k s = Some (on_dfl (prog_page hw b row (tab_len bytes k div 512) (DA_FTL_BUF b)) (set_ddram d (set_mapblk_vpn b l row s)))"
proof -
  have b: "b < NUM_BANKS" by (simp add: b_def geom)
  note L = tab_len_ok [OF t k]
  note R = flush_row_now [OF f k, folded row_def b_def]
  have v: "wrap32 (get_mapblk_vpn b l s + 1) = row" using flush_run_vpn [OF r b] R(1,3) by (simp add: wrap_simps)
  have "tab_len bytes k mod 128 = 0" using L(1) by (auto simp: mod_eq_0_iff_dvd)
  moreover have "tab_len bytes k mod 4 = 0" using L(1) by (auto simp: mod_eq_0_iff_dvd)
  moreover have "tab_len bytes k \<le> MU_MAX_BYTES" using L(2) by (simp add: geom MU_MAX_BYTES_def)
  ultimately have m: "dram_move (DA_FTL_BUF b) (tab_addr base bytes k) (tab_len bytes k) (ddram s) = Some d"
    using L(3) da_ftl_buf(2) [OF b] by (simp add: dram_move_def d_def geom)
  have n: "(511 + tab_len bytes k) div 512 = tab_len bytes k div 512"
    using L(1) by (auto simp: mod_eq_0_iff_dvd elim!: dvdE)
  have S: "BYTES_PER_SECTOR = 512" by (simp add: geom)
  show ?thesis
    unfolding flush_step_def flush_page_def inc_mapblk_vpn_def Let_def b_def [symmetric] v
    by (simp add: m S n d_ptprogram [OF b R(2)])
qed

lemma flush_run_step:
  assumes t: "table_ok base bytes" and f: "flush_fits (\<lambda>b. get_mapblk_vpn b l s0) bytes" and k: "k < tab_pages bytes" and r: "flush_run l s0 k s"
  shows "\<exists>s'. flush_step hw l base bytes k s = Some s' \<and> flush_run l s0 (Suc k) s'"
proof -
  define b where "b = k mod NUM_BANKS"
  have b: "b < NUM_BANKS" by (simp add: b_def geom)
  note R = flush_row_now [OF f k, folded b_def]
  note e = flush_step_eq [OF t f k r, folded b_def, where hw = hw]
  have m: "d_misc_meta s c = advance l (turns k) (d_misc_meta s0 c) c" if "c < NUM_BANKS" for c using r that by (simp add: flush_run_def)
  have "d_misc_meta (set_mapblk_vpn b l (flush_row (\<lambda>b. get_mapblk_vpn b l s0) k) s) c = advance l (turns (Suc k)) (d_misc_meta s0 c) c" if c: "c < NUM_BANKS" for c
    using m [OF c] R(1) turns_Suc [OF c, of k] unfolding b_def [symmetric] by (auto simp: set_mapblk_vpn_def advance_def get_mapblk_vpn_def)
  moreover have "dcmds s = dcmds s0 @ map (\<lambda>i. (FC_COL_ROW_IN_PROG, REAL_BANK (i mod NUM_BANKS), flush_row (\<lambda>b. get_mapblk_vpn b l s0) i)) [0..<k]"
    using r by (simp add: flush_run_def)
  ultimately show ?thesis by (intro exI conjI) (rule e, simp add: flush_run_def dcmds_def b_def [symmetric])
qed

lemma flush_run_finish: "flush_run l s0 k s \<Longrightarrow> flush_run l s0 k (on_dfl flash_finish s)"
  by (simp add: flush_run_def)

lemma flush_run_start: "flush_run l s 0 s"
  by (simp add: flush_run_def advance_def)

lemma flush_result:
  assumes "table_ok base bytes" and "flush_fits (\<lambda>b. get_mapblk_vpn b l s) bytes"
  shows "\<exists>s'. flush_dram_metadata_into_mapblk hw l base bytes s = Some s' \<and> flush_run l s (tab_pages bytes) s'"
proof -
  have "\<exists>x'. each (\<lambda>j x. each (flush_step hw l base bytes) [j * NUM_BANKS..<round_end bytes j] (on_dfl flash_finish x)) [0..<tab_rounds bytes] s = Some x'
     \<and> flush_run l s (tab_pages bytes) x'"
    by (rule each_rounds) (use flush_run_step [OF assms] flush_run_finish flush_run_start in auto)
  then show ?thesis unfolding flush_eq flush_round_def using flush_run_finish by auto
qed

text \<open>What a flush leaves in the flash, when the pages it takes are blank.\<close>

lemma flush_row_inj: "(i mod NUM_BANKS, flush_row v i) = (k mod NUM_BANKS, flush_row v k) \<Longrightarrow> i = k"
proof -
  assume "(i mod NUM_BANKS, flush_row v i) = (k mod NUM_BANKS, flush_row v k)"
  then have "i mod NUM_BANKS = k mod NUM_BANKS" "i div NUM_BANKS = k div NUM_BANKS" by (auto simp: flush_row_def)
  then show "i = k" by (metis div_mult_mod_eq)
qed

definition outside_buf :: "nat \<Rightarrow> bool" where
  "outside_buf a \<longleftrightarrow> a < DA_FTL_BUF_ADDR \<or> DA_BAD_BLK_BMP_ADDR \<le> a"

definition flush_data :: "(nat \<Rightarrow> nat) \<Rightarrow> nat \<Rightarrow> nat \<Rightarrow> dstate \<Rightarrow> nat \<Rightarrow> dstate \<Rightarrow> bool" where
  "flush_data v base bytes s0 k s \<longleftrightarrow> (\<forall>a. outside_buf a \<longrightarrow> ddram s a = ddram s0 a)
     \<and> (\<forall>c < NUM_BANKS. \<forall>r. (\<forall>i < k. (c, r) \<noteq> (i mod NUM_BANKS, flush_row v i)) \<longrightarrow> dpage s c r = dpage s0 c r)
     \<and> (\<forall>i < k. \<forall>x < tab_len bytes i. dpage s (i mod NUM_BANKS) (flush_row v i) x = ddram s0 (tab_addr base bytes i + x))"

definition rows_blank :: "(nat \<Rightarrow> nat) \<Rightarrow> nat \<Rightarrow> dstate \<Rightarrow> bool" where
  "rows_blank v bytes s \<longleftrightarrow> (\<forall>k < tab_pages bytes. dblank s (k mod NUM_BANKS) (flush_row v k))"

lemma outside_table: "table_ok base bytes \<Longrightarrow> k < tab_pages bytes \<Longrightarrow> outside_buf (tab_addr base bytes k + x)"
  using tab_len_ok(5) [of base bytes k] by (simp add: outside_buf_def geom)

lemma flush_data_step:
  assumes hw: "flash_ok lay hw" and t: "table_ok base bytes" and f: "flush_fits v bytes" and v: "v = (\<lambda>b. get_mapblk_vpn b l s0)" and k: "k < tab_pages bytes"
    and r: "flush_run l s0 k s" and d: "flush_data v base bytes s0 k s" and bl: "rows_blank v bytes s0" and st: "flush_step hw l base bytes k s = Some s'"
  shows "flush_data v base bytes s0 (Suc k) s'"
proof -
  define b where "b = k mod NUM_BANKS"
  define row where "row = flush_row v k"
  define buf where "buf = DA_FTL_BUF b"
  define e where "e = (\<lambda>a. if buf \<le> a \<and> a < buf + tab_len bytes k then ddram s (tab_addr base bytes k + (a - buf)) else ddram s a)"
  define x where "x = set_ddram e (set_mapblk_vpn b l row s)"
  have b: "b < NUM_BANKS" by (simp add: b_def geom)
  note L = tab_len_ok [OF t k] and B = da_ftl_buf [OF b, folded buf_def]
  have s': "s' = on_dfl (prog_page hw b row (tab_len bytes k div 512) buf) x"
    using flush_step_eq [OF t f [unfolded v] k r, where hw = hw] st unfolding x_def e_def buf_def row_def b_def v by simp
  have n: "tab_len bytes k div 512 * 512 = tab_len bytes k" using L(1) by auto
  have new: "(i mod NUM_BANKS, flush_row v i) \<noteq> (b, row)" if "i < k" for i using flush_row_inj [of i v k] that by (auto simp: b_def row_def)
  have pg: "dpage x = dpage s" "ddram x = e" by (simp_all add: x_def)
  have "dpage s b row = dpage s0 b row" using d b new unfolding flush_data_def by metis
  moreover have "dblank s0 b row" using bl k by (simp add: rows_blank_def b_def row_def)
  ultimately have "dblank x b row" using dblank_cong [of x b row s0] pg(1) by simp
  then have bx: "blank (nand (dfl x)) (REAL_BANK b) row" by (simp add: dblank_def)
  have nb: "tab_len bytes k div 512 * 512 \<le> BYTES_PER_PAGE" using n L(2) by simp
  note P = prog_page_effect [OF hw bx nb B(1), unfolded n]
  have dr: "ddram s' = e" using P(1) pg(2) by (simp add: s' ddram_def)
  have o: "dpage s' c q = dpage s c q" if "c < NUM_BANKS" "(c, q) \<noteq> (b, row)" for c q
    using P(2) that REAL_BANK_inj [OF that(1) b] pg(1) by (auto simp: only_page_def dpage_def s' fun_eq_iff)
  have w: "dpage s' b row y = ddram s0 (tab_addr base bytes k + y)" if y: "y < tab_len bytes k" for y
  proof -
    have "dpage s' b row y = e (buf + y)" using P(3) [OF y] pg(2) by (simp add: dpage_def s' ddram_def)
    also have "\<dots> = ddram s (tab_addr base bytes k + y)" using y by (simp add: e_def)
    also have "\<dots> = ddram s0 (tab_addr base bytes k + y)" using d outside_table [OF t k] by (simp add: flush_data_def)
    finally show ?thesis .
  qed
  have "e a = ddram s0 a" if "outside_buf a" for a
  proof -
    have "\<not> (buf \<le> a \<and> a < buf + tab_len bytes k)" using that B(3,4) L(2) by (auto simp: outside_buf_def)
    then show ?thesis using d that unfolding e_def by (auto simp: flush_data_def)
  qed
  moreover have "dpage s' c q = dpage s0 c q" if "c < NUM_BANKS" "\<forall>i < Suc k. (c, q) \<noteq> (i mod NUM_BANKS, flush_row v i)" for c q
    using o [of c q] that d by (auto simp: flush_data_def b_def row_def)
  moreover have "dpage s' (i mod NUM_BANKS) (flush_row v i) y = ddram s0 (tab_addr base bytes i + y)" if i: "i < Suc k" "y < tab_len bytes i" for i y
  proof (cases "i = k")
    case True
    then show ?thesis using w i(2) by (simp add: b_def row_def)
  next
    case False
    then have "i < k" using i(1) by simp
    moreover have "i mod NUM_BANKS < NUM_BANKS" by (simp add: geom)
    ultimately show ?thesis using o [OF _ new] d i(2) by (simp add: flush_data_def)
  qed
  ultimately show ?thesis unfolding flush_data_def dr by blast
qed

lemma flush_data_result:
  assumes hw: "flash_ok lay hw" and t: "table_ok base bytes" and f: "flush_fits v bytes" and v: "v = (\<lambda>b. get_mapblk_vpn b l s)" and bl: "rows_blank v bytes s"
  shows "\<exists>s'. flush_dram_metadata_into_mapblk hw l base bytes s = Some s' \<and> flush_run l s (tab_pages bytes) s' \<and> flush_data v base bytes s (tab_pages bytes) s'"
proof -
  have fin: "flush_data v base bytes s k (on_dfl flash_finish x)" if "flush_data v base bytes s k x" for k x
    using that by (simp add: flush_data_def ddram_def)
  have step: "\<exists>y. flush_step hw l base bytes k x = Some y \<and> flush_run l s (Suc k) y \<and> flush_data v base bytes s (Suc k) y"
    if "k < tab_pages bytes" "flush_run l s k x" "flush_data v base bytes s k x" for k x
  proof -
    from flush_run_step [OF t f [unfolded v] that(1,2)] obtain y where "flush_step hw l base bytes k x = Some y" "flush_run l s (Suc k) y" by blast
    then show ?thesis using flush_data_step [OF hw t f v that bl] by blast
  qed
  have "\<exists>x'. each (\<lambda>j x. each (flush_step hw l base bytes) [j * NUM_BANKS..<round_end bytes j] (on_dfl flash_finish x)) [0..<tab_rounds bytes] s = Some x'
     \<and> (flush_run l s (tab_pages bytes) x' \<and> flush_data v base bytes s (tab_pages bytes) x')"
    by (rule each_rounds) (use step fin flush_run_finish flush_run_start in \<open>auto simp: flush_data_def\<close>)
  then show ?thesis unfolding flush_eq flush_round_def using fin flush_run_finish by auto
qed

subsection \<open>A load\<close>

definition load_step :: "flash_hw \<Rightarrow> (nat \<Rightarrow> nat) \<Rightarrow> nat \<Rightarrow> nat \<Rightarrow> dstate \<Rightarrow> dstate" where
  "load_step hw v bytes k = on_dfl (load_page hw RETURN_ON_ISSUE (k mod NUM_BANKS) (flush_row v k) (tab_len bytes k div 512) (DA_FTL_BUF (k mod NUM_BANKS)))"

definition copy_step :: "nat \<Rightarrow> nat \<Rightarrow> nat \<Rightarrow> dstate \<Rightarrow> dstate" where
  "copy_step base bytes k s = set_ddram (\<lambda>a. if tab_addr base bytes k \<le> a \<and> a < tab_addr base bytes k + tab_len bytes k
     then ddram s (DA_FTL_BUF (k mod NUM_BANKS) + (a - tab_addr base bytes k)) else ddram s a) s"

definition load_round :: "flash_hw \<Rightarrow> (nat \<Rightarrow> nat) \<Rightarrow> nat \<Rightarrow> nat \<Rightarrow> nat \<Rightarrow> dstate \<Rightarrow> dstate" where
  "load_round hw v base bytes j s = fold (copy_step base bytes) [j * NUM_BANKS..<round_end bytes j]
     (on_dfl flash_finish (fold (load_step hw v bytes) [j * NUM_BANKS..<round_end bytes j] s))"

lemma load_table_read_fold:
  assumes "flush_fits v bytes" and "table_ok base bytes"
    and "b \<le> NUM_BANKS" and "k = j * NUM_BANKS + b" and "len_ok bytes k nb" and "\<forall>c < NUM_BANKS. vpns c = v c + turns k c + 1"
  shows "\<exists>nb' vpns'. len_ok bytes (j * NUM_BANKS + NUM_BANKS) nb' \<and> (j * NUM_BANKS + NUM_BANKS < tab_pages bytes \<longrightarrow> (\<forall>c < NUM_BANKS. vpns' c = v c + turns (j * NUM_BANKS + NUM_BANKS) c + 1))
    \<and> load_table_read hw (base + bytes) [b..<NUM_BANKS] (tab_addr base bytes k) nb vpns s
      = Some (tab_addr base bytes (j * NUM_BANKS + NUM_BANKS), nb', vpns', fold (load_step hw v bytes) [k..<round_end bytes j] s)"
  using assms(3-)
proof (induction "NUM_BANKS - b" arbitrary: b k nb vpns s)
  case 0
  then have "b = NUM_BANKS" "k = j * NUM_BANKS + NUM_BANKS" by simp_all
  moreover from this have "[b..<NUM_BANKS] = []" "[k..<round_end bytes j] = []" by (simp_all add: round_end_def)
  ultimately show ?case using 0(4,5) by auto
next
  case (Suc m)
  then have b: "b < NUM_BANKS" and m: "m = NUM_BANKS - Suc b" by simp_all
  have u: "[b..<NUM_BANKS] = b # [Suc b..<NUM_BANKS]" using b by (simp add: upt_conv_Cons)
  have kb: "k mod NUM_BANKS = b" "Suc k = j * NUM_BANKS + Suc b" using b Suc.prems(2) by simp_all
  show ?case
  proof (cases "k < tab_pages bytes")
    case False
    then have r: "[k..<round_end bytes j] = []" by (simp add: round_end_def)
    have le: "base + bytes \<le> tab_addr base bytes k" using False tab_addr_less [of base bytes k] by linarith
    have ge: "tab_pages bytes \<le> j * NUM_BANKS + NUM_BANKS" using False Suc.prems(2) b by linarith
    have a: "tab_addr base bytes k = tab_addr base bytes (j * NUM_BANKS + NUM_BANKS)"
      using False ge tab_pages_iff [of k bytes] tab_pages_iff [of "j * NUM_BANKS + NUM_BANKS" bytes] by (simp add: tab_addr_def)
    show ?thesis unfolding u using r le a ge len_ok_after [OF ge] by auto
  next
    case True
    then have nle: "\<not> base + bytes \<le> tab_addr base bytes k" using tab_addr_less [of base bytes k] by linarith
    have r: "[k..<round_end bytes j] = k # [Suc k..<round_end bytes j]" using True b Suc.prems(2) by (simp add: round_end_def upt_conv_Cons)
    note n = len_of_page [OF Suc.prems(3) True, of base]
    note R = flush_row_now [OF assms(1) True]
    have vb: "vpns b = flush_row v k" using Suc.prems(4) b R(1) by (simp add: kb(1))
    have sec: "(tab_len bytes k + BYTES_PER_SECTOR - 1) div BYTES_PER_SECTOR = tab_len bytes k div 512"
      using tab_len_ok(1) [OF assms(2) True] by (auto simp: geom mod_eq_0_iff_dvd elim!: dvdE)
    define vp where "vp = vpns(b := wrap32 (vpns b + 1))"
    have "wrap32 (vpns b + 1) = vpns b + 1" using R(2) vb by (simp add: wrap_simps geom)
    then have v': "\<forall>c < NUM_BANKS. vp c = v c + turns (Suc k) c + 1"
      using Suc.prems(4) by (auto simp: vp_def turns_Suc kb(1))
    note rd = d_ptread [OF b R(2), of hw "tab_len bytes k div 512" "DA_FTL_BUF b" RETURN_ON_ISSUE s]
    have st: "on_dfl (load_page hw RETURN_ON_ISSUE b (flush_row v k) (tab_len bytes k div 512) (DA_FTL_BUF b)) s = load_step hw v bytes k s" by (simp add: load_step_def kb(1))
    from Suc.hyps(1) [OF m _ kb(2) len_ok_step [OF True] v', of "load_step hw v bytes k s"] b
    obtain nb' vpns' where "len_ok bytes (j * NUM_BANKS + NUM_BANKS) nb'" "j * NUM_BANKS + NUM_BANKS < tab_pages bytes \<longrightarrow> (\<forall>c < NUM_BANKS. vpns' c = v c + turns (j * NUM_BANKS + NUM_BANKS) c + 1)"
      "load_table_read hw (base + bytes) [Suc b..<NUM_BANKS] (tab_addr base bytes (Suc k)) (tab_len bytes k) vp (load_step hw v bytes k s)
        = Some (tab_addr base bytes (j * NUM_BANKS + NUM_BANKS), nb', vpns', fold (load_step hw v bytes) [Suc k..<round_end bytes j] (load_step hw v bytes k s))" by auto
    moreover have "load_table_read hw (base + bytes) (b # bs) (tab_addr base bytes k) nb vpns s
        = load_table_read hw (base + bytes) bs (tab_addr base bytes (Suc k)) (tab_len bytes k) vp (load_step hw v bytes k s)" for bs
      unfolding vp_def by (simp only: load_table_read.simps nle if_False Let_def n sec vb rd st bind.bind_lunit tab_addr_step [OF True])
    ultimately show ?thesis unfolding u r by auto
  qed
qed

lemma load_table_copy_fold:
  assumes "table_ok base bytes" and "b \<le> NUM_BANKS" and "k = j * NUM_BANKS + b" and "len_ok bytes k nb"
  shows "load_table_copy (base + bytes) [b..<NUM_BANKS] (tab_addr base bytes k) nb s = Some (fold (copy_step base bytes) [k..<round_end bytes j] s)"
  using assms(2-)
proof (induction "NUM_BANKS - b" arbitrary: b k nb s)
  case 0
  then have "b = NUM_BANKS" "k = j * NUM_BANKS + NUM_BANKS" by simp_all
  moreover from this have "[b..<NUM_BANKS] = []" "[k..<round_end bytes j] = []" by (simp_all add: round_end_def)
  ultimately show ?case by (simp only: load_table_copy.simps fold_simps)
next
  case (Suc m)
  then have b: "b < NUM_BANKS" and m: "m = NUM_BANKS - Suc b" by simp_all
  have u: "[b..<NUM_BANKS] = b # [Suc b..<NUM_BANKS]" using b by (simp add: upt_conv_Cons)
  have kb: "k mod NUM_BANKS = b" "Suc k = j * NUM_BANKS + Suc b" using b Suc.prems(2) by simp_all
  show ?case
  proof (cases "k < tab_pages bytes")
    case False
    then have r: "[k..<round_end bytes j] = []" by (simp add: round_end_def)
    have "base + bytes \<le> tab_addr base bytes k" using False tab_addr_less [of base bytes k] by linarith
    then show ?thesis unfolding u r by simp
  next
    case True
    then have nle: "\<not> base + bytes \<le> tab_addr base bytes k" using tab_addr_less [of base bytes k] by linarith
    have r: "[k..<round_end bytes j] = k # [Suc k..<round_end bytes j]" using True b Suc.prems(2) by (simp add: round_end_def upt_conv_Cons)
    note n = len_of_page [OF Suc.prems(3) True, of base] and L = tab_len_ok [OF assms(1) True]
    have "tab_len bytes k mod 128 = 0" "tab_len bytes k mod 4 = 0" using L(1) by (auto simp: mod_eq_0_iff_dvd)
    moreover have "tab_len bytes k \<le> MU_MAX_BYTES" using L(2) by (simp add: geom MU_MAX_BYTES_def)
    ultimately have mv: "\<exists>d. dram_move (tab_addr base bytes k) (DA_FTL_BUF b) (tab_len bytes k) (ddram s) = Some d \<and> set_ddram d s = copy_step base bytes k s"
      unfolding copy_step_def kb(1) using L(3) da_ftl_buf(2) [OF b] by (simp add: dram_move_def geom)
    show ?thesis unfolding u r using mv Suc.hyps(1) [OF m _ kb(2) len_ok_step [OF True]] b
      by (auto simp: nle n Let_def tab_addr_step [OF True])
  qed
qed

lemma load_loop_fold:
  assumes f: "flush_fits v bytes" and t: "table_ok base bytes"
    and "len_ok bytes (j * NUM_BANKS) nb" and "j * NUM_BANKS < tab_pages bytes \<longrightarrow> (\<forall>c < NUM_BANKS. vpns c = v c + turns (j * NUM_BANKS) c + 1)"
  shows "load_table_loop hw (base + bytes) (tab_addr base bytes (j * NUM_BANKS)) nb vpns s = Some (fold (load_round hw v base bytes) [j..<tab_rounds bytes] s)"
  using assms(3-)
proof (induction "tab_rounds bytes - j" arbitrary: j nb vpns s)
  case 0
  then have "\<not> tab_addr base bytes (j * NUM_BANKS) < base + bytes" using tab_rounds_iff [of j bytes] by (simp add: tab_addr_less)
  then show ?case using 0 by (subst load_table_loop.simps) simp
next
  case (Suc m)
  then have j: "j < tab_rounds bytes" "m = tab_rounds bytes - Suc j" by simp_all
  then have jn: "j * NUM_BANKS < tab_pages bytes" by (simp add: tab_rounds_iff)
  then have lt: "tab_addr base bytes (j * NUM_BANKS) < base + bytes" by (simp add: tab_addr_less)
  have u: "[j..<tab_rounds bytes] = j # [Suc j..<tab_rounds bytes]" using j(1) by (simp add: upt_conv_Cons)
  have k: "j * NUM_BANKS + NUM_BANKS = Suc j * NUM_BANKS" by simp
  have vp: "\<forall>c < NUM_BANKS. vpns c = v c + turns (j * NUM_BANKS) c + 1" using Suc.prems(2) jn by blast
  define s1 where "s1 = fold (load_step hw v bytes) [j * NUM_BANKS..<round_end bytes j] s"
  from load_table_read_fold [OF f t, of 0 "j * NUM_BANKS" j nb vpns hw s] Suc.prems(1) vp
  obtain nb' vpns' where nb: "len_ok bytes (Suc j * NUM_BANKS) nb'" "Suc j * NUM_BANKS < tab_pages bytes \<longrightarrow> (\<forall>c < NUM_BANKS. vpns' c = v c + turns (Suc j * NUM_BANKS) c + 1)"
    and rd: "load_table_read hw (base + bytes) [0..<NUM_BANKS] (tab_addr base bytes (j * NUM_BANKS)) nb vpns s = Some (tab_addr base bytes (Suc j * NUM_BANKS), nb', vpns', s1)"
    unfolding k s1_def by auto
  have cp: "load_table_copy (base + bytes) [0..<NUM_BANKS] (tab_addr base bytes (j * NUM_BANKS)) nb (on_dfl flash_finish s1) = Some (load_round hw v base bytes j s)"
    using load_table_copy_fold [OF t, of 0 "j * NUM_BANKS" j nb "on_dfl flash_finish s1"] Suc.prems(1) by (simp add: load_round_def s1_def)
  show ?case unfolding u using Suc.hyps(1) [OF j(2) nb] by (subst load_table_loop.simps) (simp add: lt rd cp)
qed

text \<open>The start of the load finds the first page of the last flush again.\<close>

lemma load_start:
  assumes "flush_fits v bytes" and "b < NUM_BANKS" and "get_mapblk_vpn b l s = v b + turns (tab_pages bytes) b"
  shows "load_mapblk_vpn l bytes s b = v b + 1"
proof -
  define n where "n = tab_pages bytes"
  have n: "n = (bytes + BYTES_PER_PAGE - 1) div BYTES_PER_PAGE" by (simp add: n_def tab_pages_def)
  have lt: "v b + turns n b < 4294967295" using assms(1,2) unfolding flush_fits_def n_def by (auto simp: geom)
  have tt: "turns n b = n div NUM_BANKS + (if b < n mod NUM_BANKS then 1 else 0)" by (rule turns_total [OF assms(2)])
  have s: "sub32 (v b + turns n b) (n div NUM_BANKS) = v b + (if b < n mod NUM_BANKS then 1 else 0)"
    using lt unfolding tt by (simp add: wrap_simps)
  define w where "w = wrap32 (v b + (if b < n mod NUM_BANKS then 1 else 0) + 1)"
  have "w = v b + (if b < n mod NUM_BANKS then 1 else 0) + 1" using lt unfolding w_def tt by (intro wrap32_id) simp
  moreover have "b < n mod NUM_BANKS \<Longrightarrow> sub32 (v b + 1 + 1) 1 = v b + 1" using lt by (subst sub32_id) (auto simp: tt)
  ultimately have "(if b < n mod NUM_BANKS then sub32 w 1 else w) = v b + 1" by auto
  then show ?thesis by (simp only: load_mapblk_vpn_def Let_def n [symmetric] assms(3) n_def [symmetric] s w_def)
qed

definition load_flash :: "dstate \<Rightarrow> dstate \<Rightarrow> bool" where
  "load_flash s0 s \<longleftrightarrow> dpage s = dpage s0 \<and> d_misc_meta s = d_misc_meta s0"

definition from_flash :: "(nat \<Rightarrow> nat) \<Rightarrow> dstate \<Rightarrow> nat \<Rightarrow> nat \<Rightarrow> u32" where
  "from_flash v s0 i x = dpage s0 (i mod NUM_BANKS) (flush_row v i) x"

lemma da_bufs_apart:
  assumes "b \<noteq> c" and "x < BYTES_PER_PAGE" and "n \<le> BYTES_PER_PAGE"
  shows "DA_FTL_BUF c + x < DA_FTL_BUF b \<or> DA_FTL_BUF b + n \<le> DA_FTL_BUF c + x"
proof -
  consider "c + 1 \<le> b" | "b + 1 \<le> c" using assms(1) by linarith
  then show ?thesis
  proof cases
    case 1
    then have "(c + 1) * BYTES_PER_PAGE \<le> b * BYTES_PER_PAGE" by (rule mult_le_mono1)
    then show ?thesis using assms(2) by (simp add: DA_FTL_BUF_def)
  next
    case 2
    then have "(b + 1) * BYTES_PER_PAGE \<le> c * BYTES_PER_PAGE" by (rule mult_le_mono1)
    then show ?thesis using assms(3) by (simp add: DA_FTL_BUF_def)
  qed
qed

lemma one_round:
  assumes "j * NUM_BANKS \<le> i" and "i < k" and "k < round_end bytes j"
  shows "i mod NUM_BANKS \<noteq> k mod NUM_BANKS"
proof
  assume "i mod NUM_BANKS = k mod NUM_BANKS"
  then have "NUM_BANKS dvd k - i" using assms(2) by (metis mod_eq_dvd_iff_nat less_imp_le)
  moreover have "k - i < NUM_BANKS" "0 < k - i" using assms unfolding round_end_def by linarith+
  ultimately show False by (simp add: nat_dvd_not_less)
qed

lemma load_steps:
  fixes s
  assumes hw: "flash_ok lay hw" and t: "table_ok base bytes" and f: "flush_fits v bytes" and j: "j < tab_rounds bytes"
  defines "s1 \<equiv> fold (load_step hw v bytes) [j * NUM_BANKS..<round_end bytes j] s"
  shows "load_flash s s1 \<and> (\<forall>a < 4294967296. outside_buf a \<longrightarrow> ddram s1 a = ddram s a)
    \<and> (\<forall>i x. j * NUM_BANKS \<le> i \<and> i < round_end bytes j \<and> x < tab_len bytes i \<longrightarrow> ddram s1 (DA_FTL_BUF (i mod NUM_BANKS) + x) = from_flash v s i x)"
proof -
  define I where "I = (\<lambda>k y. load_flash s y \<and> (\<forall>a < 4294967296. outside_buf a \<longrightarrow> ddram y a = ddram s a)
    \<and> (\<forall>i x. j * NUM_BANKS \<le> i \<and> i < k \<and> x < tab_len bytes i \<longrightarrow> ddram y (DA_FTL_BUF (i mod NUM_BANKS) + x) = from_flash v s i x))"
  have "I (round_end bytes j) (fold (load_step hw v bytes) [j * NUM_BANKS..<round_end bytes j] s)"
  proof (rule fold_upt)
    show "I (j * NUM_BANKS) s" unfolding I_def load_flash_def by auto
    show "j * NUM_BANKS \<le> round_end bytes j" using j by (simp add: round_end_def tab_rounds_iff)
    fix k y assume k: "j * NUM_BANKS \<le> k" "k < round_end bytes j" and y: "I k y"
    define b where "b = k mod NUM_BANKS"
    define buf where "buf = DA_FTL_BUF b"
    have b: "b < NUM_BANKS" by (simp add: b_def geom)
    have kn: "k < tab_pages bytes" using k(2) by (simp add: round_end_def)
    note L = tab_len_ok [OF t kn] and B = da_ftl_buf [OF b, folded buf_def]
    have n: "tab_len bytes k div 512 * 512 = tab_len bytes k" using L(1) by auto
    have nb: "tab_len bytes k div 512 * 512 \<le> BYTES_PER_PAGE" using n L(2) by simp
    define y' where "y' = load_step hw v bytes k y"
    note P = load_page_effect [OF hw nb B(1), where sync = RETURN_ON_ISSUE and b = b and r = "flush_row v k" and f = "dfl y", unfolded n]
    have y': "dfl y' = load_page hw RETURN_ON_ISSUE b (flush_row v k) (tab_len bytes k div 512) buf (dfl y)" "d_misc_meta y' = d_misc_meta y"
      by (simp_all add: y'_def load_step_def b_def buf_def)
    have pg: "dpage y' = dpage y" using P(1) by (simp add: dpage_def y' fun_eq_iff)
    have dr: "ddram y' a = ddram y a" if "a < 4294967296" "a < buf \<or> buf + tab_len bytes k \<le> a" for a
      using P(3) [OF that] by (simp add: ddram_def y')
    have "ddram y' a = ddram s a" if "a < 4294967296" "outside_buf a" for a
      using dr [OF that(1)] that(2) B(3,4) L(2) y that(1) unfolding I_def outside_buf_def by auto
    moreover have "ddram y' (DA_FTL_BUF (i mod NUM_BANKS) + x) = from_flash v s i x"
      if i: "j * NUM_BANKS \<le> i" "i < Suc k" "x < tab_len bytes i" for i x
    proof (cases "i = k")
      case True
      have "ddram y' (buf + x) = dpage y b (flush_row v k) x" using P(2) [of x] i(3) True by (simp add: ddram_def y' dpage_def)
      then show ?thesis using y True by (simp add: from_flash_def I_def load_flash_def b_def buf_def)
    next
      case False
      then have ik: "i < k" using i(2) by simp
      have ib: "i mod NUM_BANKS < NUM_BANKS" by (simp add: geom)
      have xl: "x < BYTES_PER_PAGE" using i(3) by (simp add: tab_len_def)
      have "b \<noteq> i mod NUM_BANKS" using one_round [OF i(1) ik k(2)] by (simp add: b_def)
      then have "DA_FTL_BUF (i mod NUM_BANKS) + x < buf \<or> buf + tab_len bytes k \<le> DA_FTL_BUF (i mod NUM_BANKS) + x"
        unfolding buf_def by (rule da_bufs_apart [OF _ xl L(2)])
      moreover have "DA_FTL_BUF (i mod NUM_BANKS) + x < 4294967296" using da_ftl_buf(1) [OF ib] xl by (simp add: buf_ok_def)
      ultimately show ?thesis using dr y i ik by (simp add: I_def)
    qed
    ultimately show "I (Suc k) (load_step hw v bytes k y)"
      using y pg y'(2) unfolding I_def y'_def [symmetric] load_flash_def by auto
  qed
  then show ?thesis unfolding I_def s1_def by blast
qed

lemma tab_addr_mono: "a \<le> b \<Longrightarrow> tab_addr base bytes a \<le> tab_addr base bytes b"
proof -
  assume "a \<le> b"
  then have "a * BYTES_PER_PAGE \<le> b * BYTES_PER_PAGE" by (rule mult_le_mono1)
  then show ?thesis unfolding tab_addr_def by linarith
qed

lemma copy_steps:
  fixes s
  assumes t: "table_ok base bytes" and j: "j < tab_rounds bytes"
  defines "s1 \<equiv> fold (copy_step base bytes) [j * NUM_BANKS..<round_end bytes j] s"
  shows "load_flash s s1 \<and> (\<forall>a. a < tab_addr base bytes (j * NUM_BANKS) \<or> tab_addr base bytes (round_end bytes j) \<le> a \<longrightarrow> ddram s1 a = ddram s a)
    \<and> (\<forall>i x. j * NUM_BANKS \<le> i \<and> i < round_end bytes j \<and> x < tab_len bytes i \<longrightarrow> ddram s1 (tab_addr base bytes i + x) = ddram s (DA_FTL_BUF (i mod NUM_BANKS) + x))"
proof -
  define I where "I = (\<lambda>k y. load_flash s y \<and> (\<forall>a. a < tab_addr base bytes (j * NUM_BANKS) \<or> tab_addr base bytes k \<le> a \<longrightarrow> ddram y a = ddram s a)
    \<and> (\<forall>i x. j * NUM_BANKS \<le> i \<and> i < k \<and> x < tab_len bytes i \<longrightarrow> ddram y (tab_addr base bytes i + x) = ddram s (DA_FTL_BUF (i mod NUM_BANKS) + x)))"
  note mono = tab_addr_mono [of _ _ base bytes]
  have "I (round_end bytes j) (fold (copy_step base bytes) [j * NUM_BANKS..<round_end bytes j] s)"
  proof (rule fold_upt)
    show "I (j * NUM_BANKS) s" unfolding I_def load_flash_def by auto
    show "j * NUM_BANKS \<le> round_end bytes j" using j by (simp add: round_end_def tab_rounds_iff)
    fix k y assume k: "j * NUM_BANKS \<le> k" "k < round_end bytes j" and y: "I k y"
    have kn: "k < tab_pages bytes" using k(2) by (simp add: round_end_def)
    have b: "k mod NUM_BANKS < NUM_BANKS" by (simp add: geom)
    note L = tab_len_ok [OF t kn] and B = da_ftl_buf [OF b]
    note nx = tab_addr_step [OF kn, of base]
    define y' where "y' = copy_step base bytes k y"
    have f: "load_flash y y'" by (simp add: y'_def copy_step_def load_flash_def)
    have dr: "ddram y' a = (if tab_addr base bytes k \<le> a \<and> a < tab_addr base bytes (Suc k) then ddram y (DA_FTL_BUF (k mod NUM_BANKS) + (a - tab_addr base bytes k)) else ddram y a)" for a
      by (simp add: y'_def copy_step_def nx)
    have buf: "ddram y (DA_FTL_BUF (k mod NUM_BANKS) + x) = ddram s (DA_FTL_BUF (k mod NUM_BANKS) + x)" if "x < tab_len bytes k" for x
    proof -
      have "DA_FTL_BUF (k mod NUM_BANKS) + x < DA_BAD_BLK_BMP_ADDR" using B(3) L(2) that by linarith
      moreover have "DA_BAD_BLK_BMP_ADDR \<le> DA_PAGE_MAP_ADDR" by (simp add: geom)
      moreover have "DA_PAGE_MAP_ADDR \<le> tab_addr base bytes (j * NUM_BANKS)" using t by (simp add: tab_addr_def table_ok_def)
      ultimately show ?thesis using y by (simp add: I_def)
    qed
    have "ddram y' a = ddram s a" if "a < tab_addr base bytes (j * NUM_BANKS) \<or> tab_addr base bytes (Suc k) \<le> a" for a
      using that y mono [OF k(1)] mono [of k "Suc k"] unfolding dr I_def by auto
    moreover have "ddram y' (tab_addr base bytes i + x) = ddram s (DA_FTL_BUF (i mod NUM_BANKS) + x)"
      if i: "j * NUM_BANKS \<le> i" "i < Suc k" "x < tab_len bytes i" for i x
    proof (cases "i = k")
      case True
      then show ?thesis using dr [of "tab_addr base bytes k + x"] buf i(3) nx by simp
    next
      case False
      then have ik: "i < k" using i(2) by simp
      then have "tab_addr base bytes i + tab_len bytes i = tab_addr base bytes (Suc i)" using kn by (intro tab_addr_step) simp
      then have "tab_addr base bytes i + x < tab_addr base bytes k" using i(3) mono [of "Suc i" k] ik by simp
      then show ?thesis using dr y i ik by (simp add: I_def)
    qed
    ultimately show "I (Suc k) (copy_step base bytes k y)"
      using y f unfolding I_def y'_def [symmetric] load_flash_def by auto
  qed
  then show ?thesis unfolding I_def s1_def by blast
qed

text \<open>A load puts the pages of the flash that hold the table back where the table is.\<close>

definition loaded :: "(nat \<Rightarrow> nat) \<Rightarrow> nat \<Rightarrow> nat \<Rightarrow> dstate \<Rightarrow> nat \<Rightarrow> dstate \<Rightarrow> bool" where
  "loaded v base bytes s k t \<longleftrightarrow> load_flash s t
     \<and> (\<forall>a < 4294967296. outside_buf a \<and> (a < base \<or> base + bytes \<le> a) \<longrightarrow> ddram t a = ddram s a)
     \<and> (\<forall>i x. i < k \<and> x < tab_len bytes i \<longrightarrow> ddram t (tab_addr base bytes i + x) = from_flash v s i x)"

lemma load_round_result:
  assumes hw: "flash_ok lay hw" and t: "table_ok base bytes" and f: "flush_fits v bytes" and j: "j < tab_rounds bytes"
    and y: "loaded v base bytes s (min (tab_pages bytes) (j * NUM_BANKS)) y"
  shows "loaded v base bytes s (min (tab_pages bytes) (Suc j * NUM_BANKS)) (load_round hw v base bytes j y)"
proof -
  define y1 where "y1 = fold (load_step hw v bytes) [j * NUM_BANKS..<round_end bytes j] y"
  define y2 where "y2 = on_dfl flash_finish y1"
  define y3 where "y3 = load_round hw v base bytes j y"
  have r: "round_end bytes j = min (tab_pages bytes) (Suc j * NUM_BANKS)" by (simp add: round_end_def add.commute)
  have jn: "j * NUM_BANKS < tab_pages bytes" using j by (simp add: tab_rounds_iff)
  from load_steps [OF hw t f j, of y, folded y1_def] have
    A: "load_flash y y1" "\<And>a. a < 4294967296 \<Longrightarrow> outside_buf a \<Longrightarrow> ddram y1 a = ddram y a"
    "\<And>i x. j * NUM_BANKS \<le> i \<Longrightarrow> i < round_end bytes j \<Longrightarrow> x < tab_len bytes i \<Longrightarrow> ddram y1 (DA_FTL_BUF (i mod NUM_BANKS) + x) = from_flash v y i x" by blast+
  have y2: "load_flash y1 y2" "ddram y2 = ddram y1" by (simp_all add: y2_def load_flash_def ddram_def)
  from copy_steps [OF t j, of y2] have
    C: "load_flash y2 y3" "\<And>a. a < tab_addr base bytes (j * NUM_BANKS) \<or> tab_addr base bytes (round_end bytes j) \<le> a \<Longrightarrow> ddram y3 a = ddram y2 a"
    "\<And>i x. j * NUM_BANKS \<le> i \<Longrightarrow> i < round_end bytes j \<Longrightarrow> x < tab_len bytes i \<Longrightarrow> ddram y3 (tab_addr base bytes i + x) = ddram y2 (DA_FTL_BUF (i mod NUM_BANKS) + x)"
    by (auto simp: y3_def load_round_def y2_def y1_def)
  have Y: "load_flash s y" "\<And>a. a < 4294967296 \<Longrightarrow> outside_buf a \<Longrightarrow> a < base \<or> base + bytes \<le> a \<Longrightarrow> ddram y a = ddram s a"
    "\<And>i x. i < j * NUM_BANKS \<Longrightarrow> x < tab_len bytes i \<Longrightarrow> ddram y (tab_addr base bytes i + x) = from_flash v s i x"
    using y jn by (auto simp: loaded_def)
  have fl: "load_flash s y3" using A(1) y2(1) C(1) Y(1) by (simp add: load_flash_def)
  have lo: "base \<le> tab_addr base bytes i" "tab_addr base bytes i \<le> base + bytes" for i by (simp_all add: tab_addr_def)
  have "ddram y3 a = ddram s a" if "a < 4294967296" "outside_buf a" "a < base \<or> base + bytes \<le> a" for a
  proof -
    have "a < tab_addr base bytes (j * NUM_BANKS) \<or> tab_addr base bytes (round_end bytes j) \<le> a"
      using that(3) lo(1) [of "j * NUM_BANKS"] lo(2) [of "round_end bytes j"] by linarith
    then show ?thesis using C(2) A(2) [OF that(1,2)] Y(2) [OF that] y2(2) by simp
  qed
  moreover have "ddram y3 (tab_addr base bytes i + x) = from_flash v s i x" if i: "i < round_end bytes j" "x < tab_len bytes i" for i x
  proof (cases "j * NUM_BANKS \<le> i")
    case True
    then show ?thesis using C(3) A(3) i y2(2) Y(1) by (simp add: from_flash_def load_flash_def)
  next
    case False
    then have ij: "i < j * NUM_BANKS" "i < tab_pages bytes" using jn by simp_all
    note L = tab_len_ok [OF t ij(2)]
    have "tab_addr base bytes (Suc i) \<le> tab_addr base bytes (j * NUM_BANKS)" using ij(1) by (intro tab_addr_mono) simp
    then have lt: "tab_addr base bytes i + x < tab_addr base bytes (j * NUM_BANKS)" using tab_addr_step [OF ij(2), of base] i(2) by simp
    have "tab_addr base bytes i + x < 4294967296" using L(4) i(2) t by (simp add: table_ok_def)
    then show ?thesis using C(2) [OF disjI1 [OF lt]] A(2) outside_table [OF t ij(2)] Y(3) [OF ij(1) i(2)] y2(2) by simp
  qed
  ultimately show ?thesis using fl unfolding loaded_def y3_def [symmetric] r [symmetric] by blast
qed

lemma load_result:
  assumes hw: "flash_ok lay hw" and t: "table_ok base bytes" and f: "flush_fits v bytes"
    and v: "\<forall>b < NUM_BANKS. get_mapblk_vpn b l s = v b + turns (tab_pages bytes) b"
  shows "\<exists>s'. load_dram_metadata_from_mapblk hw l base bytes s = Some s' \<and> loaded v base bytes s (tab_pages bytes) s'"
proof -
  define s' where "s' = fold (load_round hw v base bytes) [0..<tab_rounds bytes] s"
  have "\<forall>c < NUM_BANKS. load_mapblk_vpn l bytes s c = v c + turns 0 c + 1" using load_start [OF f] v by simp
  then have "load_dram_metadata_from_mapblk hw l base bytes s = Some s'"
    using load_loop_fold [OF f t, of 0 _ "load_mapblk_vpn l bytes s" hw s] len_ok_start [of bytes]
    by (simp add: load_dram_metadata_from_mapblk_def s'_def)
  moreover have "loaded v base bytes s (min (tab_pages bytes) (tab_rounds bytes * NUM_BANKS)) s'"
    unfolding s'_def by (rule fold_upt) (use load_round_result [OF hw t f] in \<open>auto simp: loaded_def load_flash_def\<close>)
  moreover have "tab_pages bytes \<le> tab_rounds bytes * NUM_BANKS" using tab_rounds_iff [of "tab_rounds bytes" bytes] by simp
  ultimately show ?thesis by (simp add: min_absorb1)
qed

subsection \<open>The room for a flush\<close>

lemma map_pages: "tab_pages DA_PAGE_MAP_BYTES = 239" "tab_pages (VBLK_AGE_BYTES + VBLK_REGION_BYTES) = 4"
  by (simp_all add: tab_pages_def geom)

lemma map_table_ok: "table_ok DA_PAGE_MAP_ADDR DA_PAGE_MAP_BYTES"
  by (simp add: table_ok_def geom)

lemma map_turns: "b < NUM_BANKS \<Longrightarrow> turns 239 b = (if b < 7 then 30 else 29)"
  by (simp add: turns_total geom)

lemma map_flush_result:
  assumes "\<forall>b < NUM_BANKS. get_mapblk_vpn b 0 s + 30 < VBLKS_PER_BANK * PAGES_PER_VBLK"
  shows "\<exists>s'. flush_dram_metadata_into_mapblk hw 0 DA_PAGE_MAP_ADDR DA_PAGE_MAP_BYTES s = Some s'
    \<and> dcmds s' = dcmds s @ map (\<lambda>k. (FC_COL_ROW_IN_PROG, REAL_BANK (k mod NUM_BANKS), get_mapblk_vpn (k mod NUM_BANKS) 0 s + k div NUM_BANKS + 1)) [0..<239]
    \<and> get_mapblk_vpn 0 0 s' = get_mapblk_vpn 0 0 s + 30"
proof -
  have "flush_fits (\<lambda>b. get_mapblk_vpn b 0 s) DA_PAGE_MAP_BYTES"
    unfolding flush_fits_def map_pages
  proof (intro allI impI)
    fix b assume b: "b < NUM_BANKS"
    have "turns 239 b \<le> 30" using map_turns [OF b] by simp
    moreover have "get_mapblk_vpn b 0 s + 30 < VBLKS_PER_BANK * PAGES_PER_VBLK" using assms b by simp
    ultimately show "get_mapblk_vpn b 0 s + turns 239 b < VBLKS_PER_BANK * PAGES_PER_VBLK" by linarith
  qed
  from flush_result [OF map_table_ok this, of hw] obtain s' where s': "flush_dram_metadata_into_mapblk hw 0 DA_PAGE_MAP_ADDR DA_PAGE_MAP_BYTES s = Some s'" "flush_run 0 s 239 s'"
    unfolding map_pages by blast
  have z: "0 < NUM_BANKS" by (simp add: geom)
  have "get_mapblk_vpn 0 0 s' = get_mapblk_vpn 0 0 s + 30" using flush_run_vpn [OF s'(2) z] map_turns [OF z] by simp
  then show ?thesis using s' by (simp add: flush_run_def flush_row_def)
qed

text \<open>
  C22. \<open>flush_dram_metadata_into_mapblk\<close> never makes room: whatever is left of a map block, a flush of the page map programs its 239 pages
  behind the last one, 30 in bank 0, and sends no other command, so no erase. From page 98 of the map block on its last page in bank 0 is in
  the block that follows, which is the map block of the ages or a data block.
\<close>

theorem flush_never_erases:
  assumes "\<forall>b < NUM_BANKS. get_mapblk_vpn b 0 s + 30 < VBLKS_PER_BANK * PAGES_PER_VBLK"
  shows "\<exists>s'. flush_dram_metadata_into_mapblk hw 0 DA_PAGE_MAP_ADDR DA_PAGE_MAP_BYTES s = Some s'
    \<and> dcmds s' = dcmds s @ map (\<lambda>k. (FC_COL_ROW_IN_PROG, REAL_BANK (k mod NUM_BANKS), get_mapblk_vpn (k mod NUM_BANKS) 0 s + k div NUM_BANKS + 1)) [0..<239]
    \<and> (98 \<le> get_mapblk_vpn 0 0 s mod PAGES_PER_VBLK \<longrightarrow>
         get_mapblk_vpn 0 0 s' div PAGES_PER_VBLK = get_mapblk_vpn 0 0 s div PAGES_PER_VBLK + 1)"
proof -
  have "(v + 30) div 128 = v div 128 + 1" if "98 \<le> v mod 128" for v :: nat
  proof (rule div_nat_eqI)
    define q m where "q = v div 128" and "m = v mod 128"
    have e: "v = 128 * q + m" "98 \<le> m" "m < 128" using that by (simp_all add: q_def m_def)
    have "128 * (q + 1) \<le> v + 30" using e by simp
    then show "128 * (v div 128 + 1) \<le> v + 30" by (simp add: q_def)
    have "v + 30 < 128 * Suc (q + 1)" using e by simp
    then show "v + 30 < 128 * Suc (v div 128 + 1)" by (simp add: q_def)
  qed
  then show ?thesis using map_flush_result [OF assms, of hw] by (auto simp: geom)
qed

definition da_demo :: "nat \<Rightarrow> dstate" where
  "da_demo p = \<lparr>dfl = fstate0, d_misc_meta = (\<lambda>_. \<lparr>da_cur_miscblk_vpn = 128, da_cur_mapblk_vpn = (\<lambda>l. (2 + l) * 128 + p), lpn_list_of_vt_vblock = (\<lambda>i. i),
     da_free_blk_cnt = 10, da_gc_vblock = 4, global_age = 77, region_tbl = (\<lambda>r. \<lparr>rg_cur_write_vpn = (5 + r) * 128, rg_lpn_list = (\<lambda>_. 0), vcount_of_active_vblock = r\<rparr>)\<rparr>),
     d_ftl_statistics = (\<lambda>_. \<lparr>da_gc_cnt = 0, da_page_wcount = 0\<rparr>), g_bsp_isr_flag = (\<lambda>_. 0), d_bad_blk_count = (\<lambda>_. 0)\<rparr>"

lemma demo_mapblk: "get_mapblk_vpn b l (da_demo p) = (2 + l) * 128 + p"
  by (simp add: da_demo_def get_mapblk_vpn_def)

theorem flush_never_erases_witness:
  "\<exists>s'. flush_dram_metadata_into_mapblk hw_ref 0 DA_PAGE_MAP_ADDR DA_PAGE_MAP_BYTES (da_demo 120) = Some s'
    \<and> get_mapblk_vpn 0 0 (da_demo 120) div PAGES_PER_VBLK = 2 \<and> get_mapblk_vpn 0 0 s' div PAGES_PER_VBLK = 3"
proof -
  have "\<forall>b < NUM_BANKS. get_mapblk_vpn b 0 (da_demo 120) + 30 < VBLKS_PER_BANK * PAGES_PER_VBLK"
    by (simp add: demo_mapblk geom)
  from flush_never_erases [OF this, of hw_ref] show ?thesis by (auto simp: demo_mapblk geom)
qed

end
