(* ===== verification/Dac_Recovery.thy ===== *)
theory Dac_Recovery
  imports Dac_Log
begin

text \<open>
  Power-off recovery of the DAC layer (\<open>ftl_flush\<close>, \<open>load_metadata\<close> of \<open>ftl_dac/ftl.c\<close>): the log of the metadata of the banks, the search
  for its last page at the start, and the round trip of everything that \<open>ftl_flush\<close> saves.
\<close>

subsection \<open>Flushing the miscellaneous metadata\<close>

text \<open>
  The page of the misc block that a bank writes next: the one after the last, or the first of the block when that is full. A
  bank is ready when the rest of its misc block is blank.
\<close>

definition next_misc :: "nat \<Rightarrow> nat" where
  "next_misc u = (if (u + 1) div PAGES_PER_VBLK = DA_MISCBLK_VBN then u + 1 else DA_MISCBLK_VBN * PAGES_PER_VBLK)"

definition misc_ready :: "dstate \<Rightarrow> bool" where
  "misc_ready s \<longleftrightarrow> (\<forall>b < NUM_BANKS. get_miscblk_vpn b s div PAGES_PER_VBLK = DA_MISCBLK_VBN
     \<and> (\<forall>r. get_miscblk_vpn b s < r \<and> r div PAGES_PER_VBLK = DA_MISCBLK_VBN \<longrightarrow> dblank s b r))"

definition misc_flushed :: "dac_metadata \<Rightarrow> dac_metadata" where
  "misc_flushed m = m\<lparr>da_cur_miscblk_vpn := next_misc (da_cur_miscblk_vpn m)\<rparr>"

definition misc_bytes :: nat where
  "misc_bytes = (DA_NUM_MISC_META_SECT + DA_NUM_VCOUNT_SECT) * 512"

definition vcount_chunk :: nat where
  "vcount_chunk = DA_NUM_VCOUNT_SECT * 512"

lemma misc_geom: "misc_bytes = 7680" "vcount_chunk = 4608"
  by (simp_all add: misc_bytes_def vcount_chunk_def geom)

text \<open>What the buffer of a bank, and then its page, holds of the metadata \<open>m\<close> and the tables of \<open>s\<close>.\<close>

definition misc_word :: "dstate \<Rightarrow> dac_metadata \<Rightarrow> nat \<Rightarrow> nat \<Rightarrow> u32 \<Rightarrow> bool" where
  "misc_word s m b x w \<longleftrightarrow> (x div 4 < da_sizeof_misc_metadata div 4 \<longrightarrow> w = dac_words m (x div 4))
     \<and> (3072 \<le> x \<longrightarrow> w = ddram s (DA_VCOUNT_ADDR + b * vcount_chunk + (x - 3072)))"

lemma next_misc_block: "u div PAGES_PER_VBLK = DA_MISCBLK_VBN \<Longrightarrow> next_misc u div PAGES_PER_VBLK = DA_MISCBLK_VBN"
  by (simp add: next_misc_def geom)

lemma d_erase:
  assumes hw: "flash_ok lay hw" and b: "b < NUM_BANKS" and v: "v < VBLKS_PER_BANK"
  shows "\<exists>t. dflash_do (nand_block_erase hw b v) s = Some t \<and> ddram t = ddram s \<and> d_misc_meta t = d_misc_meta s
    \<and> (\<forall>c < NUM_BANKS. \<forall>r. \<not> (c = b \<and> r div PAGES_PER_VBLK = v) \<longrightarrow> dpage t c r = dpage s c r) \<and> (\<forall>r. r div PAGES_PER_VBLK = v \<longrightarrow> dblank t b r)"
proof -
  from erase_effect [OF hw b v, of "dfl s"] obtain x where x: "nand_block_erase hw b v (dfl s) = Some x" "dram x = dram (dfl s)"
    and p: "\<forall>c r. if c = REAL_BANK b \<and> r div PAGES_PER_VBLK = v then blank (nand x) c r else pages (nand x) c r = pages (nand (dfl s)) c r" by auto
  have "dpage (s\<lparr>dfl := x\<rparr>) c r = dpage s c r" if "c < NUM_BANKS" "\<not> (c = b \<and> r div PAGES_PER_VBLK = v)" for c r
    using p [rule_format, of "REAL_BANK c" r] that REAL_BANK_inj [OF that(1) b] by (auto simp: dpage_def split: if_splits)
  moreover have "dblank (s\<lparr>dfl := x\<rparr>) b r" if "r div PAGES_PER_VBLK = v" for r
    using p [rule_format, of "REAL_BANK b" r] that by (simp add: dblank_def)
  ultimately show ?thesis using x by (intro exI [of _ "s\<lparr>dfl := x\<rparr>"]) (simp add: dflash_do_def ddram_def)
qed

lemma misc_vpn_simps [simp]:
  "ddram (set_miscblk_vpn b v s) = ddram s" "dpage (set_miscblk_vpn b v s) = dpage s"
  "d_misc_meta (set_miscblk_vpn b v s) = (d_misc_meta s)(b := (d_misc_meta s b)\<lparr>da_cur_miscblk_vpn := v\<rparr>)"
  by (simp_all add: set_miscblk_vpn_def)

lemma dpage_set_miscblk [simp]: "dfl (set_miscblk_vpn b v s) = dfl s"
  by (simp add: set_miscblk_vpn_def)

text \<open>The vpn moves on; a full block is erased.\<close>

lemma misc_next_row:
  assumes hw: "flash_ok lay hw" and b: "b < NUM_BANKS" and u: "get_miscblk_vpn b s div PAGES_PER_VBLK = DA_MISCBLK_VBN"
    and bl: "\<forall>r. get_miscblk_vpn b s < r \<and> r div PAGES_PER_VBLK = DA_MISCBLK_VBN \<longrightarrow> dblank s b r"
  defines "s1 \<equiv> set_miscblk_vpn b (wrap32 (get_miscblk_vpn b s + 1)) s"
  shows "\<exists>t. (if get_miscblk_vpn b s1 div PAGES_PER_VBLK \<noteq> DA_MISCBLK_VBN
       then do { s \<leftarrow> dflash_do (nand_block_erase hw b DA_MISCBLK_VBN) s1; Some (set_miscblk_vpn b (DA_MISCBLK_VBN * PAGES_PER_VBLK) s) }
       else Some s1) = Some t \<and> ddram t = ddram s \<and> d_misc_meta t = (d_misc_meta s)(b := misc_flushed (d_misc_meta s b))
    \<and> (\<forall>c < NUM_BANKS. \<forall>r. c \<noteq> b \<or> r div PAGES_PER_VBLK \<noteq> DA_MISCBLK_VBN \<longrightarrow> dpage t c r = dpage s c r)
    \<and> (\<forall>r. next_misc (get_miscblk_vpn b s) \<le> r \<and> r div PAGES_PER_VBLK = DA_MISCBLK_VBN \<longrightarrow> dblank t b r)"
proof -
  have "get_miscblk_vpn b s < 256"
  proof -
    have "get_miscblk_vpn b s div 128 < 2" using u by (simp add: geom)
    then show ?thesis by simp
  qed
  then have w: "wrap32 (get_miscblk_vpn b s + 1) = get_miscblk_vpn b s + 1" by (simp add: wrap_simps)
  have g1: "get_miscblk_vpn b s1 = get_miscblk_vpn b s + 1" by (simp only: s1_def w) (simp add: get_miscblk_vpn_def)
  have v: "DA_MISCBLK_VBN < VBLKS_PER_BANK" by (simp add: geom)
  show ?thesis
  proof (cases "(get_miscblk_vpn b s + 1) div PAGES_PER_VBLK = DA_MISCBLK_VBN")
    case True
    then have "next_misc (get_miscblk_vpn b s) = get_miscblk_vpn b s + 1" by (simp add: next_misc_def)
    moreover have "d_misc_meta s1 = (d_misc_meta s)(b := misc_flushed (d_misc_meta s b))"
      using calculation w by (simp add: s1_def misc_flushed_def get_miscblk_vpn_def)
    moreover have "dblank s1 b r" if "get_miscblk_vpn b s + 1 \<le> r" "r div PAGES_PER_VBLK = DA_MISCBLK_VBN" for r
      using bl that dblank_cong [of s1 b r s] by (simp add: s1_def)
    ultimately show ?thesis using True g1 by (simp add: s1_def)
  next
    case False
    then have n: "next_misc (get_miscblk_vpn b s) = DA_MISCBLK_VBN * PAGES_PER_VBLK" by (simp add: next_misc_def)
    from d_erase [OF hw b v, of s1] obtain t where t: "dflash_do (nand_block_erase hw b DA_MISCBLK_VBN) s1 = Some t" "ddram t = ddram s1" "d_misc_meta t = d_misc_meta s1"
      "\<forall>c < NUM_BANKS. \<forall>r. \<not> (c = b \<and> r div PAGES_PER_VBLK = DA_MISCBLK_VBN) \<longrightarrow> dpage t c r = dpage s1 c r"
      "\<forall>r. r div PAGES_PER_VBLK = DA_MISCBLK_VBN \<longrightarrow> dblank t b r" by blast
    let ?t = "set_miscblk_vpn b (DA_MISCBLK_VBN * PAGES_PER_VBLK) t"
    have "d_misc_meta ?t = (d_misc_meta s)(b := misc_flushed (d_misc_meta s b))"
      using n by (simp add: t(3) s1_def misc_flushed_def get_miscblk_vpn_def)
    moreover have "dblank ?t b r" if "r div PAGES_PER_VBLK = DA_MISCBLK_VBN" for r
      using t(5) that dblank_cong [of ?t b r t] by simp
    ultimately show ?thesis using False g1 t by (intro exI [of _ ?t]) (auto simp: s1_def)
  qed
qed

definition misc_inv :: "dstate \<Rightarrow> nat \<Rightarrow> dstate \<Rightarrow> bool" where
  "misc_inv s k y \<longleftrightarrow> (\<forall>b < NUM_BANKS. d_misc_meta y b = (if b < k then misc_flushed (d_misc_meta s b) else d_misc_meta s b))
     \<and> (\<forall>a. outside_buf a \<longrightarrow> ddram y a = ddram s a)
     \<and> (\<forall>b < k. \<forall>x < misc_bytes. misc_word s (misc_flushed (d_misc_meta s b)) b x (ddram y (DA_FTL_BUF b + x)))
     \<and> (\<forall>b < NUM_BANKS. \<forall>r. k \<le> b \<or> r div PAGES_PER_VBLK \<noteq> DA_MISCBLK_VBN \<longrightarrow> dpage y b r = dpage s b r)
     \<and> (\<forall>b < k. \<forall>r. next_misc (get_miscblk_vpn b s) \<le> r \<and> r div PAGES_PER_VBLK = DA_MISCBLK_VBN \<longrightarrow> dblank y b r)"

lemma flush_misc_bank_result:
  assumes hw: "flash_ok lay hw" and k: "k < NUM_BANKS" and rd: "misc_ready s" and y: "misc_inv s k y"
  shows "\<exists>y'. flush_misc_bank hw rest k (DA_VCOUNT_ADDR + k * vcount_chunk, y) = Some (DA_VCOUNT_ADDR + Suc k * vcount_chunk, y') \<and> misc_inv s (Suc k) y'"
proof -
  note Y = y [unfolded misc_inv_def]
  have m: "d_misc_meta y k = d_misc_meta s k" using Y k by simp
  then have vk: "get_miscblk_vpn k y = get_miscblk_vpn k s" by (simp add: get_miscblk_vpn_def)
  have u: "get_miscblk_vpn k y div PAGES_PER_VBLK = DA_MISCBLK_VBN" using rd k vk by (simp add: misc_ready_def)
  have bl: "\<forall>r. get_miscblk_vpn k y < r \<and> r div PAGES_PER_VBLK = DA_MISCBLK_VBN \<longrightarrow> dblank y k r"
  proof (intro allI impI)
    fix r assume r: "get_miscblk_vpn k y < r \<and> r div PAGES_PER_VBLK = DA_MISCBLK_VBN"
    have "dpage y k r = dpage s k r" using Y k by simp
    moreover have "dblank s k r" using rd k r vk by (simp add: misc_ready_def)
    ultimately show "dblank y k r" using dblank_cong [of y k r s] by simp
  qed
  from misc_next_row [OF hw k u bl] obtain t where t: "(if get_miscblk_vpn k (set_miscblk_vpn k (wrap32 (get_miscblk_vpn k y + 1)) y) div PAGES_PER_VBLK \<noteq> DA_MISCBLK_VBN
       then do { s \<leftarrow> dflash_do (nand_block_erase hw k DA_MISCBLK_VBN) (set_miscblk_vpn k (wrap32 (get_miscblk_vpn k y + 1)) y);
                 Some (set_miscblk_vpn k (DA_MISCBLK_VBN * PAGES_PER_VBLK) s) }
       else Some (set_miscblk_vpn k (wrap32 (get_miscblk_vpn k y + 1)) y)) = Some t"
    and T: "ddram t = ddram y" "d_misc_meta t = (d_misc_meta y)(k := misc_flushed (d_misc_meta s k))"
    "\<And>c r. c < NUM_BANKS \<Longrightarrow> c \<noteq> k \<or> r div PAGES_PER_VBLK \<noteq> DA_MISCBLK_VBN \<Longrightarrow> dpage t c r = dpage y c r"
    "\<And>r. next_misc (get_miscblk_vpn k s) \<le> r \<Longrightarrow> r div PAGES_PER_VBLK = DA_MISCBLK_VBN \<Longrightarrow> dblank t k r"
    unfolding m vk by blast
  define buf where "buf = DA_FTL_BUF k"
  note B = da_ftl_buf [OF k, folded buf_def]
  define d1 where "d1 = (\<lambda>a. if buf \<le> a \<and> a < buf + 3072 then dac_meta_array rest t k ((a - buf) div 4) else ddram t a)"
  define d2 where "d2 = (\<lambda>a. if buf + 3072 \<le> a \<and> a < buf + 3072 + vcount_chunk then d1 (DA_VCOUNT_ADDR + k * vcount_chunk + (a - (buf + 3072))) else d1 a)"
  have k7: "k \<le> 7" using k by (simp add: geom)
  have N: "DA_NUM_MISC_META_SECT * BYTES_PER_SECTOR = 3072" "DA_NUM_VCOUNT_SECT * BYTES_PER_SECTOR = vcount_chunk" by (simp_all add: misc_geom geom)
  have sd: "sram_to_dram buf (dac_meta_array rest t k) 3072 (ddram t) = Some d1"
    using B(2) by (simp add: sram_to_dram_def d1_def MU_MAX_BYTES_def)
  have al: "(DA_VCOUNT_ADDR + k * vcount_chunk) mod 4 = 0" "(buf + 3072) mod 4 = 0"
    using B(2) by (auto simp: misc_geom geom mod_eq_0_iff_dvd)
  have mv: "dram_move (buf + 3072) (DA_VCOUNT_ADDR + k * vcount_chunk) vcount_chunk d1 = Some d2"
  proof -
    have "vcount_chunk mod 4 = 0" "vcount_chunk \<le> MU_MAX_BYTES" "vcount_chunk mod DRAM_ECC_UNIT = 0"
      by (simp_all add: misc_geom MU_MAX_BYTES_def DRAM_ECC_UNIT_def)
    then show ?thesis using al by (simp add: dram_move_def d2_def)
  qed
  have ge: "DA_VCOUNT_ADDR + k * vcount_chunk \<le> DA_VCOUNT_ADDR + DA_VCOUNT_BYTES" using k7 by (simp add: misc_geom geom)
  define y' where "y' = set_ddram d2 (set_ddram d1 t)"
  have run: "flush_misc_bank hw rest k (DA_VCOUNT_ADDR + k * vcount_chunk, y) = Some (DA_VCOUNT_ADDR + Suc k * vcount_chunk, y')"
    unfolding flush_misc_bank_def Let_def prod.case t bind.bind_lunit N buf_def [symmetric] sd
    using ge by (simp add: mv y'_def)
  have y': "ddram y' = d2" "d_misc_meta y' = d_misc_meta t" "dpage y' = dpage t" by (simp_all add: y'_def)
  have far: "DA_BAD_BLK_BMP_ADDR \<le> DA_VCOUNT_ADDR + k * vcount_chunk" by (simp add: geom)
  have d1o: "d1 a = ddram y a" if "a < buf \<or> buf + BYTES_PER_PAGE \<le> a" for a
    using that by (auto simp: d1_def T(1) geom)
  have d2o: "d2 a = ddram y a" if "a < buf \<or> buf + BYTES_PER_PAGE \<le> a" for a
    using that d1o [OF that] by (auto simp: d2_def misc_geom geom)
  have out: "d2 a = ddram s a" if "outside_buf a" for a
  proof -
    have "a < buf \<or> buf + BYTES_PER_PAGE \<le> a" using that B(3,4) by (auto simp: outside_buf_def)
    then show ?thesis using d2o Y that by simp
  qed
  have wk: "misc_word s (misc_flushed (d_misc_meta s k)) k x (d2 (buf + x))" if x: "x < misc_bytes" for x
  proof -
    have "d2 (buf + x) = ddram s (DA_VCOUNT_ADDR + k * vcount_chunk + (x - 3072))" if "3072 \<le> x"
    proof -
      have o: "outside_buf (DA_VCOUNT_ADDR + k * vcount_chunk + (x - 3072))" by (simp add: outside_buf_def geom)
      have "buf + BYTES_PER_PAGE \<le> DA_VCOUNT_ADDR + k * vcount_chunk + (x - 3072)" using B(3) far by simp
      then have "d1 (DA_VCOUNT_ADDR + k * vcount_chunk + (x - 3072)) = ddram s (DA_VCOUNT_ADDR + k * vcount_chunk + (x - 3072))"
        using d1o Y o by simp
      then show ?thesis using that x by (simp add: d2_def misc_geom)
    qed
    moreover have "d2 (buf + x) = dac_words (misc_flushed (d_misc_meta s k)) (x div 4)" if "x div 4 < da_sizeof_misc_metadata div 4"
    proof -
      have "x < 2616" using that by (simp add: geom)
      then have "d2 (buf + x) = dac_meta_array rest t k (x div 4)" by (simp add: d2_def d1_def)
      then show ?thesis using that k by (simp add: dac_meta_array_def Let_def T(2))
    qed
    ultimately show ?thesis by (simp add: misc_word_def)
  qed
  have "misc_inv s (Suc k) y'"
    unfolding misc_inv_def y'
  proof (intro conjI allI impI)
    fix b assume "b < NUM_BANKS"
    then show "d_misc_meta t b = (if b < Suc k then misc_flushed (d_misc_meta s b) else d_misc_meta s b)"
      using Y by (auto simp: T(2) less_Suc_eq)
  next
    fix a assume "outside_buf a"
    then show "d2 a = ddram s a" by (rule out)
  next
    fix b x assume b: "b < Suc k" and x: "x < misc_bytes"
    show "misc_word s (misc_flushed (d_misc_meta s b)) b x (d2 (DA_FTL_BUF b + x))"
    proof (cases "b = k")
      case True
      then show ?thesis using wk [OF x] by (simp add: buf_def)
    next
      case False
      then have "DA_FTL_BUF b + x < buf \<or> buf + BYTES_PER_PAGE \<le> DA_FTL_BUF b + x"
        unfolding buf_def using x by (intro da_bufs_apart) (simp_all add: misc_geom geom)
      then show ?thesis using d2o Y b False x by simp
    qed
  next
    fix b r assume b: "b < NUM_BANKS" and "Suc k \<le> b \<or> r div PAGES_PER_VBLK \<noteq> DA_MISCBLK_VBN"
    then have q: "b \<noteq> k \<or> r div PAGES_PER_VBLK \<noteq> DA_MISCBLK_VBN" "k \<le> b \<or> r div PAGES_PER_VBLK \<noteq> DA_MISCBLK_VBN" by auto
    have "dpage y b r = dpage s b r" using Y b q(2) by blast
    then show "dpage t b r = dpage s b r" using T(3) [OF b q(1)] by simp
  next
    fix b r assume b: "b < Suc k" and r: "next_misc (get_miscblk_vpn b s) \<le> r \<and> r div PAGES_PER_VBLK = DA_MISCBLK_VBN"
    have "dblank t b r"
    proof (cases "b = k")
      case True
      then show ?thesis using T(4) r by simp
    next
      case False
      then have bk: "b < k" "b < NUM_BANKS" using b k by simp_all
      then have "dblank y b r" using Y r by simp
      moreover have "dpage t b r = dpage y b r" using T(3) [OF bk(2)] False by simp
      ultimately show ?thesis using dblank_cong [of t b r y] by simp
    qed
    then show "dblank y' b r" using dblank_cong [of y' b r t] y'(3) by simp
  qed
  with run show ?thesis by blast
qed

text \<open>The flash after the flush: the misc page of a bank holds its metadata and its part of the counts.\<close>

definition misc_done :: "dstate \<Rightarrow> nat \<Rightarrow> dstate \<Rightarrow> bool" where
  "misc_done s k y \<longleftrightarrow> (\<forall>b < NUM_BANKS. d_misc_meta y b = misc_flushed (d_misc_meta s b))
     \<and> (\<forall>a. outside_buf a \<longrightarrow> ddram y a = ddram s a)
     \<and> (\<forall>b < NUM_BANKS. \<forall>x < misc_bytes. misc_word s (misc_flushed (d_misc_meta s b)) b x (ddram y (DA_FTL_BUF b + x)))
     \<and> (\<forall>b < k. \<forall>x < misc_bytes. misc_word s (misc_flushed (d_misc_meta s b)) b x (dpage y b (next_misc (get_miscblk_vpn b s)) x))
     \<and> (\<forall>b < NUM_BANKS. \<forall>r. r div PAGES_PER_VBLK \<noteq> DA_MISCBLK_VBN \<longrightarrow> dpage y b r = dpage s b r)
     \<and> (\<forall>b < NUM_BANKS. \<forall>r. next_misc (get_miscblk_vpn b s) + (if b < k then 1 else 0) \<le> r \<and> r div PAGES_PER_VBLK = DA_MISCBLK_VBN \<longrightarrow> dblank y b r)"

lemma flush_misc_program_result:
  assumes hw: "flash_ok lay hw" and k: "k < NUM_BANKS" and rd: "misc_ready s" and y: "misc_done s k y"
  shows "\<exists>y'. flush_misc_program hw k y = Some y' \<and> misc_done s (Suc k) y'"
proof -
  note Y = y [unfolded misc_done_def]
  define row where "row = next_misc (get_miscblk_vpn k s)"
  define buf where "buf = DA_FTL_BUF k"
  note B = da_ftl_buf [OF k, folded buf_def]
  have g: "get_miscblk_vpn k y = row" using Y k by (simp add: get_miscblk_vpn_def misc_flushed_def row_def)
  have rb: "row div PAGES_PER_VBLK = DA_MISCBLK_VBN" using rd k by (simp add: row_def misc_ready_def next_misc_block)
  then have "row div 128 = 1" by (simp add: geom)
  then have "row < 256" by linarith
  moreover have "256 \<le> VBLKS_PER_BANK * PAGES_PER_VBLK" by (simp add: geom)
  ultimately have rl: "row < VBLKS_PER_BANK * PAGES_PER_VBLK" by linarith
  have n: "(DA_NUM_MISC_META_SECT + DA_NUM_VCOUNT_SECT) * 512 = misc_bytes" "misc_bytes \<le> BYTES_PER_PAGE" by (simp_all add: misc_bytes_def geom)
  define y' where "y' = on_dfl (prog_page hw k row (DA_NUM_MISC_META_SECT + DA_NUM_VCOUNT_SECT) buf) y"
  have run: "flush_misc_program hw k y = Some y'"
    unfolding flush_misc_program_def g y'_def buf_def by (rule d_ptprogram [OF k rl])
  have "dblank y k row" using Y k rb by (simp add: row_def)
  then have bl: "blank (nand (dfl y)) (REAL_BANK k) row" by (simp add: dblank_def)
  have le: "(DA_NUM_MISC_META_SECT + DA_NUM_VCOUNT_SECT) * 512 \<le> BYTES_PER_PAGE" using n by simp
  note P = prog_page_effect [OF hw bl le B(1), unfolded n]
  have y': "ddram y' = ddram y" "d_misc_meta y' = d_misc_meta y" using P(1) by (simp_all add: y'_def ddram_def)
  have o: "dpage y' c q = dpage y c q" if "c < NUM_BANKS" "(c, q) \<noteq> (k, row)" for c q
    using P(2) that REAL_BANK_inj [OF that(1) k] by (auto simp: only_page_def dpage_def y'_def fun_eq_iff)
  have w: "dpage y' k row x = ddram y (buf + x)" if "x < misc_bytes" for x
    using P(3) [OF that] by (simp add: dpage_def y'_def ddram_def)
  have "misc_done s (Suc k) y'"
    unfolding misc_done_def y'
  proof (intro conjI)
    show "\<forall>b < Suc k. \<forall>x < misc_bytes. misc_word s (misc_flushed (d_misc_meta s b)) b x (dpage y' b (next_misc (get_miscblk_vpn b s)) x)"
    proof (intro allI impI)
      fix b x assume b: "b < Suc k" and x: "x < misc_bytes"
      show "misc_word s (misc_flushed (d_misc_meta s b)) b x (dpage y' b (next_misc (get_miscblk_vpn b s)) x)"
      proof (cases "b = k")
        case True
        then show ?thesis using w [OF x] Y k x by (simp add: row_def buf_def)
      next
        case False
        then have "b < k" "b < NUM_BANKS" "(b, next_misc (get_miscblk_vpn b s)) \<noteq> (k, row)" using b k by auto
        then show ?thesis using o [of b "next_misc (get_miscblk_vpn b s)"] Y x by simp
      qed
    qed
    show "\<forall>b < NUM_BANKS. \<forall>r. r div PAGES_PER_VBLK \<noteq> DA_MISCBLK_VBN \<longrightarrow> dpage y' b r = dpage s b r"
    proof (intro allI impI)
      fix b r assume b: "b < NUM_BANKS" "r div PAGES_PER_VBLK \<noteq> DA_MISCBLK_VBN"
      have "(b, r) \<noteq> (k, row)" using b(2) rb by auto
      then show "dpage y' b r = dpage s b r" using o [OF b(1)] Y b by simp
    qed
    show "\<forall>b < NUM_BANKS. \<forall>r. next_misc (get_miscblk_vpn b s) + (if b < Suc k then 1 else 0) \<le> r \<and> r div PAGES_PER_VBLK = DA_MISCBLK_VBN \<longrightarrow> dblank y' b r"
    proof (intro allI impI)
      fix b r assume b: "b < NUM_BANKS" and r: "next_misc (get_miscblk_vpn b s) + (if b < Suc k then 1 else 0) \<le> r \<and> r div PAGES_PER_VBLK = DA_MISCBLK_VBN"
      have "(b, r) \<noteq> (k, row)" using r by (auto simp: row_def)
      then have "dpage y' b r = dpage y b r" by (rule o [OF b])
      moreover have "dblank y b r" using Y b r by (auto split: if_splits)
      ultimately show "dblank y' b r" using dblank_cong [of y' b r y] by simp
    qed
  qed (use Y in blast)+
  with run show ?thesis by blast
qed

lemma flush_misc_result:
  assumes hw: "flash_ok lay hw" and rd: "misc_ready s"
  shows "\<exists>s'. flush_misc_metadata hw rest s = Some s' \<and> misc_done s NUM_BANKS s'"
proof -
  have vc: "d_misc_meta (on_dfl flash_finish s) = d_misc_meta s" "ddram (on_dfl flash_finish s) = ddram s" by (simp_all add: ddram_def)
  have "\<exists>x'. each (flush_misc_bank hw rest) [0..<NUM_BANKS] (DA_VCOUNT_ADDR, on_dfl flash_finish s) = Some x'
    \<and> (fst x' = DA_VCOUNT_ADDR + NUM_BANKS * vcount_chunk \<and> misc_inv s NUM_BANKS (snd x'))"
  proof (rule each_upt)
    fix k x assume k: "k < NUM_BANKS" and x: "fst x = DA_VCOUNT_ADDR + k * vcount_chunk \<and> misc_inv s k (snd x)"
    then have e: "x = (DA_VCOUNT_ADDR + k * vcount_chunk, snd x)" by (simp add: prod_eq_iff)
    from flush_misc_bank_result [OF hw k rd, of "snd x" rest] x obtain y' where
      "flush_misc_bank hw rest k (DA_VCOUNT_ADDR + k * vcount_chunk, snd x) = Some (DA_VCOUNT_ADDR + Suc k * vcount_chunk, y')" "misc_inv s (Suc k) y'" by blast
    then show "\<exists>x'. flush_misc_bank hw rest k x = Some x' \<and> (fst x' = DA_VCOUNT_ADDR + Suc k * vcount_chunk \<and> misc_inv s (Suc k) (snd x'))"
      using e by (metis fst_conv snd_conv)
  next
    show "fst (DA_VCOUNT_ADDR, on_dfl flash_finish s) = DA_VCOUNT_ADDR + 0 * vcount_chunk \<and> misc_inv s 0 (snd (DA_VCOUNT_ADDR, on_dfl flash_finish s))"
      by (simp add: misc_inv_def ddram_def)
  qed simp
  then obtain z where z: "each (flush_misc_bank hw rest) [0..<NUM_BANKS] (DA_VCOUNT_ADDR, on_dfl flash_finish s) = Some (DA_VCOUNT_ADDR + NUM_BANKS * vcount_chunk, z)"
    "misc_inv s NUM_BANKS z" by (metis prod.collapse)
  have "misc_done s 0 z" using z(2) by (auto simp: misc_done_def misc_inv_def)
  then have "\<exists>x'. each (flush_misc_program hw) [0..<NUM_BANKS] z = Some x' \<and> misc_done s NUM_BANKS x'"
    by (intro each_upt) (use flush_misc_program_result [OF hw _ rd] in auto)
  then obtain w where w: "each (flush_misc_program hw) [0..<NUM_BANKS] z = Some w" "misc_done s NUM_BANKS w" by blast
  have "dblank (on_dfl flash_finish w) b r = dblank w b r" for b r by (simp add: dblank_def)
  then have "misc_done s NUM_BANKS (on_dfl flash_finish w)" using w(2) by (simp add: misc_done_def ddram_def)
  then show ?thesis unfolding flush_misc_metadata_def by (simp add: z(1) w(1))
qed

subsection \<open>The flag of a page that is all ones\<close>

text \<open>
  \<open>BSP_INTR(bank)\<close> has \<open>FIRQ_ALL_FF\<close> set by a read of a page of ones. \<open>read_of\<close> is the last command of a bank, if it was a read
  and no flag of that bank has been cleared since (\<open>CLR_BSP_INTR\<close> writes one byte of a word of four banks).
\<close>

fun flag_event :: "nat \<Rightarrow> flash_event \<Rightarrow> fcp_t option \<Rightarrow> fcp_t option" where
  "flag_event rb (Issue f) acc = (if fcp_bank f = rb then if fcp_cmd f = FC_COL_ROW_READ_OUT then Some f else None else acc)"
| "flag_event rb (Set_Reg (BSP_INTR_WORD w) v) acc = (if w = rb div 4 * 4 \<and> v div 2 ^ (rb mod 4 * 8) mod 256 \<noteq> 0 then None else acc)"
| "flag_event rb _ acc = acc"

definition read_of :: "nat \<Rightarrow> flash_event list \<Rightarrow> fcp_t option" where
  "read_of rb es = fold (flag_event rb) es None"

text \<open>What the load relies on: a page of ones raises the flag, and a read that finds another word does not.\<close>

definition all_ff_ok :: "bsp_regs \<Rightarrow> bool" where
  "all_ff_ok bsp \<longleftrightarrow> (\<forall>f b c. b < NUM_BANKS \<and> read_of (REAL_BANK b) (trace f) = Some c \<longrightarrow>
     (blank (nand f) (REAL_BANK b) (fcp_row_l c (REAL_BANK b)) \<longrightarrow> bsp f b AND FIRQ_ALL_FF \<noteq> 0)
     \<and> ((\<exists>x < BYTES_PER_PAGE. dma_range c x \<and> pages (nand f) (REAL_BANK b) (fcp_row_l c (REAL_BANK b)) x \<noteq> 0xFFFFFFFF) \<longrightarrow> bsp f b AND FIRQ_ALL_FF = 0))"

definition bsp_ref :: bsp_regs where
  "bsp_ref f b = (case read_of (REAL_BANK b) (trace f) of None \<Rightarrow> 0
     | Some c \<Rightarrow> if blank (nand f) (REAL_BANK b) (fcp_row_l c (REAL_BANK b)) then FIRQ_ALL_FF else 0)"

lemma bsp_ref_ok: "all_ff_ok bsp_ref"
  by (auto simp: all_ff_ok_def bsp_ref_def blank_def FIRQ_ALL_FF_def)

lemma read_of_finish [simp]: "read_of rb (trace (flash_finish f)) = read_of rb (trace f)"
  by (simp add: read_of_def)

lemma read_of_load:
  assumes "b < NUM_BANKS" and "c < NUM_BANKS"
  shows "read_of (REAL_BANK c) (trace (load_page hw RETURN_ON_ISSUE b r n a f))
    = (if c = b then Some (fcp (load_page hw RETURN_ON_ISSUE b r n a f)) else read_of (REAL_BANK c) (trace f))"
  using REAL_BANK_inj [OF assms] by (auto simp: load_page_def flash_issue_cmd_fields sync_events_def read_of_def)

lemma load_page_fcp:
  "fcp_row_l (fcp (load_page hw sync b r n a f)) (REAL_BANK b) = r" "dma_range (fcp (load_page hw sync b r n a f)) x \<longleftrightarrow> x < n * 512"
  by (simp_all add: load_page_def flash_issue_cmd_fields dma_range_def setup_fcp_def set_fcp_def)

lemma clr_byte:
  assumes "m < 4" and "n < 4" and "m \<noteq> n"
  shows "(255 * 2 ^ (m * 8)) div 2 ^ (n * 8) mod 256 = (0 :: nat)"
proof -
  have "m = 0 \<or> m = 1 \<or> m = 2 \<or> m = 3" "n = 0 \<or> n = 1 \<or> n = 2 \<or> n = 3" using assms(1,2) by linarith+
  then show ?thesis using assms(3) by (elim disjE) simp_all
qed

lemma read_of_clr:
  assumes "b < NUM_BANKS" and "c < NUM_BANKS" and "c \<noteq> b"
  shows "read_of (REAL_BANK c) (trace (dfl (da_clr_bsp_intr b 0xFF s))) = read_of (REAL_BANK c) (trace (dfl s))"
proof -
  define rb rc where "rb = REAL_BANK b" and "rc = REAL_BANK c"
  have ne: "rb \<noteq> rc" using REAL_BANK_inj [OF assms(1,2)] assms(3) by (simp add: rb_def rc_def)
  have "\<not> (rb div 4 * 4 = rc div 4 * 4 \<and> (255 :: nat) * 2 ^ (rb mod 4 * 8) div 2 ^ (rc mod 4 * 8) mod 256 \<noteq> 0)"
  proof
    assume a: "rb div 4 * 4 = rc div 4 * 4 \<and> (255 :: nat) * 2 ^ (rb mod 4 * 8) div 2 ^ (rc mod 4 * 8) mod 256 \<noteq> 0"
    have "rb mod 4 \<noteq> rc mod 4"
    proof
      assume "rb mod 4 = rc mod 4"
      with a have "rb = rc" by (metis div_mult_mod_eq)
      with ne show False by simp
    qed
    then show False using clr_byte [of "rb mod 4" "rc mod 4"] a by simp
  qed
  then show ?thesis by (auto simp: da_clr_bsp_intr_def read_of_def rb_def rc_def SETREG_def log_def)
qed

lemma clr_fields [simp]:
  "ddram (da_clr_bsp_intr b v s) = ddram s" "d_misc_meta (da_clr_bsp_intr b v s) = d_misc_meta s" "dpage (da_clr_bsp_intr b v s) = dpage s"
  "nand (dfl (da_clr_bsp_intr b v s)) = nand (dfl s)"
  by (simp_all add: da_clr_bsp_intr_def SETREG_def log_def ddram_def dpage_def fun_eq_iff)

subsection \<open>Loading the miscellaneous metadata\<close>

text \<open>The offset of the page of the misc block that counts, that is the last one that is not blank.\<close>

definition misc_top :: "dstate \<Rightarrow> (nat \<Rightarrow> nat) \<Rightarrow> bool" where
  "misc_top s u \<longleftrightarrow> (\<forall>b < NUM_BANKS. u b < PAGES_PER_VBLK
     \<and> (\<exists>x < misc_bytes. dpage s b (DA_MISCBLK_VBN * PAGES_PER_VBLK + u b) x \<noteq> 0xFFFFFFFF)
     \<and> (\<forall>p < PAGES_PER_VBLK. u b < p \<longrightarrow> dblank s b (DA_MISCBLK_VBN * PAGES_PER_VBLK + p)))"

definition misc_view :: "dstate \<Rightarrow> dstate \<Rightarrow> bool" where
  "misc_view s y \<longleftrightarrow> load_flash s y \<and> (\<forall>a < 4294967296. outside_buf a \<longrightarrow> ddram y a = ddram s a)"

text \<open>After the pages from \<open>p\<close> on: the banks whose page is among them have it in their buffers.\<close>

definition misc_scan :: "dstate \<Rightarrow> (nat \<Rightarrow> nat) \<Rightarrow> nat \<Rightarrow> u32 \<times> nat \<times> dstate \<Rightarrow> bool" where
  "misc_scan s u p x \<longleftrightarrow> (case x of (flag, load_cnt, y) \<Rightarrow> misc_view s y \<and> (\<forall>b < NUM_BANKS. bit flag b \<longleftrightarrow> p \<le> u b)
     \<and> load_cnt = card {b. b < NUM_BANKS \<and> p \<le> u b}
     \<and> (\<forall>b < NUM_BANKS. p \<le> u b \<longrightarrow> (\<forall>x < misc_bytes. ddram y (DA_FTL_BUF b + x) = dpage s b (DA_MISCBLK_VBN * PAGES_PER_VBLK + u b) x)))"

definition misc_read :: "flash_hw \<Rightarrow> nat \<Rightarrow> u32 \<Rightarrow> nat \<Rightarrow> dstate \<Rightarrow> dstate" where
  "misc_read hw p flag b s = (if bit flag b then s
     else on_dfl (load_page hw RETURN_ON_ISSUE b (DA_MISCBLK_VBN * PAGES_PER_VBLK + p) (DA_NUM_MISC_META_SECT + DA_NUM_VCOUNT_SECT) (DA_FTL_BUF b)) s)"

lemma misc_read_eq:
  assumes "b < NUM_BANKS" and "p < PAGES_PER_VBLK"
  shows "da_load_misc_read hw p flag b s = Some (misc_read hw p flag b s)"
proof -
  have "DA_MISCBLK_VBN * PAGES_PER_VBLK + p < VBLKS_PER_BANK * PAGES_PER_VBLK" using assms(2) by (simp add: geom)
  note r = d_ptread [OF assms(1) this, of hw "DA_NUM_MISC_META_SECT + DA_NUM_VCOUNT_SECT" "DA_FTL_BUF b" RETURN_ON_ISSUE s]
  have "(DA_MISCBLK_VBN * PAGES_PER_VBLK + p) div PAGES_PER_VBLK = DA_MISCBLK_VBN" "(DA_MISCBLK_VBN * PAGES_PER_VBLK + p) mod PAGES_PER_VBLK = p"
    using assms(2) by (simp_all add: geom)
  with r show ?thesis by (simp add: da_load_misc_read_def misc_read_def)
qed

text \<open>The reads of page \<open>p\<close>: the buffers of the banks that are still searching, and the flags they will find.\<close>

lemma misc_reads:
  assumes hw: "flash_ok lay hw" and p: "p < PAGES_PER_VBLK" and n: "n \<le> NUM_BANKS"
  shows "\<exists>y'. each (da_load_misc_read hw p flag) [0..<n] y = Some y' \<and> misc_view y y'
    \<and> (\<forall>b < NUM_BANKS. bit flag b \<or> n \<le> b \<longrightarrow> (\<forall>x < misc_bytes. ddram y' (DA_FTL_BUF b + x) = ddram y (DA_FTL_BUF b + x)))
    \<and> (\<forall>b < n. \<not> bit flag b \<longrightarrow> (\<forall>x < misc_bytes. ddram y' (DA_FTL_BUF b + x) = dpage y b (DA_MISCBLK_VBN * PAGES_PER_VBLK + p) x)
         \<and> (\<exists>c. read_of (REAL_BANK b) (trace (dfl y')) = Some c \<and> fcp_row_l c (REAL_BANK b) = DA_MISCBLK_VBN * PAGES_PER_VBLK + p
              \<and> (\<forall>x. dma_range c x \<longleftrightarrow> x < misc_bytes)))"
  using n
proof (induction n)
  case 0
  then show ?case by (simp add: misc_view_def load_flash_def)
next
  case (Suc n)
  then have n: "n < NUM_BANKS" by simp
  from Suc obtain z where z: "each (da_load_misc_read hw p flag) [0..<n] y = Some z" "misc_view y z"
    "\<forall>b < NUM_BANKS. bit flag b \<or> n \<le> b \<longrightarrow> (\<forall>x < misc_bytes. ddram z (DA_FTL_BUF b + x) = ddram y (DA_FTL_BUF b + x))"
    "\<forall>b < n. \<not> bit flag b \<longrightarrow> (\<forall>x < misc_bytes. ddram z (DA_FTL_BUF b + x) = dpage y b (DA_MISCBLK_VBN * PAGES_PER_VBLK + p) x)
         \<and> (\<exists>c. read_of (REAL_BANK b) (trace (dfl z)) = Some c \<and> fcp_row_l c (REAL_BANK b) = DA_MISCBLK_VBN * PAGES_PER_VBLK + p
              \<and> (\<forall>x. dma_range c x \<longleftrightarrow> x < misc_bytes))" by auto
  have run: "each (da_load_misc_read hw p flag) [0..<Suc n] y = Some (misc_read hw p flag n z)"
    by (simp add: each_append z(1) misc_read_eq [OF n p])
  show ?case
  proof (cases "bit flag n")
    case True
    then show ?thesis unfolding run using z by (auto simp: misc_read_def less_Suc_eq)
  next
    case False
    define row where "row = DA_MISCBLK_VBN * PAGES_PER_VBLK + p"
    define f where "f = load_page hw RETURN_ON_ISSUE n row (DA_NUM_MISC_META_SECT + DA_NUM_VCOUNT_SECT) (DA_FTL_BUF n) (dfl z)"
    define y' where "y' = misc_read hw p flag n z"
    have fy: "dfl y' = f" "d_misc_meta y' = d_misc_meta z" using False by (simp_all add: y'_def misc_read_def f_def row_def)
    have mb: "(DA_NUM_MISC_META_SECT + DA_NUM_VCOUNT_SECT) * 512 = misc_bytes" "misc_bytes \<le> BYTES_PER_PAGE" by (simp_all add: misc_bytes_def geom)
    have le: "(DA_NUM_MISC_META_SECT + DA_NUM_VCOUNT_SECT) * 512 \<le> BYTES_PER_PAGE" using mb by simp
    note B = da_ftl_buf [OF n]
    note P = load_page_effect [OF hw le B(1), where sync = RETURN_ON_ISSUE and b = n and r = row and f = "dfl z", folded f_def, unfolded mb(1)]
    have pg: "dpage y' = dpage z" using P(1) by (simp add: dpage_def fy fun_eq_iff)
    have dr: "ddram y' a = ddram z a" if "a < 4294967296" "a < DA_FTL_BUF n \<or> DA_FTL_BUF n + misc_bytes \<le> a" for a
      using P(3) [OF that] by (simp add: ddram_def fy)
    have "misc_view z y'" using pg fy(2) dr B(3,4) mb(2) by (auto simp: misc_view_def load_flash_def outside_buf_def)
    then have v: "misc_view y y'" using z(2) by (simp add: misc_view_def load_flash_def)
    have other: "ddram y' (DA_FTL_BUF b + x) = ddram z (DA_FTL_BUF b + x)" if "b < NUM_BANKS" "b \<noteq> n" "x < misc_bytes" for b x
    proof (rule dr)
      show "DA_FTL_BUF b + x < 4294967296" using da_ftl_buf(1) [OF that(1)] that(3) mb(2) by (simp add: buf_ok_def)
      show "DA_FTL_BUF b + x < DA_FTL_BUF n \<or> DA_FTL_BUF n + misc_bytes \<le> DA_FTL_BUF b + x"
        using that mb(2) by (intro da_bufs_apart) simp_all
    qed
    have py: "dpage z = dpage y" using z(2) by (simp add: misc_view_def load_flash_def)
    have own: "ddram y' (DA_FTL_BUF n + x) = dpage y n row x" if "x < misc_bytes" for x
      using P(2) [OF that] by (simp add: ddram_def fy dpage_def py [symmetric])
    have rd: "read_of (REAL_BANK b) (trace (dfl y')) = (if b = n then Some (fcp f) else read_of (REAL_BANK b) (trace (dfl z)))" if "b < NUM_BANKS" for b
      using read_of_load [OF n that] by (simp add: fy f_def)
    have "\<exists>c. read_of (REAL_BANK n) (trace (dfl y')) = Some c \<and> fcp_row_l c (REAL_BANK n) = row \<and> (\<forall>x. dma_range c x \<longleftrightarrow> x < misc_bytes)"
      using rd [OF n] load_page_fcp mb(1) by (simp add: f_def)
    moreover have "\<forall>b < NUM_BANKS. bit flag b \<or> Suc n \<le> b \<longrightarrow> (\<forall>x < misc_bytes. ddram y' (DA_FTL_BUF b + x) = ddram y (DA_FTL_BUF b + x))"
    proof (intro allI impI)
      fix b x assume b: "b < NUM_BANKS" "bit flag b \<or> Suc n \<le> b" and x: "x < misc_bytes"
      then have "b \<noteq> n" "bit flag b \<or> n \<le> b" using False by auto
      then have "ddram z (DA_FTL_BUF b + x) = ddram y (DA_FTL_BUF b + x)" "b \<noteq> n" using z(3) b(1) x by blast+
      then show "ddram y' (DA_FTL_BUF b + x) = ddram y (DA_FTL_BUF b + x)" using other [OF b(1) _ x] by simp
    qed
    moreover have "(\<forall>x < misc_bytes. ddram y' (DA_FTL_BUF b + x) = dpage y b row x)
         \<and> (\<exists>c. read_of (REAL_BANK b) (trace (dfl y')) = Some c \<and> fcp_row_l c (REAL_BANK b) = row \<and> (\<forall>x. dma_range c x \<longleftrightarrow> x < misc_bytes))"
      if b: "b < n" "\<not> bit flag b" for b
    proof -
      have "b < NUM_BANKS" "b \<noteq> n" using b n by simp_all
      then show ?thesis using z(4) b other rd unfolding row_def by simp
    qed
    ultimately show ?thesis unfolding run y'_def [symmetric] row_def [symmetric] using v own by (auto simp: less_Suc_eq)
  qed
qed

definition checked :: "(nat \<Rightarrow> nat) \<Rightarrow> nat \<Rightarrow> nat \<Rightarrow> nat \<Rightarrow> bool" where
  "checked u p n b \<longleftrightarrow> b < NUM_BANKS \<and> (if b < n then p \<le> u b else Suc p \<le> u b)"

lemma checked_step: "checked u p (Suc n) b \<longleftrightarrow> checked u p n b \<or> b = n \<and> n < NUM_BANKS \<and> u n = p"
  by (auto simp: checked_def less_Suc_eq)

text \<open>The checks of page \<open>p\<close>: a bank that still searches takes the page when it is not blank.\<close>

lemma misc_checks:
  assumes bsp: "all_ff_ok bsp" and top: "misc_top s u" and p: "p < PAGES_PER_VBLK" and n: "n \<le> NUM_BANKS" and v: "misc_view s y"
    and flag: "\<forall>b < NUM_BANKS. bit flag b \<longleftrightarrow> Suc p \<le> u b"
    and rd: "\<forall>b < NUM_BANKS. \<not> bit flag b \<longrightarrow> (\<exists>c. read_of (REAL_BANK b) (trace (dfl y)) = Some c
      \<and> fcp_row_l c (REAL_BANK b) = DA_MISCBLK_VBN * PAGES_PER_VBLK + p \<and> (\<forall>x. dma_range c x \<longleftrightarrow> x < misc_bytes))"
  shows "\<exists>fl z. fold (da_load_misc_check bsp) [0..<n] (flag, card {b. checked u p 0 b}, y) = (fl, card {b. checked u p n b}, z)
    \<and> (\<forall>b < NUM_BANKS. bit fl b \<longleftrightarrow> checked u p n b) \<and> misc_view s z \<and> ddram z = ddram y
    \<and> (\<forall>b < NUM_BANKS. n \<le> b \<longrightarrow> read_of (REAL_BANK b) (trace (dfl z)) = read_of (REAL_BANK b) (trace (dfl y)))"
  using n
proof (induction n)
  case 0
  then show ?case using v flag by (simp add: checked_def)
next
  case (Suc n)
  then have n: "n < NUM_BANKS" by simp
  from Suc obtain fl z where z: "fold (da_load_misc_check bsp) [0..<n] (flag, card {b. checked u p 0 b}, y) = (fl, card {b. checked u p n b}, z)"
    "\<forall>b < NUM_BANKS. bit fl b \<longleftrightarrow> checked u p n b" "misc_view s z" "ddram z = ddram y"
    "\<forall>b < NUM_BANKS. n \<le> b \<longrightarrow> read_of (REAL_BANK b) (trace (dfl z)) = read_of (REAL_BANK b) (trace (dfl y))" by auto
  let ?row = "DA_MISCBLK_VBN * PAGES_PER_VBLK + p"
  define z' where "z' = da_clr_bsp_intr n 0xFF z"
  have z': "misc_view s z'" "ddram z' = ddram y" "\<forall>b < NUM_BANKS. Suc n \<le> b \<longrightarrow> read_of (REAL_BANK b) (trace (dfl z')) = read_of (REAL_BANK b) (trace (dfl y))"
    using z(3-5) read_of_clr [OF n] by (auto simp: z'_def misc_view_def load_flash_def)
  have fn: "bit fl n \<longleftrightarrow> Suc p \<le> u n" using z(2) n by (simp add: checked_def)
  have pg: "dpage z = dpage s" using z(3) by (simp add: misc_view_def load_flash_def)
  have hit: "bsp (dfl z) n AND FIRQ_ALL_FF = 0 \<longleftrightarrow> u n = p" if nb: "\<not> bit fl n"
  proof -
    have le: "u n \<le> p" using fn nb by simp
    then have "\<not> bit flag n" using flag n by simp
    then obtain c where "read_of (REAL_BANK n) (trace (dfl y)) = Some c" and c': "fcp_row_l c (REAL_BANK n) = ?row" "\<forall>x. dma_range c x \<longleftrightarrow> x < misc_bytes"
      using rd n by blast
    moreover have "read_of (REAL_BANK n) (trace (dfl z)) = read_of (REAL_BANK n) (trace (dfl y))" using z(5) n by blast
    ultimately have c: "read_of (REAL_BANK n) (trace (dfl z)) = Some c" "fcp_row_l c (REAL_BANK n) = ?row" "\<forall>x. dma_range c x \<longleftrightarrow> x < misc_bytes"
      by simp_all
    note L = bsp [unfolded all_ff_ok_def, rule_format, OF conjI [OF n c(1)], unfolded c(2)]
    have mb: "misc_bytes \<le> BYTES_PER_PAGE" by (simp add: misc_geom geom)
    show ?thesis
    proof (cases "u n = p")
      case True
      with top n obtain x where x: "x < misc_bytes" "dpage s n ?row x \<noteq> 0xFFFFFFFF" unfolding misc_top_def by blast
      have "pages (nand (dfl z)) (REAL_BANK n) ?row x \<noteq> 0xFFFFFFFF" using x(2) pg [symmetric] by (simp add: dpage_def)
      then have "\<exists>x < BYTES_PER_PAGE. dma_range c x \<and> pages (nand (dfl z)) (REAL_BANK n) ?row x \<noteq> 0xFFFFFFFF"
        using x(1) c(3) mb by (intro exI [of _ x]) simp
      with L show ?thesis using True by blast
    next
      case False
      then have "dblank s n ?row" using top n p le by (simp add: misc_top_def)
      then have "blank (nand (dfl z)) (REAL_BANK n) ?row" using dblank_cong [of z n ?row s] pg by (simp add: dblank_def)
      with L show ?thesis using False by blast
    qed
  qed
  have n32: "n < 32" using n by (simp add: geom)
  have fin: "finite {b. checked u p n b}" by (rule finite_subset [of _ "{..<NUM_BANKS}"]) (auto simp: checked_def)
  have nin: "n \<notin> {b. checked u p n b}" if "u n = p" using that by (simp add: checked_def)
  have fold: "fold (da_load_misc_check bsp) [0..<Suc n] (flag, card {b. checked u p 0 b}, y) = da_load_misc_check bsp n (fl, card {b. checked u p n b}, z)"
    by (simp add: z(1))
  show ?case
  proof (cases "u n = p")
    case True
    then have "\<not> bit fl n" "bsp (dfl z) n AND FIRQ_ALL_FF = 0" using fn hit by auto
    then have "da_load_misc_check bsp n (fl, card {b. checked u p n b}, z) = (fl OR push_bit n 1, card {b. checked u p n b} + 1, z')"
      by (simp add: da_load_misc_check_def z'_def)
    moreover have "{b. checked u p (Suc n) b} = insert n {b. checked u p n b}" using True n by (auto simp: checked_step)
    then have "card {b. checked u p (Suc n) b} = card {b. checked u p n b} + 1" using fin nin [OF True] by simp
    moreover have "bit (fl OR push_bit n 1) b \<longleftrightarrow> checked u p (Suc n) b" if "b < NUM_BANKS" for b
      using that z(2) n True n32 by (auto simp: checked_step bit_simps bit_1_iff)
    ultimately show ?thesis unfolding fold using z' by auto
  next
    case False
    then have "da_load_misc_check bsp n (fl, card {b. checked u p n b}, z) = (fl, card {b. checked u p n b}, z')"
      using hit by (cases "bit fl n") (simp_all add: da_load_misc_check_def z'_def)
    moreover have "checked u p (Suc n) = checked u p n" using False by (auto simp: checked_step fun_eq_iff)
    ultimately show ?thesis unfolding fold using z' z(2) by auto
  qed
qed

lemma misc_page_step:
  assumes hw: "flash_ok lay hw" and bsp: "all_ff_ok bsp" and top: "misc_top s u" and p: "p < PAGES_PER_VBLK" and x: "misc_scan s u (Suc p) x"
  shows "\<exists>x'. da_load_misc_page hw bsp p x = Some x' \<and> misc_scan s u p x'"
proof -
  obtain flag load_cnt y where xe: "x = (flag, load_cnt, y)" by (cases x)
  have X: "misc_view s y" "\<forall>b < NUM_BANKS. bit flag b \<longleftrightarrow> Suc p \<le> u b" "load_cnt = card {b. b < NUM_BANKS \<and> Suc p \<le> u b}"
    "\<forall>b < NUM_BANKS. Suc p \<le> u b \<longrightarrow> (\<forall>x < misc_bytes. ddram y (DA_FTL_BUF b + x) = dpage s b (DA_MISCBLK_VBN * PAGES_PER_VBLK + u b) x)"
    using x by (auto simp: misc_scan_def xe)
  let ?row = "DA_MISCBLK_VBN * PAGES_PER_VBLK + p"
  from misc_reads [OF hw p order_refl, of flag y] obtain y1 where y1: "each (da_load_misc_read hw p flag) [0..<NUM_BANKS] y = Some y1" "misc_view y y1"
    "\<forall>b < NUM_BANKS. bit flag b \<longrightarrow> (\<forall>x < misc_bytes. ddram y1 (DA_FTL_BUF b + x) = ddram y (DA_FTL_BUF b + x))"
    "\<forall>b < NUM_BANKS. \<not> bit flag b \<longrightarrow> (\<forall>x < misc_bytes. ddram y1 (DA_FTL_BUF b + x) = dpage y b ?row x)
         \<and> (\<exists>c. read_of (REAL_BANK b) (trace (dfl y1)) = Some c \<and> fcp_row_l c (REAL_BANK b) = ?row \<and> (\<forall>x. dma_range c x \<longleftrightarrow> x < misc_bytes))" by blast
  define y2 where "y2 = on_dfl flash_finish y1"
  have y2: "misc_view s y2" "ddram y2 = ddram y1" "read_of rb (trace (dfl y2)) = read_of rb (trace (dfl y1))" for rb
    using y1(2) X(1) by (simp_all add: y2_def misc_view_def load_flash_def ddram_def read_of_def)
  have cn: "load_cnt = card {b. checked u p 0 b}" by (simp add: X(3) checked_def)
  have rd: "\<forall>b < NUM_BANKS. \<not> bit flag b \<longrightarrow> (\<exists>c. read_of (REAL_BANK b) (trace (dfl y2)) = Some c \<and> fcp_row_l c (REAL_BANK b) = ?row \<and> (\<forall>x. dma_range c x \<longleftrightarrow> x < misc_bytes))"
    unfolding y2(3) using y1(4) by blast
  from misc_checks [OF bsp top p order_refl y2(1) X(2) rd] obtain fl z where
    z: "fold (da_load_misc_check bsp) [0..<NUM_BANKS] (flag, load_cnt, y2) = (fl, card {b. checked u p NUM_BANKS b}, z)"
      "\<forall>b < NUM_BANKS. bit fl b \<longleftrightarrow> checked u p NUM_BANKS b" "misc_view s z" "ddram z = ddram y2" unfolding cn by blast
  have ce: "{b. checked u p NUM_BANKS b} = {b. b < NUM_BANKS \<and> p \<le> u b}" by (auto simp: checked_def)
  have run: "da_load_misc_page hw bsp p x = Some (fl, card {b. b < NUM_BANKS \<and> p \<le> u b}, z)"
    using z(1) ce by (simp add: da_load_misc_page_def xe y1(1) y2_def)
  have "ddram z (DA_FTL_BUF b + x) = dpage s b (DA_MISCBLK_VBN * PAGES_PER_VBLK + u b) x" if b: "b < NUM_BANKS" "p \<le> u b" "x < misc_bytes" for b x
  proof (cases "Suc p \<le> u b")
    case True
    then have "ddram y1 (DA_FTL_BUF b + x) = ddram y (DA_FTL_BUF b + x)" using y1(3) b X(2) by blast
    then show ?thesis using X(4) b True z(4) y2(2) by simp
  next
    case False
    then have e: "u b = p" using b by simp
    have "\<not> bit flag b" using X(2) b(1) False by blast
    then have "ddram y1 (DA_FTL_BUF b + x) = dpage y b ?row x" using y1(4) b by blast
    then show ?thesis using e z(4) y2(2) X(1) by (simp add: misc_view_def load_flash_def)
  qed
  then have "misc_scan s u p (fl, card {b. b < NUM_BANKS \<and> p \<le> u b}, z)"
    using z(2,3) by (simp add: misc_scan_def checked_def)
  with run show ?thesis by blast
qed

lemma misc_pages:
  assumes hw: "flash_ok lay hw" and bsp: "all_ff_ok bsp" and top: "misc_top s u"
  shows "\<exists>fl z. each (da_load_misc_page hw bsp) (rev [0..<PAGES_PER_VBLK]) (0, 0, s) = Some (fl, NUM_BANKS, z) \<and> misc_view s z
    \<and> (\<forall>b < NUM_BANKS. \<forall>x < misc_bytes. ddram z (DA_FTL_BUF b + x) = dpage s b (DA_MISCBLK_VBN * PAGES_PER_VBLK + u b) x)"
proof -
  have "misc_scan s u PAGES_PER_VBLK (0, 0, s)" using top by (auto simp: misc_scan_def misc_view_def load_flash_def misc_top_def)
  then have "\<exists>x. each (da_load_misc_page hw bsp) (rev [0..<PAGES_PER_VBLK]) (0, 0, s) = Some x \<and> misc_scan s u 0 x"
    by (intro each_down misc_page_step [OF hw bsp top])
  then obtain x where x: "each (da_load_misc_page hw bsp) (rev [0..<PAGES_PER_VBLK]) (0, 0, s) = Some x" "misc_scan s u 0 x" by blast
  then obtain fl z where z: "x = (fl, card {b. b < NUM_BANKS}, z)" by (auto simp: misc_scan_def split: prod.splits)
  then show ?thesis using x by (auto simp: misc_scan_def)
qed

text \<open>The copies out of the buffers.\<close>

definition word_bound :: "nat \<Rightarrow> bool" where
  "word_bound n \<longleftrightarrow> n < 4294967296"

definition region_bound :: "region_table \<Rightarrow> bool" where
  "region_bound t \<longleftrightarrow> word_bound (rg_cur_write_vpn t) \<and> (\<forall>i < PAGES_PER_VBLK. word_bound (rg_lpn_list t i)) \<and> word_bound (vcount_of_active_vblock t)"

definition meta_bound :: "dac_metadata \<Rightarrow> bool" where
  "meta_bound m \<longleftrightarrow> word_bound (da_cur_miscblk_vpn m) \<and> (\<forall>l < DA_MAPBLKS_PER_BANK. word_bound (da_cur_mapblk_vpn m l))
     \<and> (\<forall>i < PAGES_PER_VBLK. word_bound (lpn_list_of_vt_vblock m i)) \<and> word_bound (da_free_blk_cnt m) \<and> word_bound (da_gc_vblock m)
     \<and> word_bound (global_age m) \<and> (\<forall>r < NUM_REGION. region_bound (region_tbl m r))"

text \<open>Equality on the entries that the arrays have.\<close>

definition same_region :: "region_table \<Rightarrow> region_table \<Rightarrow> bool" where
  "same_region t t' \<longleftrightarrow> rg_cur_write_vpn t' = rg_cur_write_vpn t \<and> (\<forall>i < PAGES_PER_VBLK. rg_lpn_list t' i = rg_lpn_list t i)
     \<and> vcount_of_active_vblock t' = vcount_of_active_vblock t"

definition same_dac :: "dac_metadata \<Rightarrow> dac_metadata \<Rightarrow> bool" where
  "same_dac m m' \<longleftrightarrow> da_cur_miscblk_vpn m' = da_cur_miscblk_vpn m \<and> (\<forall>l < DA_MAPBLKS_PER_BANK. da_cur_mapblk_vpn m' l = da_cur_mapblk_vpn m l)
     \<and> (\<forall>i < PAGES_PER_VBLK. lpn_list_of_vt_vblock m' i = lpn_list_of_vt_vblock m i) \<and> da_free_blk_cnt m' = da_free_blk_cnt m
     \<and> da_gc_vblock m' = da_gc_vblock m \<and> global_age m' = global_age m \<and> (\<forall>r < NUM_REGION. same_region (region_tbl m r) (region_tbl m' r))"

lemma unat_word: "word_bound n \<Longrightarrow> unat (of_nat n :: u32) = n"
  by (simp add: word_bound_def unat_of_nat)

lemma dac_words_roundtrip:
  assumes m: "meta_bound m" and w: "\<And>i. i < da_sizeof_misc_metadata div 4 \<Longrightarrow> w i = dac_words m i"
  shows "same_dac m (dac_of_words w)"
proof -
  have n: "da_sizeof_misc_metadata div 4 = 654" "sizeof_region_table div 4 = 130" by (simp_all add: sizeof_region_table_def geom)
  have h: "w i = dac_words m i" if "i < 654" for i using w [of i] that by (simp add: n)
  have c: "1 + DA_MAPBLKS_PER_BANK = 3" "PAGES_PER_VBLK = 128" "DA_MAPBLKS_PER_BANK = 2" "NUM_REGION = 4" by (simp_all add: geom)
  note D = dac_words_def Let_def n c
  have "w (134 + r * 130 + i) = region_words (region_tbl m r) i" if "r < 4" "i < 130" for r i
  proof -
    have "134 + r * 130 + i < 654" using that by simp
    moreover have "(r * 130 + i) div 130 = r" "(r * 130 + i) mod 130 = i" using that(2) by simp_all
    ultimately show ?thesis using h [of "134 + r * 130 + i"] by (simp add: D)
  qed
  then have rw: "region_words (region_tbl m r) i = w (134 + r * 130 + i)" if "r < 4" "i < 130" for r i using that by simp
  have "same_region (region_tbl m r) (region_of_words (\<lambda>i. w (134 + r * 130 + i)))" if r: "r < 4" for r
  proof -
    define v where "v = (\<lambda>i. w (134 + r * 130 + i))"
    have v: "v 0 = of_nat (rg_cur_write_vpn (region_tbl m r))" "v 129 = of_nat (vcount_of_active_vblock (region_tbl m r))"
      using rw [OF r, of 0] rw [OF r, of 129] by (simp_all add: v_def region_words_def c)
    have "v (1 + i) = of_nat (rg_lpn_list (region_tbl m r) i)" if "i < 128" for i
      using rw [OF r, of "1 + i"] that by (simp add: v_def region_words_def c)
    then have "same_region (region_tbl m r) (region_of_words v)"
      using m r v by (simp add: same_region_def region_of_words_def meta_bound_def region_bound_def c unat_word)
    then show ?thesis by (simp add: v_def)
  qed
  moreover have "w 0 = of_nat (da_cur_miscblk_vpn m)" "w 131 = of_nat (da_free_blk_cnt m)" "w 132 = of_nat (da_gc_vblock m)" "w 133 = of_nat (global_age m)"
    using h [of 0] h [of 131] h [of 132] h [of 133] by (simp_all add: D)
  moreover have "w (1 + l) = of_nat (da_cur_mapblk_vpn m l)" if "l < 2" for l using h [of "1 + l"] that by (simp add: D)
  moreover have "w (Suc (Suc (Suc i))) = of_nat (lpn_list_of_vt_vblock m i)" if "i < 128" for i
  proof -
    have "Suc (Suc (Suc i)) = 3 + i" by simp
    moreover have "w (3 + i) = of_nat (lpn_list_of_vt_vblock m i)" using h [of "3 + i"] that by (simp add: D)
    ultimately show ?thesis by (simp only:)
  qed
  ultimately show ?thesis using m by (simp add: same_dac_def dac_of_words_def Let_def n c meta_bound_def unat_word)
qed

definition copy_inv :: "dstate \<Rightarrow> (nat \<Rightarrow> nat \<Rightarrow> u32) \<Rightarrow> nat \<Rightarrow> dstate \<Rightarrow> bool" where
  "copy_inv z pg k y \<longleftrightarrow> dpage y = dpage z
     \<and> (\<forall>b < k. \<exists>w. d_misc_meta y b = dac_of_words w \<and> (\<forall>i < da_sizeof_misc_metadata div 4. w i = pg b (4 * i)))
     \<and> (\<forall>b < k. \<forall>x < vcount_chunk. ddram y (DA_VCOUNT_ADDR + b * vcount_chunk + x) = pg b (3072 + x))
     \<and> (\<forall>a. a < DA_VCOUNT_ADDR \<or> DA_VCOUNT_ADDR + k * vcount_chunk \<le> a \<longrightarrow> ddram y a = ddram z a)"

lemma misc_copy_step:
  assumes k: "k < NUM_BANKS" and y: "copy_inv z pg k y"
    and buf: "\<forall>b < NUM_BANKS. \<forall>x < misc_bytes. ddram z (DA_FTL_BUF b + x) = pg b x"
  shows "\<exists>y'. da_load_misc_copy k (DA_VCOUNT_ADDR + k * vcount_chunk, y) = Some (DA_VCOUNT_ADDR + Suc k * vcount_chunk, y') \<and> copy_inv z pg (Suc k) y'"
proof -
  note Y = y [unfolded copy_inv_def]
  define buf where "buf = DA_FTL_BUF k"
  define va where "va = DA_VCOUNT_ADDR + k * vcount_chunk"
  define w where "w = (\<lambda>i. ddram y (buf + 4 * i))"
  define d where "d = (\<lambda>a. if va \<le> a \<and> a < va + vcount_chunk then ddram y (buf + 3072 + (a - va)) else ddram y a)"
  note B = da_ftl_buf [OF k, folded buf_def]
  have far: "DA_BAD_BLK_BMP_ADDR \<le> DA_VCOUNT_ADDR" "misc_bytes \<le> BYTES_PER_PAGE" by (simp_all add: misc_geom geom)
  have bw: "ddram y (buf + x) = pg k x" if x: "x < misc_bytes" for x
  proof -
    have "buf + x < DA_VCOUNT_ADDR" using B(3) far x by linarith
    then show ?thesis using Y assms(3) k x by (simp add: buf_def)
  qed
  have k7: "k \<le> 7" using k by (simp add: geom)
  have N: "DA_NUM_MISC_META_SECT * BYTES_PER_SECTOR = 3072" "DA_NUM_VCOUNT_SECT * BYTES_PER_SECTOR = vcount_chunk" by (simp_all add: misc_geom geom)
  have sd: "dram_to_sram buf da_sizeof_misc_metadata (ddram y) = Some w"
    using B(2) by (simp add: dram_to_sram_def w_def MU_MAX_BYTES_def geom)
  have al: "va mod 4 = 0" "(buf + 3072) mod 4 = 0"
    using B(2) by (auto simp: va_def misc_geom geom mod_eq_0_iff_dvd)
  have mv: "dram_move va (buf + 3072) vcount_chunk (ddram y) = Some d"
  proof -
    have "vcount_chunk mod 4 = 0" "vcount_chunk \<le> MU_MAX_BYTES" "vcount_chunk mod DRAM_ECC_UNIT = 0"
      by (simp_all add: misc_geom MU_MAX_BYTES_def DRAM_ECC_UNIT_def)
    then show ?thesis using al by (simp add: dram_move_def d_def)
  qed
  have ge: "va \<le> DA_VCOUNT_ADDR + DA_VCOUNT_BYTES" using k7 by (simp add: va_def misc_geom geom)
  define y' where "y' = set_ddram d (dset_misc k (\<lambda>_. dac_of_words w) y)"
  have next_addr: "va + vcount_chunk = DA_VCOUNT_ADDR + Suc k * vcount_chunk" by (simp add: va_def)
  have run: "da_load_misc_copy k (va, y) = Some (DA_VCOUNT_ADDR + Suc k * vcount_chunk, y')"
    unfolding da_load_misc_copy_def Let_def prod.case N buf_def [symmetric] sd bind.bind_lunit
    using ge by (simp add: mv y'_def next_addr)
  have y': "dpage y' = dpage y" "ddram y' = d" "d_misc_meta y' = (d_misc_meta y)(k := dac_of_words w)" by (simp_all add: y'_def)
  have wk: "\<forall>i < da_sizeof_misc_metadata div 4. w i = pg k (4 * i)"
  proof (intro allI impI)
    fix i assume "i < da_sizeof_misc_metadata div 4"
    then have "4 * i < misc_bytes" by (simp add: misc_geom geom)
    then show "w i = pg k (4 * i)" using bw by (simp add: w_def)
  qed
  have "copy_inv z pg (Suc k) y'"
    unfolding copy_inv_def y'
  proof (intro conjI allI impI)
    show "dpage y = dpage z" using Y by simp
    fix b assume "b < Suc k"
    then show "\<exists>v. ((d_misc_meta y)(k := dac_of_words w)) b = dac_of_words v \<and> (\<forall>i < da_sizeof_misc_metadata div 4. v i = pg b (4 * i))"
      using Y wk by (cases "b = k") auto
  next
    fix b x assume b: "b < Suc k" and x: "x < vcount_chunk"
    show "d (DA_VCOUNT_ADDR + b * vcount_chunk + x) = pg b (3072 + x)"
    proof (cases "b = k")
      case True
      have "3072 + x < misc_bytes" using x by (simp add: misc_geom)
      then show ?thesis using True x bw [of "3072 + x"] by (simp add: d_def va_def add.assoc)
    next
      case False
      then have "(b + 1) * vcount_chunk \<le> k * vcount_chunk" using b by (intro mult_le_mono1) simp
      then have "DA_VCOUNT_ADDR + b * vcount_chunk + x < va" using x by (simp add: va_def)
      then show ?thesis using Y b False x by (simp add: d_def)
    qed
  next
    fix a assume a: "a < DA_VCOUNT_ADDR \<or> DA_VCOUNT_ADDR + Suc k * vcount_chunk \<le> a"
    then have "\<not> (va \<le> a \<and> a < va + vcount_chunk)" "a < DA_VCOUNT_ADDR \<or> DA_VCOUNT_ADDR + k * vcount_chunk \<le> a"
      unfolding va_def by auto
    then have "d a = ddram y a" "ddram y a = ddram z a" using Y unfolding d_def by (simp_all only: if_False)
    then show "d a = ddram z a" by simp
  qed
  with run show ?thesis unfolding va_def by blast
qed

text \<open>
  The whole load of the metadata of the banks: every bank gets what the last page of its misc block says, and the counts
  their bytes.
\<close>

lemma load_misc_result:
  assumes hw: "flash_ok lay hw" and bsp: "all_ff_ok bsp" and top: "misc_top s u"
  shows "\<exists>t. da_load_misc_metadata hw bsp s = Some t \<and> dpage t = dpage s
    \<and> (\<forall>b < NUM_BANKS. \<exists>w. d_misc_meta t b = dac_of_words w
         \<and> (\<forall>i < da_sizeof_misc_metadata div 4. w i = dpage s b (DA_MISCBLK_VBN * PAGES_PER_VBLK + u b) (4 * i)))
    \<and> (\<forall>b < NUM_BANKS. \<forall>x < vcount_chunk. ddram t (DA_VCOUNT_ADDR + b * vcount_chunk + x) = dpage s b (DA_MISCBLK_VBN * PAGES_PER_VBLK + u b) (3072 + x))"
proof -
  define s1 where "s1 = on_dfl (\<lambda>f. flash_clear_irq (flash_finish f)) s"
  define pg where "pg = (\<lambda>b. dpage s b (DA_MISCBLK_VBN * PAGES_PER_VBLK + u b))"
  have s1: "dpage s1 = dpage s" by (simp add: s1_def dpage_def fun_eq_iff)
  have "misc_top s1 u" using top dblank_cong [of s1 _ _ s] by (simp add: misc_top_def s1)
  from misc_pages [OF hw bsp this] obtain fl z where
    z: "each (da_load_misc_page hw bsp) (rev [0..<PAGES_PER_VBLK]) (0, 0, s1) = Some (fl, NUM_BANKS, z)" "misc_view s1 z"
    "\<forall>b < NUM_BANKS. \<forall>x < misc_bytes. ddram z (DA_FTL_BUF b + x) = pg b x" unfolding s1 pg_def by blast
  have "\<exists>x'. each da_load_misc_copy [0..<NUM_BANKS] (DA_VCOUNT_ADDR, z) = Some x'
    \<and> (fst x' = DA_VCOUNT_ADDR + NUM_BANKS * vcount_chunk \<and> copy_inv z pg NUM_BANKS (snd x'))"
  proof (rule each_upt)
    fix k x assume k: "k < NUM_BANKS" and x: "fst x = DA_VCOUNT_ADDR + k * vcount_chunk \<and> copy_inv z pg k (snd x)"
    then have e: "x = (DA_VCOUNT_ADDR + k * vcount_chunk, snd x)" by (simp add: prod_eq_iff)
    from misc_copy_step [OF k _ z(3), of "snd x"] x obtain y' where
      "da_load_misc_copy k (DA_VCOUNT_ADDR + k * vcount_chunk, snd x) = Some (DA_VCOUNT_ADDR + Suc k * vcount_chunk, y')" "copy_inv z pg (Suc k) y'" by blast
    then show "\<exists>x'. da_load_misc_copy k x = Some x' \<and> (fst x' = DA_VCOUNT_ADDR + Suc k * vcount_chunk \<and> copy_inv z pg (Suc k) (snd x'))"
      using e by (metis fst_conv snd_conv)
  next
    show "fst (DA_VCOUNT_ADDR, z) = DA_VCOUNT_ADDR + 0 * vcount_chunk \<and> copy_inv z pg 0 (snd (DA_VCOUNT_ADDR, z))" by (simp add: copy_inv_def)
  qed simp
  then obtain t where t: "each da_load_misc_copy [0..<NUM_BANKS] (DA_VCOUNT_ADDR, z) = Some (DA_VCOUNT_ADDR + NUM_BANKS * vcount_chunk, t)"
    "copy_inv z pg NUM_BANKS t" by (metis prod.collapse)
  have run: "da_load_misc_metadata hw bsp s = Some t" unfolding da_load_misc_metadata_def Let_def s1_def [symmetric] by (simp add: z(1) t(1))
  have pz: "dpage z = dpage s" using z(2) by (simp add: misc_view_def load_flash_def s1)
  have "dpage t = dpage s" using t(2) pz by (simp add: copy_inv_def)
  moreover have "\<forall>b < NUM_BANKS. \<exists>w. d_misc_meta t b = dac_of_words w \<and> (\<forall>i < da_sizeof_misc_metadata div 4. w i = pg b (4 * i))"
    "\<forall>b < NUM_BANKS. \<forall>x < vcount_chunk. ddram t (DA_VCOUNT_ADDR + b * vcount_chunk + x) = pg b (3072 + x)"
    using t(2) by (simp_all add: copy_inv_def)
  ultimately show ?thesis using run unfolding pg_def by blast
qed

subsection \<open>Flush, power off, load\<close>

text \<open>A map block with room for a flush of \<open>bytes\<close> bytes: the vpns stay in the block, and the rest of it is blank.\<close>

definition map_room :: "nat \<Rightarrow> nat \<Rightarrow> dstate \<Rightarrow> bool" where
  "map_room l bytes s \<longleftrightarrow> (\<forall>b < NUM_BANKS. let v = get_mapblk_vpn b l s in
     (v + turns (tab_pages bytes) b) div PAGES_PER_VBLK = v div PAGES_PER_VBLK \<and> v div PAGES_PER_VBLK < VBLKS_PER_BANK
     \<and> v div PAGES_PER_VBLK \<noteq> DA_MISCBLK_VBN \<and> (\<forall>r. v < r \<and> r div PAGES_PER_VBLK = v div PAGES_PER_VBLK \<longrightarrow> dblank s b r))"

definition AGE_REGION_BYTES :: nat where
  "AGE_REGION_BYTES = VBLK_AGE_BYTES + VBLK_REGION_BYTES"

definition log_room :: "dstate \<Rightarrow> bool" where
  "log_room s \<longleftrightarrow> misc_ready s \<and> map_room 0 DA_PAGE_MAP_BYTES s \<and> map_room 1 AGE_REGION_BYTES s
     \<and> (\<forall>b < NUM_BANKS. get_mapblk_vpn b 0 s div PAGES_PER_VBLK \<noteq> get_mapblk_vpn b 1 s div PAGES_PER_VBLK \<and> meta_bound (d_misc_meta s b))"

lemma tables_ok: "table_ok DA_PAGE_MAP_ADDR DA_PAGE_MAP_BYTES" "table_ok VBLK_AGE_ADDR AGE_REGION_BYTES"
  by (simp_all add: table_ok_def AGE_REGION_BYTES_def geom)

lemma map_room_fits: "map_room l bytes s \<Longrightarrow> flush_fits (\<lambda>b. get_mapblk_vpn b l s) bytes"
  unfolding map_room_def flush_fits_def Let_def
proof (intro allI impI)
  fix b assume "\<forall>b < NUM_BANKS. (get_mapblk_vpn b l s + turns (tab_pages bytes) b) div PAGES_PER_VBLK = get_mapblk_vpn b l s div PAGES_PER_VBLK
    \<and> get_mapblk_vpn b l s div PAGES_PER_VBLK < VBLKS_PER_BANK \<and> get_mapblk_vpn b l s div PAGES_PER_VBLK \<noteq> DA_MISCBLK_VBN
    \<and> (\<forall>r. get_mapblk_vpn b l s < r \<and> r div PAGES_PER_VBLK = get_mapblk_vpn b l s div PAGES_PER_VBLK \<longrightarrow> dblank s b r)" and b: "b < NUM_BANKS"
  then have "(get_mapblk_vpn b l s + turns (tab_pages bytes) b) div PAGES_PER_VBLK < VBLKS_PER_BANK" by simp
  then show "get_mapblk_vpn b l s + turns (tab_pages bytes) b < VBLKS_PER_BANK * PAGES_PER_VBLK"
    by (simp add: div_less_iff_less_mult geom)
qed

lemma flush_row_block:
  assumes r: "map_room l bytes s" and k: "k < tab_pages bytes"
  defines "v \<equiv> \<lambda>b. get_mapblk_vpn b l s"
  shows "flush_row v k div PAGES_PER_VBLK = v (k mod NUM_BANKS) div PAGES_PER_VBLK" "v (k mod NUM_BANKS) < flush_row v k"
proof -
  have b: "k mod NUM_BANKS < NUM_BANKS" by (simp add: geom)
  note R = flush_row_now(1) [OF map_room_fits [OF r] k]
  show "v (k mod NUM_BANKS) < flush_row v k" by (simp add: v_def R)
  have "turns (Suc k) (k mod NUM_BANKS) \<le> turns (tab_pages bytes) (k mod NUM_BANKS)" using k by (intro turns_mono) simp
  then have le: "flush_row v k \<le> v (k mod NUM_BANKS) + turns (tab_pages bytes) (k mod NUM_BANKS)" by (simp add: v_def R turns_Suc [OF b])
  have "(v (k mod NUM_BANKS) + turns (tab_pages bytes) (k mod NUM_BANKS)) div PAGES_PER_VBLK = v (k mod NUM_BANKS) div PAGES_PER_VBLK"
    using r b by (simp add: map_room_def v_def Let_def)
  then show "flush_row v k div PAGES_PER_VBLK = v (k mod NUM_BANKS) div PAGES_PER_VBLK"
    using div_le_mono [OF le, of PAGES_PER_VBLK] div_le_mono [of "v (k mod NUM_BANKS)" "flush_row v k" PAGES_PER_VBLK] \<open>v (k mod NUM_BANKS) < flush_row v k\<close> by simp
qed

lemma map_room_blank: "map_room l bytes s \<Longrightarrow> rows_blank (\<lambda>b. get_mapblk_vpn b l s) bytes s"
  unfolding rows_blank_def
proof (intro allI impI)
  fix k assume r: "map_room l bytes s" and k: "k < tab_pages bytes"
  have "k mod NUM_BANKS < NUM_BANKS" by (simp add: geom)
  then show "dblank s (k mod NUM_BANKS) (flush_row (\<lambda>b. get_mapblk_vpn b l s) k)"
    using r flush_row_block [OF r k] by (simp add: map_room_def Let_def)
qed

text \<open>A flush leaves the blocks of other vpns alone.\<close>

lemma flush_other_block:
  assumes r: "map_room l bytes s" and d: "flush_data (\<lambda>b. get_mapblk_vpn b l s) base bytes s (tab_pages bytes) s'"
    and c: "c < NUM_BANKS" and q: "q div PAGES_PER_VBLK \<noteq> get_mapblk_vpn c l s div PAGES_PER_VBLK"
  shows "dpage s' c q = dpage s c q"
proof -
  have "\<forall>i < tab_pages bytes. (c, q) \<noteq> (i mod NUM_BANKS, flush_row (\<lambda>b. get_mapblk_vpn b l s) i)"
    using flush_row_block(1) [OF r] q by auto
  then show ?thesis using d c by (simp add: flush_data_def)
qed

lemma map_room_frame:
  assumes r: "map_room l bytes s" and v: "\<forall>b < NUM_BANKS. get_mapblk_vpn b l s' = get_mapblk_vpn b l s"
    and p: "\<And>c q. c < NUM_BANKS \<Longrightarrow> q div PAGES_PER_VBLK = get_mapblk_vpn c l s div PAGES_PER_VBLK \<Longrightarrow> dpage s' c q = dpage s c q"
  shows "map_room l bytes s'"
  unfolding map_room_def Let_def
proof (intro allI impI)
  fix b assume b: "b < NUM_BANKS"
  have "dblank s' b q" if "get_mapblk_vpn b l s < q" "q div PAGES_PER_VBLK = get_mapblk_vpn b l s div PAGES_PER_VBLK" for q
    using dblank_cong [OF p [OF b that(2)]] r b that by (simp add: map_room_def Let_def)
  then show "(get_mapblk_vpn b l s' + turns (tab_pages bytes) b) div PAGES_PER_VBLK = get_mapblk_vpn b l s' div PAGES_PER_VBLK
    \<and> get_mapblk_vpn b l s' div PAGES_PER_VBLK < VBLKS_PER_BANK \<and> get_mapblk_vpn b l s' div PAGES_PER_VBLK \<noteq> DA_MISCBLK_VBN
    \<and> (\<forall>r. get_mapblk_vpn b l s' < r \<and> r div PAGES_PER_VBLK = get_mapblk_vpn b l s' div PAGES_PER_VBLK \<longrightarrow> dblank s' b r)"
    using r b v by (simp add: map_room_def Let_def)
qed

lemma table_cover:
  assumes "\<And>i x. i < tab_pages bytes \<Longrightarrow> x < tab_len bytes i \<Longrightarrow> P (tab_addr base bytes i + x)" and "base \<le> a" and "a < base + bytes"
  shows "P a"
proof -
  define i where "i = (a - base) div BYTES_PER_PAGE"
  define x where "x = (a - base) mod BYTES_PER_PAGE"
  have e: "i * BYTES_PER_PAGE + x = a - base" by (simp add: i_def x_def)
  have "x < BYTES_PER_PAGE" by (simp add: x_def geom)
  then have "i * BYTES_PER_PAGE < bytes" "x < tab_len bytes i" using e assms(2,3) by (auto simp: tab_len_def)
  then have "i < tab_pages bytes" by (simp add: tab_pages_iff)
  then have "P (tab_addr base bytes i + x)" using assms(1) \<open>x < tab_len bytes i\<close> by blast
  moreover have "tab_addr base bytes i + x = a" using e assms(2) tab_addr_in [OF \<open>i < tab_pages bytes\<close>, of base] by simp
  ultimately show ?thesis by simp
qed

text \<open>What the flash holds after a flush of the metadata of \<open>s\<close>; \<open>m\<close> is what the metadata of the banks then is.\<close>

definition persisted :: "dstate \<Rightarrow> (nat \<Rightarrow> dac_metadata) \<Rightarrow> dstate \<Rightarrow> bool" where
  "persisted s m t \<longleftrightarrow> misc_top t (\<lambda>b. da_cur_miscblk_vpn (m b) mod PAGES_PER_VBLK)
     \<and> (\<forall>b < NUM_BANKS. \<forall>x < misc_bytes. misc_word s (m b) b x (dpage t b (DA_MISCBLK_VBN * PAGES_PER_VBLK + da_cur_miscblk_vpn (m b) mod PAGES_PER_VBLK) x))
     \<and> (\<forall>b < NUM_BANKS. da_cur_mapblk_vpn (m b) 0 = get_mapblk_vpn b 0 s + turns (tab_pages DA_PAGE_MAP_BYTES) b
          \<and> da_cur_mapblk_vpn (m b) 1 = get_mapblk_vpn b 1 s + turns (tab_pages AGE_REGION_BYTES) b)
     \<and> (\<forall>i < tab_pages DA_PAGE_MAP_BYTES. \<forall>x < tab_len DA_PAGE_MAP_BYTES i.
          from_flash (\<lambda>b. get_mapblk_vpn b 0 s) t i x = ddram s (tab_addr DA_PAGE_MAP_ADDR DA_PAGE_MAP_BYTES i + x))
     \<and> (\<forall>i < tab_pages AGE_REGION_BYTES. \<forall>x < tab_len AGE_REGION_BYTES i.
          from_flash (\<lambda>b. get_mapblk_vpn b 1 s) t i x = ddram s (tab_addr VBLK_AGE_ADDR AGE_REGION_BYTES i + x))"

definition meta_flushed :: "dac_metadata \<Rightarrow> nat \<Rightarrow> dac_metadata" where
  "meta_flushed m b = misc_flushed (advance 0 (turns (tab_pages DA_PAGE_MAP_BYTES)) (advance 1 (turns (tab_pages AGE_REGION_BYTES)) m b) b)"

lemma next_misc_row:
  assumes "u div PAGES_PER_VBLK = DA_MISCBLK_VBN"
  shows "DA_MISCBLK_VBN * PAGES_PER_VBLK + next_misc u mod PAGES_PER_VBLK = next_misc u" "next_misc u < 256"
proof -
  have b: "next_misc u div PAGES_PER_VBLK = DA_MISCBLK_VBN" by (rule next_misc_block [OF assms])
  then show "DA_MISCBLK_VBN * PAGES_PER_VBLK + next_misc u mod PAGES_PER_VBLK = next_misc u"
    using div_mult_mod_eq [of "next_misc u" PAGES_PER_VBLK] by simp
  from b have "next_misc u div 128 = 1" by (simp add: geom)
  then show "next_misc u < 256" by linarith
qed

lemma flush_keeps_other:
  assumes "flush_run l s k t" and "b < NUM_BANKS" and "l' \<noteq> l"
  shows "get_mapblk_vpn b l' t = get_mapblk_vpn b l' s" "get_miscblk_vpn b t = get_miscblk_vpn b s"
  using assms by (simp_all add: flush_run_def get_mapblk_vpn_def get_miscblk_vpn_def advance_def)

definition log_blocks :: "dstate \<Rightarrow> nat \<Rightarrow> nat set" where
  "log_blocks s b = {DA_MISCBLK_VBN, get_mapblk_vpn b 0 s div PAGES_PER_VBLK, get_mapblk_vpn b 1 s div PAGES_PER_VBLK}"

lemma da_flush_result:
  assumes hw: "flash_ok lay hw" and room: "log_room s"
  shows "\<exists>t. da_ftl_flush hw rest s = Some t \<and> (\<forall>b < NUM_BANKS. d_misc_meta t b = meta_flushed (d_misc_meta s b) b)
    \<and> persisted s (\<lambda>b. meta_flushed (d_misc_meta s b) b) t \<and> (\<forall>a. outside_buf a \<longrightarrow> ddram t a = ddram s a)
    \<and> (\<forall>b < NUM_BANKS. \<forall>q. q div PAGES_PER_VBLK \<notin> log_blocks s b \<longrightarrow> dpage t b q = dpage s b q)"
proof -
  define v0 where "v0 = (\<lambda>b. get_mapblk_vpn b 0 s)"
  define v1 where "v1 = (\<lambda>b. get_mapblk_vpn b 1 s)"
  define u where "u = (\<lambda>b. get_miscblk_vpn b s)"
  have R: "misc_ready s" "map_room 0 DA_PAGE_MAP_BYTES s" "map_room 1 AGE_REGION_BYTES s"
    and ne: "\<And>b. b < NUM_BANKS \<Longrightarrow> v0 b div PAGES_PER_VBLK \<noteq> v1 b div PAGES_PER_VBLK"
    using room by (simp_all add: log_room_def v0_def v1_def)
  from flush_data_result [OF hw tables_ok(2) map_room_fits [OF R(3)] refl map_room_blank [OF R(3)]]
  obtain s1 where s1: "flush_dram_metadata_into_mapblk hw 1 VBLK_AGE_ADDR AGE_REGION_BYTES s = Some s1"
    "flush_run 1 s (tab_pages AGE_REGION_BYTES) s1" "flush_data v1 VBLK_AGE_ADDR AGE_REGION_BYTES s (tab_pages AGE_REGION_BYTES) s1"
    unfolding v1_def by blast
  note K1 = flush_keeps_other [OF s1(2)]
  have p1: "dpage s1 c q = dpage s c q" if "c < NUM_BANKS" "q div PAGES_PER_VBLK \<noteq> v1 c div PAGES_PER_VBLK" for c q
    using flush_other_block [OF R(3) s1(3) [unfolded v1_def] that(1)] that(2) by (simp add: v1_def)
  have g0: "get_mapblk_vpn b 0 s1 = v0 b" if "b < NUM_BANKS" for b using K1(1) [OF that, of 0] by (simp add: v0_def)
  have R0: "map_room 0 DA_PAGE_MAP_BYTES s1"
    by (rule map_room_frame [OF R(2)]) (use g0 p1 ne in \<open>simp_all add: v0_def\<close>)
  from flush_data_result [OF hw tables_ok(1) map_room_fits [OF R0] refl map_room_blank [OF R0]]
  obtain s2 where s2: "flush_dram_metadata_into_mapblk hw 0 DA_PAGE_MAP_ADDR DA_PAGE_MAP_BYTES s1 = Some s2"
    "flush_run 0 s1 (tab_pages DA_PAGE_MAP_BYTES) s2" "flush_data (\<lambda>b. get_mapblk_vpn b 0 s1) DA_PAGE_MAP_ADDR DA_PAGE_MAP_BYTES s1 (tab_pages DA_PAGE_MAP_BYTES) s2"
    by blast
  note K2 = flush_keeps_other [OF s2(2)]
  have row0: "flush_row (\<lambda>b. get_mapblk_vpn b 0 s1) i = flush_row v0 i" for i
    using g0 [of "i mod NUM_BANKS"] by (simp add: flush_row_def geom)
  have p2: "dpage s2 c q = dpage s1 c q" if "c < NUM_BANKS" "q div PAGES_PER_VBLK \<noteq> v0 c div PAGES_PER_VBLK" for c q
    using flush_other_block [OF R0 s2(3) that(1)] that g0 by simp
  have m1: "v0 c div PAGES_PER_VBLK \<noteq> DA_MISCBLK_VBN" "v1 c div PAGES_PER_VBLK \<noteq> DA_MISCBLK_VBN" if "c < NUM_BANKS" for c
    using R(2,3) that by (simp_all add: map_room_def v0_def v1_def Let_def)
  have um: "get_miscblk_vpn b s2 = u b" if "b < NUM_BANKS" for b using K1(2) [OF that, of 0] K2(2) [OF that, of 1] by (simp add: u_def)
  have R2: "misc_ready s2"
    unfolding misc_ready_def
  proof (intro allI impI conjI)
    fix b assume b: "b < NUM_BANKS"
    show "get_miscblk_vpn b s2 div PAGES_PER_VBLK = DA_MISCBLK_VBN" using R(1) um [OF b] b by (simp add: misc_ready_def u_def)
    fix q assume q: "get_miscblk_vpn b s2 < q \<and> q div PAGES_PER_VBLK = DA_MISCBLK_VBN"
    have "dpage s2 b q = dpage s b q" using p1 [OF b] p2 [OF b] q m1 [OF b] by simp
    moreover have "dblank s b q" using R(1) q um [OF b] b by (simp add: misc_ready_def u_def)
    ultimately show "dblank s2 b q" using dblank_cong [of s2 b q s] by simp
  qed
  from flush_misc_result [OF hw R2, of rest] obtain t where t: "flush_misc_metadata hw rest s2 = Some t" "misc_done s2 NUM_BANKS t" by blast
  note T = t(2) [unfolded misc_done_def]
  have run: "da_ftl_flush hw rest s = Some t"
    using s1(1) s2(1) t(1) by (simp add: da_ftl_flush_def AGE_REGION_BYTES_def)
  have mf: "misc_flushed (d_misc_meta s2 b) = meta_flushed (d_misc_meta s b) b" if "b < NUM_BANKS" for b
    using s1(2) s2(2) that by (simp add: flush_run_def meta_flushed_def)
  have mt: "d_misc_meta t b = meta_flushed (d_misc_meta s b) b" if "b < NUM_BANKS" for b using T mf that by simp
  have nm: "da_cur_miscblk_vpn (meta_flushed (d_misc_meta s b) b) = next_misc (u b)" for b
    by (simp add: meta_flushed_def misc_flushed_def advance_def u_def get_miscblk_vpn_def)
  have ub: "u b div PAGES_PER_VBLK = DA_MISCBLK_VBN" if "b < NUM_BANKS" for b using R(1) that by (simp add: misc_ready_def u_def)
  have row: "DA_MISCBLK_VBN * PAGES_PER_VBLK + next_misc (u b) mod PAGES_PER_VBLK = next_misc (u b)" if "b < NUM_BANKS" for b
    by (rule next_misc_row(1) [OF ub [OF that]])
  have o2: "ddram s2 a = ddram s a" "ddram s1 a = ddram s a" if "outside_buf a" for a
    using s1(3) s2(3) that by (simp_all add: flush_data_def)
  have mw: "misc_word s (meta_flushed (d_misc_meta s b) b) b x (dpage t b (next_misc (u b)) x)" if b: "b < NUM_BANKS" and x: "x < misc_bytes" for b x
  proof -
    have "misc_word s2 (meta_flushed (d_misc_meta s b) b) b x (dpage t b (next_misc (u b)) x)" using T mf [OF b] um [OF b] b x by metis
    moreover have "ddram s2 (DA_VCOUNT_ADDR + b * vcount_chunk + (x - 3072)) = ddram s (DA_VCOUNT_ADDR + b * vcount_chunk + (x - 3072))"
      by (rule o2(1)) (simp add: outside_buf_def geom)
    ultimately show ?thesis unfolding misc_word_def by (simp only:)
  qed
  have top: "misc_top t (\<lambda>b. next_misc (u b) mod PAGES_PER_VBLK)"
    unfolding misc_top_def
  proof (intro allI impI conjI)
    fix b assume b: "b < NUM_BANKS"
    show "next_misc (u b) mod PAGES_PER_VBLK < PAGES_PER_VBLK" by (simp add: geom)
    have z: "0 < misc_bytes" by (simp add: misc_geom)
    have "dpage t b (next_misc (u b)) 0 = of_nat (next_misc (u b))"
      using mw [OF b z] nm [of b] by (simp add: misc_word_def dac_words_def geom)
    moreover have "unat (of_nat (next_misc (u b)) :: u32) = next_misc (u b)" "unat (0xFFFFFFFF :: u32) = 4294967295"
      using next_misc_row(2) [OF ub [OF b]] by (simp_all add: unat_of_nat)
    ultimately have "dpage t b (next_misc (u b)) 0 \<noteq> 0xFFFFFFFF" using next_misc_row(2) [OF ub [OF b]] by auto
    then show "\<exists>x < misc_bytes. dpage t b (DA_MISCBLK_VBN * PAGES_PER_VBLK + next_misc (u b) mod PAGES_PER_VBLK) x \<noteq> 0xFFFFFFFF"
      using z unfolding row [OF b] by blast
    fix p assume p: "p < PAGES_PER_VBLK" "next_misc (u b) mod PAGES_PER_VBLK < p"
    then have "next_misc (u b) + 1 \<le> DA_MISCBLK_VBN * PAGES_PER_VBLK + p" using row [OF b] by linarith
    moreover have "(DA_MISCBLK_VBN * PAGES_PER_VBLK + p) div PAGES_PER_VBLK = DA_MISCBLK_VBN" using p(1) by simp
    ultimately show "dblank t b (DA_MISCBLK_VBN * PAGES_PER_VBLK + p)" using T b um [OF b] by simp
  qed
  have pt: "dpage t b q = dpage s2 b q" if "b < NUM_BANKS" "q div PAGES_PER_VBLK \<noteq> DA_MISCBLK_VBN" for b q using T that by simp
  have kb: "i mod NUM_BANKS < NUM_BANKS" for i by (simp add: geom)
  have f0: "from_flash v0 t i x = ddram s (tab_addr DA_PAGE_MAP_ADDR DA_PAGE_MAP_BYTES i + x)"
    if i: "i < tab_pages DA_PAGE_MAP_BYTES" "x < tab_len DA_PAGE_MAP_BYTES i" for i x
  proof -
    have "flush_row v0 i div PAGES_PER_VBLK = v0 (i mod NUM_BANKS) div PAGES_PER_VBLK"
      using flush_row_block(1) [OF R(2) i(1)] by (simp add: v0_def)
    then have "from_flash v0 t i x = dpage s2 (i mod NUM_BANKS) (flush_row v0 i) x"
      using pt [OF kb] m1(1) [OF kb] by (simp add: from_flash_def)
    also have "\<dots> = ddram s1 (tab_addr DA_PAGE_MAP_ADDR DA_PAGE_MAP_BYTES i + x)" using s2(3) i by (simp add: flush_data_def row0)
    also have "\<dots> = ddram s (tab_addr DA_PAGE_MAP_ADDR DA_PAGE_MAP_BYTES i + x)" by (rule o2(2) [OF outside_table [OF tables_ok(1) i(1)]])
    finally show ?thesis .
  qed
  have f1: "from_flash v1 t i x = ddram s (tab_addr VBLK_AGE_ADDR AGE_REGION_BYTES i + x)"
    if i: "i < tab_pages AGE_REGION_BYTES" "x < tab_len AGE_REGION_BYTES i" for i x
  proof -
    have b: "flush_row v1 i div PAGES_PER_VBLK = v1 (i mod NUM_BANKS) div PAGES_PER_VBLK"
      using flush_row_block(1) [OF R(3) i(1)] by (simp add: v1_def)
    then have "from_flash v1 t i x = dpage s1 (i mod NUM_BANKS) (flush_row v1 i) x"
      using pt [OF kb] p2 [OF kb] m1(2) [OF kb] ne [OF kb, of i] by (simp add: from_flash_def)
    also have "\<dots> = ddram s (tab_addr VBLK_AGE_ADDR AGE_REGION_BYTES i + x)" using s1(3) i by (simp add: flush_data_def)
    finally show ?thesis .
  qed
  have mv: "da_cur_mapblk_vpn (meta_flushed (d_misc_meta s b) b) 0 = v0 b + turns (tab_pages DA_PAGE_MAP_BYTES) b"
    "da_cur_mapblk_vpn (meta_flushed (d_misc_meta s b) b) 1 = v1 b + turns (tab_pages AGE_REGION_BYTES) b" for b
    by (simp_all add: meta_flushed_def misc_flushed_def advance_def v0_def v1_def get_mapblk_vpn_def)
  have "persisted s (\<lambda>b. meta_flushed (d_misc_meta s b) b) t"
    unfolding persisted_def nm using top mw row mv [unfolded v0_def v1_def] f0 [unfolded v0_def] f1 [unfolded v1_def] by simp
  moreover have "ddram t a = ddram s a" if "outside_buf a" for a using T o2 that by simp
  moreover have "dpage t b q = dpage s b q" if "b < NUM_BANKS" "q div PAGES_PER_VBLK \<notin> log_blocks s b" for b q
    using pt [OF that(1)] p2 [OF that(1)] p1 [OF that(1)] that(2) by (simp add: log_blocks_def v0_def v1_def)
  ultimately show ?thesis using run mt by blast
qed

lemma same_dac_vpn: "same_dac (d_misc_meta s b) (d_misc_meta t b) \<Longrightarrow> l < 2 \<Longrightarrow> get_mapblk_vpn b l t = get_mapblk_vpn b l s"
  by (simp add: same_dac_def get_mapblk_vpn_def geom)

lemma meta_flushed_bound:
  assumes room: "log_room s" and b: "b < NUM_BANKS"
  shows "meta_bound (meta_flushed (d_misc_meta s b) b)"
proof -
  have m: "meta_bound (d_misc_meta s b)" using room b by (simp add: log_room_def)
  have u: "get_miscblk_vpn b s div PAGES_PER_VBLK = DA_MISCBLK_VBN" using room b by (simp add: log_room_def misc_ready_def)
  have f: "flush_fits (\<lambda>b. get_mapblk_vpn b 0 s) DA_PAGE_MAP_BYTES" "flush_fits (\<lambda>b. get_mapblk_vpn b 1 s) AGE_REGION_BYTES"
    using room map_room_fits by (simp_all add: log_room_def)
  have V: "VBLKS_PER_BANK * PAGES_PER_VBLK < 4294967296" by (simp add: geom)
  have "get_mapblk_vpn b 0 s + turns (tab_pages DA_PAGE_MAP_BYTES) b < 4294967296" "get_mapblk_vpn b 1 s + turns (tab_pages AGE_REGION_BYTES) b < 4294967296"
    using f b V unfolding flush_fits_def by (meson less_trans)+
  moreover have "next_misc (get_miscblk_vpn b s) < 4294967296" using next_misc_row(2) [OF u] by simp
  ultimately show ?thesis using m
    by (auto simp: meta_bound_def meta_flushed_def misc_flushed_def advance_def word_bound_def get_mapblk_vpn_def get_miscblk_vpn_def geom less_2_cases_iff)
qed

definition da_tables :: "nat \<Rightarrow> bool" where
  "da_tables a \<longleftrightarrow> DA_PAGE_MAP_ADDR \<le> a \<and> a < VBLK_REGION_ADDR + VBLK_REGION_BYTES"

lemma da_load_result:
  assumes hw: "flash_ok lay hw" and bsp: "all_ff_ok bsp" and room: "log_room s" and m: "\<And>b. b < NUM_BANKS \<Longrightarrow> meta_bound (m b)" and p: "persisted s m t"
  shows "\<exists>t'. da_load_metadata hw bsp t = Some t' \<and> (\<forall>b < NUM_BANKS. same_dac (m b) (d_misc_meta t' b)) \<and> (\<forall>a. da_tables a \<longrightarrow> ddram t' a = ddram s a) \<and> dpage t' = dpage t"
proof -
  define v0 where "v0 = (\<lambda>b. get_mapblk_vpn b 0 s)"
  define v1 where "v1 = (\<lambda>b. get_mapblk_vpn b 1 s)"
  define row where "row = (\<lambda>b. DA_MISCBLK_VBN * PAGES_PER_VBLK + da_cur_miscblk_vpn (m b) mod PAGES_PER_VBLK)"
  note P = p [unfolded persisted_def, folded v0_def v1_def]
  from P have PW: "\<forall>b < NUM_BANKS. \<forall>x < misc_bytes. misc_word s (m b) b x (dpage t b (row b) x)" unfolding row_def by (elim conjE)
  have fit: "flush_fits v0 DA_PAGE_MAP_BYTES" "flush_fits v1 AGE_REGION_BYTES"
    using room map_room_fits by (simp_all add: log_room_def v0_def v1_def)
  have "misc_top t (\<lambda>b. da_cur_miscblk_vpn (m b) mod PAGES_PER_VBLK)" using P by simp
  from load_misc_result [OF hw bsp this] obtain t1 where t1: "da_load_misc_metadata hw bsp t = Some t1" "dpage t1 = dpage t"
    "\<And>b. b < NUM_BANKS \<Longrightarrow> \<exists>w. d_misc_meta t1 b = dac_of_words w \<and> (\<forall>i < da_sizeof_misc_metadata div 4. w i = dpage t b (row b) (4 * i))"
    "\<And>b x. b < NUM_BANKS \<Longrightarrow> x < vcount_chunk \<Longrightarrow> ddram t1 (DA_VCOUNT_ADDR + b * vcount_chunk + x) = dpage t b (row b) (3072 + x)"
    unfolding row_def by blast
  have sm: "same_dac (m b) (d_misc_meta t1 b)" if b: "b < NUM_BANKS" for b
  proof -
    from t1(3) [OF b] obtain w where w: "d_misc_meta t1 b = dac_of_words w" "\<forall>i < da_sizeof_misc_metadata div 4. w i = dpage t b (row b) (4 * i)" by blast
    have "w i = dac_words (m b) i" if i: "i < da_sizeof_misc_metadata div 4" for i
    proof -
      have "4 * i < misc_bytes" using i by (simp add: misc_geom geom)
      then have "misc_word s (m b) b (4 * i) (dpage t b (row b) (4 * i))" using PW b by simp
      moreover have "4 * i div 4 = i" by simp
      ultimately have "dpage t b (row b) (4 * i) = dac_words (m b) i" using i unfolding misc_word_def by metis
      then show ?thesis using w(2) i by simp
    qed
    then show ?thesis unfolding w(1) by (rule dac_words_roundtrip [OF m [OF b]])
  qed
  have vp: "get_mapblk_vpn b 0 t1 = v0 b + turns (tab_pages DA_PAGE_MAP_BYTES) b" "get_mapblk_vpn b 1 t1 = v1 b + turns (tab_pages AGE_REGION_BYTES) b" if b: "b < NUM_BANKS" for b
    using sm [OF b] P b by (simp_all add: same_dac_def get_mapblk_vpn_def geom v0_def v1_def)
  from load_result [OF hw tables_ok(1) fit(1), of 0 t1] vp(1)
  obtain t2 where t2: "load_dram_metadata_from_mapblk hw 0 DA_PAGE_MAP_ADDR DA_PAGE_MAP_BYTES t1 = Some t2" "loaded v0 DA_PAGE_MAP_ADDR DA_PAGE_MAP_BYTES t1 (tab_pages DA_PAGE_MAP_BYTES) t2" by blast
  have mm2: "d_misc_meta t2 = d_misc_meta t1" "dpage t2 = dpage t1" using t2(2) by (simp_all add: loaded_def load_flash_def)
  have "\<forall>b < NUM_BANKS. get_mapblk_vpn b 1 t2 = v1 b + turns (tab_pages AGE_REGION_BYTES) b" using vp(2) mm2(1) by (simp add: get_mapblk_vpn_def)
  from load_result [OF hw tables_ok(2) fit(2) this]
  obtain t3 where t3: "load_dram_metadata_from_mapblk hw 1 VBLK_AGE_ADDR AGE_REGION_BYTES t2 = Some t3" "loaded v1 VBLK_AGE_ADDR AGE_REGION_BYTES t2 (tab_pages AGE_REGION_BYTES) t3" by blast
  have run: "da_load_metadata hw bsp t = Some t3" using t1(1) t2(1) t3(1) by (simp add: da_load_metadata_def AGE_REGION_BYTES_def)
  have mm3: "d_misc_meta t3 = d_misc_meta t1" "dpage t2 = dpage t" using t3(2) mm2 t1(2) by (simp_all add: loaded_def load_flash_def)
  have geo: "DA_PAGE_MAP_ADDR + DA_PAGE_MAP_BYTES = DA_VCOUNT_ADDR" "DA_VCOUNT_ADDR + DA_VCOUNT_BYTES = VBLK_AGE_ADDR"
    "VBLK_AGE_ADDR + AGE_REGION_BYTES = VBLK_REGION_ADDR + VBLK_REGION_BYTES" "VBLK_REGION_ADDR + VBLK_REGION_BYTES < 4294967296"
    "DA_VCOUNT_BYTES \<le> NUM_BANKS * vcount_chunk" "DA_BAD_BLK_BMP_ADDR \<le> DA_PAGE_MAP_ADDR" "DA_VCOUNT_ADDR \<le> VBLK_AGE_ADDR" "DA_PAGE_MAP_ADDR \<le> DA_VCOUNT_ADDR"
    by (simp_all add: AGE_REGION_BYTES_def misc_geom geom)
  have ages: "ddram t3 a = ddram s a" if "VBLK_AGE_ADDR \<le> a" "a < VBLK_AGE_ADDR + AGE_REGION_BYTES" for a
  proof (rule table_cover [OF _ that, where P = "\<lambda>a. ddram t3 a = ddram s a"])
    fix i x assume "i < tab_pages AGE_REGION_BYTES" "x < tab_len AGE_REGION_BYTES i"
    then show "ddram t3 (tab_addr VBLK_AGE_ADDR AGE_REGION_BYTES i + x) = ddram s (tab_addr VBLK_AGE_ADDR AGE_REGION_BYTES i + x)"
      using t3(2) P mm3(2) by (simp add: loaded_def from_flash_def)
  qed
  have map: "ddram t2 a = ddram s a" if "DA_PAGE_MAP_ADDR \<le> a" "a < DA_PAGE_MAP_ADDR + DA_PAGE_MAP_BYTES" for a
  proof (rule table_cover [OF _ that, where P = "\<lambda>a. ddram t2 a = ddram s a"])
    fix i x assume "i < tab_pages DA_PAGE_MAP_BYTES" "x < tab_len DA_PAGE_MAP_BYTES i"
    then show "ddram t2 (tab_addr DA_PAGE_MAP_ADDR DA_PAGE_MAP_BYTES i + x) = ddram s (tab_addr DA_PAGE_MAP_ADDR DA_PAGE_MAP_BYTES i + x)"
      using t2(2) P t1(2) by (simp add: loaded_def from_flash_def)
  qed
  have cnt: "ddram t1 a = ddram s a" if a: "DA_VCOUNT_ADDR \<le> a" "a < VBLK_AGE_ADDR" for a
  proof -
    define b where "b = (a - DA_VCOUNT_ADDR) div vcount_chunk"
    define x where "x = (a - DA_VCOUNT_ADDR) mod vcount_chunk"
    have e: "b * vcount_chunk + x = a - DA_VCOUNT_ADDR" by (simp add: b_def x_def)
    have x: "x < vcount_chunk" by (simp add: x_def misc_geom)
    have "a - DA_VCOUNT_ADDR < NUM_BANKS * vcount_chunk" using a geo(2,5) by linarith
    then have b: "b < NUM_BANKS" by (simp add: b_def less_mult_imp_div_less)
    have ae: "DA_VCOUNT_ADDR + b * vcount_chunk + x = a" using e a(1) by simp
    have "3072 + x < misc_bytes" using x by (simp add: misc_geom)
    then have "misc_word s (m b) b (3072 + x) (dpage t b (row b) (3072 + x))" using PW b by simp
    then show ?thesis using t1(4) [OF b x] ae by (simp add: misc_word_def)
  qed
  have "ddram t3 a = ddram s a" if a: "da_tables a" for a
  proof -
    have out: "outside_buf a" "a < 4294967296" using a geo(4,6) by (simp_all add: da_tables_def outside_buf_def)
    consider "VBLK_AGE_ADDR \<le> a" | "DA_VCOUNT_ADDR \<le> a" "a < VBLK_AGE_ADDR" | "a < DA_VCOUNT_ADDR" using geo(7) by linarith
    then show ?thesis
    proof cases
      case 1
      then show ?thesis using ages a geo(3) by (simp add: da_tables_def)
    next
      case 2
      have "ddram t3 a = ddram t2 a" using t3(2) out 2(2) by (simp add: loaded_def)
      moreover have "ddram t2 a = ddram t1 a" using t2(2) out 2(1) geo(1) by (simp add: loaded_def)
      ultimately show ?thesis using cnt [OF 2] by simp
    next
      case 3
      then have "a < VBLK_AGE_ADDR" using geo(7) by simp
      then have "ddram t3 a = ddram t2 a" using t3(2) out by (simp add: loaded_def)
      then show ?thesis using map [of a] 3 a geo(1) by (simp add: da_tables_def)
    qed
  qed
  moreover have "dpage t3 = dpage t" using t3(2) mm3(2) by (simp add: loaded_def load_flash_def)
  ultimately show ?thesis using run sm mm3(1) by metis
qed

text \<open>The metadata of a bank up to where its logs are.\<close>

definition same_but_logs :: "dac_metadata \<Rightarrow> dac_metadata \<Rightarrow> bool" where
  "same_but_logs m m' \<longleftrightarrow> m' = m\<lparr>da_cur_miscblk_vpn := da_cur_miscblk_vpn m', da_cur_mapblk_vpn := da_cur_mapblk_vpn m'\<rparr>"

lemma dpage_eq: "pages (nand (dfl t)) = pages (nand (dfl s)) \<Longrightarrow> dpage t = dpage s"
  by (simp add: dpage_def fun_eq_iff)

lemma power_off_result:
  assumes "flash_ok dac_layout hw" and "all_ff_ok bsp" and "log_room s"
  shows "\<exists>s'. da_ftl_flush hw rest s = Some s' \<and> (\<forall>b < NUM_BANKS. same_but_logs (d_misc_meta s b) (d_misc_meta s' b))
    \<and> (\<forall>b < NUM_BANKS. \<forall>q. q div PAGES_PER_VBLK \<notin> log_blocks s b \<longrightarrow> dpage s' b q = dpage s b q)
    \<and> (\<forall>t. dpage t = dpage s' \<longrightarrow> (\<exists>t'. da_load_metadata hw bsp t = Some t'
         \<and> (\<forall>b < NUM_BANKS. same_dac (d_misc_meta s' b) (d_misc_meta t' b)) \<and> (\<forall>a. da_tables a \<longrightarrow> ddram t' a = ddram s a) \<and> dpage t' = dpage s'))"
proof -
  from da_flush_result [OF assms(1,3), of rest] obtain s' where s': "da_ftl_flush hw rest s = Some s'"
    "\<And>b. b < NUM_BANKS \<Longrightarrow> d_misc_meta s' b = meta_flushed (d_misc_meta s b) b" "persisted s (\<lambda>b. meta_flushed (d_misc_meta s b) b) s'"
    "\<forall>b < NUM_BANKS. \<forall>q. q div PAGES_PER_VBLK \<notin> log_blocks s b \<longrightarrow> dpage s' b q = dpage s b q" by blast
  have "\<exists>t'. da_load_metadata hw bsp t = Some t' \<and> (\<forall>b < NUM_BANKS. same_dac (d_misc_meta s' b) (d_misc_meta t' b))
      \<and> (\<forall>a. da_tables a \<longrightarrow> ddram t' a = ddram s a) \<and> dpage t' = dpage s'"
    if pg: "dpage t = dpage s'" for t
  proof -
    have "misc_top t u = misc_top s' u" for u using dblank_cong [of t _ _ s'] pg by (simp add: misc_top_def)
    then have "persisted s (\<lambda>b. meta_flushed (d_misc_meta s b) b) t" using s'(3) by (simp add: persisted_def from_flash_def pg)
    from da_load_result [OF assms(1,2,3) meta_flushed_bound [OF assms(3)] this] show ?thesis using s'(2) pg by simp
  qed
  moreover have "same_but_logs (d_misc_meta s b) (d_misc_meta s' b)" if "b < NUM_BANKS" for b
    using s'(2) [OF that] by (simp add: same_but_logs_def meta_flushed_def misc_flushed_def advance_def)
  ultimately show ?thesis using s'(1,4) by blast
qed

lemma demo_room: "log_room (da_demo 0)"
proof -
  have bl: "dblank (da_demo 0) b r" for b r by (simp add: dblank_def da_demo_def fstate0_blank)
  have t: "turns (tab_pages DA_PAGE_MAP_BYTES) b \<le> 30" "turns (tab_pages AGE_REGION_BYTES) b \<le> 1" if "b < NUM_BANKS" for b
    using that by (simp_all add: AGE_REGION_BYTES_def tab_pages_def turns_total geom)
  have "map_room 0 DA_PAGE_MAP_BYTES (da_demo 0)"
    unfolding map_room_def Let_def
  proof (intro allI impI)
    fix b assume b: "b < NUM_BANKS"
    have "(256 + turns (tab_pages DA_PAGE_MAP_BYTES) b) div 128 = 2" using t(1) [OF b] by (intro div_nat_eqI) simp_all
    then show "(get_mapblk_vpn b 0 (da_demo 0) + turns (tab_pages DA_PAGE_MAP_BYTES) b) div PAGES_PER_VBLK = get_mapblk_vpn b 0 (da_demo 0) div PAGES_PER_VBLK
      \<and> get_mapblk_vpn b 0 (da_demo 0) div PAGES_PER_VBLK < VBLKS_PER_BANK \<and> get_mapblk_vpn b 0 (da_demo 0) div PAGES_PER_VBLK \<noteq> DA_MISCBLK_VBN
      \<and> (\<forall>r. get_mapblk_vpn b 0 (da_demo 0) < r \<and> r div PAGES_PER_VBLK = get_mapblk_vpn b 0 (da_demo 0) div PAGES_PER_VBLK \<longrightarrow> dblank (da_demo 0) b r)"
      using bl by (simp add: demo_mapblk geom)
  qed
  moreover have "map_room 1 AGE_REGION_BYTES (da_demo 0)"
    unfolding map_room_def Let_def
  proof (intro allI impI)
    fix b assume b: "b < NUM_BANKS"
    have "(384 + turns (tab_pages AGE_REGION_BYTES) b) div 128 = 3" using t(2) [OF b] by (intro div_nat_eqI) simp_all
    then show "(get_mapblk_vpn b 1 (da_demo 0) + turns (tab_pages AGE_REGION_BYTES) b) div PAGES_PER_VBLK = get_mapblk_vpn b 1 (da_demo 0) div PAGES_PER_VBLK
      \<and> get_mapblk_vpn b 1 (da_demo 0) div PAGES_PER_VBLK < VBLKS_PER_BANK \<and> get_mapblk_vpn b 1 (da_demo 0) div PAGES_PER_VBLK \<noteq> DA_MISCBLK_VBN
      \<and> (\<forall>r. get_mapblk_vpn b 1 (da_demo 0) < r \<and> r div PAGES_PER_VBLK = get_mapblk_vpn b 1 (da_demo 0) div PAGES_PER_VBLK \<longrightarrow> dblank (da_demo 0) b r)"
      using bl by (simp add: demo_mapblk geom)
  qed
  moreover have "misc_ready (da_demo 0)" using bl by (simp add: misc_ready_def da_demo_def get_miscblk_vpn_def geom)
  moreover have "meta_bound (d_misc_meta (da_demo 0) b)" for b
    by (simp add: meta_bound_def region_bound_def word_bound_def da_demo_def geom)
  ultimately show ?thesis by (simp add: log_room_def demo_mapblk geom)
qed

text \<open>
  C20. Power-off recovery. When the map blocks have room, \<open>ftl_flush\<close> leaves the metadata as they are but for the places of the logs; and
  \<open>load_metadata\<close>, run at any later time on a device that has kept nothing but its flash, restores the metadata of every bank, with the
  open blocks and page lists of its regions, and every word of the page map, the counts, the ages and the regions of the blocks.
\<close>

theorem power_off_recovery:
  assumes "flash_ok dac_layout hw" and "all_ff_ok bsp" and "log_room s"
  shows "\<exists>s'. da_ftl_flush hw sram_rest s = Some s' \<and> (\<forall>b < NUM_BANKS. same_but_logs (d_misc_meta s b) (d_misc_meta s' b))
    \<and> (\<forall>t. pages (nand (dfl t)) = pages (nand (dfl s')) \<longrightarrow> (\<exists>t'. da_load_metadata hw bsp t = Some t'
         \<and> (\<forall>b < NUM_BANKS. same_dac (d_misc_meta s' b) (d_misc_meta t' b)) \<and> (\<forall>a. da_tables a \<longrightarrow> ddram t' a = ddram s a)))"
proof -
  from power_off_result [OF assms, of sram_rest] obtain s' where s': "da_ftl_flush hw sram_rest s = Some s'"
    "\<forall>b < NUM_BANKS. same_but_logs (d_misc_meta s b) (d_misc_meta s' b)"
    "\<And>t. dpage t = dpage s' \<Longrightarrow> \<exists>t'. da_load_metadata hw bsp t = Some t' \<and> (\<forall>b < NUM_BANKS. same_dac (d_misc_meta s' b) (d_misc_meta t' b))
       \<and> (\<forall>a. da_tables a \<longrightarrow> ddram t' a = ddram s a)" by blast
  show ?thesis using s'(1,2) s'(3) [OF dpage_eq] by blast
qed

definition powered_off :: "dstate \<Rightarrow> dstate" where
  "powered_off s = (da_demo 9)\<lparr>dfl := fstate0\<lparr>nand := nand (dfl s), dram := \<lambda>_. 0\<rparr>\<rparr>"

theorem power_off_recovery_witness:
  "\<exists>s' t'. da_ftl_flush hw_ref (\<lambda>_. 0) (da_demo 0) = Some s' \<and> da_load_metadata hw_ref bsp_ref (powered_off s') = Some t'
    \<and> ddram t' (DA_PAGE_MAP_ADDR + 4) = of_nat (DA_PAGE_MAP_ADDR + 4) \<and> global_age (d_misc_meta t' 3) = 77
    \<and> vcount_of_active_vblock (region_tbl (d_misc_meta t' 3) 2) = 2"
proof -
  from power_off_recovery [OF hw_ref_ok bsp_ref_ok demo_room, of "\<lambda>_. 0"] obtain s' where s': "da_ftl_flush hw_ref (\<lambda>_. 0) (da_demo 0) = Some s'"
    "\<forall>b < NUM_BANKS. same_but_logs (d_misc_meta (da_demo 0) b) (d_misc_meta s' b)"
    "\<forall>t. pages (nand (dfl t)) = pages (nand (dfl s')) \<longrightarrow> (\<exists>t'. da_load_metadata hw_ref bsp_ref t = Some t'
         \<and> (\<forall>b < NUM_BANKS. same_dac (d_misc_meta s' b) (d_misc_meta t' b)) \<and> (\<forall>a. da_tables a \<longrightarrow> ddram t' a = ddram (da_demo 0) a))" by blast
  have "pages (nand (dfl (powered_off s'))) = pages (nand (dfl s'))" by (simp add: powered_off_def)
  with s'(3) obtain t' where t': "da_load_metadata hw_ref bsp_ref (powered_off s') = Some t'"
    "\<forall>b < NUM_BANKS. same_dac (d_misc_meta s' b) (d_misc_meta t' b)" "\<forall>a. da_tables a \<longrightarrow> ddram t' a = ddram (da_demo 0) a" by blast
  have b: "3 < NUM_BANKS" "2 < NUM_REGION" by (simp_all add: geom)
  have "same_but_logs (d_misc_meta (da_demo 0) 3) (d_misc_meta s' 3)" using s'(2) b by blast
  then obtain x y where "d_misc_meta s' 3 = (d_misc_meta (da_demo 0) 3)\<lparr>da_cur_miscblk_vpn := x, da_cur_mapblk_vpn := y\<rparr>"
    unfolding same_but_logs_def by blast
  then have "global_age (d_misc_meta s' 3) = 77" "region_tbl (d_misc_meta s' 3) = region_tbl (d_misc_meta (da_demo 0) 3)"
    by (simp_all add: da_demo_def)
  moreover have "same_dac (d_misc_meta s' 3) (d_misc_meta t' 3)" using t'(2) b by blast
  ultimately have "global_age (d_misc_meta t' 3) = 77" "vcount_of_active_vblock (region_tbl (d_misc_meta t' 3) 2) = 2"
    using b(2) by (simp_all add: same_dac_def same_region_def da_demo_def)
  moreover have "ddram t' (DA_PAGE_MAP_ADDR + 4) = of_nat (DA_PAGE_MAP_ADDR + 4)"
    using t'(3) by (simp add: da_tables_def geom da_demo_def ddram_def fstate0_def)
  ultimately show ?thesis using s'(1) t'(1) by blast
qed

end
