(* ===== verification/Dac_Full.thy ===== *)
theory Dac_Full
  imports Dac_Recovery
begin

text \<open>
  A full bank of \<open>ftl_dac\<close>: the counts of valid pages, which block a collection takes, and how the next page for a write is
  found when the open block of its region is full.
\<close>

subsection \<open>Counts and bad blocks\<close>

definition dcnt :: "dstate \<Rightarrow> nat \<Rightarrow> nat \<Rightarrow> nat" where
  "dcnt s b v = unat (ld16 (da_vcount_addr b v) (ddram s))"

definition dbad :: "dstate \<Rightarrow> nat \<Rightarrow> nat \<Rightarrow> bool" where
  "dbad s b v = dram_bit (ddram s) (da_bad_blk_bmp b * 8 + v)"

definition data_block :: "nat \<Rightarrow> bool" where
  "data_block v \<longleftrightarrow> DA_META_BLKS_PER_BANK \<le> v \<and> v < VBLKS_PER_BANK"

lemma da_cnt_addr:
  assumes "b < NUM_BANKS" and "v < VBLKS_PER_BANK"
  shows "dram_addr (da_vcount_addr b v)" "DA_BAD_BLK_BMP_ADDR \<le> aligned_addr (da_vcount_addr b v)" "aligned_addr (da_vcount_addr b v) < VBLK_AGE_ADDR"
    "da_vcount_addr b v mod 2 = 0"
proof -
  have b: "b \<le> 7" using assms(1) by (simp add: geom)
  have v: "da_vcount_addr b v < VBLK_AGE_ADDR" using b assms(2) by (simp add: da_vcount_addr_def geom)
  have lo: "DA_VCOUNT_ADDR \<le> da_vcount_addr b v" by (simp add: da_vcount_addr_def)
  show "dram_addr (da_vcount_addr b v)" using v lo by (simp add: dram_addr_def geom)
  have "DA_VCOUNT_ADDR div 4 * 4 \<le> da_vcount_addr b v div 4 * 4" using lo by (intro mult_le_mono1 div_le_mono)
  then show "DA_BAD_BLK_BMP_ADDR \<le> aligned_addr (da_vcount_addr b v)" by (simp add: aligned_addr_def geom)
  show "da_vcount_addr b v mod 2 = 0" by (simp add: da_vcount_addr_def geom mod_eq_0_iff_dvd)
  have "aligned_addr (da_vcount_addr b v) \<le> da_vcount_addr b v" by (simp add: aligned_addr_def)
  then show "aligned_addr (da_vcount_addr b v) < VBLK_AGE_ADDR" using v by linarith
qed

lemma da_cnt_inj: "da_vcount_addr b v = da_vcount_addr b w \<longleftrightarrow> v = w"
  by (auto simp: da_vcount_addr_def)

lemma da_bad_addr:
  assumes "b < NUM_BANKS" and "v < VBLKS_PER_BANK"
  shows "dram_addr (da_bad_blk_bmp b)" "DA_BAD_BLK_BMP_ADDR \<le> (da_bad_blk_bmp b * 8 + v) div 32 * 4" "(da_bad_blk_bmp b * 8 + v) div 32 * 4 < DA_PAGE_MAP_ADDR"
proof -
  have b: "b \<le> 7" using assms(1) by (simp add: geom)
  show "dram_addr (da_bad_blk_bmp b)" using b by (simp add: da_bad_blk_bmp_def dram_addr_def geom)
  have "DA_BAD_BLK_BMP_ADDR * 8 \<le> da_bad_blk_bmp b * 8 + v" by (simp add: da_bad_blk_bmp_def)
  then have "DA_BAD_BLK_BMP_ADDR * 8 div 32 * 4 \<le> (da_bad_blk_bmp b * 8 + v) div 32 * 4" by (intro mult_le_mono1 div_le_mono)
  then show "DA_BAD_BLK_BMP_ADDR \<le> (da_bad_blk_bmp b * 8 + v) div 32 * 4" by (simp add: geom)
  have "da_bad_blk_bmp b * 8 + v < DA_PAGE_MAP_ADDR * 8" using b assms(2) by (simp add: da_bad_blk_bmp_def geom)
  then have "(da_bad_blk_bmp b * 8 + v) div 32 < DA_PAGE_MAP_ADDR div 4" by (simp add: geom)
  then show "(da_bad_blk_bmp b * 8 + v) div 32 * 4 < DA_PAGE_MAP_ADDR" by (simp add: geom)
qed

text \<open>Everything that leaves the bitmap and the counts alone keeps both views.\<close>

definition counts_kept :: "dstate \<Rightarrow> dstate \<Rightarrow> bool" where
  "counts_kept s t \<longleftrightarrow> (\<forall>a. DA_BAD_BLK_BMP_ADDR \<le> a \<and> a < VBLK_AGE_ADDR \<longrightarrow> ddram t a = ddram s a)"

lemma counts_kept_views:
  assumes "counts_kept s t" and "b < NUM_BANKS" and "v < VBLKS_PER_BANK"
  shows "dcnt t b v = dcnt s b v" "dbad t b v = dbad s b v"
proof -
  show "dcnt t b v = dcnt s b v"
    using assms(1) da_cnt_addr(2,3) [OF assms(2,3)] ld16_cong [of "ddram t" "da_vcount_addr b v" "ddram s"] by (simp add: counts_kept_def dcnt_def)
  have "DA_PAGE_MAP_ADDR \<le> VBLK_AGE_ADDR" by (simp add: geom)
  then show "dbad t b v = dbad s b v" using assms(1) da_bad_addr(2,3) [OF assms(2,3)] by (simp add: counts_kept_def dbad_def dram_bit_def)
qed

lemma da_get_vcount_eq: "b < NUM_BANKS \<Longrightarrow> data_block v \<Longrightarrow> vcount_ok (dcnt s b v) \<Longrightarrow> da_get_vcount b v s = Some (dcnt s b v)"
  using da_cnt_addr(1) [of b v] by (simp add: da_get_vcount_def data_block_def rd16_def dcnt_def)

lemma da_is_bad_block_eq: "b < NUM_BANKS \<Longrightarrow> v < VBLKS_PER_BANK \<Longrightarrow> da_is_bad_block b v s = Some (dbad s b v)"
  using da_bad_addr(1) [of b v] by (simp add: da_is_bad_block_def tst_bit_def dbad_def)

text \<open>Setting a count, a region and an age.\<close>

lemma da_set_vcount_result:
  assumes b: "b < NUM_BANKS" and v: "data_block v" and n: "vcount_ok n" "n < 65536"
  shows "\<exists>t. da_set_vcount b v n s = Some t \<and> d_misc_meta t = d_misc_meta s \<and> dpage t = dpage s
    \<and> (\<forall>w < VBLKS_PER_BANK. dcnt t b w = (if w = v then n else dcnt s b w) \<and> dbad t b w = dbad s b w)"
proof -
  have vb: "v < VBLKS_PER_BANK" "DA_META_BLKS_PER_BANK \<le> v" using v by (simp_all add: data_block_def)
  define t where "t = set_ddram (st16 (da_vcount_addr b v) (of_nat n) (ddram s)) s"
  have "da_set_vcount b v n s = Some t" using b vb n da_cnt_addr(1) [OF b vb(1)] by (simp add: da_set_vcount_def wr16_def t_def)
  moreover have "dcnt t b w = (if w = v then n else dcnt s b w)" if "w < VBLKS_PER_BANK" for w
    using ld16_st16 [OF da_cnt_addr(4) [OF b vb(1)] da_cnt_addr(4) [OF b that]] n(2) by (simp add: dcnt_def t_def da_cnt_inj unat_of_nat wrap_simps)
  moreover have "dbad t b w = dbad s b w" if "w < VBLKS_PER_BANK" for w
  proof -
    have "DA_PAGE_MAP_ADDR \<le> aligned_addr (da_vcount_addr b v)"
    proof -
      have "DA_VCOUNT_ADDR div 4 * 4 \<le> da_vcount_addr b v div 4 * 4" by (intro mult_le_mono1 div_le_mono) (simp add: da_vcount_addr_def)
      then show ?thesis by (simp add: aligned_addr_def geom)
    qed
    then show ?thesis using da_bad_addr(3) [OF b that] by (simp add: dbad_def dram_bit_def t_def st16_def)
  qed
  moreover have "d_misc_meta t = d_misc_meta s" "dpage t = dpage s" by (simp_all add: t_def)
  ultimately show ?thesis by blast
qed

lemma age_region_addr:
  assumes "b < NUM_BANKS" and "v < VBLKS_PER_BANK"
  shows "dram_addr (age_addr b v)" "age_addr b v mod 4 = 0" "VBLK_AGE_ADDR \<le> age_addr b v" "dram_addr (region_addr b v)" "VBLK_AGE_ADDR \<le> aligned_addr (region_addr b v)"
proof -
  have b: "b \<le> 7" using assms(1) by (simp add: geom)
  have "age_addr b v < VBLK_REGION_ADDR" using b assms(2) by (simp add: age_addr_def geom)
  moreover show lo: "VBLK_AGE_ADDR \<le> age_addr b v" by (simp add: age_addr_def)
  ultimately show "dram_addr (age_addr b v)" by (simp add: dram_addr_def geom)
  show "age_addr b v mod 4 = 0" by (simp add: age_addr_def geom mod_eq_0_iff_dvd)
  have "region_addr b v < VBLK_REGION_ADDR + VBLK_REGION_BYTES" using b assms(2) by (simp add: region_addr_def geom)
  moreover have r: "VBLK_REGION_ADDR \<le> region_addr b v" by (simp add: region_addr_def)
  ultimately show "dram_addr (region_addr b v)" by (simp add: dram_addr_def geom)
  have "VBLK_REGION_ADDR div 4 * 4 \<le> region_addr b v div 4 * 4" using r by (intro mult_le_mono1 div_le_mono)
  then show "VBLK_AGE_ADDR \<le> aligned_addr (region_addr b v)" by (simp add: aligned_addr_def geom)
qed

lemma set_region_num_result:
  assumes "b < NUM_BANKS" and "v < VBLKS_PER_BANK" and "r < NUM_REGION \<or> r = INVALID16"
  shows "\<exists>t. set_region_num b v r s = Some t \<and> d_misc_meta t = d_misc_meta s \<and> dpage t = dpage s \<and> counts_kept s t"
proof -
  have "counts_kept s (set_ddram (st16 (region_addr b v) x (ddram s)) s)" for x
    using age_region_addr(5) [OF assms(1,2)] by (simp add: counts_kept_def st16_def)
  then show ?thesis using assms age_region_addr(4) [OF assms(1,2)] by (simp add: set_region_num_def wr16_def)
qed

lemma set_age_result:
  assumes "b < NUM_BANKS" and "v < VBLKS_PER_BANK"
  shows "\<exists>t. set_age_of_vblock b v a s = Some t \<and> d_misc_meta t = d_misc_meta s \<and> dpage t = dpage s \<and> counts_kept s t"
proof -
  have "counts_kept s (set_ddram (st32 (age_addr b v) x (ddram s)) s)" for x
    using age_region_addr(3) [OF assms] by (simp add: counts_kept_def st32_def)
  then show ?thesis using assms age_region_addr(1,2) [OF assms] by (simp add: set_age_of_vblock_def wr32_def)
qed

subsection \<open>The victim\<close>

text \<open>The scan stops at the first block without valid pages.\<close>

lemma cost_scan_first_empty:
  assumes b: "b < NUM_BANKS" and v: "v \<in> set xs" "dcnt s b v = 0"
    and sorted: "sorted xs" and xs: "\<And>u. u \<in> set xs \<Longrightarrow> data_block u" and ok: "\<And>u. u \<in> set xs \<Longrightarrow> vcount_ok (dcnt s b u)"
    and first: "\<And>u. u \<in> set xs \<Longrightarrow> u < v \<Longrightarrow> dcnt s b u \<noteq> 0"
  shows "cost_scan b s xs vt m = Some v"
  using v(1) sorted xs ok first
proof (induction xs arbitrary: vt m)
  case (Cons u us)
  have u: "data_block u" "vcount_ok (dcnt s b u)" using Cons.prems by simp_all
  have g: "da_get_vcount b u s = Some (dcnt s b u)" by (rule da_get_vcount_eq [OF b u])
  show ?case
  proof (cases "u = v")
    case True
    then show ?thesis using g v(2) by simp
  next
    case False
    then have "u < v" "v \<in> set us" using Cons.prems(1,2) by auto
    then have n: "dcnt s b u \<noteq> 0" using Cons.prems(5) by simp
    have "u < VBLKS_PER_BANK" using u(1) by (simp add: data_block_def)
    then have "\<exists>a. get_age_of_vblock b u s = Some a" using age_region_addr(1,2) [OF b] by (simp add: get_age_of_vblock_def rd32_def)
    then obtain a where a: "get_age_of_vblock b u s = Some a" by blast
    have "cost_scan b s us vt' m' = Some v" for vt' m' by (rule Cons.IH) (use \<open>v \<in> set us\<close> Cons.prems in auto)
    then show ?thesis using g n a by (simp add: Let_def)
  qed
qed simp

lemma victim_first_empty:
  assumes b: "b < NUM_BANKS" and v: "data_block v" "dcnt s b v = 0" "\<not> dbad s b v"
    and ok: "\<And>u. data_block u \<Longrightarrow> vcount_ok (dcnt s b u)" and first: "\<And>u. data_block u \<Longrightarrow> u < v \<Longrightarrow> dcnt s b u \<noteq> 0"
  shows "get_vt_vblock_by_cost_benefit b s = Some v"
proof -
  have m: "u \<in> set [DA_META_BLKS_PER_BANK..<VBLKS_PER_BANK] \<longleftrightarrow> data_block u" for u by (simp add: data_block_def)
  have "cost_scan b s [DA_META_BLKS_PER_BANK..<VBLKS_PER_BANK] DA_META_BLKS_PER_BANK 0 = Some v"
    by (rule cost_scan_first_empty [OF b]) (use v ok first m in auto)
  moreover have "v < VBLKS_PER_BANK" using v(1) by (simp add: data_block_def)
  ultimately show ?thesis using b v da_get_vcount_eq [OF b v(1) ok [OF v(1)]] da_is_bad_block_eq [OF b]
    by (simp add: get_vt_vblock_by_cost_benefit_def)
qed

subsection \<open>Closing a block, collecting an empty one\<close>

lemma vcount_codes: "VC_FREE = 43690" "VC_ACTIVE = 44236" "vcount_ok VC_FREE" "vcount_ok VC_ACTIVE" "DA_VC_MAX = 43963"
proof -
  show "VC_FREE = 43690" "VC_ACTIVE = 44236" "DA_VC_MAX = 43963" by (simp_all add: VC_FREE_def VC_ACTIVE_def DA_VC_MAX_def)
  show "vcount_ok VC_FREE" "vcount_ok VC_ACTIVE" by (simp_all add: vcount_ok_def VC_FREE_def VC_ACTIVE_def NOT_FOR_VICTIM_def)
qed

lemma region_simps [simp]:
  "ddram (set_region b r f s) = ddram s" "dpage (set_region b r f s) = dpage s"
  "da_free_blk_cnt (d_misc_meta (set_region b r f s) c) = da_free_blk_cnt (d_misc_meta s c)"
  "region c q (set_region b r f s) = (if c = b \<and> q = r then f (region b r s) else region c q s)"
  by (simp_all add: set_region_def region_def)

lemma view_cong: "ddram t = ddram s \<Longrightarrow> dcnt t b v = dcnt s b v" "ddram t = ddram s \<Longrightarrow> dbad t b v = dbad s b v"
  by (simp_all add: dcnt_def dbad_def)

lemma region_cong: "d_misc_meta t = d_misc_meta s \<Longrightarrow> region b r t = region b r s"
  by (simp add: region_def)

lemma close_active_result:
  assumes hw: "flash_ok lay hw" and b: "b < NUM_BANKS" and v: "data_block v" and bl: "dblank s b (v * PAGES_PER_VBLK + (PAGES_PER_VBLK - 1))"
    and n: "get_vcount_of_active_block b r s < PAGES_PER_VBLK"
  shows "\<exists>t. close_active hw b r v s = Some t \<and> get_cur_write_vpn_of_region b r t = get_cur_write_vpn_of_region b r s
    \<and> da_free_blk_cnt (d_misc_meta t b) = sub32 (da_free_blk_cnt (d_misc_meta s b)) 1
    \<and> (\<forall>w < VBLKS_PER_BANK. dcnt t b w = (if w = v then get_vcount_of_active_block b r s else dcnt s b w) \<and> dbad t b w = dbad s b w)"
proof -
  let ?row = "v * PAGES_PER_VBLK + (PAGES_PER_VBLK - 1)"
  have vb: "v < VBLKS_PER_BANK" using v by (simp add: data_block_def)
  have row: "?row div PAGES_PER_VBLK = v" "?row mod PAGES_PER_VBLK = PAGES_PER_VBLK - 1" "?row < VBLKS_PER_BANK * PAGES_PER_VBLK"
    using vb by (simp_all add: geom)
  note B = da_ftl_buf [OF b]
  define d where "d = (\<lambda>a. if DA_FTL_BUF b \<le> a \<and> a < DA_FTL_BUF b + DA_LPN_LIST_BYTES then of_nat (rg_lpn_list (region b r s) ((a - DA_FTL_BUF b) div 4)) else ddram s a)"
  have sd: "sram_to_dram (DA_FTL_BUF b) (\<lambda>i. of_nat (rg_lpn_list (region b r s) i)) DA_LPN_LIST_BYTES (ddram s) = Some d"
    using B(2) by (simp add: sram_to_dram_def d_def da_list_geom MU_MAX_BYTES_def)
  define t0 where "t0 = on_dfl (prog_page hw b ?row DA_LPN_LIST_SECT (DA_FTL_BUF b)) (set_ddram d s)"
  have pr: "dflash_do (nand_page_ptprogram hw b v (PAGES_PER_VBLK - 1) 0 DA_LPN_LIST_SECT (DA_FTL_BUF b)) (set_ddram d s) = Some t0"
    using d_ptprogram [OF b row(3), of hw DA_LPN_LIST_SECT "DA_FTL_BUF b" "set_ddram d s"] unfolding row(1,2) t0_def .
  have "dram (prog_page hw b ?row DA_LPN_LIST_SECT (DA_FTL_BUF b) (dfl (set_ddram d s))) = dram (dfl (set_ddram d s))"
    by (rule prog_page_effect(1) [OF hw]) (use bl B(1) in \<open>simp_all add: dblank_def da_list_geom geom\<close>)
  then have d0: "ddram t0 = d" by (simp add: t0_def ddram_def on_dfl_def set_ddram_def)
  have m0: "d_misc_meta t0 = d_misc_meta s" by (simp add: t0_def)
  have k0: "counts_kept s t0" using B(3) d0 by (auto simp: counts_kept_def d_def da_list_geom geom)
  define t1 where "t1 = set_region b r (\<lambda>t. t\<lparr>rg_lpn_list := \<lambda>_. 0\<rparr>) t0"
  have v1: "dcnt t1 b w = dcnt s b w" "dbad t1 b w = dbad s b w" if "w < VBLKS_PER_BANK" for w
    using counts_kept_views [OF k0 b that] view_cong [of t1 t0] by (simp_all add: t1_def)
  have n1: "get_vcount_of_active_block b r t1 = get_vcount_of_active_block b r s" using region_cong [OF m0] by (simp add: get_vcount_of_active_block_def t1_def)
  have "vcount_ok (get_vcount_of_active_block b r s)" "get_vcount_of_active_block b r s < 65536" using n by (simp_all add: vcount_ok_def geom)
  from da_set_vcount_result [OF b v this, of t1] obtain t2 where t2: "da_set_vcount b v (get_vcount_of_active_block b r s) t1 = Some t2" "d_misc_meta t2 = d_misc_meta t1"
    "\<And>w. w < VBLKS_PER_BANK \<Longrightarrow> dcnt t2 b w = (if w = v then get_vcount_of_active_block b r s else dcnt t1 b w) \<and> dbad t2 b w = dbad t1 b w" by blast
  define t3 where "t3 = set_vcount_of_active_block b r 0 t2"
  from set_age_result [OF b vb, of "global_age (d_misc_meta t3 b)" t3] obtain t4 where t4: "set_age_of_vblock b v (global_age (d_misc_meta t3 b)) t3 = Some t4"
    "d_misc_meta t4 = d_misc_meta t3" "counts_kept t3 t4" by blast
  define t where "t = inc_full_blk_cnt b t4"
  have run: "close_active hw b r v s = Some t"
    using sd pr n1 t2(1) t4(1) by (simp add: close_active_def t1_def [symmetric] t3_def [symmetric] t_def Let_def)
  have "dcnt t b w = (if w = v then get_vcount_of_active_block b r s else dcnt s b w) \<and> dbad t b w = dbad s b w" if w: "w < VBLKS_PER_BANK" for w
    using view_cong [of t t4 b w] counts_kept_views [OF t4(3) b w] view_cong [of t3 t2 b w] t2(3) [OF w] v1 [OF w]
    by (simp add: t_def inc_full_blk_cnt_def t3_def set_vcount_of_active_block_def)
  moreover have "get_cur_write_vpn_of_region b r t = get_cur_write_vpn_of_region b r s"
    using region_cong [OF m0] region_cong [OF t2(2)] region_cong [OF t4(2)]
    by (simp add: get_cur_write_vpn_of_region_def t_def inc_full_blk_cnt_def region_def t3_def set_vcount_of_active_block_def set_region_def t1_def)
  moreover have "da_free_blk_cnt (d_misc_meta t b) = sub32 (da_free_blk_cnt (d_misc_meta s b)) 1"
    using t2(2) t4(2) m0 by (simp add: t_def inc_full_blk_cnt_def t3_def set_vcount_of_active_block_def t1_def)
  ultimately show ?thesis using run by blast
qed

lemma collect_empty_result:
  assumes hw: "flash_ok lay hw" and b: "b < NUM_BANKS" and v: "data_block v" "dcnt s b v = 0" "\<not> dbad s b v"
    and ok: "\<And>u. data_block u \<Longrightarrow> vcount_ok (dcnt s b u)" and first: "\<And>u. data_block u \<Longrightarrow> u < v \<Longrightarrow> dcnt s b u \<noteq> 0"
  shows "\<exists>t. da_garbage_collection hw b s = Some t \<and> (\<forall>r. get_cur_write_vpn_of_region b r t = get_cur_write_vpn_of_region b r s)
    \<and> da_free_blk_cnt (d_misc_meta t b) = wrap32 (da_free_blk_cnt (d_misc_meta s b) + 1)
    \<and> (\<forall>w < VBLKS_PER_BANK. dcnt t b w = (if w = v then VC_FREE else dcnt s b w))"
proof -
  have vb: "v < VBLKS_PER_BANK" "DA_META_BLKS_PER_BANK \<le> v" using v(1) by (simp_all add: data_block_def)
  define s1 where "s1 = dset_stat b (\<lambda>t. t\<lparr>da_gc_cnt := wrap32 (da_gc_cnt t + 1)\<rparr>) (dset_stat b (\<lambda>t. t\<lparr>da_gc_cnt := wrap32 (da_gc_cnt t + 1)\<rparr>) s)"
  have s1: "ddram s1 = ddram s" "d_misc_meta s1 = d_misc_meta s" by (simp_all add: s1_def dset_stat_def ddram_def)
  note c1 = view_cong [OF s1(1)]
  have vt: "get_vt_vblock_by_cost_benefit b s1 = Some v" by (rule victim_first_empty [OF b v(1)]) (simp_all add: c1 v ok first)
  have g: "da_get_vcount b v s1 = Some 0" using da_get_vcount_eq [OF b v(1), of s1] ok [OF v(1)] v(2) by (simp add: c1)
  from d_erase [OF hw b vb(1), of s1] obtain t0 where t0: "dflash_do (nand_block_erase hw b v) s1 = Some t0" "ddram t0 = ddram s1" "d_misc_meta t0 = d_misc_meta s1" by blast
  from set_region_num_result [OF b vb(1), of INVALID16 t0] obtain t1 where t1: "set_region_num b v INVALID16 t0 = Some t1" "d_misc_meta t1 = d_misc_meta t0" "counts_kept t0 t1" by blast
  have "VC_FREE < 65536" by (simp add: vcount_codes)
  from da_set_vcount_result [OF b v(1) vcount_codes(3) this, of t1] obtain t2 where t2: "da_set_vcount b v VC_FREE t1 = Some t2" "d_misc_meta t2 = d_misc_meta t1"
    "\<And>w. w < VBLKS_PER_BANK \<Longrightarrow> dcnt t2 b w = (if w = v then VC_FREE else dcnt t1 b w) \<and> dbad t2 b w = dbad t1 b w" by blast
  define t where "t = dec_full_blk_cnt b t2"
  have run: "da_garbage_collection hw b s = Some t"
    unfolding da_garbage_collection_def Let_def s1_def [symmetric] using b vt g t0(1) t1(1) t2(1) vb by (simp add: t_def)
  have "dcnt t b w = (if w = v then VC_FREE else dcnt s b w)" if w: "w < VBLKS_PER_BANK" for w
    using view_cong(1) [of t t2 b w] t2(3) [OF w] counts_kept_views(1) [OF t1(3) b w] view_cong(1) [OF t0(2), of b w] c1(1) [of b w] by (simp add: t_def dec_full_blk_cnt_def)
  moreover have "get_cur_write_vpn_of_region b r t = get_cur_write_vpn_of_region b r s" "da_free_blk_cnt (d_misc_meta t b) = wrap32 (da_free_blk_cnt (d_misc_meta s b) + 1)" for r
    using t2(2) t1(2) t0(3) s1(2) by (simp_all add: t_def dec_full_blk_cnt_def get_cur_write_vpn_of_region_def region_def)
  ultimately show ?thesis using run by blast
qed

lemma next_free_only:
  assumes b: "b < NUM_BANKS" and v: "data_block v" "dcnt s b v = VC_FREE" and ok: "\<And>u. data_block u \<Longrightarrow> vcount_ok (dcnt s b u)"
    and only: "\<And>u. data_block u \<Longrightarrow> u \<noteq> v \<Longrightarrow> dcnt s b u \<noteq> VC_FREE" and u: "data_block u"
  shows "next_free_block b s u = Some v"
  using u
proof (induction "if u < v then v - u else VBLKS_PER_BANK - u + v" arbitrary: u rule: less_induct)
  case less
  define w where "w = (if u + 1 = VBLKS_PER_BANK then DA_META_BLKS_PER_BANK else u + 1)"
  have m: "DA_META_BLKS_PER_BANK < VBLKS_PER_BANK" by (simp add: geom)
  have w: "data_block w" using less.prems m by (auto simp: w_def data_block_def)
  have g: "da_get_vcount b w s = Some (dcnt s b w)" by (rule da_get_vcount_eq [OF b w ok [OF w]])
  have step: "next_free_block b s u = (if dcnt s b w \<noteq> VC_FREE then next_free_block b s w else Some w)"
    using g by (subst next_free_block.simps) (simp add: w_def Let_def)
  show ?case
  proof (cases "w = v")
    case True
    then show ?thesis using step v(2) by simp
  next
    case False
    have "(if w < v then v - w else VBLKS_PER_BANK - w + v) < (if u < v then v - u else VBLKS_PER_BANK - u + v)"
      using False less.prems v(1) unfolding w_def data_block_def by (auto split: if_splits)
    from less.hyps [OF this w] show ?thesis using step only [OF w False] by simp
  qed
qed

text \<open>
  C21. Rewriting one page on a full device stops the layer. When the open block of a region is full, none of its pages is valid any more, no
  other block is free and no earlier one is empty, then the block is closed, collected at once and found again as the free block. The code takes
  that for not having left the block and goes on to its last page, where the assertion that the block is open fails.
\<close>

theorem rewritten_block_stops:
  fixes s b r
  defines "w \<equiv> get_cur_write_vpn_of_region b r s"
  defines "v \<equiv> w div PAGES_PER_VBLK"
  assumes hw: "flash_ok dac_layout hw" and b: "b < NUM_BANKS" and r: "region_for_write b old_vpn s = Some r"
    and full: "w mod PAGES_PER_VBLK = PAGES_PER_VBLK - 2" "data_block v" "dcnt s b v = VC_ACTIVE" "\<not> dbad s b v" "dblank s b (w + 1)"
    and none: "get_vcount_of_active_block b r s = 0" and last: "da_free_blk_cnt (d_misc_meta s b) = NUM_REGION + 1"
    and others: "\<forall>u. data_block u \<and> u \<noteq> v \<longrightarrow> vcount_ok (dcnt s b u) \<and> dcnt s b u \<noteq> VC_FREE \<and> (u < v \<longrightarrow> dcnt s b u \<noteq> 0)"
  shows "\<exists>s0 s1. close_active hw b r v s = Some s0 \<and> collect_while_full hw b s0 = Some s1 \<and> next_free_block b s1 v = Some v
    \<and> take_page b r w v s1 = None \<and> da_assign_new_write_vpn hw b old_vpn s = None"
proof -
  have vb: "v < VBLKS_PER_BANK" using full(2) by (simp add: data_block_def)
  have wv: "w + 1 = v * PAGES_PER_VBLK + (PAGES_PER_VBLK - 1)" using full(1) div_mult_mod_eq [of w PAGES_PER_VBLK] by (simp add: v_def geom)
  have "get_vcount_of_active_block b r s < PAGES_PER_VBLK" using none by (simp add: geom)
  from close_active_result [OF hw b full(2) full(5) [unfolded wv] this]
  obtain s0 where s0: "close_active hw b r v s = Some s0" "get_cur_write_vpn_of_region b r s0 = w" "da_free_blk_cnt (d_misc_meta s0 b) = sub32 (NUM_REGION + 1) 1"
    "\<And>u. u < VBLKS_PER_BANK \<Longrightarrow> dcnt s0 b u = (if u = v then 0 else dcnt s b u) \<and> dbad s0 b u = dbad s b u"
    unfolding none last w_def [symmetric] by blast
  have c0: "vcount_ok (dcnt s0 b u)" "u \<noteq> v \<Longrightarrow> dcnt s0 b u \<noteq> VC_FREE \<and> (u < v \<longrightarrow> dcnt s0 b u \<noteq> 0)" if "data_block u" for u
  proof -
    have u: "u < VBLKS_PER_BANK" using that by (simp add: data_block_def)
    have "vcount_ok 0" by (simp add: vcount_ok_def geom)
    then show "vcount_ok (dcnt s0 b u)" using s0(4) [OF u] others that by auto
    show "u \<noteq> v \<Longrightarrow> dcnt s0 b u \<noteq> VC_FREE \<and> (u < v \<longrightarrow> dcnt s0 b u \<noteq> 0)" using s0(4) [OF u] others that by auto
  qed
  have "\<exists>t. da_garbage_collection hw b s0 = Some t \<and> (\<forall>r. get_cur_write_vpn_of_region b r t = get_cur_write_vpn_of_region b r s0)
    \<and> da_free_blk_cnt (d_misc_meta t b) = wrap32 (da_free_blk_cnt (d_misc_meta s0 b) + 1) \<and> (\<forall>w < VBLKS_PER_BANK. dcnt t b w = (if w = v then VC_FREE else dcnt s0 b w))"
    by (rule collect_empty_result [OF hw b full(2)]) (use s0(4) [OF vb] full(4) c0 in auto)
  then obtain s1 where s1: "da_garbage_collection hw b s0 = Some s1" "get_cur_write_vpn_of_region b r s1 = w" "da_free_blk_cnt (d_misc_meta s1 b) = NUM_REGION + 1"
    "\<And>u. u < VBLKS_PER_BANK \<Longrightarrow> dcnt s1 b u = (if u = v then VC_FREE else dcnt s0 b u)" using s0(2,3) by (auto simp: geom wrap_simps)
  have gc: "collect_while_full hw b s0 = Some s1"
  proof -
    have "is_full_all_blks b s0" "\<not> is_full_all_blks b s1" using s0(3) s1(3) by (simp_all add: is_full_all_blks_def geom wrap_simps)
    then show ?thesis using s1(1) by (subst collect_while_full.simps, simp) (subst collect_while_full.simps, simp)
  qed
  have c1: "vcount_ok (dcnt s1 b u)" "u \<noteq> v \<Longrightarrow> dcnt s1 b u \<noteq> VC_FREE" if "data_block u" for u
    using s1(4) [of u] c0 [OF that] that vcount_codes(3) by (auto simp: data_block_def)
  have free: "dcnt s1 b v = VC_FREE" using s1(4) [OF vb] by simp
  have nx: "next_free_block b s1 v = Some v" by (rule next_free_only [OF b full(2) free c1 full(2)])
  have "w + 1 < 4294967296" using vb unfolding wv by (simp add: geom)
  then have "wrap32 (w + 1) = w + 1" by (simp add: wrap_simps)
  moreover have "(w + 1) div PAGES_PER_VBLK = v" unfolding wv by (simp add: geom)
  moreover have "da_get_vcount b v s1 = Some VC_FREE" using da_get_vcount_eq [OF b full(2) c1(1) [OF full(2)]] free by simp
  ultimately have tk: "take_page b r w v s1 = None" by (simp add: take_page_def v_def [symmetric] vcount_codes)
  have "da_get_vcount b v s = Some VC_ACTIVE" using da_get_vcount_eq [OF b full(2), of s] full(3) vcount_codes(4) by simp
  then have "da_assign_new_write_vpn hw b old_vpn s = None"
    using b r full(1) s0(1) gc nx tk s1(2) by (simp add: da_assign_new_write_vpn_def w_def [symmetric] v_def [symmetric] Let_def)
  with s0(1) gc nx tk show ?thesis by blast
qed

text \<open>A bank on which the open block 8 of the last region is full, without a valid page, and all other blocks have eight.\<close>

definition da_stop :: dstate where
  "da_stop = (da_demo 0)\<lparr>dfl := fstate0\<lparr>dram := (\<lambda>a. if a = DA_VCOUNT_ADDR + 16 then 0x0008ACCC else if a = VBLK_REGION_ADDR + 16 then 3
       else if DA_VCOUNT_ADDR \<le> a \<and> a < VBLK_AGE_ADDR then 0x00080008 else 0)\<rparr>,
     d_misc_meta := (\<lambda>b. (d_misc_meta (da_demo 0) b)\<lparr>da_free_blk_cnt := 5,
       region_tbl := (\<lambda>r. \<lparr>rg_cur_write_vpn = (5 + r) * 128 + 126, rg_lpn_list = (\<lambda>_. 0), vcount_of_active_vblock = 0\<rparr>)\<rparr>)\<rparr>"

lemma da_stop_counts:
  assumes "v < VBLKS_PER_BANK"
  shows "dcnt da_stop 0 v = (if v = 8 then VC_ACTIVE else 8)"
proof -
  have a: "da_vcount_addr 0 v mod 4 = v mod 2 * 2" "aligned_addr (da_vcount_addr 0 v) = DA_VCOUNT_ADDR + v div 2 * 4"
    unfolding da_vcount_addr_def aligned_addr_def by (simp_all add: geom) presburger+
  have "v div 2 * 4 < VBLK_AGE_ADDR - DA_VCOUNT_ADDR" "VBLK_AGE_ADDR < VBLK_REGION_ADDR" "DA_VCOUNT_ADDR < VBLK_AGE_ADDR" using assms by (simp_all add: geom)
  then have d: "ddram da_stop (DA_VCOUNT_ADDR + v div 2 * 4) = (if v div 2 = 4 then 0x0008ACCC else 0x00080008)"
    by (auto simp: da_stop_def ddram_def)
  have "v mod 2 = 0 \<or> v mod 2 = 1" by presburger
  moreover have "v = 8 \<longleftrightarrow> v div 2 = 4 \<and> v mod 2 = 0" by presburger
  ultimately show ?thesis by (auto simp: dcnt_def ld16_def a d vcount_codes)
qed

theorem rewritten_block_stops_witness:
  "da_assign_new_write_vpn hw_ref 0 1024 da_stop = None"
proof -
  have B: "(0 :: nat) < NUM_BANKS" "8 < VBLKS_PER_BANK" by (simp_all add: geom)
  have rg: "get_region_num 0 8 da_stop = Some 3"
    using age_region_addr(4) [OF B] by (simp add: get_region_num_def rd16_def ld16_def region_addr_def aligned_addr_def da_stop_def ddram_def geom)
  then have r: "region_for_write 0 1024 da_stop = Some 3" by (simp add: region_for_write_def geom)
  have w: "get_cur_write_vpn_of_region 0 3 da_stop = 1150" by (simp add: get_cur_write_vpn_of_region_def region_def da_stop_def)
  have v: "(1150 :: nat) div PAGES_PER_VBLK = 8" "(1150 :: nat) mod PAGES_PER_VBLK = PAGES_PER_VBLK - 2" by (simp_all add: geom)
  have n: "get_vcount_of_active_block 0 3 da_stop = 0" "da_free_blk_cnt (d_misc_meta da_stop 0) = NUM_REGION + 1"
    by (simp_all add: get_vcount_of_active_block_def region_def da_stop_def geom)
  have bl: "dblank da_stop 0 (1150 + 1)" by (simp add: dblank_def da_stop_def fstate0_blank [unfolded blank_def] blank_def)
  have d: "data_block 8" by (simp add: data_block_def geom)
  have bad: "\<not> dbad da_stop 0 8" by (simp add: dbad_def dram_bit_def da_stop_def ddram_def da_bad_blk_bmp_def geom)
  have o: "\<forall>u. data_block u \<and> u \<noteq> 8 \<longrightarrow> vcount_ok (dcnt da_stop 0 u) \<and> dcnt da_stop 0 u \<noteq> VC_FREE \<and> (u < 8 \<longrightarrow> dcnt da_stop 0 u \<noteq> 0)"
    by (simp add: data_block_def da_stop_counts vcount_codes vcount_ok_def geom)
  have a: "dcnt da_stop 0 8 = VC_ACTIVE" using da_stop_counts [OF B(2)] by simp
  from rewritten_block_stops [OF hw_ref_ok B(1) r, unfolded w v(1), OF v(2) d a bad bl n o] show ?thesis by blast
qed

end
