(* ===== verification/Dac_Store.thy ===== *)
theory Dac_Store
  imports Dac_Recovery Page_Requests
begin

text \<open>
  What \<open>ftl_dac\<close> holds for the host: the words of every logical page as the page map names them. Reads deliver them, as an
  interpretation of \<open>page_reads\<close>; and they survive a flush, the loss of the memory, and the \<open>ftl_open\<close> that follows.
\<close>

subsection \<open>The store and reads\<close>

definition dvpn :: "dstate \<Rightarrow> nat \<Rightarrow> nat" where
  "dvpn s lpn = unat (ddram s (DA_PAGE_MAP_ADDR + lpn * 4))"

definition dac_word :: "dstate \<Rightarrow> nat \<Rightarrow> nat \<Rightarrow> u32 option" where
  "dac_word s lpn x = (if dvpn s lpn = 0 \<or> BYTES_PER_PAGE \<le> x then None else Some (dpage s (lpn mod NUM_BANKS) (dvpn s lpn) x))"

definition dmap_ok :: "dstate \<Rightarrow> bool" where
  "dmap_ok s \<longleftrightarrow> (\<forall>l < NUM_LPAGES. dvpn s l < VBLKS_PER_BANK * PAGES_PER_VBLK)"

text \<open>What a read leaves as it is: everything but read buffers and the pointer to them.\<close>

definition dac_kept :: "dstate \<Rightarrow> dstate \<Rightarrow> bool" where
  "dac_kept s t \<longleftrightarrow> d_misc_meta t = d_misc_meta s \<and> dpage t = dpage s \<and> g_ftl_write_buf_id (dfl t) = g_ftl_write_buf_id (dfl s)
     \<and> (\<forall>a < 4294967296. DA_WR_BUF_ADDR \<le> a \<longrightarrow> ddram t a = ddram s a)"

lemma dac_kept_trans: "dac_kept s t \<Longrightarrow> dac_kept t x \<Longrightarrow> dac_kept s x"
  by (simp add: dac_kept_def)

lemma da_map_addr:
  assumes "l < NUM_LPAGES"
  shows "DA_WR_BUF_ADDR \<le> DA_PAGE_MAP_ADDR + l * 4" "DA_PAGE_MAP_ADDR + l * 4 < 4294967296" "da_tables (DA_PAGE_MAP_ADDR + l * 4)"
    "dram_addr (DA_PAGE_MAP_ADDR + l * 4)" "aligned_addr (DA_PAGE_MAP_ADDR + l * 4) = DA_PAGE_MAP_ADDR + l * 4"
  using assms by (simp_all add: da_tables_def dram_addr_def aligned_addr_def geom)

lemma da_map_aligned: "DA_PAGE_MAP_ADDR mod 4 = 0"
  by (simp add: geom)

lemma da_get_vpn_eq: "lpn < NUM_LPAGES \<Longrightarrow> da_get_vpn lpn s = Some (dvpn s lpn)"
  by (simp add: da_get_vpn_def rd32_def da_map_addr da_map_aligned dvpn_def ld32_def)

lemma dac_word_cong:
  assumes "\<And>l. l < NUM_LPAGES \<Longrightarrow> dvpn t l = dvpn s l" and "l < NUM_LPAGES"
    and "\<And>x. dvpn s l \<noteq> 0 \<Longrightarrow> dpage t (l mod NUM_BANKS) (dvpn s l) x = dpage s (l mod NUM_BANKS) (dvpn s l) x"
  shows "dac_word t l = dac_word s l"
  using assms by (simp add: dac_word_def fun_eq_iff)

lemma dac_kept_views:
  assumes "dac_kept s t"
  shows "l < NUM_LPAGES \<Longrightarrow> dvpn t l = dvpn s l" "l < NUM_LPAGES \<Longrightarrow> dac_word t l = dac_word s l" "dmap_ok s \<Longrightarrow> dmap_ok t"
proof -
  show v: "dvpn t l = dvpn s l" if "l < NUM_LPAGES" for l using assms da_map_addr [OF that] by (simp add: dac_kept_def dvpn_def)
  show "l < NUM_LPAGES \<Longrightarrow> dac_word t l = dac_word s l" using assms v by (intro dac_word_cong) (simp_all add: dac_kept_def)
  show "dmap_ok s \<Longrightarrow> dmap_ok t" using v by (simp add: dmap_ok_def)
qed

lemma da_ring: "0 < l_num_rd_buffers dac_layout" "rd_end dac_layout = DA_WR_BUF_ADDR" "rd_end dac_layout \<le> 4294967296"
  by (simp_all add: rd_end_def geom)

lemma da_read_page_result:
  assumes hw: "flash_ok dac_layout hw" and m: "dmap_ok s" and lpn: "lpn < NUM_LPAGES" and rid: "g_ftl_read_buf_id (dfl s) < DA_NUM_RD_BUFFERS"
    and pg: "off + num \<le> SECTORS_PER_PAGE"
  defines "B \<equiv> rd_ring dac_layout (g_ftl_read_buf_id (dfl s))"
  shows "\<exists>t. da_read_page hw lpn off num s = Some t \<and> dac_kept s t \<and> g_ftl_read_buf_id (dfl t) = (g_ftl_read_buf_id (dfl s) + 1) mod DA_NUM_RD_BUFFERS
    \<and> (\<forall>x. off * 512 \<le> x \<and> x < (off + num) * 512 \<longrightarrow> ddram t (B + x) = seen (dac_word s lpn x))
    \<and> (\<forall>a < 4294967296. a < B \<or> B + BYTES_PER_PAGE \<le> a \<longrightarrow> ddram t a = ddram s a)"
proof -
  let ?b = "g_ftl_read_buf_id (dfl s)" and ?v = "dvpn s lpn"
  let ?next = "(?b + 1) mod DA_NUM_RD_BUFFERS"
  have far: "B + BYTES_PER_PAGE \<le> DA_WR_BUF_ADDR" using rd_ring_bounds(3) [OF da_ring(1,3), of ?b] by (simp add: B_def da_ring(2))
  have v: "?v < VBLKS_PER_BANK * PAGES_PER_VBLK" using m lpn by (simp add: dmap_ok_def)
  have bank: "lpn mod NUM_BANKS < NUM_BANKS" by (simp add: geom)
  have held: "dac_word s lpn x = Some (pages (nand (dfl s)) (REAL_BANK (lpn mod NUM_BANKS)) ?v x)" if "?v \<noteq> 0" "x < (off + num) * 512" for x
    using that mult_le_mono1 [OF pg, of 512] by (simp add: dac_word_def dpage_def geom)
  show ?thesis
  proof (cases "?v = 0")
    case False
    from ptread_to_host_page [OF hw _ da_ring(3) bank v pg, of "dfl s"] rid obtain x where
      x: "nand_page_ptread_to_host hw dac_layout (lpn mod NUM_BANKS) (?v div PAGES_PER_VBLK) (?v mod PAGES_PER_VBLK) off num (dfl s) = Some x"
      "g_ftl_read_buf_id x = ?next" "g_ftl_write_buf_id x = g_ftl_write_buf_id (dfl s)" "pages (nand x) = pages (nand (dfl s))"
      "\<forall>j. off * 512 \<le> j \<and> j < (off + num) * 512 \<longrightarrow> dram x (B + j) = pages (nand (dfl s)) (REAL_BANK (lpn mod NUM_BANKS)) ?v j"
      "\<forall>a < 4294967296. a < B \<or> B + BYTES_PER_PAGE \<le> a \<longrightarrow> dram x a = dram (dfl s) a" by (auto simp: B_def)
    have "da_read_page hw lpn off num s = Some (s\<lparr>dfl := x\<rparr>)"
      using False v x(1) by (simp add: da_read_page_def get_num_bank_def da_get_vpn_eq [OF lpn] DA_CHECK_VPAGE_def dflash_do_def Let_def)
    moreover have "dac_kept s (s\<lparr>dfl := x\<rparr>)" using x far by (auto simp: dac_kept_def dpage_def ddram_def fun_eq_iff)
    ultimately show ?thesis using x held [OF False] by (intro exI [of _ "s\<lparr>dfl := x\<rparr>"]) (simp add: ddram_def seen_def)
  next
    case True
    have al: "DRAM_BASE \<le> DA_RD_BUF_ADDR" "DA_RD_BUF_ADDR mod SDRAM_ECC_UNIT = 0" by (simp_all add: geom)
    from rd_ring_fill [of ?b dac_layout off num "0xFFFFFFFF" "ddram s"] rid al pg obtain d where
      d: "dram_fill (RD_BUF_PTR dac_layout ?b + off * BYTES_PER_SECTOR) 0xFFFFFFFF (num * BYTES_PER_SECTOR) (ddram s) = Some d"
      "\<forall>j. off * 512 \<le> j \<and> j < (off + num) * 512 \<longrightarrow> d (B + j) = 0xFFFFFFFF" "\<forall>a. a < B \<or> B + BYTES_PER_PAGE \<le> a \<longrightarrow> d a = ddram s a" by (auto simp: B_def)
    define t where "t = on_dfl (\<lambda>f. f\<lparr>g_ftl_read_buf_id := ?next\<rparr>) (on_dfl (SETREG BM_STACK_RESET 0x02) (on_dfl (SETREG BM_STACK_RDSET ?next)
       (on_dfl flash_finish (set_ddram d (on_dfl (log (Wait_Rbuf ?next)) s)))))"
    have "ddram (on_dfl (log e) s) = ddram s" for e by (simp add: on_dfl_def ddram_def)
    then have run: "da_read_page hw lpn off num s = Some t"
      using True v d(1) by (simp add: da_read_page_def da_get_vpn_eq [OF lpn] DA_CHECK_VPAGE_def Let_def t_def)
    have t: "ddram t = d" "dpage t = dpage s" "d_misc_meta t = d_misc_meta s" "g_ftl_write_buf_id (dfl t) = g_ftl_write_buf_id (dfl s)" "g_ftl_read_buf_id (dfl t) = ?next"
      by (simp_all add: t_def on_dfl_def ddram_def set_ddram_def SETREG_def dpage_def flash_finish_def fun_eq_iff)
    have "dac_kept s t" using d(3) far t by (auto simp: dac_kept_def)
    then show ?thesis using run t(1,5) d(2,3) True by (intro exI [of _ t]) (simp add: seen_def dac_word_def)
  qed
qed

definition dac_read_inv :: "flash_hw \<Rightarrow> dstate \<Rightarrow> dstate \<Rightarrow> bool" where
  "dac_read_inv hw s0 s \<longleftrightarrow> flash_ok dac_layout hw \<and> dmap_ok s0 \<and> dac_kept s0 s"

interpretation dac_reads: page_reads dac_word ddram "\<lambda>s. g_ftl_read_buf_id (dfl s)" dac_layout "dac_read_inv hw s0"
    "\<lambda>lpn off num s s'. da_read_page hw lpn off num s = Some s'" "da_ftl_read_loop hw" for hw s0
proof unfold_locales
  show "rd_end dac_layout \<le> 4294967296" by (rule da_ring(3))
  show "da_ftl_read_loop hw lpn off 0 s = Some s" for lpn off s by (subst da_ftl_read_loop.simps) simp
next
  fix lpn off n s s'
  assume "da_read_page hw lpn off (min n (SECTORS_PER_PAGE - off)) s = Some s'" "0 < n" "off < SECTORS_PER_PAGE" "off + n < 4294967296"
  then show "da_ftl_read_loop hw lpn off n s = da_ftl_read_loop hw (lpn + 1) 0 (n - min n (SECTORS_PER_PAGE - off)) s'"
    by (subst da_ftl_read_loop.simps) (simp add: page_chunk_eq)
next
  fix s lpn off num
  assume i: "dac_read_inv hw s0 s" and lpn: "lpn < NUM_LPAGES" and r: "g_ftl_read_buf_id (dfl s) < l_num_rd_buffers dac_layout" and pg: "off + num \<le> SECTORS_PER_PAGE"
  then have I: "flash_ok dac_layout hw" "dmap_ok s0" "dac_kept s0 s" "g_ftl_read_buf_id (dfl s) < DA_NUM_RD_BUFFERS" by (simp_all add: dac_read_inv_def)
  from da_read_page_result [OF I(1) dac_kept_views(3) [OF I(3,2)] lpn I(4) pg] I dac_kept_trans [OF I(3)] dac_kept_views(2)
  show "\<exists>s'. da_read_page hw lpn off num s = Some s' \<and> dac_read_inv hw s0 s' \<and> (\<forall>l < NUM_LPAGES. dac_word s' l = dac_word s l)
      \<and> g_ftl_read_buf_id (dfl s') = (g_ftl_read_buf_id (dfl s) + 1) mod l_num_rd_buffers dac_layout
      \<and> (\<forall>x. off * 512 \<le> x \<and> x < (off + num) * 512 \<longrightarrow> ddram s' (rd_ring dac_layout (g_ftl_read_buf_id (dfl s)) + x) = seen (dac_word s lpn x))
      \<and> (\<forall>a < 4294967296. a < rd_ring dac_layout (g_ftl_read_buf_id (dfl s)) \<or> rd_ring dac_layout (g_ftl_read_buf_id (dfl s)) + BYTES_PER_PAGE \<le> a \<longrightarrow> ddram s' a = ddram s a)"
    by (fastforce simp: dac_read_inv_def)
qed

lemma da_read_result:
  assumes "flash_ok dac_layout hw" and "dmap_ok s" and "lba + n \<le> NUM_LSECTORS" and "g_ftl_read_buf_id (dfl s) < DA_NUM_RD_BUFFERS"
    and "span (lba mod SECTORS_PER_PAGE) n \<le> DA_NUM_RD_BUFFERS"
  shows "\<exists>s'. da_ftl_read hw lba n s = Some s' \<and> dac_kept s s'
    \<and> (\<forall>k < n. \<forall>x < 512. ddram s' (rd_ring dac_layout (g_ftl_read_buf_id (dfl s) + (lba mod SECTORS_PER_PAGE + k) div SECTORS_PER_PAGE)
         + (lba + k) mod SECTORS_PER_PAGE * 512 + x) = seen (sector (dac_word s) (lba + k) x))"
proof -
  have "dac_read_inv hw s s" using assms(1,2) by (simp add: dac_read_inv_def dac_kept_def)
  from dac_reads.read_sectors [OF this assms(3)] assms(4,5) show ?thesis by (auto simp: da_ftl_read_def dac_read_inv_def)
qed

subsection \<open>Starting on a formatted flash\<close>

text \<open>What the scan of the bad blocks and the look for the mark leave as it is: the pages of the flash.\<close>

lemma da_temp_entry:
  assumes "a < DA_TEMP_BUF_ADDR + SCAN_LIST_SIZE" and "DA_TEMP_BUF_ADDR \<le> a"
  shows "dram_addr a"
  using assms by (simp add: dram_addr_def geom)

lemma da_scan_entries_total: "\<forall>i \<in> set xs. i < SCAN_LIST_ITEMS \<Longrightarrow> \<exists>r. da_scan_entries xs (ok, d) = Some r"
proof (induction xs arbitrary: ok d)
  case (Cons i xs)
  have "dram_addr (DA_TEMP_BUF_ADDR + 2 + 2 * i)" using Cons.prems by (intro da_temp_entry) (simp_all add: geom)
  then show ?case using Cons.IH Cons.prems by (simp add: rd16_def wr16_def Let_def)
qed simp

lemma da_check_scan_list_result: "\<exists>n t. da_check_scan_list bsp b s = Some (n, t) \<and> n \<le> SCAN_LIST_ITEMS \<and> dpage t = dpage s"
proof -
  have h: "dram_addr DA_TEMP_BUF_ADDR" by (rule da_temp_entry) (simp_all add: geom)
  let ?n = "unat (ld16 DA_TEMP_BUF_ADDR (ddram s))"
  consider "bsp (dfl s) b AND FIRQ_DATA_CORRUPT \<noteq> 0 \<or> SCAN_LIST_ITEMS < ?n" | "bsp (dfl s) b AND FIRQ_DATA_CORRUPT = 0" "?n \<le> SCAN_LIST_ITEMS" by linarith
  then show ?thesis
  proof cases
    case 1
    then show ?thesis using h by (auto simp: da_check_scan_list_def rd16_def)
  next
    case 2
    then have "\<forall>i \<in> set [0..<?n]. i < SCAN_LIST_ITEMS" by auto
    from da_scan_entries_total [OF this, of True "ddram s"] obtain ok d where "da_scan_entries [0..<?n] (True, ddram s) = Some (ok, d)" by auto
    then show ?thesis using 2 h by (cases ok) (simp_all add: da_check_scan_list_def rd16_def wr16_def)
  qed
qed

lemma da_mark_bad_block_result:
  assumes "b < NUM_BANKS" and "n \<le> SCAN_LIST_ITEMS"
  shows "\<exists>t. da_mark_bad_block n b v s = Some t \<and> dpage t = dpage s"
proof -
  have "wrap32 (2 * (n + 1)) \<le> MU_MAX_BYTES" "DA_TEMP_BUF_ADDR mod 4 = 0" using assms(2) by (simp_all add: geom MU_MAX_BYTES_def wrap_simps)
  then have "\<exists>i. search_equ 2 DA_TEMP_BUF_ADDR (n + 1) k (ddram s) = Some i" for k by (simp add: search_equ_def)
  then obtain i j where "search_equ 2 DA_TEMP_BUF_ADDR (n + 1) (v * NUM_PLANES) (ddram s) = Some i"
    "search_equ 2 DA_TEMP_BUF_ADDR (n + 1) (v * NUM_PLANES + 1) (ddram s) = Some j" by metis
  moreover have "dram_addr (da_bad_blk_bmp b)" using assms(1) by (simp add: dram_addr_def da_bad_blk_bmp_def geom)
  ultimately show ?thesis by (simp add: da_mark_bad_block_def put_bit_def Let_def) (simp add: dpage_def set_ddram_def fun_eq_iff)
qed

lemma da_build_bad_blk_list_result:
  assumes hw: "flash_ok lay hw"
  shows "\<exists>t. da_build_bad_blk_list hw bsp s = Some t \<and> dpage t = dpage s"
proof -
  have bank: "\<exists>t. da_build_bad_blk_bank hw bsp b u = Some t \<and> dpage t = dpage s" if b: "b < NUM_BANKS" and u: "dpage u = dpage s" for b u
  proof -
    define x where "x = on_dfl (\<lambda>f. log (Wait_Bank (REAL_BANK b)) (log Wait_Room f)) (on_dfl (plane_cmd hw FC_COL_ROW_READ_OUT FO_E DA_TEMP_BUF_ADDR SCAN_LIST_SIZE b SCAN_LIST_PAGE_OFFSET) u)"
    have x: "dpage x = dpage s" using plane_read(1) [OF hw] u by (simp add: x_def dpage_def on_dfl_def fun_eq_iff log_def buf_ok_def geom)
    obtain n t where t: "da_check_scan_list bsp b x = Some (n, t)" "n \<le> SCAN_LIST_ITEMS" "dpage t = dpage x" using da_check_scan_list_result by blast
    have "\<exists>t'. each (da_mark_bad_block n b) xs t1 = Some t' \<and> dpage t' = dpage s" if "dpage t1 = dpage s" for xs t1
      using that
    proof (induction xs arbitrary: t1)
      case (Cons v xs)
      from da_mark_bad_block_result [OF b t(2), of v t1] Cons show ?case by fastforce
    qed simp
    moreover have "dpage (t\<lparr>d_bad_blk_count := (d_bad_blk_count t)(b := 0)\<rparr>) = dpage s" using t(3) x by (simp add: dpage_def fun_eq_iff)
    moreover have "da_build_bad_blk_bank hw bsp b u = each (da_mark_bad_block n b) [1..<VBLKS_PER_BANK] (t\<lparr>d_bad_blk_count := (d_bad_blk_count t)(b := 0)\<rparr>)"
      using t(1) by (simp add: da_build_bad_blk_bank_def x_def plane_cmd_def on_dfl_def Let_def)
    ultimately show ?thesis by metis
  qed
  have banks: "\<exists>t. each (da_build_bad_blk_bank hw bsp) xs u = Some t \<and> dpage t = dpage s" if "\<forall>b \<in> set xs. b < NUM_BANKS" "dpage u = dpage s" for xs u
    using that
  proof (induction xs arbitrary: u)
    case (Cons b xs)
    from bank [of b u] Cons show ?case by fastforce
  qed simp
  have "\<exists>d. dram_fill DA_BAD_BLK_BMP_ADDR 0 DA_BAD_BLK_BMP_BYTES (ddram s) = Some d" by (simp add: dram_fill_def geom)
  then obtain d where d: "dram_fill DA_BAD_BLK_BMP_ADDR 0 DA_BAD_BLK_BMP_BYTES (ddram s) = Some d" by blast
  have "dpage (on_dfl flash_clear_irq (set_ddram d s)) = dpage s" by (simp add: dpage_def on_dfl_def set_ddram_def fun_eq_iff)
  then show ?thesis using banks [of "[0..<NUM_BANKS]" "on_dfl flash_clear_irq (set_ddram d s)"] d by (simp add: da_build_bad_blk_list_def)
qed

definition mark_there :: "nat \<Rightarrow> dstate \<Rightarrow> bool" where
  "mark_there fw_pages s \<longleftrightarrow> (\<exists>x < BYTES_PER_SECTOR. dpage s 0 (FW_PAGE_OFFSET + fw_pages) x \<noteq> 0xFFFFFFFF)"

lemma da_check_format_mark_result:
  assumes hw: "flash_ok lay hw" and bsp: "all_ff_ok bsp" and m: "mark_there fw_pages s"
  shows "\<exists>t. da_check_format_mark hw bsp fw_pages s = (True, t) \<and> dpage t = dpage s"
proof -
  let ?r = "FW_PAGE_OFFSET + fw_pages"
  define f where "f = flash_clear_irq (dfl s)"
  define g where "g = log (Wait_Bank (REAL_BANK 0)) (log Wait_Room (plane_cmd hw FC_COL_ROW_READ_OUT FO_E DA_FTL_BUF_ADDR BYTES_PER_SECTOR 0 ?r f))"
  define c where "c = (fcp (setup_fcp FC_COL_ROW_READ_OUT FO_E DA_FTL_BUF_ADDR BYTES_PER_SECTOR 0 0 ?r f))\<lparr>fcp_bank := REAL_BANK 0\<rparr>"
  have pg: "pages (nand g) = pages (nand (dfl s))" using plane_read(1) [OF hw] by (simp add: g_def f_def buf_ok_def geom)
  have c: "fcp_cmd c = FC_COL_ROW_READ_OUT" "fcp_bank c = REAL_BANK 0" "fcp_row_l c (REAL_BANK 0) = ?r" "dma_range c x \<longleftrightarrow> x < BYTES_PER_SECTOR" for x
    by (simp_all add: c_def setup_fcp_def set_fcp_def dma_range_def)
  have "trace g = trace f @ [Issue c, Wait_Room, Wait_Bank (REAL_BANK 0)]"
    by (simp add: g_def plane_cmd_def fcp_issue_def log_def c_def set_fcp_def setup_fcp_def split_beta)
  then have rd: "read_of (REAL_BANK 0) (trace g) = Some c" by (simp add: read_of_def c)
  from m obtain x where x: "x < BYTES_PER_SECTOR" "pages (nand g) (REAL_BANK 0) ?r x \<noteq> 0xFFFFFFFF" by (auto simp: mark_there_def dpage_def pg)
  have x': "x < BYTES_PER_PAGE" "dma_range c x" using x(1) c(4) by (simp_all add: geom)
  have "0 < NUM_BANKS" by (simp add: geom)
  then have "0 < NUM_BANKS \<and> read_of (REAL_BANK 0) (trace g) = Some c" using rd by simp
  moreover have "\<exists>x < BYTES_PER_PAGE. dma_range c x \<and> pages (nand g) (REAL_BANK 0) (fcp_row_l c (REAL_BANK 0)) x \<noteq> 0xFFFFFFFF"
    using x(2) x' c(3) by auto
  ultimately have z: "bsp g 0 AND FIRQ_ALL_FF = 0" using bsp [unfolded all_ff_ok_def, rule_format, of 0 g c] by blast
  define t where "t = da_clr_bsp_intr 0 0xFF (s\<lparr>dfl := g\<rparr>)"
  have "da_check_format_mark hw bsp fw_pages s = (True, t)"
    using z by (simp add: da_check_format_mark_def Let_def on_dfl_def t_def g_def f_def plane_cmd_def)
  moreover have "dpage t = dpage s" using pg by (simp add: t_def dpage_def fun_eq_iff)
  ultimately show ?thesis by blast
qed

text \<open>
  The host's data are clear of the logs: the map names pages of the bank outside the blocks that a flush writes, and the format
  mark is not in them either.
\<close>

definition data_kept :: "nat \<Rightarrow> dstate \<Rightarrow> bool" where
  "data_kept fw_pages s \<longleftrightarrow> dmap_ok s \<and> (\<forall>l < NUM_LPAGES. dvpn s l \<noteq> 0 \<longrightarrow> dvpn s l div PAGES_PER_VBLK \<notin> log_blocks s (l mod NUM_BANKS))
     \<and> mark_there fw_pages s \<and> (FW_PAGE_OFFSET + fw_pages) div PAGES_PER_VBLK \<notin> log_blocks s 0"

lemma da_sanity: "da_sanity_check = Some ()"
  by (simp add: da_sanity_check_def geom)

lemma log_state [simp]: "dpage (on_dfl (SETREG r v) s) = dpage s" "dpage (on_dfl flash_clear_irq s) = dpage s"
  by (simp_all add: dpage_def on_dfl_def SETREG_def fun_eq_iff)

lemma power_off_data:
  assumes hw: "flash_ok dac_layout hw" and bsp: "all_ff_ok bsp" and room: "log_room s" and keep: "data_kept fw_pages s"
  shows "\<exists>s'. da_ftl_flush hw rest s = Some s' \<and> (\<forall>t. dpage t = dpage s' \<longrightarrow> (\<exists>u. da_ftl_open hw isr bsp rest' fw_pages t = Some u
    \<and> dmap_ok u \<and> g_ftl_read_buf_id (dfl u) = 0 \<and> (\<forall>l < NUM_LPAGES. dac_word u l = dac_word s l)))"
proof -
  from power_off_result [OF hw bsp room, of rest] obtain s' where s': "da_ftl_flush hw rest s = Some s'"
    "\<And>b q. b < NUM_BANKS \<Longrightarrow> q div PAGES_PER_VBLK \<notin> log_blocks s b \<Longrightarrow> dpage s' b q = dpage s b q"
    "\<And>t. dpage t = dpage s' \<Longrightarrow> \<exists>t'. da_load_metadata hw bsp t = Some t' \<and> (\<forall>a. da_tables a \<longrightarrow> ddram t' a = ddram s a) \<and> dpage t' = dpage s'" by blast
  note K = keep [unfolded data_kept_def]
  have m: "mark_there fw_pages t" if "dpage t = dpage s'" for t
    using K s'(2) [of 0 "FW_PAGE_OFFSET + fw_pages"] that by (simp add: mark_there_def geom)
  have "\<exists>u. da_ftl_open hw isr bsp rest' fw_pages t = Some u \<and> dmap_ok u \<and> g_ftl_read_buf_id (dfl u) = 0 \<and> (\<forall>l < NUM_LPAGES. dac_word u l = dac_word s l)"
    if t: "dpage t = dpage s'" for t
  proof -
    from da_build_bad_blk_list_result [OF hw, of bsp t] obtain t1 where t1: "da_build_bad_blk_list hw bsp t = Some t1" "dpage t1 = dpage s'" using t by auto
    define t2 where "t2 = on_dfl (SETREG FCONF_PAUSE (FIRQ_DATA_CORRUPT + FIRQ_BADBLK_L + FIRQ_BADBLK_H))
      (on_dfl (SETREG INTR_MASK (FIRQ_DATA_CORRUPT + FIRQ_BADBLK_L + FIRQ_BADBLK_H)) (on_dfl flash_clear_irq t1))"
    have "dpage t2 = dpage s'" using t1(2) by (simp add: t2_def)
    from da_check_format_mark_result [OF hw bsp m [OF this]] this obtain t3 where t3: "da_check_format_mark hw bsp fw_pages t2 = (True, t3)" "dpage t3 = dpage s'" by auto
    from s'(3) [OF t3(2)] obtain t4 where t4: "da_load_metadata hw bsp t3 = Some t4" "\<And>a. da_tables a \<Longrightarrow> ddram t4 a = ddram s a" "dpage t4 = dpage s'" by blast
    define u where "u = on_dfl (\<lambda>f. f\<lparr>g_ftl_read_buf_id := 0, g_ftl_write_buf_id := 0\<rparr>) t4"
    have "da_ftl_open hw isr bsp rest' fw_pages t = Some u"
      using t1(1) t3(1) t4(1) by (simp add: da_ftl_open_def da_sanity Let_def t2_def u_def)
    moreover have pu: "dpage u = dpage s'" "ddram u = ddram t4" using t4(3) by (simp_all add: u_def dpage_def on_dfl_def ddram_def fun_eq_iff)
    then have v: "dvpn u l = dvpn s l" if "l < NUM_LPAGES" for l using t4(2) [OF da_map_addr(3) [OF that]] by (simp add: dvpn_def)
    then have "dmap_ok u" using K by (simp add: dmap_ok_def)
    moreover have "dac_word u l = dac_word s l" if "l < NUM_LPAGES" for l
    proof (rule dac_word_cong [OF v that])
      fix x assume "dvpn s l \<noteq> 0"
      then show "dpage u (l mod NUM_BANKS) (dvpn s l) x = dpage s (l mod NUM_BANKS) (dvpn s l) x"
        using K that s'(2) [of "l mod NUM_BANKS" "dvpn s l"] pu(1) by (simp add: geom)
    qed
    ultimately show ?thesis by (intro exI [of _ u]) (simp add: u_def on_dfl_def)
  qed
  with s'(1) show ?thesis by blast
qed

subsection \<open>Properties\<close>

text \<open>
  C19. What the host has written survives a power-off: after \<open>ftl_flush\<close>, whatever becomes of the SRAM and the DRAM, \<open>ftl_open\<close> finds the format
  mark, loads the metadata, and a following \<open>ftl_read\<close> puts into the read buffers, from the first one on, the very sectors the layer held before
  the flush. The logs must have room and lie apart from the data and the mark.
\<close>

theorem power_off_reads_back:
  assumes "flash_ok dac_layout hw" and "all_ff_ok bsp" and "log_room s" and "data_kept fw_pages s"
    and "lba + n \<le> NUM_LSECTORS" and "span (lba mod SECTORS_PER_PAGE) n \<le> DA_NUM_RD_BUFFERS"
  shows "\<exists>s'. da_ftl_flush hw sram_rest s = Some s' \<and> (\<forall>t. pages (nand (dfl t)) = pages (nand (dfl s')) \<longrightarrow>
    (\<exists>u. (da_ftl_open hw isr bsp sram_rest fw_pages t \<bind> da_ftl_read hw lba n) = Some u
      \<and> (\<forall>k < n. \<forall>x < 512. ddram u (rd_ring dac_layout ((lba mod SECTORS_PER_PAGE + k) div SECTORS_PER_PAGE) + (lba + k) mod SECTORS_PER_PAGE * 512 + x)
           = seen (sector (dac_word s) (lba + k) x))))"
proof -
  from power_off_data [OF assms(1-4), of sram_rest isr sram_rest] obtain s' where s': "da_ftl_flush hw sram_rest s = Some s'"
    "\<And>t. dpage t = dpage s' \<Longrightarrow> \<exists>u. da_ftl_open hw isr bsp sram_rest fw_pages t = Some u \<and> dmap_ok u \<and> g_ftl_read_buf_id (dfl u) = 0
       \<and> (\<forall>l < NUM_LPAGES. dac_word u l = dac_word s l)" by blast
  have "\<exists>u. (da_ftl_open hw isr bsp sram_rest fw_pages t \<bind> da_ftl_read hw lba n) = Some u
      \<and> (\<forall>k < n. \<forall>x < 512. ddram u (rd_ring dac_layout ((lba mod SECTORS_PER_PAGE + k) div SECTORS_PER_PAGE) + (lba + k) mod SECTORS_PER_PAGE * 512 + x)
           = seen (sector (dac_word s) (lba + k) x))" if "pages (nand (dfl t)) = pages (nand (dfl s'))" for t
  proof -
    from s'(2) [OF dpage_eq [OF that]] obtain u where u: "da_ftl_open hw isr bsp sram_rest fw_pages t = Some u" "dmap_ok u" "g_ftl_read_buf_id (dfl u) = 0"
      "\<And>l. l < NUM_LPAGES \<Longrightarrow> dac_word u l = dac_word s l" by blast
    have "0 < DA_NUM_RD_BUFFERS" by (simp add: geom)
    from da_read_result [OF assms(1) u(2) assms(5) _ assms(6), unfolded u(3), OF this] obtain v where v: "da_ftl_read hw lba n u = Some v"
      "\<forall>k < n. \<forall>x < 512. ddram v (rd_ring dac_layout (0 + (lba mod SECTORS_PER_PAGE + k) div SECTORS_PER_PAGE) + (lba + k) mod SECTORS_PER_PAGE * 512 + x)
         = seen (sector (dac_word u) (lba + k) x)" by blast
    have "sector (dac_word u) (lba + k) x = sector (dac_word s) (lba + k) x" if "k < n" "x < 512" for k x
      using u(4) sec_pos(1) [of "lba + k" x] assms(5) that by (simp add: sector_def)
    with v u(1) show ?thesis by (intro exI [of _ v]) simp
  qed
  with s'(1) show ?thesis by blast
qed

text \<open>A formatted device on which logical page 0 is in page 0 of block 20.\<close>

definition da_disk :: dstate where
  "da_disk = (da_demo 0)\<lparr>dfl := fstate0\<lparr>nand := set_page (REAL_BANK 0) 2560 (\<lambda>x. of_nat (x + 7)) (set_page (REAL_BANK 0) (FW_PAGE_OFFSET + 10) (\<lambda>_. 0) (nand fstate0)),
     dram := (\<lambda>a. if a = DA_PAGE_MAP_ADDR then 2560 else 0)\<rparr>\<rparr>"

lemma log_room_cong:
  assumes "d_misc_meta t = d_misc_meta s" and "\<And>b r. b < NUM_BANKS \<Longrightarrow> r div PAGES_PER_VBLK \<in> log_blocks s b \<Longrightarrow> dpage t b r = dpage s b r" and room: "log_room s"
  shows "log_room t"
proof -
  have v: "get_mapblk_vpn b l t = get_mapblk_vpn b l s" "get_miscblk_vpn b t = get_miscblk_vpn b s" for b l
    using assms(1) by (simp_all add: get_mapblk_vpn_def get_miscblk_vpn_def)
  have "dblank t b r = dblank s b r" if "b < NUM_BANKS" "r div PAGES_PER_VBLK \<in> log_blocks s b" for b r
    using dblank_cong [of t b r s] assms(2) [OF that] by simp
  then show ?thesis using room unfolding log_room_def misc_ready_def map_room_def Let_def v assms(1) log_blocks_def by simp
qed

lemma da_disk_page:
  "b < NUM_BANKS \<Longrightarrow> dpage da_disk b r = (if b = 0 \<and> r = 2560 then (\<lambda>x. of_nat (x + 7)) else if b = 0 \<and> r = FW_PAGE_OFFSET + 10 then (\<lambda>_. 0) else dpage (da_demo 0) b r)"
  using REAL_BANK_inj [of b 0] by (auto simp: dpage_def da_disk_def da_demo_def set_page_def fun_eq_iff geom)

lemma da_disk_blocks: "log_blocks da_disk b = {1, 2, 3}" "log_blocks (da_demo 0) b = {1, 2, 3}"
  by (simp_all add: log_blocks_def da_disk_def da_demo_def get_mapblk_vpn_def geom)

lemma da_disk_vpn: "l < NUM_LPAGES \<Longrightarrow> dvpn da_disk l = (if l = 0 then 2560 else 0)"
  by (simp add: dvpn_def da_disk_def ddram_def geom)

lemma da_disk_ok: "log_room da_disk" "data_kept 10 da_disk"
proof -
  show "log_room da_disk"
  proof (rule log_room_cong [OF _ _ demo_room])
    show "d_misc_meta da_disk = d_misc_meta (da_demo 0)" by (simp add: da_disk_def)
    show "dpage da_disk b r = dpage (da_demo 0) b r" if "b < NUM_BANKS" "r div PAGES_PER_VBLK \<in> log_blocks (da_demo 0) b" for b r
      using that by (auto simp: da_disk_page da_disk_blocks geom)
  qed
  have "mark_there 10 da_disk" unfolding mark_there_def by (rule exI [of _ 0]) (simp add: da_disk_page geom)
  then show "data_kept 10 da_disk" by (simp add: data_kept_def dmap_ok_def da_disk_vpn da_disk_blocks geom)
qed

theorem power_off_reads_back_witness:
  "\<exists>s' u. da_ftl_flush hw_ref (\<lambda>_. 0) da_disk = Some s'
    \<and> (da_ftl_open hw_ref id bsp_ref (\<lambda>_. 0) 10 (powered_off s') \<bind> da_ftl_read hw_ref 1 100) = Some u \<and> ddram u (DA_RD_BUF_ADDR + 512 + 4) = 523"
proof -
  have N: "1 + 100 \<le> NUM_LSECTORS" "span (1 mod SECTORS_PER_PAGE) 100 \<le> DA_NUM_RD_BUFFERS" by (simp_all add: span_def pages_of_def geom)
  from power_off_reads_back [OF hw_ref_ok bsp_ref_ok da_disk_ok N, of "\<lambda>_. 0" id] obtain s' where s': "da_ftl_flush hw_ref (\<lambda>_. 0) da_disk = Some s'"
    "\<forall>t. pages (nand (dfl t)) = pages (nand (dfl s')) \<longrightarrow>
      (\<exists>u. (da_ftl_open hw_ref id bsp_ref (\<lambda>_. 0) 10 t \<bind> da_ftl_read hw_ref 1 100) = Some u
      \<and> (\<forall>k < 100. \<forall>x < 512. ddram u (rd_ring dac_layout ((1 mod SECTORS_PER_PAGE + k) div SECTORS_PER_PAGE) + (1 + k) mod SECTORS_PER_PAGE * 512 + x)
           = seen (sector (dac_word da_disk) (1 + k) x)))" by blast
  have "pages (nand (dfl (powered_off s'))) = pages (nand (dfl s'))" by (simp add: powered_off_def)
  with s'(2) obtain u where u: "(da_ftl_open hw_ref id bsp_ref (\<lambda>_. 0) 10 (powered_off s') \<bind> da_ftl_read hw_ref 1 100) = Some u"
    "\<forall>k < 100. \<forall>x < 512. ddram u (rd_ring dac_layout ((1 mod SECTORS_PER_PAGE + k) div SECTORS_PER_PAGE) + (1 + k) mod SECTORS_PER_PAGE * 512 + x)
           = seen (sector (dac_word da_disk) (1 + k) x)" by blast
  have "sector (dac_word da_disk) 1 4 = Some 523" by (simp add: sector_def dac_word_def da_disk_vpn da_disk_page geom)
  with u(2) [rule_format, of 0 4] have "ddram u (rd_ring dac_layout 0 + 512 + 4) = 523" by (simp add: seen_def geom)
  then show ?thesis using s'(1) u(1) by (intro exI conjI) (assumption | simp add: rd_ring_def RD_BUF_PTR_def)+
qed

end
