(* ===== verification/Dev_Name.thy ===== *)
theory Dev_Name
  imports Client_Lib
begin

text \<open>
  The name of a block device from its number (\<open>PCModule2/client/getDevname.c\<close>): a depth-first search of
  \<open>/sys/block\<close> for a directory whose file \<open>dev\<close> holds the major and minor number. The file system is a
  parameter: a tree of directories with the entries in the order \<open>readdir\<close> returns them.
\<close>

subsection \<open>The file system and the C library\<close>

text \<open>
  A directory: whether \<open>opendir\<close> succeeds, the content of its file \<open>dev\<close> if \<open>fopen\<close> succeeds, and its entries
  with their names and types. An entry that is no directory is one that does not open.
\<close>

datatype sysdir = SysDir (dir_opens: bool) (dev_file: "string option") (dir_entries: "(string \<times> nat \<times> sysdir) list")

definition BUF_SIZE :: nat where [geom]: "BUF_SIZE = 512"

definition DT_UNKNOWN :: nat where "DT_UNKNOWN = 0"
definition DT_DIR :: nat where "DT_DIR = 4"
definition DT_LNK :: nat where "DT_LNK = 10"

text \<open>\<open>strtoul(s, &ep, 10)\<close>: the number and what follows it; without a digit the number is 0 and \<open>ep\<close> is \<open>s\<close>.\<close>

definition strtoul :: "string \<Rightarrow> nat \<times> string" where
  "strtoul s = (let t = dropWhile isspace s;
       neg = (t \<noteq> [] \<and> hd t = CHR ''-'');
       t = (if t \<noteq> [] \<and> (hd t = CHR ''-'' \<or> hd t = CHR ''+'') then tl t else t);
       ds = takeWhile isdigit t; v = undec ds; M = 18446744073709551616
     in if ds = [] then (0, s)
        else (if M \<le> v then M - 1 else if neg then (M - v) mod M else v, dropWhile isdigit t))"

text \<open>The two numbers in the buffer, separated by a colon and closed by a line feed.\<close>

definition dev_numbers :: "string \<Rightarrow> (nat \<times> nat) option" where
  "dev_numbers namebuf = (let (ma, ep) = strtoul namebuf in
     if ep = [] \<or> hd ep \<noteq> CHR '':'' then None
     else let (mi, ep) = strtoul (tl ep) in
       if ep = [] \<or> of_char (hd ep) \<noteq> (10::nat) then None else Some (ma, mi))"

subsection \<open>The search\<close>

text \<open>
  \<open>cap\<close> is the size of the caller's buffer, \<open>len\<close> the length of the directory's path. \<open>None\<close> is a write past
  the end of the buffer, which also serves to read the file; \<open>Some None\<close> is not found.
\<close>

definition skipped :: "nat \<Rightarrow> string \<Rightarrow> nat \<Rightarrow> bool" where
  "skipped len name ty \<longleftrightarrow> (name \<noteq> [] \<and> hd name = CHR ''.'') \<or> (ty \<noteq> DT_UNKNOWN \<and> ty \<noteq> DT_DIR \<and> ty \<noteq> DT_LNK)
     \<or> BUF_SIZE - 64 - (len + 1) \<le> length name"

lemma dir_entries_size: "size_list (\<lambda>x. size (snd (snd x))) (dir_entries d) < size d"
proof (cases d)
  case (SysDir a b es)
  have "size_list (\<lambda>x. size (snd (snd x))) es \<le> size_list (size_prod (\<lambda>x. 0) (size_prod (\<lambda>x. 0) size)) es"
    by (induction es) (auto simp: size_prod_simp)
  then show ?thesis using SysDir by simp
qed

lemma dir_entries_measure: "Suc (2 * size_list (\<lambda>x. size (snd (snd x))) (dir_entries d)) < 2 * size d"
  using dir_entries_size [of d] by linarith

function scansysdir :: "nat \<Rightarrow> nat \<Rightarrow> nat \<Rightarrow> nat \<Rightarrow> sysdir \<Rightarrow> string option option"
  and scan_entries :: "nat \<Rightarrow> nat \<Rightarrow> nat \<Rightarrow> nat \<Rightarrow> (string \<times> nat \<times> sysdir) list \<Rightarrow> string option option" where
  "scansysdir cap ma mi len d = (if dir_opens d then scan_entries cap ma mi len (dir_entries d) else Some None)"
| "scan_entries cap ma mi len [] = Some None"
| "scan_entries cap ma mi len ((name, ty, d) # es) =
     (if skipped len name ty then scan_entries cap ma mi len es
      else case dev_file d of
        None \<Rightarrow> scan_entries cap ma mi len es
      | Some content \<Rightarrow>
          (let namebuf = take BUF_SIZE content in
           if cap \<le> length namebuf then None
           else case dev_numbers namebuf of
             None \<Rightarrow> scan_entries cap ma mi len es
           | Some (ma', mi') \<Rightarrow>
               if ma' \<noteq> ma then scan_entries cap ma mi len es
               else if mi' = mi then (if cap \<le> length name then None else Some (Some name))
               else (case scansysdir cap ma mi (len + 1 + length name) d of
                       None \<Rightarrow> None
                     | Some (Some n) \<Rightarrow> Some (Some n)
                     | Some None \<Rightarrow> scan_entries cap ma mi len es)))"
  by pat_completeness auto

termination
  by (relation "measure (case_sum (\<lambda>(_, _, _, _, d). 2 * size d) (\<lambda>(_, _, _, _, es). 2 * size_list (\<lambda>x. size (snd (snd x))) es + 1))")
     (use dir_entries_measure in auto)

text \<open>\<open>bdevname\<close>, for a client whose buffer has \<open>MAX_DEVNAME_LEN\<close> bytes.\<close>

definition bdevname :: "sysdir \<Rightarrow> nat \<Rightarrow> nat \<Rightarrow> string option option" where
  "bdevname sysblock ma mi = scansysdir MAX_DEVNAME_LEN ma mi (length ''/sys/block'') sysblock"

subsection \<open>What is found\<close>

text \<open>
  A device below a directory, in the order-free reading of the tree: an entry that may be a device and holds
  the major number, or such a device below an entry that holds the same major number.
\<close>

definition candidate :: "nat \<Rightarrow> nat \<Rightarrow> sysdir \<Rightarrow> string \<Rightarrow> sysdir \<Rightarrow> nat \<Rightarrow> bool" where
  "candidate len ma d name c mi \<longleftrightarrow> (\<exists>ty content. (name, ty, c) \<in> set (dir_entries d) \<and> \<not> skipped len name ty
     \<and> dev_file c = Some content \<and> dev_numbers (take BUF_SIZE content) = Some (ma, mi))"

inductive sys_device :: "nat \<Rightarrow> nat \<Rightarrow> nat \<Rightarrow> sysdir \<Rightarrow> string \<Rightarrow> bool" for ma mi where
  here: "dir_opens d \<Longrightarrow> candidate len ma d name c mi \<Longrightarrow> sys_device ma mi len d name"
| below: "dir_opens d \<Longrightarrow> candidate len ma d name c mi' \<Longrightarrow> sys_device ma mi (len + 1 + length name) c n \<Longrightarrow> sys_device ma mi len d n"

definition entries_device :: "nat \<Rightarrow> nat \<Rightarrow> nat \<Rightarrow> (string \<times> nat \<times> sysdir) list \<Rightarrow> string \<Rightarrow> bool" where
  "entries_device ma mi len es n \<longleftrightarrow> (\<exists>name ty c content mi'. (name, ty, c) \<in> set es \<and> \<not> skipped len name ty
     \<and> dev_file c = Some content \<and> dev_numbers (take BUF_SIZE content) = Some (ma, mi')
     \<and> (mi' = mi \<and> n = name \<or> sys_device ma mi (len + 1 + length name) c n))"

lemma sys_device_iff: "sys_device ma mi len d n \<longleftrightarrow> dir_opens d \<and> entries_device ma mi len (dir_entries d) n"
proof
  assume "sys_device ma mi len d n"
  then show "dir_opens d \<and> entries_device ma mi len (dir_entries d) n"
  proof cases
    case (here c)
    then show ?thesis unfolding candidate_def entries_device_def by blast
  next
    case (below name c mi')
    then show ?thesis unfolding candidate_def entries_device_def by blast
  qed
next
  assume a: "dir_opens d \<and> entries_device ma mi len (dir_entries d) n"
  then obtain name c mi' where "candidate len ma d name c mi'" "mi' = mi \<and> n = name \<or> sys_device ma mi (len + 1 + length name) c n"
    unfolding entries_device_def candidate_def by blast
  with a show "sys_device ma mi len d n" by (auto intro: here below simp del: One_nat_def add_Suc_right)
qed

lemma entries_device_simps [simp]:
  "\<not> entries_device ma mi len [] n"
  "entries_device ma mi len ((name, ty, d) # es) n \<longleftrightarrow> entries_device ma mi len es n
     \<or> (\<not> skipped len name ty \<and> (\<exists>content mi'. dev_file d = Some content \<and> dev_numbers (take BUF_SIZE content) = Some (ma, mi')
          \<and> (mi' = mi \<and> n = name \<or> sys_device ma mi (len + 1 + length name) d n)))"
  unfolding entries_device_def by (simp, simp only: list.set insert_iff prod.inject) blast

text \<open>Every name and every \<open>dev\<close> file in reach fits the caller's buffer.\<close>

fun fits :: "nat \<Rightarrow> sysdir \<Rightarrow> bool" where
  "fits cap (SysDir ok f es) \<longleftrightarrow> (\<forall>x \<in> set es. length (fst x) < cap \<and> (\<forall>c. dev_file (snd (snd x)) = Some c \<longrightarrow> length (take BUF_SIZE c) < cap) \<and> fits cap (snd (snd x)))"

definition found_ok :: "(string \<Rightarrow> bool) \<Rightarrow> string option option \<Rightarrow> bool" where
  "found_ok P r \<longleftrightarrow> (case r of None \<Rightarrow> False | Some None \<Rightarrow> \<forall>n. \<not> P n | Some (Some n) \<Rightarrow> P n)"

lemma scan_correct:
  "fits cap d \<Longrightarrow> found_ok (sys_device ma mi len d) (scansysdir cap ma mi len d)"
  "fits cap (SysDir True None es) \<Longrightarrow> found_ok (entries_device ma mi len es) (scan_entries cap ma mi len es)"
proof (induction cap ma mi len d and cap ma mi len es rule: scansysdir_scan_entries.induct)
  case (1 cap ma mi len d)
  have f: "fits cap (SysDir True None (dir_entries d))" using 1(2) by (cases d) simp
  show ?case using 1(1) [OF _ f] by (auto simp: found_ok_def sys_device_iff split: option.splits)
next
  case (2 cap ma mi len)
  then show ?case by (simp add: found_ok_def)
next
  case (3 cap ma mi len name ty d es)
  note IH = 3(1-6)
  from 3(7) have f: "fits cap (SysDir True None es)" "fits cap d" "length name < cap" "\<And>c. dev_file d = Some c \<Longrightarrow> length (take BUF_SIZE c) < cap"
    by auto
  show ?case
  proof (cases "skipped len name ty \<or> dev_file d = None")
    case True
    then have "found_ok (entries_device ma mi len es) (scan_entries cap ma mi len es)" using IH(1,2) f(1) by blast
    moreover have "entries_device ma mi len ((name, ty, d) # es) = entries_device ma mi len es" using True by (intro ext) auto
    moreover have "scan_entries cap ma mi len ((name, ty, d) # es) = scan_entries cap ma mi len es" using True by auto
    ultimately show ?thesis by (simp only:)
  next
    case False
    then obtain c where ns: "\<not> skipped len name ty" and c: "dev_file d = Some c" by auto
    have cap: "\<not> cap \<le> length (take BUF_SIZE c)" using f(4) [OF c] by (simp only: not_le)
    show ?thesis
    proof (cases "dev_numbers (take BUF_SIZE c)")
      case None
      from IH(3) [OF ns c refl cap None f(1)] have "found_ok (entries_device ma mi len es) (scan_entries cap ma mi len es)" .
      moreover have "entries_device ma mi len ((name, ty, d) # es) = entries_device ma mi len es" using c None by (intro ext) simp
      moreover have "scan_entries cap ma mi len ((name, ty, d) # es) = scan_entries cap ma mi len es" using ns c cap None by (simp add: Let_def del: length_take)
      ultimately show ?thesis by (simp only:)
    next
      case (Some x)
      obtain ma' mi' where x: "x = (ma', mi')" by fastforce
      note num = Some [unfolded x]
      show ?thesis
      proof (cases "ma' = ma")
        case False
        have "found_ok (entries_device ma mi len es) (scan_entries cap ma mi len es)" using IH(4) [OF ns c refl cap num refl False f(1)] .
        moreover have "entries_device ma mi len ((name, ty, d) # es) = entries_device ma mi len es" using c num False by (intro ext) simp
        moreover have "scan_entries cap ma mi len ((name, ty, d) # es) = scan_entries cap ma mi len es" using ns c cap num False by (simp add: Let_def del: length_take)
        ultimately show ?thesis by (simp only:)
      next
        case True
        then have ma: "\<not> ma' \<noteq> ma" by simp
        show ?thesis
        proof (cases "mi' = mi")
          case m: True
          then show ?thesis using ns c cap num True f(3) by (simp add: found_ok_def Let_def del: length_take)
        next
          case m: False
          let ?r = "scansysdir cap ma mi (len + 1 + length name) d"
          have sub: "found_ok (sys_device ma mi (len + 1 + length name) d) ?r" using IH(5) [OF ns c refl cap num refl ma m f(2)] .
          show ?thesis
          proof (cases ?r)
            case None
            then show ?thesis using sub by (simp add: found_ok_def)
          next
            case r: (Some y)
            show ?thesis
            proof (cases y)
              case None
              then have "found_ok (entries_device ma mi len es) (scan_entries cap ma mi len es)"
                using IH(6) [OF ns c refl cap num refl ma m r] f(1) by blast
              then show ?thesis using ns c cap num True m r None sub by (simp add: found_ok_def Let_def del: length_take)
            next
              case (Some n)
              then show ?thesis using ns c cap num True m r sub by (simp add: found_ok_def Let_def del: length_take)
            qed
          qed
        qed
      qed
    qed
  qed
qed

lemma strtoul_dec_nat: "n < 18446744073709551616 \<Longrightarrow> s = [] \<or> \<not> isdigit (hd s) \<Longrightarrow> strtoul (dec_nat n @ s) = (n, s)"
proof -
  assume n: "n < 18446744073709551616" and s: "s = [] \<or> \<not> isdigit (hd s)"
  have ne: "dec_nat n \<noteq> []" by (subst dec_nat.simps) simp
  obtain d where d: "d < 10" "hd (dec_nat n) = digit d" using dec_nat_chars [OF hd_in_set [OF ne]] by blast
  then have "(of_char (hd (dec_nat n)) :: nat) = 48 + d" by (simp add: digit_def)
  then have h: "\<not> isspace (hd (dec_nat n))" "hd (dec_nat n) \<noteq> CHR ''-''" "hd (dec_nat n) \<noteq> CHR ''+''"
    using d(1) by (auto simp: isspace_def)
  then have sp: "dropWhile isspace (dec_nat n @ s) = dec_nat n @ s" using ne by (cases "dec_nat n") simp_all
  have all: "\<forall>c \<in> set (dec_nat n). isdigit c" using takeWhile_digits [of n] by (metis set_takeWhileD)
  have tw: "takeWhile isdigit (dec_nat n @ s) = dec_nat n" "dropWhile isdigit (dec_nat n @ s) = s"
    using all s by (cases s; simp add: takeWhile_append2 dropWhile_append2)+
  show ?thesis using ne h n by (simp add: strtoul_def Let_def sp tw undec_dec_nat)
qed

lemma dev_numbers_dec:
  assumes "ma < 2 ^ 64" "mi < 2 ^ 64"
  shows "dev_numbers (dec_nat ma @ CHR '':'' # dec_nat mi @ [char_of (10::nat)]) = Some (ma, mi)"
proof -
  have 1: "strtoul (dec_nat ma @ CHR '':'' # dec_nat mi @ [char_of (10::nat)]) = (ma, CHR '':'' # dec_nat mi @ [char_of (10::nat)])"
    using assms(1) by (intro strtoul_dec_nat) (simp_all add: isdigit_def)
  have 2: "strtoul (dec_nat mi @ [char_of (10::nat)]) = (mi, [char_of (10::nat)])"
    using assms(2) by (intro strtoul_dec_nat) (simp_all add: isdigit_def)
  show ?thesis unfolding dev_numbers_def 1 by (simp add: 2)
qed

text \<open>
  C28. \<open>bdevname\<close> finds a device exactly when the tree holds one: with names and \<open>dev\<close> files that fit the client's
  buffer it returns a directory with the number asked for that is reached through directories of the same
  major number, and reports that there is none only when there is none. The kernel's own text of the two
  numbers is read back.
\<close>

theorem bdevname_finds:
  assumes "fits MAX_DEVNAME_LEN sysblock"
  shows "(case bdevname sysblock ma mi of
       None \<Rightarrow> False
     | Some None \<Rightarrow> \<forall>n. \<not> sys_device ma mi (length ''/sys/block'') sysblock n
     | Some (Some n) \<Rightarrow> sys_device ma mi (length ''/sys/block'') sysblock n)
    \<and> (ma < 2 ^ 64 \<and> mi < 2 ^ 64 \<longrightarrow> dev_numbers (dec_nat ma @ CHR '':'' # dec_nat mi @ [char_of (10::nat)]) = Some (ma, mi))"
  using scan_correct(1) [OF assms, of ma mi "length ''/sys/block''"] dev_numbers_dec [of ma mi]
  unfolding bdevname_def found_ok_def by blast

text \<open>A disk with a partition.\<close>

definition demo_sys :: sysdir where
  "demo_sys = SysDir True None
     [(''.'', DT_DIR, SysDir True None []),
      (''sdb'', DT_LNK, SysDir True (Some (''8:16'' @ [char_of (10::nat)])) [(''size'', 8, SysDir False None []), (''sdb1'', DT_DIR, SysDir True (Some (''8:17'' @ [char_of (10::nat)])) [])])]"

theorem bdevname_finds_witness:
  "bdevname demo_sys 8 17 = Some (Some ''sdb1'') \<and> sys_device 8 17 (length ''/sys/block'') demo_sys ''sdb1''"
proof -
  have dn: "dev_numbers (''8:16'' @ [char_of (10::nat)]) = Some (8, 16)" "dev_numbers (''8:17'' @ [char_of (10::nat)]) = Some (8, 17)"
    by (simp_all add: dev_numbers_def strtoul_def isdigit_def isspace_def undec_def)
  have e: "bdevname demo_sys 8 17 = Some (Some ''sdb1'')"
    using dn by (simp add: bdevname_def demo_sys_def skipped_def DT_UNKNOWN_def DT_DIR_def DT_LNK_def geom)
  have "fits MAX_DEVNAME_LEN demo_sys" by (simp add: demo_sys_def geom)
  from bdevname_finds [OF this, of 8 17] show ?thesis unfolding e option.case by blast
qed

end
