(* ===== verification/Ftl_Host.thy ===== *)
theory Ftl_Host
  imports Ftl_Tutorial
begin

text \<open>
  What the tutorial layer promises to the host: \<open>ftl_open\<close> brings any device that obeys the flash laws into
  the layer's invariant with an empty store, \<open>ftl_write\<close> stores the sectors the host delivers, \<open>ftl_read\<close>
  delivers the sectors the host asks for; and which blocks the layer takes for bad.
\<close>

subsection \<open>Bad blocks\<close>

text \<open>The scan list of bank \<open>b\<close> after \<open>ftl_open\<close>: the counter is cleared and the entries follow it.\<close>

definition scan_shows :: "dram \<Rightarrow> nat \<Rightarrow> nat list \<Rightarrow> bool" where
  "scan_shows d b L \<longleftrightarrow> item 2 (scan_list b) d = 0 \<and> (\<forall>i < length L. item 2 (scan_list b + 2 + i * 2) d = L ! i)"

lemma scan_hit:
  assumes "scan_shows d b L" and "L \<noteq> []"
  shows "first_equ 2 (scan_list b) (length L) v d < length L \<longleftrightarrow> v = 0 \<or> v \<in> set (butlast L)"
proof -
  have it: "item 2 (scan_list b + i * 2) d = (if i = 0 then 0 else L ! (i - 1))" if "i < length L" for i
    using assms(1) that by (cases i) (auto simp: scan_shows_def add.assoc)
  have "(\<exists>i < length L. item 2 (scan_list b + i * 2) d = v) \<longleftrightarrow> v = 0 \<or> (\<exists>i < length L - 1. L ! i = v)"
  proof
    assume "\<exists>i < length L. item 2 (scan_list b + i * 2) d = v"
    then obtain i where i: "i < length L" "item 2 (scan_list b + i * 2) d = v" by blast
    show "v = 0 \<or> (\<exists>i < length L - 1. L ! i = v)"
    proof (cases i)
      case 0 then show ?thesis using i it [OF i(1)] by simp
    next
      case (Suc j)
      then have "j < length L - 1" "L ! j = v" using i it [OF i(1)] by simp_all
      then show ?thesis by blast
    qed
  next
    assume "v = 0 \<or> (\<exists>i < length L - 1. L ! i = v)"
    then show "\<exists>i < length L. item 2 (scan_list b + i * 2) d = v"
    proof
      assume "v = 0" then show ?thesis using it [of 0] assms(2) by (intro exI [of _ 0]) simp
    next
      assume "\<exists>i < length L - 1. L ! i = v"
      then obtain i where i: "i < length L - 1" "L ! i = v" by blast
      then have "i + 1 < length L" by simp
      then show ?thesis using it [of "i + 1"] i(2) by (intro exI [of _ "i + 1"]) simp
    qed
  qed
  also have "(\<exists>i < length L - 1. L ! i = v) \<longleftrightarrow> v \<in> set (butlast L)"
    by (auto simp: in_set_conv_nth nth_butlast)
  finally show ?thesis by (simp add: first_equ_less)
qed

text \<open>
  C39. \<open>is_bad_block\<close> overlooks the last entry of the scan list: it takes for bad the blocks of all entries but the
  last, and block 0 because of the cleared counter, so that a bank whose scan list has one entry is used as if
  it had no bad block.
\<close>

theorem is_bad_block_misses_last:
  assumes "scan_shows d b L" and "entries b = length L" and "length L \<le> SCAN_LIST_ITEMS"
  shows "is_bad_block d entries b v = Some (L \<noteq> [] \<and> (v = 0 \<or> (\<exists>p \<in> set (butlast L). p div NUM_PLANES = v)))"
proof (cases "L = []")
  case True
  then show ?thesis using assms by (simp add: is_bad_block_def search_equ_small scan_list_aligned)
next
  case False
  have P: "NUM_PLANES = 2" by (simp add: geom)
  have s: "search_equ 2 (scan_list b) (length L) w d = Some (first_equ 2 (scan_list b) (length L) w d)" for w
    using False assms(3) by (simp add: search_equ_small scan_list_aligned)
  have "p div 2 = v \<longleftrightarrow> p = v * 2 \<or> p = v * 2 + 1" for p :: nat by auto
  then have "(\<exists>p \<in> set (butlast L). p div NUM_PLANES = v) \<longleftrightarrow> v * 2 \<in> set (butlast L) \<or> v * 2 + 1 \<in> set (butlast L)"
    unfolding P by auto
  then show ?thesis using False scan_hit [OF assms(1) False] by (auto simp: is_bad_block_def assms(2) s P)
qed

theorem is_bad_block_misses_last_witness:
  "is_bad_block ((\<lambda>_. 0)(SCAN_LIST_ADDR := push_bit 16 7, SCAN_LIST_ADDR + 4 := 9)) (\<lambda>_. 2) 0 3 = Some True
   \<and> is_bad_block ((\<lambda>_. 0)(SCAN_LIST_ADDR := push_bit 16 7, SCAN_LIST_ADDR + 4 := 9)) (\<lambda>_. 2) 0 4 = Some False"
proof -
  let ?d = "(\<lambda>_. 0)(SCAN_LIST_ADDR := push_bit 16 7, SCAN_LIST_ADDR + 4 := 9) :: dram"
  have sc: "scan_list 0 = SCAN_LIST_ADDR" by (simp add: scan_list_def)
  have a: "aligned_addr SCAN_LIST_ADDR = SCAN_LIST_ADDR" "aligned_addr (SCAN_LIST_ADDR + 2) = SCAN_LIST_ADDR"
    "aligned_addr (SCAN_LIST_ADDR + 2 + 2) = SCAN_LIST_ADDR + 4" "SCAN_LIST_ADDR mod 4 = 0" "(SCAN_LIST_ADDR + 2) mod 4 = 2" "(SCAN_LIST_ADDR + 2 + 2) mod 4 = 0"
    by (simp_all add: aligned_addr_def geom)
  have i: "item 2 SCAN_LIST_ADDR ?d = 0" "item 2 (SCAN_LIST_ADDR + 2) ?d = 7" "item 2 (SCAN_LIST_ADDR + 2 + 2) ?d = 9"
    unfolding item_def ld16_def a by (simp_all add: push_bit_eq_mult drop_bit_eq_div)
  have "scan_shows ?d 0 [7, 9]" using i by (simp add: scan_shows_def sc less_Suc_eq)
  then show ?thesis using is_bad_block_misses_last [of ?d 0 "[7, 9]" "\<lambda>_. 2"] by (simp add: geom)
qed

subsection \<open>Opening the layer\<close>

lemma scan_list_bytes:
  assumes "b < NUM_BANKS" and "i < SCAN_LIST_ITEMS"
  shows "dram_addr (scan_list b + 2 + 2 * i)" "dram_addr (scan_list b)"
proof -
  have "b \<le> 7" using assms(1) by (simp add: geom)
  then show "dram_addr (scan_list b + 2 + 2 * i)" "dram_addr (scan_list b)" using assms(2) by (simp_all add: dram_addr_def scan_list_def geom)
qed

lemma scan_entries_total:
  "b < NUM_BANKS \<Longrightarrow> \<forall>i \<in> set is. i < SCAN_LIST_ITEMS \<Longrightarrow> \<exists>ok d'. scan_entries b is (ok0, d) = Some (ok, d')"
proof (induction "is" arbitrary: ok0 d)
  case (Cons i "is")
  then have "dram_addr (scan_list b + 2 + 2 * i)" using scan_list_bytes(1) by simp
  then show ?case using Cons by (simp add: rd16_def wr16_def Let_def)
qed simp

lemma load_scan_list_ok:
  assumes "b < NUM_BANKS"
  shows "\<exists>s' d. load_scan_list b s = Some s' \<and> fl s' = (fl s)\<lparr>dram := d\<rparr> \<and> intr s' = intr s
    \<and> (\<exists>n \<le> SCAN_LIST_ITEMS. g_scan_list_entries s' = (g_scan_list_entries s)(b := n))"
proof -
  have a: "dram_addr (scan_list b)" using scan_list_bytes(2) [OF assms, of 0] by (simp add: geom)
  have fill: "\<exists>d'. dram_fill (scan_list b) 0 SCAN_LIST_SIZE d = Some d'" for d
    using assms by (auto simp: dram_fill_def scan_list_def geom mod_eq_0_iff_dvd)
  have "\<exists>ok n d. (if intr s b AND FIRQ_DATA_CORRUPT \<noteq> 0 then Some (False, 0, tdram s)
        else do {
          num_entries \<leftarrow> rd16 (scan_list b) (tdram s);
          if SCAN_LIST_ITEMS < num_entries then Some (False, num_entries, tdram s)
          else do {
            (ok, d) \<leftarrow> scan_entries b [0..<num_entries] (True, tdram s);
            Some (ok, num_entries, d) } }) = Some (ok, n, d) \<and> (ok \<longrightarrow> n \<le> SCAN_LIST_ITEMS)"
  proof (cases "intr s b AND FIRQ_DATA_CORRUPT \<noteq> 0")
    case False
    let ?n = "unat (ld16 (scan_list b) (tdram s))"
    show ?thesis
    proof (cases "SCAN_LIST_ITEMS < ?n")
      case True then show ?thesis using False a by (intro exI [of _ False]) (simp add: rd16_def)
    next
      case le: False
      then have "\<forall>i \<in> set [0..<?n]. i < SCAN_LIST_ITEMS" by simp
      from scan_entries_total [OF assms this, of True "tdram s"] False a le show ?thesis by (auto simp: rd16_def)
    qed
  next
    case True then show ?thesis by (intro exI [of _ False]) simp
  qed
  then obtain ok n d where *: "(if intr s b AND FIRQ_DATA_CORRUPT \<noteq> 0 then Some (False, 0, tdram s)
        else do {
          num_entries \<leftarrow> rd16 (scan_list b) (tdram s);
          if SCAN_LIST_ITEMS < num_entries then Some (False, num_entries, tdram s)
          else do {
            (ok, d) \<leftarrow> scan_entries b [0..<num_entries] (True, tdram s);
            Some (ok, num_entries, d) } }) = Some (ok, n, d)" "ok \<longrightarrow> n \<le> SCAN_LIST_ITEMS" by blast
  obtain d' where d': "dram_fill (scan_list b) 0 SCAN_LIST_SIZE d = Some d'" using fill by blast
  show ?thesis unfolding load_scan_list_def *(1)
    using *(2) d' a by (cases ok) (auto simp: wr16_def set_dram_def on_fl_def)
qed

lemma read_scan_list_pages: "flash_ok lay hw \<Longrightarrow> pages (nand (read_scan_list hw b f)) = pages (nand f)"
proof -
  assume hw: "flash_ok lay hw"
  let ?f = "setup_fcp FC_COL_ROW_READ_OUT FO_E (scan_list b) SCAN_LIST_SIZE 0 b SCAN_LIST_PAGE_OFFSET f"
  have "pages (nand (fcp_issue hw (log Wait_Room (set_fcp (\<lambda>g. g\<lparr>fcp_bank := REAL_BANK b\<rparr>) ?f)))) = pages (nand f)"
    by (subst read_pages [OF hw]) (simp_all add: set_fcp_def setup_rows log_def)
  then show ?thesis by (simp add: read_scan_list_def flash_issue_cmd_def Let_def)
qed

lemma read_scan_lists_pages: "flash_ok lay hw \<Longrightarrow> pages (nand (fold (read_scan_list hw) bs f)) = pages (nand f)"
  by (induction bs arbitrary: f) (simp_all add: read_scan_list_pages)

lemma check_format_mark_fields:
  assumes "flash_ok lay hw" and "check_format_mark hw n s = (formatted, s')"
  shows "formatted \<longleftrightarrow> intr s 0 AND FIRQ_ALL_FF = 0" "pages (nand (fl s')) = pages (nand (fl s))"
    "g_scan_list_entries s' = g_scan_list_entries s" "\<exists>f. s' = s\<lparr>fl := f, intr := (intr s)(0 := 0)\<rparr>"
proof -
  let ?f = "set_fcp (\<lambda>c. c\<lparr>fcp_bank := REAL_BANK 0\<rparr>) (setup_fcp FC_COL_ROW_READ_OUT FO_E FTL_BUF_ADDR BYTES_PER_SECTOR 0 0 (FW_PAGE_OFFSET + n) (flash_clear_irq (fl s)))"
  have p: "pages (nand (fcp_issue hw ?f)) = pages (nand (fl s))"
    by (subst read_pages [OF assms(1)]) (simp_all add: set_fcp_def setup_rows)
  show "formatted \<longleftrightarrow> intr s 0 AND FIRQ_ALL_FF = 0" "pages (nand (fl s')) = pages (nand (fl s))"
    "g_scan_list_entries s' = g_scan_list_entries s" "\<exists>f. s' = s\<lparr>fl := f, intr := (intr s)(0 := 0)\<rparr>"
    using assms(2) p by (auto simp: check_format_mark_def Let_def on_fl_def)
qed

text \<open>Formatting: every block that is not taken for bad, except block 0, is blank afterwards.\<close>

definition block_blank :: "nand_state \<Rightarrow> nat \<Rightarrow> nat \<Rightarrow> bool" where
  "block_blank n b v \<longleftrightarrow> (\<forall>r. r div PAGES_PER_VBLK = v \<longrightarrow> blank n (REAL_BANK b) r)"

definition formatted :: "tstate \<Rightarrow> nat \<Rightarrow> nat \<Rightarrow> tstate \<Rightarrow> bool" where
  "formatted s0 v b s \<longleftrightarrow> bad_block s0 b v = Some False \<longrightarrow> block_blank (nand (fl s)) b v"

text \<open>What formatting leaves alone: everything but the flash pages and the registers.\<close>

definition only_flash :: "tstate \<Rightarrow> tstate \<Rightarrow> bool" where
  "only_flash s0 s \<longleftrightarrow> tdram s = tdram s0 \<and> g_scan_list_entries s = g_scan_list_entries s0"

lemma erase_block:
  fixes v :: nat and b :: nat
  assumes hw: "flash_ok lay hw" and "b < NUM_BANKS"
  defines "f' \<equiv> \<lambda>f. fcp_issue hw (log Wait_Room (set_fcp (\<lambda>c. set_rows b (v * PAGES_PER_VBLK)
            (c\<lparr>fcp_cmd := FC_ERASE, fcp_bank := REAL_BANK b, fcp_option := FO_P\<rparr>)) f))"
  shows "dram (f' f) = dram f" "block_blank (nand (f' f)) b v"
    "c < NUM_BANKS \<Longrightarrow> block_blank (nand f) c w \<Longrightarrow> block_blank (nand (f' f)) c w"
proof -
  let ?c = "set_rows b (v * PAGES_PER_VBLK) ((fcp f)\<lparr>fcp_cmd := FC_ERASE, fcp_bank := REAL_BANK b, fcp_option := FO_P\<rparr>)"
  have n: "nand (f' f) = fst (hw ?c (nand f, dram f))" "dram (f' f) = snd (hw ?c (nand f, dram f))"
    by (simp_all add: f'_def fcp_issue_def set_fcp_def log_def split_beta)
  have e: "erase_law ?c (nand f) (dram f) (nand (f' f)) (dram (f' f))"
    unfolding n by (rule flash_okD(5) [OF hw]) simp
  have r: "r div PAGES_PER_VBLK * PAGES_PER_VBLK = v * PAGES_PER_VBLK \<longleftrightarrow> r div PAGES_PER_VBLK = v" for r by (simp add: geom)
  have nz: "PAGES_PER_VBLK \<noteq> 0" by (simp add: geom)
  have d: "dram (f' f) = dram f" and p: "\<And>c q. if c = REAL_BANK b \<and> q div PAGES_PER_VBLK = v then blank (nand (f' f)) c q else pages (nand (f' f)) c q = pages (nand f) c q"
    using e nz by (simp_all add: erase_law_def r)
  show "dram (f' f) = dram f" by (rule d)
  show "block_blank (nand (f' f)) b v" using p [of "REAL_BANK b"] by (auto simp: block_blank_def split: if_splits)
  show "block_blank (nand (f' f)) c w" if "c < NUM_BANKS" "block_blank (nand f) c w"
    unfolding block_blank_def
  proof (intro allI impI)
    fix q assume "q div PAGES_PER_VBLK = w"
    then have "blank (nand f) (REAL_BANK c) q" using that(2) by (simp add: block_blank_def)
    then show "blank (nand (f' f)) (REAL_BANK c) q" using p [of "REAL_BANK c" q] by (simp add: blank_def split: if_splits)
  qed
qed

lemma format_block_ok:
  assumes "flash_ok lay hw" and "scan_ok s0" and "only_flash s0 s" and "b < NUM_BANKS"
  shows "\<exists>s'. format_block hw v b s = Some s' \<and> only_flash s0 s' \<and> formatted s0 v b s'
    \<and> (\<forall>w c. c < NUM_BANKS \<longrightarrow> formatted s0 w c s \<longrightarrow> formatted s0 w c s')"
proof -
  have bb: "is_bad_block (tdram s) (g_scan_list_entries s) b v = bad_block s0 b v" using assms(3) by (simp add: only_flash_def bad_block_def)
  obtain bad where bad: "bad_block s0 b v = Some bad" using is_bad_block_total [OF assms(2,4), of v] by blast
  show ?thesis
  proof (cases bad)
    case True
    then show ?thesis using assms(3) bad by (auto simp: format_block_def bb formatted_def)
  next
    case False
    define s' where "s' = on_fl (\<lambda>f. fcp_issue hw (log Wait_Room (set_fcp (\<lambda>c. set_rows b (v * PAGES_PER_VBLK)
            (c\<lparr>fcp_cmd := FC_ERASE, fcp_bank := REAL_BANK b, fcp_option := FO_P\<rparr>)) f))) s"
    have run: "format_block hw v b s = Some s'" using bad False by (simp add: format_block_def bb s'_def)
    note e = erase_block [OF assms(1,4), where v = v and f = "fl s"]
    have "only_flash s0 s'" using assms(3) e(1) by (simp add: only_flash_def s'_def tdram_def)
    moreover have "formatted s0 v b s'" using e(2) by (simp add: formatted_def s'_def)
    moreover have "formatted s0 w c s'" if "c < NUM_BANKS" "formatted s0 w c s" for w c
      using that e(3) by (simp add: formatted_def s'_def)
    ultimately show ?thesis using run by blast
  qed
qed

definition formatted_all :: "tstate \<Rightarrow> nat \<Rightarrow> tstate \<Rightarrow> bool" where
  "formatted_all s0 v s \<longleftrightarrow> (\<forall>b < NUM_BANKS. formatted s0 v b s)"

lemma format_row_ok:
  assumes hw: "flash_ok lay hw" and sc: "scan_ok s0" and s: "only_flash s0 s"
  shows "\<exists>s'. each (\<lambda>b. format_block hw v b) [0..<NUM_BANKS] s = Some s' \<and> only_flash s0 s' \<and> formatted_all s0 v s'
    \<and> (\<forall>w. formatted_all s0 w s \<longrightarrow> formatted_all s0 w s')"
proof -
  let ?I = "\<lambda>t. only_flash s0 t \<and> (\<forall>w. formatted_all s0 w s \<longrightarrow> formatted_all s0 w t)" and ?Q = "\<lambda>b t. b < NUM_BANKS \<longrightarrow> formatted s0 v b t"
  have step: "\<exists>t'. format_block hw v b t = Some t' \<and> ?I t' \<and> ?Q b t' \<and> (\<forall>y. ?Q y t \<longrightarrow> ?Q y t')"
    if b: "b \<in> set [0..<NUM_BANKS]" and t: "?I t" for b t
  proof -
    from format_block_ok [OF hw sc, of t b v] b t obtain t' where t': "format_block hw v b t = Some t'" "only_flash s0 t'" "formatted s0 v b t'"
      "\<And>w c. c < NUM_BANKS \<Longrightarrow> formatted s0 w c t \<Longrightarrow> formatted s0 w c t'" by (metis atLeastLessThan_iff set_upt)
    have "formatted_all s0 w t \<Longrightarrow> formatted_all s0 w t'" for w using t'(4) by (simp add: formatted_all_def)
    then have "?I t'" using t t'(2) by blast
    then show ?thesis using t' by blast
  qed
  have I: "?I s" using s by blast
  from each_rule [of ?I, OF I step] obtain s' where s': "each (\<lambda>b. format_block hw v b) [0..<NUM_BANKS] s = Some s'" "?I s'"
    "\<forall>b \<in> set [0..<NUM_BANKS]. ?Q b s'" by metis
  then have "formatted_all s0 v s'" by (simp add: formatted_all_def)
  then show ?thesis using s'(1,2) by blast
qed

lemma format_ok:
  assumes "flash_ok lay hw" and "scan_ok s0"
  shows "\<exists>s'. format hw s0 = Some s' \<and> only_flash s0 s'
    \<and> (\<forall>v b. 1 \<le> v \<and> v < VBLKS_PER_BANK \<and> b < NUM_BANKS \<longrightarrow> formatted s0 v b s')"
proof -
  have I: "only_flash s0 s0" by (simp add: only_flash_def)
  from each_rule [of "only_flash s0", OF I format_row_ok [OF assms]] obtain s' where
    s': "each (\<lambda>v. each (\<lambda>b. format_block hw v b) [0..<NUM_BANKS]) [1..<VBLKS_PER_BANK] s0 = Some s'" "only_flash s0 s'"
      "\<forall>v \<in> set [1..<VBLKS_PER_BANK]. formatted_all s0 v s'" by metis
  then show ?thesis unfolding format_def formatted_all_def by (intro exI [of _ s']) auto
qed

lemma load_lists_ok:
  "\<exists>s'. each load_scan_list [0..<NUM_BANKS] s = Some s' \<and> pages (nand (fl s')) = pages (nand (fl s)) \<and> intr s' = intr s
    \<and> (\<forall>b < NUM_BANKS. g_scan_list_entries s' b \<le> SCAN_LIST_ITEMS)"
proof -
  let ?I = "\<lambda>t. pages (nand (fl t)) = pages (nand (fl s)) \<and> intr t = intr s" and ?Q = "\<lambda>b t. g_scan_list_entries t b \<le> SCAN_LIST_ITEMS"
  have step: "\<exists>t'. load_scan_list b t = Some t' \<and> ?I t' \<and> ?Q b t' \<and> (\<forall>y. ?Q y t \<longrightarrow> ?Q y t')" if "b \<in> set [0..<NUM_BANKS]" "?I t" for b t
  proof -
    have "b < NUM_BANKS" using that(1) by simp
    from load_scan_list_ok [OF this, of t] obtain t' d n where "load_scan_list b t = Some t'" "fl t' = (fl t)\<lparr>dram := d\<rparr>" "intr t' = intr t"
      "n \<le> SCAN_LIST_ITEMS" "g_scan_list_entries t' = (g_scan_list_entries t)(b := n)" by blast
    then show ?thesis using that(2) by auto
  qed
  have I: "?I s" by simp
  from each_rule [of ?I, OF I step] obtain s' where "each load_scan_list [0..<NUM_BANKS] s = Some s'" "?I s'"
    "\<forall>b \<in> set [0..<NUM_BANKS]. ?Q b s'" by metis
  then show ?thesis by (intro exI [of _ s']) auto
qed

text \<open>
  C24. \<open>ftl_open\<close> starts the layer on a device that was not formatted yet, which is every start of this layer as it
  never writes its format mark: whatever the flash, the scan lists and the DRAM hold, it returns, every block
  it will ever hand out is blank, all counters and pointers are in range, and no logical sector has a content.
\<close>

theorem ftl_open_establishes_inv:
  assumes hw: "flash_ok tut_layout hw" and "intr s 0 AND FIRQ_ALL_FF \<noteq> 0"
  shows "\<exists>s'. ftl_open hw fw_pages s = Some s' \<and> tut_inv s' \<and> (\<forall>i < NUM_LSECTORS. \<forall>w < 512. sec s' i w = None)
    \<and> g_ftl_read_buf_id (fl s') = 0 \<and> g_ftl_write_buf_id (fl s') = 0"
proof -
  define s1 where "s1 = on_fl (\<lambda>f. log Wait_Idle (log Wait_Room f)) (on_fl (fold (read_scan_list hw) [0..<NUM_BANKS]) (on_fl flash_clear_irq s))"
  obtain s2 where s2: "each load_scan_list [0..<NUM_BANKS] s1 = Some s2" "intr s2 = intr s"
    "\<forall>b < NUM_BANKS. g_scan_list_entries s2 b \<le> SCAN_LIST_ITEMS"
    using load_lists_ok [of s1] by (auto simp: s1_def on_fl_def)
  obtain s3 where s3: "check_format_mark hw fw_pages s2 = (False, s3)" "g_scan_list_entries s3 = g_scan_list_entries s2"
    using check_format_mark_fields(1,3) [OF hw, of fw_pages s2] s2(2) assms(2) by (cases "check_format_mark hw fw_pages s2") auto
  have sc: "scan_ok s3" using s2(3) s3(2) by (simp add: scan_ok_def)
  from format_ok [OF hw sc] obtain s4 where s4: "format hw s3 = Some s4" "only_flash s3 s4"
    "\<And>v b. 1 \<le> v \<Longrightarrow> v < VBLKS_PER_BANK \<Longrightarrow> b < NUM_BANKS \<Longrightarrow> formatted s3 v b s4" by blast
  define d where "d = (\<lambda>b. if PAGE_MAP_ADDR \<le> b \<and> b < PAGE_MAP_ADDR + PAGE_MAP_BYTES then 0 else tdram s4 b)"
  have fill: "dram_fill PAGE_MAP_ADDR 0 PAGE_MAP_BYTES (tdram s4) = Some d" by (simp add: dram_fill_def d_def geom)
  define s' where "s' = on_fl (SETREG FCONF_PAUSE (FIRQ_DATA_CORRUPT + FIRQ_BADBLK_L + FIRQ_BADBLK_H))
      (on_fl (SETREG INTR_MASK (FIRQ_DATA_CORRUPT + FIRQ_BADBLK_L + FIRQ_BADBLK_H)) (on_fl flash_clear_irq
        ((on_fl (\<lambda>f. f\<lparr>g_ftl_read_buf_id := 0, g_ftl_write_buf_id := 0\<rparr>) (set_dram d s4))\<lparr>g_target_bank := 0,
           g_target_row := \<lambda>b. if b < NUM_BANKS then PAGES_PER_VBLK else g_target_row (on_fl (\<lambda>f. f\<lparr>g_ftl_read_buf_id := 0, g_ftl_write_buf_id := 0\<rparr>) (set_dram d s4)) b\<rparr>)))"
  have sane: "sanity_check = Some ()" by (simp add: sanity_check_def geom)
  have run: "ftl_open hw fw_pages s = Some s'"
    unfolding ftl_open_def Let_def s1_def [symmetric] s'_def
    by (simp only: sane bind.bind_lunit s2(1) s3(1) prod.case not_False_eq_True if_True s4(1) fill)
  have s': "pages (nand (fl s')) = pages (nand (fl s4))" "tdram s' = d" "g_scan_list_entries s' = g_scan_list_entries s3"
      "g_target_bank s' = 0" "\<And>b. b < NUM_BANKS \<Longrightarrow> g_target_row s' b = PAGES_PER_VBLK"
      "g_ftl_read_buf_id (fl s') = 0" "g_ftl_write_buf_id (fl s') = 0"
    using s4(2) by (simp_all add: s'_def on_fl_def tdram_def SETREG_def only_flash_def)
  have map: "map_entry s' l = 0" if "l < NUM_LPAGES" for l
    using that by (simp add: map_entry_def s'(2) d_def geom)
  have bb: "bad_block s' b v = bad_block s3 b v" if "b < NUM_BANKS" for b v
    unfolding bad_block_def s'(2,3)
    by (rule bad_block_cong [OF _ that]) (use sc that s4(2) in \<open>simp_all add: scan_ok_def d_def only_flash_def\<close>)
  have free: "blank (nand (fl s')) (REAL_BANK b) r" if b: "b < NUM_BANKS" and r: "r \<in> set (free_rows s' b)" for b r
  proof -
    have m: "PAGES_PER_VBLK mod PAGES_PER_VBLK = 0" by simp
    have r': "PAGES_PER_VBLK \<le> r" "r < PAGES_PER_BANK" "bad_block s3 b (r div PAGES_PER_VBLK) = Some False"
      using r s'(5) [OF b] bb [OF b] by (auto simp: free_rows_def usable_def)
    have "1 \<le> r div PAGES_PER_VBLK" using r'(1) by (simp add: geom Suc_le_eq div_greater_zero_iff)
    moreover have "r div PAGES_PER_VBLK < VBLKS_PER_BANK" using r'(2) by (simp add: block_bound)
    ultimately have "block_blank (nand (fl s4)) b (r div PAGES_PER_VBLK)" using s4(3) b r'(3) by (simp add: formatted_def)
    then show ?thesis using blank_same [OF s'(1)] by (simp add: block_blank_def)
  qed
  have "scan_ok s'" using sc s'(3) by (simp add: scan_ok_def)
  moreover have "PAGES_PER_VBLK \<le> PAGES_PER_BANK" "0 < NUM_BANKS" by (simp_all add: geom)
  ultimately have "tut_inv s'" unfolding tut_inv_def using map free s'(4,5) by auto
  moreover have "sec s' i w = None" if "i < NUM_LSECTORS" "w < 512" for i w
    using map [OF sec_pos(1) [OF that]] by (simp add: sec_def lword_def)
  ultimately show ?thesis using run s'(6,7) by blast
qed

theorem ftl_open_establishes_inv_witness:
  "\<exists>s'. ftl_open hw_ref 10 (tstate0\<lparr>intr := \<lambda>_. 0x20\<rparr>) = Some s' \<and> tut_inv s'"
proof -
  have "intr (tstate0\<lparr>intr := \<lambda>_. 0x20\<rparr>) 0 AND FIRQ_ALL_FF \<noteq> 0" by (simp add: FIRQ_ALL_FF_def)
  from ftl_open_establishes_inv [OF hw_ref_ok this, of 10] show ?thesis by blast
qed

subsection \<open>Writes of the host\<close>

lemma wr_buf:
  assumes "i < NUM_WR_BUFFERS"
  shows "buf_ok (WR_BUF_PTR tut_layout i)" "WR_BUF_ADDR \<le> WR_BUF_PTR tut_layout i" "WR_BUF_PTR tut_layout i + BYTES_PER_PAGE \<le> COPY_BUF_ADDR"
proof -
  have "i \<le> 1052" using assms by (simp add: geom)
  then show "buf_ok (WR_BUF_PTR tut_layout i)" "WR_BUF_ADDR \<le> WR_BUF_PTR tut_layout i" "WR_BUF_PTR tut_layout i + BYTES_PER_PAGE \<le> COPY_BUF_ADDR"
    by (simp_all add: buf_ok_def WR_BUF_PTR_def tut_layout_def geom)
qed

text \<open>One program command of a host write, into the blank row \<open>r\<close> of bank \<open>nb\<close>.\<close>

lemma program_page_sata:
  fixes hw s ob nb r left num right sync old data n
  defines "B \<equiv> WR_BUF_PTR tut_layout (g_ftl_write_buf_id s)"
  defines "s' \<equiv> program_page hw (FO_P + FO_E + FO_B_SATA_W) B sync old left num right ob nb r s"
  assumes hw: "flash_ok tut_layout hw" "host_delivers tut_layout hw (g_ftl_write_buf_id s) left n data" and b: "g_ftl_write_buf_id s < NUM_WR_BUFFERS"
    and pg: "left + num + right = SECTORS_PER_PAGE" "num = min n (SECTORS_PER_PAGE - left)" "0 < n" and bl: "blank (nand s) (REAL_BANK nb) r"
  shows "only_page (REAL_BANK nb) r (nand s) (nand s')" "g_ftl_write_buf_id s' = g_ftl_write_buf_id s" "g_ftl_read_buf_id s' = g_ftl_read_buf_id s"
    "\<And>a. a < B \<or> B + BYTES_PER_PAGE \<le> a \<Longrightarrow> dram s' a = dram s a"
    "\<And>x. x < BYTES_PER_PAGE \<Longrightarrow> pages (nand s') (REAL_BANK nb) r x = (if left * 512 \<le> x \<and> x < (left + num) * 512 then data (x - left * 512) else dram s (B + x))"
proof -
  let ?u = "setup_fcp FC_COL_ROW_IN_PROG (FO_P + FO_E + FO_B_SATA_W) B (SECTORS_PER_PAGE * BYTES_PER_SECTOR) 0 nb r s"
  define t where "t = (if old \<and> ob \<noteq> nb then log (Wait_Bank (REAL_BANK ob)) (log Wait_Room ?u) else ?u)"
  have s': "s' = flash_issue_cmd hw nb sync t"
    using pg(1) by (simp add: s'_def program_page_def t_def Let_def)
  have f: "fcp t = fcp ?u" "dram t = dram s" "nand t = nand s" "g_ftl_write_buf_id t = g_ftl_write_buf_id s" "g_ftl_read_buf_id t = g_ftl_read_buf_id s"
    by (simp_all add: t_def)
  define c where "c = (fcp t)\<lparr>fcp_bank := REAL_BANK nb\<rparr>"
  have c: "fcp_cmd c = FC_COL_ROW_IN_PROG" "fcp_option c = FO_P + FO_E + FO_B_SATA_W" "fcp_bank c = REAL_BANK nb" "fcp_dma_addr c = B"
    "fcp_row_l c (REAL_BANK nb) = r" "fcp_row_h c (REAL_BANK nb) = r" "fcp_col c = 0" "fcp_dma_cnt c = BYTES_PER_PAGE"
    unfolding c_def f by (simp_all add: setup_fcp_def set_fcp_def) (simp add: geom)
  obtain n' d' where hwc: "hw c (nand s, dram s) = (n', d')" by fastforce
  have st: "nand s' = n'" "dram s' = d'" unfolding s' flash_issue_cmd_fields f(2,3) c_def [symmetric] by (simp_all add: hwc)
  show "g_ftl_write_buf_id s' = g_ftl_write_buf_id s" "g_ftl_read_buf_id s' = g_ftl_read_buf_id s" unfolding s' flash_issue_cmd_fields f by (rule refl)+
  have "prog_law c (nand s) (dram s) n' d'" using flash_okD(3) [OF hw(1), of c "nand s" "dram s"] c(3,5,6) by (simp add: hwc)
  then show "only_page (REAL_BANK nb) r (nand s) (nand s')" "\<And>a. a < B \<or> B + BYTES_PER_PAGE \<le> a \<Longrightarrow> dram s' a = dram s a"
    using c bl opt_mod(3) unfolding prog_law_def st by auto
  have "0 < pages_of left n" using pg(3) by (simp add: pages_of_def geom)
  moreover have "B = WR_BUF_PTR tut_layout ((g_ftl_write_buf_id s + 0) mod NUM_WR_BUFFERS)" using b by (simp add: B_def)
  ultimately have h: "\<forall>x < BYTES_PER_PAGE. d' (dma_mem c x) = (if left * 512 \<le> 0 * BYTES_PER_PAGE + x \<and> 0 * BYTES_PER_PAGE + x < left * 512 + n * 512
         then data (0 * BYTES_PER_PAGE + x - left * 512) else dram s (dma_mem c x))"
      "\<forall>x < BYTES_PER_PAGE. dma_range c x \<longrightarrow> pages n' (REAL_BANK nb) r x = d' (dma_mem c x)"
    using hw(2) [unfolded host_delivers_def, rule_format, of c "nand s" "dram s" n' d' 0] hwc c bl by auto
  show "pages (nand s') (REAL_BANK nb) r x = (if left * 512 \<le> x \<and> x < (left + num) * 512 then data (x - left * 512) else dram s (B + x))"
    if x: "x < BYTES_PER_PAGE" for x
  proof -
    have "dma_range c x" using x by (simp add: dma_range_def c)
    moreover have "dma_mem c x = B + x" using sub32_buf [OF wr_buf(1) [OF b], of x] x by (simp add: dma_mem_def c B_def)
    moreover have "left * 512 \<le> x \<Longrightarrow> x < left * 512 + n * 512 \<longleftrightarrow> x < (left + num) * 512"
      using pg x by (auto simp: geom min_def)
    ultimately show ?thesis using h x by (auto simp: st)
  qed
qed

text \<open>What a host write leaves alone in the DRAM: everything but the write buffers and the page map.\<close>

definition write_frame :: "tstate \<Rightarrow> tstate \<Rightarrow> bool" where
  "write_frame s s' \<longleftrightarrow> (\<forall>a < 4294967296. a < WR_BUF_ADDR \<or> COPY_BUF_ADDR \<le> a \<and> a < PAGE_MAP_ADDR \<or> PAGE_MAP_ADDR + PAGE_MAP_BYTES \<le> a
     \<longrightarrow> tdram s' a = tdram s a)"

lemma write_frame_trans: "write_frame s s1 \<Longrightarrow> write_frame s1 s2 \<Longrightarrow> write_frame s s2"
  by (simp add: write_frame_def)

lemma ftl_write_page_step:
  assumes hw: "flash_ok tut_layout hw" "host_delivers tut_layout hw (g_ftl_write_buf_id (fl s)) off rem data" and inv: "tut_inv s" and lpn: "lpn < NUM_LPAGES"
    and b: "g_ftl_write_buf_id (fl s) < NUM_WR_BUFFERS"
    and off: "off < SECTORS_PER_PAGE" and rem: "0 < rem" "off + rem < 4294967296" and num: "num = min rem (SECTORS_PER_PAGE - off)"
    and fr: "free_rows s (g_target_bank s) = row # rows"
  shows "\<exists>s'. ftl_write_page hw lpn off rem s = Some (num, s') \<and> tut_inv s' \<and> write_frame s s'
    \<and> g_ftl_write_buf_id (fl s') = (g_ftl_write_buf_id (fl s) + 1) mod NUM_WR_BUFFERS
    \<and> free_rows s' (g_target_bank s) = rows \<and> (\<forall>b < NUM_BANKS. b \<noteq> g_target_bank s \<longrightarrow> free_rows s' b = free_rows s b)
    \<and> (\<forall>l < NUM_LPAGES. l \<noteq> lpn \<longrightarrow> lword s' l = lword s l)
    \<and> (\<forall>x. off * 512 \<le> x \<and> x < (off + num) * 512 \<longrightarrow> lword s' lpn x = Some (data (x - off * 512)))
    \<and> (\<forall>x < BYTES_PER_PAGE. lword s lpn x \<noteq> None \<and> (x < off * 512 \<or> (off + num) * 512 \<le> x) \<longrightarrow> lword s' lpn x = lword s lpn x)"
proof -
  note I = tut_invD [OF inv]
  let ?nb = "g_target_bank s" and ?old = "map_entry s lpn" and ?b = "g_ftl_write_buf_id (fl s)"
  let ?B = "WR_BUF_PTR tut_layout ?b" and ?ob = "?old div PAGES_PER_BANK" and ?or = "?old mod PAGES_PER_BANK"
  have row: "g_target_row s ?nb \<le> row" "row < PAGES_PER_BANK"
    using get_free_page_first [OF I(1) I(2)] fr by simp_all
  define right where "right = SECTORS_PER_PAGE - off - num"
  define s1 where "s1 = s\<lparr>g_target_bank := (?nb + 1) mod NUM_BANKS\<rparr>"
  define s2 where "s2 = s1\<lparr>g_target_row := (g_target_row s1)(?nb := row + 1)\<rparr>"
  have s1: "scan_ok s1" "free_rows s1 ?nb = row # rows"
    using I(1) fr by (simp_all add: s1_def scan_ok_def free_rows_def)
  have gfp: "get_free_page ?nb s1 = Some (row, s2)"
    using get_free_page_first [OF s1(1) I(2)] s1(2) by (simp add: s2_def)
  have s2: "tdram s2 = tdram s" "fl s2 = fl s" "map_entry s2 = map_entry s"
    by (simp_all add: s2_def s1_def tdram_def map_entry_def fun_eq_iff)
  have sum: "off + num + right = SECTORS_PER_PAGE" "0 < num" "num \<le> SECTORS_PER_PAGE" "off * 512 + num * 512 \<le> BYTES_PER_PAGE"
    using off rem num by (simp_all add: right_def geom)
  define f4 where "f4 = (if ?old \<noteq> 0 then read_holes hw ?B off right ?ob ?or (fl s) else fl s)"
  define old where "old \<longleftrightarrow> ?old \<noteq> 0 \<and> (off \<noteq> 0 \<or> right \<noteq> 0)"
  define f5 where "f5 = program_page hw (FO_P + FO_E + FO_B_SATA_W) ?B RETURN_ON_ISSUE old off num right ?ob ?nb row f4"
  define s5 where "s5 = s2\<lparr>fl := f5\<rparr>"
  define s6 where "s6 = set_dram (st32 (PAGE_MAP_ADDR + lpn * 4) (of_nat (?nb * PAGES_PER_BANK + row)) (dram f5)) s5"
  define s7 where "s7 = on_fl (\<lambda>f. f\<lparr>g_ftl_write_buf_id := (g_ftl_write_buf_id f + 1) mod NUM_WR_BUFFERS\<rparr>) s6"
  have run: "ftl_write_page hw lpn off rem s = Some (num, s7)"
  proof -
    have wc: "write_chunk off rem = (num, right)" using write_chunk_eq [OF off rem] num by (simp add: right_def)
    have up: "update_physical_address lpn ?nb row s5 = Some s6"
      using map_addr [OF lpn] by (simp add: update_physical_address_def wr32_def s6_def s5_def tdram_def)
    have s5: "on_fl (program_page hw (FO_P + FO_E + FO_B_SATA_W) ?B RETURN_ON_ISSUE old off num right ?ob ?nb row)
        (if ?old \<noteq> 0 then on_fl (read_holes hw ?B off right ?ob ?or) s2 else s2) = s5"
      by (simp add: s5_def f5_def f4_def on_fl_def s2)
    show ?thesis
      unfolding ftl_write_page_def Let_def s1_def [symmetric]
      by (simp only: gfp get_physical_address_eq [OF lpn] s2(2,3) wc up old_def [symmetric] s5 bind.bind_lunit prod.case s7_def)
  qed
  have bufs: "buf_ok ?B" "off + right \<le> SECTORS_PER_PAGE" "(SECTORS_PER_PAGE - right) * 512 = off * 512 + num * 512"
    using sum wr_buf(1) [OF b] by (simp_all add: geom)
  have n4: "pages (nand f4) = pages (nand (fl s))"
    using read_holes_effect(1) [OF hw(1) bufs(1,2)] by (simp add: f4_def)
  have i4: "g_ftl_write_buf_id f4 = ?b" by (simp add: f4_def read_holes_def Let_def flash_issue_cmd_fields)
  have bl: "blank (nand f4) (REAL_BANK ?nb) row"
    using I(5) [OF I(2), of row] fr by (simp add: blank_same [OF n4])
  note P = program_page_sata [OF hw(1), where s = f4 and left = off and n = rem and data = data and sync = RETURN_ON_ISSUE and old = old and ob = ?ob
      and nb = ?nb and r = row and num = num and right = right, unfolded i4, OF hw(2) b sum(1) num rem(1) bl, folded f5_def]
  have d4: "dram f4 a = tdram s a" if "a < 4294967296" "a < ?B \<or> ?B + BYTES_PER_PAGE \<le> a" for a
    using read_holes_effect(3) [OF hw(1) bufs(1,2), of a ?ob ?or "fl s"] that by (auto simp: f4_def tdram_def)
  have hole: "dram f4 (?B + x) = page_of (nand (fl s)) ?old x"
    if "?old \<noteq> 0" "x < BYTES_PER_PAGE" "x < off * 512 \<or> off * 512 + num * 512 \<le> x" for x
    using read_holes_effect(2) [OF hw(1) bufs(1,2) that(2), of ?ob ?or "fl s"] that bufs(3) by (simp add: f4_def page_of_def)
  have wb: "WR_BUF_ADDR \<le> ?B" "?B + BYTES_PER_PAGE \<le> COPY_BUF_ADDR" using wr_buf(2,3) [OF b] by auto
  have pm: "COPY_BUF_ADDR \<le> SCAN_LIST_ADDR" "SCAN_LIST_ADDR \<le> PAGE_MAP_ADDR" "PAGE_MAP_ADDR + PAGE_MAP_BYTES < 4294967296" "NUM_LPAGES * 4 \<le> PAGE_MAP_BYTES"
    by (simp_all add: geom)
  have d7: "tdram s7 = (dram f5)(PAGE_MAP_ADDR + lpn * 4 := of_nat (?nb * PAGES_PER_BANK + row))"
    by (simp add: s7_def s6_def st32_def)
  have f5: "dram f5 a = tdram s a" if "a < 4294967296" "a < ?B \<or> ?B + BYTES_PER_PAGE \<le> a" for a
    using P(4) [OF that(2)] d4 [OF that] by simp
  have others: "map_entry s7 l = map_entry s l" if "l < NUM_LPAGES" "l \<noteq> lpn" for l
    using that f5 [of "PAGE_MAP_ADDR + l * 4"] map_addr [OF that(1)] wb pm by (simp add: map_entry_def d7)
  have new: "map_entry s7 lpn = ?nb * PAGES_PER_BANK + row"
    using new_entry(1) [OF I(2) row(2)] by (simp add: map_entry_def d7 del: of_nat_add of_nat_mult)
  have frame: "write_frame s s7"
    using f5 wb pm lpn by (auto simp: write_frame_def d7)
  have n7: "nand (fl s7) = nand f5" by (simp add: s7_def s6_def s5_def)
  have g7: "g_target_bank s7 = (?nb + 1) mod NUM_BANKS" "g_target_row s7 = (g_target_row s)(?nb := row + 1)"
    "g_scan_list_entries s7 = g_scan_list_entries s" "g_ftl_write_buf_id (fl s7) = (?b + 1) mod NUM_WR_BUFFERS"
    using P(2) i4 by (simp_all add: s7_def s6_def s5_def s2_def s1_def)
  have op: "only_page (REAL_BANK ?nb) row (nand (fl s)) (nand (fl s7))" using P(1) only_page_same(1) [OF n4] n7 by simp
  have "(?nb + 1) mod NUM_BANKS < NUM_BANKS" by (simp add: geom)
  then have tb: "g_target_bank s7 < NUM_BANKS" using g7 by simp
  have scan: "tdram s7 a = tdram s a" if "SCAN_LIST_ADDR \<le> a" "a < PAGE_MAP_ADDR" for a
    using frame that pm unfolding write_frame_def by (auto simp del: One_nat_def)
  note R = remap_step [OF inv I(2) fr lpn tb g7(2,3) op scan new others]
  have cont: "lword s7 lpn x = Some (if off * 512 \<le> x \<and> x < (off + num) * 512 then data (x - off * 512) else dram f4 (?B + x))" if "x < BYTES_PER_PAGE" for x
    using R(5) P(5) [OF that] n7 by simp
  have new_data: "lword s7 lpn x = Some (data (x - off * 512))" if "off * 512 \<le> x" "x < (off + num) * 512" for x
    using cont [of x] that sum(4) by (simp add: add_mult_distrib)
  have old_data: "lword s7 lpn x = lword s lpn x"
    if "x < BYTES_PER_PAGE" "lword s lpn x \<noteq> None" "x < off * 512 \<or> (off + num) * 512 \<le> x" for x
    using cont [OF that(1)] hole [of x] that by (auto simp: add_mult_distrib lword_def split: if_splits)
  show ?thesis
    using run R(1-4) g7(4) frame new_data old_data by (intro exI [of _ s7]) simp
qed

text \<open>The writes of the layer page by page; a request of \<open>p\<close> pages needs \<open>p\<close> free rows in the worst bank.\<close>

definition write_inv :: "flash_hw \<Rightarrow> nat \<Rightarrow> nat \<Rightarrow> tstate \<Rightarrow> bool" where
  "write_inv hw p lpn s \<longleftrightarrow> flash_ok tut_layout hw \<and> tut_inv s \<and> (\<forall>b < NUM_BANKS. p \<le> length (free_rows s b))"

definition rows_used :: "nat \<Rightarrow> tstate \<Rightarrow> tstate \<Rightarrow> bool" where
  "rows_used p s s' \<longleftrightarrow> write_frame s s' \<and> (\<forall>b < NUM_BANKS. length (free_rows s b) \<le> length (free_rows s' b) + p)"

interpretation tut_writes: page_writes lword "\<lambda>s. g_ftl_write_buf_id (fl s)" tut_layout hw "write_inv hw" rows_used
    "\<lambda>lpn off n s s'. ftl_write_page hw lpn off n s = Some (min n (SECTORS_PER_PAGE - off), s')" "ftl_write_loop hw" for hw
proof unfold_locales
  fix p lpn off n :: nat and s data
  assume inv: "write_inv hw (Suc p) lpn s" and lpn: "lpn < NUM_LPAGES" and b: "g_ftl_write_buf_id (fl s) < l_num_wr_buffers tut_layout"
    and off: "off < SECTORS_PER_PAGE" "0 < n" "off + n < 4294967296" and d: "host_delivers tut_layout hw (g_ftl_write_buf_id (fl s)) off n data"
  have i: "flash_ok tut_layout hw" "tut_inv s" "\<And>b. b < NUM_BANKS \<Longrightarrow> Suc p \<le> length (free_rows s b)" using inv by (simp_all add: write_inv_def)
  have tb: "g_target_bank s < NUM_BANKS" by (rule tut_invD(2) [OF i(2)])
  obtain row rows where fr: "free_rows s (g_target_bank s) = row # rows" using i(3) [OF tb] by (cases "free_rows s (g_target_bank s)") auto
  from ftl_write_page_step [OF i(1) d i(2) lpn _ off refl fr] b obtain s' where
    s': "ftl_write_page hw lpn off n s = Some (min n (SECTORS_PER_PAGE - off), s')" "tut_inv s'" "write_frame s s'"
      "g_ftl_write_buf_id (fl s') = (g_ftl_write_buf_id (fl s) + 1) mod NUM_WR_BUFFERS"
      "free_rows s' (g_target_bank s) = rows" "\<forall>b < NUM_BANKS. b \<noteq> g_target_bank s \<longrightarrow> free_rows s' b = free_rows s b"
      "page_put data lpn off (min n (SECTORS_PER_PAGE - off)) (lword s) (lword s')"
    unfolding page_put_def by auto
  have len: "length (free_rows s b) \<le> length (free_rows s' b) + 1" if "b < NUM_BANKS" for b
    using s'(5,6) fr that by (cases "b = g_target_bank s") auto
  then have "p \<le> length (free_rows s' b)" if "b < NUM_BANKS" for b using i(3) [OF that] that by fastforce
  with len s' i(1) show "\<exists>s'. ftl_write_page hw lpn off n s = Some (min n (SECTORS_PER_PAGE - off), s') \<and> write_inv hw p (lpn + 1) s' \<and> rows_used 1 s s'
      \<and> g_ftl_write_buf_id (fl s') = (g_ftl_write_buf_id (fl s) + 1) mod l_num_wr_buffers tut_layout
      \<and> page_put data lpn off (min n (SECTORS_PER_PAGE - off)) (lword s) (lword s')"
    by (intro exI [of _ s']) (simp add: write_inv_def rows_used_def)
next
  show "rows_used 0 s s" for s by (simp add: rows_used_def write_frame_def)
  show "rows_used (i + j) s s2" if "rows_used i s s1" "rows_used j s1 s2" for i j s s1 s2
    using that write_frame_trans [of s s1 s2] unfolding rows_used_def by fastforce
qed (subst ftl_write_loop.simps, simp)+

text \<open>
  C11. \<open>ftl_write\<close> stores what the host delivers: with enough free rows it returns, sector \<open>lba + k\<close> then holds the
  \<open>k\<close>th sector of the host's data, every other sector that had a content keeps it (the partial pages at both
  ends are merged with the old sectors), the DRAM changes only in the write buffers and the page map, and the
  write buffer pointer has moved one place for every page of the request, as the buffer manager's did.
\<close>

theorem ftl_write_stores:
  assumes "flash_ok tut_layout hw" and "tut_inv s" and "0 < n" and "lba + n \<le> NUM_LSECTORS" and "g_ftl_write_buf_id (fl s) < NUM_WR_BUFFERS"
    and "host_delivers tut_layout hw (g_ftl_write_buf_id (fl s)) (lba mod SECTORS_PER_PAGE) n data"
    and "\<forall>b < NUM_BANKS. pages_of (lba mod SECTORS_PER_PAGE) n \<le> length (free_rows s b)"
  shows "\<exists>s'. ftl_write hw lba n s = Some s' \<and> tut_inv s' \<and> write_frame s s'
    \<and> (\<forall>i < NUM_LSECTORS. \<forall>w < 512. if lba \<le> i \<and> i < lba + n then sec s' i w = Some (data ((i - lba) * 512 + w))
         else sec s i w \<noteq> None \<longrightarrow> sec s' i w = sec s i w)
    \<and> g_ftl_write_buf_id (fl s') = (g_ftl_write_buf_id (fl s) + pages_of (lba mod SECTORS_PER_PAGE) n) mod NUM_WR_BUFFERS
    \<and> (\<forall>b < NUM_BANKS. length (free_rows s b) \<le> length (free_rows s' b) + pages_of (lba mod SECTORS_PER_PAGE) n)"
proof -
  have sp: "span (lba mod SECTORS_PER_PAGE) n = pages_of (lba mod SECTORS_PER_PAGE) n" using assms(3) by (simp add: span_def)
  have "write_inv hw (span (lba mod SECTORS_PER_PAGE) n) (lba div SECTORS_PER_PAGE) s" using assms(1,2,7) by (simp add: write_inv_def sp)
  from tut_writes.write_sectors [OF this assms(4) _ assms(6)] assms(5) show ?thesis
    unfolding sp by (auto simp: ftl_write_def write_inv_def rows_used_def sec_sector)
qed

theorem ftl_write_stores_witness:
  "\<exists>s'. ftl_write (hw_host tut_layout 36 200 of_nat) 100 200 tstate0 = Some s' \<and> tut_inv s' \<and> sec s' 101 4 = Some 516"
proof -
  have b: "g_ftl_write_buf_id (fl tstate0) = 0" and m: "100 mod SECTORS_PER_PAGE = 36" by (simp_all add: tstate0_def fstate0_def geom)
  have r: "\<forall>b < NUM_BANKS. pages_of 36 200 \<le> length (free_rows tstate0 b)"
    by (simp add: tstate0_free_rows pages_of_def del: upt.simps) (simp add: geom)
  have N: "(0::nat) < 200" "100 + 200 \<le> NUM_LSECTORS" "0 < NUM_WR_BUFFERS" by (simp_all add: geom)
  have d: "host_delivers tut_layout (hw_host tut_layout 36 200 of_nat) 0 36 200 of_nat" by (rule hw_host_delivers) (simp_all add: pages_of_def geom)
  obtain s' where s': "ftl_write (hw_host tut_layout 36 200 of_nat) 100 200 tstate0 = Some s'" "tut_inv s'"
    "\<forall>i < NUM_LSECTORS. \<forall>w < 512. if 100 \<le> i \<and> i < 100 + 200 then sec s' i w = Some (of_nat ((i - 100) * 512 + w)) else sec tstate0 i w \<noteq> None \<longrightarrow> sec s' i w = sec tstate0 i w"
    using ftl_write_stores [OF hw_host_ok tstate0_ok N(1,2), where data = of_nat, unfolded b m, OF N(3) d r] by blast
  have "101 < NUM_LSECTORS" "(4::nat) < 512" by (simp_all add: geom)
  with s'(3) [rule_format, of 101 4] have "sec s' 101 4 = Some (of_nat ((101 - 100) * 512 + 4))" by (simp del: of_nat_add of_nat_mult)
  with s'(1,2) show ?thesis by (intro exI [of _ s']) simp
qed

subsection \<open>Reads of the host\<close>

lemma tut_ring: "0 < l_num_rd_buffers tut_layout" "rd_end tut_layout = WR_BUF_ADDR" "rd_end tut_layout \<le> 4294967296"
  by (simp_all add: rd_end_def geom)

lemmas rd_buf_bounds = rd_ring_bounds [OF tut_ring(1,3), unfolded tut_ring(2)]

lemma ftl_read_page_step:
  assumes hw: "flash_ok tut_layout hw" and inv: "tut_inv s" and lpn: "lpn < NUM_LPAGES" and b: "g_ftl_read_buf_id (fl s) < NUM_RD_BUFFERS"
    and pg: "off + num \<le> SECTORS_PER_PAGE"
  defines "B \<equiv> rd_ring tut_layout (g_ftl_read_buf_id (fl s))"
  shows "\<exists>s'. ftl_read_page hw lpn off num s = Some s' \<and> same_store s s' \<and> g_ftl_read_buf_id (fl s') = (g_ftl_read_buf_id (fl s) + 1) mod NUM_RD_BUFFERS
    \<and> (\<forall>x. off * 512 \<le> x \<and> x < (off + num) * 512 \<longrightarrow> tdram s' (B + x) = seen (lword s lpn x))
    \<and> (\<forall>a < 4294967296. a < B \<or> B + BYTES_PER_PAGE \<le> a \<longrightarrow> tdram s' a = tdram s a)"
proof -
  let ?b = "g_ftl_read_buf_id (fl s)" and ?pa = "map_entry s lpn"
  let ?next = "(?b + 1) mod NUM_RD_BUFFERS"
  have B: "RD_BUF_PTR tut_layout ?b = B" using b by (simp add: B_def rd_ring_def)
  note bb = rd_buf_bounds [of ?b, folded B_def]
  have le: "off * 512 + num * 512 \<le> BYTES_PER_PAGE" "off * 512 + num * BYTES_PER_SECTOR \<le> BYTES_PER_PAGE" "BYTES_PER_SECTOR = 512"
    using pg by (simp_all add: geom)
  have far: "B + BYTES_PER_PAGE \<le> SCAN_LIST_ADDR" "PAGE_MAP_ADDR + PAGE_MAP_BYTES \<le> 4294967296" using bb(3) by (simp_all add: geom)
  show ?thesis
  proof (cases "?pa = 0")
    case False
    define f1 where "f1 = log (Wait_Rbuf ?next) ((setup_fcp FC_COL_ROW_READ_OUT (FO_P + FO_E + FO_B_SATA_R) B (num * BYTES_PER_SECTOR) off
      (?pa div PAGES_PER_BANK) (?pa mod PAGES_PER_BANK) (fl s))\<lparr>g_ftl_read_buf_id := ?next\<rparr>)"
    define s' where "s' = on_fl (flash_issue_cmd hw (?pa div PAGES_PER_BANK) RETURN_ON_ISSUE) (s\<lparr>fl := f1\<rparr>)"
    have run: "ftl_read_page hw lpn off num s = Some s'"
      using False by (simp add: ftl_read_page_def get_physical_address_eq [OF lpn] B f1_def s'_def on_fl_def Let_def)
    have cmd: "fcp_cmd (fcp f1) \<in> {FC_COL_ROW_READ_OUT, FC_COL_OUT}" by (simp add: f1_def log_def)
    have sel: "fcp_sel (?pa div PAGES_PER_BANK) (?pa mod PAGES_PER_BANK) B off (num * BYTES_PER_SECTOR) (fcp f1)"
    proof -
      have "off * BYTES_PER_SECTOR + num * BYTES_PER_SECTOR \<le> BYTES_PER_PAGE" using le by simp
      from setup_sel [OF opt_mod(4) this] show ?thesis by (simp add: f1_def log_def)
    qed
    note r = issue_read [OF hw cmd sel bb(1), where sync = RETURN_ON_ISSUE]
    have f1: "dram f1 = tdram s" "nand f1 = nand (fl s)" "g_ftl_read_buf_id f1 = ?next" by (simp_all add: f1_def tdram_def)
    have d: "tdram s' = dram (flash_issue_cmd hw (?pa div PAGES_PER_BANK) RETURN_ON_ISSUE f1)" by (simp add: s'_def)
    have out: "tdram s' a = tdram s a" if "a < 4294967296" "a < B \<or> B + BYTES_PER_PAGE \<le> a" for a
      using r(3) [of a] that le unfolding d f1(1) by auto
    have "same_store s s'"
    proof (rule same_storeI)
      show "pages (nand (fl s')) = pages (nand (fl s))" using r(1) f1(2) by (simp add: s'_def)
      show "tdram s' a = tdram s a" if "SCAN_LIST_ADDR \<le> a" "a < PAGE_MAP_ADDR + PAGE_MAP_BYTES" for a
        using out [of a] that far by simp
    qed (simp_all add: s'_def on_fl_def)
    moreover have "g_ftl_read_buf_id (fl s') = ?next" by (simp add: s'_def flash_issue_cmd_fields f1(3))
    moreover have "tdram s' (B + x) = seen (lword s lpn x)" if "off * 512 \<le> x" "x < (off + num) * 512" for x
    proof -
      have "x < off * 512 + num * BYTES_PER_SECTOR" using that(2) le(3) by (simp add: add_mult_distrib)
      from r(2) [OF that(1) this] show ?thesis using False by (simp add: d f1(2) seen_def lword_def page_of_def)
    qed
    ultimately show ?thesis using run out by blast
  next
    case True
    define d where "d = (\<lambda>a. if B + off * BYTES_PER_SECTOR \<le> a \<and> a < B + off * BYTES_PER_SECTOR + num * BYTES_PER_SECTOR then 0xFFFFFFFF else tdram s a)"
    have fill: "dram_fill (B + off * BYTES_PER_SECTOR) 0xFFFFFFFF (num * BYTES_PER_SECTOR) (tdram (on_fl (log (Wait_Rbuf ?next)) s)) = Some d"
    proof -
      have "(B + off * BYTES_PER_SECTOR) mod SDRAM_ECC_UNIT = 0" "num * BYTES_PER_SECTOR mod SDRAM_ECC_UNIT = 0"
        unfolding B_def rd_ring_def RD_BUF_PTR_def tut_layout_def by (simp_all add: geom mod_eq_0_iff_dvd)
      then show ?thesis using bb(2) unfolding d_def tdram_def by (simp add: dram_fill_def RD_BUF_ADDR_def)
    qed
    define s' where "s' = on_fl (\<lambda>f. f\<lparr>g_ftl_read_buf_id := ?next\<rparr>) (on_fl (SETREG BM_STACK_RESET 0x02) (on_fl (SETREG BM_STACK_RDSET ?next)
       (on_fl (log Wait_Idle) (set_dram d (on_fl (log (Wait_Rbuf ?next)) s)))))"
    have run: "ftl_read_page hw lpn off num s = Some s'"
      unfolding ftl_read_page_def Let_def
      by (simp only: get_physical_address_eq [OF lpn] bind.bind_lunit True B fill s'_def not_True_eq_False simp_thms if_False)
    have d': "tdram s' = d" "pages (nand (fl s')) = pages (nand (fl s))" by (simp_all add: s'_def SETREG_def tdram_def)
    have out: "tdram s' a = tdram s a" if "a < B \<or> B + BYTES_PER_PAGE \<le> a" for a
      using that le unfolding d' d_def by auto
    have "same_store s s'"
    proof (rule same_storeI)
      show "tdram s' a = tdram s a" if "SCAN_LIST_ADDR \<le> a" "a < PAGE_MAP_ADDR + PAGE_MAP_BYTES" for a
        using out [of a] that far by simp
    qed (simp_all add: d', simp_all add: s'_def on_fl_def set_dram_def)
    moreover have "g_ftl_read_buf_id (fl s') = ?next" by (simp add: s'_def)
    moreover have "tdram s' (B + x) = seen (lword s lpn x)" if "off * 512 \<le> x" "x < (off + num) * 512" for x
      using that True by (simp add: d' d_def seen_def lword_def le(3) add_mult_distrib)
    ultimately show ?thesis using run out by blast
  qed
qed

text \<open>The reads of the layer; \<open>R\<close> are the free rows, which a read does not change.\<close>

definition read_inv :: "flash_hw \<Rightarrow> (nat \<Rightarrow> nat list) \<Rightarrow> tstate \<Rightarrow> bool" where
  "read_inv hw R s \<longleftrightarrow> flash_ok tut_layout hw \<and> tut_inv s \<and> (\<forall>b < NUM_BANKS. free_rows s b = R b)"

interpretation tut_reads: page_reads lword tdram "\<lambda>s. g_ftl_read_buf_id (fl s)" tut_layout "read_inv hw R"
    "\<lambda>lpn off num s s'. ftl_read_page hw lpn off num s = Some s'" "ftl_read_loop hw" for hw R
proof unfold_locales
  show "rd_end tut_layout \<le> 4294967296" by (rule tut_ring(3))
  show "ftl_read_loop hw lpn off 0 s = Some s" for lpn off s by (subst ftl_read_loop.simps) simp
next
  fix lpn off n s s'
  assume st: "ftl_read_page hw lpn off (min n (SECTORS_PER_PAGE - off)) s = Some s'" and n: "0 < n" "off < SECTORS_PER_PAGE" "off + n < 4294967296"
  have "(if wrap32 (off + n) < SECTORS_PER_PAGE then n else SECTORS_PER_PAGE - off) = min n (SECTORS_PER_PAGE - off)"
    using n by (auto simp: wrap32_id)
  then show "ftl_read_loop hw lpn off n s = ftl_read_loop hw (lpn + 1) 0 (n - min n (SECTORS_PER_PAGE - off)) s'"
    using n(1) st by (subst ftl_read_loop.simps) (simp add: Let_def)
next
  fix s lpn off num
  assume i: "read_inv hw R s" and lpn: "lpn < NUM_LPAGES" and b: "g_ftl_read_buf_id (fl s) < l_num_rd_buffers tut_layout" and pg: "off + num \<le> SECTORS_PER_PAGE"
  then have I: "flash_ok tut_layout hw" "tut_inv s" "\<forall>b < NUM_BANKS. free_rows s b = R b" and b': "g_ftl_read_buf_id (fl s) < NUM_RD_BUFFERS"
    by (simp_all add: read_inv_def)
  from ftl_read_page_step [OF I(1,2) lpn b' pg] obtain s' where s': "ftl_read_page hw lpn off num s = Some s'" "same_store s s'"
    "g_ftl_read_buf_id (fl s') = (g_ftl_read_buf_id (fl s) + 1) mod NUM_RD_BUFFERS"
    "\<forall>x. off * 512 \<le> x \<and> x < (off + num) * 512 \<longrightarrow> tdram s' (rd_ring tut_layout (g_ftl_read_buf_id (fl s)) + x) = seen (lword s lpn x)"
    "\<forall>a < 4294967296. a < rd_ring tut_layout (g_ftl_read_buf_id (fl s)) \<or> rd_ring tut_layout (g_ftl_read_buf_id (fl s)) + BYTES_PER_PAGE \<le> a \<longrightarrow> tdram s' a = tdram s a"
    by blast
  moreover have "read_inv hw R s'" using s'(2) I tut_invD(1) [OF I(2)] by (simp add: same_store_def read_inv_def)
  ultimately show "\<exists>s'. ftl_read_page hw lpn off num s = Some s' \<and> read_inv hw R s' \<and> (\<forall>l < NUM_LPAGES. lword s' l = lword s l)
      \<and> g_ftl_read_buf_id (fl s') = (g_ftl_read_buf_id (fl s) + 1) mod l_num_rd_buffers tut_layout
      \<and> (\<forall>x. off * 512 \<le> x \<and> x < (off + num) * 512 \<longrightarrow> tdram s' (rd_ring tut_layout (g_ftl_read_buf_id (fl s)) + x) = seen (lword s lpn x))
      \<and> (\<forall>a < 4294967296. a < rd_ring tut_layout (g_ftl_read_buf_id (fl s)) \<or> rd_ring tut_layout (g_ftl_read_buf_id (fl s)) + BYTES_PER_PAGE \<le> a \<longrightarrow> tdram s' a = tdram s a)"
    by (intro exI [of _ s']) (simp add: same_store_def)
qed

text \<open>
  C12. \<open>ftl_read\<close> delivers what the store holds: page \<open>j\<close> of the request goes to the read buffer \<open>j\<close> places after
  the current one, sector \<open>lba + k\<close> at its offset in its page, as all ones when its page was never written; the
  store, the free rows and every buffer the request does not use stay as they are, and the read buffer pointer
  has moved one place for every page. A request has at most as many pages as there are read buffers.
\<close>

theorem ftl_read_delivers:
  assumes "flash_ok tut_layout hw" and "tut_inv s" and "0 < n" and "lba + n \<le> NUM_LSECTORS" and "g_ftl_read_buf_id (fl s) < NUM_RD_BUFFERS"
    and "pages_of (lba mod SECTORS_PER_PAGE) n \<le> NUM_RD_BUFFERS"
  shows "\<exists>s'. ftl_read hw lba n s = Some s' \<and> tut_inv s' \<and> (\<forall>i < NUM_LSECTORS. \<forall>w < 512. sec s' i w = sec s i w)
    \<and> (\<forall>b < NUM_BANKS. free_rows s' b = free_rows s b)
    \<and> (\<forall>k < n. \<forall>w < 512. tdram s' (rd_ring tut_layout (g_ftl_read_buf_id (fl s) + (lba mod SECTORS_PER_PAGE + k) div SECTORS_PER_PAGE)
         + (lba + k) mod SECTORS_PER_PAGE * 512 + w) = seen (sec s (lba + k) w))
    \<and> read_frame tut_layout (g_ftl_read_buf_id (fl s)) (pages_of (lba mod SECTORS_PER_PAGE) n) (tdram s) (tdram s')
    \<and> g_ftl_read_buf_id (fl s') = (g_ftl_read_buf_id (fl s) + pages_of (lba mod SECTORS_PER_PAGE) n) mod NUM_RD_BUFFERS"
proof -
  have sp: "span (lba mod SECTORS_PER_PAGE) n = pages_of (lba mod SECTORS_PER_PAGE) n" using assms(3) by (simp add: span_def)
  have "read_inv hw (free_rows s) s" using assms(1,2) by (simp add: read_inv_def)
  from tut_reads.read_sectors [OF this assms(4)] assms(5,6) show ?thesis
    unfolding sp by (auto simp: ftl_read_def read_inv_def sec_sector)
qed

theorem ftl_read_delivers_witness:
  "\<exists>s'. ftl_read hw_ref 100 200 tstate0 = Some s' \<and> tut_inv s' \<and> tdram s' (RD_BUF_ADDR + 37 * 512 + 4) = 0xFFFFFFFF"
proof -
  have b: "g_ftl_read_buf_id (fl tstate0) = 0" and m: "100 mod SECTORS_PER_PAGE = 36" by (simp_all add: tstate0_def fstate0_def geom)
  have N: "(0::nat) < 200" "100 + 200 \<le> NUM_LSECTORS" "0 < NUM_RD_BUFFERS" "pages_of 36 200 \<le> NUM_RD_BUFFERS" by (simp_all add: geom pages_of_def)
  obtain s' where s': "ftl_read hw_ref 100 200 tstate0 = Some s'" "tut_inv s'"
    "\<forall>k < 200. \<forall>w < 512. tdram s' (rd_ring tut_layout (0 + (36 + k) div SECTORS_PER_PAGE) + (100 + k) mod SECTORS_PER_PAGE * 512 + w) = seen (sec tstate0 (100 + k) w)"
    using ftl_read_delivers [OF hw_ref_ok tstate0_ok N(1,2), unfolded b m, OF N(3,4)] by blast
  have "sec tstate0 101 4 = None" by (simp add: sec_def lword_def map_entry_def tstate0_def tdram_def)
  with s'(3) [rule_format, of 1 4] have "tdram s' (rd_ring tut_layout 0 + 37 * 512 + 4) = 0xFFFFFFFF" by (simp add: geom seen_def)
  with s'(1,2) show ?thesis by (intro exI [of _ s']) (simp add: rd_ring_def RD_BUF_PTR_def tut_layout_def)
qed

end
