(* ===== verification/Greedy_Gc.thy ===== *)
theory Greedy_Gc
  imports Greedy_Ftl
begin

text \<open>
  The invariant of the greedy layer (\<open>ftl_greedy/ftl.c\<close>), bank by bank, and garbage collection: which block is the
  victim, that the collection keeps the store, and the logical page that it corrupts.
\<close>

subsection \<open>What the memory shows\<close>

definition vpn_of :: "gstate \<Rightarrow> nat \<Rightarrow> nat" where
  "vpn_of s lpn = unat (gdram s (GR_PAGE_MAP_ADDR + lpn * 4))"

definition vcnt :: "gstate \<Rightarrow> nat \<Rightarrow> nat \<Rightarrow> nat" where
  "vcnt s b v = unat (ld16 (vcount_addr b v) (gdram s))"

definition gbad :: "gstate \<Rightarrow> nat \<Rightarrow> nat \<Rightarrow> bool" where
  "gbad s b v = dram_bit (gdram s) (bad_blk_bmp b * 8 + v)"

definition gpage :: "gstate \<Rightarrow> nat \<Rightarrow> nat \<Rightarrow> nat \<Rightarrow> u32" where
  "gpage s b r = pages (nand (gfl s)) (REAL_BANK b) r"

definition gblank :: "gstate \<Rightarrow> nat \<Rightarrow> nat \<Rightarrow> bool" where
  "gblank s b r = blank (nand (gfl s)) (REAL_BANK b) r"

abbreviation lpns :: "gstate \<Rightarrow> nat \<Rightarrow> nat \<Rightarrow> nat" where
  "lpns s b \<equiv> lpn_list_of_cur_vblock (g_misc_meta s b)"

text \<open>Entry \<open>p\<close> of the list in the last page of block \<open>v\<close>.\<close>

definition listed :: "gstate \<Rightarrow> nat \<Rightarrow> nat \<Rightarrow> nat \<Rightarrow> nat" where
  "listed s b v p = unat (gpage s b (v * PAGES_PER_VBLK + 127) (p * 4))"

text \<open>The word at byte \<open>x\<close> of a logical page, for a page that has been written.\<close>

definition gword :: "gstate \<Rightarrow> nat \<Rightarrow> nat \<Rightarrow> u32 option" where
  "gword s lpn x = (if vpn_of s lpn = 0 \<or> BYTES_PER_PAGE \<le> x then None else Some (gpage s (lpn mod NUM_BANKS) (vpn_of s lpn) x))"

lemma set_gdram_fields [simp]:
  "gdram (set_gdram d s) = d" "nand (gfl (set_gdram d s)) = nand (gfl s)" "g_misc_meta (set_gdram d s) = g_misc_meta s"
  "g_ftl_read_buf_id (gfl (set_gdram d s)) = g_ftl_read_buf_id (gfl s)" "g_ftl_write_buf_id (gfl (set_gdram d s)) = g_ftl_write_buf_id (gfl s)"
  "g_bad_blk_count (set_gdram d s) = g_bad_blk_count s"
  by (simp_all add: gdram_def set_gdram_def)

lemma set_misc_fields [simp]:
  "gdram (set_misc b f s) = gdram s" "gfl (set_misc b f s) = gfl s" "g_misc_meta (set_misc b f s) = (g_misc_meta s)(b := f (g_misc_meta s b))"
  "g_bad_blk_count (set_misc b f s) = g_bad_blk_count s"
  by (simp_all add: gdram_def set_misc_def)

lemma set_stat_fields [simp]:
  "gdram (set_stat b g s) = gdram s" "gfl (set_stat b g s) = gfl s" "g_misc_meta (set_stat b g s) = g_misc_meta s"
  "g_bad_blk_count (set_stat b g s) = g_bad_blk_count s"
  by (simp_all add: gdram_def set_stat_def)

lemma set_lpn_fields [simp]:
  "cur_write_vpn (set_lpn p l m) = cur_write_vpn m" "gc_vblock (set_lpn p l m) = gc_vblock m" "free_blk_cnt (set_lpn p l m) = free_blk_cnt m"
  "lpn_list_of_cur_vblock (set_lpn p l m) = (lpn_list_of_cur_vblock m)(p := l)"
  by (simp_all add: set_lpn_def)

lemma view_simps [simp]:
  "vpn_of (set_misc b f s) = vpn_of s" "vcnt (set_misc b f s) = vcnt s" "gbad (set_misc b f s) = gbad s" "gpage (set_misc b f s) = gpage s"
  "gblank (set_misc b f s) = gblank s"
  "vpn_of (set_stat b g s) = vpn_of s" "vcnt (set_stat b g s) = vcnt s" "gbad (set_stat b g s) = gbad s" "gpage (set_stat b g s) = gpage s"
  "gblank (set_stat b g s) = gblank s"
  "gpage (set_gdram d s) = gpage s" "gblank (set_gdram d s) = gblank s"
  "listed (set_misc b f s) = listed s" "listed (set_stat b g s) = listed s" "listed (set_gdram d s) = listed s"
  "gword (set_misc b f s) = gword s" "gword (set_stat b g s) = gword s"
  by (simp_all add: fun_eq_iff vpn_of_def vcnt_def gbad_def gpage_def gblank_def listed_def gword_def)

subsection \<open>Addresses of the metadata\<close>

text \<open>The bitmap, the map and the counts lie one after the other; a step that leaves them alone leaves the views alone.\<close>

lemma map_addr_g:
  assumes "lpn < NUM_LPAGES"
  shows "dram_addr (GR_PAGE_MAP_ADDR + lpn * 4)" "(GR_PAGE_MAP_ADDR + lpn * 4) mod 4 = 0" "GR_PAGE_MAP_ADDR + lpn * 4 < VCOUNT_ADDR"
  using assms by (simp_all add: dram_addr_def geom)

lemma GR_PAGE_MAP_aligned [simp]: "GR_PAGE_MAP_ADDR mod 4 = 0" "4 dvd GR_PAGE_MAP_ADDR"
  by (simp_all add: geom)

lemma vcount_addr_bounds:
  assumes "b < NUM_BANKS" and "v < VBLKS_PER_BANK"
  shows "dram_addr (vcount_addr b v)" "VCOUNT_ADDR \<le> aligned_addr (vcount_addr b v)" "vcount_addr b v < VCOUNT_ADDR + VCOUNT_BYTES"
    "vcount_addr b v mod 2 = 0" "aligned_addr (vcount_addr b v) < VCOUNT_ADDR + VCOUNT_BYTES" "aligned_addr (vcount_addr b v) mod 4 = 0"
proof -
  have b: "b \<le> 7" using assms(1) by (simp add: geom)
  show v: "vcount_addr b v < VCOUNT_ADDR + VCOUNT_BYTES" using b assms(2) by (simp add: vcount_addr_def geom)
  have lo: "VCOUNT_ADDR \<le> vcount_addr b v" by (simp add: vcount_addr_def)
  show "dram_addr (vcount_addr b v)" using v lo by (simp add: dram_addr_def geom)
  have "VCOUNT_ADDR div 4 * 4 \<le> vcount_addr b v div 4 * 4" using lo by (intro mult_le_mono1 div_le_mono)
  then show "VCOUNT_ADDR \<le> aligned_addr (vcount_addr b v)" by (simp add: aligned_addr_def geom)
  show "vcount_addr b v mod 2 = 0" by (simp add: vcount_addr_def geom mod_eq_0_iff_dvd)
  have "aligned_addr (vcount_addr b v) \<le> vcount_addr b v" by (simp add: aligned_addr_def)
  then show "aligned_addr (vcount_addr b v) < VCOUNT_ADDR + VCOUNT_BYTES" using v by linarith
  show "aligned_addr (vcount_addr b v) mod 4 = 0" by (simp add: aligned_addr_def)
qed

lemma vcount_addr_inj:
  assumes "v < VBLKS_PER_BANK" and "w < VBLKS_PER_BANK"
  shows "vcount_addr b v = vcount_addr c w \<longleftrightarrow> b = c \<and> v = w"
proof
  assume "vcount_addr b v = vcount_addr c w"
  then have e: "b * VBLKS_PER_BANK + v = c * VBLKS_PER_BANK + w" by (simp add: vcount_addr_def)
  then have "(b * VBLKS_PER_BANK + v) div VBLKS_PER_BANK = (c * VBLKS_PER_BANK + w) div VBLKS_PER_BANK" by simp
  then have "b = c" using assms by (simp add: geom)
  with e show "b = c \<and> v = w" by simp
qed simp

lemma bad_bit_addr:
  assumes "b < NUM_BANKS" and "v < VBLKS_PER_BANK"
  shows "dram_addr (bad_blk_bmp b)" "BAD_BLK_BMP_ADDR \<le> (bad_blk_bmp b * 8 + v) div 32 * 4" "(bad_blk_bmp b * 8 + v) div 32 * 4 < GR_PAGE_MAP_ADDR"
proof -
  have b: "b \<le> 7" using assms(1) by (simp add: geom)
  show "dram_addr (bad_blk_bmp b)" using b by (simp add: bad_blk_bmp_def dram_addr_def geom)
  have "BAD_BLK_BMP_ADDR * 8 \<le> bad_blk_bmp b * 8 + v" by (simp add: bad_blk_bmp_def)
  then have "BAD_BLK_BMP_ADDR * 8 div 32 * 4 \<le> (bad_blk_bmp b * 8 + v) div 32 * 4" by (intro mult_le_mono1 div_le_mono)
  then show "BAD_BLK_BMP_ADDR \<le> (bad_blk_bmp b * 8 + v) div 32 * 4" by (simp add: geom)
  have "bad_blk_bmp b * 8 + v < GR_PAGE_MAP_ADDR * 8" using b assms(2) by (simp add: bad_blk_bmp_def geom)
  then have "(bad_blk_bmp b * 8 + v) div 32 < GR_PAGE_MAP_ADDR div 4" by (simp add: geom)
  then show "(bad_blk_bmp b * 8 + v) div 32 * 4 < GR_PAGE_MAP_ADDR" by (simp add: geom)
qed

definition same_meta :: "gstate \<Rightarrow> gstate \<Rightarrow> bool" where
  "same_meta s s' \<longleftrightarrow> (\<forall>a. BAD_BLK_BMP_ADDR \<le> a \<and> a < VCOUNT_ADDR + VCOUNT_BYTES \<longrightarrow> gdram s' a = gdram s a)"

lemma same_meta_views:
  assumes "same_meta s s'"
  shows "lpn < NUM_LPAGES \<Longrightarrow> vpn_of s' lpn = vpn_of s lpn"
    "b < NUM_BANKS \<Longrightarrow> v < VBLKS_PER_BANK \<Longrightarrow> vcnt s' b v = vcnt s b v"
    "b < NUM_BANKS \<Longrightarrow> v < VBLKS_PER_BANK \<Longrightarrow> gbad s' b v = gbad s b v"
proof -
  have r: "BAD_BLK_BMP_ADDR \<le> GR_PAGE_MAP_ADDR" "GR_PAGE_MAP_ADDR \<le> VCOUNT_ADDR" "VCOUNT_ADDR \<le> VCOUNT_ADDR + VCOUNT_BYTES" by (simp_all add: geom)
  note s = assms [unfolded same_meta_def, rule_format]
  show "vpn_of s' lpn = vpn_of s lpn" if "lpn < NUM_LPAGES"
    using s [of "GR_PAGE_MAP_ADDR + lpn * 4"] map_addr_g(3) [OF that] r by (simp add: vpn_of_def)
  show "vcnt s' b v = vcnt s b v" if "b < NUM_BANKS" "v < VBLKS_PER_BANK"
  proof -
    have "gdram s' (aligned_addr (vcount_addr b v)) = gdram s (aligned_addr (vcount_addr b v))"
      using vcount_addr_bounds(2,5) [OF that] r by (intro s) simp
    then show ?thesis by (simp add: vcnt_def ld16_def)
  qed
  show "gbad s' b v = gbad s b v" if "b < NUM_BANKS" "v < VBLKS_PER_BANK"
    using s [of "(bad_blk_bmp b * 8 + v) div 32 * 4"] bad_bit_addr(2,3) [OF that] r by (simp add: gbad_def dram_bit_def)
qed

lemma get_vpn_eq: "lpn < NUM_LPAGES \<Longrightarrow> get_vpn lpn s = Some (vpn_of s lpn)"
  by (simp add: get_vpn_def rd32_def map_addr_g vpn_of_def ld32_def)

lemma get_vcount_eq:
  "b < NUM_BANKS \<Longrightarrow> META_BLKS_PER_BANK \<le> v \<Longrightarrow> v < VBLKS_PER_BANK \<Longrightarrow> vcnt s b v < PAGES_PER_VBLK \<or> vcnt s b v = VC_MAX
    \<Longrightarrow> get_vcount b v s = Some (vcnt s b v)"
  by (auto simp: get_vcount_def rd16_def vcount_addr_bounds vcnt_def)

lemma gr_is_bad_block_eq: "b < NUM_BANKS \<Longrightarrow> v < VBLKS_PER_BANK \<Longrightarrow> gr_is_bad_block b v s = Some (gbad s b v)"
  by (simp add: gr_is_bad_block_def tst_bit_def bad_bit_addr gbad_def)

text \<open>Setting an entry of the map and a count.\<close>

definition put_vpn :: "nat \<Rightarrow> nat \<Rightarrow> gstate \<Rightarrow> gstate" where
  "put_vpn lpn vpn s = set_gdram ((gdram s)(GR_PAGE_MAP_ADDR + lpn * 4 := of_nat vpn)) s"

definition put_vcount :: "nat \<Rightarrow> nat \<Rightarrow> nat \<Rightarrow> gstate \<Rightarrow> gstate" where
  "put_vcount b v c s = set_gdram (st16 (vcount_addr b v) (of_nat c) (gdram s)) s"

lemma set_vpn_eq:
  "lpn < NUM_LPAGES \<Longrightarrow> META_BLKS_PER_BANK * PAGES_PER_VBLK \<le> vpn \<Longrightarrow> vpn < VBLKS_PER_BANK * PAGES_PER_VBLK \<Longrightarrow> set_vpn lpn vpn s = Some (put_vpn lpn vpn s)"
  by (simp add: set_vpn_def wr32_def map_addr_g st32_def put_vpn_def)

lemma set_vcount_eq:
  "b < NUM_BANKS \<Longrightarrow> META_BLKS_PER_BANK \<le> v \<Longrightarrow> v < VBLKS_PER_BANK \<Longrightarrow> c < PAGES_PER_VBLK \<or> c = VC_MAX
    \<Longrightarrow> set_vcount b v c s = Some (put_vcount b v c s)"
  by (auto simp: set_vcount_def wr16_def vcount_addr_bounds put_vcount_def)

lemma put_fields [simp]:
  "g_misc_meta (put_vpn l x s) = g_misc_meta s" "nand (gfl (put_vpn l x s)) = nand (gfl s)" "gpage (put_vpn l x s) = gpage s"
  "gblank (put_vpn l x s) = gblank s" "listed (put_vpn l x s) = listed s"
  "g_ftl_write_buf_id (gfl (put_vpn l x s)) = g_ftl_write_buf_id (gfl s)" "g_ftl_read_buf_id (gfl (put_vpn l x s)) = g_ftl_read_buf_id (gfl s)"
  "g_misc_meta (put_vcount b v c s) = g_misc_meta s" "nand (gfl (put_vcount b v c s)) = nand (gfl s)" "gpage (put_vcount b v c s) = gpage s"
  "gblank (put_vcount b v c s) = gblank s" "listed (put_vcount b v c s) = listed s"
  "g_ftl_write_buf_id (gfl (put_vcount b v c s)) = g_ftl_write_buf_id (gfl s)" "g_ftl_read_buf_id (gfl (put_vcount b v c s)) = g_ftl_read_buf_id (gfl s)"
  by (simp_all add: put_vpn_def put_vcount_def)

lemma put_vpn_views:
  assumes "lpn < NUM_LPAGES" and "vpn < VBLKS_PER_BANK * PAGES_PER_VBLK"
  shows "l < NUM_LPAGES \<Longrightarrow> vpn_of (put_vpn lpn vpn s) l = (if l = lpn then vpn else vpn_of s l)"
    "b < NUM_BANKS \<Longrightarrow> v < VBLKS_PER_BANK \<Longrightarrow> vcnt (put_vpn lpn vpn s) b v = vcnt s b v"
    "b < NUM_BANKS \<Longrightarrow> v < VBLKS_PER_BANK \<Longrightarrow> gbad (put_vpn lpn vpn s) b v = gbad s b v"
proof -
  have "vpn < 4294967296" using assms(2) by (simp add: geom)
  then have "unat (of_nat vpn :: u32) = vpn" by (simp add: unat_of_nat)
  then show "vpn_of (put_vpn lpn vpn s) l = (if l = lpn then vpn else vpn_of s l)" if "l < NUM_LPAGES"
    by (simp add: vpn_of_def put_vpn_def)
  show "vcnt (put_vpn lpn vpn s) b v = vcnt s b v" if "b < NUM_BANKS" "v < VBLKS_PER_BANK"
    using vcount_addr_bounds(2) [OF that] map_addr_g(3) [OF assms(1)] by (simp add: vcnt_def put_vpn_def ld16_def)
  show "gbad (put_vpn lpn vpn s) b v = gbad s b v" if "b < NUM_BANKS" "v < VBLKS_PER_BANK"
    using bad_bit_addr(3) [OF that] by (simp add: gbad_def put_vpn_def dram_bit_def)
qed

lemma put_vcount_views:
  assumes "b < NUM_BANKS" and "v < VBLKS_PER_BANK" and "c < 65536"
  shows "l < NUM_LPAGES \<Longrightarrow> vpn_of (put_vcount b v c s) l = vpn_of s l"
    "b' < NUM_BANKS \<Longrightarrow> v' < VBLKS_PER_BANK \<Longrightarrow> vcnt (put_vcount b v c s) b' v' = (if b' = b \<and> v' = v then c else vcnt s b' v')"
    "b' < NUM_BANKS \<Longrightarrow> v' < VBLKS_PER_BANK \<Longrightarrow> gbad (put_vcount b v c s) b' v' = gbad s b' v'"
proof -
  note A = vcount_addr_bounds [OF assms(1,2)]
  have c: "unat (of_nat c :: u16) = c" using assms(3) by (simp add: unat_of_nat)
  show "vpn_of (put_vcount b v c s) l = vpn_of s l" if "l < NUM_LPAGES"
    using map_addr_g(3) [OF that] A(2) by (simp add: vpn_of_def put_vcount_def st16_def)
  show "vcnt (put_vcount b v c s) b' v' = (if b' = b \<and> v' = v then c else vcnt s b' v')" if "b' < NUM_BANKS" "v' < VBLKS_PER_BANK"
    using vcount_addr_bounds(4) [OF that] A(4) vcount_addr_inj [OF that(2) assms(2), of b' b] c
    by (simp add: vcnt_def put_vcount_def ld16_st16)
  show "gbad (put_vcount b v c s) b' v' = gbad s b' v'" if "b' < NUM_BANKS" "v' < VBLKS_PER_BANK"
  proof -
    have "(bad_blk_bmp b' * 8 + v') div 32 * 4 < aligned_addr (vcount_addr b v)"
      using bad_bit_addr(3) [OF that] A(2) by (simp add: geom)
    then show ?thesis by (simp add: gbad_def put_vcount_def dram_bit_def st16_def)
  qed
qed

subsection \<open>Steps of the driver\<close>

text \<open>A step that leaves the metadata in the SRAM and in the DRAM and the buffer numbers alone.\<close>

definition quiet :: "gstate \<Rightarrow> gstate \<Rightarrow> bool" where
  "quiet s t \<longleftrightarrow> same_meta s t \<and> g_misc_meta t = g_misc_meta s \<and> g_ftl_write_buf_id (gfl t) = g_ftl_write_buf_id (gfl s)
     \<and> g_ftl_read_buf_id (gfl t) = g_ftl_read_buf_id (gfl s)"

lemma quiet_refl [simp]: "quiet s s"
  by (simp add: quiet_def same_meta_def)

lemma quiet_trans: "quiet s t \<Longrightarrow> quiet t u \<Longrightarrow> quiet s u"
  by (simp add: quiet_def same_meta_def)

lemma quiet_views:
  assumes "quiet s t"
  shows "lpn < NUM_LPAGES \<Longrightarrow> vpn_of t lpn = vpn_of s lpn"
    "b < NUM_BANKS \<Longrightarrow> v < VBLKS_PER_BANK \<Longrightarrow> vcnt t b v = vcnt s b v"
    "b < NUM_BANKS \<Longrightarrow> v < VBLKS_PER_BANK \<Longrightarrow> gbad t b v = gbad s b v" "g_misc_meta t = g_misc_meta s"
  using assms same_meta_views [of s t] by (auto simp: quiet_def)

text \<open>Where the buffers lie.\<close>

lemma ftl_buf:
  assumes "b < NUM_BANKS"
  shows "buf_ok (FTL_BUF b)" "FTL_BUF b mod 4 = 0" "FTL_BUF b + BYTES_PER_PAGE \<le> BAD_BLK_BMP_ADDR" "GR_FTL_BUF_ADDR \<le> FTL_BUF b"
proof -
  have "b \<le> 7" using assms by (simp add: geom)
  then show "buf_ok (FTL_BUF b)" "FTL_BUF b + BYTES_PER_PAGE \<le> BAD_BLK_BMP_ADDR" "GR_FTL_BUF_ADDR \<le> FTL_BUF b"
    by (simp_all add: buf_ok_def FTL_BUF_def geom)
  show "FTL_BUF b mod 4 = 0" by (simp add: FTL_BUF_def geom mod_eq_0_iff_dvd)
qed

lemma gr_wr_buf:
  assumes "i < GR_NUM_WR_BUFFERS"
  shows "buf_ok (WR_BUF_PTR greedy_layout i)" "WR_BUF_PTR greedy_layout i mod 4 = 0" "GR_WR_BUF_ADDR \<le> WR_BUF_PTR greedy_layout i"
    "WR_BUF_PTR greedy_layout i + BYTES_PER_PAGE \<le> GR_COPY_BUF_ADDR"
proof -
  have "i \<le> 1486" using assms by (simp add: geom)
  then show "buf_ok (WR_BUF_PTR greedy_layout i)" "GR_WR_BUF_ADDR \<le> WR_BUF_PTR greedy_layout i" "WR_BUF_PTR greedy_layout i + BYTES_PER_PAGE \<le> GR_COPY_BUF_ADDR"
    by (simp_all add: buf_ok_def WR_BUF_PTR_def geom)
  show "WR_BUF_PTR greedy_layout i mod 4 = 0" by (simp add: WR_BUF_PTR_def geom mod_eq_0_iff_dvd)
qed

lemma meta_range: "GR_COPY_BUF_ADDR + NUM_BANKS_MAX * BYTES_PER_PAGE \<le> BAD_BLK_BMP_ADDR" "VCOUNT_ADDR + VCOUNT_BYTES < 4294967296"
    "GR_COPY_BUF_ADDR \<le> BAD_BLK_BMP_ADDR"
  by (simp_all add: geom)

text \<open>The result of a step of the driver in terms of the views.\<close>

lemma flash_do_quiet:
  assumes "f (gfl s) = Some x" and "\<And>a. BAD_BLK_BMP_ADDR \<le> a \<Longrightarrow> a < VCOUNT_ADDR + VCOUNT_BYTES \<Longrightarrow> dram x a = dram (gfl s) a"
    and "g_ftl_write_buf_id x = g_ftl_write_buf_id (gfl s)" and "g_ftl_read_buf_id x = g_ftl_read_buf_id (gfl s)"
  shows "flash_do f s = Some (s\<lparr>gfl := x\<rparr>)" "quiet s (s\<lparr>gfl := x\<rparr>)"
  using assms by (simp_all add: flash_do_def quiet_def same_meta_def gdram_def)

lemma gc_copyback:
  assumes "flash_ok greedy_layout hw" and "b < NUM_BANKS" and "sv < VBLKS_PER_BANK" and "sp < PAGES_PER_VBLK"
    and "dv < VBLKS_PER_BANK" and "dp < PAGES_PER_VBLK" and "gblank s b (dv * PAGES_PER_VBLK + dp)"
  shows "\<exists>t. flash_do (nand_page_copyback hw b sv sp dv dp) s = Some t \<and> quiet s t
    \<and> (\<forall>c < NUM_BANKS. \<forall>r. (c, r) \<noteq> (b, dv * PAGES_PER_VBLK + dp) \<longrightarrow> gpage t c r = gpage s c r)
    \<and> (\<forall>x < BYTES_PER_PAGE. gpage t b (dv * PAGES_PER_VBLK + dp) x = gpage s b (sv * PAGES_PER_VBLK + sp) x)"
proof -
  have "blank (nand (gfl s)) (REAL_BANK b) (dv * PAGES_PER_VBLK + dp)" using assms(7) by (simp add: gblank_def)
  from copyback_effect [OF assms(1-6) this] obtain x where x: "nand_page_copyback hw b sv sp dv dp (gfl s) = Some x"
    "only_page (REAL_BANK b) (dv * PAGES_PER_VBLK + dp) (nand (gfl s)) (nand x)"
    "\<forall>i < BYTES_PER_PAGE. pages (nand x) (REAL_BANK b) (dv * PAGES_PER_VBLK + dp) i = pages (nand (gfl s)) (REAL_BANK b) (sv * PAGES_PER_VBLK + sp) i"
    "\<forall>a. a < GR_COPY_BUF_ADDR \<or> GR_COPY_BUF_ADDR + NUM_BANKS_MAX * BYTES_PER_PAGE \<le> a \<longrightarrow> dram x a = dram (gfl s) a"
    "g_ftl_read_buf_id x = g_ftl_read_buf_id (gfl s)" "g_ftl_write_buf_id x = g_ftl_write_buf_id (gfl s)" by auto
  have d: "dram x a = dram (gfl s) a" if "BAD_BLK_BMP_ADDR \<le> a" for a
    using x(4) that meta_range(1) by simp
  note t = flash_do_quiet [where s = s and x = x and f = "nand_page_copyback hw b sv sp dv dp", OF x(1) d x(6,5)]
  have "gpage (s\<lparr>gfl := x\<rparr>) c r = gpage s c r" if "c < NUM_BANKS" "(c, r) \<noteq> (b, dv * PAGES_PER_VBLK + dp)" for c r
    using x(2) that REAL_BANK_inj [OF that(1) assms(2)] by (auto simp: only_page_def gpage_def)
  then show ?thesis using t x(3) by (auto simp: gpage_def)
qed

lemma gc_erase:
  assumes "flash_ok greedy_layout hw" and "b < NUM_BANKS" and "v < VBLKS_PER_BANK"
  shows "\<exists>t. flash_do (nand_block_erase hw b v) s = Some t \<and> quiet s t
    \<and> (\<forall>c < NUM_BANKS. \<forall>r. \<not> (c = b \<and> r div PAGES_PER_VBLK = v) \<longrightarrow> gpage t c r = gpage s c r)
    \<and> (\<forall>r. r div PAGES_PER_VBLK = v \<longrightarrow> gblank t b r)"
proof -
  from erase_effect [OF assms, of "gfl s"] obtain x where x: "nand_block_erase hw b v (gfl s) = Some x" "dram x = dram (gfl s)"
    and p: "\<forall>c r. if c = REAL_BANK b \<and> r div PAGES_PER_VBLK = v then blank (nand x) c r else pages (nand x) c r = pages (nand (gfl s)) c r"
    and i: "g_ftl_read_buf_id x = g_ftl_read_buf_id (gfl s)" "g_ftl_write_buf_id x = g_ftl_write_buf_id (gfl s)" by auto
  have d: "dram x a = dram (gfl s) a" for a using x(2) by simp
  note t = flash_do_quiet [where s = s and x = x and f = "nand_block_erase hw b v", OF x(1) d i(2,1)]
  have "gpage (s\<lparr>gfl := x\<rparr>) c r = gpage s c r" if "c < NUM_BANKS" "\<not> (c = b \<and> r div PAGES_PER_VBLK = v)" for c r
    using p [rule_format, of "REAL_BANK c" r] that REAL_BANK_inj [OF that(1) assms(2)] by (auto simp: gpage_def split: if_splits)
  moreover have "gblank (s\<lparr>gfl := x\<rparr>) b r" if "r div PAGES_PER_VBLK = v" for r
    using p [rule_format, of "REAL_BANK b" r] that by (simp add: gblank_def)
  ultimately show ?thesis using t by blast
qed

lemma gc_ptread:
  assumes "flash_ok greedy_layout hw" and "b < NUM_BANKS" and "v < VBLKS_PER_BANK" and "p < PAGES_PER_VBLK"
    and "k * 512 + n * 512 \<le> BYTES_PER_PAGE" and "buf_ok a" and "a + BYTES_PER_PAGE \<le> BAD_BLK_BMP_ADDR"
  shows "\<exists>t. flash_do (nand_page_ptread hw b v p k n a sync) s = Some t \<and> quiet s t \<and> gpage t = gpage s
    \<and> (\<forall>x. k * 512 \<le> x \<and> x < k * 512 + n * 512 \<longrightarrow> gdram t (a + x) = gpage s b (v * PAGES_PER_VBLK + p) x)
    \<and> (\<forall>y < 4294967296. y < a + k * 512 \<or> a + (k * 512 + n * 512) \<le> y \<longrightarrow> gdram t y = gdram s y)"
proof -
  define x where "x = flash_issue_cmd hw b sync (setup_fcp FC_COL_ROW_READ_OUT (FO_P + FO_E) a (n * 512) k b (v * PAGES_PER_VBLK + p) (gfl s))"
  have run: "nand_page_ptread hw b v p k n a sync (gfl s) = Some x"
    using assms(2-4) by (simp add: nand_page_ptread_def page_args_ok_def x_def setup_fcp_def set_rows_def set_fcp_def Let_def) (simp add: geom)
  note R = read_cmd [OF assms(1) disjI1 [OF refl] opt_mod(1) assms(5,6), where b = b and r = "v * PAGES_PER_VBLK + p" and sync = sync and s = "gfl s", folded x_def]
  have i: "g_ftl_write_buf_id x = g_ftl_write_buf_id (gfl s)" "g_ftl_read_buf_id x = g_ftl_read_buf_id (gfl s)"
    by (simp_all add: x_def flash_issue_cmd_fields)
  have out: "dram x y = dram (gfl s) y" if "BAD_BLK_BMP_ADDR \<le> y" "y < VCOUNT_ADDR + VCOUNT_BYTES" for y
    using R(3) [of y] that assms(5,7) meta_range(2) by simp
  note t = flash_do_quiet [where s = s and x = x and f = "nand_page_ptread hw b v p k n a sync", OF run out i]
  have "gpage (s\<lparr>gfl := x\<rparr>) = gpage s" using R(1) by (simp add: gpage_def fun_eq_iff)
  then show ?thesis using t R by (intro exI [of _ "s\<lparr>gfl := x\<rparr>"]) (auto simp: gpage_def gdram_def)
qed

lemma gc_ptprogram:
  assumes "flash_ok greedy_layout hw" and "b < NUM_BANKS" and "v < VBLKS_PER_BANK" and "p < PAGES_PER_VBLK"
    and "k * 512 + n * 512 \<le> BYTES_PER_PAGE" and "buf_ok a" and "gblank s b (v * PAGES_PER_VBLK + p)"
  shows "\<exists>t. flash_do (nand_page_ptprogram hw b v p k n a) s = Some t \<and> quiet s t \<and> gdram t = gdram s
    \<and> (\<forall>c < NUM_BANKS. \<forall>r. (c, r) \<noteq> (b, v * PAGES_PER_VBLK + p) \<longrightarrow> gpage t c r = gpage s c r)
    \<and> (\<forall>x. k * 512 \<le> x \<and> x < k * 512 + n * 512 \<longrightarrow> gpage t b (v * PAGES_PER_VBLK + p) x = gdram s (a + x))"
proof -
  define y where "y = setup_fcp FC_COL_ROW_IN_PROG (FO_P + FO_E + FO_B_W_DRDY) a (n * 512) k b (v * PAGES_PER_VBLK + p) (gfl s)"
  define x where "x = flash_issue_cmd hw b RETURN_ON_ISSUE y"
  have run: "nand_page_ptprogram hw b v p k n a (gfl s) = Some x"
    using assms(2-4) by (simp add: nand_page_ptprogram_def page_args_ok_def x_def y_def setup_fcp_def set_rows_def set_fcp_def Let_def) (simp add: geom)
  have c: "fcp_cmd (fcp y) \<in> {FC_COL_ROW_IN_PROG, FC_IN_PROG}" "fcp_option (fcp y) = FO_P + FO_E + FO_B_W_DRDY" by (simp_all add: y_def)
  have sel: "fcp_sel b (v * PAGES_PER_VBLK + p) a k (n * 512) (fcp y)"
    unfolding y_def by (rule setup_sel [OF opt_mod(2)]) (use assms(5) in \<open>simp add: geom\<close>)
  have bl: "blank (nand y) (REAL_BANK b) (v * PAGES_PER_VBLK + p)" using assms(7) by (simp add: y_def gblank_def)
  note R = issue_prog [OF assms(1) c(1) sel assms(6) bl c(2), where sync = RETURN_ON_ISSUE, folded x_def]
  have y: "dram y = dram (gfl s)" "nand y = nand (gfl s)" by (simp_all add: y_def)
  have i: "g_ftl_write_buf_id x = g_ftl_write_buf_id (gfl s)" "g_ftl_read_buf_id x = g_ftl_read_buf_id (gfl s)"
    by (simp_all add: x_def y_def flash_issue_cmd_fields)
  have d: "dram x a = dram (gfl s) a" for a using R(1) y by simp
  note t = flash_do_quiet [where s = s and x = x and f = "nand_page_ptprogram hw b v p k n a", OF run d i]
  have "gpage (s\<lparr>gfl := x\<rparr>) c r = gpage s c r" if "c < NUM_BANKS" "(c, r) \<noteq> (b, v * PAGES_PER_VBLK + p)" for c r
    using R(2) that REAL_BANK_inj [OF that(1) assms(2)] by (auto simp: only_page_def gpage_def y)
  then show ?thesis using t R(1,3) by (intro exI [of _ "s\<lparr>gfl := x\<rparr>"]) (auto simp: gpage_def gdram_def y)
qed

subsection \<open>The invariant\<close>

text \<open>The logical pages of bank \<open>b\<close> that are mapped to block \<open>v\<close>.\<close>

definition holders :: "gstate \<Rightarrow> nat \<Rightarrow> nat \<Rightarrow> nat set" where
  "holders s b v = {l. l < NUM_LPAGES \<and> l mod NUM_BANKS = b \<and> vpn_of s l \<noteq> 0 \<and> vpn_of s l div PAGES_PER_VBLK = v}"

text \<open>An entry of the list of a block; page 0 of the first block of a bank is skipped and its entry stays 0.\<close>

definition entry_ok :: "nat \<Rightarrow> nat \<Rightarrow> nat \<Rightarrow> bool" where
  "entry_ok b p l \<longleftrightarrow> l < NUM_LPAGES \<and> (l mod NUM_BANKS = b \<or> p = 0 \<and> l = 0)"

text \<open>A mapped page is recorded in the list of its block: in the last page of a full block, in the SRAM for the open one.\<close>

definition home :: "gstate \<Rightarrow> nat \<Rightarrow> nat set \<Rightarrow> nat \<Rightarrow> nat \<Rightarrow> nat \<Rightarrow> bool" where
  "home s b F ob u l \<longleftrightarrow> (let v = vpn_of s l div PAGES_PER_VBLK; p = vpn_of s l mod PAGES_PER_VBLK in
     v \<in> F \<and> p < 127 \<and> listed s b v p = l \<or> v = ob \<and> p < u \<and> lpns s b p = l)"

text \<open>\<open>F\<close> are the full blocks, \<open>ob\<close> is the open block with \<open>u\<close> pages in use.\<close>

definition blocks_ok :: "gstate \<Rightarrow> nat \<Rightarrow> nat set \<Rightarrow> nat \<Rightarrow> nat \<Rightarrow> bool" where
  "blocks_ok s b F ob u \<longleftrightarrow> F \<subseteq> {META_BLKS_PER_BANK..<VBLKS_PER_BANK} \<and> META_BLKS_PER_BANK \<le> ob \<and> ob < VBLKS_PER_BANK \<and> ob \<notin> F \<and> u \<le> 127
     \<and> (\<forall>l < NUM_LPAGES. l mod NUM_BANKS = b \<and> vpn_of s l \<noteq> 0 \<longrightarrow> home s b F ob u l)
     \<and> (\<forall>v \<in> F. \<forall>p < 127. entry_ok b p (listed s b v p)) \<and> (\<forall>p < u. entry_ok b p (lpns s b p))
     \<and> (\<forall>p. u \<le> p \<and> p < PAGES_PER_VBLK \<longrightarrow> gblank s b (ob * PAGES_PER_VBLK + p))"

lemma gc_blocks_okD:
  assumes "blocks_ok s b F ob u"
  shows "F \<subseteq> {META_BLKS_PER_BANK..<VBLKS_PER_BANK}" "META_BLKS_PER_BANK \<le> ob" "ob < VBLKS_PER_BANK" "ob \<notin> F" "u \<le> 127"
    "\<And>l. l < NUM_LPAGES \<Longrightarrow> l mod NUM_BANKS = b \<Longrightarrow> vpn_of s l \<noteq> 0 \<Longrightarrow> home s b F ob u l"
    "\<And>v p. v \<in> F \<Longrightarrow> p < 127 \<Longrightarrow> entry_ok b p (listed s b v p)" "\<And>p. p < u \<Longrightarrow> entry_ok b p (lpns s b p)"
    "\<And>p. u \<le> p \<Longrightarrow> p < PAGES_PER_VBLK \<Longrightarrow> gblank s b (ob * PAGES_PER_VBLK + p)"
  using assms by (simp_all add: blocks_ok_def)

lemma page_127: "127 < PAGES_PER_VBLK" "PAGES_PER_VBLK = 128"
  by (simp_all add: geom)

lemma row_eq: "p < PAGES_PER_VBLK \<Longrightarrow> x = v * PAGES_PER_VBLK + p \<longleftrightarrow> x div PAGES_PER_VBLK = v \<and> x mod PAGES_PER_VBLK = p"
  using row_split [of x] by auto

lemma gblank_cong: "gpage t b r = gpage s b r \<Longrightarrow> gblank t b r = gblank s b r"
  by (simp add: gblank_def gpage_def blank_def)

lemma listed_cong: "gpage t b (v * PAGES_PER_VBLK + 127) = gpage s b (v * PAGES_PER_VBLK + 127) \<Longrightarrow> listed t b v p = listed s b v p"
  by (simp add: listed_def)

lemma holders_cong:
  "(\<And>l. l < NUM_LPAGES \<Longrightarrow> l mod NUM_BANKS = b \<Longrightarrow> vpn_of t l = vpn_of s l) \<Longrightarrow> holders t b v = holders s b v"
  unfolding holders_def by (intro Collect_cong) auto

lemma holders_finite [simp]: "finite (holders s b v)"
  by (rule finite_subset [of _ "{..<NUM_LPAGES}"]) (auto simp: holders_def)

text \<open>The blocks of a bank survive a step that keeps what they are about; blocks without valid pages may leave \<open>F\<close>.\<close>

lemma blocks_ok_mono:
  assumes s: "blocks_ok s b F ob u" and "F' \<subseteq> F"
    and m: "\<And>l. l < NUM_LPAGES \<Longrightarrow> l mod NUM_BANKS = b \<Longrightarrow> vpn_of t l = vpn_of s l"
    and k: "\<And>l. l < NUM_LPAGES \<Longrightarrow> l mod NUM_BANKS = b \<Longrightarrow> vpn_of s l \<noteq> 0 \<Longrightarrow> vpn_of s l div PAGES_PER_VBLK \<in> insert ob F'"
    and g: "\<And>r. r div PAGES_PER_VBLK \<in> insert ob F' \<Longrightarrow> gpage t b r = gpage s b r"
    and n: "\<And>p. p < u \<Longrightarrow> lpns t b p = lpns s b p"
  shows "blocks_ok t b F' ob u"
proof -
  note S = gc_blocks_okD [OF s]
  have li: "listed t b v p = listed s b v p" if "v \<in> F'" for v p
    using g that page_127(1) by (intro listed_cong) auto
  have "home t b F' ob u l" if "l < NUM_LPAGES" "l mod NUM_BANKS = b" "vpn_of t l \<noteq> 0" for l
    using S(6) [OF that(1,2)] k [OF that(1,2)] m [OF that(1,2)] that(3) li n S(4) by (auto simp: home_def Let_def)
  moreover have "gblank t b (ob * PAGES_PER_VBLK + p)" if "u \<le> p" "p < PAGES_PER_VBLK" for p
    using S(9) [OF that] gblank_cong [OF g, of "ob * PAGES_PER_VBLK + p"] that by simp
  ultimately show ?thesis using S(1-5,7,8) \<open>F' \<subseteq> F\<close> li n by (auto simp: blocks_ok_def)
qed

lemma blocks_ok_cong:
  assumes "blocks_ok s b F ob u" and "\<And>l. l < NUM_LPAGES \<Longrightarrow> l mod NUM_BANKS = b \<Longrightarrow> vpn_of t l = vpn_of s l"
    and "\<And>r. gpage t b r = gpage s b r" and "\<And>p. p < u \<Longrightarrow> lpns t b p = lpns s b p"
  shows "blocks_ok t b F ob u"
proof (rule blocks_ok_mono [OF assms(1) subset_refl assms(2) _ assms(3,4)])
  show "vpn_of s l div PAGES_PER_VBLK \<in> insert ob F" if "l < NUM_LPAGES" "l mod NUM_BANKS = b" "vpn_of s l \<noteq> 0" for l
    using gc_blocks_okD(6) [OF assms(1) that] by (auto simp: home_def Let_def)
qed

text \<open>The page \<open>u\<close> of the open block takes the logical page \<open>lpn\<close>: this is a write, and a turn of the collection.\<close>

lemma relocate:
  assumes s: "blocks_ok s b F ob u" and u: "u < 127" and l: "lpn < NUM_LPAGES" "lpn mod NUM_BANKS = b"
    and m': "\<forall>l < NUM_LPAGES. vpn_of t l = (if l = lpn then ob * PAGES_PER_VBLK + u else vpn_of s l)"
    and g': "\<forall>c < NUM_BANKS. \<forall>r. (c, r) \<noteq> (b, ob * PAGES_PER_VBLK + u) \<longrightarrow> gpage t c r = gpage s c r"
    and n: "lpns t b = (lpns s b)(u := lpn)" and b: "b < NUM_BANKS"
  shows "blocks_ok t b F ob (u + 1)"
    "holders t b v = (if v = ob then insert lpn (holders s b ob) else holders s b v - {lpn})"
    "l < NUM_LPAGES \<Longrightarrow> l \<noteq> lpn \<Longrightarrow> gword t l = gword s l"
    "x < BYTES_PER_PAGE \<Longrightarrow> gword t lpn x = Some (gpage t b (ob * PAGES_PER_VBLK + u) x)"
    "vpn_of s lpn div PAGES_PER_VBLK = ob \<Longrightarrow> vpn_of s lpn mod PAGES_PER_VBLK < u"
proof -
  note m = m' [rule_format] and g = g' [rule_format]
  note S = gc_blocks_okD [OF s]
  have u': "u < PAGES_PER_VBLK" using u page_127 by simp
  have nz: "ob * PAGES_PER_VBLK + u \<noteq> 0" using S(2) by (simp add: geom)
  have li: "listed t b v p = listed s b v p" if "v \<in> F" for v p
  proof (rule listed_cong [OF g [OF b]])
    show "(b, v * PAGES_PER_VBLK + 127) \<noteq> (b, ob * PAGES_PER_VBLK + u)"
      using S(4) that row_eq [OF u', of "v * PAGES_PER_VBLK + 127" ob] page_127(1) by auto
  qed
  have "home t b F ob (u + 1) l" if "l < NUM_LPAGES" "l mod NUM_BANKS = b" "vpn_of t l \<noteq> 0" for l
  proof (cases "l = lpn")
    case True
    then show ?thesis using m [OF that(1)] u' n by (simp add: home_def)
  next
    case False
    then show ?thesis using S(6) [OF that(1,2)] m [OF that(1)] that(3) li n by (auto simp: home_def Let_def)
  qed
  moreover have "gblank t b (ob * PAGES_PER_VBLK + p)" if "u + 1 \<le> p" "p < PAGES_PER_VBLK" for p
    using S(9) [of p] gblank_cong [OF g [OF b, of "ob * PAGES_PER_VBLK + p"]] that by simp
  moreover have "entry_ok b p (lpns t b p)" if "p < u + 1" for p
    using S(8) [of p] that l n by (cases "p = u") (auto simp: entry_ok_def)
  ultimately show "blocks_ok t b F ob (u + 1)" using S(1-5,7) u li by (auto simp: blocks_ok_def)
  show "holders t b v = (if v = ob then insert lpn (holders s b ob) else holders s b v - {lpn})"
    using m l nz u' by (auto simp: holders_def split: if_splits)
  show "vpn_of s lpn div PAGES_PER_VBLK = ob \<Longrightarrow> vpn_of s lpn mod PAGES_PER_VBLK < u"
    using S(2,4) S(6) [of lpn] l by (cases "vpn_of s lpn = 0") (auto simp: home_def Let_def geom)
  show "gword t l = gword s l" if "l < NUM_LPAGES" "l \<noteq> lpn"
  proof (cases "l mod NUM_BANKS = b \<and> vpn_of s l \<noteq> 0")
    case True
    then have "vpn_of s l \<noteq> ob * PAGES_PER_VBLK + u"
      using S(4) S(6) [OF that(1)] row_eq [OF u'] by (auto simp: home_def Let_def)
    then show ?thesis using m [OF that(1)] g [OF b, of "vpn_of s l"] that(2) True by (simp add: gword_def fun_eq_iff)
  next
    case False
    have "l mod NUM_BANKS < NUM_BANKS" by (simp add: geom)
    then show ?thesis using m [OF that(1)] g [of "l mod NUM_BANKS" "vpn_of s l"] that(2) False by (auto simp: gword_def fun_eq_iff)
  qed
  show "gword t lpn x = Some (gpage t b (ob * PAGES_PER_VBLK + u) x)" if "x < BYTES_PER_PAGE"
    using that m [OF l(1)] l nz by (simp add: gword_def)
qed

text \<open>The open block is full: its list is written and another block is opened.\<close>

lemma close_block:
  assumes s: "blocks_ok s b F ob 127" and m: "\<And>l. l < NUM_LPAGES \<Longrightarrow> vpn_of t l = vpn_of s l"
    and g: "\<And>r. r \<noteq> ob * PAGES_PER_VBLK + 127 \<Longrightarrow> gpage t b r = gpage s b r"
    and n: "\<And>p. p < 127 \<Longrightarrow> listed t b ob p = lpns s b p"
    and o: "META_BLKS_PER_BANK \<le> ob'" "ob' < VBLKS_PER_BANK" "ob' \<notin> insert ob F" "\<And>p. p < PAGES_PER_VBLK \<Longrightarrow> gblank s b (ob' * PAGES_PER_VBLK + p)"
  shows "blocks_ok t b (insert ob F) ob' 0"
proof -
  note S = gc_blocks_okD [OF s]
  have li: "listed t b v p = listed s b v p" if "v \<in> F" for v p
  proof (rule listed_cong [OF g])
    show "v * PAGES_PER_VBLK + 127 \<noteq> ob * PAGES_PER_VBLK + 127" using S(4) that by (auto simp: geom)
  qed
  have "home t b (insert ob F) ob' 0 l" if "l < NUM_LPAGES" "l mod NUM_BANKS = b" "vpn_of t l \<noteq> 0" for l
    using S(6) [OF that(1,2)] m [OF that(1)] that(3) li n by (auto simp: home_def Let_def)
  moreover have "gblank t b (ob' * PAGES_PER_VBLK + p)" if "p < PAGES_PER_VBLK" for p
  proof -
    have "ob' * PAGES_PER_VBLK + p \<noteq> ob * PAGES_PER_VBLK + 127"
      using o(3) that row_eq [OF page_127(1), of "ob' * PAGES_PER_VBLK + p" ob] by auto
    then show ?thesis using o(4) [OF that] gblank_cong [OF g] by simp
  qed
  ultimately show ?thesis using S(1-3,7,8) o(1-3) li n by (auto simp: blocks_ok_def)
qed

text \<open>\<open>D\<close> are the blocks with data: their counts are the numbers of valid pages, and they are enough for the pages of the bank.\<close>

definition counts_ok :: "gstate \<Rightarrow> nat \<Rightarrow> nat set \<Rightarrow> bool" where
  "counts_ok s b D \<longleftrightarrow> D = {v. v < VBLKS_PER_BANK \<and> vcnt s b v \<noteq> VC_MAX} \<and> (\<forall>v \<in> D. \<not> gbad s b v \<and> vcnt s b v = card (holders s b v)) \<and> 1935 \<le> card D"

text \<open>The block kept for the next collection.\<close>

definition spare_ok :: "gstate \<Rightarrow> nat \<Rightarrow> nat set \<Rightarrow> bool" where
  "spare_ok s b D \<longleftrightarrow> (let gc = gc_vblock (g_misc_meta s b) in META_BLKS_PER_BANK \<le> gc \<and> gc < VBLKS_PER_BANK \<and> gc \<notin> D \<and> \<not> gbad s b gc
     \<and> (\<forall>p < PAGES_PER_VBLK. gblank s b (gc * PAGES_PER_VBLK + p)))"

text \<open>A bank between two writes, with \<open>u\<close> pages of its open block in use; \<open>U\<close> are the blocks not yet opened since the format.\<close>

definition bank_ok :: "gstate \<Rightarrow> nat \<Rightarrow> nat \<Rightarrow> bool" where
  "bank_ok s b u \<longleftrightarrow> (\<exists>F U. let cb = cur_write_vpn (g_misc_meta s b) div PAGES_PER_VBLK; D = insert cb (F \<union> U) in
     blocks_ok s b F cb u \<and> counts_ok s b D \<and> spare_ok s b D \<and> cb \<notin> U \<and> F \<inter> U = {} \<and> (U = {} \<or> U = {v \<in> D. cb < v})
     \<and> (\<forall>v \<in> U. \<forall>p < PAGES_PER_VBLK. gblank s b (v * PAGES_PER_VBLK + p)) \<and> free_blk_cnt (g_misc_meta s b) = 2 + card U)"

text \<open>A bank all of whose data blocks are full: a collection is due.\<close>

definition gc_ready :: "gstate \<Rightarrow> nat \<Rightarrow> nat set \<Rightarrow> bool" where
  "gc_ready s b D \<longleftrightarrow> blocks_ok s b D (gc_vblock (g_misc_meta s b)) 0 \<and> counts_ok s b D \<and> spare_ok s b D \<and> free_blk_cnt (g_misc_meta s b) = 1"

definition map_ok :: "gstate \<Rightarrow> bool" where
  "map_ok s \<longleftrightarrow> (\<forall>l < NUM_LPAGES. vpn_of s l < VBLKS_PER_BANK * PAGES_PER_VBLK)"

text \<open>The pages of a bank as a set of at most 243,794 numbers; so a block with fewer than 126 valid pages exists.\<close>

lemma bank_pages: "finite {l. l < NUM_LPAGES \<and> l mod NUM_BANKS = b}" "card {l. l < NUM_LPAGES \<and> l mod NUM_BANKS = b} \<le> 243794"
proof -
  let ?A = "{l. l < NUM_LPAGES \<and> l mod NUM_BANKS = b}"
  show "finite ?A" by (rule finite_subset [of _ "{..<NUM_LPAGES}"]) auto
  have "inj_on (\<lambda>l. l div NUM_BANKS) ?A" by (rule inj_onI) (metis (mono_tags, lifting) div_mult_mod_eq mem_Collect_eq)
  moreover have "(\<lambda>l. l div NUM_BANKS) ` ?A \<subseteq> {..<243794}" by (auto simp: geom)
  ultimately show "card ?A \<le> 243794" using card_inj_on_le [of "\<lambda>l. l div NUM_BANKS" ?A "{..<243794}"] by simp
qed

lemma counts_okD:
  assumes "counts_ok s b D"
  shows "v \<in> D \<longleftrightarrow> v < VBLKS_PER_BANK \<and> vcnt s b v \<noteq> VC_MAX" "v \<in> D \<Longrightarrow> \<not> gbad s b v" "v \<in> D \<Longrightarrow> vcnt s b v = card (holders s b v)"
    "1935 \<le> card D" "finite D"
proof -
  have D: "D = {v. v < VBLKS_PER_BANK \<and> vcnt s b v \<noteq> VC_MAX}" using assms unfolding counts_ok_def by (rule conjunct1)
  show "v \<in> D \<longleftrightarrow> v < VBLKS_PER_BANK \<and> vcnt s b v \<noteq> VC_MAX" unfolding D by simp
  show "finite D" unfolding D by simp
  show "v \<in> D \<Longrightarrow> \<not> gbad s b v" "v \<in> D \<Longrightarrow> vcnt s b v = card (holders s b v)" "1935 \<le> card D"
    using assms unfolding counts_ok_def by blast+
qed

lemma counts_okI:
  assumes "\<And>v. v \<in> D \<longleftrightarrow> v < VBLKS_PER_BANK \<and> vcnt s b v \<noteq> VC_MAX" and "\<And>v. v \<in> D \<Longrightarrow> \<not> gbad s b v"
    and "\<And>v. v \<in> D \<Longrightarrow> vcnt s b v = card (holders s b v)" and "1935 \<le> card D"
  shows "counts_ok s b D"
proof -
  have "D = {v. v < VBLKS_PER_BANK \<and> vcnt s b v \<noteq> VC_MAX}" by (rule set_eqI) (simp add: assms(1))
  then show ?thesis unfolding counts_ok_def by (intro conjI ballI assms(2-4))
qed

lemma few_valid:
  assumes "counts_ok s b D"
  shows "\<exists>v \<in> D. vcnt s b v < 126"
proof (rule ccontr)
  assume "\<not> (\<exists>v \<in> D. vcnt s b v < 126)"
  then have c: "126 \<le> card (holders s b v)" if "v \<in> D" for v using counts_okD(3) [OF assms that] \<open>\<not> (\<exists>v \<in> D. vcnt s b v < 126)\<close> that by (metis not_less)
  have "finite D" by (rule counts_okD(5) [OF assms])
  have "126 * card D = (\<Sum>v\<in>D. 126)" by simp
  also have "\<dots> \<le> (\<Sum>v\<in>D. card (holders s b v))" by (rule sum_mono) (rule c)
  also have "\<dots> = card (\<Union>v\<in>D. holders s b v)"
    by (rule card_UN_disjoint [symmetric]) (use \<open>finite D\<close> in \<open>auto simp: holders_def\<close>)
  also have "\<dots> \<le> card {l. l < NUM_LPAGES \<and> l mod NUM_BANKS = b}"
    by (rule card_mono [OF bank_pages(1)]) (auto simp: holders_def)
  finally have "126 * card D \<le> 243794" using bank_pages(2) [of b] by linarith
  moreover have "1935 \<le> card D" by (rule counts_okD(4) [OF assms])
  ultimately show False by simp
qed

text \<open>The victim is the first of the blocks with the fewest valid pages.\<close>

definition victim :: "gstate \<Rightarrow> nat \<Rightarrow> nat \<Rightarrow> bool" where
  "victim s b v \<longleftrightarrow> v < VBLKS_PER_BANK \<and> (\<forall>w < VBLKS_PER_BANK. vcnt s b v \<le> vcnt s b w) \<and> (\<forall>w < v. vcnt s b v < vcnt s b w)"

lemma victim_exists: "\<exists>v. victim s b v"
proof -
  define m where "m = Min (vcnt s b ` {..<VBLKS_PER_BANK})"
  define v where "v = (LEAST v. v < VBLKS_PER_BANK \<and> vcnt s b v = m)"
  have ne: "vcnt s b ` {..<VBLKS_PER_BANK} \<noteq> {}" by (simp add: geom lessThan_empty_iff)
  have "m \<in> vcnt s b ` {..<VBLKS_PER_BANK}" unfolding m_def by (rule Min_in [OF _ ne]) simp
  then obtain x where "x < VBLKS_PER_BANK \<and> vcnt s b x = m" by blast
  then have v: "v < VBLKS_PER_BANK \<and> vcnt s b v = m" unfolding v_def by (rule LeastI)
  have le: "m \<le> vcnt s b w" if "w < VBLKS_PER_BANK" for w
    unfolding m_def by (rule Min_le) (use that in auto)
  have "m < vcnt s b w" if "w < v" for w
  proof -
    have w: "w < VBLKS_PER_BANK" using that v by simp
    then have "vcnt s b w \<noteq> m" using not_less_Least [of w "\<lambda>v. v < VBLKS_PER_BANK \<and> vcnt s b v = m"] that by (simp add: v_def)
    then show ?thesis using le [OF w] by simp
  qed
  then have "victim s b v" using v le by (simp add: victim_def)
  then show ?thesis by (rule exI)
qed

lemma victim_search:
  assumes "victim s b v" and "b < NUM_BANKS"
  shows "search_min 2 (VCOUNT_ADDR + b * VBLKS_PER_BANK * 2) VBLKS_PER_BANK (gdram s) = Some v"
proof -
  let ?a = "VCOUNT_ADDR + b * VBLKS_PER_BANK * 2"
  have it: "item 2 (?a + i * 2) (gdram s) = vcnt s b i" for i
    by (simp add: item_def vcnt_def vcount_addr_def algebra_simps)
  have v: "v < VBLKS_PER_BANK" "\<And>w. w < VBLKS_PER_BANK \<Longrightarrow> vcnt s b v \<le> vcnt s b w" "\<And>w. w < v \<Longrightarrow> vcnt s b v < vcnt s b w"
    using assms(1) by (auto simp: victim_def)
  have "Min (vcnt s b ` {..<VBLKS_PER_BANK}) = vcnt s b v" by (rule Min_eqI) (use v in auto)
  moreover have "first_equ 2 ?a VBLKS_PER_BANK (vcnt s b v) (gdram s) = v"
    by (rule first_equ_eq [OF v(1)]) (use v(3) in \<open>force simp: it\<close>)+
  moreover have "?a mod 4 = 0" by (simp add: geom mod_eq_0_iff_dvd)
  moreover have "VBLKS_PER_BANK \<noteq> 0" "wrap32 (2 * VBLKS_PER_BANK) \<le> MU_MAX_BYTES" by (simp_all add: geom wrap_simps MU_MAX_BYTES_def)
  ultimately show ?thesis by (simp add: search_min_def it)
qed

lemma victim_block:
  assumes "victim s b vt" and "counts_ok s b D" and "D \<subseteq> {META_BLKS_PER_BANK..<VBLKS_PER_BANK}" and "b < NUM_BANKS"
  shows "vt \<in> D" "vcnt s b vt < 126" "get_vt_vblock b s = Some vt" "get_vcount b vt s = Some (vcnt s b vt)"
proof -
  obtain w where w: "w \<in> D" "vcnt s b w < 126" using few_valid [OF assms(2)] by blast
  then have "vcnt s b vt \<le> vcnt s b w" using assms(1) counts_okD(1) [OF assms(2)] unfolding victim_def by blast
  then show c: "vcnt s b vt < 126" using w by simp
  moreover have v: "vt < VBLKS_PER_BANK" using assms(1) by (simp add: victim_def)
  ultimately show D: "vt \<in> D" using counts_okD(1) [OF assms(2)] by (simp add: VC_MAX_def)
  then have m: "META_BLKS_PER_BANK \<le> vt" "\<not> gbad s b vt" using counts_okD(2) [OF assms(2)] assms(3) by auto
  show g: "get_vcount b vt s = Some (vcnt s b vt)"
    by (rule get_vcount_eq [OF assms(4) m(1) v]) (use c page_127 in simp)
  have lt: "vcnt s b vt < PAGES_PER_VBLK - 1" using c by (simp add: page_127(2))
  show "get_vt_vblock b s = Some vt"
    using g m v lt assms(4) gr_is_bad_block_eq [OF assms(4) v, of s] victim_search [OF assms(1,4)] by (simp add: get_vt_vblock_def)
qed

subsection \<open>What a step in one bank leaves to the others\<close>

definition bank_frame :: "nat \<Rightarrow> gstate \<Rightarrow> gstate \<Rightarrow> bool" where
  "bank_frame b s t \<longleftrightarrow> (\<forall>l < NUM_LPAGES. l mod NUM_BANKS \<noteq> b \<longrightarrow> vpn_of t l = vpn_of s l)
     \<and> (\<forall>c < NUM_BANKS. c \<noteq> b \<longrightarrow> (\<forall>v < VBLKS_PER_BANK. vcnt t c v = vcnt s c v) \<and> g_misc_meta t c = g_misc_meta s c \<and> gpage t c = gpage s c)
     \<and> (\<forall>c < NUM_BANKS. \<forall>v < VBLKS_PER_BANK. gbad t c v = gbad s c v)
     \<and> g_ftl_read_buf_id (gfl t) = g_ftl_read_buf_id (gfl s)"

lemma bank_frame_refl [simp]: "bank_frame b s s"
  by (simp add: bank_frame_def)

lemma bank_frame_trans: "bank_frame b s t \<Longrightarrow> bank_frame b t u \<Longrightarrow> bank_frame b s u"
  by (simp add: bank_frame_def)

lemma bank_frame_quiet:
  assumes "quiet s t" and "\<And>c. c < NUM_BANKS \<Longrightarrow> c \<noteq> b \<Longrightarrow> gpage t c = gpage s c"
  shows "bank_frame b s t"
  using assms quiet_views [OF assms(1)] by (auto simp: bank_frame_def quiet_def)

lemma blocks_ok_frame:
  assumes "bank_frame b s t" and "c < NUM_BANKS" and "c \<noteq> b" and "blocks_ok s c F ob u"
  shows "blocks_ok t c F ob u"
  using assms(1-3) by (intro blocks_ok_cong [OF assms(4)]) (auto simp: bank_frame_def)

lemma counts_ok_cong:
  assumes "counts_ok s b D" and "\<And>v. v < VBLKS_PER_BANK \<Longrightarrow> vcnt t b v = vcnt s b v" and "\<And>v. v < VBLKS_PER_BANK \<Longrightarrow> gbad t b v = gbad s b v"
    and "\<And>v. v \<in> D \<Longrightarrow> holders t b v = holders s b v"
  shows "counts_ok t b D"
proof (rule counts_okI)
  note C = counts_okD [OF assms(1)]
  show "v \<in> D \<longleftrightarrow> v < VBLKS_PER_BANK \<and> vcnt t b v \<noteq> VC_MAX" for v using C(1) [of v] assms(2) [of v] by (cases "v < VBLKS_PER_BANK") simp_all
  show "\<not> gbad t b v" "vcnt t b v = card (holders t b v)" if "v \<in> D" for v using C(1-3) [of v] assms(2-4) that by simp_all
  show "1935 \<le> card D" by (rule C(4))
qed

lemma spare_ok_cong:
  assumes "spare_ok s b D" and "gc_vblock (g_misc_meta t b) = gc_vblock (g_misc_meta s b)" and "\<And>v. v < VBLKS_PER_BANK \<Longrightarrow> gbad t b v = gbad s b v"
    and "\<And>r. r div PAGES_PER_VBLK = gc_vblock (g_misc_meta s b) \<Longrightarrow> gpage t b r = gpage s b r"
  shows "spare_ok t b D"
proof -
  let ?gc = "gc_vblock (g_misc_meta s b)"
  have "gblank t b (?gc * PAGES_PER_VBLK + p) = gblank s b (?gc * PAGES_PER_VBLK + p)" if "p < PAGES_PER_VBLK" for p
    by (rule gblank_cong [OF assms(4)]) (use that in simp)
  then show ?thesis using assms(1,3) unfolding spare_ok_def Let_def assms(2) by blast
qed

lemma bank_ok_frame:
  assumes "bank_frame b s t" and "c < NUM_BANKS" and "c \<noteq> b" and "bank_ok s c u"
  shows "bank_ok t c u"
proof -
  have f: "\<And>l. l < NUM_LPAGES \<Longrightarrow> l mod NUM_BANKS = c \<Longrightarrow> vpn_of t l = vpn_of s l" "\<And>v. v < VBLKS_PER_BANK \<Longrightarrow> vcnt t c v = vcnt s c v"
    "\<And>v. v < VBLKS_PER_BANK \<Longrightarrow> gbad t c v = gbad s c v" "g_misc_meta t c = g_misc_meta s c" "\<And>r. gpage t c r = gpage s c r"
    using assms(1-3) by (auto simp: bank_frame_def)
  have h: "\<And>v. holders t c v = holders s c v" by (rule holders_cong [OF f(1)])
  have g: "gblank t c r = gblank s c r" for r by (rule gblank_cong [OF f(5)])
  have sp: "spare_ok t c D" if "spare_ok s c D" for D by (rule spare_ok_cong [OF that]) (simp_all add: f)
  have co: "counts_ok t c D" if "counts_ok s c D" for D by (rule counts_ok_cong [OF that f(2,3) h])
  from assms(4) show ?thesis
    unfolding bank_ok_def Let_def f(4) g using blocks_ok_frame [OF assms(1-3)] sp co by blast
qed

subsection \<open>Garbage collection\<close>

text \<open>
  The list of the first block of a bank keeps 0 in entry 0, so it names logical page 0, which is a page of bank 0. The
  collection of another bank takes it for its own when its entry in the map looks like page 0 of the victim.
\<close>

definition no_stray :: "gstate \<Rightarrow> nat \<Rightarrow> nat \<Rightarrow> bool" where
  "no_stray s b vt \<longleftrightarrow> \<not> (b \<noteq> 0 \<and> listed s b vt 0 = 0 \<and> vpn_of s 0 = vt * PAGES_PER_VBLK)"

text \<open>No list of a block with data starts with logical page 0.\<close>

definition lists_own :: "gstate \<Rightarrow> nat \<Rightarrow> bool" where
  "lists_own s b \<longleftrightarrow> (\<forall>v < VBLKS_PER_BANK. vcnt s b v \<noteq> VC_MAX \<longrightarrow> listed s b v 0 \<noteq> 0)"

definition same_store :: "gstate \<Rightarrow> gstate \<Rightarrow> bool" where
  "same_store s t \<longleftrightarrow> (\<forall>l < NUM_LPAGES. \<forall>x < BYTES_PER_PAGE. gword t l x = gword s l x)"

lemma same_store_word: "same_store s t \<Longrightarrow> l < NUM_LPAGES \<Longrightarrow> gword t l = gword s l"
  by (rule ext, rename_tac x, case_tac "x < BYTES_PER_PAGE") (simp_all add: same_store_def, simp add: gword_def)

lemma gc_store_trans: "same_store s t \<Longrightarrow> same_store t u \<Longrightarrow> same_store s u"
  by (simp add: same_store_def)

lemma same_store_refl [simp]: "same_store s s"
  by (simp add: same_store_def)

text \<open>
  The state \<open>t\<close> of the copy loop before page \<open>p\<close> of the victim, with \<open>k\<close> pages in the new block; in the state \<open>s\<close> where
  the account starts there were \<open>k0\<close>.
\<close>

definition gc_inv :: "nat \<Rightarrow> nat \<Rightarrow> nat set \<Rightarrow> nat \<Rightarrow> gstate \<Rightarrow> nat \<Rightarrow> nat \<Rightarrow> gstate \<Rightarrow> bool" where
  "gc_inv b vt D k0 s p k t \<longleftrightarrow> (let gc = gc_vblock (g_misc_meta s b) in
     bank_frame b s t \<and> g_ftl_write_buf_id (gfl t) = g_ftl_write_buf_id (gfl s) \<and> map_ok t \<and> same_store s t \<and> (\<forall>v < VBLKS_PER_BANK. vcnt t b v = vcnt s b v)
     \<and> gc_vblock (g_misc_meta t b) = gc \<and> free_blk_cnt (g_misc_meta t b) = free_blk_cnt (g_misc_meta s b)
     \<and> (\<forall>r. r div PAGES_PER_VBLK \<noteq> gc \<longrightarrow> gpage t b r = gpage s b r)
     \<and> blocks_ok t b D gc k \<and> k \<le> p \<and> (\<forall>i. k \<le> i \<and> i < 127 \<longrightarrow> lpns t b i = listed s b vt i)
     \<and> (\<forall>l \<in> holders t b vt. p \<le> vpn_of t l mod PAGES_PER_VBLK)
     \<and> card (holders t b vt) + k = card (holders s b vt) + k0 \<and> card (holders t b gc) + k0 = k
     \<and> (\<forall>v. v \<noteq> vt \<and> v \<noteq> gc \<longrightarrow> holders t b v = holders s b v) \<and> (b \<noteq> 0 \<and> listed s b vt 0 \<noteq> 0 \<longrightarrow> lpns t b 0 \<noteq> 0))"

lemma gc_invD:
  assumes "gc_inv b vt D k0 s p k t" and "gc = gc_vblock (g_misc_meta s b)"
  shows "bank_frame b s t" "g_ftl_write_buf_id (gfl t) = g_ftl_write_buf_id (gfl s)" "map_ok t" "same_store s t"
    "\<And>v. v < VBLKS_PER_BANK \<Longrightarrow> vcnt t b v = vcnt s b v" "gc_vblock (g_misc_meta t b) = gc"
    "free_blk_cnt (g_misc_meta t b) = free_blk_cnt (g_misc_meta s b)"
    "\<And>r. r div PAGES_PER_VBLK \<noteq> gc \<Longrightarrow> gpage t b r = gpage s b r" "blocks_ok t b D gc k" "k \<le> p"
    "\<And>i. k \<le> i \<Longrightarrow> i < 127 \<Longrightarrow> lpns t b i = listed s b vt i" "\<And>l. l \<in> holders t b vt \<Longrightarrow> p \<le> vpn_of t l mod PAGES_PER_VBLK"
    "card (holders t b vt) + k = card (holders s b vt) + k0" "card (holders t b gc) + k0 = k"
    "\<And>v. v \<noteq> vt \<Longrightarrow> v \<noteq> gc \<Longrightarrow> holders t b v = holders s b v" "b \<noteq> 0 \<Longrightarrow> listed s b vt 0 \<noteq> 0 \<Longrightarrow> lpns t b 0 \<noteq> 0"
  using assms by (auto simp: gc_inv_def Let_def)

lemma put_vpn_map_ok: "map_ok s \<Longrightarrow> lpn < NUM_LPAGES \<Longrightarrow> vpn < VBLKS_PER_BANK * PAGES_PER_VBLK \<Longrightarrow> map_ok (put_vpn lpn vpn s)"
  by (simp add: map_ok_def put_vpn_views)

lemma row_bound: "v < VBLKS_PER_BANK \<Longrightarrow> p < PAGES_PER_VBLK \<Longrightarrow> v * PAGES_PER_VBLK + p < VBLKS_PER_BANK * PAGES_PER_VBLK"
  by (simp add: geom)

lemma row_meta: "META_BLKS_PER_BANK \<le> v \<Longrightarrow> META_BLKS_PER_BANK * PAGES_PER_VBLK \<le> v * PAGES_PER_VBLK + p"
  by (simp add: geom)

text \<open>A place in a block of data whose list names another logical page, or one that has moved, holds no valid page.\<close>

lemma not_held:
  assumes "blocks_ok t b D ob u" and "vt \<in> D" and "p < 127" and "vpn_of t (listed t b vt p) \<noteq> vt * PAGES_PER_VBLK + p"
    and "l \<in> holders t b vt"
  shows "vpn_of t l mod PAGES_PER_VBLK \<noteq> p"
proof
  assume p: "vpn_of t l mod PAGES_PER_VBLK = p"
  have l: "l < NUM_LPAGES" "l mod NUM_BANKS = b" "vpn_of t l \<noteq> 0" "vpn_of t l div PAGES_PER_VBLK = vt" using assms(5) by (auto simp: holders_def)
  have "home t b D ob u l" by (rule gc_blocks_okD(6) [OF assms(1) l(1-3)])
  then have "listed t b vt p = l" using l(4) p gc_blocks_okD(4) [OF assms(1)] assms(2) by (auto simp: home_def)
  then show False using assms(4) l(4) p row_split [of "vpn_of t l"] by simp
qed

text \<open>Turns that copy: one more page of the victim is in the new block.\<close>

lemma gc_page_copy:
  assumes hw: "flash_ok greedy_layout hw" and b: "b < NUM_BANKS" and inv: "gc_inv b vt D k0 s p k t" and p: "p < 127" and vt: "vt \<in> D"
    and gc: "gc = gc_vblock (g_misc_meta s b)" and l: "lpn = listed s b vt p" "lpn < NUM_LPAGES" "lpn mod NUM_BANKS = b"
    and v: "vpn_of t lpn = vt * PAGES_PER_VBLK + p"
  shows "\<exists>t'. gc_page hw b vt gc p (gc * PAGES_PER_VBLK + k, t) = Some (gc * PAGES_PER_VBLK + (k + 1), t') \<and> gc_inv b vt D k0 s (p + 1) (k + 1) t'"
proof -
  note I = gc_invD [OF inv gc]
  note B = gc_blocks_okD [OF I(9)]
  have k: "k < 127" "k < PAGES_PER_VBLK" "p < PAGES_PER_VBLK" using I(10) p page_127 by simp_all
  have vtb: "vt < VBLKS_PER_BANK" "vt \<noteq> gc" "META_BLKS_PER_BANK \<le> vt" using B(1,4) vt by auto
  have bl: "gblank t b (gc * PAGES_PER_VBLK + k)" by (rule B(9) [OF order_refl k(2)])
  from gc_copyback [OF hw b vtb(1) k(3) B(3) k(2) bl] obtain u where u:
    "flash_do (nand_page_copyback hw b vt p gc k) t = Some u" "quiet t u"
    "\<And>c r. c < NUM_BANKS \<Longrightarrow> (c, r) \<noteq> (b, gc * PAGES_PER_VBLK + k) \<Longrightarrow> gpage u c r = gpage t c r"
    "\<And>x. x < BYTES_PER_PAGE \<Longrightarrow> gpage u b (gc * PAGES_PER_VBLK + k) x = gpage t b (vt * PAGES_PER_VBLK + p) x" by blast
  let ?vpn = "gc * PAGES_PER_VBLK + k"
  have vr: "META_BLKS_PER_BANK * PAGES_PER_VBLK \<le> ?vpn" "?vpn < VBLKS_PER_BANK * PAGES_PER_VBLK"
    using row_meta [OF B(2)] row_bound [OF B(3) k(2)] by auto
  define t' where "t' = set_misc b (set_lpn k lpn) (put_vpn lpn ?vpn u)"
  note Q = quiet_views [OF u(2)]
  have lp: "lpns t b p = lpn" using I(11) [OF I(10) p] l(1) by simp
  have inv32: "lpn \<noteq> INVALID" using l(2) by (simp add: geom INVALID_def)
  have run: "gc_page hw b vt gc p (?vpn, t) = Some (gc * PAGES_PER_VBLK + (k + 1), t')"
    using lp l(2) v u(1) k(2) inv32 row_bound [OF vtb(1) k(3)] set_vpn_eq [OF l(2) vr]
    by (simp add: gc_page_def get_vpn_eq CHECK_VPAGE_def t'_def add.assoc)
  have m: "vpn_of t' l = (if l = lpn then ?vpn else vpn_of t l)" if "l < NUM_LPAGES" for l
    using put_vpn_views(1) [OF l(2) vr(2) that] Q(1) [OF that] by (simp add: t'_def)
  have cn: "vcnt t' c w = vcnt t c w" "gbad t' c w = gbad t c w" if "c < NUM_BANKS" "w < VBLKS_PER_BANK" for c w
    using put_vpn_views(2,3) [OF l(2) vr(2) that] Q(2,3) [OF that] by (simp_all add: t'_def)
  have gp: "gpage t' = gpage u" by (simp add: t'_def)
  have mm: "g_misc_meta t' = (g_misc_meta t)(b := set_lpn k lpn (g_misc_meta t b))" using Q(4) by (simp add: t'_def)
  have bi: "g_ftl_read_buf_id (gfl t') = g_ftl_read_buf_id (gfl t)" "g_ftl_write_buf_id (gfl t') = g_ftl_write_buf_id (gfl t)"
    using u(2) by (simp_all add: t'_def quiet_def)
  have gq: "gpage t' c r = gpage t c r" if "c < NUM_BANKS" "(c, r) \<noteq> (b, ?vpn)" for c r using u(3) [OF that] gp by simp
  have nn: "lpns t' b = (lpns t b)(k := lpn)" by (simp add: mm)
  have R0: "\<forall>l < NUM_LPAGES. vpn_of t' l = (if l = lpn then ?vpn else vpn_of t l)"
    "\<forall>c < NUM_BANKS. \<forall>r. (c, r) \<noteq> (b, ?vpn) \<longrightarrow> gpage t' c r = gpage t c r" using m gq by blast+
  note R = relocate [OF I(9) k(1) l(2,3) R0 nn b]
  have oth: "r div PAGES_PER_VBLK \<noteq> gc \<Longrightarrow> (b, r) \<noteq> (b, ?vpn)" for r using k(2) by auto
  have fr: "bank_frame b t t'"
    using m l(3) cn mm bi gq by (auto simp: bank_frame_def fun_eq_iff)
  have st: "same_store t t'"
    unfolding same_store_def
  proof (intro allI impI)
    fix l x assume lx: "l < NUM_LPAGES" "x < BYTES_PER_PAGE"
    show "gword t' l x = gword t l x"
    proof (cases "l = lpn")
      case True
      have "vpn_of t lpn \<noteq> 0" using v vtb(3) by (simp add: geom)
      then show ?thesis using True R(4) [OF lx(2)] gp u(4) [OF lx(2)] l(3) v lx(2) by (simp add: gword_def)
    next
      case False
      then show ?thesis using R(3) [OF lx(1)] by simp
    qed
  qed
  have hv: "holders t' b vt = holders t b vt - {lpn}" "holders t' b gc = insert lpn (holders t b gc)" using R(2) vtb(2) by simp_all
  have in1: "lpn \<in> holders t b vt" "lpn \<notin> holders t b gc"
    using l v k(3) vtb by (auto simp: holders_def geom)
  have "card (holders t' b vt) + (k + 1) = card (holders s b vt) + k0" "card (holders t' b gc) + k0 = k + 1"
    using I(13,14) in1 hv card_Suc_Diff1 [of "holders t b vt" lpn] by simp_all
  moreover have "p + 1 \<le> vpn_of t' l mod PAGES_PER_VBLK" if "l \<in> holders t' b vt" for l
  proof -
    have h: "l \<in> holders t b vt" "l \<noteq> lpn" "l < NUM_LPAGES" using that hv by (auto simp: holders_def)
    then have e: "vpn_of t' l = vpn_of t l" using m by simp
    have "home t b D gc k l" using h(1) by (intro B(6)) (auto simp: holders_def)
    then have "listed t b vt (vpn_of t l mod PAGES_PER_VBLK) = l" using h(1) vtb(2) by (auto simp: home_def Let_def holders_def)
    moreover have "listed t b vt p = lpn"
      using l(1) I(8) [of "vt * PAGES_PER_VBLK + 127"] vtb(2) page_127(1) by (simp add: listed_def)
    ultimately have "vpn_of t l mod PAGES_PER_VBLK \<noteq> p" using h(2) by auto
    then show ?thesis using I(12) [OF h(1)] e by simp
  qed
  moreover have "holders t' b w = holders s b w" if "w \<noteq> vt" "w \<noteq> gc" for w
  proof -
    have "lpn \<notin> holders t b w" using v k(3) that(1) by (auto simp: holders_def)
    then show ?thesis using R(2) [of w] that I(15) by simp
  qed
  moreover have "map_ok t'" using I(3) m vr(2) by (simp add: map_ok_def)
  moreover have "gpage t' b r = gpage s b r" if "r div PAGES_PER_VBLK \<noteq> gc" for r
    using gq [OF b oth [OF that]] I(8) [OF that] by simp
  moreover have "lpns t' b i = listed s b vt i" if "k + 1 \<le> i" "i < 127" for i using I(11) [of i] that nn by simp
  moreover have "b \<noteq> 0 \<and> listed s b vt 0 \<noteq> 0 \<longrightarrow> lpns t' b 0 \<noteq> 0" using I(16) l(3) by (cases "lpn = 0") (auto simp: nn)
  ultimately have "gc_inv b vt D k0 s (p + 1) (k + 1) t'"
    using bank_frame_trans [OF I(1) fr] gc_store_trans [OF I(4) st] R(1) I(2,5,6,7,10) cn(1) [OF b] mm bi b
    unfolding gc_inv_def Let_def gc [symmetric] by simp
  then show ?thesis using run by blast
qed

lemma gc_page_step:
  assumes hw: "flash_ok greedy_layout hw" and b: "b < NUM_BANKS" and inv: "gc_inv b vt D k0 s p k t" and p: "p < 127" and vt: "vt \<in> D"
    and gc: "gc = gc_vblock (g_misc_meta s b)" and ns: "p = 0 \<Longrightarrow> no_stray s b vt"
  shows "\<exists>k' t'. gc_page hw b vt gc p (gc * PAGES_PER_VBLK + k, t) = Some (gc * PAGES_PER_VBLK + k', t') \<and> gc_inv b vt D k0 s (p + 1) k' t'"
proof -
  note I = gc_invD [OF inv gc]
  define lpn where "lpn = listed s b vt p"
  have vtb: "vt \<noteq> gc" "vt < VBLKS_PER_BANK" using gc_blocks_okD(1,4) [OF I(9)] vt by auto
  have lt: "listed t b vt p = lpn"
    using I(8) [of "vt * PAGES_PER_VBLK + 127"] vtb(1) page_127(1) by (simp add: listed_def lpn_def)
  have e: "entry_ok b p lpn" using gc_blocks_okD(7) [OF I(9) vt p] lt by simp
  then have l: "lpn < NUM_LPAGES" by (simp add: entry_ok_def)
  have lp: "lpns t b p = lpn" using I(11) [OF I(10) p] by (simp add: lpn_def)
  show ?thesis
  proof (cases "vpn_of t lpn = vt * PAGES_PER_VBLK + p")
    case True
    have "lpn mod NUM_BANKS = b"
    proof (rule ccontr)
      assume "lpn mod NUM_BANKS \<noteq> b"
      then have "p = 0" "lpn = 0" "b \<noteq> 0" using e by (auto simp: entry_ok_def)
      moreover have "vpn_of s lpn = vpn_of t lpn" using I(1) l \<open>lpn mod NUM_BANKS \<noteq> b\<close> by (simp add: bank_frame_def)
      ultimately show False using ns True lpn_def by (simp add: no_stray_def)
    qed
    from gc_page_copy [OF hw b inv p vt gc lpn_def l this True] show ?thesis by blast
  next
    case False
    have "vpn_of t lpn < VBLKS_PER_BANK * PAGES_PER_VBLK" using I(3) l by (simp add: map_ok_def)
    then have run: "gc_page hw b vt gc p (gc * PAGES_PER_VBLK + k, t) = Some (gc * PAGES_PER_VBLK + k, t)"
      using lp l False by (simp add: gc_page_def get_vpn_eq CHECK_VPAGE_def)
    have "p + 1 \<le> vpn_of t l mod PAGES_PER_VBLK" if "l \<in> holders t b vt" for l
      using not_held [OF I(9) vt p _ that] False lt I(12) [OF that] by auto
    then have "gc_inv b vt D k0 s (p + 1) k t" using inv by (simp add: gc_inv_def Let_def)
    then show ?thesis using run by blast
  qed
qed

text \<open>Before the loop, and after it.\<close>

lemma gc_start:
  assumes hw: "flash_ok greedy_layout hw" and b: "b < NUM_BANKS" and r: "gc_ready s b D" and m: "map_ok s" and vt: "vt \<in> D"
  shows "\<exists>t w. flash_do (nand_page_ptread hw b vt (PAGES_PER_VBLK - 1) 0 LPN_LIST_SECT (FTL_BUF b) RETURN_WHEN_DONE) s = Some t
    \<and> dram_to_sram (FTL_BUF b) LPN_LIST_BYTES (gdram t) = Some w
    \<and> gc_inv b vt D 0 s 0 0 (set_misc b (\<lambda>m. m\<lparr>lpn_list_of_cur_vblock := \<lambda>i. unat (w i)\<rparr>) t)"
proof -
  define gc where "gc = gc_vblock (g_misc_meta s b)"
  have bl: "blocks_ok s b D gc 0" using r by (simp add: gc_ready_def gc_def)
  note B = gc_blocks_okD [OF bl]
  have vtb: "vt < VBLKS_PER_BANK" "vt \<noteq> gc" using B(1,4) vt by auto
  have pg: "PAGES_PER_VBLK - 1 < PAGES_PER_VBLK" "PAGES_PER_VBLK - 1 = 127" by (simp_all add: geom)
  have z: "0 * 512 + LPN_LIST_SECT * 512 \<le> BYTES_PER_PAGE" "0 * 512 + LPN_LIST_SECT * 512 = 512" by (simp_all add: geom)
  from gc_ptread [OF hw b vtb(1) pg(1) z(1) ftl_buf(1,3) [OF b, of], of RETURN_WHEN_DONE s] b obtain t where t:
    "flash_do (nand_page_ptread hw b vt (PAGES_PER_VBLK - 1) 0 LPN_LIST_SECT (FTL_BUF b) RETURN_WHEN_DONE) s = Some t" "quiet s t" "gpage t = gpage s"
    "\<And>x. x < 512 \<Longrightarrow> gdram t (FTL_BUF b + x) = gpage s b (vt * PAGES_PER_VBLK + 127) x"
    unfolding z(2) pg(2) by auto
  define w where "w = (\<lambda>i. gdram t (FTL_BUF b + 4 * i))"
  have w: "dram_to_sram (FTL_BUF b) LPN_LIST_BYTES (gdram t) = Some w"
    using ftl_buf(2) [OF b] by (simp add: dram_to_sram_def w_def lpn_list_geom MU_MAX_BYTES_def)
  define u where "u = set_misc b (\<lambda>m. m\<lparr>lpn_list_of_cur_vblock := \<lambda>i. unat (w i)\<rparr>) t"
  note Q = quiet_views [OF t(2)]
  have m': "vpn_of u l = vpn_of s l" if "l < NUM_LPAGES" for l using Q(1) [OF that] by (simp add: u_def)
  have mm: "g_misc_meta u = (g_misc_meta s)(b := (g_misc_meta s b)\<lparr>lpn_list_of_cur_vblock := \<lambda>i. unat (w i)\<rparr>)" using Q(4) by (simp add: u_def)
  have ls: "lpns u b i = listed s b vt i" if "i < 127" for i
    using t(4) [of "4 * i"] that by (simp add: mm w_def listed_def mult.commute)
  have gp: "gpage u = gpage s" by (simp add: u_def t(3))
  have fr: "bank_frame b s u" using m' Q(2,3) mm gp t(2) by (auto simp: bank_frame_def u_def quiet_def)
  have h: "holders u b v = holders s b v" for v by (rule holders_cong) (use m' in simp)
  have "blocks_ok u b D gc 0" by (rule blocks_ok_cong [OF bl]) (simp_all add: m' gp)
  moreover have "holders s b gc = {}"
    using B(4,6) by (fastforce simp: holders_def home_def Let_def)
  moreover have "same_store s u" using m' by (simp add: same_store_def gword_def gp)
  moreover have "map_ok u" using m m' by (simp add: map_ok_def)
  ultimately have "gc_inv b vt D 0 s 0 0 u"
    using fr Q(2) [OF b] ls ls [of 0] mm t(2) unfolding gc_inv_def Let_def h gp gc_def [symmetric] by (simp add: u_def quiet_def gc_def)
  then show ?thesis using t(1) w by (auto simp: u_def)
qed

lemma gc_loop:
  assumes hw: "flash_ok greedy_layout hw" and b: "b < NUM_BANKS" and inv: "gc_inv b vt D k0 s p0 k0 u" and vt: "vt \<in> D"
    and gc: "gc = gc_vblock (g_misc_meta s b)" and ns: "p0 = 0 \<Longrightarrow> no_stray s b vt" and p0: "p0 \<le> 127"
  shows "\<exists>t. each (gc_page hw b vt gc) [p0..<127] (gc * PAGES_PER_VBLK + k0, u) = Some (gc * PAGES_PER_VBLK + (card (holders s b vt) + k0), t)
    \<and> gc_inv b vt D k0 s 127 (card (holders s b vt) + k0) t \<and> holders t b vt = {}"
proof -
  let ?I = "\<lambda>p x. \<exists>k. fst x = gc * PAGES_PER_VBLK + k \<and> gc_inv b vt D k0 s p k (snd x)"
  have "\<exists>x'. each (gc_page hw b vt gc) [p0..<127] (gc * PAGES_PER_VBLK + k0, u) = Some x' \<and> ?I 127 x'"
  proof (rule each_upt)
    fix p x assume p: "p0 \<le> p" "p < 127" and "?I p x"
    then obtain k where k: "x = (gc * PAGES_PER_VBLK + k, snd x)" "gc_inv b vt D k0 s p k (snd x)" by (metis prod.collapse)
    have n: "p = 0 \<Longrightarrow> no_stray s b vt" using ns p(1) by simp
    from gc_page_step [OF hw b k(2) p(2) vt gc n] k(1) show "\<exists>x'. gc_page hw b vt gc p x = Some x' \<and> ?I (Suc p) x'"
      by (metis Suc_eq_plus1 fst_conv snd_conv)
  qed (use inv p0 in auto)
  then obtain k t where t: "each (gc_page hw b vt gc) [p0..<127] (gc * PAGES_PER_VBLK + k0, u) = Some (gc * PAGES_PER_VBLK + k, t)"
    "gc_inv b vt D k0 s 127 k t" by (metis prod.collapse)
  note I = gc_invD [OF t(2) gc]
  have "vpn_of t l mod PAGES_PER_VBLK < 127" if "l \<in> holders t b vt" for l
    using gc_blocks_okD(4,6) [OF I(9)] vt that by (fastforce simp: holders_def home_def Let_def)
  then have "holders t b vt = {}" using I(12) by (metis not_less all_not_in_conv)
  then show ?thesis using t I(13) by auto
qed

text \<open>After the loop: the victim is erased and becomes the block kept for the next collection.\<close>

lemma gc_finish:
  assumes hw: "flash_ok greedy_layout hw" and b: "b < NUM_BANKS" and inv: "gc_inv b vt D 0 s 127 k u" and vt: "vt \<in> D" and e: "holders u b vt = {}"
    and k: "k < 126" "k = card (holders s b vt)" and gc: "gc = gc_vblock (g_misc_meta s b)" and co: "counts_ok s b D" and fr: "free_blk_cnt (g_misc_meta s b) = 1"
    and gb: "\<not> gbad s b gc"
  defines "fin \<equiv> \<lambda>m. m\<lparr>cur_write_vpn := gc * PAGES_PER_VBLK + k, gc_vblock := vt, free_blk_cnt := wrap32 (free_blk_cnt m + 1)\<rparr>"
  shows "\<exists>e. flash_do (nand_block_erase hw b vt) u = Some e
    \<and> set_vcount b vt VC_MAX e = Some (put_vcount b vt VC_MAX e)
    \<and> set_vcount b gc k (put_vcount b vt VC_MAX e) = Some (put_vcount b gc k (put_vcount b vt VC_MAX e))
    \<and> (let t = set_misc b fin (put_vcount b gc k (put_vcount b vt VC_MAX e)) in
         bank_ok t b k \<and> cur_write_vpn (g_misc_meta t b) = gc * PAGES_PER_VBLK + k \<and> gc_vblock (g_misc_meta t b) = vt
         \<and> bank_frame b s t \<and> map_ok t \<and> same_store s t \<and> g_ftl_write_buf_id (gfl t) = g_ftl_write_buf_id (gfl s)
         \<and> (b \<noteq> 0 \<and> lists_own s b \<longrightarrow> lists_own t b \<and> lpns t b 0 \<noteq> 0))"
proof -
  note I = gc_invD [OF inv gc]
  note B = gc_blocks_okD [OF I(9)]
  note C = counts_okD [OF co]
  have vtb: "vt < VBLKS_PER_BANK" "vt \<noteq> gc" "META_BLKS_PER_BANK \<le> vt" using B(1,4) vt by auto
  have kp: "k < PAGES_PER_VBLK" "k < 65536" "VC_MAX < 65536" "k \<noteq> VC_MAX" using k by (simp_all add: geom VC_MAX_def)
  from gc_erase [OF hw b vtb(1)] obtain x where x: "flash_do (nand_block_erase hw b vt) u = Some x" "quiet u x"
    "\<And>c r. c < NUM_BANKS \<Longrightarrow> \<not> (c = b \<and> r div PAGES_PER_VBLK = vt) \<Longrightarrow> gpage x c r = gpage u c r"
    "\<And>r. r div PAGES_PER_VBLK = vt \<Longrightarrow> gblank x b r" by blast
  define y where "y = put_vcount b gc k (put_vcount b vt VC_MAX x)"
  define t where "t = set_misc b fin y"
  note Q = quiet_views [OF x(2)]
  have sv: "set_vcount b vt VC_MAX x = Some (put_vcount b vt VC_MAX x)" "set_vcount b gc k (put_vcount b vt VC_MAX x) = Some y"
    using set_vcount_eq [OF b vtb(3,1)] set_vcount_eq [OF b B(2,3)] kp(1) by (simp_all add: y_def)
  note P1 = put_vcount_views [OF b vtb(1) kp(3)] and P2 = put_vcount_views [OF b B(3) kp(2)]
  have m: "vpn_of t l = vpn_of u l" if "l < NUM_LPAGES" for l
    using P1(1) P2(1) Q(1) that by (simp add: t_def y_def)
  have vc: "vcnt t c v = (if c = b \<and> v = gc then k else if c = b \<and> v = vt then VC_MAX else vcnt u c v)" if "c < NUM_BANKS" "v < VBLKS_PER_BANK" for c v
    using P1(2) P2(2) Q(2) that by (simp add: t_def y_def)
  have vs: "vcnt t b v = (if v = gc then k else if v = vt then VC_MAX else vcnt s b v)" if "v < VBLKS_PER_BANK" for v
    using vc [OF b that] I(5) [OF that] by simp
  have bd: "gbad t c v = gbad u c v" if "c < NUM_BANKS" "v < VBLKS_PER_BANK" for c v
    using P1(3) P2(3) Q(3) that by (simp add: t_def y_def)
  have mm: "g_misc_meta t = (g_misc_meta u)(b := fin (g_misc_meta u b))" using Q(4) by (simp add: t_def y_def)
  have gp: "gpage t = gpage x" "gblank t = gblank x" by (simp_all add: t_def y_def)
  have gq: "gpage t c r = gpage u c r" if "c < NUM_BANKS" "\<not> (c = b \<and> r div PAGES_PER_VBLK = vt)" for c r
    using x(3) [OF that] gp by simp
  have bi: "g_ftl_read_buf_id (gfl t) = g_ftl_read_buf_id (gfl u)" "g_ftl_write_buf_id (gfl t) = g_ftl_write_buf_id (gfl u)"
    using x(2) by (simp_all add: t_def y_def quiet_def)
  have uv: "bank_frame b u t" using m vc bd mm gq bi by (auto simp: bank_frame_def fun_eq_iff)
  have bdu: "gbad t b v = gbad s b v" if "v < VBLKS_PER_BANK" for v using bd [OF b that] I(1) b that by (simp add: bank_frame_def)
  have h: "holders t b v = holders u b v" for v by (rule holders_cong) (use m in simp)
  have nv: "vpn_of u l div PAGES_PER_VBLK \<noteq> vt" if "l < NUM_LPAGES" "l mod NUM_BANKS = b" "vpn_of u l \<noteq> 0" for l
    using e that by (auto simp: holders_def)
  have bo: "blocks_ok t b (D - {vt}) gc k"
  proof (rule blocks_ok_mono [OF I(9)])
    show "vpn_of u l div PAGES_PER_VBLK \<in> insert gc (D - {vt})" if "l < NUM_LPAGES" "l mod NUM_BANKS = b" "vpn_of u l \<noteq> 0" for l
      using B(6) [OF that] nv [OF that] by (auto simp: home_def Let_def)
    show "gpage t b r = gpage u b r" if "r div PAGES_PER_VBLK \<in> insert gc (D - {vt})" for r
      using gq [OF b, of r] that vtb(2) by auto
  qed (use m mm in \<open>auto simp: fin_def\<close>)
  have ce: "counts_ok t b (insert gc (D - {vt}))"
  proof (rule counts_okI)
    show "v \<in> insert gc (D - {vt}) \<longleftrightarrow> v < VBLKS_PER_BANK \<and> vcnt t b v \<noteq> VC_MAX" for v
      using C(1) [of v] vs [of v] B(3) kp(4) by (cases "v = gc"; cases "v = vt"; cases "v < VBLKS_PER_BANK") simp_all
    show "\<not> gbad t b v" "vcnt t b v = card (holders t b v)" if "v \<in> insert gc (D - {vt})" for v
      using that C(1-3) [of v] I(14,15) B(3) bdu gb by (auto simp: vs h)
    show "1935 \<le> card (insert gc (D - {vt}))" using card_Suc_Diff1 [OF C(5) vt] C(4,5) B(4) by simp
  qed
  have sp: "spare_ok t b (insert gc (D - {vt}))"
    using vtb x(4) gp(2) C(2) [OF vt] bdu [OF vtb(1)] mm by (simp add: spare_ok_def fin_def)
  have cw: "cur_write_vpn (g_misc_meta t b) = gc * PAGES_PER_VBLK + k" "gc_vblock (g_misc_meta t b) = vt" "free_blk_cnt (g_misc_meta t b) = 2"
    using I(7) fr by (simp_all add: mm fin_def wrap_simps)
  have "bank_ok t b k"
    unfolding bank_ok_def Let_def cw(1) row_div(1) [OF kp(1)]
    by (intro exI [of _ "D - {vt}"] exI [of _ "{}"]) (use bo ce sp cw(3) in simp)
  moreover have "same_store u t"
    unfolding same_store_def
  proof (intro allI impI)
    fix l x assume l: "l < NUM_LPAGES" "x < BYTES_PER_PAGE"
    have "l mod NUM_BANKS < NUM_BANKS" by (simp add: geom)
    then have "gpage t (l mod NUM_BANKS) (vpn_of u l) = gpage u (l mod NUM_BANKS) (vpn_of u l)" if "vpn_of u l \<noteq> 0"
      using nv [OF l(1)] that by (intro gq) auto
    then show "gword t l x = gword u l x" using m [OF l(1)] by (simp add: gword_def)
  qed
  moreover have "map_ok t" using I(3) m by (simp add: map_ok_def)
  moreover have "lists_own t b \<and> lpns t b 0 \<noteq> 0" if lo: "b \<noteq> 0" "lists_own s b"
  proof
    show "lpns t b 0 \<noteq> 0" using I(16) lo C(1) [of vt] vt by (simp add: lists_own_def mm fin_def)
    show "lists_own t b"
      unfolding lists_own_def
    proof (intro allI impI)
      fix v assume v: "v < VBLKS_PER_BANK" "vcnt t b v \<noteq> VC_MAX"
      show "listed t b v 0 \<noteq> 0"
      proof (cases "v = gc")
        case True
        have "gblank t b (gc * PAGES_PER_VBLK + 127)" using gc_blocks_okD(9) [OF bo, of 127] k(1) page_127(1) by simp
        then have "gpage t b (gc * PAGES_PER_VBLK + 127) 0 = 0xFFFFFFFF" by (simp add: gblank_def blank_def gpage_def geom)
        then show ?thesis using True by (simp add: listed_def)
      next
        case False
        have "v \<noteq> vt" using v vs [OF v(1)] False by auto
        then have "listed t b v 0 = listed s b v 0"
          using gq [OF b, of "v * PAGES_PER_VBLK + 127"] I(8) [of "v * PAGES_PER_VBLK + 127"] False page_127(1) by (simp add: listed_def)
        then show ?thesis using lo(2) v vs False by (auto simp: lists_own_def split: if_splits)
      qed
    qed
  qed
  ultimately show ?thesis
    using x(1) sv cw bank_frame_trans [OF I(1) uv] gc_store_trans [OF I(4)] bi I(2)
    unfolding Let_def by (intro exI [of _ x]) (auto simp: t_def y_def)
qed

definition gc_tail :: "flash_hw \<Rightarrow> nat \<Rightarrow> nat \<Rightarrow> nat \<Rightarrow> nat \<Rightarrow> nat \<times> gstate \<Rightarrow> gstate option" where
  "gc_tail hw bank vt_vblock gc_vblk vcount x = do {
     let (free_vpn, s) = x;
     ASSERT (vcount = 0 \<longrightarrow> free_vpn = gc_vblk * PAGES_PER_VBLK);
     s \<leftarrow> flash_do (nand_block_erase hw bank vt_vblock) s;
     ASSERT (free_vpn mod PAGES_PER_VBLK < PAGES_PER_VBLK - 2);
     ASSERT (free_vpn mod PAGES_PER_VBLK = vcount);
     s \<leftarrow> set_vcount bank vt_vblock VC_MAX s;
     s \<leftarrow> set_vcount bank gc_vblk vcount s;
     Some (set_misc bank (\<lambda>m. m\<lparr>cur_write_vpn := free_vpn, gc_vblock := vt_vblock, free_blk_cnt := wrap32 (free_blk_cnt m + 1)\<rparr>) s) }"

text \<open>The checks before the loop pass, and the loop starts in the state \<open>u\<close>.\<close>

lemma gc_prefix:
  assumes hw: "flash_ok greedy_layout hw" and b: "b < NUM_BANKS" and r: "gc_ready s b D" and m: "map_ok s" and vt: "victim s b vt"
    and gc: "gc = gc_vblock (g_misc_meta s b)"
  shows "\<exists>u. gc_inv b vt D 0 s 0 0 u \<and> garbage_collection hw b s = each (gc_page hw b vt gc) [0..<127] (gc * PAGES_PER_VBLK, u) \<bind> gc_tail hw b vt gc (vcnt s b vt)"
    and "vt \<in> D" "vcnt s b vt < 126" "vcnt s b vt = card (holders s b vt)"
proof -
  let ?f = "\<lambda>t. t\<lparr>gc_cnt := wrap32 (gc_cnt t + 1)\<rparr>"
  define s1 where "s1 = set_stat b ?f (set_stat b ?f s)"
  have v: "vpn_of s1 = vpn_of s" "vcnt s1 = vcnt s" "gbad s1 = gbad s" "gpage s1 = gpage s" "gblank s1 = gblank s" "listed s1 = listed s"
    "gword s1 = gword s" "g_misc_meta s1 = g_misc_meta s" "gfl s1 = gfl s" "holders s1 b w = holders s b w" for w
    by (simp_all add: s1_def holders_def)
  have bl: "blocks_ok s b D gc 0" and co: "counts_ok s b D" and so: "spare_ok s b D" and f1: "free_blk_cnt (g_misc_meta s b) = 1"
    using r by (simp_all add: gc_ready_def gc)
  have co1: "counts_ok s1 b D" by (rule counts_ok_cong [OF co]) (simp_all add: v)
  have "blocks_ok s1 b D gc 0" by (rule blocks_ok_cong [OF bl]) (simp_all add: v)
  moreover have "spare_ok s1 b D" by (rule spare_ok_cong [OF so]) (simp_all add: v)
  ultimately have r1: "gc_ready s1 b D" using co1 f1 by (simp add: gc_ready_def v gc)
  have m1: "map_ok s1" "victim s1 b vt" using m vt by (simp_all add: map_ok_def victim_def v)
  note V = victim_block [OF m1(2) co1 gc_blocks_okD(1) [OF bl] b]
  show k: "vt \<in> D" "vcnt s b vt < 126" "vcnt s b vt = card (holders s b vt)" using V(1,2) counts_okD(3) [OF co V(1)] by (simp_all add: v)
  have vb: "vt < VBLKS_PER_BANK" "META_BLKS_PER_BANK \<le> vt" "vt \<noteq> gc" using V(1) gc_blocks_okD(1,4) [OF bl] by auto
  have gcs: "META_BLKS_PER_BANK \<le> gc" "gc < VBLKS_PER_BANK" "gc \<notin> D" "\<not> gbad s b gc" using so by (simp_all add: spare_ok_def gc Let_def)
  then have gvc: "vcnt s b gc = VC_MAX" using counts_okD(1) [OF co] by blast
  have gv: "get_vcount b gc s1 = Some VC_MAX" using get_vcount_eq [OF b gcs(1,2), of s1] gvc by (simp add: v)
  have gb: "gr_is_bad_block b gc s1 = Some False" using gr_is_bad_block_eq [OF b gcs(2), of s1] gcs(4) by (simp add: v)
  from gc_start [OF hw b r1 m1(1) V(1)] obtain t2 w where t2:
    "flash_do (nand_page_ptread hw b vt (PAGES_PER_VBLK - 1) 0 LPN_LIST_SECT (FTL_BUF b) RETURN_WHEN_DONE) s1 = Some t2"
    "dram_to_sram (FTL_BUF b) LPN_LIST_BYTES (gdram t2) = Some w"
    "gc_inv b vt D 0 s1 0 0 (set_misc b (\<lambda>m. m\<lparr>lpn_list_of_cur_vblock := \<lambda>i. unat (w i)\<rparr>) t2)" by blast
  define u where "u = set_misc b (\<lambda>m. m\<lparr>lpn_list_of_cur_vblock := \<lambda>i. unat (w i)\<rparr>) t2"
  have "gc_inv b vt D 0 s 0 0 u" using t2(3) unfolding u_def [symmetric] gc_inv_def bank_frame_def same_store_def v .
  moreover have p: "PAGES_PER_VBLK - 1 = 127" by (simp add: geom)
  have "garbage_collection hw b s = each (gc_page hw b vt gc) [0..<127] (gc * PAGES_PER_VBLK, u) \<bind> gc_tail hw b vt gc (vcnt s b vt)"
    unfolding garbage_collection_def Let_def s1_def [symmetric] gc_tail_def
    using V(3,4) b vb gv gb gc t2(1,2) k(2) p by (simp add: v u_def split_beta del: upt_rec_numeral)
  ultimately show "\<exists>u. gc_inv b vt D 0 s 0 0 u
      \<and> garbage_collection hw b s = each (gc_page hw b vt gc) [0..<127] (gc * PAGES_PER_VBLK, u) \<bind> gc_tail hw b vt gc (vcnt s b vt)" by blast
qed

lemma garbage_collection_result:
  assumes hw: "flash_ok greedy_layout hw" and b: "b < NUM_BANKS" and r: "gc_ready s b D" and m: "map_ok s" and vt: "victim s b vt"
    and ns: "no_stray s b vt" and gc: "gc = gc_vblock (g_misc_meta s b)"
  shows "\<exists>t. garbage_collection hw b s = Some t \<and> bank_ok t b (vcnt s b vt) \<and> vcnt s b vt < 126
    \<and> cur_write_vpn (g_misc_meta t b) = gc * PAGES_PER_VBLK + vcnt s b vt \<and> gc_vblock (g_misc_meta t b) = vt
    \<and> bank_frame b s t \<and> map_ok t \<and> same_store s t \<and> g_ftl_write_buf_id (gfl t) = g_ftl_write_buf_id (gfl s)
    \<and> (b \<noteq> 0 \<and> lists_own s b \<longrightarrow> lists_own t b \<and> lpns t b 0 \<noteq> 0)"
proof -
  note P = gc_prefix [OF hw b r m vt gc]
  from P(1) obtain u where u: "gc_inv b vt D 0 s 0 0 u"
    "garbage_collection hw b s = each (gc_page hw b vt gc) [0..<127] (gc * PAGES_PER_VBLK, u) \<bind> gc_tail hw b vt gc (vcnt s b vt)" by blast
  from gc_loop [OF hw b u(1) P(2) gc ns] obtain t3 where t3:
    "each (gc_page hw b vt gc) [0..<127] (gc * PAGES_PER_VBLK, u) = Some (gc * PAGES_PER_VBLK + vcnt s b vt, t3)"
    "gc_inv b vt D 0 s 127 (vcnt s b vt) t3" "holders t3 b vt = {}" by (auto simp: P(4) simp del: upt_rec_numeral)
  have f: "counts_ok s b D" "free_blk_cnt (g_misc_meta s b) = 1" "\<not> gbad s b gc" using r by (simp_all add: gc_ready_def spare_ok_def gc Let_def)
  let ?fin = "\<lambda>m. m\<lparr>cur_write_vpn := gc * PAGES_PER_VBLK + vcnt s b vt, gc_vblock := vt, free_blk_cnt := wrap32 (free_blk_cnt m + 1)\<rparr>"
  from gc_finish [OF hw b t3(2) P(2) t3(3) P(3,4) gc f] obtain e where e:
    "flash_do (nand_block_erase hw b vt) t3 = Some e" "set_vcount b vt VC_MAX e = Some (put_vcount b vt VC_MAX e)"
    "set_vcount b gc (vcnt s b vt) (put_vcount b vt VC_MAX e) = Some (put_vcount b gc (vcnt s b vt) (put_vcount b vt VC_MAX e))" and
    t: "bank_ok (set_misc b ?fin (put_vcount b gc (vcnt s b vt) (put_vcount b vt VC_MAX e))) b (vcnt s b vt)" and
    rest: "let t = set_misc b ?fin (put_vcount b gc (vcnt s b vt) (put_vcount b vt VC_MAX e)) in
         cur_write_vpn (g_misc_meta t b) = gc * PAGES_PER_VBLK + vcnt s b vt \<and> gc_vblock (g_misc_meta t b) = vt
         \<and> bank_frame b s t \<and> map_ok t \<and> same_store s t \<and> g_ftl_write_buf_id (gfl t) = g_ftl_write_buf_id (gfl s)
         \<and> (b \<noteq> 0 \<and> lists_own s b \<longrightarrow> lists_own t b \<and> lpns t b 0 \<noteq> 0)"
    unfolding Let_def by blast
  have p: "PAGES_PER_VBLK - 2 = 126" "vcnt s b vt < PAGES_PER_VBLK" using P(3) by (simp_all add: geom)
  have "garbage_collection hw b s = Some (set_misc b ?fin (put_vcount b gc (vcnt s b vt) (put_vcount b vt VC_MAX e)))"
    using e P(3) p by (simp add: u(2) t3(1) gc_tail_def del: upt_rec_numeral)
  then show ?thesis using t rest P(3) unfolding Let_def by blast
qed

text \<open>The stray page: one page too many is copied, and the assertion on the number of copies fails.\<close>

lemma stray_copy:
  assumes hw: "flash_ok greedy_layout hw" and b: "b < NUM_BANKS" and inv: "gc_inv b vt D 0 s 0 0 u" and vt: "vt \<in> D" and gc: "gc = gc_vblock (g_misc_meta s b)"
    and st: "\<not> no_stray s b vt"
  shows "\<exists>t. gc_page hw b vt gc 0 (gc * PAGES_PER_VBLK, u) = Some (gc * PAGES_PER_VBLK + 1, t) \<and> gc_inv b vt D 1 t 1 1 t
    \<and> gc = gc_vblock (g_misc_meta t b) \<and> holders t b vt = holders u b vt"
proof -
  note I = gc_invD [OF inv gc]
  note B = gc_blocks_okD [OF I(9)]
  have vtb: "vt < VBLKS_PER_BANK" "vt \<noteq> gc" "META_BLKS_PER_BANK \<le> vt" using B(1,4) vt by auto
  have S: "b \<noteq> 0" "listed s b vt 0 = 0" "vpn_of s 0 = vt * PAGES_PER_VBLK" using st by (simp_all add: no_stray_def)
  have z: "0 < NUM_LPAGES" "0 mod NUM_BANKS \<noteq> b" "0 < PAGES_PER_VBLK" using S(1) by (simp_all add: geom)
  have v0: "vpn_of u 0 = vt * PAGES_PER_VBLK" using I(1) z S(3) by (simp add: bank_frame_def)
  have lp: "lpns u b 0 = 0" using I(11) [of 0] S(2) by simp
  have bl: "gblank u b (gc * PAGES_PER_VBLK + 0)" by (rule B(9)) (use z(3) in auto)
  from gc_copyback [OF hw b vtb(1) z(3) B(3) z(3) bl] obtain x where x:
    "flash_do (nand_page_copyback hw b vt 0 gc 0) u = Some x" "quiet u x"
    "\<And>c r. c < NUM_BANKS \<Longrightarrow> (c, r) \<noteq> (b, gc * PAGES_PER_VBLK) \<Longrightarrow> gpage x c r = gpage u c r" by auto
  let ?vpn = "gc * PAGES_PER_VBLK"
  have vr: "META_BLKS_PER_BANK * PAGES_PER_VBLK \<le> ?vpn" "?vpn < VBLKS_PER_BANK * PAGES_PER_VBLK"
    using B(2,3) by (simp_all add: geom)
  define t where "t = set_misc b (set_lpn 0 0) (put_vpn 0 ?vpn x)"
  note Q = quiet_views [OF x(2)]
  have run: "gc_page hw b vt gc 0 (?vpn, u) = Some (?vpn + 1, t)"
    using lp z(1,3) v0 x(1) row_bound [OF vtb(1) z(3)] set_vpn_eq [OF z(1) vr]
    by (simp add: gc_page_def get_vpn_eq CHECK_VPAGE_def t_def INVALID_def)
  have m: "vpn_of t l = (if l = 0 then ?vpn else vpn_of u l)" if "l < NUM_LPAGES" for l
    using put_vpn_views(1) [OF z(1) vr(2) that] Q(1) [OF that] by (simp add: t_def)
  then have mb: "vpn_of t l = vpn_of u l" if "l < NUM_LPAGES" "l mod NUM_BANKS = b" for l using that z(2) by (cases "l = 0") auto
  have mm: "g_misc_meta t = (g_misc_meta u)(b := set_lpn 0 0 (g_misc_meta u b))" using Q(4) by (simp add: t_def)
  have gq: "gpage t b r = gpage u b r" if "r \<noteq> gc * PAGES_PER_VBLK" for r using x(3) [OF b] that by (simp add: t_def)
  have h: "holders t b v = holders u b v" for v by (rule holders_cong [OF mb])
  have li: "listed t b v p = listed u b v p" if "v \<noteq> gc" for v p
    by (rule listed_cong [OF gq]) (use that in \<open>auto simp: geom\<close>)
  have lD: "listed t b v p = listed u b v p" if "v \<in> D" for v p using li [of v] that B(4) by auto
  have "home t b D gc 1 l" if "l < NUM_LPAGES" "l mod NUM_BANKS = b" "vpn_of t l \<noteq> 0" for l
    using B(4) B(6) [OF that(1,2)] mb [OF that(1,2)] that(3) lD by (auto simp: home_def Let_def)
  moreover have "gblank t b (?vpn + p)" if "1 \<le> p" "p < PAGES_PER_VBLK" for p
    using B(9) [OF _ that(2)] gblank_cong [OF gq, of "?vpn + p"] that(1) by simp
  moreover have "entry_ok b p (lpns t b p)" if "p < 1" for p using that z(1) by (simp add: mm entry_ok_def)
  ultimately have bo: "blocks_ok t b D gc 1" using B(1-4,7) lD by (auto simp: blocks_ok_def)
  have "map_ok t" using I(3) m vr(2) by (simp add: map_ok_def)
  moreover have "lpns t b i = listed t b vt i" if "1 \<le> i" "i < 127" for i
    using I(11) [of i] I(8) [of "vt * PAGES_PER_VBLK + 127"] that vtb(2) page_127(1) li [OF vtb(2)] by (simp add: mm listed_def)
  moreover have "1 \<le> vpn_of t l mod PAGES_PER_VBLK" if "l \<in> holders t b vt" for l
  proof (rule ccontr)
    assume "\<not> 1 \<le> vpn_of t l mod PAGES_PER_VBLK"
    then have "vpn_of t l mod PAGES_PER_VBLK = 0" by simp
    moreover have l: "l < NUM_LPAGES" "l mod NUM_BANKS = b" "vpn_of t l \<noteq> 0" "vpn_of t l div PAGES_PER_VBLK = vt" using that by (auto simp: holders_def)
    ultimately have "listed t b vt 0 = l" using gc_blocks_okD(6) [OF bo l(1-3)] vtb(2) by (auto simp: home_def)
    moreover have "listed t b vt 0 = 0"
      using S(2) li [OF vtb(2), of 0] I(8) [of "vt * PAGES_PER_VBLK + 127"] vtb(2) page_127(1) by (simp add: listed_def)
    ultimately show False using l(2) z(2) by simp
  qed
  moreover have "listed t b vt 0 = 0"
    using S(2) li [OF vtb(2), of 0] I(8) [of "vt * PAGES_PER_VBLK + 127"] vtb(2) page_127(1) by (simp add: listed_def)
  ultimately have "gc_inv b vt D 1 t 1 1 t" using bo I(6,14) unfolding gc_inv_def Let_def h by (simp add: mm)
  moreover have "gc = gc_vblock (g_misc_meta t b)" using I(6) by (simp add: mm)
  ultimately show ?thesis using run h by blast
qed

lemma gc_stray_result:
  assumes hw: "flash_ok greedy_layout hw" and b: "b < NUM_BANKS" and r: "gc_ready s b D" and m: "map_ok s" and vt: "victim s b vt"
    and st: "\<not> no_stray s b vt"
  shows "garbage_collection hw b s = None"
proof -
  define gc where "gc = gc_vblock (g_misc_meta s b)"
  note P = gc_prefix [OF hw b r m vt gc_def]
  from P(1) obtain u where u: "gc_inv b vt D 0 s 0 0 u"
    "garbage_collection hw b s = each (gc_page hw b vt gc) [0..<127] (gc * PAGES_PER_VBLK, u) \<bind> gc_tail hw b vt gc (vcnt s b vt)" by blast
  from stray_copy [OF hw b u(1) P(2) gc_def st] obtain t where t: "gc_page hw b vt gc 0 (gc * PAGES_PER_VBLK, u) = Some (gc * PAGES_PER_VBLK + 1, t)"
    "gc_inv b vt D 1 t 1 1 t" "gc = gc_vblock (g_misc_meta t b)" "holders t b vt = holders u b vt" by blast
  have k: "card (holders t b vt) = vcnt s b vt" using gc_invD(13) [OF u(1) gc_def] t(4) P(4) by simp
  have up: "[0..<127] = 0 # [1..<127]" by (rule upt_conv_Cons [of 0 127, unfolded One_nat_def [symmetric]]) simp
  from gc_loop [OF hw b t(2) P(2) t(3)] obtain t3 where
    "each (gc_page hw b vt gc) [1..<127] (gc * PAGES_PER_VBLK + 1, t) = Some (gc * PAGES_PER_VBLK + (vcnt s b vt + 1), t3)"
    by (auto simp: k simp del: upt_rec_numeral)
  then have run: "each (gc_page hw b vt gc) [0..<127] (gc * PAGES_PER_VBLK, u) = Some (gc * PAGES_PER_VBLK + (vcnt s b vt + 1), t3)"
    unfolding up using t(1) by (simp del: upt_rec_numeral)
  have "(gc * PAGES_PER_VBLK + (vcnt s b vt + 1)) mod PAGES_PER_VBLK = vcnt s b vt + 1"
    by (rule row_div(2)) (use P(3) in \<open>simp add: geom\<close>)
  then show ?thesis unfolding u(2) run gc_tail_def by (auto simp: Let_def split: bind_splits)
qed

subsection \<open>A device with full blocks, for the witnesses\<close>

text \<open>
  Blocks 33 to 2075 hold data, 32 is kept for the collection. Blocks from \<open>f\<close> on have a list in their last page,
  all of whose entries are the first logical page of the bank but entry 0, which is \<open>e\<close>; every other page is blank.
  No logical page is mapped but page 0, to \<open>z\<close>.
\<close>

definition demo_dram :: "u32 \<Rightarrow> dram" where
  "demo_dram z a = (if a = GR_PAGE_MAP_ADDR then z
     else if VCOUNT_ADDR \<le> a \<and> a < VCOUNT_ADDR + VCOUNT_BYTES
     then (let k = (a - VCOUNT_ADDR) mod 4152 in if k < 64 then 0xCDCDCDCD else if k = 64 then 0xCDCD else 0)
     else 0)"

definition demo_pages :: "nat \<Rightarrow> (nat \<Rightarrow> nat) \<Rightarrow> nat \<Rightarrow> nat \<Rightarrow> nat \<Rightarrow> u32" where
  "demo_pages f e rb row x = (if f * 128 \<le> row \<and> row mod 128 = 127 then of_nat (if x = 0 then e (c_bank_rmap ! rb) else c_bank_rmap ! rb) else 0xFFFFFFFF)"

definition gr_demo :: "nat \<Rightarrow> nat \<Rightarrow> u32 \<Rightarrow> (nat \<Rightarrow> nat) \<Rightarrow> gstate" where
  "gr_demo f n z e = \<lparr>gfl = fstate0\<lparr>dram := demo_dram z, nand := nand0\<lparr>pages := demo_pages f e\<rparr>\<rparr>,
     g_misc_meta = (\<lambda>b. \<lparr>cur_write_vpn = 33 * 128 + 126, cur_miscblk_vpn = 0, cur_mapblk_vpn = (\<lambda>_. 0), gc_vblock = 32, free_blk_cnt = n,
        lpn_list_of_cur_vblock = (\<lambda>_. b)\<rparr>),
     g_ftl_statistics = (\<lambda>_. \<lparr>gc_cnt = 0, page_wcount = 0\<rparr>), g_bad_blk_count = (\<lambda>_. 0)\<rparr>"

lemma demo_misc [simp]: "g_misc_meta (gr_demo f n z e) b = \<lparr>cur_write_vpn = 33 * 128 + 126, cur_miscblk_vpn = 0, cur_mapblk_vpn = (\<lambda>_. 0), gc_vblock = 32,
    free_blk_cnt = n, lpn_list_of_cur_vblock = (\<lambda>_. b)\<rparr>"
  by (simp add: gr_demo_def)

lemma demo_vpn:
  assumes "l < NUM_LPAGES"
  shows "vpn_of (gr_demo f n z e) l = (if l = 0 then unat z else 0)"
  using map_addr_g(3) [OF assms] by (simp add: vpn_of_def gr_demo_def gdram_def demo_dram_def)

lemma demo_vcnt:
  assumes "b < NUM_BANKS" and "v < VBLKS_PER_BANK"
  shows "vcnt (gr_demo f n z e) b v = (if v < 33 then VC_MAX else 0)"
proof -
  let ?a = "vcount_addr b v"
  note A = vcount_addr_bounds [OF assms]
  have v: "2 * v < 4152" using assms(2) by (simp add: geom)
  have K: "?a = 4 * (VCOUNT_ADDR div 4 + 1038 * b) + 2 * v" by (simp add: vcount_addr_def geom)
  have q: "(4 * k + 2 * v) div 4 * 4 = 4 * k + v div 2 * 4" "(4 * k + 2 * v) mod 4 = v mod 2 * 2" for k :: nat by presburger+
  have "aligned_addr ?a = 4 * (VCOUNT_ADDR div 4 + 1038 * b) + v div 2 * 4" unfolding aligned_addr_def K by (rule q(1))
  then have o: "aligned_addr ?a - VCOUNT_ADDR = b * 4152 + v div 2 * 4" by (simp add: geom)
  have m4: "?a mod 4 = v mod 2 * 2" unfolding K by (rule q(2))
  have "v div 2 * 4 < 4152" using v by linarith
  then have om: "(aligned_addr ?a - VCOUNT_ADDR) mod 4152 = v div 2 * 4" by (simp add: o)
  have w: "gdram (gr_demo f n z e) (aligned_addr ?a) = (if v div 2 < 16 then 0xCDCDCDCD else if v div 2 = 16 then 0xCDCD else 0)"
  proof -
    have "GR_PAGE_MAP_ADDR < aligned_addr ?a" using A(2) by (simp add: geom)
    moreover have "v div 2 * 4 < 64 \<longleftrightarrow> v div 2 < 16" "v div 2 * 4 = 64 \<longleftrightarrow> v div 2 = 16" by linarith+
    ultimately show ?thesis using A(2,5) om unfolding gr_demo_def gdram_def demo_dram_def Let_def by (simp del: div_eq_dividend_iff)
  qed
  consider "v div 2 < 16" "v < 33" | "v = 32" | "v = 33" | "v div 2 > 16" "\<not> v < 33" by linarith
  then show ?thesis
  proof cases
    case 1
    have "ld16 ?a (gdram (gr_demo f n z e)) = 0xCDCD"
      using 1 w m4 by (cases "v mod 2 = 0") (simp_all add: ld16_def)
    then show ?thesis using 1 by (simp add: vcnt_def VC_MAX_def)
  next
    case 2
    then show ?thesis using w m4 by (simp add: vcnt_def VC_MAX_def ld16_def)
  next
    case 3
    then show ?thesis using w m4 by (simp add: vcnt_def ld16_def)
  next
    case 4
    then show ?thesis using w by (simp add: vcnt_def ld16_def)
  qed
qed

lemma demo_bad: "b < NUM_BANKS \<Longrightarrow> v < VBLKS_PER_BANK \<Longrightarrow> \<not> gbad (gr_demo f n z e) b v"
  using bad_bit_addr [of b v] by (simp add: gbad_def dram_bit_def gr_demo_def gdram_def demo_dram_def geom)

lemma rmap_real: "b < NUM_BANKS \<Longrightarrow> c_bank_rmap ! REAL_BANK b = b"
proof -
  have "\<forall>b < NUM_BANKS. c_bank_rmap ! REAL_BANK b = b"
    unfolding less_banks by (simp add: REAL_BANK_def c_bank_map_def c_bank_rmap_def X_BANK_def)
  then show "b < NUM_BANKS \<Longrightarrow> c_bank_rmap ! REAL_BANK b = b" by simp
qed

lemma demo_listed:
  assumes "b < NUM_BANKS" and "f \<le> v" and "e b < 8"
  shows "listed (gr_demo f n z e) b v p = (if p = 0 then e b else b)"
proof -
  have "b < 8" using assms(1) by (simp add: geom)
  moreover have "f * 128 \<le> v * 128 + 127" using mult_le_mono1 [OF assms(2), of 128] by simp
  ultimately show ?thesis using assms
    by (simp add: listed_def gpage_def gr_demo_def demo_pages_def rmap_real geom unat_of_nat)
qed

lemma demo_blank: "v < f \<or> r mod 128 \<noteq> 127 \<Longrightarrow> r div 128 = v \<Longrightarrow> gblank (gr_demo f n z e) b r"
proof -
  assume "v < f \<or> r mod 128 \<noteq> 127" "r div 128 = v"
  then have "\<not> (f * 128 \<le> r \<and> r mod 128 = 127)" by (metis div_le_mono leD nonzero_mult_div_cancel_right zero_neq_numeral)
  then show "gblank (gr_demo f n z e) b r" by (auto simp: gblank_def blank_def gr_demo_def demo_pages_def)
qed

lemma demo_holders:
  assumes "b \<noteq> 0 \<or> z = 0"
  shows "holders (gr_demo f n z e) b v = {}"
  using assms demo_vpn by (auto simp: holders_def geom)

lemma demo_counts:
  assumes "b \<noteq> 0 \<or> z = 0" and "b < NUM_BANKS"
  shows "counts_ok (gr_demo f n z e) b {33..<VBLKS_PER_BANK}"
proof (rule counts_okI)
  show "v \<in> {33..<VBLKS_PER_BANK} \<longleftrightarrow> v < VBLKS_PER_BANK \<and> vcnt (gr_demo f n z e) b v \<noteq> VC_MAX" for v
    using demo_vcnt [OF assms(2), of v] by (cases "v < VBLKS_PER_BANK") (simp_all add: VC_MAX_def)
qed (use demo_bad demo_vcnt demo_holders assms in \<open>auto simp: geom\<close>)

lemma demo_spare:
  assumes "b < NUM_BANKS" and "33 \<le> f"
  shows "spare_ok (gr_demo f n z e) b {33..<VBLKS_PER_BANK}"
proof -
  have "gblank (gr_demo f n z e) b (32 * PAGES_PER_VBLK + p)" if "p < PAGES_PER_VBLK" for p
    by (rule demo_blank [of 32]) (use assms(2) that in \<open>auto simp: geom\<close>)
  moreover have "\<not> gbad (gr_demo f n z e) b 32" by (rule demo_bad [OF assms(1)]) (simp add: geom)
  ultimately show ?thesis by (simp add: spare_ok_def geom)
qed

lemma gr_demo_blocks:
  assumes "b \<noteq> 0 \<or> z = 0" and "b < NUM_BANKS" and "e b = b \<or> e b = 0" and "\<And>v. v \<in> F \<Longrightarrow> f \<le> v \<and> v < VBLKS_PER_BANK" and "33 \<le> f"
    and "32 \<le> ob" "ob < f" "ob < VBLKS_PER_BANK" "u \<le> 127"
  shows "blocks_ok (gr_demo f n z e) b F ob u"
proof -
  have b: "b < 8" "e b < 8" using assms(2,3) by (auto simp: geom)
  have "vpn_of (gr_demo f n z e) l = 0" if "l < NUM_LPAGES" "l mod NUM_BANKS = b" for l
    using demo_vpn [OF that(1)] that assms(1) by (auto simp: geom)
  moreover have "entry_ok b p (listed (gr_demo f n z e) b v p)" if "v \<in> F" for v p
    using demo_listed [OF assms(2), of f v e n z p] assms(3,4) that b by (auto simp: entry_ok_def geom)
  moreover have "gblank (gr_demo f n z e) b (ob * PAGES_PER_VBLK + p)" if "p < PAGES_PER_VBLK" for p
    by (rule demo_blank [of ob]) (use assms(7) that in \<open>auto simp: geom\<close>)
  ultimately show ?thesis using assms(4-9) b(1) by (force simp: blocks_ok_def entry_ok_def geom)
qed

lemma demo_gc_ready:
  assumes "b \<noteq> 0 \<or> z = 0" and "b < NUM_BANKS" and "e b = b \<or> e b = 0"
  shows "gc_ready (gr_demo 33 1 z e) b {33..<VBLKS_PER_BANK}"
  unfolding gc_ready_def
  using demo_counts [OF assms(1,2)] demo_spare [OF assms(2)] gr_demo_blocks [where f = 33 and n = 1 and e = e and F = "{33..<VBLKS_PER_BANK}" and ob = 32 and u = 0, OF assms]
  by (simp add: geom)

lemma demo_map_ok: "unat z < VBLKS_PER_BANK * PAGES_PER_VBLK \<Longrightarrow> map_ok (gr_demo f n z e)"
  by (auto simp: map_ok_def demo_vpn geom)

lemma demo_victim: "b < NUM_BANKS \<Longrightarrow> victim (gr_demo f n z e) b 33"
  by (simp add: victim_def demo_vcnt VC_MAX_def geom)

subsection \<open>The properties\<close>



text \<open>
  C18. The first block of a bank keeps 0 in entry 0 of its list, because its page 0 is never written. When such a block is
  collected in a bank other than bank 0 while logical page 0, a page of bank 0, is mapped to page 0 of the block of
  the same number there, the collection takes the entry for its own, copies one page too many and fails.
\<close>

theorem gc_stray_page:
  assumes "flash_ok greedy_layout hw" and "bank < NUM_BANKS" and "gc_ready s bank D" and "map_ok s" and "victim s bank vt"
    and "bank \<noteq> 0" and "listed s bank vt 0 = 0" and "vpn_of s 0 = vt * PAGES_PER_VBLK"
  shows "garbage_collection hw bank s = None"
proof -
  have "\<not> no_stray s bank vt" using assms(6-8) by (simp add: no_stray_def)
  from gc_stray_result [OF assms(1-5) this] show ?thesis .
qed

theorem gc_stray_page_witness:
  "garbage_collection hw_ref 1 (gr_demo 33 1 (33 * 128) (\<lambda>b. 0)) = None"
proof -
  have b: "1 < NUM_BANKS" by (simp add: geom)
  have g: "gc_ready (gr_demo 33 1 (33 * 128) (\<lambda>b. 0)) 1 {33..<VBLKS_PER_BANK}" by (rule demo_gc_ready [OF _ b]) simp_all
  have m: "map_ok (gr_demo 33 1 (33 * 128) (\<lambda>b. 0))" by (rule demo_map_ok) (simp add: geom)
  have l: "listed (gr_demo 33 1 (33 * 128) (\<lambda>b. 0)) 1 33 0 = 0" using demo_listed [OF b, of 33 33 "\<lambda>_. 0" 1 "33 * 128" 0] by simp
  have v: "vpn_of (gr_demo 33 1 (33 * 128) (\<lambda>b. 0)) 0 = 33 * PAGES_PER_VBLK" using demo_vpn [of 0] by (simp add: geom)
  from gc_stray_page [OF hw_ref_ok b g m demo_victim [OF b] _ l v] show ?thesis by simp
qed

end
