(* ===== verification/Greedy_Store.thy ===== *)
theory Greedy_Store
  imports Greedy_Gc
begin

text \<open>
  Host requests on the greedy layer (\<open>ftl_greedy/ftl.c\<close>): a new page for a write, the write of one page, and, as
  interpretations of \<open>page_writes\<close> and \<open>page_reads\<close>, whole requests.
\<close>

subsection \<open>The next page of a bank\<close>

lemma bank_okE:
  assumes "bank_ok s b u"
  obtains F U where "blocks_ok s b F (cur_write_vpn (g_misc_meta s b) div PAGES_PER_VBLK) u"
    "counts_ok s b (insert (cur_write_vpn (g_misc_meta s b) div PAGES_PER_VBLK) (F \<union> U))"
    "spare_ok s b (insert (cur_write_vpn (g_misc_meta s b) div PAGES_PER_VBLK) (F \<union> U))"
    "cur_write_vpn (g_misc_meta s b) div PAGES_PER_VBLK \<notin> U" "F \<inter> U = {}"
    "U = {} \<or> U = {v \<in> insert (cur_write_vpn (g_misc_meta s b) div PAGES_PER_VBLK) (F \<union> U). cur_write_vpn (g_misc_meta s b) div PAGES_PER_VBLK < v}"
    "\<And>v p. v \<in> U \<Longrightarrow> p < PAGES_PER_VBLK \<Longrightarrow> gblank s b (v * PAGES_PER_VBLK + p)" "free_blk_cnt (g_misc_meta s b) = 2 + card U"
  using assms unfolding bank_ok_def Let_def by blast

lemma bank_okI:
  assumes "cur_write_vpn (g_misc_meta s b) div PAGES_PER_VBLK = cb" and "blocks_ok s b F cb u" and "counts_ok s b D" and "spare_ok s b D"
    and "D = insert cb (F \<union> U)" and "cb \<notin> U" and "F \<inter> U = {}" and "U = {} \<or> U = {v \<in> D. cb < v}"
    and "\<And>v p. v \<in> U \<Longrightarrow> p < PAGES_PER_VBLK \<Longrightarrow> gblank s b (v * PAGES_PER_VBLK + p)" and "free_blk_cnt (g_misc_meta s b) = 2 + card U"
  shows "bank_ok s b u"
  unfolding bank_ok_def Let_def assms(1)
  by (intro exI [of _ F] exI [of _ U] conjI ballI allI impI assms(2,6,7,9,10) assms(3,4,8) [unfolded assms(5)])

lemma next_data_block_eq:
  assumes b: "b < NUM_BANKS" and m: "META_BLKS_PER_BANK \<le> v" and nb: "nb < VBLKS_PER_BANK" "vcnt s b nb < PAGES_PER_VBLK"
    and gap: "\<And>w. v < w \<Longrightarrow> w < nb \<Longrightarrow> vcnt s b w = VC_MAX" and lt: "v < nb"
  shows "next_data_block b s v = Some nb"
  using m gap lt
proof (induction "nb - v" arbitrary: v)
  case (Suc k)
  have v: "v + 1 < VBLKS_PER_BANK" "META_BLKS_PER_BANK \<le> v + 1" "v + 1 \<noteq> VBLKS_PER_BANK" using Suc.prems(1,3) nb(1) by simp_all
  show ?case
  proof (cases "v + 1 = nb")
    case True
    have "VC_MAX \<noteq> vcnt s b nb" using nb(2) by (auto simp: VC_MAX_def geom)
    then show ?thesis using get_vcount_eq [OF b v(2,1), of s] nb(2) v(3) True by (simp add: next_data_block.simps [of b s v])
  next
    case False
    have c: "vcnt s b (v + 1) = VC_MAX" using Suc.prems(2) [of "v + 1"] Suc.prems(3) False by simp
    have "next_data_block b s (v + 1) = Some nb"
      by (rule Suc.hyps(1)) (use Suc.hyps(2) Suc.prems False v in auto)
    then show ?thesis using get_vcount_eq [OF b v(2,1), of s] v(3) c by (simp add: next_data_block.simps [of b s v])
  qed
qed simp

text \<open>The valid pages of a block are less than its pages.\<close>

lemma holders_card:
  assumes "blocks_ok s b F ob u" and "v \<in> insert ob F"
  shows "card (holders s b v) \<le> (if v = ob then u else 127)"
proof -
  note B = gc_blocks_okD [OF assms(1)]
  let ?p = "\<lambda>l. vpn_of s l mod PAGES_PER_VBLK"
  have h: "(v \<in> F \<and> ?p l < 127 \<and> listed s b v (?p l) = l) \<or> (v = ob \<and> ?p l < u \<and> lpns s b (?p l) = l)" if "l \<in> holders s b v" for l
    using B(6) [of l] that by (auto simp: holders_def home_def Let_def)
  have "inj_on ?p (holders s b v)"
    by (rule inj_onI) (use h B(4) in metis)
  moreover have "?p ` holders s b v \<subseteq> {..<if v = ob then u else 127}" using h B(4) by (auto split: if_splits)
  ultimately show ?thesis using card_inj_on_le [of ?p "holders s b v" "{..<if v = ob then u else 127}"] by simp
qed

lemma no_holders: "blocks_ok s b F ob u \<Longrightarrow> v \<notin> insert ob F \<Longrightarrow> holders s b v = {}"
  using gc_blocks_okD(6) [of s b F ob u] by (fastforce simp: holders_def home_def Let_def)

text \<open>What a bank needs so that a collection finds no stray page, and what it has after a step.\<close>

definition stray_safe :: "gstate \<Rightarrow> nat \<Rightarrow> bool" where
  "stray_safe s b \<longleftrightarrow> b = 0 \<or> vpn_of s 0 = 0 \<or> lists_own s b \<and> lpns s b 0 \<noteq> 0"

text \<open>
  A page for the next write: page \<open>cur_write_vpn\<close> of the bank is then free, and its block open. \<open>assigned\<close> is what
  all three ways to get one promise.
\<close>

definition assigned :: "flash_hw \<Rightarrow> nat \<Rightarrow> gstate \<Rightarrow> gstate \<Rightarrow> bool" where
  "assigned hw b s t \<longleftrightarrow> assign_new_write_vpn hw b s = Some (cur_write_vpn (g_misc_meta t b), t)
     \<and> bank_ok t b (cur_write_vpn (g_misc_meta t b) mod PAGES_PER_VBLK) \<and> cur_write_vpn (g_misc_meta t b) mod PAGES_PER_VBLK < 127
     \<and> bank_frame b s t \<and> map_ok t \<and> same_store s t \<and> g_ftl_write_buf_id (gfl t) = g_ftl_write_buf_id (gfl s)
     \<and> (b \<noteq> 0 \<and> lists_own s b \<and> lpns s b 0 \<noteq> 0 \<longrightarrow> lists_own t b \<and> (cur_write_vpn (g_misc_meta t b) mod PAGES_PER_VBLK = 0 \<or> lpns t b 0 \<noteq> 0))"

text \<open>The open block has a page left.\<close>

lemma assign_next:
  assumes b: "b < NUM_BANKS" and bk: "bank_ok s b (cur_write_vpn (g_misc_meta s b) mod PAGES_PER_VBLK + 1)" and m: "map_ok s"
    and c: "cur_write_vpn (g_misc_meta s b) mod PAGES_PER_VBLK < 126"
  shows "\<exists>t. assigned hw b s t"
proof -
  let ?c = "cur_write_vpn (g_misc_meta s b)"
  let ?cb = "?c div PAGES_PER_VBLK"
  define t where "t = set_misc b (\<lambda>m. m\<lparr>cur_write_vpn := ?c + 1\<rparr>) s"
  have P: "PAGES_PER_VBLK = 128" by (rule page_127(2))
  have dm: "(?c + 1) div PAGES_PER_VBLK = ?cb" "(?c + 1) mod PAGES_PER_VBLK = ?c mod PAGES_PER_VBLK + 1"
  proof -
    have e: "?c + 1 = ?cb * PAGES_PER_VBLK + (?c mod PAGES_PER_VBLK + 1)" by simp
    have l: "?c mod PAGES_PER_VBLK + 1 < PAGES_PER_VBLK" using c P by simp
    show "(?c + 1) div PAGES_PER_VBLK = ?cb" by (subst e, rule row_div(1) [OF l])
    show "(?c + 1) mod PAGES_PER_VBLK = ?c mod PAGES_PER_VBLK + 1" by (subst e, rule row_div(2) [OF l])
  qed
  have "?c mod PAGES_PER_VBLK \<noteq> PAGES_PER_VBLK - 2" using c P by simp
  then have run: "assign_new_write_vpn hw b s = Some (?c + 1, t)"
    using b by (simp add: assign_new_write_vpn_def t_def Let_def)
  have v: "cur_write_vpn (g_misc_meta t b) = ?c + 1" "lpns t b = lpns s b" "gc_vblock (g_misc_meta t b) = gc_vblock (g_misc_meta s b)"
    "free_blk_cnt (g_misc_meta t b) = free_blk_cnt (g_misc_meta s b)" "vpn_of t = vpn_of s" "vcnt t = vcnt s" "gbad t = gbad s" "gpage t = gpage s"
    "gblank t = gblank s" "listed t = listed s" "gword t = gword s" "gfl t = gfl s" "holders t b w = holders s b w" for w
    by (simp_all add: t_def holders_def)
  from bk obtain F U where B: "blocks_ok s b F ?cb (?c mod PAGES_PER_VBLK + 1)" "counts_ok s b (insert ?cb (F \<union> U))" "spare_ok s b (insert ?cb (F \<union> U))"
    "?cb \<notin> U" "F \<inter> U = {}" "U = {} \<or> U = {v \<in> insert ?cb (F \<union> U). ?cb < v}"
    "\<And>v p. v \<in> U \<Longrightarrow> p < PAGES_PER_VBLK \<Longrightarrow> gblank s b (v * PAGES_PER_VBLK + p)" "free_blk_cnt (g_misc_meta s b) = 2 + card U" by (rule bank_okE) blast
  have "bank_ok t b (?c mod PAGES_PER_VBLK + 1)"
  proof (rule bank_okI [OF _ _ _ _ refl B(4,5,6)])
    show "cur_write_vpn (g_misc_meta t b) div PAGES_PER_VBLK = ?cb" using dm(1) v(1) by simp
    show "blocks_ok t b F ?cb (?c mod PAGES_PER_VBLK + 1)" by (rule blocks_ok_cong [OF B(1)]) (simp_all add: v)
    show "counts_ok t b (insert ?cb (F \<union> U))" by (rule counts_ok_cong [OF B(2)]) (simp_all add: v)
    show "spare_ok t b (insert ?cb (F \<union> U))" by (rule spare_ok_cong [OF B(3)]) (simp_all add: v)
  qed (use B(7,8) in \<open>simp_all add: v\<close>)
  moreover have "bank_frame b s t" "map_ok t" "same_store s t" using m by (simp_all add: bank_frame_def map_ok_def same_store_def v, simp add: t_def)
  ultimately show ?thesis using run dm(2) c by (intro exI [of _ t]) (simp add: assigned_def v lists_own_def)
qed

text \<open>The open block is full: its list goes to its last page and the list in the SRAM is cleared.\<close>

lemma list_written:
  assumes hw: "flash_ok greedy_layout hw" and b: "b < NUM_BANKS" and bl: "blocks_ok s b F cb 127"
  shows "\<exists>d t. sram_to_dram (FTL_BUF b) (\<lambda>i. of_nat (lpns s b i)) LPN_LIST_BYTES (gdram s) = Some d
    \<and> flash_do (nand_page_ptprogram hw b cb (PAGES_PER_VBLK - 1) 0 LPN_LIST_SECT (FTL_BUF b)) (set_gdram d s) = Some t
    \<and> quiet s t \<and> (\<forall>c < NUM_BANKS. \<forall>r. (c, r) \<noteq> (b, cb * PAGES_PER_VBLK + 127) \<longrightarrow> gpage t c r = gpage s c r)
    \<and> (\<forall>p < 127. listed t b cb p = lpns s b p)"
proof -
  note B = gc_blocks_okD [OF bl]
  define d where "d = (\<lambda>a. if FTL_BUF b \<le> a \<and> a < FTL_BUF b + LPN_LIST_BYTES then of_nat (lpns s b ((a - FTL_BUF b) div 4)) else gdram s a)"
  have d: "sram_to_dram (FTL_BUF b) (\<lambda>i. of_nat (lpns s b i)) LPN_LIST_BYTES (gdram s) = Some d"
    using ftl_buf(2) [OF b] by (simp add: sram_to_dram_def d_def lpn_list_geom MU_MAX_BYTES_def)
  have pg: "PAGES_PER_VBLK - 1 < PAGES_PER_VBLK" "PAGES_PER_VBLK - 1 = 127" by (simp_all add: geom)
  have z: "0 * 512 + LPN_LIST_SECT * 512 \<le> BYTES_PER_PAGE" "0 * 512 + LPN_LIST_SECT * 512 = 512" by (simp_all add: geom)
  have gb: "gblank (set_gdram d s) b (cb * PAGES_PER_VBLK + (PAGES_PER_VBLK - 1))" using B(9) [of 127] page_127(1) pg(2) by simp
  from gc_ptprogram [OF hw b B(3) pg(1) z(1) ftl_buf(1) [OF b] gb] obtain t where
    t: "flash_do (nand_page_ptprogram hw b cb (PAGES_PER_VBLK - 1) 0 LPN_LIST_SECT (FTL_BUF b)) (set_gdram d s) = Some t" "quiet (set_gdram d s) t"
      "\<forall>c < NUM_BANKS. \<forall>r. (c, r) \<noteq> (b, cb * PAGES_PER_VBLK + 127) \<longrightarrow> gpage t c r = gpage s c r"
      "\<forall>x < 512. gpage t b (cb * PAGES_PER_VBLK + 127) x = d (FTL_BUF b + x)"
    unfolding pg(2) z(2) by auto
  have "same_meta s (set_gdram d s)"
    using ftl_buf(3) [OF b] by (auto simp: same_meta_def d_def lpn_list_geom geom)
  then have "quiet s (set_gdram d s)" by (simp add: quiet_def)
  moreover have "listed t b cb p = lpns s b p" if "p < 127" for p
  proof -
    have "lpns s b p < 4294967296" using B(8) [OF that] by (simp add: entry_ok_def geom)
    then show ?thesis using t(4) that by (simp add: listed_def d_def lpn_list_geom unat_of_nat mult.commute)
  qed
  ultimately show ?thesis using d t quiet_trans by blast
qed

text \<open>The state \<open>x\<close> once the list of a full block is written and the number of free blocks is down by one.\<close>

definition block_closed :: "nat \<Rightarrow> gstate \<Rightarrow> nat \<Rightarrow> gstate \<Rightarrow> bool" where
  "block_closed b s cb x \<longleftrightarrow> (\<forall>l < NUM_LPAGES. vpn_of x l = vpn_of s l) \<and> (\<forall>c < NUM_BANKS. \<forall>v < VBLKS_PER_BANK. vcnt x c v = vcnt s c v \<and> gbad x c v = gbad s c v)
     \<and> (\<forall>c < NUM_BANKS. \<forall>r. (c, r) \<noteq> (b, cb * PAGES_PER_VBLK + 127) \<longrightarrow> gpage x c r = gpage s c r) \<and> (\<forall>p < 127. listed x b cb p = lpns s b p)
     \<and> g_misc_meta x = (g_misc_meta s)(b := (g_misc_meta s b)\<lparr>lpn_list_of_cur_vblock := \<lambda>_. 0, free_blk_cnt := sub32 (free_blk_cnt (g_misc_meta s b)) 1\<rparr>)
     \<and> g_ftl_write_buf_id (gfl x) = g_ftl_write_buf_id (gfl s) \<and> g_ftl_read_buf_id (gfl x) = g_ftl_read_buf_id (gfl s)"

lemma block_closedD:
  assumes "block_closed b s cb x"
  shows "\<And>l. l < NUM_LPAGES \<Longrightarrow> vpn_of x l = vpn_of s l" "\<And>c v. c < NUM_BANKS \<Longrightarrow> v < VBLKS_PER_BANK \<Longrightarrow> vcnt x c v = vcnt s c v"
    "\<And>c v. c < NUM_BANKS \<Longrightarrow> v < VBLKS_PER_BANK \<Longrightarrow> gbad x c v = gbad s c v"
    "\<And>c r. c < NUM_BANKS \<Longrightarrow> (c, r) \<noteq> (b, cb * PAGES_PER_VBLK + 127) \<Longrightarrow> gpage x c r = gpage s c r" "\<And>p. p < 127 \<Longrightarrow> listed x b cb p = lpns s b p"
    "g_misc_meta x = (g_misc_meta s)(b := (g_misc_meta s b)\<lparr>lpn_list_of_cur_vblock := \<lambda>_. 0, free_blk_cnt := sub32 (free_blk_cnt (g_misc_meta s b)) 1\<rparr>)"
    "g_ftl_write_buf_id (gfl x) = g_ftl_write_buf_id (gfl s)" "g_ftl_read_buf_id (gfl x) = g_ftl_read_buf_id (gfl s)" "holders x b v = holders s b v"
proof -
  show "\<And>l. l < NUM_LPAGES \<Longrightarrow> vpn_of x l = vpn_of s l" using assms by (simp add: block_closed_def)
  then show "holders x b v = holders s b v" by (intro holders_cong) simp
qed (use assms in \<open>simp_all add: block_closed_def\<close>)

lemma assign_full:
  assumes hw: "flash_ok greedy_layout hw" and b: "b < NUM_BANKS" and bl: "blocks_ok s b F cb 127"
    and cb: "cb = cur_write_vpn (g_misc_meta s b) div PAGES_PER_VBLK" and c: "cur_write_vpn (g_misc_meta s b) mod PAGES_PER_VBLK = 126"
  shows "\<exists>x. block_closed b s cb x \<and> assign_new_write_vpn hw b s =
    (if free_blk_cnt (g_misc_meta x b) = 1 then garbage_collection hw b x \<bind> (\<lambda>t. Some (cur_write_vpn (g_misc_meta t b), t))
     else next_data_block b x cb \<bind> (\<lambda>v. Some (v * PAGES_PER_VBLK, set_misc b (\<lambda>m. m\<lparr>cur_write_vpn := v * PAGES_PER_VBLK\<rparr>) x)))"
proof -
  from list_written [OF hw b bl] obtain d t where dt: "sram_to_dram (FTL_BUF b) (\<lambda>i. of_nat (lpns s b i)) LPN_LIST_BYTES (gdram s) = Some d"
    "flash_do (nand_page_ptprogram hw b cb (PAGES_PER_VBLK - 1) 0 LPN_LIST_SECT (FTL_BUF b)) (set_gdram d s) = Some t" "quiet s t"
    "\<forall>c < NUM_BANKS. \<forall>r. (c, r) \<noteq> (b, cb * PAGES_PER_VBLK + 127) \<longrightarrow> gpage t c r = gpage s c r" "\<forall>p < 127. listed t b cb p = lpns s b p" by blast
  define x where "x = set_misc b (\<lambda>m. m\<lparr>free_blk_cnt := sub32 (free_blk_cnt m) 1\<rparr>) (set_misc b (\<lambda>m. m\<lparr>lpn_list_of_cur_vblock := \<lambda>_. 0\<rparr>) t)"
  have "block_closed b s cb x"
    using quiet_views [OF dt(3)] dt(3-5) by (simp add: block_closed_def x_def quiet_def)
  moreover have "cur_write_vpn (g_misc_meta s b) mod PAGES_PER_VBLK = PAGES_PER_VBLK - 2" using c by (simp add: page_127(2))
  then have "assign_new_write_vpn hw b s =
    (if free_blk_cnt (g_misc_meta x b) = 1 then garbage_collection hw b x \<bind> (\<lambda>t. Some (cur_write_vpn (g_misc_meta t b), t))
     else next_data_block b x cb \<bind> (\<lambda>v. Some (v * PAGES_PER_VBLK, set_misc b (\<lambda>m. m\<lparr>cur_write_vpn := v * PAGES_PER_VBLK\<rparr>) x)))"
    using b dt(1,2) by (simp add: assign_new_write_vpn_def Let_def cb [symmetric] x_def)
  ultimately show ?thesis by blast
qed

lemma closed_frame:
  assumes "block_closed b s cb x" and "b < NUM_BANKS" and "blocks_ok s b F cb 127" and "map_ok s"
  shows "bank_frame b s x" "map_ok x" "same_store s x" "b \<noteq> 0 \<and> lists_own s b \<and> lpns s b 0 \<noteq> 0 \<Longrightarrow> lists_own x b"
proof -
  note X = block_closedD [OF assms(1)]
  note B = gc_blocks_okD [OF assms(3)]
  show "bank_frame b s x" using X(1-4,6,8) assms(2) by (auto simp: bank_frame_def fun_eq_iff)
  show "map_ok x" using assms(4) X(1) by (simp add: map_ok_def)
  show "same_store s x"
    unfolding same_store_def
  proof (intro allI impI)
    fix l i assume l: "l < NUM_LPAGES" "i < BYTES_PER_PAGE"
    have "l mod NUM_BANKS < NUM_BANKS" by (simp add: geom)
    moreover have "(l mod NUM_BANKS, vpn_of s l) \<noteq> (b, cb * PAGES_PER_VBLK + 127)" if "vpn_of s l \<noteq> 0"
      using B(4) B(6) [OF l(1) _ that] row_eq [OF page_127(1), of "vpn_of s l" cb] by (auto simp: home_def Let_def)
    ultimately show "gword x l i = gword s l i" using X(1,4) l by (cases "vpn_of s l = 0") (simp_all add: gword_def)
  qed
  show "lists_own x b" if lo: "b \<noteq> 0 \<and> lists_own s b \<and> lpns s b 0 \<noteq> 0"
    unfolding lists_own_def
  proof (intro allI impI)
    fix v assume v: "v < VBLKS_PER_BANK" "vcnt x b v \<noteq> VC_MAX"
    show "listed x b v 0 \<noteq> 0"
    proof (cases "v = cb")
      case True
      then show ?thesis using X(5) [of 0] lo by simp
    next
      case False
      then have "v * PAGES_PER_VBLK + 127 \<noteq> cb * PAGES_PER_VBLK + 127" by (simp add: geom)
      then have "listed x b v 0 = listed s b v 0" by (intro listed_cong X(4) [OF assms(2)]) simp
      then show ?thesis using lo v X(2) [OF assms(2) v(1)] by (simp add: lists_own_def)
    qed
  qed
qed

text \<open>A fresh block is left: it becomes the open one.\<close>

lemma assign_fresh:
  assumes hw: "flash_ok greedy_layout hw" and b: "b < NUM_BANKS" and m: "map_ok s" and c: "cur_write_vpn (g_misc_meta s b) mod PAGES_PER_VBLK = 126"
    and cb: "cb = cur_write_vpn (g_misc_meta s b) div PAGES_PER_VBLK" and D: "D = insert cb (F \<union> U)"
    and bl: "blocks_ok s b F cb 127" and co: "counts_ok s b D" and so: "spare_ok s b D"
    and U: "cb \<notin> U" "F \<inter> U = {}" "U = {v \<in> D. cb < v}" "U \<noteq> {}" "\<And>v p. v \<in> U \<Longrightarrow> p < PAGES_PER_VBLK \<Longrightarrow> gblank s b (v * PAGES_PER_VBLK + p)"
    and fr: "free_blk_cnt (g_misc_meta s b) = 2 + card U"
  shows "\<exists>t. assigned hw b s t"
proof -
  note C = counts_okD [OF co] and B = gc_blocks_okD [OF bl]
  from assign_full [OF hw b bl cb c] obtain x where x: "block_closed b s cb x"
    and run: "assign_new_write_vpn hw b s = (if free_blk_cnt (g_misc_meta x b) = 1 then garbage_collection hw b x \<bind> (\<lambda>t. Some (cur_write_vpn (g_misc_meta t b), t))
     else next_data_block b x cb \<bind> (\<lambda>v. Some (v * PAGES_PER_VBLK, set_misc b (\<lambda>m. m\<lparr>cur_write_vpn := v * PAGES_PER_VBLK\<rparr>) x)))" by blast
  note X = block_closedD [OF x] and XF = closed_frame [OF x b bl m]
  have UD: "U \<subseteq> D" unfolding D by blast
  have finU: "finite U" by (rule finite_subset [OF UD C(5)])
  have Uv: "v \<in> U \<longleftrightarrow> v \<in> D \<and> cb < v" for v by (subst U(3)) simp
  define nb where "nb = Min U"
  have nbU: "nb \<in> U" unfolding nb_def by (rule Min_in [OF finU U(4)])
  have le: "nb \<le> v" if "v \<in> U" for v unfolding nb_def by (rule Min_le [OF finU that])
  have nb: "cb < nb" "nb \<in> D" "nb < VBLKS_PER_BANK" "nb \<notin> insert cb F" using nbU U(1,2) Uv [of nb] C(1) [of nb] by blast+
  have cu: "card U < 4294967294" 
  proof -
    have "U \<subseteq> {..<VBLKS_PER_BANK}" using UD C(1) by blast
    from card_mono [OF _ this] show ?thesis by (simp add: geom)
  qed
  have cU: "0 < card U" "card U = Suc (card (U - {nb}))" using finU nbU card_Suc_Diff1 [OF finU nbU] by auto
  then have f1: "free_blk_cnt (g_misc_meta x b) = 2 + card (U - {nb})" using fr cu by (simp add: X(6) sub32_id)
  have "vcnt s b nb = 0" using C(3) [OF nb(2)] no_holders [OF bl nb(4)] by simp
  then have v0: "vcnt x b nb < PAGES_PER_VBLK" using X(2) [OF b nb(3)] by (simp add: geom)
  have "next_data_block b x cb = Some nb"
  proof (rule next_data_block_eq [OF b B(2) nb(3) v0 _ nb(1)])
    fix w assume w: "cb < w" "w < nb"
    then have "w \<notin> D" using Uv [of w] le [of w] by (meson leD)
    then show "vcnt x b w = VC_MAX" using C(1) [of w] w nb(3) X(2) [OF b, of w] by auto
  qed
  define t where "t = set_misc b (\<lambda>m. m\<lparr>cur_write_vpn := nb * PAGES_PER_VBLK\<rparr>) x"
  have run': "assign_new_write_vpn hw b s = Some (nb * PAGES_PER_VBLK, t)" using run f1 \<open>next_data_block b x cb = Some nb\<close> by (simp add: t_def)
  have v: "cur_write_vpn (g_misc_meta t b) = nb * PAGES_PER_VBLK" "gc_vblock (g_misc_meta t b) = gc_vblock (g_misc_meta s b)"
    "free_blk_cnt (g_misc_meta t b) = 2 + card (U - {nb})" "vpn_of t = vpn_of x" "vcnt t = vcnt x" "gbad t = gbad x" "gpage t = gpage x"
    "gblank t = gblank x" "listed t = listed x" "gword t = gword x" "gfl t = gfl x" "holders t b w = holders x b w" for w
    using f1 by (simp_all add: t_def holders_def, simp add: X(6))
  have P: "0 < PAGES_PER_VBLK" by (simp add: geom)
  have ne: "(b, v * PAGES_PER_VBLK + p) \<noteq> (b, cb * PAGES_PER_VBLK + 127)" if "v \<noteq> cb" "p < PAGES_PER_VBLK" for v p
    using row_eq [OF page_127(1), of "v * PAGES_PER_VBLK + p" cb] that by simp
  have xb: "blocks_ok x b (insert cb F) nb 0"
    by (rule close_block [OF bl X(1) X(4) [OF b] X(5)]) (use nb B(2) U(5) [OF nbU] in auto)
  have "bank_ok t b 0"
  proof (rule bank_okI)
    show "cur_write_vpn (g_misc_meta t b) div PAGES_PER_VBLK = nb" using P by (simp add: v)
    show "blocks_ok t b (insert cb F) nb 0" by (rule blocks_ok_cong [OF xb]) (simp_all add: v)
    show "counts_ok t b D" by (rule counts_ok_cong [OF co]) (simp_all add: v X b)
    show "spare_ok t b D"
    proof (rule spare_ok_cong [OF so v(2)])
      show "gpage t b r = gpage s b r" if "r div PAGES_PER_VBLK = gc_vblock (g_misc_meta s b)" for r
        unfolding v(7)
      proof (rule X(4) [OF b])
        show "(b, r) \<noteq> (b, cb * PAGES_PER_VBLK + 127)" 
        proof
          assume "(b, r) = (b, cb * PAGES_PER_VBLK + 127)"
          then have "gc_vblock (g_misc_meta s b) = cb" using that page_127(1) by simp
          then show False using so unfolding spare_ok_def Let_def D by simp
        qed
      qed
    qed (simp add: v X b)
    show "D = insert nb (insert cb F \<union> (U - {nb}))" unfolding D using nbU by blast
    show "U - {nb} = {} \<or> U - {nb} = {v \<in> D. nb < v}" 
    proof -
      have "v \<in> U - {nb} \<longleftrightarrow> v \<in> {v \<in> D. nb < v}" for v
        using Uv [of v] le [of v] nb(1) by (cases "v \<in> U") auto
      then show ?thesis by blast
    qed
    show "gblank t b (v * PAGES_PER_VBLK + p)" if "v \<in> U - {nb}" "p < PAGES_PER_VBLK" for v p
    proof -
      have "v \<in> U" "v \<noteq> cb" using that U(1) by auto
      then show ?thesis using U(5) [of v p] gblank_cong [OF X(4) [OF b ne], of v p] that(2) by (simp add: v)
    qed
  qed (use nb U v in auto)
  moreover have "bank_frame b x t" "same_store x t" "map_ok t" using XF(2) by (simp_all add: bank_frame_def same_store_def map_ok_def v, simp add: t_def)
  ultimately show ?thesis
    using run' bank_frame_trans [OF XF(1)] gc_store_trans [OF XF(3)] XF(4) X(7) P
    by (intro exI [of _ t]) (simp add: assigned_def v lists_own_def)
qed

text \<open>No fresh block is left: a collection makes room.\<close>

lemma assign_collect:
  assumes hw: "flash_ok greedy_layout hw" and b: "b < NUM_BANKS" and m: "map_ok s" and c: "cur_write_vpn (g_misc_meta s b) mod PAGES_PER_VBLK = 126"
    and cb: "cb = cur_write_vpn (g_misc_meta s b) div PAGES_PER_VBLK"
    and bl: "blocks_ok s b F cb 127" and co: "counts_ok s b (insert cb F)" and so: "spare_ok s b (insert cb F)"
    and fr: "free_blk_cnt (g_misc_meta s b) = 2" and safe: "stray_safe s b"
  shows "\<exists>t. assigned hw b s t"
proof -
  note C = counts_okD [OF co] and B = gc_blocks_okD [OF bl]
  from assign_full [OF hw b bl cb c] obtain x where x: "block_closed b s cb x"
    and run: "assign_new_write_vpn hw b s = (if free_blk_cnt (g_misc_meta x b) = 1 then garbage_collection hw b x \<bind> (\<lambda>t. Some (cur_write_vpn (g_misc_meta t b), t))
     else next_data_block b x cb \<bind> (\<lambda>v. Some (v * PAGES_PER_VBLK, set_misc b (\<lambda>m. m\<lparr>cur_write_vpn := v * PAGES_PER_VBLK\<rparr>) x)))" by blast
  note X = block_closedD [OF x] and XF = closed_frame [OF x b bl m]
  define gc where "gc = gc_vblock (g_misc_meta s b)"
  have g: "META_BLKS_PER_BANK \<le> gc" "gc < VBLKS_PER_BANK" "gc \<notin> insert cb F" "\<And>p. p < PAGES_PER_VBLK \<Longrightarrow> gblank s b (gc * PAGES_PER_VBLK + p)"
    using so by (simp_all add: spare_ok_def gc_def Let_def)
  have f1: "free_blk_cnt (g_misc_meta x b) = 1" "gc_vblock (g_misc_meta x b) = gc" using fr by (simp_all add: X(6) sub32_id gc_def)
  have xb: "blocks_ok x b (insert cb F) gc 0" by (rule close_block [OF bl X(1) X(4) [OF b] X(5) g]) auto
  moreover have "counts_ok x b (insert cb F)" by (rule counts_ok_cong [OF co]) (simp_all add: X b)
  moreover have "spare_ok x b (insert cb F)"
  proof (rule spare_ok_cong [OF so])
    show "gpage x b r = gpage s b r" if "r div PAGES_PER_VBLK = gc_vblock (g_misc_meta s b)" for r
    proof (rule X(4) [OF b])
      show "(b, r) \<noteq> (b, cb * PAGES_PER_VBLK + 127)" using that g(3) page_127(1) by (auto simp: gc_def)
    qed
  qed (use f1 in \<open>simp_all add: X b gc_def\<close>)
  ultimately have r: "gc_ready x b (insert cb F)" using f1 by (simp add: gc_ready_def)
  obtain vt where vt: "victim x b vt" using victim_exists by blast
  have ns: "no_stray x b vt"
  proof (rule ccontr)
    assume "\<not> no_stray x b vt"
    then have n: "b \<noteq> 0" "listed x b vt 0 = 0" "vpn_of x 0 = vt * PAGES_PER_VBLK" by (simp_all add: no_stray_def)
    have "counts_ok x b (insert cb F)" "insert cb F \<subseteq> {META_BLKS_PER_BANK..<VBLKS_PER_BANK}" using r gc_blocks_okD(1) [OF xb] by (simp_all add: gc_ready_def)
    from victim_block(1) [OF vt this b] have vD: "vt \<in> insert cb F" .
    have "0 < NUM_LPAGES" by (simp add: geom)
    then have "vpn_of s 0 \<noteq> 0" using X(1) [of 0] n(3) gc_blocks_okD(1) [OF xb] vD by (auto simp: geom)
    then have "lists_own x b" using safe n(1) XF(4) by (simp add: stray_safe_def)
    moreover have "vcnt x b vt \<noteq> VC_MAX" "vt < VBLKS_PER_BANK" using C(1) [of vt] vD X(2) [OF b, of vt] by auto
    ultimately show False using n(2) unfolding lists_own_def by blast
  qed
  from garbage_collection_result [OF hw b r XF(2) vt ns refl] f1(2) obtain t where
    t: "garbage_collection hw b x = Some t" "bank_ok t b (vcnt x b vt)" "vcnt x b vt < 126" "cur_write_vpn (g_misc_meta t b) = gc * PAGES_PER_VBLK + vcnt x b vt"
      "bank_frame b x t" "map_ok t" "same_store x t" "g_ftl_write_buf_id (gfl t) = g_ftl_write_buf_id (gfl x)"
      "b \<noteq> 0 \<and> lists_own x b \<longrightarrow> lists_own t b \<and> lpns t b 0 \<noteq> 0" by auto
  have "vcnt x b vt < PAGES_PER_VBLK" using t(3) by (simp add: page_127)
  then have "cur_write_vpn (g_misc_meta t b) mod PAGES_PER_VBLK = vcnt x b vt" using t(4) by simp
  moreover have "assign_new_write_vpn hw b s = Some (cur_write_vpn (g_misc_meta t b), t)" using run f1(1) t(1) by simp
  ultimately show ?thesis
    using t bank_frame_trans [OF XF(1) t(5)] gc_store_trans [OF XF(3) t(7)] X(7) XF(4) unfolding assigned_def by auto
qed

lemma assign_result:
  assumes hw: "flash_ok greedy_layout hw" and b: "b < NUM_BANKS" and m: "map_ok s" and bk: "bank_ok s b (cur_write_vpn (g_misc_meta s b) mod PAGES_PER_VBLK + 1)"
    and safe: "stray_safe s b"
  shows "\<exists>t. assigned hw b s t"
proof -
  define cb where "cb = cur_write_vpn (g_misc_meta s b) div PAGES_PER_VBLK"
  from bk obtain F U where B: "blocks_ok s b F cb (cur_write_vpn (g_misc_meta s b) mod PAGES_PER_VBLK + 1)" "counts_ok s b (insert cb (F \<union> U))" "spare_ok s b (insert cb (F \<union> U))"
    "cb \<notin> U" "F \<inter> U = {}" "U = {} \<or> U = {v \<in> insert cb (F \<union> U). cb < v}"
    "\<And>v p. v \<in> U \<Longrightarrow> p < PAGES_PER_VBLK \<Longrightarrow> gblank s b (v * PAGES_PER_VBLK + p)" "free_blk_cnt (g_misc_meta s b) = 2 + card U"
    unfolding cb_def by (rule bank_okE) blast
  have "cur_write_vpn (g_misc_meta s b) mod PAGES_PER_VBLK + 1 \<le> 127" by (rule gc_blocks_okD(5) [OF B(1)])
  then consider "cur_write_vpn (g_misc_meta s b) mod PAGES_PER_VBLK < 126" | "cur_write_vpn (g_misc_meta s b) mod PAGES_PER_VBLK = 126" by linarith
  then show ?thesis
  proof cases
    case 1
    from assign_next [OF b bk m 1] show ?thesis .
  next
    case 2
    then have bl: "blocks_ok s b F cb 127" using B(1) by simp
    show ?thesis
    proof (cases "U = {}")
      case True
      from assign_collect [OF hw b m 2 cb_def bl _ _ _ safe] B(2,3,8) True show ?thesis by simp
    next
      case False
      with B(6) have U: "U = {v \<in> insert cb (F \<union> U). cb < v}" by blast
      from assign_fresh [OF hw b m 2 cb_def refl bl B(2,3,4,5) U False B(7,8)] show ?thesis .
    qed
  qed
qed
subsection \<open>Writing one page\<close>

text \<open>The program command of a host write; columns \<open>col\<close> to \<open>col + cnt\<close> take in the new sectors.\<close>

lemma gr_host_program:
  fixes s hw b v p col cnt off n num data
  defines "B \<equiv> WR_BUF_PTR greedy_layout (g_ftl_write_buf_id (gfl s))"
  assumes hw: "flash_ok greedy_layout hw" "host_delivers greedy_layout hw (g_ftl_write_buf_id (gfl s)) off n data"
    and wid: "g_ftl_write_buf_id (gfl s) < GR_NUM_WR_BUFFERS" and a: "b < NUM_BANKS" "v < VBLKS_PER_BANK" "p < PAGES_PER_VBLK"
    and n: "0 < n" "num = min n (SECTORS_PER_PAGE - off)" and c: "col \<le> off" "off + num \<le> col + cnt" "col + cnt \<le> SECTORS_PER_PAGE"
    and bl: "gblank s b (v * PAGES_PER_VBLK + p)"
  shows "\<exists>t. flash_do (nand_page_ptprogram_from_host hw greedy_layout b v p col cnt) s = Some t \<and> same_meta s t \<and> g_misc_meta t = g_misc_meta s
    \<and> g_ftl_read_buf_id (gfl t) = g_ftl_read_buf_id (gfl s) \<and> g_ftl_write_buf_id (gfl t) = (g_ftl_write_buf_id (gfl s) + 1) mod GR_NUM_WR_BUFFERS
    \<and> (\<forall>c < NUM_BANKS. \<forall>r. (c, r) \<noteq> (b, v * PAGES_PER_VBLK + p) \<longrightarrow> gpage t c r = gpage s c r)
    \<and> (\<forall>x. col * 512 \<le> x \<and> x < (col + cnt) * 512 \<longrightarrow> gpage t b (v * PAGES_PER_VBLK + p) x
         = (if off * 512 \<le> x \<and> x < (off + num) * 512 then data (x - off * 512) else gdram s (B + x)))"
proof -
  let ?r = "v * PAGES_PER_VBLK + p"
  define y where "y = setup_fcp FC_COL_ROW_IN_PROG (FO_P + FO_E + FO_B_SATA_W) B (cnt * BYTES_PER_SECTOR) col b ?r (gfl s)"
  define x where "x = flash_issue_cmd hw b RETURN_ON_ISSUE y"
  define z where "z = x\<lparr>g_ftl_write_buf_id := (g_ftl_write_buf_id x + 1) mod GR_NUM_WR_BUFFERS\<rparr>"
  have run: "nand_page_ptprogram_from_host hw greedy_layout b v p col cnt (gfl s) = Some z"
    using a by (simp add: nand_page_ptprogram_from_host_def page_args_ok_def z_def x_def y_def B_def setup_fcp_def set_rows_def set_fcp_def Let_def)
  define f where "f = (fcp y)\<lparr>fcp_bank := REAL_BANK b\<rparr>"
  have f: "fcp_cmd f = FC_COL_ROW_IN_PROG" "fcp_option f = FO_P + FO_E + FO_B_SATA_W" "fcp_bank f = REAL_BANK b" "fcp_dma_addr f = B"
    "fcp_row_l f (REAL_BANK b) = ?r" "fcp_row_h f (REAL_BANK b) = ?r" "fcp_col f = col" "fcp_dma_cnt f = cnt * BYTES_PER_SECTOR"
    unfolding f_def y_def by (simp_all add: setup_fcp_def set_fcp_def)
  have y: "dram y = gdram s" "nand y = nand (gfl s)" "g_ftl_write_buf_id y = g_ftl_write_buf_id (gfl s)" "g_ftl_read_buf_id y = g_ftl_read_buf_id (gfl s)"
    by (simp_all add: y_def gdram_def)
  obtain n' d' where h: "hw f (nand (gfl s), gdram s) = (n', d')" by fastforce
  have st: "nand z = n'" "dram z = d'" unfolding z_def x_def by (simp_all add: flash_issue_cmd_fields y f_def [symmetric] h)
  have i: "g_ftl_read_buf_id z = g_ftl_read_buf_id (gfl s)" "g_ftl_write_buf_id z = (g_ftl_write_buf_id (gfl s) + 1) mod GR_NUM_WR_BUFFERS"
    by (simp_all add: z_def x_def flash_issue_cmd_fields y)
  have bl': "blank (nand (gfl s)) (REAL_BANK b) ?r" using bl by (simp add: gblank_def)
  have "prog_law f (nand (gfl s)) (gdram s) n' d'" using flash_okD(3) [OF hw(1), of f "nand (gfl s)" "gdram s"] f(3,5,6) by (simp add: h)
  then have P: "only_page (REAL_BANK b) ?r (nand (gfl s)) n'" "\<And>a. a < B \<or> B + BYTES_PER_PAGE \<le> a \<Longrightarrow> d' a = gdram s a"
    using f bl' opt_mod(3) unfolding prog_law_def by auto
  have "0 < pages_of off n" using n(1) by (simp add: pages_of_def geom)
  moreover have "B = WR_BUF_PTR greedy_layout ((g_ftl_write_buf_id (gfl s) + 0) mod l_num_wr_buffers greedy_layout)" using wid by (simp add: B_def)
  ultimately have D: "\<forall>x < BYTES_PER_PAGE. d' (dma_mem f x) = (if off * 512 \<le> 0 * BYTES_PER_PAGE + x \<and> 0 * BYTES_PER_PAGE + x < off * 512 + n * 512
         then data (0 * BYTES_PER_PAGE + x - off * 512) else gdram s (dma_mem f x))"
      "\<forall>x < BYTES_PER_PAGE. dma_range f x \<longrightarrow> pages n' (REAL_BANK b) ?r x = d' (dma_mem f x)"
    using hw(2) [unfolded host_delivers_def, rule_format, of f "nand (gfl s)" "gdram s" n' d' 0] h f bl' by auto
  note wb = gr_wr_buf [OF wid, folded B_def]
  have g: "gpage (s\<lparr>gfl := z\<rparr>) b ?r x = (if off * 512 \<le> x \<and> x < (off + num) * 512 then data (x - off * 512) else gdram s (B + x))"
    if x: "col * 512 \<le> x" "x < (col + cnt) * 512" for x
  proof -
    have xl: "x < BYTES_PER_PAGE" using x(2) c(3) by (simp add: geom)
    have "dma_range f x" using x by (simp add: dma_range_def f add_mult_distrib geom)
    moreover have "dma_mem f x = B + x" using sub32_buf [OF wb(1) xl] by (simp add: dma_mem_def f)
    moreover have "off * 512 \<le> x \<Longrightarrow> x < off * 512 + n * 512 \<longleftrightarrow> x < (off + num) * 512"
      using n(2) xl by (auto simp: geom min_def)
    ultimately show ?thesis using D xl by (auto simp: gpage_def st)
  qed
  have "same_meta s (s\<lparr>gfl := z\<rparr>)"
    using P(2) wb(4) meta_range(3) by (auto simp: same_meta_def gdram_def st)
  moreover have "gpage (s\<lparr>gfl := z\<rparr>) c r = gpage s c r" if "c < NUM_BANKS" "(c, r) \<noteq> (b, ?r)" for c r
    using P(1) that REAL_BANK_inj [OF that(1) a(1)] by (auto simp: only_page_def gpage_def st)
  ultimately show ?thesis using run i g by (intro exI [of _ "s\<lparr>gfl := z\<rparr>"]) (simp add: flash_do_def)
qed

text \<open>The old sectors around the new ones are in the write buffer afterwards.\<close>

lemma load_holes_result:
  fixes s hw b v p off num
  defines "B \<equiv> WR_BUF_PTR greedy_layout (g_ftl_write_buf_id (gfl s))"
  assumes hw: "flash_ok greedy_layout hw" and wid: "g_ftl_write_buf_id (gfl s) < GR_NUM_WR_BUFFERS"
    and a: "b < NUM_BANKS" "v < VBLKS_PER_BANK" "p < PAGES_PER_VBLK" and n: "off + num \<le> SECTORS_PER_PAGE" "0 < num"
  shows "\<exists>t. load_holes hw b v p off num s = Some t \<and> quiet s t \<and> gpage t = gpage s
    \<and> (\<forall>x < BYTES_PER_PAGE. x < off * 512 \<or> (off + num) * 512 \<le> x \<longrightarrow> gdram t (B + x) = gpage s b (v * PAGES_PER_VBLK + p) x)"
proof -
  let ?r = "v * PAGES_PER_VBLK + p"
  note wb = gr_wr_buf [OF wid, folded B_def]
  have K: "BYTES_PER_SECTOR = 512" "SECTORS_PER_PAGE = 64" "BYTES_PER_PAGE = 32768" "MU_MAX_BYTES = 32768" "DRAM_ECC_UNIT = 128" by (simp_all add: geom MU_MAX_BYTES_def)
  have wbm: "B + BYTES_PER_PAGE \<le> BAD_BLK_BMP_ADDR" "B + BYTES_PER_PAGE \<le> FTL_BUF b"
    using wb(4) meta_range(3) ftl_buf(4) [OF a(1)] by (simp_all add: geom)
  have b32: "B + x < 4294967296" if "x < BYTES_PER_PAGE" for x using wb(1) that by (simp add: buf_ok_def)
  show ?thesis
  proof (cases "num \<le> 8 \<and> off \<noteq> 0")
    case True
    have "nand_page_read hw b v p (FTL_BUF b) = nand_page_ptread hw b v p 0 64 (FTL_BUF b) RETURN_WHEN_DONE"
      by (rule ext) (simp add: nand_page_read_def nand_page_ptread_def K)
    moreover have "0 * 512 + 64 * 512 \<le> BYTES_PER_PAGE" by (simp add: K)
    note R = gc_ptread [OF hw a this ftl_buf(1,3) [OF a(1)], where s = s and sync = RETURN_WHEN_DONE]
    ultimately obtain t1 where t1: "flash_do (nand_page_read hw b v p (FTL_BUF b)) s = Some t1" "quiet s t1" "gpage t1 = gpage s"
      "\<forall>x < BYTES_PER_PAGE. gdram t1 (FTL_BUF b + x) = gpage s b ?r x"
      using R by (auto simp: K)
    define d1 where "d1 = (\<lambda>a. if B \<le> a \<and> a < B + off * BYTES_PER_SECTOR then gdram t1 (FTL_BUF b + (a - B)) else gdram t1 a)"
    have m1: "dram_move B (FTL_BUF b) (off * BYTES_PER_SECTOR) (gdram t1) = Some d1"
      using wb(2) ftl_buf(2) [OF a(1)] n by (simp add: dram_move_def d1_def K mod_eq_0_iff_dvd)
    let ?h = "(off + num) * BYTES_PER_SECTOR"
    define d2 where "d2 = (\<lambda>a. if B + ?h \<le> a \<and> a < B + ?h + (BYTES_PER_PAGE - ?h) then d1 (FTL_BUF b + ?h + (a - (B + ?h))) else d1 a)"
    have m2: "dram_move (B + ?h) (FTL_BUF b + ?h) (BYTES_PER_PAGE - ?h) d1 = Some d2" if "off + num < SECTORS_PER_PAGE"
    proof -
      have e: "BYTES_PER_PAGE - ?h = (64 - (off + num)) * 512" using that by (simp add: K diff_mult_distrib)
      have "(B + ?h) mod 4 = 0" "(FTL_BUF b + ?h) mod 4 = 0" using wb(2) ftl_buf(2) [OF a(1)] by (simp_all add: K mod_eq_0_iff_dvd)
      then show ?thesis using wb(2) ftl_buf(2) [OF a(1)] by (simp add: dram_move_def d2_def e) (simp add: K mod_eq_0_iff_dvd)
    qed
    define t where "t = set_gdram (if off + num < SECTORS_PER_PAGE then d2 else d1) t1"
    have run: "load_holes hw b v p off num s = Some t"
      using True t1(1,2) m1 m2 unfolding load_holes_def Let_def quiet_def by (simp add: B_def [symmetric] t_def set_gdram_def gdram_def)
    have out: "gdram t a = gdram t1 a" if "B + BYTES_PER_PAGE \<le> a" for a
      using that n by (simp add: t_def d1_def d2_def K)
    have "quiet t1 t" using out wbm(1) by (simp add: quiet_def same_meta_def t_def)
    moreover have "gdram t (B + x) = gpage s b ?r x" if "x < BYTES_PER_PAGE" "x < off * 512 \<or> (off + num) * 512 \<le> x" for x
      using that t1(4) wbm(2) n by (auto simp: t_def d1_def d2_def K)
    ultimately show ?thesis using run quiet_trans [OF t1(2)] t1(3) by (intro exI [of _ t]) (simp add: t_def)
  next
    case False
    have le: "0 * 512 + off * 512 \<le> BYTES_PER_PAGE" using n by (simp add: K)
    from gc_ptread [OF hw a le wb(1) wbm(1), where s = s and sync = RETURN_ON_ISSUE] obtain t1 where
      t1: "flash_do (nand_page_ptread hw b v p 0 off B RETURN_ON_ISSUE) s = Some t1" "quiet s t1" "gpage t1 = gpage s"
        "\<forall>x < off * 512. gdram t1 (B + x) = gpage s b ?r x" by auto
    define u where "u = (if off \<noteq> 0 then t1 else s)"
    have u: "(if off \<noteq> 0 then flash_do (nand_page_ptread hw b v p 0 off B RETURN_ON_ISSUE) s else Some s) = Some u" "quiet s u" "gpage u = gpage s"
      "\<forall>x < off * 512. gdram u (B + x) = gpage s b ?r x" using t1 by (auto simp: u_def)
    have le2: "(off + num) * 512 + (64 - (off + num)) * 512 \<le> BYTES_PER_PAGE" using n by (simp add: K)
    from gc_ptread [OF hw a le2 wb(1) wbm(1), where s = u and sync = RETURN_ON_ISSUE] obtain t2 where
      t2: "flash_do (nand_page_ptread hw b v p (off + num) (64 - (off + num)) B RETURN_ON_ISSUE) u = Some t2" "quiet u t2" "gpage t2 = gpage u"
        "\<forall>x. (off + num) * 512 \<le> x \<and> x < (off + num) * 512 + (64 - (off + num)) * 512 \<longrightarrow> gdram t2 (B + x) = gpage u b ?r x"
        "\<forall>y < 4294967296. y < B + (off + num) * 512 \<or> B + ((off + num) * 512 + (64 - (off + num)) * 512) \<le> y \<longrightarrow> gdram t2 y = gdram u y" by blast
    define t where "t = (if off + num < 64 then t2 else u)"
    have "load_holes hw b v p off num s = Some t"
      using False u(1) t2(1) unfolding load_holes_def Let_def B_def [symmetric] by (auto simp: t_def K)
    moreover have "quiet s t" "gpage t = gpage s" using u(2,3) t2(2,3) quiet_trans by (auto simp: t_def)
    moreover have "gdram t (B + x) = gpage s b ?r x" if x: "x < BYTES_PER_PAGE" "x < off * 512 \<or> (off + num) * 512 \<le> x" for x
    proof (cases "x < off * 512")
      case True
      have "x < (off + num) * 512" using True by simp
      then show ?thesis using True u(4) t2(5) b32 [OF x(1)] by (simp add: t_def)
    next
      case False
      then show ?thesis using x t2(4) u(3) n by (auto simp: t_def K)
    qed
    ultimately show ?thesis by blast
  qed
qed

text \<open>
  The first half of \<open>write_page\<close>, on the state \<open>t\<close> with a free page: when page \<open>lpn\<close> was written before, its other
  sectors go to the write buffer and its block loses a valid page. \<open>col\<close> and \<open>cnt\<close> are what is then programmed.
\<close>

definition old_part :: "flash_hw \<Rightarrow> nat \<Rightarrow> nat \<Rightarrow> nat \<Rightarrow> nat \<Rightarrow> gstate \<Rightarrow> (nat \<times> nat \<times> gstate) option" where
  "old_part hw bank old_vpn sect_offset num_sectors s =
     (if old_vpn \<noteq> 0
      then do {
        let vblock = old_vpn div PAGES_PER_VBLK;
        let page_num = old_vpn mod PAGES_PER_VBLK;
        s \<leftarrow> (if num_sectors \<noteq> SECTORS_PER_PAGE then load_holes hw bank vblock page_num sect_offset num_sectors s else Some s);
        vcount \<leftarrow> get_vcount bank vblock s;
        s \<leftarrow> set_vcount bank vblock (sub32 vcount 1) s;
        Some (0, SECTORS_PER_PAGE, s) }
      else Some (sect_offset, num_sectors, s))"

lemma old_part_result:
  fixes s hw b vpn off num
  defines "B \<equiv> WR_BUF_PTR greedy_layout (g_ftl_write_buf_id (gfl s))"
  assumes hw: "flash_ok greedy_layout hw" and wid: "g_ftl_write_buf_id (gfl s) < GR_NUM_WR_BUFFERS" and b: "b < NUM_BANKS"
    and o: "vpn \<noteq> 0 \<Longrightarrow> META_BLKS_PER_BANK \<le> vpn div PAGES_PER_VBLK \<and> vpn div PAGES_PER_VBLK < VBLKS_PER_BANK
      \<and> 0 < vcnt s b (vpn div PAGES_PER_VBLK) \<and> vcnt s b (vpn div PAGES_PER_VBLK) < PAGES_PER_VBLK"
    and n: "off + num \<le> SECTORS_PER_PAGE" "0 < num"
  shows "\<exists>col cnt t. old_part hw b vpn off num s = Some (col, cnt, t) \<and> col \<le> off \<and> off + num \<le> col + cnt \<and> col + cnt \<le> SECTORS_PER_PAGE
    \<and> (\<forall>l < NUM_LPAGES. vpn_of t l = vpn_of s l)
    \<and> (\<forall>c < NUM_BANKS. \<forall>v < VBLKS_PER_BANK. vcnt t c v = (if vpn \<noteq> 0 \<and> c = b \<and> v = vpn div PAGES_PER_VBLK then vcnt s c v - 1 else vcnt s c v) \<and> gbad t c v = gbad s c v)
    \<and> gpage t = gpage s \<and> g_misc_meta t = g_misc_meta s \<and> g_ftl_read_buf_id (gfl t) = g_ftl_read_buf_id (gfl s)
    \<and> g_ftl_write_buf_id (gfl t) = g_ftl_write_buf_id (gfl s)
    \<and> (vpn \<noteq> 0 \<longrightarrow> col = 0 \<and> cnt = SECTORS_PER_PAGE
       \<and> (\<forall>x < BYTES_PER_PAGE. x < off * 512 \<or> (off + num) * 512 \<le> x \<longrightarrow> gdram t (B + x) = gpage s b vpn x))"
proof (cases "vpn = 0")
  case True
  then show ?thesis using n by (intro exI [of _ off] exI [of _ num] exI [of _ s]) (simp add: old_part_def)
next
  case False
  let ?v = "vpn div PAGES_PER_VBLK" and ?p = "vpn mod PAGES_PER_VBLK"
  have v: "META_BLKS_PER_BANK \<le> ?v" "?v < VBLKS_PER_BANK" "0 < vcnt s b ?v" "vcnt s b ?v < PAGES_PER_VBLK" using o [OF False] by simp_all
  have p: "?p < PAGES_PER_VBLK" by (simp add: geom)
  have K: "SECTORS_PER_PAGE * 512 = BYTES_PER_PAGE" by (simp add: geom)
  have "\<exists>u. (if num \<noteq> SECTORS_PER_PAGE then load_holes hw b ?v ?p off num s else Some s) = Some u \<and> quiet s u \<and> gpage u = gpage s
    \<and> (\<forall>x < BYTES_PER_PAGE. x < off * 512 \<or> (off + num) * 512 \<le> x \<longrightarrow> gdram u (B + x) = gpage s b vpn x)"
  proof (cases "num = SECTORS_PER_PAGE")
    case True
    then have "off = 0" using n(1) by simp
    then show ?thesis using True K by (intro exI [of _ s]) simp
  next
    case False
    from load_holes_result [OF hw wid b v(2) p n] show ?thesis using False by (simp add: B_def row_split)
  qed
  then obtain u where u: "(if num \<noteq> SECTORS_PER_PAGE then load_holes hw b ?v ?p off num s else Some s) = Some u" "quiet s u" "gpage u = gpage s"
    "\<forall>x < BYTES_PER_PAGE. x < off * 512 \<or> (off + num) * 512 \<le> x \<longrightarrow> gdram u (B + x) = gpage s b vpn x" by blast
  note Q = quiet_views [OF u(2)]
  define c where "c = vcnt s b ?v - 1"
  have c: "c < PAGES_PER_VBLK" "c < 65536" "sub32 (vcnt s b ?v) 1 = c" using v(3,4) by (simp_all add: c_def geom sub32_id)
  have uc: "vcnt u b ?v = vcnt s b ?v" by (rule Q(2) [OF b v(2)])
  define t where "t = put_vcount b ?v c u"
  have run: "old_part hw b vpn off num s = Some (0, SECTORS_PER_PAGE, t)"
    using False u(1) get_vcount_eq [OF b v(1,2), of u] uc v(4) c(3) set_vcount_eq [OF b v(1,2) disjI1 [OF c(1)], of u]
    by (simp add: old_part_def Let_def t_def)
  note V = put_vcount_views [OF b v(2) c(2), where s = u, folded t_def]
  have wb: "B + BYTES_PER_PAGE \<le> VCOUNT_ADDR" using gr_wr_buf(4) [OF wid] by (simp add: B_def geom)
  have h: "gdram t (B + x) = gpage s b vpn x" if "x < BYTES_PER_PAGE" "x < off * 512 \<or> (off + num) * 512 \<le> x" for x
  proof -
    have "B + x \<noteq> aligned_addr (vcount_addr b ?v)" using wb that(1) vcount_addr_bounds(2) [OF b v(2)] by linarith
    then have "gdram t (B + x) = gdram u (B + x)" by (simp add: t_def put_vcount_def st16_def)
    then show ?thesis using u(4) that by metis
  qed
  show ?thesis
    by (rule exI [of _ 0], rule exI [of _ SECTORS_PER_PAGE], rule exI [of _ t]) (use h False run V Q u(2,3) n(1) in \<open>auto simp: c_def t_def quiet_def\<close>)
qed

text \<open>The counts of a bank are those of its valid pages, so they are less than the pages of a block.\<close>

lemma bank_count:
  assumes "blocks_ok s b F ob u" and "counts_ok s b D" and "v \<in> D"
  shows "vcnt s b v \<le> 127" "v = ob \<Longrightarrow> vcnt s b v \<le> u"
proof -
  have u: "u \<le> 127" by (rule gc_blocks_okD(5) [OF assms(1)])
  have h: "vcnt s b v = card (holders s b v)" by (rule counts_okD(3) [OF assms(2,3)])
  show "v = ob \<Longrightarrow> vcnt s b v \<le> u" using holders_card [OF assms(1), of v] h by simp
  show "vcnt s b v \<le> 127"
  proof (cases "v \<in> insert ob F")
    case True
    then show ?thesis using holders_card [OF assms(1) True] h u by (auto split: if_splits)
  next
    case False
    then show ?thesis using no_holders [OF assms(1) False] h by simp
  qed
qed

text \<open>One logical page moves to the next page of the open block: what this does to a bank.\<close>

lemma bank_write:
  assumes bk: "bank_ok t b u" and u: "u < 127" and b: "b < NUM_BANKS" and cb: "cb = cur_write_vpn (g_misc_meta t b) div PAGES_PER_VBLK"
    and l: "lpn < NUM_LPAGES" "lpn mod NUM_BANKS = b"
    and m: "\<forall>l < NUM_LPAGES. vpn_of w l = (if l = lpn then cb * PAGES_PER_VBLK + u else vpn_of t l)"
    and g: "\<forall>c < NUM_BANKS. \<forall>r. (c, r) \<noteq> (b, cb * PAGES_PER_VBLK + u) \<longrightarrow> gpage w c r = gpage t c r"
    and mm: "g_misc_meta w = (g_misc_meta t)(b := set_lpn u lpn (g_misc_meta t b))"
    and c: "\<forall>v < VBLKS_PER_BANK. vcnt w b v = (if vpn_of t lpn \<noteq> 0 \<and> v = vpn_of t lpn div PAGES_PER_VBLK then vcnt t b v - 1 else vcnt t b v) + (if v = cb then 1 else 0)"
    and bd: "\<forall>v < VBLKS_PER_BANK. gbad w b v = gbad t b v"
  shows "bank_ok w b (u + 1)" "\<And>l. l < NUM_LPAGES \<Longrightarrow> l \<noteq> lpn \<Longrightarrow> gword w l = gword t l"
    "\<And>x. x < BYTES_PER_PAGE \<Longrightarrow> gword w lpn x = Some (gpage w b (cb * PAGES_PER_VBLK + u) x)" "\<And>v p. v < VBLKS_PER_BANK \<Longrightarrow> vcnt w b v \<noteq> VC_MAX \<Longrightarrow> vcnt t b v \<noteq> VC_MAX \<and> listed w b v 0 = listed t b v 0"
proof -
  from bk obtain F U where B: "blocks_ok t b F cb u" "counts_ok t b (insert cb (F \<union> U))" "spare_ok t b (insert cb (F \<union> U))"
    "cb \<notin> U" "F \<inter> U = {}" "U = {} \<or> U = {v \<in> insert cb (F \<union> U). cb < v}"
    "\<And>v p. v \<in> U \<Longrightarrow> p < PAGES_PER_VBLK \<Longrightarrow> gblank t b (v * PAGES_PER_VBLK + p)" "free_blk_cnt (g_misc_meta t b) = 2 + card U" unfolding cb by (rule bank_okE) blast
  define D where "D = insert cb (F \<union> U)"
  have up: "u < PAGES_PER_VBLK" using u by (simp add: geom)
  have n: "lpns w b = (lpns t b)(u := lpn)" by (simp add: mm)
  note R = relocate [OF B(1) u l m g n b]
  note C = counts_okD [OF B(2) [folded D_def]]
  let ?o = "vpn_of t lpn" and ?ov = "vpn_of t lpn div PAGES_PER_VBLK"
  have ovD: "?ov \<in> D" if "?o \<noteq> 0" using gc_blocks_okD(6) [OF B(1) l that] by (auto simp: home_def Let_def D_def)
  have hl: "lpn \<in> holders t b v \<longleftrightarrow> ?o \<noteq> 0 \<and> v = ?ov" for v using l by (auto simp: holders_def)
  have cnt: "vcnt w b v = card (holders w b v)" if v: "v \<in> D" for v
  proof -
    have vb: "v < VBLKS_PER_BANK" using C(1) [of v] v by blast
    have e: "vcnt t b v = card (holders t b v)" by (rule C(3) [OF v])
    show ?thesis
    proof (cases "lpn \<in> holders t b v")
      case True
      then have "0 < card (holders t b v)" by (auto simp: card_gt_0_iff)
      then show ?thesis using True c vb hl [of v] e R(2) [of v] by (auto simp: insert_absorb)
    next
      case False
      then show ?thesis using c vb hl [of v] e R(2) [of v] by auto
    qed
  qed
  have le: "vcnt t b v \<le> 127" if "v \<in> D" for v using bank_count(1) [OF B(1) B(2) [folded D_def] that] .
  have iff: "vcnt w b v = VC_MAX \<longleftrightarrow> vcnt t b v = VC_MAX" if vb: "v < VBLKS_PER_BANK" for v
  proof (cases "v \<in> D")
    case True
    then have "vcnt w b v \<le> 128" using c vb le [OF True] by auto
    then show ?thesis using C(1) [of v] True by (auto simp: VC_MAX_def)
  next
    case False
    then have "v \<noteq> cb" "\<not> (?o \<noteq> 0 \<and> v = ?ov)" using ovD by (auto simp: D_def)
    then show ?thesis using c vb by auto
  qed
  have co: "counts_ok w b D"
  proof (rule counts_okI)
    show "v \<in> D \<longleftrightarrow> v < VBLKS_PER_BANK \<and> vcnt w b v \<noteq> VC_MAX" for v using C(1) [of v] iff [of v] by blast
    show "\<not> gbad w b v" if "v \<in> D" for v using C(1,2) [of v] that bd by auto
    show "1935 \<le> card D" by (rule C(4))
  qed (rule cnt)
  have gc: "gc_vblock (g_misc_meta t b) \<noteq> cb" using B(3) unfolding spare_ok_def Let_def by simp
  have gq: "gpage w b r = gpage t b r" if "r div PAGES_PER_VBLK \<noteq> cb \<or> r mod PAGES_PER_VBLK \<noteq> u" for r
    using g [rule_format, OF b, of r] row_eq [OF up, of r cb] that by auto
  have so: "spare_ok w b D"
    by (rule spare_ok_cong [OF B(3) [folded D_def]]) (use mm bd gq gc in simp_all)
  show "bank_ok w b (u + 1)"
  proof (rule bank_okI [OF _ R(1) co so D_def B(4,5) B(6) [folded D_def]])
    show "cur_write_vpn (g_misc_meta w b) div PAGES_PER_VBLK = cb" by (simp add: mm cb)
    show "free_blk_cnt (g_misc_meta w b) = 2 + card U" using B(8) by (simp add: mm)
    show "gblank w b (v * PAGES_PER_VBLK + p)" if "v \<in> U" "p < PAGES_PER_VBLK" for v p
    proof -
      have "v \<noteq> cb" using that(1) B(4) by auto
      then show ?thesis using B(7) [OF that] gblank_cong [OF gq, of "v * PAGES_PER_VBLK + p"] that(2) by simp
    qed
  qed
  show "\<And>l. l < NUM_LPAGES \<Longrightarrow> l \<noteq> lpn \<Longrightarrow> gword w l = gword t l" by (rule R(3))
  show "\<And>x. x < BYTES_PER_PAGE \<Longrightarrow> gword w lpn x = Some (gpage w b (cb * PAGES_PER_VBLK + u) x)" by (rule R(4))
  show "vcnt t b v \<noteq> VC_MAX \<and> listed w b v 0 = listed t b v 0" if "v < VBLKS_PER_BANK" "vcnt w b v \<noteq> VC_MAX" for v
    using iff [OF that(1)] that(2) gq [of "v * PAGES_PER_VBLK + 127"] u page_127(1) by (simp add: listed_def)
qed

text \<open>
  The invariant of the layer between requests. \<open>gr_clean\<close>: no list of a bank but bank 0 starts with logical page 0,
  neither one of a block with data nor the one of the open block, so no collection can find a stray page.
\<close>

definition gr_inv :: "gstate \<Rightarrow> bool" where
  "gr_inv s \<longleftrightarrow> map_ok s \<and> (\<forall>b < NUM_BANKS. bank_ok s b (cur_write_vpn (g_misc_meta s b) mod PAGES_PER_VBLK + 1))"

definition gr_clean :: "gstate \<Rightarrow> bool" where
  "gr_clean s \<longleftrightarrow> (\<forall>b < NUM_BANKS. b \<noteq> 0 \<longrightarrow> lists_own s b \<and> lpns s b 0 \<noteq> 0)"

text \<open>What a request leaves alone: the read buffer pointer and the bad blocks.\<close>

definition gr_frame :: "gstate \<Rightarrow> gstate \<Rightarrow> bool" where
  "gr_frame s t \<longleftrightarrow> g_ftl_read_buf_id (gfl t) = g_ftl_read_buf_id (gfl s) \<and> (\<forall>b < NUM_BANKS. \<forall>v < VBLKS_PER_BANK. gbad t b v = gbad s b v)"

lemma bank_frame_gr_frame: "bank_frame b s t \<Longrightarrow> gr_frame s t"
  by (simp add: bank_frame_def gr_frame_def)

lemma gword_mapped: "0 < BYTES_PER_PAGE \<Longrightarrow> gword t l = gword s l \<Longrightarrow> vpn_of t l = 0 \<longleftrightarrow> vpn_of s l = 0"
  by (drule fun_cong [of _ _ 0]) (simp add: gword_def split: if_splits)

text \<open>The page that \<open>lpn\<close> had, and the free page that it gets.\<close>

lemma write_places:
  assumes bk: "bank_ok t b u" and u: "u < 127" and b: "b < NUM_BANKS" and cb: "cb = cur_write_vpn (g_misc_meta t b) div PAGES_PER_VBLK"
    and l: "lpn < NUM_LPAGES" "lpn mod NUM_BANKS = b"
  shows "META_BLKS_PER_BANK \<le> cb" "cb < VBLKS_PER_BANK" "vcnt t b cb \<le> u" "gblank t b (cb * PAGES_PER_VBLK + u)" "vpn_of t lpn \<noteq> cb * PAGES_PER_VBLK + u"
    "vpn_of t lpn \<noteq> 0 \<Longrightarrow> META_BLKS_PER_BANK \<le> vpn_of t lpn div PAGES_PER_VBLK \<and> vpn_of t lpn div PAGES_PER_VBLK < VBLKS_PER_BANK
       \<and> 0 < vcnt t b (vpn_of t lpn div PAGES_PER_VBLK) \<and> vcnt t b (vpn_of t lpn div PAGES_PER_VBLK) < PAGES_PER_VBLK"
proof -
  from bk obtain F U where B: "blocks_ok t b F cb u" "counts_ok t b (insert cb (F \<union> U))" unfolding cb by (rule bank_okE) blast
  note S = gc_blocks_okD [OF B(1)] and C = counts_okD [OF B(2)]
  have up: "u < PAGES_PER_VBLK" using u by (simp add: geom)
  show "META_BLKS_PER_BANK \<le> cb" "cb < VBLKS_PER_BANK" "gblank t b (cb * PAGES_PER_VBLK + u)" using S(2,3) S(9) [OF order_refl up] by simp_all
  show "vcnt t b cb \<le> u" by (rule bank_count(2) [OF B]) simp_all
  have h: "home t b F cb u lpn" if "vpn_of t lpn \<noteq> 0" by (rule S(6) [OF l that])
  show "vpn_of t lpn \<noteq> cb * PAGES_PER_VBLK + u"
    using h S(2,4) row_eq [OF up, of "vpn_of t lpn" cb] by (cases "vpn_of t lpn = 0") (auto simp: home_def Let_def geom)
  show "META_BLKS_PER_BANK \<le> vpn_of t lpn div PAGES_PER_VBLK \<and> vpn_of t lpn div PAGES_PER_VBLK < VBLKS_PER_BANK
       \<and> 0 < vcnt t b (vpn_of t lpn div PAGES_PER_VBLK) \<and> vcnt t b (vpn_of t lpn div PAGES_PER_VBLK) < PAGES_PER_VBLK" if nz: "vpn_of t lpn \<noteq> 0"
  proof -
    let ?v = "vpn_of t lpn div PAGES_PER_VBLK"
    have v: "?v \<in> insert cb (F \<union> U)" "?v \<in> insert cb F" using h [OF nz] by (auto simp: home_def Let_def)
    have "lpn \<in> holders t b ?v" using l nz by (simp add: holders_def)
    then have "0 < card (holders t b ?v)" by (auto simp: card_gt_0_iff)
    then have "0 < vcnt t b ?v" using C(3) [OF v(1)] by simp
    moreover have "vcnt t b ?v < PAGES_PER_VBLK" using bank_count(1) [OF B v(1)] by (simp add: geom)
    moreover have "META_BLKS_PER_BANK \<le> ?v" "?v < VBLKS_PER_BANK" using v(2) S(1-3) by auto
    ultimately show ?thesis by blast
  qed
qed

text \<open>The second half of \<open>write_page\<close>: the page is programmed and takes its place in the map, the list and the counts.\<close>

definition new_part :: "flash_hw \<Rightarrow> nat \<Rightarrow> nat \<Rightarrow> nat \<Rightarrow> nat \<Rightarrow> nat \<Rightarrow> gstate \<Rightarrow> gstate option" where
  "new_part hw bank lpn new_vpn page_offset column_cnt s = do {
     let vblock = new_vpn div PAGES_PER_VBLK;
     let page_num = new_vpn mod PAGES_PER_VBLK;
     vcount \<leftarrow> get_vcount bank vblock s;
     ASSERT (vcount < PAGES_PER_VBLK - 1);
     s \<leftarrow> flash_do (nand_page_ptprogram_from_host hw greedy_layout bank vblock page_num page_offset column_cnt) s;
     let s = set_misc bank (set_lpn page_num lpn) s;
     s \<leftarrow> set_vpn lpn new_vpn s;
     vcount \<leftarrow> get_vcount bank vblock s;
     set_vcount bank vblock (vcount + 1) s }"

lemma new_part_result:
  fixes s hw b cb u off n num col cnt data
  defines "B \<equiv> WR_BUF_PTR greedy_layout (g_ftl_write_buf_id (gfl s))"
  assumes hw: "flash_ok greedy_layout hw" "host_delivers greedy_layout hw (g_ftl_write_buf_id (gfl s)) off n data"
    and wid: "g_ftl_write_buf_id (gfl s) < GR_NUM_WR_BUFFERS" and b: "b < NUM_BANKS" and u: "u < 127" and lpn: "lpn < NUM_LPAGES"
    and n: "0 < n" "num = min n (SECTORS_PER_PAGE - off)" and c: "col \<le> off" "off + num \<le> col + cnt" "col + cnt \<le> SECTORS_PER_PAGE"
    and cb: "META_BLKS_PER_BANK \<le> cb" "cb < VBLKS_PER_BANK" "vcnt s b cb \<le> u" and bl: "gblank s b (cb * PAGES_PER_VBLK + u)"
  shows "\<exists>w. new_part hw b lpn (cb * PAGES_PER_VBLK + u) col cnt s = Some w
    \<and> (\<forall>l < NUM_LPAGES. vpn_of w l = (if l = lpn then cb * PAGES_PER_VBLK + u else vpn_of s l))
    \<and> (\<forall>c < NUM_BANKS. \<forall>v < VBLKS_PER_BANK. vcnt w c v = (if c = b \<and> v = cb then vcnt s c v + 1 else vcnt s c v) \<and> gbad w c v = gbad s c v)
    \<and> g_misc_meta w = (g_misc_meta s)(b := set_lpn u lpn (g_misc_meta s b))
    \<and> g_ftl_read_buf_id (gfl w) = g_ftl_read_buf_id (gfl s) \<and> g_ftl_write_buf_id (gfl w) = (g_ftl_write_buf_id (gfl s) + 1) mod GR_NUM_WR_BUFFERS
    \<and> (\<forall>c < NUM_BANKS. \<forall>r. (c, r) \<noteq> (b, cb * PAGES_PER_VBLK + u) \<longrightarrow> gpage w c r = gpage s c r)
    \<and> (\<forall>x. col * 512 \<le> x \<and> x < (col + cnt) * 512 \<longrightarrow> gpage w b (cb * PAGES_PER_VBLK + u) x
         = (if off * 512 \<le> x \<and> x < (off + num) * 512 then data (x - off * 512) else gdram s (B + x)))"
proof -
  let ?r = "cb * PAGES_PER_VBLK + u"
  have up: "u < PAGES_PER_VBLK" "u + 1 < PAGES_PER_VBLK" "u < PAGES_PER_VBLK - 1" using u by (simp_all add: geom)
  from gr_host_program [OF hw wid b cb(2) up(1) n c bl, folded B_def] obtain x where
    x: "flash_do (nand_page_ptprogram_from_host hw greedy_layout b cb u col cnt) s = Some x" "same_meta s x" "g_misc_meta x = g_misc_meta s"
      "g_ftl_read_buf_id (gfl x) = g_ftl_read_buf_id (gfl s)" "g_ftl_write_buf_id (gfl x) = (g_ftl_write_buf_id (gfl s) + 1) mod GR_NUM_WR_BUFFERS"
      "\<forall>c < NUM_BANKS. \<forall>r. (c, r) \<noteq> (b, ?r) \<longrightarrow> gpage x c r = gpage s c r"
      "\<forall>i. col * 512 \<le> i \<and> i < (col + cnt) * 512 \<longrightarrow> gpage x b ?r i
         = (if off * 512 \<le> i \<and> i < (off + num) * 512 then data (i - off * 512) else gdram s (B + i))" by blast
  note Q = same_meta_views [OF x(2)]
  have vr: "META_BLKS_PER_BANK * PAGES_PER_VBLK \<le> ?r" "?r < VBLKS_PER_BANK * PAGES_PER_VBLK" using row_meta [OF cb(1)] row_bound [OF cb(2) up(1)] by auto
  define y where "y = put_vpn lpn ?r (set_misc b (set_lpn u lpn) x)"
  define k where "k = vcnt s b cb"
  define w where "w = put_vcount b cb (k + 1) y"
  have k: "k < PAGES_PER_VBLK" "k < PAGES_PER_VBLK - 1" "k + 1 < PAGES_PER_VBLK" "k + 1 < 65536" using cb(3) u by (simp_all add: k_def geom)
  note P = put_vpn_views [OF lpn vr(2), where s = "set_misc b (set_lpn u lpn) x", folded y_def]
  have vy: "vcnt y b cb = k" using P(2) [OF b cb(2)] Q(2) [OF b cb(2)] by (simp add: k_def)
  have g: "get_vcount b cb s = Some k" "get_vcount b cb y = Some k" using get_vcount_eq [OF b cb(1,2)] k(1) vy by (simp_all add: k_def)
  have run: "new_part hw b lpn ?r col cnt s = Some w"
    using g x(1) k(2) set_vpn_eq [OF lpn vr] set_vcount_eq [OF b cb(1,2) disjI1 [OF k(3)]]
    unfolding new_part_def Let_def row_div [OF up(1)] by (simp add: y_def [symmetric] w_def)
  note V = put_vcount_views [OF b cb(2) k(4), where s = y, folded w_def]
  show ?thesis
  proof (intro exI [of _ w] conjI allI impI)
    show "vpn_of w l = (if l = lpn then ?r else vpn_of s l)" if "l < NUM_LPAGES" for l using V(1) P(1) Q(1) that by simp
    show "vcnt w c v = (if c = b \<and> v = cb then vcnt s c v + 1 else vcnt s c v)" "gbad w c v = gbad s c v" if "c < NUM_BANKS" "v < VBLKS_PER_BANK" for c v
      using V(2,3) [OF that] P(2,3) [OF that] Q(2,3) [OF that] by (simp_all add: k_def)
    show "gpage w c r = gpage s c r" if "c < NUM_BANKS" "(c, r) \<noteq> (b, ?r)" for c r using x(6) that by (simp add: w_def y_def)
    show "gpage w b ?r i = (if off * 512 \<le> i \<and> i < (off + num) * 512 then data (i - off * 512) else gdram s (B + i))"
      if "col * 512 \<le> i \<and> i < (col + cnt) * 512" for i using x(7) that by (simp add: w_def y_def)
  qed (use run x(3-5) in \<open>simp_all add: w_def y_def\<close>)
qed

lemma write_page_parts:
  assumes "lpn < NUM_LPAGES" and "off < SECTORS_PER_PAGE" and "0 < num" "num \<le> SECTORS_PER_PAGE"
    and "assign_new_write_vpn hw (lpn mod NUM_BANKS) s = Some (vpn, t)" and "vpn_of t lpn < VBLKS_PER_BANK * PAGES_PER_VBLK" "vpn < VBLKS_PER_BANK * PAGES_PER_VBLK"
    and "vpn_of t lpn \<noteq> vpn"
  shows "\<exists>f. write_page hw lpn off num s = old_part hw (lpn mod NUM_BANKS) (vpn_of t lpn) off num (set_stat (lpn mod NUM_BANKS) f t)
    \<bind> (\<lambda>(col, cnt, x). new_part hw (lpn mod NUM_BANKS) lpn vpn col cnt x)"
proof (intro exI)
  show "write_page hw lpn off num s = old_part hw (lpn mod NUM_BANKS) (vpn_of t lpn) off num (set_stat (lpn mod NUM_BANKS) (\<lambda>t. t\<lparr>page_wcount := wrap32 (page_wcount t + 1)\<rparr>) t)
    \<bind> (\<lambda>(col, cnt, x). new_part hw (lpn mod NUM_BANKS) lpn vpn col cnt x)"
    using assms unfolding write_page_def Let_def get_num_bank_def by (simp add: get_vpn_eq CHECK_VPAGE_def old_part_def new_part_def Let_def)
qed

text \<open>A write of one page of a request.\<close>

lemma write_page_result:
  assumes hw: "flash_ok greedy_layout hw" "host_delivers greedy_layout hw (g_ftl_write_buf_id (gfl s)) off n data" and inv: "gr_inv s"
    and safe: "gr_clean s \<or> vpn_of s 0 = 0 \<and> lpn \<noteq> 0" and lpn: "lpn < NUM_LPAGES" and wid: "g_ftl_write_buf_id (gfl s) < GR_NUM_WR_BUFFERS"
    and off: "off < SECTORS_PER_PAGE" and n: "0 < n" "num = min n (SECTORS_PER_PAGE - off)"
  shows "\<exists>w. write_page hw lpn off num s = Some w \<and> gr_inv w \<and> (gr_clean w \<or> vpn_of w 0 = 0) \<and> gr_frame s w
    \<and> g_ftl_write_buf_id (gfl w) = (g_ftl_write_buf_id (gfl s) + 1) mod GR_NUM_WR_BUFFERS \<and> page_put data lpn off num (gword s) (gword w)"
proof -
  define b where "b = lpn mod NUM_BANKS"
  have b: "b < NUM_BANKS" by (simp add: b_def geom)
  have num: "0 < num" "num \<le> SECTORS_PER_PAGE" "off + num \<le> SECTORS_PER_PAGE" using off n by (simp_all add: geom)
  have m: "map_ok s" and bk: "\<And>c. c < NUM_BANKS \<Longrightarrow> bank_ok s c (cur_write_vpn (g_misc_meta s c) mod PAGES_PER_VBLK + 1)" using inv by (simp_all add: gr_inv_def)
  have ss: "stray_safe s b" using safe b by (auto simp: stray_safe_def gr_clean_def)
  from assign_result [OF hw(1) b m bk [OF b] ss] obtain t where a: "assigned hw b s t" by blast
  define u where "u = cur_write_vpn (g_misc_meta t b) mod PAGES_PER_VBLK"
  define cb where "cb = cur_write_vpn (g_misc_meta t b) div PAGES_PER_VBLK"
  have new: "cur_write_vpn (g_misc_meta t b) = cb * PAGES_PER_VBLK + u" by (simp add: cb_def u_def)
  have t: "assign_new_write_vpn hw b s = Some (cb * PAGES_PER_VBLK + u, t)" "bank_ok t b u" "u < 127" "bank_frame b s t" "map_ok t" "same_store s t"
    "g_ftl_write_buf_id (gfl t) = g_ftl_write_buf_id (gfl s)" "b \<noteq> 0 \<and> lists_own s b \<and> lpns s b 0 \<noteq> 0 \<longrightarrow> lists_own t b \<and> (u = 0 \<or> lpns t b 0 \<noteq> 0)"
    using a by (simp_all add: assigned_def u_def [symmetric], simp add: new)
  note W = write_places [OF t(2,3) b cb_def lpn b_def [symmetric]]
  have up: "u < PAGES_PER_VBLK" using t(3) by (simp add: geom)
  have vb: "vpn_of t lpn < VBLKS_PER_BANK * PAGES_PER_VBLK" using t(5) lpn by (simp add: map_ok_def)
  from write_page_parts [OF lpn off num(1,2) t(1) [unfolded b_def] vb row_bound [OF W(2) up] W(5)] obtain f where
    run: "write_page hw lpn off num s = old_part hw b (vpn_of t lpn) off num (set_stat b f t) \<bind> (\<lambda>(col, cnt, x). new_part hw b lpn (cb * PAGES_PER_VBLK + u) col cnt x)"
    unfolding b_def by blast
  have wt: "g_ftl_write_buf_id (gfl (set_stat b f t)) < GR_NUM_WR_BUFFERS" using wid t(7) by simp
  have W6: "vpn_of t lpn \<noteq> 0 \<Longrightarrow> META_BLKS_PER_BANK \<le> vpn_of t lpn div PAGES_PER_VBLK \<and> vpn_of t lpn div PAGES_PER_VBLK < VBLKS_PER_BANK
       \<and> 0 < vcnt (set_stat b f t) b (vpn_of t lpn div PAGES_PER_VBLK) \<and> vcnt (set_stat b f t) b (vpn_of t lpn div PAGES_PER_VBLK) < PAGES_PER_VBLK" using W(6) by simp
  from old_part_result [OF hw(1) wt b W6 num(3,1)] obtain col cnt x where
    x: "old_part hw b (vpn_of t lpn) off num (set_stat b f t) = Some (col, cnt, x)" "col \<le> off" "off + num \<le> col + cnt" "col + cnt \<le> SECTORS_PER_PAGE"
      "\<forall>l < NUM_LPAGES. vpn_of x l = vpn_of t l"
      "\<forall>c < NUM_BANKS. \<forall>v < VBLKS_PER_BANK. vcnt x c v = (if vpn_of t lpn \<noteq> 0 \<and> c = b \<and> v = vpn_of t lpn div PAGES_PER_VBLK then vcnt t c v - 1 else vcnt t c v) \<and> gbad x c v = gbad t c v"
      "gpage x = gpage t" "g_misc_meta x = g_misc_meta t" "g_ftl_read_buf_id (gfl x) = g_ftl_read_buf_id (gfl t)" "g_ftl_write_buf_id (gfl x) = g_ftl_write_buf_id (gfl s)"
      "vpn_of t lpn \<noteq> 0 \<longrightarrow> col = 0 \<and> cnt = SECTORS_PER_PAGE
       \<and> (\<forall>i < BYTES_PER_PAGE. i < off * 512 \<or> (off + num) * 512 \<le> i \<longrightarrow> gdram x (WR_BUF_PTR greedy_layout (g_ftl_write_buf_id (gfl s)) + i) = gpage t b (vpn_of t lpn) i)"
    unfolding view_simps set_stat_fields t(7) by blast
  have cx: "vcnt x b cb \<le> u" using x(6) b W(2,3) by auto
  have bx: "gblank x b (cb * PAGES_PER_VBLK + u)" using W(4) gblank_cong [of x b "cb * PAGES_PER_VBLK + u" t] x(7) by simp
  have wx: "g_ftl_write_buf_id (gfl x) < GR_NUM_WR_BUFFERS" "host_delivers greedy_layout hw (g_ftl_write_buf_id (gfl x)) off n data" using wid hw(2) x(10) by simp_all
  from new_part_result [OF hw(1) wx(2,1) b t(3) lpn n x(2-4) W(1,2) cx bx, unfolded x(7,8,9,10)] obtain w where
    w: "new_part hw b lpn (cb * PAGES_PER_VBLK + u) col cnt x = Some w" "\<forall>l < NUM_LPAGES. vpn_of w l = (if l = lpn then cb * PAGES_PER_VBLK + u else vpn_of x l)"
      "\<forall>c < NUM_BANKS. \<forall>v < VBLKS_PER_BANK. vcnt w c v = (if c = b \<and> v = cb then vcnt x c v + 1 else vcnt x c v) \<and> gbad w c v = gbad x c v"
      "g_misc_meta w = (g_misc_meta t)(b := set_lpn u lpn (g_misc_meta t b))"
      "g_ftl_read_buf_id (gfl w) = g_ftl_read_buf_id (gfl t)" "g_ftl_write_buf_id (gfl w) = (g_ftl_write_buf_id (gfl s) + 1) mod GR_NUM_WR_BUFFERS"
      "\<forall>c < NUM_BANKS. \<forall>r. (c, r) \<noteq> (b, cb * PAGES_PER_VBLK + u) \<longrightarrow> gpage w c r = gpage t c r"
      "\<forall>i. col * 512 \<le> i \<and> i < (col + cnt) * 512 \<longrightarrow> gpage w b (cb * PAGES_PER_VBLK + u) i
         = (if off * 512 \<le> i \<and> i < (off + num) * 512 then data (i - off * 512) else gdram x (WR_BUF_PTR greedy_layout (g_ftl_write_buf_id (gfl s)) + i))" by blast
  have M: "\<forall>l < NUM_LPAGES. vpn_of w l = (if l = lpn then cb * PAGES_PER_VBLK + u else vpn_of t l)" using w(2) x(5) by simp
  have V: "\<forall>v < VBLKS_PER_BANK. vcnt w b v = (if vpn_of t lpn \<noteq> 0 \<and> v = vpn_of t lpn div PAGES_PER_VBLK then vcnt t b v - 1 else vcnt t b v) + (if v = cb then 1 else 0)"
    "\<forall>v < VBLKS_PER_BANK. gbad w b v = gbad t b v" using w(3) x(6) b by simp_all
  note R = bank_write [OF t(2,3) b cb_def lpn b_def [symmetric] M w(7,4) V]
  have tw: "bank_frame b t w" using M w(3-5,7) x(6) b_def by (auto simp: bank_frame_def fun_eq_iff)
  have sw: "bank_frame b s w" by (rule bank_frame_trans [OF t(4) tw])
  have cw: "cur_write_vpn (g_misc_meta w b) mod PAGES_PER_VBLK = u" by (simp add: w(4) u_def)
  have "map_ok w" using t(5) M row_bound [OF W(2) up] by (simp add: map_ok_def)
  moreover have "bank_ok w c (cur_write_vpn (g_misc_meta w c) mod PAGES_PER_VBLK + 1)" if c: "c < NUM_BANKS" for c
  proof (cases "c = b")
    case True
    then show ?thesis using R(1) cw by simp
  next
    case False
    have "g_misc_meta w c = g_misc_meta s c" using sw c False by (simp add: bank_frame_def)
    then show ?thesis using bank_ok_frame [OF sw c False bk [OF c]] by simp
  qed
  ultimately have iw: "gr_inv w" by (simp add: gr_inv_def)
  have z: "0 < NUM_LPAGES" "0 < BYTES_PER_PAGE" by (simp_all add: geom)
  have cl: "gr_clean w \<or> vpn_of w 0 = 0"
    using safe
  proof
    assume c: "gr_clean s"
    have "lists_own w c \<and> lpns w c 0 \<noteq> 0" if cc: "c < NUM_BANKS" "c \<noteq> 0" for c
    proof (cases "c = b")
      case True
      then have "lists_own t b" "u = 0 \<or> lpns t b 0 \<noteq> 0" using t(8) c cc by (simp_all add: gr_clean_def)
      moreover have "lpn \<noteq> 0" using cc(2) True b_def by (cases "lpn = 0") simp_all
      ultimately show ?thesis using True R(4) by (auto simp: lists_own_def w(4))
    next
      case False
      have "g_misc_meta w c = g_misc_meta s c" "\<forall>v < VBLKS_PER_BANK. vcnt w c v = vcnt s c v" "gpage w c = gpage s c" using sw cc(1) False by (simp_all add: bank_frame_def)
      then show ?thesis using c cc by (simp add: gr_clean_def lists_own_def listed_def)
    qed
    then show ?thesis by (simp add: gr_clean_def)
  next
    assume s0: "vpn_of s 0 = 0 \<and> lpn \<noteq> 0"
    then have "vpn_of t 0 = 0" using gword_mapped [OF z(2) same_store_word [OF t(6) z(1)]] by simp
    then show ?thesis using M z(1) s0 by simp
  qed
  have "page_put data lpn off num (gword s) (gword w)"
    unfolding page_put_def
  proof (intro conjI allI impI)
    show "gword w l = gword s l" if "l < NUM_LPAGES" "l \<noteq> lpn" for l using R(2) [OF that] same_store_word [OF t(6) that(1)] by simp
  next
    fix i assume i: "off * 512 \<le> i \<and> i < (off + num) * 512"
    moreover have "(off + num) * 512 \<le> (col + cnt) * 512" "col * 512 \<le> off * 512" "(off + num) * 512 \<le> BYTES_PER_PAGE" using x(2,3) num(3) by (simp_all add: geom)
    ultimately have "i < BYTES_PER_PAGE" "col * 512 \<le> i \<and> i < (col + cnt) * 512" by linarith+
    then show "gword w lpn i = Some (data (i - off * 512))" using R(3) w(8) i by simp
  next
    fix i assume i: "i < BYTES_PER_PAGE" "gword s lpn i \<noteq> None \<and> (i < off * 512 \<or> (off + num) * 512 \<le> i)"
    have g: "gword t lpn i = gword s lpn i" using same_store_word [OF t(6) lpn] by simp
    then have nz: "vpn_of t lpn \<noteq> 0" using i by (auto simp: gword_def split: if_splits)
    have "col * 512 \<le> i \<and> i < (col + cnt) * 512" using x(11) nz i(1) by (simp add: geom)
    then have "gpage w b (cb * PAGES_PER_VBLK + u) i = gdram x (WR_BUF_PTR greedy_layout (g_ftl_write_buf_id (gfl s)) + i)" using w(8) i(2) by auto
    also have "\<dots> = gpage t b (vpn_of t lpn) i" using x(11) nz i by blast
    finally show "gword w lpn i = gword s lpn i" using R(3) [OF i(1)] g nz i(1) by (simp add: gword_def b_def)
  qed
  then show ?thesis using run x(1) w(1,6) iw cl bank_frame_gr_frame [OF sw] by (intro exI [of _ w]) simp
qed

subsection \<open>Whole writes\<close>

definition gr_write_inv :: "flash_hw \<Rightarrow> nat \<Rightarrow> nat \<Rightarrow> gstate \<Rightarrow> bool" where
  "gr_write_inv hw p lpn s \<longleftrightarrow> flash_ok greedy_layout hw \<and> gr_inv s \<and> (gr_clean s \<or> vpn_of s 0 = 0 \<and> lpn \<noteq> 0)"

interpretation gr_writes: page_writes gword "\<lambda>s. g_ftl_write_buf_id (gfl s)" greedy_layout hw "gr_write_inv hw" "\<lambda>_. gr_frame"
    "\<lambda>lpn off n s s'. write_page hw lpn off (page_chunk off n) s = Some s'" "gr_ftl_write_loop hw" for hw
proof unfold_locales
  show "gr_ftl_write_loop hw lpn off 0 s = Some s" for lpn off s by (subst gr_ftl_write_loop.simps) simp
next
  fix lpn off n s s'
  assume "write_page hw lpn off (page_chunk off n) s = Some s'" "0 < n" "off < SECTORS_PER_PAGE" "off + n < 4294967296"
  then show "gr_ftl_write_loop hw lpn off n s = gr_ftl_write_loop hw (lpn + 1) 0 (n - min n (SECTORS_PER_PAGE - off)) s'"
    by (subst gr_ftl_write_loop.simps) (simp add: page_chunk_eq)
next
  fix p lpn off n :: nat and s data
  assume "gr_write_inv hw (Suc p) lpn s" and lpn: "lpn < NUM_LPAGES" and b: "g_ftl_write_buf_id (gfl s) < l_num_wr_buffers greedy_layout"
    and off: "off < SECTORS_PER_PAGE" "0 < n" "off + n < 4294967296" and d: "host_delivers greedy_layout hw (g_ftl_write_buf_id (gfl s)) off n data"
  then have i: "flash_ok greedy_layout hw" "gr_inv s" "gr_clean s \<or> vpn_of s 0 = 0 \<and> lpn \<noteq> 0" by (simp_all add: gr_write_inv_def)
  from write_page_result [OF i(1) d i(2,3) lpn _ off(1,2) refl] b page_chunk_eq [OF off(1,3)]
  show "\<exists>s'. write_page hw lpn off (page_chunk off n) s = Some s' \<and> gr_write_inv hw p (lpn + 1) s' \<and> gr_frame s s'
      \<and> g_ftl_write_buf_id (gfl s') = (g_ftl_write_buf_id (gfl s) + 1) mod l_num_wr_buffers greedy_layout
      \<and> page_put data lpn off (min n (SECTORS_PER_PAGE - off)) (gword s) (gword s')"
    using i(1) by (auto simp: gr_write_inv_def)
qed (simp_all add: gr_frame_def)

subsection \<open>Reads\<close>

text \<open>What a read leaves as it is: everything but read buffers and the pointer to them.\<close>

definition gr_kept :: "gstate \<Rightarrow> gstate \<Rightarrow> bool" where
  "gr_kept s t \<longleftrightarrow> same_meta s t \<and> g_misc_meta t = g_misc_meta s \<and> gpage t = gpage s \<and> g_ftl_write_buf_id (gfl t) = g_ftl_write_buf_id (gfl s)"

lemma gr_kept_trans: "gr_kept s t \<Longrightarrow> gr_kept t x \<Longrightarrow> gr_kept s x"
  by (simp add: gr_kept_def same_meta_def)

lemma same_inv:
  assumes "same_meta s t" and "g_misc_meta t = g_misc_meta s" and "gpage t = gpage s"
  shows "l < NUM_LPAGES \<Longrightarrow> gword t l = gword s l" "gr_inv s \<Longrightarrow> gr_inv t" "gr_clean s \<Longrightarrow> gr_clean t"
proof -
  note V = same_meta_views [OF assms(1)] and k = assms(2,3)
  have g: "gblank t b r = gblank s b r" and li: "listed t b v p = listed s b v p" for b r v p
    by (rule gblank_cong, simp add: k) (rule listed_cong, simp add: k)
  show "l < NUM_LPAGES \<Longrightarrow> gword t l = gword s l" using V(1) by (simp add: gword_def k fun_eq_iff)
  have bk: "bank_ok t b u" if b: "b < NUM_BANKS" and s: "bank_ok s b u" for b u
  proof -
    let ?cb = "cur_write_vpn (g_misc_meta s b) div PAGES_PER_VBLK"
    from s obtain F U where B: "blocks_ok s b F ?cb u" "counts_ok s b (insert ?cb (F \<union> U))" "spare_ok s b (insert ?cb (F \<union> U))"
      "?cb \<notin> U" "F \<inter> U = {}" "U = {} \<or> U = {v \<in> insert ?cb (F \<union> U). ?cb < v}"
      "\<And>v p. v \<in> U \<Longrightarrow> p < PAGES_PER_VBLK \<Longrightarrow> gblank s b (v * PAGES_PER_VBLK + p)" "free_blk_cnt (g_misc_meta s b) = 2 + card U" by (rule bank_okE) blast
    show ?thesis
    proof (rule bank_okI [OF _ _ _ _ refl B(4,5,6)])
      show "blocks_ok t b F ?cb u" by (rule blocks_ok_cong [OF B(1) V(1)]) (simp_all add: k)
      show "counts_ok t b (insert ?cb (F \<union> U))" by (rule counts_ok_cong [OF B(2) V(2,3) holders_cong [OF V(1)]]) (rule b, assumption)+
      show "spare_ok t b (insert ?cb (F \<union> U))" by (rule spare_ok_cong [OF B(3) _ V(3) [OF b]]) (simp_all add: k)
    qed (use B(7,8) in \<open>simp_all add: k g\<close>)
  qed
  then show "gr_inv s \<Longrightarrow> gr_inv t" using V(1) by (simp add: gr_inv_def map_ok_def k)
  show "gr_clean s \<Longrightarrow> gr_clean t" using V(2) by (simp add: gr_clean_def lists_own_def k li)
qed

lemma kept_inv:
  assumes "gr_kept s t"
  shows "l < NUM_LPAGES \<Longrightarrow> gword t l = gword s l" "gr_inv s \<Longrightarrow> gr_inv t" "gr_clean s \<Longrightarrow> gr_clean t"
  using assms same_inv [of s t] by (simp_all add: gr_kept_def)

lemma gr_ring: "0 < l_num_rd_buffers greedy_layout" "rd_end greedy_layout = GR_WR_BUF_ADDR" "rd_end greedy_layout \<le> 4294967296"
  by (simp_all add: rd_end_def geom)

lemmas gr_rd_buf = rd_ring_bounds [OF gr_ring(1,3), unfolded gr_ring(2)]

lemma gr_read_page_result:
  assumes hw: "flash_ok greedy_layout hw" and m: "map_ok s" and lpn: "lpn < NUM_LPAGES" and rid: "g_ftl_read_buf_id (gfl s) < GR_NUM_RD_BUFFERS"
    and pg: "off + num \<le> SECTORS_PER_PAGE"
  defines "B \<equiv> rd_ring greedy_layout (g_ftl_read_buf_id (gfl s))"
  shows "\<exists>t. gr_read_page hw lpn off num s = Some t \<and> gr_kept s t \<and> g_ftl_read_buf_id (gfl t) = (g_ftl_read_buf_id (gfl s) + 1) mod GR_NUM_RD_BUFFERS
    \<and> (\<forall>x. off * 512 \<le> x \<and> x < (off + num) * 512 \<longrightarrow> gdram t (B + x) = seen (gword s lpn x))
    \<and> (\<forall>a < 4294967296. a < B \<or> B + BYTES_PER_PAGE \<le> a \<longrightarrow> gdram t a = gdram s a)"
proof -
  let ?b = "g_ftl_read_buf_id (gfl s)" and ?v = "vpn_of s lpn"
  let ?next = "(?b + 1) mod GR_NUM_RD_BUFFERS"
  have far: "B + BYTES_PER_PAGE \<le> BAD_BLK_BMP_ADDR" "VCOUNT_ADDR + VCOUNT_BYTES < 4294967296" using gr_rd_buf(3) [of ?b, folded B_def] by (simp_all add: geom)
  have v: "?v < VBLKS_PER_BANK * PAGES_PER_VBLK" using m lpn by (simp add: map_ok_def)
  have bank: "lpn mod NUM_BANKS < NUM_BANKS" by (simp add: geom)
  have held: "gword s lpn x = Some (pages (nand (gfl s)) (REAL_BANK (lpn mod NUM_BANKS)) ?v x)" if "?v \<noteq> 0" "x < (off + num) * 512" for x
    using that mult_le_mono1 [OF pg, of 512] by (simp add: gword_def gpage_def geom)
  show ?thesis
  proof (cases "?v = 0")
    case False
    from ptread_to_host_page [OF hw _ gr_ring(3) bank v pg, of "gfl s"] rid obtain x where
      x: "nand_page_ptread_to_host hw greedy_layout (lpn mod NUM_BANKS) (?v div PAGES_PER_VBLK) (?v mod PAGES_PER_VBLK) off num (gfl s) = Some x"
      "g_ftl_read_buf_id x = ?next" "g_ftl_write_buf_id x = g_ftl_write_buf_id (gfl s)" "pages (nand x) = pages (nand (gfl s))"
      "\<forall>j. off * 512 \<le> j \<and> j < (off + num) * 512 \<longrightarrow> dram x (B + j) = pages (nand (gfl s)) (REAL_BANK (lpn mod NUM_BANKS)) ?v j"
      "\<forall>a < 4294967296. a < B \<or> B + BYTES_PER_PAGE \<le> a \<longrightarrow> dram x a = dram (gfl s) a" by (auto simp: B_def)
    have "gr_read_page hw lpn off num s = Some (s\<lparr>gfl := x\<rparr>)"
      using False v x(1) by (simp add: gr_read_page_def get_num_bank_def get_vpn_eq [OF lpn] CHECK_VPAGE_def flash_do_def Let_def)
    moreover have "gr_kept s (s\<lparr>gfl := x\<rparr>)" using x far by (auto simp: gr_kept_def same_meta_def gpage_def gdram_def fun_eq_iff)
    ultimately show ?thesis using x held [OF False] by (intro exI [of _ "s\<lparr>gfl := x\<rparr>"]) (simp add: gdram_def seen_def)
  next
    case True
    have al: "DRAM_BASE \<le> GR_RD_BUF_ADDR" "GR_RD_BUF_ADDR mod SDRAM_ECC_UNIT = 0" by (simp_all add: geom)
    from rd_ring_fill [of ?b greedy_layout off num "0xFFFFFFFF" "gdram s"] rid al pg obtain d where
      d: "dram_fill (RD_BUF_PTR greedy_layout ?b + off * BYTES_PER_SECTOR) 0xFFFFFFFF (num * BYTES_PER_SECTOR) (gdram s) = Some d"
      "\<forall>j. off * 512 \<le> j \<and> j < (off + num) * 512 \<longrightarrow> d (B + j) = 0xFFFFFFFF" "\<forall>a. a < B \<or> B + BYTES_PER_PAGE \<le> a \<longrightarrow> d a = gdram s a" by (auto simp: B_def)
    define t where "t = on_gfl (\<lambda>f. f\<lparr>g_ftl_read_buf_id := ?next\<rparr>) (on_gfl (SETREG BM_STACK_RESET 0x02) (on_gfl (SETREG BM_STACK_RDSET ?next)
       (on_gfl flash_finish (set_gdram d (on_gfl (log (Wait_Rbuf ?next)) s)))))"
    have "gdram (on_gfl (log e) s) = gdram s" for e by (simp add: on_gfl_def gdram_def)
    then have run: "gr_read_page hw lpn off num s = Some t"
      using True v d(1) by (simp add: gr_read_page_def get_vpn_eq [OF lpn] CHECK_VPAGE_def Let_def t_def)
    have t: "gdram t = d" "gpage t = gpage s" "g_misc_meta t = g_misc_meta s" "g_ftl_write_buf_id (gfl t) = g_ftl_write_buf_id (gfl s)" "g_ftl_read_buf_id (gfl t) = ?next"
      by (simp_all add: t_def on_gfl_def gdram_def set_gdram_def SETREG_def gpage_def flash_finish_def fun_eq_iff)
    have "gr_kept s t" using d(3) far t by (auto simp: gr_kept_def same_meta_def)
    then show ?thesis using run t(1,5) d(2,3) True by (intro exI [of _ t]) (simp add: seen_def gword_def)
  qed
qed

definition gr_read_inv :: "flash_hw \<Rightarrow> gstate \<Rightarrow> gstate \<Rightarrow> bool" where
  "gr_read_inv hw s0 s \<longleftrightarrow> flash_ok greedy_layout hw \<and> gr_inv s0 \<and> gr_kept s0 s"

interpretation gr_reads: page_reads gword gdram "\<lambda>s. g_ftl_read_buf_id (gfl s)" greedy_layout "gr_read_inv hw s0"
    "\<lambda>lpn off num s s'. gr_read_page hw lpn off num s = Some s'" "gr_ftl_read_loop hw" for hw s0
proof unfold_locales
  show "rd_end greedy_layout \<le> 4294967296" by (rule gr_ring(3))
  show "gr_ftl_read_loop hw lpn off 0 s = Some s" for lpn off s by (subst gr_ftl_read_loop.simps) simp
next
  fix lpn off n s s'
  assume "gr_read_page hw lpn off (min n (SECTORS_PER_PAGE - off)) s = Some s'" "0 < n" "off < SECTORS_PER_PAGE" "off + n < 4294967296"
  then show "gr_ftl_read_loop hw lpn off n s = gr_ftl_read_loop hw (lpn + 1) 0 (n - min n (SECTORS_PER_PAGE - off)) s'"
    by (subst gr_ftl_read_loop.simps) (simp add: page_chunk_eq)
next
  fix s lpn off num
  assume i: "gr_read_inv hw s0 s" and lpn: "lpn < NUM_LPAGES" and r: "g_ftl_read_buf_id (gfl s) < l_num_rd_buffers greedy_layout" and pg: "off + num \<le> SECTORS_PER_PAGE"
  then have I: "flash_ok greedy_layout hw" "gr_inv s0" "gr_kept s0 s" "g_ftl_read_buf_id (gfl s) < GR_NUM_RD_BUFFERS" by (simp_all add: gr_read_inv_def)
  have "map_ok s" using kept_inv(2) [OF I(3,2)] by (simp add: gr_inv_def)
  from gr_read_page_result [OF I(1) this lpn I(4) pg] I gr_kept_trans [OF I(3)] kept_inv(1)
  show "\<exists>s'. gr_read_page hw lpn off num s = Some s' \<and> gr_read_inv hw s0 s' \<and> (\<forall>l < NUM_LPAGES. gword s' l = gword s l)
      \<and> g_ftl_read_buf_id (gfl s') = (g_ftl_read_buf_id (gfl s) + 1) mod l_num_rd_buffers greedy_layout
      \<and> (\<forall>x. off * 512 \<le> x \<and> x < (off + num) * 512 \<longrightarrow> gdram s' (rd_ring greedy_layout (g_ftl_read_buf_id (gfl s)) + x) = seen (gword s lpn x))
      \<and> (\<forall>a < 4294967296. a < rd_ring greedy_layout (g_ftl_read_buf_id (gfl s)) \<or> rd_ring greedy_layout (g_ftl_read_buf_id (gfl s)) + BYTES_PER_PAGE \<le> a \<longrightarrow> gdram s' a = gdram s a)"
    by (fastforce simp: gr_read_inv_def)
qed

lemma gr_write_result:
  assumes "flash_ok greedy_layout hw" and "gr_inv s" and "gr_clean s \<or> vpn_of s 0 = 0 \<and> SECTORS_PER_PAGE \<le> lba" and "lba + n \<le> NUM_LSECTORS"
    and "g_ftl_write_buf_id (gfl s) < GR_NUM_WR_BUFFERS" and "host_delivers greedy_layout hw (g_ftl_write_buf_id (gfl s)) (lba mod SECTORS_PER_PAGE) n data"
  shows "\<exists>s'. gr_ftl_write hw lba n s = Some s' \<and> gr_inv s' \<and> (gr_clean s' \<or> vpn_of s' 0 = 0) \<and> gr_frame s s'
    \<and> g_ftl_write_buf_id (gfl s') = (g_ftl_write_buf_id (gfl s) + span (lba mod SECTORS_PER_PAGE) n) mod GR_NUM_WR_BUFFERS
    \<and> (\<forall>i < NUM_LSECTORS. \<forall>x < 512. if lba \<le> i \<and> i < lba + n then sector (gword s') i x = Some (data ((i - lba) * 512 + x))
         else sector (gword s) i x \<noteq> None \<longrightarrow> sector (gword s') i x = sector (gword s) i x)"
proof -
  have "lba div SECTORS_PER_PAGE \<noteq> 0" if "SECTORS_PER_PAGE \<le> lba" using that by (simp add: div_eq_0_iff geom)
  then have "gr_write_inv hw (span (lba mod SECTORS_PER_PAGE) n) (lba div SECTORS_PER_PAGE) s" using assms(1-3) by (auto simp: gr_write_inv_def)
  from gr_writes.write_sectors [OF this assms(4) _ assms(6)] assms(5) show ?thesis
    by (auto simp: gr_ftl_write_def gr_write_inv_def)
qed

lemma gr_read_result:
  assumes "flash_ok greedy_layout hw" and "gr_inv s" and "lba + n \<le> NUM_LSECTORS" and "g_ftl_read_buf_id (gfl s) < GR_NUM_RD_BUFFERS"
    and "span (lba mod SECTORS_PER_PAGE) n \<le> GR_NUM_RD_BUFFERS"
  shows "\<exists>s'. gr_ftl_read hw lba n s = Some s' \<and> gr_kept s s'
    \<and> (\<forall>k < n. \<forall>x < 512. gdram s' (rd_ring greedy_layout (g_ftl_read_buf_id (gfl s) + (lba mod SECTORS_PER_PAGE + k) div SECTORS_PER_PAGE)
         + (lba + k) mod SECTORS_PER_PAGE * 512 + x) = seen (sector (gword s) (lba + k) x))
    \<and> read_frame greedy_layout (g_ftl_read_buf_id (gfl s)) (span (lba mod SECTORS_PER_PAGE) n) (gdram s) (gdram s')
    \<and> g_ftl_read_buf_id (gfl s') = (g_ftl_read_buf_id (gfl s) + span (lba mod SECTORS_PER_PAGE) n) mod GR_NUM_RD_BUFFERS"
proof -
  have "gr_read_inv hw s s" using assms(1,2) by (simp add: gr_read_inv_def gr_kept_def same_meta_def)
  from gr_reads.read_sectors [OF this assms(3)] assms(4,5) show ?thesis by (auto simp: gr_ftl_read_def gr_read_inv_def)
qed

subsection \<open>A full device, for the witnesses\<close>

text \<open>Block 33 of every bank is open and full, and no fresh block is left: the next write of every bank collects.\<close>

lemma demo_gr_inv: "gr_inv (gr_demo 34 2 0 (\<lambda>b. b))" "gr_clean (gr_demo 34 2 0 (\<lambda>b. b))"
proof -
  let ?s = "gr_demo 34 2 0 (\<lambda>b. b)"
  have D: "{33..<VBLKS_PER_BANK} = insert 33 ({34..<VBLKS_PER_BANK} \<union> {})" by (auto simp: geom)
  have "bank_ok ?s b (cur_write_vpn (g_misc_meta ?s b) mod PAGES_PER_VBLK + 1)" if b: "b < NUM_BANKS" for b
  proof -
    have c: "cur_write_vpn (g_misc_meta ?s b) div PAGES_PER_VBLK = 33" "cur_write_vpn (g_misc_meta ?s b) mod PAGES_PER_VBLK + 1 = 127" by (simp_all add: geom)
    have bl: "blocks_ok ?s b {34..<VBLKS_PER_BANK} 33 127" by (rule gr_demo_blocks [OF _ b]) (simp_all add: geom)
    have so: "spare_ok ?s b {33..<VBLKS_PER_BANK}" by (rule demo_spare [OF b]) simp
    show ?thesis unfolding c(2) by (rule bank_okI [OF c(1) bl demo_counts [OF _ b] so D]) simp_all
  qed
  then show "gr_inv ?s" using demo_map_ok [of 0] by (simp add: gr_inv_def geom)
  have "listed ?s b v 0 \<noteq> 0" if b: "b < NUM_BANKS" "b \<noteq> 0" and v: "v < VBLKS_PER_BANK" "vcnt ?s b v \<noteq> VC_MAX" for b v
  proof (cases "34 \<le> v")
    case True
    then show ?thesis using demo_listed [OF b(1) True, of "\<lambda>b. b"] b by (simp add: geom)
  next
    case False
    then have "gblank ?s b (v * PAGES_PER_VBLK + 127)" by (intro demo_blank [of v]) (simp_all add: geom)
    then have "gpage ?s b (v * PAGES_PER_VBLK + 127) 0 = 0xFFFFFFFF" by (simp add: gblank_def blank_def gpage_def geom)
    then show ?thesis by (simp add: listed_def)
  qed
  then show "gr_clean ?s" by (simp add: gr_clean_def lists_own_def)
qed

lemma demo_bufs: "g_ftl_write_buf_id (gfl (gr_demo f n z e)) = 0" "g_ftl_read_buf_id (gfl (gr_demo f n z e)) = 0"
  by (simp_all add: gr_demo_def fstate0_def)

subsection \<open>Properties of the greedy layer\<close>

text \<open>
  C13. \<open>ftl_write\<close> of the greedy layer stores what the host delivers, and never runs out of pages: from a state of the
  invariant it returns in one, with as many collections as it takes; sector \<open>lba + k\<close> then holds the \<open>k\<close>th sector of the data,
  every other sector that had a content keeps it, and the write buffer pointer has moved one place for every page. The lists
  of no bank may start with logical page 0 of another (\<open>gr_clean\<close>), or page 0 is not in use yet and not written.
\<close>

theorem gr_ftl_write_stores:
  assumes "flash_ok greedy_layout hw" and "gr_inv s" and "gr_clean s \<or> vpn_of s 0 = 0 \<and> SECTORS_PER_PAGE \<le> lba" and "lba + n \<le> NUM_LSECTORS"
    and "g_ftl_write_buf_id (gfl s) < GR_NUM_WR_BUFFERS" and "host_delivers greedy_layout hw (g_ftl_write_buf_id (gfl s)) (lba mod SECTORS_PER_PAGE) n data"
  shows "\<exists>s'. gr_ftl_write hw lba n s = Some s' \<and> gr_inv s' \<and> (gr_clean s' \<or> vpn_of s' 0 = 0) \<and> gr_frame s s'
    \<and> g_ftl_write_buf_id (gfl s') = (g_ftl_write_buf_id (gfl s) + span (lba mod SECTORS_PER_PAGE) n) mod GR_NUM_WR_BUFFERS
    \<and> (\<forall>i < NUM_LSECTORS. \<forall>x < 512. if lba \<le> i \<and> i < lba + n then sector (gword s') i x = Some (data ((i - lba) * 512 + x))
         else sector (gword s) i x \<noteq> None \<longrightarrow> sector (gword s') i x = sector (gword s) i x)"
  by (rule gr_write_result [OF assms])

theorem gr_ftl_write_stores_witness:
  "\<exists>s'. gr_ftl_write (hw_host greedy_layout 36 200 of_nat) 100 200 (gr_demo 34 2 0 (\<lambda>b. b)) = Some s' \<and> gr_inv s' \<and> sector (gword s') 101 4 = Some 516"
proof -
  let ?s = "gr_demo 34 2 0 (\<lambda>b. b)" and ?hw = "hw_host greedy_layout 36 200 of_nat"
  have m: "100 mod SECTORS_PER_PAGE = 36" and N: "100 + 200 \<le> NUM_LSECTORS" "0 < GR_NUM_WR_BUFFERS" by (simp_all add: geom)
  have d: "host_delivers greedy_layout ?hw 0 36 200 of_nat" by (rule hw_host_delivers) (simp_all add: pages_of_def geom)
  obtain s' where s': "gr_ftl_write ?hw 100 200 ?s = Some s'" "gr_inv s'"
    "\<forall>i < NUM_LSECTORS. \<forall>x < 512. if 100 \<le> i \<and> i < 100 + 200 then sector (gword s') i x = Some (of_nat ((i - 100) * 512 + x))
       else sector (gword ?s) i x \<noteq> None \<longrightarrow> sector (gword s') i x = sector (gword ?s) i x"
    using gr_ftl_write_stores [OF hw_host_ok demo_gr_inv(1) disjI1 [OF demo_gr_inv(2)] N(1), where data = of_nat, unfolded demo_bufs m, OF N(2) d] by blast
  have "101 < NUM_LSECTORS" "(4::nat) < 512" by (simp_all add: geom)
  with s'(3) [rule_format, of 101 4] have "sector (gword s') 101 4 = Some (of_nat ((101 - 100) * 512 + 4))" by (simp del: of_nat_add of_nat_mult)
  with s'(1,2) show ?thesis by (intro exI [of _ s']) simp
qed

text \<open>
  C14. \<open>ftl_read\<close> of the greedy layer delivers what the layer holds: page \<open>j\<close> of the request goes to the read buffer \<open>j\<close> places
  after the current one, all ones for a page that was never written; map, counts, lists, flash and all other read buffers stay
  as they are, and the read buffer pointer has moved one place for every page.
\<close>

theorem gr_ftl_read_delivers:
  assumes "flash_ok greedy_layout hw" and "gr_inv s" and "lba + n \<le> NUM_LSECTORS" and "g_ftl_read_buf_id (gfl s) < GR_NUM_RD_BUFFERS"
    and "span (lba mod SECTORS_PER_PAGE) n \<le> GR_NUM_RD_BUFFERS"
  shows "\<exists>s'. gr_ftl_read hw lba n s = Some s' \<and> gr_inv s' \<and> gr_kept s s'
    \<and> (\<forall>k < n. \<forall>x < 512. gdram s' (rd_ring greedy_layout (g_ftl_read_buf_id (gfl s) + (lba mod SECTORS_PER_PAGE + k) div SECTORS_PER_PAGE)
         + (lba + k) mod SECTORS_PER_PAGE * 512 + x) = seen (sector (gword s) (lba + k) x))
    \<and> read_frame greedy_layout (g_ftl_read_buf_id (gfl s)) (span (lba mod SECTORS_PER_PAGE) n) (gdram s) (gdram s')
    \<and> g_ftl_read_buf_id (gfl s') = (g_ftl_read_buf_id (gfl s) + span (lba mod SECTORS_PER_PAGE) n) mod GR_NUM_RD_BUFFERS"
  using gr_read_result [OF assms] kept_inv(2) [OF _ assms(2)] by blast

theorem gr_ftl_read_delivers_witness:
  "\<exists>s'. gr_ftl_read hw_ref 100 200 (gr_demo 34 2 0 (\<lambda>b. b)) = Some s' \<and> gdram s' (GR_RD_BUF_ADDR + 37 * 512 + 4) = 0xFFFFFFFF"
proof -
  let ?s = "gr_demo 34 2 0 (\<lambda>b. b)"
  have m: "100 mod SECTORS_PER_PAGE = 36" and N: "100 + 200 \<le> NUM_LSECTORS" "0 < GR_NUM_RD_BUFFERS" "span 36 200 \<le> GR_NUM_RD_BUFFERS"
    by (simp_all add: span_def pages_of_def geom)
  obtain s' where s': "gr_ftl_read hw_ref 100 200 ?s = Some s'"
    "\<forall>k < 200. \<forall>x < 512. gdram s' (rd_ring greedy_layout (0 + (36 + k) div SECTORS_PER_PAGE) + (100 + k) mod SECTORS_PER_PAGE * 512 + x) = seen (sector (gword ?s) (100 + k) x)"
    using gr_ftl_read_delivers [OF hw_ref_ok demo_gr_inv(1) N(1), unfolded demo_bufs m, OF N(2,3)] by blast
  have "101 div SECTORS_PER_PAGE < NUM_LPAGES" by (simp add: geom)
  then have "sector (gword ?s) 101 4 = None" by (simp add: sector_def gword_def demo_vpn)
  with s'(2) [rule_format, of 1 4] have "gdram s' (rd_ring greedy_layout 0 + 37 * 512 + 4) = 0xFFFFFFFF" by (simp add: geom seen_def)
  with s'(1) show ?thesis by (intro exI [of _ s']) (simp add: rd_ring_def RD_BUF_PTR_def)
qed

text \<open>
  C15. What the host writes it reads back: after \<open>ftl_write\<close> of \<open>n\<close> sectors the same request to \<open>ftl_read\<close> succeeds and puts
  the sectors of the data, in order, into the read buffers from the current one on.
\<close>

theorem gr_store_roundtrip:
  assumes "flash_ok greedy_layout hw" and "gr_inv s" and "gr_clean s \<or> vpn_of s 0 = 0 \<and> SECTORS_PER_PAGE \<le> lba" and "lba + n \<le> NUM_LSECTORS"
    and "g_ftl_write_buf_id (gfl s) < GR_NUM_WR_BUFFERS" and "host_delivers greedy_layout hw (g_ftl_write_buf_id (gfl s)) (lba mod SECTORS_PER_PAGE) n data"
    and "g_ftl_read_buf_id (gfl s) < GR_NUM_RD_BUFFERS" and "span (lba mod SECTORS_PER_PAGE) n \<le> GR_NUM_RD_BUFFERS"
  shows "\<exists>t. gr_ftl_write hw lba n s \<bind> gr_ftl_read hw lba n = Some t
    \<and> (\<forall>k < n. \<forall>x < 512. gdram t (rd_ring greedy_layout (g_ftl_read_buf_id (gfl s) + (lba mod SECTORS_PER_PAGE + k) div SECTORS_PER_PAGE)
         + (lba + k) mod SECTORS_PER_PAGE * 512 + x) = data (k * 512 + x))"
proof -
  from gr_write_result [OF assms(1-6)] obtain s' where s': "gr_ftl_write hw lba n s = Some s'" "gr_inv s'" "gr_frame s s'"
    "\<forall>i < NUM_LSECTORS. \<forall>x < 512. if lba \<le> i \<and> i < lba + n then sector (gword s') i x = Some (data ((i - lba) * 512 + x))
         else sector (gword s) i x \<noteq> None \<longrightarrow> sector (gword s') i x = sector (gword s) i x" by blast
  have r: "g_ftl_read_buf_id (gfl s') = g_ftl_read_buf_id (gfl s)" using s'(3) by (simp add: gr_frame_def)
  from gr_read_result [OF assms(1) s'(2) assms(4), unfolded r, OF assms(7,8)] obtain t where t: "gr_ftl_read hw lba n s' = Some t"
    "\<forall>k < n. \<forall>x < 512. gdram t (rd_ring greedy_layout (g_ftl_read_buf_id (gfl s) + (lba mod SECTORS_PER_PAGE + k) div SECTORS_PER_PAGE)
         + (lba + k) mod SECTORS_PER_PAGE * 512 + x) = seen (sector (gword s') (lba + k) x)" by blast
  have "seen (sector (gword s') (lba + k) x) = data (k * 512 + x)" if "k < n" "x < 512" for k x
    using s'(4) [rule_format, of "lba + k" x] that assms(4) by (simp add: seen_def)
  then show ?thesis using s'(1) t by simp
qed

theorem gr_store_roundtrip_witness:
  "\<exists>t. gr_ftl_write (hw_host greedy_layout 36 200 of_nat) 100 200 (gr_demo 34 2 0 (\<lambda>b. b)) \<bind> gr_ftl_read (hw_host greedy_layout 36 200 of_nat) 100 200 = Some t
    \<and> gdram t (GR_RD_BUF_ADDR + 37 * 512 + 4) = 516"
proof -
  let ?s = "gr_demo 34 2 0 (\<lambda>b. b)" and ?hw = "hw_host greedy_layout 36 200 of_nat"
  have m: "100 mod SECTORS_PER_PAGE = 36" and N: "100 + 200 \<le> NUM_LSECTORS" "0 < GR_NUM_WR_BUFFERS" "0 < GR_NUM_RD_BUFFERS" "span 36 200 \<le> GR_NUM_RD_BUFFERS"
    by (simp_all add: span_def pages_of_def geom)
  have d: "host_delivers greedy_layout ?hw 0 36 200 of_nat" by (rule hw_host_delivers) (simp_all add: pages_of_def geom)
  obtain t where t: "gr_ftl_write ?hw 100 200 ?s \<bind> gr_ftl_read ?hw 100 200 = Some t"
    "\<forall>k < 200. \<forall>x < 512. gdram t (rd_ring greedy_layout (0 + (36 + k) div SECTORS_PER_PAGE) + (100 + k) mod SECTORS_PER_PAGE * 512 + x) = of_nat (k * 512 + x)"
    using gr_store_roundtrip [OF hw_host_ok demo_gr_inv(1) disjI1 [OF demo_gr_inv(2)] N(1), where data = of_nat, unfolded demo_bufs m, OF N(2) d N(3,4)] by blast
  have "gdram t (rd_ring greedy_layout 0 + 37 * 512 + 4) = 516" using t(2) [rule_format, of 1 4] by (simp add: geom)
  with t(1) show ?thesis by (intro exI [of _ t]) (simp add: rd_ring_def RD_BUF_PTR_def)
qed

text \<open>
  The map is well-formed: every entry is 0 or a page of a good block with data, never of the last page of a block (that is the list)
  and never of the block kept for the collection; and no two logical pages of a bank share a flash page.
\<close>

definition map_wf :: "gstate \<Rightarrow> bool" where
  "map_wf s \<longleftrightarrow> (\<forall>l < NUM_LPAGES. vpn_of s l \<noteq> 0 \<longrightarrow> (let b = l mod NUM_BANKS; v = vpn_of s l div PAGES_PER_VBLK in
       META_BLKS_PER_BANK \<le> v \<and> v < VBLKS_PER_BANK \<and> \<not> gbad s b v \<and> v \<noteq> gc_vblock (g_misc_meta s b) \<and> vpn_of s l mod PAGES_PER_VBLK < PAGES_PER_VBLK - 1))
     \<and> (\<forall>l < NUM_LPAGES. \<forall>l' < NUM_LPAGES. l mod NUM_BANKS = l' mod NUM_BANKS \<and> vpn_of s l = vpn_of s l' \<and> vpn_of s l \<noteq> 0 \<longrightarrow> l = l')"

lemma gr_inv_wf:
  assumes "gr_inv s"
  shows "map_wf s"
proof -
  have P: "PAGES_PER_VBLK - 1 = 127" by (simp add: geom)
  have B: "\<exists>F D cb u. blocks_ok s b F cb u \<and> counts_ok s b D \<and> spare_ok s b D \<and> insert cb F \<subseteq> D" if "b < NUM_BANKS" for b
  proof -
    have "bank_ok s b (cur_write_vpn (g_misc_meta s b) mod PAGES_PER_VBLK + 1)" using assms that by (simp add: gr_inv_def)
    then show ?thesis by (rule bank_okE) (meson Un_upper1 insert_mono)
  qed
  have nb: "l mod NUM_BANKS < NUM_BANKS" for l by (simp add: geom)
  have "META_BLKS_PER_BANK \<le> vpn_of s l div PAGES_PER_VBLK \<and> vpn_of s l div PAGES_PER_VBLK < VBLKS_PER_BANK \<and> \<not> gbad s (l mod NUM_BANKS) (vpn_of s l div PAGES_PER_VBLK)
      \<and> vpn_of s l div PAGES_PER_VBLK \<noteq> gc_vblock (g_misc_meta s (l mod NUM_BANKS)) \<and> vpn_of s l mod PAGES_PER_VBLK < PAGES_PER_VBLK - 1"
    if l: "l < NUM_LPAGES" "vpn_of s l \<noteq> 0" for l
  proof -
    from B [OF nb, of l] obtain F D cb u where B: "blocks_ok s (l mod NUM_BANKS) F cb u" "counts_ok s (l mod NUM_BANKS) D"
      "spare_ok s (l mod NUM_BANKS) D" "insert cb F \<subseteq> D" by blast
    note S = gc_blocks_okD [OF B(1)]
    have h: "home s (l mod NUM_BANKS) F cb u l" by (rule S(6) [OF l(1) refl l(2)])
    then have v: "vpn_of s l div PAGES_PER_VBLK \<in> insert cb F" "vpn_of s l mod PAGES_PER_VBLK < 127" using S(5) by (auto simp: home_def Let_def)
    have vD: "vpn_of s l div PAGES_PER_VBLK \<in> D" by (rule subsetD [OF B(4) v(1)])
    then have "vpn_of s l div PAGES_PER_VBLK \<noteq> gc_vblock (g_misc_meta s (l mod NUM_BANKS))" using B(3) by (auto simp: spare_ok_def Let_def)
    moreover have "\<not> gbad s (l mod NUM_BANKS) (vpn_of s l div PAGES_PER_VBLK)" by (rule counts_okD(2) [OF B(2) vD])
    moreover have "META_BLKS_PER_BANK \<le> vpn_of s l div PAGES_PER_VBLK \<and> vpn_of s l div PAGES_PER_VBLK < VBLKS_PER_BANK" using v(1) S(1-3) by auto
    ultimately show ?thesis using v(2) P by simp
  qed
  moreover have "l = l'" if l: "l < NUM_LPAGES" "l' < NUM_LPAGES" "l mod NUM_BANKS = l' mod NUM_BANKS" "vpn_of s l = vpn_of s l'" "vpn_of s l \<noteq> 0" for l l'
  proof -
    from B [OF nb, of l] obtain F cb u where B: "blocks_ok s (l mod NUM_BANKS) F cb u" by blast
    note S = gc_blocks_okD [OF B]
    have "home s (l mod NUM_BANKS) F cb u l" "home s (l mod NUM_BANKS) F cb u l'" using S(6) [of l] S(6) [of l'] l by simp_all
    then have "vpn_of s l div PAGES_PER_VBLK \<in> F \<and> listed s (l mod NUM_BANKS) (vpn_of s l div PAGES_PER_VBLK) (vpn_of s l mod PAGES_PER_VBLK) = l
        \<or> vpn_of s l div PAGES_PER_VBLK = cb \<and> lpns s (l mod NUM_BANKS) (vpn_of s l mod PAGES_PER_VBLK) = l"
      "vpn_of s l div PAGES_PER_VBLK \<in> F \<and> listed s (l mod NUM_BANKS) (vpn_of s l div PAGES_PER_VBLK) (vpn_of s l mod PAGES_PER_VBLK) = l'
        \<or> vpn_of s l div PAGES_PER_VBLK = cb \<and> lpns s (l mod NUM_BANKS) (vpn_of s l mod PAGES_PER_VBLK) = l'"
      unfolding home_def Let_def l(4) [symmetric] by blast+
    then show ?thesis using S(4) by metis
  qed
  ultimately show ?thesis unfolding map_wf_def Let_def by blast
qed



end
