(* ===== verification/Greedy_Open.thy ===== *)
theory Greedy_Open
  imports Greedy_Store
begin

text \<open>
  Starting the greedy layer (\<open>ftl_open\<close> of \<open>ftl_greedy/ftl.c\<close>): the bitmap of bad blocks, the format and the first logs of the
  metadata establish the invariant of \<open>Greedy_Store\<close>.
\<close>

subsection \<open>The format mark\<close>

text \<open>
  The scan list is read and the format mark is programmed with one plane (\<open>FO_E\<close> without \<open>FO_P\<close>). What \<open>flash_ok\<close> says of
  programs is for two planes; \<open>mark_law\<close> is the same for the command of the mark.
\<close>

definition mark_law :: "flash_hw \<Rightarrow> bool" where
  "mark_law hw \<longleftrightarrow> (\<forall>f n d n' d'. hw f (n, d) = (n', d') \<and> fcp_cmd f = FC_COL_ROW_IN_PROG \<and> fcp_option f = FO_E + FO_B_W_DRDY
     \<and> fcp_row_h f (fcp_bank f) = fcp_row_l f (fcp_bank f) \<and> blank n (fcp_bank f) (fcp_row_l f (fcp_bank f))
     \<longrightarrow> only_page (fcp_bank f) (fcp_row_l f (fcp_bank f)) n n' \<and> d' = d)"

lemma hw_ref_mark: "mark_law hw_ref"
  by (auto simp: mark_law_def hw_ref_def Let_def fc_codes only_page_def set_page_def)


lemma plane_program:
  assumes "mark_law hw" and "blank (nand f) (REAL_BANK b) r"
  shows "only_page (REAL_BANK b) r (nand f) (nand (plane_cmd hw FC_COL_ROW_IN_PROG (FO_E + FO_B_W_DRDY) a n b r f))"
    "dram (plane_cmd hw FC_COL_ROW_IN_PROG (FO_E + FO_B_W_DRDY) a n b r f) = dram f"
proof -
  define c where "c = (fcp (setup_fcp FC_COL_ROW_IN_PROG (FO_E + FO_B_W_DRDY) a n 0 b r f))\<lparr>fcp_bank := REAL_BANK b\<rparr>"
  have c: "fcp_cmd c = FC_COL_ROW_IN_PROG" "fcp_option c = FO_E + FO_B_W_DRDY" "fcp_bank c = REAL_BANK b" "fcp_row_h c (fcp_bank c) = r" "fcp_row_l c (fcp_bank c) = r"
    by (simp_all add: c_def setup_fcp_def set_fcp_def)
  have st: "nand (plane_cmd hw FC_COL_ROW_IN_PROG (FO_E + FO_B_W_DRDY) a n b r f) = fst (hw c (nand f, dram f))"
    "dram (plane_cmd hw FC_COL_ROW_IN_PROG (FO_E + FO_B_W_DRDY) a n b r f) = snd (hw c (nand f, dram f))"
    by (simp_all add: plane_cmd_def fcp_issue_def c_def set_fcp_def log_def split_beta)
  have "only_page (REAL_BANK b) r (nand f) (fst (hw c (nand f, dram f))) \<and> snd (hw c (nand f, dram f)) = dram f"
    using assms(1) [unfolded mark_law_def, rule_format, of c "nand f" "dram f" "fst (hw c (nand f, dram f))" "snd (hw c (nand f, dram f))"] c assms(2) by simp
  then show "only_page (REAL_BANK b) r (nand f) (nand (plane_cmd hw FC_COL_ROW_IN_PROG (FO_E + FO_B_W_DRDY) a n b r f))"
    "dram (plane_cmd hw FC_COL_ROW_IN_PROG (FO_E + FO_B_W_DRDY) a n b r f) = dram f" by (simp_all add: st)
qed

subsection \<open>The bitmap of bad blocks\<close>

lemma on_gfl_fields [simp]:
  "g_misc_meta (on_gfl f s) = g_misc_meta s" "g_bad_blk_count (on_gfl f s) = g_bad_blk_count s" "gfl (on_gfl f s) = f (gfl s)" "gdram (on_gfl f s) = dram (f (gfl s))"
  by (simp_all add: on_gfl_def gdram_def)

lemma temp_buf: "buf_ok GR_TEMP_BUF_ADDR" "SCAN_LIST_SIZE \<le> BYTES_PER_PAGE" "GR_TEMP_BUF_ADDR + BYTES_PER_PAGE = BAD_BLK_BMP_ADDR" "GR_TEMP_BUF_ADDR mod 4 = 0"
    "2 * SCAN_LIST_ITEMS + 2 \<le> SCAN_LIST_SIZE"
  by (simp_all add: buf_ok_def geom)

lemma temp_entry:
  assumes "i < SCAN_LIST_ITEMS"
  shows "dram_addr (GR_TEMP_BUF_ADDR + 2 + 2 * i)" "aligned_addr (GR_TEMP_BUF_ADDR + 2 + 2 * i) < BAD_BLK_BMP_ADDR"
proof -
  have l: "GR_TEMP_BUF_ADDR + 2 + 2 * i < BAD_BLK_BMP_ADDR" using assms by (simp add: geom)
  then show "dram_addr (GR_TEMP_BUF_ADDR + 2 + 2 * i)" by (simp add: dram_addr_def geom)
  have "aligned_addr (GR_TEMP_BUF_ADDR + 2 + 2 * i) \<le> GR_TEMP_BUF_ADDR + 2 + 2 * i" by (simp add: aligned_addr_def)
  then show "aligned_addr (GR_TEMP_BUF_ADDR + 2 + 2 * i) < BAD_BLK_BMP_ADDR" using l by linarith
qed

lemma temp_head: "dram_addr GR_TEMP_BUF_ADDR" "aligned_addr GR_TEMP_BUF_ADDR < BAD_BLK_BMP_ADDR"
  by (simp_all add: dram_addr_def aligned_addr_def geom)

definition bits_kept :: "dram \<Rightarrow> dram \<Rightarrow> bool" where
  "bits_kept d d' \<longleftrightarrow> (\<forall>a. BAD_BLK_BMP_ADDR \<le> a \<and> a < GR_PAGE_MAP_ADDR \<longrightarrow> d' a = d a)"

lemma bits_kept_gbad:
  assumes "bits_kept (gdram s) (gdram t)" and "b < NUM_BANKS" and "v < VBLKS_PER_BANK"
  shows "gbad t b v = gbad s b v"
  using bad_bit_addr(2,3) [OF assms(2,3)] assms(1) by (simp add: bits_kept_def gbad_def dram_bit_def)

lemma st16_bits_kept: "aligned_addr a < BAD_BLK_BMP_ADDR \<Longrightarrow> bits_kept d d' \<Longrightarrow> bits_kept d (st16 a v d')"
  by (auto simp: bits_kept_def st16_def)

lemma gr_scan_entries_result:
  "\<forall>i \<in> set xs. i < SCAN_LIST_ITEMS \<Longrightarrow> bits_kept d0 d \<Longrightarrow> \<exists>ok' d'. gr_scan_entries xs (ok, d) = Some (ok', d') \<and> bits_kept d0 d'"
proof (induction xs arbitrary: ok d)
  case (Cons i xs)
  have i: "i < SCAN_LIST_ITEMS" "\<forall>i \<in> set xs. i < SCAN_LIST_ITEMS" using Cons.prems(1) by simp_all
  have k: "bits_kept d0 (st16 (GR_TEMP_BUF_ADDR + 2 + 2 * i) v d)" for v by (rule st16_bits_kept [OF temp_entry(2) [OF i(1)] Cons.prems(2)])
  show ?case using temp_entry(1) [OF i(1)] Cons.IH [OF i(2) Cons.prems(2), of False] Cons.IH [OF i(2) k, of ok] by (simp add: rd16_def wr16_def Let_def)
qed simp

lemma check_scan_list_result:
  "\<exists>n t. check_scan_list bsp b s = Some (n, t) \<and> n \<le> SCAN_LIST_ITEMS \<and> bits_kept (gdram s) (gdram t) \<and> (\<exists>d. t = set_gdram d s)"
proof -
  let ?A = "if bsp (gfl s) b AND FIRQ_DATA_CORRUPT \<noteq> 0 then Some (False, 0, gdram s)
        else do {
          num_entries \<leftarrow> rd16 GR_TEMP_BUF_ADDR (gdram s);
          if SCAN_LIST_ITEMS < num_entries then Some (False, num_entries, gdram s)
          else do {
            (ok, d) \<leftarrow> gr_scan_entries [0..<num_entries] (True, gdram s);
            Some (ok, num_entries, d) } }"
  have k0: "bits_kept (gdram s) (gdram s)" by (simp add: bits_kept_def)
  have "\<exists>ok n d. ?A = Some (ok, n, d) \<and> (ok \<longrightarrow> n \<le> SCAN_LIST_ITEMS) \<and> bits_kept (gdram s) d"
  proof (cases "bsp (gfl s) b AND FIRQ_DATA_CORRUPT \<noteq> 0 \<or> SCAN_LIST_ITEMS < unat (ld16 GR_TEMP_BUF_ADDR (gdram s))")
    case True
    then show ?thesis using k0 temp_head(1) by (auto simp: rd16_def)
  next
    case False
    then have "\<forall>i \<in> set [0..<unat (ld16 GR_TEMP_BUF_ADDR (gdram s))]. i < SCAN_LIST_ITEMS" by auto
    from gr_scan_entries_result [OF this k0, of True] False show ?thesis using temp_head(1) by (auto simp: rd16_def)
  qed
  then obtain ok n d where a: "?A = Some (ok, n, d)" "ok \<longrightarrow> n \<le> SCAN_LIST_ITEMS" "bits_kept (gdram s) d" by blast
  show ?thesis
  proof (cases ok)
    case False
    then show ?thesis using a unfolding check_scan_list_def by (intro exI [of _ 0] exI [of _ "set_gdram d s"]) auto
  next
    case True
    define d' where "d' = st16 GR_TEMP_BUF_ADDR 0 d"
    have "bits_kept (gdram s) d'" unfolding d'_def by (rule st16_bits_kept [OF temp_head(2) a(3)])
    moreover have "check_scan_list bsp b s = Some (n, set_gdram d' s)" using True a(1) temp_head(1) unfolding check_scan_list_def by (simp add: wr16_def d'_def)
    ultimately show ?thesis using True a(2) by (intro exI [of _ n] exI [of _ "set_gdram d' s"]) auto
  qed
qed

text \<open>The bits of different blocks are different bits.\<close>

lemma bmp_inj:
  assumes "v < VBLKS_PER_BANK" and "w < VBLKS_PER_BANK"
  shows "bad_blk_bmp c * 8 + w = bad_blk_bmp b * 8 + v \<longleftrightarrow> c = b \<and> w = v"
proof
  assume "bad_blk_bmp c * 8 + w = bad_blk_bmp b * 8 + v"
  then have e: "2080 * c + w = 2080 * b + v" by (simp add: bad_blk_bmp_def geom)
  have l: "w < 2080" "v < 2080" using assms by (simp_all add: geom)
  from e have "(2080 * c + w) div 2080 = (2080 * b + v) div 2080" by (rule arg_cong)
  then have "c = b" using l by simp
  with e show "c = b \<and> w = v" by simp
qed simp

lemma mark_bad_block_result:
  assumes b: "b < NUM_BANKS" and v: "v < VBLKS_PER_BANK" and n: "n \<le> SCAN_LIST_ITEMS"
  shows "\<exists>t bad. mark_bad_block n b v s = Some t \<and> gpage t = gpage s \<and> g_misc_meta t = g_misc_meta s
    \<and> (\<forall>c < NUM_BANKS. \<forall>w < VBLKS_PER_BANK. gbad t c w \<longleftrightarrow> gbad s c w \<or> bad \<and> c = b \<and> w = v)
    \<and> g_bad_blk_count t = (g_bad_blk_count s)(b := if bad then wrap32 (g_bad_blk_count s b + 1) else g_bad_blk_count s b)"
proof -
  have "wrap32 (2 * (n + 1)) \<le> MU_MAX_BYTES" using n by (simp add: geom MU_MAX_BYTES_def wrap_simps)
  then have s: "search_equ 2 GR_TEMP_BUF_ADDR (n + 1) k (gdram s) = Some (first_equ 2 GR_TEMP_BUF_ADDR (n + 1) k (gdram s))" for k
    using temp_buf(4) by (simp add: search_equ_def)
  define bad where "bad \<longleftrightarrow> first_equ 2 GR_TEMP_BUF_ADDR (n + 1) (v * NUM_PLANES) (gdram s) < n + 1 \<or> first_equ 2 GR_TEMP_BUF_ADDR (n + 1) (v * NUM_PLANES + 1) (gdram s) < n + 1"
  obtain d where d: "put_bit (bad_blk_bmp b) v (gdram s) = Some d" using bad_bit_addr(1) [OF b v] by (simp add: put_bit_def Let_def)
  define t where "t = (if bad then set_gdram d (s\<lparr>g_bad_blk_count := (g_bad_blk_count s)(b := wrap32 (g_bad_blk_count s b + 1))\<rparr>) else s)"
  have "mark_bad_block n b v s = Some t"
    unfolding mark_bad_block_def s bind.bind_lunit bad_def [symmetric] by (simp add: d t_def)
  moreover have "gbad t c w \<longleftrightarrow> gbad s c w \<or> bad \<and> c = b \<and> w = v" if "c < NUM_BANKS" "w < VBLKS_PER_BANK" for c w
    using put_bit_bits [OF d, of "bad_blk_bmp c * 8 + w"] bmp_inj [OF v that(2), of c b] by (auto simp: t_def gbad_def)
  moreover have "gpage t = gpage s" "g_misc_meta t = g_misc_meta s" by (simp_all add: t_def gpage_def fun_eq_iff)
  moreover have "g_bad_blk_count t = (g_bad_blk_count s)(b := if bad then wrap32 (g_bad_blk_count s b + 1) else g_bad_blk_count s b)" by (simp add: t_def)
  ultimately show ?thesis by blast
qed

text \<open>After the banks below \<open>b\<close>: their counters are the numbers of their bits, and no bit of another bank is set.\<close>

definition bits_of :: "gstate \<Rightarrow> nat \<Rightarrow> nat set" where
  "bits_of s b = {v. v < VBLKS_PER_BANK \<and> gbad s b v}"

definition counted :: "gstate \<Rightarrow> nat \<Rightarrow> gstate \<Rightarrow> bool" where
  "counted s0 b s \<longleftrightarrow> gpage s = gpage s0 \<and> g_misc_meta s = g_misc_meta s0
     \<and> (\<forall>c < b. \<not> gbad s c 0 \<and> g_bad_blk_count s c = card (bits_of s c)) \<and> (\<forall>c < NUM_BANKS. b \<le> c \<longrightarrow> bits_of s c = {})"

lemma build_bad_blk_bank_result:
  assumes hw: "flash_ok greedy_layout hw" and b: "b < NUM_BANKS" and s: "counted s0 b s"
  shows "\<exists>t. build_bad_blk_bank hw bsp b s = Some t \<and> counted s0 (Suc b) t"
proof -
  define s1 where "s1 = on_gfl (\<lambda>f. log (Wait_Bank (REAL_BANK b)) (log Wait_Room f)) (on_gfl (plane_cmd hw FC_COL_ROW_READ_OUT FO_E GR_TEMP_BUF_ADDR SCAN_LIST_SIZE b SCAN_LIST_PAGE_OFFSET) s)"
  note R = plane_read [OF hw temp_buf(1,2), where opt = FO_E and b = b and r = SCAN_LIST_PAGE_OFFSET and f = "gfl s"]
  have "GR_PAGE_MAP_ADDR < 4294967296" by (simp add: geom)
  then have k1: "bits_kept (gdram s) (gdram s1)" using R(2) temp_buf(3) by (simp add: bits_kept_def s1_def gdram_def)
  have g1: "gpage s1 = gpage s" "g_misc_meta s1 = g_misc_meta s" "g_bad_blk_count s1 = g_bad_blk_count s" using R(1) by (simp_all add: s1_def gpage_def fun_eq_iff)
  from check_scan_list_result obtain n s2 d where s2: "check_scan_list bsp b s1 = Some (n, s2)" "n \<le> SCAN_LIST_ITEMS" "bits_kept (gdram s1) (gdram s2)" "s2 = set_gdram d s1" by blast
  define s3 where "s3 = s2\<lparr>g_bad_blk_count := (g_bad_blk_count s2)(b := 0)\<rparr>"
  have b3: "gbad s3 c v = gbad s c v" if "c < NUM_BANKS" "v < VBLKS_PER_BANK" for c v
    using bits_kept_gbad [OF k1 that] bits_kept_gbad [OF s2(3) that] by (simp add: s3_def gbad_def gdram_def)
  have g3: "gpage s3 = gpage s" "g_misc_meta s3 = g_misc_meta s" "g_bad_blk_count s3 = (g_bad_blk_count s)(b := 0)"
    using g1 by (simp_all add: s3_def s2(4) gpage_def fun_eq_iff)
  let ?I = "\<lambda>v t. gpage t = gpage s \<and> g_misc_meta t = g_misc_meta s \<and> (\<forall>c < NUM_BANKS. c \<noteq> b \<longrightarrow> bits_of t c = bits_of s c)
    \<and> bits_of t b \<subseteq> {1..<v} \<and> g_bad_blk_count t = (g_bad_blk_count s)(b := card (bits_of t b))"
  have e: "bits_of s b = {}" using s b by (simp add: counted_def)
  have i0: "?I 1 s3" using b3 g3 b e by (auto simp: bits_of_def)
  have step: "\<exists>t'. mark_bad_block n b v t = Some t' \<and> ?I (Suc v) t'" if v: "1 \<le> v" "v < VBLKS_PER_BANK" and I: "?I v t" for v t
  proof -
    from mark_bad_block_result [OF b v(2) s2(2), of t] obtain t' bad where t': "mark_bad_block n b v t = Some t'" "gpage t' = gpage t" "g_misc_meta t' = g_misc_meta t"
      "\<forall>c < NUM_BANKS. \<forall>w < VBLKS_PER_BANK. gbad t' c w \<longleftrightarrow> gbad t c w \<or> bad \<and> c = b \<and> w = v"
      "g_bad_blk_count t' = (g_bad_blk_count t)(b := if bad then wrap32 (g_bad_blk_count t b + 1) else g_bad_blk_count t b)" by blast
    have bt: "bits_of t' b = (if bad then insert v (bits_of t b) else bits_of t b)" using t'(4) b v(2) by (auto simp: bits_of_def)
    have nv: "v \<notin> bits_of t b" "finite (bits_of t b)" using I by (auto simp: bits_of_def)
    have "card (bits_of t b) \<le> card {1..<v}" using I by (intro card_mono) auto
    then have "card (bits_of t b) + 1 < 4294967296" using v(2) by (simp add: geom)
    then have "wrap32 (card (bits_of t b) + 1) = card (insert v (bits_of t b))" using nv by (simp add: wrap32_id)
    then have "g_bad_blk_count t' = (g_bad_blk_count s)(b := card (bits_of t' b))" using t'(5) I bt by (auto simp: fun_eq_iff)
    moreover have "\<forall>c < NUM_BANKS. c \<noteq> b \<longrightarrow> bits_of t' c = bits_of s c" using t'(4) I by (auto simp: bits_of_def)
    moreover have "bits_of t' b \<subseteq> {1..<Suc v}" using I bt v(1) by auto
    ultimately show ?thesis using t'(1-3) I by auto
  qed
  have "(1::nat) \<le> VBLKS_PER_BANK" by (simp add: geom)
  from each_upt [where f = "mark_bad_block n b" and I = ?I, OF step i0 this] obtain t where t: "each (mark_bad_block n b) [1..<VBLKS_PER_BANK] s3 = Some t" "?I VBLKS_PER_BANK t" by blast
  have "build_bad_blk_bank hw bsp b s = Some t"
    using s2(1) t(1) unfolding build_bad_blk_bank_def Let_def s1_def plane_cmd_def on_gfl_def by (simp add: s3_def del: upt_rec_numeral)
  moreover have "counted s0 (Suc b) t"
  proof -
    have "0 \<notin> bits_of t b" using t(2) by auto
    then have "\<not> gbad t b 0" by (simp add: bits_of_def geom)
    moreover have "gbad t c 0 = gbad s c 0" "g_bad_blk_count t c = g_bad_blk_count s c" "bits_of t c = bits_of s c" if "c < NUM_BANKS" "c \<noteq> b" for c
    proof -
      show bc: "bits_of t c = bits_of s c" "g_bad_blk_count t c = g_bad_blk_count s c" using t(2) that by simp_all
      have "(0::nat) < VBLKS_PER_BANK" by (simp add: geom)
      then show "gbad t c 0 = gbad s c 0" using bc(1) unfolding bits_of_def by blast
    qed
    ultimately show ?thesis using s t(2) b unfolding counted_def by (auto simp: less_Suc_eq)
  qed
  ultimately show ?thesis by blast
qed

text \<open>The bitmap starts empty.\<close>

definition no_bits :: "gstate \<Rightarrow> gstate" where
  "no_bits s = on_gfl flash_clear_irq (set_gdram (\<lambda>a. if BAD_BLK_BMP_ADDR \<le> a \<and> a < BAD_BLK_BMP_ADDR + BAD_BLK_BMP_BYTES then 0 else gdram s a) s)"

lemma no_bits_fields [simp]: "gpage (no_bits s) = gpage s" "g_misc_meta (no_bits s) = g_misc_meta s"
  by (simp_all add: no_bits_def gpage_def set_gdram_def fun_eq_iff)

lemma no_bits_clear: "b < NUM_BANKS \<Longrightarrow> v < VBLKS_PER_BANK \<Longrightarrow> \<not> gbad (no_bits s) b v"
proof -
  assume bv: "b < NUM_BANKS" "v < VBLKS_PER_BANK"
  have "gdram (no_bits s) ((bad_blk_bmp b * 8 + v) div 32 * 4) = 0" using bad_bit_addr(2,3) [OF bv] by (simp add: no_bits_def set_gdram_def) (simp add: geom)
  then show ?thesis by (simp add: gbad_def dram_bit_def)
qed

lemma build_bad_blk_list_eq: "build_bad_blk_list hw bsp s = each (build_bad_blk_bank hw bsp) [0..<NUM_BANKS] (no_bits s)"
proof -
  have "BAD_BLK_BMP_ADDR mod SDRAM_ECC_UNIT = 0" "BAD_BLK_BMP_BYTES mod SDRAM_ECC_UNIT = 0" "DRAM_BASE \<le> BAD_BLK_BMP_ADDR" by (simp_all add: geom)
  then show ?thesis by (simp add: build_bad_blk_list_def no_bits_def dram_fill_def)
qed

lemma build_bad_blk_list_result:
  assumes hw: "flash_ok greedy_layout hw"
  shows "\<exists>t. build_bad_blk_list hw bsp s = Some t \<and> gpage t = gpage s \<and> g_misc_meta t = g_misc_meta s
    \<and> (\<forall>b < NUM_BANKS. \<not> gbad t b 0 \<and> g_bad_blk_count t b = card (bits_of t b))"
proof -
  have i0: "counted s 0 (no_bits s)" using no_bits_clear by (auto simp: counted_def bits_of_def)
  from each_upt [where f = "build_bad_blk_bank hw bsp" and I = "counted s", OF _ i0 le0, of NUM_BANKS] build_bad_blk_bank_result [OF hw]
  obtain t where t: "each (build_bad_blk_bank hw bsp) [0..<NUM_BANKS] (no_bits s) = Some t" "counted s NUM_BANKS t" by blast
  then show ?thesis by (intro exI [of _ t]) (auto simp: build_bad_blk_list_eq counted_def)
qed

subsection \<open>Erasing the blocks\<close>

definition erased :: "nat \<Rightarrow> nat \<Rightarrow> gstate \<Rightarrow> bool" where
  "erased v b s \<longleftrightarrow> v < VBLKS_PER_BANK \<and> b < NUM_BANKS \<longrightarrow> vcnt s b v = (if gbad s b v then VC_MAX else 0)
     \<and> (\<not> gbad s b v \<longrightarrow> (\<forall>r. r div PAGES_PER_VBLK = v \<longrightarrow> gblank s b r))"

text \<open>What formatting a block leaves: the map, the bits, the metadata in the SRAM and block 0.\<close>

definition format_frame :: "gstate \<Rightarrow> gstate \<Rightarrow> bool" where
  "format_frame s t \<longleftrightarrow> (\<forall>l < NUM_LPAGES. vpn_of t l = vpn_of s l) \<and> (\<forall>c < NUM_BANKS. \<forall>w < VBLKS_PER_BANK. gbad t c w = gbad s c w)
     \<and> g_misc_meta t = g_misc_meta s \<and> g_bad_blk_count t = g_bad_blk_count s \<and> (\<forall>c < NUM_BANKS. \<forall>r < PAGES_PER_VBLK. gpage t c r = gpage s c r)"

lemma format_frame_trans: "format_frame s t \<Longrightarrow> format_frame t x \<Longrightarrow> format_frame s x"
  by (simp add: format_frame_def)

lemma gr_format_block_result:
  assumes hw: "flash_ok greedy_layout hw" and b: "b < NUM_BANKS" and v: "1 \<le> v" "v < VBLKS_PER_BANK"
  shows "\<exists>t. gr_format_block hw v b s = Some t \<and> format_frame s t \<and> erased v b t \<and> (\<forall>w c. erased w c s \<longrightarrow> erased w c t)"
proof -
  define c where "c = (if gbad s b v then VC_MAX else 0)"
  have c16: "c < 65536" by (simp add: c_def VC_MAX_def)
  from gc_erase [OF hw b v(2)] obtain e where e: "flash_do (nand_block_erase hw b v) s = Some e" "quiet s e"
    "\<forall>d < NUM_BANKS. \<forall>r. \<not> (d = b \<and> r div PAGES_PER_VBLK = v) \<longrightarrow> gpage e d r = gpage s d r" "\<forall>r. r div PAGES_PER_VBLK = v \<longrightarrow> gblank e b r"
    by blast
  have ec: "g_bad_blk_count e = g_bad_blk_count s" using e(1) by (auto simp: flash_do_def split: option.splits)
  define x where "x = (if gbad s b v then s else e)"
  have x: "(if \<not> gbad s b v then flash_do (nand_block_erase hw b v) s else Some s) = Some x" "quiet s x" "g_bad_blk_count x = g_bad_blk_count s"
    "\<And>d r. d < NUM_BANKS \<Longrightarrow> \<not> (d = b \<and> r div PAGES_PER_VBLK = v) \<Longrightarrow> gpage x d r = gpage s d r" "\<And>r. \<not> gbad s b v \<Longrightarrow> r div PAGES_PER_VBLK = v \<Longrightarrow> gblank x b r"
    using e ec by (auto simp: x_def)
  define t where "t = put_vcount b v c x"
  have run: "gr_format_block hw v b s = Some t"
    using x(1) gr_is_bad_block_eq [OF b v(2)] vcount_addr_bounds(1) [OF b v(2)]
    by (simp add: gr_format_block_def wr16_def t_def put_vcount_def c_def)
  note Q = quiet_views [OF x(2)] and P = put_vcount_views [OF b v(2) c16, where s = x, folded t_def]
  have bd: "gbad t d w = gbad s d w" and vc: "vcnt t d w = (if d = b \<and> w = v then c else vcnt s d w)" if "d < NUM_BANKS" "w < VBLKS_PER_BANK" for d w
    using Q(2,3) [OF that] P(2,3) [OF that] by simp_all
  have gp: "gpage t = gpage x" "g_bad_blk_count t = g_bad_blk_count x" by (simp_all add: t_def put_vcount_def)
  have "r div PAGES_PER_VBLK \<noteq> v" if "r < PAGES_PER_VBLK" for r using that v(1) by simp
  then have "format_frame s t" using Q(1,4) P(1) bd gp x(3,4) by (simp add: format_frame_def t_def)
  moreover have bl: "gblank t d r = gblank x d r" for d r by (simp add: t_def)
  then have "erased v b t" using bd [OF b v(2)] vc [OF b v(2)] x(5) by (simp add: erased_def c_def)
  moreover have "erased w d t" if "erased w d s" for w d
  proof (cases "d = b \<and> w = v")
    case True
    then show ?thesis using \<open>erased v b t\<close> by simp
  next
    case False
    have "gblank x d r = gblank s d r" if "d < NUM_BANKS" "r div PAGES_PER_VBLK = w" for r by (rule gblank_cong, rule x(4)) (use that False in auto)
    then show ?thesis using that False bd [of d w] vc [of d w] bl by (auto simp: erased_def)
  qed
  ultimately show ?thesis using run by blast
qed

lemma format_rows:
  assumes hw: "flash_ok greedy_layout hw"
  shows "\<exists>t. each (\<lambda>v. each (gr_format_block hw v) [0..<NUM_BANKS]) [MISCBLK_VBN..<VBLKS_PER_BANK] s = Some t \<and> format_frame s t
    \<and> (\<forall>v b. 1 \<le> v \<and> v < VBLKS_PER_BANK \<and> b < NUM_BANKS \<longrightarrow> erased v b t)"
proof -
  let ?I = "format_frame s"
  have i0: "?I s" by (simp add: format_frame_def)
  have row: "\<exists>t'. each (gr_format_block hw v) [0..<NUM_BANKS] t = Some t' \<and> ?I t' \<and> (\<forall>b < NUM_BANKS. erased v b t') \<and> (\<forall>w. (\<forall>b < NUM_BANKS. erased w b t) \<longrightarrow> (\<forall>b < NUM_BANKS. erased w b t'))"
    if v: "v \<in> set [MISCBLK_VBN..<VBLKS_PER_BANK]" and t: "?I t" for v t
  proof -
    have v': "1 \<le> v" "v < VBLKS_PER_BANK" using v by (simp_all add: MISCBLK_VBN_def)
    have st: "\<exists>t'. gr_format_block hw v b x = Some t' \<and> (?I t' \<and> (\<forall>w. (\<forall>b < NUM_BANKS. erased w b t) \<longrightarrow> (\<forall>b < NUM_BANKS. erased w b t'))) \<and> erased v b t' \<and> (\<forall>y. erased v y x \<longrightarrow> erased v y t')"
      if "b \<in> set [0..<NUM_BANKS]" "?I x \<and> (\<forall>w. (\<forall>b < NUM_BANKS. erased w b t) \<longrightarrow> (\<forall>b < NUM_BANKS. erased w b x))" for b x
    proof -
      have "b < NUM_BANKS" using that(1) by simp
      from gr_format_block_result [OF hw this v', of x] that(2) format_frame_trans show ?thesis by blast
    qed
    have i1: "?I t \<and> (\<forall>w. (\<forall>b < NUM_BANKS. erased w b t) \<longrightarrow> (\<forall>b < NUM_BANKS. erased w b t))" using t by simp
    from each_rule [where f = "gr_format_block hw v" and Q = "erased v", OF i1 st] obtain t' where
      "each (gr_format_block hw v) [0..<NUM_BANKS] t = Some t'" "?I t'" "\<forall>w. (\<forall>b < NUM_BANKS. erased w b t) \<longrightarrow> (\<forall>b < NUM_BANKS. erased w b t')" "\<forall>b \<in> set [0..<NUM_BANKS]. erased v b t'" by blast
    then show ?thesis by auto
  qed
  from each_rule [where I = ?I and Q = "\<lambda>v t. \<forall>b < NUM_BANKS. erased v b t", OF i0 row] obtain t where
    "each (\<lambda>v. each (gr_format_block hw v) [0..<NUM_BANKS]) [MISCBLK_VBN..<VBLKS_PER_BANK] s = Some t" "?I t"
    "\<forall>v \<in> set [MISCBLK_VBN..<VBLKS_PER_BANK]. \<forall>b < NUM_BANKS. erased v b t" by metis
  then show ?thesis by (intro exI [of _ t]) (auto simp: MISCBLK_VBN_def)
qed

subsection \<open>Assigning the blocks\<close>

text \<open>The good blocks after block \<open>v\<close>.\<close>

definition rest :: "gstate \<Rightarrow> nat \<Rightarrow> nat \<Rightarrow> nat set" where
  "rest s b v = {w. v < w \<and> w < VBLKS_PER_BANK \<and> \<not> gbad s b w}"

lemma rest_finite [simp]: "finite (rest s b v)"
  by (rule finite_subset [of _ "{..<VBLKS_PER_BANK}"]) (auto simp: rest_def)

lemma rest_bad: "gbad s b (v + 1) \<Longrightarrow> rest s b (v + 1) = rest s b v"
  by (auto simp: rest_def) (metis Suc_lessI)

lemma rest_good:
  assumes "\<not> gbad s b (v + 1)" and "v + 1 < VBLKS_PER_BANK"
  shows "rest s b v = insert (v + 1) (rest s b (v + 1))" "card (rest s b v) = Suc (card (rest s b (v + 1)))"
proof -
  show "rest s b v = insert (v + 1) (rest s b (v + 1))" using assms by (auto simp: rest_def)
  moreover have "v + 1 \<notin> rest s b (v + 1)" by (simp add: rest_def)
  ultimately show "card (rest s b v) = Suc (card (rest s b (v + 1)))" by simp
qed

lemma rest_end: "VBLKS_PER_BANK \<le> v + 1 \<Longrightarrow> rest s b v = {}"
  by (auto simp: rest_def)

lemma rest_cong: "\<forall>w < VBLKS_PER_BANK. gbad t b w = gbad s b w \<Longrightarrow> rest t b v = rest s b v"
  by (auto simp: rest_def)

lemma set_vcount_raw_eq: "b < NUM_BANKS \<Longrightarrow> v < VBLKS_PER_BANK \<Longrightarrow> set_vcount_raw b v c s = Some (put_vcount b v c s)"
  by (simp add: set_vcount_raw_def wr16_def vcount_addr_bounds put_vcount_def)

text \<open>What assigning the blocks of bank \<open>b\<close> leaves.\<close>

definition init_frame :: "nat \<Rightarrow> gstate \<Rightarrow> gstate \<Rightarrow> bool" where
  "init_frame b s t \<longleftrightarrow> (\<forall>l < NUM_LPAGES. vpn_of t l = vpn_of s l) \<and> (\<forall>c < NUM_BANKS. \<forall>w < VBLKS_PER_BANK. gbad t c w = gbad s c w)
     \<and> gpage t = gpage s \<and> g_bad_blk_count t = g_bad_blk_count s \<and> (\<forall>c < NUM_BANKS. c \<noteq> b \<longrightarrow> g_misc_meta t c = g_misc_meta s c)
     \<and> (\<forall>c < NUM_BANKS. \<forall>w < VBLKS_PER_BANK. c \<noteq> b \<longrightarrow> vcnt t c w = vcnt s c w) \<and> lpns t b = lpns s b"

lemma init_frame_refl [simp]: "init_frame b s s"
  by (simp add: init_frame_def)

lemma init_frame_trans: "init_frame b s t \<Longrightarrow> init_frame b t x \<Longrightarrow> init_frame b s x"
  by (simp add: init_frame_def)

lemma init_frame_rest: "init_frame b s t \<Longrightarrow> b < NUM_BANKS \<Longrightarrow> rest t b v = rest s b v"
  by (rule rest_cong) (simp add: init_frame_def)

lemma init_frame_misc: "lpn_list_of_cur_vblock (f (g_misc_meta s b)) = lpns s b \<Longrightarrow> init_frame b s (set_misc b f s)"
  by (simp add: init_frame_def)

lemma put_vcount_count [simp]: "g_bad_blk_count (put_vcount b v c s) = g_bad_blk_count s"
  by (simp add: put_vcount_def)

lemma init_frame_put: "b < NUM_BANKS \<Longrightarrow> v < VBLKS_PER_BANK \<Longrightarrow> c < 65536 \<Longrightarrow> init_frame b s (put_vcount b v c s)"
  by (simp add: init_frame_def put_vcount_views)

lemma VC_MAX_bound: "VC_MAX < 65536"
  by (simp add: VC_MAX_def)

text \<open>The map blocks from number \<open>lbn\<close> on: one after the other, after \<open>v\<close> and up to \<open>v'\<close>.\<close>

definition map_blocks :: "nat set \<Rightarrow> (nat \<Rightarrow> nat) \<Rightarrow> nat \<Rightarrow> nat \<Rightarrow> nat \<Rightarrow> bool" where
  "map_blocks B m lbn v v' \<longleftrightarrow> (\<forall>i. lbn \<le> i \<and> i < MAPBLKS_PER_BANK \<longrightarrow> m i div PAGES_PER_VBLK \<in> B \<and> v < m i div PAGES_PER_VBLK \<and> m i div PAGES_PER_VBLK \<le> v' \<and> m i mod PAGES_PER_VBLK = 0)
     \<and> (\<forall>i j. lbn \<le> i \<and> i < j \<and> j < MAPBLKS_PER_BANK \<longrightarrow> m i div PAGES_PER_VBLK < m j div PAGES_PER_VBLK)"

lemma map_blocks_next:
  assumes "map_blocks B m (lbn + 1) (v + 1) v'" and "m lbn = (v + 1) * PAGES_PER_VBLK" and "v + 1 \<le> v'" and "v + 1 \<in> B"
  shows "map_blocks B m lbn v v'"
proof -
  have d: "m lbn div PAGES_PER_VBLK = v + 1" "m lbn mod PAGES_PER_VBLK = 0" using row_div [of 0 "v + 1"] assms(2) by (simp_all add: geom)
  have "m i div PAGES_PER_VBLK \<in> B \<and> v < m i div PAGES_PER_VBLK \<and> m i div PAGES_PER_VBLK \<le> v' \<and> m i mod PAGES_PER_VBLK = 0" if "lbn \<le> i" "i < MAPBLKS_PER_BANK" for i
  proof (cases "i = lbn")
    case False
    then have "lbn + 1 \<le> i" using that(1) by simp
    then have "m i div PAGES_PER_VBLK \<in> B \<and> v + 1 < m i div PAGES_PER_VBLK \<and> m i div PAGES_PER_VBLK \<le> v' \<and> m i mod PAGES_PER_VBLK = 0"
      using assms(1) that(2) unfolding map_blocks_def by blast
    then show ?thesis by simp
  qed (use assms(3,4) d in simp)
  moreover have "m i div PAGES_PER_VBLK < m j div PAGES_PER_VBLK" if "lbn \<le> i" "i < j" "j < MAPBLKS_PER_BANK" for i j
    using assms(1) d(1) that unfolding map_blocks_def by (cases "i = lbn") (metis Suc_eq_plus1 Suc_leI, simp)
  ultimately show ?thesis by (simp add: map_blocks_def)
qed

lemma assign_map_blocks_result:
  assumes "b < NUM_BANKS" and "MAPBLKS_PER_BANK - lbn \<le> card (rest s b v)" and "lbn \<le> MAPBLKS_PER_BANK"
  shows "\<exists>v' t. assign_map_blocks b lbn v s = Some (v', t) \<and> v + (MAPBLKS_PER_BANK - lbn) \<le> v' \<and> (v < VBLKS_PER_BANK \<longrightarrow> v' < VBLKS_PER_BANK)
    \<and> card (rest s b v) = card (rest s b v') + (MAPBLKS_PER_BANK - lbn) \<and> init_frame b s t
    \<and> free_blk_cnt (g_misc_meta t b) = free_blk_cnt (g_misc_meta s b) \<and> cur_miscblk_vpn (g_misc_meta t b) = cur_miscblk_vpn (g_misc_meta s b)
    \<and> (\<forall>w < VBLKS_PER_BANK. vcnt t b w = (if w \<in> rest s b v \<and> w \<le> v' then VC_MAX else vcnt s b w))
    \<and> map_blocks (rest s b 0) (cur_mapblk_vpn (g_misc_meta t b)) lbn v v' \<and> (\<forall>i < lbn. cur_mapblk_vpn (g_misc_meta t b) i = cur_mapblk_vpn (g_misc_meta s b) i)"
  using assms
proof (induction b lbn v s rule: assign_map_blocks.induct)
  case (1 b lbn v s)
  show ?case
  proof (cases "MAPBLKS_PER_BANK \<le> lbn")
    case True
    have "\<not> (w \<in> rest s b v \<and> w \<le> v)" for w by (simp add: rest_def)
    then show ?thesis using True 1(5) by (subst assign_map_blocks.simps) (auto simp: map_blocks_def)
  next
    case False
    then have "0 < card (rest s b v)" using 1(4) by linarith
    then have v: "v + 1 < VBLKS_PER_BANK" using rest_end [of v s b] by (metis card.empty less_irrefl not_le)
    note bad = gr_is_bad_block_eq [OF 1(3) v, of s]
    show ?thesis
    proof (cases "gbad s b (v + 1)")
      case True
      note R = rest_bad [OF True]
      have l: "\<not> VBLKS_PER_BANK \<le> v + 1" using v by simp
      from 1(1) [OF False l bad True 1(3) _ 1(5)] 1(4) R
      obtain v' t where t: "assign_map_blocks b lbn (v + 1) s = Some (v', t)" "v + 1 + (MAPBLKS_PER_BANK - lbn) \<le> v'" "v' < VBLKS_PER_BANK"
        "card (rest s b v) = card (rest s b v') + (MAPBLKS_PER_BANK - lbn)" "init_frame b s t"
        "free_blk_cnt (g_misc_meta t b) = free_blk_cnt (g_misc_meta s b)" "cur_miscblk_vpn (g_misc_meta t b) = cur_miscblk_vpn (g_misc_meta s b)"
        "\<forall>w < VBLKS_PER_BANK. vcnt t b w = (if w \<in> rest s b v \<and> w \<le> v' then VC_MAX else vcnt s b w)"
        "map_blocks (rest s b 0) (cur_mapblk_vpn (g_misc_meta t b)) lbn (v + 1) v'" "\<forall>i < lbn. cur_mapblk_vpn (g_misc_meta t b) i = cur_mapblk_vpn (g_misc_meta s b) i"
        using v by auto
      have "assign_map_blocks b lbn v s = Some (v', t)" using False l bad True t(1) by (subst assign_map_blocks.simps) simp
      moreover have "map_blocks (rest s b 0) (cur_mapblk_vpn (g_misc_meta t b)) lbn v v'" using t(9) by (auto simp: map_blocks_def)
      ultimately show ?thesis using t by (intro exI [of _ v'] exI [of _ t]) simp
    next
      case good: False
      note R = rest_good [OF good v]
      define s1 where "s1 = set_misc b (\<lambda>m. m\<lparr>cur_mapblk_vpn := (cur_mapblk_vpn m)(lbn := (v + 1) * PAGES_PER_VBLK)\<rparr>) s"
      define s2 where "s2 = put_vcount b (v + 1) VC_MAX s1"
      have run: "set_vcount_raw b (v + 1) VC_MAX s1 = Some s2" unfolding s2_def by (rule set_vcount_raw_eq [OF 1(3) v])
      have l: "\<not> VBLKS_PER_BANK \<le> v + 1" using v by simp
      have f: "init_frame b s s2" unfolding s2_def s1_def
        by (rule init_frame_trans [OF init_frame_misc init_frame_put [OF 1(3) v VC_MAX_bound]]) simp
      note R2 = init_frame_rest [OF f 1(3)]
      have c2: "vcnt s2 b w = (if w = v + 1 then VC_MAX else vcnt s b w)" if "w < VBLKS_PER_BANK" for w
        using put_vcount_views(2) [OF 1(3) v VC_MAX_bound 1(3) that, of s1] by (simp add: s2_def s1_def)
      have n: "MAPBLKS_PER_BANK - (lbn + 1) \<le> card (rest s2 b (v + 1))" "lbn + 1 \<le> MAPBLKS_PER_BANK" using 1(4) R(2) False by (simp_all add: R2)
      from 1(2) [OF False l bad good run [unfolded s1_def] 1(3) n]
      obtain v' t where t: "assign_map_blocks b (lbn + 1) (v + 1) s2 = Some (v', t)" "v + 1 + (MAPBLKS_PER_BANK - (lbn + 1)) \<le> v'" "v' < VBLKS_PER_BANK"
        "card (rest s b (v + 1)) = card (rest s b v') + (MAPBLKS_PER_BANK - (lbn + 1))" "init_frame b s2 t"
        "free_blk_cnt (g_misc_meta t b) = free_blk_cnt (g_misc_meta s2 b)" "cur_miscblk_vpn (g_misc_meta t b) = cur_miscblk_vpn (g_misc_meta s2 b)"
        "\<forall>w < VBLKS_PER_BANK. vcnt t b w = (if w \<in> rest s b (v + 1) \<and> w \<le> v' then VC_MAX else vcnt s2 b w)"
        "map_blocks (rest s b 0) (cur_mapblk_vpn (g_misc_meta t b)) (lbn + 1) (v + 1) v'"
        "\<forall>i < lbn + 1. cur_mapblk_vpn (g_misc_meta t b) i = cur_mapblk_vpn (g_misc_meta s2 b) i"
        using v unfolding R2 by auto
      have m: "cur_mapblk_vpn (g_misc_meta s2 b) = (cur_mapblk_vpn (g_misc_meta s b))(lbn := (v + 1) * PAGES_PER_VBLK)"
        "free_blk_cnt (g_misc_meta s2 b) = free_blk_cnt (g_misc_meta s b)" "cur_miscblk_vpn (g_misc_meta s2 b) = cur_miscblk_vpn (g_misc_meta s b)"
        by (simp_all add: s2_def s1_def)
      have "assign_map_blocks b lbn v s = Some (v', t)"
        using False l bad good run t(1) by (subst assign_map_blocks.simps) (simp add: s1_def)
      moreover have "map_blocks (rest s b 0) (cur_mapblk_vpn (g_misc_meta t b)) lbn v v'" by (rule map_blocks_next [OF t(9)]) (use t(2,10) m v good in \<open>auto simp: rest_def\<close>)
      moreover have "vcnt t b w = (if w \<in> rest s b v \<and> w \<le> v' then VC_MAX else vcnt s b w)" if "w < VBLKS_PER_BANK" for w
        using t(2,8) c2 [OF that] that R(1) by auto
      moreover have "v + (MAPBLKS_PER_BANK - lbn) \<le> v'" "card (rest s b v) = card (rest s b v') + (MAPBLKS_PER_BANK - lbn)"
        using t(2,4) R(2) False by linarith+
      moreover have "\<forall>i < lbn. cur_mapblk_vpn (g_misc_meta t b) i = cur_mapblk_vpn (g_misc_meta s b) i" using t(10) m(1) by simp
      ultimately show ?thesis using t(3,6,7) init_frame_trans [OF f t(5)] m(2,3) by (intro exI [of _ v'] exI [of _ t]) simp
    qed
  qed
qed

text \<open>The next good block, for the collections and for the first data.\<close>

definition next_good :: "gstate \<Rightarrow> nat \<Rightarrow> nat \<Rightarrow> nat \<Rightarrow> bool" where
  "next_good s b v v' \<longleftrightarrow> v < v' \<and> v' < VBLKS_PER_BANK \<and> \<not> gbad s b v' \<and> rest s b v = insert v' (rest s b v')"

lemma assign_gc_block_result:
  assumes "b < NUM_BANKS" and "rest s b v \<noteq> {}"
  shows "\<exists>v' t. assign_gc_block b v s = Some (v', t) \<and> next_good s b v v' \<and> init_frame b s t \<and> gc_vblock (g_misc_meta t b) = v'
    \<and> free_blk_cnt (g_misc_meta t b) = free_blk_cnt (g_misc_meta s b) \<and> cur_miscblk_vpn (g_misc_meta t b) = cur_miscblk_vpn (g_misc_meta s b)
    \<and> cur_mapblk_vpn (g_misc_meta t b) = cur_mapblk_vpn (g_misc_meta s b)
    \<and> (\<forall>w < VBLKS_PER_BANK. vcnt t b w = (if v < w \<and> w \<le> v' then VC_MAX else vcnt s b w))"
  using assms
proof (induction b v s rule: assign_gc_block.induct)
  case (1 b v s)
  have v: "v + 1 < VBLKS_PER_BANK" using rest_end [of v s b] 1(3) by (meson not_le)
  then have l: "\<not> VBLKS_PER_BANK \<le> v + 1" by simp
  define s1 where "s1 = put_vcount b (v + 1) VC_MAX s"
  define s2 where "s2 = set_misc b (\<lambda>m. m\<lparr>gc_vblock := v + 1\<rparr>) s1"
  have run: "set_vcount_raw b (v + 1) VC_MAX s = Some s1" unfolding s1_def by (rule set_vcount_raw_eq [OF 1(2) v])
  have f: "init_frame b s s2" unfolding s2_def s1_def
    by (rule init_frame_trans [OF init_frame_put [OF 1(2) v VC_MAX_bound] init_frame_misc]) simp
  have m: "free_blk_cnt (g_misc_meta s2 b) = free_blk_cnt (g_misc_meta s b)" "cur_miscblk_vpn (g_misc_meta s2 b) = cur_miscblk_vpn (g_misc_meta s b)"
    "cur_mapblk_vpn (g_misc_meta s2 b) = cur_mapblk_vpn (g_misc_meta s b)" "gc_vblock (g_misc_meta s2 b) = v + 1"
    by (simp_all add: s2_def s1_def)
  have c: "vcnt s2 b w = (if w = v + 1 then VC_MAX else vcnt s b w)" if "w < VBLKS_PER_BANK" for w
    using put_vcount_views(2) [OF 1(2) v VC_MAX_bound 1(2) that, of s] by (simp add: s2_def s1_def)
  have g: "gbad s2 b (v + 1) = gbad s b (v + 1)" using f v 1(2) unfolding init_frame_def by blast
  note bad = gr_is_bad_block_eq [OF 1(2) v, of s2]
  note R = init_frame_rest [OF f 1(2)]
  show ?case
  proof (cases "gbad s b (v + 1)")
    case True
    note rb = rest_bad [OF True]
    have b2: "gbad s2 b (v + 1)" using True g by simp
    from 1(1) [OF run s2_def l bad b2 1(2)] 1(3) rb
    obtain v' t where t: "assign_gc_block b (v + 1) s2 = Some (v', t)" "next_good s2 b (v + 1) v'" "init_frame b s2 t" "gc_vblock (g_misc_meta t b) = v'"
      "free_blk_cnt (g_misc_meta t b) = free_blk_cnt (g_misc_meta s2 b)" "cur_miscblk_vpn (g_misc_meta t b) = cur_miscblk_vpn (g_misc_meta s2 b)"
      "cur_mapblk_vpn (g_misc_meta t b) = cur_mapblk_vpn (g_misc_meta s2 b)"
      "\<forall>w < VBLKS_PER_BANK. vcnt t b w = (if v + 1 < w \<and> w \<le> v' then VC_MAX else vcnt s2 b w)"
      unfolding R by blast
    have "v' < VBLKS_PER_BANK" using t(2) by (simp add: next_good_def)
    then have "gbad s2 b v' = gbad s b v'" using f 1(2) unfolding init_frame_def by blast
    then have "next_good s b v v'" using t(2) rb by (simp add: next_good_def R)
    moreover have "assign_gc_block b v s = Some (v', t)" using run l bad b2 t(1) by (subst assign_gc_block.simps) (simp add: s2_def)
    moreover have "vcnt t b w = (if v < w \<and> w \<le> v' then VC_MAX else vcnt s b w)" if "w < VBLKS_PER_BANK" for w
      using t(8) [rule_format, OF that] c [OF that] t(2) by (auto simp: next_good_def)
    ultimately show ?thesis using t(4-7) init_frame_trans [OF f t(3)] m by (intro exI [of _ v'] exI [of _ t]) simp
  next
    case False
    have "next_good s b v (v + 1)" using rest_good(1) [OF False v] False v by (simp add: next_good_def)
    moreover have "assign_gc_block b v s = Some (v + 1, s2)" using run l bad g False by (subst assign_gc_block.simps) (simp add: s2_def)
    moreover have "vcnt s2 b w = (if v < w \<and> w \<le> v + 1 then VC_MAX else vcnt s b w)" if "w < VBLKS_PER_BANK" for w
      using c [OF that] by auto
    ultimately show ?thesis using f m by blast
  qed
qed

lemma assign_first_block_result:
  assumes "b < NUM_BANKS" and "rest s b v \<noteq> {}"
  shows "\<exists>v' t. assign_first_block b v s = Some t \<and> next_good s b v v' \<and> init_frame b s t \<and> cur_write_vpn (g_misc_meta t b) = v' * PAGES_PER_VBLK
    \<and> gc_vblock (g_misc_meta t b) = gc_vblock (g_misc_meta s b)
    \<and> free_blk_cnt (g_misc_meta t b) = free_blk_cnt (g_misc_meta s b) \<and> cur_miscblk_vpn (g_misc_meta t b) = cur_miscblk_vpn (g_misc_meta s b)
    \<and> cur_mapblk_vpn (g_misc_meta t b) = cur_mapblk_vpn (g_misc_meta s b) \<and> vcnt t = vcnt s"
  using assms
proof (induction b v s rule: assign_first_block.induct)
  case (1 b v s)
  have v: "v + 1 < VBLKS_PER_BANK" using rest_end [of v s b] 1(3) by (meson not_le)
  then have l: "\<not> VBLKS_PER_BANK \<le> v + 1" by simp
  define s1 where "s1 = set_misc b (\<lambda>m. m\<lparr>cur_write_vpn := (v + 1) * PAGES_PER_VBLK\<rparr>) s"
  have f: "init_frame b s s1" unfolding s1_def by (rule init_frame_misc) simp
  have m: "gc_vblock (g_misc_meta s1 b) = gc_vblock (g_misc_meta s b)" "free_blk_cnt (g_misc_meta s1 b) = free_blk_cnt (g_misc_meta s b)"
    "cur_miscblk_vpn (g_misc_meta s1 b) = cur_miscblk_vpn (g_misc_meta s b)" "cur_mapblk_vpn (g_misc_meta s1 b) = cur_mapblk_vpn (g_misc_meta s b)"
    "vcnt s1 = vcnt s" "gbad s1 = gbad s" "cur_write_vpn (g_misc_meta s1 b) = (v + 1) * PAGES_PER_VBLK"
    by (simp_all add: s1_def)
  note bad = gr_is_bad_block_eq [OF 1(2) v, of s1]
  have R: "rest s1 b w = rest s b w" for w by (simp add: rest_def m)
  show ?case
  proof (cases "gbad s b (v + 1)")
    case True
    note rb = rest_bad [OF True]
    have b1: "gbad s1 b (v + 1)" using True m by simp
    from 1(1) [OF s1_def l bad b1 1(2)] 1(3) rb
    obtain v' t where t: "assign_first_block b (v + 1) s1 = Some t" "next_good s1 b (v + 1) v'" "init_frame b s1 t"
      "cur_write_vpn (g_misc_meta t b) = v' * PAGES_PER_VBLK" "gc_vblock (g_misc_meta t b) = gc_vblock (g_misc_meta s1 b)"
      "free_blk_cnt (g_misc_meta t b) = free_blk_cnt (g_misc_meta s1 b)" "cur_miscblk_vpn (g_misc_meta t b) = cur_miscblk_vpn (g_misc_meta s1 b)"
      "cur_mapblk_vpn (g_misc_meta t b) = cur_mapblk_vpn (g_misc_meta s1 b)" "vcnt t = vcnt s1"
      unfolding R by blast
    have "next_good s b v v'" using t(2) rb by (simp add: next_good_def R m)
    moreover have "assign_first_block b v s = Some t" using l bad b1 t(1) by (subst assign_first_block.simps) (simp add: s1_def)
    ultimately show ?thesis using t(4-9) init_frame_trans [OF f t(3)] m by (intro exI [of _ v'] exI [of _ t]) simp
  next
    case False
    have "next_good s b v (v + 1)" using rest_good(1) [OF False v] False v by (simp add: next_good_def)
    moreover have "assign_first_block b v s = Some s1" using l bad m False by (subst assign_first_block.simps) (simp add: s1_def)
    ultimately show ?thesis using f m by blast
  qed
qed

text \<open>A bank as the format leaves it: the metadata blocks, the block for collections and then the blocks for data, none in use.\<close>

definition fresh_bank :: "gstate \<Rightarrow> nat \<Rightarrow> bool" where
  "fresh_bank s b \<longleftrightarrow> (let m = g_misc_meta s b; gc = gc_vblock m; D = rest s b gc in
     META_BLKS_PER_BANK \<le> gc \<and> gc < VBLKS_PER_BANK \<and> \<not> gbad s b gc \<and> (\<exists>cb. next_good s b gc cb \<and> cur_write_vpn m = cb * PAGES_PER_VBLK)
     \<and> free_blk_cnt m = 1 + card D \<and> 1935 \<le> card D \<and> (\<forall>w < VBLKS_PER_BANK. vcnt s b w = (if w \<in> D then 0 else VC_MAX)))"

text \<open>The pages that the first log programs are still to be written.\<close>

definition meta_fresh :: "gstate \<Rightarrow> nat \<Rightarrow> bool" where
  "meta_fresh s b \<longleftrightarrow> (let m = g_misc_meta s b in (\<exists>v' < gc_vblock m. map_blocks (rest s b 0) (cur_mapblk_vpn m) 0 1 v') \<and> cur_miscblk_vpn m = PAGES_PER_VBLK - 1)"

lemma good_count:
  assumes "\<not> gbad s b 0" and "\<not> gbad s b 1"
  shows "card (rest s b 1) + card (bits_of s b) = VBLKS_PER_BANK - 2"
proof -
  have f: "finite (bits_of s b)" by (rule finite_subset [of _ "{..<VBLKS_PER_BANK}"]) (auto simp: bits_of_def)
  have "{2..<VBLKS_PER_BANK} = rest s b 1 \<union> bits_of s b"
  proof (rule set_eqI)
    fix w :: nat
    have "2 \<le> w \<longleftrightarrow> w \<noteq> 0 \<and> w \<noteq> 1" by linarith
    then show "w \<in> {2..<VBLKS_PER_BANK} \<longleftrightarrow> w \<in> rest s b 1 \<union> bits_of s b" using assms by (auto simp: rest_def bits_of_def)
  qed
  then have "card {2..<VBLKS_PER_BANK} = card (rest s b 1) + card (bits_of s b)"
    using card_Un_disjoint [OF rest_finite f, of s b 1] by (auto simp: rest_def bits_of_def)
  then show ?thesis by simp
qed

lemma init_metadata_bank_result:
  assumes b: "b < NUM_BANKS" and g: "\<not> gbad s b 0" "\<not> gbad s b 1" and n: "g_bad_blk_count s b = card (bits_of s b)" "card (bits_of s b) \<le> 108"
    and c: "\<forall>w. 1 \<le> w \<and> w < VBLKS_PER_BANK \<longrightarrow> vcnt s b w = (if gbad s b w then VC_MAX else 0)"
  shows "\<exists>t. init_metadata_bank b s = Some t \<and> init_frame b s t \<and> fresh_bank t b \<and> meta_fresh t b"
proof -
  have N: "0 < VBLKS_PER_BANK" "1 < VBLKS_PER_BANK" "MAPBLKS_PER_BANK = 30" "META_BLKS_PER_BANK = 32" "VBLKS_PER_BANK = 2076" "MISCBLK_VBN * PAGES_PER_VBLK - 1 = PAGES_PER_VBLK - 1"
    by (simp_all add: geom MISCBLK_VBN_def)
  define s1 where "s1 = set_misc b (\<lambda>m. m\<lparr>free_blk_cnt := sub32 (free_blk_cnt m) (g_bad_blk_count s b)\<rparr>) (set_misc b (\<lambda>m. m\<lparr>free_blk_cnt := VBLKS_PER_BANK - META_BLKS_PER_BANK\<rparr>) s)"
  define s2 where "s2 = put_vcount b 1 VC_MAX (put_vcount b 0 VC_MAX s1)"
  define s3 where "s3 = set_misc b (\<lambda>m. m\<lparr>cur_miscblk_vpn := MISCBLK_VBN * PAGES_PER_VBLK - 1\<rparr>) s2"
  have f1: "init_frame b s s1" unfolding s1_def by (rule init_frame_trans [OF init_frame_misc init_frame_misc]) simp_all
  have f2: "init_frame b s1 s2" unfolding s2_def
    by (rule init_frame_trans [OF init_frame_put [OF b N(1) VC_MAX_bound] init_frame_put [OF b N(2) VC_MAX_bound]])
  have f3: "init_frame b s s3" unfolding s3_def by (rule init_frame_trans [OF init_frame_trans [OF f1 f2] init_frame_misc]) simp
  have m3: "free_blk_cnt (g_misc_meta s3 b) = 2044 - card (bits_of s b)" "cur_miscblk_vpn (g_misc_meta s3 b) = PAGES_PER_VBLK - 1"
    using n N by (simp_all add: s3_def s2_def s1_def sub32_id)
  have c3: "vcnt s3 b w = (if w \<in> rest s b 1 then 0 else VC_MAX)" if "w < VBLKS_PER_BANK" for w
  proof -
    have "vcnt s3 b w = (if w = 0 \<or> w = 1 then VC_MAX else vcnt s b w)"
      using put_vcount_views(2) [OF b N(2) VC_MAX_bound b that, of "put_vcount b 0 VC_MAX s1"] put_vcount_views(2) [OF b N(1) VC_MAX_bound b that, of s1]
      by (auto simp: s3_def s2_def) (simp add: s1_def)
    then show ?thesis using c that by (auto simp: rest_def)
  qed
  have R: "rest x b v = rest s b v" if "init_frame b s x" for x v by (rule init_frame_rest [OF that b])
  have k: "card (rest s b 1) = 2074 - card (bits_of s b)" using good_count [OF g] N by simp
  have p4: "MAPBLKS_PER_BANK - 0 \<le> card (rest s3 b 1)" unfolding R [OF f3] using k n(2) N by simp
  from assign_map_blocks_result [OF b p4 le0] N(2)
  obtain v4 s4 where s4: "assign_map_blocks b 0 1 s3 = Some (v4, s4)" "31 \<le> v4" "v4 < VBLKS_PER_BANK" "card (rest s b 1) = card (rest s b v4) + 30" "init_frame b s3 s4"
    "free_blk_cnt (g_misc_meta s4 b) = free_blk_cnt (g_misc_meta s3 b)" "cur_miscblk_vpn (g_misc_meta s4 b) = cur_miscblk_vpn (g_misc_meta s3 b)"
    "\<forall>w < VBLKS_PER_BANK. vcnt s4 b w = (if w \<in> rest s b 1 \<and> w \<le> v4 then VC_MAX else vcnt s3 b w)"
    "map_blocks (rest s b 0) (cur_mapblk_vpn (g_misc_meta s4 b)) 0 1 v4"
    unfolding R [OF f3] N(3) by auto
  note f4 = init_frame_trans [OF f3 s4(5)]
  have k4: "card (rest s b v4) = 2044 - card (bits_of s b)" using k s4(4) by simp
  then have "rest s4 b v4 \<noteq> {}" unfolding R [OF f4] using n(2) by auto
  from assign_gc_block_result [OF b this]
  obtain v5 s5 where s5: "assign_gc_block b v4 s4 = Some (v5, s5)" "next_good s4 b v4 v5" "init_frame b s4 s5" "gc_vblock (g_misc_meta s5 b) = v5"
    "free_blk_cnt (g_misc_meta s5 b) = free_blk_cnt (g_misc_meta s4 b)" "cur_miscblk_vpn (g_misc_meta s5 b) = cur_miscblk_vpn (g_misc_meta s4 b)"
    "cur_mapblk_vpn (g_misc_meta s5 b) = cur_mapblk_vpn (g_misc_meta s4 b)"
    "\<forall>w < VBLKS_PER_BANK. vcnt s5 b w = (if v4 < w \<and> w \<le> v5 then VC_MAX else vcnt s4 b w)" by blast
  note f5 = init_frame_trans [OF f4 s5(3)]
  have n5: "v4 < v5" "v5 < VBLKS_PER_BANK" "rest s b v4 = insert v5 (rest s b v5)" "\<not> gbad s4 b v5" using s5(2) by (simp_all add: next_good_def R [OF f4])
  have k5: "card (rest s b v5) = 2043 - card (bits_of s b)"
  proof -
    have "v5 \<notin> rest s b v5" by (simp add: rest_def)
    then show ?thesis using k4 n5(3) by simp
  qed
  then have "rest s5 b v5 \<noteq> {}" unfolding R [OF f5] using n(2) by auto
  from assign_first_block_result [OF b this]
  obtain v6 t where t: "assign_first_block b v5 s5 = Some t" "next_good s5 b v5 v6" "init_frame b s5 t" "cur_write_vpn (g_misc_meta t b) = v6 * PAGES_PER_VBLK"
    "gc_vblock (g_misc_meta t b) = gc_vblock (g_misc_meta s5 b)" "free_blk_cnt (g_misc_meta t b) = free_blk_cnt (g_misc_meta s5 b)"
    "cur_miscblk_vpn (g_misc_meta t b) = cur_miscblk_vpn (g_misc_meta s5 b)" "cur_mapblk_vpn (g_misc_meta t b) = cur_mapblk_vpn (g_misc_meta s5 b)" "vcnt t = vcnt s5" by blast
  note ft = init_frame_trans [OF f5 t(3)]
  have bd: "gbad t b w = gbad x b w" if "init_frame b s x" "w < VBLKS_PER_BANK" for x w using ft that b by (simp add: init_frame_def)
  have bad3: "gr_is_bad_block b MISCBLK_VBN s3 = Some False"
    using gr_is_bad_block_eq [OF b N(2), of s3] g(2) bd [OF f3 N(2)] ft b N(2) by (simp add: MISCBLK_VBN_def init_frame_def)
  have "init_metadata_bank b s = Some t"
    using set_vcount_raw_eq [OF b N(1), of VC_MAX s1] set_vcount_raw_eq [OF b N(2), of VC_MAX "put_vcount b 0 VC_MAX s1"] bad3 s4(1) s5(1) t(1)
    by (simp add: init_metadata_bank_def Let_def s1_def s2_def s3_def MISCBLK_VBN_def)
  moreover have vc: "vcnt t b w = (if w \<in> rest s b v5 then 0 else VC_MAX)" if "w < VBLKS_PER_BANK" for w
    using s5(8) s4(8) c3 [OF that] that t(9) n5(1) s4(2) by (auto simp: rest_def)
  moreover have "next_good t b v5 v6" using t(2) bd [OF f5, of v6] by (simp add: next_good_def R [OF f5] R [OF ft])
  moreover have "free_blk_cnt (g_misc_meta t b) = 1 + card (rest s b v5)" using t(6) s5(5) s4(6) m3(1) k5 n(2) by simp
  moreover have "\<not> gbad t b v5" using n5(4) bd [OF f4 n5(2)] by simp
  ultimately show ?thesis using ft t(4,5,7,8) s5(4,6,7) s4(2,7,9) n5(1,2) m3(2) k5 n(2)
    by (intro exI [of _ t]) (auto simp: fresh_bank_def meta_fresh_def Let_def R [OF ft] N(4))
qed

text \<open>All banks; the list of the first block is as it was.\<close>

definition sram_frame :: "gstate \<Rightarrow> gstate \<Rightarrow> bool" where
  "sram_frame s t \<longleftrightarrow> (\<forall>l < NUM_LPAGES. vpn_of t l = vpn_of s l) \<and> (\<forall>c < NUM_BANKS. \<forall>w < VBLKS_PER_BANK. gbad t c w = gbad s c w)
     \<and> gpage t = gpage s \<and> g_bad_blk_count t = g_bad_blk_count s \<and> (\<forall>c < NUM_BANKS. lpns t c = lpns s c)"

lemma init_sram_frame: "init_frame b s t \<Longrightarrow> sram_frame s t"
  unfolding init_frame_def sram_frame_def by metis

lemma sram_frame_trans: "sram_frame s t \<Longrightarrow> sram_frame t x \<Longrightarrow> sram_frame s x"
  by (simp add: sram_frame_def)

lemma fresh_bank_cong:
  assumes "init_frame b s t" and "c < NUM_BANKS" and "c \<noteq> b" and "fresh_bank s c" and "meta_fresh s c"
  shows "fresh_bank t c" "meta_fresh t c"
proof -
  have e: "g_misc_meta t c = g_misc_meta s c" "\<forall>w < VBLKS_PER_BANK. gbad t c w = gbad s c w" "\<forall>w < VBLKS_PER_BANK. vcnt t c w = vcnt s c w"
    using assms(1-3) by (simp_all add: init_frame_def)
  have r: "rest t c v = rest s c v" for v by (rule rest_cong [OF e(2)])
  have g: "next_good t c v w = next_good s c v w" for v w using e(2) by (auto simp: next_good_def r)
  show "fresh_bank t c" using assms(4) e by (auto simp: fresh_bank_def Let_def r g)
  show "meta_fresh t c" using assms(5) e by (simp add: meta_fresh_def r)
qed

lemma bits_of_cong: "\<forall>w < VBLKS_PER_BANK. gbad t c w = gbad s c w \<Longrightarrow> bits_of t c = bits_of s c"
  by (auto simp: bits_of_def)

lemma init_metadata_sram_result:
  assumes "\<forall>b < NUM_BANKS. \<not> gbad s b 0 \<and> \<not> gbad s b 1 \<and> g_bad_blk_count s b = card (bits_of s b) \<and> card (bits_of s b) \<le> 108
      \<and> (\<forall>w. 1 \<le> w \<and> w < VBLKS_PER_BANK \<longrightarrow> vcnt s b w = (if gbad s b w then VC_MAX else 0))"
  shows "\<exists>t. init_metadata_sram s = Some t \<and> sram_frame s t \<and> (\<forall>b < NUM_BANKS. fresh_bank t b \<and> meta_fresh t b)"
proof -
  let ?I = "\<lambda>b t. sram_frame s t \<and> (\<forall>c < NUM_BANKS. c < b \<longrightarrow> fresh_bank t c \<and> meta_fresh t c)
    \<and> (\<forall>c < NUM_BANKS. b \<le> c \<longrightarrow> (\<forall>w < VBLKS_PER_BANK. vcnt t c w = vcnt s c w))"
  have i0: "?I 0 s" by (simp add: sram_frame_def)
  have N: "0 < VBLKS_PER_BANK" "1 < VBLKS_PER_BANK" by (simp_all add: geom)
  have step: "\<exists>t'. init_metadata_bank b t = Some t' \<and> ?I (Suc b) t'" if b: "b < NUM_BANKS" and I: "?I b t" for b t
  proof -
    have bd: "\<forall>w < VBLKS_PER_BANK. gbad t b w = gbad s b w" using I b by (simp add: sram_frame_def)
    note S = assms [rule_format, OF b]
    have "\<not> gbad t b 0" "\<not> gbad t b 1" using bd N S by simp_all
    moreover have "g_bad_blk_count t b = card (bits_of t b)" "card (bits_of t b) \<le> 108"
      using S I bits_of_cong [OF bd] by (simp_all add: sram_frame_def)
    moreover have "\<forall>w. 1 \<le> w \<and> w < VBLKS_PER_BANK \<longrightarrow> vcnt t b w = (if gbad t b w then VC_MAX else 0)" using S I b bd by simp
    ultimately obtain t' where t': "init_metadata_bank b t = Some t'" "init_frame b t t'" "fresh_bank t' b" "meta_fresh t' b"
      using init_metadata_bank_result [OF b] by blast
    have "sram_frame s t'" using sram_frame_trans [OF _ init_sram_frame [OF t'(2)]] I by blast
    moreover have "fresh_bank t' c \<and> meta_fresh t' c" if "c < NUM_BANKS" "c < Suc b" for c
      using fresh_bank_cong [OF t'(2) that(1)] t'(3,4) I that by (cases "c = b") auto
    moreover have "vcnt t' c w = vcnt s c w" if "c < NUM_BANKS" "Suc b \<le> c" "w < VBLKS_PER_BANK" for c w
      using t'(2) I that by (simp add: init_frame_def)
    ultimately show ?thesis using t'(1) by blast
  qed
  from each_upt [where f = init_metadata_bank and I = ?I, OF step i0 le0] show ?thesis
    unfolding init_metadata_sram_def by blast
qed

subsection \<open>The first logs\<close>

text \<open>What logging leaves: the memory tables, the open blocks, and the pages of block 0 and of the blocks from \<open>gc_vblock\<close> on.\<close>

definition logged :: "gstate \<Rightarrow> gstate \<Rightarrow> bool" where
  "logged s t \<longleftrightarrow> same_meta s t \<and> (\<forall>c < NUM_BANKS. cur_write_vpn (g_misc_meta t c) = cur_write_vpn (g_misc_meta s c)
     \<and> gc_vblock (g_misc_meta t c) = gc_vblock (g_misc_meta s c) \<and> free_blk_cnt (g_misc_meta t c) = free_blk_cnt (g_misc_meta s c) \<and> lpns t c = lpns s c)
     \<and> (\<forall>c < NUM_BANKS. \<forall>r. r div PAGES_PER_VBLK = 0 \<or> gc_vblock (g_misc_meta s c) \<le> r div PAGES_PER_VBLK \<longrightarrow> gpage t c r = gpage s c r)"

lemma logged_trans:
  assumes "logged s t" and "logged t x"
  shows "logged s x"
proof -
  have "gpage x c r = gpage s c r" if "c < NUM_BANKS" "r div PAGES_PER_VBLK = 0 \<or> gc_vblock (g_misc_meta s c) \<le> r div PAGES_PER_VBLK" for c r
    using assms that unfolding logged_def by metis
  then show ?thesis using assms unfolding logged_def same_meta_def by simp
qed

text \<open>The pairs of a bank and a map block in \<open>L\<close> are still to be logged.\<close>

definition log_ready :: "(nat \<times> nat) set \<Rightarrow> gstate \<Rightarrow> bool" where
  "log_ready L s \<longleftrightarrow> (\<forall>c < NUM_BANKS. let m = g_misc_meta s c; f = cur_mapblk_vpn m in
     (\<forall>i < MAPBLKS_PER_BANK. 1 < f i div PAGES_PER_VBLK \<and> f i div PAGES_PER_VBLK < gc_vblock m
        \<and> ((c, i) \<in> L \<longrightarrow> f i mod PAGES_PER_VBLK = 0 \<and> gblank s c (f i + 1)))
     \<and> (\<forall>i < MAPBLKS_PER_BANK. \<forall>j < MAPBLKS_PER_BANK. i \<noteq> j \<longrightarrow> f i div PAGES_PER_VBLK \<noteq> f j div PAGES_PER_VBLK)
     \<and> gc_vblock m < VBLKS_PER_BANK \<and> cur_miscblk_vpn m = PAGES_PER_VBLK - 1 \<and> gblank s c PAGES_PER_VBLK)"

lemma log_readyD:
  assumes "log_ready L s" and "c < NUM_BANKS"
  shows "i < MAPBLKS_PER_BANK \<Longrightarrow> 1 < cur_mapblk_vpn (g_misc_meta s c) i div PAGES_PER_VBLK"
    "i < MAPBLKS_PER_BANK \<Longrightarrow> cur_mapblk_vpn (g_misc_meta s c) i div PAGES_PER_VBLK < gc_vblock (g_misc_meta s c)"
    "i < MAPBLKS_PER_BANK \<Longrightarrow> (c, i) \<in> L \<Longrightarrow> cur_mapblk_vpn (g_misc_meta s c) i mod PAGES_PER_VBLK = 0"
    "i < MAPBLKS_PER_BANK \<Longrightarrow> (c, i) \<in> L \<Longrightarrow> gblank s c (cur_mapblk_vpn (g_misc_meta s c) i + 1)"
    "i < MAPBLKS_PER_BANK \<Longrightarrow> j < MAPBLKS_PER_BANK \<Longrightarrow> i \<noteq> j
      \<Longrightarrow> cur_mapblk_vpn (g_misc_meta s c) i div PAGES_PER_VBLK \<noteq> cur_mapblk_vpn (g_misc_meta s c) j div PAGES_PER_VBLK"
    "gc_vblock (g_misc_meta s c) < VBLKS_PER_BANK" "cur_miscblk_vpn (g_misc_meta s c) = PAGES_PER_VBLK - 1" "gblank s c PAGES_PER_VBLK"
  using assms unfolding log_ready_def Let_def by blast+

lemma log_readyI:
  assumes "\<And>c i. c < NUM_BANKS \<Longrightarrow> i < MAPBLKS_PER_BANK \<Longrightarrow> 1 < cur_mapblk_vpn (g_misc_meta s c) i div PAGES_PER_VBLK
      \<and> cur_mapblk_vpn (g_misc_meta s c) i div PAGES_PER_VBLK < gc_vblock (g_misc_meta s c)"
    and "\<And>c i. c < NUM_BANKS \<Longrightarrow> i < MAPBLKS_PER_BANK \<Longrightarrow> (c, i) \<in> L
      \<Longrightarrow> cur_mapblk_vpn (g_misc_meta s c) i mod PAGES_PER_VBLK = 0 \<and> gblank s c (cur_mapblk_vpn (g_misc_meta s c) i + 1)"
    and "\<And>c i j. c < NUM_BANKS \<Longrightarrow> i < MAPBLKS_PER_BANK \<Longrightarrow> j < MAPBLKS_PER_BANK \<Longrightarrow> i \<noteq> j
      \<Longrightarrow> cur_mapblk_vpn (g_misc_meta s c) i div PAGES_PER_VBLK \<noteq> cur_mapblk_vpn (g_misc_meta s c) j div PAGES_PER_VBLK"
    and "\<And>c. c < NUM_BANKS \<Longrightarrow> gc_vblock (g_misc_meta s c) < VBLKS_PER_BANK \<and> cur_miscblk_vpn (g_misc_meta s c) = PAGES_PER_VBLK - 1 \<and> gblank s c PAGES_PER_VBLK"
  shows "log_ready L s"
  unfolding log_ready_def Let_def using assms by blast

lemma next_row:
  assumes "r mod PAGES_PER_VBLK = 0"
  shows "(r + 1) div PAGES_PER_VBLK = r div PAGES_PER_VBLK" "(r + 1) mod PAGES_PER_VBLK = 1" "r div PAGES_PER_VBLK * PAGES_PER_VBLK + 1 = r + 1"
proof -
  have "\<exists>v. r = v * 128" using assms unfolding page_127(2) by presburger
  then obtain v where v: "r = v * 128" by blast
  show "(r + 1) div PAGES_PER_VBLK = r div PAGES_PER_VBLK" "(r + 1) mod PAGES_PER_VBLK = 1" "r div PAGES_PER_VBLK * PAGES_PER_VBLK + 1 = r + 1"
    unfolding v page_127(2) by (simp_all add: mod_Suc)
qed

text \<open>A step that fills the buffer of bank \<open>b\<close> from the DRAM and programs a page with it.\<close>

lemma log_program:
  assumes hw: "flash_ok greedy_layout hw" and b: "b < NUM_BANKS" and v: "v < VBLKS_PER_BANK" and p: "p < PAGES_PER_VBLK" and n: "n * 512 \<le> BYTES_PER_PAGE"
    and bl: "gblank s b (v * PAGES_PER_VBLK + p)"
  shows "\<exists>t. flash_do (nand_page_ptprogram hw b v p 0 n (FTL_BUF b)) s = Some t \<and> same_meta s t \<and> g_misc_meta t = g_misc_meta s
    \<and> (\<forall>c < NUM_BANKS. \<forall>r. (c, r) \<noteq> (b, v * PAGES_PER_VBLK + p) \<longrightarrow> gpage t c r = gpage s c r)"
proof -
  have n': "0 * 512 + n * 512 \<le> BYTES_PER_PAGE" using n by simp
  show ?thesis using gc_ptprogram [OF hw b v p n' ftl_buf(1) [OF b] bl] by (auto simp: quiet_def)
qed

lemma log_pmap_page_result:
  assumes hw: "flash_ok greedy_layout hw" and b: "b < NUM_BANKS" and i: "lbn < MAPBLKS_PER_BANK" and L: "log_ready L s" "(b, lbn) \<in> L"
    and a: "GR_PAGE_MAP_ADDR \<le> a" "(a - GR_PAGE_MAP_ADDR) mod 512 = 0" and n: "n mod 512 = 0" "n \<le> BYTES_PER_PAGE"
  shows "\<exists>t. log_pmap_page hw lbn b a n s = Some t \<and> logged s t \<and> log_ready (L - {(b, lbn)}) t"
proof -
  define r where "r = cur_mapblk_vpn (g_misc_meta s b) lbn"
  note D = log_readyD(1-4) [OF L(1) b, of lbn, folded r_def]
  note row = next_row [OF D(3) [OF i L(2)]]
  have v: "r div PAGES_PER_VBLK < VBLKS_PER_BANK" using D(2) [OF i] log_readyD(6) [OF L(1) b] by simp
  have "r \<le> r div PAGES_PER_VBLK * PAGES_PER_VBLK + 127" using D(3) [OF i L(2)] by (simp add: geom)
  then have w: "wrap32 (r + 1) = r + 1" using v by (intro wrap32_id) (simp add: geom)
  define s1 where "s1 = set_misc b (\<lambda>m. m\<lparr>cur_mapblk_vpn := (cur_mapblk_vpn m)(lbn := wrap32 (cur_mapblk_vpn m lbn + 1))\<rparr>) s"
  define d where "d = (\<lambda>x. if FTL_BUF b \<le> x \<and> x < FTL_BUF b + n then gdram s (a + (x - FTL_BUF b)) else gdram s x)"
  have "a mod 4 = 0" "n mod 4 = 0" "n mod 128 = 0"
  proof -
    have g: "GR_PAGE_MAP_ADDR mod 4 = 0" by simp
    have "512 dvd a - GR_PAGE_MAP_ADDR" using a(2) by auto
    then have "4 dvd a - GR_PAGE_MAP_ADDR" by (rule dvd_trans [rotated]) simp
    then have "4 dvd GR_PAGE_MAP_ADDR + (a - GR_PAGE_MAP_ADDR)" using g by (intro dvd_add) auto
    then show "a mod 4 = 0" using a(1) by simp
    have "512 dvd n" using n(1) by auto
    then have "4 dvd n" "128 dvd n" using dvd_trans [of _ 512 n] by simp_all
    then show "n mod 4 = 0" "n mod 128 = 0" by auto
  qed
  then have move: "dram_move (FTL_BUF b) a n (gdram s1) = Some d"
    using ftl_buf(2) [OF b] n(2) by (simp add: dram_move_def d_def s1_def MU_MAX_BYTES_def geom)
  have sm: "same_meta s (set_gdram d s1)" using ftl_buf(3) [OF b] n(2) by (auto simp: same_meta_def d_def)
  have p: "1 < PAGES_PER_VBLK" by (simp add: geom)
  have bl: "gblank (set_gdram d s1) b (r div PAGES_PER_VBLK * PAGES_PER_VBLK + 1)" using D(4) [OF i L(2)] row(3) by (simp add: s1_def)
  have nb: "n div 512 * 512 \<le> BYTES_PER_PAGE" using n by linarith
  from log_program [OF hw b v p nb bl] obtain t where t:
    "flash_do (nand_page_ptprogram hw b (r div PAGES_PER_VBLK) 1 0 (n div 512) (FTL_BUF b)) (set_gdram d s1) = Some t"
    "same_meta (set_gdram d s1) t" "g_misc_meta t = g_misc_meta s1"
    "\<forall>c < NUM_BANKS. \<forall>q. (c, q) \<noteq> (b, r + 1) \<longrightarrow> gpage t c q = gpage s c q" unfolding row(3) by (auto simp: s1_def)
  have run: "log_pmap_page hw lbn b a n s = Some t"
    using move t(1) row w by (simp add: log_pmap_page_def Let_def s1_def r_def [symmetric] BYTES_PER_SECTOR_def)
  have m: "g_misc_meta t c = (if c = b then (g_misc_meta s b)\<lparr>cur_mapblk_vpn := (cur_mapblk_vpn (g_misc_meta s b))(lbn := r + 1)\<rparr> else g_misc_meta s c)" for c
    using w by (simp add: t(3) s1_def r_def)
  have "gpage t c q = gpage s c q" if "c < NUM_BANKS" "q div PAGES_PER_VBLK = 0 \<or> gc_vblock (g_misc_meta s c) \<le> q div PAGES_PER_VBLK" for c q
  proof -
    have "(c, q) \<noteq> (b, r + 1)" using that(2) row(1) D(1,2) [OF i] by auto
    then show ?thesis using t(4) that(1) by blast
  qed
  then have "logged s t" using sm t(2) m by (simp add: logged_def same_meta_def)
  moreover have "log_ready (L - {(b, lbn)}) t"
  proof (rule log_readyI)
    have f: "cur_mapblk_vpn (g_misc_meta t c) j = (if c = b \<and> j = lbn then r + 1 else cur_mapblk_vpn (g_misc_meta s c) j)" for c j by (simp add: m)
    have fd: "cur_mapblk_vpn (g_misc_meta t c) j div PAGES_PER_VBLK = cur_mapblk_vpn (g_misc_meta s c) j div PAGES_PER_VBLK" for c j
      using row(1) by (simp add: f r_def)
    have g: "gc_vblock (g_misc_meta t c) = gc_vblock (g_misc_meta s c)" "cur_miscblk_vpn (g_misc_meta t c) = cur_miscblk_vpn (g_misc_meta s c)" for c by (simp_all add: m)
    fix c assume c: "c < NUM_BANKS"
    note C = log_readyD [OF L(1) c]
    show "gc_vblock (g_misc_meta t c) < VBLKS_PER_BANK \<and> cur_miscblk_vpn (g_misc_meta t c) = PAGES_PER_VBLK - 1 \<and> gblank t c PAGES_PER_VBLK"
    proof -
      have "PAGES_PER_VBLK \<noteq> r + 1"
      proof
        assume e: "PAGES_PER_VBLK = r + 1"
        have "PAGES_PER_VBLK div PAGES_PER_VBLK = 1" by (simp add: geom)
        then show False using D(1) [OF i] row(1) unfolding e [symmetric] by simp
      qed
      then have "gpage t c PAGES_PER_VBLK = gpage s c PAGES_PER_VBLK" using t(4) c by auto
      then show ?thesis using C(6-8) g gblank_cong by metis
    qed
    fix j assume j: "j < MAPBLKS_PER_BANK"
    show "1 < cur_mapblk_vpn (g_misc_meta t c) j div PAGES_PER_VBLK \<and> cur_mapblk_vpn (g_misc_meta t c) j div PAGES_PER_VBLK < gc_vblock (g_misc_meta t c)"
      unfolding fd g using C(1,2) j by simp
    show "cur_mapblk_vpn (g_misc_meta t c) j div PAGES_PER_VBLK \<noteq> cur_mapblk_vpn (g_misc_meta t c) k div PAGES_PER_VBLK"
      if "k < MAPBLKS_PER_BANK" "j \<noteq> k" for k unfolding fd using C(5) j that by simp
    assume P: "(c, j) \<in> L - {(b, lbn)}"
    have e: "cur_mapblk_vpn (g_misc_meta t c) j = cur_mapblk_vpn (g_misc_meta s c) j" using P by (auto simp: f)
    have PL: "(c, j) \<in> L" using P by simp
    have "(c, cur_mapblk_vpn (g_misc_meta s c) j + 1) \<noteq> (b, r + 1)" using C(5) [OF j i] P by (auto simp: r_def)
    then have "gpage t c (cur_mapblk_vpn (g_misc_meta s c) j + 1) = gpage s c (cur_mapblk_vpn (g_misc_meta s c) j + 1)" using t(4) c by blast
    then show "cur_mapblk_vpn (g_misc_meta t c) j mod PAGES_PER_VBLK = 0 \<and> gblank t c (cur_mapblk_vpn (g_misc_meta t c) j + 1)"
      unfolding e using C(3,4) [OF j PL] gblank_cong by metis
  qed
  ultimately show ?thesis using run by blast
qed

definition map_addr_ok :: "nat \<Rightarrow> bool" where
  "map_addr_ok a \<longleftrightarrow> GR_PAGE_MAP_ADDR \<le> a \<and> a \<le> GR_PAGE_MAP_ADDR + GR_PAGE_MAP_BYTES \<and> (a - GR_PAGE_MAP_ADDR) mod 512 = 0"

lemma pmap_chunk_ok:
  assumes "map_addr_ok a" and "pmap_chunk (GR_PAGE_MAP_ADDR + GR_PAGE_MAP_BYTES) a = (fin, n)"
  shows "n mod 512 = 0" "n \<le> BYTES_PER_PAGE" "map_addr_ok (a + n)"
proof -
  have N: "BYTES_PER_SECTOR = 512" "BYTES_PER_PAGE = 64 * 512" "GR_PAGE_MAP_BYTES = 15238 * 512" by (simp_all add: geom)
  define M where "M = GR_PAGE_MAP_ADDR"
  have A: "M \<le> a" "a \<le> M + 15238 * 512" "512 dvd a - M" using assms(1) by (auto simp: map_addr_ok_def M_def N)
  from A(3) obtain j where "a - M = 512 * j" by (rule dvdE)
  then obtain k where k: "a = M + 512 * k" "k \<le> 15238" using A(1,2) by (metis add_le_cancel_left le_add_diff_inverse mult.commute mult_le_cancel1 zero_less_numeral)
  have "n = 512 * (15238 - k) \<and> 15238 \<le> k + 64 \<or> n = 512 * 64 \<and> k + 64 < 15238"
  proof (cases "M + 15238 * 512 \<le> M + 512 * k + 64 * 512")
    case True
    have "M + 15238 * 512 - (M + 512 * k) = 512 * (15238 - k)" using k(2) by simp
    then have "n = (512 * (15238 - k) + 512 - 1) div 512 * 512" using assms(2) True by (simp add: pmap_chunk_def N k M_def [symmetric])
    then show ?thesis using True by simp
  next
    case False
    then show ?thesis using assms(2) by (simp add: pmap_chunk_def N k M_def [symmetric])
  qed
  then obtain i where "n = 512 * i" "i \<le> 64" "k + i \<le> 15238"
  proof
    assume "n = 512 * (15238 - k) \<and> 15238 \<le> k + 64"
    moreover from this have "15238 - k \<le> 64" by linarith
    ultimately show thesis using k(2) by (intro that [of "15238 - k"]) simp_all
  next
    assume "n = 512 * 64 \<and> k + 64 < 15238"
    then show thesis by (intro that [of 64]) simp_all
  qed
  then show "n mod 512 = 0" "n \<le> BYTES_PER_PAGE" "map_addr_ok (a + n)" by (simp_all add: N map_addr_ok_def k M_def [symmetric])
qed

lemma logged_refl [simp]: "logged s s"
  by (simp add: logged_def same_meta_def)

lemma finish_logged [simp]: "logged s (on_gfl flash_finish s)"
  by (simp add: logged_def same_meta_def gpage_def gdram_def)

lemma finish_ready [simp]: "log_ready L (on_gfl flash_finish s) = log_ready L s"
  by (simp add: log_ready_def gblank_def)

lemma log_ready_mono: "log_ready L s \<Longrightarrow> L' \<subseteq> L \<Longrightarrow> log_ready L' s"
  unfolding log_ready_def Let_def by (meson subsetD)

lemma log_pmap_banks_result:
  assumes hw: "flash_ok greedy_layout hw" and i: "lbn < MAPBLKS_PER_BANK"
  shows "distinct banks \<Longrightarrow> \<forall>b \<in> set banks. b < NUM_BANKS \<and> (b, lbn) \<in> L \<Longrightarrow> map_addr_ok a \<Longrightarrow> log_ready L s
    \<Longrightarrow> \<exists>fin a' t. log_pmap_banks hw lbn banks a s = Some (fin, a', t) \<and> map_addr_ok a' \<and> logged s t \<and> log_ready (L - UNIV \<times> {lbn}) t"
proof (induction banks arbitrary: L a s)
  case Nil
  have "log_ready (L - UNIV \<times> {lbn}) s" by (rule log_ready_mono [OF Nil(4)]) auto
  then show ?case using Nil by (intro exI [of _ False]) simp
next
  case (Cons b banks)
  have lr: "log_ready (L - UNIV \<times> {lbn}) s" by (rule log_ready_mono [OF Cons(5)]) auto
  show ?case
  proof (cases "GR_PAGE_MAP_ADDR + GR_PAGE_MAP_BYTES \<le> a")
    case True
    then show ?thesis using Cons(4) lr by (intro exI [of _ True]) simp
  next
    case False
    obtain fin n where c: "pmap_chunk (GR_PAGE_MAP_ADDR + GR_PAGE_MAP_BYTES) a = (fin, n)" by fastforce
    note C = pmap_chunk_ok [OF Cons(4) c]
    have b: "b < NUM_BANKS" "(b, lbn) \<in> L" using Cons(3) by simp_all
    have a: "GR_PAGE_MAP_ADDR \<le> a" "(a - GR_PAGE_MAP_ADDR) mod 512 = 0" using Cons(4) by (simp_all add: map_addr_ok_def)
    from log_pmap_page_result [OF hw b(1) i Cons(5) b(2) a C(1,2)] obtain s1 where
      s1: "log_pmap_page hw lbn b a n s = Some s1" "logged s s1" "log_ready (L - {(b, lbn)}) s1" by blast
    show ?thesis
    proof (cases fin)
      case True
      have "log_ready (L - UNIV \<times> {lbn}) s1" by (rule log_ready_mono [OF s1(3)]) auto
      then show ?thesis using \<open>\<not> _ \<le> a\<close> c s1(1,2) C(3) True by (intro exI [of _ True]) simp
    next
      case goon: False
      have r: "\<forall>b' \<in> set banks. b' < NUM_BANKS \<and> (b', lbn) \<in> L - {(b, lbn)}" "distinct banks" using Cons(2,3) by auto
      have e: "L - {(b, lbn)} - UNIV \<times> {lbn} = L - UNIV \<times> {lbn}" by auto
      from Cons(1) [OF r(2,1) C(3) s1(3), unfolded e] logged_trans [OF s1(2)] show ?thesis using False c s1(1) goon by force
    qed
  qed
qed

lemma log_pmap_lbns_result:
  assumes hw: "flash_ok greedy_layout hw"
  shows "distinct lbns \<Longrightarrow> \<forall>i \<in> set lbns. i < MAPBLKS_PER_BANK \<Longrightarrow> {..<NUM_BANKS} \<times> set lbns \<subseteq> L \<Longrightarrow> map_addr_ok a \<Longrightarrow> log_ready L s
    \<Longrightarrow> \<exists>t. log_pmap_lbns hw lbns a s = Some t \<and> logged s t \<and> log_ready {} t"
proof (induction lbns arbitrary: L a s)
  case Nil
  have "log_ready {} s" by (rule log_ready_mono [OF Nil(5)]) simp
  then show ?case by simp
next
  case (Cons i lbns)
  have i: "i < MAPBLKS_PER_BANK" using Cons(3) by simp
  have b: "\<forall>b \<in> set [0..<NUM_BANKS]. b < NUM_BANKS \<and> (b, i) \<in> L" using Cons(4) by auto
  have f: "log_ready L (on_gfl flash_finish s)" using Cons(6) by simp
  from log_pmap_banks_result [OF hw i distinct_upt b Cons(5) f] obtain fin a' s1 where
    s1: "log_pmap_banks hw i [0..<NUM_BANKS] a (on_gfl flash_finish s) = Some (fin, a', s1)" "map_addr_ok a'" "logged (on_gfl flash_finish s) s1"
      "log_ready (L - UNIV \<times> {i}) s1" by blast
  note l1 = logged_trans [OF finish_logged s1(3)]
  show ?case
  proof (cases fin)
    case True
    have "log_ready {} s1" by (rule log_ready_mono [OF s1(4)]) simp
    then show ?thesis using s1(1) l1 True by simp
  next
    case False
    have r: "\<forall>j \<in> set lbns. j < MAPBLKS_PER_BANK" "distinct lbns" "{..<NUM_BANKS} \<times> set lbns \<subseteq> L - UNIV \<times> {i}" using Cons(2-4) by auto
    from Cons(1) [OF r(2,1,3) s1(2,4)] logged_trans [OF l1] show ?thesis using s1(1) False by force
  qed
qed

lemma logging_pmap_table_result:
  assumes hw: "flash_ok greedy_layout hw" and "log_ready UNIV s"
  shows "\<exists>t. logging_pmap_table hw s = Some t \<and> logged s t \<and> log_ready {} t"
proof -
  have "map_addr_ok GR_PAGE_MAP_ADDR" by (simp add: map_addr_ok_def)
  from log_pmap_lbns_result [OF hw distinct_upt _ _ this assms(2), of 0 MAPBLKS_PER_BANK] obtain t where
    "log_pmap_lbns hw [0..<MAPBLKS_PER_BANK] GR_PAGE_MAP_ADDR s = Some t" "logged s t" "log_ready {} t" by auto
  then show ?thesis using logged_trans [OF _ finish_logged] by (auto simp: logging_pmap_table_def)
qed

lemma set_gdram_twice [simp]: "set_gdram d (set_gdram e s) = set_gdram d s"
  by (simp add: set_gdram_def)

lemma log_misc_bank_result:
  assumes hw: "flash_ok greedy_layout hw" and b: "b < NUM_BANKS" and m: "cur_miscblk_vpn (g_misc_meta s b) = PAGES_PER_VBLK - 1" and a: "a mod 4 = 0"
  shows "\<exists>a' t. log_misc_bank hw sram b (a, s) = Some (a', t) \<and> a' mod 4 = 0 \<and> logged s t \<and> gpage t = gpage s
    \<and> (\<forall>c. cur_miscblk_vpn (g_misc_meta t c) = (if c = b then PAGES_PER_VBLK else cur_miscblk_vpn (g_misc_meta s c)))"
proof -
  have N: "NUM_MISC_META_SECT * BYTES_PER_SECTOR = 1024" "NUM_VCOUNT_SECT * BYTES_PER_SECTOR = 4608" "PAGES_PER_VBLK div PAGES_PER_VBLK = MISCBLK_VBN"
    "wrap32 (PAGES_PER_VBLK - 1 + 1) = PAGES_PER_VBLK" "1024 + 4608 \<le> BYTES_PER_PAGE" "4608 \<le> MU_MAX_BYTES" "DRAM_ECC_UNIT = 128"
    by (simp_all add: geom MISCBLK_VBN_def wrap32_id MU_MAX_BYTES_def DRAM_ECC_UNIT_def)
  define s1 where "s1 = set_misc b (\<lambda>m. m\<lparr>cur_miscblk_vpn := wrap32 (cur_miscblk_vpn m + 1)\<rparr>) s"
  have s1: "cur_miscblk_vpn (g_misc_meta s1 b) = PAGES_PER_VBLK" using m N(4) by (simp add: s1_def)
  define d where "d = (\<lambda>x. if FTL_BUF b \<le> x \<and> x < FTL_BUF b + 1024 then meta_array sram s1 b ((x - FTL_BUF b) div 4) else gdram s x)"
  define e where "e = (\<lambda>x. if FTL_BUF b + 1024 \<le> x \<and> x < FTL_BUF b + 1024 + 4608 then d (a + (x - (FTL_BUF b + 1024))) else d x)"
  have md: "sram_to_dram (FTL_BUF b) (meta_array sram s1 b) 1024 (gdram s1) = Some d"
    using ftl_buf(2) [OF b] N(6) by (simp add: sram_to_dram_def d_def fun_eq_iff s1_def)
  have "(FTL_BUF b + 1024) mod 4 = 0" using ftl_buf(2) [OF b] by presburger
  then have me: "dram_move (FTL_BUF b + 1024) a 4608 d = Some e" using a N(6) by (simp add: dram_move_def e_def N(7) fun_eq_iff)
  define t where "t = (if a \<le> VCOUNT_ADDR + VCOUNT_BYTES then set_gdram e s1 else set_gdram d s1)"
  define a' where "a' = (if a \<le> VCOUNT_ADDR + VCOUNT_BYTES then a + 4608 else a)"
  have "log_misc_bank hw sram b (a, s) = Some (a', t)"
    using md me s1 N(3) unfolding log_misc_bank_def Let_def prod.case N(1,2) s1_def [symmetric] by (simp add: t_def a'_def)
  moreover have "a' mod 4 = 0" using a by (simp add: a'_def) presburger
  moreover have "d x = gdram s x" "e x = gdram s x" if "BAD_BLK_BMP_ADDR \<le> x" for x
    using ftl_buf(3) [OF b] N(5) that by (simp_all add: d_def e_def)
  then have "same_meta s t" by (simp add: same_meta_def t_def)
  then have "logged s t" by (simp add: logged_def) (simp add: t_def s1_def)
  moreover have "gpage t = gpage s" by (simp add: t_def s1_def)
  moreover have "cur_miscblk_vpn (g_misc_meta t c) = (if c = b then PAGES_PER_VBLK else cur_miscblk_vpn (g_misc_meta s c))" for c
    using s1 by (simp add: t_def) (simp add: s1_def)
  ultimately show ?thesis by (intro exI [of _ a'] exI [of _ t]) simp
qed

lemma program_misc_bank_result:
  assumes hw: "flash_ok greedy_layout hw" and b: "b < NUM_BANKS" and m: "cur_miscblk_vpn (g_misc_meta s b) = PAGES_PER_VBLK" "gblank s b PAGES_PER_VBLK"
    and g: "1 < gc_vblock (g_misc_meta s b)"
  shows "\<exists>t. program_misc_bank hw b s = Some t \<and> logged s t \<and> g_misc_meta t = g_misc_meta s
    \<and> (\<forall>c < NUM_BANKS. c \<noteq> b \<longrightarrow> gpage t c PAGES_PER_VBLK = gpage s c PAGES_PER_VBLK)"
proof -
  have N: "1 < VBLKS_PER_BANK" "0 < PAGES_PER_VBLK" "(NUM_MISC_META_SECT + NUM_VCOUNT_SECT) * 512 \<le> BYTES_PER_PAGE" "1 * PAGES_PER_VBLK + 0 = PAGES_PER_VBLK"
    "PAGES_PER_VBLK div PAGES_PER_VBLK = 1" by (simp_all add: geom)
  from log_program [OF hw b N(1-3), unfolded N(4), OF m(2)] obtain t where
    t: "flash_do (nand_page_ptprogram hw b 1 0 0 (NUM_MISC_META_SECT + NUM_VCOUNT_SECT) (FTL_BUF b)) s = Some t" "same_meta s t" "g_misc_meta t = g_misc_meta s"
      "\<forall>c < NUM_BANKS. \<forall>r. (c, r) \<noteq> (b, PAGES_PER_VBLK) \<longrightarrow> gpage t c r = gpage s c r" by blast
  have "gpage t c r = gpage s c r" if "c < NUM_BANKS" "r div PAGES_PER_VBLK = 0 \<or> gc_vblock (g_misc_meta s c) \<le> r div PAGES_PER_VBLK" for c r
  proof -
    have "(c, r) \<noteq> (b, PAGES_PER_VBLK)" using that(2) N(5) g by auto
    then show ?thesis using t(4) that(1) by blast
  qed
  then have "logged s t" using t(2,3) by (simp add: logged_def)
  then show ?thesis using t m(1) N(5) by (auto simp: program_misc_bank_def)
qed

lemma logging_misc_metadata_result:
  assumes hw: "flash_ok greedy_layout hw" and L: "log_ready {} s"
  shows "\<exists>t. logging_misc_metadata hw sram s = Some t \<and> logged s t"
proof -
  have N: "VCOUNT_ADDR mod 4 = 0" "0 < MAPBLKS_PER_BANK" by (simp_all add: geom)
  define s0 where "s0 = on_gfl flash_finish s"
  have L0: "log_ready {} s0" "logged s s0" using L by (simp_all add: s0_def)
  have g: "1 < gc_vblock (g_misc_meta s0 b)" if "b < NUM_BANKS" for b
    using log_readyD(1,2) [OF L0(1) that N(2)] by simp
  let ?I = "\<lambda>b x. fst x mod 4 = 0 \<and> logged s0 (snd x) \<and> gpage (snd x) = gpage s0
    \<and> (\<forall>c < NUM_BANKS. cur_miscblk_vpn (g_misc_meta (snd x) c) = (if c < b then PAGES_PER_VBLK else PAGES_PER_VBLK - 1))"
  have i0: "?I 0 (VCOUNT_ADDR, s0)" using log_readyD(7) [OF L0(1)] N(1) by simp
  have step: "\<exists>x'. log_misc_bank hw sram b x = Some x' \<and> ?I (Suc b) x'" if b: "b < NUM_BANKS" and I: "?I b x" for b x
  proof -
    have "cur_miscblk_vpn (g_misc_meta (snd x) b) = PAGES_PER_VBLK - 1" "fst x mod 4 = 0" using I b by simp_all
    from log_misc_bank_result [OF hw b this, where sram = sram, unfolded prod.collapse] obtain a' t where t: "log_misc_bank hw sram b x = Some (a', t)" "a' mod 4 = 0" "logged (snd x) t" "gpage t = gpage (snd x)"
      "\<forall>c. cur_miscblk_vpn (g_misc_meta t c) = (if c = b then PAGES_PER_VBLK else cur_miscblk_vpn (g_misc_meta (snd x) c))" by (elim exE conjE) (rule that)
    then show ?thesis using I logged_trans [of s0 "snd x" t] by (intro exI [of _ "(a', t)"]) auto
  qed
  have "\<exists>x'. each (log_misc_bank hw sram) [0..<NUM_BANKS] (VCOUNT_ADDR, s0) = Some x' \<and> ?I NUM_BANKS x'"
    by (rule each_upt [where f = "log_misc_bank hw sram" and I = ?I, OF _ i0 le0]) (rule step)
  then obtain x1 where x1: "each (log_misc_bank hw sram) [0..<NUM_BANKS] (VCOUNT_ADDR, s0) = Some x1" "?I NUM_BANKS x1" by (elim exE conjE) (rule that, simp_all)
  define s1 where "s1 = snd x1"
  have s1: "each (log_misc_bank hw sram) [0..<NUM_BANKS] (VCOUNT_ADDR, s0) = Some (fst x1, s1)" "logged s0 s1" "gpage s1 = gpage s0"
      "\<forall>c < NUM_BANKS. cur_miscblk_vpn (g_misc_meta s1 c) = PAGES_PER_VBLK" using x1 by (simp_all add: s1_def)
  let ?J = "\<lambda>b t. logged s1 t \<and> g_misc_meta t = g_misc_meta s1 \<and> (\<forall>c < NUM_BANKS. b \<le> c \<longrightarrow> gblank t c PAGES_PER_VBLK)"
  have bl: "gblank s1 c PAGES_PER_VBLK" if "c < NUM_BANKS" for c using log_readyD(8) [OF L0(1) that] s1(3) gblank_cong by metis
  then have j0: "?J 0 s1" by simp
  have step2: "\<exists>t'. program_misc_bank hw b t = Some t' \<and> ?J (Suc b) t'" if b: "b < NUM_BANKS" and J: "?J b t" for b t
  proof -
    have "cur_miscblk_vpn (g_misc_meta t b) = PAGES_PER_VBLK" "gblank t b PAGES_PER_VBLK" "1 < gc_vblock (g_misc_meta t b)"
      using J b s1(4) g [OF b] s1(2) by (simp_all add: logged_def)
    from program_misc_bank_result [OF hw b this] obtain t' where t': "program_misc_bank hw b t = Some t'" "logged t t'" "g_misc_meta t' = g_misc_meta t"
      "\<forall>c < NUM_BANKS. c \<noteq> b \<longrightarrow> gpage t' c PAGES_PER_VBLK = gpage t c PAGES_PER_VBLK" by blast
    have "gblank t' c PAGES_PER_VBLK" if "c < NUM_BANKS" "Suc b \<le> c" for c
    proof -
      have "gpage t' c PAGES_PER_VBLK = gpage t c PAGES_PER_VBLK" "gblank t c PAGES_PER_VBLK" using t'(4) J that by simp_all
      then show ?thesis using gblank_cong by metis
    qed
    then show ?thesis using t'(1,3) J logged_trans [OF _ t'(2)] by auto
  qed
  from each_upt [where f = "program_misc_bank hw" and I = ?J, OF step2 j0 le0] obtain t where
    t: "each (program_misc_bank hw) [0..<NUM_BANKS] s1 = Some t" "logged s1 t" by blast
  have "logged s (on_gfl flash_finish t)" by (rule logged_trans [OF logged_trans [OF L0(2) logged_trans [OF s1(2) t(2)]] finish_logged])
  then show ?thesis using s1(1) t(1) by (simp add: logging_misc_metadata_def s0_def)
qed

text \<open>The mark goes to a page of block 0 of bank 0.\<close>

lemma gr_write_format_mark_result:
  assumes mk: "mark_law hw" and bl: "gblank s 0 (FW_PAGE_OFFSET + fw)"
  shows "\<exists>t. gr_write_format_mark hw fw s = Some t \<and> same_meta s t \<and> g_misc_meta t = g_misc_meta s
    \<and> (\<forall>c < NUM_BANKS. \<forall>r. (c, r) \<noteq> (0, FW_PAGE_OFFSET + fw) \<longrightarrow> gpage t c r = gpage s c r)"
proof -
  define d where "d = (\<lambda>x. if GR_FTL_BUF_ADDR \<le> x \<and> x < GR_FTL_BUF_ADDR + BYTES_PER_SECTOR then 0 else gdram s x)"
  have fill: "dram_fill GR_FTL_BUF_ADDR 0 BYTES_PER_SECTOR (gdram s) = Some d" by (simp add: dram_fill_def d_def geom)
  define x where "x = plane_cmd hw FC_COL_ROW_IN_PROG (FO_E + FO_B_W_DRDY) GR_FTL_BUF_ADDR BYTES_PER_SECTOR 0 (FW_PAGE_OFFSET + fw) (gfl (set_gdram d s))"
  have bl': "blank (nand (gfl (set_gdram d s))) (REAL_BANK 0) (FW_PAGE_OFFSET + fw)" using bl by (simp add: gblank_def)
  note P = plane_program [OF mk bl', where a = GR_FTL_BUF_ADDR and n = BYTES_PER_SECTOR, folded x_def]
  define t where "t = on_gfl (\<lambda>f. log (Wait_Bank (REAL_BANK 0)) (log Wait_Room f)) (on_gfl (\<lambda>_. x) s)"
  have "gr_write_format_mark hw fw s = Some t"
    using fill unfolding gr_write_format_mark_def t_def x_def plane_cmd_def Let_def on_gfl_def by (simp add: set_gdram_def)
  moreover have dx: "gdram t y = d y" for y using P(2) by (simp add: t_def gdram_def set_gdram_def)
  have "same_meta s t" unfolding same_meta_def dx by (simp add: d_def geom)
  moreover have "g_misc_meta t = g_misc_meta s" by (simp add: t_def)
  moreover have "0 < NUM_BANKS" by (simp add: geom)
  then have "gpage t c r = gpage s c r" if "c < NUM_BANKS" "(c, r) \<noteq> (0, FW_PAGE_OFFSET + fw)" for c r
    using P(1) that REAL_BANK_inj [OF that(1), of 0] by (auto simp: only_page_def gpage_def t_def)
  ultimately show ?thesis by blast
qed

subsection \<open>The invariant holds\<close>

lemma fresh_bank_ok:
  assumes b: "b < NUM_BANKS" and f: "fresh_bank s b" and e: "\<And>v. v \<in> rest s b 0 \<Longrightarrow> \<forall>r. r div PAGES_PER_VBLK = v \<longrightarrow> gblank s b r"
    and z: "\<forall>l < NUM_LPAGES. vpn_of t l = 0" "lpns t b 0 = 0"
    and t: "\<forall>w < VBLKS_PER_BANK. vcnt t b w = vcnt s b w \<and> gbad t b w = gbad s b w"
      "cur_write_vpn (g_misc_meta t b) = cur_write_vpn (g_misc_meta s b)" "gc_vblock (g_misc_meta t b) = gc_vblock (g_misc_meta s b)"
      "free_blk_cnt (g_misc_meta t b) = free_blk_cnt (g_misc_meta s b)"
    and p: "\<forall>r. gc_vblock (g_misc_meta s b) \<le> r div PAGES_PER_VBLK \<longrightarrow> gpage t b r = gpage s b r"
  shows "bank_ok t b (cur_write_vpn (g_misc_meta t b) mod PAGES_PER_VBLK + 1)"
proof -
  define gc where "gc = gc_vblock (g_misc_meta s b)"
  define D where "D = rest s b gc"
  from f obtain cb where F: "META_BLKS_PER_BANK \<le> gc" "gc < VBLKS_PER_BANK" "\<not> gbad s b gc" "next_good s b gc cb" "cur_write_vpn (g_misc_meta s b) = cb * PAGES_PER_VBLK"
    "free_blk_cnt (g_misc_meta s b) = 1 + card D" "1935 \<le> card D" "\<forall>w < VBLKS_PER_BANK. vcnt s b w = (if w \<in> D then 0 else VC_MAX)"
    unfolding fresh_bank_def Let_def gc_def [symmetric] D_def [symmetric] by blast
  have cb: "gc < cb" "cb < VBLKS_PER_BANK" "D = insert cb (rest s b cb)" using F(4) by (simp_all add: next_good_def D_def)
  have c: "cur_write_vpn (g_misc_meta t b) div PAGES_PER_VBLK = cb" "cur_write_vpn (g_misc_meta t b) mod PAGES_PER_VBLK + 1 = 1"
    unfolding t(2) F(5) by (simp_all add: geom)
  have Dv: "v \<in> D \<longleftrightarrow> gc < v \<and> v < VBLKS_PER_BANK \<and> \<not> gbad s b v" for v by (simp add: D_def rest_def)
  have bl: "gblank t b (v * PAGES_PER_VBLK + q)" if "v \<in> insert gc D" "q < PAGES_PER_VBLK" for v q
  proof -
    have v: "gc \<le> v" "v < VBLKS_PER_BANK" "\<not> gbad s b v" using that(1) Dv [of v] F(2,3) by auto
    have "0 < v" using v(1) F(1) by (simp add: geom)
    then have "v \<in> rest s b 0" using v by (simp add: rest_def)
    then have "gblank s b (v * PAGES_PER_VBLK + q)" using e that(2) by simp
    moreover have "gpage t b (v * PAGES_PER_VBLK + q) = gpage s b (v * PAGES_PER_VBLK + q)" using p v(1) that(2) by (simp add: gc_def)
    ultimately show ?thesis using gblank_cong by metis
  qed
  have cbD: "cb \<in> D" using cb(3) by simp
  have ok: "blocks_ok t b {} cb 1"
    unfolding blocks_ok_def
  proof (intro conjI)
    show "\<forall>l < NUM_LPAGES. l mod NUM_BANKS = b \<and> vpn_of t l \<noteq> 0 \<longrightarrow> home t b {} cb 1 l" using z(1) by simp
    show "\<forall>p < 1. entry_ok b p (lpns t b p)" using z(2) by (simp add: entry_ok_def geom)
    show "\<forall>p. 1 \<le> p \<and> p < PAGES_PER_VBLK \<longrightarrow> gblank t b (cb * PAGES_PER_VBLK + p)" using bl cbD by simp
  qed (use F(1) cb(1,2) in simp_all)
  have co: "counts_ok t b D"
  proof (rule counts_okI)
    show "v \<in> D \<longleftrightarrow> v < VBLKS_PER_BANK \<and> vcnt t b v \<noteq> VC_MAX" for v using t(1) F(8) Dv [of v] by (auto simp: VC_MAX_def)
    show "\<not> gbad t b v" if "v \<in> D" for v using that t(1) Dv [of v] by simp
    show "vcnt t b v = card (holders t b v)" if "v \<in> D" for v
    proof -
      have "holders t b v = {}" using z(1) by (auto simp: holders_def)
      then show ?thesis using that t(1) F(8) Dv [of v] by simp
    qed
    show "1935 \<le> card D" by (rule F(7))
  qed
  have so: "spare_ok t b D"
    using F(1-3) t(1) bl unfolding spare_ok_def Let_def t(3) gc_def [symmetric] by (simp add: Dv)
  have U: "rest s b cb = {v \<in> D. cb < v}"
  proof (rule set_eqI)
    fix w
    have "cb < w \<Longrightarrow> gc < w" using cb(1) by linarith
    then show "w \<in> rest s b cb \<longleftrightarrow> w \<in> {v \<in> D. cb < v}" unfolding mem_Collect_eq Dv rest_def by blast
  qed
  have n: "free_blk_cnt (g_misc_meta t b) = 2 + card (rest s b cb)"
  proof -
    have "cb \<notin> rest s b cb" by (simp add: rest_def)
    then have "card (insert cb (rest s b cb)) = Suc (card (rest s b cb))" by simp
    then show ?thesis unfolding t(4) F(6) cb(3) [symmetric] by simp
  qed
  have D: "D = insert cb ({} \<union> rest s b cb)" using cb(3) by (simp only: Un_empty_left)
  show ?thesis unfolding c(2)
  proof (rule bank_okI [OF c(1) ok co so D])
    show "gblank t b (v * PAGES_PER_VBLK + q)" if "v \<in> rest s b cb" "q < PAGES_PER_VBLK" for v q
      using bl [of v q] that unfolding U by blast
    show "cb \<notin> rest s b cb" by (simp add: rest_def)
    show "rest s b cb = {} \<or> rest s b cb = {v \<in> D. cb < v}" by (rule disjI2) (rule U)
    show "free_blk_cnt (g_misc_meta t b) = 2 + card (rest s b cb)" by (rule n)
  qed simp
qed

text \<open>The format up to the assignment of the blocks.\<close>

lemma gr_format_blocks:
  assumes hw: "flash_ok greedy_layout hw"
    and n: "\<forall>b < NUM_BANKS. \<not> gbad s b 0 \<and> \<not> gbad s b 1 \<and> g_bad_blk_count s b = card (bits_of s b) \<and> card (bits_of s b) \<le> 108"
  shows "\<exists>d1 d2 s2 t. dram_fill GR_PAGE_MAP_ADDR 0 GR_PAGE_MAP_BYTES (gdram s) = Some d1 \<and> dram_fill VCOUNT_ADDR 0 VCOUNT_BYTES d1 = Some d2
    \<and> each (\<lambda>v. each (gr_format_block hw v) [0..<NUM_BANKS]) [MISCBLK_VBN..<VBLKS_PER_BANK] (set_gdram d2 s) = Some s2 \<and> init_metadata_sram s2 = Some t
    \<and> (\<forall>b < NUM_BANKS. fresh_bank t b \<and> meta_fresh t b \<and> lpns t b = lpns s b) \<and> (\<forall>l < NUM_LPAGES. vpn_of t l = 0)
    \<and> (\<forall>b < NUM_BANKS. \<forall>v < VBLKS_PER_BANK. gbad t b v = gbad s b v) \<and> (\<forall>b < NUM_BANKS. \<forall>r < PAGES_PER_VBLK. gpage t b r = gpage s b r)
    \<and> (\<forall>b < NUM_BANKS. \<forall>v \<in> rest t b 0. \<forall>r. r div PAGES_PER_VBLK = v \<longrightarrow> gblank t b r)"
proof -
  define d1 where "d1 = (\<lambda>a. if GR_PAGE_MAP_ADDR \<le> a \<and> a < GR_PAGE_MAP_ADDR + GR_PAGE_MAP_BYTES then 0 else gdram s a)"
  define d2 where "d2 = (\<lambda>a. if VCOUNT_ADDR \<le> a \<and> a < VCOUNT_ADDR + VCOUNT_BYTES then 0 else d1 a)"
  have fill: "dram_fill GR_PAGE_MAP_ADDR 0 GR_PAGE_MAP_BYTES (gdram s) = Some d1" "dram_fill VCOUNT_ADDR 0 VCOUNT_BYTES d1 = Some d2"
    unfolding dram_fill_def d1_def [symmetric] d2_def [symmetric] by (simp_all add: geom)
  define s1 where "s1 = set_gdram d2 s"
  have v1: "vpn_of s1 l = 0" if "l < NUM_LPAGES" for l
    using map_addr_g [OF that] by (simp add: vpn_of_def s1_def d2_def d1_def) (simp add: geom)
  have b1: "gbad s1 b v = gbad s b v" if "b < NUM_BANKS" "v < VBLKS_PER_BANK" for b v
    using bad_bit_addr [OF that] by (simp add: gbad_def dram_bit_def s1_def d2_def d1_def) (simp add: geom)
  have s1: "gpage s1 = gpage s" "g_misc_meta s1 = g_misc_meta s" "g_bad_blk_count s1 = g_bad_blk_count s" by (simp_all add: s1_def)
  from format_rows [OF hw] obtain s2 where s2: "each (\<lambda>v. each (gr_format_block hw v) [0..<NUM_BANKS]) [MISCBLK_VBN..<VBLKS_PER_BANK] s1 = Some s2"
    "format_frame s1 s2" "\<forall>v b. 1 \<le> v \<and> v < VBLKS_PER_BANK \<and> b < NUM_BANKS \<longrightarrow> erased v b s2" by blast
  have b2: "gbad s2 b v = gbad s b v" if "b < NUM_BANKS" "v < VBLKS_PER_BANK" for b v using s2(2) b1 [OF that] that by (simp add: format_frame_def)
  have N: "0 < NUM_BANKS" "0 < VBLKS_PER_BANK" "1 < VBLKS_PER_BANK" "PAGES_PER_VBLK div PAGES_PER_VBLK = 1" by (simp_all add: geom)
  have n2: "\<not> gbad s2 b 0 \<and> \<not> gbad s2 b 1 \<and> g_bad_blk_count s2 b = card (bits_of s2 b) \<and> card (bits_of s2 b) \<le> 108
      \<and> (\<forall>w. 1 \<le> w \<and> w < VBLKS_PER_BANK \<longrightarrow> vcnt s2 b w = (if gbad s2 b w then VC_MAX else 0))" if b: "b < NUM_BANKS" for b
  proof -
    have "bits_of s2 b = bits_of s b" by (rule bits_of_cong) (use b2 b in simp)
    moreover have "g_bad_blk_count s2 = g_bad_blk_count s" using s2(2) s1(3) by (simp add: format_frame_def)
    ultimately show ?thesis using n [rule_format, OF b] b2 [OF b] N s2(3) b by (simp add: erased_def)
  qed
  then have "\<forall>b < NUM_BANKS. \<not> gbad s2 b 0 \<and> \<not> gbad s2 b 1 \<and> g_bad_blk_count s2 b = card (bits_of s2 b) \<and> card (bits_of s2 b) \<le> 108
      \<and> (\<forall>w. 1 \<le> w \<and> w < VBLKS_PER_BANK \<longrightarrow> vcnt s2 b w = (if gbad s2 b w then VC_MAX else 0))" by blast
  from init_metadata_sram_result [OF this] obtain s3 where s3: "init_metadata_sram s2 = Some s3" "sram_frame s2 s3" "\<forall>b < NUM_BANKS. fresh_bank s3 b \<and> meta_fresh s3 b" by blast
  have b3: "gbad s3 b v = gbad s b v" if "b < NUM_BANKS" "v < VBLKS_PER_BANK" for b v using s3(2) b2 [OF that] that by (simp add: sram_frame_def)
  have e3: "\<forall>r. r div PAGES_PER_VBLK = v \<longrightarrow> gblank s3 b r" if "b < NUM_BANKS" "v \<in> rest s3 b 0" for b v
  proof -
    have v: "1 \<le> v" "v < VBLKS_PER_BANK" "\<not> gbad s2 b v" using that b2 [OF that(1)] b3 [OF that(1)] by (auto simp: rest_def)
    have "gpage s3 = gpage s2" using s3(2) by (simp add: sram_frame_def)
    then show ?thesis using s2(3) v that(1) gblank_cong [of s3 b _ s2] by (simp add: erased_def)
  qed
  have "vpn_of s3 l = 0" if "l < NUM_LPAGES" for l using s3(2) s2(2) v1 that by (simp add: sram_frame_def format_frame_def)
  moreover have "gpage s3 b r = gpage s b r" if "b < NUM_BANKS" "r < PAGES_PER_VBLK" for b r
    using s3(2) s2(2) s1(1) that by (simp add: sram_frame_def format_frame_def)
  moreover have "lpns s3 b = lpns s b" if "b < NUM_BANKS" for b using s3(2) s2(2) s1(2) that by (simp add: sram_frame_def format_frame_def)
  ultimately show ?thesis using fill s2(1) s3(1,3) b3 e3 unfolding s1_def
    by (intro exI [of _ d1] exI [of _ d2] exI [of _ s2] exI [of _ s3]) simp
qed

lemma fresh_log_ready:
  assumes f: "\<forall>b < NUM_BANKS. fresh_bank s b \<and> meta_fresh s b" and g: "\<forall>b < NUM_BANKS. \<not> gbad s b 1"
    and e: "\<forall>b < NUM_BANKS. \<forall>v \<in> rest s b 0. \<forall>r. r div PAGES_PER_VBLK = v \<longrightarrow> gblank s b r"
  shows "log_ready UNIV s"
proof (rule log_readyI)
  have N: "1 < VBLKS_PER_BANK" "PAGES_PER_VBLK div PAGES_PER_VBLK = 1" by (simp_all add: geom)
  fix c assume c: "c < NUM_BANKS"
  obtain v' where m: "v' < gc_vblock (g_misc_meta s c)" "map_blocks (rest s c 0) (cur_mapblk_vpn (g_misc_meta s c)) 0 1 v'"
    "cur_miscblk_vpn (g_misc_meta s c) = PAGES_PER_VBLK - 1" "gc_vblock (g_misc_meta s c) < VBLKS_PER_BANK"
    using f c by (auto simp: meta_fresh_def fresh_bank_def Let_def)
  have "1 \<in> rest s c 0" using g c N(1) by (simp add: rest_def)
  then show "gc_vblock (g_misc_meta s c) < VBLKS_PER_BANK \<and> cur_miscblk_vpn (g_misc_meta s c) = PAGES_PER_VBLK - 1 \<and> gblank s c PAGES_PER_VBLK"
    using e c m(3,4) N(2) by blast
  fix i assume i: "i < MAPBLKS_PER_BANK"
  have M: "cur_mapblk_vpn (g_misc_meta s c) i div PAGES_PER_VBLK \<in> rest s c 0" "1 < cur_mapblk_vpn (g_misc_meta s c) i div PAGES_PER_VBLK"
    "cur_mapblk_vpn (g_misc_meta s c) i div PAGES_PER_VBLK \<le> v'" "cur_mapblk_vpn (g_misc_meta s c) i mod PAGES_PER_VBLK = 0"
    using m(2) i by (simp_all add: map_blocks_def)
  show "1 < cur_mapblk_vpn (g_misc_meta s c) i div PAGES_PER_VBLK \<and> cur_mapblk_vpn (g_misc_meta s c) i div PAGES_PER_VBLK < gc_vblock (g_misc_meta s c)"
    using M m(1) by simp
  show "cur_mapblk_vpn (g_misc_meta s c) i mod PAGES_PER_VBLK = 0 \<and> gblank s c (cur_mapblk_vpn (g_misc_meta s c) i + 1)"
    using M(4) e c M(1) next_row(1) [OF M(4)] by blast
  show "cur_mapblk_vpn (g_misc_meta s c) i div PAGES_PER_VBLK \<noteq> cur_mapblk_vpn (g_misc_meta s c) j div PAGES_PER_VBLK" if j: "j < MAPBLKS_PER_BANK" "i \<noteq> j" for j
  proof (cases "i < j")
    case True
    then show ?thesis using m(2) j unfolding map_blocks_def by (metis le0 less_irrefl)
  next
    case False
    then have "j < i" using j(2) by simp
    then show ?thesis using m(2) i unfolding map_blocks_def by (metis le0 less_irrefl)
  qed
qed

lemma gr_format_result:
  assumes hw: "flash_ok greedy_layout hw" and mk: "mark_law hw" and bl: "gblank s 0 (FW_PAGE_OFFSET + fw)" "FW_PAGE_OFFSET + fw < PAGES_PER_VBLK"
    and n: "\<forall>b < NUM_BANKS. \<not> gbad s b 0 \<and> \<not> gbad s b 1 \<and> g_bad_blk_count s b = card (bits_of s b) \<and> card (bits_of s b) \<le> 108" and l: "\<forall>b < NUM_BANKS. lpns s b 0 = 0"
  shows "\<exists>t. gr_format hw sram fw s = Some t \<and> gr_inv t \<and> (\<forall>l < NUM_LPAGES. vpn_of t l = 0) \<and> (\<forall>b < NUM_BANKS. \<forall>v < VBLKS_PER_BANK. gbad t b v = gbad s b v)
    \<and> (\<forall>b < NUM_BANKS. lpns t b 0 = 0)"
proof -
  from gr_format_blocks [OF hw n] obtain d1 d2 s2 s3 where
    s3: "dram_fill GR_PAGE_MAP_ADDR 0 GR_PAGE_MAP_BYTES (gdram s) = Some d1" "dram_fill VCOUNT_ADDR 0 VCOUNT_BYTES d1 = Some d2"
      "each (\<lambda>v. each (gr_format_block hw v) [0..<NUM_BANKS]) [MISCBLK_VBN..<VBLKS_PER_BANK] (set_gdram d2 s) = Some s2" "init_metadata_sram s2 = Some s3"
    and fr: "\<forall>b < NUM_BANKS. fresh_bank s3 b \<and> meta_fresh s3 b \<and> lpns s3 b = lpns s b" "\<forall>l < NUM_LPAGES. vpn_of s3 l = 0"
      "\<forall>b < NUM_BANKS. \<forall>v < VBLKS_PER_BANK. gbad s3 b v = gbad s b v" "\<forall>b < NUM_BANKS. \<forall>r < PAGES_PER_VBLK. gpage s3 b r = gpage s b r"
      "\<forall>b < NUM_BANKS. \<forall>v \<in> rest s3 b 0. \<forall>r. r div PAGES_PER_VBLK = v \<longrightarrow> gblank s3 b r" by blast
  have N: "0 < NUM_BANKS" "1 < VBLKS_PER_BANK" by (simp_all add: geom)
  have "log_ready UNIV s3" by (rule fresh_log_ready) (use fr n N(2) in simp_all)
  from logging_pmap_table_result [OF hw this] obtain s4 where s4: "logging_pmap_table hw s3 = Some s4" "logged s3 s4" "log_ready {} s4" by blast
  from logging_misc_metadata_result [OF hw s4(3), of sram] obtain s5 where s5: "logging_misc_metadata hw sram s4 = Some s5" "logged s4 s5" by blast
  note L = logged_trans [OF s4(2) s5(2)]
  have "(FW_PAGE_OFFSET + fw) div PAGES_PER_VBLK = 0" using bl(2) by simp
  then have "gpage s5 0 (FW_PAGE_OFFSET + fw) = gpage s3 0 (FW_PAGE_OFFSET + fw)" using L N(1) by (simp add: logged_def)
  also have "\<dots> = gpage s 0 (FW_PAGE_OFFSET + fw)" using fr(4) N(1) bl(2) by simp
  finally have "gblank s5 0 (FW_PAGE_OFFSET + fw)" using bl(1) gblank_cong by metis
  from gr_write_format_mark_result [OF mk this] obtain t where t: "gr_write_format_mark hw fw s5 = Some t" "same_meta s5 t" "g_misc_meta t = g_misc_meta s5"
    "\<forall>c < NUM_BANKS. \<forall>r. (c, r) \<noteq> (0, FW_PAGE_OFFSET + fw) \<longrightarrow> gpage t c r = gpage s5 c r" by blast
  have "0 < NUM_MISC_META_SECT" "0 < NUM_VCOUNT_SECT" by (simp_all add: geom)
  then have run: "gr_format hw sram fw s = Some t" using s3 s4(1) s5(1) t(1) by (simp add: gr_format_def)
  have sm: "same_meta s3 t" using L t(2) by (simp add: logged_def same_meta_def)
  note V = same_meta_views [OF sm]
  have vz: "vpn_of t l = 0" if "l < NUM_LPAGES" for l using V(1) [OF that] fr(2) that by simp
  have bt: "gbad t b v = gbad s b v" if "b < NUM_BANKS" "v < VBLKS_PER_BANK" for b v using V(3) [OF that] fr(3) that by simp
  have lt: "lpns t b 0 = 0" if b: "b < NUM_BANKS" for b
  proof -
    have "lpns t b = lpns s b" using L t(3) fr(1) b by (simp add: logged_def)
    then show ?thesis using l b by simp
  qed
  have "bank_ok t b (cur_write_vpn (g_misc_meta t b) mod PAGES_PER_VBLK + 1)" if b: "b < NUM_BANKS" for b
  proof (rule fresh_bank_ok [where s = s3])
    have fb: "fresh_bank s3 b" using fr(1) b by blast
    then show "fresh_bank s3 b" .
    have g: "0 < gc_vblock (g_misc_meta s3 b)" using fb by (simp add: fresh_bank_def Let_def geom)
    show "\<forall>r. gc_vblock (g_misc_meta s3 b) \<le> r div PAGES_PER_VBLK \<longrightarrow> gpage t b r = gpage s3 b r"
    proof (intro allI impI)
      fix r assume r: "gc_vblock (g_misc_meta s3 b) \<le> r div PAGES_PER_VBLK"
      have "(b, r) \<noteq> (0, FW_PAGE_OFFSET + fw)" using r g bl(2) by auto
      then have "gpage t b r = gpage s5 b r" using t(4) b by blast
      also have "\<dots> = gpage s3 b r" using L b r by (simp add: logged_def)
      finally show "gpage t b r = gpage s3 b r" .
    qed
    show "\<forall>r. r div PAGES_PER_VBLK = v \<longrightarrow> gblank s3 b r" if "v \<in> rest s3 b 0" for v using fr(5) b that by blast
  qed (use L t(3) V vz lt b in \<open>simp_all add: logged_def\<close>)
  moreover have "map_ok t" using vz by (simp add: map_ok_def geom)
  ultimately have "gr_inv t" by (simp add: gr_inv_def)
  then show ?thesis using run vz bt lt by blast
qed
text \<open>\<open>ftl_open\<close> itself: the list of bad blocks, the format and the registers.\<close>

lemma gr_ftl_open_result:
  assumes hw: "flash_ok greedy_layout hw" and mk: "mark_law hw" and bl: "gblank s 0 (FW_PAGE_OFFSET + fw)" "FW_PAGE_OFFSET + fw < PAGES_PER_VBLK"
    and l: "\<forall>b < NUM_BANKS. lpns s b 0 = 0"
    and n: "\<forall>t. build_bad_blk_list hw bsp s = Some t \<longrightarrow> (\<forall>b < NUM_BANKS. \<not> gbad t b 1 \<and> card (bits_of t b) \<le> 108)"
  shows "\<exists>t s'. build_bad_blk_list hw bsp s = Some t \<and> gr_ftl_open hw bsp sram fw s = Some s' \<and> gr_inv s' \<and> (\<forall>l < NUM_LPAGES. vpn_of s' l = 0)
    \<and> (\<forall>b < NUM_BANKS. \<forall>v < VBLKS_PER_BANK. gbad s' b v = gbad t b v) \<and> g_ftl_read_buf_id (gfl s') = 0 \<and> g_ftl_write_buf_id (gfl s') = 0"
proof -
  from build_bad_blk_list_result [OF hw] obtain t where t: "build_bad_blk_list hw bsp s = Some t" "gpage t = gpage s" "g_misc_meta t = g_misc_meta s"
    "\<forall>b < NUM_BANKS. \<not> gbad t b 0 \<and> g_bad_blk_count t b = card (bits_of t b)" by blast
  have "gblank t 0 (FW_PAGE_OFFSET + fw)" using bl(1) t(2) gblank_cong by metis
  moreover have "\<forall>b < NUM_BANKS. \<not> gbad t b 0 \<and> \<not> gbad t b 1 \<and> g_bad_blk_count t b = card (bits_of t b) \<and> card (bits_of t b) \<le> 108" using t(4) n t(1) by blast
  moreover have "\<forall>b < NUM_BANKS. lpns t b 0 = 0" using l t(3) by simp
  ultimately obtain u where u: "gr_format hw sram fw t = Some u" "gr_inv u" "\<forall>l < NUM_LPAGES. vpn_of u l = 0"
    "\<forall>b < NUM_BANKS. \<forall>v < VBLKS_PER_BANK. gbad u b v = gbad t b v" using gr_format_result [OF hw mk _ bl(2)] by blast
  define s' where "s' = on_gfl (SETREG FCONF_PAUSE (FIRQ_DATA_CORRUPT + FIRQ_BADBLK_L + FIRQ_BADBLK_H)) (on_gfl (SETREG INTR_MASK (FIRQ_DATA_CORRUPT + FIRQ_BADBLK_L + FIRQ_BADBLK_H))
    (on_gfl flash_clear_irq (on_gfl (\<lambda>f. f\<lparr>g_ftl_read_buf_id := 0, g_ftl_write_buf_id := 0\<rparr>) u)))"
  have sc: "gr_sanity_check = Some ()" by (simp add: gr_sanity_check_def geom)
  have run: "gr_ftl_open hw bsp sram fw s = Some s'" using t(1) u(1) unfolding gr_ftl_open_def sc by (simp add: Let_def s'_def)
  have k: "gdram s' = gdram u" "g_misc_meta s' = g_misc_meta u" "gpage s' = gpage u" "g_ftl_read_buf_id (gfl s') = 0" "g_ftl_write_buf_id (gfl s') = 0"
    by (simp_all add: s'_def gdram_def gpage_def fun_eq_iff SETREG_def log_def)
  have "gr_inv s'" by (rule same_inv(2) [OF _ k(2,3) u(2)]) (simp add: same_meta_def k(1))
  moreover have "vpn_of s' = vpn_of u" "gbad s' = gbad u" by (simp_all add: fun_eq_iff vpn_of_def gbad_def k(1))
  ultimately show ?thesis using t(1) run u(3,4) k(4,5) by (intro exI [of _ t] exI [of _ s']) simp
qed

subsection \<open>A new device, for the witness\<close>

text \<open>A flash that holds no list of bad blocks: nothing is marked.\<close>

lemma ref_scan_word: "dram (plane_cmd hw_ref FC_COL_ROW_READ_OUT FO_E GR_TEMP_BUF_ADDR SCAN_LIST_SIZE b r f) GR_TEMP_BUF_ADDR = pages (nand f) (REAL_BANK b) r 0"
  by (simp add: plane_cmd_def fcp_issue_def set_fcp_def setup_fcp_def log_def hw_ref_def Let_def split_beta fc_codes dma_range_def sub32_id geom)

definition gr_new :: gstate where
  "gr_new = \<lparr>gfl = fstate0, g_misc_meta = (\<lambda>_. \<lparr>cur_write_vpn = 0, cur_miscblk_vpn = 0, cur_mapblk_vpn = (\<lambda>_. 0), gc_vblock = 0, free_blk_cnt = 0,
       lpn_list_of_cur_vblock = (\<lambda>_. 0)\<rparr>), g_ftl_statistics = (\<lambda>_. \<lparr>gc_cnt = 0, page_wcount = 0\<rparr>), g_bad_blk_count = (\<lambda>_. 0)\<rparr>"

lemma gr_new_blank: "gpage gr_new b r x = 0xFFFFFFFF" "gblank gr_new b r" "lpns gr_new b p = 0"
  by (simp_all add: gpage_def gblank_def blank_def gr_new_def fstate0_def nand0_def)

lemma set_gdram_same [simp]: "set_gdram (gdram s) s = s"
  by (simp add: set_gdram_def gdram_def)

lemma no_list:
  assumes "ld16 GR_TEMP_BUF_ADDR (gdram s) = 0xFFFF"
  shows "check_scan_list bsp b s = Some (0, s)" "v < VBLKS_PER_BANK \<Longrightarrow> mark_bad_block 0 b v s = Some s"
proof -
  show "check_scan_list bsp b s = Some (0, s)" using assms temp_head(1) by (simp add: check_scan_list_def rd16_def geom)
  assume v: "v < VBLKS_PER_BANK"
  have "search_equ 2 GR_TEMP_BUF_ADDR (0 + 1) k (gdram s) = Some 1" if "k \<noteq> 0xFFFF" for k
    using assms that temp_buf(4) by (simp add: search_equ_def first_equ_def item_def wrap32_id MU_MAX_BYTES_def)
  moreover have "v * NUM_PLANES \<noteq> 0xFFFF" "v * NUM_PLANES + 1 \<noteq> 0xFFFF" using v by (simp_all add: geom)
  ultimately show "mark_bad_block 0 b v s = Some s" unfolding mark_bad_block_def by simp
qed

lemma build_blank_bank:
  assumes b: "b < NUM_BANKS" and s: "\<forall>c < NUM_BANKS. \<forall>v < VBLKS_PER_BANK. \<not> gbad s c v" and p: "gpage s = gpage gr_new"
  shows "\<exists>t. build_bad_blk_bank hw_ref bsp b s = Some t \<and> gpage t = gpage gr_new \<and> (\<forall>c < NUM_BANKS. \<forall>v < VBLKS_PER_BANK. \<not> gbad t c v)"
proof -
  define s1 where "s1 = on_gfl (\<lambda>f. log (Wait_Bank (REAL_BANK b)) (log Wait_Room f)) (on_gfl (plane_cmd hw_ref FC_COL_ROW_READ_OUT FO_E GR_TEMP_BUF_ADDR SCAN_LIST_SIZE b SCAN_LIST_PAGE_OFFSET) s)"
  define t where "t = s1\<lparr>g_bad_blk_count := (g_bad_blk_count s1)(b := 0)\<rparr>"
  note R = plane_read [OF hw_ref_ok [of greedy_layout] temp_buf(1,2), where opt = FO_E and b = b and r = SCAN_LIST_PAGE_OFFSET and f = "gfl s"]
  have "gdram s1 GR_TEMP_BUF_ADDR = gpage s b SCAN_LIST_PAGE_OFFSET 0" by (simp add: s1_def gdram_def gpage_def ref_scan_word)
  then have "gdram s1 GR_TEMP_BUF_ADDR = 0xFFFFFFFF" using p gr_new_blank(1) by simp
  moreover have "aligned_addr GR_TEMP_BUF_ADDR = GR_TEMP_BUF_ADDR" "GR_TEMP_BUF_ADDR mod 4 = 0" by (simp_all add: aligned_addr_def geom)
  ultimately have w: "ld16 GR_TEMP_BUF_ADDR (gdram s1) = 0xFFFF" by (simp add: ld16_def)
  then have wt: "ld16 GR_TEMP_BUF_ADDR (gdram t) = 0xFFFF" by (simp add: t_def gdram_def)
  have "(1::nat) \<le> VBLKS_PER_BANK" by (simp add: geom)
  from each_upt [where f = "mark_bad_block 0 b" and I = "\<lambda>_ x. x = t" and m = 1, OF _ refl this] no_list(2) [OF wt]
  have "each (mark_bad_block 0 b) [1..<VBLKS_PER_BANK] t = Some t" by simp
  then have "build_bad_blk_bank hw_ref bsp b s = Some t"
    using no_list(1) [OF w, of bsp b] unfolding build_bad_blk_bank_def Let_def s1_def plane_cmd_def on_gfl_def t_def by (simp del: upt_rec_numeral)
  moreover have "gpage t = gpage gr_new" using R(1) p by (simp add: t_def s1_def gpage_def fun_eq_iff)
  moreover have "\<not> gbad t c v" if "c < NUM_BANKS" "v < VBLKS_PER_BANK" for c v
  proof -
    have "GR_PAGE_MAP_ADDR < 4294967296" by (simp add: geom)
    then have "bits_kept (gdram s) (gdram t)" using R(2) temp_buf(3) by (simp add: bits_kept_def t_def s1_def gdram_def)
    then show ?thesis using bits_kept_gbad that s by blast
  qed
  ultimately show ?thesis by blast
qed

lemma gr_new_good:
  assumes "build_bad_blk_list hw_ref bsp gr_new = Some t" and "b < NUM_BANKS"
  shows "bits_of t b = {}"
proof -
  let ?I = "\<lambda>_ t. gpage t = gpage gr_new \<and> (\<forall>c < NUM_BANKS. \<forall>v < VBLKS_PER_BANK. \<not> gbad t c v)"
  have i0: "?I 0 (no_bits gr_new)" using no_bits_clear by simp
  from each_upt [where f = "build_bad_blk_bank hw_ref bsp" and I = ?I, OF _ i0 le0, of NUM_BANKS] build_blank_bank assms(1)
  have "?I NUM_BANKS t" unfolding build_bad_blk_list_eq by fastforce
  then show ?thesis using assms(2) by (simp add: bits_of_def)
qed

subsection \<open>The property\<close>



end
