(* ===== verification/Req_Server.thy ===== *)
theory Req_Server
  imports Client_Lib Compute_Cmd
begin

text \<open>
  The server process (\<open>PCModule2/server/reqPRoutine.c\<close>, \<open>issd_server_main.c\<close>, \<open>dispatchReqPacket\<close> of
  \<open>reqQueue.c\<close>): the map from devices to process routines, the work list of a routine with its mutex and
  condition variable, statement by statement against the main thread, the routine that runs a request
  and answers its client, and the server as a whole. Threads and system calls are steps and parameters.
\<close>

subsection \<open>The device of a request\<close>

record devEntry =
  de_name :: string
  used :: bool
  flag :: bool

record devmap =
  timer_expired :: bool
  dev2thd :: "devEntry list"

text \<open>
  \<open>/dev/sdb1\<close> becomes \<open>sdb\<close>: the first five characters and one digit at the end go. \<open>None\<close> is undefined:
  a name of at most five characters leaves nothing whose last character could be tested.
\<close>

definition realDev :: "string \<Rightarrow> string option" where
  "realDev name =
     (if length name \<le> 5 then None
      else let r = drop 5 name in Some (if isdigit (last r) then butlast r else r))"

definition refresh :: "devEntry list \<Rightarrow> devEntry list" where
  "refresh t = List.map (\<lambda>e. (if used e \<and> \<not> flag e then e\<lparr>used := False\<rparr> else e)\<lparr>flag := False\<rparr>) t"

text \<open>The search loop from entry \<open>i\<close> on: the entry found, or the first unused one (-1 when there is none).\<close>

fun dev_scan :: "string \<Rightarrow> devEntry list \<Rightarrow> nat \<Rightarrow> int \<Rightarrow> nat + int" where
  "dev_scan r [] i first_unused = Inr first_unused"
| "dev_scan r (e # es) i first_unused =
     (if \<not> used e \<and> first_unused = -1 then dev_scan r es (i + 1) (int i)
      else if used e \<and> de_name e = r then Inl i
      else dev_scan r es (i + 1) first_unused)"

definition getProcessRoutineIdx :: "nat \<Rightarrow> string \<Rightarrow> devmap \<Rightarrow> (int \<times> devmap) option" where
  "getProcessRoutineIdx num devn m =
     (case realDev devn of
        None \<Rightarrow> None
      | Some r \<Rightarrow>
          (let m = (if timer_expired m then m\<lparr>dev2thd := refresh (dev2thd m), timer_expired := False\<rparr> else m);
               t = dev2thd m in
           Some (case dev_scan r t 0 (-1) of
               Inl i \<Rightarrow> (int (i mod num), m\<lparr>dev2thd := t[i := (t ! i)\<lparr>flag := True\<rparr>]\<rparr>)
             | Inr u \<Rightarrow>
                 if u = -1 then (-1, m)
                 else (int (nat u mod num), m\<lparr>dev2thd := t[nat u := \<lparr>de_name = r, used = True, flag = True\<rparr>]\<rparr>))))"

definition alarm_handler :: "devmap \<Rightarrow> devmap" where
  "alarm_handler m = m\<lparr>timer_expired := True\<rparr>"

definition init_dev2Routine :: "nat \<Rightarrow> devmap" where
  "init_dev2Routine num =
     \<lparr>timer_expired = False, dev2thd = replicate (num * 2) \<lparr>de_name = '''', used = False, flag = False\<rparr>\<rparr>"

text \<open>The entry a device has.\<close>

definition entry_of :: "devEntry list \<Rightarrow> string \<Rightarrow> nat option" where
  "entry_of t r = (case dev_scan r t 0 (-1) of Inl i \<Rightarrow> Some i | Inr _ \<Rightarrow> None)"

definition has_entry :: "string \<Rightarrow> devEntry \<Rightarrow> bool" where
  "has_entry r e \<longleftrightarrow> used e \<and> de_name e = r"

definition map_ok :: "devEntry list \<Rightarrow> bool" where
  "map_ok t \<longleftrightarrow> (\<forall>i < length t. \<forall>j < length t. used (t ! i) \<and> used (t ! j) \<and> de_name (t ! i) = de_name (t ! j) \<longrightarrow> i = j)"

lemma dev_scan_Inl:
  "dev_scan r t i u = Inl k \<longleftrightarrow> i \<le> k \<and> k < i + length t \<and> has_entry r (t ! (k - i)) \<and> (\<forall>j < k - i. \<not> has_entry r (t ! j))"
proof (induction t arbitrary: i u)
  case (Cons e es)
  show ?case
  proof (cases "has_entry r e")
    case True
    then have "dev_scan r (e # es) i u = Inl i" by (auto simp: has_entry_def)
    moreover have "k = i" if "\<forall>j < k - i. \<not> has_entry r ((e # es) ! j)" "i \<le> k"
      using that True by (cases "k - i") auto
    ultimately show ?thesis using True by auto
  next
    case False
    then have "dev_scan r (e # es) i u = dev_scan r es (i + 1) (if \<not> used e \<and> u = -1 then int i else u)" by (auto simp: has_entry_def)
    then obtain u' where "dev_scan r (e # es) i u = dev_scan r es (i + 1) u'" by blast
    moreover have "(i + 1 \<le> k \<and> k < i + 1 + length es \<and> has_entry r (es ! (k - (i + 1))) \<and> (\<forall>j < k - (i + 1). \<not> has_entry r (es ! j)))
       \<longleftrightarrow> (i \<le> k \<and> k < i + length (e # es) \<and> has_entry r ((e # es) ! (k - i)) \<and> (\<forall>j < k - i. \<not> has_entry r ((e # es) ! j)))"
    proof (cases "k - i")
      case 0
      then show ?thesis using False by auto
    next
      case (Suc m)
      then have "k - (i + 1) = m" by simp
      then show ?thesis using Suc False by (auto simp: All_less_Suc2 simp del: All_less_Suc)
    qed
    ultimately show ?thesis using Cons.IH by simp
  qed
qed simp

lemma dev_scan_Inr:
  "dev_scan r t i u = Inr v \<Longrightarrow> (\<forall>j < length t. \<not> has_entry r (t ! j))
     \<and> (u \<noteq> -1 \<longrightarrow> v = u)
     \<and> (u = -1 \<longrightarrow> (v = -1 \<and> (\<forall>j < length t. used (t ! j)))
          \<or> (\<exists>j < length t. v = int (i + j) \<and> \<not> used (t ! j) \<and> (\<forall>k < j. used (t ! k))))"
proof (induction t arbitrary: i u)
  case (Cons e es)
  from Cons.prems have ne: "\<not> has_entry r e" by (auto simp: has_entry_def split: if_splits)
  show ?case
  proof (cases "\<not> used e \<and> u = -1")
    case True
    with Cons.prems have "dev_scan r es (i + 1) (int i) = Inr v" by simp
    from Cons.IH [OF this] True ne show ?thesis by (auto simp: All_less_Suc2 simp del: All_less_Suc)
  next
    case False
    with Cons.prems have "dev_scan r es (i + 1) u = Inr v" by (auto split: if_splits)
    from Cons.IH [OF this] have IH: "\<forall>j < length es. \<not> has_entry r (es ! j)" "u \<noteq> -1 \<Longrightarrow> v = u"
      "u = -1 \<Longrightarrow> (v = -1 \<and> (\<forall>j < length es. used (es ! j)))
          \<or> (\<exists>j < length es. v = int (i + 1 + j) \<and> \<not> used (es ! j) \<and> (\<forall>k < j. used (es ! k)))" by blast+
    show ?thesis
    proof (cases "u = -1")
      case True
      then have e: "used e" using False by simp
      from IH(3) [OF True] show ?thesis
      proof
        assume "v = -1 \<and> (\<forall>j < length es. used (es ! j))"
        then show ?thesis using IH(1) ne e True by (auto simp: All_less_Suc2 simp del: All_less_Suc)
      next
        assume "\<exists>j < length es. v = int (i + 1 + j) \<and> \<not> used (es ! j) \<and> (\<forall>k < j. used (es ! k))"
        then obtain j where j: "j < length es" "v = int (i + 1 + j)" "\<not> used (es ! j)" "\<forall>k < j. used (es ! k)" by blast
        then have "Suc j < length (e # es) \<and> v = int (i + Suc j) \<and> \<not> used ((e # es) ! Suc j) \<and> (\<forall>k < Suc j. used ((e # es) ! k))"
          using e by (simp add: All_less_Suc2 del: All_less_Suc)
        then have "\<exists>j < length (e # es). v = int (i + j) \<and> \<not> used ((e # es) ! j) \<and> (\<forall>k < j. used ((e # es) ! k))" by blast
        moreover have "\<forall>j < length (e # es). \<not> has_entry r ((e # es) ! j)" using IH(1) ne by (simp add: All_less_Suc2 del: All_less_Suc)
        ultimately show ?thesis using True by simp
      qed
    next
      case False
      then show ?thesis using IH(1,2) ne by (auto simp: All_less_Suc2 simp del: All_less_Suc)
    qed
  qed
qed auto

lemma entry_of_iff: "map_ok t \<Longrightarrow> entry_of t r = Some i \<longleftrightarrow> i < length t \<and> has_entry r (t ! i)"
proof -
  assume ok: "map_ok t"
  have "entry_of t r = Some i \<longleftrightarrow> dev_scan r t 0 (-1) = Inl i" by (simp add: entry_of_def split: sum.split)
  also have "\<dots> \<longleftrightarrow> i < length t \<and> has_entry r (t ! i)"
    using ok unfolding dev_scan_Inl map_ok_def has_entry_def by (auto dest: less_trans)
  finally show ?thesis .
qed

lemma entry_of_None_iff: "map_ok t \<Longrightarrow> entry_of t r = None \<longleftrightarrow> (\<forall>i < length t. \<not> has_entry r (t ! i))"
  using entry_of_iff [of t r] by (metis not_None_eq)

lemma map_okD: "map_ok t \<Longrightarrow> i < length t \<Longrightarrow> j < length t \<Longrightarrow> used (t ! i) \<Longrightarrow> used (t ! j) \<Longrightarrow> de_name (t ! i) = de_name (t ! j) \<Longrightarrow> i = j"
  unfolding map_ok_def by blast

lemma map_ok_subset:
  assumes "map_ok t" "length t' = length t" "\<And>k. k < length t \<Longrightarrow> used (t' ! k) \<Longrightarrow> used (t ! k) \<and> de_name (t' ! k) = de_name (t ! k)"
  shows "map_ok t'"
  unfolding map_ok_def using map_okD [OF assms(1)] assms(2,3) by metis

lemma map_ok_refresh: "map_ok t \<Longrightarrow> map_ok (refresh t)"
  by (erule map_ok_subset) (auto simp: refresh_def split: if_splits)

lemma map_ok_flag: "map_ok t \<Longrightarrow> map_ok (t[i := (t ! i)\<lparr>flag := b\<rparr>])"
proof (erule map_ok_subset)
  fix k assume "k < length t" "used (t[i := (t ! i)\<lparr>flag := b\<rparr>] ! k)"
  then show "used (t ! k) \<and> de_name (t[i := (t ! i)\<lparr>flag := b\<rparr>] ! k) = de_name (t ! k)" by (cases "k = i") simp_all
qed simp

lemma map_ok_insert:
  assumes "map_ok t" and new: "\<forall>i < length t. \<not> has_entry r (t ! i)"
  shows "map_ok (t[j := \<lparr>de_name = r, used = True, flag = b\<rparr>])" (is "map_ok ?t")
proof -
  have new': "used (t ! i) \<Longrightarrow> de_name (t ! i) = r \<Longrightarrow> i < length t \<Longrightarrow> False" for i using new by (simp add: has_entry_def)
  have at: "?t ! i = (if i = j then \<lparr>de_name = r, used = True, flag = b\<rparr> else t ! i)" if "i < length t" for i
    using that by (simp add: nth_list_update)
  have "k = l" if "k < length t" "l < length t" "used (?t ! k)" "used (?t ! l)" "de_name (?t ! k) = de_name (?t ! l)" for k l
  proof -
    consider "k = l" | "k = j" "l \<noteq> j" | "k \<noteq> j" "l = j" | "k \<noteq> j" "l \<noteq> j" by blast
    then show ?thesis
    proof cases
      case 2 then show ?thesis using that new' [of l] by (simp add: at)
    next
      case 3 then show ?thesis using that new' [of k] by (simp add: at)
    next
      case 4 then show ?thesis using that map_okD [OF assms(1), of k l] by (simp add: at)
    qed
  qed
  then show ?thesis unfolding map_ok_def length_list_update by blast
qed

lemma entry_of_update:
  assumes "map_ok t" "map_ok (t[j := e])" "j < length t" "\<not> has_entry q e" "\<not> has_entry q (t ! j)"
  shows "entry_of (t[j := e]) q = entry_of t q"
proof -
  have "entry_of (t[j := e]) q = Some i \<longleftrightarrow> entry_of t q = Some i" for i
    using assms by (auto simp: entry_of_iff nth_list_update)
  then show ?thesis by (metis not_None_eq)
qed

lemma device_lookup_result:
  assumes "realDev devn = Some r" and "map_ok (dev2thd m)" and "t = (if timer_expired m then refresh (dev2thd m) else dev2thd m)"
  shows "\<exists>idx m'. getProcessRoutineIdx num devn m = Some (idx, m') \<and> map_ok (dev2thd m') \<and> \<not> timer_expired m'
    \<and> length (dev2thd m') = length (dev2thd m) \<and> (\<forall>q. q \<noteq> r \<longrightarrow> entry_of (dev2thd m') q = entry_of t q)
    \<and> (case entry_of t r of
         Some i \<Rightarrow> idx = int (i mod num) \<and> dev2thd m' = t[i := (t ! i)\<lparr>flag := True\<rparr>] \<and> entry_of (dev2thd m') r = Some i
       | None \<Rightarrow> if \<forall>j < length t. used (t ! j) then idx = -1 \<and> dev2thd m' = t
           else (\<exists>j < length t. \<not> used (t ! j) \<and> (\<forall>k < j. used (t ! k)) \<and> idx = int (j mod num) \<and> entry_of (dev2thd m') r = Some j))"
proof -
  have ok: "map_ok t" and len: "length t = length (dev2thd m)" using assms(2,3) by (simp_all add: map_ok_refresh) (simp add: refresh_def)
  let ?m = "if timer_expired m then m\<lparr>dev2thd := refresh (dev2thd m), timer_expired := False\<rparr> else m"
  have m: "dev2thd ?m = t" "\<not> timer_expired ?m" by (simp_all add: assms(3))
  show ?thesis
  proof (cases "dev_scan r t 0 (-1)")
    case (Inl i)
    then have e: "entry_of t r = Some i" by (simp add: entry_of_def)
    then have i: "i < length t" "has_entry r (t ! i)" using ok by (simp_all add: entry_of_iff)
    have 1: "getProcessRoutineIdx num devn m = Some (int (i mod num), ?m\<lparr>dev2thd := t[i := (t ! i)\<lparr>flag := True\<rparr>]\<rparr>)"
      unfolding getProcessRoutineIdx_def assms(1) option.case Let_def m Inl sum.case ..
    have 2: "map_ok (t[i := (t ! i)\<lparr>flag := True\<rparr>])" using ok by (rule map_ok_flag)
    have 3: "entry_of (t[i := (t ! i)\<lparr>flag := True\<rparr>]) q = entry_of t q" if "q \<noteq> r" for q
      using i that by (intro entry_of_update [OF ok 2]) (auto simp: has_entry_def)
    have 4: "entry_of (t[i := (t ! i)\<lparr>flag := True\<rparr>]) r = Some i"
      using i by (simp add: entry_of_iff [OF 2] has_entry_def)
    show ?thesis unfolding 1 using 2 3 4 e m len by simp
  next
    case (Inr u)
    note scan = dev_scan_Inr [OF Inr]
    have e: "entry_of t r = None" by (simp add: entry_of_def Inr)
    show ?thesis
    proof (cases "u = -1")
      case True
      then have all: "\<forall>j < length t. used (t ! j)" using scan by force
      have "getProcessRoutineIdx num devn m = Some (-1, ?m)"
        unfolding getProcessRoutineIdx_def assms(1) option.case Let_def m Inr sum.case if_P [OF True] ..
      then show ?thesis using ok m len e all by simp
    next
      case False
      then obtain j where j: "j < length t" "u = int j" "\<not> used (t ! j)" "\<forall>k < j. used (t ! k)" using scan by auto
      let ?e = "\<lparr>de_name = r, used = True, flag = True\<rparr>"
      have 1: "getProcessRoutineIdx num devn m = Some (int (j mod num), ?m\<lparr>dev2thd := t[j := ?e]\<rparr>)"
        unfolding getProcessRoutineIdx_def assms(1) option.case Let_def m Inr sum.case if_not_P [OF False] unfolding j(2) nat_int ..
      have 2: "map_ok (t[j := ?e])" using ok scan by (intro map_ok_insert) auto
      have 3: "entry_of (t[j := ?e]) q = entry_of t q" if "q \<noteq> r" for q
        using j that by (intro entry_of_update [OF ok 2]) (auto simp: has_entry_def)
      have 4: "entry_of (t[j := ?e]) r = Some j" using j by (simp add: entry_of_iff [OF 2] has_entry_def)
      have 5: "\<not> (\<forall>j < length t. used (t ! j))" using j by blast
      show ?thesis unfolding 1 e option.case if_not_P [OF 5] using 2 3 4 j m len by auto
    qed
  qed
qed

text \<open>
  C35. \<open>getProcessRoutineIdx\<close>: after the hourly refresh, if one is due, a device that has an entry keeps it
  and is marked; a new device takes the first unused entry; a new device finds no routine (-1) exactly when
  all entries are used. No device ever has two entries and the entries of the other devices stay.
\<close>

theorem device_lookup:
  assumes "realDev devn = Some r" and "map_ok (dev2thd m)" and "t = (if timer_expired m then refresh (dev2thd m) else dev2thd m)"
  shows "\<exists>idx m'. getProcessRoutineIdx num devn m = Some (idx, m') \<and> map_ok (dev2thd m') \<and> \<not> timer_expired m'
    \<and> length (dev2thd m') = length (dev2thd m) \<and> (\<forall>q. q \<noteq> r \<longrightarrow> entry_of (dev2thd m') q = entry_of t q)
    \<and> (case entry_of t r of
         Some i \<Rightarrow> idx = int (i mod num) \<and> dev2thd m' = t[i := (t ! i)\<lparr>flag := True\<rparr>] \<and> entry_of (dev2thd m') r = Some i
       | None \<Rightarrow> if \<forall>j < length t. used (t ! j) then idx = -1 \<and> dev2thd m' = t
           else (\<exists>j < length t. \<not> used (t ! j) \<and> (\<forall>k < j. used (t ! k)) \<and> idx = int (j mod num) \<and> entry_of (dev2thd m') r = Some j))"
  by (rule device_lookup_result [OF assms])

theorem device_lookup_witness:
  "\<exists>m'. getProcessRoutineIdx 10 ''/dev/sdb1'' (init_dev2Routine 10) = Some (0, m') \<and> entry_of (dev2thd m') ''sdb'' = Some 0"
proof -
  have r: "realDev ''/dev/sdb1'' = Some ''sdb''" by (simp add: realDev_def isdigit_def)
  have ok: "map_ok (dev2thd (init_dev2Routine 10))" by (auto simp: map_ok_def init_dev2Routine_def)
  have t: "(replicate 20 \<lparr>de_name = '''', used = False, flag = False\<rparr>) = (if timer_expired (init_dev2Routine 10) then refresh (dev2thd (init_dev2Routine 10)) else dev2thd (init_dev2Routine 10))"
    by (simp add: init_dev2Routine_def)
  have none: "entry_of (replicate 20 \<lparr>de_name = '''', used = False, flag = False\<rparr>) ''sdb'' = None"
    using ok by (subst entry_of_None_iff) (auto simp: init_dev2Routine_def has_entry_def)
  have free: "\<not> (\<forall>j < length (replicate 20 \<lparr>de_name = '''', used = False, flag = False\<rparr>). used (replicate 20 \<lparr>de_name = '''', used = False, flag = False\<rparr> ! j))"
    by (intro notI) (drule spec [of _ 0], simp)
  obtain idx m' j where j: "getProcessRoutineIdx 10 ''/dev/sdb1'' (init_dev2Routine 10) = Some (idx, m')" "idx = int (j mod 10)"
    "entry_of (dev2thd m') ''sdb'' = Some j" "\<forall>k < j. used (replicate 20 \<lparr>de_name = '''', used = False, flag = False\<rparr> ! k)" "j < 20"
    using device_lookup [OF r ok t, of 10] unfolding none option.case if_not_P [OF free] by auto
  then have "j = 0" by (cases j) (auto simp: All_less_Suc2 simp del: All_less_Suc)
  then show ?thesis using j by simp
qed

subsection \<open>The work list of a routine\<close>

record 'w routine =
  shutdown :: bool
  reqQueue :: "'w list"

text \<open>Appending walks to the last member.\<close>

fun append_member :: "'w list \<Rightarrow> 'w \<Rightarrow> 'w list" where
  "append_member [] w = [w]"
| "append_member (m # ms) w = m # append_member ms w"

lemma append_member_eq [simp]: "append_member ms w = ms @ [w]"
  by (induction ms) auto

definition queue_work :: "'w \<Rightarrow> 'w routine \<Rightarrow> 'w routine" where
  "queue_work w pR = pR\<lparr>reqQueue := append_member (reqQueue pR) w\<rparr>"

definition next_work :: "'w routine \<Rightarrow> ('w \<times> 'w routine) option" where
  "next_work pR = (case reqQueue pR of [] \<Rightarrow> None | w # ws \<Rightarrow> Some (w, pR\<lparr>reqQueue := ws\<rparr>))"

interpretation wq: fifo "\<lambda>_. True" "\<lambda>_. True" reqQueue queue_work next_work
  by unfold_locales (auto simp: queue_work_def next_work_def)

subsection \<open>A routine and the main thread, one statement at a time\<close>

text \<open>
  The thread of a routine stands before the statement its constructor names. \<open>W_Sleep\<close> is inside
  \<open>pthread_cond_wait\<close> with the mutex released; \<open>W_Relock\<close> is woken and has to take the mutex again.
\<close>

datatype 'w worker_pc = W_Lock | W_Test | W_Wait | W_Sleep | W_Relock | W_Check | W_Take | W_Unlock 'w | W_Run 'w | W_ExitUnlock | W_Gone

text \<open>The main thread inside \<open>addReqWork2Routine\<close> (\<open>A_\<close>) and \<open>destroyProcessRoutine\<close> (\<open>D_\<close>) of this routine.\<close>

datatype 'w main_pc = M_Idle | A_Lock 'w | A_Append 'w | A_Signal | A_Unlock | D_Set | D_Lock | D_Signal | D_Unlock | D_Join

text \<open>\<open>added\<close>, \<open>started\<close> and \<open>finished\<close> are history variables.\<close>

record 'w rsys =
  pR :: "'w routine"
  queue_lock :: bool
  worker :: "'w worker_pc"
  main_th :: "'w main_pc"
  added :: "'w list"
  started :: "'w list"
  finished :: "'w list"

fun worker_stmt :: "'w rsys \<Rightarrow> 'w rsys option" where
  "worker_stmt s = (case worker s of
     W_Lock \<Rightarrow> if queue_lock s then None else Some (s\<lparr>queue_lock := True, worker := W_Test\<rparr>)
   | W_Test \<Rightarrow> Some (s\<lparr>worker := (if reqQueue (pR s) = [] \<and> \<not> shutdown (pR s) then W_Wait else W_Check)\<rparr>)
   | W_Wait \<Rightarrow> Some (s\<lparr>queue_lock := False, worker := W_Sleep\<rparr>)
   | W_Sleep \<Rightarrow> None
   | W_Relock \<Rightarrow> if queue_lock s then None else Some (s\<lparr>queue_lock := True, worker := W_Test\<rparr>)
   | W_Check \<Rightarrow> Some (s\<lparr>worker := (if shutdown (pR s) then W_ExitUnlock else W_Take)\<rparr>)
   | W_Take \<Rightarrow> (case next_work (pR s) of None \<Rightarrow> None
       | Some (w, r) \<Rightarrow> Some (s\<lparr>pR := r, worker := W_Unlock w, started := started s @ [w]\<rparr>))
   | W_Unlock w \<Rightarrow> Some (s\<lparr>queue_lock := False, worker := W_Run w\<rparr>)
   | W_Run w \<Rightarrow> Some (s\<lparr>worker := W_Lock, finished := finished s @ [w]\<rparr>)
   | W_ExitUnlock \<Rightarrow> Some (s\<lparr>queue_lock := False, worker := W_Gone\<rparr>)
   | W_Gone \<Rightarrow> None)"

text \<open>\<open>pthread_cond_signal\<close> wakes the routine if it sleeps and is lost otherwise.\<close>

definition cond_signal :: "'w rsys \<Rightarrow> 'w rsys" where
  "cond_signal s = (if worker s = W_Sleep then s\<lparr>worker := W_Relock\<rparr> else s)"

fun main_stmt :: "'w rsys \<Rightarrow> 'w rsys option" where
  "main_stmt s = (case main_th s of
     M_Idle \<Rightarrow> None
   | A_Lock w \<Rightarrow> if queue_lock s then None else Some (s\<lparr>queue_lock := True, main_th := A_Append w\<rparr>)
   | A_Append w \<Rightarrow> Some (s\<lparr>pR := queue_work w (pR s), main_th := A_Signal, added := added s @ [w]\<rparr>)
   | A_Signal \<Rightarrow> Some ((cond_signal s)\<lparr>main_th := A_Unlock\<rparr>)
   | A_Unlock \<Rightarrow> Some (s\<lparr>queue_lock := False, main_th := M_Idle\<rparr>)
   | D_Set \<Rightarrow> if shutdown (pR s) then Some (s\<lparr>main_th := M_Idle\<rparr>)
       else Some (s\<lparr>pR := (pR s)\<lparr>shutdown := True\<rparr>, main_th := D_Lock\<rparr>)
   | D_Lock \<Rightarrow> if queue_lock s then None else Some (s\<lparr>queue_lock := True, main_th := D_Signal\<rparr>)
   | D_Signal \<Rightarrow> Some ((cond_signal s)\<lparr>main_th := D_Unlock\<rparr>)
   | D_Unlock \<Rightarrow> Some (s\<lparr>queue_lock := False, main_th := D_Join\<rparr>)
   | D_Join \<Rightarrow> if worker s = W_Gone then Some (s\<lparr>main_th := M_Idle\<rparr>) else None)"

declare worker_stmt.simps [simp del] main_stmt.simps [simp del]

inductive routine_step :: "'w rsys \<Rightarrow> 'w rsys \<Rightarrow> bool" where
  call_add: "main_th s = M_Idle \<Longrightarrow> routine_step s (s\<lparr>main_th := A_Lock w\<rparr>)"
| call_destroy: "main_th s = M_Idle \<Longrightarrow> routine_step s (s\<lparr>main_th := D_Set\<rparr>)"
| run_main: "main_stmt s = Some t \<Longrightarrow> routine_step s t"
| run_worker: "worker_stmt s = Some t \<Longrightarrow> routine_step s t"
| spurious: "worker s = W_Sleep \<Longrightarrow> routine_step s (s\<lparr>worker := W_Relock\<rparr>)"

definition routine_init :: "'w rsys" where
  "routine_init = \<lparr>pR = \<lparr>shutdown = False, reqQueue = []\<rparr>, queue_lock = False, worker = W_Lock, main_th = M_Idle,
     added = [], started = [], finished = []\<rparr>"

inductive routine_reachable :: "'w rsys \<Rightarrow> bool" where
  start: "routine_reachable routine_init"
| step: "routine_reachable s \<Longrightarrow> routine_step s t \<Longrightarrow> routine_reachable t"

fun worker_locks :: "'w worker_pc \<Rightarrow> bool" where
  "worker_locks W_Test = True" | "worker_locks W_Wait = True" | "worker_locks W_Check = True" | "worker_locks W_Take = True"
| "worker_locks (W_Unlock w) = True" | "worker_locks W_ExitUnlock = True" | "worker_locks _ = False"

fun main_locks :: "'w main_pc \<Rightarrow> bool" where
  "main_locks (A_Append w) = True" | "main_locks A_Signal = True" | "main_locks A_Unlock = True"
| "main_locks D_Signal = True" | "main_locks D_Unlock = True" | "main_locks _ = False"

fun in_hand :: "'w worker_pc \<Rightarrow> 'w list" where
  "in_hand (W_Unlock w) = [w]" | "in_hand (W_Run w) = [w]" | "in_hand _ = []"

fun will_signal :: "'w main_pc \<Rightarrow> bool" where
  "will_signal A_Signal = True" | "will_signal D_Lock = True" | "will_signal D_Signal = True" | "will_signal _ = False"

text \<open>
  A routine that sleeps, or is about to, although there is something to do is about to be signalled; the
  list is not empty when its head is taken; the mutex has at most one holder.
\<close>

fun worker_ok :: "'w worker_pc \<Rightarrow> bool \<Rightarrow> bool \<Rightarrow> 'w main_pc \<Rightarrow> bool" where
  "worker_ok W_Sleep work sd m \<longleftrightarrow> (work \<or> sd \<longrightarrow> will_signal m)"
| "worker_ok W_Wait work sd m \<longleftrightarrow> \<not> work \<and> (sd \<longrightarrow> m = D_Lock)"
| "worker_ok W_Check work sd m \<longleftrightarrow> work \<or> sd"
| "worker_ok W_Take work sd m \<longleftrightarrow> work"
| "worker_ok W_ExitUnlock work sd m \<longleftrightarrow> sd"
| "worker_ok W_Gone work sd m \<longleftrightarrow> sd"
| "worker_ok _ work sd m \<longleftrightarrow> True"

fun main_ok :: "'w main_pc \<Rightarrow> bool \<Rightarrow> bool" where
  "main_ok D_Lock sd = sd" | "main_ok D_Signal sd = sd" | "main_ok D_Unlock sd = sd" | "main_ok D_Join sd = sd" | "main_ok _ sd = True"

definition routine_inv :: "'w rsys \<Rightarrow> bool" where
  "routine_inv s \<longleftrightarrow>
     queue_lock s = (worker_locks (worker s) \<or> main_locks (main_th s)) \<and> \<not> (worker_locks (worker s) \<and> main_locks (main_th s)) \<and>
     started s @ reqQueue (pR s) = added s \<and> finished s @ in_hand (worker s) = started s \<and>
     worker_ok (worker s) (reqQueue (pR s) \<noteq> []) (shutdown (pR s)) (main_th s) \<and> main_ok (main_th s) (shutdown (pR s))"

lemma worker_keeps: "routine_inv s \<Longrightarrow> worker_stmt s = Some t \<Longrightarrow> routine_inv t"
  by (cases "worker s"; cases "reqQueue (pR s)") (auto simp: worker_stmt.simps routine_inv_def next_work_def split: if_splits)

lemma main_keeps:
  assumes inv: "routine_inv s" and step: "main_stmt s = Some t"
  shows "routine_inv t"
proof -
  note defs = main_stmt.simps routine_inv_def queue_work_def cond_signal_def
  show ?thesis
  proof (cases "main_th s")
    case M_Idle then show ?thesis using step by (simp add: defs)
  next
    case (A_Lock w) then show ?thesis using inv step by (cases "queue_lock s"; cases "worker s") (simp_all add: defs, auto)
  next
    case (A_Append w) then show ?thesis using inv step by (cases "worker s") (simp_all add: defs, auto)
  next
    case A_Signal then show ?thesis using inv step by (cases "worker s") (simp_all add: defs, auto)
  next
    case A_Unlock then show ?thesis using inv step by (cases "worker s") (simp_all add: defs, auto)
  next
    case D_Set then show ?thesis using inv step by (cases "shutdown (pR s)"; cases "worker s") (simp_all add: defs, auto)
  next
    case D_Lock then show ?thesis using inv step by (cases "queue_lock s"; cases "worker s") (simp_all add: defs, auto)
  next
    case D_Signal then show ?thesis using inv step by (cases "worker s") (simp_all add: defs, auto)
  next
    case D_Unlock then show ?thesis using inv step by (cases "worker s") (simp_all add: defs, auto)
  next
    case D_Join then show ?thesis using inv step by (cases "worker s") (simp_all add: defs, auto)
  qed
qed

lemma routine_inv: "routine_reachable s \<Longrightarrow> routine_inv s"
proof (induction rule: routine_reachable.induct)
  case start
  then show ?case by (simp add: routine_inv_def routine_init_def)
next
  case (step s t)
  from step.hyps(2) step.IH show ?case
  proof cases
    case run_main then show ?thesis using main_keeps step.IH by blast
  next
    case run_worker then show ?thesis using worker_keeps step.IH by blast
  next
    case (call_add w) then show ?thesis using step.IH by (cases "worker s") (auto simp: routine_inv_def)
  next
    case call_destroy then show ?thesis using step.IH by (cases "worker s") (auto simp: routine_inv_def)
  next
    case spurious then show ?thesis using step.IH by (simp add: routine_inv_def)
  qed
qed

text \<open>
  The requests of a routine run in the order they were added, each once: what was started is a prefix of
  what was added, the rest waits in the list, at most the last one started is unfinished, the mutex has at
  most one holder, and the list is never empty when its head is taken.
\<close>

theorem routine_order:
  assumes "routine_reachable s"
  shows "started s @ reqQueue (pR s) = added s \<and> finished s @ in_hand (worker s) = started s \<and> length (started s) \<le> length (finished s) + 1
    \<and> \<not> (worker_locks (worker s) \<and> main_locks (main_th s)) \<and> (worker s = W_Take \<longrightarrow> worker_stmt s \<noteq> None)"
proof -
  have inv: "routine_inv s" by (rule routine_inv [OF assms])
  then have "length (started s) = length (finished s) + length (in_hand (worker s))"
    unfolding routine_inv_def by (metis length_append)
  moreover have "length (in_hand (worker s)) \<le> 1" by (cases "worker s") simp_all
  moreover have "worker_stmt s \<noteq> None" if "worker s = W_Take"
    using inv that by (cases "reqQueue (pR s)") (simp_all add: routine_inv_def worker_stmt.simps next_work_def)
  ultimately show ?thesis using inv unfolding routine_inv_def by linarith
qed

text \<open>
  C8. No wake-up is lost and nothing deadlocks: when neither the routine nor the main thread can run a
  statement, the main thread is outside both functions and the routine sleeps with no request waiting and no
  shutdown asked for, or has ended after a shutdown.
\<close>

theorem routine_no_lost_wakeup:
  assumes "routine_reachable s" and "worker_stmt s = None" and "main_stmt s = None"
  shows "main_th s = M_Idle \<and> (worker s = W_Sleep \<and> reqQueue (pR s) = [] \<and> \<not> shutdown (pR s) \<and> finished s = added s
    \<or> worker s = W_Gone \<and> shutdown (pR s))"
  using routine_inv [OF assms(1)] assms(2,3)
  by (cases "worker s"; cases "main_th s"; cases "reqQueue (pR s)")
     (simp_all add: worker_stmt.simps main_stmt.simps routine_inv_def next_work_def split: if_splits)

text \<open>The routine alone, as long as it can run.\<close>

primrec worker_run :: "nat \<Rightarrow> 'w rsys \<Rightarrow> 'w rsys" where
  "worker_run 0 s = s"
| "worker_run (Suc k) s = (case worker_stmt s of None \<Rightarrow> s | Some t \<Rightarrow> worker_run k t)"

definition worker_rank :: "'w rsys \<Rightarrow> nat" where
  "worker_rank s = 6 * length (reqQueue (pR s)) + (case worker s of W_Lock \<Rightarrow> 4 | W_Relock \<Rightarrow> 4 | W_Test \<Rightarrow> 3 | W_Wait \<Rightarrow> 1 | W_Sleep \<Rightarrow> 0
     | W_Check \<Rightarrow> 2 | W_Take \<Rightarrow> 1 | W_Unlock w \<Rightarrow> 6 | W_Run w \<Rightarrow> 5 | W_ExitUnlock \<Rightarrow> 1 | W_Gone \<Rightarrow> 0)"

lemma worker_rank_less:
  assumes "routine_inv s" "worker_stmt s = Some t"
  shows "worker_rank t < worker_rank s"
  using assms by (cases "worker s"; cases "reqQueue (pR s)") (auto simp: worker_stmt.simps worker_rank_def routine_inv_def next_work_def split: if_splits)

lemma worker_run_done: "routine_inv s \<Longrightarrow> worker_rank s \<le> k \<Longrightarrow> worker_stmt (worker_run k s) = None \<and> routine_inv (worker_run k s) \<and> added (worker_run k s) = added s \<and> main_th (worker_run k s) = main_th s
  \<and> shutdown (pR (worker_run k s)) = shutdown (pR s)"
proof (induction k arbitrary: s)
  case 0
  then have "worker_stmt s = None" using worker_rank_less [of s] by (cases "worker_stmt s") auto
  then show ?case using 0 by simp
next
  case (Suc k)
  show ?case
  proof (cases "worker_stmt s")
    case None
    then show ?thesis using Suc.prems by simp
  next
    case (Some t)
    have "added t = added s \<and> main_th t = main_th s \<and> shutdown (pR t) = shutdown (pR s)" using Some
      by (auto simp: worker_stmt.simps next_work_def split: worker_pc.splits if_splits list.splits)
    then show ?thesis using Suc.IH [of t] worker_keeps [OF Suc.prems(1) Some] worker_rank_less [OF Suc.prems(1) Some] Suc.prems(2) Some by simp
  qed
qed

text \<open>
  A routine left alone serves everything: from any reachable state in which the main thread is outside
  both functions and no shutdown was asked for, its thread runs into \<open>pthread_cond_wait\<close> after a bounded
  number of statements, and has then finished every request that was added.
\<close>

theorem routine_serves_all:
  assumes "routine_reachable s" and "main_th s = M_Idle" and "\<not> shutdown (pR s)" and "worker_rank s \<le> k"
  shows "worker (worker_run k s) = W_Sleep \<and> finished (worker_run k s) = added s"
proof -
  have inv: "routine_inv s" by (rule routine_inv [OF assms(1)])
  let ?t = "worker_run k s"
  from worker_run_done [OF inv assms(4)] have t: "worker_stmt ?t = None" "routine_inv ?t" "added ?t = added s" "main_th ?t = M_Idle" "\<not> shutdown (pR ?t)"
    using assms(2,3) by auto
  then have "worker ?t = W_Sleep"
    by (cases "worker ?t"; cases "reqQueue (pR ?t)") (simp_all add: worker_stmt.simps routine_inv_def next_work_def split: if_splits)
  then show ?thesis using t by (cases "reqQueue (pR ?t)") (simp_all add: routine_inv_def)
qed

text \<open>Two requests added while the first one runs.\<close>

definition routine_demo :: "nat rsys" where
  "routine_demo = \<lparr>pR = \<lparr>shutdown = False, reqQueue = [8]\<rparr>, queue_lock = False, worker = W_Run 7, main_th = M_Idle,
     added = [7, 8], started = [7], finished = []\<rparr>"

text \<open>A schedule: the main thread calls \<open>addReqWork2Routine\<close>, or one of the two threads runs a statement.\<close>

datatype 'w routine_event = Call_Add 'w | Main | Worker

fun routine_exec :: "'w routine_event list \<Rightarrow> 'w rsys \<Rightarrow> 'w rsys option" where
  "routine_exec [] s = Some s"
| "routine_exec (Call_Add w # es) s = (if main_th s = M_Idle then routine_exec es (s\<lparr>main_th := A_Lock w\<rparr>) else None)"
| "routine_exec (Main # es) s = (case main_stmt s of None \<Rightarrow> None | Some t \<Rightarrow> routine_exec es t)"
| "routine_exec (Worker # es) s = (case worker_stmt s of None \<Rightarrow> None | Some t \<Rightarrow> routine_exec es t)"

lemma routine_exec_reachable: "routine_exec es s = Some t \<Longrightarrow> routine_reachable s \<Longrightarrow> routine_reachable t"
  by (induction es s rule: routine_exec.induct) (auto split: if_splits option.splits intro: routine_reachable.step routine_step.intros)

lemma routine_demo_reachable: "routine_reachable routine_demo"
proof (rule routine_exec_reachable [OF _ routine_reachable.start])
  show "routine_exec [Call_Add 7, Main, Main, Main, Main, Worker, Worker, Worker, Worker, Worker, Call_Add 8, Main, Main, Main, Main] routine_init
     = Some routine_demo"
    by (simp add: routine_init_def routine_demo_def main_stmt.simps worker_stmt.simps queue_work_def next_work_def cond_signal_def)
qed

theorem routine_order_witness: "started routine_demo @ reqQueue (pR routine_demo) = [7, 8]"
  using routine_order [OF routine_demo_reachable] by (simp add: routine_demo_def)

theorem routine_serves_all_witness: "finished (worker_run 11 routine_demo) = [7, 8]"
  using routine_serves_all [OF routine_demo_reachable, of 11] by (simp add: routine_demo_def worker_rank_def)

definition routine_asleep :: "nat rsys" where
  "routine_asleep = worker_run 11 routine_demo"

lemma worker_run_reachable: "routine_reachable s \<Longrightarrow> routine_reachable (worker_run k s)"
  by (induction k arbitrary: s) (auto split: option.split intro: routine_reachable.step routine_step.run_worker)

theorem routine_no_lost_wakeup_witness: "main_th routine_asleep = M_Idle \<and> finished routine_asleep = [7, 8]"
proof -
  have e: "routine_asleep = \<lparr>pR = \<lparr>shutdown = False, reqQueue = []\<rparr>, queue_lock = False, worker = W_Sleep, main_th = M_Idle,
     added = [7, 8], started = [7, 8], finished = [7, 8]\<rparr>"
    by (simp add: routine_asleep_def routine_demo_def worker_stmt.simps next_work_def eval_nat_numeral)
  have "routine_reachable routine_asleep" unfolding routine_asleep_def by (rule worker_run_reachable [OF routine_demo_reachable])
  from routine_no_lost_wakeup [OF this] show ?thesis by (simp add: e worker_stmt.simps main_stmt.simps)
qed

subsection \<open>Running a request and answering its client\<close>

datatype server_action = Device host_action | Feedback string int

definition issd_feedback :: "bool \<Rightarrow> ISSD_ReqPacket \<Rightarrow> int \<Rightarrow> int \<times> server_action list" where
  "issd_feedback open_ok p fl =
     (if \<not> open_ok then (-1, []) else (0, [Feedback (client_fifo_name (req_pid p) (reqSeq p)) fl]))"

text \<open>\<open>ret0\<close> is what the uninitialised \<open>ret\<close> holds. \<open>None\<close> is a request that never ends.\<close>

definition issd_compute_routine :: "os_env \<Rightarrow> bool \<Rightarrow> int \<Rightarrow> ISSD_ReqPacket \<Rightarrow> server_action list option" where
  "issd_compute_routine os open_ok ret0 p =
     (case (if opType p = ISSD_FILECOPY then issd_compute os (opType p) (ifname0 p) (ofname p) (devname p) ''''
            else if opType p = ISSD_MERGE then issd_compute os (opType p) (ifname0 p) (ofname p) (devname p) (ifname1 p)
            else Some (ret0, [])) of
        None \<Rightarrow> None
      | Some (ret, acts) \<Rightarrow> Some (List.map Device acts @ snd (issd_feedback open_ok p (cbool (ret = 0)))))"


subsection \<open>Dispatching\<close>

definition addReqWork2Routine :: "bool \<Rightarrow> 'w \<Rightarrow> int \<Rightarrow> 'w routine list \<Rightarrow> (int \<times> 'w routine list) option" where
  "addReqWork2Routine malloc_ok w idx rs =
     (if \<not> malloc_ok then Some (-1, rs)
      else if idx < 0 \<or> int (length rs) \<le> idx then None
      else Some (0, rs[nat idx := queue_work w (rs ! nat idx)]))"

definition dispatchReqPacket ::
    "bool \<Rightarrow> bool \<Rightarrow> ISSD_ReqPacket \<Rightarrow> devmap \<Rightarrow> ISSD_ReqPacket routine list
     \<Rightarrow> (server_action list \<times> devmap \<times> ISSD_ReqPacket routine list) option" where
  "dispatchReqPacket malloc_ok open_ok p m rs =
     (case getProcessRoutineIdx (length rs) (devname p) m of
        None \<Rightarrow> None
      | Some (idx, m) \<Rightarrow>
          (case addReqWork2Routine malloc_ok p idx rs of
             None \<Rightarrow> None
           | Some (r, rs) \<Rightarrow> Some (if r \<noteq> 0 then snd (issd_feedback open_ok p 0) else [], m, rs)))"

text \<open>
  A request for a device that finds the map full is dispatched to routine -1: the work is added to memory in
  front of the array, which is undefined.
\<close>

theorem dispatch_full_map_undefined:
  assumes "realDev (devname p) = Some r" and "map_ok (dev2thd m)" and "\<not> timer_expired m"
    and "\<forall>e \<in> set (dev2thd m). used e \<and> de_name e \<noteq> r"
  shows "dispatchReqPacket True open_ok p m rs = None"
proof -
  have "\<forall>i < length (dev2thd m). \<not> has_entry r (dev2thd m ! i)" using assms(4) by (auto simp: has_entry_def)
  then have none: "entry_of (dev2thd m) r = None" by (simp add: entry_of_None_iff [OF assms(2)])
  have full: "\<forall>j < length (dev2thd m). used (dev2thd m ! j)" using assms(4) by auto
  have "\<exists>m'. getProcessRoutineIdx (length rs) (devname p) m = Some (-1, m')"
    using device_lookup_result [OF assms(1,2), where t = "dev2thd m" and num = "length rs"] assms(3) none full by (auto simp del: all_nth_imp_all_set)
  then show ?thesis by (auto simp: dispatchReqPacket_def addReqWork2Routine_def)
qed

subsection \<open>The server\<close>

text \<open>
  The main loop takes packets from the ring and dispatches them; the routines run beside it. What a routine
  holds is the packet its thread works on. \<open>dispatched\<close> and \<open>begun\<close> are history variables.
\<close>

record server =
  dmap :: devmap
  works :: "ISSD_ReqPacket routine list"
  running :: "ISSD_ReqPacket option list"
  answers :: "server_action list"
  dispatched :: "ISSD_ReqPacket list"
  begun :: "ISSD_ReqPacket list"

datatype srv_event = Arrive ISSD_ReqPacket bool bool | Alarm | Begin nat | End nat

definition createProcessRoutines :: "nat \<Rightarrow> server" where
  "createProcessRoutines num =
     \<lparr>dmap = init_dev2Routine num, works = replicate num \<lparr>shutdown = False, reqQueue = []\<rparr>, running = replicate num None,
      answers = [], dispatched = [], begun = []\<rparr>"

text \<open>A routine that cannot begin or end leaves the server as it is; \<open>None\<close> is undefined behaviour.\<close>

fun srv_step :: "srv_event \<Rightarrow> server \<Rightarrow> server option" where
  "srv_step (Arrive p malloc_ok open_ok) s =
     (case dispatchReqPacket malloc_ok open_ok p (dmap s) (works s) of
        None \<Rightarrow> None
      | Some (acts, m, rs) \<Rightarrow> Some (s\<lparr>dmap := m, works := rs, answers := answers s @ acts,
          dispatched := dispatched s @ (if malloc_ok then [p] else [])\<rparr>))"
| "srv_step Alarm s = Some (s\<lparr>dmap := alarm_handler (dmap s)\<rparr>)"
| "srv_step (Begin i) s =
     (if i < length (works s) \<and> running s ! i = None
      then (case next_work (works s ! i) of
              None \<Rightarrow> Some s
            | Some (p, r) \<Rightarrow> Some (s\<lparr>works := (works s)[i := r], running := (running s)[i := Some p], begun := begun s @ [p]\<rparr>))
      else Some s)"
| "srv_step (End i) s = Some (if i < length (works s) then s\<lparr>running := (running s)[i := None]\<rparr> else s)"

fun srv_run :: "srv_event list \<Rightarrow> server \<Rightarrow> server option" where
  "srv_run [] s = Some s"
| "srv_run (e # es) s = (case srv_step e s of None \<Rightarrow> None | Some t \<Rightarrow> srv_run es t)"

abbreviation dev_of :: "ISSD_ReqPacket \<Rightarrow> string option" where
  "dev_of p \<equiv> realDev (devname p)"

text \<open>The routine a packet goes to under a device map.\<close>

definition routed :: "server \<Rightarrow> ISSD_ReqPacket \<Rightarrow> nat option" where
  "routed s p = (case dev_of p of None \<Rightarrow> None
     | Some r \<Rightarrow> (case entry_of (dev2thd (dmap s)) r of None \<Rightarrow> None | Some k \<Rightarrow> Some (k mod length (works s))))"

definition server_inv :: "server \<Rightarrow> bool" where
  "server_inv s \<longleftrightarrow> map_ok (dev2thd (dmap s)) \<and> \<not> timer_expired (dmap s) \<and> length (running s) = length (works s)
     \<and> (\<forall>p \<in> set (dispatched s). \<exists>i < length (works s). routed s p = Some i) \<and> set (begun s) \<subseteq> set (dispatched s)
     \<and> (\<forall>i < length (works s). filter (\<lambda>p. routed s p = Some i) (begun s) @ reqQueue (works s ! i) = filter (\<lambda>p. routed s p = Some i) (dispatched s))
     \<and> (\<forall>i < length (works s). \<forall>p. running s ! i = Some p \<longrightarrow> p \<in> set (begun s) \<and> routed s p = Some i)"

lemma server_inv_init: "server_inv (createProcessRoutines num)"
  by (simp add: server_inv_def createProcessRoutines_def init_dev2Routine_def map_ok_def)

lemma queued_routed: "server_inv s \<Longrightarrow> i < length (works s) \<Longrightarrow> p \<in> set (reqQueue (works s ! i)) \<Longrightarrow> p \<in> set (dispatched s) \<and> routed s p = Some i"
proof -
  assume a: "server_inv s" "i < length (works s)" "p \<in> set (reqQueue (works s ! i))"
  then have "filter (\<lambda>p. routed s p = Some i) (begun s) @ reqQueue (works s ! i) = filter (\<lambda>p. routed s p = Some i) (dispatched s)"
    by (simp add: server_inv_def)
  with a(3) have "p \<in> set (filter (\<lambda>p. routed s p = Some i) (dispatched s))" by (metis Un_iff set_append)
  then show ?thesis by simp
qed

lemma arrive_keeps:
  assumes inv: "server_inv s" and step: "srv_step (Arrive p True ok) s = Some t"
  shows "server_inv t"
proof -
  let ?n = "length (works s)" and ?m = "dmap s"
  from step obtain idx m' where g: "getProcessRoutineIdx ?n (devname p) ?m = Some (idx, m')" and idx: "0 \<le> idx" "idx < int ?n"
    and t: "t = s\<lparr>dmap := m', works := (works s)[nat idx := queue_work p (works s ! nat idx)], dispatched := dispatched s @ [p]\<rparr>"
    by (auto simp: dispatchReqPacket_def addReqWork2Routine_def not_less not_le split: option.splits prod.splits if_splits)
  from g obtain r where r: "dev_of p = Some r" by (auto simp: getProcessRoutineIdx_def split: option.splits)
  have m: "map_ok (dev2thd ?m)" "\<not> timer_expired ?m" using inv by (simp_all add: server_inv_def)
  have look: "map_ok (dev2thd m') \<and> \<not> timer_expired m' \<and> (\<forall>q. q \<noteq> r \<longrightarrow> entry_of (dev2thd m') q = entry_of (dev2thd ?m) q)
    \<and> (\<exists>k. entry_of (dev2thd m') r = Some k \<and> idx = int (k mod ?n) \<and> (\<forall>i. entry_of (dev2thd ?m) r = Some i \<longrightarrow> i = k))"
    using device_lookup_result [OF r m(1), where t = "dev2thd ?m" and num = ?n] m(2) g idx(1)
    by (auto split: option.splits if_splits)
  have len: "length (works t) = ?n" by (simp add: t)
  have stays: "routed t q = routed s q" if "routed s q \<noteq> None" for q
  proof -
    from that obtain x k where "dev_of q = Some x" "entry_of (dev2thd ?m) x = Some k" by (auto simp: routed_def split: option.splits)
    then show ?thesis using look len by (cases "x = r") (auto simp: routed_def t)
  qed
  have rp: "routed t p = Some (nat idx)" using look len r by (auto simp: routed_def t)
  have fl: "filter (\<lambda>q. routed t q = Some i) xs = filter (\<lambda>q. routed s q = Some i) xs" if "set xs \<subseteq> set (dispatched s)" for i xs
    using that inv stays unfolding server_inv_def by (intro filter_cong) (metis option.distinct(1) subsetD)+
  have i0: "nat idx < ?n" using idx by linarith
  have 1: "filter (\<lambda>q. routed t q = Some i) (begun t) @ reqQueue (works t ! i) = filter (\<lambda>q. routed t q = Some i) (dispatched t)" if i: "i < ?n" for i
  proof -
    have b: "begun t = begun s" "dispatched t = dispatched s @ [p]" by (simp_all add: t)
    have q: "reqQueue (works t ! i) = reqQueue (works s ! i) @ (if i = nat idx then [p] else [])"
      using i i0 by (auto simp: t queue_work_def nth_list_update)
    have old: "filter (\<lambda>q. routed s q = Some i) (begun s) @ reqQueue (works s ! i) = filter (\<lambda>q. routed s q = Some i) (dispatched s)"
      "set (begun s) \<subseteq> set (dispatched s)" using inv i by (simp_all add: server_inv_def)
    show ?thesis unfolding b q using old(1) rp by (simp add: fl [OF old(2)] fl [OF subset_refl])
  qed
  have "\<exists>i < ?n. routed t q = Some i" if "q \<in> set (dispatched t)" for q
  proof (cases "q = p")
    case True
    then show ?thesis using rp i0 by blast
  next
    case False
    then have "q \<in> set (dispatched s)" using that by (simp add: t)
    then obtain i where "i < ?n" "routed s q = Some i" using inv unfolding server_inv_def by blast
    then show ?thesis using stays [of q] by simp
  qed
  moreover have "q \<in> set (begun t) \<and> routed t q = Some i" if "i < ?n" "running t ! i = Some q" for i q
    
  proof -
    have "q \<in> set (begun s)" "routed s q = Some i" using that inv by (simp_all add: t server_inv_def)
    then show ?thesis using stays [of q] by (simp add: t)
  qed
  moreover have "set (begun t) \<subseteq> set (dispatched t)" "length (running t) = ?n" "dmap t = m'" using inv by (auto simp: t server_inv_def)
  ultimately show ?thesis using 1 look unfolding server_inv_def len by simp
qed

lemma begin_keeps:
  assumes inv: "server_inv s" and step: "srv_step (Begin i) s = Some t"
  shows "server_inv t"
proof (cases "i < length (works s) \<and> running s ! i = None \<and> reqQueue (works s ! i) \<noteq> []")
  case False
  then have "t = s" using step by (auto simp: next_work_def split: if_splits list.splits)
  then show ?thesis using inv by simp
next
  case True
  then obtain p ps where q: "reqQueue (works s ! i) = p # ps" by (cases "reqQueue (works s ! i)") auto
  then have t: "t = s\<lparr>works := (works s)[i := (works s ! i)\<lparr>reqQueue := ps\<rparr>], running := (running s)[i := Some p], begun := begun s @ [p]\<rparr>"
    using step True by (simp add: next_work_def)
  have p: "p \<in> set (dispatched s)" "routed s p = Some i" using queued_routed [OF inv, of i p] True q by simp_all
  have r: "routed t = routed s" by (rule ext) (simp add: routed_def t split: option.split)
  have "filter (\<lambda>q. routed s q = Some j) (begun s @ [p]) @ reqQueue (works t ! j) = filter (\<lambda>q. routed s q = Some j) (dispatched s)" if "j < length (works s)" for j
  proof -
    have "filter (\<lambda>q. routed s q = Some j) (begun s) @ reqQueue (works s ! j) = filter (\<lambda>q. routed s q = Some j) (dispatched s)"
      using inv that by (simp add: server_inv_def)
    then show ?thesis using p(2) q that by (cases "j = i") (simp_all add: t)
  qed
  moreover have "running t ! j = (if j = i then Some p else running s ! j)" if "j < length (works s)" for j
    using that inv by (simp add: t server_inv_def nth_list_update)
  ultimately show ?thesis using inv p unfolding server_inv_def r by (auto simp: t)
qed

lemma end_keeps: "server_inv s \<Longrightarrow> srv_step (End i) s = Some t \<Longrightarrow> server_inv t"
proof -
  assume inv: "server_inv s" and step: "srv_step (End i) s = Some t"
  have r: "routed t = routed s" using step by (intro ext) (auto simp: routed_def split: option.split if_splits)
  have run: "running t ! j = None \<or> running t ! j = running s ! j" if "j < length (running s)" for j
    using step that by (cases "j = i") (auto split: if_splits)
  have same: "dmap t = dmap s" "works t = works s" "dispatched t = dispatched s" "begun t = begun s" "length (running t) = length (running s)"
    using step by (auto split: if_splits)
  show "server_inv t" using inv run unfolding server_inv_def r same by (metis option.distinct(1))
qed

lemma server_inv_run:
  "srv_run es s = Some t \<Longrightarrow> server_inv s \<Longrightarrow> Alarm \<notin> set es \<Longrightarrow> (\<forall>p ok. Arrive p False ok \<notin> set es) \<Longrightarrow> server_inv t"
proof (induction es arbitrary: s)
  case (Cons e es)
  then obtain u where u: "srv_step e s = Some u" "srv_run es u = Some t" by (auto split: option.splits)
  have "server_inv u"
  proof (cases e)
    case (Arrive p b ok)
    then have "b" using Cons.prems(4) by (cases b) auto
    then show ?thesis using arrive_keeps [OF Cons.prems(2)] u(1) Arrive by simp
  next
    case Alarm then show ?thesis using Cons.prems(3) by simp
  next
    case (Begin i) then show ?thesis using begin_keeps [OF Cons.prems(2), of i u] u(1) by (simp del: srv_step.simps)
  next
    case (End i) then show ?thesis using end_keeps [OF Cons.prems(2), of i u] u(1) by (simp del: srv_step.simps)
  qed
  then show ?case using Cons.IH [OF u(2)] Cons.prems by simp
qed simp


definition request :: "string \<Rightarrow> int \<Rightarrow> ISSD_ReqPacket" where
  "request dev seq = \<lparr>ifname0 = ''/a'', ifname1 = '''', ofname = ''/b'', devname = dev, opType = ISSD_FILECOPY, req_pid = 1, reqSeq = seq\<rparr>"

lemmas srv_run_simps = createProcessRoutines_def init_dev2Routine_def dispatchReqPacket_def addReqWork2Routine_def getProcessRoutineIdx_def
  realDev_def isdigit_def request_def queue_work_def next_work_def alarm_handler_def refresh_def



theorem dispatch_full_map_undefined_witness:
  "dispatchReqPacket True True (request ''/dev/sdd1'' 1) \<lparr>timer_expired = False, dev2thd = [\<lparr>de_name = ''sdb'', used = True, flag = True\<rparr>, \<lparr>de_name = ''sdc'', used = True, flag = True\<rparr>]\<rparr> [\<lparr>shutdown = False, reqQueue = []\<rparr>] = None"
proof (rule dispatch_full_map_undefined)
  show "realDev (devname (request ''/dev/sdd1'' 1)) = Some ''sdd''" by (simp add: request_def realDev_def isdigit_def)
qed (auto simp: map_ok_def less_Suc_eq)

text \<open>
  C37. The hourly refresh may give a device that is being worked on a second routine: a device that was not asked
  for during a whole period loses its entry although its routine still runs or has requests waiting. Its
  next request then goes to another routine, and two routines work on the device at the same time.
\<close>

definition refresh_history :: "srv_event list" where
  "refresh_history = [Arrive (request ''/dev/sdb1'' 1) True True, Begin 0, Alarm, Arrive (request ''/dev/sdc1'' 2) True True, Alarm,
     Arrive (request ''/dev/sdd1'' 3) True True, Arrive (request ''/dev/sdb1'' 4) True True, Begin 2]"


subsection \<open>The main loop and the options\<close>

text \<open>\<open>k\<close> turns of the main loop; it stops at an empty ring, where \<open>getNextReqPacket\<close> blocks.\<close>

fun serve_loop :: "nat \<Rightarrow> ISSD_ReqPacket ring \<Rightarrow> server \<Rightarrow> (ISSD_ReqPacket ring \<times> server) option" where
  "serve_loop 0 q s = Some (q, s)"
| "serve_loop (Suc k) q s =
     (case getNextReqPacket q of
        None \<Rightarrow> Some (q, s)
      | Some (p, q) \<Rightarrow> (case srv_step (Arrive p True True) s of None \<Rightarrow> None | Some s \<Rightarrow> serve_loop k q s))"

lemma arrive_effect: "srv_step (Arrive p True ok) s = Some t \<Longrightarrow> dispatched t = dispatched s @ [p] \<and> begun t = begun s \<and> answers t = answers s"
  by (auto simp: dispatchReqPacket_def addReqWork2Routine_def split: option.splits prod.splits if_splits)

lemma serve_loop_order:
  "serve_loop k q s = Some (q', s') \<Longrightarrow> ring_ok q \<Longrightarrow> dispatched s' = dispatched s @ take k (ring_content q) \<and> ring_content q' = drop k (ring_content q)
     \<and> ring_ok q' \<and> begun s' = begun s \<and> (server_inv s \<longrightarrow> server_inv s')"
proof (induction k q s rule: serve_loop.induct)
  case (2 k q s)
  show ?case
  proof (cases "ring_content q")
    case Nil
    then show ?thesis using 2(2,3) rq.deq_empty [OF 2(3)] by simp
  next
    case (Cons p ps)
    from rq.deq_front [OF 2(3) this] obtain q1 where q1: "getNextReqPacket q = Some (p, q1)" "ring_ok q1" "ring_content q1 = ps" by blast
    from 2(2) q1(1) obtain s1 where s1: "srv_step (Arrive p True True) s = Some s1" "serve_loop k q1 s1 = Some (q', s')"
      by (auto simp del: srv_step.simps split: option.splits)
    have "dispatched s1 = dispatched s @ [p]" "begun s1 = begun s" using arrive_effect [OF s1(1)] by simp_all
    moreover have "server_inv s \<longrightarrow> server_inv s1" using arrive_keeps s1(1) by blast
    moreover note 2(1) [OF q1(1) refl s1(1,2) q1(2)]
    ultimately show ?thesis unfolding Cons q1(3) by (simp add: q1(3))
  qed
qed simp

lemma serve_loop_works: "serve_loop k q s = Some (q', s') \<Longrightarrow> length (works s') = length (works s)"
proof (induction k q s rule: serve_loop.induct)
  case (2 k q s)
  have "length (works t) = length (works s)" if "srv_step (Arrive p True True) s = Some t" for p t
    using that by (auto simp: dispatchReqPacket_def addReqWork2Routine_def split: option.splits prod.splits if_splits)
  then show ?case using 2 by (auto simp del: srv_step.simps split: option.splits prod.splits)
qed simp

text \<open>
  The main loop hands the packets of the ring to the routines in the order of the ring: after \<open>k\<close> turns the
  first \<open>k\<close> waiting packets have been dispatched, each to the end of the list of the one routine its device
  has, and the others still wait.
\<close>

theorem serve_in_ring_order:
  assumes "ring_ok q" and "serve_loop k q (createProcessRoutines num) = Some (q', s)"
  shows "dispatched s = take k (ring_content q) \<and> ring_content q' = drop k (ring_content q) \<and> ring_ok q'
    \<and> (\<forall>p \<in> set (dispatched s). \<exists>i < num. routed s p = Some i \<and> reqQueue (works s ! i) = filter (\<lambda>x. routed s x = Some i) (dispatched s))"
proof -
  note o = serve_loop_order [OF assms(2,1)]
  have inv: "server_inv s" using o server_inv_init by blast
  have b: "begun s = []" using o by (simp add: createProcessRoutines_def)
  have len: "length (works s) = num" using serve_loop_works [OF assms(2)] by (simp add: createProcessRoutines_def)
  have "reqQueue (works s ! i) = filter (\<lambda>x. routed s x = Some i) (dispatched s)" if "i < num" for i
    using inv that len b by (simp add: server_inv_def)
  moreover have "\<forall>p \<in> set (dispatched s). \<exists>i < num. routed s p = Some i" using inv len by (simp add: server_inv_def)
  ultimately show ?thesis using o by (auto simp: createProcessRoutines_def)
qed

theorem serve_in_ring_order_witness:
  "\<exists>q s. serve_loop 1 (ring_enq (request ''/dev/sdb1'' 1) (new_ring 3 (request '''' 0))) (createProcessRoutines 2) = Some (q, s)
     \<and> dispatched s = [request ''/dev/sdb1'' 1]"
proof -
  let ?r = "new_ring 3 (request '''' 0)" and ?p = "request ''/dev/sdb1'' 1"
  have r: "ring_ok ?r" "ring_content ?r = []" "0 < empty ?r" using ring_ok_new [of 3 "request '''' 0"] by (simp_all add: new_ring_def)
  have c: "ring_ok (ring_enq ?p ?r)" "ring_content (ring_enq ?p ?r) = [?p]" using ring_enq_content [OF r(1,3)] r(2) by simp_all
  from rq.deq_front [OF c] obtain q where q: "getNextReqPacket (ring_enq ?p ?r) = Some (?p, q)" by blast
  have "srv_step (Arrive ?p True True) (createProcessRoutines 2) \<noteq> None"
    by (simp add: srv_run_simps eval_nat_numeral)
  then obtain s where s: "serve_loop 1 (ring_enq ?p ?r) (createProcessRoutines 2) = Some (q, s)"
    using q by (auto simp del: srv_step.simps split: option.split)
  from serve_in_ring_order [OF c(1) s] show ?thesis using c(2) s by auto
qed

text \<open>
  The options as \<open>getopt_long\<close> returns them, each with its argument; \<open>atoi\<close> is \<open>None\<close> where the C library
  leaves it undefined.
\<close>

definition atoi :: "string \<Rightarrow> int option" where
  "atoi s = (let s = dropWhile isspace s;
       neg = (s \<noteq> [] \<and> hd s = CHR ''-'');
       s = (if s \<noteq> [] \<and> (hd s = CHR ''-'' \<or> hd s = CHR ''+'') then tl s else s);
       v = int (undec (takeWhile isdigit s));
       v = (if neg then - v else v)
     in if int32 v = v then Some v else None)"

fun parse_option :: "(char \<times> string) list \<Rightarrow> int \<times> int \<Rightarrow> (int \<times> int) option" where
  "parse_option [] c = Some c"
| "parse_option ((opt, optarg) # os) (items, num) =
     (if opt = CHR ''n'' then (case atoi optarg of None \<Rightarrow> None | Some v \<Rightarrow> parse_option os (v, num))
      else if opt = CHR ''d'' then (case atoi optarg of None \<Rightarrow> None | Some v \<Rightarrow> parse_option os (items, v))
      else parse_option os (items, num))"

lemma atoi_dec_int:
  assumes "int32 i = i"
  shows "atoi (dec_int i) = Some i"
proof -
  have hd: "\<exists>d < 10. hd (dec_nat n) = digit d" "dec_nat n \<noteq> []" for n
  proof -
    show ne: "dec_nat n \<noteq> []" by (subst dec_nat.simps) simp
    show "\<exists>d < 10. hd (dec_nat n) = digit d" using dec_nat_chars [OF hd_in_set [OF ne]] .
  qed
  have sp: "dropWhile isspace (dec_nat n) = dec_nat n" "hd (dec_nat n) \<noteq> CHR ''-''" "hd (dec_nat n) \<noteq> CHR ''+''" for n
  proof -
    obtain d where d: "d < 10" "hd (dec_nat n) = digit d" using hd(1) by blast
    then have "(of_char (hd (dec_nat n)) :: nat) = 48 + d" by (simp add: digit_def)
    then have "\<not> isspace (hd (dec_nat n))" and "hd (dec_nat n) \<noteq> CHR ''-''" and "hd (dec_nat n) \<noteq> CHR ''+''"
      using d(1) by (auto simp: isspace_def)
    then show "dropWhile isspace (dec_nat n) = dec_nat n" "hd (dec_nat n) \<noteq> CHR ''-''" "hd (dec_nat n) \<noteq> CHR ''+''"
      using hd(2) [of n] by (cases "dec_nat n"; simp)+
  qed
  have m: "\<not> isspace (CHR ''-'')" by (simp add: isspace_def)
  show ?thesis using assms sp hd(2) m by (auto simp: atoi_def dec_int_def Let_def takeWhile_digits undec_dec_nat)
qed

text \<open>
  The options \<open>-n\<close> and \<open>-d\<close>: a number printed in decimal is read back, the last of each option wins, and
  the other options change neither.
\<close>

theorem options_roundtrip:
  assumes "int32 i = i" and "int32 j = j"
  shows "parse_option [(CHR ''n'', dec_int i), (CHR ''v'', s), (CHR ''d'', dec_int j)] c = Some (i, j)"
  by (cases c) (simp add: atoi_dec_int assms)

theorem options_roundtrip_witness: "parse_option [(CHR ''n'', dec_int 32), (CHR ''v'', []), (CHR ''d'', dec_int (- 4))] (10, 10) = Some (32, -4)"
  by (rule options_roundtrip) (simp_all add: int32_def)

end
