(* ===== verification/Spec2Isabelle.thy ===== *)
theory Spec2Isabelle
  imports Client_Lib Copy_Path Dac_Full Dac_Store Dev_Name Ftl_Host Greedy_Open Jasmine_Config Req_Queue Req_Server
begin

text \<open>
  In-storage computing on the OpenSSD Jasmine board: a user program asks a server on the host to copy a
  file, and the copy is made by the firmware of the disk without the data passing through the host.

  The parts and how they interact.

  1. A client process (\<open>PCModule2/client\<close>) puts a request packet into a ring in shared memory and waits on
  a pipe of its own for the answer.
  2. The server (\<open>PCModule2/server\<close>) takes packets from the ring and calls \<open>issd_compute\<close>: it asks the file
  system for the blocks of the input, allocates the output, merges the blocks of both into extents of
  sectors, and sends the command in 512-byte packets with the ATA command WRITE BUFFER. It then polls with
  READ BUFFER until the device sets a flag in the command.
  3. The firmware (\<open>OpenSSD-1.1.0\<close>) receives ATA commands by an interrupt (\<open>sata/\<close>). Reads and writes go
  through a hardware event queue to the translation layer; the others are put into one slot and handled by
  the main loop. WRITE BUFFER gathers the packets of a command and calls \<open>issd_process_cmd\<close>.
  4. The copy (\<open>issd/issd.c\<close>) reads and writes sectors through the tutorial translation layer
  (\<open>ftl_tutorial/ftl.c\<close>), which maps logical pages to flash rows and takes fresh rows for every write.
  5. Below it are the flash driver (\<open>target_spw/flash.c\<close>, \<open>flash_wrapper.c\<close>) and the memory utilities
  (\<open>target_spw/mem_util.c\<close>) with the controller and the memory engine of the chip.

  Theories, from the bottom up.

  \<^item> \<open>Issd_Prelude\<close>: words of the machine (\<open>u8\<close>, \<open>u16\<close>, \<open>u32\<close>), C division, byte and word views of a memory
    given as a function from byte addresses to 32-bit words, the collections \<open>geom\<close> (build constants) and
    \<open>wrap_simps\<close>, and the locale \<open>fifo\<close>, the contract of a bounded queue.
  \<^item> \<open>Jasmine_Config\<close> (\<open>include/jasmine.h\<close>, \<open>nand.h\<close>, \<open>bank.h\<close>): the constants of the configured board and the
    two bank tables. The tables agree.
  \<^item> \<open>Mem_Util\<close> (\<open>target_spw/mem_util.c\<close>): every routine on a machine \<open>mstate\<close> with the memory engine as the
    parameter \<open>mu_engine\<close>. The routines refine a logical memory of words, the type \<open>dram\<close> the layers above use.
  \<^item> \<open>Flash_Ctrl\<close> (\<open>flash.c\<close>, \<open>flash_wrapper.c\<close>): the command registers \<open>fcp_t\<close>, the state \<open>fstate\<close> with flash
    pages, DRAM and the trace of issued commands and waits; the controller is the parameter \<open>flash_hw\<close> with
    the documented meaning of its commands as \<open>flash_ok\<close>. Copyback, erase, program and read.
  \<^item> \<open>Ftl_Common\<close>: what the translation layers share: setting up a command by hand, the fill of a buffer by the
    buffer manager (\<open>host_delivers\<close>), scan lists as words.
  \<^item> \<open>Page_Requests\<close>: the locales \<open>page_writes\<close> and \<open>page_reads\<close>. A layer that serves a request page by page gives
    the effect of one page; the effect of the whole request on sectors and buffers is proved once.
  \<^item> \<open>Ftl_Tutorial\<close> (\<open>ftl_tutorial/ftl.c\<close>, \<open>ftl.h\<close>): the DRAM layout macro by macro, the state \<open>tstate\<close> (page
    map and scan lists in the DRAM, \<open>g_target_row\<close>, buffer pointers), all functions of the layer. The abstract
    state is a store of sectors (\<open>sec\<close>) and, for every bank, the queue of rows that can still be handed out
    (\<open>free_rows\<close>). The invariant is \<open>tut_store_inv\<close>.
  \<^item> \<open>Ftl_Host\<close>: what the tutorial layer promises the host. \<open>ftl_open\<close> brings any device that obeys the flash
    laws into the invariant with an empty store; \<open>ftl_write\<close> stores the sectors the buffer manager receives
    (both page loops are interpretations of the locales above); \<open>ftl_read\<close> delivers the sectors into the read
    buffers in turn; \<open>is_bad_block\<close> misses the last entry of its list.
  \<^item> \<open>Greedy_Ftl\<close> (\<open>ftl_greedy/ftl.c\<close>, \<open>ftl.h\<close>): the greedy layer, another translation layer of the firmware:
    its DRAM layout, the state \<open>gstate\<close> (metadata of every bank in the SRAM; page map, counts of valid pages and bad
    blocks in the DRAM) and all its functions.
  \<^item> \<open>Greedy_Gc\<close>: the invariant of a bank (\<open>bank_ok\<close>: which logical page a flash page holds, the lists in the last
    pages, the counts, the free blocks) and garbage collection, which takes the block with the fewest valid
    pages and keeps what every logical page holds; and the logical page that a collection can corrupt.
  \<^item> \<open>Greedy_Store\<close>: a new page for a write in its three cases, the write and the read of a page, and whole requests as
    interpretations of the locales of \<open>Page_Requests\<close>. Writes store, reads deliver and a write never runs out of pages:
    there are more data blocks than the pages of a bank can fill (\<open>few_valid\<close>).
  \<^item> \<open>Greedy_Open\<close>: \<open>ftl_open\<close> of the greedy layer, part by part: the bitmap of bad blocks, the format, the assignment of the
    blocks by counting the good ones, the first logs, which go to blank pages and leave the tables alone, and the mark. Together they
    bring any device with enough good blocks into the invariant of \<open>Greedy_Store\<close> with no page mapped.
  \<^item> \<open>Dac_Ftl\<close> (\<open>ftl_dac/ftl.c\<close>, \<open>ftl.h\<close>): the layer that sorts pages into regions by how often they are written
    (dynamic data clustering): its DRAM layout, the state \<open>dstate\<close> (metadata and regions of every bank in the SRAM; page map,
    counts, ages and regions of the blocks in the DRAM) and all its functions. Loops of the code that need not end are
    partial functions. Names this layer shares with the greedy one have the prefix \<open>da_\<close>.
  \<^item> \<open>Dac_Log\<close>: the logs of that layer in the flash: what a flush of a table programs and where
    (\<open>flush_run\<close>, \<open>flush_data\<close>), what a load reads back (\<open>loaded\<close>), and that a flush never erases.
  \<^item> \<open>Dac_Recovery\<close>: the page with the metadata of a bank and its counts, the scan for it, and \<open>ftl_flush\<close> followed by
    \<open>load_metadata\<close> as a whole: power-off recovery.
  \<^item> \<open>Dac_Store\<close>: what that layer holds for the host (\<open>dac_word\<close>). Reads deliver it (an interpretation of \<open>page_reads\<close>), and
    after a flush and the loss of the memory \<open>ftl_open\<close> brings it back.
  \<^item> \<open>Dac_Full\<close>: the counts of valid pages, the victim of a collection and the next page of a region; a full bank whose open block
    holds no valid page any more stops the layer.
  \<^item> \<open>Backup_Op\<close> (\<open>issd/issd.c\<close>): the locale \<open>sector_store\<close> states what the copy needs of a layer; the copy is
    proved in it and the tutorial layer is its interpretation \<open>tut\<close>.
  \<^item> \<open>Sata_Cmd\<close> (\<open>sata/sata_cmd.c\<close>, \<open>sata_table.c\<close>, \<open>sata_identify.c\<close>): the command tables, every handler as a
    function of address, length and state. The locale \<open>command_buffer\<close> is what gathering the packets needs;
    it is interpreted on the tutorial layer.
  \<^item> \<open>Sata_Isr\<close> (\<open>sata/sata_isr.c\<close>, \<open>sata_main.c\<close>): the interrupt handler and the main loop cut into steps
    where an interrupt changes what it does; a history is a list of interrupts and steps.
  \<^item> \<open>Host_Types\<close>, \<open>Req_Queue\<close>, \<open>Client_Lib\<close> (\<open>reqQueue.c\<close>, \<open>issd_Compute_client.c\<close>, \<open>atomic.h\<close>): the request
    packet; the ring, its layout and both operations statement by statement under every interleaving, and called
    without interference as an interpretation of \<open>fifo\<close>; the
    client's reference count, sequence numbers and pipes.
  \<^item> \<open>Compute_Cmd\<close> (\<open>issd_compute.c\<close>, \<open>sataCom.c\<close>): blocks, extents, the command and its packets, the poll
    loop, and \<open>issd_compute\<close> with the list of what it does to the host's files and to the device.
  \<^item> \<open>Dev_Name\<close> (\<open>getDevname.c\<close>): the search of \<open>/sys/block\<close> as a function of a directory tree.
  \<^item> \<open>Req_Server\<close> (\<open>reqPRoutine.c\<close>, \<open>issd_server_main.c\<close>): the map from devices to routines and its hourly
    refresh; the work list of a routine, with the statements of its thread and of the main thread under every
    interleaving; what a routine does with a request and the answer its client gets; the main loop over the
    ring. The work list is an interpretation of \<open>fifo\<close>.
  \<^item> \<open>Copy_Path\<close>: both sides together; the command the host builds and sends is received, decoded and executed
    by the device, and the destination file then holds the source file.

  What the lemmas show, by component: the invariants (ring, reference count, store of sectors), the
  functional behaviour of every operation a property names including its failures, the refinement of the
  logical memory, the sector store and the free-row queue, the round trips of the stores and of the packets,
  the bounds of the layouts, and the behaviours where the code does not do what it means to: a counter
  that can step over its limit, a failed copy that is not reported, a command that is lost while another
  runs, a range check that wraps, an output file that is removed although it was not created.

  Numbers. Addresses and counts of the firmware are \<open>nat\<close> with \<open>wrap32\<close> written out where a sum can pass
  2 ^ 32, register values and data are words. C ints are \<open>int\<close> with \<open>int32\<close> where a conversion wraps. An
  assertion that fails, and a loop that never ends, is \<open>None\<close>.

  Loops. All are structural, have a measure, or are \<open>partial_function (option)\<close> with a theorem that they
  return (the chunks of a copy, the fill of a memory) or exactly when they do not (the poll of the host, the
  search for a free page on a full bank). There is no fuel.

  Parameters. The flash controller, the memory engine, the SATA interface's data port and event queue, the
  system calls of the host. Each has its laws as a named predicate and a concrete instance that satisfies
  it, which the witnesses use.

  Not modelled. The boot code, serial port, timers and the programming of the SATA interface at reset: pure
  device registers. The bad block installer: a Windows program around a vendor driver. The
  translation layers \<open>ftl_faster\<close> and \<open>ftl_dummy\<close>, which have no sector routines for the in-storage
  operation and are not linked with it (nor are the greedy layer and \<open>ftl_dac\<close>, the two alternatives that are modelled). What
  the greedy layer would load from its logs is modelled without theorems: \<open>ftl_open\<close> never loads it. The writes
  and the garbage collection of \<open>ftl_dac\<close> are modelled without an invariant: a write invalidates the count of its old page before it
  collects blocks, while the page map still names that page, and a collection can then copy it and count it again
  (and \<open>Dac_Full\<close> shows a write that stops). The help
  texts and the log file of the server. The first version of the host program (\<open>PCModule\<close>), replaced
  by \<open>PCModule2\<close>. Debug output is left out everywhere.
\<close>

end
